(* ===== verification/VI_Prelude.thy ===== *)
theory VI_Prelude
  imports Main "HOL-Library.Word"
begin

text \<open>
  Shared vocabulary of the development: the Python errors the modelled code raises, the
  result type of fallible operations with its sequencing operation, and generic facts on
  lists, sums and powers of two that several components use.
\<close>

section \<open>Errors and results\<close>

text \<open>The exceptions raised by the modelled functions. Messages are not modelled.\<close>

datatype py_error =
    ValueError | RuntimeError | AssertionError | AttributeError | KeyError | IndexError | TypeError
  | CausalityError | ZeroDivisionError | OverflowError

type_synonym 'a result = "py_error + 'a"

definition rbind :: "'e + 'a \<Rightarrow> ('a \<Rightarrow> 'e + 'b) \<Rightarrow> 'e + 'b" where
  "rbind r f = (case r of Inl e \<Rightarrow> Inl e | Inr a \<Rightarrow> f a)"

lemma rbind_simps [simp]:
  "rbind (Inl e) f = Inl e"
  "rbind (Inr a) f = f a"
  by (simp_all add: rbind_def)

lemma rbind_Inr_iff:
  "rbind r f = Inr b \<longleftrightarrow> (\<exists>a. r = Inr a \<and> f a = Inr b)"
  by (cases r) auto

lemma rbind_Inl_iff:
  "rbind r f = Inl e \<longleftrightarrow> r = Inl e \<or> (\<exists>a. r = Inr a \<and> f a = Inl e)"
  by (cases r) auto

text \<open>Running a fallible step over a list stops at the first error.\<close>

fun rmap :: "('a \<Rightarrow> 'e + 'b) \<Rightarrow> 'a list \<Rightarrow> 'e + 'b list" where
  "rmap f [] = Inr []"
| "rmap f (x # xs) = rbind (f x) (\<lambda>y. rbind (rmap f xs) (\<lambda>ys. Inr (y # ys)))"

lemma rmap_Inr_map: "(\<And>x. x \<in> set xs \<Longrightarrow> f x = Inr (g x)) \<Longrightarrow> rmap f xs = Inr (map g xs)"
  by (induction xs) auto

lemma rmap_InrD: "rmap f xs = Inr ys \<Longrightarrow> length ys = length xs \<and> (\<forall>i < length xs. f (xs ! i) = Inr (ys ! i))"
proof (induction xs arbitrary: ys)
  case Nil
  then show ?case by simp
next
  case (Cons x xs)
  then obtain y zs where "f x = Inr y" "rmap f xs = Inr zs" "ys = y # zs"
    by (auto simp: rbind_Inr_iff)
  with Cons.IH [of zs] show ?case
    by (auto simp: nth_Cons split: nat.split)
qed

lemma rmap_map: "rmap f (map g xs) = rmap (\<lambda>x. f (g x)) xs"
  by (induction xs) simp_all

lemma rmap_append: "rmap f (xs @ ys) = rbind (rmap f xs) (\<lambda>as. rbind (rmap f ys) (\<lambda>bs. Inr (as @ bs)))"
  by (induction xs) (auto simp: rbind_def split: sum.splits)

section \<open>Lists\<close>

lemma nth_map_upt0 [simp]: "i < n \<Longrightarrow> map f [0..<n] ! i = f i"
  by simp

lemma list_eq_nthI: "length xs = length ys \<Longrightarrow> (\<And>i. i < length xs \<Longrightarrow> xs ! i = ys ! i) \<Longrightarrow> xs = ys"
  by (simp add: list_eq_iff_nth_eq)

lemma sum_list_eq_sum_nth: "sum_list (xs :: 'a::comm_monoid_add list) = (\<Sum>i<length xs. xs ! i)"
  by (simp add: sum_list_sum_nth atLeast0LessThan)

lemma sum_list_map_upt: "sum_list (map f [0..<n]) = (\<Sum>i<n. f i)"
  for f :: "nat \<Rightarrow> 'a::comm_monoid_add"
  by (simp add: sum_list_eq_sum_nth)

lemma foldl_add_sum: "foldl (\<lambda>acc x. acc + f x) a xs = a + sum_list (map f xs)"
  for f :: "'b \<Rightarrow> 'a::comm_monoid_add"
  by (induction xs arbitrary: a) (simp_all add: add.assoc)

lemma prod_list_map_upt: "prod_list (map f [0..<n]) = (\<Prod>i<n. f i)"
  for f :: "nat \<Rightarrow> 'a::comm_monoid_mult"
  by (induction n) (simp_all add: mult.commute)

lemma foldl_invariant: "I a \<Longrightarrow> (\<And>a x. I a \<Longrightarrow> I (f a x)) \<Longrightarrow> I (foldl f a xs)"
  by (induction xs arbitrary: a) simp_all

text \<open>A sum over a block of size \<open>a * b\<close> is a double sum, row by row.\<close>

lemma sum_lessThan_mult:
  fixes f :: "nat \<Rightarrow> 'a::comm_monoid_add"
  shows "(\<Sum>k<a * b. f k) = (\<Sum>i<a. \<Sum>j<b. f (i * b + j))"
proof (induction a)
  case 0
  then show ?case by simp
next
  case (Suc a)
  have "(\<Sum>k<Suc a * b. f k) = (\<Sum>k<a * b. f k) + (\<Sum>k = a * b..<a * b + b. f k)"
    using sum.atLeastLessThan_concat [of 0 "a * b" "a * b + b" f]
    by (simp add: atLeast0LessThan add.commute)
  also have "(\<Sum>k = a * b..<a * b + b. f k) = (\<Sum>j<b. f (a * b + j))"
    using sum.shift_bounds_nat_ivl [of f 0 "a * b" b]
    by (simp add: atLeast0LessThan add.commute)
  finally show ?case using Suc by simp
qed

lemma mult_add_less: "(i::nat) < a \<Longrightarrow> j < b \<Longrightarrow> i * b + j < a * b"
proof -
  assume "i < a" "j < b"
  then have "i * b + j < Suc i * b" by simp
  also have "\<dots> \<le> a * b" using \<open>i < a\<close> by (intro mult_le_mono1) simp
  finally show ?thesis .
qed

text \<open>A loop that writes one slot per step, into pairwise different slots.\<close>

lemma length_foldl_update [simp]: "length (foldl (\<lambda>a k. a[f k := g k]) a ks) = length a"
  by (induction ks arbitrary: a) simp_all

lemma foldl_update_other:
  "p \<notin> f ` set ks \<Longrightarrow> foldl (\<lambda>a k. a[f k := g k]) a ks ! p = a ! p"
  by (induction ks arbitrary: a) auto

lemma foldl_update_nth:
  "inj_on f (set ks) \<Longrightarrow> distinct ks \<Longrightarrow> k \<in> set ks \<Longrightarrow> f k < length a \<Longrightarrow>
   foldl (\<lambda>a k. a[f k := g k]) a ks ! f k = g k"
proof (induction ks arbitrary: a)
  case (Cons j ks)
  show ?case
  proof (cases "k = j")
    case True
    then have "f k \<notin> f ` set ks" using Cons.prems by (auto simp: inj_on_def)
    then show ?thesis using True Cons.prems by (simp add: foldl_update_other)
  next
    case False
    then show ?thesis using Cons by simp
  qed
qed simp

section \<open>Powers of two\<close>

text \<open>\<open>while p < n: p *= 2\<close> from \<open>p = 1\<close>: the loop of several padding helpers.\<close>

function pow2_from :: "nat \<Rightarrow> nat \<Rightarrow> nat" where
  "pow2_from p n = (if 0 < p \<and> p < n then pow2_from (2 * p) n else p)"
  by pat_completeness auto
termination
  by (relation "measure (\<lambda>(p, n). n - p)") auto

declare pow2_from.simps [simp del]

lemma pow2_from_ge: "0 < p \<Longrightarrow> n \<le> pow2_from p n"
proof (induction p n rule: pow2_from.induct)
  case (1 p n)
  then show ?case by (cases "p < n") (simp_all add: pow2_from.simps [of p n])
qed

lemma pow2_from_pow2: "\<exists>k. pow2_from (2 ^ a) n = 2 ^ k"
proof (induction "2 ^ a :: nat" n arbitrary: a rule: pow2_from.induct)
  case (1 n)
  show ?case
  proof (cases "(2::nat) ^ a < n")
    case True
    then show ?thesis
      using "1.hyps" [of "Suc a"] by (simp add: pow2_from.simps [of "2 ^ a" n])
  next
    case False
    then show ?thesis by (auto simp: pow2_from.simps [of "2 ^ a" n])
  qed
qed

lemma pow2_from_1_pow2: "\<exists>k. pow2_from 1 n = 2 ^ k"
  using pow2_from_pow2 [of 0 n] by simp

lemma pow2_from_le: "p = 2 ^ a \<Longrightarrow> a \<le> k \<Longrightarrow> n \<le> 2 ^ k \<Longrightarrow> pow2_from p n \<le> 2 ^ k"
proof (induction p n arbitrary: a rule: pow2_from.induct)
  case (1 p n)
  show ?case
  proof (cases "p < n")
    case True
    then have "(2::nat) ^ a < 2 ^ k" using "1.prems" by linarith
    then have "a < k" by (rule power_less_imp_less_exp [rotated]) simp
    then have "pow2_from (2 * p) n \<le> 2 ^ k"
      using True "1.prems" by (intro "1.IH" [of "Suc a"]) simp_all
    then show ?thesis using True "1.prems" by (subst pow2_from.simps) simp
  next
    case False
    then show ?thesis using 1 by (subst pow2_from.simps) simp
  qed
qed

text \<open>Python's \<open>int.bit_length()\<close> on a non-negative integer.\<close>

fun bit_length :: "nat \<Rightarrow> nat" where
  "bit_length n = (if n = 0 then 0 else Suc (bit_length (n div 2)))"

declare bit_length.simps [simp del]

lemma bit_length_0 [simp]: "bit_length 0 = 0"
  by (simp add: bit_length.simps)

lemma bit_length_pow2 [simp]: "bit_length (2 ^ k) = Suc k"
proof (induction k)
  case 0
  then show ?case by (simp add: bit_length.simps)
next
  case (Suc k)
  have "bit_length (2 ^ Suc k) = Suc (bit_length (2 ^ Suc k div 2))"
    by (subst bit_length.simps) simp
  then show ?case using Suc by simp
qed

lemma bit_length_bounds: "0 < n \<Longrightarrow> 2 ^ (bit_length n - 1) \<le> n \<and> n < 2 ^ bit_length n"
proof (induction n rule: bit_length.induct)
  case (1 n)
  show ?case
  proof (cases "n = 1")
    case True
    then show ?thesis by (simp add: bit_length.simps)
  next
    case False
    with "1.prems" have pos: "0 < n div 2" by simp
    with "1.IH" "1.prems" have ih: "2 ^ (bit_length (n div 2) - 1) \<le> n div 2"
      "n div 2 < 2 ^ bit_length (n div 2)" by auto
    have "0 < bit_length (n div 2)"
      using pos by (subst bit_length.simps) simp
    then obtain b where b: "bit_length (n div 2) = Suc b" by (cases "bit_length (n div 2)") auto
    have "bit_length n = Suc (Suc b)"
      using "1.prems" b by (simp add: bit_length.simps [of n])
    with ih b show ?thesis by auto
  qed
qed

text \<open>\<open>n & (n - 1)\<close> is the code's power-of-two test.\<close>

definition is_pow2 :: "nat \<Rightarrow> bool" where
  "is_pow2 n \<longleftrightarrow> 0 < n \<and> n = 2 ^ (bit_length n - 1)"

lemma is_pow2_iff: "is_pow2 n \<longleftrightarrow> (\<exists>k. n = 2 ^ k)"
  by (auto simp: is_pow2_def)

section \<open>Python indexing\<close>

text \<open>\<open>xs[i]\<close>: a negative index counts from the end, anything out of range is an \<open>IndexError\<close>.\<close>

definition py_pos :: "nat \<Rightarrow> int \<Rightarrow> nat result" where
  "py_pos n i =
     (if 0 \<le> i \<and> i < int n then Inr (nat i)
      else if - int n \<le> i \<and> i < 0 then Inr (nat (int n + i)) else Inl IndexError)"

definition py_index :: "'a list \<Rightarrow> int \<Rightarrow> 'a result" where
  "py_index xs i = rbind (py_pos (length xs) i) (\<lambda>k. Inr (xs ! k))"

lemma py_pos_less: "py_pos n i = Inr k \<Longrightarrow> k < n"
  by (auto simp: py_pos_def split: if_splits)

lemma py_index_nat [simp]: "i < length xs \<Longrightarrow> py_index xs (int i) = Inr (xs ! i)"
  by (simp add: py_index_def py_pos_def)

end
