(* ===== verification/Gl_Prime.thy ===== *)
theory Gl_Prime
  imports VI_Prelude
begin

text \<open>
  The modulus \<open>P = 2^64 - 2^32 + 1\<close> of \<^verbatim>\<open>prover/protocol.py\<close>, Python's three-argument \<open>pow\<close> by
  repeated squaring, and the proof that \<open>P\<close> is prime.
\<close>

section \<open>The prime\<close>

definition FIELD_P :: int where
  "FIELD_P = 2 ^ 64 - 2 ^ 32 + 1"

definition GLOBAL_G :: int where
  "GLOBAL_G = 7"

lemma FIELD_P_val: "FIELD_P = 18446744069414584321"
  by (simp add: FIELD_P_def)

lemma FIELD_P_pos [simp]: "0 < FIELD_P" "0 \<le> FIELD_P" "FIELD_P \<noteq> 0" "1 < FIELD_P"
  by (simp_all add: FIELD_P_val)

text \<open>Python's three-argument \<open>pow\<close> on a non-negative exponent, by repeated squaring.\<close>

fun powmod :: "int \<Rightarrow> nat \<Rightarrow> int \<Rightarrow> int" where
  "powmod b e m =
     (if e = 0 then 1 mod m
      else if even e then powmod (b * b mod m) (e div 2) m
      else powmod (b * b mod m) (e div 2) m * b mod m)"

declare powmod.simps [simp del]

lemma powmod_eq: "powmod b e m = b ^ e mod m"
proof (induction b e m rule: powmod.induct)
  case (1 b e m)
  have sq: "(b * b) ^ (e div 2) = b ^ (2 * (e div 2))"
    by (simp add: power2_eq_square power_mult)
  show ?case
  proof (cases "e = 0")
    case True
    then show ?thesis by (subst powmod.simps) simp
  next
    case False
    show ?thesis
    proof (cases "even e")
      case True
      with False 1 sq show ?thesis by (simp add: powmod.simps [of b e m] power_mod)
    next
      case odd: False
      then have e: "e = Suc (2 * (e div 2))" by presburger
      have "powmod b e m = (b * b) ^ (e div 2) mod m * b mod m"
        using False odd 1 by (simp add: powmod.simps [of b e m] power_mod)
      also have "\<dots> = b ^ Suc (2 * (e div 2)) mod m"
        by (simp add: sq mod_mult_right_eq mult.commute)
      finally show ?thesis using e by simp
    qed
  qed
qed

lemma powmod_numeral:
  "powmod b (numeral (num.Bit0 n)) m = powmod (b * b mod m) (numeral n) m"
  "powmod b (numeral (num.Bit1 n)) m = powmod (b * b mod m) (numeral n) m * b mod m"
  "powmod b (numeral num.One) m = b mod m"
  "powmod b (Suc 0) m = b mod m"
  "powmod b 0 m = 1 mod m"
proof -
  have half: "(numeral (num.Bit0 n) :: nat) div 2 = numeral n"
    "(numeral (num.Bit1 n) :: nat) div 2 = numeral n" by simp_all
  have odd: "odd (numeral (num.Bit1 n) :: nat)" by simp
  show "powmod b (numeral (num.Bit0 n)) m = powmod (b * b mod m) (numeral n) m"
    using powmod.simps [of b "numeral (num.Bit0 n)" m] by (simp only: half) simp
  show "powmod b (numeral (num.Bit1 n)) m = powmod (b * b mod m) (numeral n) m * b mod m"
    using powmod.simps [of b "numeral (num.Bit1 n)" m] by (simp only: half odd) simp
qed (simp_all add: powmod_eq)

text \<open>
  Evaluation of field powers in the kernel: \<open>2^64\<close> is congruent to \<open>2^32 - 1\<close>, so a
  128-bit product is folded at bit 64 twice before the division.
\<close>

definition fold64 :: "int \<Rightarrow> int" where
  "fold64 x = take_bit 64 x + drop_bit 64 x * 4294967295"

lemma fold64_mod: "fold64 x mod FIELD_P = x mod FIELD_P"
proof -
  have "x = take_bit 64 x + drop_bit 64 x * 18446744073709551616"
    by (simp add: take_bit_eq_mod drop_bit_eq_div)
  then have "x = fold64 x + FIELD_P * drop_bit 64 x"
    by (simp add: fold64_def FIELD_P_val algebra_simps)
  then show ?thesis by (metis mod_mult_self2)
qed

definition powP :: "int \<Rightarrow> nat \<Rightarrow> int" where
  "powP b e = powmod b e FIELD_P"

lemma powP_numeral:
  "powP b (numeral (num.Bit0 n)) = powP (fold64 (fold64 (b * b)) mod FIELD_P) (numeral n)"
  "powP b (numeral (num.Bit1 n)) =
     fold64 (fold64 (powP (fold64 (fold64 (b * b)) mod FIELD_P) (numeral n) * b)) mod FIELD_P"
  "powP b (numeral num.One) = b mod FIELD_P"
  "powP b (Suc 0) = b mod FIELD_P"
  by (simp_all add: powP_def powmod_numeral fold64_mod)

lemma seven_nonresidue:
  "7 ^ (4294967295 * 2 ^ 31) mod FIELD_P = FIELD_P - 1"
proof -
  have "powP 7 9223372034707292160 = 18446744069414584320"
    by (simp add: powP_numeral fold64_def FIELD_P_val)
  moreover have "(4294967295::nat) * 2 ^ 31 = 9223372034707292160" by simp
  ultimately show ?thesis by (simp only: powP_def powmod_eq FIELD_P_val)
qed

text \<open>
  Primality. For any divisor \<open>d > 1\<close> the powers of \<open>7^(2^32 - 1)\<close> below \<open>2^32\<close> are
  pairwise different and nonzero modulo \<open>d\<close>, so \<open>d > 2^32\<close>; two such factors exceed
  \<open>P\<close>.
\<close>

lemma pow_minus_one_distinct:
  fixes b d :: int
  assumes d: "2 < d" and neg: "b ^ (2 ^ s) mod d = d - 1"
    and ij: "i < j" "j < 2 ^ Suc s"
  shows "b ^ i mod d \<noteq> b ^ j mod d"
proof
  assume eq: "b ^ i mod d = b ^ j mod d"
  define e where "e = j - i"
  have e: "0 < e" "e < 2 ^ Suc s" "j = i + e" using ij by (auto simp: e_def)
  have one: "b ^ (2 ^ Suc s) mod d = 1"
  proof -
    have "b ^ (2 ^ Suc s) mod d = (b ^ (2 ^ s) mod d) * (b ^ (2 ^ s) mod d) mod d"
      by (simp add: mod_mult_eq mult_2 power_add)
    also have "\<dots> = (d - 1) * (d - 1) mod d" by (simp add: neg)
    also have "(d - 1) * (d - 1) = 1 + d * (d - 2)" by (simp add: algebra_simps)
    also have "(1 + d * (d - 2)) mod d = 1" using d by (simp only: mod_mult_self2) simp
    finally show ?thesis .
  qed
  have pe: "b ^ e mod d = 1"
  proof -
    have iS: "i < 2 ^ Suc s" using ij by simp
    have inv: "b ^ (2 ^ Suc s - i) * b ^ i mod d = 1"
      using one iS by (simp flip: power_add)
    have "b ^ e mod d = (b ^ (2 ^ Suc s - i) * b ^ i mod d) * b ^ e mod d"
      by (simp only: inv) simp
    also have "\<dots> = b ^ (2 ^ Suc s - i) * (b ^ j mod d) mod d"
      by (simp add: e(3) power_add mod_mult_left_eq mod_mult_right_eq mult.assoc)
    also have "\<dots> = b ^ (2 ^ Suc s - i) * (b ^ i mod d) mod d" by (simp add: eq)
    also have "\<dots> = 1" using inv by (simp add: mod_mult_right_eq)
    finally show ?thesis .
  qed
  obtain t m where tm: "e = 2 ^ t * m" "odd m"
  proof -
    have "\<exists>t m. e = 2 ^ t * m \<and> odd m" using e(1)
    proof (induction e rule: less_induct)
      case (less e)
      show ?case
      proof (cases "odd e")
        case True
        then show ?thesis by (intro exI [of _ 0] exI [of _ e]) simp
      next
        case False
        then obtain f where f: "e = 2 * f" by auto
        with less.prems have "f < e" "0 < f" by auto
        then obtain t m where "f = 2 ^ t * m" "odd m" using less.IH by blast
        with f show ?thesis by (intro exI [of _ "Suc t"] exI [of _ m]) simp
      qed
    qed
    then show ?thesis using that by blast
  qed
  have "(2::nat) ^ t \<le> e" using tm e(1) by (cases m) auto
  then have "(2::nat) ^ t < 2 ^ Suc s" using e(2) by linarith
  then have "t \<le> s" using power_less_imp_less_exp [of "2::nat" t "Suc s"] by simp
  then have "2 ^ s * m = e * 2 ^ (s - t)"
    using tm by (simp add: mult.assoc mult.left_commute flip: power_add)
  then have "b ^ (2 ^ s * m) mod d = (b ^ e mod d) ^ (2 ^ (s - t)) mod d"
    by (simp add: power_mult power_mod)
  also have "\<dots> = 1" using pe d by simp
  finally have 1: "b ^ (2 ^ s * m) mod d = 1" .
  have "b ^ (2 ^ s * m) mod d = (b ^ (2 ^ s) mod d) ^ m mod d"
    by (simp add: power_mult power_mod)
  also have "\<dots> = (d - 1) ^ m mod d" by (simp add: neg)
  also have "\<dots> = (- 1) ^ m mod d"
    using power_mod [of "d - 1" d m] power_mod [of "- 1" d m] by (metis minus_mod_self1 uminus_add_conv_diff mod_add_self2 add.commute diff_conv_add_uminus)
  also have "\<dots> = (- 1) mod d" using tm(2) by simp
  also have "\<dots> = d - 1" using d by (simp add: zmod_minus1)
  finally show False using 1 d by simp
qed

lemma seven_order_base: "(7 ^ 4294967295) ^ (2 ^ 31) mod FIELD_P = FIELD_P - 1"
  using seven_nonresidue by (simp only: power_mult)

lemma FIELD_P_divisor_large:
  assumes dvd: "d dvd FIELD_P" and d: "1 < d"
  shows "2 ^ 32 < d"
proof -
  have "odd FIELD_P" by (simp add: FIELD_P_val)
  with dvd have "odd d" using dvd_trans by blast
  with d have d2: "2 < d" by presburger
  define b :: int where "b = 7 ^ 4294967295"
  have neg: "b ^ (2 ^ 31) mod d = d - 1"
  proof -
    have "b ^ (2 ^ 31) mod d = (b ^ (2 ^ 31) mod FIELD_P) mod d"
      using dvd by (simp only: mod_mod_cancel)
    also have "\<dots> = (FIELD_P - 1) mod d"
      unfolding b_def by (simp only: seven_order_base)
    also have "\<dots> = (FIELD_P mod d - 1) mod d" by (simp only: mod_diff_left_eq)
    also have "\<dots> = d - 1" using dvd d by (simp add: zmod_minus1)
    finally show ?thesis .
  qed
  let ?f = "\<lambda>i::nat. b ^ i mod d"
  have inj: "inj_on ?f {..<2 ^ 32}"
  proof (rule inj_onI)
    fix i j :: nat
    assume ij: "i \<in> {..<2 ^ 32}" "j \<in> {..<2 ^ 32}" and eq: "?f i = ?f j"
    have bound: "k < 2 ^ Suc 31" if "k \<in> {..<2 ^ 32}" for k :: nat using that by simp
    show "i = j"
    proof (rule linorder_cases [of i j])
      assume "i < j"
      then show ?thesis using pow_minus_one_distinct [OF d2 neg, of i j] bound [OF ij(2)] eq by blast
    next
      assume "j < i"
      then show ?thesis using pow_minus_one_distinct [OF d2 neg, of j i] bound [OF ij(1)] eq by metis
    qed simp
  qed
  have nz: "?f i \<noteq> 0" if "i < 2 ^ 32" for i
  proof
    assume "?f i = 0"
    then have "d dvd b ^ i" by auto
    then have "d dvd b ^ i * b ^ (2 ^ 31)" by simp
    then have "(b ^ i * b ^ (2 ^ 31)) mod d = 0" by auto
    moreover have "b ^ i * b ^ (2 ^ 31) = b ^ (2 ^ 31) * b ^ i" by simp
    ultimately have z: "(d - 1) * b ^ i mod d = 0" by (metis mod_mult_left_eq neg)
    have "d dvd b ^ (2 ^ 31)"
    proof -
      have "b ^ i dvd b ^ (2 ^ 31) * b ^ (2 ^ 31)"
        using that by (simp add: le_imp_power_dvd flip: power_add)
      then have "d dvd b ^ (2 ^ 31) * b ^ (2 ^ 31)" using \<open>d dvd b ^ i\<close> dvd_trans by blast
      then have "(d - 1) * (d - 1) mod d = 0" by (metis dvd_imp_mod_0 mod_mult_eq neg)
      moreover have "(d - 1) * (d - 1) = 1 + d * (d - 2)" by (simp add: algebra_simps)
      ultimately have "1 mod d = 0" by (metis mod_mult_self2)
      then show ?thesis using d by simp
    qed
    then have "d - 1 = 0" using neg by simp
    then show False using d by simp
  qed
  have "?f ` {..<2 ^ 32} \<subseteq> {1..<d}"
  proof (rule image_subsetI)
    fix i :: nat
    assume "i \<in> {..<2 ^ 32}"
    then have "?f i \<noteq> 0" using nz by simp
    moreover have "0 \<le> ?f i" "?f i < d" using d by simp_all
    ultimately show "?f i \<in> {1..<d}" by simp
  qed
  then have "card (?f ` {..<2 ^ 32}) \<le> card {1..<d}" by (intro card_mono) auto
  then have "(2::nat) ^ 32 \<le> nat (d - 1)" using card_image [OF inj] by simp
  then show ?thesis using d by simp
qed

lemma FIELD_P_prime:
  assumes "d dvd FIELD_P" "1 < d"
  shows "d = FIELD_P"
proof (rule ccontr)
  assume ne: "d \<noteq> FIELD_P"
  from assms(1) obtain e where e: "FIELD_P = d * e" by auto
  have "0 < d * e" using e by (metis FIELD_P_pos(1))
  then have "0 < e" using assms(2) by (simp add: zero_less_mult_iff)
  with e ne have "1 < e" by (cases "e = 1") auto
  then have "2 ^ 32 < d" "2 ^ 32 < e"
    using FIELD_P_divisor_large assms e by (metis dvd_triv_left, metis dvd_triv_right)
  then have "(2 ^ 32 + 1) * (2 ^ 32 + 1) \<le> d * e" by (intro mult_mono) auto
  then show False using e by (simp add: FIELD_P_val)
qed

lemma FIELD_P_coprime: "\<not> FIELD_P dvd a \<Longrightarrow> coprime a FIELD_P"
proof -
  assume nd: "\<not> FIELD_P dvd a"
  have "gcd a FIELD_P dvd FIELD_P" "gcd a FIELD_P dvd a" by simp_all
  then have "\<not> 1 < gcd a FIELD_P" using FIELD_P_prime nd by metis
  moreover have "0 < gcd a FIELD_P" by simp
  ultimately have "gcd a FIELD_P = 1" by linarith
  then show ?thesis by (simp add: coprime_iff_gcd_eq_1)
qed

end
