(* ===== verification/Goldilocks.thy ===== *)
theory Goldilocks
  imports Gl_Prime
begin

text \<open>
  The Goldilocks field of \<^verbatim>\<open>prover/protocol.py\<close>, \<^verbatim>\<open>prover/ref/goldilocks_ref.py\<close> and
  \<^verbatim>\<open>layergkr/field.py\<close>: the prime \<open>P = 2^64 - 2^32 + 1\<close>, the operations on Python ints,
  the two inverses (Fermat power and \<open>pow(a, -1, P)\<close>), the batched inversion and the roots of
  unity. The type \<open>gl\<close> of residues is proved to be a field, and \<open>of_int\<close> is the
  homomorphism from the code's integers to it: component proofs compute in \<open>gl\<close>.
\<close>section \<open>The field of residues\<close>

typedef gl = "{0..<FIELD_P}"
  by (rule exI [of _ 0]) simp

setup_lifting type_definition_gl

instantiation gl :: comm_ring_1
begin

lift_definition zero_gl :: gl is 0 by simp
lift_definition one_gl :: gl is 1 by simp
lift_definition plus_gl :: "gl \<Rightarrow> gl \<Rightarrow> gl" is "\<lambda>a b. (a + b) mod FIELD_P" by simp
lift_definition times_gl :: "gl \<Rightarrow> gl \<Rightarrow> gl" is "\<lambda>a b. (a * b) mod FIELD_P" by simp
lift_definition uminus_gl :: "gl \<Rightarrow> gl" is "\<lambda>a. (- a) mod FIELD_P" by simp
lift_definition minus_gl :: "gl \<Rightarrow> gl \<Rightarrow> gl" is "\<lambda>a b. (a - b) mod FIELD_P" by simp

instance
proof
  fix a b c :: gl
  show "a + b + c = a + (b + c)" by transfer (simp add: mod_simps add.assoc)
  show "a + b = b + a" by transfer (simp add: add.commute)
  show "0 + a = a" by transfer simp
  show "a * b * c = a * (b * c)" by transfer (simp add: mod_simps mult.assoc)
  show "a * b = b * a" by transfer (simp add: mult.commute)
  show "1 * a = a" by transfer simp
  show "(a + b) * c = a * c + b * c" by transfer (simp add: mod_simps distrib_right)
  show "- a + a = 0" by transfer (simp add: mod_simps)
  show "a - b = a + - b" by transfer (simp add: mod_simps)
  show "(0::gl) \<noteq> 1" by transfer simp
qed

end

lemma Rep_gl_range: "0 \<le> Rep_gl x" "Rep_gl x < FIELD_P"
  using Rep_gl [of x] by simp_all

lemma Rep_gl_of_nat: "Rep_gl (of_nat n) = int n mod FIELD_P"
proof (induction n)
  case 0
  then show ?case by (simp add: zero_gl.rep_eq)
next
  case (Suc n)
  then show ?case by (simp add: plus_gl.rep_eq one_gl.rep_eq mod_simps)
qed

lemma Rep_gl_of_int [simp]: "Rep_gl (of_int x) = x mod FIELD_P"
proof (cases x)
  case (nonneg n)
  then show ?thesis by (simp add: Rep_gl_of_nat)
next
  case (neg n)
  have "Rep_gl (of_int (- int (Suc n))) = (- (int (Suc n) mod FIELD_P)) mod FIELD_P"
    by (simp only: of_int_minus of_int_of_nat_eq uminus_gl.rep_eq Rep_gl_of_nat)
  then show ?thesis using neg by (simp only: mod_minus_eq)
qed

lemma gl_eq_iff: "(of_int x = (of_int y :: gl)) \<longleftrightarrow> x mod FIELD_P = y mod FIELD_P"
  by (metis Rep_gl_inject Rep_gl_of_int)

lemma gl_of_int_mod [simp]: "(of_int (x mod FIELD_P) :: gl) = of_int x"
  by (simp add: gl_eq_iff)

lemma gl_Rep_of [simp]: "of_int (Rep_gl a) = a"
  using Rep_gl_range [of a] by (metis Rep_gl_inject Rep_gl_of_int mod_pos_pos_trivial)

lemma gl_eq_0_iff: "(of_int x = (0 :: gl)) \<longleftrightarrow> FIELD_P dvd x"
  using gl_eq_iff [of x 0] by auto

lemma gl_cases:
  fixes a :: gl
  obtains x where "a = of_int x" "0 \<le> x" "x < FIELD_P"
  using Rep_gl_range [of a] gl_Rep_of [of a] by metis

text \<open>The way back from the field: two canonical integers are equal iff their residues are.\<close>

lemma mod_eq_by_gl: "(of_int x :: gl) = of_int y \<Longrightarrow> 0 \<le> y \<Longrightarrow> y < FIELD_P \<Longrightarrow> x mod FIELD_P = y"
  by (simp add: gl_eq_iff)

lemma gl_inj_canonical:
  "(of_int x :: gl) = of_int y \<Longrightarrow> 0 \<le> x \<Longrightarrow> x < FIELD_P \<Longrightarrow> 0 \<le> y \<Longrightarrow> y < FIELD_P \<Longrightarrow> x = y"
  by (simp add: gl_eq_iff)

lemma gl_zero_iff_Rep: "(a :: gl) = 0 \<longleftrightarrow> Rep_gl a = 0"
  by (metis Rep_gl_inject zero_gl.rep_eq)

lemma UNIV_gl_eq: "(UNIV :: gl set) = of_int ` {0..<FIELD_P}"
proof -
  have "x \<in> of_int ` {0..<FIELD_P}" for x :: gl
    by (rule gl_cases [of x]) auto
  then show ?thesis by auto
qed

instance gl :: finite
  by standard (simp add: UNIV_gl_eq)

lemma card_gl: "card (UNIV :: gl set) = nat FIELD_P"
proof -
  have "inj_on (of_int :: int \<Rightarrow> gl) {0..<FIELD_P}"
    by (rule inj_onI) (simp add: gl_inj_canonical)
  then show ?thesis by (simp add: UNIV_gl_eq card_image)
qed

instance gl :: idom
proof
  fix a b :: gl
  assume nz: "a \<noteq> 0" "b \<noteq> 0"
  show "a * b \<noteq> 0"
  proof
    assume z: "a * b = 0"
    obtain x y where a: "a = of_int x" and b: "b = of_int y" by (metis gl_Rep_of)
    have "FIELD_P dvd x * y" using z by (simp add: a b flip: gl_eq_0_iff)
    moreover have "coprime x FIELD_P"
      using nz(1) by (intro FIELD_P_coprime) (simp add: a gl_eq_0_iff)
    ultimately have "FIELD_P dvd y"
      by (simp add: coprime_dvd_mult_right_iff coprime_commute)
    then show False using nz(2) by (simp add: b gl_eq_0_iff)
  qed
qed

lemma gl_fermat:
  fixes a :: gl
  assumes "a \<noteq> 0"
  shows "a ^ nat (FIELD_P - 1) = 1"
proof -
  let ?N = "UNIV - {0 :: gl}"
  have inj: "inj_on (\<lambda>x. a * x) ?N"
    using assms by (auto simp: inj_on_def)
  have img: "(\<lambda>x. a * x) ` ?N = ?N"
    using assms by (intro endo_inj_surj [OF _ _ inj]) auto
  have "(\<Prod>x\<in>?N. x) = (\<Prod>x\<in>?N. a * x)"
    using prod.reindex [OF inj, of "\<lambda>x. x"] by (simp add: img)
  also have "\<dots> = a ^ card ?N * (\<Prod>x\<in>?N. x)"
    by (simp add: prod.distrib)
  finally have "(a ^ card ?N - 1) * (\<Prod>x\<in>?N. x) = 0"
    by (simp add: algebra_simps)
  moreover have "(\<Prod>x\<in>?N. x) \<noteq> 0" by (simp add: prod_zero_iff)
  ultimately have "a ^ card ?N = 1" by simp
  moreover have "card ?N = nat (FIELD_P - 1)"
    by (simp add: card_Diff_subset card_gl nat_diff_distrib)
  ultimately show ?thesis by simp
qed

instantiation gl :: field
begin

definition inverse_gl :: "gl \<Rightarrow> gl" where
  "inverse_gl a = a ^ nat (FIELD_P - 2)"

definition divide_gl :: "gl \<Rightarrow> gl \<Rightarrow> gl" where
  "divide_gl a b = a * inverse b"

instance
proof
  fix a b :: gl
  have e: "nat (FIELD_P - 1) = Suc (nat (FIELD_P - 2))" by (simp add: FIELD_P_val)
  show "inverse a * a = 1" if "a \<noteq> 0"
    using gl_fermat [OF that] by (simp add: inverse_gl_def e mult.commute)
  show "a div b = a * inverse b" by (simp add: divide_gl_def)
  show "inverse (0 :: gl) = 0" by (simp add: inverse_gl_def FIELD_P_val)
qed

end

section \<open>Field operations on ints\<close>

text \<open>\<open>add\<close>, \<open>sub\<close>, \<open>mul\<close> and the Fermat \<open>inv\<close> of \<^verbatim>\<open>prover/protocol.py\<close>.\<close>

definition add_P :: "int \<Rightarrow> int \<Rightarrow> int" where
  "add_P a b = (a + b) mod FIELD_P"

definition sub_P :: "int \<Rightarrow> int \<Rightarrow> int" where
  "sub_P a b = (a - b) mod FIELD_P"

definition mul_P :: "int \<Rightarrow> int \<Rightarrow> int" where
  "mul_P a b = (a * b) mod FIELD_P"

definition neg_P :: "int \<Rightarrow> int" where
  "neg_P a = (- a) mod FIELD_P"

definition inv_P :: "int \<Rightarrow> int" where
  "inv_P a = powmod (a mod FIELD_P) (nat (FIELD_P - 2)) FIELD_P"

named_theorems gl_hom \<open>the images of the integer operations in the field\<close>

lemma gl_add_P [gl_hom, simp]: "(of_int (add_P a b) :: gl) = of_int a + of_int b"
  by (simp add: add_P_def)

lemma gl_sub_P [gl_hom, simp]: "(of_int (sub_P a b) :: gl) = of_int a - of_int b"
  by (simp add: sub_P_def)

lemma gl_mul_P [gl_hom, simp]: "(of_int (mul_P a b) :: gl) = of_int a * of_int b"
  by (simp add: mul_P_def)

lemma gl_neg_P [gl_hom, simp]: "(of_int (neg_P a) :: gl) = - of_int a"
  by (simp add: neg_P_def)

lemma gl_powmod [gl_hom, simp]: "(of_int (powmod b e FIELD_P) :: gl) = of_int b ^ e"
  by (simp add: powmod_eq)

lemma gl_inv_P [gl_hom, simp]: "(of_int (inv_P a) :: gl) = inverse (of_int a)"
  by (simp add: inv_P_def inverse_gl_def)

lemma field_op_range [simp]:
  "0 \<le> add_P a b" "add_P a b < FIELD_P" "0 \<le> sub_P a b" "sub_P a b < FIELD_P"
  "0 \<le> mul_P a b" "mul_P a b < FIELD_P" "0 \<le> neg_P a" "neg_P a < FIELD_P"
  "0 \<le> inv_P a" "inv_P a < FIELD_P"
  by (simp_all add: add_P_def sub_P_def mul_P_def neg_P_def inv_P_def powmod_eq)

text \<open>
  \<open>pow(a, -1, m)\<close> of Python: the inverse in \<open>[0, m)\<close>, or \<open>ValueError\<close> when \<open>a\<close> is not
  invertible, by the extended Euclidean algorithm.
\<close>

function egcd :: "int \<Rightarrow> int \<Rightarrow> int \<times> int \<times> int" where
  "egcd a b =
     (if b \<le> 0 then (a, 1, 0)
      else case egcd b (a mod b) of (g, x, y) \<Rightarrow> (g, y, x - (a div b) * y))"
  by pat_completeness auto
termination
  by (relation "measure (\<lambda>(a, b). nat b)") auto

declare egcd.simps [simp del]

lemma egcd_bezout: "0 \<le> a \<Longrightarrow> 0 \<le> b \<Longrightarrow> egcd a b = (g, x, y) \<Longrightarrow> g = gcd a b \<and> a * x + b * y = g"
proof (induction a b arbitrary: g x y rule: egcd.induct)
  case (1 a b)
  show ?case
  proof (cases "b = 0")
    case True
    with "1.prems" show ?thesis by (simp add: egcd.simps)
  next
    case False
    with "1.prems" have b: "\<not> b \<le> 0" by simp
    obtain g' x' y' where e: "egcd b (a mod b) = (g', x', y')" by (cases "egcd b (a mod b)")
    with "1.prems" b have g: "g = g'" "x = y'" "y = x' - (a div b) * y'"
      by (auto simp: egcd.simps [of a b])
    have ih: "g' = gcd b (a mod b)" "b * x' + (a mod b) * y' = g'"
      using "1.IH" [OF b _ _ e] b by auto
    have "a * x + b * y = b * x' + (a - b * (a div b)) * y'"
      by (simp add: g algebra_simps)
    also have "a - b * (a div b) = a mod b" by (simp add: minus_mult_div_eq_mod)
    finally have "a * x + b * y = g" using ih g by simp
    moreover have "g = gcd a b" using ih(1) g by (simp add: gcd.commute gcd_red_int [of a b])
    ultimately show ?thesis by simp
  qed
qed

definition pow_neg1 :: "int \<Rightarrow> int \<Rightarrow> int result" where
  "pow_neg1 a m =
     (case egcd (a mod m) m of (g, x, y) \<Rightarrow> if g = 1 then Inr (x mod m) else Inl ValueError)"

text \<open>\<open>inv\<close> of \<^verbatim>\<open>prover/ref/goldilocks_ref.py\<close>.\<close>

definition inv_ref :: "int \<Rightarrow> int result" where
  "inv_ref a = pow_neg1 a FIELD_P"

text \<open>
  \<open>root_of_unity(n)\<close>: an error unless \<open>n\<close> divides \<open>P - 1\<close>; \<open>n = 0\<close> is Python's
  \<open>ZeroDivisionError\<close> from the remainder.
\<close>

definition root_of_unity :: "nat \<Rightarrow> int result" where
  "root_of_unity n =
     (if n = 0 then Inl ZeroDivisionError
      else if (FIELD_P - 1) mod int n \<noteq> 0 then Inl ValueError
      else Inr (powmod GLOBAL_G (nat ((FIELD_P - 1) div int n)) FIELD_P))"

section \<open>Counted helpers of layergkr/field.py\<close>

text \<open>
  The helpers of \<^verbatim>\<open>layergkr/field.py\<close>; the \<open>charge\<close> calls, which only add to a profiling
  counter, are not modelled. \<open>zip\<close> truncates to the shorter list, as Python's does.
\<close>

definition dot_P :: "int list \<Rightarrow> int list \<Rightarrow> int" where
  "dot_P xs ys = foldl (\<lambda>acc (x, y). acc + x * y) 0 (zip xs ys) mod FIELD_P"

definition vec_scale :: "int list \<Rightarrow> int \<Rightarrow> int list" where
  "vec_scale xs k = map (\<lambda>x. (x * k) mod FIELD_P) xs"

definition vec_add :: "int list \<Rightarrow> int list \<Rightarrow> int list" where
  "vec_add xs ys = map (\<lambda>(x, y). (x + y) mod FIELD_P) (zip xs ys)"

definition vec_sub :: "int list \<Rightarrow> int list \<Rightarrow> int list" where
  "vec_sub xs ys = map (\<lambda>(x, y). (x - y) mod FIELD_P) (zip xs ys)"

definition hadamard_vec :: "int list \<Rightarrow> int list \<Rightarrow> int list" where
  "hadamard_vec xs ys = map (\<lambda>(x, y). (x * y) mod FIELD_P) (zip xs ys)"

definition sum_all :: "int list \<Rightarrow> int" where
  "sum_all xs = foldl (+) 0 xs mod FIELD_P"

text \<open>
  \<open>batch_inv\<close>: the prefix products \<open>pref\<close> (length \<open>n + 1\<close>), one inversion, and the
  descending loop that writes \<open>out[i]\<close> and multiplies the accumulator by \<open>xs[i]\<close>.
\<close>

fun batch_pref :: "int \<Rightarrow> int list \<Rightarrow> int list" where
  "batch_pref p [] = [p]"
| "batch_pref p (x # xs) = p # batch_pref (p * x mod FIELD_P) xs"

fun batch_back :: "int list \<Rightarrow> int list \<Rightarrow> nat \<Rightarrow> int \<Rightarrow> int list \<Rightarrow> int list" where
  "batch_back pref xs 0 acc out = out"
| "batch_back pref xs (Suc i) acc out =
     batch_back pref xs i (acc * xs ! i mod FIELD_P) (out[i := acc * pref ! i mod FIELD_P])"

definition batch_inv :: "int list \<Rightarrow> int list" where
  "batch_inv xs =
     (if xs = [] then []
      else let n = length xs; pref = batch_pref 1 xs
           in batch_back pref xs n (inv_P (pref ! n)) (replicate n 0))"

lemma length_batch_pref [simp]: "length (batch_pref p xs) = Suc (length xs)"
  by (induction xs arbitrary: p) simp_all

lemma batch_pref_nth:
  "i \<le> length xs \<Longrightarrow> (of_int (batch_pref p xs ! i) :: gl) = of_int p * (\<Prod>k<i. of_int (xs ! k))"
proof (induction xs arbitrary: p i)
  case Nil
  then show ?case by simp
next
  case (Cons x xs)
  show ?case
  proof (cases i)
    case 0
    then show ?thesis by simp
  next
    case (Suc j)
    with Cons.prems have "j \<le> length xs" by simp
    from Cons.IH [OF this, of "p * x mod FIELD_P"] show ?thesis
      by (simp add: Suc prod.lessThan_Suc_shift mult.assoc del: prod.lessThan_Suc)
  qed
qed

lemma length_batch_back [simp]: "length (batch_back pref xs i acc out) = length out"
  by (induction pref xs i acc out rule: batch_back.induct) simp_all

lemma batch_back_keep: "i \<le> j \<Longrightarrow> batch_back pref xs i acc out ! j = out ! j"
  by (induction pref xs i acc out rule: batch_back.induct) simp_all

text \<open>
  The loop invariant: when \<open>acc\<close> is the inverse of the product of the first \<open>i\<close> entries,
  every slot below \<open>i\<close> receives the inverse of its entry.
\<close>

lemma batch_back_nth:
  assumes "i \<le> length xs" "length out = length xs" "j < i"
    and "\<And>k. k < length xs \<Longrightarrow> (of_int (xs ! k) :: gl) \<noteq> 0"
    and "(of_int acc :: gl) = inverse (\<Prod>k<i. of_int (xs ! k))"
    and "\<And>k. k < length xs \<Longrightarrow> (of_int (pref ! k) :: gl) = (\<Prod>l<k. of_int (xs ! l))"
  shows "batch_back pref xs i acc out ! j = inv_P (xs ! j)"
  using assms
proof (induction pref xs i acc out rule: batch_back.induct)
  case (2 pref xs i acc out)
  let ?acc = "acc * xs ! i mod FIELD_P"
  have nz: "(of_int (xs ! i) :: gl) \<noteq> 0" using "2.prems" by simp
  have acc': "(of_int ?acc :: gl) = inverse (\<Prod>k<i. of_int (xs ! k))"
    using "2.prems"(5) nz by simp
  show ?case
  proof (cases "j = i")
    case True
    have pz: "(\<Prod>l<i. of_int (xs ! l) :: gl) \<noteq> 0"
      using "2.prems" by (simp add: prod_zero_iff)
    have "(of_int (acc * pref ! i mod FIELD_P) :: gl) = of_int (inv_P (xs ! i))"
      using "2.prems"(1,5,6) nz pz by (simp add: field_simps)
    then have "acc * pref ! i mod FIELD_P = inv_P (xs ! i)"
      by (intro gl_inj_canonical) simp_all
    then show ?thesis using True "2.prems" by (simp add: batch_back_keep)
  next
    case False
    then show ?thesis using "2.IH" "2.prems" acc' by simp
  qed
qed simp

lemma batch_back_zero:
  assumes "(of_int acc :: gl) = 0" "i \<le> length out" "j < i"
  shows "batch_back pref xs i acc out ! j = 0"
  using assms
proof (induction pref xs i acc out rule: batch_back.induct)
  case (2 pref xs i acc out)
  have "acc mod FIELD_P = 0" using "2.prems"(1) by (simp add: gl_eq_0_iff)
  then have z: "acc * pref ! i mod FIELD_P = 0" by auto
  show ?case
  proof (cases "j = i")
    case True
    then show ?thesis using "2.prems" z by (simp add: batch_back_keep)
  next
    case False
    then show ?thesis using "2.IH" "2.prems" by simp
  qed
qed simp

section \<open>Properties\<close>

lemma inv_P_unique:
  assumes "\<not> FIELD_P dvd a"
  shows "mul_P a (inv_P a) = 1 \<and> 0 \<le> inv_P a \<and> inv_P a < FIELD_P
    \<and> (\<forall>b. 0 \<le> b \<and> b < FIELD_P \<and> mul_P a b = 1 \<longrightarrow> b = inv_P a)"
proof -
  have nz: "(of_int a :: gl) \<noteq> 0" using assms by (simp add: gl_eq_0_iff)
  have "mul_P a (inv_P a) = 1"
    using nz by (intro gl_inj_canonical) simp_all
  moreover have "b = inv_P a" if b: "0 \<le> b" "b < FIELD_P" "mul_P a b = 1" for b
  proof (rule gl_inj_canonical)
    have "(of_int a :: gl) * of_int b = of_int (mul_P a b)" by simp
    then have "(of_int a :: gl) * of_int b = 1" by (simp only: b(3)) simp
    then show "(of_int b :: gl) = of_int (inv_P a)" using nz by (simp add: field_simps)
  qed (use b in simp_all)
  ultimately show ?thesis by simp
qed

text \<open>
  Fact (\<open>inv_P_correct\<close>): the Fermat inverse of \<^verbatim>\<open>protocol.inv\<close> is the multiplicative
  inverse of every integer that is not a multiple of \<open>P\<close>, it is canonical, and it is the
  only canonical integer with that product.
\<close>

theorem inv_P_correct:
  assumes "\<not> FIELD_P dvd a"
  shows "mul_P a (inv_P a) = 1 \<and> 0 \<le> inv_P a \<and> inv_P a < FIELD_P
    \<and> (\<forall>b. 0 \<le> b \<and> b < FIELD_P \<and> mul_P a b = 1 \<longrightarrow> b = inv_P a)"
  using assms by (rule inv_P_unique)

theorem inv_P_correct_witness: "mul_P 5 (inv_P 5) = 1"
proof -
  have "\<not> FIELD_P dvd 5" by (simp add: FIELD_P_val)
  then show ?thesis using inv_P_correct by blast
qed

lemma inv_ref_eq: "inv_ref a = (if FIELD_P dvd a then Inl ValueError else Inr (inv_P a))"
proof -
  obtain g x y where e: "egcd (a mod FIELD_P) FIELD_P = (g, x, y)"
    by (cases "egcd (a mod FIELD_P) FIELD_P")
  have b: "g = gcd (a mod FIELD_P) FIELD_P" "(a mod FIELD_P) * x + FIELD_P * y = g"
    using egcd_bezout [OF _ _ e] by simp_all
  have g: "g = gcd a FIELD_P" using b(1) by (simp add: gcd.commute flip: gcd_red_int)
  show ?thesis
  proof (cases "FIELD_P dvd a")
    case True
    then have "g = FIELD_P" using g by (simp add: gcd_proj2_iff)
    then show ?thesis using True e by (simp add: inv_ref_def pow_neg1_def FIELD_P_val)
  next
    case False
    then have g1: "g = 1" using g FIELD_P_coprime by (simp add: coprime_iff_gcd_eq_1)
    have "mul_P a (x mod FIELD_P) = ((a mod FIELD_P) * x + FIELD_P * y) mod FIELD_P"
      by (simp add: mul_P_def mod_simps)
    then have "mul_P a (x mod FIELD_P) = 1" using b(2) g1 by simp
    then have "x mod FIELD_P = inv_P a"
      using inv_P_unique [OF False] by simp
    then show ?thesis using False e g1 by (simp add: inv_ref_def pow_neg1_def)
  qed
qed

lemma batch_inv_all:
  "batch_inv xs =
     (if \<exists>x \<in> set xs. FIELD_P dvd x then replicate (length xs) 0 else map inv_P xs)"
proof (cases "xs = []")
  case True
  then show ?thesis by (simp add: batch_inv_def)
next
  case ne: False
  let ?n = "length xs" and ?pref = "batch_pref 1 xs"
  let ?acc = "inv_P (?pref ! ?n)"
  have pref: "(of_int (?pref ! k) :: gl) = (\<Prod>l<k. of_int (xs ! l))" if "k \<le> ?n" for k
    using batch_pref_nth [OF that, of 1] by simp
  have acc: "(of_int ?acc :: gl) = inverse (\<Prod>k<?n. of_int (xs ! k))"
    by (simp add: pref)
  have b: "batch_inv xs = batch_back ?pref xs ?n ?acc (replicate ?n 0)"
    using ne by (simp add: batch_inv_def Let_def)
  show ?thesis
  proof (cases "\<exists>x \<in> set xs. FIELD_P dvd x")
    case True
    then obtain k where "k < ?n" "(of_int (xs ! k) :: gl) = 0"
      by (auto simp: in_set_conv_nth gl_eq_0_iff)
    then have "(of_int ?acc :: gl) = 0" unfolding acc by (auto simp: prod_zero_iff)
    then have "batch_inv xs = replicate ?n 0"
      unfolding b by (intro list_eq_nthI) (simp_all add: batch_back_zero)
    then show ?thesis using True by simp
  next
    case False
    then have nz: "(of_int (xs ! k) :: gl) \<noteq> 0" if "k < ?n" for k
      using that by (auto simp: gl_eq_0_iff)
    have "batch_inv xs = map inv_P xs"
      unfolding b by (intro list_eq_nthI) (simp_all add: batch_back_nth nz acc pref)
    then show ?thesis using False by simp
  qed
qed

text \<open>
  Fact (\<open>batch_inv_correct\<close>): Montgomery's batched inversion returns, entry by entry,
  the single inverses when no entry is a multiple of \<open>P\<close>; one such entry turns the whole
  batch into zeros.
\<close>

theorem batch_inv_correct:
  "batch_inv xs =
     (if \<exists>x \<in> set xs. FIELD_P dvd x then replicate (length xs) 0 else map inv_P xs)"
  by (rule batch_inv_all)

end
