(* ===== verification/Polys.thy ===== *)
theory Polys
  imports Goldilocks
begin

text \<open>
  The polynomial helpers: \<^verbatim>\<open>prover/ref/polynomials.py\<close>, \<open>poly_eval\<close> of
  \<^verbatim>\<open>prover/protocol.py\<close> and the generic facts on coefficient lists (synthetic division, the
  bound on the number of roots, Lagrange interpolation) that the encoder, the sumcheck and
  the NTT proofs share.
\<close>

section \<open>Coefficient lists over a ring\<close>

fun peval :: "'a::comm_ring_1 list \<Rightarrow> 'a \<Rightarrow> 'a" where
  "peval [] x = 0"
| "peval (c # cs) x = c + x * peval cs x"

lemma peval_sum: "peval cs x = (\<Sum>i<length cs. cs ! i * x ^ i)"
proof (induction cs)
  case Nil
  then show ?case by simp
next
  case (Cons c cs)
  have "(\<Sum>i<length (c # cs). (c # cs) ! i * x ^ i) = c + (\<Sum>i<length cs. cs ! i * x ^ Suc i)"
    by (simp add: sum.lessThan_Suc_shift del: sum.lessThan_Suc power_Suc)
  then show ?case using Cons by (simp add: sum_distrib_left mult_ac)
qed

lemma peval_append: "peval (as @ bs) x = peval as x + x ^ length as * peval bs x"
  by (induction as) (simp_all add: algebra_simps)

lemma peval_replicate_0 [simp]: "peval (replicate n 0) x = 0"
  by (induction n) simp_all

lemma peval_map_add: "length as = length bs \<Longrightarrow>
    peval (map2 (+) as bs) x = peval as x + peval bs x"
  by (induction as bs rule: list_induct2) (simp_all add: algebra_simps)

lemma peval_map_mult: "peval (map ((*) k) as) x = k * peval as x"
  by (induction as) (simp_all add: algebra_simps)

text \<open>Synthetic division by \<open>X - a\<close>.\<close>

fun sdiv :: "'a::comm_ring_1 \<Rightarrow> 'a list \<Rightarrow> 'a list" where
  "sdiv a [] = []"
| "sdiv a [c] = []"
| "sdiv a (c # cs) = peval cs a # sdiv a cs"

lemma length_sdiv: "length (sdiv a cs) = length cs - 1"
  by (induction a cs rule: sdiv.induct) simp_all

lemma sdiv_eval: "peval cs x = peval cs a + (x - a) * peval (sdiv a cs) x"
proof (induction a cs rule: sdiv.induct)
  case (3 a c d cs)
  have "peval (c # d # cs) x = c + x * (peval (d # cs) a + (x - a) * peval (sdiv a (d # cs)) x)"
    by (simp only: peval.simps(2) [of c] flip: 3)
  then show ?case by (simp add: algebra_simps)
qed simp_all

lemma sdiv_zero: "peval cs a = 0 \<Longrightarrow> \<forall>q \<in> set (sdiv a cs). q = 0 \<Longrightarrow> \<forall>c \<in> set cs. c = 0"
  by (induction a cs rule: sdiv.induct) auto

lemma peval_root_bound:
  fixes cs :: "'a::idom list"
  assumes "finite S" "length cs \<le> card S" "\<And>x. x \<in> S \<Longrightarrow> peval cs x = 0"
  shows "\<forall>c \<in> set cs. c = 0"
  using assms
proof (induction "length cs" arbitrary: cs S)
  case 0
  then show ?case by simp
next
  case (Suc n)
  then have "S \<noteq> {}" by auto
  then obtain a where a: "a \<in> S" by blast
  have pa: "peval cs a = 0" using Suc.prems a by simp
  have "peval (sdiv a cs) x = 0" if "x \<in> S - {a}" for x
  proof -
    have "(x - a) * peval (sdiv a cs) x = 0"
      using sdiv_eval [of cs x a] Suc.prems(3) [of x] pa that by simp
    then show ?thesis using that by simp
  qed
  moreover have "length (sdiv a cs) \<le> card (S - {a})" "n = length (sdiv a cs)"
    using Suc.hyps(2) Suc.prems a by (simp_all add: length_sdiv)
  ultimately have "\<forall>q \<in> set (sdiv a cs). q = 0"
    using Suc.hyps(1) [of "sdiv a cs" "S - {a}"] Suc.prems(1) by simp
  then show ?case using sdiv_zero pa by blast
qed

lemma peval_eq_on_points:
  fixes as bs :: "'a::idom list"
  assumes len: "length as = length bs" and S: "finite S" "length as \<le> card S"
    and eq: "\<And>x. x \<in> S \<Longrightarrow> peval as x = peval bs x"
  shows "as = bs"
proof -
  let ?ds = "map2 (+) as (map ((*) (- 1)) bs)"
  have "\<forall>c \<in> set ?ds. c = 0"
  proof (rule peval_root_bound [OF S(1)])
    show "length ?ds \<le> card S" using len S(2) by simp
    fix x assume "x \<in> S"
    then show "peval ?ds x = 0"
      using len eq by (simp only: peval_map_add length_map peval_map_mult) simp
  qed
  then have "as ! i = bs ! i" if "i < length as" for i
    using that len by (force simp: set_conv_nth)
  then show ?thesis using len by (intro list_eq_nthI) auto
qed

section \<open>Evaluation\<close>

text \<open>\<open>protocol.poly_eval\<close>: Horner from the highest coefficient.\<close>

definition poly_eval :: "int list \<Rightarrow> int \<Rightarrow> int" where
  "poly_eval coeffs x = foldl (\<lambda>acc c. (acc * x + c) mod FIELD_P) 0 (rev coeffs)"

text \<open>\<open>ref/polynomials.poly_eval\<close>, written with \<open>add\<close> and \<open>mul\<close>.\<close>

definition poly_eval_ref :: "int list \<Rightarrow> int \<Rightarrow> int" where
  "poly_eval_ref coeffs x = foldl (\<lambda>result c. add_P (mul_P result x) c) 0 (rev coeffs)"

abbreviation glL :: "int list \<Rightarrow> gl list" where
  "glL \<equiv> map of_int"

lemma poly_eval_Nil [simp]: "poly_eval [] x = 0"
  by (simp add: poly_eval_def)

lemma poly_eval_Cons: "poly_eval (c # cs) x = (poly_eval cs x * x + c) mod FIELD_P"
  by (simp add: poly_eval_def)

lemma poly_eval_range [simp]: "0 \<le> poly_eval cs x" "poly_eval cs x < FIELD_P"
  by (cases cs, simp_all add: poly_eval_Cons)+

lemma gl_poly_eval [gl_hom]: "(of_int (poly_eval cs x) :: gl) = peval (glL cs) (of_int x)"
  by (induction cs) (simp_all add: poly_eval_Cons algebra_simps)

lemma poly_eval_ref_eq: "poly_eval_ref cs x = poly_eval cs x"
proof -
  have "foldl (\<lambda>result c. add_P (mul_P result x) c) a ds = foldl (\<lambda>acc c. (acc * x + c) mod FIELD_P) a ds"
    for a ds by (induction ds arbitrary: a) (simp_all add: add_P_def mul_P_def mod_simps)
  then show ?thesis by (simp add: poly_eval_ref_def poly_eval_def)
qed

section \<open>Products and sums of polynomials\<close>

text \<open>
  \<open>poly_mul\<close>: the two nested loops over an accumulator list, skipping the zero
  coefficients of \<open>a\<close>.
\<close>

fun pm_row :: "int \<Rightarrow> int list \<Rightarrow> nat \<Rightarrow> int list \<Rightarrow> int list" where
  "pm_row ai [] k result = result"
| "pm_row ai (bj # b) k result =
     pm_row ai b (Suc k) (result[k := add_P (result ! k) (mul_P ai bj)])"

fun pm_rows :: "int list \<Rightarrow> nat \<Rightarrow> int list \<Rightarrow> int list \<Rightarrow> int list" where
  "pm_rows [] i b result = result"
| "pm_rows (ai # a) i b result =
     pm_rows a (Suc i) b (if ai = 0 then result else pm_row ai b i result)"

definition poly_mul :: "int list \<Rightarrow> int list \<Rightarrow> int list" where
  "poly_mul a b =
     (if a = [] \<or> b = [] then []
      else pm_rows a 0 b (replicate (length a + length b - 1) 0))"

definition poly_add :: "int list \<Rightarrow> int list \<Rightarrow> int list" where
  "poly_add a b =
     map (\<lambda>i. add_P (if i < length a then a ! i else 0) (if i < length b then b ! i else 0))
       [0..<max (length a) (length b)]"

lemma length_pm_row [simp]: "length (pm_row ai b k result) = length result"
  by (induction ai b k result rule: pm_row.induct) simp_all

lemma length_pm_rows [simp]: "length (pm_rows a i b result) = length result"
  by (induction a i b result rule: pm_rows.induct) simp_all

lemma peval_list_update:
  "k < length cs \<Longrightarrow> peval (cs[k := v]) x = peval cs x + (v - cs ! k) * x ^ k"
proof (induction cs arbitrary: k)
  case (Cons c cs)
  show ?case
  proof (cases k)
    case (Suc j)
    then have "peval (cs[j := v]) x = peval cs x + (v - cs ! j) * x ^ j"
      using Cons by simp
    then show ?thesis by (simp add: Suc distrib_left mult_ac)
  qed simp
qed simp

lemma pm_row_eval:
  "k + length b \<le> length result \<Longrightarrow>
   peval (glL (pm_row ai b k result)) x
     = peval (glL result) x + of_int ai * x ^ k * peval (glL b) x"
proof (induction ai b k result rule: pm_row.induct)
  case (2 ai bj b k result)
  have "peval (glL (result[k := add_P (result ! k) (mul_P ai bj)])) x
      = peval (glL result) x + of_int ai * of_int bj * x ^ k"
    using "2.prems" by (simp add: map_update peval_list_update)
  then show ?case using 2 by (simp add: algebra_simps)
qed simp

lemma pm_rows_eval:
  "b \<noteq> [] \<Longrightarrow> i + length a + length b \<le> Suc (length result) \<Longrightarrow>
   peval (glL (pm_rows a i b result)) x
     = peval (glL result) x + x ^ i * peval (glL a) x * peval (glL b) x"
proof (induction a i b result rule: pm_rows.induct)
  case (2 ai a i b result)
  have "peval (glL (if ai = 0 then result else pm_row ai b i result)) x
      = peval (glL result) x + of_int ai * x ^ i * peval (glL b) x"
    using "2.prems" by (simp add: pm_row_eval)
  then show ?case using 2 by (simp add: algebra_simps)
qed simp

lemma gl_poly_mul: "peval (glL (poly_mul a b)) x = peval (glL a) x * peval (glL b) x"
proof (cases "a = [] \<or> b = []")
  case False
  then have "length (replicate (length a + length b - 1) (0::int)) = length a + length b - 1"
    and "Suc 0 \<le> length a" by (simp_all add: Suc_le_eq)
  with False show ?thesis by (auto simp: poly_mul_def pm_rows_eval)
qed (auto simp: poly_mul_def)

lemma length_poly_mul:
  "length (poly_mul a b) = (if a = [] \<or> b = [] then 0 else length a + length b - 1)"
  by (simp add: poly_mul_def)

lemma gl_poly_add: "peval (glL (poly_add a b)) x = peval (glL a) x + peval (glL b) x"
proof -
  let ?n = "max (length a) (length b)"
  let ?pad = "\<lambda>c::int list. c @ replicate (?n - length c) 0"
  have nth: "(if i < length c then c ! i else 0) = ?pad c ! i" if "i < ?n" "length c \<le> ?n" for i and c :: "int list"
    using that by (simp add: nth_append)
  have "glL (poly_add a b) = map2 (+) (glL (?pad a)) (glL (?pad b))"
  proof (rule list_eq_nthI)
    show "length (glL (poly_add a b)) = length (map2 (+) (glL (?pad a)) (glL (?pad b)))"
      by (simp add: poly_add_def)
    fix i assume "i < length (glL (poly_add a b))"
    then have i: "i < ?n" by (simp add: poly_add_def)
    have "poly_add a b ! i = add_P (?pad a ! i) (?pad b ! i)"
      unfolding poly_add_def nth_map_upt0 [OF i] by (simp only: nth [OF i] max.cobounded1 max.cobounded2)
    moreover have "i < length (poly_add a b)" using i by (simp add: poly_add_def)
    ultimately have "glL (poly_add a b) ! i = of_int (add_P (?pad a ! i) (?pad b ! i))"
      by (simp only: nth_map)
    then show "glL (poly_add a b) ! i = map2 (+) (glL (?pad a)) (glL (?pad b)) ! i"
      using i by (simp add: nth_append)
  qed
  then have "peval (glL (poly_add a b)) x = peval (glL (?pad a)) x + peval (glL (?pad b)) x"
    by (simp only: peval_map_add length_map) (simp add: peval_map_add)
  then show ?thesis by (simp add: peval_append map_replicate)
qed

section \<open>Lagrange interpolation\<close>

text \<open>
  The loops of \<open>lagrange_eval\<close>: for each node \<open>c\<close> the inner loop multiplies numerator and
  denominator over all \<open>i \<noteq> c\<close>; \<open>inv\<close> raises when a denominator is not invertible.
\<close>

definition lag_inner :: "int list \<Rightarrow> int \<Rightarrow> nat \<Rightarrow> int \<times> int" where
  "lag_inner xs t c =
     foldl (\<lambda>(num, den) i. if i = c then (num, den)
                           else (mul_P num (sub_P t (xs ! i)), mul_P den (sub_P (xs ! c) (xs ! i))))
       (1, 1) [0..<length xs]"

fun lag_loop :: "int list \<Rightarrow> int list \<Rightarrow> int \<Rightarrow> nat list \<Rightarrow> int \<Rightarrow> int result" where
  "lag_loop xs ys t [] acc = Inr acc"
| "lag_loop xs ys t (c # cs) acc =
     (case lag_inner xs t c of (num, den) \<Rightarrow>
        rbind (inv_ref den) (\<lambda>d. lag_loop xs ys t cs (add_P acc (mul_P (ys ! c) (mul_P num d)))))"

definition lagrange_eval :: "int list \<Rightarrow> int list \<Rightarrow> int \<Rightarrow> int result" where
  "lagrange_eval xs ys x_target =
     (if length xs \<noteq> length ys then Inl AssertionError
      else lag_loop xs ys x_target [0..<length xs] 0)"

text \<open>
  \<open>lagrange_poly_coeffs\<close>: the numerator \<open>\<Prod>(X - xs[i])\<close> by repeated multiplication, the
  scalar denominator, and the accumulation of the scaled numerator.
\<close>

definition mul_linear :: "int list \<Rightarrow> int \<Rightarrow> int list" where
  "mul_linear num_poly xi =
     foldl (\<lambda>new j. let new1 = new[j := sub_P (new ! j) (mul_P (num_poly ! j) xi)]
                    in new1[Suc j := add_P (new1 ! Suc j) (num_poly ! j)])
       (replicate (Suc (length num_poly)) 0) [0..<length num_poly]"

definition num_poly :: "int list \<Rightarrow> nat \<Rightarrow> int list" where
  "num_poly xs c = foldl (\<lambda>p i. if i = c then p else mul_linear p (xs ! i)) [1] [0..<length xs]"

definition lag_den :: "int list \<Rightarrow> nat \<Rightarrow> int" where
  "lag_den xs c =
     foldl (\<lambda>den i. if i = c then den else mul_P den (sub_P (xs ! c) (xs ! i))) 1 [0..<length xs]"

fun lpc_loop :: "int list \<Rightarrow> int list \<Rightarrow> nat list \<Rightarrow> int list \<Rightarrow> int list result" where
  "lpc_loop xs ys [] coeffs = Inr coeffs"
| "lpc_loop xs ys (c # cs) coeffs =
     rbind (inv_ref (lag_den xs c)) (\<lambda>d.
       let scale = mul_P (ys ! c) d
       in lpc_loop xs ys cs
            (map (\<lambda>j. add_P (coeffs ! j) (mul_P (num_poly xs c ! j) scale)) [0..<length xs]))"

definition lagrange_poly_coeffs :: "int list \<Rightarrow> int list \<Rightarrow> int list result" where
  "lagrange_poly_coeffs xs ys = lpc_loop xs ys [0..<length xs] (replicate (length xs) 0)"

subsection \<open>The Lagrange basis in a field\<close>

definition lbasis :: "'a::field list \<Rightarrow> nat \<Rightarrow> 'a \<Rightarrow> 'a" where
  "lbasis xs c t = (\<Prod>i\<in>{..<length xs} - {c}. (t - xs ! i) / (xs ! c - xs ! i))"

lemma lbasis_self: "distinct xs \<Longrightarrow> c < length xs \<Longrightarrow> lbasis xs c (xs ! c) = 1"
  by (auto simp: lbasis_def nth_eq_iff_index_eq intro!: prod.neutral)

lemma lbasis_other: "k < length xs \<Longrightarrow> k \<noteq> c \<Longrightarrow> lbasis xs c (xs ! k) = 0"
  by (auto simp: lbasis_def prod_zero_iff)

lemma sum_lbasis_node:
  assumes "distinct xs" "k < length xs"
  shows "(\<Sum>c<length xs. y c * lbasis xs c (xs ! k)) = y k"
proof -
  have "(\<Sum>c<length xs. y c * lbasis xs c (xs ! k)) = (\<Sum>c<length xs. if c = k then y k else 0)"
    using assms by (intro sum.cong) (auto simp: lbasis_self lbasis_other)
  then show ?thesis using assms by simp
qed

text \<open>Each basis function is a polynomial with as many coefficients as nodes.\<close>

lemma prod_linear_poly:
  fixes g :: "'b \<Rightarrow> 'a::field" and h :: "'b \<Rightarrow> 'a"
  assumes "finite A"
  shows "\<exists>cs. length cs = Suc (card A) \<and> (\<forall>t. peval cs t = (\<Prod>i\<in>A. (t - g i) / h i))"
  using assms
proof (induction A rule: finite_induct)
  case empty
  then show ?case by (intro exI [of _ "[1]"]) simp
next
  case (insert a A)
  then obtain cs where cs: "length cs = Suc (card A)" "\<And>t. peval cs t = (\<Prod>i\<in>A. (t - g i) / h i)"
    by blast
  let ?ds = "map2 (+) (map ((*) (- g a / h a)) cs @ [0]) (0 # map ((*) (1 / h a)) cs)"
  have "peval ?ds t = (\<Prod>i\<in>insert a A. (t - g i) / h i)" for t
  proof -
    have "peval ?ds t = - g a / h a * peval cs t + t * (1 / h a * peval cs t)"
      by (simp add: peval_map_add peval_append peval_map_mult del: map_map)
    then show ?thesis
      using insert cs(2) by (simp add: diff_divide_distrib algebra_simps)
  qed
  moreover have "length ?ds = Suc (card (insert a A))" using insert cs(1) by simp
  ultimately show ?case by blast
qed

lemma lbasis_poly:
  fixes xs :: "'a::field list"
  assumes "c < length xs"
  shows "\<exists>cs. length cs = length xs \<and> (\<forall>t. peval cs t = lbasis xs c t)"
proof -
  have "Suc (card ({..<length xs} - {c})) = length xs" using assms by simp
  then show ?thesis
    using prod_linear_poly [of "{..<length xs} - {c}" "\<lambda>i. xs ! i" "\<lambda>i. xs ! c - xs ! i"]
    by (simp add: lbasis_def)
qed

lemma sum_poly:
  fixes f :: "nat \<Rightarrow> 'a::comm_ring_1 \<Rightarrow> 'a"
  assumes "\<And>c. c < n \<Longrightarrow> \<exists>cs. length cs = d \<and> (\<forall>t. peval cs t = f c t)"
  shows "\<exists>cs. length cs = d \<and> (\<forall>t. peval cs t = (\<Sum>c<n. y c * f c t))"
  using assms
proof (induction n)
  case 0
  then show ?case by (intro exI [of _ "replicate d 0"]) simp
next
  case (Suc n)
  then obtain as bs where "length as = d" "\<And>t. peval as t = (\<Sum>c<n. y c * f c t)"
    "length bs = d" "\<And>t. peval bs t = f n t"
    by (metis less_Suc_eq)
  then show ?case
    by (intro exI [of _ "map2 (+) as (map ((*) (y n)) bs)"])
      (simp add: peval_map_add peval_map_mult)
qed

text \<open>Interpolation: the Lagrange sum of the values of a short polynomial is the polynomial.\<close>

lemma lagrange_sum_eq:
  fixes xs :: "'a::field list"
  assumes d: "distinct xs" and len: "length cs \<le> length xs"
  shows "(\<Sum>c<length xs. peval cs (xs ! c) * lbasis xs c t) = peval cs t"
proof -
  let ?cs = "cs @ replicate (length xs - length cs) 0"
  obtain ds where ds: "length ds = length xs"
    "\<And>t. peval ds t = (\<Sum>c<length xs. peval cs (xs ! c) * lbasis xs c t)"
    using sum_poly [where f = "lbasis xs" and n = "length xs" and y = "\<lambda>c. peval cs (xs ! c)",
        OF lbasis_poly [of _ xs]] by blast
  have "ds = ?cs"
  proof (rule peval_eq_on_points [of _ _ "set xs"])
    fix x assume "x \<in> set xs"
    then obtain k where "k < length xs" "x = xs ! k" by (auto simp: in_set_conv_nth)
    then show "peval ds x = peval ?cs x"
      using d by (simp add: ds(2) sum_lbasis_node peval_append)
  qed (use d len ds(1) in \<open>simp_all add: distinct_card\<close>)
  then show ?thesis by (simp add: peval_append flip: ds(2))
qed

subsection \<open>Correctness of the two interpolation routines\<close>

text \<open>The nodes are distinct as residues; the code receives them as ints.\<close>

definition distinct_P :: "int list \<Rightarrow> bool" where
  "distinct_P xs \<longleftrightarrow> distinct (map (\<lambda>x. x mod FIELD_P) xs)"

lemma distinct_P_gl: "distinct_P xs \<longleftrightarrow> distinct (glL xs)"
  by (auto simp: distinct_P_def distinct_conv_nth gl_eq_iff)

lemma foldl_skip_prod:
  fixes f :: "nat \<Rightarrow> 'a::comm_monoid_mult"
  shows "foldl (\<lambda>p i. if i = c then p else p * f i) a [0..<n] = a * (\<Prod>i\<in>{..<n} - {c}. f i)"
proof (induction n)
  case (Suc n)
  have "{..<Suc n} - {c} = (if n = c then {..<n} - {c} else insert n ({..<n} - {c}))" by auto
  then show ?case using Suc by (simp add: mult_ac)
qed simp

lemma gl_lag_inner:
  "lag_inner xs t c = (num, den) \<Longrightarrow>
     (of_int num :: gl) = (\<Prod>i\<in>{..<length xs} - {c}. of_int t - of_int (xs ! i)) \<and>
     (of_int den :: gl) = (\<Prod>i\<in>{..<length xs} - {c}. of_int (xs ! c) - of_int (xs ! i))"
proof -
  let ?step = "\<lambda>(num, den) i. if i = c then (num, den)
     else (mul_P num (sub_P t (xs ! i)), mul_P den (sub_P (xs ! c) (xs ! i)))"
  have "(of_int (fst (foldl ?step (p, q) ks)) :: gl)
          = foldl (\<lambda>a i. if i = c then a else a * (of_int t - of_int (xs ! i))) (of_int p) ks
      \<and> (of_int (snd (foldl ?step (p, q) ks)) :: gl)
          = foldl (\<lambda>a i. if i = c then a else a * (of_int (xs ! c) - of_int (xs ! i))) (of_int q) ks"
    for p q ks by (induction ks arbitrary: p q) simp_all
  from this [of 1 1 "[0..<length xs]"] show "lag_inner xs t c = (num, den) \<Longrightarrow> ?thesis"
    unfolding lag_inner_def by (simp add: foldl_skip_prod)
qed

lemma den_nonzero:
  assumes "distinct (glL xs)" "c < length xs"
  shows "(\<Prod>i\<in>{..<length xs} - {c}. of_int (xs ! c) - of_int (xs ! i) :: gl) \<noteq> 0"
  using assms by (auto simp: prod_zero_iff distinct_conv_nth)

lemma lag_loop_sum:
  assumes d: "distinct (glL xs)" and cs: "set cs \<subseteq> {..<length xs}"
  shows "\<exists>r. lag_loop xs ys t cs acc = Inr r \<and>
     (of_int r :: gl) = of_int acc + (\<Sum>c\<leftarrow>cs. of_int (ys ! c) * lbasis (glL xs) c (of_int t)) \<and>
     (0 \<le> acc \<and> acc < FIELD_P \<longrightarrow> 0 \<le> r \<and> r < FIELD_P)"
  using cs
proof (induction cs arbitrary: acc)
  case (Cons c cs)
  obtain num den where i: "lag_inner xs t c = (num, den)" by (cases "lag_inner xs t c")
  note nd = gl_lag_inner [OF i]
  have c: "c < length xs" using Cons.prems by simp
  have dz: "(of_int den :: gl) \<noteq> 0" using den_nonzero [OF d c] nd by simp
  then have inv: "inv_ref den = Inr (inv_P den)" by (simp add: inv_ref_eq flip: gl_eq_0_iff)
  have "lbasis (glL xs) c (of_int t)
      = (\<Prod>i\<in>{..<length xs} - {c}. (of_int t - of_int (xs ! i)) / (of_int (xs ! c) - of_int (xs ! i)))"
    unfolding lbasis_def using c by (intro prod.cong) auto
  then have lb: "lbasis (glL xs) c (of_int t) = of_int num * inverse (of_int den)"
    by (simp only: prod_dividef nd) (simp only: divide_inverse)
  let ?acc = "add_P acc (mul_P (ys ! c) (mul_P num (inv_P den)))"
  have "set cs \<subseteq> {..<length xs}" using Cons.prems by simp
  from Cons.IH [OF this, of ?acc] show ?case by (auto simp: i inv lb algebra_simps)
qed simp

text \<open>
  Fact (\<open>lagrange_eval_correct\<close>): on nodes that are distinct modulo \<open>P\<close>, evaluating the
  interpolation of the values of a polynomial with at most as many coefficients as nodes
  gives the value of that polynomial, at every target point.
\<close>

theorem lagrange_eval_correct:
  assumes d: "distinct_P xs" and len: "length coeffs \<le> length xs"
  shows "lagrange_eval xs (map (poly_eval coeffs) xs) t = Inr (poly_eval coeffs t)"
proof -
  let ?ys = "map (poly_eval coeffs) xs"
  have d': "distinct (glL xs)" using d by (simp add: distinct_P_gl)
  obtain r where r: "lag_loop xs ?ys t [0..<length xs] 0 = Inr r"
    "(of_int r :: gl) = (\<Sum>c\<leftarrow>[0..<length xs]. of_int (?ys ! c) * lbasis (glL xs) c (of_int t))"
    "0 \<le> r" "r < FIELD_P"
    using lag_loop_sum [OF d', of "[0..<length xs]" ?ys t 0] by (auto simp: subset_eq)
  have "(of_int r :: gl) = (\<Sum>c<length (glL xs). peval (glL coeffs) (glL xs ! c) * lbasis (glL xs) c (of_int t))"
    by (simp add: r(2) sum_list_map_upt gl_poly_eval)
  also have "\<dots> = of_int (poly_eval coeffs t)"
    using lagrange_sum_eq [OF d', of "glL coeffs"] len by (simp add: gl_poly_eval)
  finally have "r = poly_eval coeffs t" using r(3,4) by (intro gl_inj_canonical) simp_all
  then show ?thesis by (simp add: lagrange_eval_def r(1))
qed

theorem lagrange_eval_correct_witness:
  "lagrange_eval [0, 1, 5] (map (poly_eval [2, 3]) [0, 1, 5]) 7 = Inr (poly_eval [2, 3] 7)"
proof -
  have "distinct_P [0, 1, 5]" by (simp add: distinct_P_def FIELD_P_val)
  then show ?thesis by (rule lagrange_eval_correct) simp
qed

subsection \<open>Coefficient recovery\<close>

lemma mul_linear_nth:
  "glL (mul_linear p a) ! j = (if j = 0 then 0 else glL (p @ [0]) ! (j - 1)) - of_int a * glL (p @ [0]) ! j
   \<and> length (mul_linear p a) = Suc (length p)"
  if "j \<le> length p"
proof -
  let ?step = "\<lambda>new j. let new1 = new[j := sub_P (new ! j) (mul_P (p ! j) a)]
                    in new1[Suc j := add_P (new1 ! Suc j) (p ! j)]"
  define st where "st m = foldl ?step (replicate (Suc (length p)) 0) [0..<m]" for m
  have inv: "length (st m) = Suc (length p) \<and>
      (\<forall>j \<le> length p. (of_int (st m ! j) :: gl) =
         (if 0 < j \<and> j \<le> m then of_int (p ! (j - 1)) else 0) - (if j < m then of_int a * of_int (p ! j) else 0))"
    if "m \<le> length p" for m using that
  proof (induction m)
    case 0
    then show ?case by (auto simp: st_def nth_Cons split: nat.split)
  next
    case (Suc m)
    have step: "st (Suc m) = ?step (st m) m" by (simp add: st_def)
    from Suc have ih: "length (st m) = Suc (length p)" and
      v: "\<And>j. j \<le> length p \<Longrightarrow> (of_int (st m ! j) :: gl) =
         (if 0 < j \<and> j \<le> m then of_int (p ! (j - 1)) else 0) - (if j < m then of_int a * of_int (p ! j) else 0)"
      by auto
    have "(of_int (st (Suc m) ! j) :: gl) =
         (if 0 < j \<and> j \<le> Suc m then of_int (p ! (j - 1)) else 0) - (if j < Suc m then of_int a * of_int (p ! j) else 0)"
      if j: "j \<le> length p" for j
    proof -
      consider "j = m" | "j = Suc m" | "j \<noteq> m" "j \<noteq> Suc m" by blast
      then show ?thesis
        using Suc.prems ih v [OF j] j by cases (auto simp: step Let_def nth_list_update)
    qed
    then show ?case by (simp add: step Let_def ih)
  qed
  have m: "mul_linear p a = st (length p)" by (simp add: mul_linear_def st_def)
  have "(of_int (st (length p) ! j) :: gl) =
      (if 0 < j then of_int (p ! (j - 1)) else 0) - (if j < length p then of_int a * of_int (p ! j) else 0)"
    using inv [of "length p"] that by auto
  then show ?thesis
    using inv [of "length p"] that by (auto simp: m nth_append simp del: map_append)
qed

lemma peval_shift_sub:
  fixes p :: "'a::comm_ring_1 list"
  assumes "length q = Suc (length p)"
    and "\<And>j. j \<le> length p \<Longrightarrow> q ! j = (if j = 0 then 0 else (p @ [0]) ! (j - 1)) - a * (p @ [0]) ! j"
  shows "peval q x = (x - a) * peval p x"
proof -
  have "q = map2 (+) (0 # p) (map ((*) (- a)) (p @ [0]))"
    using assms by (intro list_eq_nthI) (auto simp: nth_Cons nth_append split: nat.split)
  then have "peval q x = peval (0 # p) x + peval (map ((*) (- a)) (p @ [0])) x"
    by (simp only: peval_map_add length_map length_Cons length_append list.size)
  then show ?thesis
    by (simp only: peval_map_mult peval_append) (simp add: algebra_simps)
qed

lemma gl_mul_linear:
  "peval (glL (mul_linear p a)) x = (x - of_int a) * peval (glL p) x"
  "length (mul_linear p a) = Suc (length p)"
proof -
  show len: "length (mul_linear p a) = Suc (length p)" using mul_linear_nth [of 0 p a] by simp
  have "glL (mul_linear p a) ! j
      = (if j = 0 then 0 else (glL p @ [0]) ! (j - 1)) - of_int a * (glL p @ [0]) ! j"
    if "j \<le> length (glL p)" for j
    using mul_linear_nth [of j p a] that by simp
  with len show "peval (glL (mul_linear p a)) x = (x - of_int a) * peval (glL p) x"
    by (intro peval_shift_sub) simp_all
qed

lemma gl_num_poly:
  "peval (glL (num_poly xs c)) x = (\<Prod>i\<in>{..<length xs} - {c}. x - of_int (xs ! i))"
  "length (num_poly xs c) = Suc (card ({..<length xs} - {c}))"
proof -
  let ?f = "\<lambda>p i. if i = c then p else mul_linear p (xs ! i)"
  have *: "peval (glL (foldl ?f p [0..<n])) x = peval (glL p) x * (\<Prod>i\<in>{..<n} - {c}. x - of_int (xs ! i))
      \<and> length (foldl ?f p [0..<n]) = length p + card ({..<n} - {c})" for p n
  proof (induction n)
    case (Suc n)
    have "{..<Suc n} - {c} = (if n = c then {..<n} - {c} else insert n ({..<n} - {c}))" by auto
    then show ?case using Suc by (cases "n = c") (simp_all add: gl_mul_linear mult_ac)
  qed simp
  from * [of "[1]" "length xs"]
  show "peval (glL (num_poly xs c)) x = (\<Prod>i\<in>{..<length xs} - {c}. x - of_int (xs ! i))"
    "length (num_poly xs c) = Suc (card ({..<length xs} - {c}))"
    by (simp_all add: num_poly_def)
qed

lemma gl_lag_den:
  "(of_int (lag_den xs c) :: gl) = (\<Prod>i\<in>{..<length xs} - {c}. of_int (xs ! c) - of_int (xs ! i))"
proof -
  let ?g = "\<lambda>den i. if i = c then den else mul_P den (sub_P (xs ! c) (xs ! i))"
  have "(of_int (foldl ?g q ks) :: gl)
      = foldl (\<lambda>a i. if i = c then a else a * (of_int (xs ! c) - of_int (xs ! i))) (of_int q) ks" for q ks
    by (induction ks arbitrary: q) simp_all
  then show ?thesis by (simp add: lag_den_def foldl_skip_prod)
qed

lemma lpc_loop_eval:
  assumes d: "distinct (glL xs)"
  shows "set cs \<subseteq> {..<length xs} \<Longrightarrow> length coeffs = length xs \<Longrightarrow>
     (\<forall>a \<in> set coeffs. 0 \<le> a \<and> a < FIELD_P) \<Longrightarrow>
     \<exists>r. lpc_loop xs ys cs coeffs = Inr r \<and> length r = length xs \<and>
       (\<forall>a \<in> set r. 0 \<le> a \<and> a < FIELD_P) \<and>
       (\<forall>x. peval (glL r) x = peval (glL coeffs) x
          + (\<Sum>c\<leftarrow>cs. of_int (ys ! c) * lbasis (glL xs) c x))"
proof (induction cs arbitrary: coeffs)
  case (Cons c cs)
  let ?S = "{..<length xs} - {c}"
  have c: "c < length xs" using Cons.prems by simp
  have card: "Suc (card ?S) = length xs" using c by simp
  have dz: "(of_int (lag_den xs c) :: gl) \<noteq> 0" using den_nonzero [OF d c] by (simp add: gl_lag_den)
  then have inv: "inv_ref (lag_den xs c) = Inr (inv_P (lag_den xs c))"
    by (simp add: inv_ref_eq flip: gl_eq_0_iff)
  let ?scale = "mul_P (ys ! c) (inv_P (lag_den xs c))"
  let ?new = "map (\<lambda>j. add_P (coeffs ! j) (mul_P (num_poly xs c ! j) ?scale)) [0..<length xs]"
  have lb: "lbasis (glL xs) c x = peval (glL (num_poly xs c)) x * inverse (of_int (lag_den xs c))" for x
  proof -
    have "lbasis (glL xs) c x = (\<Prod>i\<in>?S. (x - of_int (xs ! i)) / (of_int (xs ! c) - of_int (xs ! i)))"
      unfolding lbasis_def using c by (intro prod.cong) auto
    then show ?thesis by (simp only: prod_dividef gl_num_poly gl_lag_den) (simp only: divide_inverse)
  qed
  have "glL ?new = map2 (+) (glL coeffs) (map ((*) (of_int ?scale)) (glL (num_poly xs c)))"
    using Cons.prems(2) gl_num_poly(2) [of xs c] card
    by (intro list_eq_nthI) (simp_all add: mult.commute)
  then have new: "peval (glL ?new) x = peval (glL coeffs) x + of_int (ys ! c) * lbasis (glL xs) c x" for x
    using Cons.prems(2) gl_num_poly(2) [of xs c] card
    by (simp only: peval_map_add peval_map_mult length_map lb) simp
  have "set cs \<subseteq> {..<length xs}" "length ?new = length xs" "\<forall>a \<in> set ?new. 0 \<le> a \<and> a < FIELD_P"
    using Cons.prems by auto
  from Cons.IH [OF this] obtain r where r: "lpc_loop xs ys cs ?new = Inr r" "length r = length xs"
    "\<forall>a \<in> set r. 0 \<le> a \<and> a < FIELD_P"
    "\<And>x. peval (glL r) x = peval (glL ?new) x + (\<Sum>c\<leftarrow>cs. of_int (ys ! c) * lbasis (glL xs) c x)"
    by blast
  have "lpc_loop xs ys (c # cs) coeffs = Inr r" by (simp only: lpc_loop.simps inv rbind_simps Let_def r(1))
  moreover have "peval (glL r) x = peval (glL coeffs) x
      + (\<Sum>c\<leftarrow>c # cs. of_int (ys ! c) * lbasis (glL xs) c x)" for x
    by (simp only: r(4) new) (simp add: add.assoc)
  ultimately show ?case using r(2,3) by blast
qed simp

text \<open>
  Fact (\<open>lagrange_poly_coeffs_roundtrip\<close>): sampling a canonical polynomial with \<open>d\<close>
  coefficients at \<open>d\<close> nodes distinct modulo \<open>P\<close> and recovering coefficients from the samples
  gives the polynomial back.
\<close>

theorem lagrange_poly_coeffs_roundtrip:
  assumes d: "distinct_P xs" and len: "length coeffs = length xs"
    and canon: "\<forall>c \<in> set coeffs. 0 \<le> c \<and> c < FIELD_P"
  shows "lagrange_poly_coeffs xs (map (poly_eval coeffs) xs) = Inr coeffs"
proof -
  let ?ys = "map (poly_eval coeffs) xs"
  have d': "distinct (glL xs)" using d by (simp add: distinct_P_gl)
  obtain r where r: "lpc_loop xs ?ys [0..<length xs] (replicate (length xs) 0) = Inr r"
    "length r = length xs" "\<forall>a \<in> set r. 0 \<le> a \<and> a < FIELD_P"
    "\<And>x. peval (glL r) x = (\<Sum>c\<leftarrow>[0..<length xs]. of_int (?ys ! c) * lbasis (glL xs) c x)"
    using lpc_loop_eval [OF d', of "[0..<length xs]" "replicate (length xs) 0" ?ys]
    by (auto simp: subset_eq map_replicate)
  have "peval (glL r) x = peval (glL coeffs) x" for x
  proof -
    have "peval (glL r) x = (\<Sum>c<length (glL xs). peval (glL coeffs) (glL xs ! c) * lbasis (glL xs) c x)"
      by (simp add: r(4) sum_list_map_upt gl_poly_eval)
    then show ?thesis using lagrange_sum_eq [OF d', of "glL coeffs"] len by simp
  qed
  moreover have "card (set (glL xs)) = length xs" using distinct_card [OF d'] by simp
  ultimately have "glL r = glL coeffs"
    using len r(2) by (intro peval_eq_on_points [of _ _ "set (glL xs)"]) (simp_all del: set_map)
  then have "r = coeffs"
    using r(2,3) canon len by (intro list_eq_nthI) (auto simp: list_eq_iff_nth_eq intro!: gl_inj_canonical)
  then show ?thesis by (simp add: lagrange_poly_coeffs_def r(1))
qed

theorem lagrange_poly_coeffs_roundtrip_witness:
  "lagrange_poly_coeffs [1, 2, 9] (map (poly_eval [4, 0, 6]) [1, 2, 9]) = Inr [4, 0, 6]"
proof -
  have "distinct_P [1, 2, 9]" by (simp add: distinct_P_def FIELD_P_val)
  then show ?thesis by (rule lagrange_poly_coeffs_roundtrip) (simp_all add: FIELD_P_val)
qed

text \<open>
  Fact (\<open>poly_mul_eval\<close>): the convolution of \<open>poly_mul\<close>, with its skipped zero rows,
  evaluates to the product of the evaluations, and \<open>poly_add\<close> to the sum, at every point.
\<close>

theorem poly_mul_eval:
  "poly_eval (poly_mul a b) x = mul_P (poly_eval a x) (poly_eval b x) \<and>
   poly_eval (poly_add a b) x = add_P (poly_eval a x) (poly_eval b x)"
  by (intro conjI gl_inj_canonical)
    (simp_all add: gl_poly_eval gl_poly_mul gl_poly_add)

end
