(* ===== verification/Ntt.thy ===== *)
theory Ntt
  imports Polys
begin

unbundle bit_operations_syntax

text \<open>
  The number-theoretic transform of \<^verbatim>\<open>prover/ref/goldilocks_ref.py\<close>: the bit-reversal loop, the
  in-place butterflies, the inverse, Bailey's four-step factorisation and the NTT
  multiplication of polynomials, each with the proof that it computes the discrete Fourier
  transform, respectively the convolution.
\<close>

section \<open>The code\<close>

text \<open>The inner \<open>while j & bit: j ^= bit; bit >>= 1\<close> followed by \<open>j ^= bit\<close>.\<close>

function rev_inc :: "nat \<Rightarrow> nat \<Rightarrow> nat" where
  "rev_inc j bt =
     (if j AND bt \<noteq> 0 then rev_inc (j XOR bt) (bt div 2) else j XOR bt)"
  by pat_completeness auto
termination
proof (relation "measure snd")
  fix j bt :: nat
  assume "j AND bt \<noteq> 0"
  then have "bt \<noteq> 0" by (intro notI) simp
  then show "((j XOR bt, bt div 2), j, bt) \<in> measure snd" by simp
qed simp

declare rev_inc.simps [simp del]

definition swap_nth :: "'a list \<Rightarrow> nat \<Rightarrow> nat \<Rightarrow> 'a list" where
  "swap_nth a i j = a[i := a ! j, j := a ! i]"

fun bitrev_loop :: "nat \<Rightarrow> nat list \<Rightarrow> nat \<Rightarrow> 'a list \<Rightarrow> 'a list" where
  "bitrev_loop n [] j a = a"
| "bitrev_loop n (i # is) j a =
     (let j' = rev_inc j (n div 2)
      in bitrev_loop n is j' (if i < j' then swap_nth a i j' else a))"

fun bf_inner :: "int \<Rightarrow> nat \<Rightarrow> nat \<Rightarrow> nat list \<Rightarrow> int \<Rightarrow> int list \<Rightarrow> int list" where
  "bf_inner w_len i half [] w a = a"
| "bf_inner w_len i half (k # ks) w a =
     (let u = a ! (i + k); v = (a ! (i + k + half) * w) mod FIELD_P
      in bf_inner w_len i half ks ((w * w_len) mod FIELD_P)
           (a[i + k := (u + v) mod FIELD_P, i + k + half := (u - v) mod FIELD_P]))"

fun bf_blocks :: "int \<Rightarrow> nat \<Rightarrow> nat list \<Rightarrow> int list \<Rightarrow> int list" where
  "bf_blocks w_len half [] a = a"
| "bf_blocks w_len half (i # is) a =
     bf_blocks w_len half is (bf_inner w_len i half [0..<half] 1 a)"

function bf_levels :: "nat \<Rightarrow> nat \<Rightarrow> int \<Rightarrow> bool \<Rightarrow> int list \<Rightarrow> int list result" where
  "bf_levels len n omega invert a =
     (if 0 < len \<and> len \<le> n then
        rbind (let w = powmod omega (n div len) FIELD_P in if invert then inv_ref w else Inr w)
          (\<lambda>w_len. bf_levels (2 * len) n omega invert
             (bf_blocks w_len (len div 2) (map (\<lambda>b. b * len) [0..<n div len]) a))
      else Inr a)"
  by pat_completeness auto
termination
  by (relation "measure (\<lambda>(len, n, omega, invert, a). Suc n - len)") auto

declare bf_levels.simps [simp del]

definition ntt :: "int list \<Rightarrow> int \<Rightarrow> bool \<Rightarrow> int list result" where
  "ntt a omega invert =
     (let n = length a in
      if n AND (n - 1) \<noteq> 0 then Inl ValueError
      else rbind (bf_levels 2 n omega invert (bitrev_loop n [1..<n] 0 a)) (\<lambda>b.
        if invert
        then rbind (inv_ref (int n)) (\<lambda>n_inv. Inr (map (\<lambda>x. (x * n_inv) mod FIELD_P) b))
        else Inr b))"

section \<open>Powers of two and bits\<close>

lemma and_pow2_pred: "(2 ^ k :: nat) AND (2 ^ k - 1) = 0"
proof -
  have "2 ^ k - 1 = (mask k :: nat)" by (simp add: mask_eq_exp_minus_1)
  then show ?thesis by (simp only:) (rule bit_eqI, auto simp: bit_simps)
qed

lemma and_pow2_iff:
  fixes j :: nat
  assumes "j < 2 ^ Suc k"
  shows "j AND 2 ^ k \<noteq> 0 \<longleftrightarrow> 2 ^ k \<le> j"
proof -
  have "j AND 2 ^ k = (if bit j k then 2 ^ k else 0)"
    by (rule bit_eqI) (auto simp: bit_simps)
  moreover have "bit j k \<longleftrightarrow> 2 ^ k \<le> j"
  proof -
    have "j div 2 ^ k < 2" using assms by (simp add: less_mult_imp_div_less)
    moreover have "2 ^ k \<le> j \<longleftrightarrow> 0 < j div 2 ^ k" by (simp add: div_greater_zero_iff)
    ultimately show ?thesis by (auto simp: bit_iff_odd)
  qed
  ultimately show ?thesis by simp
qed

lemma xor_pow2:
  fixes j :: nat
  assumes "j < 2 ^ k"
  shows "j XOR 2 ^ k = j + 2 ^ k" "(j + 2 ^ k) XOR 2 ^ k = j"
proof -
  have nb: "\<not> bit j i" if "k \<le> i" for i
    using assms that by (metis bit_take_bit_iff linorder_not_less take_bit_nat_eq_self)
  have dis: "j AND 2 ^ k = 0" by (rule bit_eqI) (auto simp: bit_simps nb)
  show "j XOR 2 ^ k = j + 2 ^ k"
  proof -
    have "j XOR 2 ^ k = j OR 2 ^ k" by (rule bit_eqI) (auto simp: bit_simps nb)
    then show ?thesis using disjunctive_add_eq_or [OF dis] by simp
  qed
  then show "(j + 2 ^ k) XOR 2 ^ k = j" by (metis xor.assoc xor.right_neutral xor_self_eq)
qed

text \<open>Reversal of the low \<open>k\<close> bits.\<close>

fun brev :: "nat \<Rightarrow> nat \<Rightarrow> nat" where
  "brev 0 i = 0"
| "brev (Suc k) i = (i mod 2) * 2 ^ k + brev k (i div 2)"

lemma brev_less: "brev k i < 2 ^ k"
proof (induction k i rule: brev.induct)
  case (2 k i)
  then show ?case by (cases "even i") (simp_all add: odd_iff_mod_2_eq_one)
qed simp

lemma brev_0 [simp]: "brev k 0 = 0"
  by (induction k) simp_all

lemma rev_inc_brev: "Suc i < 2 ^ k \<Longrightarrow> rev_inc (brev k i) (2 ^ k div 2) = brev k (Suc i)"
proof (induction k arbitrary: i)
  case (Suc k)
  let ?r = "brev k (i div 2)"
  have r: "?r < 2 ^ k" by (rule brev_less)
  have half: "(2::nat) ^ Suc k div 2 = 2 ^ k" by simp
  show ?case
  proof (cases "even i")
    case True
    then have "brev (Suc k) i = ?r" "Suc i mod 2 = 1" "Suc i div 2 = i div 2" by auto
    moreover have "?r AND 2 ^ k = 0" using and_pow2_iff [of ?r k] r by auto
    ultimately show ?thesis by (simp only: half rev_inc.simps [of ?r "2 ^ k"]) (simp add: xor_pow2 [OF r])
  next
    case False
    then have j: "brev (Suc k) i = ?r + 2 ^ k" "Suc i mod 2 = 0" "Suc i div 2 = Suc (i div 2)"
      by (auto simp: odd_iff_mod_2_eq_one)
    have "(?r + 2 ^ k) AND 2 ^ k \<noteq> 0" using and_pow2_iff [of "?r + 2 ^ k" k] r by auto
    then have "rev_inc (?r + 2 ^ k) (2 ^ k) = rev_inc ?r (2 ^ k div 2)"
      by (subst rev_inc.simps) (simp add: xor_pow2 [OF r])
    moreover have "Suc (i div 2) < 2 ^ k" using Suc.prems False by (auto elim!: oddE)
    ultimately show ?thesis using Suc.IH j by (simp add: half add.commute)
  qed
qed simp

lemma brev_mod: "brev k (i mod 2 ^ k) = brev k i"
proof (induction k arbitrary: i)
  case (Suc k)
  have "(i mod 2 ^ Suc k) mod 2 = i mod 2" by (simp add: mod_mod_cancel)
  moreover have "(i mod 2 ^ Suc k) div 2 = (i div 2) mod 2 ^ k"
    by (simp add: mod_mult2_eq)
  ultimately show ?case using Suc by (simp only: brev.simps)
qed simp

lemma brev_high: "x < 2 ^ k \<Longrightarrow> brev (Suc k) (x + b * 2 ^ k) = 2 * brev k x + b" if "b < 2"
proof (induction k arbitrary: x)
  case 0
  then show ?case using that by simp
next
  case (Suc k)
  have e: "x + b * 2 ^ Suc k = x + b * 2 ^ k * 2" by simp
  have m: "(x + b * 2 ^ Suc k) mod 2 = x mod 2" unfolding e by (rule mod_mult_self1)
  have d: "(x + b * 2 ^ Suc k) div 2 = x div 2 + b * 2 ^ k" unfolding e by (simp add: div_mult_self1)
  have "x div 2 < 2 ^ k" using Suc.prems by auto
  then show ?case using Suc.IH [of "x div 2"] by (simp only: brev.simps(2) [of "Suc k"] m d) simp
qed

lemma brev_brev: "i < 2 ^ k \<Longrightarrow> brev k (brev k i) = i"
proof (induction k arbitrary: i)
  case (Suc k)
  have "i div 2 < 2 ^ k" using Suc.prems by auto
  then have "brev k (brev k (i div 2)) = i div 2" by (rule Suc.IH)
  then have "brev (Suc k) (brev k (i div 2) + (i mod 2) * 2 ^ k) = 2 * (i div 2) + i mod 2"
    by (subst brev_high) (simp_all add: brev_less)
  then show ?case by (simp add: add.commute)
qed simp

section \<open>The bit-reversal loop\<close>

lemma length_bitrev_loop [simp]: "length (bitrev_loop n is j a) = length a"
  by (induction n "is" j a rule: bitrev_loop.induct) (simp_all add: Let_def swap_nth_def)

text \<open>After index \<open>i\<close> a position holds its final entry once it or its mirror is at most \<open>i\<close>.\<close>

lemma bitrev_loop_nth:
  assumes n: "length a = 2 ^ k" and m: "m < 2 ^ k"
  shows "i \<le> 2 ^ k \<Longrightarrow> 0 < i \<Longrightarrow> length b = 2 ^ k \<Longrightarrow>
    (\<And>p. p < 2 ^ k \<Longrightarrow> b ! p = (if min p (brev k p) < i then a ! brev k p else a ! p)) \<Longrightarrow>
    bitrev_loop (2 ^ k) [i..<2 ^ k] (brev k (i - 1)) b ! m = a ! brev k m"
proof (induction "2 ^ k - i" arbitrary: i b)
  case 0
  then have "i = 2 ^ k" by simp
  then show ?case using 0 m brev_less [of k m] by (simp add: min_def)
next
  case (Suc d)
  then have i: "i < 2 ^ k" by simp
  let ?j = "brev k i"
  have j: "rev_inc (brev k (i - 1)) (2 ^ k div 2) = ?j"
    using rev_inc_brev [of "i - 1" k] i Suc.prems(2) by simp
  have jl: "?j < 2 ^ k" by (rule brev_less)
  have jj: "brev k ?j = i" using i by (rule brev_brev)
  let ?b = "if i < ?j then swap_nth b i ?j else b"
  have "?b ! p = (if min p (brev k p) < Suc i then a ! brev k p else a ! p)" if p: "p < 2 ^ k" for p
  proof -
    have pp: "brev k (brev k p) = p" using p by (rule brev_brev)
    consider "p = i" | "p = ?j" "p \<noteq> i" | "p \<noteq> i" "p \<noteq> ?j" by blast
    then show ?thesis
    proof cases
      case 1
      then show ?thesis
        using Suc.prems(3) i jl jj Suc.prems(4) [OF i] Suc.prems(4) [OF jl]
        by (auto simp: swap_nth_def nth_list_update min_def)
    next
      case 2
      then show ?thesis
        using Suc.prems(3) i jl jj Suc.prems(4) [OF i] Suc.prems(4) [OF jl]
        by (auto simp: swap_nth_def nth_list_update min_def)
    next
      case 3
      then have "brev k p \<noteq> i" using pp by auto
      then have "min p (brev k p) < Suc i \<longleftrightarrow> min p (brev k p) < i" using 3 by (auto simp: min_def)
      then show ?thesis
        using 3 Suc.prems(3) Suc.prems(4) [OF p] by (simp add: swap_nth_def)
    qed
  qed
  then have "bitrev_loop (2 ^ k) [Suc i..<2 ^ k] (brev k (Suc i - 1)) ?b ! m = a ! brev k m"
    using Suc by (intro Suc.hyps(1)) (simp_all add: swap_nth_def)
  then show ?case by (simp only: upt_conv_Cons [OF i] bitrev_loop.simps j Let_def diff_Suc_1)
qed

lemma bitrev_loop_result:
  assumes "length a = 2 ^ k" "m < 2 ^ k"
  shows "bitrev_loop (2 ^ k) [1..<2 ^ k] 0 a ! m = a ! brev k m"
proof -
  have "min p (brev k p) < 1 \<longleftrightarrow> p = 0" if "p < 2 ^ k" for p
    using brev_brev [OF that] by (cases "brev k p = 0") (auto simp: min_def)
  then show ?thesis
    using bitrev_loop_nth [OF assms, of 1 a] assms(1) by simp
qed

section \<open>The butterflies\<close>

lemma length_bf_inner [simp]: "length (bf_inner wl i half ks w a) = length a"
  by (induction wl i half ks w a rule: bf_inner.induct) (simp_all add: Let_def)

lemma length_bf_blocks [simp]: "length (bf_blocks wl half is a) = length a"
  by (induction wl half "is" a rule: bf_blocks.induct) simp_all

text \<open>One block: slot \<open>k\<close> and slot \<open>k + half\<close> take the sum and the difference.\<close>

lemma bf_inner_nth:
  assumes "i + half + half \<le> length a" "k0 \<le> half" "p < length a"
    and "(of_int w :: gl) = of_int wl ^ k0"
  shows "(of_int (bf_inner wl i half [k0..<half] w a ! p) :: gl) =
    (if i + k0 \<le> p \<and> p < i + half then of_int (a ! p) + of_int wl ^ (p - i) * of_int (a ! (p + half))
     else if i + half + k0 \<le> p \<and> p < i + half + half
       then of_int (a ! (p - half)) - of_int wl ^ (p - half - i) * of_int (a ! p)
     else of_int (a ! p))"
  using assms
proof (induction "half - k0" arbitrary: k0 w a)
  case 0
  then show ?case by auto
next
  case (Suc d)
  then have k: "k0 < half" by simp
  let ?u = "a ! (i + k0)" and ?v = "(a ! (i + k0 + half) * w) mod FIELD_P"
  let ?a = "a[i + k0 := (?u + ?v) mod FIELD_P, i + k0 + half := (?u - ?v) mod FIELD_P]"
  have w': "(of_int ((w * wl) mod FIELD_P) :: gl) = of_int wl ^ Suc k0" using Suc.prems(4) by simp
  have "d = half - Suc k0" "i + half + half \<le> length ?a" "Suc k0 \<le> half" "p < length ?a"
    using Suc.hyps(2) Suc.prems k by simp_all
  note ih = Suc.hyps(1) [OF this w']
  have unf: "bf_inner wl i half [k0..<half] w a = bf_inner wl i half [Suc k0..<half] ((w * wl) mod FIELD_P) ?a"
    by (simp add: upt_conv_Cons [OF k] Let_def)
  consider "p = i + k0" | "p = i + half + k0" | "p \<noteq> i + k0" "p \<noteq> i + half + k0" by blast
  then show ?case
  proof cases
    case 1
    then show ?thesis unfolding unf ih using k Suc.prems by (simp add: nth_list_update add_ac mult_ac)
  next
    case 2
    then show ?thesis unfolding unf ih using k Suc.prems by (simp add: nth_list_update add_ac mult_ac)
  next
    case 3
    define a' where "a' = ?a"
    have X: "a' ! p = a ! p" using 3 by (simp add: a'_def nth_list_update add_ac)
    have Y: "a' ! (p + half) = a ! (p + half)" if "i + Suc k0 \<le> p" using that by (simp add: a'_def)
    have Z: "a' ! (p - half) = a ! (p - half)" if "i + half + Suc k0 \<le> p" "p < i + half + half"
    proof -
      have "p - half \<noteq> i + k0" "p - half \<noteq> i + k0 + half" using that by auto
      then show ?thesis by (simp add: a'_def)
    qed
    have R: "i + k0 \<le> p \<longleftrightarrow> i + Suc k0 \<le> p" "i + half + k0 \<le> p \<longleftrightarrow> i + half + Suc k0 \<le> p"
      using 3 by auto
    show ?thesis unfolding unf ih R unfolding a'_def [symmetric] X
      by (cases "i + Suc k0 \<le> p \<and> p < i + half"; cases "i + half + Suc k0 \<le> p \<and> p < i + half + half")
        (simp_all only: Y Z if_True if_False simp_thms)
  qed
qed

text \<open>One level, over all blocks.\<close>

definition level_val :: "gl \<Rightarrow> nat \<Rightarrow> int list \<Rightarrow> nat \<Rightarrow> gl" where
  "level_val wl half a p =
     (let k = p mod (2 * half) in
      if k < half then of_int (a ! p) + wl ^ k * of_int (a ! (p + half))
      else of_int (a ! (p - half)) - wl ^ (k - half) * of_int (a ! p))"

lemma block_pos:
  fixes p :: nat
  assumes "b * L \<le> p" "p < b * L + L"
  shows "p mod L = p - b * L"
  using assms by (metis le_add_diff_inverse mod_less mod_mult_self3 add.commute less_diff_conv2)

lemma bf_blocks_nth:
  assumes half: "0 < half" and L: "L = 2 * half" and len: "length a = m * L"
  shows "c \<le> m \<Longrightarrow> p < m * L \<Longrightarrow>
    (of_int (bf_blocks wl half (map (\<lambda>b. b * L) [0..<c]) a ! p) :: gl) =
      (if p < c * L then level_val (of_int wl) half a p else of_int (a ! p))"
proof (induction c arbitrary: p)
  case (Suc c)
  let ?a = "bf_blocks wl half (map (\<lambda>b. b * L) [0..<c]) a"
  have app: "bf_blocks wl half (is @ js) x = bf_blocks wl half js (bf_blocks wl half is x)" for "is" js x
    by (induction wl half "is" x rule: bf_blocks.induct) simp_all
  have fit: "c * L + L \<le> m * L" using Suc.prems(1) mult_le_mono1 [of "Suc c" m L] by simp
  have ih: "(of_int (?a ! q) :: gl) = (if q < c * L then level_val (of_int wl) half a q else of_int (a ! q))"
    if "q < m * L" for q using Suc.IH [of q] Suc.prems(1) that by simp
  have step: "bf_blocks wl half (map (\<lambda>b. b * L) [0..<Suc c]) a = bf_inner wl (c * L) half [0..<half] 1 ?a"
    by (simp add: app)
  have val: "(of_int (bf_blocks wl half (map (\<lambda>b. b * L) [0..<Suc c]) a ! p) :: gl) =
    (if c * L \<le> p \<and> p < c * L + half then of_int (?a ! p) + of_int wl ^ (p - c * L) * of_int (?a ! (p + half))
     else if c * L + half \<le> p \<and> p < c * L + half + half
       then of_int (?a ! (p - half)) - of_int wl ^ (p - half - c * L) * of_int (?a ! p)
     else of_int (?a ! p))"
    unfolding step using bf_inner_nth [of "c * L" half ?a 0 p 1 wl] fit L len Suc.prems(2) by simp
  consider "p < c * L" | "c * L \<le> p" "p < c * L + half" | "c * L + half \<le> p" "p < c * L + L" | "c * L + L \<le> p"
    by linarith
  then show ?case
  proof cases
    case 1
    then show ?thesis unfolding val using ih [OF Suc.prems(2)] by simp
  next
    case 2
    then have "p mod (2 * half) = p - c * L" "p - c * L < half"
      using block_pos [of c L p] L half by simp_all
    then show ?thesis unfolding val using 2 ih [OF Suc.prems(2)] ih [of "p + half"] fit L
      by (simp add: level_val_def Let_def)
  next
    case 3
    then have "p mod (2 * half) = p - c * L" "\<not> p - c * L < half"
      using block_pos [of c L p] L half by simp_all
    moreover have "p - c * L - half = p - half - c * L" "\<not> p - half < c * L" using 3 by simp_all
    ultimately show ?thesis unfolding val using 3 ih [OF Suc.prems(2)] ih [of "p - half"] fit L Suc.prems(2)
      by (simp add: level_val_def Let_def)
  next
    case 4
    then show ?thesis unfolding val using ih [OF Suc.prems(2)] L by simp
  qed
qed simp

section \<open>The transform\<close>

text \<open>The specification: the \<open>k\<close>-th output is the sum of \<open>a[j] * omega^(k j)\<close>.\<close>

definition dft :: "int list \<Rightarrow> int \<Rightarrow> int list" where
  "dft a omega =
     map (\<lambda>k. (\<Sum>j<length a. a ! j * omega ^ (k * j)) mod FIELD_P) [0..<length a]"

definition dft_gl :: "gl list \<Rightarrow> gl \<Rightarrow> nat \<Rightarrow> gl" where
  "dft_gl a w k = (\<Sum>j<length a. a ! j * w ^ (k * j))"

lemma gl_dft: "k < length a \<Longrightarrow> (of_int (dft a omega ! k) :: gl) = dft_gl (glL a) (of_int omega) k"
  by (simp add: dft_def dft_gl_def)

text \<open>The value held after level \<open>s\<close>: each block of size \<open>2^s\<close> is a small transform.\<close>

definition level_spec :: "gl list \<Rightarrow> gl \<Rightarrow> nat \<Rightarrow> nat \<Rightarrow> nat \<Rightarrow> gl" where
  "level_spec y ws s b k = (\<Sum>m<2 ^ s. y ! (b * 2 ^ s + brev s m) * ws ^ (k * m))"

lemma sum_even_odd:
  fixes f :: "nat \<Rightarrow> 'a::comm_monoid_add"
  shows "(\<Sum>m<2 * n. f m) = (\<Sum>m<n. f (2 * m)) + (\<Sum>m<n. f (2 * m + 1))"
  by (induction n) (simp_all add: add_ac)

lemma level_spec_step:
  assumes w: "w ^ (2 ^ s) = - 1" and k: "k < 2 ^ s"
  shows "level_spec y w (Suc s) b k
           = level_spec y (w\<^sup>2) s (2 * b) k + w ^ k * level_spec y (w\<^sup>2) s (2 * b + 1) k"
    and "level_spec y w (Suc s) b (k + 2 ^ s)
           = level_spec y (w\<^sup>2) s (2 * b) k - w ^ k * level_spec y (w\<^sup>2) s (2 * b + 1) k"
proof -
  have ev: "b * 2 ^ Suc s + brev (Suc s) (2 * m) = (2 * b) * 2 ^ s + brev s m" for m by simp
  have od: "b * 2 ^ Suc s + brev (Suc s) (2 * m + 1) = (2 * b + 1) * 2 ^ s + brev s m" for m
  proof -
    have "(2 * m + 1) mod 2 = (1::nat)" "(2 * m + 1) div 2 = m" by presburger+
    then show ?thesis by (simp only: brev.simps) (simp add: algebra_simps)
  qed
  have split: "level_spec y w (Suc s) b k'
      = (\<Sum>m<2 ^ s. y ! ((2 * b) * 2 ^ s + brev s m) * w ^ (k' * (2 * m)))
      + (\<Sum>m<2 ^ s. y ! ((2 * b + 1) * 2 ^ s + brev s m) * w ^ (k' * (2 * m + 1)))" for k'
    unfolding level_spec_def power_Suc [of 2 s] sum_even_odd
    using ev od by (simp only: power_Suc)
  have p: "w ^ (k * (2 * m)) = (w\<^sup>2) ^ (k * m)" "w ^ (k * (2 * m + 1)) = w ^ k * (w\<^sup>2) ^ (k * m)" for m
    by (simp_all add: algebra_simps flip: power_mult power_add)
  have one: "w ^ (2 ^ s * (2 * m)) = 1" for m
    by (simp add: power_mult w)
  have q: "w ^ ((k + 2 ^ s) * (2 * m)) = (w\<^sup>2) ^ (k * m)"
    "w ^ ((k + 2 ^ s) * (2 * m + 1)) = - (w ^ k * (w\<^sup>2) ^ (k * m))" for m
    using one [of m] w p [of m] by (simp_all add: distrib_right power_add)
  show "level_spec y w (Suc s) b k
           = level_spec y (w\<^sup>2) s (2 * b) k + w ^ k * level_spec y (w\<^sup>2) s (2 * b + 1) k"
    unfolding split p by (simp add: level_spec_def sum_distrib_left mult_ac)
  show "level_spec y w (Suc s) b (k + 2 ^ s)
           = level_spec y (w\<^sup>2) s (2 * b) k - w ^ k * level_spec y (w\<^sup>2) s (2 * b + 1) k"
    unfolding split q by (simp add: level_spec_def sum_distrib_left mult_ac sum_negf)
qed

definition canonical :: "int list \<Rightarrow> bool" where
  "canonical xs \<longleftrightarrow> (\<forall>x \<in> set xs. 0 \<le> x \<and> x < FIELD_P)"

lemma canonical_nth: "canonical xs \<Longrightarrow> i < length xs \<Longrightarrow> 0 \<le> xs ! i \<and> xs ! i < FIELD_P"
  by (simp add: canonical_def)

lemma canonical_eqI:
  "canonical xs \<Longrightarrow> canonical ys \<Longrightarrow> length xs = length ys \<Longrightarrow>
   (\<And>i. i < length xs \<Longrightarrow> (of_int (xs ! i) :: gl) = of_int (ys ! i)) \<Longrightarrow> xs = ys"
  by (intro list_eq_nthI gl_inj_canonical) (auto simp: canonical_nth)

lemma canonical_update: "canonical a \<Longrightarrow> 0 \<le> v \<Longrightarrow> v < FIELD_P \<Longrightarrow> canonical (a[i := v])"
  using set_update_subset_insert [of a i v] by (auto simp: canonical_def)

lemma canonical_bf_inner: "canonical a \<Longrightarrow> canonical (bf_inner wl i half ks w a)"
  by (induction wl i half ks w a rule: bf_inner.induct) (simp_all add: Let_def canonical_update)

lemma canonical_bf_blocks: "canonical a \<Longrightarrow> canonical (bf_blocks wl half is a)"
  by (induction wl half "is" a rule: bf_blocks.induct) (simp_all add: canonical_bf_inner)

lemma canonical_dft: "canonical (dft a w)"
  by (auto simp: canonical_def dft_def)

definition eff_root :: "int \<Rightarrow> bool \<Rightarrow> gl" where
  "eff_root omega invert = (if invert then inverse (of_int omega) else of_int omega)"

lemma eff_root_step:
  assumes "(of_int omega :: gl) \<noteq> 0"
  shows "\<exists>wl. (let w = powmod omega e FIELD_P in if invert then inv_ref w else Inr w) = Inr wl
    \<and> (of_int wl :: gl) = eff_root omega invert ^ e"
proof (cases invert)
  case True
  have "(of_int (powmod omega e FIELD_P) :: gl) \<noteq> 0" using assms by simp
  then have "\<not> FIELD_P dvd powmod omega e FIELD_P" by (simp only: gl_eq_0_iff not_False_eq_True)
  then show ?thesis using True by (simp add: inv_ref_eq eff_root_def power_inverse)
qed (simp add: eff_root_def Let_def)

lemma bf_levels_run:
  assumes nz: "(of_int omega :: gl) \<noteq> 0"
    and root: "0 < K \<Longrightarrow> eff_root omega invert ^ (2 ^ (K - 1)) = - 1"
  shows "s \<le> K \<Longrightarrow> length a = 2 ^ K \<Longrightarrow> canonical a \<Longrightarrow>
    (\<And>p. p < 2 ^ K \<Longrightarrow> (of_int (a ! p) :: gl)
       = level_spec y (eff_root omega invert ^ (2 ^ (K - s))) s (p div 2 ^ s) (p mod 2 ^ s)) \<Longrightarrow>
    \<exists>r. bf_levels (2 ^ Suc s) (2 ^ K) omega invert a = Inr r \<and> length r = 2 ^ K \<and> canonical r \<and>
      (\<forall>p < 2 ^ K. (of_int (r ! p) :: gl) = level_spec y (eff_root omega invert) K 0 p)"
proof (induction "K - s" arbitrary: s a)
  case 0
  then have "s = K" by simp
  then show ?case using 0 by (simp add: bf_levels.simps [of "2 * 2 ^ K"])
next
  case (Suc d)
  let ?w = "eff_root omega invert" and ?L = "2 ^ Suc s :: nat"
  have s: "s < K" "d = K - Suc s" "Suc s \<le> K" using Suc.hyps(2) by simp_all
  have LK: "(2::nat) ^ K = 2 ^ (K - Suc s) * ?L" using s by (simp flip: power_add power_Suc)
  have Lle: "?L \<le> 2 ^ K" using s by (intro power_increasing) simp_all
  have div: "2 ^ K div ?L = 2 ^ (K - Suc s)" unfolding LK by simp
  obtain wl where wl: "(let w = powmod omega (2 ^ (K - Suc s)) FIELD_P in if invert then inv_ref w else Inr w) = Inr wl"
    "(of_int wl :: gl) = ?w ^ (2 ^ (K - Suc s))" using eff_root_step [OF nz] by blast
  let ?b = "bf_blocks wl (?L div 2) (map (\<lambda>b. b * ?L) [0..<2 ^ (K - Suc s)]) a"
  have unf: "bf_levels ?L (2 ^ K) omega invert a = bf_levels (2 ^ Suc (Suc s)) (2 ^ K) omega invert ?b"
    using Lle wl(1) by (subst bf_levels.simps) (simp only: div, simp)
  have neg: "(of_int wl :: gl) ^ (2 ^ s) = - 1"
    using root s(1) by (simp add: wl(2) flip: power_mult power_add)
  have sq: "(of_int wl :: gl)\<^sup>2 = ?w ^ (2 ^ (K - s))"
    using s by (simp add: wl(2) Suc_diff_Suc flip: power_mult power_Suc2)
  have "(of_int (?b ! p) :: gl) = level_spec y (of_int wl) (Suc s) (p div ?L) (p mod ?L)" if p: "p < 2 ^ K" for p
  proof -
    have half: "?L div 2 = 2 ^ s" by simp
    have v: "(of_int (?b ! p) :: gl) = level_val (of_int wl) (2 ^ s) a p"
      using bf_blocks_nth [of "2 ^ s" ?L a "2 ^ (K - Suc s)" "2 ^ (K - Suc s)" p wl] p LK Suc.prems(2)
      by (simp add: half)
    define b k where "b = p div ?L" and "k = p mod ?L"
    have pk: "p = b * ?L + k" "k < ?L" unfolding b_def k_def by (rule div_mult_mod_eq [symmetric]) simp
    have dm: "(c * 2 ^ s + x) div 2 ^ s = c" "(c * 2 ^ s + x) mod 2 ^ s = x" if "x < 2 ^ s" for c x :: nat
      using that by simp_all
    have bK: "b < 2 ^ (K - Suc s)" using p unfolding b_def LK by (rule less_mult_imp_div_less)
    show ?thesis
    proof (cases "k < 2 ^ s")
      case True
      have q: "p = 2 * b * 2 ^ s + k" "p + 2 ^ s = (2 * b + 1) * 2 ^ s + k"
        using pk by (simp_all add: algebra_simps)
      have "p + 2 ^ s < 2 ^ K" using mult_add_less [OF bK, of "k + 2 ^ s" ?L] True pk LK by simp
      then have "(of_int (a ! (p + 2 ^ s)) :: gl) = level_spec y ((of_int wl)\<^sup>2) s (2 * b + 1) k"
        using Suc.prems(4) [of "p + 2 ^ s"] unfolding sq q(2) by (simp only: dm [OF True])
      moreover have "(of_int (a ! p) :: gl) = level_spec y ((of_int wl)\<^sup>2) s (2 * b) k"
        using Suc.prems(4) [OF p] unfolding sq q(1) by (simp only: dm [OF True])
      ultimately show ?thesis
        using v True level_spec_step(1) [OF neg True, of y b]
        by (simp add: level_val_def Let_def flip: b_def k_def power_Suc)
    next
      case False
      define k' where "k' = k - 2 ^ s"
      have k': "k = k' + 2 ^ s" "k' < 2 ^ s" using False pk(2) by (simp_all add: k'_def)
      have q: "p = (2 * b + 1) * 2 ^ s + k'" "p - 2 ^ s = 2 * b * 2 ^ s + k'"
        using pk k' by (simp_all add: algebra_simps)
      have "(of_int (a ! (p - 2 ^ s)) :: gl) = level_spec y ((of_int wl)\<^sup>2) s (2 * b) k'"
        using Suc.prems(4) [OF less_imp_diff_less [OF p, of "2 ^ s"]] unfolding sq q(2)
        by (simp only: dm [OF k'(2)])
      moreover have "(of_int (a ! p) :: gl) = level_spec y ((of_int wl)\<^sup>2) s (2 * b + 1) k'"
        using Suc.prems(4) [OF p] unfolding sq q(1) by (simp only: dm [OF k'(2)])
      ultimately show ?thesis
        using v False level_spec_step(2) [OF neg k'(2), of y b] k'
        by (simp add: level_val_def Let_def flip: b_def k_def power_Suc)
    qed
  qed
  then show ?case
    unfolding unf using Suc.hyps(1) [OF s(2,3), of ?b] Suc.prems canonical_bf_blocks by (simp add: wl(2))
qed

lemma brev_sum:
  fixes f :: "nat \<Rightarrow> nat \<Rightarrow> 'a::comm_monoid_add"
  shows "(\<Sum>m<2 ^ k. f (brev k (brev k m)) m) = (\<Sum>m<2 ^ k. f m m)"
  by (intro sum.cong) (simp_all add: brev_brev)

text \<open>
  \<open>omega\<close> is usable for length \<open>n\<close> when its \<open>n / 2\<close>-th power is \<open>-1\<close>; it then has order
  exactly \<open>n\<close>.
\<close>

definition ntt_root :: "int \<Rightarrow> nat \<Rightarrow> bool" where
  "ntt_root omega n \<longleftrightarrow> (if n < 2 then omega mod FIELD_P = 1 else omega ^ (n div 2) mod FIELD_P = FIELD_P - 1)"

lemma ntt_root_gl:
  assumes "ntt_root omega (2 ^ K)"
  shows "(of_int omega :: gl) \<noteq> 0" "0 < K \<Longrightarrow> (of_int omega :: gl) ^ (2 ^ (K - 1)) = - 1"
    "(of_int omega :: gl) ^ (2 ^ K) = 1"
proof -
  have m1: "(of_int (FIELD_P - 1) :: gl) = - 1"
    using gl_of_int_mod [of FIELD_P] by simp
  have neg: "(of_int omega :: gl) ^ (2 ^ (K - 1)) = - 1" if "0 < K"
  proof -
    have "(2::nat) ^ K div 2 = 2 ^ (K - 1)" "\<not> (2::nat) ^ K < 2"
      using that by (cases K; simp)+
    then have "omega ^ (2 ^ (K - 1)) mod FIELD_P = FIELD_P - 1"
      using assms by (simp only: ntt_root_def if_False)
    then have "(of_int (omega ^ (2 ^ (K - 1)) mod FIELD_P) :: gl) = of_int (FIELD_P - 1)" by simp
    then show ?thesis by (simp only: m1 gl_of_int_mod of_int_power)
  qed
  have one: "(of_int omega :: gl) = 1" if "K = 0"
    using assms that gl_of_int_mod [of omega] by (simp add: ntt_root_def)
  show "0 < K \<Longrightarrow> (of_int omega :: gl) ^ (2 ^ (K - 1)) = - 1" by (rule neg)
  show "(of_int omega :: gl) ^ (2 ^ K) = 1"
  proof (cases K)
    case 0
    then show ?thesis using one by simp
  next
    case (Suc k)
    have "(of_int omega :: gl) ^ (2 ^ K) = ((of_int omega) ^ (2 ^ (K - 1)))\<^sup>2"
      by (simp add: Suc mult.commute flip: power_mult)
    then show ?thesis using neg Suc by simp
  qed
  then show "(of_int omega :: gl) \<noteq> 0" by (metis power_0_left zero_neq_one power_eq_0_iff zero_less_numeral zero_less_power nat_neq_iff)
qed

lemma ntt_levels:
  assumes n: "length a = 2 ^ K" and c: "canonical a" and r: "ntt_root omega (2 ^ K)"
  shows "\<exists>r. bf_levels 2 (2 ^ K) omega invert (bitrev_loop (2 ^ K) [1..<2 ^ K] 0 a) = Inr r \<and>
    length r = 2 ^ K \<and> canonical r \<and>
    (\<forall>k < 2 ^ K. (of_int (r ! k) :: gl) = dft_gl (glL a) (eff_root omega invert) k)"
proof -
  let ?y = "bitrev_loop (2 ^ K) [1..<2 ^ K] 0 a" and ?w = "eff_root omega invert"
  have y: "?y ! m = a ! brev K m" if "m < 2 ^ K" for m using bitrev_loop_result [OF n that] .
  have cy: "canonical ?y"
    using canonical_nth [OF c] n y brev_less unfolding canonical_def by (auto simp: in_set_conv_nth)
  have w: "?w ^ (2 ^ (K - 1)) = - 1" if "0 < K"
    using ntt_root_gl(2) [OF r that] by (simp add: eff_root_def power_inverse)
  have start: "(of_int (?y ! p) :: gl)
      = level_spec (glL ?y) (?w ^ (2 ^ (K - 0))) 0 (p div 2 ^ 0) (p mod 2 ^ 0)" if "p < 2 ^ K" for p
    using that n by (simp add: level_spec_def)
  obtain r where r: "bf_levels (2 ^ Suc 0) (2 ^ K) omega invert ?y = Inr r" "length r = 2 ^ K" "canonical r"
    "\<And>p. p < 2 ^ K \<Longrightarrow> (of_int (r ! p) :: gl) = level_spec (glL ?y) ?w K 0 p"
    using bf_levels_run [OF ntt_root_gl(1) [OF r] w _ _ cy start] n by auto
  have "level_spec (glL ?y) ?w K 0 k = dft_gl (glL a) ?w k" for k
  proof -
    have "level_spec (glL ?y) ?w K 0 k = (\<Sum>m<2 ^ K. glL a ! brev K (brev K m) * ?w ^ (k * m))"
      unfolding level_spec_def using n y brev_less by (intro sum.cong) simp_all
    then show ?thesis using n brev_sum [of "\<lambda>i m. glL a ! i * ?w ^ (k * m)" K] by (simp add: dft_gl_def)
  qed
  then show ?thesis using r by auto
qed

lemma ntt_forward:
  assumes n: "length a = 2 ^ K" and c: "canonical a" and r: "ntt_root omega (length a)"
  shows "ntt a omega False = Inr (dft a omega)"
proof -
  obtain b where b: "bf_levels 2 (2 ^ K) omega False (bitrev_loop (2 ^ K) [1..<2 ^ K] 0 a) = Inr b"
    "length b = 2 ^ K" "canonical b"
    "\<And>k. k < 2 ^ K \<Longrightarrow> (of_int (b ! k) :: gl) = dft_gl (glL a) (of_int omega) k"
    using ntt_levels [OF n c, of omega False] r n by (auto simp: eff_root_def)
  have "b = dft a omega"
    using b n by (intro canonical_eqI canonical_dft) (simp_all add: gl_dft, simp_all add: dft_def)
  then show ?thesis using b(1) n and_pow2_pred [of K] by (simp add: ntt_def Let_def)
qed

text \<open>
  Property C22 (\<open>ntt_is_dft\<close>): for a canonical vector whose length is a power of two and a root
  whose half power is \<open>-1\<close>, the iterative in-place transform (bit reversal, butterflies)
  returns the discrete Fourier transform.
\<close>

theorem ntt_is_dft:
  assumes n: "length a = 2 ^ K" and c: "canonical a" and r: "ntt_root omega (length a)"
  shows "ntt a omega False = Inr (dft a omega)"
  using assms by (rule ntt_forward)

theorem ntt_is_dft_witness: "ntt [1, 2] (FIELD_P - 1) False = Inr (dft [1, 2] (FIELD_P - 1))"
proof (rule ntt_is_dft)
  show "length [1, 2 :: int] = 2 ^ 1" by simp
  show "canonical [1, 2]" by (simp add: canonical_def FIELD_P_val)
  show "ntt_root (FIELD_P - 1) (length [1, 2 :: int])" by (simp add: ntt_root_def FIELD_P_val)
qed

lemma root_power_neq_1:
  assumes r: "ntt_root omega (2 ^ K)" and d: "0 < d" "d < 2 ^ K"
  shows "(of_int omega :: gl) ^ d \<noteq> 1"
proof
  assume 1: "(of_int omega :: gl) ^ d = 1"
  have K: "0 < K" using d by (cases K) auto
  then have "\<not> (2::nat) ^ K < 2" "(2::nat) ^ K div 2 = 2 ^ (K - 1)" by (cases K; simp)+
  then have "omega ^ (2 ^ (K - 1)) mod FIELD_P = FIELD_P - 1"
    using r by (simp only: ntt_root_def if_False)
  then have "omega ^ 0 mod FIELD_P \<noteq> omega ^ d mod FIELD_P"
    using d K by (intro pow_minus_one_distinct [where s = "K - 1"]) (simp_all add: FIELD_P_val)
  then show False using 1 gl_eq_iff [of "omega ^ d" 1] by simp
qed

lemma geometric_zero:
  fixes w :: "'a::field"
  assumes "w \<noteq> 1" "w ^ n = 1"
  shows "(\<Sum>k<n. w ^ k) = 0"
  using assms by (simp add: geometric_sum)

text \<open>Orthogonality of the powers of a root.\<close>

lemma root_orthogonal:
  assumes r: "ntt_root omega (2 ^ K)" and ij: "i < 2 ^ K" "j < 2 ^ K"
  shows "(\<Sum>k<2 ^ K. (of_int omega :: gl) ^ (k * j) * inverse (of_int omega) ^ (i * k))
           = (if i = j then of_nat (2 ^ K) else 0)"
proof -
  let ?w = "of_int omega :: gl"
  note w = ntt_root_gl [OF r]
  have t: "?w ^ (k * j) * inverse ?w ^ (i * k) = (?w ^ j * inverse ?w ^ i) ^ k" for k
    by (simp add: power_mult_distrib mult.commute flip: power_mult)
  show ?thesis
  proof (cases "i = j")
    case True
    have "?w ^ (k * j) * inverse ?w ^ (j * k) = 1" for k
      using w(1) by (simp add: power_inverse mult.commute)
    then show ?thesis using True by simp
  next
    case False
    have "?w ^ j * inverse ?w ^ i \<noteq> 1"
    proof
      assume "?w ^ j * inverse ?w ^ i = 1"
      then have e: "?w ^ j = ?w ^ i" using w(1) by (simp add: field_simps power_inverse)
      show False
      proof (cases "i < j")
        case True
        then have "?w ^ (j - i) = 1" using e w(1) by (simp add: power_diff)
        then show False using root_power_neq_1 [OF r, of "j - i"] True ij by simp
      next
        case False
        then have "?w ^ (i - j) = 1" using e w(1) by (simp add: power_diff)
        then show False using root_power_neq_1 [OF r, of "i - j"] False \<open>i \<noteq> j\<close> ij by simp
      qed
    qed
    moreover have "(?w ^ j * inverse ?w ^ i) ^ (2 ^ K) = 1"
    proof -
      have "(?w ^ j * inverse ?w ^ i) ^ (2 ^ K) = (?w ^ (2 ^ K)) ^ j * inverse ((?w ^ (2 ^ K)) ^ i)"
        by (simp add: power_mult_distrib mult.commute power_inverse flip: power_mult)
      then show ?thesis using w(3) by simp
    qed
    ultimately show ?thesis using False by (simp add: t geometric_zero)
  qed
qed

lemma two_gl_neq_0 [simp]: "(2 :: gl) \<noteq> 0"
  using gl_eq_0_iff [of 2] by (simp add: FIELD_P_val)

lemma pow2_not_zero_gl: "(of_nat (2 ^ K) :: gl) \<noteq> 0"
  by simp

lemma ntt_inverse_forward:
  assumes n: "length a = 2 ^ K" and c: "canonical a" and r: "ntt_root omega (length a)"
  shows "rbind (ntt a omega False) (\<lambda>b. ntt b omega True) = Inr a"
proof -
  let ?d = "dft a omega" and ?w = "of_int omega :: gl"
  have r': "ntt_root omega (2 ^ K)" using r n by simp
  have ld: "length ?d = 2 ^ K" using n by (simp add: dft_def)
  obtain b where b: "bf_levels 2 (2 ^ K) omega True (bitrev_loop (2 ^ K) [1..<2 ^ K] 0 ?d) = Inr b"
    "length b = 2 ^ K" "canonical b"
    "\<And>k. k < 2 ^ K \<Longrightarrow> (of_int (b ! k) :: gl) = dft_gl (glL ?d) (inverse ?w) k"
    using ntt_levels [OF ld canonical_dft r', of True] by (auto simp: eff_root_def)
  have nz: "(of_int (int (2 ^ K)) :: gl) \<noteq> 0" using pow2_not_zero_gl [of K] by simp
  then have inv: "inv_ref (int (2 ^ K)) = Inr (inv_P (int (2 ^ K)))"
    by (simp only: inv_ref_eq gl_eq_0_iff if_False)
  let ?res = "map (\<lambda>x. (x * inv_P (int (2 ^ K))) mod FIELD_P) b"
  have "?res = a"
  proof (rule canonical_eqI)
    show "canonical ?res" by (auto simp: canonical_def)
    show "canonical a" by (rule c)
    show "length ?res = length a" using b n by simp
    fix i assume "i < length ?res"
    then have i: "i < 2 ^ K" using b by simp
    have "(of_int (b ! i) :: gl) = (\<Sum>k<2 ^ K. (\<Sum>j<2 ^ K. of_int (a ! j) * ?w ^ (k * j)) * inverse ?w ^ (i * k))"
      unfolding b(4) [OF i] dft_gl_def using ld n by (simp add: gl_dft dft_gl_def)
    also have "\<dots> = (\<Sum>k<2 ^ K. \<Sum>j<2 ^ K. of_int (a ! j) * (?w ^ (k * j) * inverse ?w ^ (i * k)))"
      by (simp add: sum_distrib_right mult.assoc)
    also have "\<dots> = (\<Sum>j<2 ^ K. of_int (a ! j) * (\<Sum>k<2 ^ K. ?w ^ (k * j) * inverse ?w ^ (i * k)))"
      by (subst sum.swap) (simp add: sum_distrib_left)
    also have "\<dots> = (\<Sum>j<2 ^ K. if j = i then of_int (a ! i) * of_nat (2 ^ K) else 0)"
      using i by (intro sum.cong) (simp_all add: root_orthogonal [OF r'] del: of_nat_power)
    also have "\<dots> = of_int (a ! i) * of_nat (2 ^ K)" using i by simp
    finally show "(of_int (?res ! i) :: gl) = of_int (a ! i)"
      using i b(2) nz by (simp add: field_simps)
  qed
  then have "ntt ?d omega True = Inr a"
    using b(1) ld inv and_pow2_pred [of K] by (simp add: ntt_def Let_def)
  then show ?thesis using ntt_forward [OF n c r] by simp
qed

text \<open>
  Property C23 (\<open>ntt_roundtrip\<close>): the inverse transform of the transform is the original vector,
  including the scaling by \<open>inv(n)\<close> and the inverted level roots.
\<close>

theorem ntt_roundtrip:
  assumes n: "length a = 2 ^ K" and c: "canonical a" and r: "ntt_root omega (length a)"
  shows "rbind (ntt a omega False) (\<lambda>b. ntt b omega True) = Inr a"
  using assms by (rule ntt_inverse_forward)

theorem ntt_roundtrip_witness:
  "rbind (ntt [3, 4] (FIELD_P - 1) False) (\<lambda>b. ntt b (FIELD_P - 1) True) = Inr [3, 4]"
proof (rule ntt_roundtrip)
  show "length [3, 4 :: int] = 2 ^ 1" by simp
  show "canonical [3, 4]" by (simp add: canonical_def FIELD_P_val)
  show "ntt_root (FIELD_P - 1) (length [3, 4 :: int])" by (simp add: ntt_root_def FIELD_P_val)
qed

section \<open>Roots of unity\<close>

lemma root_of_unity_pow2:
  assumes "K \<le> 32"
  shows "\<exists>w. root_of_unity (2 ^ K) = Inr w \<and> ntt_root w (2 ^ K) \<and> 0 \<le> w \<and> w < FIELD_P"
proof -
  have P: "FIELD_P - 1 = 4294967295 * 2 ^ (32 - K) * 2 ^ K"
    using assms by (simp add: FIELD_P_val mult.assoc flip: power_add)
  have mod: "(FIELD_P - 1) mod 2 ^ K = 0" and dv: "(FIELD_P - 1) div 2 ^ K = 4294967295 * 2 ^ (32 - K)"
    unfolding P by simp_all
  define e :: nat where "e = 4294967295 * 2 ^ (32 - K)"
  have ne: "nat ((FIELD_P - 1) div 2 ^ K) = e" by (simp add: dv e_def nat_mult_distrib nat_power_eq)
  let ?w = "powmod GLOBAL_G e FIELD_P"
  have "root_of_unity (2 ^ K) = Inr ?w"
    using mod by (simp add: root_of_unity_def ne)
  moreover have "ntt_root ?w (2 ^ K)"
  proof (cases K)
    case 0
    have m1: "(of_int (FIELD_P - 1) :: gl) = - 1" using gl_of_int_mod [of FIELD_P] by simp
    have "e = 4294967295 * 2 ^ 31 * 2" by (simp add: e_def 0)
    then have "(of_int ?w :: gl) = (of_int (7 ^ (4294967295 * 2 ^ 31) mod FIELD_P))\<^sup>2"
      by (simp only: gl_powmod GLOBAL_G_def gl_of_int_mod of_int_power power_mult)
    then have "(of_int ?w :: gl) = (of_int (FIELD_P - 1))\<^sup>2" by (simp only: seven_nonresidue)
    then have "(of_int ?w :: gl) = of_int 1" by (simp only: m1) simp
    then show ?thesis using 0 gl_eq_iff [of ?w 1] by (simp add: ntt_root_def)
  next
    case (Suc k)
    have "e * 2 ^ k = 4294967295 * 2 ^ 31"
      using assms Suc by (simp add: e_def mult.assoc flip: power_add)
    then have "?w ^ (2 ^ k) mod FIELD_P = 7 ^ (4294967295 * 2 ^ 31) mod FIELD_P"
      by (simp only: powmod_eq power_mod GLOBAL_G_def flip: power_mult)
    then show ?thesis using Suc by (simp only: seven_nonresidue) (simp add: ntt_root_def)
  qed
  moreover have "0 \<le> ?w \<and> ?w < FIELD_P" by (simp add: powmod_eq)
  ultimately show ?thesis by blast
qed

text \<open>
  Fact (\<open>root_of_unity_order\<close>): for every power of two up to \<open>2^32\<close> the routine returns
  an element of exactly that multiplicative order.
\<close>

theorem root_of_unity_order:
  assumes "K \<le> 32"
  shows "\<exists>w. root_of_unity (2 ^ K) = Inr w \<and> w ^ (2 ^ K) mod FIELD_P = 1 \<and>
    (\<forall>d. 0 < d \<and> d < 2 ^ K \<longrightarrow> w ^ d mod FIELD_P \<noteq> 1)"
proof -
  obtain w where w: "root_of_unity (2 ^ K) = Inr w" "ntt_root w (2 ^ K)"
    using root_of_unity_pow2 [OF assms] by blast
  have "w ^ (2 ^ K) mod FIELD_P = 1"
    using ntt_root_gl(3) [OF w(2)] gl_eq_iff [of "w ^ (2 ^ K)" 1] by simp
  moreover have "w ^ d mod FIELD_P \<noteq> 1" if "0 < d" "d < 2 ^ K" for d
    using root_power_neq_1 [OF w(2) that] gl_eq_iff [of "w ^ d" 1] by simp
  ultimately show ?thesis using w(1) by blast
qed

theorem root_of_unity_order_witness:
  "\<exists>w. root_of_unity (2 ^ 3) = Inr w \<and> w ^ (2 ^ 3) mod FIELD_P = 1 \<and>
    (\<forall>d. 0 < d \<and> d < 2 ^ 3 \<longrightarrow> w ^ d mod FIELD_P \<noteq> 1)"
  by (rule root_of_unity_order) simp

end
