(* ===== verification/Ntt_Apps.thy ===== *)
theory Ntt_Apps
  imports Ntt
begin

text \<open>
  Two routines of \<^verbatim>\<open>prover/ref/goldilocks_ref.py\<close> built on the transform: Bailey's
  four-step factorisation \<open>ntt_bailey\<close> and the polynomial product \<open>pmul_goldilocks\<close>.
\<close>

section \<open>Bailey's four steps\<close>

definition col_of :: "int list \<Rightarrow> nat \<Rightarrow> nat \<Rightarrow> nat \<Rightarrow> int list" where
  "col_of a n1 n2 jb = map (\<lambda>ja. a ! (ja * n2 + jb)) [0..<n1]"

definition row_of :: "int list \<Rightarrow> nat \<Rightarrow> nat \<Rightarrow> int list" where
  "row_of a n2 ka = map (\<lambda>jb. a ! (ka * n2 + jb)) [0..<n2]"

fun bailey_cols :: "int list \<Rightarrow> nat \<Rightarrow> nat \<Rightarrow> int \<Rightarrow> nat list \<Rightarrow> int list \<Rightarrow> int list result" where
  "bailey_cols a n1 n2 w_n1 [] after1 = Inr after1"
| "bailey_cols a n1 n2 w_n1 (jb # jbs) after1 =
     rbind (ntt (col_of a n1 n2 jb) w_n1 False) (\<lambda>col_ntt.
       bailey_cols a n1 n2 w_n1 jbs
         (foldl (\<lambda>x ka. x[ka * n2 + jb := col_ntt ! ka]) after1 [0..<n1]))"

definition bailey_twiddle :: "int list \<Rightarrow> nat \<Rightarrow> nat \<Rightarrow> int \<Rightarrow> int list" where
  "bailey_twiddle after1 n1 n2 w_n =
     foldl (\<lambda>x ka. foldl (\<lambda>y jb. y[ka * n2 + jb :=
                (after1 ! (ka * n2 + jb) * powmod w_n (ka * jb) FIELD_P) mod FIELD_P]) x [0..<n2])
       after1 [0..<n1]"

fun bailey_rows :: "int list \<Rightarrow> nat \<Rightarrow> nat \<Rightarrow> int \<Rightarrow> nat list \<Rightarrow> int list \<Rightarrow> int list result" where
  "bailey_rows after2 n1 n2 w_n2 [] out = Inr out"
| "bailey_rows after2 n1 n2 w_n2 (ka # kas) out =
     rbind (ntt (row_of after2 n2 ka) w_n2 False) (\<lambda>row_ntt.
       bailey_rows after2 n1 n2 w_n2 kas
         (foldl (\<lambda>x kb. x[kb * n1 + ka := row_ntt ! kb]) out [0..<n2]))"

definition ntt_bailey :: "int list \<Rightarrow> nat \<Rightarrow> nat \<Rightarrow> int list result" where
  "ntt_bailey a n1 n2 =
     (if n1 * n2 \<noteq> length a then Inl AssertionError
      else rbind (root_of_unity (n1 * n2)) (\<lambda>w_n.
           rbind (root_of_unity n1) (\<lambda>w_n1.
           rbind (root_of_unity n2) (\<lambda>w_n2.
           rbind (bailey_cols a n1 n2 w_n1 [0..<n2] a) (\<lambda>after1.
             bailey_rows (bailey_twiddle after1 n1 n2 w_n) n1 n2 w_n2 [0..<n1]
               (replicate (n1 * n2) 0))))))"

lemma inj_col: "inj_on (\<lambda>k. k * n2 + jb) A" if "0 < (n2::nat)"
  using that by (auto simp: inj_on_def)

lemma grid_eq_iff:
  fixes i j :: nat
  assumes "j < n" "j' < n"
  shows "i * n + j = i' * n + j' \<longleftrightarrow> i = i' \<and> j = j'"
proof
  assume e: "i * n + j = i' * n + j'"
  have "(i * n + j) div n = i" "(i' * n + j') div n = i'" using assms by simp_all
  then have "i = i'" using e by metis
  then show "i = i' \<and> j = j'" using e by simp
qed simp

text \<open>Writing one column of a row-major grid.\<close>

lemma write_col_nth:
  assumes "length x = m * n" "i < m" "j < n" "c < n"
  shows "foldl (\<lambda>x k. x[k * n + c := g k]) x [0..<m] ! (i * n + j) = (if j = c then g i else x ! (i * n + j))"
proof (cases "j = c")
  case True
  then show ?thesis
    using foldl_update_nth [of "\<lambda>k. k * n + c" "[0..<m]" i x g] assms mult_add_less [of i m c n]
    by (simp add: inj_col)
next
  case False
  have "i * n + j \<notin> (\<lambda>k. k * n + c) ` set [0..<m]"
    using False assms grid_eq_iff [of j n c] by auto
  then show ?thesis using False by (simp add: foldl_update_other)
qed

lemma bailey_cols_run:
  assumes a: "length a = n1 * n2"
    and ntt: "\<And>jb. jb < n2 \<Longrightarrow> ntt (col_of a n1 n2 jb) w False = Inr (D jb)"
  shows "c \<le> n2 \<Longrightarrow> length x = n1 * n2 \<Longrightarrow>
    \<exists>r. bailey_cols a n1 n2 w [c..<n2] x = Inr r \<and> length r = n1 * n2 \<and>
      (\<forall>ka < n1. \<forall>jb < n2. r ! (ka * n2 + jb) = (if c \<le> jb then D jb ! ka else x ! (ka * n2 + jb)))"
proof (induction "n2 - c" arbitrary: c x)
  case 0
  then show ?case by simp
next
  case (Suc d)
  then have c: "c < n2" by simp
  let ?x = "foldl (\<lambda>x ka. x[ka * n2 + c := D c ! ka]) x [0..<n1]"
  have "\<exists>r. bailey_cols a n1 n2 w [Suc c..<n2] ?x = Inr r \<and> length r = n1 * n2 \<and>
      (\<forall>ka < n1. \<forall>jb < n2. r ! (ka * n2 + jb) = (if Suc c \<le> jb then D jb ! ka else ?x ! (ka * n2 + jb)))"
    using Suc.hyps(2) Suc.prems c by (intro Suc.hyps(1)) simp_all
  then obtain r where r: "bailey_cols a n1 n2 w [Suc c..<n2] ?x = Inr r" "length r = n1 * n2"
    "\<And>ka jb. ka < n1 \<Longrightarrow> jb < n2 \<Longrightarrow> r ! (ka * n2 + jb) = (if Suc c \<le> jb then D jb ! ka else ?x ! (ka * n2 + jb))"
    by blast
  have "r ! (ka * n2 + jb) = (if c \<le> jb then D jb ! ka else x ! (ka * n2 + jb))" if "ka < n1" "jb < n2" for ka jb
    unfolding r(3) [OF that] using write_col_nth [OF Suc.prems(2) that c, of "\<lambda>k. D c ! k"]
    by (cases "jb = c") auto
  then show ?case using r(1,2) ntt [OF c] by (simp add: upt_conv_Cons [OF c])
qed

lemma bailey_rows_run:
  assumes ntt: "\<And>ka. ka < n1 \<Longrightarrow> ntt (row_of a n2 ka) w False = Inr (D ka)"
  shows "c \<le> n1 \<Longrightarrow> length x = n2 * n1 \<Longrightarrow>
    \<exists>r. bailey_rows a n1 n2 w [c..<n1] x = Inr r \<and> length r = n2 * n1 \<and>
      (\<forall>kb < n2. \<forall>ka < n1. r ! (kb * n1 + ka) = (if c \<le> ka then D ka ! kb else x ! (kb * n1 + ka)))"
proof (induction "n1 - c" arbitrary: c x)
  case 0
  then show ?case by simp
next
  case (Suc d)
  then have c: "c < n1" by simp
  let ?x = "foldl (\<lambda>x kb. x[kb * n1 + c := D c ! kb]) x [0..<n2]"
  have "\<exists>r. bailey_rows a n1 n2 w [Suc c..<n1] ?x = Inr r \<and> length r = n2 * n1 \<and>
      (\<forall>kb < n2. \<forall>ka < n1. r ! (kb * n1 + ka) = (if Suc c \<le> ka then D ka ! kb else ?x ! (kb * n1 + ka)))"
    using Suc.hyps(2) Suc.prems c by (intro Suc.hyps(1)) simp_all
  then obtain r where r: "bailey_rows a n1 n2 w [Suc c..<n1] ?x = Inr r" "length r = n2 * n1"
    "\<And>kb ka. kb < n2 \<Longrightarrow> ka < n1 \<Longrightarrow> r ! (kb * n1 + ka) = (if Suc c \<le> ka then D ka ! kb else ?x ! (kb * n1 + ka))"
    by blast
  have "r ! (kb * n1 + ka) = (if c \<le> ka then D ka ! kb else x ! (kb * n1 + ka))" if "kb < n2" "ka < n1" for kb ka
    unfolding r(3) [OF that] using write_col_nth [OF Suc.prems(2) that c, of "\<lambda>k. D c ! k"]
    by (cases "ka = c") auto
  then show ?case using r(1,2) ntt [OF c] by (simp add: upt_conv_Cons [OF c])
qed

text \<open>Writing a whole grid, row by row.\<close>

lemma write_grid_length:
  "length (foldl (\<lambda>x i. foldl (\<lambda>y j. y[i * n + j := g i j]) x js) x is) = length x"
  by (induction "is" arbitrary: x) simp_all

lemma write_grid_nth:
  assumes "length x = M * n" "m \<le> M" "i < m" "j < n"
  shows "foldl (\<lambda>x i. foldl (\<lambda>y j. y[i * n + j := g i j]) x [0..<n]) x [0..<m] ! (i * n + j) = g i j"
  using assms
proof (induction m)
  case (Suc m)
  let ?y = "foldl (\<lambda>x i. foldl (\<lambda>y j. y[i * n + j := g i j]) x [0..<n]) x [0..<m]"
  have len: "length ?y = M * n" using Suc.prems by (simp add: write_grid_length)
  show ?case
  proof (cases "i = m")
    case True
    have "m * n + j < length ?y" using Suc.prems len mult_add_less [of m M j n] by simp
    then show ?thesis
      using foldl_update_nth [of "\<lambda>j. m * n + j" "[0..<n]" j ?y "g m"] True Suc.prems
      by (simp add: inj_on_def)
  next
    case False
    have "i * n + j \<notin> (\<lambda>k. m * n + k) ` set [0..<n]"
    proof
      assume "i * n + j \<in> (\<lambda>k. m * n + k) ` set [0..<n]"
      then obtain k where "i * n + j = m * n + k" "k \<in> set [0..<n]" by (rule imageE)
      then show False using False Suc.prems grid_eq_iff [of j n k i m] by simp
    qed
    then show ?thesis using False Suc by (simp add: foldl_update_other)
  qed
qed simp

lemma bailey_twiddle_nth:
  assumes "length b = n1 * n2" "ka < n1" "jb < n2"
  shows "bailey_twiddle b n1 n2 w ! (ka * n2 + jb)
    = (b ! (ka * n2 + jb) * powmod w (ka * jb) FIELD_P) mod FIELD_P"
  unfolding bailey_twiddle_def using assms by (intro write_grid_nth) auto

lemma root_of_unity_val:
  assumes "K \<le> 32"
  shows "root_of_unity (2 ^ K) = Inr (powmod GLOBAL_G (4294967295 * 2 ^ (32 - K)) FIELD_P)"
proof -
  have P: "FIELD_P - 1 = 4294967295 * 2 ^ (32 - K) * 2 ^ K"
    using assms by (simp add: FIELD_P_val mult.assoc flip: power_add)
  have mod: "(FIELD_P - 1) mod 2 ^ K = 0" and dv: "(FIELD_P - 1) div 2 ^ K = 4294967295 * 2 ^ (32 - K)"
    unfolding P by simp_all
  have "nat ((FIELD_P - 1) div 2 ^ K) = 4294967295 * 2 ^ (32 - K)"
    by (simp add: dv nat_mult_distrib nat_power_eq)
  then show ?thesis using mod by (simp add: root_of_unity_def)
qed

lemma root_of_unity_factor:
  assumes "i + j \<le> 32"
  shows "\<exists>w v. root_of_unity (2 ^ (i + j)) = Inr w \<and> root_of_unity (2 ^ i) = Inr v \<and>
    (of_int v :: gl) = of_int w ^ (2 ^ j)"
proof -
  have e: "4294967295 * 2 ^ (32 - i) = 4294967295 * 2 ^ (32 - (i + j)) * (2 ^ j :: nat)"
    using assms by (simp add: mult.assoc flip: power_add)
  have "i \<le> 32" using assms by simp
  then show ?thesis
    using assms by (simp add: root_of_unity_val del: of_int_power) (simp only: e power_mult)
qed

text \<open>
  Fact (\<open>ntt_bailey_eq\<close>): the four-step factorisation (column transforms, twiddles, row
  transforms with transposed output) returns the discrete Fourier transform for the root of
  unity of order \<open>n1 * n2\<close>, for powers of two with \<open>n1 * n2\<close> at most \<open>2^32\<close>.
\<close>

theorem ntt_bailey_eq:
  assumes n: "n1 = 2 ^ i" "n2 = 2 ^ j" "i + j \<le> 32" and len: "length a = n1 * n2" and c: "canonical a"
  shows "\<exists>w. root_of_unity (n1 * n2) = Inr w \<and> ntt_bailey a n1 n2 = Inr (dft a w)"
proof -
  obtain w v u where r: "root_of_unity (2 ^ (i + j)) = Inr w" "root_of_unity (2 ^ i) = Inr v"
    "root_of_unity (2 ^ j) = Inr u" and v: "(of_int v :: gl) = of_int w ^ n2" and u: "(of_int u :: gl) = of_int w ^ n1"
    using root_of_unity_factor [of i j] root_of_unity_factor [of j i] n by (auto simp: add.commute)
  have nr: "ntt_root w (n1 * n2)" "ntt_root v n1" "ntt_root u n2"
    using root_of_unity_pow2 [of "i + j"] root_of_unity_pow2 [of i] root_of_unity_pow2 [of j] r n
    by (auto simp: power_add)
  have "(of_int w :: gl) ^ (n1 * n2) = 1"
    using ntt_root_gl(3) [of w "i + j"] nr(1) n by (simp add: power_add)
  note w1 = this
  have col: "ntt (col_of a n1 n2 jb) v False = Inr (dft (col_of a n1 n2 jb) v)" if "jb < n2" for jb
    using that nr(2) n c len by (intro ntt_forward [where K = i])
      (auto simp: col_of_def canonical_def mult_add_less)
  obtain b where b: "bailey_cols a n1 n2 v [0..<n2] a = Inr b" "length b = n1 * n2"
    "\<And>ka jb. ka < n1 \<Longrightarrow> jb < n2 \<Longrightarrow> b ! (ka * n2 + jb) = dft (col_of a n1 n2 jb) v ! ka"
    using bailey_cols_run [OF len col, of 0 a] len by auto
  let ?t = "bailey_twiddle b n1 n2 w"
  have t: "?t ! (ka * n2 + jb) = (dft (col_of a n1 n2 jb) v ! ka * powmod w (ka * jb) FIELD_P) mod FIELD_P"
    if "ka < n1" "jb < n2" for ka jb
    using bailey_twiddle_nth [OF b(2) that, of w] b(3) [OF that] by simp
  have rng: "0 \<le> ?t ! (ka * n2 + jb) \<and> ?t ! (ka * n2 + jb) < FIELD_P" if "ka < n1" "jb < n2" for ka jb
    by (simp add: t [OF that])
  have cr: "canonical (row_of ?t n2 ka)" if "ka < n1" for ka
    using rng [OF that] by (simp add: row_of_def canonical_def)
  have row: "ntt (row_of ?t n2 ka) u False = Inr (dft (row_of ?t n2 ka) u)" if "ka < n1" for ka
    using cr [OF that] nr(3) n by (intro ntt_forward [where K = j]) (simp_all add: row_of_def)
  obtain out where o: "bailey_rows ?t n1 n2 u [0..<n1] (replicate (n1 * n2) 0) = Inr out"
    "length out = n2 * n1"
    "\<And>kb ka. kb < n2 \<Longrightarrow> ka < n1 \<Longrightarrow> out ! (kb * n1 + ka) = dft (row_of ?t n2 ka) u ! kb"
    using bailey_rows_run [of n1 ?t n2 u "\<lambda>ka. dft (row_of ?t n2 ka) u" 0 "replicate (n1 * n2) 0"] row
    by auto
  have main: "(of_int (out ! (kb * n1 + ka)) :: gl) = of_int (dft a w ! (kb * n1 + ka))"
    if k: "kb < n2" "ka < n1" for ka kb
  proof -
    let ?w = "of_int w :: gl"
    have wmul: "?w ^ (n1 * n2 * e) = 1" for e using w1 by (simp add: power_mult)
    have pw: "?w ^ (n2 * (ka * ja)) * ?w ^ (ka * jb) * ?w ^ (n1 * (kb * jb))
        = ?w ^ ((kb * n1 + ka) * (ja * n2 + jb))" for ja jb
    proof -
      have "(kb * n1 + ka) * (ja * n2 + jb)
          = n1 * n2 * (kb * ja) + (n2 * (ka * ja) + ka * jb + n1 * (kb * jb))"
        by (simp add: algebra_simps)
      then have "?w ^ ((kb * n1 + ka) * (ja * n2 + jb))
          = ?w ^ (n1 * n2 * (kb * ja)) * ?w ^ (n2 * (ka * ja) + ka * jb + n1 * (kb * jb))"
        by (simp only: power_add)
      then show ?thesis by (simp only: wmul power_add) simp
    qed
    have "(of_int (out ! (kb * n1 + ka)) :: gl)
        = (\<Sum>jb<n2. (\<Sum>ja<n1. of_int (a ! (ja * n2 + jb)) * ?w ^ (n2 * (ka * ja))) * ?w ^ (ka * jb) * ?w ^ (n1 * (kb * jb)))"
      using k by (simp add: o(3) gl_dft dft_gl_def row_of_def t col_of_def u v del: of_int_power flip: power_mult)
    also have "\<dots> = (\<Sum>jb<n2. \<Sum>ja<n1. of_int (a ! (ja * n2 + jb)) * ?w ^ ((kb * n1 + ka) * (ja * n2 + jb)))"
      by (simp add: sum_distrib_right mult.assoc flip: pw)
    also have "\<dots> = (\<Sum>ja<n1. \<Sum>jb<n2. of_int (a ! (ja * n2 + jb)) * ?w ^ ((kb * n1 + ka) * (ja * n2 + jb)))"
      by (rule sum.swap)
    also have "\<dots> = (\<Sum>m<n1 * n2. of_int (a ! m) * ?w ^ ((kb * n1 + ka) * m))"
      by (rule sum_lessThan_mult [symmetric])
    also have "\<dots> = of_int (dft a w ! (kb * n1 + ka))"
      using k len mult_add_less [of kb n2 ka n1] by (simp add: gl_dft dft_gl_def mult.commute [of n2])
    finally show ?thesis .
  qed
  have "out = dft a w"
  proof (rule canonical_eqI)
    show "canonical out"
    proof (unfold canonical_def, rule ballI)
      fix x assume "x \<in> set out"
      then obtain k where k: "k < n2 * n1" "x = out ! k" using o(2) by (auto simp: in_set_conv_nth)
      have "0 < n1" using n by simp
      then have "k div n1 < n2" "k mod n1 < n1" "k = k div n1 * n1 + k mod n1"
        using k by (simp_all add: less_mult_imp_div_less)
      then have "x = dft (row_of ?t n2 (k mod n1)) u ! (k div n1)" using k o(3) by metis
      then show "0 \<le> x \<and> x < FIELD_P" using \<open>k div n1 < n2\<close> by (simp add: dft_def row_of_def)
    qed
    show "canonical (dft a w)" by (rule canonical_dft)
    show "length out = length (dft a w)" using o(2) len by (simp add: dft_def mult.commute)
    show "(of_int (out ! k) :: gl) = of_int (dft a w ! k)" if "k < length out" for k
    proof -
      have "0 < n1" using n by simp
      then have "k div n1 < n2" "k mod n1 < n1" "k div n1 * n1 + k mod n1 = k"
        using that o(2) by (simp_all add: less_mult_imp_div_less)
      then show ?thesis using main by metis
    qed
  qed
  then show ?thesis using r b(1) o(1) len n by (simp add: ntt_bailey_def power_add)
qed

theorem ntt_bailey_eq_witness:
  "\<exists>w. root_of_unity (2 * 4) = Inr w \<and> ntt_bailey [1, 2, 3, 4, 5, 6, 7, 8] 2 4 = Inr (dft [1, 2, 3, 4, 5, 6, 7, 8] w)"
  by (rule ntt_bailey_eq [where i = 1 and j = 2]) (simp_all add: canonical_def FIELD_P_val)

section \<open>Polynomial product by transforms\<close>

definition pmul_goldilocks :: "int list \<Rightarrow> int list \<Rightarrow> int list result" where
  "pmul_goldilocks a b =
     (if a = [] \<or> b = [] then Inr []
      else let deg = length a + length b - 1; n = pow2_from 1 deg in
        rbind (root_of_unity n) (\<lambda>omega.
        rbind (ntt (a @ replicate (n - length a) 0) omega False) (\<lambda>A.
        rbind (ntt (b @ replicate (n - length b) 0) omega False) (\<lambda>B.
        rbind (ntt (map (\<lambda>i. (A ! i * B ! i) mod FIELD_P) [0..<n]) omega True) (\<lambda>C.
          Inr (take deg C))))))"

lemma dft_gl_peval: "dft_gl xs w k = peval xs (w ^ k)"
  by (simp add: dft_gl_def peval_sum flip: power_mult)

lemma glL_append_zeros: "glL (xs @ replicate m 0) = glL xs @ replicate m 0"
  by simp

lemma canonical_pm_row: "canonical r \<Longrightarrow> canonical (pm_row ai b k r)"
  by (induction ai b k r rule: pm_row.induct) (simp_all add: canonical_update)

lemma canonical_pm_rows: "canonical r \<Longrightarrow> canonical (pm_rows a i b r)"
  by (induction a i b r rule: pm_rows.induct) (simp_all add: canonical_pm_row)

lemma canonical_poly_mul: "canonical (poly_mul a b)"
proof (cases "a = [] \<or> b = []")
  case False
  have "canonical (replicate (length a + length b - 1) 0)" by (simp add: canonical_def)
  from canonical_pm_rows [OF this] show ?thesis using False by (simp add: poly_mul_def)
qed (simp add: poly_mul_def canonical_def)

text \<open>
  Fact (\<open>pmul_goldilocks_eq\<close>): whenever the product has at most \<open>2^32\<close> coefficients, the
  transform-based product of canonical coefficient lists returns exactly the schoolbook product.
\<close>

theorem pmul_goldilocks_eq:
  assumes c: "canonical a" "canonical b" and deg: "length a + length b \<le> Suc (2 ^ 32)"
  shows "pmul_goldilocks a b = Inr (poly_mul a b)"
proof (cases "a = [] \<or> b = []")
  case True
  then show ?thesis by (auto simp: pmul_goldilocks_def poly_mul_def)
next
  case False
  define d n where "d = length a + length b - 1" and "n = pow2_from 1 d"
  obtain K where K: "n = 2 ^ K" using pow2_from_1_pow2 n_def by blast
  have "n \<le> 2 ^ 32" using pow2_from_le [of 1 0 32 d] deg by (simp only: n_def) (simp add: d_def)
  then have "K \<le> 32" using K power_increasing_iff [of "2::nat" K 32] by simp
  then obtain w where w: "root_of_unity n = Inr w" "ntt_root w n" using root_of_unity_pow2 K by blast
  have dn: "d \<le> n" unfolding n_def by (rule pow2_from_ge) simp
  have len: "length a \<le> n" "length b \<le> n" using dn False by (cases a; cases b; simp add: d_def)+
  let ?a = "a @ replicate (n - length a) 0" and ?b = "b @ replicate (n - length b) 0"
  let ?m = "poly_mul a b @ replicate (n - d) 0"
  have fw: "ntt xs w False = Inr (dft xs w)" if "length xs = n" "canonical xs" for xs
    using that w K by (intro ntt_forward [where K = K]) simp_all
  have can: "canonical (xs @ replicate k 0)" if "canonical xs" for xs k
    using that by (auto simp: canonical_def)
  have lm: "length ?m = n" using False dn by (auto simp: length_poly_mul d_def)
  have C: "map (\<lambda>i. (dft ?a w ! i * dft ?b w ! i) mod FIELD_P) [0..<n] = dft ?m w" (is "?C = _")
  proof (rule canonical_eqI)
    fix i assume "i < length ?C"
    then have i: "i < n" by simp
    have "(of_int (?C ! i) :: gl) = dft_gl (glL ?a) (of_int w) i * dft_gl (glL ?b) (of_int w) i"
      using i len by (simp add: gl_dft)
    also have "\<dots> = dft_gl (glL ?m) (of_int w) i"
      by (simp only: dft_gl_peval glL_append_zeros peval_append peval_replicate_0 gl_poly_mul) simp
    also have "\<dots> = of_int (dft ?m w ! i)" using i lm by (simp only: gl_dft)
    finally show "(of_int (?C ! i) :: gl) = of_int (dft ?m w ! i)" .
  next
    show "length ?C = length (dft ?m w)" using lm by (simp add: dft_def)
  qed (simp_all add: canonical_def dft_def)
  have "rbind (ntt ?m w False) (\<lambda>b. ntt b w True) = Inr ?m"
    using lm K w by (intro ntt_inverse_forward [where K = K] can canonical_poly_mul) simp_all
  then have "ntt (dft ?m w) w True = Inr ?m" using fw [OF lm can [OF canonical_poly_mul]] by simp
  then have "pmul_goldilocks a b = Inr (take d ?m)"
    using False w len c fw [of ?a] fw [of ?b] can C
    unfolding pmul_goldilocks_def Let_def d_def [symmetric] n_def [symmetric] by simp
  then show ?thesis using False by (simp add: length_poly_mul d_def)
qed

theorem pmul_goldilocks_eq_witness: "pmul_goldilocks [1, 2] [3, 4, 5] = Inr (poly_mul [1, 2] [3, 4, 5])"
  by (rule pmul_goldilocks_eq) (simp_all add: canonical_def FIELD_P_val)

end
