(* ===== verification/Bytes.thy ===== *)
theory Bytes
  imports VI_Prelude
begin

text \<open>
  Byte strings: little-endian integers (\<^verbatim>\<open>int.to_bytes(n, "little")\<close>, \<^verbatim>\<open>int.from_bytes\<close>), the
  UTF-8 encoding of labels, decimal numerals and \<^verbatim>\<open>",".join\<close>, with the injectivity facts every
  transcript and Merkle argument rests on.
\<close>

type_synonym byte = "8 word"
type_synonym bytes = "byte list"

section \<open>Little-endian integers\<close>

primrec le_bytes :: "nat \<Rightarrow> nat \<Rightarrow> bytes" where
  "le_bytes 0 v = []"
| "le_bytes (Suc n) v = word_of_nat (v mod 256) # le_bytes n (v div 256)"

fun from_le :: "bytes \<Rightarrow> nat" where
  "from_le [] = 0"
| "from_le (b # bs) = unat b + 256 * from_le bs"

text \<open>\<open>int(v).to_bytes(n, "little")\<close> raises \<open>OverflowError\<close> on a negative or too wide value.\<close>

definition to_bytes :: "nat \<Rightarrow> int \<Rightarrow> bytes result" where
  "to_bytes n v = (if v < 0 \<or> 256 ^ n \<le> v then Inl OverflowError else Inr (le_bytes n (nat v)))"

lemma length_le_bytes [simp]: "length (le_bytes n v) = n"
  by (induction n arbitrary: v) simp_all

lemma unat_byte_mod: "unat (word_of_nat (v mod 256) :: byte) = v mod 256"
  by (simp add: unat_of_nat)

lemma unat_byte_less: "unat (b :: byte) < 256"
  using unsigned_less [of b] by simp

lemma from_le_bytes: "from_le (le_bytes n v) = v mod 256 ^ n"
proof (induction n arbitrary: v)
  case (Suc n)
  then show ?case by (simp add: unat_byte_mod mod_mult2_eq)
qed simp

lemma from_le_less: "from_le bs < 256 ^ length bs"
proof (induction bs)
  case (Cons b bs)
  have "unat b < 256" by (rule unat_byte_less)
  with Cons show ?case by simp
qed simp

lemma le_bytes_from_le: "le_bytes (length bs) (from_le bs) = bs"
proof (induction bs)
  case (Cons b bs)
  have "unat b < 256" by (rule unat_byte_less)
  with Cons show ?case by simp
qed simp

lemma le_bytes_inj: "le_bytes n v = le_bytes n w \<Longrightarrow> v < 256 ^ n \<Longrightarrow> w < 256 ^ n \<Longrightarrow> v = w"
  by (metis from_le_bytes mod_less)

lemma to_bytes_Inr: "to_bytes n v = Inr bs \<longleftrightarrow> 0 \<le> v \<and> v < 256 ^ n \<and> bs = le_bytes n (nat v)"
  by (auto simp: to_bytes_def)

lemma to_bytes_length: "to_bytes n v = Inr bs \<Longrightarrow> length bs = n"
  by (simp add: to_bytes_Inr)

lemma to_bytes_from_le: "to_bytes n v = Inr bs \<Longrightarrow> int (from_le bs) = v"
  by (auto simp: to_bytes_Inr from_le_bytes nat_less_iff)

lemma to_bytes_inj: "to_bytes n v = Inr bs \<Longrightarrow> to_bytes n w = Inr bs \<Longrightarrow> v = w"
  by (metis to_bytes_from_le)

section \<open>Text\<close>

text \<open>
  Labels are strings over the code points below 256; \<open>str.encode()\<close> writes one byte below 128 and
  two bytes from 128 on.
\<close>

definition utf8_char :: "char \<Rightarrow> bytes" where
  "utf8_char c = (let v = of_char c :: nat in
     if v < 128 then [word_of_nat v] else [word_of_nat (192 + v div 64), word_of_nat (128 + v mod 64)])"

definition encode :: "string \<Rightarrow> bytes" where
  "encode s = concat (map utf8_char s)"

lemma encode_Nil [simp]: "encode [] = []"
  and encode_Cons: "encode (c # s) = utf8_char c @ encode s"
  and encode_append: "encode (s @ t) = encode s @ encode t"
  by (simp_all add: encode_def)

lemma of_char_less: "(of_char c :: nat) < 256"
  by (metis UNIV_I nat_of_char_less_256)

lemma utf8_char_cases:
  obtains v where "of_char c = v" "v < 128" "utf8_char c = [word_of_nat v]"
  | v where "of_char c = v" "128 \<le> v" "v < 256" "utf8_char c = [word_of_nat (192 + v div 64), word_of_nat (128 + v mod 64)]"
  using of_char_less [of c] by (cases "(of_char c :: nat) < 128") (auto simp: utf8_char_def Let_def)

lemma unat_small: "v < 256 \<Longrightarrow> unat (word_of_nat v :: byte) = v"
  by (simp add: unat_of_nat)

lemma utf8_bounds:
  assumes "v < 256"
  shows "192 + v div 64 < (256 :: nat)" "128 + v mod 64 < (256 :: nat)"
proof -
  have "v div 64 \<le> 255 div 64" using assms by (intro div_le_mono) simp
  then show "192 + v div 64 < (256 :: nat)" by simp
  have "v mod 64 < 64" by simp
  then show "128 + v mod 64 < (256 :: nat)" by linarith
qed

lemma utf8_less: "(128::nat) < 256" by simp

lemma utf8_char_prefix: "utf8_char c @ xs = utf8_char d @ ys \<Longrightarrow> c = d \<and> xs = ys"
proof -
  assume e: "utf8_char c @ xs = utf8_char d @ ys"
  have *: "(of_char c :: nat) = of_char d \<and> xs = ys"
  proof (cases c rule: utf8_char_cases)
    case c: (1 v)
    show ?thesis
    proof (cases d rule: utf8_char_cases)
      case (1 w)
      then have "(word_of_nat v :: byte) = word_of_nat w" "xs = ys" using e c by simp_all
      then have "v = w" using unat_small c(2) 1(2) by (metis order_less_trans utf8_less)
      then show ?thesis using c(1) 1(1) \<open>xs = ys\<close> by simp
    next
      case (2 w)
      then have "(word_of_nat v :: byte) = word_of_nat (192 + w div 64)" using e c by simp
      moreover have "192 + w div 64 < 256" using utf8_bounds 2(3) by blast
      ultimately have "v = 192 + w div 64" using unat_small c(2) by (metis order_less_trans utf8_less)
      then show ?thesis using c by simp
    qed
  next
    case c: (2 v)
    show ?thesis
    proof (cases d rule: utf8_char_cases)
      case (1 w)
      then have "(word_of_nat w :: byte) = word_of_nat (192 + v div 64)" using e c by simp
      moreover have "192 + v div 64 < 256" using utf8_bounds c(3) by blast
      ultimately have "w = 192 + v div 64" using unat_small 1(2) by (metis order_less_trans utf8_less)
      then show ?thesis using 1 by simp
    next
      case (2 w)
      then have "(word_of_nat (192 + v div 64) :: byte) = word_of_nat (192 + w div 64)"
        "(word_of_nat (128 + v mod 64) :: byte) = word_of_nat (128 + w mod 64)" "xs = ys"
        using e c by simp_all
      moreover have "192 + v div 64 < 256" "192 + w div 64 < 256" "128 + v mod 64 < 256" "128 + w mod 64 < 256"
        using utf8_bounds c(3) 2(3) by blast+
      ultimately have "v div 64 = w div 64" "v mod 64 = w mod 64"
        by (metis add_left_cancel unat_small)+
      then have "v = w" by (metis div_mult_mod_eq)
      then show ?thesis using c(1) 2(1) \<open>xs = ys\<close> by simp
    qed
  qed
  then show "c = d \<and> xs = ys" by simp
qed

lemma encode_inj: "encode s = encode t \<Longrightarrow> s = t"
proof (induction s arbitrary: t)
  case Nil
  then show ?case by (cases t) (auto simp: encode_Cons utf8_char_def Let_def split: if_splits)
next
  case (Cons c s)
  then obtain d t' where t: "t = d # t'"
    by (cases t) (auto simp: encode_Cons utf8_char_def Let_def split: if_splits)
  then show ?case using Cons utf8_char_prefix [of c "encode s" d "encode t'"] by (simp add: encode_Cons)
qed

text \<open>Decimal numerals, as \<open>str(n)\<close> writes them.\<close>

fun dec_str :: "nat \<Rightarrow> string" where
  "dec_str n = (if n < 10 then [char_of (48 + n)] else dec_str (n div 10) @ [char_of (48 + n mod 10)])"

declare dec_str.simps [simp del]

definition is_digit :: "char \<Rightarrow> bool" where
  "is_digit c \<longleftrightarrow> 48 \<le> (of_char c :: nat) \<and> (of_char c :: nat) < 58"

lemma of_char_digit: "d < 10 \<Longrightarrow> (of_char (char_of (48 + d :: nat)) :: nat) = 48 + d"
  by simp

lemma dec_str_digits: "c \<in> set (dec_str n) \<Longrightarrow> is_digit c"
proof (induction n rule: dec_str.induct)
  case (1 n)
  have "is_digit (char_of (48 + d :: nat))" if "d < 10" for d using that by (simp add: is_digit_def)
  with 1 show ?case by (subst (asm) dec_str.simps) (auto split: if_splits)
qed

definition dec_val :: "string \<Rightarrow> nat" where
  "dec_val s = foldl (\<lambda>a c. 10 * a + (of_char c - 48)) 0 s"

lemma dec_val_str: "dec_val (dec_str n) = n"
proof (induction n rule: dec_str.induct)
  case (1 n)
  then show ?case
    by (subst dec_str.simps) (auto simp: dec_val_def)
qed

lemma dec_str_inj: "dec_str m = dec_str n \<Longrightarrow> m = n"
  by (metis dec_val_str)

text \<open>\<open>sep.join(parts)\<close> for a one-character separator.\<close>

fun join_str :: "char \<Rightarrow> string list \<Rightarrow> string" where
  "join_str sep [] = []"
| "join_str sep [s] = s"
| "join_str sep (s # t # ss) = s @ sep # join_str sep (t # ss)"

lemma sep_split_inj:
  "s @ sep # x = s' @ sep # x' \<Longrightarrow> sep \<notin> set s \<Longrightarrow> sep \<notin> set s' \<Longrightarrow> s = s' \<and> x = x'"
proof (induction s arbitrary: s')
  case Nil
  then show ?case by (cases s') auto
next
  case (Cons c s)
  then show ?case by (cases s') auto
qed

lemma sep_in_join: "sep \<in> set (join_str sep (s # t # ss))"
  by simp

lemma join_str_inj:
  assumes "\<forall>s \<in> set ss. sep \<notin> set s \<and> s \<noteq> []" "\<forall>s \<in> set ts. sep \<notin> set s \<and> s \<noteq> []"
    and "join_str sep ss = join_str sep ts"
  shows "ss = ts"
  using assms
proof (induction ss arbitrary: ts rule: join_str.induct)
  case (1 sep)
  then show ?case by (cases "(sep, ts)" rule: join_str.cases) auto
next
  case (2 sep s)
  then show ?case by (cases "(sep, ts)" rule: join_str.cases) auto
next
  case (3 sep s t ss)
  have sep: "sep \<in> set (join_str sep ts)" using "3.prems"(3) by (metis sep_in_join)
  then obtain u v us where ts: "ts = u # v # us"
    using "3.prems"(2) by (cases "(sep, ts)" rule: join_str.cases) auto
  have "s = u \<and> join_str sep (t # ss) = join_str sep (v # us)"
  proof (rule sep_split_inj)
    show "s @ sep # join_str sep (t # ss) = u @ sep # join_str sep (v # us)"
      using "3.prems"(3) ts by (simp only: join_str.simps)
  qed (use "3.prems" ts in simp_all)
  moreover have "t # ss = v # us"
    using calculation "3.prems" ts by (intro "3.IH") simp_all
  ultimately show ?case using ts by simp
qed

end
