(* ===== verification/Merkle.thy ===== *)
theory Merkle
  imports Bytes
begin

text \<open>
  Column Merkle commitments: the leaf packing and the verifier of \<^verbatim>\<open>prover/protocol.py\<close>
  (\<open>pack_column\<close>, \<open>merkle_leaf\<close>, \<open>merkle_depth\<close>, \<open>merkle_verify\<close>), the path extraction of
  \<^verbatim>\<open>prover/core.py\<close> and the tree of \<^verbatim>\<open>layergkr/rs.py\<close>. The hash (BLAKE3, a third-party package)
  is the parameter \<open>H\<close>; what the code relies on is that digests have 32 bytes. Binding is
  stated with an explicit collision: two different inputs, both hashed in the two
  verifications, with the same digest.
\<close>

unbundle bit_operations_syntax

type_synonym hashfn = "bytes \<Rightarrow> bytes"

definition hash32 :: "hashfn \<Rightarrow> bool" where
  "hash32 H \<longleftrightarrow> (\<forall>x. length (H x) = 32)"

definition coll :: "hashfn \<Rightarrow> bytes list \<Rightarrow> bytes list \<Rightarrow> bool" where
  "coll H xs ys \<longleftrightarrow> list_ex (\<lambda>x. list_ex (\<lambda>y. x \<noteq> y \<and> H x = H y) ys) xs"

lemma coll_iff: "coll H xs ys \<longleftrightarrow> (\<exists>x \<in> set xs. \<exists>y \<in> set ys. x \<noteq> y \<and> H x = H y)"
  by (auto simp: coll_def list_ex_iff)

section \<open>Leaves\<close>

definition pack_column :: "int list \<Rightarrow> bytes result" where
  "pack_column col = rbind (rmap (to_bytes 8) col) (\<lambda>bs. Inr (concat bs))"

definition merkle_leaf :: "hashfn \<Rightarrow> int list \<Rightarrow> bytes result" where
  "merkle_leaf H col = rbind (pack_column col) (\<lambda>b. Inr (H b))"

lemma pack_column_Cons:
  "pack_column (v # vs) = rbind (to_bytes 8 v) (\<lambda>b. rbind (pack_column vs) (\<lambda>bs. Inr (b @ bs)))"
  by (cases "to_bytes 8 v"; cases "rmap (to_bytes 8) vs") (simp_all add: pack_column_def)

lemma pack_column_Nil [simp]: "pack_column [] = Inr []"
  by (simp add: pack_column_def)

lemma pack_column_inj: "pack_column a = Inr p \<Longrightarrow> pack_column b = Inr p \<Longrightarrow> a = b"
proof (induction a arbitrary: b p)
  case Nil
  then show ?case
    by (cases b) (auto simp: pack_column_Cons rbind_Inr_iff dest: to_bytes_length)
next
  case (Cons v vs)
  then obtain x xs where x: "to_bytes 8 v = Inr x" "pack_column vs = Inr xs" "p = x @ xs"
    by (auto simp: pack_column_Cons rbind_Inr_iff)
  show ?case
  proof (cases b)
    case Nil
    then show ?thesis using Cons.prems x by (auto dest: to_bytes_length)
  next
    case (Cons w ws)
    then obtain y ys where y: "to_bytes 8 w = Inr y" "pack_column ws = Inr ys" "p = y @ ys"
      using Cons.prems by (auto simp: pack_column_Cons rbind_Inr_iff)
    then have "x = y" "xs = ys" using x to_bytes_length by (metis append_eq_append_conv)+
    then show ?thesis using x y Cons Cons.IH [of xs ws] to_bytes_inj by auto
  qed
qed

section \<open>Verification\<close>

function merkle_depth :: "nat \<Rightarrow> nat" where
  "merkle_depth n = (if 1 < n then Suc (merkle_depth ((n + 1) div 2)) else 0)"
  by pat_completeness auto
termination by (relation "measure id") auto

declare merkle_depth.simps [simp del]

text \<open>
  The loop of \<open>merkle_verify\<close>; None is one of its early rejections. A step is a sibling
  and a side.
\<close>

type_synonym path = "(bytes \<times> int) list"

fun mv_loop :: "hashfn \<Rightarrow> bytes \<Rightarrow> nat \<Rightarrow> nat \<Rightarrow> path \<Rightarrow> bytes option" where
  "mv_loop H h idx width [] = Some h"
| "mv_loop H h idx width ((sibling, side) # path) =
     (if length sibling \<noteq> 32 then None
      else let right = (idx AND 1 = 1) in
        if side \<noteq> (if right then 0 else 1) then None
        else if \<not> right \<and> idx + 1 \<ge> width \<and> sibling \<noteq> h then None
        else mv_loop H (if right then H (sibling @ h) else H (h @ sibling)) (idx div 2) ((width + 1) div 2) path)"

definition merkle_verify :: "hashfn \<Rightarrow> bytes \<Rightarrow> path \<Rightarrow> bytes \<Rightarrow> int \<Rightarrow> nat \<Rightarrow> bool" where
  "merkle_verify H leaf path root index n_leaves =
     (if \<not> (0 \<le> index \<and> index < int n_leaves) \<or> length path \<noteq> merkle_depth n_leaves then False
      else (case mv_loop H leaf (nat index) n_leaves path of None \<Rightarrow> False | Some h \<Rightarrow> h = root))"

text \<open>The inputs the verifier hashes along a path.\<close>

fun mv_inputs :: "hashfn \<Rightarrow> bytes \<Rightarrow> nat \<Rightarrow> path \<Rightarrow> bytes list" where
  "mv_inputs H h idx [] = []"
| "mv_inputs H h idx ((sibling, side) # path) =
     (let x = (if idx AND 1 = 1 then sibling @ h else h @ sibling) in
      x # mv_inputs H (H x) (idx div 2) path)"

section \<open>Trees and paths\<close>

definition tree_next :: "hashfn \<Rightarrow> bytes list \<Rightarrow> bytes list" where
  "tree_next H cur =
     map (\<lambda>i. H (cur ! (2 * i) @ (if 2 * i + 1 < length cur then cur ! (2 * i + 1) else cur ! (2 * i))))
       [0..<(length cur + 1) div 2]"

function build_tree :: "hashfn \<Rightarrow> bytes list \<Rightarrow> bytes list list" where
  "build_tree H cur = (if length cur > 1 then cur # build_tree H (tree_next H cur) else [cur])"
  by pat_completeness auto
termination by (relation "measure (\<lambda>(H, cur). length cur)") (auto simp: tree_next_def)

declare build_tree.simps [simp del]

fun mp_loop :: "bytes list list \<Rightarrow> nat \<Rightarrow> path result" where
  "mp_loop [] idx = Inr []"
| "mp_loop (level # levels) idx =
     (let s = idx XOR 1; sibling_idx = (if s \<ge> length level then idx else s);
          side = (if idx AND 1 = 0 then 1 else 0) in
      if sibling_idx \<ge> length level then Inl IndexError
      else rbind (mp_loop levels (idx div 2)) (\<lambda>path. Inr ((level ! sibling_idx, side) # path)))"

definition merkle_path :: "bytes list list \<Rightarrow> nat \<Rightarrow> path result" where
  "merkle_path levels idx = mp_loop (butlast levels) idx"

definition tree_root :: "hashfn \<Rightarrow> bytes list \<Rightarrow> bytes" where
  "tree_root H leaves = last (build_tree H leaves) ! 0"

section \<open>Completeness and binding\<close>

lemma and_1_nat: "(n AND 1 = (1::nat)) \<longleftrightarrow> odd n" "(n AND 1 = (0::nat)) \<longleftrightarrow> even n"
  by (simp_all add: and_one_eq odd_iff_mod_2_eq_one even_iff_mod_2_eq_zero)

lemma mod_2_odd: "(n mod 2 = Suc 0) \<longleftrightarrow> odd n"
  by (simp add: odd_iff_mod_2_eq_one)

lemma xor_1_nat: "n XOR 1 = (if even n then n + 1 else n - 1 :: nat)"
  by (cases "even n") (simp_all only: xor_one_eq, simp_all)

lemma length_tree_next [simp]: "length (tree_next H cur) = (length cur + 1) div 2"
  by (simp add: tree_next_def)

lemma build_tree_neq_Nil [simp]: "build_tree H cur \<noteq> []"
  by (subst build_tree.simps) simp

lemma tree_next_nth:
  assumes "i < length cur"
  shows "tree_next H cur ! (i div 2) =
    H (if odd i then cur ! (i - 1) @ cur ! i else cur ! i @ (if i + 1 < length cur then cur ! (i + 1) else cur ! i))"
proof -
  have "i div 2 < (length cur + 1) div 2" using assms by linarith
  then show ?thesis using assms by (auto simp: tree_next_def elim!: oddE evenE)
qed

lemma build_tree_len32:
  "hash32 H \<Longrightarrow> \<forall>x \<in> set cur. length x = 32 \<Longrightarrow> \<forall>x \<in> set (tree_next H cur). length x = 32"
  by (auto simp: tree_next_def hash32_def)

lemma path_verifies:
  assumes h32: "hash32 H"
  shows "i < length cur \<Longrightarrow> \<forall>x \<in> set cur. length x = 32 \<Longrightarrow>
    \<exists>path. merkle_path (build_tree H cur) i = Inr path \<and> length path = merkle_depth (length cur) \<and>
      mv_loop H (cur ! i) i (length cur) path = Some (tree_root H cur)"
proof (induction "length cur" arbitrary: cur i rule: less_induct)
  case less
  show ?case
  proof (cases "1 < length cur")
    case True
    let ?n = "tree_next H cur"
    have i2: "i div 2 < length ?n" using less.prems by simp
    have "length ?n < length cur" using True by simp
    then obtain path where p: "merkle_path (build_tree H ?n) (i div 2) = Inr path"
      "length path = merkle_depth (length ?n)"
      "mv_loop H (?n ! (i div 2)) (i div 2) (length ?n) path = Some (tree_root H ?n)"
      using less.hyps [of ?n "i div 2"] i2 less.prems build_tree_len32 [OF h32] by blast
    define sb where "sb = (if odd i then i - 1 else if i + 1 < length cur then i + 1 else i)"
    let ?step = "(cur ! sb, if even i then 1 else 0 :: int)"
    have s: "sb < length cur" using less.prems by (auto simp: sb_def)
    have sib: "(if i XOR 1 \<ge> length cur then i else i XOR 1) = sb"
      unfolding xor_1_nat using less.prems by (auto simp: sb_def)
    have "merkle_path (build_tree H cur) i = Inr (?step # path)"
    proof -
      have "build_tree H cur = cur # build_tree H ?n" using True by (simp add: build_tree.simps [of H cur])
      moreover have "(length cur \<le> sb) = False" using s by simp
      ultimately show ?thesis
        using p(1) unfolding merkle_path_def
        by (simp only: butlast.simps build_tree_neq_Nil if_False mp_loop.simps Let_def and_1_nat sib
            rbind_simps)
    qed
    moreover have "length (?step # path) = merkle_depth (length cur)"
      using p(2) True by (simp add: merkle_depth.simps [of "length cur"])
    moreover have "mv_loop H (cur ! i) i (length cur) (?step # path) = Some (tree_root H cur)"
    proof -
      have "length (cur ! sb) = 32" using less.prems(2) s by simp
      moreover have "tree_root H cur = tree_root H ?n"
        using True by (simp add: tree_root_def build_tree.simps [of H cur])
      ultimately show ?thesis using p(3) tree_next_nth [OF less.prems(1), of H] by (auto simp: Let_def and_1_nat sb_def mod_2_odd)
    qed
    ultimately show ?thesis by blast
  next
    case False
    then have i0: "i = 0" using less.prems(1) by simp
    show ?thesis using False unfolding i0
      by (simp add: merkle_path_def build_tree.simps [of H cur] merkle_depth.simps [of "length cur"] tree_root_def)
  qed
qed

text \<open>Two accepting walks to one root from one position: equal leaves or a collision.\<close>

lemma walks_unique:
  "mv_loop H a idx w p = Some r \<Longrightarrow> mv_loop H b idx w q = Some r \<Longrightarrow> length p = length q \<Longrightarrow>
   length a = length b \<Longrightarrow> hash32 H \<Longrightarrow> a = b \<or> coll H (mv_inputs H a idx p) (mv_inputs H b idx q)"
proof (induction H a idx w p arbitrary: b q rule: mv_loop.induct)
  case (1 H h idx width)
  then show ?case by simp
next
  case (2 H h idx width sibling side path)
  then obtain s2 d2 q' where q: "q = (s2, d2) # q'" by (cases q) auto
  let ?x = "if idx AND 1 = 1 then sibling @ h else h @ sibling"
  let ?y = "if idx AND 1 = 1 then s2 @ b else b @ s2"
  have H: "(if idx AND 1 = 1 then H (sibling @ h) else H (h @ sibling)) = H ?x"
    "(if idx AND 1 = 1 then H (s2 @ b) else H (b @ s2)) = H ?y" by simp_all
  have l: "length sibling = 32" "length s2 = 32"
    using "2.prems"(1,2) q by (auto split: if_splits)
  have w: "mv_loop H (H ?x) (idx div 2) ((width + 1) div 2) path = Some r"
    "mv_loop H (H ?y) (idx div 2) ((width + 1) div 2) q' = Some r"
    using "2.prems"(1,2) q by (auto simp: Let_def split: if_splits)
  have "H ?x = H ?y \<or> coll H (mv_inputs H (H ?x) (idx div 2) path) (mv_inputs H (H ?y) (idx div 2) q')"
  proof (cases "idx AND 1 = 1")
    case True
    then show ?thesis using "2.IH" [of True "H ?y" q'] "2.prems" l w q
      by (auto simp: hash32_def Let_def split: if_splits)
  next
    case False
    then show ?thesis using "2.IH" [of False "H ?y" q'] "2.prems" l w q
      by (auto simp: hash32_def Let_def split: if_splits)
  qed
  moreover have "?x = ?y \<Longrightarrow> h = b" using l "2.prems"(4) by (auto split: if_splits)
  ultimately show ?case using q by (auto simp: coll_iff Let_def split: if_splits)
qed

section \<open>Vector commitments\<close>

text \<open>
  The interface the column checks rely on: a committed vector opens at every position, and two
  accepted openings of one position carry the same value unless their traces contain a
  collision. Provided by the Merkle tree over 32-byte leaves.
\<close>

locale vector_commitment =
  fixes ok :: "'k \<Rightarrow> bool" and val :: "'v \<Rightarrow> bool"
    and com :: "'k \<Rightarrow> 'v list \<Rightarrow> 'c" and opn :: "'k \<Rightarrow> 'v list \<Rightarrow> nat \<Rightarrow> 'p result"
    and vfy :: "'k \<Rightarrow> 'v \<Rightarrow> 'p \<Rightarrow> 'c \<Rightarrow> int \<Rightarrow> nat \<Rightarrow> bool"
    and clash :: "'k \<Rightarrow> 'v \<Rightarrow> 'p \<Rightarrow> 'v \<Rightarrow> 'p \<Rightarrow> int \<Rightarrow> bool"
  assumes opens: "ok k \<Longrightarrow> list_all val vs \<Longrightarrow> t < length vs \<Longrightarrow>
      \<exists>p. opn k vs t = Inr p \<and> vfy k (vs ! t) p (com k vs) (int t) (length vs)"
    and unique: "ok k \<Longrightarrow> val a \<Longrightarrow> val b \<Longrightarrow> vfy k a p c i n \<Longrightarrow> vfy k b q c i n \<Longrightarrow> a = b \<or> clash k a p b q i"
    and in_range: "vfy k a p c i n \<Longrightarrow> 0 \<le> i \<and> i < int n"
begin

lemma opened_value:
  assumes "ok k" "list_all val vs" "val a" "vfy k a p (com k vs) i (length vs)"
  shows "\<exists>q. opn k vs (nat i) = Inr q \<and> (a = vs ! nat i \<or> clash k a p (vs ! nat i) q i)"
proof -
  have i: "0 \<le> i" "nat i < length vs" using in_range [OF assms(4)] by auto
  obtain q where q: "opn k vs (nat i) = Inr q" "vfy k (vs ! nat i) q (com k vs) i (length vs)"
    using opens [OF assms(1,2) i(2)] i(1) by auto
  have "val (vs ! nat i)" using assms(2) i(2) by (simp add: list_all_length)
  then show ?thesis using unique [OF assms(1,3) _ assms(4) q(2)] q(1) by blast
qed

lemma openings_agree:
  assumes "ok k" "list_all val vs" "\<forall>(i, a, p) \<in> set os. val a \<and> vfy k a p (com k vs) i (length vs)"
    and "\<forall>(i, a, p) \<in> set os. \<forall>q. opn k vs (nat i) = Inr q \<longrightarrow> \<not> clash k a p (vs ! nat i) q i"
  shows "\<forall>(i, a, p) \<in> set os. a = vs ! nat i"
  using opened_value [OF assms(1,2)] assms(3,4) by fastforce

end

lemma verify_loop:
  "merkle_verify H leaf path root index n \<longleftrightarrow>
     0 \<le> index \<and> index < int n \<and> length path = merkle_depth n \<and> mv_loop H leaf (nat index) n path = Some root"
  by (auto simp: merkle_verify_def split: option.splits)

definition merkle_clash :: "hashfn \<Rightarrow> bytes \<Rightarrow> path \<Rightarrow> bytes \<Rightarrow> path \<Rightarrow> int \<Rightarrow> bool" where
  "merkle_clash H a p b q index = coll H (mv_inputs H a (nat index) p) (mv_inputs H b (nat index) q)"

definition leaf32 :: "bytes \<Rightarrow> bool" where
  "leaf32 b \<longleftrightarrow> length b = 32"

interpretation merkle_vc: vector_commitment hash32 leaf32 tree_root "\<lambda>H leaves i. merkle_path (build_tree H leaves) i"
  merkle_verify merkle_clash
proof unfold_locales
  fix H vs and i :: nat
  assume "hash32 H" "list_all leaf32 vs" "i < length vs"
  then show "\<exists>p. merkle_path (build_tree H vs) i = Inr p \<and>
      merkle_verify H (vs ! i) p (tree_root H vs) (int i) (length vs)"
    using path_verifies [of H i vs] by (auto simp: verify_loop list_all_iff leaf32_def)
next
  fix H a b p c i n q
  assume "hash32 H" "leaf32 a" "leaf32 b" "merkle_verify H a p c i n" "merkle_verify H b q c i n"
  then show "a = b \<or> merkle_clash H a p b q i"
    using walks_unique [of H a "nat i" n p c b q] by (auto simp: verify_loop merkle_clash_def leaf32_def)
next
  fix H a p c i n
  assume "merkle_verify H a p c i n"
  then show "0 \<le> i \<and> i < int n" by (simp add: verify_loop)
qed

text \<open>
  Fact (\<open>merkle_opens\<close>): the path extracted from the tree over any list of 32-byte leaves is
  accepted by the verifier at its own index, whatever the width (odd levels included).
\<close>

theorem merkle_opens:
  assumes "hash32 H" "list_all leaf32 leaves" "i < length leaves"
  shows "\<exists>path. merkle_path (build_tree H leaves) i = Inr path \<and>
    merkle_verify H (leaves ! i) path (tree_root H leaves) (int i) (length leaves)"
  using assms by (rule merkle_vc.opens)

definition toy_hash :: hashfn where
  "toy_hash x = take 32 (x @ replicate 32 0)"

lemma hash32_toy: "hash32 toy_hash"
  by (auto simp: hash32_def toy_hash_def)

theorem merkle_opens_witness:
  "\<exists>path. merkle_path (build_tree toy_hash [replicate 32 1, replicate 32 2, replicate 32 3]) 2 = Inr path \<and>
    merkle_verify toy_hash (replicate 32 3) path
      (tree_root toy_hash [replicate 32 1, replicate 32 2, replicate 32 3]) 2 3"
  using merkle_opens [OF hash32_toy, of "[replicate 32 1, replicate 32 2, replicate 32 3]" 2]
  by (simp add: leaf32_def numeral_eq_Suc)

text \<open>
  Two accepted walks from one position to one root: they start at the same digest, or two of the
  inputs they hash collide.
\<close>

lemma mv_loop_binding:
  "mv_loop H a idx w p = Some r \<Longrightarrow> mv_loop H b idx w q = Some r \<Longrightarrow> length p = length q \<Longrightarrow>
    a = b \<or> coll H (mv_inputs H a idx p) (mv_inputs H b idx q)"
proof (induction p arbitrary: a b idx w q)
  case Nil
  then show ?case by simp
next
  case (Cons st p)
  obtain s d where st: "st = (s, d)" by (cases st)
  obtain s' d' q' where q: "q = (s', d') # q'" using Cons.prems(3) by (cases q) auto
  define x where "x = (if idx AND 1 = 1 then s @ a else a @ s)"
  define y where "y = (if idx AND 1 = 1 then s' @ b else b @ s')"
  have len: "length s = 32" "length s' = 32" using Cons.prems(1,2) by (auto simp: st q split: if_splits)
  have go: "mv_loop H (H x) (idx div 2) ((w + 1) div 2) p = Some r" "mv_loop H (H y) (idx div 2) ((w + 1) div 2) q' = Some r"
    using Cons.prems(1,2) by (auto simp: st q x_def y_def Let_def split: if_splits)
  have inp: "mv_inputs H a idx (st # p) = x # mv_inputs H (H x) (idx div 2) p"
    "mv_inputs H b idx q = y # mv_inputs H (H y) (idx div 2) q'" by (simp_all add: st q x_def y_def Let_def)
  consider "H x = H y" "x \<noteq> y" | "x = y" | "coll H (mv_inputs H (H x) (idx div 2) p) (mv_inputs H (H y) (idx div 2) q')"
    using Cons.IH [OF go] Cons.prems(3) q by auto
  then show ?case
  proof cases
    case 2
    then have "a = b" using len by (simp add: x_def y_def split: if_splits)
    then show ?thesis by simp
  qed (unfold inp, auto simp: coll_iff)
qed

text \<open>
  Property C4 (\<open>merkle_column_binding\<close>): take any root, honestly built or not. Two columns accepted
  against it at the same position, each along its own path, are the same column, or the two
  verifications exhibit two different byte strings with equal digests (two packed columns, or two
  of the nodes hashed along the walks).
\<close>

theorem merkle_column_binding:
  assumes a: "merkle_leaf H col = Inr leaf" "merkle_verify H leaf path root i n"
    and b: "merkle_leaf H col' = Inr leaf'" "merkle_verify H leaf' path' root i n"
  shows "\<exists>p p'. pack_column col = Inr p \<and> pack_column col' = Inr p' \<and>
    (col = col' \<or> coll H (p # mv_inputs H leaf (nat i) path) (p' # mv_inputs H leaf' (nat i) path'))"
proof -
  obtain p p' where p: "pack_column col = Inr p" "leaf = H p" "pack_column col' = Inr p'" "leaf' = H p'"
    using a(1) b(1) by (auto simp: merkle_leaf_def rbind_Inr_iff)
  have "length path = length path'" "mv_loop H leaf (nat i) n path = Some root" "mv_loop H leaf' (nat i) n path' = Some root"
    using a(2) b(2) by (auto simp: merkle_verify_def split: if_splits option.splits)
  then have "leaf = leaf' \<or> coll H (mv_inputs H leaf (nat i) path) (mv_inputs H leaf' (nat i) path')"
    using mv_loop_binding by blast
  moreover have "col = col' \<or> p \<noteq> p'" using pack_column_inj p by metis
  ultimately show ?thesis using p by (auto simp: coll_iff)
qed

text \<open>A constant hash: every column opens, and the collision is real.\<close>

theorem merkle_column_binding_witness:
  "let H = (\<lambda>_. replicate 32 0); path = [(replicate 32 0, 0)] in
    merkle_leaf H [1] = Inr (replicate 32 0) \<and> merkle_leaf H [2] = Inr (replicate 32 0) \<and>
    merkle_verify H (replicate 32 0) path (replicate 32 0) 1 2 \<and>
    (\<exists>p p'. pack_column [1] = Inr p \<and> pack_column [2] = Inr p' \<and>
      coll H (p # mv_inputs H (replicate 32 0) 1 path) (p' # mv_inputs H (replicate 32 0) 1 path))"
proof -
  let ?H = "\<lambda>_. replicate 32 0 :: bytes" and ?path = "[(replicate 32 0, 0)] :: path"
  have l: "merkle_leaf ?H [1] = Inr (replicate 32 0)" "merkle_leaf ?H [2] = Inr (replicate 32 0)"
    by (simp_all add: merkle_leaf_def pack_column_Cons to_bytes_def)
  have v: "merkle_verify ?H (replicate 32 0) ?path (replicate 32 0) 1 2"
    by (simp add: merkle_verify_def merkle_depth.simps)
  show ?thesis using merkle_column_binding [OF l(1) v l(2) v] l v by (auto simp: Let_def)
qed

text \<open>
  Fact (\<open>merkle_verify_rejects\<close>): an index out of range and a path of the wrong length are
  rejected, and so is a path whose side marks do not spell the index: the position is dictated
  by the verifier, never by the proof.
\<close>

theorem merkle_verify_rejects:
  assumes "merkle_verify H leaf path root index n"
  shows "0 \<le> index \<and> index < int n \<and> length path = merkle_depth n \<and>
    (\<forall>k < length path. length (fst (path ! k)) = 32 \<and>
      snd (path ! k) = (if (nat index div 2 ^ k) AND 1 = 1 then 0 else 1))"
proof -
  have main: "mv_loop H h idx w p = Some r \<Longrightarrow> k < length p \<Longrightarrow> length (fst (p ! k)) = 32 \<and>
      snd (p ! k) = (if (idx div 2 ^ k) AND 1 = 1 then 0 else 1)" for h idx w p r k
  proof (induction H h idx w p arbitrary: k rule: mv_loop.induct)
    case (2 H h idx width sibling side path)
    have "mv_loop H (if idx AND 1 = 1 then H (sibling @ h) else H (h @ sibling)) (idx div 2) ((width + 1) div 2) path = Some r"
      "length sibling = 32" "side = (if idx AND 1 = 1 then 0 else 1)"
      using "2.prems" by (auto simp: Let_def split: if_splits)
    note loop = this
    show ?case
    proof (cases k)
      case 0
      then show ?thesis using loop by simp
    next
      case (Suc k')
      have "k' < length path" using Suc "2.prems" by simp
      then have "length (fst (path ! k')) = 32 \<and>
          snd (path ! k') = (if (idx div 2 div 2 ^ k') AND 1 = 1 then 0 else 1)"
        using "2.IH" [OF _ refl, of k'] loop "2.prems"(1)
        by (cases "idx AND 1 = 1") (auto simp del: and_one_eq split: if_splits)
      then show ?thesis using Suc by (simp add: div_mult2_eq)
    qed
  qed simp
  note a = assms [unfolded verify_loop]
  then show ?thesis using main [of leaf "nat index" n path root] by blast
qed

theorem merkle_verify_rejects_witness:
  "merkle_verify toy_hash (replicate 32 7) [] (replicate 32 7) 0 1 \<and> length ([] :: path) = merkle_depth 1"
proof -
  have "merkle_verify toy_hash (replicate 32 7) [] (replicate 32 7) 0 1"
    by (simp add: verify_loop merkle_depth.simps)
  then show ?thesis using merkle_verify_rejects by blast
qed

end
