(* ===== verification/ReedSolomon.thy ===== *)
theory ReedSolomon
  imports Ntt
begin

text \<open>
  The evaluation domains and the code of \<^verbatim>\<open>prover/protocol.py\<close> (\<open>Config\<close>, \<open>zeta\<close>, \<open>eta\<close>,
  \<open>lagrange\<close>, \<open>eval_zeta_form\<close>), the asserted configuration of \<^verbatim>\<open>prover/core.py\<close>
  (\<open>LigeroConfig\<close>) and the CPU encoder of \<^verbatim>\<open>layergkr/rs.py\<close> (\<open>lagrange_matrix\<close>, \<open>encode_row\<close>,
  \<open>linear_combination\<close>). A configuration with \<open>K_DEG = 0\<close> or \<open>N_LIG = 0\<close> is outside the model:
  Python divides by zero there.
\<close>

section \<open>Configuration and domains\<close>

record config =
  ELL :: nat
  K_DEG :: nat
  N_LIG :: nat
  T_QUERIES :: nat

text \<open>\<open>LigeroConfig.__post_init__\<close>: the assertions, in order.\<close>

definition ligero_post_init :: "config \<Rightarrow> unit result" where
  "ligero_post_init cfg =
     (if \<not> (ELL cfg \<le> K_DEG cfg \<and> K_DEG cfg \<le> N_LIG cfg) then Inl AssertionError
      else if K_DEG cfg AND (K_DEG cfg - 1) \<noteq> 0 then Inl AssertionError
      else if N_LIG cfg AND (N_LIG cfg - 1) \<noteq> 0 then Inl AssertionError
      else if K_DEG cfg = 0 then Inl ZeroDivisionError
      else if (FIELD_P - 1) mod int (K_DEG cfg) \<noteq> 0 then Inl AssertionError
      else if (FIELD_P - 1) mod int (N_LIG cfg) \<noteq> 0 then Inl AssertionError
      else if 2 * K_DEG cfg > N_LIG cfg then Inl AssertionError
      else Inr ())"

definition W_K :: "config \<Rightarrow> int" where
  "W_K cfg = powmod GLOBAL_G (nat ((FIELD_P - 1) div int (K_DEG cfg))) FIELD_P"

definition W_N :: "config \<Rightarrow> int" where
  "W_N cfg = powmod GLOBAL_G (nat ((FIELD_P - 1) div int (N_LIG cfg))) FIELD_P"

definition zeta :: "config \<Rightarrow> nat \<Rightarrow> int" where
  "zeta cfg c = powmod (W_K cfg) c FIELD_P"

definition eta :: "config \<Rightarrow> nat \<Rightarrow> int" where
  "eta cfg j = (GLOBAL_G * powmod (W_N cfg) j FIELD_P) mod FIELD_P"

definition lagrange :: "config \<Rightarrow> nat \<Rightarrow> int \<Rightarrow> int" where
  "lagrange cfg c et =
     (let K = K_DEG cfg; zc = zeta cfg c in
      mul_P (mul_P zc (sub_P (powmod et K FIELD_P) 1))
        (inv_P (mul_P (int K mod FIELD_P) (sub_P et zc))))"

definition eval_zeta_form :: "config \<Rightarrow> int list \<Rightarrow> int \<Rightarrow> int" where
  "eval_zeta_form cfg values et =
     foldl (\<lambda>acc (c, v). if v \<noteq> 0 then (acc + mul_P v (lagrange cfg c et)) mod FIELD_P else acc)
       0 (zip [0..<length values] values)"

section \<open>The encoder\<close>

definition lagrange_column :: "config \<Rightarrow> int list \<Rightarrow> nat \<Rightarrow> int list" where
  "lagrange_column cfg zetas j =
     (let et = eta cfg j;
          num = (powmod et (K_DEG cfg) FIELD_P - 1) mod FIELD_P;
          dens = map (\<lambda>z. ((int (K_DEG cfg) mod FIELD_P) * ((et - z) mod FIELD_P)) mod FIELD_P) zetas;
          invs = batch_inv dens
      in map (\<lambda>(z, iv). ((z * num) mod FIELD_P * iv) mod FIELD_P) (zip zetas invs))"

definition lagrange_matrix :: "config \<Rightarrow> int list list" where
  "lagrange_matrix cfg =
     (let zetas = map (zeta cfg) [0..<ELL cfg] in map (lagrange_column cfg zetas) [0..<N_LIG cfg])"

definition encode_row :: "config \<Rightarrow> int list \<Rightarrow> int list result" where
  "encode_row cfg message =
     (if length message > ELL cfg then Inl ValueError
      else let vals = message @ replicate (ELL cfg - length message) 0; L = lagrange_matrix cfg in
        Inr (map (\<lambda>j.
          foldl (\<lambda>acc (c, v). if v \<noteq> 0 then acc + v * (L ! j ! c) else acc)
            0 (zip [0..<length vals] vals) mod FIELD_P) [0..<N_LIG cfg]))"

definition lc_step :: "config \<Rightarrow> int list \<Rightarrow> int list \<times> int \<Rightarrow> int list" where
  "lc_step cfg out p =
     (case p of (cw, a) \<Rightarrow>
        if a = 0 then out
        else foldl (\<lambda>o1 j. o1[j := (o1 ! j + cw ! j * a) mod FIELD_P]) out [0..<N_LIG cfg])"

definition linear_combination :: "config \<Rightarrow> int list list \<Rightarrow> int list \<Rightarrow> int list result" where
  "linear_combination cfg codewords coeffs =
     (if length codewords \<noteq> length coeffs then Inl ValueError
      else Inr (foldl (lc_step cfg) (replicate (N_LIG cfg) 0) (zip codewords coeffs)))"

section \<open>Domains\<close>

text \<open>The configurations \<open>LigeroConfig\<close> accepts, without its last two assertions.\<close>

definition valid_config :: "config \<Rightarrow> bool" where
  "valid_config cfg \<longleftrightarrow> is_pow2 (K_DEG cfg) \<and> is_pow2 (N_LIG cfg) \<and> ELL cfg \<le> K_DEG cfg \<and>
     K_DEG cfg \<le> N_LIG cfg \<and> N_LIG cfg \<le> 2 ^ 32"

lemma W_root:
  assumes "k \<le> 32"
  shows "ntt_root (powmod GLOBAL_G (nat ((FIELD_P - 1) div int (2 ^ k))) FIELD_P) (2 ^ k)"
proof -
  have "(FIELD_P - 1) mod int (2 ^ k) = 0"
  proof -
    have "FIELD_P - 1 = 4294967295 * 2 ^ (32 - k) * 2 ^ k"
      using assms by (simp add: FIELD_P_val mult.assoc flip: power_add)
    then show ?thesis by simp
  qed
  then show ?thesis using root_of_unity_pow2 [OF assms] by (auto simp: root_of_unity_def)
qed

lemma valid_configD:
  assumes "valid_config cfg"
  obtains k n where "K_DEG cfg = 2 ^ k" "N_LIG cfg = 2 ^ n" "k \<le> n" "n \<le> 32"
    "ntt_root (W_K cfg) (2 ^ k)" "ntt_root (W_N cfg) (2 ^ n)"
proof -
  obtain k n where kn: "K_DEG cfg = 2 ^ k" "N_LIG cfg = 2 ^ n"
    using assms by (auto simp: valid_config_def is_pow2_iff)
  moreover have "k \<le> n" using assms kn power_increasing_iff [of "2::nat" k n] by (simp add: valid_config_def)
  moreover have "n \<le> 32" using assms kn power_increasing_iff [of "2::nat" n 32] by (simp add: valid_config_def)
  ultimately show thesis using that W_root [of k] W_root [of n] by (simp add: W_K_def W_N_def)
qed

lemma zeta_range [simp]: "0 \<le> zeta cfg c" "zeta cfg c < FIELD_P"
  by (simp_all add: zeta_def powmod_eq)

lemma eta_range [simp]: "0 \<le> eta cfg j" "eta cfg j < FIELD_P"
  by (simp_all add: eta_def)

lemma gl_zeta [gl_hom]: "(of_int (zeta cfg c) :: gl) = of_int (W_K cfg) ^ c"
  by (simp add: zeta_def)

lemma gl_eta [gl_hom]: "(of_int (eta cfg j) :: gl) = of_int GLOBAL_G * of_int (W_N cfg) ^ j"
  by (simp add: eta_def)

lemma lagrange_range [simp]: "0 \<le> lagrange cfg c x" "lagrange cfg c x < FIELD_P"
  by (simp_all add: lagrange_def Let_def)

lemma power_swap: "(a ^ m) ^ n = (a ^ n) ^ m"
  for a :: "'a::monoid_mult"
  by (metis mult.commute power_mult)

lemma seven_pow_2_32: "7 ^ (2 ^ 32) mod FIELD_P \<noteq> 1"
proof -
  have "powP 7 4294967296 = 12275445934081160404"
    by (simp add: powP_numeral fold64_def FIELD_P_val)
  moreover have "(2::nat) ^ 32 = 4294967296" by simp
  moreover have "(12275445934081160404 :: int) \<noteq> 1" by simp
  ultimately show ?thesis by (simp only: powP_def powmod_eq not_False_eq_True)
qed

lemma seven_pow_N: "n \<le> 32 \<Longrightarrow> (of_int GLOBAL_G :: gl) ^ (2 ^ n) \<noteq> 1"
proof
  assume n: "n \<le> 32" and e: "(of_int GLOBAL_G :: gl) ^ (2 ^ n) = 1"
  have "(of_int GLOBAL_G :: gl) ^ (2 ^ n * 2 ^ (32 - n)) = 1" by (simp only: power_mult e power_one)
  moreover have "2 ^ n * 2 ^ (32 - n) = (2 ^ 32 :: nat)" using n by (simp flip: power_add)
  ultimately have "(of_int (7 ^ (2 ^ 32)) :: gl) = of_int 1" by (simp only: GLOBAL_G_def of_int_power of_int_1)
  then have "7 ^ (2 ^ 32) mod FIELD_P = 1 mod FIELD_P" by (simp only: gl_eq_iff)
  moreover have "1 mod FIELD_P = 1" by (simp add: FIELD_P_val)
  ultimately show False using seven_pow_2_32 by (simp only:)
qed

lemma zeta_neq_eta:
  assumes v: "valid_config cfg"
  shows "(of_int (eta cfg j) :: gl) \<noteq> of_int (zeta cfg c)"
proof
  assume e: "(of_int (eta cfg j) :: gl) = of_int (zeta cfg c)"
  obtain k n where kn: "k \<le> n" "n \<le> 32" "ntt_root (W_K cfg) (2 ^ k)" "ntt_root (W_N cfg) (2 ^ n)"
    using valid_configD [OF v] by metis
  have "(of_int (W_K cfg) :: gl) ^ (2 ^ n) = 1"
  proof -
    have "(2::nat) ^ n = 2 ^ k * 2 ^ (n - k)" using kn(1) by (simp flip: power_add)
    then show ?thesis using ntt_root_gl(3) [OF kn(3)] by (simp add: power_mult)
  qed
  then have "(of_int (zeta cfg c) :: gl) ^ (2 ^ n) = 1"
    unfolding gl_zeta by (subst power_swap) simp
  moreover have "(of_int (eta cfg j) :: gl) ^ (2 ^ n) = of_int GLOBAL_G ^ (2 ^ n)"
    unfolding gl_eta power_mult_distrib using ntt_root_gl(3) [OF kn(4)] by (subst power_swap) simp
  ultimately show False using seven_pow_N [OF kn(2)] e by simp
qed

lemma root_power_inj:
  assumes r: "ntt_root w (2 ^ k)" and ij: "i < 2 ^ k" "j < 2 ^ k" and e: "(of_int w :: gl) ^ i = of_int w ^ j"
  shows "i = j"
proof -
  have *: "a = b" if "a \<le> b" "b < 2 ^ k" "(of_int w :: gl) ^ a = of_int w ^ b" for a b
  proof (rule ccontr)
    assume "a \<noteq> b"
    have "(of_int w :: gl) ^ a * of_int w ^ (b - a) = of_int w ^ a * 1"
      using that power_add [of "of_int w :: gl" a "b - a"] by simp
    then have "(of_int w :: gl) ^ (b - a) = 1" using ntt_root_gl(1) [OF r] by (simp only: mult_cancel_left) auto
    then show False using root_power_neq_1 [OF r, of "b - a"] that \<open>a \<noteq> b\<close> by simp
  qed
  show ?thesis using *[of i j] *[of j i] ij e by (cases "i \<le> j") simp_all
qed

lemma eta_inj:
  assumes v: "valid_config cfg" and ij: "i < N_LIG cfg" "j < N_LIG cfg"
    and e: "(of_int (eta cfg i) :: gl) = of_int (eta cfg j)"
  shows "i = j"
proof -
  obtain n where n: "N_LIG cfg = 2 ^ n" "ntt_root (W_N cfg) (2 ^ n)" using valid_configD [OF v] by metis
  have "(of_int GLOBAL_G :: gl) \<noteq> 0" using seven_pow_N [of 0] gl_eq_0_iff [of GLOBAL_G]
    by (simp add: GLOBAL_G_def FIELD_P_val)
  then have "(of_int (W_N cfg) :: gl) ^ i = of_int (W_N cfg) ^ j" using e by (simp add: gl_eta)
  then show ?thesis using root_power_inj [OF n(2)] ij n(1) by simp
qed

section \<open>The closed form of the Lagrange basis\<close>

lemma gl_of_int_nat [simp]: "(of_int (int n) :: gl) = of_nat n"
  by simp

lemma gl_lagrange:
  assumes v: "valid_config cfg" and x: "(of_int x :: gl) \<noteq> of_int (zeta cfg c)"
  shows "(of_int (lagrange cfg c x) :: gl) =
    (\<Sum>m<K_DEG cfg. (of_int x * inverse (of_int (zeta cfg c))) ^ m) / of_nat (K_DEG cfg)"
proof -
  obtain k where k: "K_DEG cfg = 2 ^ k" "ntt_root (W_K cfg) (2 ^ k)" using valid_configD [OF v] by metis
  let ?K = "K_DEG cfg" and ?z = "of_int (zeta cfg c) :: gl" and ?x = "of_int x :: gl"
  have z0: "?z \<noteq> 0" using ntt_root_gl(1) [OF k(2)] by (simp add: gl_zeta)
  have zK: "?z ^ ?K = 1"
    unfolding gl_zeta k(1) using ntt_root_gl(3) [OF k(2)] by (subst power_swap) simp
  let ?y = "?x * inverse ?z"
  have y1: "?y \<noteq> 1" using x z0 by (simp add: field_simps)
  have yK: "?y ^ ?K = ?x ^ ?K" by (simp add: power_mult_distrib power_inverse zK)
  have "(\<Sum>m<?K. ?y ^ m) = (?x ^ ?K - 1) / (?y - 1)" using geometric_sum [OF y1, of ?K] yK by simp
  also have "\<dots> = ?z * (?x ^ ?K - 1) / (?x - ?z)" using z0 x y1 by (simp add: field_simps)
  finally have "(\<Sum>m<?K. ?y ^ m) / of_nat ?K = ?z * (?x ^ ?K - 1) / (?x - ?z) / of_nat ?K" by simp
  moreover have "(of_int (lagrange cfg c x) :: gl) = ?z * (?x ^ ?K - 1) / (?x - ?z) / of_nat ?K"
    by (simp add: lagrange_def Let_def divide_inverse ac_simps)
  ultimately show ?thesis by simp
qed

lemma gl_eval_zeta_form:
  "(of_int (eval_zeta_form cfg values x) :: gl) = (\<Sum>c<length values. of_int (values ! c) * of_int (lagrange cfg c x))"
proof -
  let ?f = "\<lambda>acc (c, v). if v \<noteq> 0 then (acc + mul_P v (lagrange cfg c x)) mod FIELD_P else acc"
  have "(of_int (foldl ?f a ps) :: gl) = of_int a + (\<Sum>(c, v) \<leftarrow> ps. of_int v * of_int (lagrange cfg c x))" for a ps
    by (induction ps arbitrary: a) (auto simp: add.assoc)
  from this [of 0 "zip [0..<length values] values"] show ?thesis
    by (simp add: eval_zeta_form_def sum_list_eq_sum_nth)
qed

lemma eval_zeta_form_range: "0 \<le> eval_zeta_form cfg values x \<and> eval_zeta_form cfg values x < FIELD_P"
  unfolding eval_zeta_form_def by (rule foldl_invariant) (auto split: if_splits)

text \<open>The coefficients of the interpolating polynomial: an inverse transform of the values.\<close>

definition icoef :: "config \<Rightarrow> int list \<Rightarrow> gl list" where
  "icoef cfg values = map (\<lambda>m. (\<Sum>c<length values. of_int (values ! c) * inverse (of_int (zeta cfg c)) ^ m)
     / of_nat (K_DEG cfg)) [0..<K_DEG cfg]"

lemma peval_icoef:
  "peval (icoef cfg values) x =
    (\<Sum>c<length values. of_int (values ! c) *
      ((\<Sum>m<K_DEG cfg. (x * inverse (of_int (zeta cfg c))) ^ m) / of_nat (K_DEG cfg)))"
proof -
  have "icoef cfg values ! m * x ^ m = (\<Sum>c<length values.
      of_int (values ! c) * ((x * inverse (of_int (zeta cfg c))) ^ m / of_nat (K_DEG cfg)))"
    if "m < K_DEG cfg" for m
    unfolding icoef_def nth_map_upt0 [OF that] sum_divide_distrib sum_distrib_right
    by (intro sum.cong refl) (simp add: power_mult_distrib mult_ac)
  then have "peval (icoef cfg values) x = (\<Sum>m<K_DEG cfg. \<Sum>c<length values.
      of_int (values ! c) * ((x * inverse (of_int (zeta cfg c))) ^ m / of_nat (K_DEG cfg)))"
    by (simp add: peval_sum icoef_def)
  also have "\<dots> = (\<Sum>c<length values. \<Sum>m<K_DEG cfg.
      of_int (values ! c) * ((x * inverse (of_int (zeta cfg c))) ^ m / of_nat (K_DEG cfg)))"
    by (rule sum.swap)
  finally show ?thesis by (simp add: sum_distrib_left sum_divide_distrib)
qed

lemma eval_zeta_form_icoef:
  assumes v: "valid_config cfg"
  shows "(of_int (eval_zeta_form cfg values (eta cfg j)) :: gl) = peval (icoef cfg values) (of_int (eta cfg j))"
  using gl_lagrange [OF v zeta_neq_eta [OF v]] by (simp add: gl_eval_zeta_form peval_icoef)

lemma icoef_zeta:
  assumes v: "valid_config cfg" and len: "length values \<le> K_DEG cfg" and i: "i < K_DEG cfg"
  shows "peval (icoef cfg values) (of_int (zeta cfg i)) = (if i < length values then of_int (values ! i) else 0)"
proof -
  obtain k where k: "K_DEG cfg = 2 ^ k" "ntt_root (W_K cfg) (2 ^ k)" using valid_configD [OF v] by metis
  let ?w = "of_int (W_K cfg) :: gl"
  have orth: "(\<Sum>m<K_DEG cfg. (of_int (zeta cfg i) * inverse (of_int (zeta cfg c))) ^ m) / of_nat (K_DEG cfg)
      = (if c = i then 1 else 0 :: gl)" if "c < length values" for c
  proof -
    have "(of_int (zeta cfg i) * inverse (of_int (zeta cfg c))) ^ m = ?w ^ (m * i) * inverse ?w ^ (c * m)" for m
      by (simp add: gl_zeta power_mult_distrib mult.commute power_inverse flip: power_mult)
    then show ?thesis
      using root_orthogonal [OF k(2), of c i] that len i k(1) pow2_not_zero_gl [of k] by simp
  qed
  have "peval (icoef cfg values) (of_int (zeta cfg i))
      = (\<Sum>c<length values. of_int (values ! c) * (if c = i then 1 else 0))"
    unfolding peval_icoef by (intro sum.cong) (simp_all add: orth)
  also have "\<dots> = (\<Sum>c<length values. if c = i then of_int (values ! c) else 0)"
    by (intro sum.cong) simp_all
  finally show ?thesis by simp
qed

lemma poly_of_gl: "\<exists>cs. canonical cs \<and> glL cs = ps"
proof (rule exI [of _ "map Rep_gl ps"])
  show "canonical (map Rep_gl ps) \<and> glL (map Rep_gl ps) = ps"
    using Rep_gl_range by (auto simp: canonical_def intro: map_idI)
qed

text \<open>
  Fact (\<open>eval_zeta_form_interpolates\<close>): the closed form \<open>z (x^K - 1) / (K (x - z))\<close> evaluates, at
  every codeword point, the polynomial of degree below \<open>K_DEG\<close> that takes the given values at
  the first message points and zero at the others.
\<close>

theorem eval_zeta_form_interpolates:
  assumes v: "valid_config cfg" and len: "length values \<le> K_DEG cfg"
  shows "\<exists>coeffs. length coeffs = K_DEG cfg \<and> canonical coeffs \<and>
    (\<forall>c < K_DEG cfg. poly_eval coeffs (zeta cfg c) = (if c < length values then values ! c mod FIELD_P else 0)) \<and>
    (\<forall>j. eval_zeta_form cfg values (eta cfg j) = poly_eval coeffs (eta cfg j))"
proof -
  obtain cs where cs: "canonical cs" "glL cs = icoef cfg values" using poly_of_gl by blast
  have "length (icoef cfg values) = K_DEG cfg" by (simp add: icoef_def)
  then have l: "length cs = K_DEG cfg" by (simp flip: cs(2))
  have "poly_eval cs (zeta cfg c) = (if c < length values then values ! c mod FIELD_P else 0)"
    if "c < K_DEG cfg" for c
  proof (rule gl_inj_canonical)
    show "(of_int (poly_eval cs (zeta cfg c)) :: gl) =
        of_int (if c < length values then values ! c mod FIELD_P else 0)"
      unfolding gl_poly_eval cs(2) icoef_zeta [OF v len that] by simp
  qed simp_all
  moreover have "eval_zeta_form cfg values (eta cfg j) = poly_eval cs (eta cfg j)" for j
    using eval_zeta_form_icoef [OF v, of "values" j] eval_zeta_form_range [of cfg "values"]
    by (intro gl_inj_canonical) (simp_all only: gl_poly_eval cs(2) poly_eval_range)
  ultimately show ?thesis using cs(1) l by blast
qed

definition cfg_toy :: config where
  "cfg_toy = \<lparr>ELL = 2, K_DEG = 4, N_LIG = 8, T_QUERIES = 2\<rparr>"

lemma valid_cfg_toy: "valid_config cfg_toy"
  by (simp add: valid_config_def cfg_toy_def is_pow2_def bit_length.simps)

theorem eval_zeta_form_interpolates_witness:
  "\<exists>coeffs. length coeffs = K_DEG cfg_toy \<and> canonical coeffs \<and>
    (\<forall>c < K_DEG cfg_toy. poly_eval coeffs (zeta cfg_toy c) = (if c < length [5, 6 :: int] then [5, 6] ! c mod FIELD_P else 0)) \<and>
    (\<forall>j. eval_zeta_form cfg_toy [5, 6] (eta cfg_toy j) = poly_eval coeffs (eta cfg_toy j))"
  by (rule eval_zeta_form_interpolates [OF valid_cfg_toy]) (simp add: cfg_toy_def)

section \<open>The cached matrix and the encoder\<close>

lemma lagrange_matrix_nth:
  assumes v: "valid_config cfg" and jc: "j < N_LIG cfg" "c < ELL cfg"
  shows "lagrange_matrix cfg ! j ! c = lagrange cfg c (eta cfg j)"
proof -
  let ?d = "\<lambda>z. ((int (K_DEG cfg) mod FIELD_P) * ((eta cfg j - z) mod FIELD_P)) mod FIELD_P"
  let ?zs = "map (zeta cfg) [0..<ELL cfg]"
  obtain k where k: "K_DEG cfg = 2 ^ k" using valid_configD [OF v] by metis
  have "\<not> FIELD_P dvd ?d (zeta cfg i)" for i
  proof -
    have "(of_int (?d (zeta cfg i)) :: gl) = of_nat (2 ^ k) * (of_int (eta cfg j) - of_int (zeta cfg i))"
      by (simp add: k)
    then have "(of_int (?d (zeta cfg i)) :: gl) \<noteq> 0" using pow2_not_zero_gl [of k] zeta_neq_eta [OF v, of j i] by simp
    then show ?thesis using gl_eq_0_iff by blast
  qed
  then have "batch_inv (map ?d ?zs) = map inv_P (map ?d ?zs)" unfolding batch_inv_all by auto
  then show ?thesis
    using jc by (simp add: lagrange_matrix_def lagrange_column_def lagrange_def Let_def mul_P_def sub_P_def)
qed

lemma encode_row_values:
  assumes v: "valid_config cfg" and len: "length message \<le> ELL cfg"
  shows "encode_row cfg message = Inr (map (\<lambda>j. eval_zeta_form cfg message (eta cfg j)) [0..<N_LIG cfg])"
proof -
  let ?vals = "message @ replicate (ELL cfg - length message) 0"
  let ?f = "\<lambda>j acc (c, v). if v \<noteq> 0 then acc + v * (lagrange_matrix cfg ! j ! c) else acc"
  have fold: "foldl (?f j) a ps = a + (\<Sum>(c, v) \<leftarrow> ps. v * (lagrange_matrix cfg ! j ! c))" for a ps j
    by (induction ps arbitrary: a) (auto simp: add.assoc)
  have "(of_int (foldl (?f j) 0 (zip [0..<length ?vals] ?vals)) :: gl) = of_int (eval_zeta_form cfg message (eta cfg j))"
    if j: "j < N_LIG cfg" for j
  proof -
    have "(of_int (foldl (?f j) 0 (zip [0..<length ?vals] ?vals)) :: gl)
        = (\<Sum>c<ELL cfg. of_int (?vals ! c) * of_int (lagrange cfg c (eta cfg j)))"
      using len by (simp add: fold sum_list_eq_sum_nth lagrange_matrix_nth [OF v j])
    also have "\<dots> = (\<Sum>c<length message. of_int (?vals ! c) * of_int (lagrange cfg c (eta cfg j)))"
      using len by (intro sum.mono_neutral_right) (auto simp: nth_append)
    also have "\<dots> = of_int (eval_zeta_form cfg message (eta cfg j))"
      by (simp add: gl_eval_zeta_form nth_append)
    finally show ?thesis .
  qed
  then have "foldl (?f j) 0 (zip [0..<length ?vals] ?vals) mod FIELD_P = eval_zeta_form cfg message (eta cfg j)"
    if "j < N_LIG cfg" for j
    using that eval_zeta_form_range by (intro mod_eq_by_gl) auto
  then show ?thesis using len by (simp add: encode_row_def Let_def)
qed

text \<open>
  Fact (\<open>encode_row_is_codeword\<close>): a message of at most \<open>ELL\<close> values is encoded, through the
  cached matrix built with batched inversion, to the \<open>N_LIG\<close> values of its interpolating
  polynomial at the codeword points (the values of \<^verbatim>\<open>protocol.eval_zeta_form\<close>); a longer
  message is an error.
\<close>

theorem encode_row_is_codeword:
  assumes "valid_config cfg"
  shows "encode_row cfg message =
    (if length message > ELL cfg then Inl ValueError
     else Inr (map (\<lambda>j. eval_zeta_form cfg message (eta cfg j)) [0..<N_LIG cfg]))"
  using encode_row_values [OF assms] by (simp add: encode_row_def)

theorem encode_row_is_codeword_witness:
  "encode_row cfg_toy [1, 2] = Inr (map (\<lambda>j. eval_zeta_form cfg_toy [1, 2] (eta cfg_toy j)) [0..<8])"
  using encode_row_is_codeword [OF valid_cfg_toy, of "[1, 2]"] by (simp add: cfg_toy_def)

section \<open>Linear codes\<close>

text \<open>
  The interface the projection and the column checks rely on: every encoded row is the same
  linear map of its message. Provided by the encoder above.
\<close>

definition combine_rows :: "nat \<Rightarrow> int list \<Rightarrow> int list list \<Rightarrow> int list" where
  "combine_rows d coeffs rows = map (\<lambda>t. (\<Sum>i<length rows. coeffs ! i * rows ! i ! t) mod FIELD_P) [0..<d]"

locale linear_code =
  fixes ok :: "'c \<Rightarrow> bool" and dim :: "'c \<Rightarrow> nat" and clen :: "'c \<Rightarrow> nat"
    and enc :: "'c \<Rightarrow> int list \<Rightarrow> int list result" and gen :: "'c \<Rightarrow> nat \<Rightarrow> nat \<Rightarrow> int"
  assumes enc_total: "ok c \<Longrightarrow> length m \<le> dim c \<Longrightarrow> \<exists>cw. enc c m = Inr cw \<and> length cw = clen c \<and> canonical cw"
    and enc_linear: "ok c \<Longrightarrow> length m \<le> dim c \<Longrightarrow> enc c m = Inr cw \<Longrightarrow> j < clen c \<Longrightarrow>
      (of_int (cw ! j) :: gl) = (\<Sum>i<length m. of_int (m ! i) * of_int (gen c i j))"
begin

lemma enc_combine:
  assumes ok: "ok c" and d: "d \<le> dim c" and rows: "\<forall>r \<in> set rows. length r = d"
    and cws: "rmap (enc c) rows = Inr cws" and len: "length coeffs = length rows"
  shows "enc c (combine_rows d coeffs rows) = Inr (combine_rows (clen c) coeffs cws)"
proof -
  let ?m = "combine_rows d coeffs rows"
  have lm: "length ?m = d" by (simp add: combine_rows_def)
  obtain cw where cw: "enc c ?m = Inr cw" "length cw = clen c" "canonical cw"
    using enc_total [OF ok, of ?m] lm d by auto
  have enc: "enc c (rows ! i) = Inr (cws ! i)" if "i < length rows" for i using rmap_InrD [OF cws] that by simp
  have lc: "length cws = length rows" using rmap_InrD [OF cws] by simp
  have "cw = combine_rows (clen c) coeffs cws"
  proof (rule canonical_eqI)
    fix j assume "j < length cw"
    then have j: "j < clen c" using cw by simp
    have "(of_int (cw ! j) :: gl) = (\<Sum>t<d. (\<Sum>i<length rows. of_int (coeffs ! i) * of_int (rows ! i ! t)) * of_int (gen c t j))"
      using enc_linear [OF ok _ cw(1) j] d lm by (simp add: combine_rows_def)
    also have "\<dots> = (\<Sum>i<length rows. of_int (coeffs ! i) * (\<Sum>t<d. of_int (rows ! i ! t) * of_int (gen c t j)))"
      unfolding sum_distrib_right sum_distrib_left by (subst sum.swap) (simp add: mult.assoc)
    also have "\<dots> = (\<Sum>i<length rows. of_int (coeffs ! i) * of_int (cws ! i ! j))"
      using enc_linear [OF ok _ enc j] rows d by (intro sum.cong) simp_all
    also have "\<dots> = of_int (combine_rows (clen c) coeffs cws ! j)" using j lc by (simp add: combine_rows_def)
    finally show "(of_int (cw ! j) :: gl) = of_int (combine_rows (clen c) coeffs cws ! j)" .
  qed (use cw in \<open>auto simp: combine_rows_def canonical_def\<close>)
  then show ?thesis using cw by simp
qed

end

interpretation rs_code: linear_code valid_config ELL N_LIG encode_row "\<lambda>cfg c j. lagrange cfg c (eta cfg j)"
proof unfold_locales
  fix cfg :: config and m cw :: "int list" and j :: nat
  assume ok: "valid_config cfg" and len: "length m \<le> ELL cfg"
  note e = encode_row_values [OF ok len]
  show "\<exists>cw. encode_row cfg m = Inr cw \<and> length cw = N_LIG cfg \<and> canonical cw"
    using e eval_zeta_form_range by (auto simp: canonical_def)
  assume "encode_row cfg m = Inr cw" and j: "j < N_LIG cfg"
  then show "(of_int (cw ! j) :: gl) = (\<Sum>i<length m. of_int (m ! i) * of_int (lagrange cfg i (eta cfg j)))"
    using e by (auto simp: gl_eval_zeta_form)
qed

text \<open>The pointwise combination loop.\<close>

lemma lc_step_nth:
  assumes "length out = N_LIG cfg" "canonical out" "j < N_LIG cfg"
  shows "lc_step cfg out (cw, a) ! j = (out ! j + cw ! j * a) mod FIELD_P"
    and "length (lc_step cfg out (cw, a)) = N_LIG cfg" and "canonical (lc_step cfg out (cw, a))"
proof -
  have upd: "foldl (\<lambda>o1 j. o1[j := (o1 ! j + cw ! j * a) mod FIELD_P]) out [0..<n] =
      map (\<lambda>j. (out ! j + cw ! j * a) mod FIELD_P) [0..<n] @ drop n out" if "n \<le> length out" for n
    using that
  proof (induction n)
    case (Suc n)
    then have "drop n out = out ! n # drop (Suc n) out" by (simp add: Cons_nth_drop_Suc)
    then show ?case using Suc by (simp add: nth_append list_update_append)
  qed simp
  have c: "out ! j = out ! j mod FIELD_P" using canonical_nth [of out j] assms by simp
  show "lc_step cfg out (cw, a) ! j = (out ! j + cw ! j * a) mod FIELD_P"
    using upd [of "N_LIG cfg"] assms c by (auto simp: lc_step_def)
  show "length (lc_step cfg out (cw, a)) = N_LIG cfg"
    using upd [of "N_LIG cfg"] assms by (auto simp: lc_step_def)
  show "canonical (lc_step cfg out (cw, a))"
    using upd [of "N_LIG cfg"] assms by (auto simp: lc_step_def canonical_def)
qed

lemma lc_fold:
  assumes "length out = N_LIG cfg" "canonical out" "j < N_LIG cfg"
  shows "foldl (lc_step cfg) out ps ! j = (out ! j + (\<Sum>(cw, a) \<leftarrow> ps. a * cw ! j)) mod FIELD_P
    \<and> length (foldl (lc_step cfg) out ps) = N_LIG cfg"
  using assms
proof (induction ps arbitrary: out)
  case Nil
  then show ?case using canonical_nth [of out j] by simp
next
  case (Cons p ps)
  obtain cw a where p: "p = (cw, a)" by (cases p)
  show ?case using Cons.IH [of "lc_step cfg out p"] Cons.prems lc_step_nth [OF Cons.prems, of cw a] p
    by (simp add: mod_simps add.assoc mult.commute)
qed

lemma linear_combination_eq:
  assumes "length codewords = length coeffs" "0 < N_LIG cfg"
  shows "linear_combination cfg codewords coeffs = Inr (combine_rows (N_LIG cfg) coeffs codewords)"
proof -
  let ?r = "foldl (lc_step cfg) (replicate (N_LIG cfg) 0) (zip codewords coeffs)"
  have z: "canonical (replicate (N_LIG cfg) 0)" by (simp add: canonical_def)
  note f = lc_fold [OF length_replicate z, of _ "zip codewords coeffs"]
  have "?r = combine_rows (N_LIG cfg) coeffs codewords"
  proof (rule list_eq_nthI)
    show "length ?r = length (combine_rows (N_LIG cfg) coeffs codewords)"
      using f [OF assms(2)] by (simp add: combine_rows_def)
    fix j assume "j < length ?r"
    then have j: "j < N_LIG cfg" using f [OF assms(2)] by simp
    show "?r ! j = combine_rows (N_LIG cfg) coeffs codewords ! j"
      using f [OF j] j assms by (simp add: combine_rows_def sum_list_eq_sum_nth)
  qed
  then show ?thesis using assms by (simp add: linear_combination_def)
qed

text \<open>
  Fact (\<open>linear_combination_encodes\<close>): combining encoded rows position by position gives the
  encoding of the same combination of the messages, secret padding included: the identity
  behind the projection seam and the column checks.
\<close>

theorem linear_combination_encodes:
  assumes "valid_config cfg" "d \<le> ELL cfg" "\<forall>r \<in> set rows. length r = d"
    and "rmap (encode_row cfg) rows = Inr cws" "length coeffs = length rows"
  shows "linear_combination cfg cws coeffs = encode_row cfg (combine_rows d coeffs rows)"
proof -
  have "0 < N_LIG cfg" using valid_configD [OF assms(1)] by (metis zero_less_power zero_less_numeral)
  then show ?thesis
    using rs_code.enc_combine [OF assms] rmap_InrD [OF assms(4)] assms(5) by (simp add: linear_combination_eq)
qed

theorem linear_combination_encodes_witness:
  "\<exists>cws. rmap (encode_row cfg_toy) [[1, 2], [3, 4]] = Inr cws \<and>
    linear_combination cfg_toy cws [5, 6] = encode_row cfg_toy (combine_rows 2 [5, 6] [[1, 2], [3, 4]])"
proof -
  obtain cws where "rmap (encode_row cfg_toy) [[1, 2], [3, 4]] = Inr cws"
    using encode_row_values [OF valid_cfg_toy] by (simp add: cfg_toy_def)
  then show ?thesis using linear_combination_encodes [OF valid_cfg_toy, of 2 "[[1, 2], [3, 4]]" cws "[5, 6]"]
    by (simp add: cfg_toy_def)
qed

lemma codeword_distance:
  assumes v: "valid_config cfg" and len: "length m1 \<le> ELL cfg" "length m1 = length m2"
    and c: "canonical m1" "canonical m2" and e: "encode_row cfg m1 = Inr cw1" "encode_row cfg m2 = Inr cw2"
    and ne: "m1 \<noteq> m2"
  shows "card {j. j < N_LIG cfg \<and> cw1 ! j = cw2 ! j} < K_DEG cfg"
proof (rule ccontr)
  let ?A = "{j. j < N_LIG cfg \<and> cw1 ! j = cw2 ! j}" and ?x = "\<lambda>j. of_int (eta cfg j) :: gl"
  assume "\<not> card ?A < K_DEG cfg"
  then have A: "K_DEG cfg \<le> card ?A" by simp
  have inj: "inj_on ?x ?A" using eta_inj [OF v] by (auto simp: inj_on_def)
  have ev: "peval (icoef cfg m1) (?x j) = peval (icoef cfg m2) (?x j)" if "j \<in> ?A" for j
    using that e encode_row_values [OF v len(1)] encode_row_values [OF v, of m2] len
    by (auto simp flip: eval_zeta_form_icoef [OF v])
  have "icoef cfg m1 = icoef cfg m2"
    using ev A by (intro peval_eq_on_points [where S = "?x ` ?A"]) (auto simp: icoef_def card_image [OF inj])
  moreover have "length m1 \<le> K_DEG cfg" using v len by (simp add: valid_config_def)
  ultimately have "(of_int (m1 ! i) :: gl) = of_int (m2 ! i)" if "i < length m1" for i
    using icoef_zeta [OF v, of m1 i] icoef_zeta [OF v, of m2 i] that len by simp
  then show False using ne canonical_eqI [OF c len(2)] by simp
qed

text \<open>
  Property C21 (\<open>encode_row_distance\<close>): two different canonical messages have codewords that agree in
  fewer than \<open>K_DEG\<close> of the \<open>N_LIG\<close> positions.
\<close>

theorem encode_row_distance:
  assumes v: "valid_config cfg" and len: "length m1 \<le> ELL cfg" "length m1 = length m2"
    and c: "canonical m1" "canonical m2" and e: "encode_row cfg m1 = Inr cw1" "encode_row cfg m2 = Inr cw2"
    and ne: "m1 \<noteq> m2"
  shows "card {j. j < N_LIG cfg \<and> cw1 ! j = cw2 ! j} < K_DEG cfg"
  using assms by (rule codeword_distance)

theorem encode_row_distance_witness:
  "\<exists>cw1 cw2. encode_row cfg_toy [1, 2] = Inr cw1 \<and> encode_row cfg_toy [1, 3] = Inr cw2 \<and>
    card {j. j < N_LIG cfg_toy \<and> cw1 ! j = cw2 ! j} < K_DEG cfg_toy"
proof -
  obtain cw1 cw2 where e: "encode_row cfg_toy [1, 2] = Inr cw1" "encode_row cfg_toy [1, 3] = Inr cw2"
    using encode_row_values [OF valid_cfg_toy] by (simp add: cfg_toy_def)
  have "card {j. j < N_LIG cfg_toy \<and> cw1 ! j = cw2 ! j} < K_DEG cfg_toy"
    by (rule encode_row_distance [OF valid_cfg_toy _ _ _ _ e]) (simp_all add: cfg_toy_def canonical_def FIELD_P_val)
  then show ?thesis using e by blast
qed

end
