(* ===== verification/Fs_Coins.thy ===== *)
theory Fs_Coins
  imports Merkle ReedSolomon
begin

text \<open>
  The verifier's coins of \<^verbatim>\<open>prover/protocol.py\<close>: the challenge function, the column samplers
  (also \<^verbatim>\<open>layergkr/rs.py\<close>), the length-prefixed Fiat-Shamir framing and the chain of round
  seeds. The hash is the parameter \<open>H\<close>.
\<close>

section \<open>Challenges\<close>

text \<open>A seed is raw bytes (padded or cut to 32) or a Python int.\<close>

datatype seed = SeedBytes bytes | SeedInt int

fun seed_bytes :: "seed \<Rightarrow> bytes result" where
  "seed_bytes (SeedBytes b) = Inr (take 32 (b @ replicate (32 - length b) 0))"
| "seed_bytes (SeedInt i) = to_bytes 32 i"

definition challenge_input :: "seed \<Rightarrow> nat \<Rightarrow> string \<Rightarrow> bytes result" where
  "challenge_input sd index label =
     rbind (seed_bytes sd) (\<lambda>s. rbind (to_bytes 8 (int index)) (\<lambda>i. Inr (s @ encode label @ i)))"

definition challenge :: "hashfn \<Rightarrow> seed \<Rightarrow> nat \<Rightarrow> string \<Rightarrow> int result" where
  "challenge H sd index label =
     rbind (challenge_input sd index label) (\<lambda>b. Inr (int (from_le (take 16 (H b))) mod FIELD_P))"

text \<open>\<open>core._combiner_vec\<close>: the same values with the seed and label prefix hoisted.\<close>

definition combiner_vec :: "hashfn \<Rightarrow> seed \<Rightarrow> string \<Rightarrow> nat \<Rightarrow> int list result" where
  "combiner_vec H sd label n =
     rbind (seed_bytes sd) (\<lambda>s. let prefix = s @ encode label in
       rmap (\<lambda>i. rbind (to_bytes 8 (int i)) (\<lambda>ib. Inr (int (from_le (take 16 (H (prefix @ ib)))) mod FIELD_P))) [0..<n])"

definition op_label :: "nat \<Rightarrow> string \<Rightarrow> string" where
  "op_label claim_index label = ''op'' @ dec_str claim_index @ '':'' @ label"

definition op_vec :: "hashfn \<Rightarrow> seed \<Rightarrow> nat \<Rightarrow> string \<Rightarrow> nat \<Rightarrow> int list result" where
  "op_vec H s_op claim_index label n =
     rmap (\<lambda>i. challenge H s_op i (op_label claim_index label)) [0..<n]"

section \<open>Column sampling\<close>

lemma challenge_index: "challenge H sd k label = Inr v \<Longrightarrow> k < 2 ^ 64 \<and> 0 \<le> v \<and> v < FIELD_P"
  by (auto simp: challenge_def challenge_input_def rbind_Inr_iff to_bytes_Inr)

text \<open>
  The rejection loop. The index \<open>k\<close> is written in eight bytes, so the loop ends in an
  \<open>OverflowError\<close> after \<open>2^64\<close> rounds at the latest.
\<close>

function draw_loop :: "hashfn \<Rightarrow> seed \<Rightarrow> string \<Rightarrow> nat \<Rightarrow> nat \<Rightarrow> nat list \<Rightarrow> nat list \<Rightarrow> nat \<Rightarrow> nat list result" where
  "draw_loop H sd label count range_max seen out k =
     (if length out < count then
        (case challenge H sd k label of
           Inl e \<Rightarrow> Inl e
         | Inr c \<Rightarrow>
             if range_max = 0 then Inl ZeroDivisionError
             else let j = nat c mod range_max in
               if j \<notin> set seen then draw_loop H sd label count range_max (j # seen) (out @ [j]) (k + 1)
               else draw_loop H sd label count range_max seen out (k + 1))
      else Inr out)"
  by pat_completeness auto
termination
  by (relation "measure (\<lambda>(H, sd, label, count, range_max, seen, out, k). 2 ^ 64 - k)")
    (auto dest!: challenge_index simp: diff_less_mono2)

declare draw_loop.simps [simp del]

definition random_columns_n :: "hashfn \<Rightarrow> seed \<Rightarrow> nat \<Rightarrow> nat \<Rightarrow> nat list result" where
  "random_columns_n H sd count range_max =
     rbind (draw_loop H sd ''col'' count range_max [] [] 0) (\<lambda>out. Inr (sort out))"

definition random_columns :: "hashfn \<Rightarrow> seed \<Rightarrow> config \<Rightarrow> nat list result" where
  "random_columns H sd cfg = random_columns_n H sd (T_QUERIES cfg) (N_LIG cfg)"

text \<open>\<open>layergkr.rs.sample_columns\<close>: the same loop with its own label, in drawing order.\<close>

definition sample_columns :: "hashfn \<Rightarrow> bytes \<Rightarrow> nat \<Rightarrow> nat \<Rightarrow> nat list result" where
  "sample_columns H sd count n_lig = draw_loop H (SeedBytes sd) ''cols'' count n_lig [] [] 0"

section \<open>Fiat-Shamir framing\<close>

datatype fs_item = ItemStr string | ItemBytes bytes

fun item_bytes :: "fs_item \<Rightarrow> bytes" where
  "item_bytes (ItemStr s) = encode s"
| "item_bytes (ItemBytes b) = b"

definition FS_DOMAIN :: bytes where
  "FS_DOMAIN = encode ''VerInf-FS-v1''"

definition fs_frame :: "fs_item \<Rightarrow> bytes result" where
  "fs_frame item = (let b = item_bytes item in rbind (to_bytes 8 (int (length b))) (\<lambda>l. Inr (l @ b)))"

text \<open>The bytes absorbed by one coin; \<open>blake3\<close>'s update is concatenation.\<close>

definition fs_input :: "string \<Rightarrow> fs_item list \<Rightarrow> bytes result" where
  "fs_input label items =
     rbind (fs_frame (ItemStr label)) (\<lambda>l. rbind (rmap fs_frame items) (\<lambda>fs. Inr (FS_DOMAIN @ l @ concat fs)))"

definition fs_seed :: "hashfn \<Rightarrow> string \<Rightarrow> fs_item list \<Rightarrow> bytes result" where
  "fs_seed H label items = rbind (fs_input label items) (\<lambda>b. Inr (H b))"

text \<open>A field vector is given as raw bytes or as ints.\<close>

datatype u64_arg = RawBytes bytes | Ints "int list"

fun u64_bytes :: "u64_arg \<Rightarrow> bytes result" where
  "u64_bytes (RawBytes b) = Inr b"
| "u64_bytes (Ints vs) = pack_column vs"

definition join_comma :: "string list \<Rightarrow> string" where
  "join_comma = join_str (CHR '','')"

definition statement_digest :: "hashfn \<Rightarrow> bytes \<Rightarrow> string list option \<Rightarrow> bytes result" where
  "statement_digest H claims_bytes block_order =
     fs_seed H ''statement'' [ItemBytes claims_bytes,
       ItemStr (join_comma (case block_order of None \<Rightarrow> [] | Some bo \<Rightarrow> bo))]"

definition fs_s_op :: "hashfn \<Rightarrow> bytes \<Rightarrow> string list \<Rightarrow> bytes list \<Rightarrow> bytes result" where
  "fs_s_op H stmt_digest block_order roots_r1 =
     fs_seed H ''s_op'' (ItemBytes stmt_digest # ItemStr (join_comma block_order) # map ItemBytes roots_r1)"

definition fs_s_bind :: "hashfn \<Rightarrow> bytes \<Rightarrow> bytes \<Rightarrow> bytes result" where
  "fs_s_bind H s_op root_p2 = fs_seed H ''s_bind'' [ItemBytes s_op, ItemBytes root_p2]"

definition fs_s_comb :: "hashfn \<Rightarrow> bytes \<Rightarrow> bytes \<Rightarrow> bytes result" where
  "fs_s_comb H s_bind root_p3 = fs_seed H ''s_comb'' [ItemBytes s_bind, ItemBytes root_p3]"

definition fs_s_col :: "hashfn \<Rightarrow> bytes \<Rightarrow> u64_arg \<Rightarrow> u64_arg \<Rightarrow> u64_arg \<Rightarrow> bytes result" where
  "fs_s_col H s_comb q_irs q_lin p_0 =
     rbind (u64_bytes q_irs) (\<lambda>a. rbind (u64_bytes q_lin) (\<lambda>b. rbind (u64_bytes p_0) (\<lambda>c.
       fs_seed H ''s_col'' [ItemBytes s_comb, ItemBytes a, ItemBytes b, ItemBytes c])))"

text \<open>\<open>round_seeds\<close>: one seed per round; \<open>bytes([r])\<close> raises on \<open>r > 255\<close>.\<close>

definition round_seeds :: "hashfn \<Rightarrow> seed \<Rightarrow> nat \<Rightarrow> bytes list result" where
  "round_seeds H base n =
     rbind (seed_bytes base) (\<lambda>b.
       rmap (\<lambda>r. if r > 255 then Inl ValueError else Inr (H (b @ encode ''ligero-round'' @ [word_of_nat r]))) [0..<n])"

section \<open>Properties of the challenges\<close>

lemma seed_bytes_length: "seed_bytes sd = Inr b \<Longrightarrow> length b = 32"
  by (cases sd) (auto dest: to_bytes_length)

lemma combiner_vec_eq: "combiner_vec H sd label n =
    rbind (seed_bytes sd) (\<lambda>_. rmap (\<lambda>i. challenge H sd i label) [0..<n])"
proof (cases "seed_bytes sd")
  case (Inr s)
  have "rbind (to_bytes 8 (int i)) (\<lambda>ib. Inr (int (from_le (take 16 (H ((s @ encode label) @ ib)))) mod FIELD_P))
      = challenge H sd i label" for i
    by (cases "to_bytes 8 (int i)") (simp_all add: challenge_def challenge_input_def Inr)
  then show ?thesis by (simp add: combiner_vec_def Inr)
qed (simp add: combiner_vec_def)

lemma challenge_input_inj:
  assumes "challenge_input s1 i l = Inr b" "challenge_input s2 j m = Inr b"
  shows "seed_bytes s1 = seed_bytes s2 \<and> i = j \<and> l = m"
proof -
  obtain x y where 1: "seed_bytes s1 = Inr x" "to_bytes 8 (int i) = Inr y" "b = x @ encode l @ y"
    using assms(1) by (auto simp: challenge_input_def rbind_Inr_iff)
  obtain u v where 2: "seed_bytes s2 = Inr u" "to_bytes 8 (int j) = Inr v" "b = u @ encode m @ v"
    using assms(2) by (auto simp: challenge_input_def rbind_Inr_iff)
  have "x = u" "encode l @ y = encode m @ v" using 1 2 seed_bytes_length by (metis append_eq_append_conv)+
  moreover have "encode l = encode m \<and> y = v"
    using calculation(2) to_bytes_length [OF 1(2)] to_bytes_length [OF 2(2)] by (metis append_eq_append_conv)
  ultimately show ?thesis using 1 2 to_bytes_inj [of 8 "int i" y "int j"] encode_inj by auto
qed

lemma digits_colon_inj: "a @ CHR '':'' # x = b @ CHR '':'' # y \<Longrightarrow> \<forall>c \<in> set a \<union> set b. is_digit c \<Longrightarrow> a = b \<and> x = y"
proof (rule sep_split_inj)
  assume d: "\<forall>c \<in> set a \<union> set b. is_digit c"
  have "\<not> is_digit (CHR '':'')" by (simp add: is_digit_def)
  then show "CHR '':'' \<notin> set a" "CHR '':'' \<notin> set b" using d by blast+
qed

lemma op_label_inj: "op_label c l = op_label d m \<longleftrightarrow> c = d \<and> l = m"
  using digits_colon_inj [of "dec_str c" l "dec_str d" m] dec_str_digits dec_str_inj
  by (auto simp: op_label_def)

text \<open>
  Fact (\<open>op_challenges_separated\<close>): two operation challenges (seed, claim, label, index)
  hash different inputs unless all four agree: no claim can share a challenge with another
  claim, label or position except by a collision of the hash.
\<close>

theorem op_challenges_separated:
  assumes "challenge_input s1 i (op_label c l) = Inr a" "challenge_input s2 j (op_label d m) = Inr b"
  shows "a = b \<longleftrightarrow> seed_bytes s1 = seed_bytes s2 \<and> i = j \<and> c = d \<and> l = m"
proof
  assume "a = b"
  then show "seed_bytes s1 = seed_bytes s2 \<and> i = j \<and> c = d \<and> l = m"
    using challenge_input_inj [OF assms(1), of s2 j] assms(2) op_label_inj by blast
next
  assume "seed_bytes s1 = seed_bytes s2 \<and> i = j \<and> c = d \<and> l = m"
  then show "a = b" using assms by (simp add: challenge_input_def)
qed

theorem op_challenges_separated_witness:
  "\<exists>a b. challenge_input (SeedInt 5) 3 (op_label 12 ''rho'') = Inr a \<and>
    challenge_input (SeedInt 5) 3 (op_label 1 ''2:rho'') = Inr b \<and> a \<noteq> b"
proof -
  obtain a b where "challenge_input (SeedInt 5) 3 (op_label 12 ''rho'') = Inr a"
    "challenge_input (SeedInt 5) 3 (op_label 1 ''2:rho'') = Inr b"
    by (simp add: challenge_input_def to_bytes_def)
  then show ?thesis using op_challenges_separated by fastforce
qed

section \<open>Properties of the column samplers\<close>

lemma draw_loop_result:
  "draw_loop H sd label count range_max seen out k = Inr cols \<Longrightarrow> set seen = set out \<Longrightarrow> distinct out \<Longrightarrow>
   \<forall>j \<in> set out. j < range_max \<Longrightarrow> length out \<le> count \<Longrightarrow>
   length cols = count \<and> distinct cols \<and> (\<forall>j \<in> set cols. j < range_max)"
proof (induction H sd label count range_max seen out k rule: draw_loop.induct)
  case (1 H sd label count range_max seen out k)
  show ?case
  proof (cases "length out < count")
    case True
    obtain c where c: "challenge H sd k label = Inr c" "range_max \<noteq> 0"
      using "1.prems"(1) True by (subst (asm) draw_loop.simps) (auto split: sum.splits if_splits)
    let ?j = "nat c mod range_max"
    have step: "draw_loop H sd label count range_max seen out k =
        (if ?j \<notin> set seen then draw_loop H sd label count range_max (?j # seen) (out @ [?j]) (k + 1)
         else draw_loop H sd label count range_max seen out (k + 1))"
      using True c by (subst draw_loop.simps) (simp add: Let_def)
    have j: "?j < range_max" using c(2) by simp
    show ?thesis
    proof (cases "?j \<in> set seen")
      case old: True
      then have "draw_loop H sd label count range_max seen out (k + 1) = Inr cols" using step "1.prems"(1) by simp
      with "1.prems"(2-5) old show ?thesis by (intro "1.IH"(2) [OF True c refl]) simp_all
    next
      case False
      then have "draw_loop H sd label count range_max (?j # seen) (out @ [?j]) (k + 1) = Inr cols"
        using step "1.prems"(1) by simp
      with "1.prems"(2-5) False True j show ?thesis by (intro "1.IH"(1) [OF True c refl]) simp_all
    qed
  next
    case False
    then have "draw_loop H sd label count range_max seen out k = Inr out" by (subst draw_loop.simps) simp
    then show ?thesis using "1.prems" False by simp
  qed
qed

text \<open>The draw is complete as soon as the first \<open>m\<close> challenges hit enough columns.\<close>

lemma draw_loop_total:
  assumes ch: "\<And>k. k < m \<Longrightarrow> \<exists>c. challenge H sd k label = Inr c \<and> nat c mod range_max = g k"
    and r: "0 < range_max" and enough: "count \<le> card (g ` {..<m})"
  shows "k \<le> m \<Longrightarrow> set seen = g ` {..<k} \<Longrightarrow> set out = set seen \<Longrightarrow> distinct out \<Longrightarrow>
    \<exists>cols. draw_loop H sd label count range_max seen out k = Inr cols"
proof (induction "m - k" arbitrary: k seen out)
  case 0
  then have "length out = card (g ` {..<m})" by (metis diff_is_0_eq distinct_card le_antisym)
  then show ?case using enough by (subst draw_loop.simps) simp
next
  case (Suc d)
  then have k: "k < m" by simp
  obtain c where c: "challenge H sd k label = Inr c" "nat c mod range_max = g k" using ch [OF k] by blast
  have "\<exists>cols. draw_loop H sd label count range_max (g k # seen) (out @ [g k]) (Suc k) = Inr cols" if "g k \<notin> set seen"
    using Suc.prems that Suc.hyps(2) k
    by (intro Suc.hyps(1)) (auto simp: lessThan_Suc)
  moreover have "\<exists>cols. draw_loop H sd label count range_max seen out (Suc k) = Inr cols" if "g k \<in> set seen"
    using Suc.prems that Suc.hyps(2) k
    by (intro Suc.hyps(1)) (auto simp: lessThan_Suc)
  ultimately show ?case using c r
    by (subst draw_loop.simps) (auto simp: Let_def)
qed

text \<open>
  Fact (\<open>random_columns_sound\<close>): whatever the seed and the hash, a drawn column set has
  exactly the requested number of columns, all different, sorted and in range; a request for
  more columns than there are never returns a set.
\<close>

theorem random_columns_sound:
  assumes "random_columns_n H sd count range_max = Inr cols"
  shows "length cols = count \<and> sorted cols \<and> distinct cols \<and> (\<forall>j \<in> set cols. j < range_max) \<and> count \<le> range_max"
proof -
  obtain out where o: "draw_loop H sd ''col'' count range_max [] [] 0 = Inr out" "cols = sort out"
    using assms by (auto simp: random_columns_n_def rbind_Inr_iff)
  then have d: "length out = count \<and> distinct out \<and> (\<forall>j \<in> set out. j < range_max)"
    using draw_loop_result [OF o(1)] by simp
  then have "set out \<subseteq> {..<range_max}" by auto
  then have "card (set out) \<le> range_max" using card_mono [of "{..<range_max}" "set out"] by simp
  then have "count \<le> range_max" using d distinct_card by metis
  then show ?thesis using o(2) d by simp
qed

lemma from_le_replicate_0: "from_le (replicate n 0) = 0"
  by (induction n) simp_all

lemma toy_challenge: "seed_bytes sd = Inr s \<Longrightarrow> k < 2 ^ 64 \<Longrightarrow>
    challenge toy_hash sd k label = Inr (int (from_le (take 16 s)) mod FIELD_P)"
  using seed_bytes_length [of sd s]
  by (simp add: challenge_def challenge_input_def toy_hash_def to_bytes_def)

theorem random_columns_sound_witness:
  "\<exists>cols. random_columns_n toy_hash (SeedInt 0) 1 4 = Inr cols \<and> length cols = 1 \<and> sorted cols \<and> distinct cols"
proof -
  have "draw_loop toy_hash (SeedInt 0) ''col'' 1 4 [] [] 0 = Inr [nat (int (from_le (take 16 (le_bytes 32 0))) mod FIELD_P) mod 4]"
    by (subst draw_loop.simps, subst toy_challenge [of _ "le_bytes 32 0"])
      (simp_all add: to_bytes_def Let_def draw_loop.simps)
  then obtain cols where "random_columns_n toy_hash (SeedInt 0) 1 4 = Inr cols"
    by (simp add: random_columns_n_def)
  then show ?thesis using random_columns_sound by blast
qed

text \<open>
  Property C24 (\<open>random_columns_total\<close>): the sampling returns a set whenever the first \<open>m\<close>
  challenges (\<open>m\<close> at most \<open>2^64\<close>) reach the requested number of different columns.
\<close>

theorem random_columns_total:
  assumes m: "m \<le> 2 ^ 64" and sd: "seed_bytes sd = Inr s" and r: "0 < range_max"
    and enough: "count \<le> card ((\<lambda>k. from_le (take 16 (H (s @ encode ''col'' @ le_bytes 8 k))) mod nat FIELD_P mod range_max) ` {..<m})"
  shows "\<exists>cols. random_columns_n H sd count range_max = Inr cols"
proof -
  let ?h = "\<lambda>k. from_le (take 16 (H (s @ encode ''col'' @ le_bytes 8 k)))"
  have "\<exists>c. challenge H sd k ''col'' = Inr c \<and> nat c mod range_max = ?h k mod nat FIELD_P mod range_max" if "k < m" for k
  proof -
    have "int k < 256 ^ 8" using that m by simp
    then show ?thesis
      by (simp add: challenge_def challenge_input_def sd to_bytes_def nat_mod_distrib FIELD_P_val)
  qed
  from draw_loop_total [where g = "\<lambda>k. ?h k mod nat FIELD_P mod range_max", OF this r enough, of 0 "[]" "[]"]
  obtain out where "draw_loop H sd ''col'' count range_max [] [] 0 = Inr out" by auto
  then show ?thesis by (simp add: random_columns_n_def)
qed

theorem random_columns_total_witness: "\<exists>cols. random_columns_n toy_hash (SeedInt 0) 1 4 = Inr cols"
proof (rule random_columns_total)
  show "(1::nat) \<le> 2 ^ 64" by simp
  show "seed_bytes (SeedInt 0) = Inr (le_bytes 32 0)" by (simp add: to_bytes_def)
  show "1 \<le> card ((\<lambda>k. from_le (take 16 (toy_hash (le_bytes 32 0 @ encode ''col'' @ le_bytes 8 k))) mod nat FIELD_P mod 4) ` {..<1})"
    by (simp add: lessThan_Suc)
qed simp

section \<open>The chain of round seeds\<close>

lemma fs_frame_prefix:
  assumes "fs_frame i = Inr a" "fs_frame j = Inr b" "a @ x = b @ y"
  shows "item_bytes i = item_bytes j \<and> x = y"
proof -
  obtain l where l: "to_bytes 8 (int (length (item_bytes i))) = Inr l" "a = l @ item_bytes i"
    using assms(1) by (auto simp: fs_frame_def Let_def rbind_Inr_iff)
  obtain m where m: "to_bytes 8 (int (length (item_bytes j))) = Inr m" "b = m @ item_bytes j"
    using assms(2) by (auto simp: fs_frame_def Let_def rbind_Inr_iff)
  have "l = m \<and> item_bytes i @ x = item_bytes j @ y"
    using assms(3) l m to_bytes_length [OF l(1)] to_bytes_length [OF m(1)] by simp
  moreover from this have "length (item_bytes i) = length (item_bytes j)" using l m to_bytes_inj by fastforce
  ultimately show ?thesis by simp
qed

lemma fs_frame_nonempty: "fs_frame i = Inr a \<Longrightarrow> a \<noteq> []"
  by (auto simp: fs_frame_def Let_def rbind_Inr_iff dest: to_bytes_length)

lemma fs_frames_inj:
  "rmap fs_frame is = Inr as \<Longrightarrow> rmap fs_frame js = Inr bs \<Longrightarrow> concat as = concat bs \<Longrightarrow>
   map item_bytes is = map item_bytes js"
proof (induction "is" arbitrary: as js bs)
  case Nil
  then show ?case by (cases js) (auto simp: rbind_Inr_iff dest: fs_frame_nonempty)
next
  case (Cons i "is")
  then obtain a as' where a: "fs_frame i = Inr a" "rmap fs_frame is = Inr as'" "as = a # as'"
    by (auto simp: rbind_Inr_iff)
  then have "js \<noteq> []" using Cons.prems fs_frame_nonempty by auto
  then obtain j js' b bs' where b: "js = j # js'" "fs_frame j = Inr b" "rmap fs_frame js' = Inr bs'" "bs = b # bs'"
    using Cons.prems(2) by (cases js) (auto simp: rbind_Inr_iff)
  have "item_bytes i = item_bytes j \<and> concat as' = concat bs'"
    using fs_frame_prefix [OF a(1) b(2)] Cons.prems(3) a b by simp
  moreover from this have "map item_bytes is = map item_bytes js'" using Cons.IH [OF a(2) b(3)] by blast
  ultimately show ?case using b(1) by simp
qed

lemma fs_input_parts:
  assumes "fs_input l is = Inr b"
  shows "\<exists>x xs. fs_frame (ItemStr l) = Inr x \<and> rmap fs_frame is = Inr xs \<and> b = FS_DOMAIN @ concat (x # xs)"
proof -
  obtain x xs where "fs_frame (ItemStr l) = Inr x" "rmap fs_frame is = Inr xs" "FS_DOMAIN @ x @ concat xs = b"
    using assms unfolding fs_input_def rbind_Inr_iff by blast
  then show ?thesis by auto
qed

lemma fs_input_inj:
  assumes "fs_input l is = Inr b" "fs_input m js = Inr b"
  shows "l = m \<and> map item_bytes is = map item_bytes js"
proof -
  obtain x xs where x: "fs_frame (ItemStr l) = Inr x" "rmap fs_frame is = Inr xs" "b = FS_DOMAIN @ concat (x # xs)"
    using assms(1) fs_input_parts by blast
  obtain y ys where y: "fs_frame (ItemStr m) = Inr y" "rmap fs_frame js = Inr ys" "b = FS_DOMAIN @ concat (y # ys)"
    using assms(2) fs_input_parts by blast
  have "rmap fs_frame (ItemStr l # is) = Inr (x # xs)" "rmap fs_frame (ItemStr m # js) = Inr (y # ys)"
    using x y by simp_all
  moreover have "concat (x # xs) = concat (y # ys)" using x(3) y(3) by simp
  ultimately have "map item_bytes (ItemStr l # is) = map item_bytes (ItemStr m # js)" by (rule fs_frames_inj)
  then show ?thesis using encode_inj by simp
qed

text \<open>Equal seeds: equal labels and items, or two colliding inputs.\<close>

lemma fs_seed_binding:
  assumes "fs_seed H l is = Inr d" "fs_seed H m js = Inr d"
  shows "\<exists>x y. fs_input l is = Inr x \<and> fs_input m js = Inr y \<and>
    (l = m \<and> map item_bytes is = map item_bytes js \<or> coll H [x] [y])"
proof -
  obtain x y where "fs_input l is = Inr x" "fs_input m js = Inr y" "H x = d" "H y = d"
    using assms by (auto simp: fs_seed_def rbind_Inr_iff)
  then show ?thesis using fs_input_inj [of l "is" x m js] by (auto simp: coll_iff)
qed

text \<open>
  One run of the five-message protocol: the public statement and every prover message, and the
  seeds derived from them in order.
\<close>

record fs_run =
  run_claims :: bytes
  run_order :: "string list"
  run_roots :: "bytes list"
  run_root_p2 :: bytes
  run_root_p3 :: bytes
  run_q_irs :: u64_arg
  run_q_lin :: u64_arg
  run_p_0 :: u64_arg

definition fs_chain :: "hashfn \<Rightarrow> fs_run \<Rightarrow> (bytes \<times> bytes \<times> bytes \<times> bytes \<times> bytes) result" where
  "fs_chain H r =
     rbind (statement_digest H (run_claims r) (Some (run_order r))) (\<lambda>sd.
     rbind (fs_s_op H sd (run_order r) (run_roots r)) (\<lambda>s_op.
     rbind (fs_s_bind H s_op (run_root_p2 r)) (\<lambda>s_bind.
     rbind (fs_s_comb H s_bind (run_root_p3 r)) (\<lambda>s_comb.
     rbind (fs_s_col H s_comb (run_q_irs r) (run_q_lin r) (run_p_0 r)) (\<lambda>s_col.
       Inr (sd, s_op, s_bind, s_comb, s_col))))))"

text \<open>The five inputs hashed along a run.\<close>

definition fs_chain_inputs :: "hashfn \<Rightarrow> fs_run \<Rightarrow> bytes list result" where
  "fs_chain_inputs H r =
     rbind (fs_chain H r) (\<lambda>(sd, s_op, s_bind, s_comb, s_col).
     rbind (u64_bytes (run_q_irs r)) (\<lambda>a. rbind (u64_bytes (run_q_lin r)) (\<lambda>b. rbind (u64_bytes (run_p_0 r)) (\<lambda>c.
       rmap (\<lambda>(l, its). fs_input l its)
         [(''statement'', [ItemBytes (run_claims r), ItemStr (join_comma (run_order r))]),
          (''s_op'', ItemBytes sd # ItemStr (join_comma (run_order r)) # map ItemBytes (run_roots r)),
          (''s_bind'', [ItemBytes s_op, ItemBytes (run_root_p2 r)]),
          (''s_comb'', [ItemBytes s_bind, ItemBytes (run_root_p3 r)]),
          (''s_col'', [ItemBytes s_comb, ItemBytes a, ItemBytes b, ItemBytes c])]))))"

definition same_messages :: "fs_run \<Rightarrow> fs_run \<Rightarrow> bool" where
  "same_messages r q \<longleftrightarrow> run_claims r = run_claims q \<and> join_comma (run_order r) = join_comma (run_order q) \<and>
     run_roots r = run_roots q \<and> run_root_p2 r = run_root_p2 q \<and> run_root_p3 r = run_root_p3 q \<and>
     u64_bytes (run_q_irs r) = u64_bytes (run_q_irs q) \<and> u64_bytes (run_q_lin r) = u64_bytes (run_q_lin q) \<and>
     u64_bytes (run_p_0 r) = u64_bytes (run_p_0 q)"

lemma map_ItemBytes_inj: "map (item_bytes \<circ> ItemBytes) xs = map (item_bytes \<circ> ItemBytes) ys \<longleftrightarrow> xs = ys"
  by (simp add: comp_def)

lemma fs_chain_parts:
  assumes "fs_chain H r = Inr (sd, s_op, s_bind, s_comb, s_col)"
  obtains a b c where "u64_bytes (run_q_irs r) = Inr a" "u64_bytes (run_q_lin r) = Inr b" "u64_bytes (run_p_0 r) = Inr c"
    "fs_seed H ''statement'' [ItemBytes (run_claims r), ItemStr (join_comma (run_order r))] = Inr sd"
    "fs_seed H ''s_op'' (ItemBytes sd # ItemStr (join_comma (run_order r)) # map ItemBytes (run_roots r)) = Inr s_op"
    "fs_seed H ''s_bind'' [ItemBytes s_op, ItemBytes (run_root_p2 r)] = Inr s_bind"
    "fs_seed H ''s_comb'' [ItemBytes s_bind, ItemBytes (run_root_p3 r)] = Inr s_comb"
    "fs_seed H ''s_col'' [ItemBytes s_comb, ItemBytes a, ItemBytes b, ItemBytes c] = Inr s_col"
  using assms unfolding fs_chain_def statement_digest_def fs_s_op_def fs_s_bind_def fs_s_comb_def fs_s_col_def
    rbind_Inr_iff option.case by blast

lemma fs_seed_input: "fs_seed H l its = Inr d \<Longrightarrow> \<exists>x. fs_input l its = Inr x \<and> H x = d"
  by (auto simp: fs_seed_def rbind_Inr_iff)

lemma fs_chain_run:
  assumes r: "fs_chain H r = Inr (sd, s_op, s_bind, s_comb, s_col)"
  obtains a b c x1 x2 x3 x4 x5 where
    "u64_bytes (run_q_irs r) = Inr a" "u64_bytes (run_q_lin r) = Inr b" "u64_bytes (run_p_0 r) = Inr c"
    "fs_chain_inputs H r = Inr [x1, x2, x3, x4, x5]"
    "fs_input ''statement'' [ItemBytes (run_claims r), ItemStr (join_comma (run_order r))] = Inr x1" "H x1 = sd"
    "fs_input ''s_op'' (ItemBytes sd # ItemStr (join_comma (run_order r)) # map ItemBytes (run_roots r)) = Inr x2" "H x2 = s_op"
    "fs_input ''s_bind'' [ItemBytes s_op, ItemBytes (run_root_p2 r)] = Inr x3" "H x3 = s_bind"
    "fs_input ''s_comb'' [ItemBytes s_bind, ItemBytes (run_root_p3 r)] = Inr x4" "H x4 = s_comb"
    "fs_input ''s_col'' [ItemBytes s_comb, ItemBytes a, ItemBytes b, ItemBytes c] = Inr x5" "H x5 = s_col"
proof -
  obtain a b c where p: "u64_bytes (run_q_irs r) = Inr a" "u64_bytes (run_q_lin r) = Inr b" "u64_bytes (run_p_0 r) = Inr c"
    "fs_seed H ''statement'' [ItemBytes (run_claims r), ItemStr (join_comma (run_order r))] = Inr sd"
    "fs_seed H ''s_op'' (ItemBytes sd # ItemStr (join_comma (run_order r)) # map ItemBytes (run_roots r)) = Inr s_op"
    "fs_seed H ''s_bind'' [ItemBytes s_op, ItemBytes (run_root_p2 r)] = Inr s_bind"
    "fs_seed H ''s_comb'' [ItemBytes s_bind, ItemBytes (run_root_p3 r)] = Inr s_comb"
    "fs_seed H ''s_col'' [ItemBytes s_comb, ItemBytes a, ItemBytes b, ItemBytes c] = Inr s_col"
    using r by (rule fs_chain_parts)
  note inp = p(4-8) [THEN fs_seed_input]
  obtain x1 where x1: "fs_input ''statement'' [ItemBytes (run_claims r), ItemStr (join_comma (run_order r))] = Inr x1" "H x1 = sd"
    using inp(1) by blast
  obtain x2 where x2: "fs_input ''s_op'' (ItemBytes sd # ItemStr (join_comma (run_order r)) # map ItemBytes (run_roots r)) = Inr x2" "H x2 = s_op"
    using inp(2) by blast
  obtain x3 where x3: "fs_input ''s_bind'' [ItemBytes s_op, ItemBytes (run_root_p2 r)] = Inr x3" "H x3 = s_bind"
    using inp(3) by blast
  obtain x4 where x4: "fs_input ''s_comb'' [ItemBytes s_bind, ItemBytes (run_root_p3 r)] = Inr x4" "H x4 = s_comb"
    using inp(4) by blast
  obtain x5 where x5: "fs_input ''s_col'' [ItemBytes s_comb, ItemBytes a, ItemBytes b, ItemBytes c] = Inr x5" "H x5 = s_col"
    using inp(5) by blast
  have "fs_chain_inputs H r = Inr [x1, x2, x3, x4, x5]"
    by (simp only: fs_chain_inputs_def r p(1-3) rbind_simps prod.case rmap.simps x1 x2 x3 x4 x5)
  then show thesis by (rule that [OF p(1-3) _ x1 x2 x3 x4 x5])
qed

lemma fs_inputs_agree:
  assumes nc: "\<not> coll H xs ys" and x: "fs_input l is = Inr x" "H x = d" and y: "fs_input l js = Inr y" "H y = d"
    and mem: "x \<in> set xs" "y \<in> set ys"
  shows "map item_bytes is = map item_bytes js"
proof -
  have "H x = H y" using x(2) y(2) by simp
  then have "x = y" using nc mem unfolding coll_iff by blast
  then show ?thesis using fs_input_inj [OF x(1)] y(1) by simp
qed

text \<open>
  Fact (\<open>fs_chain_binding\<close>): two runs that end in the same column seed sent the same claims,
  the same block order text, the same roots in every round and the same test polynomials,
  unless two of the inputs hashed along the runs collide. Every coin therefore depends on every
  message that precedes it.
\<close>

theorem fs_chain_binding:
  assumes r: "fs_chain H r = Inr (sd, s_op, s_bind, s_comb, s_col)"
    and q: "fs_chain H q = Inr (sd', s_op', s_bind', s_comb', s_col)"
  shows "\<exists>xs ys. fs_chain_inputs H r = Inr xs \<and> fs_chain_inputs H q = Inr ys \<and> (same_messages r q \<or> coll H xs ys)"
  using r
proof (rule fs_chain_run)
  fix a b c x1 x2 x3 x4 x5
  assume p: "u64_bytes (run_q_irs r) = Inr a" "u64_bytes (run_q_lin r) = Inr b" "u64_bytes (run_p_0 r) = Inr c"
    and xs: "fs_chain_inputs H r = Inr [x1, x2, x3, x4, x5]"
    and i1: "fs_input ''statement'' [ItemBytes (run_claims r), ItemStr (join_comma (run_order r))] = Inr x1" "H x1 = sd"
    and i2: "fs_input ''s_op'' (ItemBytes sd # ItemStr (join_comma (run_order r)) # map ItemBytes (run_roots r)) = Inr x2" "H x2 = s_op"
    and i3: "fs_input ''s_bind'' [ItemBytes s_op, ItemBytes (run_root_p2 r)] = Inr x3" "H x3 = s_bind"
    and i4: "fs_input ''s_comb'' [ItemBytes s_bind, ItemBytes (run_root_p3 r)] = Inr x4" "H x4 = s_comb"
    and i5: "fs_input ''s_col'' [ItemBytes s_comb, ItemBytes a, ItemBytes b, ItemBytes c] = Inr x5" "H x5 = s_col"
  from q show ?thesis
  proof (rule fs_chain_run)
    fix a' b' c' y1 y2 y3 y4 y5
    assume p': "u64_bytes (run_q_irs q) = Inr a'" "u64_bytes (run_q_lin q) = Inr b'" "u64_bytes (run_p_0 q) = Inr c'"
      and ys: "fs_chain_inputs H q = Inr [y1, y2, y3, y4, y5]"
      and j1: "fs_input ''statement'' [ItemBytes (run_claims q), ItemStr (join_comma (run_order q))] = Inr y1" "H y1 = sd'"
      and j2: "fs_input ''s_op'' (ItemBytes sd' # ItemStr (join_comma (run_order q)) # map ItemBytes (run_roots q)) = Inr y2" "H y2 = s_op'"
      and j3: "fs_input ''s_bind'' [ItemBytes s_op', ItemBytes (run_root_p2 q)] = Inr y3" "H y3 = s_bind'"
      and j4: "fs_input ''s_comb'' [ItemBytes s_bind', ItemBytes (run_root_p3 q)] = Inr y4" "H y4 = s_comb'"
      and j5: "fs_input ''s_col'' [ItemBytes s_comb', ItemBytes a', ItemBytes b', ItemBytes c'] = Inr y5" "H y5 = s_col"
    have "same_messages r q" if nc: "\<not> coll H [x1, x2, x3, x4, x5] [y1, y2, y3, y4, y5]"
    proof -
      note step = fs_inputs_agree [OF nc]
      from step [OF i5 j5] have 5: "s_comb = s_comb'" "a = a'" "b = b'" "c = c'" by simp_all
      from step [OF i4 j4 [folded 5(1)]] have 4: "s_bind = s_bind'" "run_root_p3 r = run_root_p3 q" by simp_all
      from step [OF i3 j3 [folded 4(1)]] have 3: "s_op = s_op'" "run_root_p2 r = run_root_p2 q" by simp_all
      from step [OF i2 j2 [folded 3(1)]] have 2: "sd = sd'" "run_roots r = run_roots q"
        by (simp_all add: map_ItemBytes_inj)
      from step [OF i1 j1 [folded 2(1)]] have "run_claims r = run_claims q" "join_comma (run_order r) = join_comma (run_order q)"
        using encode_inj by simp_all
      then show ?thesis using 2 3 4 5 p p' by (simp add: same_messages_def)
    qed
    then show ?thesis using xs ys by blast
  qed
qed

lemma short_text: "length (encode s) \<le> 2 * length s"
  by (induction s) (auto simp: encode_Cons utf8_char_def Let_def)

lemma fs_frame_total: "length (item_bytes i) < 2 ^ 64 \<Longrightarrow> \<exists>b. fs_frame i = Inr b"
  by (simp add: fs_frame_def Let_def to_bytes_def nat_less_numeral_power_cancel_iff)

lemma fs_seed_total:
  assumes h: "hash32 H" and l: "length (encode label) < 2 ^ 64" and its: "\<forall>i \<in> set items. length (item_bytes i) < 2 ^ 64"
  shows "\<exists>d. fs_seed H label items = Inr d \<and> length d = 32"
proof -
  obtain x where x: "fs_frame (ItemStr label) = Inr x" using fs_frame_total [of "ItemStr label"] l by auto
  have "\<exists>fs. rmap fs_frame items = Inr fs" using its
    by (induction items) (use fs_frame_total in force)+
  then obtain fs where "rmap fs_frame items = Inr fs" by blast
  then show ?thesis using x h by (simp add: fs_seed_def fs_input_def hash32_def)
qed

lemma encode_short: "length s < 9223372036854775808 \<Longrightarrow> length (encode s) < 18446744073709551616"
  using short_text [of s] by simp

definition run_toy :: fs_run where
  "run_toy = \<lparr>run_claims = [1], run_order = [''w''], run_roots = [[2]], run_root_p2 = [3], run_root_p3 = [4],
     run_q_irs = RawBytes [], run_q_lin = RawBytes [], run_p_0 = RawBytes []\<rparr>"

theorem fs_chain_binding_witness:
  "\<exists>v xs. fs_chain toy_hash run_toy = Inr v \<and> fs_chain_inputs toy_hash run_toy = Inr xs \<and>
    (same_messages run_toy run_toy \<or> coll toy_hash xs xs)"
proof -
  note t = fs_seed_total [OF hash32_toy]
  obtain sd where 1: "fs_seed toy_hash ''statement'' [ItemBytes [1], ItemStr (join_comma [''w''])] = Inr sd" "length sd = 32"
    using t [of "''statement''" "[ItemBytes [1], ItemStr (join_comma [''w''])]"] by (auto simp: join_comma_def encode_short)
  obtain s_op where 2: "fs_seed toy_hash ''s_op'' (ItemBytes sd # ItemStr (join_comma [''w'']) # map ItemBytes [[2]]) = Inr s_op" "length s_op = 32"
    using t [of "''s_op''" "ItemBytes sd # ItemStr (join_comma [''w'']) # map ItemBytes [[2]]"] 1 by (auto simp: join_comma_def encode_short)
  obtain s_bind where 3: "fs_seed toy_hash ''s_bind'' [ItemBytes s_op, ItemBytes [3]] = Inr s_bind" "length s_bind = 32"
    using t [of "''s_bind''" "[ItemBytes s_op, ItemBytes [3]]"] 2 by (auto simp: encode_short)
  obtain s_comb where 4: "fs_seed toy_hash ''s_comb'' [ItemBytes s_bind, ItemBytes [4]] = Inr s_comb" "length s_comb = 32"
    using t [of "''s_comb''" "[ItemBytes s_bind, ItemBytes [4]]"] 3 by (auto simp: encode_short)
  obtain s_col where 5: "fs_seed toy_hash ''s_col'' [ItemBytes s_comb, ItemBytes [], ItemBytes [], ItemBytes []] = Inr s_col"
    using t [of "''s_col''" "[ItemBytes s_comb, ItemBytes [], ItemBytes [], ItemBytes []]"] 4 by (auto simp: encode_short)
  have "fs_chain toy_hash run_toy = Inr (sd, s_op, s_bind, s_comb, s_col)"
    using 1 2 3 4 5 by (simp add: fs_chain_def run_toy_def statement_digest_def fs_s_op_def fs_s_bind_def fs_s_comb_def fs_s_col_def)
  then show ?thesis using fs_chain_binding [of toy_hash run_toy _ _ _ _ _ run_toy] by fastforce
qed

end
