(* ===== verification/Transcript_FS.thy ===== *)
theory Transcript_FS
  imports Fs_Coins
begin

text \<open>
  The transcript of \<^verbatim>\<open>layergkr/transcript.py\<close>: the declared schedule that every step is checked
  against, the append-only log, the coins drawn from everything absorbed so far, and the
  verifier's replay. The running hash state is the byte string hashed so far; timing stages are
  not modelled.
\<close>

section \<open>Schedules\<close>

type_synonym sched_step = "string \<times> string"

record schedule =
  steps :: "sched_step list"
  pos :: nat

definition new_schedule :: "sched_step list \<Rightarrow> schedule" where
  "new_schedule st = \<lparr>steps = st, pos = 0\<rparr>"

definition sched_check :: "schedule \<Rightarrow> string \<Rightarrow> string \<Rightarrow> schedule result" where
  "sched_check s kind label =
     (if pos s \<ge> length (steps s) then Inl CausalityError
      else if (kind, label) \<noteq> steps s ! pos s then Inl CausalityError
      else Inr (s\<lparr>pos := pos s + 1\<rparr>))"

definition finished :: "schedule \<Rightarrow> bool" where
  "finished s \<longleftrightarrow> pos s = length (steps s)"

definition LAYER_SCHEDULE :: "sched_step list" where
  "LAYER_SCHEDULE =
     [(''absorb'', ''R_out''), (''absorb'', ''R_lk''), (''absorb'', ''R_sort''), (''absorb'', ''R_mask''),
      (''coin'', ''beta''), (''absorb'', ''R_cmp''), (''coin'', ''alpha''), (''coin'', ''rho''),
      (''absorb'', ''R_P''), (''coin'', ''contraction''), (''absorb'', ''R_terminal''), (''coin'', ''columns'')]"

section \<open>The transcript\<close>

datatype log_entry = LAbsorb string bytes | LCoin string nat

record transcript =
  hashed :: bytes
  tschedule :: "schedule option"
  tlog :: "log_entry list"

definition new_transcript :: "bytes \<Rightarrow> schedule option \<Rightarrow> transcript" where
  "new_transcript domain sch = \<lparr>hashed = domain, tschedule = sch, tlog = []\<rparr>"

definition t_check :: "transcript \<Rightarrow> string \<Rightarrow> string \<Rightarrow> transcript result" where
  "t_check t kind label =
     (case tschedule t of
        None \<Rightarrow> Inr t
      | Some s \<Rightarrow> rbind (sched_check s kind label) (\<lambda>s'. Inr (t\<lparr>tschedule := Some s'\<rparr>)))"

definition absorb :: "transcript \<Rightarrow> string \<Rightarrow> bytes \<Rightarrow> transcript result" where
  "absorb t label data =
     rbind (t_check t ''absorb'' label) (\<lambda>t1.
     rbind (to_bytes 2 (int (length label))) (\<lambda>l2.
     rbind (to_bytes 8 (int (length data))) (\<lambda>l8.
       Inr (t1\<lparr>hashed := hashed t1 @ l2 @ encode label @ l8 @ data, tlog := tlog t1 @ [LAbsorb label data]\<rparr>))))"

definition absorb_ints :: "transcript \<Rightarrow> string \<Rightarrow> int list \<Rightarrow> transcript result" where
  "absorb_ints t label vs = rbind (pack_column vs) (\<lambda>data. absorb t label data)"

text \<open>The bytes \<open>b"\x00coin"\<close>.\<close>

definition coin_mark :: bytes where
  "coin_mark = 0 # encode ''coin''"

definition coin_value :: "hashfn \<Rightarrow> bytes \<Rightarrow> string \<Rightarrow> nat \<Rightarrow> int result" where
  "coin_value H state label i =
     rbind (to_bytes 8 (int i)) (\<lambda>ib.
       Inr (int (from_le (take 16 (H (state @ encode label @ ib)))) mod FIELD_P))"

definition coin :: "hashfn \<Rightarrow> transcript \<Rightarrow> string \<Rightarrow> nat \<Rightarrow> (int list \<times> transcript) result" where
  "coin H t label count =
     rbind (t_check t ''coin'' label) (\<lambda>t1.
     rbind (to_bytes 2 (int (length label))) (\<lambda>l2.
     rbind (rmap (coin_value H (H (hashed t1)) label) [0..<count]) (\<lambda>out.
       Inr (out, t1\<lparr>hashed := hashed t1 @ coin_mark @ l2 @ encode label, tlog := tlog t1 @ [LCoin label count]\<rparr>))))"

definition coin_bytes :: "hashfn \<Rightarrow> transcript \<Rightarrow> string \<Rightarrow> (bytes \<times> transcript) result" where
  "coin_bytes H t label =
     rbind (t_check t ''coin'' label) (\<lambda>t1.
     rbind (to_bytes 2 (int (length label))) (\<lambda>l2.
       Inr (H (H (hashed t1) @ encode label @ encode ''cols''),
            t1\<lparr>hashed := hashed t1 @ coin_mark @ l2 @ encode label, tlog := tlog t1 @ [LCoin label 0]\<rparr>)))"

definition t_digest :: "hashfn \<Rightarrow> transcript \<Rightarrow> bytes" where
  "t_digest H t = H (hashed t)"

section \<open>Replay\<close>

fun replay_entries :: "hashfn \<Rightarrow> log_entry list \<Rightarrow> transcript \<Rightarrow> transcript result" where
  "replay_entries H [] t = Inr t"
| "replay_entries H (LAbsorb label data # es) t = rbind (absorb t label data) (replay_entries H es)"
| "replay_entries H (LCoin label count # es) t =
     (if count = 0 then rbind (coin_bytes H t label) (\<lambda>(_, t'). replay_entries H es t')
      else rbind (coin H t label count) (\<lambda>(_, t'). replay_entries H es t'))"

definition replay :: "hashfn \<Rightarrow> log_entry list \<Rightarrow> bytes \<Rightarrow> schedule option \<Rightarrow> transcript result" where
  "replay H es domain sch = replay_entries H es (new_transcript domain sch)"

section \<open>Runs\<close>

text \<open>The public steps of a transcript, as a relation between its states.\<close>

inductive t_step :: "hashfn \<Rightarrow> transcript \<Rightarrow> transcript \<Rightarrow> bool" for H where
  step_absorb: "absorb t label data = Inr t' \<Longrightarrow> t_step H t t'"
| step_coin: "coin H t label count = Inr (out, t') \<Longrightarrow> t_step H t t'"
| step_coin_bytes: "coin_bytes H t label = Inr (out, t') \<Longrightarrow> t_step H t t'"

inductive t_reach :: "hashfn \<Rightarrow> transcript \<Rightarrow> transcript \<Rightarrow> bool" for H t0 where
  reach_init: "t_reach H t0 t0"
| reach_step: "t_reach H t0 t \<Longrightarrow> t_step H t t' \<Longrightarrow> t_reach H t0 t'"

fun entry_kind :: "log_entry \<Rightarrow> sched_step" where
  "entry_kind (LAbsorb label data) = (''absorb'', label)"
| "entry_kind (LCoin label count) = (''coin'', label)"

lemma t_check_fields: "t_check t k l = Inr t1 \<Longrightarrow> hashed t1 = hashed t \<and> tlog t1 = tlog t"
  by (auto simp: t_check_def rbind_Inr_iff split: option.splits)

lemma t_check_schedule:
  "t_check t k l = Inr t1 \<Longrightarrow> tschedule t = Some s \<Longrightarrow>
   pos s < length (steps s) \<and> steps s ! pos s = (k, l) \<and> tschedule t1 = Some (s\<lparr>pos := pos s + 1\<rparr>)"
  by (auto simp: t_check_def sched_check_def rbind_Inr_iff split: if_splits)

lemma t_check_none: "t_check t k l = Inr t1 \<Longrightarrow> tschedule t = None \<Longrightarrow> t1 = t"
  by (simp add: t_check_def)

text \<open>A step appends one log entry and passes one schedule check.\<close>

lemma t_step_entry:
  assumes "t_step H t t'"
  obtains e where "tlog t' = tlog t @ [e]"
    "\<exists>t1. t_check t (fst (entry_kind e)) (snd (entry_kind e)) = Inr t1 \<and> tschedule t' = tschedule t1"
  using assms
proof (cases rule: t_step.cases)
  case (step_absorb label data)
  then obtain t1 where "t_check t ''absorb'' label = Inr t1" "tlog t' = tlog t @ [LAbsorb label data]" "tschedule t' = tschedule t1"
    using t_check_fields by (auto simp: absorb_def rbind_Inr_iff)
  then show thesis using that [of "LAbsorb label data"] by auto
next
  case (step_coin label count out)
  then obtain t1 where "t_check t ''coin'' label = Inr t1" "tlog t' = tlog t @ [LCoin label count]" "tschedule t' = tschedule t1"
    using t_check_fields by (auto simp: coin_def rbind_Inr_iff)
  then show thesis using that [of "LCoin label count"] by auto
next
  case (step_coin_bytes label out)
  then obtain t1 where "t_check t ''coin'' label = Inr t1" "tlog t' = tlog t @ [LCoin label 0]" "tschedule t' = tschedule t1"
    using t_check_fields by (auto simp: coin_bytes_def rbind_Inr_iff)
  then show thesis using that [of "LCoin label 0"] by auto
qed

definition sched_inv :: "sched_step list \<Rightarrow> transcript \<Rightarrow> bool" where
  "sched_inv st t \<longleftrightarrow> (\<exists>s. tschedule t = Some s \<and> steps s = st \<and> pos s = length (tlog t) \<and>
     pos s \<le> length st \<and> map entry_kind (tlog t) = take (pos s) st)"

lemma sched_inv_step: "sched_inv st t \<Longrightarrow> t_step H t t' \<Longrightarrow> sched_inv st t'"
proof (erule t_step_entry)
  fix e
  assume inv: "sched_inv st t" and e: "tlog t' = tlog t @ [e]"
    "\<exists>t1. t_check t (fst (entry_kind e)) (snd (entry_kind e)) = Inr t1 \<and> tschedule t' = tschedule t1"
  obtain s where s: "tschedule t = Some s" "steps s = st" "pos s = length (tlog t)"
    "map entry_kind (tlog t) = take (pos s) st"
    using inv by (auto simp: sched_inv_def)
  have "pos s < length st" "st ! pos s = entry_kind e" "tschedule t' = Some (s\<lparr>pos := pos s + 1\<rparr>)"
    using e(2) t_check_schedule [OF _ s(1)] s(2) by auto
  then show "sched_inv st t'" using e(1) s by (auto simp: sched_inv_def take_Suc_conv_app_nth)
qed

lemma sched_inv_reach: "t_reach H (new_transcript d (Some (new_schedule st))) t \<Longrightarrow> sched_inv st t"
proof (induction rule: t_reach.induct)
  case reach_init
  then show ?case by (simp add: sched_inv_def new_transcript_def new_schedule_def)
next
  case (reach_step t t')
  then show ?case using sched_inv_step by blast
qed

text \<open>
  Property C6 (\<open>schedule_enforced\<close>): in every state a scheduled transcript can reach, the logged
  steps are exactly the first steps of the schedule, in order; it is finished exactly when all
  of them have been taken. A challenge is never drawn before the commitments it must follow.
\<close>

theorem schedule_enforced:
  assumes "t_reach H (new_transcript d (Some (new_schedule st))) t"
  shows "map entry_kind (tlog t) = take (length (tlog t)) st \<and> length (tlog t) \<le> length st \<and>
    (\<exists>s. tschedule t = Some s \<and> (finished s \<longleftrightarrow> map entry_kind (tlog t) = st))"
proof -
  obtain s where "tschedule t = Some s" "steps s = st" "pos s = length (tlog t)" "pos s \<le> length st"
     "map entry_kind (tlog t) = take (pos s) st"
    using sched_inv_reach [OF assms] by (auto simp: sched_inv_def)
  then show ?thesis by (auto simp: finished_def)
qed

lemma layer_first: "absorb (new_transcript [] (Some (new_schedule LAYER_SCHEDULE))) ''R_out'' [] \<noteq> Inl e"
  by (simp add: absorb_def t_check_def sched_check_def new_transcript_def new_schedule_def LAYER_SCHEDULE_def to_bytes_def)

theorem schedule_enforced_witness:
  "\<exists>t. t_reach toy_hash (new_transcript [] (Some (new_schedule LAYER_SCHEDULE))) t \<and>
    map entry_kind (tlog t) = take (length (tlog t)) LAYER_SCHEDULE \<and> length (tlog t) = 1"
proof -
  obtain t where t: "absorb (new_transcript [] (Some (new_schedule LAYER_SCHEDULE))) ''R_out'' [] = Inr t"
    using layer_first by (metis sum.exhaust)
  then have r: "t_reach toy_hash (new_transcript [] (Some (new_schedule LAYER_SCHEDULE))) t"
    by (meson reach_init reach_step step_absorb)
  have "length (tlog t) = 1" using t t_check_fields
    by (auto simp: absorb_def rbind_Inr_iff new_transcript_def)
  then show ?thesis using schedule_enforced [OF r] r by blast
qed

section \<open>Replaying a log\<close>

lemma replay_append:
  "replay_entries H (es @ fs) t = rbind (replay_entries H es t) (replay_entries H fs)"
proof (induction es arbitrary: t)
  case (Cons e es)
  show ?case
    by (cases e) (auto simp: rbind_def Cons.IH split: sum.split prod.split)
qed simp

lemma step_replays:
  assumes "t_step H t t'"
  shows "\<exists>e. tlog t' = tlog t @ [e] \<and> replay_entries H [e] t = Inr t'"
  using assms
proof (cases rule: t_step.cases)
  case (step_absorb label data)
  then have "tlog t' = tlog t @ [LAbsorb label data]"
    using t_check_fields by (auto simp: absorb_def rbind_Inr_iff)
  then show ?thesis using step_absorb by auto
next
  case (step_coin label count out)
  then have "tlog t' = tlog t @ [LCoin label count]"
    using t_check_fields by (auto simp: coin_def rbind_Inr_iff)
  moreover have "replay_entries H [LCoin label count] t = Inr t'"
  proof (cases "count = 0")
    case True
    then have "\<exists>b. coin_bytes H t label = Inr (b, t')"
      using step_coin by (auto simp: coin_def coin_bytes_def rbind_Inr_iff)
    then show ?thesis using True by auto
  qed (use step_coin in simp)
  ultimately show ?thesis by blast
next
  case (step_coin_bytes label out)
  then have "tlog t' = tlog t @ [LCoin label 0]"
    using t_check_fields by (auto simp: coin_bytes_def rbind_Inr_iff)
  then show ?thesis using step_coin_bytes by auto
qed

text \<open>
  Fact (\<open>transcript_replay\<close>): replaying the log of any run, from the same domain and schedule,
  rebuilds exactly the prover's transcript: hash state, schedule position and log. The coins the
  verifier recomputes are the prover's.
\<close>

theorem transcript_replay:
  assumes "t_reach H (new_transcript d sch) t"
  shows "replay H (tlog t) d sch = Inr t"
  using assms
proof (induction rule: t_reach.induct)
  case reach_init
  then show ?case by (simp add: replay_def new_transcript_def)
next
  case (reach_step t t')
  then show ?case using step_replays [OF reach_step.hyps(2)] by (auto simp: replay_def replay_append)
qed

theorem transcript_replay_witness:
  "\<exists>t. t_reach toy_hash (new_transcript [] None) t \<and> tlog t = [LCoin ''rho'' 2] \<and>
    replay toy_hash [LCoin ''rho'' 2] [] None = Inr t"
proof -
  obtain t out where t: "coin toy_hash (new_transcript [] None) ''rho'' 2 = Inr (out, t)" "tlog t = [LCoin ''rho'' 2]"
    by (simp add: coin_def t_check_def new_transcript_def to_bytes_def coin_value_def numeral_2_eq_2)
  then have r: "t_reach toy_hash (new_transcript [] None) t" by (meson reach_init reach_step step_coin)
  then show ?thesis using transcript_replay [OF r] t(2) by auto
qed

section \<open>What a coin depends on\<close>

fun entry_bytes :: "log_entry \<Rightarrow> bytes" where
  "entry_bytes (LAbsorb label data) = le_bytes 2 (length label) @ encode label @ le_bytes 8 (length data) @ data"
| "entry_bytes (LCoin label count) = coin_mark @ le_bytes 2 (length label) @ encode label"

fun entry_strip :: "log_entry \<Rightarrow> log_entry" where
  "entry_strip (LAbsorb label data) = LAbsorb label data"
| "entry_strip (LCoin label count) = LCoin label 0"

definition plain_label :: "string \<Rightarrow> bool" where
  "plain_label l \<longleftrightarrow> length l < 25344 \<and> list_all (\<lambda>c. (of_char c :: nat) < 128) l"

fun plain_entry :: "log_entry \<Rightarrow> bool" where
  "plain_entry (LAbsorb label data) \<longleftrightarrow> plain_label label"
| "plain_entry (LCoin label count) \<longleftrightarrow> plain_label label"

fun entry_ok :: "log_entry \<Rightarrow> bool" where
  "entry_ok (LAbsorb label data) \<longleftrightarrow> length label < 256 ^ 2 \<and> length data < 256 ^ 8"
| "entry_ok (LCoin label count) \<longleftrightarrow> length label < 256 ^ 2"

lemma plain_encode: "plain_label l \<Longrightarrow> length (encode l) = length l"
  by (induction l) (auto simp: plain_label_def encode_Cons utf8_char_def Let_def)

lemma step_hashed:
  assumes "t_step H t t'"
  shows "\<exists>e. tlog t' = tlog t @ [e] \<and> hashed t' = hashed t @ entry_bytes e \<and> entry_ok e"
  using assms
proof (cases rule: t_step.cases)
  case (step_absorb label data)
  then obtain t1 where "t_check t ''absorb'' label = Inr t1" "length label < 256 ^ 2" "length data < 256 ^ 8"
    "t' = t1\<lparr>hashed := hashed t1 @ entry_bytes (LAbsorb label data), tlog := tlog t1 @ [LAbsorb label data]\<rparr>"
    by (auto simp: absorb_def rbind_Inr_iff to_bytes_Inr)
  then show ?thesis using t_check_fields by (intro exI [of _ "LAbsorb label data"]) force
next
  case (step_coin label count out)
  then obtain t1 where "t_check t ''coin'' label = Inr t1" "length label < 256 ^ 2"
    "t' = t1\<lparr>hashed := hashed t1 @ entry_bytes (LCoin label count), tlog := tlog t1 @ [LCoin label count]\<rparr>"
    by (auto simp: coin_def rbind_Inr_iff to_bytes_Inr)
  then show ?thesis using t_check_fields by (intro exI [of _ "LCoin label count"]) force
next
  case (step_coin_bytes label out)
  then obtain t1 where "t_check t ''coin'' label = Inr t1" "length label < 256 ^ 2"
    "t' = t1\<lparr>hashed := hashed t1 @ entry_bytes (LCoin label 0), tlog := tlog t1 @ [LCoin label 0]\<rparr>"
    by (auto simp: coin_bytes_def rbind_Inr_iff to_bytes_Inr)
  then show ?thesis using t_check_fields by (intro exI [of _ "LCoin label 0"]) force
qed

lemma reach_hashed:
  "t_reach H (new_transcript d sch) t \<Longrightarrow>
   hashed t = d @ concat (map entry_bytes (tlog t)) \<and> list_all entry_ok (tlog t)"
proof (induction rule: t_reach.induct)
  case reach_init
  then show ?case by (simp add: new_transcript_def)
next
  case (reach_step t t')
  then show ?case using step_hashed [OF reach_step.hyps(2)] by auto
qed

lemma coin_mark_le: "coin_mark = le_bytes 2 25344 @ drop 2 coin_mark" "length coin_mark = 5"
  by (simp_all add: coin_mark_def encode_def utf8_char_def numeral_2_eq_2)

lemma le_bytes_prefix:
  assumes "le_bytes n v @ x = le_bytes n w @ y" "v < 256 ^ n" "w < 256 ^ n"
  shows "v = w \<and> x = y"
  using assms le_bytes_inj by (metis append_eq_append_conv length_le_bytes)

lemma label_prefix:
  assumes "le_bytes 2 (length l) @ encode l @ x = le_bytes 2 (length m) @ encode m @ y" "plain_label l" "plain_label m"
  shows "l = m \<and> x = y"
proof -
  have "length l < 256 ^ 2" "length m < 256 ^ 2" using assms(2,3) by (simp_all add: plain_label_def)
  then have "length l = length m \<and> encode l @ x = encode m @ y" using le_bytes_prefix [OF assms(1)] by simp
  then have "encode l = encode m \<and> x = y" using plain_encode assms(2,3) by (metis append_eq_append_conv)
  then show ?thesis using encode_inj by blast
qed

lemma coin_absorb_differ:
  assumes "coin_mark @ x = le_bytes 2 (length l) @ y" "plain_label l"
  shows False
proof -
  have e: "le_bytes 2 25344 @ (drop 2 coin_mark @ x) = le_bytes 2 (length l) @ y"
    using assms(1) coin_mark_le(1) by (metis append.assoc)
  have "length l < 25344" using assms(2) by (simp add: plain_label_def)
  then have "25344 = length l" using le_bytes_prefix [OF e] by simp
  then show False using assms(2) by (simp add: plain_label_def)
qed

lemma entry_prefix:
  assumes "entry_bytes e @ x = entry_bytes f @ y" "plain_entry e" "plain_entry f" "entry_ok e" "entry_ok f"
  shows "entry_strip e = entry_strip f \<and> x = y"
proof (cases e)
  case e: (LAbsorb l d)
  show ?thesis
  proof (cases f)
    case f: (LAbsorb m d')
    have 1: "l = m" and 2: "le_bytes 8 (length d) @ (d @ x) = le_bytes 8 (length d') @ (d' @ y)"
      using label_prefix [of l "le_bytes 8 (length d) @ d @ x" m "le_bytes 8 (length d') @ d' @ y"] assms(1-3) e f
      by simp_all
    have "length d < 256 ^ 8" "length d' < 256 ^ 8" using assms(4,5) e f by simp_all
    then have "length d = length d' \<and> d @ x = d' @ y" using le_bytes_prefix [OF 2] by blast
    then have "d = d' \<and> x = y" using append_eq_append_conv by blast
    then show ?thesis using 1 e f by simp
  next
    case f: (LCoin m c)
    have "coin_mark @ (le_bytes 2 (length m) @ encode m @ y) = le_bytes 2 (length l) @ (encode l @ le_bytes 8 (length d) @ d @ x)"
      using assms(1) e f by (simp del: le_bytes.simps)
    then have False using assms(2) e by (intro coin_absorb_differ) simp_all
    then show ?thesis ..
  qed
next
  case e: (LCoin l c)
  show ?thesis
  proof (cases f)
    case f: (LAbsorb m d)
    have "coin_mark @ (le_bytes 2 (length l) @ encode l @ x) = le_bytes 2 (length m) @ (encode m @ le_bytes 8 (length d) @ d @ y)"
      using assms(1) e f by (simp del: le_bytes.simps)
    then have False using assms(3) f by (intro coin_absorb_differ) simp_all
    then show ?thesis ..
  next
    case f: (LCoin m c')
    then show ?thesis using label_prefix [of l x m y] assms e by simp
  qed
qed

lemma entries_inj:
  "concat (map entry_bytes es) = concat (map entry_bytes fs) \<Longrightarrow> list_all plain_entry es \<Longrightarrow> list_all plain_entry fs \<Longrightarrow>
   list_all entry_ok es \<Longrightarrow> list_all entry_ok fs \<Longrightarrow> map entry_strip es = map entry_strip fs"
proof (induction es arbitrary: fs)
  case Nil
  have "entry_bytes e \<noteq> []" for e by (cases e) (simp_all add: coin_mark_def numeral_2_eq_2)
  then show ?case using Nil by (cases fs) auto
next
  case (Cons e es)
  have ne: "entry_bytes e \<noteq> []" for e by (cases e) (simp_all add: coin_mark_def numeral_2_eq_2)
  then obtain f fs' where fs: "fs = f # fs'" using Cons.prems(1) by (cases fs) auto
  have "entry_bytes e @ concat (map entry_bytes es) = entry_bytes f @ concat (map entry_bytes fs')"
    using Cons.prems(1) fs by (simp del: entry_bytes.simps)
  then have h: "entry_strip e = entry_strip f" and t: "concat (map entry_bytes es) = concat (map entry_bytes fs')"
    using entry_prefix Cons.prems(2-5) fs by (metis list.pred_inject(2))+
  have "map entry_strip es = map entry_strip fs'"
    using Cons.prems(2-5) fs by (intro Cons.IH [OF t]) simp_all
  then show ?case using h fs by simp
qed

lemma entry_bytes_strip: "entry_bytes (entry_strip e) = entry_bytes e"
  by (cases e) simp_all

text \<open>
  Property C13 (\<open>transcript_binding\<close>): what a digest binds, exactly. Take two reachable transcripts
  started from the same domain bytes, whose labels are ASCII and shorter than 25344 characters
  (below which the coin mark cannot be read as a label length). Unless their two hashed inputs
  collide, their digests are equal if and only if they made the same kinds of steps (absorption or
  coin draw) with the same labels and the same absorbed bytes, in the same order. How many coins a
  draw takes, and in which form, is not hashed, so it is not bound: the witness is a pair of
  transcripts with different logs and equal digests.
\<close>

theorem transcript_binding:
  assumes r: "t_reach H (new_transcript d sch) t" "t_reach H (new_transcript d sch') t'"
    and p: "list_all plain_entry (tlog t)" "list_all plain_entry (tlog t')"
  shows "(t_digest H t = t_digest H t' \<longleftrightarrow> map entry_strip (tlog t) = map entry_strip (tlog t')) \<or>
    coll H [hashed t] [hashed t']"
proof -
  note h = reach_hashed [OF r(1)] reach_hashed [OF r(2)]
  have "hashed t = hashed t' \<longleftrightarrow> map entry_strip (tlog t) = map entry_strip (tlog t')"
  proof
    assume "hashed t = hashed t'"
    then have "concat (map entry_bytes (tlog t)) = concat (map entry_bytes (tlog t'))" using h by simp
    then show "map entry_strip (tlog t) = map entry_strip (tlog t')" using entries_inj p h by blast
  next
    have b: "map entry_bytes es = map entry_bytes (map entry_strip es)" for es
      by (simp add: entry_bytes_strip)
    assume "map entry_strip (tlog t) = map entry_strip (tlog t')"
    then have "map entry_bytes (tlog t) = map entry_bytes (tlog t')" using b by metis
    then show "hashed t = hashed t'" using h by simp
  qed
  then show ?thesis by (auto simp: coll_iff t_digest_def)
qed

theorem transcript_binding_witness:
  "\<exists>t t'. t_reach toy_hash (new_transcript [7] None) t \<and> t_reach toy_hash (new_transcript [7] None) t' \<and>
    tlog t = [LAbsorb ''a'' [5], LCoin ''b'' 1] \<and> tlog t' = [LAbsorb ''a'' [5], LCoin ''b'' 2] \<and>
    t_digest toy_hash t = t_digest toy_hash t'"
proof -
  let ?t0 = "new_transcript [7] None"
  obtain t1 where a: "absorb ?t0 ''a'' [5] = Inr t1" "tlog t1 = [LAbsorb ''a'' [5]]" "tschedule t1 = None"
    by (simp add: absorb_def new_transcript_def t_check_def to_bytes_def)
  have c: "\<exists>o' t2. coin toy_hash t1 ''b'' n = Inr (o', t2) \<and> tlog t2 = tlog t1 @ [LCoin ''b'' n] \<and> hashed t2 = hashed t1 @ coin_mark @ [1, 0] @ encode ''b''"
    if "n \<in> {1, 2}" for n
    using that a(3) by (auto simp: coin_def t_check_def coin_value_def to_bytes_def le_bytes_def numeral_2_eq_2)
  obtain o1 t2 o2 t3 where c1: "coin toy_hash t1 ''b'' 1 = Inr (o1, t2)" "tlog t2 = tlog t1 @ [LCoin ''b'' 1]" "hashed t2 = hashed t1 @ coin_mark @ [1, 0] @ encode ''b''"
    and c2: "coin toy_hash t1 ''b'' 2 = Inr (o2, t3)" "tlog t3 = tlog t1 @ [LCoin ''b'' 2]" "hashed t3 = hashed t1 @ coin_mark @ [1, 0] @ encode ''b''"
    using c [of 1] c [of 2] by auto
  have r: "t_reach toy_hash ?t0 t2" "t_reach toy_hash ?t0 t3"
    using step_absorb [OF a(1)] step_coin [OF c1(1)] step_coin [OF c2(1)] by (blast intro: t_reach.intros)+
  have p: "list_all plain_entry (tlog t2)" "list_all plain_entry (tlog t3)"
    by (simp_all add: a(2) c1(2) c2(2) plain_label_def)
  have "hashed t2 = hashed t3" using c1(3) c2(3) by simp
  then have "t_digest toy_hash t2 = t_digest toy_hash t3"
    using transcript_binding [OF r p] by (simp add: a(2) c1(2) c2(2) coll_iff)
  then show ?thesis using r a(2) c1(2) c2(2) by auto
qed

section \<open>A schedule can always be completed\<close>

text \<open>What an implementation supplies for a declared step: the bytes it absorbs, or the number of
  challenges it draws.\<close>

fun entry_for :: "sched_step \<Rightarrow> bytes \<times> nat \<Rightarrow> log_entry" where
  "entry_for (kind, label) (data, count) = (if kind = ''absorb'' then LAbsorb label data else LCoin label count)"

definition good_step :: "sched_step \<Rightarrow> bool" where
  "good_step st \<longleftrightarrow> fst st \<in> {''absorb'', ''coin''} \<and> length (snd st) < 256 ^ 2"

definition small_input :: "bytes \<times> nat \<Rightarrow> bool" where
  "small_input x \<longleftrightarrow> length (fst x) < 256 ^ 8 \<and> snd x \<le> 256 ^ 8"

lemma reach_front: "t_step H t t1 \<Longrightarrow> t_reach H t1 t2 \<Longrightarrow> t_reach H t t2"
  by (rotate_tac 1, induction rule: t_reach.induct) (blast intro: t_reach.intros)+

lemma to_bytes_ok: "x < 256 ^ n \<Longrightarrow> to_bytes n (int x) = Inr (le_bytes n x)"
  by (simp add: to_bytes_Inr)

lemma scheduled_step:
  assumes "tschedule t = Some s" "pos s < length (steps s)" "good_step (steps s ! pos s)" "small_input x"
  shows "\<exists>t1. t_step H t t1 \<and> tlog t1 = tlog t @ [entry_for (steps s ! pos s) x] \<and> tschedule t1 = Some (s\<lparr>pos := pos s + 1\<rparr>)"
proof -
  obtain kind label where k: "steps s ! pos s = (kind, label)" by fastforce
  obtain data count where x: "x = (data, count)" by (cases x)
  have check: "t_check t kind label = Inr (t\<lparr>tschedule := Some (s\<lparr>pos := pos s + 1\<rparr>)\<rparr>)"
    using assms(1, 2) k by (simp add: t_check_def sched_check_def)
  have l: "length label < 256 ^ 2" and d: "length data < 256 ^ 8" and c: "count \<le> 256 ^ 8" and kind: "kind = ''absorb'' \<or> kind = ''coin''"
    using assms(3, 4) by (auto simp: good_step_def small_input_def k x)
  show ?thesis using kind
  proof
    assume ab: "kind = ''absorb''"
    obtain t1 where t1: "absorb t label data = Inr t1" "tlog t1 = tlog t @ [LAbsorb label data]" "tschedule t1 = Some (s\<lparr>pos := pos s + 1\<rparr>)"
      using check to_bytes_ok [OF l] to_bytes_ok [OF d] by (simp add: absorb_def ab)
    show ?thesis by (rule exI [of _ t1]) (use t1 step_absorb [OF t1(1)] in \<open>simp add: k x ab\<close>)
  next
    assume co: "kind = ''coin''"
    have "coin_value H (H (hashed t)) label i = Inr (int (from_le (take 16 (H (H (hashed t) @ encode label @ le_bytes 8 i)))) mod FIELD_P)" if "i < count" for i
      using to_bytes_ok [of i 8] that c by (simp add: coin_value_def)
    then have "rmap (coin_value H (H (hashed t)) label) [0..<count] =
        Inr (map (\<lambda>i. int (from_le (take 16 (H (H (hashed t) @ encode label @ le_bytes 8 i)))) mod FIELD_P) [0..<count])"
      by (intro rmap_Inr_map) simp
    then obtain out t1 where t1: "coin H t label count = Inr (out, t1)" "tlog t1 = tlog t @ [LCoin label count]" "tschedule t1 = Some (s\<lparr>pos := pos s + 1\<rparr>)"
      using check to_bytes_ok [OF l] by (simp add: coin_def co)
    show ?thesis by (rule exI [of _ t1]) (use t1 step_coin [OF t1(1)] in \<open>simp add: k x co\<close>)
  qed
qed

lemma scheduled_run:
  "tschedule t = Some s \<Longrightarrow> pos s + length xs = length (steps s) \<Longrightarrow> \<forall>st \<in> set (steps s). good_step st \<Longrightarrow> \<forall>x \<in> set xs. small_input x \<Longrightarrow>
    \<exists>t'. t_reach H t t' \<and> tlog t' = tlog t @ map2 entry_for (drop (pos s) (steps s)) xs \<and> (\<exists>s'. tschedule t' = Some s' \<and> finished s')"
proof (induction xs arbitrary: t s)
  case Nil
  then have "finished s" by (simp add: finished_def)
  then show ?case using Nil.prems(1) by (intro exI [of _ t]) (simp add: reach_init)
next
  case (Cons x xs)
  have p: "pos s < length (steps s)" using Cons.prems(2) by simp
  then have g: "good_step (steps s ! pos s)" "small_input x" using Cons.prems(3, 4) by simp_all
  obtain t1 where t1: "t_step H t t1" "tlog t1 = tlog t @ [entry_for (steps s ! pos s) x]" "tschedule t1 = Some (s\<lparr>pos := pos s + 1\<rparr>)"
    using scheduled_step [OF Cons.prems(1) p g, of H] by blast
  obtain t' where t': "t_reach H t1 t'" "tlog t' = tlog t1 @ map2 entry_for (drop (pos s + 1) (steps s)) xs" "\<exists>s'. tschedule t' = Some s' \<and> finished s'"
    using Cons.IH [OF t1(3)] Cons.prems(2-4) by auto
  have "drop (pos s) (steps s) = steps s ! pos s # drop (pos s + 1) (steps s)" using p by (simp add: Cons_nth_drop_Suc)
  then show ?case using t' t1(2) reach_front [OF t1(1) t'(1)] by auto
qed

lemma finished_stuck: "tschedule t = Some s \<Longrightarrow> finished s \<Longrightarrow> \<not> t_step H t t'"
proof
  assume fin: "tschedule t = Some s" "finished s" and "t_step H t t'"
  then obtain e t1 where "t_check t (fst (entry_kind e)) (snd (entry_kind e)) = Inr t1" by (auto elim: t_step_entry)
  from t_check_schedule [OF this fin(1)] show False using fin(2) by (simp add: finished_def)
qed

text \<open>
  Property C18 (\<open>schedule_live\<close>): A scheduled transcript never gets stuck early. From every state it
  can reach, and whatever bytes are still to be absorbed and however many challenges drawn, taking
  the declared steps in order succeeds and reaches a state with exactly those entries appended, in
  which the schedule is finished; and there no further step is possible.
\<close>
theorem schedule_live:
  assumes "\<forall>st \<in> set sch. good_step st" "t_reach H (new_transcript d (Some (new_schedule sch))) t"
    "length (tlog t) + length xs = length sch" "\<forall>x \<in> set xs. small_input x"
  shows "\<exists>t'. t_reach H t t' \<and> tlog t' = tlog t @ map2 entry_for (drop (length (tlog t)) sch) xs \<and>
    (\<exists>s. tschedule t' = Some s \<and> finished s) \<and> (\<nexists>t''. t_step H t' t'')"
proof -
  obtain s where s: "tschedule t = Some s" "steps s = sch" "pos s = length (tlog t)" using sched_inv_reach [OF assms(2)] by (auto simp: sched_inv_def)
  obtain t' where t': "t_reach H t t'" "tlog t' = tlog t @ map2 entry_for (drop (length (tlog t)) sch) xs" "\<exists>s'. tschedule t' = Some s' \<and> finished s'"
    using scheduled_run [OF s(1), of xs H] assms(1, 3, 4) unfolding s(2, 3) by blast
  then show ?thesis using finished_stuck by blast
qed

theorem schedule_live_witness:
  "\<exists>t'. t_reach toy_hash (new_transcript [] (Some (new_schedule LAYER_SCHEDULE))) t' \<and>
    tlog t' = [] @ map2 entry_for (drop 0 LAYER_SCHEDULE) (replicate 12 ([1, 2], 3)) \<and>
    (\<exists>s. tschedule t' = Some s \<and> finished s) \<and> (\<nexists>t''. t_step toy_hash t' t'')"
proof -
  have "\<forall>st \<in> set LAYER_SCHEDULE. good_step st" by (simp add: LAYER_SCHEDULE_def good_step_def)
  moreover have "length LAYER_SCHEDULE = 12" by (simp add: LAYER_SCHEDULE_def)
  ultimately show ?thesis
    using schedule_live [of LAYER_SCHEDULE toy_hash "[]" "new_transcript [] (Some (new_schedule LAYER_SCHEDULE))" "replicate 12 ([1, 2], 3)"]
    by (simp add: reach_init small_input_def new_transcript_def)
qed

end
