(* ===== verification/Sumcheck.thy ===== *)
theory Sumcheck
  imports Transcript_FS
begin

text \<open>
  The multilinear sumcheck and mask compiler of \<^verbatim>\<open>layergkr/sumcheck.py\<close>: \<open>mle_eval\<close>, the fold,
  the interpolation of round polynomials, the mask tape, the round transcript, \<open>prove_terms\<close> and
  \<open>verify_terms\<close> with their single-product wrappers. The device branches (taken only after a
  self-test against this path) and the cost counters are not modelled.
\<close>

section \<open>Multilinear helpers\<close>

definition fold_r :: "int list \<Rightarrow> int \<Rightarrow> int list" where
  "fold_r vals r =
     (let half = length vals div 2 in
      map (\<lambda>i. (vals ! i + r * (vals ! (half + i) - vals ! i)) mod FIELD_P) [0..<half])"

text \<open>The empty list is Python's \<open>IndexError\<close> on \<open>cur[0]\<close>.\<close>

definition mle_eval :: "int list \<Rightarrow> int list \<Rightarrow> int result" where
  "mle_eval vals point =
     (let cur = foldl fold_r vals point in if cur = [] then Inl IndexError else Inr (cur ! 0 mod FIELD_P))"

definition li_inner :: "(int \<times> int) list \<Rightarrow> int \<Rightarrow> nat \<Rightarrow> int \<times> int" where
  "li_inner points x i =
     foldl (\<lambda>(num, den) k. if k = i then (num, den)
              else ((num * (x - fst (points ! k))) mod FIELD_P, (den * (fst (points ! i) - fst (points ! k))) mod FIELD_P))
       (1, 1) [0..<length points]"

definition lagrange_interpolate :: "(int \<times> int) list \<Rightarrow> int \<Rightarrow> int" where
  "lagrange_interpolate points x =
     foldl (\<lambda>acc i. case li_inner points x i of (num, den) \<Rightarrow>
              (acc + snd (points ! i) * num * inv_P (den mod FIELD_P)) mod FIELD_P)
       0 [0..<length points]"

section \<open>The mask tape\<close>

record mask_tape =
  tape_values :: "int list"
  tape_pos :: nat

definition tape_take :: "mask_tape \<Rightarrow> nat \<Rightarrow> (int list \<times> mask_tape) result" where
  "tape_take t n =
     (if tape_pos t + n > length (tape_values t) then Inl RuntimeError
      else Inr (take n (drop (tape_pos t) (tape_values t)), t\<lparr>tape_pos := tape_pos t + n\<rparr>))"

definition INV2 :: int where
  "INV2 = inv_P 2"

definition mask_poly_coeffs :: "int \<Rightarrow> int list \<Rightarrow> int list" where
  "mask_poly_coeffs mu u =
     (((mu - sum_list u) mod FIELD_P) * INV2) mod FIELD_P # map (\<lambda>x. x mod FIELD_P) u"

text \<open>\<open>poly_eval_coeffs\<close> is the Horner loop of \<open>protocol.poly_eval\<close>.\<close>

abbreviation poly_eval_coeffs :: "int list \<Rightarrow> int \<Rightarrow> int" where
  "poly_eval_coeffs \<equiv> poly_eval"

definition solve_tape_for_target :: "int \<Rightarrow> int list \<Rightarrow> int list option" where
  "solve_tape_for_target mu target_h =
     (if target_h = [] then None
      else if (poly_eval_coeffs target_h 0 + poly_eval_coeffs target_h 1) mod FIELD_P \<noteq> mu mod FIELD_P then None
      else let u = map (\<lambda>c. c mod FIELD_P) (tl target_h) in
        if mask_poly_coeffs mu u = map (\<lambda>c. c mod FIELD_P) target_h then Some u else None)"

section \<open>Round coins\<close>

record round_transcript =
  rt_state :: bytes
  rt_absorbed :: nat

definition RT_DOMAIN :: bytes where
  "RT_DOMAIN = encode ''verinf/sumcheck-rounds/v1''"

definition new_rt :: "hashfn \<Rightarrow> bytes list \<Rightarrow> round_transcript result" where
  "new_rt H context =
     rbind (rmap (\<lambda>part. rbind (to_bytes 8 (int (length part))) (\<lambda>l. Inr (l @ part))) (RT_DOMAIN # context))
       (\<lambda>fs. Inr \<lparr>rt_state = H (concat fs), rt_absorbed = 0\<rparr>)"

definition rt_absorb :: "hashfn \<Rightarrow> round_transcript \<Rightarrow> nat \<Rightarrow> (int \<times> int) list \<Rightarrow> round_transcript result" where
  "rt_absorb H t rnd samples =
     (if rnd \<noteq> rt_absorbed t then Inl ValueError
      else rbind (to_bytes 8 (int rnd)) (\<lambda>r8. rbind (to_bytes 8 (int (length samples))) (\<lambda>l8.
           rbind (rmap (\<lambda>(x, y). rbind (to_bytes 8 (x mod FIELD_P)) (\<lambda>xb. rbind (to_bytes 8 (y mod FIELD_P)) (\<lambda>yb.
               Inr (xb @ yb)))) samples) (\<lambda>sb.
             Inr \<lparr>rt_state = H (rt_state t @ r8 @ l8 @ concat sb), rt_absorbed = rt_absorbed t + 1\<rparr>))))"

definition rt_coin :: "hashfn \<Rightarrow> round_transcript \<Rightarrow> nat \<Rightarrow> int result" where
  "rt_coin H t rnd =
     (if rt_absorbed t = 0 \<or> rnd \<noteq> rt_absorbed t - 1 then Inl ValueError
      else Inr (int (from_le (take 16 (H (rt_state t @ encode ''coin'')))) mod FIELD_P))"

text \<open>A coin argument is a plain function of the round index or a round transcript.\<close>

datatype coin_src = CoinFun "nat \<Rightarrow> int result" | CoinRT round_transcript

fun draw_coin :: "hashfn \<Rightarrow> coin_src \<Rightarrow> nat \<Rightarrow> (int \<times> int) list \<Rightarrow> (int \<times> coin_src) result" where
  "draw_coin H (CoinFun f) rnd samples = rbind (f rnd) (\<lambda>c. Inr (c mod FIELD_P, CoinFun f))"
| "draw_coin H (CoinRT t) rnd samples =
     rbind (rt_absorb H t rnd samples) (\<lambda>t'. rbind (rt_coin H t' rnd) (\<lambda>c. Inr (c mod FIELD_P, CoinRT t')))"

section \<open>The prover\<close>

type_synonym sc_term = "int \<times> int list list"

record sc_proof =
  sc_claim :: int
  round_polys :: "(int \<times> int) list list"
  challenges :: "int list"
  final_point :: "int list"
  masked :: bool
  final_mask :: int
  n_terms :: nat

definition point_sum :: "sc_term list \<Rightarrow> nat \<Rightarrow> int" where
  "point_sum cur idx =
     foldl (\<lambda>acc (c, fs). acc + foldl (\<lambda>prod f. prod * f ! idx mod FIELD_P) c fs) 0 cur"

definition true_claim :: "sc_term list \<Rightarrow> nat \<Rightarrow> int" where
  "true_claim cur size0 = foldl (\<lambda>t idx. (t + point_sum cur idx) mod FIELD_P) 0 [0..<size0]"

definition round_sample :: "sc_term list \<Rightarrow> nat \<Rightarrow> int \<Rightarrow> int" where
  "round_sample cur half x =
     foldl (\<lambda>acc (c, fs).
        foldl (\<lambda>acc i. acc + foldl (\<lambda>prod f. prod * ((f ! i + x * (f ! (half + i) - f ! i)) mod FIELD_P) mod FIELD_P) c fs)
          acc [0..<half]) 0 cur mod FIELD_P"

definition fold_terms :: "sc_term list \<Rightarrow> int \<Rightarrow> sc_term list" where
  "fold_terms cur r = map (\<lambda>(c, fs). (c, map (\<lambda>f. fold_r f r) fs)) cur"

definition first_len :: "sc_term list \<Rightarrow> nat" where
  "first_len cur = length (hd (snd (hd cur)))"

text \<open>One pass over the rounds; \<open>polys\<close> and \<open>chals\<close> are the lists being appended to.\<close>

fun sc_rounds :: "hashfn \<Rightarrow> nat \<Rightarrow> nat list \<Rightarrow> sc_term list \<Rightarrow> int \<Rightarrow> mask_tape option \<Rightarrow> coin_src \<Rightarrow>
    (int \<times> int) list list \<Rightarrow> int list \<Rightarrow> (int \<times> (int \<times> int) list list \<times> int list) result" where
  "sc_rounds H deg [] cur mu tape cn polys chals = Inr (mu, polys, chals)"
| "sc_rounds H deg (rnd # rnds) cur mu tape cn polys chals =
     (let half = first_len cur div 2;
          samples = map (\<lambda>x. (int x, round_sample cur half (int x))) [0..<deg + 1]
      in case tape of
           None \<Rightarrow>
             rbind (draw_coin H cn rnd samples) (\<lambda>(r, cn').
               sc_rounds H deg rnds (fold_terms cur r) mu None cn' (polys @ [samples]) (chals @ [r]))
         | Some tp \<Rightarrow>
             rbind (tape_take tp deg) (\<lambda>(u, tp').
               let h = mask_poly_coeffs mu u;
                   samples = map (\<lambda>(x, y). (x, (y + poly_eval_coeffs h x) mod FIELD_P)) samples
               in rbind (draw_coin H cn rnd samples) (\<lambda>(r, cn').
                 sc_rounds H deg rnds (fold_terms cur r) (poly_eval_coeffs h r) (Some tp') cn'
                   (polys @ [samples]) (chals @ [r]))))"

definition terms_deg :: "sc_term list \<Rightarrow> nat" where
  "terms_deg terms = Max (set (map (\<lambda>(c, fs). length fs) terms))"

definition prove_terms :: "hashfn \<Rightarrow> sc_term list \<Rightarrow> coin_src \<Rightarrow> mask_tape option \<Rightarrow> int \<Rightarrow> sc_proof result" where
  "prove_terms H terms cn tape mu0 =
     (if terms = [] then Inl ValueError
      else if snd (hd terms) = [] then Inl IndexError
      else let size0 = first_len terms; n = bit_length size0 - 1; deg = terms_deg terms;
               cur = map (\<lambda>(c, fs). (c mod FIELD_P, fs)) terms
        in if list_ex (\<lambda>(c, fs). list_ex (\<lambda>f. length f < size0) fs) terms then Inl IndexError
        else let tc = true_claim cur size0; mu = mu0 mod FIELD_P in
          rbind (sc_rounds H deg [0..<n] cur mu tape cn [] []) (\<lambda>(mu', polys, chals).
            Inr \<lparr>sc_claim = (tc + mu) mod FIELD_P, round_polys = polys, challenges = chals, final_point = chals,
                 masked = (tape \<noteq> None), final_mask = mu', n_terms = length terms\<rparr>))"

definition prove :: "hashfn \<Rightarrow> int list list \<Rightarrow> coin_src \<Rightarrow> mask_tape option \<Rightarrow> int \<Rightarrow> sc_proof result" where
  "prove H factors cn tape mu0 = prove_terms H [(1, factors)] cn tape mu0"

section \<open>The verifier\<close>

definition expected_rounds :: "nat \<Rightarrow> nat result" where
  "expected_rounds size0 =
     (if size0 = 0 \<or> size0 AND (size0 - 1) \<noteq> 0 then Inl ValueError else Inr (bit_length size0 - 1))"

definition rounds_ok :: "sc_proof \<Rightarrow> nat \<Rightarrow> bool" where
  "rounds_ok pf n \<longleftrightarrow> length (round_polys pf) = n \<and> length (challenges pf) = n \<and> length (final_point pf) = n"

text \<open>The loop over the rounds; None is a rejection.\<close>

fun vt_rounds :: "hashfn \<Rightarrow> nat \<Rightarrow> nat \<Rightarrow> (int \<times> int) list list \<Rightarrow> int list \<Rightarrow> int \<Rightarrow> coin_src \<Rightarrow> int option result" where
  "vt_rounds H deg rnd [] chals claim cn = Inr (Some claim)"
| "vt_rounds H deg rnd (samples # polys) chals claim cn =
     (if length samples \<noteq> deg + 1 then Inr None
      else let g0 = lagrange_interpolate samples 0; g1 = lagrange_interpolate samples 1 in
        if (g0 + g1) mod FIELD_P \<noteq> claim then Inr None
        else rbind (draw_coin H cn rnd samples) (\<lambda>(r, cn').
          if r \<noteq> chals ! rnd then Inr None
          else vt_rounds H deg (Suc rnd) polys chals (lagrange_interpolate samples r) cn'))"

fun mul_evals :: "int \<Rightarrow> int list list \<Rightarrow> int list \<Rightarrow> int result" where
  "mul_evals pr [] point = Inr pr"
| "mul_evals pr (f # fs) point =
     rbind (mle_eval f point) (\<lambda>v. mul_evals (pr * v mod FIELD_P) fs point)"

fun terminal_sum :: "int \<Rightarrow> sc_term list \<Rightarrow> int list \<Rightarrow> int result" where
  "terminal_sum t [] point = Inr t"
| "terminal_sum t ((c, fs) # ts) point =
     rbind (mul_evals (c mod FIELD_P) fs point) (\<lambda>prod. terminal_sum ((t + prod) mod FIELD_P) ts point)"

definition term_sizes :: "sc_term list \<Rightarrow> nat list" where
  "term_sizes terms = remdups (map length (concat (map snd terms)))"

definition verify_terms :: "hashfn \<Rightarrow> sc_proof \<Rightarrow> sc_term list \<Rightarrow> coin_src \<Rightarrow> bool result" where
  "verify_terms H pf terms cn =
     (case term_sizes terms of
        [size0] \<Rightarrow>
          rbind (expected_rounds size0) (\<lambda>n.
            if \<not> rounds_ok pf n then Inr False
            else rbind (vt_rounds H (terms_deg terms) 0 (round_polys pf) (challenges pf) (sc_claim pf mod FIELD_P) cn)
              (\<lambda>res. case res of
                 None \<Rightarrow> Inr False
               | Some claim \<Rightarrow>
                   if final_point pf \<noteq> challenges pf then Inr False
                   else rbind (terminal_sum 0 terms (final_point pf)) (\<lambda>terminal.
                     let expected = (if masked pf then (terminal + final_mask pf) mod FIELD_P else terminal) in
                     Inr (claim = expected))))
      | _ \<Rightarrow> Inr False)"

definition verify_prod :: "hashfn \<Rightarrow> sc_proof \<Rightarrow> int list list \<Rightarrow> coin_src \<Rightarrow> bool result" where
  "verify_prod H pf factors cn =
     (case remdups (map length factors) of
        [size0] \<Rightarrow>
          rbind (expected_rounds size0) (\<lambda>n.
            if \<not> rounds_ok pf n then Inr False
            else rbind (vt_rounds H (length factors) 0 (round_polys pf) (challenges pf) (sc_claim pf mod FIELD_P) cn)
              (\<lambda>res. case res of
                 None \<Rightarrow> Inr False
               | Some claim \<Rightarrow>
                   if final_point pf \<noteq> challenges pf then Inr False
                   else rbind (mul_evals 1 factors (final_point pf)) (\<lambda>terminal.
                     let expected = (if masked pf then (terminal + final_mask pf) mod FIELD_P else terminal) in
                     Inr (claim = expected))))
      | _ \<Rightarrow> Inr False)"

definition masked_product_ok :: "int \<Rightarrow> int \<Rightarrow> int \<Rightarrow> int \<Rightarrow> int \<Rightarrow> bool" where
  "masked_product_ok x y a b c =
     (let X = (x + a) mod FIELD_P; Y = (y + b) mod FIELD_P; Z = (x * y + c) mod FIELD_P;
          lhs = (Z - c) mod FIELD_P; rhs = (X * Y - X * b - Y * a + a * b) mod FIELD_P
      in lhs = rhs)"

section \<open>Interpolation of round polynomials\<close>

lemma gl_li_inner:
  assumes "li_inner points x i = (num, den)"
  shows "(of_int num :: gl) = (\<Prod>k\<in>{..<length points} - {i}. of_int x - of_int (fst (points ! k)))"
    and "(of_int den :: gl) = (\<Prod>k\<in>{..<length points} - {i}. of_int (fst (points ! i)) - of_int (fst (points ! k)))"
proof -
  have "(of_int (fst (foldl (\<lambda>(num, den) k. if k = i then (num, den)
              else ((num * (x - fst (points ! k))) mod FIELD_P, (den * (fst (points ! i) - fst (points ! k))) mod FIELD_P))
       (a, b) ks)) :: gl) = foldl (\<lambda>p k. if k = i then p else p * (of_int x - of_int (fst (points ! k)))) (of_int a) ks \<and>
      (of_int (snd (foldl (\<lambda>(num, den) k. if k = i then (num, den)
              else ((num * (x - fst (points ! k))) mod FIELD_P, (den * (fst (points ! i) - fst (points ! k))) mod FIELD_P))
       (a, b) ks)) :: gl) = foldl (\<lambda>p k. if k = i then p else p * (of_int (fst (points ! i)) - of_int (fst (points ! k)))) (of_int b) ks"
    for a b ks
    by (induction ks arbitrary: a b) auto
  from this [of 1 1 "[0..<length points]"]
  show "(of_int num :: gl) = (\<Prod>k\<in>{..<length points} - {i}. of_int x - of_int (fst (points ! k)))"
    "(of_int den :: gl) = (\<Prod>k\<in>{..<length points} - {i}. of_int (fst (points ! i)) - of_int (fst (points ! k)))"
    using assms by (simp_all add: li_inner_def foldl_skip_prod)
qed

lemma lagrange_interpolate_range [simp]:
  "0 \<le> lagrange_interpolate points x" "lagrange_interpolate points x < FIELD_P"
proof -
  have "0 \<le> lagrange_interpolate points x \<and> lagrange_interpolate points x < FIELD_P"
    unfolding lagrange_interpolate_def by (rule foldl_invariant) (auto split: prod.split)
  then show "0 \<le> lagrange_interpolate points x" "lagrange_interpolate points x < FIELD_P" by simp_all
qed

abbreviation sxs :: "(int \<times> int) list \<Rightarrow> gl list" where
  "sxs points \<equiv> map (\<lambda>p. of_int (fst p)) points"

lemma gl_lagrange_interpolate:
  "(of_int (lagrange_interpolate points x) :: gl) =
    (\<Sum>i<length points. of_int (snd (points ! i)) * lbasis (sxs points) i (of_int x))"
proof -
  have term_eq: "(of_int num * inverse (of_int den) :: gl) = lbasis (sxs points) i (of_int x)"
    if "li_inner points x i = (num, den)" "i < length points" for i num den
    using that by (simp add: gl_li_inner [OF that(1)] lbasis_def prod_dividef flip: divide_inverse)
  have "(of_int (foldl (\<lambda>acc i. case li_inner points x i of (num, den) \<Rightarrow>
              (acc + snd (points ! i) * num * inv_P (den mod FIELD_P)) mod FIELD_P) a is) :: gl)
      = of_int a + (\<Sum>i\<leftarrow>is. of_int (snd (points ! i)) * lbasis (sxs points) i (of_int x))"
    if "\<forall>i \<in> set is. i < length points" for a "is"
    using that
  proof (induction "is" arbitrary: a)
    case (Cons i "is")
    obtain num den where nd: "li_inner points x i = (num, den)" by (cases "li_inner points x i")
    have "i < length points" using Cons.prems by simp
    then have "(of_int num * inverse (of_int den) :: gl) = lbasis (sxs points) i (of_int x)"
      by (rule term_eq [OF nd])
    then show ?case using Cons nd by (simp add: mult.assoc add.assoc)
  qed simp
  from this [of "[0..<length points]" 0] show ?thesis
    by (simp add: lagrange_interpolate_def sum_list_map_upt)
qed

text \<open>
  Whatever the abscissas (repeated ones included), the interpolation is a polynomial with as
  many coefficients as samples.
\<close>

lemma lagrange_interpolate_poly:
  "\<exists>cs. length cs = length points \<and> (\<forall>x. (of_int (lagrange_interpolate points x) :: gl) = peval cs (of_int x))"
proof -
  have "\<exists>cs. length cs = length points \<and> (\<forall>t. peval cs t = (\<Sum>i<length points. of_int (snd (points ! i)) * lbasis (sxs points) i t))"
    using lbasis_poly [of _ "sxs points"] by (intro sum_poly) simp
  then show ?thesis by (metis gl_lagrange_interpolate)
qed

text \<open>On the nodes \<open>0, \<dots>, d\<close> a polynomial with at most \<open>d + 1\<close> coefficients is recovered.\<close>

lemma small_nodes_distinct: "int n \<le> FIELD_P \<Longrightarrow> distinct (map (\<lambda>x. of_int (int x) :: gl) [0..<n])"
  using gl_eq_iff [of "int _" "int _"] by (fastforce simp: distinct_conv_nth)

lemma lagrange_interpolate_samples:
  assumes p: "points = map (\<lambda>x. (int x, v x)) [0..<n]" and n: "int n \<le> FIELD_P"
    and cs: "length cs \<le> n" "\<And>x. x < n \<Longrightarrow> (of_int (v x) :: gl) = peval cs (of_int (int x))"
  shows "(of_int (lagrange_interpolate points t) :: gl) = peval cs (of_int t)"
proof -
  have xs: "sxs points = map (\<lambda>x. of_int (int x) :: gl) [0..<n]" by (simp add: p)
  have d: "distinct (sxs points)" unfolding xs by (rule small_nodes_distinct [OF n])
  have "(of_int (lagrange_interpolate points t) :: gl)
      = (\<Sum>i<length (sxs points). peval cs (sxs points ! i) * lbasis (sxs points) i (of_int t))"
    unfolding gl_lagrange_interpolate using cs(2) by (intro sum.cong) (simp_all add: p)
  also have "\<dots> = peval cs (of_int t)" using cs(1) by (intro lagrange_sum_eq d) (simp add: p)
  finally show ?thesis .
qed

section \<open>The sums behind the rounds\<close>

definition gterm_at :: "int \<times> int list list \<Rightarrow> (int list \<Rightarrow> gl) \<Rightarrow> gl" where
  "gterm_at t v = of_int (fst t) * (\<Prod>f\<leftarrow>snd t. v f)"

definition gsum :: "sc_term list \<Rightarrow> nat \<Rightarrow> gl" where
  "gsum cur n = (\<Sum>i<n. \<Sum>t\<leftarrow>cur. gterm_at t (\<lambda>f. of_int (f ! i)))"

definition ground :: "sc_term list \<Rightarrow> nat \<Rightarrow> gl \<Rightarrow> gl" where
  "ground cur half X =
     (\<Sum>i<half. \<Sum>t\<leftarrow>cur. gterm_at t (\<lambda>f. of_int (f ! i) + X * (of_int (f ! (half + i)) - of_int (f ! i))))"

definition wf_terms :: "sc_term list \<Rightarrow> nat \<Rightarrow> nat \<Rightarrow> bool" where
  "wf_terms cur n deg \<longleftrightarrow> (\<forall>t \<in> set cur. length (snd t) \<le> deg \<and> (\<forall>f \<in> set (snd t). length f = n))"

lemma foldl_mul_prod: "(of_int (foldl (\<lambda>pr f. pr * v f mod FIELD_P) c fs) :: gl) = of_int c * (\<Prod>f\<leftarrow>fs. of_int (v f))"
  by (induction fs arbitrary: c) (simp_all add: mult.assoc)

lemma foldl_acc_sum:
  assumes "\<And>a x. (of_int (g a x) :: gl) = of_int a + h x"
  shows "(of_int (foldl g a xs) :: gl) = of_int a + (\<Sum>x\<leftarrow>xs. h x)"
  by (induction xs arbitrary: a) (simp_all add: assms add.assoc)

lemma gl_point_sum: "(of_int (point_sum cur idx) :: gl) = (\<Sum>t\<leftarrow>cur. gterm_at t (\<lambda>f. of_int (f ! idx)))"
  unfolding point_sum_def by (subst foldl_acc_sum) (auto simp: gterm_at_def foldl_mul_prod)

lemma gl_true_claim: "(of_int (true_claim cur n) :: gl) = gsum cur n"
  unfolding true_claim_def
  by (subst foldl_acc_sum) (auto simp: gl_point_sum gsum_def sum_list_map_upt)

lemma true_claim_range [simp]: "0 \<le> true_claim cur n" "true_claim cur n < FIELD_P"
proof -
  have "0 \<le> true_claim cur n \<and> true_claim cur n < FIELD_P"
    unfolding true_claim_def by (rule foldl_invariant) auto
  then show "0 \<le> true_claim cur n" "true_claim cur n < FIELD_P" by simp_all
qed

lemma gl_round_sample: "(of_int (round_sample cur half x) :: gl) = ground cur half (of_int x)"
proof -
  let ?v = "\<lambda>i f. (f ! i + x * (f ! (half + i) - f ! i)) mod FIELD_P"
  have "(of_int (foldl (\<lambda>acc i. acc + foldl (\<lambda>pr f. pr * ?v i f mod FIELD_P) c fs) a [0..<half]) :: gl)
      = of_int a + (\<Sum>i<half. gterm_at (c, fs) (\<lambda>f. of_int (f ! i) + of_int x * (of_int (f ! (half + i)) - of_int (f ! i))))"
    for c fs a
    by (subst foldl_acc_sum) (auto simp: gterm_at_def foldl_mul_prod sum_list_map_upt)
  then have "(of_int (round_sample cur half x) :: gl)
      = (\<Sum>t\<leftarrow>cur. \<Sum>i<half. gterm_at t (\<lambda>f. of_int (f ! i) + of_int x * (of_int (f ! (half + i)) - of_int (f ! i))))"
    unfolding round_sample_def gl_of_int_mod by (subst foldl_acc_sum) auto
  also have "\<dots> = ground cur half (of_int x)"
    unfolding ground_def by (induction cur) (simp_all add: sum.distrib)
  finally show ?thesis .
qed

lemma length_fold_r [simp]: "length (fold_r f r) = length f div 2"
  by (simp add: fold_r_def Let_def)

lemma gl_fold_r: "i < length f div 2 \<Longrightarrow> (of_int (fold_r f r ! i) :: gl) =
    of_int (f ! i) + of_int r * (of_int (f ! (length f div 2 + i)) - of_int (f ! i))"
  by (simp add: fold_r_def Let_def)

lemma gterm_cong: "(\<And>f. f \<in> set (snd t) \<Longrightarrow> v f = w f) \<Longrightarrow> gterm_at t v = gterm_at t w"
  unfolding gterm_at_def by (metis (mono_tags, lifting) map_cong)

lemma gterm_fold: "gterm_at (c, map g fs) v = gterm_at (c, fs) (\<lambda>f. v (g f))"
  by (simp add: gterm_at_def comp_def)

text \<open>A round splits the sum in two halves, and folding at \<open>r\<close> evaluates the round polynomial there.\<close>

lemma ground_split:
  assumes "wf_terms cur (2 * half) deg"
  shows "ground cur half 0 + ground cur half 1 = gsum cur (2 * half)"
proof -
  have "(\<Sum>i<2 * half. g i) = (\<Sum>i<half. g i) + (\<Sum>i<half. g (half + i))" for g :: "nat \<Rightarrow> gl"
    using sum_lessThan_mult [of g 2 half] by (simp add: numeral_2_eq_2)
  then show ?thesis by (simp add: ground_def gsum_def)
qed

lemma wf_fold: "wf_terms cur (2 * half) deg \<Longrightarrow> wf_terms (fold_terms cur r) half deg"
  by (auto simp: wf_terms_def fold_terms_def)

lemma ground_fold:
  assumes wf: "wf_terms cur (2 * half) deg"
  shows "gsum (fold_terms cur r) half = ground cur half (of_int r)"
proof -
  have "gterm_at (case t of (c, fs) \<Rightarrow> (c, map (\<lambda>f. fold_r f r) fs)) (\<lambda>f. of_int (f ! i))
      = gterm_at t (\<lambda>f. of_int (f ! i) + of_int r * (of_int (f ! (half + i)) - of_int (f ! i)))"
    if "t \<in> set cur" "i < half" for t i
  proof -
    obtain c fs where t: "t = (c, fs)" by (cases t)
    show ?thesis unfolding t prod.case gterm_fold
      using wf that t by (intro gterm_cong) (auto simp: wf_terms_def gl_fold_r)
  qed
  then have "(\<Sum>t\<leftarrow>fold_terms cur r. gterm_at t (\<lambda>f. of_int (f ! i)))
      = (\<Sum>t\<leftarrow>cur. gterm_at t (\<lambda>f. of_int (f ! i) + of_int r * (of_int (f ! (half + i)) - of_int (f ! i))))"
    if "i < half" for i
    using that unfolding fold_terms_def map_map by (intro arg_cong [of _ _ sum_list] map_cong) auto
  then show ?thesis by (simp add: gsum_def ground_def)
qed

text \<open>The round polynomial has at most \<open>deg + 1\<close> coefficients.\<close>

lemma linear_prod_poly:
  "\<exists>cs. length cs = Suc (length ps) \<and> (\<forall>X. peval cs X = k * (\<Prod>(a, b)\<leftarrow>ps. a + X * b))"
  for k :: "'a::comm_ring_1"
proof (induction ps)
  case Nil
  then show ?case by (intro exI [of _ "[k]"]) simp
next
  case (Cons p ps)
  obtain cs where cs: "length cs = Suc (length ps)" "\<And>X. peval cs X = k * (\<Prod>(a, b)\<leftarrow>ps. a + X * b)"
    using Cons.IH by blast
  obtain a b where p: "p = (a, b)" by (cases p)
  let ?ds = "map2 (+) (map ((*) a) (cs @ [0])) (0 # map ((*) b) cs)"
  have "peval ?ds X = a * peval cs X + X * (b * peval cs X)" for X
    by (subst peval_map_add) (simp_all add: peval_map_mult peval_append flip: map_append)
  then have "peval ?ds X = k * (\<Prod>(a, b)\<leftarrow>p # ps. a + X * b)" for X
    using cs(2) by (simp add: p algebra_simps)
  then show ?case using cs(1) by (intro exI [of _ ?ds]) simp
qed

lemma sum_list_poly:
  assumes "\<And>t. t \<in> set ts \<Longrightarrow> \<exists>cs. length cs = d \<and> (\<forall>X. peval cs X = f t X)"
  shows "\<exists>cs. length cs = d \<and> (\<forall>X. peval cs X = (\<Sum>t\<leftarrow>ts. f t X))"
proof -
  have "\<exists>cs. length cs = d \<and> (\<forall>X. peval cs X = (\<Sum>i<length ts. 1 * f (ts ! i) X))"
    using assms by (intro sum_poly) simp
  then show ?thesis by (simp add: sum_list_eq_sum_nth)
qed

lemma poly_pad: "length cs \<le> d \<Longrightarrow> \<exists>ds. length ds = d \<and> (\<forall>X. peval ds X = peval cs X)"
  by (intro exI [of _ "cs @ replicate (d - length cs) 0"]) (simp add: peval_append)

lemma ground_poly:
  assumes wf: "wf_terms cur n deg"
  shows "\<exists>cs. length cs = Suc deg \<and> (\<forall>X. peval cs X = ground cur half X)"
proof -
  have "\<exists>cs. length cs = Suc deg \<and> (\<forall>X. peval cs X =
      gterm_at t (\<lambda>f. of_int (f ! i) + X * (of_int (f ! (half + i)) - of_int (f ! i))))" if "t \<in> set cur" for t i
  proof -
    obtain c fs where t: "t = (c, fs)" by (cases t)
    obtain cs :: "gl list" where cs: "length cs = Suc (length fs)" "\<And>X. peval cs X = of_int c * (\<Prod>f\<leftarrow>fs. of_int (f ! i) + X * (of_int (f ! (half + i)) - of_int (f ! i)))"
      using linear_prod_poly [of "map (\<lambda>f. (of_int (f ! i), of_int (f ! (half + i)) - of_int (f ! i))) fs" "of_int c :: gl"]
      by (simp add: comp_def) blast
    have "length cs \<le> Suc deg" using cs(1) wf that t by (auto simp: wf_terms_def)
    then show ?thesis using poly_pad [of cs "Suc deg"] cs(2) by (simp add: t gterm_at_def)
  qed
  then have "\<exists>cs. length cs = Suc deg \<and> (\<forall>X. peval cs X =
      (\<Sum>t\<leftarrow>cur. gterm_at t (\<lambda>f. of_int (f ! i) + X * (of_int (f ! (half + i)) - of_int (f ! i)))))" for i
    by (rule sum_list_poly)
  then have "\<exists>cs. length cs = Suc deg \<and> (\<forall>X. peval cs X = (\<Sum>i<half. 1 *
      (\<Sum>t\<leftarrow>cur. gterm_at t (\<lambda>f. of_int (f ! i) + X * (of_int (f ! (half + i)) - of_int (f ! i))))))"
    by (intro sum_poly)
  then show ?thesis by (simp add: ground_def)
qed

section \<open>Terminal evaluation\<close>

lemma fold_fold_terms:
  "foldl fold_terms cur rs = map (\<lambda>(c, fs). (c, map (\<lambda>f. foldl fold_r f rs) fs)) cur"
proof (induction rs arbitrary: cur)
  case Nil
  then show ?case by (auto intro!: map_idI [symmetric])
next
  case (Cons r rs)
  then show ?case by (auto simp: fold_terms_def)
qed

lemma length_foldl_fold: "length f = 2 ^ length rs \<Longrightarrow> length (foldl fold_r f rs) = 1"
  by (induction rs arbitrary: f) simp_all

lemma mle_eval_ok:
  assumes "length f = 2 ^ length rs"
  shows "mle_eval f rs = Inr (foldl fold_r f rs ! 0 mod FIELD_P)"
  using length_foldl_fold [OF assms] by (auto simp: mle_eval_def Let_def)

lemma mul_evals_ok:
  "\<forall>f \<in> set fs. length f = 2 ^ length rs \<Longrightarrow>
   \<exists>v. mul_evals p fs rs = Inr v \<and> (of_int v :: gl) = of_int p * (\<Prod>f\<leftarrow>fs. of_int (foldl fold_r f rs ! 0))"
proof (induction fs arbitrary: p)
  case (Cons f fs)
  let ?p = "p * (foldl fold_r f rs ! 0 mod FIELD_P) mod FIELD_P"
  obtain v where "mul_evals ?p fs rs = Inr v" "(of_int v :: gl) = of_int ?p * (\<Prod>f\<leftarrow>fs. of_int (foldl fold_r f rs ! 0))"
    using Cons.IH [of ?p] Cons.prems by auto
  then show ?case using Cons.prems by (simp add: mle_eval_ok mult.assoc)
qed simp

lemma terminal_sum_ok:
  assumes "wf_terms ts (2 ^ length rs) deg"
  shows "\<exists>v. terminal_sum a ts rs = Inr v \<and> (of_int v :: gl) = of_int a + gsum (foldl fold_terms ts rs) 1"
  using assms
proof (induction ts arbitrary: a)
  case Nil
  then show ?case by (simp add: fold_fold_terms gsum_def)
next
  case (Cons t ts)
  obtain c fs where t: "t = (c, fs)" by (cases t)
  obtain p where p: "mul_evals (c mod FIELD_P) fs rs = Inr p"
    "(of_int p :: gl) = of_int c * (\<Prod>f\<leftarrow>fs. of_int (foldl fold_r f rs ! 0))"
    using mul_evals_ok [of fs rs "c mod FIELD_P"] Cons.prems t by (auto simp: wf_terms_def)
  have "wf_terms ts (2 ^ length rs) deg" using Cons.prems by (simp add: wf_terms_def)
  then obtain v where "terminal_sum ((a + p) mod FIELD_P) ts rs = Inr v"
    "(of_int v :: gl) = of_int a + of_int p + gsum (foldl fold_terms ts rs) 1"
    using Cons.IH [of "(a + p) mod FIELD_P"] by auto
  then show ?case using p by (simp add: t fold_fold_terms gsum_def gterm_at_def comp_def add.assoc)
qed

lemma terminal_sum_range:
  "terminal_sum a ts rs = Inr v \<Longrightarrow> 0 \<le> a \<and> a < FIELD_P \<Longrightarrow> 0 \<le> v \<and> v < FIELD_P"
proof (induction ts arbitrary: a)
  case (Cons t ts)
  obtain c fs where t: "t = (c, fs)" by (cases t)
  obtain p where "terminal_sum ((a + p) mod FIELD_P) ts rs = Inr v"
    using Cons.prems(1) by (auto simp: t rbind_Inr_iff)
  then show ?case by (rule Cons.IH) simp
qed simp

lemma wf_foldl:
  "wf_terms cur (2 ^ (length rs + k)) deg \<Longrightarrow> wf_terms (foldl fold_terms cur rs) (2 ^ k) deg"
proof (induction rs arbitrary: cur)
  case (Cons r rs)
  then show ?case using wf_fold [of cur "2 ^ (length rs + k)" deg r] by (simp add: mult.commute)
qed simp

section \<open>Masks\<close>

lemma gl_INV2: "(of_int INV2 :: gl) = inverse 2"
  by (simp add: INV2_def)

lemma gl_sum_list: "(of_int (sum_list u) :: gl) = (\<Sum>x\<leftarrow>u. of_int x)"
  by (induction u) simp_all

lemma mask_poly_sum:
  "(of_int (poly_eval (mask_poly_coeffs mu u) 0) :: gl) + of_int (poly_eval (mask_poly_coeffs mu u) 1) = of_int mu"
proof -
  have one: "peval cs 1 = sum_list cs" for cs :: "gl list" by (induction cs) simp_all
  have "glL (map (\<lambda>x. x mod FIELD_P) u) = glL u" by simp
  then show ?thesis
    by (simp add: gl_poly_eval mask_poly_coeffs_def one gl_INV2 gl_sum_list comp_def field_simps)
qed

text \<open>
  Fact (\<open>mask_tape_bijective\<close>): the masks \<open>h\<close> a tape can produce for a carried mask \<open>mu\<close> are
  exactly the polynomials with \<open>h(0) + h(1) = mu\<close>: each canonical one of degree \<open>d\<close> is produced by
  exactly one canonical tape of \<open>d\<close> fields, which \<open>solve_tape_for_target\<close> returns; any other target is
  refused.
\<close>

theorem mask_tape_bijective:
  assumes c: "canonical h" and ne: "h \<noteq> []"
  shows "solve_tape_for_target mu h =
      (if (poly_eval h 0 + poly_eval h 1) mod FIELD_P = mu mod FIELD_P then Some (tl h) else None) \<and>
    (canonical u \<longrightarrow> (mask_poly_coeffs mu u = h \<longleftrightarrow> solve_tape_for_target mu h = Some u))"
proof -
  have modc: "map (\<lambda>c. c mod FIELD_P) xs = xs" if "canonical xs" for xs
    using that by (auto simp: canonical_def intro!: map_idI)
  obtain a t where h: "h = a # t" using ne by (cases h) auto
  have ct: "canonical t" "0 \<le> a" "a < FIELD_P" using c h by (simp_all add: canonical_def)
  let ?ok = "(poly_eval h 0 + poly_eval h 1) mod FIELD_P = mu mod FIELD_P"
  have sums: "?ok \<longleftrightarrow> (of_int (poly_eval h 0) + of_int (poly_eval h 1) :: gl) = of_int mu"
    by (simp only: gl_eq_iff flip: of_int_add)
  have bk: "mask_poly_coeffs mu t = h" if "?ok"
  proof -
    have one: "peval cs 1 = sum_list cs" for cs :: "gl list" by (induction cs) simp_all
    have "(of_int a + (of_int a + (\<Sum>x\<leftarrow>t. of_int x)) :: gl) = of_int mu"
      using that unfolding sums by (simp add: h gl_poly_eval one)
    then have "(of_int a :: gl) = (of_int mu - (\<Sum>x\<leftarrow>t. of_int x)) * inverse 2" by (simp add: field_simps)
    then have "(of_int (hd (mask_poly_coeffs mu t)) :: gl) = of_int a"
      by (simp add: mask_poly_coeffs_def gl_INV2 gl_sum_list)
    then have "hd (mask_poly_coeffs mu t) = a" using ct by (intro gl_inj_canonical) (simp_all add: mask_poly_coeffs_def)
    then show ?thesis using modc [OF ct(1)] by (simp add: mask_poly_coeffs_def h)
  qed
  have fwd: "?ok" if "mask_poly_coeffs mu u = h" for u
    unfolding sums using mask_poly_sum [of mu u] that by simp
  have "mask_poly_coeffs mu u = h \<Longrightarrow> canonical u \<Longrightarrow> u = t" for u
    using modc [of u] by (simp add: mask_poly_coeffs_def h)
  moreover have "solve_tape_for_target mu h = (if ?ok then Some t else None)"
    using bk modc [OF c] modc [OF ct(1)] by (simp add: solve_tape_for_target_def h)
  ultimately show ?thesis using bk fwd h by auto
qed

theorem mask_tape_bijective_witness:
  "solve_tape_for_target 3 [1, 1] = Some [1] \<and> mask_poly_coeffs 3 [1] = [1, 1]"
proof -
  have c: "canonical [1, 1]" "canonical [1]" by (simp_all add: canonical_def FIELD_P_val)
  have "(poly_eval [1, 1] 0 + poly_eval [1, 1] 1) mod FIELD_P = 3 mod FIELD_P"
    by (simp add: poly_eval_def FIELD_P_val)
  then show ?thesis using mask_tape_bijective [OF c(1), of 3 "[1]"] c(2) by simp
qed

section \<open>Completeness\<close>

text \<open>What the honest round samples interpolate to: the round polynomial plus the round mask.\<close>

lemma round_samples_interp:
  assumes wf: "wf_terms cur n deg" and P: "int (Suc deg) \<le> FIELD_P" and h: "length h \<le> Suc deg"
    and v: "\<And>x. x < Suc deg \<Longrightarrow> (of_int (v x) :: gl) = ground cur half (of_int (int x)) + peval h (of_int (int x))"
  shows "(of_int (lagrange_interpolate (map (\<lambda>x. (int x, v x)) [0..<Suc deg]) t) :: gl) = ground cur half (of_int t) + peval h (of_int t)"
proof -
  obtain cs where cs: "length cs = Suc deg" "\<And>X. peval cs X = ground cur half X"
    using ground_poly [OF wf] by blast
  obtain hs where hs: "length hs = Suc deg" "\<And>X. peval hs X = peval h X" using poly_pad [OF h] by blast
  have e: "peval (map2 (+) cs hs) X = ground cur half X + peval h X" for X
    using cs hs by (simp add: peval_map_add)
  show ?thesis
    using lagrange_interpolate_samples [OF refl P, of "map2 (+) cs hs" v t] cs(1) hs(1) v
    by (simp add: e del: upt_Suc)
qed

lemma vt_round_step:
  assumes len: "length samples = deg + 1"
    and g: "(of_int (lagrange_interpolate samples 0) + of_int (lagrange_interpolate samples 1) :: gl) = of_int claim"
    and c: "0 \<le> claim" "claim < FIELD_P" and d: "draw_coin H cn k samples = Inr (r, cn')" and r: "chals ! k = r"
  shows "vt_rounds H deg k (samples # ps) chals claim cn = vt_rounds H deg (Suc k) ps chals (lagrange_interpolate samples r) cn'"
proof -
  have "(lagrange_interpolate samples 0 + lagrange_interpolate samples 1) mod FIELD_P = claim"
    using g c by (intro mod_eq_by_gl) simp_all
  then show ?thesis using len d r by (simp add: Let_def)
qed

definition carried :: "mask_tape option \<Rightarrow> int \<Rightarrow> gl" where
  "carried tape mu = (if tape = None then 0 else of_int mu)"

lemma first_len_wf: "wf_terms cur n deg \<Longrightarrow> cur \<noteq> [] \<Longrightarrow> snd (hd cur) \<noteq> [] \<Longrightarrow> first_len cur = n"
  by (cases cur; cases "snd (hd cur)") (auto simp: wf_terms_def first_len_def)

lemma fold_terms_hd: "cur \<noteq> [] \<Longrightarrow> snd (hd cur) \<noteq> [] \<Longrightarrow> fold_terms cur r \<noteq> [] \<and> snd (hd (fold_terms cur r)) \<noteq> []"
  by (cases cur) (auto simp: fold_terms_def split: prod.splits)

text \<open>One honest round, masked or not, as the verifier sees it.\<close>

lemma honest_round:
  assumes wf: "wf_terms cur (2 * half) deg" and P: "int (Suc deg) \<le> FIELD_P" and ne: "cur \<noteq> []" "snd (hd cur) \<noteq> []"
    and run: "sc_rounds H deg (rnd # rnds) cur mu tape cn polys chals = Inr res"
  obtains samples r cn' mu' tape' where
    "length samples = deg + 1" "draw_coin H cn rnd samples = Inr (r, cn')"
    "sc_rounds H deg rnds (fold_terms cur r) mu' tape' cn' (polys @ [samples]) (chals @ [r]) = Inr res"
    "(of_int (lagrange_interpolate samples 0) + of_int (lagrange_interpolate samples 1) :: gl) = gsum cur (2 * half) + carried tape mu"
    "(of_int (lagrange_interpolate samples r) :: gl) = gsum (fold_terms cur r) half + carried tape' mu'"
    "tape = None \<longleftrightarrow> tape' = None"
proof (cases tape)
  case None
  let ?s = "map (\<lambda>x. (int x, round_sample cur half (int x))) [0..<Suc deg]"
  have i: "(of_int (lagrange_interpolate ?s t) :: gl) = ground cur half (of_int t)" for t
    using round_samples_interp [OF wf P, of "[]" "\<lambda>x. round_sample cur half (int x)" half t] by (simp add: gl_round_sample)
  have fl: "first_len cur div 2 = half" using first_len_wf [OF wf ne] by simp
  obtain r cn' where "draw_coin H cn rnd ?s = Inr (r, cn')"
    "sc_rounds H deg rnds (fold_terms cur r) mu None cn' (polys @ [?s]) (chals @ [r]) = Inr res"
    using run by (auto simp: None fl Let_def rbind_Inr_iff simp del: upt_Suc)
  then show thesis using None i ground_split [OF wf] ground_fold [OF wf]
    by (intro that [of ?s r cn' mu None]) (simp_all add: carried_def del: upt_Suc)
next
  case (Some tp)
  have fl: "first_len cur div 2 = half" using first_len_wf [OF wf ne] by simp
  obtain u tp' where u: "tape_take tp deg = Inr (u, tp')" "length u = deg"
    using run by (auto simp: Some Let_def rbind_Inr_iff tape_take_def split: if_splits)
  define h where "h = mask_poly_coeffs mu u"
  let ?v = "\<lambda>x. (round_sample cur half (int x) + poly_eval h (int x)) mod FIELD_P"
  let ?s = "map (\<lambda>x. (int x, ?v x)) [0..<Suc deg]"
  have lh: "length h = Suc deg" using u(2) by (simp add: h_def mask_poly_coeffs_def)
  have i: "(of_int (lagrange_interpolate ?s t) :: gl) = ground cur half (of_int t) + of_int (poly_eval h t)" for t
    using round_samples_interp [OF wf P, of "glL h" ?v half t] lh by (simp add: gl_round_sample gl_poly_eval del: upt_Suc)
  have m: "(of_int (poly_eval h 0) + of_int (poly_eval h 1) :: gl) = of_int mu"
    unfolding h_def by (rule mask_poly_sum)
  obtain r cn' where "draw_coin H cn rnd ?s = Inr (r, cn')"
    "sc_rounds H deg rnds (fold_terms cur r) (poly_eval h r) (Some tp') cn' (polys @ [?s]) (chals @ [r]) = Inr res"
    using run u(1) by (auto simp: Some fl Let_def rbind_Inr_iff comp_def h_def simp del: upt_Suc)
  then show thesis using Some i m ground_split [OF wf] ground_fold [OF wf]
    by (intro that [of ?s r cn' "poly_eval h r" "Some tp'"]) (simp_all add: carried_def add_ac del: upt_Suc)
qed

lemma honest_rounds:
  assumes P: "int (Suc deg) \<le> FIELD_P"
  shows "k \<le> n \<Longrightarrow> wf_terms cur (2 ^ (n - k)) deg \<Longrightarrow> cur \<noteq> [] \<Longrightarrow> snd (hd cur) \<noteq> [] \<Longrightarrow> length chals = k \<Longrightarrow>
    sc_rounds H deg [k..<n] cur mu tape cn polys chals = Inr (mu', polys', chals') \<Longrightarrow>
    (of_int claim :: gl) = gsum cur (2 ^ (n - k)) + carried tape mu \<Longrightarrow> 0 \<le> claim \<Longrightarrow> claim < FIELD_P \<Longrightarrow>
    \<exists>ps cs claim'. polys' = polys @ ps \<and> chals' = chals @ cs \<and> length ps = n - k \<and> length cs = n - k \<and>
      vt_rounds H deg k ps chals' claim cn = Inr (Some claim') \<and> 0 \<le> claim' \<and> claim' < FIELD_P \<and>
      (of_int claim' :: gl) = gsum (foldl fold_terms cur cs) 1 + carried tape mu'"
proof (induction "n - k" arbitrary: k cur mu tape cn polys chals claim)
  case 0
  then show ?case by simp
next
  case (Suc d)
  then have k: "k < n" "n - k = Suc (n - Suc k)" by simp_all
  have wf: "wf_terms cur (2 * 2 ^ (n - Suc k)) deg" using Suc.prems(2) k(2) by simp
  have run: "sc_rounds H deg (k # [Suc k..<n]) cur mu tape cn polys chals = Inr (mu', polys', chals')"
    using Suc.prems(6) k(1) by (simp add: upt_conv_Cons del: sc_rounds.simps)
  obtain samples r cn' mu1 tape' where s: "length samples = deg + 1" "draw_coin H cn k samples = Inr (r, cn')"
    "sc_rounds H deg [Suc k..<n] (fold_terms cur r) mu1 tape' cn' (polys @ [samples]) (chals @ [r]) = Inr (mu', polys', chals')"
    "(of_int (lagrange_interpolate samples 0) + of_int (lagrange_interpolate samples 1) :: gl)
      = gsum cur (2 * 2 ^ (n - Suc k)) + carried tape mu"
    "(of_int (lagrange_interpolate samples r) :: gl) = gsum (fold_terms cur r) (2 ^ (n - Suc k)) + carried tape' mu1"
    "tape = None \<longleftrightarrow> tape' = None"
    using honest_round [OF wf P Suc.prems(3,4) run] by blast
  obtain ps cs claim' where IH: "polys' = (polys @ [samples]) @ ps" "chals' = (chals @ [r]) @ cs" "length ps = n - Suc k"
    "length cs = n - Suc k" "vt_rounds H deg (Suc k) ps chals' (lagrange_interpolate samples r) cn' = Inr (Some claim')"
    "0 \<le> claim'" "claim' < FIELD_P" "(of_int claim' :: gl) = gsum (foldl fold_terms (fold_terms cur r) cs) 1 + carried tape' mu'"
    using Suc.hyps(1) [of "Suc k" "fold_terms cur r" "chals @ [r]" mu1 tape' cn' "polys @ [samples]" "lagrange_interpolate samples r"]
      Suc.hyps(2) Suc.prems(5) k wf_fold [OF wf] fold_terms_hd [OF Suc.prems(3,4)] s(3,5) by auto
  have "vt_rounds H deg k (samples # ps) chals' claim cn = vt_rounds H deg (Suc k) ps chals' (lagrange_interpolate samples r) cn'"
    using s(1,2,4) Suc.prems(5,7-9) k IH(2) by (intro vt_round_step) (simp_all add: nth_append)
  then show ?case using IH s(6) k by (intro exI [of _ "samples # ps"] exI [of _ "r # cs"] exI [of _ claim'])
      (auto simp: carried_def)
qed

definition sc_terms_ok :: "sc_term list \<Rightarrow> nat \<Rightarrow> bool" where
  "sc_terms_ok terms n \<longleftrightarrow> terms \<noteq> [] \<and> snd (hd terms) \<noteq> [] \<and>
     list_all (\<lambda>(c, fs). list_all (\<lambda>f. length f = 2 ^ n) fs) terms \<and> int (terms_deg terms) < FIELD_P"

lemma length_le_terms_deg: "t \<in> set terms \<Longrightarrow> length (snd t) \<le> terms_deg terms"
  unfolding terms_deg_def by (rule Max_ge) (auto simp: case_prod_beta)

lemma sc_terms_wf: "sc_terms_ok terms n \<Longrightarrow> wf_terms terms (2 ^ n) (terms_deg terms)"
  using length_le_terms_deg [of _ terms] by (force simp: sc_terms_ok_def wf_terms_def list_all_iff)

lemma remdups_const: "xs \<noteq> [] \<Longrightarrow> \<forall>x \<in> set xs. x = a \<Longrightarrow> remdups xs = [a]"
proof (induction xs)
  case (Cons x xs)
  have x: "x = a" using Cons.prems(2) by simp
  show ?case
  proof (cases "xs = []")
    case False
    then have "remdups xs = [a]" using Cons by simp
    moreover from this have "a \<in> set xs" by (metis list.set_intros(1) set_remdups)
    ultimately show ?thesis using x by simp
  qed (use x in simp)
qed simp

lemma sc_terms_sizes: "sc_terms_ok terms n \<Longrightarrow> term_sizes terms = [2 ^ n]"
  unfolding term_sizes_def by (rule remdups_const) (cases terms; force simp: sc_terms_ok_def list_all_iff)+

lemma expected_rounds_pow2: "expected_rounds (2 ^ n) = Inr n"
  using and_pow2_pred [of n] by (simp add: expected_rounds_def)

lemma gterm_mod: "gterm_at (case t of (c, fs) \<Rightarrow> (c mod FIELD_P, fs)) v = gterm_at t v"
  by (cases t) (simp add: gterm_at_def)

lemma gsum_mod: "gsum (map (\<lambda>(c, fs). (c mod FIELD_P, fs)) ts) n = gsum ts n"
  by (simp add: gsum_def comp_def gterm_mod)

lemma fold_terms_mod: "fold_terms (map (\<lambda>(c, fs). (c mod FIELD_P, fs)) ts) r = map (\<lambda>(c, fs). (c mod FIELD_P, fs)) (fold_terms ts r)"
  by (auto simp: fold_terms_def)

lemma foldl_fold_terms_mod:
  "foldl fold_terms (map (\<lambda>(c, fs). (c mod FIELD_P, fs)) ts) rs = map (\<lambda>(c, fs). (c mod FIELD_P, fs)) (foldl fold_terms ts rs)"
  by (induction rs arbitrary: ts) (simp_all add: fold_terms_mod)

lemma sumcheck_accepts:
  assumes ok: "sc_terms_ok terms n" and run: "prove_terms H terms cn tape mu0 = Inr pf"
    and mask: "tape = None \<Longrightarrow> mu0 mod FIELD_P = 0"
  shows "verify_terms H pf terms cn = Inr True"
proof -
  let ?cur = "map (\<lambda>(c, fs). (c mod FIELD_P, fs)) terms" and ?deg = "terms_deg terms" and ?mu = "mu0 mod FIELD_P"
  have ne: "terms \<noteq> []" "snd (hd terms) \<noteq> []" using ok by (simp_all add: sc_terms_ok_def)
  have wf0: "wf_terms terms (2 ^ n) ?deg" by (rule sc_terms_wf [OF ok])
  have wf: "wf_terms ?cur (2 ^ n) ?deg" using wf0 by (auto simp: wf_terms_def)
  have fl: "first_len terms = 2 ^ n" by (rule first_len_wf [OF wf0 ne])
  have ne': "?cur \<noteq> []" "snd (hd ?cur) \<noteq> []" using ne by (cases terms; auto)+
  have P: "int (Suc ?deg) \<le> FIELD_P" using ok by (simp add: sc_terms_ok_def)
  obtain mu' polys chals where r: "sc_rounds H ?deg [0..<n] ?cur ?mu tape cn [] [] = Inr (mu', polys, chals)"
    and pf: "pf = \<lparr>sc_claim = (true_claim ?cur (2 ^ n) + ?mu) mod FIELD_P, round_polys = polys, challenges = chals,
      final_point = chals, masked = (tape \<noteq> None), final_mask = mu', n_terms = length terms\<rparr>"
    using run ne by (auto simp: prove_terms_def fl Let_def rbind_Inr_iff split: if_splits)
  let ?claim = "sc_claim pf mod FIELD_P"
  have cl: "(of_int ?claim :: gl) = gsum ?cur (2 ^ n) + carried tape ?mu"
  proof -
    have "(of_int mu0 :: gl) = 0" if "tape = None" using mask [OF that] by (metis gl_of_int_mod of_int_0)
    then show ?thesis by (simp add: pf gl_true_claim carried_def)
  qed
  obtain ps cs claim' where h: "polys = ps" "chals = cs" "length ps = n" "length cs = n"
    "vt_rounds H ?deg 0 ps chals ?claim cn = Inr (Some claim')" "0 \<le> claim'" "claim' < FIELD_P"
    "(of_int claim' :: gl) = gsum (foldl fold_terms ?cur cs) 1 + carried tape mu'"
    using honest_rounds [OF P, of 0 n ?cur "[]" H ?mu tape cn "[]" mu' polys chals ?claim] wf ne' r cl by auto
  obtain v where v: "terminal_sum 0 terms cs = Inr v" "(of_int v :: gl) = gsum (foldl fold_terms terms cs) 1"
    using terminal_sum_ok [of terms cs ?deg 0] wf0 h(4) by auto
  have vr: "0 \<le> v" "v < FIELD_P" using terminal_sum_range [OF v(1)] by simp_all
  have "(of_int claim' :: gl) = of_int v + carried tape mu'"
    using h(8) v(2) by (simp add: foldl_fold_terms_mod gsum_mod)
  then have "claim' = (if masked pf then (v + final_mask pf) mod FIELD_P else v)"
    using h(6,7) vr by (intro gl_inj_canonical) (simp_all add: pf carried_def)
  moreover have "round_polys pf = ps" "challenges pf = cs" "final_point pf = cs" "rounds_ok pf n"
    using h(1-4) by (simp_all add: pf rounds_ok_def)
  moreover have "vt_rounds H ?deg 0 ps cs ?claim cn = Inr (Some claim')" using h(2,5) by simp
  ultimately show ?thesis
    using v(1) by (simp only: verify_terms_def sc_terms_sizes [OF ok] expected_rounds_pow2 Let_def
        rbind_simps list.case option.case not_True_eq_False if_False simp_thms)
qed

text \<open>
  Property C20 (\<open>sumcheck_complete\<close>): a proof produced by \<open>prove_terms\<close> is accepted by \<open>verify_terms\<close>
  on the same terms and the same coin source, with or without masks (any tape, any initial mask;
  without a tape the initial mask must be zero), for every power-of-two domain and every number
  of terms and factors.
\<close>

theorem sumcheck_complete:
  assumes ok: "sc_terms_ok terms n" and run: "prove_terms H terms cn tape mu0 = Inr pf"
    and mask: "tape = None \<Longrightarrow> mu0 mod FIELD_P = 0"
  shows "verify_terms H pf terms cn = Inr True"
  using assms by (rule sumcheck_accepts)

lemma toy_prove:
  "\<exists>pf. prove_terms H [(1, [[1, 2], [3, 4]]), (2, [[5, 6]])] (CoinFun (\<lambda>r. Inr 10)) None 0 = Inr pf"
  by (simp add: prove_terms_def first_len_def bit_length.simps Let_def)

theorem sumcheck_complete_witness:
  "\<exists>pf. prove_terms toy_hash [(1, [[1, 2], [3, 4]]), (2, [[5, 6]])] (CoinFun (\<lambda>r. Inr 10)) None 0 = Inr pf \<and>
     verify_terms toy_hash pf [(1, [[1, 2], [3, 4]]), (2, [[5, 6]])] (CoinFun (\<lambda>r. Inr 10)) = Inr True"
proof -
  obtain pf where pf: "prove_terms toy_hash [(1, [[1, 2], [3, 4]]), (2, [[5, 6]])] (CoinFun (\<lambda>r. Inr 10)) None 0 = Inr pf"
    using toy_prove by blast
  have "sc_terms_ok [(1, [[1, 2], [3, 4]]), (2, [[5, 6]])] 1"
    by (simp add: sc_terms_ok_def terms_deg_def FIELD_P_val)
  then show ?thesis using sumcheck_complete [OF _ pf] pf by auto
qed

section \<open>Soundness, round by round\<close>

text \<open>
  The mask a proof carries. \<open>verify_terms\<close> adds the proof's own \<open>final_mask\<close>, so a masked proof
  means something only when that value is authenticated: \<open>mask_authentic\<close> says that it is what the
  masking loop of \<open>prove_terms\<close> carries out of a tape and an initial mask fixed beforehand (the
  committed mask root) along the proof's challenges. \<open>round_mask\<close> is the polynomial the tape then
  adds to the round after the coins \<open>prefix\<close>; it depends on the tape and those coins only.
\<close>

fun carry_mask :: "nat \<Rightarrow> int \<Rightarrow> mask_tape \<Rightarrow> int list \<Rightarrow> (int \<times> mask_tape) result" where
  "carry_mask deg mu tp [] = Inr (mu, tp)"
| "carry_mask deg mu tp (r # rs) =
     rbind (tape_take tp deg) (\<lambda>(u, tp'). carry_mask deg (poly_eval_coeffs (mask_poly_coeffs mu u) r) tp' rs)"

definition round_mask :: "nat \<Rightarrow> int \<Rightarrow> mask_tape option \<Rightarrow> int list \<Rightarrow> int list" where
  "round_mask deg mu tape prefix =
     (case tape of
        None \<Rightarrow> []
      | Some tp \<Rightarrow>
          (case rbind (carry_mask deg mu tp prefix) (\<lambda>(mu', tp'). rbind (tape_take tp' deg) (\<lambda>(u, _). Inr (mask_poly_coeffs mu' u))) of
             Inl _ \<Rightarrow> []
           | Inr h \<Rightarrow> h))"

definition mask_authentic :: "sc_proof \<Rightarrow> nat \<Rightarrow> int \<Rightarrow> mask_tape option \<Rightarrow> bool" where
  "mask_authentic pf deg mu tape =
     (case tape of
        None \<Rightarrow> \<not> masked pf
      | Some tp \<Rightarrow> masked pf \<and> rbind (carry_mask deg mu tp (challenges pf)) (\<lambda>(mu', _). Inr mu') = Inr (final_mask pf))"

text \<open>What the masks add to the claim at a round: nothing without a tape.\<close>

definition mask_at :: "nat \<Rightarrow> int \<Rightarrow> mask_tape option \<Rightarrow> int list \<Rightarrow> gl" where
  "mask_at deg mu tape prefix =
     (case tape of None \<Rightarrow> 0 | Some tp \<Rightarrow> (case carry_mask deg mu tp prefix of Inl _ \<Rightarrow> 0 | Inr (mu', _) \<Rightarrow> of_int mu'))"

lemma carry_mask_append:
  "carry_mask deg mu tp (as @ bs) = rbind (carry_mask deg mu tp as) (\<lambda>(mu', tp'). carry_mask deg mu' tp' bs)"
proof (induction as arbitrary: mu tp)
  case (Cons r as)
  then show ?case by (cases "tape_take tp deg") auto
qed simp

lemma mask_step:
  assumes run: "\<And>tp. tape = Some tp \<Longrightarrow> carry_mask deg mu tp (as @ r # bs) = Inr w"
  shows "mask_at deg mu tape as =
      of_int (poly_eval (round_mask deg mu tape as) 0) + of_int (poly_eval (round_mask deg mu tape as) 1) \<and>
    mask_at deg mu tape (as @ [r]) = of_int (poly_eval (round_mask deg mu tape as) r) \<and>
    length (round_mask deg mu tape as) \<le> Suc deg"
proof (cases tape)
  case None
  then show ?thesis by (simp add: mask_at_def round_mask_def)
next
  case (Some tp)
  obtain mu' tp' u tp'' where c: "carry_mask deg mu tp as = Inr (mu', tp')" "tape_take tp' deg = Inr (u, tp'')"
    using run [OF Some] by (auto simp: carry_mask_append rbind_Inr_iff)
  have "length u = deg" using c(2) by (auto simp: tape_take_def split: if_splits)
  then show ?thesis using c mask_poly_sum [of mu' u]
    by (simp add: Some mask_at_def round_mask_def carry_mask_append) (simp add: mask_poly_coeffs_def)
qed

text \<open>
  The coins that let a wrong round through: those where the sent polynomial meets the true one,
  the round's mask \<open>h\<close> added.
\<close>

definition sc_bad_coins :: "sc_term list \<Rightarrow> nat \<Rightarrow> int list \<Rightarrow> (int \<times> int) list \<Rightarrow> int list \<Rightarrow> int set" where
  "sc_bad_coins terms n prefix samples h =
     {r. 0 \<le> r \<and> r < FIELD_P \<and> lagrange_interpolate samples r =
         (round_sample (foldl fold_terms terms prefix) (2 ^ (n - length prefix - 1)) r + poly_eval_coeffs h r) mod FIELD_P}"

lemma round_sample_range [simp]: "0 \<le> round_sample cur half x" "round_sample cur half x < FIELD_P"
  by (simp_all add: round_sample_def)

lemma gl_masked_sample:
  "(of_int ((round_sample cur half x + poly_eval h x) mod FIELD_P) :: gl) = ground cur half (of_int x) + peval (glL h) (of_int x)"
  by (simp add: gl_round_sample gl_poly_eval)

lemma bad_coins_few:
  assumes wf: "wf_terms (foldl fold_terms terms prefix) m deg" and len: "length samples = Suc deg" "length h \<le> Suc deg"
    and ne: "\<exists>t. lagrange_interpolate samples t \<noteq>
      (round_sample (foldl fold_terms terms prefix) (2 ^ (n - length prefix - 1)) t + poly_eval h t) mod FIELD_P"
  shows "card (sc_bad_coins terms n prefix samples h) \<le> deg"
proof (rule ccontr)
  let ?B = "sc_bad_coins terms n prefix samples h" and ?half = "2 ^ (n - length prefix - 1) :: nat"
  let ?cur = "foldl fold_terms terms prefix"
  let ?v = "\<lambda>t. (round_sample ?cur ?half t + poly_eval h t) mod FIELD_P"
  assume "\<not> card ?B \<le> deg"
  then have B: "Suc deg \<le> card ?B" by simp
  obtain as where as: "length as = Suc deg" "\<And>x. (of_int (lagrange_interpolate samples x) :: gl) = peval as (of_int x)"
    using lagrange_interpolate_poly [of samples] len by auto
  obtain bs where bs: "length bs = Suc deg" "\<And>X. peval bs X = ground ?cur ?half X" using ground_poly [OF wf] by metis
  define cs where "cs = map2 (+) bs (glL h @ replicate (Suc deg - length h) 0)"
  have cs: "length cs = Suc deg" "\<And>X. peval cs X = ground ?cur ?half X + peval (glL h) X"
    using bs len(2) by (simp_all add: cs_def peval_map_add peval_append)
  have inj: "inj_on (of_int :: int \<Rightarrow> gl) ?B" by (auto simp: inj_on_def sc_bad_coins_def intro: gl_inj_canonical)
  have "as = cs"
  proof (rule peval_eq_on_points [where S = "of_int ` ?B"])
    show "finite (of_int ` ?B :: gl set)" by (simp add: sc_bad_coins_def)
    show "length as \<le> card (of_int ` ?B :: gl set)" using B as(1) by (simp add: card_image [OF inj])
    fix x assume "x \<in> (of_int ` ?B :: gl set)"
    then obtain r where "x = of_int r" "lagrange_interpolate samples r = ?v r"
      by (auto simp: sc_bad_coins_def)
    then show "peval as x = peval cs x" using as(2) [of r] by (simp add: cs(2) gl_round_sample gl_poly_eval)
  qed (use as cs in simp)
  then have "(of_int (lagrange_interpolate samples t) :: gl) = of_int (?v t)" for t
    unfolding gl_masked_sample as(2) by (simp add: cs(2))
  then have "lagrange_interpolate samples t = ?v t" for t
    by (intro gl_inj_canonical) simp_all
  then show False using ne by blast
qed

lemma vt_rounds_sound:
  assumes wf: "wf_terms terms (2 ^ n) deg"
    and m: "\<And>j. j < n \<Longrightarrow> m j = (of_int (poly_eval (hs j) 0) :: gl) + of_int (poly_eval (hs j) 1)"
      "\<And>j. j < n \<Longrightarrow> m (Suc j) = of_int (poly_eval (hs j) (chals ! j))" "\<And>j. j < n \<Longrightarrow> length (hs j) \<le> Suc deg"
  shows "vt_rounds H deg k ps chals claim cn = Inr (Some claim') \<Longrightarrow> k + length ps = n \<Longrightarrow> length chals = n \<Longrightarrow>
    (of_int claim :: gl) \<noteq> gsum (foldl fold_terms terms (take k chals)) (2 ^ (n - k)) + m k \<Longrightarrow>
    (of_int claim' :: gl) = gsum (foldl fold_terms terms chals) 1 + m n \<Longrightarrow> 0 \<le> claim \<Longrightarrow> claim < FIELD_P \<Longrightarrow>
    \<exists>j. k \<le> j \<and> j < n \<and> chals ! j \<in> sc_bad_coins terms n (take j chals) (ps ! (j - k)) (hs j) \<and>
      card (sc_bad_coins terms n (take j chals) (ps ! (j - k)) (hs j)) \<le> deg"
proof (induction ps arbitrary: k claim cn)
  case Nil
  then show ?case by simp
next
  case (Cons samples ps)
  let ?g = "lagrange_interpolate samples" and ?cur = "foldl fold_terms terms (take k chals)" and ?half = "2 ^ (n - Suc k) :: nat"
  let ?v = "\<lambda>t. (round_sample ?cur ?half t + poly_eval (hs k) t) mod FIELD_P"
  have k: "k < n" "n - k = Suc (n - Suc k)" using Cons.prems(2) by simp_all
  obtain r cn' where s: "length samples = Suc deg" "(?g 0 + ?g 1) mod FIELD_P = claim" "draw_coin H cn k samples = Inr (r, cn')"
    "r = chals ! k" "vt_rounds H deg (Suc k) ps chals (?g r) cn' = Inr (Some claim')"
    using Cons.prems(1) by (auto simp: Let_def rbind_Inr_iff split: if_splits)
  have r: "0 \<le> r" "r < FIELD_P" using s(3) by (cases cn; auto simp: rbind_Inr_iff)+
  have wfk: "wf_terms ?cur (2 * ?half) deg"
    using wf_foldl [of terms "take k chals" "n - k" deg] wf k Cons.prems(3) by simp
  have lt: "n - length (take k chals) - 1 = n - Suc k" using k Cons.prems(3) by simp
  have cl: "(of_int claim :: gl) = of_int (?g 0) + of_int (?g 1)" using s(2) by (metis gl_of_int_mod of_int_add)
  have "\<exists>t. ?g t \<noteq> ?v t"
  proof (rule ccontr)
    assume "\<nexists>t. ?g t \<noteq> ?v t"
    then have "(of_int claim :: gl) = ground ?cur ?half 0 + ground ?cur ?half 1 + m k"
      using cl gl_masked_sample [of ?cur ?half 0 "hs k"] gl_masked_sample [of ?cur ?half 1 "hs k"] m(1) [OF k(1)]
      by (simp add: gl_poly_eval)
    then show False using Cons.prems(4) ground_split [OF wfk] k by simp
  qed
  then have few: "card (sc_bad_coins terms n (take k chals) samples (hs k)) \<le> deg"
    using bad_coins_few [OF wfk s(1) m(3) [OF k(1)], of n] unfolding lt by simp
  show ?case
  proof (cases "?g r = ?v r")
    case True
    then have "r \<in> sc_bad_coins terms n (take k chals) samples (hs k)" using r lt by (simp add: sc_bad_coins_def)
    then show ?thesis using few s(4) k by (intro exI [of _ k]) simp
  next
    case False
    have nx: "foldl fold_terms terms (take (Suc k) chals) = fold_terms ?cur r"
      using k Cons.prems(3) s(4) by (simp add: take_Suc_conv_app_nth)
    have "(of_int (?g r) :: gl) \<noteq> of_int (?v r)"
    proof
      assume "(of_int (?g r) :: gl) = of_int (?v r)"
      then have "?g r = ?v r" by (rule gl_inj_canonical) simp_all
      then show False using False by simp
    qed
    then have "(of_int (?g r) :: gl) \<noteq> gsum (foldl fold_terms terms (take (Suc k) chals)) (2 ^ (n - Suc k)) + m (Suc k)"
      unfolding nx ground_fold [OF wfk] m(2) [OF k(1)] gl_masked_sample by (simp add: gl_poly_eval flip: s(4))
    then obtain j where j: "Suc k \<le> j" "j < n" "chals ! j \<in> sc_bad_coins terms n (take j chals) (ps ! (j - Suc k)) (hs j)"
      "card (sc_bad_coins terms n (take j chals) (ps ! (j - Suc k)) (hs j)) \<le> deg"
      using Cons.IH [OF s(5)] Cons.prems(2,3,5) by auto
    then have "j - k = Suc (j - Suc k)" by simp
    then have "(samples # ps) ! (j - k) = ps ! (j - Suc k)" by simp
    then show ?thesis using j by (intro exI [of _ j]) simp
  qed
qed

lemma and_pred_pow2:
  assumes n: "0 < n" and a: "n AND (n - 1) = (0 :: nat)"
  shows "n = 2 ^ (bit_length n - 1)"
proof (rule ccontr)
  let ?k = "bit_length n - 1"
  assume ne: "n \<noteq> 2 ^ ?k"
  have b: "2 ^ ?k \<le> n" "n < 2 ^ bit_length n" using bit_length_bounds [OF n] by simp_all
  have pos: "0 < bit_length n" using n by (subst bit_length.simps) simp
  then have "n < 2 * 2 ^ ?k" using b(2) by (simp flip: power_Suc)
  then have d: "n div 2 ^ ?k = 1" "(n - 1) div 2 ^ ?k = 1"
    using b(1) ne by (simp_all add: div_nat_eqI)
  have "bit n ?k" "bit (n - 1) ?k" unfolding bit_iff_odd d by simp_all
  then have "bit (n AND (n - 1)) ?k" by (simp add: bit_and_iff)
  then show False using a by simp
qed

lemma expected_rounds_Inr: "expected_rounds s = Inr n \<Longrightarrow> s = 2 ^ n"
  using and_pred_pow2 [of s] by (auto simp: expected_rounds_def split: if_splits)

lemma term_sizes_wf:
  assumes "term_sizes terms = [m]"
  shows "wf_terms terms m (terms_deg terms)"
proof -
  have "set (map length (concat (map snd terms))) = {m}" using assms unfolding term_sizes_def by (metis set_remdups empty_set list.simps(15))
  then have "length f = m" if "t \<in> set terms" "f \<in> set (snd t)" for t f using that by (force simp: image_iff)
  then show ?thesis using length_le_terms_deg by (auto simp: wf_terms_def)
qed

lemma term_sizes_nonempty: "term_sizes terms = [m] \<Longrightarrow> terms \<noteq> []"
  by (auto simp: term_sizes_def)

lemma verify_terms_parts:
  assumes "verify_terms H pf terms cn = Inr True"
  obtains n claim v where "term_sizes terms = [2 ^ n]" "rounds_ok pf n" "final_point pf = challenges pf"
    "vt_rounds H (terms_deg terms) 0 (round_polys pf) (challenges pf) (sc_claim pf mod FIELD_P) cn = Inr (Some claim)"
    "terminal_sum 0 terms (challenges pf) = Inr v" "claim = (if masked pf then (v + final_mask pf) mod FIELD_P else v)"
proof -
  obtain s where s: "term_sizes terms = [s]"
    using assms by (auto simp: verify_terms_def split: list.splits)
  obtain n where n: "expected_rounds s = Inr n"
    using assms by (auto simp: verify_terms_def s rbind_Inr_iff)
  have "rounds_ok pf n" using assms by (auto simp: verify_terms_def s n split: if_splits)
  moreover from this obtain claim where "vt_rounds H (terms_deg terms) 0 (round_polys pf) (challenges pf) (sc_claim pf mod FIELD_P) cn = Inr (Some claim)"
    using assms by (auto simp: verify_terms_def s n rbind_Inr_iff split: option.splits)
  moreover from calculation have "final_point pf = challenges pf"
    using assms by (auto simp: verify_terms_def s n split: if_splits)
  moreover from calculation obtain v where "terminal_sum 0 terms (challenges pf) = Inr v"
    using assms by (auto simp: verify_terms_def s n rbind_Inr_iff)
  moreover from calculation have "claim = (if masked pf then (v + final_mask pf) mod FIELD_P else v)"
    using assms by (simp add: verify_terms_def s n Let_def)
  ultimately show thesis using that s expected_rounds_Inr [OF n] by blast
qed

lemma sumcheck_verdict:
  assumes acc: "verify_terms H pf terms cn = Inr True" and auth: "mask_authentic pf (terms_deg terms) mu tape"
  shows "\<exists>n. term_sizes terms = [2 ^ n] \<and> length (challenges pf) = n \<and>
    (sc_claim pf mod FIELD_P = (true_claim terms (2 ^ n) + (if masked pf then mu else 0)) mod FIELD_P \<or>
     (\<exists>j < n. let B = sc_bad_coins terms n (take j (challenges pf)) (round_polys pf ! j)
           (round_mask (terms_deg terms) mu tape (take j (challenges pf)))
        in challenges pf ! j \<in> B \<and> card B \<le> terms_deg terms))"
  using acc
proof (rule verify_terms_parts)
  fix n claim v
  let ?deg = "terms_deg terms" and ?cs = "challenges pf"
  let ?m = "\<lambda>j. mask_at ?deg mu tape (take j ?cs)" and ?h = "\<lambda>j. round_mask ?deg mu tape (take j ?cs)"
  assume s: "term_sizes terms = [2 ^ n]" and ok: "rounds_ok pf n" and
    run: "vt_rounds H ?deg 0 (round_polys pf) ?cs (sc_claim pf mod FIELD_P) cn = Inr (Some claim)" and
    t: "terminal_sum 0 terms ?cs = Inr v" and cl: "claim = (if masked pf then (v + final_mask pf) mod FIELD_P else v)"
  have wf: "wf_terms terms (2 ^ n) ?deg" by (rule term_sizes_wf [OF s])
  have len: "length ?cs = n" "length (round_polys pf) = n" using ok by (simp_all add: rounds_ok_def)
  have carry: "\<exists>w. carry_mask ?deg mu tp ?cs = Inr (final_mask pf, w)" if "tape = Some tp" for tp
    using auth that by (auto simp: mask_authentic_def rbind_Inr_iff)
  have split: "?cs = take j ?cs @ ?cs ! j # drop (Suc j) ?cs" if "j < n" for j
    using that len(1) by (simp add: id_take_nth_drop [symmetric])
  have step: "?m j = of_int (poly_eval (?h j) 0) + of_int (poly_eval (?h j) 1) \<and> ?m (Suc j) = of_int (poly_eval (?h j) (?cs ! j)) \<and>
      length (?h j) \<le> Suc ?deg" if j: "j < n" for j
  proof -
    have "\<exists>w. carry_mask ?deg mu tp (take j ?cs @ ?cs ! j # drop (Suc j) ?cs) = Inr w" if "tape = Some tp" for tp
      using carry [OF that] split [OF j] by metis
    then obtain w where "\<And>tp. tape = Some tp \<Longrightarrow> carry_mask ?deg mu tp (take j ?cs @ ?cs ! j # drop (Suc j) ?cs) = Inr w"
      by (cases tape) auto
    moreover have "take (Suc j) ?cs = take j ?cs @ [?cs ! j]" using j len(1) by (simp add: take_Suc_conv_app_nth)
    ultimately show ?thesis using mask_step [where tape = tape and deg = ?deg and mu = mu and as = "take j ?cs" and r = "?cs ! j" and bs = "drop (Suc j) ?cs" and w = w] by simp
  qed
  have m0: "?m 0 = of_int (if masked pf then mu else 0)"
    using auth by (auto simp: mask_at_def mask_authentic_def split: option.splits)
  have mn: "?m n = of_int (if masked pf then final_mask pf else 0)"
    using auth carry len(1) by (auto simp: mask_at_def mask_authentic_def split: option.splits)
  have final: "(of_int claim :: gl) = gsum (foldl fold_terms terms ?cs) 1 + ?m n"
    using terminal_sum_ok [of terms ?cs ?deg 0] wf len t cl unfolding mn by auto
  have right: "sc_claim pf mod FIELD_P = (true_claim terms (2 ^ n) + (if masked pf then mu else 0)) mod FIELD_P"
    if "(of_int (sc_claim pf mod FIELD_P) :: gl) = gsum terms (2 ^ n) + ?m 0"
    using that unfolding m0 by (intro gl_inj_canonical) (simp_all add: gl_true_claim)
  have wrong: "\<exists>j < n. ?cs ! j \<in> sc_bad_coins terms n (take j ?cs) (round_polys pf ! j) (?h j) \<and>
        card (sc_bad_coins terms n (take j ?cs) (round_polys pf ! j) (?h j)) \<le> ?deg"
    if ne: "(of_int (sc_claim pf mod FIELD_P) :: gl) \<noteq> gsum terms (2 ^ n) + ?m 0"
  proof -
    note g = vt_rounds_sound [where m = ?m and hs = ?h, OF wf _ _ _ run]
    show ?thesis using g step ne len final by auto
  qed
  show ?thesis using right wrong s len(1) unfolding Let_def by blast
qed

text \<open>Proofs of the prover are authentic: they carry the mask of the tape they were given.\<close>

lemma sc_rounds_authentic:
  "sc_rounds H deg rnds cur mu tape cn polys chals = Inr (mu', polys', chals') \<Longrightarrow>
    \<exists>cs. chals' = chals @ cs \<and> (\<forall>tp. tape = Some tp \<longrightarrow> (\<exists>tp'. carry_mask deg mu tp cs = Inr (mu', tp')))"
proof (induction rnds arbitrary: cur mu tape cn polys chals)
  case (Cons k rnds)
  show ?case
  proof (cases tape)
    case None
    then obtain r cn' samples where "sc_rounds H deg rnds (fold_terms cur r) mu None cn' (polys @ [samples]) (chals @ [r]) = Inr (mu', polys', chals')"
      using Cons.prems by (auto simp: Let_def rbind_Inr_iff)
    from Cons.IH [OF this] show ?thesis by (auto simp: None)
  next
    case (Some tp)
    then obtain u tp1 r cn' samples where u: "tape_take tp deg = Inr (u, tp1)"
      "sc_rounds H deg rnds (fold_terms cur r) (poly_eval (mask_poly_coeffs mu u) r) (Some tp1) cn' (polys @ [samples]) (chals @ [r])
        = Inr (mu', polys', chals')"
      using Cons.prems by (auto simp: Let_def rbind_Inr_iff)
    from Cons.IH [OF u(2)] show ?thesis using u(1) by (auto simp: Some)
  qed
qed simp

lemma prove_terms_authentic:
  assumes run: "prove_terms H terms cn tape mu0 = Inr pf"
  shows "mask_authentic pf (terms_deg terms) (mu0 mod FIELD_P) tape"
proof -
  obtain mu' polys chals where r: "sc_rounds H (terms_deg terms) [0..<bit_length (first_len terms) - 1]
      (map (\<lambda>(c, fs). (c mod FIELD_P, fs)) terms) (mu0 mod FIELD_P) tape cn [] [] = Inr (mu', polys, chals)"
    and pf: "challenges pf = chals" "masked pf \<longleftrightarrow> tape \<noteq> None" "final_mask pf = mu'"
    using run by (auto simp: prove_terms_def Let_def rbind_Inr_iff split: if_splits)
  show ?thesis using sc_rounds_authentic [OF r] pf by (cases tape) (auto simp: mask_authentic_def)
qed

text \<open>
  Property C2 (\<open>sumcheck_sound\<close>): take an accepted proof, whatever its samples and their abscissas,
  that is unmasked, or masked with a \<open>final_mask\<close> that the masking loop carries out of a tape and an
  initial mask \<open>mu\<close> fixed beforehand. Then its claim is the true sum (plus \<open>mu\<close> when masked), or in
  some round the verifier's coin hit one of at most \<open>deg\<close> field elements fixed by the terms, the
  tape, the earlier coins and that round's samples (where the sent polynomial meets the true one
  plus the round's mask although they differ). \<open>Relations.batch_mask_free\<close> shows that the condition on \<open>final_mask\<close> is needed.
\<close>

theorem sumcheck_sound:
  assumes acc: "verify_terms H pf terms cn = Inr True" and auth: "mask_authentic pf (terms_deg terms) mu tape"
  shows "\<exists>n. term_sizes terms = [2 ^ n] \<and> length (challenges pf) = n \<and>
    (sc_claim pf mod FIELD_P = (true_claim terms (2 ^ n) + (if masked pf then mu else 0)) mod FIELD_P \<or>
     (\<exists>j < n. let B = sc_bad_coins terms n (take j (challenges pf)) (round_polys pf ! j)
           (round_mask (terms_deg terms) mu tape (take j (challenges pf)))
        in challenges pf ! j \<in> B \<and> card B \<le> terms_deg terms))"
  using assms by (rule sumcheck_verdict)

theorem sumcheck_sound_witness:
  "\<exists>pf. verify_terms toy_hash pf [(1, [[1, 2], [3, 4]]), (2, [[5, 6]])] (CoinFun (\<lambda>r. Inr 10)) = Inr True \<and> masked pf \<and>
    mask_authentic pf 2 7 (Some \<lparr>tape_values = [8, 9], tape_pos = 0\<rparr>) \<and>
    (\<exists>n. term_sizes [(1, [[1, 2], [3, 4]]), (2, [[5, 6]])] = [2 ^ n] \<and> length (challenges pf) = n)"
proof -
  let ?t = "[(1, [[1, 2], [3, 4]]), (2, [[5, 6]])]" and ?c = "CoinFun (\<lambda>r. Inr 10)"
  let ?tp = "Some \<lparr>tape_values = [8, 9], tape_pos = 0\<rparr>"
  have d: "terms_deg ?t = 2" by (simp add: terms_deg_def)
  obtain pf where pf: "prove_terms toy_hash ?t ?c ?tp 7 = Inr pf"
    by (simp add: prove_terms_def first_len_def bit_length.simps Let_def d tape_take_def)
  have "sc_terms_ok ?t 1" by (simp add: sc_terms_ok_def d FIELD_P_val)
  then have v: "verify_terms toy_hash pf ?t ?c = Inr True" using sumcheck_accepts [OF _ pf] by simp
  have a: "mask_authentic pf (terms_deg ?t) 7 ?tp" using prove_terms_authentic [OF pf] by (simp add: FIELD_P_val)
  then have "masked pf" by (simp add: mask_authentic_def)
  then show ?thesis using sumcheck_sound [OF v a] v a by (auto simp: d)
qed

section \<open>The single-product wrapper\<close>

lemma mul_evals_range:
  "mul_evals p fs rs = Inr v \<Longrightarrow> 0 \<le> p \<and> p < FIELD_P \<Longrightarrow> 0 \<le> v \<and> v < FIELD_P"
proof (induction fs arbitrary: p)
  case (Cons f fs)
  then obtain q where "mul_evals (q mod FIELD_P) fs rs = Inr v" by (auto simp: rbind_Inr_iff)
  then show ?case by (rule Cons.IH) simp
qed simp

lemma verify_prod_eq:
  "verify_prod H pf factors cn = verify_terms H pf [(1, factors)] cn"
proof -
  have sizes: "term_sizes [(1, factors)] = remdups (map length factors)" by (simp add: term_sizes_def)
  have deg: "terms_deg [(1, factors)] = length factors" by (simp add: terms_deg_def)
  have one: "1 mod FIELD_P = 1" by (simp add: FIELD_P_val)
  have t: "terminal_sum 0 [(1, factors)] rs = mul_evals 1 factors rs" for rs
  proof (cases "mul_evals 1 factors rs")
    case (Inr v)
    have "0 \<le> v \<and> v < FIELD_P" using mul_evals_range [OF Inr] by (simp add: FIELD_P_val)
    then show ?thesis by (simp add: Inr one)
  qed (simp add: one)
  show ?thesis unfolding verify_prod_def verify_terms_def sizes deg t ..
qed

text \<open>
  Fact (\<open>verify_prod_is_verify_terms\<close>): the separately written single-product verifier decides
  exactly as the general one on a single term with coefficient one, errors included.
\<close>

theorem verify_prod_is_verify_terms:
  "verify_prod H pf factors cn = verify_terms H pf [(1, factors)] cn"
  by (rule verify_prod_eq)

text \<open>
  The masked product identity of the module's last section holds for all integers: subtracting
  the authenticated masks recovers the unmasked relation.
\<close>

lemma masked_product_always: "masked_product_ok x y a b c"
proof -
  have "(of_int ((x * y + c) mod FIELD_P - c) :: gl) =
      of_int ((x + a) mod FIELD_P * ((y + b) mod FIELD_P) - (x + a) mod FIELD_P * b - (y + b) mod FIELD_P * a + a * b)"
    by (simp add: algebra_simps)
  then show ?thesis unfolding masked_product_ok_def Let_def by (simp only: gl_eq_iff)
qed

end
