(* ===== verification/Projection.thy ===== *)
theory Projection
  imports Transcript_FS
begin

text \<open>
  The column commitment of \<^verbatim>\<open>layergkr/rs.py\<close> (class \<open>Commit\<close>, CPU backend) and the
  project-before-sumcheck seam of \<^verbatim>\<open>layergkr/projection.py\<close>: enrolment of a weight tensor in
  block-major rows, the projection of messages and codewords, its opening and its verifier.
  The device backends, gated in the code on equality with this one, are not modelled.
\<close>

section \<open>Column commitments\<close>

record commit =
  c_cfg :: config
  c_codewords :: "int list list"
  c_columns :: "int list list"
  c_levels :: "bytes list list"
  c_root :: bytes

text \<open>A codeword shorter than \<open>N_LIG\<close> is an \<open>IndexError\<close>; so is an empty tree's root.\<close>

definition commit_init :: "hashfn \<Rightarrow> config \<Rightarrow> int list list \<Rightarrow> commit result" where
  "commit_init H cfg codewords =
     (if list_ex (\<lambda>cw. length cw < N_LIG cfg) codewords then Inl IndexError
      else let columns = map (\<lambda>j. map (\<lambda>cw. cw ! j) codewords) [0..<N_LIG cfg] in
        rbind (rmap (merkle_leaf H) columns) (\<lambda>leaves.
          let levels = build_tree H leaves in
          if last levels = [] then Inl IndexError
          else Inr \<lparr>c_cfg = cfg, c_codewords = codewords, c_columns = columns, c_levels = levels,
                 c_root = last levels ! 0\<rparr>))"

definition from_messages :: "hashfn \<Rightarrow> config \<Rightarrow> int list list \<Rightarrow> commit result" where
  "from_messages H cfg messages = rbind (rmap (encode_row cfg) messages) (\<lambda>cws. commit_init H cfg cws)"

definition commit_open :: "commit \<Rightarrow> nat \<Rightarrow> (int list \<times> path) result" where
  "commit_open c col =
     (if col \<ge> length (c_columns c) then Inl IndexError
      else rbind (merkle_path (c_levels c) col) (\<lambda>p. Inr (c_columns c ! col, p)))"

definition check_open :: "hashfn \<Rightarrow> commit \<Rightarrow> nat \<Rightarrow> int list \<Rightarrow> path \<Rightarrow> bool result" where
  "check_open H c col vals p =
     rbind (merkle_leaf H vals) (\<lambda>leaf. Inr (merkle_verify H leaf p (c_root c) (int col) (N_LIG (c_cfg c))))"

definition combine :: "commit \<Rightarrow> int list \<Rightarrow> int list result" where
  "combine c coeffs = linear_combination (c_cfg c) (c_codewords c) coeffs"

section \<open>Enrolled weights\<close>

record persistent_weights =
  pw_cfg :: config
  n_in :: nat
  n_out :: nat
  pw_commit :: commit
  messages :: "int list list"
  n_blocks :: nat

definition slice :: "'a list \<Rightarrow> nat \<Rightarrow> nat \<Rightarrow> 'a list" where
  "slice xs lo hi = take (hi - lo) (drop lo xs)"

text \<open>One message: the block's weights of one output, then the tail's padding.\<close>

definition enroll_row :: "config \<Rightarrow> int list list \<Rightarrow> int list list option \<Rightarrow> nat \<Rightarrow> nat \<Rightarrow> nat \<Rightarrow> int list result" where
  "enroll_row cfg W padding nin b i =
     (let lo = b * ELL cfg; hi = min (lo + ELL cfg) nin; pad_len = ELL cfg - (hi - lo) in
      case padding of
        Some pads \<Rightarrow>
          if pad_len = 0 then Inr (slice (W ! i) lo hi)
          else if i \<ge> length pads then Inl IndexError
          else if length (pads ! i) < pad_len then Inl ValueError
          else Inr (slice (W ! i) lo hi @ take pad_len (pads ! i))
      | None \<Rightarrow> Inr (slice (W ! i) lo hi @ replicate pad_len 0))"

definition enroll_messages :: "config \<Rightarrow> int list list \<Rightarrow> int list list option \<Rightarrow> nat \<Rightarrow> nat \<Rightarrow> int list list result" where
  "enroll_messages cfg W padding nin blocks =
     rmap (\<lambda>(b, i). enroll_row cfg W padding nin b i) (List.product [0..<blocks] [0..<length W])"

definition enroll :: "hashfn \<Rightarrow> config \<Rightarrow> int list list \<Rightarrow> int list list option \<Rightarrow> persistent_weights result" where
  "enroll H cfg W padding =
     (if W = [] then Inl IndexError
      else if ELL cfg = 0 then Inl ZeroDivisionError
      else let nin = length (W ! 0); blocks = (nin + ELL cfg - 1) div ELL cfg in
        rbind (enroll_messages cfg W padding nin blocks) (\<lambda>msgs.
        rbind (from_messages H cfg msgs) (\<lambda>c.
          Inr \<lparr>pw_cfg = cfg, n_in = nin, n_out = length W, pw_commit = c, messages = msgs, n_blocks = blocks\<rparr>)))"

definition block_slice :: "persistent_weights \<Rightarrow> nat \<Rightarrow> nat \<times> nat" where
  "block_slice pw b = (let lo = b * ELL (pw_cfg pw) in (lo, min (lo + ELL (pw_cfg pw)) (n_in pw)))"

section \<open>Projecting\<close>

definition pm_step :: "nat \<Rightarrow> int list list \<Rightarrow> nat \<Rightarrow> int list \<Rightarrow> nat \<times> int \<Rightarrow> int list" where
  "pm_step ell msgs base acc p =
     (case p of (i, a) \<Rightarrow>
        if a = 0 then acc
        else foldl (\<lambda>ac j. ac[j := (ac ! j + (msgs ! (base + i)) ! j * a) mod FIELD_P]) acc [0..<ell])"

definition project_message :: "persistent_weights \<Rightarrow> int list \<Rightarrow> int list list result" where
  "project_message pw chi =
     (if length chi \<noteq> n_out pw then Inl ValueError
      else Inr (map (\<lambda>b. foldl (pm_step (ELL (pw_cfg pw)) (messages pw) (b * n_out pw))
             (replicate (ELL (pw_cfg pw)) 0) (zip [0..<length chi] chi)) [0..<n_blocks pw]))"

definition flatten_projection :: "persistent_weights \<Rightarrow> int list list \<Rightarrow> int list" where
  "flatten_projection pw blocks =
     concat (map (\<lambda>(b, msg). case block_slice pw b of (lo, hi) \<Rightarrow> take (hi - lo) msg) (zip [0..<length blocks] blocks))"

definition project_codeword :: "persistent_weights \<Rightarrow> int list \<Rightarrow> int list result" where
  "project_codeword pw chi = (if n_blocks pw \<noteq> 1 then Inl ValueError else combine (pw_commit pw) chi)"

text \<open>Python's slice assignment \<open>v[lo:hi] = chi\<close>.\<close>

definition slice_assign :: "int list \<Rightarrow> nat \<Rightarrow> nat \<Rightarrow> int list \<Rightarrow> int list" where
  "slice_assign v lo hi xs = take lo v @ xs @ drop hi v"

definition commit_projection :: "hashfn \<Rightarrow> persistent_weights \<Rightarrow> int list \<Rightarrow> commit result" where
  "commit_projection H pw chi =
     (if n_blocks pw = 1 then rbind (project_codeword pw chi) (\<lambda>cw. commit_init H (pw_cfg pw) [cw])
      else rbind (rmap (\<lambda>b. combine (pw_commit pw)
               (slice_assign (replicate (n_out pw * n_blocks pw) 0) (b * n_out pw) ((b + 1) * n_out pw) chi))
             [0..<n_blocks pw]) (\<lambda>rows. commit_init H (pw_cfg pw) rows))"

record projection_opening =
  po_columns :: "nat list"
  w_values :: "int list list"
  w_paths :: "path list"
  p_values :: "int list list"
  p_paths :: "path list"

definition open_projection :: "persistent_weights \<Rightarrow> commit \<Rightarrow> nat list \<Rightarrow> projection_opening result" where
  "open_projection pw pc cols =
     rbind (rmap (\<lambda>c. rbind (commit_open (pw_commit pw) c) (\<lambda>w. rbind (commit_open pc c) (\<lambda>p. Inr (w, p)))) cols) (\<lambda>os.
       Inr \<lparr>po_columns = cols, w_values = map (fst \<circ> fst) os, w_paths = map (snd \<circ> fst) os,
            p_values = map (fst \<circ> snd) os, p_paths = map (snd \<circ> snd) os\<rparr>)"

section \<open>The verifier\<close>

definition block_value :: "int list \<Rightarrow> int list \<Rightarrow> nat \<Rightarrow> int" where
  "block_value chi wvals b =
     foldl (\<lambda>acc (a, v). (acc + mul_P a v) mod FIELD_P) 0
       (zip chi (slice wvals (b * length chi) ((b + 1) * length chi)))"

text \<open>One opened column: the two openings, then one equality per block.\<close>

definition verify_column :: "hashfn \<Rightarrow> config \<Rightarrow> bytes \<Rightarrow> bytes \<Rightarrow> int list \<Rightarrow> projection_opening \<Rightarrow> nat \<Rightarrow> bool result" where
  "verify_column H cfg w_root p_root chi o1 k =
     (let c = po_columns o1 ! k; wvals = w_values o1 ! k; n = length chi in
      if n = 0 then Inl ZeroDivisionError
      else if length wvals mod n \<noteq> 0 then Inr False
      else let blocks = length wvals div n; pvals = p_values o1 ! k in
        if length pvals \<noteq> blocks then Inr False
        else if k \<ge> length (w_paths o1) then rbind (merkle_leaf H wvals) (\<lambda>_. Inl IndexError)
        else rbind (merkle_leaf H wvals) (\<lambda>wl.
          if \<not> merkle_verify H wl (w_paths o1 ! k) w_root (int c) (N_LIG cfg) then Inr False
          else rbind (merkle_leaf H pvals) (\<lambda>pl.
            if k \<ge> length (p_paths o1) then Inl IndexError
            else if \<not> merkle_verify H pl (p_paths o1 ! k) p_root (int c) (N_LIG cfg) then Inr False
            else Inr (list_all (\<lambda>b. block_value chi wvals b = pvals ! b) [0..<blocks]))))"

fun verify_columns :: "hashfn \<Rightarrow> config \<Rightarrow> bytes \<Rightarrow> bytes \<Rightarrow> int list \<Rightarrow> projection_opening \<Rightarrow> nat list \<Rightarrow> bool result" where
  "verify_columns H cfg w_root p_root chi o1 [] = Inr True"
| "verify_columns H cfg w_root p_root chi o1 (k # ks) =
     rbind (verify_column H cfg w_root p_root chi o1 k) (\<lambda>ok.
       if \<not> ok then Inr False else verify_columns H cfg w_root p_root chi o1 ks)"

definition verify_projection :: "hashfn \<Rightarrow> config \<Rightarrow> bytes \<Rightarrow> bytes \<Rightarrow> int list \<Rightarrow> projection_opening \<Rightarrow> bool result" where
  "verify_projection H cfg w_root p_root chi o1 =
     (if \<not> (length (po_columns o1) = length (w_values o1) \<and> length (w_values o1) = length (p_values o1)) then Inr False
      else verify_columns H cfg w_root p_root chi o1 [0..<length (po_columns o1)])"

definition count_column_disagreements :: "persistent_weights \<Rightarrow> int list \<Rightarrow> int list \<Rightarrow> nat result" where
  "count_column_disagreements pw chi forged =
     rbind (project_codeword pw chi) (\<lambda>truth. Inr (length (filter (\<lambda>(a, b). a \<noteq> b) (zip truth forged))))"

text \<open>The honest flow of one seam, in schedule order.\<close>

definition run_seam :: "hashfn \<Rightarrow> config \<Rightarrow> persistent_weights \<Rightarrow> transcript \<Rightarrow> nat \<Rightarrow>
    (int list \<times> commit \<times> projection_opening \<times> nat list \<times> transcript) result" where
  "run_seam H cfg pw tr q_columns =
     rbind (coin H tr ''rho'' (n_out pw)) (\<lambda>(rho, tr1).
     rbind (commit_projection H pw rho) (\<lambda>pc.
     rbind (absorb tr1 ''R_P'' (c_root pc)) (\<lambda>tr2.
     rbind (coin H tr2 ''contraction'' 4) (\<lambda>(_, tr3).
     rbind (absorb tr3 ''R_terminal'' (replicate 32 0)) (\<lambda>tr4.
     rbind (coin_bytes H tr4 ''columns'') (\<lambda>(col_seed, tr5).
     rbind (sample_columns H col_seed q_columns (N_LIG cfg)) (\<lambda>cols.
     rbind (open_projection pw pc cols) (\<lambda>o1.
       Inr (rho, pc, o1, cols, tr5)))))))))"

section \<open>Commitments open and bind\<close>

lemma commit_init_facts:
  assumes "commit_init H cfg codewords = Inr cm"
  obtains leaves where "c_cfg cm = cfg" "c_codewords cm = codewords" "rmap (merkle_leaf H) (c_columns cm) = Inr leaves"
    "c_levels cm = build_tree H leaves" "c_root cm = tree_root H leaves" "length leaves = N_LIG cfg"
    "length (c_columns cm) = N_LIG cfg"
    "\<And>j. j < N_LIG cfg \<Longrightarrow> c_columns cm ! j = map (\<lambda>cw. cw ! j) codewords"
proof -
  obtain leaves where l: "rmap (merkle_leaf H) (map (\<lambda>j. map (\<lambda>cw. cw ! j) codewords) [0..<N_LIG cfg]) = Inr leaves"
    "cm = \<lparr>c_cfg = cfg, c_codewords = codewords, c_columns = map (\<lambda>j. map (\<lambda>cw. cw ! j) codewords) [0..<N_LIG cfg],
       c_levels = build_tree H leaves, c_root = last (build_tree H leaves) ! 0\<rparr>"
    using assms by (auto simp: commit_init_def Let_def rbind_Inr_iff split: if_splits)
  then show thesis using that [of leaves] rmap_InrD [OF l(1)] by (simp add: tree_root_def)
qed

lemma leaves32:
  assumes "hash32 H" "rmap (merkle_leaf H) cols = Inr leaves"
  shows "list_all leaf32 leaves"
  unfolding list_all_length
proof (intro allI impI)
  fix k assume "k < length leaves"
  then have "merkle_leaf H (cols ! k) = Inr (leaves ! k)" using rmap_InrD [OF assms(2)] by simp
  then obtain b where "H b = leaves ! k" by (auto simp: merkle_leaf_def rbind_Inr_iff)
  moreover have "length (H b) = 32" using assms(1) by (simp add: hash32_def)
  ultimately show "leaf32 (leaves ! k)" by (simp add: leaf32_def)
qed

lemma commit_open_accepts:
  assumes h: "hash32 H" and cm: "commit_init H cfg codewords = Inr cm" and j: "j < N_LIG cfg"
  shows "\<exists>p leaf. commit_open cm j = Inr (map (\<lambda>cw. cw ! j) codewords, p) \<and>
    merkle_leaf H (map (\<lambda>cw. cw ! j) codewords) = Inr leaf \<and> merkle_verify H leaf p (c_root cm) (int j) (N_LIG cfg)"
proof -
  obtain leaves where l: "rmap (merkle_leaf H) (c_columns cm) = Inr leaves" "c_levels cm = build_tree H leaves"
    "c_root cm = tree_root H leaves" "length leaves = N_LIG cfg" "length (c_columns cm) = N_LIG cfg"
    "\<And>j. j < N_LIG cfg \<Longrightarrow> c_columns cm ! j = map (\<lambda>cw. cw ! j) codewords"
    using commit_init_facts [OF cm] by metis
  obtain p where "merkle_path (build_tree H leaves) j = Inr p"
    "merkle_verify H (leaves ! j) p (tree_root H leaves) (int j) (length leaves)"
    using merkle_vc.opens [OF h leaves32 [OF h l(1)], of j] j l(4) by auto
  moreover have "merkle_leaf H (c_columns cm ! j) = Inr (leaves ! j)" using rmap_InrD [OF l(1)] j l(5) by simp
  ultimately show ?thesis using l j by (simp add: commit_open_def)
qed

text \<open>Two different byte strings with one digest, among those hashed for one column of a commitment.\<close>

definition column_clash :: "hashfn \<Rightarrow> commit \<Rightarrow> nat \<Rightarrow> int list \<Rightarrow> path \<Rightarrow> bool" where
  "column_clash H cm c vals p =
     (case (pack_column vals, pack_column (c_columns cm ! c), commit_open cm c) of
        (Inr a, Inr b, Inr (_, q)) \<Rightarrow> coll H (a # mv_inputs H (H a) c p) (b # mv_inputs H (H b) c q)
      | _ \<Rightarrow> False)"

lemma commit_binding:
  assumes h: "hash32 H" and cm: "commit_init H cfg codewords = Inr cm"
    and a: "merkle_leaf H vals = Inr leaf" and v: "merkle_verify H leaf p (c_root cm) (int j) (N_LIG cfg)"
  shows "j < N_LIG cfg \<and> (vals = map (\<lambda>cw. cw ! j) codewords \<or> column_clash H cm j vals p)"
proof -
  obtain leaves where l: "rmap (merkle_leaf H) (c_columns cm) = Inr leaves" "c_levels cm = build_tree H leaves"
    "c_root cm = tree_root H leaves" "length leaves = N_LIG cfg" "length (c_columns cm) = N_LIG cfg"
    "\<And>j. j < N_LIG cfg \<Longrightarrow> c_columns cm ! j = map (\<lambda>cw. cw ! j) codewords"
    using commit_init_facts [OF cm] by metis
  have j: "j < N_LIG cfg" using v by (simp add: verify_loop)
  obtain x where x: "pack_column vals = Inr x" "leaf = H x" using a by (auto simp: merkle_leaf_def rbind_Inr_iff)
  have "merkle_leaf H (c_columns cm ! j) = Inr (leaves ! j)" using rmap_InrD [OF l(1)] j l(5) by simp
  then obtain y where y: "pack_column (c_columns cm ! j) = Inr y" "leaves ! j = H y"
    by (auto simp: merkle_leaf_def rbind_Inr_iff)
  have "leaf32 leaf" using x h by (simp add: leaf32_def hash32_def)
  then obtain q where q: "merkle_path (build_tree H leaves) j = Inr q" "leaf = leaves ! j \<or> merkle_clash H leaf p (leaves ! j) q (int j)"
    using merkle_vc.opened_value [OF h leaves32 [OF h l(1)], of leaf p "int j"] v l(3,4) by auto
  have "vals = c_columns cm ! j \<or> x \<noteq> y" using pack_column_inj x(1) y(1) by metis
  moreover have "commit_open cm j = Inr (c_columns cm ! j, q)" using q(1) j l(2,5) by (simp add: commit_open_def)
  ultimately have "vals = c_columns cm ! j \<or> column_clash H cm j vals p"
    using q(2) x y by (auto simp: column_clash_def coll_iff merkle_clash_def)
  then show ?thesis using l(6) j by simp
qed

section \<open>The projection is a codeword\<close>

definition pw_ok :: "hashfn \<Rightarrow> persistent_weights \<Rightarrow> bool" where
  "pw_ok H pw \<longleftrightarrow> valid_config (pw_cfg pw) \<and> from_messages H (pw_cfg pw) (messages pw) = Inr (pw_commit pw) \<and>
     list_all (\<lambda>m. length m = ELL (pw_cfg pw)) (messages pw) \<and> length (messages pw) = n_blocks pw * n_out pw"

lemma enroll_row_length:
  assumes "enroll_row cfg W padding nin b i = Inr row" "length (W ! i) = nin" "b * ELL cfg \<le> nin"
  shows "length row = ELL cfg"
  using assms by (auto simp: enroll_row_def Let_def slice_def split: option.splits if_splits)

lemma enroll_ok:
  assumes v: "valid_config cfg" and rows: "list_all (\<lambda>r. length r = length (W ! 0)) W" and e: "enroll H cfg W padding = Inr pw"
  shows "pw_ok H pw \<and> pw_cfg pw = cfg \<and> n_out pw = length W \<and> n_in pw = length (W ! 0)"
proof -
  let ?nin = "length (W ! 0)" and ?bl = "(length (W ! 0) + ELL cfg - 1) div ELL cfg"
  obtain msgs c where m: "enroll_messages cfg W padding ?nin ?bl = Inr msgs" "from_messages H cfg msgs = Inr c" "ELL cfg \<noteq> 0"
    "pw = \<lparr>pw_cfg = cfg, n_in = ?nin, n_out = length W, pw_commit = c, messages = msgs, n_blocks = ?bl\<rparr>"
    using e by (auto simp: enroll_def Let_def rbind_Inr_iff split: if_splits)
  note r = rmap_InrD [OF m(1) [unfolded enroll_messages_def]]
  have "length (msgs ! t) = ELL cfg" if t: "t < length msgs" for t
  proof -
    have t': "t < ?bl * length W" using t r by simp
    then have tb: "t div length W < ?bl" by (simp add: less_mult_imp_div_less)
    have tm: "t mod length W < length W" using t' by (cases "length W") auto
    have "enroll_row cfg W padding ?nin (t div length W) (t mod length W) = Inr (msgs ! t)"
      using r t' tb tm by (auto simp: product_nth)
    moreover from tm have "length (W ! (t mod length W)) = ?nin" using rows by (simp add: list_all_length)
    moreover have "t div length W * ELL cfg \<le> ?nin"
    proof -
      have "(t div length W + 1) * ELL cfg \<le> ?bl * ELL cfg" using tb by (intro mult_le_mono1) simp
      also have "\<dots> \<le> ?nin + ELL cfg - 1" by simp
      finally show ?thesis by simp
    qed
    ultimately show ?thesis by (rule enroll_row_length)
  qed
  then show ?thesis using m v r by (simp add: pw_ok_def list_all_length)
qed

lemma slice_nth: "hi \<le> length xs \<Longrightarrow> i < hi - lo \<Longrightarrow> slice xs lo hi ! i = xs ! (lo + i)"
  by (simp add: slice_def)

lemma length_slice: "hi \<le> length xs \<Longrightarrow> length (slice xs lo hi) = hi - lo"
  by (simp add: slice_def)

lemma combine_rows_cong:
  "length rows = length rows' \<Longrightarrow> (\<And>i t. i < length rows \<Longrightarrow> t < d \<Longrightarrow> cs ! i * rows ! i ! t = cs' ! i * rows' ! i ! t) \<Longrightarrow>
   combine_rows d cs rows = combine_rows d cs' rows'"
  by (auto simp: combine_rows_def)

text \<open>A coefficient vector that is zero outside one block combines that block's rows.\<close>

lemma combine_block:
  assumes len: "length rows = B * n" and b: "b < B" and chi: "length chi = n"
  shows "combine_rows d (slice_assign (replicate (n * B) 0) (b * n) ((b + 1) * n) chi) rows
    = combine_rows d chi (slice rows (b * n) ((b + 1) * n))"
proof -
  let ?v = "slice_assign (replicate (n * B) 0) (b * n) ((b + 1) * n) chi"
  have bn: "b * n + n \<le> B * n" using b by (metis Suc_leI add.commute mult_Suc mult_le_mono1)
  have v: "?v ! i = (if b * n \<le> i \<and> i < b * n + n then chi ! (i - b * n) else 0)" if "i < B * n" for i
    using that chi bn b by (auto simp: slice_assign_def nth_append min_def mult.commute)
  have "(\<Sum>i<B * n. ?v ! i * rows ! i ! t) = (\<Sum>i<n. chi ! i * slice rows (b * n) ((b + 1) * n) ! i ! t)" for t
  proof -
    have "(\<Sum>i<B * n. ?v ! i * rows ! i ! t) = (\<Sum>i\<in>{b * n..<b * n + n}. ?v ! i * rows ! i ! t)"
      using bn v by (intro sum.mono_neutral_right) auto
    also have "\<dots> = (\<Sum>i<n. ?v ! (b * n + i) * rows ! (b * n + i) ! t)"
      using sum.shift_bounds_nat_ivl [of "\<lambda>i. ?v ! i * rows ! i ! t" 0 "b * n" n]
      by (simp add: atLeast0LessThan add.commute)
    also have "\<dots> = (\<Sum>i<n. chi ! i * slice rows (b * n) ((b + 1) * n) ! i ! t)"
      using bn v len by (intro sum.cong) (simp_all add: slice_nth)
    finally show ?thesis .
  qed
  then show ?thesis using len chi length_slice [of "(b + 1) * n" rows "b * n"] bn
    by (simp add: combine_rows_def add.commute)
qed

lemma pm_fold:
  "foldl (pm_step ell msgs base) acc (zip [0..<n] chi) =
   foldl (lc_step (cfg\<lparr>N_LIG := ell\<rparr>)) acc (zip (map (\<lambda>i. msgs ! (base + i)) [0..<n]) chi)"
proof -
  have "pm_step ell msgs base = (\<lambda>acc p. lc_step (cfg\<lparr>N_LIG := ell\<rparr>) acc (case p of (i, a) \<Rightarrow> (msgs ! (base + i), a)))"
    by (intro ext) (simp add: pm_step_def lc_step_def split: prod.split)
  then show ?thesis by (simp add: zip_map1 foldl_map)
qed

lemma lc_foldl_rows:
  assumes "length rows = length coeffs"
  shows "foldl (lc_step cfg) (replicate (N_LIG cfg) 0) (zip rows coeffs) = combine_rows (N_LIG cfg) coeffs rows"
proof (cases "N_LIG cfg = 0")
  case True
  have "foldl (lc_step cfg) [] ps = []" for ps
    using True by (induction ps) (auto simp: lc_step_def)
  then show ?thesis using True by (simp add: combine_rows_def)
next
  case False
  then show ?thesis using linear_combination_eq [OF assms] assms by (simp add: linear_combination_def)
qed

lemma slice_eq_map: "hi \<le> length xs \<Longrightarrow> slice xs lo hi = map (\<lambda>i. xs ! (lo + i)) [0..<hi - lo]"
  by (rule list_eq_nthI) (simp_all add: slice_nth length_slice)

lemma block_bounds: "b < B \<Longrightarrow> b * n + n \<le> B * (n :: nat)"
  by (metis Suc_leI add.commute mult_Suc mult_le_mono1)

lemma project_message_eq:
  assumes ok: "pw_ok H pw" and chi: "length chi = n_out pw"
  shows "project_message pw chi = Inr (map (\<lambda>b. combine_rows (ELL (pw_cfg pw)) chi
    (slice (messages pw) (b * n_out pw) ((b + 1) * n_out pw))) [0..<n_blocks pw])"
proof -
  have "foldl (pm_step (ELL (pw_cfg pw)) (messages pw) (b * n_out pw)) (replicate (ELL (pw_cfg pw)) 0) (zip [0..<n_out pw] chi)
      = combine_rows (ELL (pw_cfg pw)) chi (slice (messages pw) (b * n_out pw) ((b + 1) * n_out pw))"
    if b: "b < n_blocks pw" for b
  proof -
    have "(b + 1) * n_out pw \<le> length (messages pw)"
      using ok block_bounds [OF b, of "n_out pw"] by (simp add: pw_ok_def)
    then have sl: "slice (messages pw) (b * n_out pw) ((b + 1) * n_out pw)
        = map (\<lambda>i. messages pw ! (b * n_out pw + i)) [0..<n_out pw]"
      by (simp add: slice_eq_map)
    show ?thesis
      unfolding pm_fold [where cfg = "pw_cfg pw"] sl
      using lc_foldl_rows [of "map (\<lambda>i. messages pw ! (b * n_out pw + i)) [0..<n_out pw]" chi "pw_cfg pw\<lparr>N_LIG := ELL (pw_cfg pw)\<rparr>"] chi
      by simp
  qed
  then show ?thesis using chi by (simp add: project_message_def)
qed

lemma rmap_slice: "rmap f xs = Inr ys \<Longrightarrow> rmap f (slice xs lo hi) = Inr (slice ys lo hi)"
proof -
  have take: "rmap f xs = Inr ys \<Longrightarrow> rmap f (take k xs) = Inr (take k ys)" for xs ys k
    by (induction xs arbitrary: ys k) (auto simp: rbind_Inr_iff take_Cons split: nat.split)
  have drop: "rmap f xs = Inr ys \<Longrightarrow> rmap f (drop k xs) = Inr (drop k ys)" for xs ys k
    by (induction xs arbitrary: ys k) (auto simp: rbind_Inr_iff drop_Cons split: nat.split)
  assume "rmap f xs = Inr ys"
  then show ?thesis unfolding slice_def by (intro take drop)
qed

lemma pw_codewords:
  assumes ok: "pw_ok H pw"
  shows "rmap (encode_row (pw_cfg pw)) (messages pw) = Inr (c_codewords (pw_commit pw)) \<and> c_cfg (pw_commit pw) = pw_cfg pw \<and>
    commit_init H (pw_cfg pw) (c_codewords (pw_commit pw)) = Inr (pw_commit pw)"
proof -
  obtain cws where "rmap (encode_row (pw_cfg pw)) (messages pw) = Inr cws" "commit_init H (pw_cfg pw) cws = Inr (pw_commit pw)"
    using ok by (auto simp: pw_ok_def from_messages_def rbind_Inr_iff)
  moreover from this(2) have "c_codewords (pw_commit pw) = cws" "c_cfg (pw_commit pw) = pw_cfg pw"
    by (auto elim: commit_init_facts)
  ultimately show ?thesis by simp
qed

lemma slice_all: "slice xs 0 (length xs) = xs"
  by (simp add: slice_def)

lemma commit_projection_rows:
  assumes ok: "pw_ok H pw" and chi: "length chi = n_out pw" and pc: "commit_projection H pw chi = Inr pc"
  shows "commit_init H (pw_cfg pw) (map (\<lambda>b. combine_rows (N_LIG (pw_cfg pw)) chi
      (slice (c_codewords (pw_commit pw)) (b * n_out pw) ((b + 1) * n_out pw))) [0..<n_blocks pw]) = Inr pc"
proof -
  let ?cfg = "pw_cfg pw" and ?cws = "c_codewords (pw_commit pw)" and ?n = "n_out pw" and ?B = "n_blocks pw"
  have len: "length ?cws = ?B * ?n" using pw_codewords [OF ok] rmap_InrD ok by (fastforce simp: pw_ok_def)
  have N: "0 < N_LIG ?cfg" using ok valid_configD by (metis pw_ok_def zero_less_numeral zero_less_power)
  have cfg: "c_cfg (pw_commit pw) = ?cfg" using pw_codewords [OF ok] by simp
  show ?thesis
  proof (cases "?B = 1")
    case True
    then have "combine (pw_commit pw) chi = Inr (combine_rows (N_LIG ?cfg) chi ?cws)"
      using len chi N by (simp add: combine_def cfg linear_combination_eq)
    moreover have "slice ?cws 0 ?n = ?cws" using len True slice_all [of ?cws] by simp
    ultimately show ?thesis using pc True by (simp add: commit_projection_def project_codeword_def)
  next
    case False
    have "combine (pw_commit pw) (slice_assign (replicate (?n * ?B) 0) (b * ?n) ((b + 1) * ?n) chi)
        = Inr (combine_rows (N_LIG ?cfg) chi (slice ?cws (b * ?n) ((b + 1) * ?n)))" if b: "b < ?B" for b
    proof -
      have "length (slice_assign (replicate (?n * ?B) 0) (b * ?n) ((b + 1) * ?n) chi) = ?B * ?n"
        using chi block_bounds [OF b, of ?n] by (simp add: slice_assign_def mult.commute)
      then show ?thesis
        using linear_combination_eq [of ?cws _ ?cfg] N len combine_block [OF len b chi]
        by (simp add: combine_def cfg)
    qed
    then have "rmap (\<lambda>b. combine (pw_commit pw) (slice_assign (replicate (?n * ?B) 0) (b * ?n) ((b + 1) * ?n) chi)) [0..<?B]
        = Inr (map (\<lambda>b. combine_rows (N_LIG ?cfg) chi (slice ?cws (b * ?n) ((b + 1) * ?n))) [0..<?B])"
      by (intro rmap_Inr_map) simp
    then show ?thesis using pc False by (simp add: commit_projection_def)
  qed
qed

lemma projection_encodes:
  assumes ok: "pw_ok H pw" and chi: "length chi = n_out pw" and pc: "commit_projection H pw chi = Inr pc"
  shows "\<exists>pm. project_message pw chi = Inr pm \<and> length pm = n_blocks pw \<and> list_all (\<lambda>m. length m = ELL (pw_cfg pw)) pm \<and>
    rmap (encode_row (pw_cfg pw)) pm = Inr (c_codewords pc)"
proof -
  let ?cfg = "pw_cfg pw" and ?cws = "c_codewords (pw_commit pw)" and ?n = "n_out pw" and ?B = "n_blocks pw"
  let ?m = "\<lambda>b. slice (messages pw) (b * ?n) ((b + 1) * ?n)"
  have cw: "c_codewords pc = map (\<lambda>b. combine_rows (N_LIG ?cfg) chi (slice ?cws (b * ?n) ((b + 1) * ?n))) [0..<?B]"
    using commit_projection_rows [OF assms] by (auto elim: commit_init_facts)
  have "encode_row ?cfg (combine_rows (ELL ?cfg) chi (?m b)) = Inr (combine_rows (N_LIG ?cfg) chi (slice ?cws (b * ?n) ((b + 1) * ?n)))"
    if b: "b < ?B" for b
  proof (rule rs_code.enc_combine)
    show "valid_config ?cfg" using ok by (simp add: pw_ok_def)
    show "\<forall>r \<in> set (?m b). length r = ELL ?cfg"
      using ok set_take_subset set_drop_subset by (fastforce simp: pw_ok_def list_all_iff slice_def)
    show "rmap (encode_row ?cfg) (?m b) = Inr (slice ?cws (b * ?n) ((b + 1) * ?n))"
      using pw_codewords [OF ok] by (intro rmap_slice) simp
    show "length chi = length (?m b)"
      using chi ok block_bounds [OF b, of ?n] by (subst length_slice) (simp_all add: pw_ok_def)
  qed simp
  then have "rmap (encode_row ?cfg) (map (\<lambda>b. combine_rows (ELL ?cfg) chi (?m b)) [0..<?B]) = Inr (c_codewords pc)"
    unfolding cw rmap_map by (intro rmap_Inr_map) simp
  then show ?thesis using project_message_eq [OF ok chi] by (simp add: list_all_iff combine_rows_def)
qed

text \<open>
  Fact (\<open>projection_codewords\<close>): for weights enrolled over rows of equal length, the committed
  projection (computed on the codewords, one block at a time) is exactly the row-by-row encoding
  of the projected messages, padding tails included.
\<close>

theorem projection_codewords:
  assumes v: "valid_config cfg" and rows: "list_all (\<lambda>r. length r = length (W ! 0)) W" and e: "enroll H cfg W padding = Inr pw"
    and chi: "length chi = length W" and pc: "commit_projection H pw chi = Inr pc"
  shows "\<exists>pm. project_message pw chi = Inr pm \<and> length pm = n_blocks pw \<and> rmap (encode_row cfg) pm = Inr (c_codewords pc)"
  using projection_encodes [of H pw chi pc] enroll_ok [OF v rows e] chi pc by auto
lemma pack_canonical: "canonical xs \<Longrightarrow> \<exists>p. pack_column xs = Inr p"
proof (induction xs)
  case (Cons x xs)
  then have "0 \<le> x" "x < 256 ^ 8" "canonical xs" by (simp_all add: canonical_def FIELD_P_val)
  then show ?case using Cons.IH by (auto simp: pack_column_Cons to_bytes_def)
qed simp

lemma commit_init_total:
  assumes "\<forall>cw \<in> set cws. canonical cw \<and> length cw = N_LIG cfg" and N: "0 < N_LIG cfg"
  shows "\<exists>cm. commit_init H cfg cws = Inr cm"
proof -
  have "\<exists>l. merkle_leaf H (map (\<lambda>cw. cw ! j) cws) = Inr l" if "j < N_LIG cfg" for j
  proof -
    have "canonical (map (\<lambda>cw. cw ! j) cws)" using assms(1) that by (auto simp: canonical_def)
    then show ?thesis using pack_canonical by (fastforce simp: merkle_leaf_def)
  qed
  then obtain g where g: "\<And>j. j < N_LIG cfg \<Longrightarrow> merkle_leaf H (map (\<lambda>cw. cw ! j) cws) = Inr (g j)" by metis
  then have r: "rmap (merkle_leaf H) (map (\<lambda>j. map (\<lambda>cw. cw ! j) cws) [0..<N_LIG cfg]) = Inr (map g [0..<N_LIG cfg])"
    unfolding rmap_map by (intro rmap_Inr_map) simp
  have ne: "xs \<noteq> [] \<Longrightarrow> last (build_tree H xs) \<noteq> []" for xs
  proof (induction "length xs" arbitrary: xs rule: less_induct)
    case less
    show ?case
    proof (cases "1 < length xs")
      case True
      then have "tree_next H xs \<noteq> []" by (auto simp: tree_next_def)
      then show ?thesis using less.hyps [of "tree_next H xs"] True by (simp add: build_tree.simps [of H xs])
    qed (use less in \<open>simp add: build_tree.simps [of H xs]\<close>)
  qed
  show ?thesis using r ne [of "map g [0..<N_LIG cfg]"] N assms(1) by (auto simp: commit_init_def Let_def list_ex_iff)
qed

lemma from_messages_total:
  assumes v: "valid_config cfg" and m: "list_all (\<lambda>m. length m \<le> ELL cfg) msgs"
  shows "\<exists>cm. from_messages H cfg msgs = Inr cm"
proof -
  have "\<exists>cw. encode_row cfg m = Inr cw \<and> canonical cw \<and> length cw = N_LIG cfg" if "m \<in> set msgs" for m
    using rs_code.enc_total [OF v] m that by (auto simp: list_all_iff)
  then obtain g where g: "\<And>m. m \<in> set msgs \<Longrightarrow> encode_row cfg m = Inr (g m) \<and> canonical (g m) \<and> length (g m) = N_LIG cfg"
    by metis
  have N: "0 < N_LIG cfg" using v valid_configD by (metis zero_less_numeral zero_less_power)
  have "rmap (encode_row cfg) msgs = Inr (map g msgs)" using g by (intro rmap_Inr_map) simp
  moreover obtain cm where "commit_init H cfg (map g msgs) = Inr cm"
    using commit_init_total [of "map g msgs" cfg H] g N by auto
  ultimately show ?thesis by (auto simp: from_messages_def)
qed

lemma toy_enroll: "\<exists>pw. enroll toy_hash cfg_toy [[1, 2, 3], [4, 5, 6]] None = Inr pw"
proof -
  let ?W = "[[1, 2, 3], [4, 5, 6 :: int]]"
  let ?nin = "length (?W ! 0)"
  let ?bl = "(?nin + ELL cfg_toy - 1) div ELL cfg_toy"
  have e2: "ELL cfg_toy = 2" by (simp add: cfg_toy_def)
  have bl: "?bl = 2" by (simp add: e2)
  have "\<exists>msgs. enroll_messages cfg_toy ?W None ?nin ?bl = Inr msgs \<and> list_all (\<lambda>m. length m \<le> ELL cfg_toy) msgs"
    unfolding bl e2 by (simp add: enroll_messages_def enroll_row_def Let_def slice_def e2 upt_rec)
  then obtain msgs where m: "enroll_messages cfg_toy ?W None ?nin ?bl = Inr msgs"
    "list_all (\<lambda>m. length m \<le> ELL cfg_toy) msgs" by blast
  obtain cm where "from_messages toy_hash cfg_toy msgs = Inr cm" using from_messages_total [OF valid_cfg_toy m(2)] by blast
  then show ?thesis unfolding enroll_def Let_def m(1) by (simp add: e2)
qed

lemma commit_projection_total:
  assumes ok: "pw_ok H pw" and chi: "length chi = n_out pw"
  shows "\<exists>pc. commit_projection H pw chi = Inr pc"
proof -
  let ?cfg = "pw_cfg pw" and ?cws = "c_codewords (pw_commit pw)" and ?n = "n_out pw" and ?B = "n_blocks pw"
  have len: "length ?cws = ?B * ?n" using pw_codewords [OF ok] rmap_InrD ok by (fastforce simp: pw_ok_def)
  have N: "0 < N_LIG ?cfg" using ok valid_configD by (metis pw_ok_def zero_less_numeral zero_less_power)
  have cfg: "c_cfg (pw_commit pw) = ?cfg" using pw_codewords [OF ok] by simp
  have can: "canonical (combine_rows (N_LIG ?cfg) cs rows) \<and> length (combine_rows (N_LIG ?cfg) cs rows) = N_LIG ?cfg" for cs rows
    by (auto simp: combine_rows_def canonical_def)
  have comb: "\<exists>r. combine (pw_commit pw) cs = Inr r \<and> canonical r \<and> length r = N_LIG ?cfg" if "length cs = ?B * ?n" for cs
    using linear_combination_eq [of ?cws cs ?cfg] that len N can by (simp add: combine_def cfg)
  show ?thesis
  proof (cases "?B = 1")
    case True
    then obtain r where "combine (pw_commit pw) chi = Inr r" "canonical r" "length r = N_LIG ?cfg" using comb [of chi] chi by auto
    then show ?thesis using True commit_init_total [of "[r]" ?cfg H] N by (simp add: commit_projection_def project_codeword_def)
  next
    case False
    let ?s = "\<lambda>b. slice_assign (replicate (?n * ?B) 0) (b * ?n) ((b + 1) * ?n) chi"
    have "\<exists>r. combine (pw_commit pw) (?s b) = Inr r \<and> canonical r \<and> length r = N_LIG ?cfg" if b: "b < ?B" for b
      using chi block_bounds [OF b, of ?n] by (intro comb) (simp add: slice_assign_def mult.commute)
    then obtain g where g: "\<And>b. b < ?B \<Longrightarrow> combine (pw_commit pw) (?s b) = Inr (g b) \<and> canonical (g b) \<and> length (g b) = N_LIG ?cfg"
      by metis
    then have "rmap (\<lambda>b. combine (pw_commit pw) (?s b)) [0..<?B] = Inr (map g [0..<?B])" by (intro rmap_Inr_map) simp
    then show ?thesis using False g N commit_init_total [of "map g [0..<?B]" ?cfg H] by (simp add: commit_projection_def)
  qed
qed

theorem projection_codewords_witness:
  "\<exists>pw pc pm. enroll toy_hash cfg_toy [[1, 2, 3], [4, 5, 6]] None = Inr pw \<and> commit_projection toy_hash pw [7, 8] = Inr pc \<and>
    project_message pw [7, 8] = Inr pm \<and> rmap (encode_row cfg_toy) pm = Inr (c_codewords pc)"
proof -
  obtain pw where pw: "enroll toy_hash cfg_toy [[1, 2, 3], [4, 5, 6]] None = Inr pw" using toy_enroll by blast
  have rows: "list_all (\<lambda>r. length r = length ([[1, 2, 3], [4, 5, 6 :: int]] ! 0)) [[1, 2, 3], [4, 5, 6 :: int]]" by simp
  have ok: "pw_ok toy_hash pw" "n_out pw = 2" using enroll_ok [OF valid_cfg_toy rows pw] by simp_all
  obtain pc where pc: "commit_projection toy_hash pw [7, 8] = Inr pc" using commit_projection_total [OF ok(1)] ok(2) by fastforce
  show ?thesis using projection_codewords [OF valid_cfg_toy rows pw _ pc] pw pc by auto
qed

section \<open>The seam verifier\<close>

lemma gl_block_value:
  "(of_int (block_value chi w b) :: gl) = (\<Sum>(a, v) \<leftarrow> zip chi (slice w (b * length chi) ((b + 1) * length chi)). of_int a * of_int v)"
proof -
  have "(of_int (foldl (\<lambda>acc (a, v). (acc + mul_P a v) mod FIELD_P) s ps) :: gl) = of_int s + (\<Sum>(a, v) \<leftarrow> ps. of_int a * of_int v)" for s ps
    by (induction ps arbitrary: s) (auto simp: add.assoc)
  then show ?thesis by (simp add: block_value_def)
qed

lemma block_value_range: "0 \<le> block_value chi w b \<and> block_value chi w b < FIELD_P"
  unfolding block_value_def by (rule foldl_invariant) auto

text \<open>At a column of the committed codewords, the block value is the combined codeword's entry.\<close>

lemma block_value_codeword:
  assumes len: "length cws = B * length chi" and b: "b < B" and j: "j < N"
  shows "block_value chi (map (\<lambda>cw. cw ! j) cws) b
    = combine_rows N chi (slice cws (b * length chi) ((b + 1) * length chi)) ! j"
proof (rule gl_inj_canonical)
  let ?n = "length chi"
  have bn: "(b + 1) * ?n \<le> length cws" using len block_bounds [OF b, of ?n] by simp
  show "(of_int (block_value chi (map (\<lambda>cw. cw ! j) cws) b) :: gl)
      = of_int (combine_rows N chi (slice cws (b * ?n) ((b + 1) * ?n)) ! j)"
    using bn j by (simp add: gl_block_value combine_rows_def sum_list_eq_sum_nth slice_eq_map length_slice)
  show "0 \<le> block_value chi (map (\<lambda>cw. cw ! j) cws) b" "block_value chi (map (\<lambda>cw. cw ! j) cws) b < FIELD_P"
    using block_value_range by simp_all
  show "0 \<le> combine_rows N chi (slice cws (b * ?n) ((b + 1) * ?n)) ! j" "combine_rows N chi (slice cws (b * ?n) ((b + 1) * ?n)) ! j < FIELD_P"
    using j by (simp_all add: combine_rows_def)
qed

lemma slice_map: "slice (map f xs) lo hi = map f (slice xs lo hi)"
  by (simp add: slice_def take_map drop_map)

lemma verify_column_True:
  assumes "verify_column H cfg w_root p_root chi o1 k = Inr True"
  shows "\<exists>wl pl. chi \<noteq> [] \<and> merkle_leaf H (w_values o1 ! k) = Inr wl \<and> merkle_leaf H (p_values o1 ! k) = Inr pl \<and>
    merkle_verify H wl (w_paths o1 ! k) w_root (int (po_columns o1 ! k)) (N_LIG cfg) \<and>
    merkle_verify H pl (p_paths o1 ! k) p_root (int (po_columns o1 ! k)) (N_LIG cfg) \<and>
    length (p_values o1 ! k) = length (w_values o1 ! k) div length chi \<and>
    (\<forall>b < length (p_values o1 ! k). block_value chi (w_values o1 ! k) b = p_values o1 ! k ! b)"
  using assms by (auto simp: verify_column_def Let_def rbind_Inr_iff list_all_iff split: if_splits)

lemma verify_columns_True:
  "verify_columns H cfg w_root p_root chi o1 ks = Inr True \<Longrightarrow> \<forall>k \<in> set ks. verify_column H cfg w_root p_root chi o1 k = Inr True"
  by (induction ks) (auto simp: rbind_Inr_iff split: if_splits)

lemma verify_columns_all:
  "\<forall>k \<in> set ks. verify_column H cfg w_root p_root chi o1 k = Inr True \<Longrightarrow> verify_columns H cfg w_root p_root chi o1 ks = Inr True"
  by (induction ks) simp_all

lemma seam_accepts:
  assumes h: "hash32 H" and v: "valid_config cfg" and rows: "list_all (\<lambda>r. length r = length (W ! 0)) W"
    and e: "enroll H cfg W padding = Inr pw" and chi: "length chi = length W" "chi \<noteq> []"
    and pc: "commit_projection H pw chi = Inr pc" and cols: "\<forall>c \<in> set cols. c < N_LIG cfg"
  shows "\<exists>o1. open_projection pw pc cols = Inr o1 \<and>
    verify_projection H cfg (c_root (pw_commit pw)) (c_root pc) chi o1 = Inr True"
proof -
  have ok: "pw_ok H pw" "pw_cfg pw = cfg" "n_out pw = length W" using enroll_ok [OF v rows e] by simp_all
  let ?cws = "c_codewords (pw_commit pw)" and ?n = "length chi" and ?B = "n_blocks pw"
  let ?rows = "map (\<lambda>b. combine_rows (N_LIG cfg) chi (slice ?cws (b * ?n) ((b + 1) * ?n))) [0..<?B]"
  have wc: "commit_init H cfg ?cws = Inr (pw_commit pw)" using pw_codewords [OF ok(1)] ok(2) by simp
  have len: "length ?cws = ?B * ?n" using pw_codewords [OF ok(1)] rmap_InrD ok chi by (fastforce simp: pw_ok_def)
  have pi: "commit_init H cfg ?rows = Inr pc" using commit_projection_rows [OF ok(1) _ pc] ok chi by simp
  define wv where "wv c = map (\<lambda>cw. cw ! c) ?cws" for c
  define pv where "pv c = map (\<lambda>cw. cw ! c) ?rows" for c
  have "\<forall>c. \<exists>wp pp wl pl. c < N_LIG cfg \<longrightarrow> commit_open (pw_commit pw) c = Inr (wv c, wp) \<and> commit_open pc c = Inr (pv c, pp) \<and>
      merkle_leaf H (wv c) = Inr wl \<and> merkle_leaf H (pv c) = Inr pl \<and>
      merkle_verify H wl wp (c_root (pw_commit pw)) (int c) (N_LIG cfg) \<and> merkle_verify H pl pp (c_root pc) (int c) (N_LIG cfg)"
    using commit_open_accepts [OF h wc] commit_open_accepts [OF h pi] unfolding wv_def pv_def by meson
  then obtain wp pp wl pl where op: "\<And>c. c < N_LIG cfg \<Longrightarrow> commit_open (pw_commit pw) c = Inr (wv c, wp c) \<and>
      commit_open pc c = Inr (pv c, pp c) \<and> merkle_leaf H (wv c) = Inr (wl c) \<and> merkle_leaf H (pv c) = Inr (pl c) \<and>
      merkle_verify H (wl c) (wp c) (c_root (pw_commit pw)) (int c) (N_LIG cfg) \<and> merkle_verify H (pl c) (pp c) (c_root pc) (int c) (N_LIG cfg)"
    by metis
  let ?o = "\<lparr>po_columns = cols, w_values = map wv cols, w_paths = map wp cols, p_values = map pv cols, p_paths = map pp cols\<rparr>"
  have "rmap (\<lambda>c. rbind (commit_open (pw_commit pw) c) (\<lambda>w. rbind (commit_open pc c) (\<lambda>p. Inr (w, p)))) cols
      = Inr (map (\<lambda>c. ((wv c, wp c), (pv c, pp c))) cols)"
    using op cols by (intro rmap_Inr_map) simp
  then have o1: "open_projection pw pc cols = Inr ?o" by (simp add: open_projection_def comp_def)
  have "verify_column H cfg (c_root (pw_commit pw)) (c_root pc) chi ?o k = Inr True" if k: "k < length cols" for k
  proof -
    let ?c = "cols ! k"
    have c: "?c < N_LIG cfg" using cols k by simp
    have l: "length (wv ?c) = ?B * ?n" "length (pv ?c) = ?B" by (simp_all add: wv_def pv_def len)
    have "block_value chi (wv ?c) b = pv ?c ! b" if "b < ?B" for b
      unfolding wv_def pv_def using block_value_codeword [OF len that c] that by simp
    then show ?thesis using op [OF c] k l chi(2) by (simp add: verify_column_def Let_def list_all_iff)
  qed
  then have "verify_columns H cfg (c_root (pw_commit pw)) (c_root pc) chi ?o [0..<length cols] = Inr True"
    by (intro verify_columns_all) simp
  then show ?thesis using o1 by (simp add: verify_projection_def)
qed

text \<open>
  Property C19 (\<open>projection_complete\<close>): the honest opening of the committed projection at any columns
  in range is accepted against the two roots.
\<close>

theorem projection_complete:
  assumes h: "hash32 H" and v: "valid_config cfg" and rows: "list_all (\<lambda>r. length r = length (W ! 0)) W"
    and e: "enroll H cfg W padding = Inr pw" and chi: "length chi = length W" "chi \<noteq> []"
    and pc: "commit_projection H pw chi = Inr pc" and cols: "\<forall>c \<in> set cols. c < N_LIG cfg"
  shows "\<exists>o1. open_projection pw pc cols = Inr o1 \<and>
    verify_projection H cfg (c_root (pw_commit pw)) (c_root pc) chi o1 = Inr True"
  using assms by (rule seam_accepts)

theorem projection_complete_witness:
  "\<exists>pw pc o1. enroll toy_hash cfg_toy [[1, 2, 3], [4, 5, 6]] None = Inr pw \<and> commit_projection toy_hash pw [7, 8] = Inr pc \<and>
    open_projection pw pc [5, 0] = Inr o1 \<and>
    verify_projection toy_hash cfg_toy (c_root (pw_commit pw)) (c_root pc) [7, 8] o1 = Inr True"
proof -
  obtain pw where pw: "enroll toy_hash cfg_toy [[1, 2, 3], [4, 5, 6]] None = Inr pw" using toy_enroll by blast
  have rows: "list_all (\<lambda>r. length r = length ([[1, 2, 3], [4, 5, 6 :: int]] ! 0)) [[1, 2, 3], [4, 5, 6 :: int]]" by simp
  have ok: "pw_ok toy_hash pw" "n_out pw = 2" using enroll_ok [OF valid_cfg_toy rows pw] by simp_all
  obtain pc where pc: "commit_projection toy_hash pw [7, 8] = Inr pc" using commit_projection_total [OF ok(1)] ok(2) by fastforce
  have l: "length [7, 8 :: int] = length [[1, 2, 3], [4, 5, 6 :: int]]" by simp
  have ne: "[7, 8 :: int] \<noteq> []" by simp
  have c: "\<forall>c \<in> set [5, 0]. c < N_LIG cfg_toy" by (simp add: cfg_toy_def)
  obtain o1 where v: "verify_projection toy_hash cfg_toy (c_root (pw_commit pw)) (c_root pc) [7, 8] o1 = Inr True"
    using seam_accepts [OF hash32_toy valid_cfg_toy rows pw l ne pc c] by blast
  show ?thesis using pw pc projection_complete [OF hash32_toy valid_cfg_toy rows pw l ne pc c] by blast
qed

lemma project_message_canonical:
  assumes ok: "pw_ok H pw" and chi: "length chi = n_out pw" and pm: "project_message pw chi = Inr pm"
  shows "list_all (\<lambda>m. length m = ELL (pw_cfg pw) \<and> canonical m) pm"
  using project_message_eq [OF ok chi] pm by (auto simp: list_all_iff canonical_def combine_rows_def)

lemma commit_projection_from_messages:
  assumes ok: "pw_ok H pw" and chi: "length chi = n_out pw" and pc: "commit_projection H pw chi = Inr pc"
    and pm: "project_message pw chi = Inr pm"
  shows "from_messages H (pw_cfg pw) pm = Inr pc"
proof -
  have r: "rmap (encode_row (pw_cfg pw)) pm = Inr (c_codewords pc)" using projection_encodes [OF ok chi pc] pm by auto
  have "commit_init H (pw_cfg pw) (c_codewords pc) = Inr pc"
    using commit_projection_rows [OF ok chi pc] by (metis commit_init_facts)
  then show ?thesis using r by (simp add: from_messages_def)
qed

text \<open>One accepted column, no collision at it: the committed message codewords agree there with the projection.\<close>

lemma accepted_column:
  assumes h: "hash32 H" and wc: "commit_init H cfg cws = Inr cm" and gw: "commit_init H cfg gws = Inr pc"
    and len: "length cws = B * length chi"
    and vc: "verify_column H cfg (c_root cm) (c_root pc) chi o1 k = Inr True"
    and nw: "\<not> column_clash H cm (po_columns o1 ! k) (w_values o1 ! k) (w_paths o1 ! k)"
    and np: "\<not> column_clash H pc (po_columns o1 ! k) (p_values o1 ! k) (p_paths o1 ! k)"
  shows "length gws = B \<and> po_columns o1 ! k < N_LIG cfg \<and>
    (\<forall>b < B. gws ! b ! (po_columns o1 ! k)
      = combine_rows (N_LIG cfg) chi (slice cws (b * length chi) ((b + 1) * length chi)) ! (po_columns o1 ! k))"
proof -
  let ?c = "po_columns o1 ! k"
  obtain wl pl where f: "chi \<noteq> []" "merkle_leaf H (w_values o1 ! k) = Inr wl" "merkle_leaf H (p_values o1 ! k) = Inr pl"
    "merkle_verify H wl (w_paths o1 ! k) (c_root cm) (int ?c) (N_LIG cfg)"
    "merkle_verify H pl (p_paths o1 ! k) (c_root pc) (int ?c) (N_LIG cfg)"
    "length (p_values o1 ! k) = length (w_values o1 ! k) div length chi"
    "\<forall>b < length (p_values o1 ! k). block_value chi (w_values o1 ! k) b = p_values o1 ! k ! b"
    using verify_column_True [OF vc] by blast
  have w: "w_values o1 ! k = map (\<lambda>cw. cw ! ?c) cws" and c: "?c < N_LIG cfg"
    using commit_binding [OF h wc f(2,4)] nw by auto
  have p: "p_values o1 ! k = map (\<lambda>cw. cw ! ?c) gws" using commit_binding [OF h gw f(3,5)] np by auto
  have lg: "length gws = B" using f(1,6) p w len by simp
  have "gws ! b ! ?c = combine_rows (N_LIG cfg) chi (slice cws (b * length chi) ((b + 1) * length chi)) ! ?c" if "b < B" for b
  proof -
    have "gws ! b ! ?c = block_value chi (map (\<lambda>cw. cw ! ?c) cws) b" using f(7) that lg p w by simp
    then show ?thesis using block_value_codeword [OF len that c] by simp
  qed
  then show ?thesis using lg c by blast
qed

text \<open>
  Property C1 (\<open>projection_sound\<close>): let a prover commit any messages it likes as the projection. If
  the seam verifier accepts, then the messages are the true projection of the enrolled weights,
  or fewer than \<open>K_DEG\<close> different columns were opened, or one of the opened columns comes with a
  hash collision. With more distinct columns than \<open>K_DEG\<close> a forged projection is always caught,
  and each sampled column catches it with probability at least \<open>1 - K_DEG / N_LIG\<close>.
\<close>

theorem projection_sound:
  assumes h: "hash32 H" and v: "valid_config cfg" and rows: "list_all (\<lambda>r. length r = length (W ! 0)) W"
    and e: "enroll H cfg W padding = Inr pw" and chi: "length chi = length W"
    and g: "from_messages H cfg gs = Inr pc" "list_all (\<lambda>m. length m = ELL cfg \<and> canonical m) gs"
    and acc: "verify_projection H cfg (c_root (pw_commit pw)) (c_root pc) chi o1 = Inr True"
  shows "project_message pw chi = Inr gs \<or> card (set (po_columns o1)) < K_DEG cfg \<or>
    (\<exists>k < length (po_columns o1). column_clash H (pw_commit pw) (po_columns o1 ! k) (w_values o1 ! k) (w_paths o1 ! k) \<or>
       column_clash H pc (po_columns o1 ! k) (p_values o1 ! k) (p_paths o1 ! k))"
proof (rule ccontr)
  assume "\<not> ?thesis"
  then have ne: "project_message pw chi \<noteq> Inr gs" and many: "K_DEG cfg \<le> card (set (po_columns o1))"
    and nc: "\<And>k. k < length (po_columns o1) \<Longrightarrow> \<not> column_clash H (pw_commit pw) (po_columns o1 ! k) (w_values o1 ! k) (w_paths o1 ! k)"
      "\<And>k. k < length (po_columns o1) \<Longrightarrow> \<not> column_clash H pc (po_columns o1 ! k) (p_values o1 ! k) (p_paths o1 ! k)"
    by (meson not_le)+
  have ok: "pw_ok H pw" "pw_cfg pw = cfg" "n_out pw = length W" using enroll_ok [OF v rows e] by simp_all
  have chi': "length chi = n_out pw" using ok(3) chi by simp
  obtain pc0 where pc0: "commit_projection H pw chi = Inr pc0" using commit_projection_total [OF ok(1) chi'] by blast
  obtain pm where pm: "project_message pw chi = Inr pm" "length pm = n_blocks pw" "list_all (\<lambda>m. length m = ELL cfg) pm"
    "rmap (encode_row cfg) pm = Inr (c_codewords pc0)"
    using projection_encodes [OF ok(1) chi' pc0] ok(2) by auto
  obtain gws where gw: "rmap (encode_row cfg) gs = Inr gws" "commit_init H cfg gws = Inr pc"
    using g(1) by (auto simp: from_messages_def rbind_Inr_iff)
  let ?cws = "c_codewords (pw_commit pw)" and ?n = "length chi" and ?B = "n_blocks pw"
  have wc: "commit_init H cfg ?cws = Inr (pw_commit pw)" using pw_codewords [OF ok(1)] ok(2) by simp
  have len: "length ?cws = ?B * ?n" using pw_codewords [OF ok(1)] rmap_InrD ok chi by (fastforce simp: pw_ok_def)
  have p0: "c_codewords pc0 = map (\<lambda>b. combine_rows (N_LIG cfg) chi (slice ?cws (b * ?n) ((b + 1) * ?n))) [0..<?B]"
    using commit_projection_rows [OF ok(1) chi' pc0] ok(2) chi' by (auto elim: commit_init_facts)
  have col: "length gws = ?B \<and> (\<forall>b < ?B. gws ! b ! c = c_codewords pc0 ! b ! c) \<and> c < N_LIG cfg"
    if "c \<in> set (po_columns o1)" for c
  proof -
    from that obtain k where k: "k < length (po_columns o1)" "c = po_columns o1 ! k" by (metis in_set_conv_nth)
    have "verify_column H cfg (c_root (pw_commit pw)) (c_root pc) chi o1 k = Inr True"
      using acc k verify_columns_True by (fastforce simp: verify_projection_def split: if_splits)
    then show ?thesis using accepted_column [OF h wc gw(2) len _ nc [OF k(1)]] k(2) p0 by auto
  qed
  have lgs: "length gs = length gws" using rmap_InrD [OF gw(1)] by simp
  have K: "0 < K_DEG cfg" using v valid_configD by (metis zero_less_numeral zero_less_power)
  then have "set (po_columns o1) \<noteq> {}" using many by auto
  then have B: "length gs = ?B" using col lgs by fastforce
  then obtain b where b: "b < ?B" "gs ! b \<noteq> pm ! b" using ne pm(1,2) by (metis nth_equalityI)
  let ?A = "{j. j < N_LIG cfg \<and> gws ! b ! j = c_codewords pc0 ! b ! j}"
  have "set (po_columns o1) \<subseteq> ?A" using col b(1) by auto
  then have "card (set (po_columns o1)) \<le> card ?A" by (intro card_mono) simp_all
  moreover have "card ?A < K_DEG cfg"
  proof (rule codeword_distance [OF v])
    show "length (gs ! b) \<le> ELL cfg" "canonical (gs ! b)" "length (gs ! b) = length (pm ! b)"
      using g(2) pm(2,3) B b(1) by (simp_all add: list_all_length)
    show "canonical (pm ! b)" using project_message_canonical [OF ok(1) chi' pm(1)] pm(2) b(1)
      by (simp add: list_all_length)
    show "encode_row cfg (gs ! b) = Inr (gws ! b)" using rmap_InrD [OF gw(1)] B b(1) by simp
    show "encode_row cfg (pm ! b) = Inr (c_codewords pc0 ! b)" using rmap_InrD [OF pm(4)] pm(2) b(1) by simp
    show "gs ! b \<noteq> pm ! b" by (rule b(2))
  qed
  ultimately show False using many by simp
qed

theorem projection_sound_witness:
  "\<exists>pw pc o1 gs. enroll toy_hash cfg_toy [[1, 2, 3], [4, 5, 6]] None = Inr pw \<and> from_messages toy_hash cfg_toy gs = Inr pc \<and>
    verify_projection toy_hash cfg_toy (c_root (pw_commit pw)) (c_root pc) [7, 8] o1 = Inr True \<and>
    (project_message pw [7, 8] = Inr gs \<or> card (set (po_columns o1)) < K_DEG cfg_toy \<or>
    (\<exists>k < length (po_columns o1). column_clash toy_hash (pw_commit pw) (po_columns o1 ! k) (w_values o1 ! k) (w_paths o1 ! k) \<or>
       column_clash toy_hash pc (po_columns o1 ! k) (p_values o1 ! k) (p_paths o1 ! k)))"
proof -
  obtain pw where pw: "enroll toy_hash cfg_toy [[1, 2, 3], [4, 5, 6]] None = Inr pw" using toy_enroll by blast
  have rows: "list_all (\<lambda>r. length r = length ([[1, 2, 3], [4, 5, 6 :: int]] ! 0)) [[1, 2, 3], [4, 5, 6 :: int]]" by simp
  have ok: "pw_ok toy_hash pw" "n_out pw = 2" "pw_cfg pw = cfg_toy" using enroll_ok [OF valid_cfg_toy rows pw] by simp_all
  have chi: "length [7, 8 :: int] = n_out pw" using ok(2) by simp
  obtain pc where pc: "commit_projection toy_hash pw [7, 8] = Inr pc" using commit_projection_total [OF ok(1) chi] by blast
  obtain pm where pm: "project_message pw [7, 8] = Inr pm" using projection_encodes [OF ok(1) chi pc] by blast
  have fm: "from_messages toy_hash cfg_toy pm = Inr pc" using commit_projection_from_messages [OF ok(1) chi pc pm] ok(3) by simp
  have cm: "list_all (\<lambda>m. length m = ELL cfg_toy \<and> canonical m) pm" using project_message_canonical [OF ok(1) chi pm] ok(3) by simp
  have l: "length [7, 8 :: int] = length [[1, 2, 3], [4, 5, 6 :: int]]" by simp
  have ne: "[7, 8 :: int] \<noteq> []" by simp
  have c: "\<forall>c \<in> set [5, 0]. c < N_LIG cfg_toy" by (simp add: cfg_toy_def)
  obtain o1 where v: "verify_projection toy_hash cfg_toy (c_root (pw_commit pw)) (c_root pc) [7, 8] o1 = Inr True"
    using seam_accepts [OF hash32_toy valid_cfg_toy rows pw l ne pc c] by blast
  note s = projection_sound [OF hash32_toy valid_cfg_toy rows pw l fm cm v]
  show ?thesis by (intro exI [of _ pw] exI [of _ pc] exI [of _ o1] exI [of _ pm] conjI pw fm v s)
qed

end
