(* ===== verification/LogUp.thy ===== *)
theory LogUp
  imports Projection Sumcheck
begin

text \<open>
  The lookup argument of \<^verbatim>\<open>layergkr/logup.py\<close>: tuple compression, the equality vector, the staged
  prover object (\<open>commit_raw\<close>, \<open>compress\<close>, \<open>build\<close>, \<open>prove\<close>), the verifier and \<open>identity_sides\<close>.
  Phase timers are not modelled; the commitments use the host path of \<open>rs.Commit\<close>.
\<close>

section \<open>Tuples, the equality vector and padding\<close>

definition PAD_SENTINEL :: int where
  "PAD_SENTINEL = FIELD_P - 12345"

definition compress_tuple :: "int list \<Rightarrow> int \<Rightarrow> int" where
  "compress_tuple t beta = foldl (\<lambda>acc v. (acc * beta + v mod FIELD_P) mod FIELD_P) 0 t"

definition eq_step :: "int list \<Rightarrow> int \<Rightarrow> int list" where
  "eq_step out zi = map (\<lambda>v. (v * (1 - zi)) mod FIELD_P) out @ map (\<lambda>v. (v * zi) mod FIELD_P) out"

definition eq_vector :: "int list \<Rightarrow> int list" where
  "eq_vector z = foldl eq_step [1] z"

definition pad_pow2 :: "int list \<Rightarrow> int \<Rightarrow> int list" where
  "pad_pow2 vec fill = (let n = pow2_from 1 (length vec) in vec @ replicate (n - length vec) fill)"

section \<open>The staged lookup object\<close>

datatype lu_stage = LuInit | LuRaw | LuCmp | LuBuilt

record logup =
  lu_cfg :: config
  table_id :: int
  queries :: "int list list"
  table :: "int list list"
  mult :: "int list"
  lu_stage_of :: lu_stage
  lu_beta :: "int option"
  lu_alpha :: "int option"
  q_vals :: "int list"
  t_vals :: "int list"
  r_q :: "int list"
  r_t :: "int list"
  raw_commit :: "commit option"
  cmp_commit :: "commit option"

text \<open>
  The loop that appends the first table row to the queries until their number is a power of
  two (\<open>n & (n - 1)\<close> is Python's test for that, false at zero).
\<close>

lemma pow2_from_double: "0 < p \<Longrightarrow> p < n \<Longrightarrow> pow2_from p n = pow2_from (2 * p) n"
  by (subst pow2_from.simps) simp

lemma pow2_from_step: "0 < p \<Longrightarrow> n \<noteq> pow2_from p n \<Longrightarrow> p \<le> n \<Longrightarrow> pow2_from p (Suc n) = pow2_from p n"
proof (induction p n rule: pow2_from.induct)
  case (1 p n)
  have lt: "p < n"
  proof (rule ccontr)
    assume "\<not> p < n"
    then have "pow2_from p n = p" by (subst pow2_from.simps) simp
    then show False using "1.prems"(2,3) \<open>\<not> p < n\<close> by simp
  qed
  have d: "pow2_from p n = pow2_from (2 * p) n" "pow2_from p (Suc n) = pow2_from (2 * p) (Suc n)"
    using "1.prems"(1) lt by (simp_all add: pow2_from_double)
  show ?case
  proof (cases "2 * p \<le> n")
    case True
    then show ?thesis using "1.IH" "1.prems" lt d by simp
  next
    case False
    then show ?thesis using d lt by (simp add: pow2_from.simps [of "2 * p"])
  qed
qed

lemma pow2_from_1_step:
  assumes "n AND (n - 1) \<noteq> 0 \<or> n = 0"
  shows "pow2_from 1 (Suc n) - Suc n < pow2_from 1 n - n"
proof (cases "n = 0")
  case True
  then show ?thesis by (simp add: pow2_from.simps)
next
  case False
  obtain k where k: "pow2_from 1 n = 2 ^ k" using pow2_from_1_pow2 by blast
  have ne: "n \<noteq> pow2_from 1 n" using assms False and_pow2_pred [of k] k by auto
  then have "n < pow2_from 1 n" using pow2_from_ge [of 1 n] by simp
  moreover have "pow2_from 1 (Suc n) = pow2_from 1 n" using pow2_from_step [of 1 n] ne False by simp
  ultimately show ?thesis by simp
qed

function pad_queries :: "int list list \<Rightarrow> int list \<Rightarrow> int list list" where
  "pad_queries qs t0 =
     (if length qs AND (length qs - 1) \<noteq> 0 \<or> qs = [] then pad_queries (qs @ [t0]) t0 else qs)"
  by pat_completeness auto
termination
  by (relation "measure (\<lambda>(qs, t0). pow2_from 1 (length qs) - length qs)") (use pow2_from_1_step in \<open>fastforce+\<close>)

declare pad_queries.simps [simp del]

definition pad_row :: "nat \<Rightarrow> nat \<Rightarrow> int list" where
  "pad_row width k = (if width \<ge> 2 then [PAD_SENTINEL, int k] @ replicate (width - 2) 0 else [PAD_SENTINEL])"

text \<open>\<open>{t: k for k, t in enumerate(table)}\<close>: a repeated row keeps its last index.\<close>

definition table_index :: "int list list \<Rightarrow> int list \<Rightarrow> nat option" where
  "table_index tab = map_of (rev (zip tab [0..<length tab]))"

definition pad_table :: "int list list \<Rightarrow> int list list" where
  "pad_table tab = (let n_t = length tab; pad_t = pow2_from 1 n_t; width = length (tab ! 0)
     in tab @ map (pad_row width) [0..<pad_t - n_t])"

definition count_mult :: "int list list \<Rightarrow> int list list \<Rightarrow> int list" where
  "count_mult tab qs =
     foldl (\<lambda>m q. m[the (table_index tab q) := m ! the (table_index tab q) + 1]) (replicate (length tab) 0) qs"

definition logup_init :: "config \<Rightarrow> int \<Rightarrow> int list list \<Rightarrow> int list list \<Rightarrow> int list \<Rightarrow> logup result" where
  "logup_init cfg tid qs tab m =
     (if tab = [] then Inl ValueError
      else if list_ex (\<lambda>q. table_index tab q = None) qs then Inl KeyError
      else let qs' = pad_queries qs (tab ! 0); tab' = pad_table tab in
        Inr \<lparr>lu_cfg = cfg, table_id = tid, queries = qs', table = tab',
             mult = (if m = [] then count_mult tab' qs' else m), lu_stage_of = LuInit, lu_beta = None, lu_alpha = None,
             q_vals = [], t_vals = [], r_q = [], r_t = [], raw_commit = None, cmp_commit = None\<rparr>)"

definition raw_rows :: "logup \<Rightarrow> int list list" where
  "raw_rows lu =
     map (take (ELL (lu_cfg lu)))
       (map (\<lambda>q. take (ELL (lu_cfg lu)) (pad_pow2 (map (\<lambda>v. v mod FIELD_P) q) 0)) (queries lu) @
        map (\<lambda>m. [m mod FIELD_P]) (mult lu))"

definition commit_raw :: "hashfn \<Rightarrow> logup \<Rightarrow> transcript \<Rightarrow> string \<Rightarrow> (bytes \<times> logup \<times> transcript) result" where
  "commit_raw H lu tr label =
     (if lu_stage_of lu \<noteq> LuInit then Inl RuntimeError
      else rbind (from_messages H (lu_cfg lu) (raw_rows lu)) (\<lambda>cm.
           rbind (absorb tr label (c_root cm)) (\<lambda>tr'.
             Inr (c_root cm, lu\<lparr>raw_commit := Some cm, lu_stage_of := LuRaw\<rparr>, tr'))))"

text \<open>Rows of at most \<open>ELL\<close> values; \<open>range\<close> with step zero is an error.\<close>

definition chunk_rows :: "nat \<Rightarrow> int list \<Rightarrow> int list list result" where
  "chunk_rows ell xs =
     (if ell = 0 then Inl ValueError
      else Inr (map (\<lambda>k. take ell (drop (k * ell) xs)) [0..<(length xs + ell - 1) div ell]))"

definition compress :: "hashfn \<Rightarrow> logup \<Rightarrow> int \<Rightarrow> transcript \<Rightarrow> string \<Rightarrow> (bytes \<times> logup \<times> transcript) result" where
  "compress H lu beta tr label =
     (if lu_stage_of lu \<noteq> LuRaw then Inl RuntimeError
      else let qv = map (\<lambda>q. compress_tuple (table_id lu # q) beta) (queries lu);
               tv = map (\<lambda>t. compress_tuple (table_id lu # t) beta) (table lu)
        in rbind (chunk_rows (ELL (lu_cfg lu)) (pad_pow2 qv 0)) (\<lambda>rows1.
           rbind (chunk_rows (ELL (lu_cfg lu)) (pad_pow2 tv 0)) (\<lambda>rows2.
           rbind (from_messages H (lu_cfg lu) (rows1 @ rows2)) (\<lambda>cm.
           rbind (absorb tr label (c_root cm)) (\<lambda>tr'.
             Inr (c_root cm, lu\<lparr>q_vals := qv, t_vals := tv, cmp_commit := Some cm, lu_beta := Some beta,
                                lu_stage_of := LuCmp\<rparr>, tr'))))))"

definition build :: "logup \<Rightarrow> int \<Rightarrow> logup result" where
  "build lu alpha =
     (if lu_stage_of lu \<noteq> LuCmp then Inl RuntimeError
      else Inr (lu\<lparr>lu_alpha := Some alpha,
                   r_q := batch_inv (map (\<lambda>v. (alpha - v) mod FIELD_P) (q_vals lu)),
                   r_t := batch_inv (map (\<lambda>v. (alpha - v) mod FIELD_P) (t_vals lu)), lu_stage_of := LuBuilt\<rparr>))"

section \<open>Prover and verifier\<close>

record logup_proof =
  n_queries :: nat
  n_table :: nat
  sum_query :: int
  sum_table :: int
  query_constraint :: sc_proof
  table_constraint :: sc_proof
  query_sum_check :: sc_proof
  table_sum_check :: sc_proof
  z_query :: "int list"
  z_table :: "int list"
  r_query :: "int list"
  r_table :: "int list"
  raw_root :: bytes
  cmp_root :: bytes

text \<open>\<open>lambda i: coins[i]\<close>.\<close>

definition list_coin :: "int list \<Rightarrow> coin_src" where
  "list_coin cs = CoinFun (\<lambda>i. if i < length cs then Inr (cs ! i) else Inl IndexError)"

definition commit_root_or_empty :: "commit option \<Rightarrow> bytes" where
  "commit_root_or_empty c = (case c of None \<Rightarrow> [] | Some cm \<Rightarrow> c_root cm)"

definition weighted :: "int list \<Rightarrow> int list \<Rightarrow> int list" where
  "weighted ms rs = map (\<lambda>(m, r). (m * r) mod FIELD_P) (zip ms rs)"

definition log_vars :: "int list \<Rightarrow> nat" where
  "log_vars xs = max (bit_length (length xs) - 1) 1"

definition lu_prove :: "hashfn \<Rightarrow> logup \<Rightarrow> transcript \<Rightarrow> (logup_proof \<times> transcript) result" where
  "lu_prove H lu tr =
     (if lu_stage_of lu \<noteq> LuBuilt then Inl RuntimeError
      else let alpha = the (lu_alpha lu);
               rq = pad_pow2 (r_q lu) 0;
               aq = pad_pow2 (map (\<lambda>v. (alpha - v) mod FIELD_P) (q_vals lu)) 0;
               rt = pad_pow2 (weighted (mult lu) (r_t lu)) 0;
               at = pad_pow2 (map (\<lambda>v. (alpha - v) mod FIELD_P) (t_vals lu)) 0;
               rt_plain = pad_pow2 (r_t lu) 0;
               nq = log_vars rq; nt = log_vars rt
        in rbind (coin H tr ''logup_zq'' nq) (\<lambda>(zq, tr).
           rbind (coin H tr ''logup_zt'' nt) (\<lambda>(zt, tr).
           rbind (coin H tr ''logup_cq'' nq) (\<lambda>(coins_q, tr).
           rbind (coin H tr ''logup_ct'' nt) (\<lambda>(coins_t, tr).
           rbind (prove H [eq_vector zq, rq, aq] (list_coin coins_q) None 0) (\<lambda>qc.
           rbind (prove H [eq_vector zt, rt_plain, at] (list_coin coins_t) None 0) (\<lambda>tc.
           rbind (coin H tr ''logup_qs'' nq) (\<lambda>(coins_qs, tr).
           rbind (coin H tr ''logup_ts'' nt) (\<lambda>(coins_ts, tr).
           rbind (prove H [rq] (list_coin coins_qs) None 0) (\<lambda>qs.
           rbind (prove H [rt] (list_coin coins_ts) None 0) (\<lambda>ts.
             Inr (\<lparr>n_queries = length (queries lu), n_table = length (table lu), sum_query = sc_claim qs,
                   sum_table = sc_claim ts, query_constraint = qc, table_constraint = tc, query_sum_check = qs,
                   table_sum_check = ts, z_query = zq, z_table = zt, r_query = r_q lu, r_table = r_t lu,
                   raw_root = commit_root_or_empty (raw_commit lu), cmp_root = commit_root_or_empty (cmp_commit lu)\<rparr>, tr))))))))))))"

text \<open>The verifier takes every round coin from the proof itself: \<open>lambda i: proof.<part>.challenges[i]\<close>.\<close>

definition own_coins :: "sc_proof \<Rightarrow> coin_src" where
  "own_coins pf = list_coin (challenges pf)"

definition lu_verify :: "hashfn \<Rightarrow> logup_proof \<Rightarrow> int list \<Rightarrow> int list \<Rightarrow> int list \<Rightarrow> int \<Rightarrow> bool result" where
  "lu_verify H pf qv tv m alpha =
     (let aq = pad_pow2 (map (\<lambda>v. (alpha - v) mod FIELD_P) qv) 0;
          at = pad_pow2 (map (\<lambda>v. (alpha - v) mod FIELD_P) tv) 0;
          rq = pad_pow2 (r_query pf) 0;
          rt_plain = pad_pow2 (r_table pf) 0;
          rt_w = pad_pow2 (weighted m (r_table pf)) 0;
          eq_q = eq_vector (z_query pf); eq_t = eq_vector (z_table pf)
      in rbind (verify_prod H (query_constraint pf) [eq_q, rq, aq] (own_coins (query_constraint pf))) (\<lambda>ok.
         if \<not> ok then Inr False else
         rbind (verify_prod H (table_constraint pf) [eq_t, rt_plain, at] (own_coins (table_constraint pf))) (\<lambda>ok.
         if \<not> ok then Inr False else
         rbind (verify_prod H (query_sum_check pf) [rq] (own_coins (query_sum_check pf))) (\<lambda>ok.
         if \<not> ok then Inr False else
         rbind (verify_prod H (table_sum_check pf) [rt_w] (own_coins (table_sum_check pf))) (\<lambda>ok.
         if \<not> ok then Inr False else
         if sc_claim (query_constraint pf) \<noteq> sum_list eq_q mod FIELD_P then Inr False else
         if sc_claim (table_constraint pf) \<noteq> sum_list eq_t mod FIELD_P then Inr False else
         if sum_query pf \<noteq> sum_table pf then Inr False else Inr True)))))"

definition identity_sides :: "int list list \<Rightarrow> int list list \<Rightarrow> int list \<Rightarrow> int \<Rightarrow> int \<Rightarrow> int \<Rightarrow> int \<times> int" where
  "identity_sides qs tab m beta alpha tid =
     (let qv = map (\<lambda>q. compress_tuple (tid # q) beta) qs; tv = map (\<lambda>t. compress_tuple (tid # t) beta) tab
      in (sum_list (map (\<lambda>v. inv_P ((alpha - v) mod FIELD_P)) qv) mod FIELD_P,
          sum_list (map (\<lambda>(m, v). m * inv_P ((alpha - v) mod FIELD_P)) (zip m tv)) mod FIELD_P))"

section \<open>The equality vector evaluates a table\<close>

lemma length_eq_vector [simp]: "length (eq_vector z) = 2 ^ length z"
  by (induction z rule: rev_induct) (simp_all add: eq_vector_def eq_step_def mult_2)

lemma eq_vector_snoc: "eq_vector (z @ [a]) = eq_step (eq_vector z) a"
  by (simp add: eq_vector_def)

lemma eq_vector_canonical: "canonical (eq_vector z)"
  by (induction z rule: rev_induct) (auto simp: eq_vector_def eq_step_def canonical_def FIELD_P_val)

lemma eq_vector_fold:
  "length f = 2 ^ length z \<Longrightarrow>
   (of_int (foldl fold_r f (rev z) ! 0) :: gl) = (\<Sum>i<2 ^ length z. of_int (f ! i) * of_int (eq_vector z ! i))"
proof (induction z arbitrary: f rule: rev_induct)
  case Nil
  then show ?case by (simp add: eq_vector_def)
next
  case (snoc a z)
  let ?h = "2 ^ length z :: nat"
  have l: "length f = ?h + ?h" "length f div 2 = ?h" using snoc.prems by simp_all
  have lo: "eq_vector (z @ [a]) ! i = (eq_vector z ! i * (1 - a)) mod FIELD_P"
    and hi: "eq_vector (z @ [a]) ! (?h + i) = (eq_vector z ! i * a) mod FIELD_P"
      "eq_vector (z @ [a]) ! (i + ?h) = (eq_vector z ! i * a) mod FIELD_P" if "i < ?h" for i
    using that by (simp_all add: eq_vector_snoc eq_step_def nth_append)
  have "(of_int (foldl fold_r f (rev (z @ [a])) ! 0) :: gl) = (\<Sum>i<?h. of_int (fold_r f a ! i) * of_int (eq_vector z ! i))"
    using snoc.IH [of "fold_r f a"] l by simp
  also have "\<dots> = (\<Sum>i<?h. of_int (f ! i) * of_int (eq_vector (z @ [a]) ! i) + of_int (f ! (?h + i)) * of_int (eq_vector (z @ [a]) ! (?h + i)))"
    using l by (intro sum.cong) (simp_all add: gl_fold_r lo hi algebra_simps)
  also have "\<dots> = (\<Sum>i<?h + ?h. of_int (f ! i) * of_int (eq_vector (z @ [a]) ! i))"
    using sum_lessThan_mult [of "\<lambda>i. of_int (f ! i) * of_int (eq_vector (z @ [a]) ! i) :: gl" 2 ?h]
    by (simp add: numeral_2_eq_2 sum.distrib)
  finally show ?case by (simp add: mult_2)
qed

lemma eq_vector_sum: "(\<Sum>i<2 ^ length z. (of_int (eq_vector z ! i) :: gl)) = 1"
proof (induction z rule: rev_induct)
  case Nil
  then show ?case by (simp add: eq_vector_def)
next
  case (snoc a z)
  let ?h = "2 ^ length z :: nat" and ?e = "\<lambda>i. of_int (eq_vector (z @ [a]) ! i) :: gl"
  have "(\<Sum>i<?h + ?h. ?e i) = (\<Sum>i<?h. ?e i) + (\<Sum>i<?h. ?e (?h + i))"
    using sum_lessThan_mult [of ?e 2 ?h] by (simp add: numeral_2_eq_2)
  also have "\<dots> = (\<Sum>i<?h. of_int (eq_vector z ! i) * (1 - of_int a)) + (\<Sum>i<?h. of_int (eq_vector z ! i) * of_int a)"
    by (simp add: eq_vector_snoc eq_step_def nth_append)
  also have "\<dots> = (\<Sum>i<?h. of_int (eq_vector z ! i) * (1 - of_int a) + of_int (eq_vector z ! i) * of_int a)"
    by (rule sum.distrib [symmetric])
  also have "\<dots> = 1" using snoc.IH by (simp add: algebra_simps)
  finally show ?case by (simp add: mult_2)
qed

text \<open>
  Fact (\<open>eq_vector_is_mle\<close>): the inner product of a table with \<open>eq_vector z\<close> is the
  multilinear evaluation of the table at the coordinates of \<open>z\<close> in reverse order: the last
  coordinate of \<open>z\<close> selects the most significant index bit.
\<close>

theorem eq_vector_is_mle:
  assumes "length f = 2 ^ length z"
  shows "mle_eval f (rev z) = Inr ((\<Sum>i<length f. f ! i * eq_vector z ! i) mod FIELD_P)"
proof -
  have "foldl fold_r f (rev z) ! 0 mod FIELD_P = (\<Sum>i<length f. f ! i * eq_vector z ! i) mod FIELD_P"
    using eq_vector_fold [OF assms] assms by (simp flip: gl_eq_iff)
  then show ?thesis using mle_eval_ok [of f "rev z"] assms by simp
qed

theorem eq_vector_is_mle_witness: "mle_eval [3, 4, 5, 6] [7, 2] = Inr ((\<Sum>i<4. [3, 4, 5, 6] ! i * eq_vector [2, 7] ! i) mod FIELD_P)"
  using eq_vector_is_mle [of "[3, 4, 5, 6]" "[2, 7]"] by (simp add: eval_nat_numeral)

section \<open>Honest proofs under listed coins\<close>

lemma list_coin_draw:
  "k < length cs \<Longrightarrow> canonical cs \<Longrightarrow> draw_coin H (list_coin cs) k samples = Inr (cs ! k, list_coin cs)"
  by (simp add: list_coin_def canonical_nth)

lemma sc_rounds_listed:
  assumes "canonical cs" "k \<le> length cs"
  shows "\<exists>ps. sc_rounds H deg [k..<length cs] cur mu None (list_coin cs) polys chals = Inr (mu, ps, chals @ drop k cs)"
  using assms(2)
proof (induction "length cs - k" arbitrary: k cur polys chals)
  case 0
  then show ?case by simp
next
  case (Suc d)
  then have k: "k < length cs" by simp
  have "drop k cs = cs ! k # drop (Suc k) cs" using k by (simp add: Cons_nth_drop_Suc)
  moreover have "\<exists>ps. sc_rounds H deg [Suc k..<length cs] cur' mu None (list_coin cs) polys' (chals @ [cs ! k])
      = Inr (mu, ps, chals @ cs ! k # drop (Suc k) cs)" for cur' polys'
    using Suc.hyps(1) [of "Suc k" cur' polys' "chals @ [cs ! k]"] Suc.hyps(2) k by simp
  ultimately show ?case using k assms(1) by (simp add: upt_conv_Cons list_coin_draw Let_def)
qed

lemma honest_listed:
  assumes ok: "sc_terms_ok terms (length cs)" and can: "canonical cs"
  shows "\<exists>pf. prove_terms H terms (list_coin cs) None 0 = Inr pf \<and> challenges pf = cs \<and>
    (of_int (sc_claim pf) :: gl) = gsum terms (2 ^ length cs) \<and> 0 \<le> sc_claim pf \<and> sc_claim pf < FIELD_P \<and>
    verify_terms H pf terms (list_coin cs) = Inr True"
proof -
  have ne: "terms \<noteq> []" "snd (hd terms) \<noteq> []" using ok by (simp_all add: sc_terms_ok_def)
  have fl: "first_len terms = 2 ^ length cs" by (rule first_len_wf [OF sc_terms_wf [OF ok] ne])
  have ex: "\<not> list_ex (\<lambda>(c, fs). list_ex (\<lambda>f. length f < first_len terms) fs) terms"
    using ok unfolding fl by (auto simp: sc_terms_ok_def list_all_iff list_ex_iff)
  let ?cur = "map (\<lambda>(c, fs). (c mod FIELD_P, fs)) terms"
  obtain ps where "sc_rounds H (terms_deg terms) [0..<length cs] ?cur 0 None (list_coin cs) [] [] = Inr (0, ps, cs)"
    using sc_rounds_listed [OF can, where k = 0 and chals = "[]" and H = H and deg = "terms_deg terms" and cur = ?cur
        and mu = 0 and polys = "[]"] by auto
  then have "\<exists>pf. prove_terms H terms (list_coin cs) None 0 = Inr pf \<and> challenges pf = cs \<and>
      sc_claim pf = true_claim ?cur (2 ^ length cs)"
    using ne ex by (simp add: prove_terms_def fl Let_def)
  then obtain pf where pf: "prove_terms H terms (list_coin cs) None 0 = Inr pf"
    "challenges pf = cs" "sc_claim pf = true_claim ?cur (2 ^ length cs)" by blast
  show ?thesis using sumcheck_accepts [OF ok pf(1)] pf by (simp add: gl_true_claim gsum_mod)
qed

section \<open>Padding and multiplicities\<close>

lemma pow2_from_1_id [simp]: "pow2_from (Suc 0) (2 ^ k) = 2 ^ k"
  using pow2_from_ge [of 1 "2 ^ k"] pow2_from_le [of 1 0 k "2 ^ k"] by simp

lemma pad_pow2_id: "length xs = 2 ^ k \<Longrightarrow> pad_pow2 xs fill = xs"
  by (simp add: pad_pow2_def)

lemma log_vars_pow2: "length xs = 2 ^ k \<Longrightarrow> 0 < k \<Longrightarrow> log_vars xs = k"
  by (simp add: log_vars_def)

lemma pad_queries_props:
  "(\<exists>k. length (pad_queries qs t0) = 2 ^ k) \<and> length qs \<le> length (pad_queries qs t0) \<and>
   set (pad_queries qs t0) \<subseteq> set qs \<union> {t0}"
proof (induction qs t0 rule: pad_queries.induct)
  case (1 qs t0)
  show ?case
  proof (cases "length qs AND (length qs - 1) \<noteq> 0 \<or> qs = []")
    case True
    then show ?thesis using "1.IH" by (auto simp: pad_queries.simps [of qs t0])
  next
    case False
    then have "length qs = 2 ^ (bit_length (length qs) - 1)" by (intro and_pred_pow2) auto
    then show ?thesis using False by (auto simp: pad_queries.simps [of qs t0])
  qed
qed

lemma pad_table_props:
  "(\<exists>k. length (pad_table tab) = 2 ^ k) \<and> length tab \<le> length (pad_table tab) \<and> set tab \<subseteq> set (pad_table tab)"
proof -
  obtain k where k: "pow2_from 1 (length tab) = 2 ^ k" using pow2_from_1_pow2 by blast
  have le: "length tab \<le> pow2_from 1 (length tab)" by (rule pow2_from_ge) simp
  then show ?thesis using k by (auto simp: pad_table_def Let_def)
qed

lemma table_index_Some: "table_index tab q = Some i \<Longrightarrow> i < length tab \<and> tab ! i = q"
  unfolding table_index_def by (auto dest!: map_of_SomeD simp: in_set_zip)

lemma table_index_mem: "q \<in> set tab \<longleftrightarrow> table_index tab q \<noteq> None"
proof -
  have "(table_index tab q = None) \<longleftrightarrow> q \<notin> fst ` set (zip tab [0..<length tab])"
    by (simp add: table_index_def map_of_eq_None_iff)
  also have "fst ` set (zip tab [0..<length tab]) = set tab" by (metis map_fst_zip length_upt minus_nat.diff_0 set_map)
  finally show ?thesis by argo
qed

lemma bump_sum:
  fixes g :: "nat \<Rightarrow> gl"
  assumes "i < length m"
  shows "(\<Sum>k<length m. of_int (m[i := m ! i + 1] ! k) * g k) = (\<Sum>k<length m. of_int (m ! k) * g k) + g i"
proof -
  have "(\<Sum>k<length m. of_int (m[i := m ! i + 1] ! k) * g k) = (\<Sum>k<length m. of_int (m ! k) * g k + (if k = i then g i else 0))"
    by (intro sum.cong) (simp_all add: nth_list_update algebra_simps)
  then show ?thesis using assms by (simp add: sum.distrib)
qed

lemma count_mult_sum:
  fixes g :: "nat \<Rightarrow> gl"
  assumes "set qs \<subseteq> set tab"
  shows "length (count_mult tab qs) = length tab \<and>
    (\<Sum>k<length tab. of_int (count_mult tab qs ! k) * g k) = (\<Sum>q\<leftarrow>qs. g (the (table_index tab q)))"
proof -
  let ?f = "\<lambda>m q. m[the (table_index tab q) := m ! the (table_index tab q) + 1]"
  have "length (foldl ?f m qs) = length tab \<and>
      (\<Sum>k<length tab. of_int (foldl ?f m qs ! k) * g k) = (\<Sum>k<length tab. of_int (m ! k) * g k) + (\<Sum>q\<leftarrow>qs. g (the (table_index tab q)))"
    if "length m = length tab" for m :: "int list"
    using assms that
  proof (induction qs arbitrary: m)
    case (Cons q qs)
    then have "the (table_index tab q) < length m" using table_index_mem [of q tab] table_index_Some by fastforce
    then show ?case using Cons.IH [of "?f m q"] Cons.prems bump_sum [of "the (table_index tab q)" m g] by (simp add: add.assoc)
  qed simp
  from this [of "replicate (length tab) 0"] show ?thesis by (simp add: count_mult_def)
qed

section \<open>The honest lookup proof\<close>

lemma coin_total:
  assumes "tschedule tr = None" "length label < 65536" "n < 2 ^ 64"
  shows "\<exists>cs tr'. coin H tr label n = Inr (cs, tr') \<and> tschedule tr' = None \<and> length cs = n \<and> canonical cs"
proof -
  let ?v = "\<lambda>i. int (from_le (take 16 (H (H (hashed tr) @ encode label @ le_bytes 8 i)))) mod FIELD_P"
  have "rmap (coin_value H (H (hashed tr)) label) [0..<n] = Inr (map ?v [0..<n])"
    using assms(3) by (intro rmap_Inr_map) (simp add: coin_value_def to_bytes_def)
  then show ?thesis using assms(1,2) by (simp add: coin_def t_check_def to_bytes_def canonical_def)
qed

lemma absorb_total:
  assumes "tschedule tr = None" "length label < 65536" "length data < 2 ^ 64"
  shows "\<exists>tr'. absorb tr label data = Inr tr' \<and> tschedule tr' = None"
  using assms by (simp add: absorb_def t_check_def to_bytes_def)

definition recips :: "int \<Rightarrow> int list \<Rightarrow> int list" where
  "recips alpha vs = map (\<lambda>v. inv_P ((alpha - v) mod FIELD_P)) vs"

text \<open>No value meets the evaluation point.\<close>

definition clear_of :: "int \<Rightarrow> int list \<Rightarrow> bool" where
  "clear_of alpha vs \<longleftrightarrow> list_all (\<lambda>v. \<not> FIELD_P dvd alpha - v) vs"

lemma batch_inv_recips: "clear_of alpha vs \<Longrightarrow> batch_inv (map (\<lambda>v. (alpha - v) mod FIELD_P) vs) = recips alpha vs"
  by (auto simp: clear_of_def list_all_iff batch_inv_all recips_def dvd_mod_iff)

lemma sc_ok_single: "fs \<noteq> [] \<Longrightarrow> \<forall>f \<in> set fs. length f = 2 ^ n \<Longrightarrow> length fs < 2 ^ 32 \<Longrightarrow> sc_terms_ok [(1, fs)] n"
  by (simp add: sc_terms_ok_def terms_deg_def list_all_iff FIELD_P_val)

lemma honest_prove:
  assumes "fs \<noteq> []" "\<forall>f \<in> set fs. length f = 2 ^ length cs" "length fs < 2 ^ 32" "canonical cs"
  shows "\<exists>pf. prove H fs (list_coin cs) None 0 = Inr pf \<and> verify_prod H pf fs (own_coins pf) = Inr True \<and>
    (of_int (sc_claim pf) :: gl) = (\<Sum>i<2 ^ length cs. \<Prod>f\<leftarrow>fs. of_int (f ! i)) \<and> 0 \<le> sc_claim pf \<and> sc_claim pf < FIELD_P"
  using honest_listed [OF sc_ok_single [OF assms(1-3)] assms(4), of H]
  by (auto simp: prove_def verify_prod_eq own_coins_def gsum_def gterm_at_def)

lemma reciprocal_claim:
  assumes "clear_of alpha vs" "length vs = 2 ^ length z"
  shows "(\<Sum>i<2 ^ length z. \<Prod>f\<leftarrow>[eq_vector z, recips alpha vs, map (\<lambda>v. (alpha - v) mod FIELD_P) vs]. of_int (f ! i)) = (1 :: gl)"
proof -
  have "(of_int alpha - of_int (vs ! i) :: gl) \<noteq> 0" if "i < length vs" for i
    using assms(1) that gl_eq_0_iff [of "alpha - vs ! i"] by (simp add: clear_of_def list_all_length)
  then have "(\<Sum>i<2 ^ length z. \<Prod>f\<leftarrow>[eq_vector z, recips alpha vs, map (\<lambda>v. (alpha - v) mod FIELD_P) vs]. of_int (f ! i))
      = (\<Sum>i<2 ^ length z. (of_int (eq_vector z ! i) :: gl))"
    using assms(2) by (intro sum.cong) (simp_all add: recips_def)
  then show ?thesis by (simp add: eq_vector_sum)
qed

lemma eq_sum_one: "sum_list (eq_vector z) mod FIELD_P = 1"
proof (rule gl_inj_canonical)
  show "(of_int (sum_list (eq_vector z) mod FIELD_P) :: gl) = of_int 1"
    using eq_vector_sum [of z] by (simp add: gl_sum_list sum_list_eq_sum_nth)
qed (simp_all add: FIELD_P_val)

lemma canonical_one: "(of_int x :: gl) = 1 \<Longrightarrow> 0 \<le> x \<Longrightarrow> x < FIELD_P \<Longrightarrow> x = 1"
  by (rule gl_inj_canonical) (simp_all add: FIELD_P_val)

lemma honest_constraint:
  assumes "clear_of alpha vs" "length vs = 2 ^ length z" "length cs = length z" "canonical cs"
  shows "\<exists>pf. prove H [eq_vector z, recips alpha vs, map (\<lambda>v. (alpha - v) mod FIELD_P) vs] (list_coin cs) None 0 = Inr pf \<and>
    verify_prod H pf [eq_vector z, recips alpha vs, map (\<lambda>v. (alpha - v) mod FIELD_P) vs] (own_coins pf) = Inr True \<and>
    sc_claim pf = 1"
proof -
  let ?fs = "[eq_vector z, recips alpha vs, map (\<lambda>v. (alpha - v) mod FIELD_P) vs]"
  have l: "\<forall>f \<in> set ?fs. length f = 2 ^ length cs" using assms(2,3) by (simp add: recips_def)
  obtain pf where pf: "prove H ?fs (list_coin cs) None 0 = Inr pf" "verify_prod H pf ?fs (own_coins pf) = Inr True"
    "(of_int (sc_claim pf) :: gl) = (\<Sum>i<2 ^ length cs. \<Prod>f\<leftarrow>?fs. of_int (f ! i))" "0 \<le> sc_claim pf" "sc_claim pf < FIELD_P"
    using honest_prove [OF _ l _ assms(4), of H] by auto
  have "sc_claim pf = 1"
    by (rule canonical_one) (use pf(3-5) reciprocal_claim [OF assms(1,2)] assms(3) in simp_all)
  then show ?thesis using pf(1,2) by blast
qed

definition lu_ready :: "logup \<Rightarrow> int \<Rightarrow> nat \<Rightarrow> nat \<Rightarrow> bool" where
  "lu_ready lu alpha k l \<longleftrightarrow> lu_stage_of lu = LuBuilt \<and> lu_alpha lu = Some alpha \<and> 0 < k \<and> 0 < l \<and> k < 2 ^ 64 \<and> l < 2 ^ 64 \<and>
     length (q_vals lu) = 2 ^ k \<and> length (t_vals lu) = 2 ^ l \<and> length (mult lu) = 2 ^ l \<and>
     clear_of alpha (q_vals lu) \<and> clear_of alpha (t_vals lu) \<and>
     r_q lu = recips alpha (q_vals lu) \<and> r_t lu = recips alpha (t_vals lu)"

text \<open>Every ready object proves, and its proof is accepted exactly when the two sums agree.\<close>

lemma lu_honest:
  assumes rd: "lu_ready lu alpha k l" and tr: "tschedule tr = None"
  shows "\<exists>pf tr'. lu_prove H lu tr = Inr (pf, tr') \<and>
    (\<forall>s s'. lu_verify H (pf\<lparr>sum_query := s, sum_table := s'\<rparr>) (q_vals lu) (t_vals lu) (mult lu) alpha = Inr (s = s')) \<and>
    0 \<le> sum_query pf \<and> sum_query pf < FIELD_P \<and> 0 \<le> sum_table pf \<and> sum_table pf < FIELD_P \<and>
    (of_int (sum_query pf) :: gl) = (\<Sum>i<2 ^ k. inverse (of_int alpha - of_int (q_vals lu ! i))) \<and>
    (of_int (sum_table pf) :: gl) = (\<Sum>i<2 ^ l. of_int (mult lu ! i) * inverse (of_int alpha - of_int (t_vals lu ! i)))"
proof -
  note R = rd [unfolded lu_ready_def]
  let ?qv = "q_vals lu" and ?tv = "t_vals lu" and ?W = "weighted (mult lu) (r_t lu)"
  let ?a = "\<lambda>vs. map (\<lambda>v. (alpha - v) mod FIELD_P) vs"
  have len: "length (r_q lu) = 2 ^ k" "length (r_t lu) = 2 ^ l" "length ?W = 2 ^ l" "length (?a ?qv) = 2 ^ k" "length (?a ?tv) = 2 ^ l"
    using R by (simp_all add: recips_def weighted_def)
  note pads = len [THEN pad_pow2_id]
  have st: "lu_stage_of lu = LuBuilt" "lu_alpha lu = Some alpha" using R by simp_all
  have vars: "log_vars (r_q lu) = k" "log_vars ?W = l" using log_vars_pow2 len R by simp_all
  obtain zq t1 where z1: "coin H tr ''logup_zq'' k = Inr (zq, t1)" "tschedule t1 = None" "length zq = k" "canonical zq"
    using coin_total [OF tr, of "''logup_zq''" k H] R by auto
  obtain zt t2 where z2: "coin H t1 ''logup_zt'' l = Inr (zt, t2)" "tschedule t2 = None" "length zt = l" "canonical zt"
    using coin_total [OF z1(2), of "''logup_zt''" l H] R by auto
  obtain cq t3 where z3: "coin H t2 ''logup_cq'' k = Inr (cq, t3)" "tschedule t3 = None" "length cq = k" "canonical cq"
    using coin_total [OF z2(2), of "''logup_cq''" k H] R by auto
  obtain ct t4 where z4: "coin H t3 ''logup_ct'' l = Inr (ct, t4)" "tschedule t4 = None" "length ct = l" "canonical ct"
    using coin_total [OF z3(2), of "''logup_ct''" l H] R by auto
  obtain cqs t5 where z5: "coin H t4 ''logup_qs'' k = Inr (cqs, t5)" "tschedule t5 = None" "length cqs = k" "canonical cqs"
    using coin_total [OF z4(2), of "''logup_qs''" k H] R by auto
  obtain cts t6 where z6: "coin H t5 ''logup_ts'' l = Inr (cts, t6)" "tschedule t6 = None" "length cts = l" "canonical cts"
    using coin_total [OF z5(2), of "''logup_ts''" l H] R by auto
  obtain qc where qc: "prove H [eq_vector zq, r_q lu, ?a ?qv] (list_coin cq) None 0 = Inr qc"
    "verify_prod H qc [eq_vector zq, r_q lu, ?a ?qv] (own_coins qc) = Inr True" "sc_claim qc = 1"
    using honest_constraint [of alpha ?qv zq cq H] z1 z3 R by auto
  obtain tc where tc: "prove H [eq_vector zt, r_t lu, ?a ?tv] (list_coin ct) None 0 = Inr tc"
    "verify_prod H tc [eq_vector zt, r_t lu, ?a ?tv] (own_coins tc) = Inr True" "sc_claim tc = 1"
    using honest_constraint [of alpha ?tv zt ct H] z2 z4 R by auto
  obtain qs where qs: "prove H [r_q lu] (list_coin cqs) None 0 = Inr qs" "verify_prod H qs [r_q lu] (own_coins qs) = Inr True"
    "(of_int (sc_claim qs) :: gl) = (\<Sum>i<2 ^ k. of_int (r_q lu ! i))" "0 \<le> sc_claim qs" "sc_claim qs < FIELD_P"
    using honest_prove [of "[r_q lu]" cqs H] z5 len by auto
  obtain ts where ts: "prove H [?W] (list_coin cts) None 0 = Inr ts" "verify_prod H ts [?W] (own_coins ts) = Inr True"
    "(of_int (sc_claim ts) :: gl) = (\<Sum>i<2 ^ l. of_int (?W ! i))" "0 \<le> sc_claim ts" "sc_claim ts < FIELD_P"
    using honest_prove [of "[?W]" cts H] z6 len by auto
  let ?pf = "\<lparr>n_queries = length (queries lu), n_table = length (table lu), sum_query = sc_claim qs,
     sum_table = sc_claim ts, query_constraint = qc, table_constraint = tc, query_sum_check = qs,
     table_sum_check = ts, z_query = zq, z_table = zt, r_query = r_q lu, r_table = r_t lu,
     raw_root = commit_root_or_empty (raw_commit lu), cmp_root = commit_root_or_empty (cmp_commit lu)\<rparr>"
  have "lu_prove H lu tr = Inr (?pf, t6)"
    using st z1(1) z2(1) z3(1) z4(1) z5(1) z6(1) qc(1) tc(1) qs(1) ts(1) by (simp add: lu_prove_def Let_def pads vars)
  moreover have "lu_verify H (?pf\<lparr>sum_query := s, sum_table := s'\<rparr>) ?qv ?tv (mult lu) alpha = Inr (s = s')" for s s'
    using qc(2,3) tc(2,3) qs(2) ts(2) by (simp add: lu_verify_def Let_def pads eq_sum_one)
  moreover have "(\<Sum>i<2 ^ k. (of_int (r_q lu ! i) :: gl)) = (\<Sum>i<2 ^ k. inverse (of_int alpha - of_int (?qv ! i)))"
    using R by (intro sum.cong) (simp_all add: recips_def)
  moreover have "(\<Sum>i<2 ^ l. (of_int (?W ! i) :: gl)) = (\<Sum>i<2 ^ l. of_int (mult lu ! i) * inverse (of_int alpha - of_int (?tv ! i)))"
    using R by (intro sum.cong) (simp_all add: recips_def weighted_def)
  ultimately show ?thesis using qs ts by (intro exI [of _ ?pf] exI [of _ t6]) simp
qed

lemma prove_unmasked: "prove H fs cn None mu = Inr pf \<Longrightarrow> \<not> masked pf"
  using prove_terms_authentic [of H "[(1, fs)]" cn None mu pf] by (simp add: prove_def mask_authentic_def)

lemma lu_prove_parts:
  assumes "lu_prove H lu tr = Inr (pf, tr')"
  shows "sum_query pf = sc_claim (query_sum_check pf) \<and> sum_table pf = sc_claim (table_sum_check pf) \<and>
    \<not> masked (query_constraint pf) \<and> \<not> masked (table_constraint pf) \<and> \<not> masked (query_sum_check pf) \<and> \<not> masked (table_sum_check pf)"
  using assms by (auto simp: lu_prove_def Let_def rbind_Inr_iff dest!: prove_unmasked split: if_splits)

section \<open>Completeness of the staged run\<close>

lemma tree_root_length:
  assumes "hash32 H" "leaves \<noteq> []" "\<forall>x \<in> set leaves. length x = 32"
  shows "length (tree_root H leaves) = 32"
  using assms(2,3)
proof (induction "length leaves" arbitrary: leaves rule: less_induct)
  case less
  show ?case
  proof (cases "1 < length leaves")
    case True
    let ?n = "tree_next H leaves"
    have "?n \<noteq> []" "\<forall>x \<in> set ?n. length x = 32" "length ?n < length leaves"
      using True assms(1) by (auto simp: tree_next_def hash32_def)
    then have "length (tree_root H ?n) = 32" by (intro less.hyps) simp_all
    then show ?thesis using True by (simp add: tree_root_def build_tree.simps [of H leaves])
  next
    case False
    then show ?thesis using less.prems by (simp add: tree_root_def build_tree.simps [of H leaves])
  qed
qed

lemma root_length:
  assumes h: "hash32 H" and v: "valid_config cfg" and c: "commit_init H cfg cws = Inr cm"
  shows "length (c_root cm) = 32"
proof -
  obtain leaves where l: "rmap (merkle_leaf H) (c_columns cm) = Inr leaves" "c_root cm = tree_root H leaves" "length leaves = N_LIG cfg"
    using commit_init_facts [OF c] by metis
  have N: "0 < N_LIG cfg" using v valid_configD by (metis zero_less_numeral zero_less_power)
  have "length x = 32" if "x \<in> set leaves" for x
  proof -
    from that obtain i where "i < length leaves" "x = leaves ! i" by (metis in_set_conv_nth)
    then have "merkle_leaf H (c_columns cm ! i) = Inr x" using rmap_InrD [OF l(1)] by auto
    then show ?thesis using h by (auto simp: merkle_leaf_def rbind_Inr_iff hash32_def)
  qed
  then show ?thesis using tree_root_length [OF h] l N by (cases leaves) auto
qed

lemma commit_total:
  assumes "hash32 H" "valid_config cfg" "list_all (\<lambda>m. length m \<le> ELL cfg) rows" "tschedule tr = None" "length label < 65536"
  shows "\<exists>cm tr'. from_messages H cfg rows = Inr cm \<and> absorb tr label (c_root cm) = Inr tr' \<and> tschedule tr' = None"
proof -
  obtain cm where cm: "from_messages H cfg rows = Inr cm" using from_messages_total [OF assms(2,3)] by blast
  then have "length (c_root cm) = 32" using root_length [OF assms(1,2)] by (auto simp: from_messages_def rbind_Inr_iff)
  then show ?thesis using cm absorb_total [OF assms(4,5), of "c_root cm"] by auto
qed

lemma chunk_rows_total:
  "0 < ell \<Longrightarrow> \<exists>rows. chunk_rows ell xs = Inr rows \<and> list_all (\<lambda>r. length r \<le> ell) rows"
  by (simp add: chunk_rows_def list_all_iff)

lemma logup_init_facts:
  assumes "logup_init cfg tid qs tab [] = Inr lu"
  shows "lu_stage_of lu = LuInit \<and> lu_cfg lu = cfg \<and> table_id lu = tid \<and> set (queries lu) \<subseteq> set (table lu) \<and>
    mult lu = count_mult (table lu) (queries lu) \<and> (\<exists>k. length (queries lu) = 2 ^ k) \<and> (\<exists>l. length (table lu) = 2 ^ l) \<and>
    length qs \<le> length (queries lu) \<and> length tab \<le> length (table lu)"
proof -
  have ne: "tab \<noteq> []" and idx: "\<forall>q \<in> set qs. table_index tab q \<noteq> None"
    and lu: "queries lu = pad_queries qs (tab ! 0)" "table lu = pad_table tab" "mult lu = count_mult (table lu) (queries lu)"
      "lu_stage_of lu = LuInit" "lu_cfg lu = cfg" "table_id lu = tid"
    using assms by (auto simp: logup_init_def list_ex_iff Let_def split: if_splits)
  have "set qs \<subseteq> set tab" using idx table_index_mem by blast
  moreover have "tab ! 0 \<in> set tab" using ne by simp
  ultimately have "set (queries lu) \<subseteq> set (table lu)"
    using pad_queries_props [of qs "tab ! 0"] pad_table_props [of tab] unfolding lu(1,2) by blast
  then show ?thesis using lu pad_queries_props [of qs "tab ! 0"] pad_table_props [of tab] by simp
qed

text \<open>The multiplicities counted by the constructor make the two sides of the identity equal.\<close>

lemma counted_identity:
  fixes g :: "int list \<Rightarrow> gl"
  assumes "set qs \<subseteq> set tab"
  shows "(\<Sum>i<length qs. g (qs ! i)) = (\<Sum>k<length tab. of_int (count_mult tab qs ! k) * g (tab ! k))"
proof -
  have "tab ! the (table_index tab q) = q" if "q \<in> set qs" for q
    using table_index_mem [of q tab] table_index_Some that assms by fastforce
  then have "(\<Sum>q\<leftarrow>qs. g (tab ! the (table_index tab q))) = (\<Sum>q\<leftarrow>qs. g q)" by (metis (mono_tags, lifting) map_eq_conv)
  then show ?thesis using count_mult_sum [OF assms, of "\<lambda>k. g (tab ! k)"] by (simp add: sum_list_eq_sum_nth)
qed

definition lu_values :: "logup \<Rightarrow> int \<Rightarrow> int list list \<Rightarrow> int list" where
  "lu_values lu beta rows = map (\<lambda>q. compress_tuple (table_id lu # q) beta) rows"

lemma logup_run:
  assumes h: "hash32 H" and v: "valid_config cfg" "0 < ELL cfg" and i: "logup_init cfg tid qs tab [] = Inr lu"
    and two: "2 \<le> length qs" "2 \<le> length tab" and small: "length (queries lu) < 2 ^ 64" "length (table lu) < 2 ^ 64"
    and clear: "clear_of alpha (lu_values lu beta (queries lu @ table lu))"
    and tr: "tschedule ta = None" "tschedule tb = None" "tschedule tc = None"
  shows "\<exists>r1 lu1 ta' r2 lu2 tb' lu3 pf tc'. commit_raw H lu ta ''R_lk'' = Inr (r1, lu1, ta') \<and>
    compress H lu1 beta tb ''R_cmp'' = Inr (r2, lu2, tb') \<and> build lu2 alpha = Inr lu3 \<and> lu_prove H lu3 tc = Inr (pf, tc') \<and>
    lu_verify H pf (q_vals lu3) (t_vals lu3) (mult lu3) alpha = Inr True"
proof -
  note I = logup_init_facts [OF i]
  obtain k l where kl: "length (queries lu) = 2 ^ k" "length (table lu) = 2 ^ l" using I by blast
  have "1 < (2 :: nat) ^ k" "1 < (2 :: nat) ^ l" using I two kl by linarith+
  then have pos: "0 < k" "0 < l" by (metis less_numeral_extra(4) not_gr_zero power_0)+
  have "k < 2 ^ k" "l < 2 ^ l" by simp_all
  then have b: "k < 2 ^ 64" "l < 2 ^ 64" using small kl by linarith+
  let ?qv = "lu_values lu beta (queries lu)" and ?tv = "lu_values lu beta (table lu)"
  have rw: "list_all (\<lambda>m. length m \<le> ELL cfg) (raw_rows lu)" using I by (auto simp: raw_rows_def list_all_iff)
  obtain cm ta' where c1: "from_messages H cfg (raw_rows lu) = Inr cm" "absorb ta ''R_lk'' (c_root cm) = Inr ta'"
    using commit_total [OF h v(1) rw tr(1), of "''R_lk''"] by auto
  let ?lu1 = "lu\<lparr>raw_commit := Some cm, lu_stage_of := LuRaw\<rparr>"
  have s1: "commit_raw H lu ta ''R_lk'' = Inr (c_root cm, ?lu1, ta')" using I c1 by (simp add: commit_raw_def)
  obtain rows1 where r1: "chunk_rows (ELL cfg) (pad_pow2 ?qv 0) = Inr rows1" "list_all (\<lambda>r. length r \<le> ELL cfg) rows1"
    using chunk_rows_total [OF v(2)] by blast
  obtain rows2 where r2: "chunk_rows (ELL cfg) (pad_pow2 ?tv 0) = Inr rows2" "list_all (\<lambda>r. length r \<le> ELL cfg) rows2"
    using chunk_rows_total [OF v(2)] by blast
  have rr: "list_all (\<lambda>r. length r \<le> ELL cfg) (rows1 @ rows2)" using r1 r2 by simp
  obtain cm2 tb' where c2: "from_messages H cfg (rows1 @ rows2) = Inr cm2" "absorb tb ''R_cmp'' (c_root cm2) = Inr tb'"
    using commit_total [OF h v(1) rr tr(2), of "''R_cmp''"] by auto
  let ?lu2 = "?lu1\<lparr>q_vals := ?qv, t_vals := ?tv, cmp_commit := Some cm2, lu_beta := Some beta, lu_stage_of := LuCmp\<rparr>"
  have s2: "compress H ?lu1 beta tb ''R_cmp'' = Inr (c_root cm2, ?lu2, tb')"
    using I r1(1) r2(1) c2 unfolding lu_values_def by (simp add: compress_def Let_def)
  have cl: "clear_of alpha ?qv" "clear_of alpha ?tv" using clear by (simp_all add: clear_of_def lu_values_def)
  let ?lu3 = "?lu2\<lparr>lu_alpha := Some alpha, r_q := recips alpha ?qv, r_t := recips alpha ?tv, lu_stage_of := LuBuilt\<rparr>"
  have s3: "build ?lu2 alpha = Inr ?lu3" by (simp add: build_def batch_inv_recips cl)
  have "length (mult lu) = 2 ^ l" using count_mult_sum [of "queries lu" "table lu"] I kl by simp
  then have "lu_ready ?lu3 alpha k l" using cl kl pos b by (simp add: lu_ready_def lu_values_def)
  then obtain pf tc' where p: "lu_prove H ?lu3 tc = Inr (pf, tc')"
    "\<And>s s'. lu_verify H (pf\<lparr>sum_query := s, sum_table := s'\<rparr>) ?qv ?tv (mult lu) alpha = Inr (s = s')"
    "0 \<le> sum_query pf" "sum_query pf < FIELD_P" "0 \<le> sum_table pf" "sum_table pf < FIELD_P"
    "(of_int (sum_query pf) :: gl) = (\<Sum>i<2 ^ k. inverse (of_int alpha - of_int (?qv ! i)))"
    "(of_int (sum_table pf) :: gl) = (\<Sum>i<2 ^ l. of_int (mult lu ! i) * inverse (of_int alpha - of_int (?tv ! i)))"
    using lu_honest [OF _ tr(3), of ?lu3 alpha k l H] by auto
  let ?g = "\<lambda>q. inverse (of_int alpha - of_int (compress_tuple (table_id lu # q) beta)) :: gl"
  have "(\<Sum>i<length (queries lu). ?g (queries lu ! i)) = (\<Sum>i<length (table lu). of_int (mult lu ! i) * ?g (table lu ! i))"
    using counted_identity [of "queries lu" "table lu" ?g] I by simp
  then have "sum_query pf = sum_table pf"
    using p kl by (intro gl_inj_canonical) (simp_all add: lu_values_def)
  moreover have "pf\<lparr>sum_query := sum_query pf, sum_table := sum_table pf\<rparr> = pf" by simp
  ultimately have "lu_verify H pf ?qv ?tv (mult lu) alpha = Inr True" by (metis p(2))
  then show ?thesis using s1 s2 s3 p(1) by fastforce
qed

text \<open>
  Property C25 (\<open>logup_complete\<close>): with at least two queries and two table rows, every query in the
  table, and an evaluation point that is none of the compressed values, the whole staged run
  succeeds (each stage on any transcript without a schedule) and the verifier accepts its proof.
\<close>

theorem logup_complete:
  assumes h: "hash32 H" and v: "valid_config cfg" "0 < ELL cfg" and i: "logup_init cfg tid qs tab [] = Inr lu"
    and two: "2 \<le> length qs" "2 \<le> length tab" and small: "length (queries lu) < 2 ^ 64" "length (table lu) < 2 ^ 64"
    and clear: "clear_of alpha (lu_values lu beta (queries lu @ table lu))"
    and tr: "tschedule ta = None" "tschedule tb = None" "tschedule tc = None"
  shows "\<exists>r1 lu1 ta' r2 lu2 tb' lu3 pf tc'. commit_raw H lu ta ''R_lk'' = Inr (r1, lu1, ta') \<and>
    compress H lu1 beta tb ''R_cmp'' = Inr (r2, lu2, tb') \<and> build lu2 alpha = Inr lu3 \<and> lu_prove H lu3 tc = Inr (pf, tc') \<and>
    lu_verify H pf (q_vals lu3) (t_vals lu3) (mult lu3) alpha = Inr True"
  using assms by (rule logup_run)

lemma toy_logup: "\<exists>lu. logup_init cfg_toy 9 [[1], [2]] [[1], [2]] [] = Inr lu \<and> queries lu = [[1], [2]] \<and>
    table lu = [[1], [2]] \<and> table_id lu = 9"
proof -
  have "pad_queries [[1], [2]] [1] = [[1], [2]]" by (subst pad_queries.simps) simp
  moreover have "pow2_from (Suc 0) (Suc (Suc 0)) = Suc (Suc 0)" using pow2_from_1_id [of 1] by (simp add: numeral_2_eq_2)
  ultimately show ?thesis by (simp add: logup_init_def table_index_def pad_table_def Let_def)
qed

theorem logup_complete_witness:
  "\<exists>lu lu1 r1 ta' r2 lu2 tb' lu3 pf tc'. logup_init cfg_toy 9 [[1], [2]] [[1], [2]] [] = Inr lu \<and>
    commit_raw toy_hash lu (new_transcript [] None) ''R_lk'' = Inr (r1, lu1, ta') \<and>
    compress toy_hash lu1 0 (new_transcript [] None) ''R_cmp'' = Inr (r2, lu2, tb') \<and> build lu2 5 = Inr lu3 \<and>
    lu_prove toy_hash lu3 (new_transcript [] None) = Inr (pf, tc') \<and>
    lu_verify toy_hash pf (q_vals lu3) (t_vals lu3) (mult lu3) 5 = Inr True"
proof -
  obtain lu where lu: "logup_init cfg_toy 9 [[1], [2]] [[1], [2]] [] = Inr lu" "queries lu = [[1], [2]]"
    "table lu = [[1], [2]]" "table_id lu = 9" using toy_logup by blast
  have c: "clear_of 5 (lu_values lu 0 (queries lu @ table lu))"
    by (simp add: lu clear_of_def lu_values_def compress_tuple_def FIELD_P_val)
  have t: "tschedule (new_transcript [] None) = None" by (simp add: new_transcript_def)
  have e: "0 < ELL cfg_toy" by (simp add: cfg_toy_def)
  have two: "2 \<le> length [[1 :: int], [2]]" by simp
  have small: "length (queries lu) < 2 ^ 64" "length (table lu) < 2 ^ 64" by (simp_all add: lu)
  note r = logup_complete [OF hash32_toy valid_cfg_toy e lu(1) two two small c t t t]
  show ?thesis using lu(1) r by blast
qed

section \<open>What the identity proves, and what the verifier leaves open\<close>

text \<open>The weight a list of weighted points puts on one point.\<close>

definition weight_at :: "(gl \<times> gl) list \<Rightarrow> gl \<Rightarrow> gl" where
  "weight_at ps d = (\<Sum>(w, p)\<leftarrow>ps. if p = d then w else 0)"

lemma weighted_sum:
  "finite D \<Longrightarrow> snd ` set ps \<subseteq> D \<Longrightarrow> (\<Sum>(w, p)\<leftarrow>ps. w * f p) = (\<Sum>d\<in>D. weight_at ps d * f d)"
  for f :: "gl \<Rightarrow> gl"
proof (induction ps)
  case Nil
  then show ?case by (simp add: weight_at_def)
next
  case (Cons q ps)
  obtain w p where q: "q = (w, p)" by (cases q)
  have "(\<Sum>d\<in>D. weight_at (q # ps) d * f d) = (\<Sum>d\<in>D. (if d = p then w * f d else 0) + weight_at ps d * f d)"
    by (intro sum.cong) (auto simp: weight_at_def q algebra_simps)
  also have "\<dots> = w * f p + (\<Sum>d\<in>D. weight_at ps d * f d)"
    using Cons.prems by (simp add: sum.distrib q)
  finally show ?case using Cons by (simp add: q)
qed

lemma pole_roots:
  fixes ps :: "(gl \<times> gl) list"
  assumes fin: "finite D" and D: "snd ` set ps \<subseteq> D" and p: "pole \<in> D" "weight_at ps pole \<noteq> 0"
    and S: "S \<inter> D = {}" "finite S" "\<And>a. a \<in> S \<Longrightarrow> (\<Sum>(w, p)\<leftarrow>ps. w * inverse (a - p)) = 0"
  shows "card S < card D"
proof (rule ccontr)
  assume "\<not> card S < card D"
  then have big: "card D \<le> card S" by simp
  let ?N = "\<lambda>x. \<Sum>d\<in>D. weight_at ps d * (\<Prod>e\<in>D - {d}. x - e)"
  have lin: "\<exists>cs. length cs = card D \<and> (\<forall>t. peval cs t = (\<Prod>e\<in>D - {d}. t - e))" if "d \<in> D" for d
  proof -
    have "Suc (card (D - {d})) = card D" by (rule card_Suc_Diff1 [OF fin that])
    then show ?thesis using prod_linear_poly [of "D - {d}" "\<lambda>e. e" "\<lambda>_. 1"] fin by auto
  qed
  obtain xs where xs: "set xs = D" "distinct xs" using finite_distinct_list [OF fin] by blast
  have conv: "(\<Sum>d\<in>D. g d) = (\<Sum>c<length xs. g (xs ! c))" for g :: "gl \<Rightarrow> gl"
    using sum.distinct_set_conv_list [OF xs(2), of g] xs(1) by (simp add: sum_list_eq_sum_nth)
  have lin': "\<exists>cs. length cs = card D \<and> (\<forall>t. peval cs t = (\<Prod>e\<in>D - {xs ! c}. t - e))" if "c < length xs" for c
    using lin nth_mem [OF that] xs(1) by blast
  obtain cs where c: "length cs = card D"
    "\<forall>t. peval cs t = (\<Sum>c<length xs. weight_at ps (xs ! c) * (\<Prod>e\<in>D - {xs ! c}. t - e))"
    using sum_poly [where f = "\<lambda>c t. \<Prod>e\<in>D - {xs ! c}. t - e" and y = "\<lambda>c. weight_at ps (xs ! c)", OF lin'] by blast
  have cs: "length cs = card D" "\<And>t. peval cs t = ?N t"
    using c conv [of "\<lambda>d. weight_at ps d * (\<Prod>e\<in>D - {d}. t - e)" for t] by simp_all
  have "peval cs a = 0" if a: "a \<in> S" for a
  proof -
    have "a - d \<noteq> 0" if "d \<in> D" for d using a S(1) that by auto
    then have "(\<Prod>e\<in>D - {d}. a - e) = (\<Prod>e\<in>D. a - e) * inverse (a - d)" if "d \<in> D" for d
      using fin that by (simp add: prod.remove [of D d])
    then have "?N a = (\<Prod>e\<in>D. a - e) * (\<Sum>d\<in>D. weight_at ps d * inverse (a - d))"
      by (simp add: sum_distrib_left mult_ac)
    then show ?thesis using S(3) [OF a] weighted_sum [OF fin D, of "\<lambda>p. inverse (a - p)"] cs(2) by simp
  qed
  then have "\<forall>c \<in> set cs. c = 0" using big cs(1) by (intro peval_root_bound [OF S(2)]) simp_all
  then have "peval cs pole = 0" by (metis peval_replicate_0 replicate_length_same)
  moreover have "?N pole = weight_at ps pole * (\<Prod>e\<in>D - {pole}. pole - e)"
  proof -
    have "(\<Prod>e\<in>D - {d}. pole - e) = 0" if "d \<in> D" "d \<noteq> pole" for d
      using fin p(1) that by (intro prod_zero) auto
    then have "(\<Sum>d\<in>D - {pole}. weight_at ps d * (\<Prod>e\<in>D - {d}. pole - e)) = 0" by (intro sum.neutral) auto
    then show ?thesis using sum.remove [OF fin p(1), of "\<lambda>d. weight_at ps d * (\<Prod>e\<in>D - {d}. pole - e)"] by simp
  qed
  moreover have "(\<Prod>e\<in>D - {pole}. pole - e) \<noteq> 0" using fin by (simp add: prod_zero_iff)
  ultimately show False using cs(2) p(2) by simp
qed

lemma of_nat_gl_nonzero: "0 < n \<Longrightarrow> int n < FIELD_P \<Longrightarrow> (of_nat n :: gl) \<noteq> 0"
  using gl_eq_0_iff [of "int n"] zdvd_imp_le [of FIELD_P "int n"] by auto

lemma few_nonzero: "length xs \<le> n \<Longrightarrow> n < 2 ^ 32 \<Longrightarrow> xs \<noteq> [] \<Longrightarrow> (of_nat (length xs) :: gl) \<noteq> 0"
  by (intro of_nat_gl_nonzero) (simp_all add: FIELD_P_val)

lemma weight_at_append: "weight_at (ps @ qs) d = weight_at ps d + weight_at qs d"
  by (simp add: weight_at_def)

lemma weight_at_ones: "weight_at (map (\<lambda>v. (1, of_int v)) vs) d = of_nat (length (filter (\<lambda>v. of_int v = d) vs))"
  by (induction vs) (simp_all add: weight_at_def)

lemma weight_at_none: "d \<notin> snd ` set ps \<Longrightarrow> weight_at ps d = 0"
  by (induction ps) (auto simp: weight_at_def)

definition side_points :: "int list \<Rightarrow> int list \<Rightarrow> int list \<Rightarrow> (gl \<times> gl) list" where
  "side_points qv m tv = map (\<lambda>v. (1, of_int v)) qv @ map (\<lambda>(m, v). (- of_int m, of_int v)) (zip m tv)"

lemma inv_sum: "(of_int (sum_list (map (\<lambda>v. inv_P ((a - v) mod FIELD_P)) vs) mod FIELD_P) :: gl)
    = (\<Sum>v\<leftarrow>vs. inverse (of_int a - of_int v))"
  unfolding gl_of_int_mod gl_sum_list by (simp add: comp_def)

lemma inv_weighted_sum: "(of_int (sum_list (map (\<lambda>(m, v). m * inv_P ((a - v) mod FIELD_P)) ps) mod FIELD_P) :: gl)
    = (\<Sum>(m, v)\<leftarrow>ps. of_int m * inverse (of_int a - of_int v))"
  unfolding gl_of_int_mod gl_sum_list by (simp add: comp_def case_prod_beta')

lemma identity_weighted:
  assumes "fst (identity_sides qs tab m beta a tid) = snd (identity_sides qs tab m beta a tid)"
  shows "(\<Sum>(w, p)\<leftarrow>side_points (map (\<lambda>q. compress_tuple (tid # q) beta) qs) m (map (\<lambda>t. compress_tuple (tid # t) beta) tab).
      w * inverse (of_int a - p)) = (0 :: gl)"
proof -
  let ?qv = "map (\<lambda>q. compress_tuple (tid # q) beta) qs" and ?tv = "map (\<lambda>t. compress_tuple (tid # t) beta) tab"
  have "(\<Sum>v\<leftarrow>?qv. inverse (of_int a - of_int v)) = (\<Sum>(m, v)\<leftarrow>zip m ?tv. of_int m * inverse (of_int a - of_int v) :: gl)"
    using assms inv_sum [of a ?qv] inv_weighted_sum [of a "zip m ?tv"] by (simp add: identity_sides_def Let_def comp_def)
  moreover have "(\<Sum>(w, p)\<leftarrow>map (\<lambda>(m, v). (- of_int m, of_int v)) ps. w * inverse (of_int a - p))
      = - (\<Sum>(m, v)\<leftarrow>ps. of_int m * inverse (of_int a - of_int v) :: gl)" for ps :: "(int \<times> int) list"
    by (induction ps) auto
  ultimately show ?thesis by (simp add: side_points_def comp_def)
qed

lemma identity_few:
  assumes q: "q \<in> set qs" "\<forall>t \<in> set tab. compress_tuple (tid # q) beta \<noteq> compress_tuple (tid # t) beta"
    and few: "length qs < 2 ^ 32" and S: "finite S" "\<forall>a \<in> S. 0 \<le> a \<and> a < FIELD_P"
    and clear: "\<forall>a \<in> S. clear_of a (map (\<lambda>q. compress_tuple (tid # q) beta) (qs @ tab))"
    and ident: "\<forall>a \<in> S. fst (identity_sides qs tab m beta a tid) = snd (identity_sides qs tab m beta a tid)"
  shows "card S < length qs + length tab"
proof -
  let ?c = "\<lambda>q. compress_tuple (tid # q) beta"
  let ?ps = "side_points (map ?c qs) m (map ?c tab)" and ?D = "(\<lambda>q. of_int (?c q) :: gl) ` set (qs @ tab)"
  have range: "0 \<le> compress_tuple t beta \<and> compress_tuple t beta < FIELD_P" for t
    unfolding compress_tuple_def by (rule foldl_invariant) (auto simp: FIELD_P_val)
  have D: "snd ` set ?ps \<subseteq> ?D" by (auto simp: side_points_def dest!: set_zip_rightD)
  have "of_int (?c q) \<notin> snd ` set (map (\<lambda>(m, v). (- of_int m, of_int v) :: gl \<times> gl) (zip m (map ?c tab)))"
  proof
    assume "of_int (?c q) \<in> snd ` set (map (\<lambda>(m, v). (- of_int m, of_int v) :: gl \<times> gl) (zip m (map ?c tab)))"
    then obtain t where "t \<in> set tab" "(of_int (?c q) :: gl) = of_int (?c t)" by (auto dest!: set_zip_rightD)
    then show False using q(2) range gl_inj_canonical by meson
  qed
  note none = weight_at_none [OF this]
  have w: "weight_at ?ps (of_int (?c q)) = of_nat (length (filter (\<lambda>v. (of_int v :: gl) = of_int (?c q)) (map ?c qs)))"
    unfolding side_points_def weight_at_append weight_at_ones none by (rule add_0_right)
  have "length (filter (\<lambda>v. (of_int v :: gl) = of_int (?c q)) (map ?c qs)) \<le> length qs"
    by (metis length_filter_le length_map)
  moreover have "filter (\<lambda>v. (of_int v :: gl) = of_int (?c q)) (map ?c qs) \<noteq> []"
    using q(1) by (auto simp: filter_empty_conv)
  ultimately have "weight_at ?ps (of_int (?c q)) \<noteq> 0"
    unfolding w by (rule few_nonzero [OF _ few])
  moreover have "of_int ` S \<inter> ?D = {}"
    using clear gl_eq_iff by (fastforce simp: clear_of_def list_all_iff mod_eq_dvd_iff)
  moreover have "(\<Sum>(w, p)\<leftarrow>?ps. w * inverse (a - p)) = 0" if "a \<in> of_int ` S" for a
    using that ident identity_weighted by auto
  ultimately have "card (of_int ` S :: gl set) < card ?D"
    using q(1) S(1) D by (intro pole_roots [where pole = "of_int (?c q)" and ps = ?ps]) auto
  moreover have "inj_on (of_int :: int \<Rightarrow> gl) S" using S(2) by (auto simp: inj_on_def intro: gl_inj_canonical)
  moreover have "card ?D \<le> length (qs @ tab)" by (metis card_image_le List.finite_set card_length order_trans)
  ultimately show ?thesis by (simp add: card_image)
qed

section \<open>Tuple compression\<close>

lemma compress_snoc: "compress_tuple (t @ [v]) beta = (compress_tuple t beta * beta + v mod FIELD_P) mod FIELD_P"
  by (simp add: compress_tuple_def)

lemma gl_compress: "(of_int (compress_tuple t beta) :: gl) = peval (glL (rev t)) (of_int beta)"
  by (induction t rule: rev_induct) (simp_all add: compress_snoc, simp_all add: compress_tuple_def)

text \<open>
  Fact (\<open>compress_collisions\<close>): two different tuples of field elements of one length have equal
  compressions for fewer values of \<open>beta\<close> than the tuples have entries.
\<close>

theorem compress_collisions:
  assumes c: "canonical s" "canonical t" and len: "length s = length t" and ne: "s \<noteq> t"
    and S: "finite S" "\<forall>b \<in> S. 0 \<le> b \<and> b < FIELD_P" "\<forall>b \<in> S. compress_tuple s b = compress_tuple t b"
  shows "card S < length s"
proof (rule ccontr)
  assume "\<not> card S < length s"
  then have big: "length (glL (rev s)) \<le> card (of_int ` S :: gl set)"
    using S(2) by (subst card_image) (auto simp: inj_on_def intro: gl_inj_canonical)
  have "glL (rev s) = glL (rev t)"
  proof (rule peval_eq_on_points [OF _ _ big])
    fix x assume "x \<in> (of_int ` S :: gl set)"
    then show "peval (glL (rev s)) x = peval (glL (rev t)) x" using S(3) by (auto simp flip: gl_compress)
  qed (use len S(1) in simp_all)
  then have "map (of_int :: int \<Rightarrow> gl) s = map of_int t" by (simp flip: rev_map)
  then have "s = t" using c len by (intro canonical_eqI) (simp_all add: list_eq_iff_nth_eq)
  then show False using ne by simp
qed

theorem compress_collisions_witness:
  "card {b. b \<in> {0, 1} \<and> compress_tuple [9, 3, 4] b = compress_tuple [9, 4, 3] b} < length [9, 3, 4 :: int]"
  by (rule compress_collisions [of _ "[9, 4, 3]"]) (auto simp: canonical_def FIELD_P_val)

section \<open>What an accepted identity says about the tuples\<close>

text \<open>
  The compression points at which some table row looks like the query \<open>q\<close>, and the evaluation
  points at which the identity cannot be trusted: the poles, and the points where its sides agree.
\<close>

definition bad_betas :: "int list \<Rightarrow> int list list \<Rightarrow> int \<Rightarrow> int set" where
  "bad_betas q tab tid = {b. 0 \<le> b \<and> b < FIELD_P \<and> (\<exists>t \<in> set tab. compress_tuple (tid # q) b = compress_tuple (tid # t) b)}"

definition bad_alphas :: "int list list \<Rightarrow> int list list \<Rightarrow> int list \<Rightarrow> int \<Rightarrow> int \<Rightarrow> int set" where
  "bad_alphas qs tab m beta tid =
     {a. 0 \<le> a \<and> a < FIELD_P \<and>
         (\<not> clear_of a (map (\<lambda>q. compress_tuple (tid # q) beta) (qs @ tab)) \<or>
          fst (identity_sides qs tab m beta a tid) = snd (identity_sides qs tab m beta a tid))}"

lemma poles_few: "card {a. 0 \<le> a \<and> a < FIELD_P \<and> \<not> clear_of a vs} \<le> length vs"
proof -
  have "{a. 0 \<le> a \<and> a < FIELD_P \<and> \<not> clear_of a vs} \<subseteq> (\<lambda>v. v mod FIELD_P) ` set vs"
  proof
    fix a assume "a \<in> {a. 0 \<le> a \<and> a < FIELD_P \<and> \<not> clear_of a vs}"
    then obtain v where v: "v \<in> set vs" "(a - v) mod FIELD_P = 0" "0 \<le> a" "a < FIELD_P"
      by (auto simp: clear_of_def list_all_iff)
    then have "a = v mod FIELD_P" using mod_eq_dvd_iff [of a FIELD_P v] by (simp add: dvd_eq_mod_eq_0)
    then show "a \<in> (\<lambda>v. v mod FIELD_P) ` set vs" using v(1) by blast
  qed
  then have "card {a. 0 \<le> a \<and> a < FIELD_P \<and> \<not> clear_of a vs} \<le> card ((\<lambda>v. v mod FIELD_P) ` set vs)"
    by (intro card_mono) simp_all
  also have "\<dots> \<le> length vs" using card_image_le [of "set vs"] card_length [of vs] by (meson List.finite_set order_trans)
  finally show ?thesis .
qed

lemma compress_mod: "compress_tuple (map (\<lambda>v. v mod FIELD_P) t) b = compress_tuple t b"
  by (simp add: compress_tuple_def foldl_map)

lemma compress_tag: "(of_int (compress_tuple (tid # t) b) :: gl) = of_int (compress_tuple t b) + of_int b ^ length t * of_int tid"
  by (simp add: gl_compress peval_append)

lemma betas_few:
  assumes len: "length t = length q" and ne: "map (\<lambda>v. v mod FIELD_P) t \<noteq> map (\<lambda>v. v mod FIELD_P) q"
  shows "card {b. 0 \<le> b \<and> b < FIELD_P \<and> compress_tuple (tid # q) b = compress_tuple (tid # t) b} \<le> length q - 1"
proof -
  let ?B = "{b. 0 \<le> b \<and> b < FIELD_P \<and> compress_tuple (tid # q) b = compress_tuple (tid # t) b}"
  let ?r = "map (\<lambda>v. v mod FIELD_P)"
  have eq: "compress_tuple q b = compress_tuple t b" if "b \<in> ?B" for b
  proof -
    have "(of_int (compress_tuple (tid # q) b) :: gl) = of_int (compress_tuple (tid # t) b)" using that by simp
    then have "(of_int (compress_tuple q b) :: gl) = of_int (compress_tuple t b)" by (simp only: compress_tag len) simp
    moreover have "0 \<le> compress_tuple x b \<and> compress_tuple x b < FIELD_P" for x
      unfolding compress_tuple_def by (rule foldl_invariant) (auto simp: FIELD_P_val)
    ultimately show ?thesis using gl_inj_canonical by blast
  qed
  have "card ?B < length (?r q)"
  proof (rule compress_collisions)
    show "canonical (?r q)" "canonical (?r t)" by (auto simp: canonical_def)
    show "length (?r q) = length (?r t)" "?r q \<noteq> ?r t" using assms by auto
    show "finite ?B" by (rule finite_subset [of _ "{0..<FIELD_P}"]) auto
    show "\<forall>b \<in> ?B. 0 \<le> b \<and> b < FIELD_P" by simp
    show "\<forall>b \<in> ?B. compress_tuple (?r q) b = compress_tuple (?r t) b" using eq by (simp add: compress_mod)
  qed
  then show ?thesis by simp
qed

text \<open>
  Property C26 (\<open>logup_identity_sound\<close>): suppose a query tuple is not a table row (modulo \<open>P\<close>, all of
  one width \<open>w\<close>). The compression points \<open>beta\<close> at which some row compresses to the same value as
  the query number at most \<open>n_table * (w - 1)\<close>. For every other \<open>beta\<close> and whatever multiplicities,
  the evaluation points \<open>alpha\<close> that are a pole or make the two sides of
  \<open>sum 1/(alpha - q) = sum m/(alpha - t)\<close> equal number fewer than \<open>2 (n_queries + n_table)\<close>.
\<close>

theorem logup_identity_sound:
  assumes q: "q \<in> set qs" "\<forall>t \<in> set tab. length t = length q \<and> map (\<lambda>v. v mod FIELD_P) t \<noteq> map (\<lambda>v. v mod FIELD_P) q"
    and few: "length qs < 2 ^ 32"
  shows "card (bad_betas q tab tid) \<le> length tab * (length q - 1) \<and>
    (\<forall>beta m. 0 \<le> beta \<and> beta < FIELD_P \<and> beta \<notin> bad_betas q tab tid \<longrightarrow>
      card (bad_alphas qs tab m beta tid) < 2 * (length qs + length tab))"
proof (intro conjI allI impI)
  let ?B = "\<lambda>t. {b. 0 \<le> b \<and> b < FIELD_P \<and> compress_tuple (tid # q) b = compress_tuple (tid # t) b}"
  have "bad_betas q tab tid = (\<Union>t \<in> set tab. ?B t)" by (auto simp: bad_betas_def)
  then have "card (bad_betas q tab tid) \<le> (\<Sum>t \<in> set tab. card (?B t))" by (simp add: card_UN_le)
  also have "\<dots> \<le> card (set tab) * (length q - 1)"
    using sum_bounded_above [of "set tab" "\<lambda>t. card (?B t)" "length q - 1"] betas_few q(2) by (simp add: mult.commute)
  also have "\<dots> \<le> length tab * (length q - 1)" by (simp add: card_length)
  finally show "card (bad_betas q tab tid) \<le> length tab * (length q - 1)" .
next
  fix beta m
  assume b: "0 \<le> beta \<and> beta < FIELD_P \<and> beta \<notin> bad_betas q tab tid"
  let ?vs = "map (\<lambda>q. compress_tuple (tid # q) beta) (qs @ tab)"
  let ?S = "{a. 0 \<le> a \<and> a < FIELD_P \<and> clear_of a ?vs \<and>
      fst (identity_sides qs tab m beta a tid) = snd (identity_sides qs tab m beta a tid)}"
  have sep: "\<forall>t \<in> set tab. compress_tuple (tid # q) beta \<noteq> compress_tuple (tid # t) beta" using b by (auto simp: bad_betas_def)
  have "finite ?S" by (rule finite_subset [of _ "{0..<FIELD_P}"]) auto
  then have "card ?S < length qs + length tab" by (intro identity_few [OF q(1) sep few]) auto
  moreover have "card {a. 0 \<le> a \<and> a < FIELD_P \<and> \<not> clear_of a ?vs} \<le> length qs + length tab"
    using poles_few [of ?vs] by simp
  moreover have "bad_alphas qs tab m beta tid = {a. 0 \<le> a \<and> a < FIELD_P \<and> \<not> clear_of a ?vs} \<union> ?S"
    by (auto simp: bad_alphas_def)
  ultimately show "card (bad_alphas qs tab m beta tid) < 2 * (length qs + length tab)"
    using card_Un_le [of "{a. 0 \<le> a \<and> a < FIELD_P \<and> \<not> clear_of a ?vs}" ?S] by simp
qed

theorem logup_identity_sound_witness:
  "card (bad_betas [1, 2] [[2, 1], [3, 4]] 9) \<le> 2 \<and>
    0 \<notin> bad_betas [1, 2] [[2, 1], [3, 4]] 9 \<and> card (bad_alphas [[1, 2], [3, 4]] [[2, 1], [3, 4]] [1, 1] 0 9) < 8 \<and>
    1 \<in> bad_betas [1, 2] [[2, 1], [3, 4]] 9"
proof -
  have q: "[1, 2] \<in> set [[1, 2], [3, 4 :: int]]" by simp
  have t: "\<forall>t \<in> set [[2, 1], [3, 4]]. length t = length [1, 2 :: int] \<and> map (\<lambda>v. v mod FIELD_P) t \<noteq> map (\<lambda>v. v mod FIELD_P) [1, 2]"
    by (simp add: FIELD_P_val)
  have n: "0 \<notin> bad_betas [1, 2] [[2, 1], [3, 4]] 9" "1 \<in> bad_betas [1, 2] [[2, 1], [3, 4]] 9"
    by (simp_all add: bad_betas_def compress_tuple_def FIELD_P_val)
  have l: "length [[1, 2], [3, 4 :: int]] < 2 ^ 32" by simp
  note s = logup_identity_sound [OF q t l, of 9]
  have "card (bad_alphas [[1, 2], [3, 4]] [[2, 1], [3, 4]] [1, 1] 0 9) < 2 * (length [[1, 2], [3, 4 :: int]] + length [[2, 1], [3, 4 :: int]])"
    using s n(1) FIELD_P_val by (metis order_refl zero_less_numeral)
  then show ?thesis using s n by simp
qed

section \<open>What the verifier leaves open\<close>

text \<open>
  Property C27 (\<open>logup_sums_unchecked\<close>): run the prover on any committed values, whether or not any
  query value is a table value (two power-of-two lists of at least two, none of them the evaluation
  point, any multiplicities). It returns a proof without masks whose two sum checks claim the two
  sides of the identity. Overwrite \<open>sum_query\<close> and \<open>sum_table\<close> by any \<open>s\<close> and \<open>s'\<close>: the verdict is
  \<open>s = s'\<close>, whatever the sum checks claim. So the verifier compares two free numbers of the proof,
  and the run on a false lookup, whose two claims differ, is accepted after writing the same number
  twice.
\<close>

theorem logup_sums_unchecked:
  assumes rd: "lu_ready lu alpha k l" and tr: "tschedule tr = None"
  shows "\<exists>pf tr'. lu_prove H lu tr = Inr (pf, tr') \<and>
    \<not> masked (query_constraint pf) \<and> \<not> masked (table_constraint pf) \<and> \<not> masked (query_sum_check pf) \<and> \<not> masked (table_sum_check pf) \<and>
    (of_int (sc_claim (query_sum_check pf)) :: gl) = (\<Sum>i<2 ^ k. inverse (of_int alpha - of_int (q_vals lu ! i))) \<and>
    (of_int (sc_claim (table_sum_check pf)) :: gl) = (\<Sum>i<2 ^ l. of_int (mult lu ! i) * inverse (of_int alpha - of_int (t_vals lu ! i))) \<and>
    (\<forall>s s'. lu_verify H (pf\<lparr>sum_query := s, sum_table := s'\<rparr>) (q_vals lu) (t_vals lu) (mult lu) alpha = Inr (s = s'))"
proof -
  obtain pf tr' where p: "lu_prove H lu tr = Inr (pf, tr')"
    "\<forall>s s'. lu_verify H (pf\<lparr>sum_query := s, sum_table := s'\<rparr>) (q_vals lu) (t_vals lu) (mult lu) alpha = Inr (s = s')"
    "(of_int (sum_query pf) :: gl) = (\<Sum>i<2 ^ k. inverse (of_int alpha - of_int (q_vals lu ! i)))"
    "(of_int (sum_table pf) :: gl) = (\<Sum>i<2 ^ l. of_int (mult lu ! i) * inverse (of_int alpha - of_int (t_vals lu ! i)))"
    using lu_honest [OF rd tr, of H] by blast
  then show ?thesis using lu_prove_parts [OF p(1)] by auto
qed

theorem logup_sums_unchecked_witness:
  "let lu = \<lparr>lu_cfg = cfg_toy, table_id = 0, queries = [], table = [], mult = [1, 0], lu_stage_of = LuBuilt, lu_beta = None,
      lu_alpha = Some 9, q_vals = [5, 6], t_vals = [1, 2], r_q = recips 9 [5, 6], r_t = recips 9 [1, 2],
      raw_commit = None, cmp_commit = None\<rparr>
    in set (q_vals lu) \<inter> set (t_vals lu) = {} \<and>
      (\<exists>pf tr'. lu_prove toy_hash lu (new_transcript [] None) = Inr (pf, tr') \<and>
        sc_claim (query_sum_check pf) \<noteq> sc_claim (table_sum_check pf) \<and>
        lu_verify toy_hash (pf\<lparr>sum_query := 0, sum_table := 0\<rparr>) [5, 6] [1, 2] [1, 0] 9 = Inr True)"
proof -
  let ?lu = "\<lparr>lu_cfg = cfg_toy, table_id = 0, queries = [], table = [], mult = [1, 0], lu_stage_of = LuBuilt, lu_beta = None,
      lu_alpha = Some 9, q_vals = [5, 6], t_vals = [1, 2], r_q = recips 9 [5, 6], r_t = recips 9 [1, 2],
      raw_commit = None, cmp_commit = None\<rparr>"
  have rd: "lu_ready ?lu 9 1 1" by (simp add: lu_ready_def clear_of_def FIELD_P_val)
  have tr: "tschedule (new_transcript [] None) = None" by (simp add: new_transcript_def)
  obtain pf tr' where p: "lu_prove toy_hash ?lu (new_transcript [] None) = Inr (pf, tr')"
    "(of_int (sc_claim (query_sum_check pf)) :: gl) = (\<Sum>i<2 ^ 1. inverse (of_int 9 - of_int (q_vals ?lu ! i)))"
    "(of_int (sc_claim (table_sum_check pf)) :: gl) = (\<Sum>i<2 ^ 1. of_int (mult ?lu ! i) * inverse (of_int 9 - of_int (t_vals ?lu ! i)))"
    "\<forall>s s'. lu_verify toy_hash (pf\<lparr>sum_query := s, sum_table := s'\<rparr>) (q_vals ?lu) (t_vals ?lu) (mult ?lu) 9 = Inr (s = s')"
    using logup_sums_unchecked [OF rd tr, of toy_hash] by blast
  have two: "{..<2 ^ 1} = {0, 1 :: nat}" by auto
  have nz: "(3 :: gl) \<noteq> 0" "(4 :: gl) \<noteq> 0" "(8 :: gl) \<noteq> 0"
    using gl_eq_0_iff [of 3] gl_eq_0_iff [of 4] gl_eq_0_iff [of 8] by (simp_all add: FIELD_P_val)
  have claims: "(of_int (sc_claim (query_sum_check pf)) :: gl) = 1 / 4 + 1 / 3" "(of_int (sc_claim (table_sum_check pf)) :: gl) = 1 / 8"
    using p(2,3) unfolding two by (simp_all add: inverse_eq_divide)
  have "sc_claim (query_sum_check pf) \<noteq> sc_claim (table_sum_check pf)"
  proof
    assume "sc_claim (query_sum_check pf) = sc_claim (table_sum_check pf)"
    then have "1 / 4 + 1 / 3 = (1 / 8 :: gl)" using claims by metis
    then have "(56 :: gl) = 12" using nz by (simp add: field_simps)
    then show False using gl_eq_iff [of 56 12] by (simp add: FIELD_P_val)
  qed
  then show ?thesis using p(1,4) by (auto simp: Let_def)
qed

section \<open>The order of the stages\<close>

text \<open>One call on the lookup object; the transcript may absorb and draw anything in between.\<close>

inductive lu_step :: "hashfn \<Rightarrow> logup \<times> transcript \<Rightarrow> logup \<times> transcript \<Rightarrow> bool" for H where
  st_raw: "commit_raw H lu tr label = Inr (r, lu', tr') \<Longrightarrow> lu_step H (lu, tr) (lu', tr')"
| st_compress: "compress H lu beta tr label = Inr (r, lu', tr') \<Longrightarrow> lu_step H (lu, tr) (lu', tr')"
| st_build: "build lu alpha = Inr lu' \<Longrightarrow> lu_step H (lu, tr) (lu', tr)"
| st_other: "t_step H tr tr' \<Longrightarrow> lu_step H (lu, tr) (lu, tr')"

inductive lu_reach :: "hashfn \<Rightarrow> logup \<times> transcript \<Rightarrow> logup \<times> transcript \<Rightarrow> bool" for H s0 where
  lr_refl: "lu_reach H s0 s0"
| lr_step: "lu_reach H s0 s \<Longrightarrow> lu_step H s s' \<Longrightarrow> lu_reach H s0 s'"

fun absorbed_roots :: "log_entry list \<Rightarrow> bytes list" where
  "absorbed_roots [] = []"
| "absorbed_roots (LAbsorb l d # es) = d # absorbed_roots es"
| "absorbed_roots (LCoin l n # es) = absorbed_roots es"

lemma absorbed_roots_append [simp]: "absorbed_roots (xs @ ys) = absorbed_roots xs @ absorbed_roots ys"
  by (induction xs rule: absorbed_roots.induct) simp_all

text \<open>What each stage guarantees about the roots already on the transcript.\<close>

definition lu_bound :: "logup \<times> transcript \<Rightarrow> bool" where
  "lu_bound s \<longleftrightarrow> (case s of (lu, tr) \<Rightarrow>
     (lu_stage_of lu \<noteq> LuInit \<longrightarrow> (\<exists>cm. raw_commit lu = Some cm \<and> c_root cm \<in> set (absorbed_roots (tlog tr)))) \<and>
     (lu_stage_of lu \<in> {LuCmp, LuBuilt} \<longrightarrow> (\<exists>cm cc pre mid post. raw_commit lu = Some cm \<and> cmp_commit lu = Some cc \<and>
        absorbed_roots (tlog tr) = pre @ c_root cm # mid @ c_root cc # post)) \<and>
     (lu_stage_of lu = LuBuilt \<longrightarrow> (\<exists>alpha. lu_alpha lu = Some alpha \<and>
        r_q lu = batch_inv (map (\<lambda>v. (alpha - v) mod FIELD_P) (q_vals lu)) \<and>
        r_t lu = batch_inv (map (\<lambda>v. (alpha - v) mod FIELD_P) (t_vals lu)))))"

lemma t_step_log: "t_step H t t' \<Longrightarrow> \<exists>es. tlog t' = tlog t @ es"
  using t_step_entry by blast

lemma absorb_log: "absorb tr label d = Inr tr' \<Longrightarrow> absorbed_roots (tlog tr') = absorbed_roots (tlog tr) @ [d]"
  using t_check_fields by (auto simp: absorb_def rbind_Inr_iff)

lemma lu_bound_step: "lu_bound s \<Longrightarrow> lu_step H s s' \<Longrightarrow> lu_bound s'"
proof (erule lu_step.cases)
  fix lu tr label r lu' tr'
  assume b: "lu_bound s" and s: "s = (lu, tr)" "s' = (lu', tr')" and c: "commit_raw H lu tr label = Inr (r, lu', tr')"
  show "lu_bound s'" using c absorb_log by (auto simp: s lu_bound_def commit_raw_def rbind_Inr_iff split: if_splits)
next
  fix lu beta tr label r lu' tr'
  assume b: "lu_bound s" and s: "s = (lu, tr)" "s' = (lu', tr')" and c: "compress H lu beta tr label = Inr (r, lu', tr')"
  have st: "lu_stage_of lu = LuRaw" using c by (simp add: compress_def split: if_splits)
  obtain cc where cc: "absorb tr label (c_root cc) = Inr tr'" "cmp_commit lu' = Some cc" "raw_commit lu' = raw_commit lu"
    "lu_stage_of lu' = LuCmp"
    using c by (auto simp: compress_def rbind_Inr_iff Let_def split: if_splits)
  obtain cm where cm: "raw_commit lu = Some cm" "c_root cm \<in> set (absorbed_roots (tlog tr))"
    using b st by (auto simp: s lu_bound_def)
  obtain pre mid where "absorbed_roots (tlog tr) = pre @ c_root cm # mid" using cm(2) by (meson split_list)
  then have e: "absorbed_roots (tlog tr') = pre @ c_root cm # mid @ c_root cc # []" using absorb_log [OF cc(1)] by simp
  then have "c_root cm \<in> set (absorbed_roots (tlog tr'))" by simp
  then show "lu_bound s'" using cc(2-4) cm(1) e by (auto simp: s lu_bound_def)
next
  fix lu alpha lu' tr
  assume b: "lu_bound s" and s: "s = (lu, tr)" "s' = (lu', tr)" and c: "build lu alpha = Inr lu'"
  show "lu_bound s'" using b c by (auto simp: s lu_bound_def build_def split: if_splits) blast
next
  fix tr tr' lu
  assume b: "lu_bound s" and s: "s = (lu, tr)" "s' = (lu, tr')" and c: "t_step H tr tr'"
  obtain es where e: "tlog tr' = tlog tr @ es" using t_step_log [OF c] by blast
  show "lu_bound s'" using b by (auto simp: s lu_bound_def e) (metis append.assoc append_Cons)+
qed

text \<open>
  Fact (\<open>logup_stage_order\<close>): in every state reachable from a fresh lookup object, however the
  calls and the transcript's other steps are interleaved, reciprocals exist only when the root of
  the raw rows and then the root of the compressed values are already on the transcript, and they
  are the batch inverses at the stored evaluation point.
\<close>

theorem logup_stage_order:
  assumes i: "logup_init cfg tid qs tab m = Inr lu0" and r: "lu_reach H (lu0, tr0) (lu, tr)" and b: "lu_stage_of lu = LuBuilt"
  shows "\<exists>cm cc pre mid post alpha. raw_commit lu = Some cm \<and> cmp_commit lu = Some cc \<and> lu_alpha lu = Some alpha \<and>
    absorbed_roots (tlog tr) = pre @ c_root cm # mid @ c_root cc # post \<and>
    r_q lu = batch_inv (map (\<lambda>v. (alpha - v) mod FIELD_P) (q_vals lu))"
proof -
  have "lu_bound s" if "lu_reach H (lu0, tr0) s" for s
    using that
  proof induction
    case lr_refl
    have "lu_stage_of lu0 = LuInit" using i by (auto simp: logup_init_def Let_def split: if_splits)
    then show ?case by (simp add: lu_bound_def)
  next
    case lr_step
    then show ?case using lu_bound_step by blast
  qed
  from this [OF r] b show ?thesis by (fastforce simp: lu_bound_def)
qed

theorem logup_stage_order_witness:
  "\<exists>lu0 lu tr. logup_init cfg_toy 9 [[1], [2]] [[1], [2]] [] = Inr lu0 \<and>
    lu_reach toy_hash (lu0, new_transcript [] None) (lu, tr) \<and> lu_stage_of lu = LuBuilt \<and>
    (\<exists>cm cc pre mid post. raw_commit lu = Some cm \<and> cmp_commit lu = Some cc \<and>
       absorbed_roots (tlog tr) = pre @ c_root cm # mid @ c_root cc # post)"
proof -
  obtain lu where lu: "logup_init cfg_toy 9 [[1], [2]] [[1], [2]] [] = Inr lu" "queries lu = [[1], [2]]"
    "table lu = [[1], [2]]" "table_id lu = 9" using toy_logup by blast
  have c: "clear_of 5 (lu_values lu 0 (queries lu @ table lu))"
    by (simp add: lu clear_of_def lu_values_def compress_tuple_def FIELD_P_val)
  have t: "tschedule (new_transcript [] None) = None" by (simp add: new_transcript_def)
  have e: "0 < ELL cfg_toy" and two: "2 \<le> length [[1 :: int], [2]]" by (simp_all add: cfg_toy_def)
  have small: "length (queries lu) < 2 ^ 64" "length (table lu) < 2 ^ 64" by (simp_all add: lu)
  note run = logup_run [OF hash32_toy valid_cfg_toy e lu(1) two two small c]
  obtain r1 lu1 ta where s1: "commit_raw toy_hash lu (new_transcript [] None) ''R_lk'' = Inr (r1, lu1, ta)"
    using run [OF t t t] by blast
  have ta: "tschedule ta = None"
    using s1 by (auto simp: commit_raw_def rbind_Inr_iff absorb_def t_check_def new_transcript_def split: if_splits)
  obtain r2 lu2 tb lu3 where s2: "compress toy_hash lu1 0 ta ''R_cmp'' = Inr (r2, lu2, tb)" "build lu2 5 = Inr lu3"
    using run [OF t ta t] s1 by fastforce
  have "lu_reach toy_hash (lu, new_transcript [] None) (lu1, ta)"
    by (rule lr_step [OF lr_refl st_raw [OF s1]])
  then have "lu_reach toy_hash (lu, new_transcript [] None) (lu2, tb)" by (rule lr_step) (rule st_compress [OF s2(1)])
  then have r: "lu_reach toy_hash (lu, new_transcript [] None) (lu3, tb)" by (rule lr_step) (rule st_build [OF s2(2)])
  have b: "lu_stage_of lu3 = LuBuilt" using s2(2) by (auto simp: build_def split: if_splits)
  show ?thesis using logup_stage_order [OF lu(1) r b] lu(1) r b by blast
qed

end
