(* ===== verification/Relations.thy ===== *)
theory Relations
  imports LogUp
begin

text \<open>
  The zero relations of \<^verbatim>\<open>layergkr/relations.py\<close> and their batching: the gate constructors, the
  common padded domain, the batch transcript, \<open>prove_batch\<close> and \<open>verify_batch\<close>. Device tensors are
  lists here.
\<close>

section \<open>Gates\<close>

record gate =
  g_kind :: string
  g_node :: string
  g_terms :: "sc_term list"

definition gate_size :: "gate \<Rightarrow> nat result" where
  "gate_size g =
     (if g_terms g = [] then Inl IndexError else if snd (hd (g_terms g)) = [] then Inl IndexError
      else Inr (first_len (g_terms g)))"

definition gate_degree :: "gate \<Rightarrow> nat result" where
  "gate_degree g = (if g_terms g = [] then Inl ValueError else Inr (terms_deg (g_terms g)))"

definition hadamard_gate :: "string \<Rightarrow> int list \<Rightarrow> int list \<Rightarrow> int list \<Rightarrow> gate" where
  "hadamard_gate node a b c = \<lparr>g_kind = ''hadamard'', g_node = node, g_terms = [(1, [a, b]), (FIELD_P - 1, [c])]\<rparr>"

definition booleanity :: "string \<Rightarrow> int list \<Rightarrow> gate" where
  "booleanity node b = \<lparr>g_kind = ''boolean'', g_node = node, g_terms = [(1, [b, b]), (FIELD_P - 1, [b])]\<rparr>"

definition affine :: "string \<Rightarrow> int list \<Rightarrow> int list list \<Rightarrow> int list \<Rightarrow> gate" where
  "affine node coeffs xs y =
     \<lparr>g_kind = ''affine'', g_node = node,
      g_terms = map (\<lambda>(c, x). (c mod FIELD_P, [x])) (zip coeffs xs) @ [(FIELD_P - 1, [y])]\<rparr>"

definition rescale :: "string \<Rightarrow> int list \<Rightarrow> int list \<Rightarrow> int list \<Rightarrow> int \<Rightarrow> gate" where
  "rescale node raw q r scale =
     \<lparr>g_kind = ''rescale'', g_node = node,
      g_terms = [(1, [raw]), ((- scale) mod FIELD_P, [q]), (FIELD_P - 1, [r])]\<rparr>"

definition pad_zero :: "int list \<Rightarrow> nat \<Rightarrow> int list" where
  "pad_zero vec n = vec @ replicate (n - length vec) 0"

definition batch_domain :: "gate list \<Rightarrow> nat result" where
  "batch_domain gates =
     rbind (rmap gate_size gates) (\<lambda>sizes.
       if sizes = [] then Inl ValueError else Inr (pow2_from 1 (Max (set sizes))))"

section \<open>The batch\<close>

definition rel_ints :: "int list \<Rightarrow> bytes result" where
  "rel_ints vals = rbind (rmap (\<lambda>v. to_bytes 8 (v mod FIELD_P)) vals) (\<lambda>bs. Inr (concat bs))"

definition batch_transcript :: "hashfn \<Rightarrow> string \<Rightarrow> int list \<Rightarrow> int list \<Rightarrow> round_transcript result" where
  "batch_transcript H label z lambdas =
     rbind (rel_ints z) (\<lambda>zb. rbind (rel_ints lambdas) (\<lambda>lb.
       new_rt H [encode ''layergkr/relations/batch/v1'', encode label, zb, lb]))"

definition batch_terms :: "int list \<Rightarrow> int list \<Rightarrow> gate list \<Rightarrow> nat \<Rightarrow> sc_term list" where
  "batch_terms eq_z lambdas gates n =
     concat (map (\<lambda>(lam, g). map (\<lambda>(coeff, factors). ((lam * coeff) mod FIELD_P, eq_z # map (\<lambda>f. pad_zero f n) factors))
       (g_terms g)) (zip lambdas gates))"

definition prove_batch :: "hashfn \<Rightarrow> gate list \<Rightarrow> transcript \<Rightarrow> string \<Rightarrow> mask_tape option \<Rightarrow>
    (sc_proof \<times> int list \<times> int list \<times> transcript) result" where
  "prove_batch H gates tr label tape =
     rbind (batch_domain gates) (\<lambda>n.
     let n_vars = max (bit_length n - 1) 1 in
     rbind (coin H tr (label @ ''_batch'') (length gates)) (\<lambda>(lambdas, tr1).
     rbind (coin H tr1 (label @ ''_z'') n_vars) (\<lambda>(z, tr2).
     rbind (batch_transcript H label z lambdas) (\<lambda>rt.
     rbind (prove_terms H (batch_terms (eq_vector z) lambdas gates n) (CoinRT rt) tape 0) (\<lambda>pf.
       Inr (pf, z, lambdas, tr2))))))"

definition verify_batch :: "hashfn \<Rightarrow> sc_proof \<Rightarrow> gate list \<Rightarrow> int list \<Rightarrow> int list \<Rightarrow> int \<Rightarrow> string \<Rightarrow> bool result" where
  "verify_batch H pf gates z lambdas mu0 label =
     rbind (batch_domain gates) (\<lambda>n.
     let terms = batch_terms (eq_vector z) lambdas gates n in
     if sc_claim pf mod FIELD_P \<noteq> mu0 mod FIELD_P then Inr False
     else rbind (batch_transcript H label z lambdas) (\<lambda>rt.
       verify_terms H pf terms (CoinRT rt)))"

section \<open>What the gates say\<close>

text \<open>The value of a gate's expression at a point of its domain, zero past its end.\<close>

definition at0 :: "int list \<Rightarrow> nat \<Rightarrow> int" where
  "at0 f i = (if i < length f then f ! i else 0)"

definition gate_value :: "gate \<Rightarrow> nat \<Rightarrow> int" where
  "gate_value g i = sum_list (map (\<lambda>(c, fs). c * prod_list (map (\<lambda>f. at0 f i) fs)) (g_terms g)) mod FIELD_P"

definition gate_holds :: "gate \<Rightarrow> nat \<Rightarrow> bool" where
  "gate_holds g n \<longleftrightarrow> (\<forall>i < n. gate_value g i = 0)"

lemma gl_minus_one: "(of_int (FIELD_P - 1) :: gl) = - 1"
  by (simp add: gl_eq_0_iff)

lemma gl_prod_list: "(of_int (prod_list xs) :: gl) = (\<Prod>x\<leftarrow>xs. of_int x)"
  by (induction xs) simp_all

lemma gl_gate_value: "(of_int (gate_value g i) :: gl) = (\<Sum>(c, fs)\<leftarrow>g_terms g. of_int c * (\<Prod>f\<leftarrow>fs. of_int (at0 f i)))"
  unfolding gate_value_def gl_of_int_mod gl_sum_list by (simp add: comp_def case_prod_beta' gl_prod_list)

lemma gate_value_0: "gate_value g i = 0 \<longleftrightarrow> (of_int (gate_value g i) :: gl) = 0"
  by (simp add: gl_eq_0_iff gate_value_def dvd_eq_mod_eq_0)

text \<open>
  Fact (\<open>gate_relations\<close>): at every point of the domain the four constructors state exactly
  their relations modulo the field prime: \<open>c = a * b\<close>, \<open>b \<in> {0, 1}\<close>, \<open>y = sum c_k x_k\<close> and
  \<open>raw = scale * q + r\<close>.
\<close>

theorem gate_relations:
  "gate_value (hadamard_gate nd a b c) i = 0 \<longleftrightarrow> (at0 a i * at0 b i) mod FIELD_P = at0 c i mod FIELD_P"
  "gate_value (booleanity nd b) i = 0 \<longleftrightarrow> at0 b i mod FIELD_P \<in> {0, 1}"
  "gate_value (affine nd coeffs xs y) i = 0 \<longleftrightarrow>
     sum_list (map (\<lambda>(c, x). c * at0 x i) (zip coeffs xs)) mod FIELD_P = at0 y i mod FIELD_P"
  "gate_value (rescale nd raw q r scale) i = 0 \<longleftrightarrow> at0 raw i mod FIELD_P = (scale * at0 q i + at0 r i) mod FIELD_P"
proof -
  show "gate_value (hadamard_gate nd a b c) i = 0 \<longleftrightarrow> (at0 a i * at0 b i) mod FIELD_P = at0 c i mod FIELD_P"
    by (simp add: gate_value_0 gl_gate_value hadamard_gate_def gl_minus_one flip: gl_eq_iff del: of_int_diff)
  have "gate_value (booleanity nd b) i = 0 \<longleftrightarrow> (of_int (at0 b i) :: gl) * (of_int (at0 b i) - 1) = 0"
    by (simp add: gate_value_0 gl_gate_value booleanity_def gl_minus_one algebra_simps del: of_int_diff)
  also have "\<dots> \<longleftrightarrow> (of_int (at0 b i) :: gl) = of_int 0 \<or> (of_int (at0 b i) :: gl) = of_int 1" by simp
  also have "\<dots> \<longleftrightarrow> at0 b i mod FIELD_P \<in> {0, 1}" unfolding gl_eq_iff by (simp add: FIELD_P_val)
  finally show "gate_value (booleanity nd b) i = 0 \<longleftrightarrow> at0 b i mod FIELD_P \<in> {0, 1}" .
  have "(of_int (sum_list (map (\<lambda>(c, x). c * at0 x i) ps)) :: gl)
      = (\<Sum>(c, fs)\<leftarrow>map (\<lambda>(c, x). (c mod FIELD_P, [x])) ps. of_int c * (\<Prod>f\<leftarrow>fs. of_int (at0 f i)))" for ps
    by (induction ps) auto
  then show "gate_value (affine nd coeffs xs y) i = 0 \<longleftrightarrow>
     sum_list (map (\<lambda>(c, x). c * at0 x i) (zip coeffs xs)) mod FIELD_P = at0 y i mod FIELD_P"
    by (simp add: gate_value_0 gl_gate_value affine_def gl_minus_one flip: gl_eq_iff del: of_int_diff)
  have "(of_int (gate_value (rescale nd raw q r scale) i) :: gl) = of_int (at0 raw i) - of_int (scale * at0 q i + at0 r i)"
    by (simp add: gl_gate_value rescale_def gl_minus_one del: of_int_diff)
  then have "gate_value (rescale nd raw q r scale) i = 0 \<longleftrightarrow>
      (of_int (at0 raw i) :: gl) = of_int (scale * at0 q i + at0 r i)"
    unfolding gate_value_0 by (metis right_minus_eq)
  then show "gate_value (rescale nd raw q r scale) i = 0 \<longleftrightarrow>
      at0 raw i mod FIELD_P = (scale * at0 q i + at0 r i) mod FIELD_P" unfolding gl_eq_iff .
qed

section \<open>Zeros of multilinear polynomials\<close>

definition mle_zeros :: "int list \<Rightarrow> int set \<Rightarrow> int list set" where
  "mle_zeros f S = {rs. length f = 2 ^ length rs \<and> set rs \<subseteq> S \<and> mle_eval f rs = Inr 0}"

lemma mle_zero_iff:
  assumes "length f = 2 ^ length rs"
  shows "mle_eval f rs = Inr 0 \<longleftrightarrow> (of_int (foldl fold_r f rs ! 0) :: gl) = 0"
  using assms by (simp add: mle_eval_ok gl_eq_0_iff dvd_eq_mod_eq_0)

lemma fold_vanish_once:
  assumes len: "length f = 2 * h" and i: "i < 2 * h" "(of_int (f ! i) :: gl) \<noteq> 0"
    and rs: "\<forall>j < h. (of_int (fold_r f r ! j) :: gl) = 0" "\<forall>j < h. (of_int (fold_r f s ! j) :: gl) = 0"
  shows "(of_int r :: gl) = of_int s"
proof (rule ccontr)
  assume ne: "(of_int r :: gl) \<noteq> of_int s"
  have z: "(of_int (f ! j) :: gl) = 0 \<and> (of_int (f ! (h + j)) :: gl) = 0" if j: "j < h" for j
  proof -
    let ?a = "of_int (f ! j) :: gl" and ?d = "of_int (f ! (h + j)) - of_int (f ! j) :: gl"
    have e: "?a + of_int r * ?d = 0" "?a + of_int s * ?d = 0"
      using rs j len gl_fold_r [of j f r] gl_fold_r [of j f s] by simp_all
    have id: "(u - v) * d = (a + u * d) - (a + v * d)" for u v d a :: gl by (simp add: algebra_simps)
    have "(of_int r - of_int s) * ?d = (?a + of_int r * ?d) - (?a + of_int s * ?d)" by (rule id)
    also have "\<dots> = 0" unfolding e by simp
    finally have "(of_int r - of_int s) * ?d = 0" .
    then have "?d = 0" using ne by simp
    then show ?thesis using e by simp
  qed
  show False
  proof (cases "i < h")
    case False
    then have "i - h < h" "i = h + (i - h)" using i(1) by simp_all
    then show False using z i(2) by metis
  qed (use z i(2) in blast)
qed

lemma mle_zeros_few:
  assumes S: "finite S" "\<forall>r \<in> S. 0 \<le> r \<and> r < FIELD_P"
  shows "length f = 2 ^ n \<Longrightarrow> \<exists>i < 2 ^ n. (of_int (f ! i) :: gl) \<noteq> 0 \<Longrightarrow>
    card (mle_zeros f S) \<le> n * card S ^ (n - 1)"
proof (induction n arbitrary: f)
  case 0
  have "rs \<notin> mle_zeros f S" for rs
  proof
    assume "rs \<in> mle_zeros f S"
    then have "(2 :: nat) ^ length rs = 2 ^ 0" and m: "mle_eval f rs = Inr 0" using 0(1) by (simp_all add: mle_zeros_def)
    then have "length rs = 0" by (simp only: power_inject_exp one_less_numeral_iff semiring_norm)
    then have "rs = []" by simp
    note m = m this
    then show False using 0 mle_zero_iff [of f "[]"] by simp
  qed
  then have "mle_zeros f S = {}" by blast
  then show ?case by simp
next
  case (Suc n)
  let ?Z = "\<lambda>r. mle_zeros (fold_r f r) S" and ?R = "{r \<in> S. \<forall>j < 2 ^ n. (of_int (fold_r f r ! j) :: gl) = 0}"
  have lf: "length (fold_r f r) = 2 ^ n" for r using Suc.prems(1) by simp
  have fin: "finite (?Z r)" "card (?Z r) \<le> card S ^ n" for r
  proof -
    have sub: "?Z r \<subseteq> {xs. set xs \<subseteq> S \<and> length xs = n}" using lf by (auto simp: mle_zeros_def)
    show "finite (?Z r)" using finite_subset [OF sub] finite_lists_length_eq [OF S(1)] by blast
    show "card (?Z r) \<le> card S ^ n"
      using card_mono [OF finite_lists_length_eq [OF S(1)] sub] card_lists_length_eq [OF S(1)] by simp
  qed
  have "mle_zeros f S = (\<Union>r\<in>S. (#) r ` ?Z r)"
  proof
    show "mle_zeros f S \<subseteq> (\<Union>r\<in>S. (#) r ` ?Z r)"
    proof
      fix rs assume a: "rs \<in> mle_zeros f S"
      then obtain r rs' where "rs = r # rs'" using Suc.prems(1) by (cases rs) (auto simp: mle_zeros_def)
      then show "rs \<in> (\<Union>r\<in>S. (#) r ` ?Z r)" using a lf Suc.prems(1) by (auto simp: mle_zeros_def mle_eval_def)
    qed
  qed (use Suc.prems(1) in \<open>auto simp: mle_zeros_def mle_eval_def\<close>)
  then have "card (mle_zeros f S) \<le> (\<Sum>r\<in>S. card ((#) r ` ?Z r))" using card_UN_le [OF S(1)] by metis
  also have "\<dots> = (\<Sum>r\<in>S. card (?Z r))" by (intro sum.cong refl card_image) simp
  also have "\<dots> = (\<Sum>r\<in>?R. card (?Z r)) + (\<Sum>r\<in>S - ?R. card (?Z r))"
    using S(1) sum.subset_diff [of ?R S "\<lambda>r. card (?Z r)"] by simp
  also have "(\<Sum>r\<in>?R. card (?Z r)) \<le> card ?R * card S ^ n" using sum_bounded_above [of ?R "\<lambda>r. card (?Z r)"] fin(2) by simp
  also have "card ?R \<le> 1"
  proof -
    obtain i where i: "i < 2 * 2 ^ n" "(of_int (f ! i) :: gl) \<noteq> 0" using Suc.prems(2) by auto
    have "r = s" if "r \<in> ?R" "s \<in> ?R" for r s
      using that S(2) fold_vanish_once [of f "2 ^ n" i r s] Suc.prems(1) i gl_inj_canonical [of r s] by simp
    then show ?thesis using S(1) by (simp add: card_le_Suc0_iff_eq)
  qed
  also have "(\<Sum>r\<in>S - ?R. card (?Z r)) \<le> card (S - ?R) * (n * card S ^ (n - 1))"
  proof -
    have "card (?Z r) \<le> n * card S ^ (n - 1)" if "r \<in> S - ?R" for r
      by (rule Suc.IH [OF lf]) (use that in blast)
    then show ?thesis using sum_bounded_above [of "S - ?R" "\<lambda>r. card (?Z r)" "n * card S ^ (n - 1)"] by simp
  qed
  also have "card (S - ?R) * (n * card S ^ (n - 1)) \<le> card S * (n * card S ^ (n - 1))"
    using S(1) by (intro mult_right_mono card_mono) auto
  also have "card S * (n * card S ^ (n - 1)) = n * card S ^ n" by (cases n) (simp_all add: algebra_simps)
  finally show ?case by simp
qed

lemma linear_zeros_few:
  fixes ws :: "gl list"
  assumes S: "finite S" "\<forall>r \<in> S. 0 \<le> r \<and> r < FIELD_P"
  shows "\<exists>w \<in> set ws. w \<noteq> 0 \<Longrightarrow>
    card {ls. length ls = length ws \<and> set ls \<subseteq> S \<and> (\<Sum>(l, w)\<leftarrow>zip ls ws. of_int l * w) = c} \<le> card S ^ (length ws - 1)"
proof (induction ws arbitrary: c)
  case (Cons w ws)
  let ?A = "\<lambda>ws c. {ls. length ls = length ws \<and> set ls \<subseteq> S \<and> (\<Sum>(l, w)\<leftarrow>zip ls ws. of_int l * w) = c}"
  have un: "?A (w # ws) c = (\<Union>a\<in>S. (#) a ` ?A ws (c - of_int a * w))" (is "?L = ?U")
  proof
    show "?L \<subseteq> ?U"
    proof
      fix ls assume "ls \<in> ?L"
      then show "ls \<in> ?U" by (cases ls) (auto simp: algebra_simps)
    qed
  qed (auto simp: algebra_simps)
  have fin: "finite (?A ws c')" for c' by (rule finite_subset [OF _ finite_lists_length_eq [OF S(1), of "length ws"]]) auto
  have all: "card (?A ws c') \<le> card S ^ length ws" for c'
    using card_mono [OF finite_lists_length_eq [OF S(1)], of "?A ws c'" "length ws"] card_lists_length_eq [OF S(1)] by auto
  have "card ?L \<le> (\<Sum>a\<in>S. card ((#) a ` ?A ws (c - of_int a * w)))" unfolding un by (rule card_UN_le [OF S(1)])
  also have "\<dots> = (\<Sum>a\<in>S. card (?A ws (c - of_int a * w)))" by (intro sum.cong refl card_image) simp
  finally have le: "card ?L \<le> (\<Sum>a\<in>S. card (?A ws (c - of_int a * w)))" .
  show ?case
  proof (cases "\<exists>w \<in> set ws. w \<noteq> 0")
    case True
    then have "(\<Sum>a\<in>S. card (?A ws (c - of_int a * w))) \<le> (\<Sum>a\<in>S. card S ^ (length ws - 1))"
      by (intro sum_mono Cons.IH)
    moreover have "0 < length ws" using True by auto
    ultimately show ?thesis using le by (simp flip: power_Suc)
  next
    case False
    then have w: "w \<noteq> 0" using Cons.prems by simp
    have zero: "(\<Sum>(l, w)\<leftarrow>zip ls ws. of_int l * w) = 0" for ls using False by (auto simp: sum_list_eq_sum_nth case_prod_beta' intro!: sum.neutral)
    let ?T = "{a \<in> S. of_int a * w = c}"
    have "card (?A ws (c - of_int a * w)) = 0" if "a \<in> S - ?T" for a using that by (auto simp: zero)
    then have "(\<Sum>a\<in>S. card (?A ws (c - of_int a * w))) = (\<Sum>a\<in>?T. card (?A ws (c - of_int a * w)))"
      using S(1) by (intro sum.mono_neutral_right) auto
    also have "\<dots> \<le> card ?T * card S ^ length ws" using sum_bounded_above [of ?T] all by simp
    also have "card ?T \<le> 1"
    proof -
      have "a = b" if "a \<in> ?T" "b \<in> ?T" for a b
      proof -
        have "(of_int a - of_int b) * w = 0" using that by (simp add: left_diff_distrib)
        then have "(of_int a :: gl) = of_int b" using w by simp
        then show ?thesis using that S(2) gl_inj_canonical by blast
      qed
      then show ?thesis using S(1) by (simp add: card_le_Suc0_iff_eq)
    qed
    finally show ?thesis using le by simp
  qed
qed simp

section \<open>The batched sum\<close>

definition batch_value :: "int list \<Rightarrow> gate list \<Rightarrow> nat \<Rightarrow> int" where
  "batch_value lambdas gates i = sum_list (map (\<lambda>(lam, g). lam * gate_value g i) (zip lambdas gates)) mod FIELD_P"

definition batch_table :: "int list \<Rightarrow> gate list \<Rightarrow> nat \<Rightarrow> int list" where
  "batch_table lambdas gates n = map (batch_value lambdas gates) [0..<n]"

text \<open>Every factor fits the padded domain, and no term is long enough to break interpolation.\<close>

definition gates_fit :: "gate list \<Rightarrow> nat \<Rightarrow> bool" where
  "gates_fit gates n \<longleftrightarrow>
     list_all (\<lambda>g. list_all (\<lambda>(c, fs). length fs < 2 ^ 32 \<and> list_all (\<lambda>f. length f \<le> n) fs) (g_terms g)) gates"

lemma gl_batch_value: "(of_int (batch_value lambdas gates i) :: gl) = (\<Sum>(lam, g)\<leftarrow>zip lambdas gates. of_int lam * of_int (gate_value g i))"
  unfolding batch_value_def gl_of_int_mod gl_sum_list by (simp add: comp_def case_prod_beta')

lemma pad_zero_nth: "i < n \<Longrightarrow> pad_zero f n ! i = at0 f i"
  by (simp add: pad_zero_def at0_def nth_append)

lemma length_pad_zero: "length f \<le> n \<Longrightarrow> length (pad_zero f n) = n"
  by (simp add: pad_zero_def)

lemma gate_terms_sum:
  assumes "i < n"
  shows "(\<Sum>t\<leftarrow>map (\<lambda>(coeff, factors). ((lam * coeff) mod FIELD_P, e # map (\<lambda>f. pad_zero f n) factors)) ts. gterm_at t (\<lambda>f. of_int (f ! i)))
    = of_int (e ! i) * (of_int lam * (\<Sum>(c, fs)\<leftarrow>ts. of_int c * (\<Prod>f\<leftarrow>fs. of_int (at0 f i))))"
proof -
  have "gterm_at ((lam * c) mod FIELD_P, e # map (\<lambda>f. pad_zero f n) fs) (\<lambda>f. of_int (f ! i))
      = of_int (e ! i) * (of_int lam * (of_int c * (\<Prod>f\<leftarrow>fs. of_int (at0 f i))))" for c fs
    using assms by (simp add: gterm_at_def comp_def pad_zero_nth mult_ac)
  then show ?thesis by (induction ts) (auto simp: algebra_simps)
qed

lemma batch_terms_sum:
  assumes "i < n"
  shows "(\<Sum>t\<leftarrow>batch_terms e lambdas gates n. gterm_at t (\<lambda>f. of_int (f ! i)))
    = of_int (e ! i) * of_int (batch_value lambdas gates i)"
proof -
  have "(\<Sum>t\<leftarrow>concat (map (\<lambda>(lam, g). map (\<lambda>(coeff, factors). ((lam * coeff) mod FIELD_P, e # map (\<lambda>f. pad_zero f n) factors))
       (g_terms g)) ps). gterm_at t (\<lambda>f. of_int (f ! i))) = of_int (e ! i) * (\<Sum>(lam, g)\<leftarrow>ps. of_int lam * of_int (gate_value g i))" for ps
  proof (induction ps)
    case (Cons q ps)
    then show ?case by (cases q) (simp add: gate_terms_sum [OF assms] gl_gate_value distrib_left del: map_map)
  qed simp
  then show ?thesis by (simp add: batch_terms_def gl_batch_value)
qed

lemma batch_gsum: "gsum (batch_terms e lambdas gates n) n = (\<Sum>i<n. of_int (e ! i) * of_int (batch_value lambdas gates i))"
  unfolding gsum_def by (intro sum.cong) (simp_all add: batch_terms_sum)

text \<open>The claim of the batch is the multilinear evaluation of the batched relation.\<close>

lemma batch_gsum_mle:
  "gsum (batch_terms (eq_vector z) lambdas gates (2 ^ length z)) (2 ^ length z)
     = of_int (foldl fold_r (batch_table lambdas gates (2 ^ length z)) (rev z) ! 0)"
  by (simp add: batch_gsum eq_vector_fold batch_table_def mult.commute)

lemma batch_domain_facts:
  assumes "batch_domain gates = Inr n"
  shows "gates \<noteq> [] \<and> (\<exists>k. n = 2 ^ k) \<and> (\<forall>g \<in> set gates. g_terms g \<noteq> [] \<and> snd (hd (g_terms g)) \<noteq> [] \<and> gate_size g = Inr (first_len (g_terms g)))"
proof -
  obtain sizes where s: "rmap gate_size gates = Inr sizes" "sizes \<noteq> []" "n = pow2_from 1 (Max (set sizes))"
    using assms by (auto simp: batch_domain_def rbind_Inr_iff split: if_splits)
  have g: "g_terms g \<noteq> [] \<and> snd (hd (g_terms g)) \<noteq> [] \<and> gate_size g = Inr (first_len (g_terms g))" if "g \<in> set gates" for g
  proof -
    from that obtain i where "i < length gates" "gates ! i = g" by (auto simp: in_set_conv_nth)
    then have "gate_size g = Inr (sizes ! i)" using rmap_InrD [OF s(1)] by blast
    then obtain m where "gate_size g = Inr m" by blast
    then show ?thesis by (simp add: gate_size_def split: if_splits)
  qed
  have "gates \<noteq> []" using s(1,2) by auto
  then show ?thesis using g s(3) pow2_from_1_pow2 [of "Max (set sizes)"] by simp
qed

lemma batch_terms_ok:
  assumes d: "batch_domain gates = Inr (2 ^ k)" and fit: "gates_fit gates (2 ^ k)"
    and len: "length z = k" "length lambdas = length gates"
  shows "sc_terms_ok (batch_terms (eq_vector z) lambdas gates (2 ^ k)) k"
proof -
  let ?T = "batch_terms (eq_vector z) lambdas gates (2 ^ k)"
  obtain g gs where g: "gates = g # gs" using batch_domain_facts [OF d] by (cases gates) auto
  obtain l ls where l: "lambdas = l # ls" using len g by (cases lambdas) auto
  obtain t ts where t: "g_terms g = t # ts" using batch_domain_facts [OF d] g by (cases "g_terms g") auto
  have hd: "?T \<noteq> []" "snd (hd ?T) \<noteq> []" by (simp_all add: batch_terms_def g l t case_prod_beta)
  have mem: "\<exists>fs. snd u = eq_vector z # map (\<lambda>f. pad_zero f (2 ^ k)) fs \<and> length fs < 2 ^ 32 \<and> list_all (\<lambda>f. length f \<le> 2 ^ k) fs"
    if "u \<in> set ?T" for u
    using that fit by (fastforce simp: batch_terms_def gates_fit_def list_all_iff dest!: set_zip_rightD)
  have "list_all (\<lambda>(c, fs). list_all (\<lambda>f. length f = 2 ^ k) fs) ?T"
  proof (unfold list_all_iff, intro ballI, clarify)
    fix c fs f assume "(c, fs) \<in> set ?T" "f \<in> set fs"
    then show "length f = 2 ^ k" using mem [of "(c, fs)"] len(1) by (auto simp: list_all_iff length_pad_zero)
  qed
  moreover have "int (terms_deg ?T) < FIELD_P"
  proof -
    have "terms_deg ?T \<in> set (map (\<lambda>(c, fs). length fs) ?T)" unfolding terms_deg_def using hd(1) by (intro Max_in) auto
    then obtain u where "u \<in> set ?T" "terms_deg ?T = length (snd u)" by auto
    then show ?thesis using mem [of u] by (auto simp: FIELD_P_val)
  qed
  ultimately show ?thesis using hd by (simp add: sc_terms_ok_def)
qed

section \<open>Completeness and soundness of the batch\<close>

lemma to_bytes_mod: "to_bytes 8 (x mod FIELD_P) = Inr (le_bytes 8 (nat (x mod FIELD_P)))"
proof -
  have p: "0 < FIELD_P" "FIELD_P < 256 ^ 8" by (simp_all add: FIELD_P_val)
  then have "x mod FIELD_P < 256 ^ 8" using pos_mod_bound [OF p(1), of x] by linarith
  moreover have "\<not> x mod FIELD_P < 0" using pos_mod_sign [OF p(1), of x] by linarith
  ultimately show ?thesis by (simp add: to_bytes_def)
qed

lemma length_encode_le: "length (encode s) \<le> 2 * length s"
  by (induction s) (simp_all add: encode_Cons utf8_char_def Let_def)

lemma draw_rt_total:
  assumes "rt_absorbed rt = k" "k < 2 ^ 64" "length samples < 2 ^ 64"
  shows "\<exists>r rt'. draw_coin H (CoinRT rt) k samples = Inr (r, CoinRT rt') \<and> rt_absorbed rt' = Suc k"
proof -
  have "\<exists>sb. rmap (\<lambda>(x, y). rbind (to_bytes 8 (x mod FIELD_P)) (\<lambda>xb. rbind (to_bytes 8 (y mod FIELD_P)) (\<lambda>yb.
      Inr (xb @ yb)))) samples = Inr sb"
    by (induction samples) (auto simp: to_bytes_mod)
  then show ?thesis using assms by (auto simp: rt_absorb_def rt_coin_def to_bytes_def)
qed

lemma sc_rounds_rt_total:
  assumes "Suc deg < 2 ^ 64" "n < 2 ^ 64" "k \<le> n" "rt_absorbed rt = k"
  shows "\<exists>res. sc_rounds H deg [k..<n] cur mu None (CoinRT rt) polys chals = Inr res"
  using assms(3,4)
proof (induction "n - k" arbitrary: k rt cur polys chals)
  case 0
  then show ?case by simp
next
  case (Suc d)
  then have k: "k < n" by simp
  let ?s = "map (\<lambda>x. (int x, round_sample cur (first_len cur div 2) (int x))) [0..<deg + 1]"
  have "length ?s < 2 ^ 64" using assms(1) by simp
  then obtain r rt' where d: "draw_coin H (CoinRT rt) k ?s = Inr (r, CoinRT rt')" "rt_absorbed rt' = Suc k"
    using draw_rt_total [of rt k ?s H] Suc.prems k assms(2) by auto
  moreover have "\<exists>res. sc_rounds H deg [Suc k..<n] (fold_terms cur r) mu None (CoinRT rt') (polys @ [?s]) (chals @ [r]) = Inr res"
    using Suc.hyps(1) [of "Suc k" rt'] Suc.hyps(2) k d(2) by simp
  ultimately show ?case using k by (simp add: upt_conv_Cons Let_def del: upt_Suc draw_coin.simps)
qed

lemma batch_transcript_total:
  assumes "length label < 2 ^ 32" "length z < 2 ^ 32" "length lambdas < 2 ^ 32"
  shows "\<exists>rt. batch_transcript H label z lambdas = Inr rt \<and> rt_absorbed rt = 0"
proof -
  have "\<exists>b. rel_ints vs = Inr b \<and> length b = 8 * length vs" for vs
    by (induction vs) (auto simp: rel_ints_def rbind_Inr_iff to_bytes_mod)
  then obtain zb lb where b: "rel_ints z = Inr zb" "length zb = 8 * length z" "rel_ints lambdas = Inr lb" "length lb = 8 * length lambdas"
    by meson
  moreover have "length (encode label) < 2 ^ 64" using length_encode_le [of label] assms(1) by simp
  ultimately show ?thesis using assms(2,3) by (simp add: batch_transcript_def new_rt_def to_bytes_def RT_DOMAIN_def encode_def utf8_char_def)
qed

lemma batch_gsum_zero:
  assumes "list_all (\<lambda>g. gate_holds g n) gates"
  shows "gsum (batch_terms e lambdas gates n) n = 0"
proof -
  have "(of_int (batch_value lambdas gates i) :: gl) = 0" if "i < n" for i
    using assms that
    by (auto simp: gl_batch_value gate_holds_def list_all_iff sum_list_eq_sum_nth case_prod_beta' intro!: sum.neutral)
  then show ?thesis by (simp add: batch_gsum)
qed

lemma prove_rt_total:
  assumes ok: "sc_terms_ok terms k" and k: "k < 2 ^ 64" and rt: "rt_absorbed rt = 0"
  shows "\<exists>pf. prove_terms H terms (CoinRT rt) None 0 = Inr pf \<and> (of_int (sc_claim pf) :: gl) = gsum terms (2 ^ k)"
proof -
  have ne: "terms \<noteq> []" "snd (hd terms) \<noteq> []" using ok by (simp_all add: sc_terms_ok_def)
  have fl: "first_len terms = 2 ^ k" by (rule first_len_wf [OF sc_terms_wf [OF ok] ne])
  have ex: "\<not> list_ex (\<lambda>(c, fs). list_ex (\<lambda>f. length f < first_len terms) fs) terms"
    using ok unfolding fl by (auto simp: sc_terms_ok_def list_all_iff list_ex_iff)
  let ?cur = "map (\<lambda>(c, fs). (c mod FIELD_P, fs)) terms"
  have "Suc (terms_deg terms) < 2 ^ 64" using ok by (simp add: sc_terms_ok_def FIELD_P_val)
  then obtain mu ps cs where "sc_rounds H (terms_deg terms) [0..<k] ?cur 0 None (CoinRT rt) [] [] = Inr (mu, ps, cs)"
    using sc_rounds_rt_total [of "terms_deg terms" k 0 rt H ?cur 0 "[]" "[]"] k rt by auto
  then show ?thesis using ne ex by (simp add: prove_terms_def fl Let_def gl_true_claim gsum_mod)
qed

text \<open>
  Property C28 (\<open>relations_complete\<close>): if every gate's relation holds at every point of the common
  domain (of at least two points), the batch prover succeeds on any transcript without a schedule
  and the verifier accepts its proof with claim zero.
\<close>

theorem relations_complete:
  assumes d: "batch_domain gates = Inr n" and n: "2 \<le> n" "n < 2 ^ 32" and fit: "gates_fit gates n"
    and holds: "list_all (\<lambda>g. gate_holds g n) gates" and few: "length gates < 2 ^ 32"
    and tr: "tschedule tr = None" and label: "length label < 2 ^ 15"
  shows "\<exists>pf z lambdas tr'. prove_batch H gates tr label None = Inr (pf, z, lambdas, tr') \<and>
    verify_batch H pf gates z lambdas 0 label = Inr True"
proof -
  obtain k where k: "n = 2 ^ k" using batch_domain_facts [OF d] by blast
  have "k \<noteq> 0" using n(1) k by (intro notI) simp
  then have k1: "max (bit_length n - 1) 1 = k" using k by simp
  have "k < 2 ^ k" by (rule less_exp)
  then have k2: "k < 2 ^ 32" using n(2) unfolding k by linarith
  note k1 = k1 k2
  obtain ls tr1 where ls: "coin H tr (label @ ''_batch'') (length gates) = Inr (ls, tr1)" "tschedule tr1 = None" "length ls = length gates"
    using coin_total [OF tr, of "label @ ''_batch''" "length gates" H] label few by auto
  obtain z tr2 where z: "coin H tr1 (label @ ''_z'') k = Inr (z, tr2)" "length z = k"
    using coin_total [OF ls(2), of "label @ ''_z''" k H] label k1(2) by auto
  obtain rt where rt: "batch_transcript H label z ls = Inr rt" "rt_absorbed rt = 0"
    using batch_transcript_total [of label z ls H] label few k1(2) z(2) ls(3) by auto
  let ?T = "batch_terms (eq_vector z) ls gates n"
  have ok: "sc_terms_ok ?T k" unfolding k by (rule batch_terms_ok) (use d fit z ls k in simp_all)
  obtain pf where pf: "prove_terms H ?T (CoinRT rt) None 0 = Inr pf" "(of_int (sc_claim pf) :: gl) = gsum ?T (2 ^ k)"
    using prove_rt_total [OF ok _ rt(2), of H] k1(2) by auto
  have "(of_int (sc_claim pf) :: gl) = of_int 0" using pf(2) batch_gsum_zero [OF holds] k by simp
  then have "sc_claim pf mod FIELD_P = 0" unfolding gl_eq_iff by simp
  moreover have "verify_terms H pf ?T (CoinRT rt) = Inr True" using sumcheck_accepts [OF ok pf(1)] by simp
  ultimately have "verify_batch H pf gates z ls 0 label = Inr True" using d rt(1) by (simp add: verify_batch_def Let_def)
  moreover have "prove_batch H gates tr label None = Inr (pf, z, ls, tr2)"
    using d ls(1) z(1) rt(1) pf(1) k1(1) by (simp add: prove_batch_def Let_def)
  ultimately show ?thesis by blast
qed

definition toy_gates :: "gate list" where
  "toy_gates = [hadamard_gate ''h'' [2, 3] [4, 5] [8, 15], booleanity ''b'' [0, 1], rescale ''r'' [17] [3] [2] 5]"

lemma toy_gates_domain: "batch_domain toy_gates = Inr 2"
proof -
  have "pow2_from (Suc 0) (Suc (Suc 0)) = 2" using pow2_from_1_id [of 1] by (simp add: numeral_2_eq_2)
  then show ?thesis
    by (simp add: batch_domain_def toy_gates_def gate_size_def first_len_def hadamard_gate_def booleanity_def rescale_def)
qed

lemma toy_gates_fit: "gates_fit toy_gates 2"
  by (simp add: gates_fit_def toy_gates_def hadamard_gate_def booleanity_def rescale_def)

lemma toy_gates_hold: "list_all (\<lambda>g. gate_holds g 2) toy_gates"
  by (simp add: gate_holds_def toy_gates_def gate_value_def hadamard_gate_def booleanity_def rescale_def at0_def FIELD_P_val
      less_Suc_eq numeral_2_eq_2)

theorem relations_complete_witness:
  "\<exists>pf z lambdas tr'. prove_batch toy_hash toy_gates (new_transcript [] None) ''gates'' None = Inr (pf, z, lambdas, tr') \<and>
    verify_batch toy_hash pf toy_gates z lambdas 0 ''gates'' = Inr True"
  by (rule relations_complete [OF toy_gates_domain _ _ toy_gates_fit toy_gates_hold])
    (simp_all add: new_transcript_def, simp_all add: toy_gates_def)

text \<open>The coefficient lists and the points at which a false batch would still sum to zero.\<close>

definition bad_lambdas :: "gate list \<Rightarrow> nat \<Rightarrow> int list set" where
  "bad_lambdas gates n = {ls. length ls = length gates \<and> set ls \<subseteq> {0..<FIELD_P} \<and> (\<forall>i < n. batch_value ls gates i = 0)}"

definition bad_points :: "int list \<Rightarrow> gate list \<Rightarrow> nat \<Rightarrow> int list set" where
  "bad_points lambdas gates n = mle_zeros (batch_table lambdas gates n) {0..<FIELD_P}"

lemma bad_lambdas_few:
  assumes g: "g \<in> set gates" "\<not> gate_holds g n"
  shows "card (bad_lambdas gates n) \<le> nat FIELD_P ^ (length gates - 1)"
proof -
  obtain i where i: "i < n" "(of_int (gate_value g i) :: gl) \<noteq> 0" using g(2) gate_value_0 by (auto simp: gate_holds_def)
  let ?ws = "map (\<lambda>g. of_int (gate_value g i) :: gl) gates" and ?S = "{0..<FIELD_P}"
  let ?B = "{ls. length ls = length ?ws \<and> set ls \<subseteq> ?S \<and> (\<Sum>(l, w)\<leftarrow>zip ls ?ws. of_int l * w) = 0}"
  have fin: "finite ?B" by (rule finite_subset [OF _ finite_lists_length_eq [of ?S "length ?ws"]]) auto
  have "bad_lambdas gates n \<subseteq> ?B"
  proof
    fix ls assume a: "ls \<in> bad_lambdas gates n"
    then have "(of_int (batch_value ls gates i) :: gl) = 0" using i(1) by (simp add: bad_lambdas_def)
    then show "ls \<in> ?B" using a by (simp add: bad_lambdas_def gl_batch_value zip_map2 case_prod_beta' comp_def)
  qed
  then have "card (bad_lambdas gates n) \<le> card ?B" by (rule card_mono [OF fin])
  also have "\<dots> \<le> card ?S ^ (length ?ws - 1)"
    by (rule linear_zeros_few) (use g(1) i(2) in auto)
  finally show ?thesis by simp
qed

text \<open>
  Property C7 (\<open>relations_sound\<close>): suppose some gate's relation fails somewhere and the verifier
  still accepts a proof against the initial mask \<open>mu0\<close>, where the proof is either unmasked with
  \<open>mu0\<close> zero, or masked with the \<open>final_mask\<close> that a tape fixed beforehand carries from \<open>mu0\<close> along
  its challenges. Then the gate coefficients lie in a set of at most \<open>P ^ (gates - 1)\<close> lists fixed
  by the witnesses, or the point lies in a set of at most \<open>k P ^ (k - 1)\<close> points fixed by the
  witnesses and the coefficients, or a round coin lies in a set of at most degree-many values fixed
  before it was drawn. The theorem
  \<open>batch_mask_free\<close> below is what happens without the condition on the mask.
\<close>

theorem relations_sound:
  assumes acc: "verify_batch H pf gates z lambdas mu0 label = Inr True"
    and auth: "mask_authentic pf (terms_deg (batch_terms (eq_vector z) lambdas gates (2 ^ k))) (mu0 mod FIELD_P) tape"
    and plain: "tape = None \<Longrightarrow> mu0 mod FIELD_P = 0"
    and d: "batch_domain gates = Inr (2 ^ k)" and fit: "gates_fit gates (2 ^ k)"
    and len: "length z = k" "length lambdas = length gates" "canonical z" "canonical lambdas"
    and bad: "g \<in> set gates" "\<not> gate_holds g (2 ^ k)"
  shows "(lambdas \<in> bad_lambdas gates (2 ^ k) \<and> card (bad_lambdas gates (2 ^ k)) \<le> nat FIELD_P ^ (length gates - 1)) \<or>
    (rev z \<in> bad_points lambdas gates (2 ^ k) \<and> card (bad_points lambdas gates (2 ^ k)) \<le> k * nat FIELD_P ^ (k - 1)) \<or>
    (\<exists>j < k. let T = batch_terms (eq_vector z) lambdas gates (2 ^ k);
        B = sc_bad_coins T k (take j (challenges pf)) (round_polys pf ! j)
          (round_mask (terms_deg T) (mu0 mod FIELD_P) tape (take j (challenges pf)))
      in challenges pf ! j \<in> B \<and> card B \<le> terms_deg T)"
proof -
  let ?n = "2 ^ k :: nat" and ?T = "batch_terms (eq_vector z) lambdas gates (2 ^ k)" and ?F = "batch_table lambdas gates (2 ^ k)"
  obtain rt where v: "verify_terms H pf ?T (CoinRT rt) = Inr True" and claim: "sc_claim pf mod FIELD_P = mu0 mod FIELD_P"
    using acc d by (auto simp: verify_batch_def Let_def rbind_Inr_iff split: if_splits)
  have ok: "sc_terms_ok ?T k" by (rule batch_terms_ok [OF d fit len(1,2)])
  have lr: "set lambdas \<subseteq> {0..<FIELD_P}" "set z \<subseteq> {0..<FIELD_P}" using len(3,4) by (auto simp: canonical_def)
  have m: "masked pf \<longleftrightarrow> tape \<noteq> None" using auth by (auto simp: mask_authentic_def split: option.splits)
  have zero: "true_claim ?T ?n = 0"
    if "sc_claim pf mod FIELD_P = (true_claim ?T ?n + (if masked pf then mu0 mod FIELD_P else 0)) mod FIELD_P"
  proof -
    have "(of_int mu0 :: gl) = gsum ?T ?n + of_int (if masked pf then mu0 mod FIELD_P else 0)"
      using that unfolding claim gl_eq_iff [symmetric] by (simp add: gl_true_claim)
    moreover have "(of_int mu0 :: gl) = 0" if "tape = None" using plain [OF that] by (metis gl_of_int_mod of_int_0)
    ultimately have "gsum ?T ?n = 0" using m by (auto split: if_splits)
    then have "(of_int (true_claim ?T ?n) :: gl) = of_int 0" by (simp add: gl_true_claim)
    then show ?thesis by (intro gl_inj_canonical) (simp_all add: true_claim_range)
  qed
  have sv: "\<exists>n. term_sizes ?T = [2 ^ n] \<and> length (challenges pf) = n \<and>
    (sc_claim pf mod FIELD_P = (true_claim ?T (2 ^ n) + (if masked pf then mu0 mod FIELD_P else 0)) mod FIELD_P \<or>
     (\<exists>j < n. let B = sc_bad_coins ?T n (take j (challenges pf)) (round_polys pf ! j)
           (round_mask (terms_deg ?T) (mu0 mod FIELD_P) tape (take j (challenges pf)))
        in challenges pf ! j \<in> B \<and> card B \<le> terms_deg ?T))"
    by (rule sumcheck_verdict [OF v auth])
  consider "true_claim ?T ?n = 0" | j where "j < k"
      "let B = sc_bad_coins ?T k (take j (challenges pf)) (round_polys pf ! j)
           (round_mask (terms_deg ?T) (mu0 mod FIELD_P) tape (take j (challenges pf)))
        in challenges pf ! j \<in> B \<and> card B \<le> terms_deg ?T"
    using sv sc_terms_sizes [OF ok] zero by auto
  then show ?thesis
  proof cases
    case 1
    then have "gsum ?T ?n = 0" using gl_true_claim [of ?T ?n] by simp
    then have zero: "(of_int (foldl fold_r ?F (rev z) ! 0) :: gl) = 0" using batch_gsum_mle [of z lambdas gates] len(1) by simp
    have lF: "length ?F = 2 ^ length (rev z)" using len(1) by (simp add: batch_table_def)
    show ?thesis
    proof (cases "\<exists>i < ?n. (of_int (?F ! i) :: gl) \<noteq> 0")
      case True
      have "rev z \<in> bad_points lambdas gates ?n"
        using zero mle_zero_iff [OF lF] lF lr(2) by (simp add: bad_points_def mle_zeros_def)
      moreover have "card (bad_points lambdas gates ?n) \<le> k * nat FIELD_P ^ (k - 1)"
        using mle_zeros_few [of "{0..<FIELD_P}" ?F k] True by (simp add: bad_points_def batch_table_def)
      ultimately show ?thesis by blast
    next
      case False
      have "batch_value lambdas gates i = 0" if "i < ?n" for i
      proof -
        have "(of_int (batch_value lambdas gates i) :: gl) = 0" using False that by (simp add: batch_table_def)
        then show ?thesis by (simp add: gl_eq_0_iff batch_value_def dvd_eq_mod_eq_0)
      qed
      then have "lambdas \<in> bad_lambdas gates ?n" using len(2) lr(1) by (simp add: bad_lambdas_def)
      then show ?thesis using bad_lambdas_few [OF bad] by blast
    qed
  qed (simp only: Let_def, blast)
qed

theorem relations_sound_witness:
  "\<exists>pf. let g = hadamard_gate ''h'' [2, 3] [4, 5] [9, 15] in
    verify_batch toy_hash pf [g] [0] [0] 0 ''gates'' = Inr True \<and> \<not> gate_holds g 2 \<and>
    (([0] \<in> bad_lambdas [g] 2 \<and> card (bad_lambdas [g] 2) \<le> 1) \<or> rev [0] \<in> bad_points [0] [g] 2 \<or>
     (\<exists>j < 1. challenges pf ! j \<in> sc_bad_coins (batch_terms (eq_vector [0]) [0] [g] 2) 1 (take j (challenges pf)) (round_polys pf ! j) []))"
proof -
  let ?g = "hadamard_gate ''h'' [2, 3] [4, 5] [9, 15]"
  let ?T = "batch_terms (eq_vector [0]) [0] [?g] 2"
  have d: "batch_domain [?g] = Inr (2 ^ 1)"
  proof -
    have "pow2_from (Suc 0) (Suc (Suc 0)) = 2" using pow2_from_1_id [of 1] by (simp add: numeral_2_eq_2)
    then show ?thesis by (simp add: batch_domain_def gate_size_def first_len_def hadamard_gate_def)
  qed
  have fit: "gates_fit [?g] (2 ^ 1)" by (simp add: gates_fit_def hadamard_gate_def)
  have bad: "?g \<in> set [?g]" "\<not> gate_holds ?g (2 ^ 1)"
    by (simp_all add: gate_holds_def gate_value_def hadamard_gate_def at0_def FIELD_P_val) (intro exI [of _ 0], simp)
  have ok: "sc_terms_ok ?T 1" using batch_terms_ok [OF d fit, of "[0]" "[0]"] by simp
  obtain rt where rt: "batch_transcript toy_hash ''gates'' [0] [0] = Inr rt" "rt_absorbed rt = 0"
    using batch_transcript_total [of "''gates''" "[0]" "[0]" toy_hash] by auto
  obtain pf where pf: "prove_terms toy_hash ?T (CoinRT rt) None 0 = Inr pf" "(of_int (sc_claim pf) :: gl) = gsum ?T (2 ^ 1)"
    using prove_rt_total [OF ok _ rt(2), of toy_hash] by auto
  have "gsum ?T 2 = 0" unfolding batch_gsum by (simp add: batch_value_def)
  then have "(of_int (sc_claim pf) :: gl) = of_int 0" using pf(2) by simp
  then have c: "sc_claim pf mod FIELD_P = 0" unfolding gl_eq_iff by simp
  have v: "verify_batch toy_hash pf [?g] [0] [0] 0 ''gates'' = Inr True"
    using sumcheck_accepts [OF ok pf(1)] d rt(1) c by (simp add: verify_batch_def Let_def)
  have m: "mask_authentic pf (terms_deg (batch_terms (eq_vector [0]) [0] [?g] (2 ^ 1))) (0 mod FIELD_P) None"
    using prove_terms_authentic [OF pf(1)] by simp
  have can: "length [0 :: int] = 1" "length [0 :: int] = length [?g]" "canonical [0]" "canonical [0]"
    by (simp_all add: canonical_def FIELD_P_val)
  note s = relations_sound [OF v m _ d fit can bad, simplified]
  show ?thesis using s v bad(2) by (intro exI [of _ pf]) (auto simp: Let_def round_mask_def)
qed

text \<open>
  A proof with every round zero and its \<open>final_mask\<close> chosen last: the forgery that
  \<^verbatim>\<open>test_sampled_audit.py\<close> expects the sampled audit to refuse.
\<close>

definition zero_samples :: "nat \<Rightarrow> (int \<times> int) list" where
  "zero_samples deg = map (\<lambda>x. (int x, 0)) [0..<deg + 1]"

lemma lagrange_zero: "lagrange_interpolate (zero_samples deg) x = 0"
proof -
  have "foldl (\<lambda>acc i. case f i of (num, den) \<Rightarrow>
      (acc + snd (zero_samples deg ! i) * num * inv_P (den mod FIELD_P)) mod FIELD_P) 0 is = 0"
    if "set is \<subseteq> {..<length (zero_samples deg)}" for "is" f
    using that by (induction "is") (auto simp: zero_samples_def case_prod_beta simp del: upt_Suc)
  then show ?thesis by (simp add: lagrange_interpolate_def atLeast0LessThan)
qed

lemma zero_rounds:
  assumes "Suc deg < 2 ^ 64" "n < 2 ^ 64"
  shows "k + m = n \<Longrightarrow> rt_absorbed rt = k \<Longrightarrow> length pre = k \<Longrightarrow>
    \<exists>cs. length cs = m \<and> vt_rounds H deg k (replicate m (zero_samples deg)) (pre @ cs) 0 (CoinRT rt) = Inr (Some 0)"
proof (induction m arbitrary: k rt pre)
  case (Suc m)
  have "k < 2 ^ 64" "length (zero_samples deg) < 2 ^ 64" using Suc.prems(1) assms by (simp_all add: zero_samples_def)
  then obtain r rt' where d: "draw_coin H (CoinRT rt) k (zero_samples deg) = Inr (r, CoinRT rt')" "rt_absorbed rt' = Suc k"
    using draw_rt_total [of rt k "zero_samples deg" H] Suc.prems(2) by auto
  obtain cs where cs: "length cs = m"
    "vt_rounds H deg (Suc k) (replicate m (zero_samples deg)) ((pre @ [r]) @ cs) 0 (CoinRT rt') = Inr (Some 0)"
    using Suc.IH [of "Suc k" rt' "pre @ [r]"] Suc.prems d(2) by auto
  have "length (zero_samples deg) = deg + 1" by (simp add: zero_samples_def)
  then show ?case using cs d(1) Suc.prems(3)
    by (intro exI [of _ "r # cs"]) (simp add: lagrange_zero Let_def nth_append del: draw_coin.simps)
qed simp

text \<open>
  Fact (\<open>batch_mask_free\<close>): the batch verifier takes \<open>final_mask\<close> from the proof. For every
  batch of gates of fitting sizes, whether or not any relation holds, every point and coefficients,
  every hash and label, there is an accepted masked proof against the initial mask zero whose rounds
  are all zero polynomials and whose challenges are the transcript's own coins.
\<close>

theorem batch_mask_free:
  assumes d: "batch_domain gates = Inr (2 ^ k)" and k: "k < 2 ^ 32" and fit: "gates_fit gates (2 ^ k)"
    and len: "length z = k" "length lambdas = length gates" and few: "length gates < 2 ^ 32" "length label < 2 ^ 32"
  shows "\<exists>pf. verify_batch H pf gates z lambdas 0 label = Inr True \<and> masked pf \<and> sc_claim pf = 0 \<and>
    (\<forall>s \<in> set (round_polys pf). \<forall>x. lagrange_interpolate s x = 0)"
proof -
  let ?T = "batch_terms (eq_vector z) lambdas gates (2 ^ k)"
  have ok: "sc_terms_ok ?T k" by (rule batch_terms_ok [OF d fit len])
  have wf: "wf_terms ?T (2 ^ k) (terms_deg ?T)" by (rule sc_terms_wf [OF ok])
  have deg: "Suc (terms_deg ?T) < 2 ^ 64" using ok by (simp add: sc_terms_ok_def FIELD_P_val)
  obtain rt where rt: "batch_transcript H label z lambdas = Inr rt" "rt_absorbed rt = 0"
    using batch_transcript_total [of label z lambdas H] few k len by auto
  obtain cs where cs: "length cs = k"
    "vt_rounds H (terms_deg ?T) 0 (replicate k (zero_samples (terms_deg ?T))) cs 0 (CoinRT rt) = Inr (Some 0)"
    using zero_rounds [OF deg, of k 0 k rt "[]" H] k rt(2) by auto
  obtain v where v: "terminal_sum 0 ?T cs = Inr v"
    using terminal_sum_ok [of ?T cs "terms_deg ?T" 0] wf cs(1) by auto
  define pf where "pf = \<lparr>sc_claim = 0, round_polys = replicate k (zero_samples (terms_deg ?T)), challenges = cs,
    final_point = cs, masked = True, final_mask = - v, n_terms = length ?T\<rparr>"
  have "rounds_ok pf k" using cs(1) by (simp add: rounds_ok_def pf_def)
  then have "verify_terms H pf ?T (CoinRT rt) = Inr True"
    using cs(2) v by (simp add: verify_terms_def sc_terms_sizes [OF ok] expected_rounds_pow2) (simp add: pf_def)
  then have "verify_batch H pf gates z lambdas 0 label = Inr True" using d rt(1) by (simp add: verify_batch_def Let_def pf_def)
  then show ?thesis by (intro exI [of _ pf]) (simp add: pf_def lagrange_zero)
qed

theorem batch_mask_free_witness:
  "let g = hadamard_gate ''h'' [2, 3] [4, 5] [9, 15] in \<not> gate_holds g 2 \<and>
    (\<exists>pf. verify_batch toy_hash pf [g] [5] [1] 0 ''gates'' = Inr True \<and> masked pf)"
proof -
  let ?g = "hadamard_gate ''h'' [2, 3] [4, 5] [9, 15]"
  have d: "batch_domain [?g] = Inr (2 ^ 1)"
  proof -
    have "pow2_from (Suc 0) (Suc (Suc 0)) = 2" using pow2_from_1_id [of 1] by (simp add: numeral_2_eq_2)
    then show ?thesis by (simp add: batch_domain_def gate_size_def first_len_def hadamard_gate_def)
  qed
  have fit: "gates_fit [?g] (2 ^ 1)" by (simp add: gates_fit_def hadamard_gate_def)
  have "\<not> gate_holds ?g 2"
    by (simp add: gate_holds_def gate_value_def hadamard_gate_def at0_def FIELD_P_val) (intro exI [of _ 0], simp)
  then show ?thesis using batch_mask_free [OF d _ fit, of "[5]" "[1]" "''gates''" toy_hash] by auto
qed

text \<open>
  Fact (\<open>batch_single_point_raises\<close>): when every gate has a single point the batch prover does
  not return a proof: the point has one coordinate (\<open>max(log2, 1)\<close>), so the equality vector has two
  entries against padded factors of one, and the sumcheck reads past their end.
\<close>

theorem batch_single_point_raises:
  assumes d: "batch_domain gates = Inr 1" and tr: "tschedule tr = None" and label: "length label < 2 ^ 15"
    and few: "length gates < 2 ^ 32" and fit: "gates_fit gates 1"
  shows "prove_batch H gates tr label tape = Inl IndexError"
proof -
  obtain ls tr1 where ls: "coin H tr (label @ ''_batch'') (length gates) = Inr (ls, tr1)" "tschedule tr1 = None" "length ls = length gates"
    using coin_total [OF tr, of "label @ ''_batch''" "length gates" H] label few by auto
  obtain z tr2 where z: "coin H tr1 (label @ ''_z'') 1 = Inr (z, tr2)" "length z = 1"
    using coin_total [OF ls(2), of "label @ ''_z''" 1 H] label by auto
  obtain rt where rt: "batch_transcript H label z ls = Inr rt"
    using batch_transcript_total [of label z ls H] label few z(2) ls(3) by auto
  let ?T = "batch_terms (eq_vector z) ls gates 1"
  obtain g gs where g: "gates = g # gs" using batch_domain_facts [OF d] by (cases gates) auto
  obtain l ls' where l: "ls = l # ls'" using ls(3) g by (cases ls) auto
  obtain t ts where t: "g_terms g = t # ts" "snd t \<noteq> []" using batch_domain_facts [OF d] g by (cases "g_terms g") auto
  obtain f fs where f: "snd t = f # fs" using t(2) by (cases "snd t") auto
  have fl: "first_len ?T = 2" using z(2) by (simp add: batch_terms_def g l t(1) first_len_def case_prod_beta)
  have ne: "?T \<noteq> []" "snd (hd ?T) \<noteq> []" by (simp_all add: batch_terms_def g l t(1) case_prod_beta)
  have "length f \<le> 1" using fit f g t(1) by (auto simp: gates_fit_def case_prod_beta)
  then have "list_ex (\<lambda>(c, fs). list_ex (\<lambda>f. length f < 2) fs) ?T"
    by (simp add: batch_terms_def g l t(1) f case_prod_beta length_pad_zero)
  then have "prove_terms H ?T (CoinRT rt) tape 0 = Inl IndexError"
    using ne by (simp only: prove_terms_def Let_def fl if_False if_True simp_thms)
  then show ?thesis using d ls(1) z(1) rt by (simp add: prove_batch_def Let_def bit_length.simps)
qed

theorem batch_single_point_raises_witness:
  "prove_batch toy_hash [hadamard_gate ''h'' [2] [4] [8]] (new_transcript [] None) ''gates'' None = Inl IndexError"
proof (rule batch_single_point_raises)
  show "batch_domain [hadamard_gate ''h'' [2] [4] [8]] = Inr 1"
    using pow2_from_1_id [of 0] by (simp add: batch_domain_def gate_size_def first_len_def hadamard_gate_def)
  show "gates_fit [hadamard_gate ''h'' [2] [4] [8]] 1" by (simp add: gates_fit_def hadamard_gate_def)
qed (simp_all add: new_transcript_def)

end
