(* ===== verification/Moe.thy ===== *)
theory Moe
  imports LogUp "HOL-Library.Product_Lexorder" "HOL-Library.Multiset"
begin

text \<open>
  The routed-expert argument of \<^verbatim>\<open>layergkr/moe.py\<close>: source records and their stable sort, the
  fingerprint and the characteristic product of the permutation check, the strict order check,
  the segmented scan with its delimiters and its constraint checker, and the identity between the
  selected matrix product and the per-expert sums.
\<close>

section \<open>Records\<close>

record moe_record =
  m_layer :: int
  m_kind :: int
  m_t :: int
  m_e :: int
  m_j :: int
  m_x :: int

definition source_records :: "int \<Rightarrow> int \<Rightarrow> int list \<Rightarrow> int list list \<Rightarrow> moe_record list result" where
  "source_records layer kind route X =
     (if route = [] then Inr []
      else if X = [] then Inl IndexError
      else rmap (\<lambda>(t, j).
             if t < length X \<and> j < length (X ! t)
             then Inr \<lparr>m_layer = layer, m_kind = kind, m_t = int t, m_e = route ! t, m_j = int j, m_x = X ! t ! j mod FIELD_P\<rparr>
             else Inl IndexError)
           (concat (map (\<lambda>t. map (\<lambda>j. (t, j)) [0..<length (X ! 0)]) [0..<length route])))"

definition rec_key :: "moe_record \<Rightarrow> int \<times> int \<times> int \<times> int" where
  "rec_key r = (m_kind r, m_j r, m_e r, m_t r)"

definition stable_sorted_records :: "moe_record list \<Rightarrow> moe_record list" where
  "stable_sorted_records recs = sort_key rec_key recs"

section \<open>The permutation check\<close>

definition fingerprint :: "moe_record \<Rightarrow> int \<Rightarrow> int" where
  "fingerprint r beta =
     foldl (\<lambda>acc v. (acc * beta + v mod FIELD_P) mod FIELD_P) 0 [m_layer r, m_kind r, m_t r, m_e r, m_j r, m_x r]"

definition characteristic_product :: "moe_record list \<Rightarrow> int \<Rightarrow> int \<Rightarrow> int" where
  "characteristic_product recs beta z =
     foldl (\<lambda>acc r. (acc * ((z - fingerprint r beta) mod FIELD_P)) mod FIELD_P) 1 recs"

definition permutation_ok :: "moe_record list \<Rightarrow> moe_record list \<Rightarrow> int \<Rightarrow> int \<Rightarrow> bool" where
  "permutation_ok src dst beta z \<longleftrightarrow> length src = length dst \<and>
     characteristic_product src beta z = characteristic_product dst beta z"

section \<open>The order check\<close>

definition lane_of :: "moe_record \<Rightarrow> int \<times> int" where
  "lane_of r = (m_kind r, m_j r)"

definition order_key :: "int \<Rightarrow> moe_record \<Rightarrow> int" where
  "order_key S r = m_e r * (S + 1) + m_t r"

fun order_loop :: "int \<Rightarrow> (int \<times> int \<Rightarrow> int option) \<Rightarrow> moe_record list \<Rightarrow> bool" where
  "order_loop S seen [] = True"
| "order_loop S seen (r # rs) =
     (let k = order_key S r in
      case seen (lane_of r) of
        Some l \<Rightarrow> if k \<le> l then False else order_loop S (seen(lane_of r \<mapsto> k)) rs
      | None \<Rightarrow> order_loop S (seen(lane_of r \<mapsto> k)) rs)"

definition strict_order_ok :: "moe_record list \<Rightarrow> int \<Rightarrow> bool" where
  "strict_order_ok dst S = order_loop S Map.empty dst"

section \<open>The segmented scan\<close>

definition DELIMITER :: int where
  "DELIMITER = -1"

record scan_row =
  is_delim :: bool
  s_label :: int
  s_e :: int
  s_t :: int
  s_x :: int
  s_d :: int
  s_a :: int
  c_in :: int
  h_in :: int
  h_out :: int
  emitted :: int

text \<open>The rows of one expert's tokens, and the accumulator after them.\<close>

fun lane_tokens :: "int list \<Rightarrow> int \<Rightarrow> moe_record list \<Rightarrow> int \<Rightarrow> (scan_row list \<times> int) result" where
  "lane_tokens tau c [] h = Inr ([], h)"
| "lane_tokens tau c (r # rs) h =
     rbind (py_index tau (m_t r)) (\<lambda>tt.
       let delta = (tt * m_x r) mod FIELD_P; h_new = (h + delta) mod FIELD_P in
       rbind (lane_tokens tau c rs h_new) (\<lambda>(rows, h').
         Inr (\<lparr>is_delim = False, s_label = -1, s_e = m_e r, s_t = m_t r, s_x = m_x r, s_d = 0, s_a = 1,
               c_in = c, h_in = h, h_out = h_new, emitted = 0\<rparr> # rows, h')))"

definition delim_row :: "int \<Rightarrow> int \<Rightarrow> int \<Rightarrow> scan_row" where
  "delim_row label c h =
     \<lparr>is_delim = True, s_label = label, s_e = DELIMITER, s_t = -1, s_x = 0, s_d = 1, s_a = 0,
      c_in = c, h_in = h, h_out = 0, emitted = h\<rparr>"

text \<open>The loop over the delimiter labels; \<open>c\<close> counts them, so it equals the label.\<close>

fun lane_loop :: "moe_record list \<Rightarrow> nat \<Rightarrow> int list \<Rightarrow> nat list \<Rightarrow> int \<Rightarrow> int \<Rightarrow> int list \<Rightarrow> (scan_row list \<times> int list) result" where
  "lane_loop dst_lane E tau [] h c A = Inr ([], A)"
| "lane_loop dst_lane E tau (label # labels) h c A =
     (let A' = (if label > 0 then A[label - 1 := h] else A) in
      rbind (if label < E then lane_tokens tau (c + 1) (filter (\<lambda>r. m_e r = int label) dst_lane) 0 else Inr ([], 0)) (\<lambda>(rows, h').
      rbind (lane_loop dst_lane E tau labels h' (c + 1) A') (\<lambda>(rest, Af).
        Inr (delim_row (int label) c h # rows @ rest, Af))))"

definition build_lane :: "moe_record list \<Rightarrow> nat \<Rightarrow> int list \<Rightarrow> (scan_row list \<times> int list) result" where
  "build_lane dst_lane E tau = lane_loop dst_lane E tau [0..<E + 1] 0 0 (replicate E 0)"

definition row_delta :: "int list \<Rightarrow> scan_row \<Rightarrow> int result" where
  "row_delta tau row =
     (if s_a row \<noteq> 0 then rbind (py_index tau (s_t row)) (\<lambda>tt. Inr ((s_a row * tt * s_x row) mod FIELD_P)) else Inr 0)"

fun scan_loop :: "nat \<Rightarrow> int list \<Rightarrow> scan_row list \<Rightarrow> int \<Rightarrow> int \<Rightarrow> bool result" where
  "scan_loop E tau [] c h = Inr (c = int E + 1)"
| "scan_loop E tau (row # rows) c h =
     (if s_d row \<notin> {0, 1} \<or> s_a row \<notin> {0, 1} then Inr False
      else if s_d row + s_a row \<noteq> 1 then Inr False
      else if c_in row \<noteq> c then Inr False
      else if h_in row \<noteq> h then Inr False
      else if s_d row \<noteq> 0 \<and> (s_label row - c_in row) mod FIELD_P \<noteq> 0 then Inr False
      else if s_a row \<noteq> 0 \<and> (s_e row - (c_in row - 1)) mod FIELD_P \<noteq> 0 then Inr False
      else rbind (row_delta tau row) (\<lambda>delta.
        let want = (if s_d row \<noteq> 0 then 0 else (h_in row + delta) mod FIELD_P) in
        if h_out row \<noteq> want then Inr False
        else if s_d row \<noteq> 0 \<and> emitted row \<noteq> h_in row then Inr False
        else scan_loop E tau rows (c + s_d row) (h_out row)))"

definition scan_constraints_ok :: "scan_row list \<Rightarrow> nat \<Rightarrow> int list \<Rightarrow> bool result" where
  "scan_constraints_ok trace E tau = scan_loop E tau trace 0 0"

section \<open>The payoff identity\<close>

text \<open>One token: \<open>A[e][j] += tau[t] * X[t][j]\<close> for every coordinate; nothing is read when there is none.\<close>

definition seg_step :: "int list list \<Rightarrow> int list \<Rightarrow> nat \<Rightarrow> int list list \<Rightarrow> nat \<Rightarrow> int \<Rightarrow> int list list result" where
  "seg_step X tau d A t e =
     (if d = 0 then Inr A
      else rbind (py_pos (length A) e) (\<lambda>k.
        if t < length tau \<and> t < length X \<and> d \<le> length (X ! t)
        then Inr (A[k := map (\<lambda>j. (A ! k ! j + tau ! t * X ! t ! j) mod FIELD_P) [0..<d]])
        else Inl IndexError))"

fun seg_loop :: "int list list \<Rightarrow> int list \<Rightarrow> nat \<Rightarrow> int list list \<Rightarrow> nat \<Rightarrow> int list \<Rightarrow> int list list result" where
  "seg_loop X tau d A t [] = Inr A"
| "seg_loop X tau d A t (e # es) = rbind (seg_step X tau d A t e) (\<lambda>A'. seg_loop X tau d A' (Suc t) es)"

definition segment_sums :: "int list \<Rightarrow> int list list \<Rightarrow> int list \<Rightarrow> nat \<Rightarrow> int list list result" where
  "segment_sums route X tau E =
     (if X = [] then Inl IndexError
      else let d = length (X ! 0) in seg_loop X tau d (replicate E (replicate d 0)) 0 route)"

definition project_experts :: "int list list list \<Rightarrow> int list \<Rightarrow> int list list result" where
  "project_experts W rho =
     (if W = [] \<or> W ! 0 = [] then Inl IndexError
      else let d_in = length (W ! 0); d_out = length (W ! 0 ! 0) in
        if d_out = 0 \<or> (d_out \<le> length rho \<and> list_all (\<lambda>We. d_in \<le> length We \<and> list_all (\<lambda>r. d_out \<le> length r) (take d_in We)) W)
        then Inr (map (\<lambda>e. map (\<lambda>j. sum_list (map (\<lambda>i. rho ! i * W ! e ! j ! i) [0..<d_out]) mod FIELD_P) [0..<d_in])
               [0..<length W])
        else Inl IndexError)"

text \<open>One output entry \<open>sum(X[t][j] * W[route[t]][j][i] for j in range(d_in)) % P\<close>.\<close>

definition sel_entry :: "int list \<Rightarrow> int list list \<Rightarrow> int list list list \<Rightarrow> nat \<Rightarrow> nat \<Rightarrow> nat \<Rightarrow> int result" where
  "sel_entry route X W d_in t i =
     (if d_in = 0 then Inr 0
      else if t \<ge> length X then Inl IndexError
      else rbind (py_index W (route ! t)) (\<lambda>We.
        if d_in \<le> length (X ! t) \<and> d_in \<le> length We \<and> list_all (\<lambda>r. i < length r) (take d_in We)
        then Inr (sum_list (map (\<lambda>j. X ! t ! j * We ! j ! i) [0..<d_in]) mod FIELD_P) else Inl IndexError))"

definition selected_matmul :: "int list \<Rightarrow> int list list \<Rightarrow> int list list list \<Rightarrow> int list list result" where
  "selected_matmul route X W =
     (if X = [] \<or> W = [] \<or> W ! 0 = [] then Inl IndexError
      else let d_in = length (X ! 0); d_out = length (W ! 0 ! 0) in
        rmap (\<lambda>t. rmap (\<lambda>i. sel_entry route X W d_in t i) [0..<d_out]) [0..<length route])"

definition moe_identity_sides :: "int list \<Rightarrow> int list list \<Rightarrow> int list list list \<Rightarrow> int list \<Rightarrow> int list \<Rightarrow> (int \<times> int) result" where
  "moe_identity_sides route X W tau rho =
     rbind (selected_matmul route X W) (\<lambda>Y.
     if route \<noteq> [] \<and> length (Y ! 0) \<noteq> 0 \<and> (length tau < length route \<or> length rho < length (Y ! 0)) then Inl IndexError
     else let lhs = foldl (\<lambda>acc t. foldl (\<lambda>acc i. (acc + tau ! t * rho ! i * Y ! t ! i) mod FIELD_P) acc [0..<length (Y ! 0)])
                     0 [0..<length route]
     in rbind (segment_sums route X tau (length W)) (\<lambda>A.
        rbind (project_experts W rho) (\<lambda>Pp.
        if length (X ! 0) > length (W ! 0) then Inl IndexError
        else Inr (lhs, foldl (\<lambda>acc e. foldl (\<lambda>acc j. (acc + A ! e ! j * Pp ! e ! j) mod FIELD_P) acc [0..<length (X ! 0)])
                    0 [0..<length W]))))"

definition cell_counts :: "int \<Rightarrow> int \<Rightarrow> int \<Rightarrow> int \<Rightarrow> int \<times> int \<times> int \<times> int" where
  "cell_counts S E d d_ff =
     (let naive = S * E * (2 * d + d_ff); segmented = S * (2 * d + d_ff)
      in (naive, segmented, S * d, naive div (max segmented 1)))"

section \<open>The scan computes the per-expert sums\<close>

text \<open>What one accepted row contributes, and the sum over the token rows of one expert.\<close>

definition row_value :: "int list \<Rightarrow> scan_row \<Rightarrow> int" where
  "row_value tau row = (case py_index tau (s_t row) of Inr tt \<Rightarrow> tt * s_x row | Inl e \<Rightarrow> 0)"

definition segment_of :: "int list \<Rightarrow> scan_row list \<Rightarrow> int \<Rightarrow> int" where
  "segment_of tau rows e = sum_list (map (row_value tau) (filter (\<lambda>r. s_a r = 1 \<and> (s_e r - e) mod FIELD_P = 0) rows))"

definition delims :: "scan_row list \<Rightarrow> scan_row list" where
  "delims rows = filter (\<lambda>r. s_d r = 1) rows"

lemma scan_loop_delim:
  assumes "scan_loop E tau (row # rows) c h = Inr True" "s_d row = 1"
  shows "s_a row = 0 \<and> (s_label row - c) mod FIELD_P = 0 \<and> emitted row = h \<and> scan_loop E tau rows (c + 1) 0 = Inr True"
  using assms by (auto simp: row_delta_def Let_def split: if_splits)

lemma scan_loop_token:
  assumes "scan_loop E tau (row # rows) c h = Inr True" "s_d row \<noteq> 1"
  shows "s_d row = 0 \<and> s_a row = 1 \<and> (s_e row - (c - 1)) mod FIELD_P = 0 \<and>
    scan_loop E tau rows c ((h + row_value tau row) mod FIELD_P) = Inr True"
  using assms by (auto simp: row_delta_def row_value_def Let_def rbind_Inr_iff mod_simps split: if_splits)

lemma scan_loop_count:
  "scan_loop E tau rows c h = Inr True \<Longrightarrow> int (length (delims rows)) = int E + 1 - c"
proof (induction rows arbitrary: c h)
  case (Cons row rows)
  show ?case
  proof (cases "s_d row = 1")
    case True
    then show ?thesis using Cons.IH scan_loop_delim [OF Cons.prems True] by (fastforce simp: delims_def)
  next
    case False
    then show ?thesis using Cons.IH scan_loop_token [OF Cons.prems False] by (fastforce simp: delims_def)
  qed
qed (simp add: delims_def)

text \<open>A token row of the remaining trace belongs to the current segment or a later one.\<close>

lemma scan_loop_segments:
  "scan_loop E tau rows c h = Inr True \<Longrightarrow> r \<in> set rows \<Longrightarrow> s_a r = 1 \<Longrightarrow>
    \<exists>c'. c \<le> c' \<and> c' \<le> int E + 1 \<and> (s_e r - (c' - 1)) mod FIELD_P = 0"
proof (induction rows arbitrary: c h)
  case (Cons row rows)
  have le: "c \<le> int E + 1" using scan_loop_count [OF Cons.prems(1)] by linarith
  show ?case
  proof (cases "s_d row = 1")
    case True
    note s = scan_loop_delim [OF Cons.prems(1) True]
    have "r \<in> set rows" using Cons.prems(2,3) s by auto
    then obtain c' where "c + 1 \<le> c'" "c' \<le> int E + 1" "(s_e r - (c' - 1)) mod FIELD_P = 0"
      using Cons.IH [of "c + 1" 0] s Cons.prems(3) by auto
    then show ?thesis by (intro exI [of _ c']) simp
  next
    case False
    note s = scan_loop_token [OF Cons.prems(1) False]
    show ?thesis
    proof (cases "r = row")
      case True
      then show ?thesis using s le by (intro exI [of _ c]) simp
    next
      case False
      then show ?thesis using Cons.IH [of c] s Cons.prems(2,3) by auto
    qed
  qed
qed simp

lemma mod0_diff: "a mod m = 0 \<Longrightarrow> b mod m = 0 \<Longrightarrow> m dvd a - b"
  for a b m :: int
  by (intro dvd_diff) (auto simp: dvd_eq_mod_eq_0)

lemma segment_of_none:
  assumes "scan_loop E tau rows c h = Inr True" and e: "e < c - 1" "int E - e < FIELD_P"
  shows "segment_of tau rows e = 0"
proof -
  have "\<not> (s_a r = 1 \<and> (s_e r - e) mod FIELD_P = 0)" if r: "r \<in> set rows" for r
  proof
    assume a: "s_a r = 1 \<and> (s_e r - e) mod FIELD_P = 0"
    obtain c' where c: "c \<le> c'" "c' \<le> int E + 1" "(s_e r - (c' - 1)) mod FIELD_P = 0"
      using scan_loop_segments [OF assms(1) r conjunct1 [OF a]] by (elim exE conjE)
    have "FIELD_P dvd (s_e r - e) - (s_e r - (c' - 1))" by (intro mod0_diff conjunct2 [OF a] c(3))
    then have "FIELD_P dvd c' - 1 - e" by (simp add: algebra_simps)
    then show False using zdvd_imp_le [of FIELD_P "c' - 1 - e"] c(1,2) e by linarith
  qed
  then show ?thesis by (simp add: segment_of_def)
qed

lemma scan_loop_emits:
  "scan_loop E tau rows c h = Inr True \<Longrightarrow> -1 \<le> c - 1 \<Longrightarrow> int E + 1 < FIELD_P \<Longrightarrow> 0 \<le> h \<Longrightarrow> h < FIELD_P \<Longrightarrow>
   k < length (delims rows) \<Longrightarrow>
   emitted (delims rows ! k) = ((if k = 0 then h else 0) + segment_of tau rows (c - 1 + int k)) mod FIELD_P"
proof (induction rows arbitrary: c h k)
  case Nil
  then show ?case by (simp add: delims_def)
next
  case (Cons row rows)
  have b: "int k \<le> int E - c" using scan_loop_count [OF Cons.prems(1)] Cons.prems(6) by linarith
  show ?case
  proof (cases "s_d row = 1")
    case True
    note s = scan_loop_delim [OF Cons.prems(1) True]
    have seg: "segment_of tau (row # rows) e = segment_of tau rows e" for e using s by (simp add: segment_of_def)
    show ?thesis
    proof (cases k)
      case 0
      have "segment_of tau rows (c - 1) = 0"
        using segment_of_none [of E tau rows "c + 1" 0 "c - 1"] s Cons.prems(2,3) by simp
      then show ?thesis using 0 s seg True Cons.prems(4,5) by (simp add: delims_def)
    next
      case (Suc k')
      have "emitted (delims rows ! k') = ((if k' = 0 then 0 else 0) + segment_of tau rows (c + 1 - 1 + int k')) mod FIELD_P"
        using Cons.IH [of "c + 1" 0 k'] s Cons.prems Suc True by (simp add: delims_def)
      then show ?thesis using Suc True seg by (simp add: delims_def)
    qed
  next
    case False
    note s = scan_loop_token [OF Cons.prems(1) False]
    let ?h = "(h + row_value tau row) mod FIELD_P"
    have d: "delims (row # rows) = delims rows" using False by (simp add: delims_def)
    have IH: "emitted (delims rows ! k) = ((if k = 0 then ?h else 0) + segment_of tau rows (c - 1 + int k)) mod FIELD_P"
      using Cons.IH [of c ?h k] s Cons.prems d by simp
    show ?thesis
    proof (cases "k = 0")
      case True
      then have "segment_of tau (row # rows) (c - 1 + int k) = row_value tau row + segment_of tau rows (c - 1 + int k)"
        using s by (simp add: segment_of_def)
      then show ?thesis using IH d True by (simp add: mod_simps add_ac)
    next
      case False
      have "(s_e row - (c - 1 + int k)) mod FIELD_P \<noteq> 0"
      proof
        assume "(s_e row - (c - 1 + int k)) mod FIELD_P = 0"
        then have "FIELD_P dvd (s_e row - (c - 1)) - (s_e row - (c - 1 + int k))" using s by (intro mod0_diff) auto
        then show False using zdvd_imp_le [of FIELD_P "int k"] False b Cons.prems(2,3) by simp
      qed
      then show ?thesis using IH d False by (simp add: segment_of_def)
    qed
  qed
qed

text \<open>
  Property C10 (\<open>scan_sound\<close>): a trace that passes every scan constraint, whoever built it, has exactly
  \<open>E + 1\<close> delimiter rows, and the delimiter after expert \<open>e\<close> emits the sum of \<open>tau[t] * x\<close> over
  precisely the token rows of expert \<open>e\<close>, whatever their number and order, empty experts included.
\<close>

theorem scan_sound:
  assumes ok: "scan_constraints_ok trace E tau = Inr True" and E: "int E + 1 < FIELD_P"
  shows "length (delims trace) = E + 1 \<and>
    (\<forall>e < E. emitted (delims trace ! (e + 1)) = segment_of tau trace (int e) mod FIELD_P)"
proof -
  have l: "length (delims trace) = E + 1" using scan_loop_count ok unfolding scan_constraints_ok_def by fastforce
  have "emitted (delims trace ! (e + 1)) = segment_of tau trace (int e) mod FIELD_P" if "e < E" for e
    using scan_loop_emits [of E tau trace 0 0 "e + 1"] ok that l E by (simp add: scan_constraints_ok_def FIELD_P_val)
  then show ?thesis using l by blast
qed

section \<open>The honest trace\<close>

definition token_value :: "int list \<Rightarrow> moe_record \<Rightarrow> int" where
  "token_value tau r = (case py_index tau (m_t r) of Inr tt \<Rightarrow> tt * m_x r | Inl e \<Rightarrow> 0)"

definition expert_sum :: "int list \<Rightarrow> moe_record list \<Rightarrow> int \<Rightarrow> int" where
  "expert_sum tau recs e = sum_list (map (token_value tau) (filter (\<lambda>r. m_e r = e) recs)) mod FIELD_P"

lemma lane_tokens_scan:
  "lane_tokens tau c rs h = Inr (rows, h') \<Longrightarrow> \<forall>r \<in> set rs. m_e r = c - 1 \<Longrightarrow> 0 \<le> h \<Longrightarrow> h < FIELD_P \<Longrightarrow>
   scan_loop E tau (rows @ rest) c h = scan_loop E tau rest c h' \<and>
   h' = (h + sum_list (map (token_value tau) rs)) mod FIELD_P"
proof (induction rs arbitrary: h rows h')
  case (Cons r rs)
  obtain tt where tt: "py_index tau (m_t r) = Inr tt" using Cons.prems(1) by (auto simp: rbind_Inr_iff)
  let ?h = "(h + (tt * m_x r) mod FIELD_P) mod FIELD_P"
  obtain rows' where rows': "lane_tokens tau c rs ?h = Inr (rows', h')"
    "rows = \<lparr>is_delim = False, s_label = -1, s_e = m_e r, s_t = m_t r, s_x = m_x r, s_d = 0, s_a = 1,
               c_in = c, h_in = h, h_out = ?h, emitted = 0\<rparr> # rows'"
    using Cons.prems(1) tt by (auto simp: rbind_Inr_iff Let_def)
  have IH: "scan_loop E tau (rows' @ rest) c ?h = scan_loop E tau rest c h'"
    "h' = (?h + sum_list (map (token_value tau) rs)) mod FIELD_P"
    using Cons.IH [OF rows'(1)] Cons.prems(2) by simp_all
  have "token_value tau r = tt * m_x r" by (simp add: token_value_def tt)
  then have "h' = (h + sum_list (map (token_value tau) (r # rs))) mod FIELD_P" using IH(2) by (simp add: mod_simps add_ac)
  moreover have "row_delta tau (hd rows) = Inr ((tt * m_x r) mod FIELD_P)" by (simp add: rows'(2) row_delta_def tt)
  then have "scan_loop E tau (rows @ rest) c h = scan_loop E tau rest c h'"
    using IH(1) Cons.prems(2) by (simp add: rows'(2) Let_def)
  ultimately show ?case by blast
qed simp

lemma lane_loop_scan:
  "lane_loop dst E tau [l..<E + 1] h (int l) A = Inr (trace, Af) \<Longrightarrow> l \<le> E + 1 \<Longrightarrow> 0 \<le> h \<Longrightarrow> h < FIELD_P \<Longrightarrow> length A = E \<Longrightarrow>
   scan_loop E tau trace (int l) h = Inr True \<and> length Af = E \<and>
   (\<forall>e < E. Af ! e = (if e + 1 < l then A ! e else if e + 1 = l then h else expert_sum tau dst (int e)))"
proof (induction "E + 1 - l" arbitrary: l h A trace Af)
  case 0
  then have "l = E + 1" by simp
  then show ?case using 0 by simp
next
  case (Suc n)
  then have l: "l < E + 1" by simp
  let ?A = "if l > 0 then A[l - 1 := h] else A"
  let ?toks = "if l < E then lane_tokens tau (int l + 1) (filter (\<lambda>r. m_e r = int l) dst) 0 else Inr ([], 0)"
  have u: "[l..<E + 1] = l # [Suc l..<E + 1]" using l by (simp add: upt_conv_Cons)
  obtain rows h' rest where t: "?toks = Inr (rows, h')" "lane_loop dst E tau [Suc l..<E + 1] h' (int (Suc l)) ?A = Inr (rest, Af)"
    "trace = delim_row (int l) (int l) h # rows @ rest"
    using Suc.prems(1) unfolding u by (auto simp: rbind_Inr_iff Let_def add.commute)
  have toks: "0 \<le> h' \<and> h' < FIELD_P \<and> (l < E \<longrightarrow> h' = expert_sum tau dst (int l)) \<and>
    scan_loop E tau (rows @ rest) (int (Suc l)) 0 = scan_loop E tau rest (int (Suc l)) h'"
  proof (cases "l < E")
    case True
    then have "lane_tokens tau (int (Suc l)) (filter (\<lambda>r. m_e r = int l) dst) 0 = Inr (rows, h')"
      using t(1) by (simp add: add.commute)
    from lane_tokens_scan [OF this, of E rest] show ?thesis by (simp add: expert_sum_def FIELD_P_val)
  next
    case False
    then show ?thesis using t(1) by (simp add: FIELD_P_val)
  qed
  have h': "0 \<le> h'" "h' < FIELD_P" "l < E \<Longrightarrow> h' = expert_sum tau dst (int l)"
    and s: "scan_loop E tau (rows @ rest) (int (Suc l)) 0 = scan_loop E tau rest (int (Suc l)) h'"
    using toks by simp_all
  have IH: "scan_loop E tau rest (int (Suc l)) h' = Inr True" "length Af = E"
    "\<forall>e < E. Af ! e = (if e + 1 < Suc l then ?A ! e else if e + 1 = Suc l then h' else expert_sum tau dst (int e))"
    using Suc.hyps(1) [of "Suc l", OF _ t(2)] Suc.hyps(2) l h' Suc.prems(5) by auto
  have "scan_loop E tau trace (int l) h = Inr True"
    using s IH(1) by (simp add: t(3) delim_row_def row_delta_def Let_def add.commute)
  moreover have "Af ! e = (if e + 1 < l then A ! e else if e + 1 = l then h else expert_sum tau dst (int e))" if "e < E" for e
  proof -
    consider "e + 1 < l" | "e + 1 = l" | "e = l" | "l < e" by linarith
    then show ?thesis using IH(3) that h'(3) Suc.prems(5) by cases auto
  qed
  ultimately show ?case using IH(2) by blast
qed

lemma lane_tokens_total:
  "\<forall>r \<in> set rs. 0 \<le> m_t r \<and> m_t r < int (length tau) \<Longrightarrow> \<exists>rows h'. lane_tokens tau c rs h = Inr (rows, h')"
proof (induction rs arbitrary: h)
  case (Cons r rs)
  have "py_index tau (m_t r) = Inr (tau ! nat (m_t r))" using Cons.prems by (simp add: py_index_def py_pos_def)
  moreover obtain rows h' where "lane_tokens tau c rs ((h + (tau ! nat (m_t r) * m_x r) mod FIELD_P) mod FIELD_P) = Inr (rows, h')"
    using Cons by fastforce
  ultimately show ?case by (simp add: Let_def)
qed simp

lemma lane_loop_total:
  assumes "\<forall>r \<in> set dst. 0 \<le> m_t r \<and> m_t r < int (length tau)"
  shows "\<exists>trace Af. lane_loop dst E tau labels h c A = Inr (trace, Af)"
proof (induction labels arbitrary: h c A)
  case (Cons l labels)
  have "\<exists>rows h'. (if l < E then lane_tokens tau (c + 1) (filter (\<lambda>r. m_e r = int l) dst) 0 else Inr ([], 0)) = Inr (rows, h')"
    using lane_tokens_total assms by auto
  then obtain rows h' where r: "(if l < E then lane_tokens tau (c + 1) (filter (\<lambda>r. m_e r = int l) dst) 0 else Inr ([], 0)) = Inr (rows, h')"
    by blast
  obtain rest Af where "lane_loop dst E tau labels h' (c + 1) (if l > 0 then A[l - 1 := h] else A) = Inr (rest, Af)"
    using Cons.IH by blast
  then show ?case unfolding lane_loop.simps Let_def r by simp
qed simp

lemma build_lane_scan:
  "build_lane dst E tau = Inr (trace, A) \<Longrightarrow> scan_constraints_ok trace E tau = Inr True \<and> length A = E \<and>
    (\<forall>e < E. A ! e = expert_sum tau dst (int e))"
  using lane_loop_scan [of dst E tau 0 0 "replicate E 0" trace A]
  by (simp add: build_lane_def scan_constraints_ok_def FIELD_P_val del: upt_Suc)

text \<open>
  Fact (\<open>scan_complete\<close>): for records whose positions index \<open>tau\<close>, \<open>build_lane\<close> returns a trace
  that passes every constraint, and per-expert sums that are the sums of \<open>tau[t] * x\<close> over the
  records of each expert.
\<close>

theorem scan_complete:
  assumes "\<forall>r \<in> set dst. 0 \<le> m_t r \<and> m_t r < int (length tau)"
  shows "\<exists>trace A. build_lane dst E tau = Inr (trace, A) \<and> scan_constraints_ok trace E tau = Inr True \<and> length A = E \<and>
    (\<forall>e < E. A ! e = expert_sum tau dst (int e))"
proof -
  obtain trace A where b: "build_lane dst E tau = Inr (trace, A)" using lane_loop_total [OF assms] unfolding build_lane_def by blast
  then show ?thesis using build_lane_scan [OF b] by blast
qed

definition toy_rec :: "int \<Rightarrow> int \<Rightarrow> int \<Rightarrow> moe_record" where
  "toy_rec t e x = \<lparr>m_layer = 0, m_kind = 0, m_t = t, m_e = e, m_j = 0, m_x = x\<rparr>"

theorem scan_complete_witness:
  "\<exists>trace A. build_lane [toy_rec 1 0 5, toy_rec 0 2 7] 3 [10, 20] = Inr (trace, A) \<and>
    scan_constraints_ok trace 3 [10, 20] = Inr True \<and> length A = 3 \<and> A ! 0 = 100 \<and> A ! 1 = 0 \<and> A ! 2 = 70"
proof -
  have "\<forall>r \<in> set [toy_rec 1 0 5, toy_rec 0 2 7]. 0 \<le> m_t r \<and> m_t r < int (length [10, 20 :: int])"
    by (simp add: toy_rec_def)
  then obtain trace A where r: "build_lane [toy_rec 1 0 5, toy_rec 0 2 7] 3 [10, 20] = Inr (trace, A)"
    "scan_constraints_ok trace 3 [10, 20] = Inr True" "length A = 3"
    "\<forall>e < 3. A ! e = expert_sum [10, 20] [toy_rec 1 0 5, toy_rec 0 2 7] (int e)"
    using scan_complete [of "[toy_rec 1 0 5, toy_rec 0 2 7]" "[10, 20]" 3] by blast
  then show ?thesis
    by (intro exI [of _ trace] exI [of _ A])
      (simp add: expert_sum_def token_value_def toy_rec_def py_index_def py_pos_def FIELD_P_val)
qed

theorem scan_sound_witness:
  "\<exists>trace. scan_constraints_ok trace 3 [10, 20] = Inr True \<and> length (delims trace) = 3 + 1 \<and>
    (\<forall>e < 3. emitted (delims trace ! (e + 1)) = segment_of [10, 20] trace (int e) mod FIELD_P)"
proof -
  have "\<forall>r \<in> set [toy_rec 1 0 5, toy_rec 0 2 7]. 0 \<le> m_t r \<and> m_t r < int (length [10, 20 :: int])"
    by (simp add: toy_rec_def)
  then obtain trace A where b: "build_lane [toy_rec 1 0 5, toy_rec 0 2 7] 3 [10, 20] = Inr (trace, A)"
    using lane_loop_total unfolding build_lane_def by blast
  have "scan_constraints_ok trace 3 [10, 20] = Inr True" using build_lane_scan [OF b] by simp
  then show ?thesis using scan_sound [of trace 3 "[10, 20]"] by (auto simp: FIELD_P_val)
qed

section \<open>The permutation check\<close>

lemma fingerprint_eq: "fingerprint r beta = compress_tuple [m_layer r, m_kind r, m_t r, m_e r, m_j r, m_x r] beta"
  unfolding fingerprint_def compress_tuple_def by (rule refl)

lemma gl_characteristic: "(of_int (characteristic_product recs beta z) :: gl) = (\<Prod>r\<leftarrow>recs. of_int z - of_int (fingerprint r beta))"
proof -
  have "(of_int (foldl (\<lambda>acc r. (acc * ((z - fingerprint r beta) mod FIELD_P)) mod FIELD_P) a recs) :: gl)
      = of_int a * (\<Prod>r\<leftarrow>recs. of_int z - of_int (fingerprint r beta))" for a
    by (induction recs arbitrary: a) (simp_all add: mult.assoc)
  from this [of 1] show ?thesis by (simp add: characteristic_product_def)
qed

lemma prod_list_linear_poly:
  "\<exists>cs. length cs = Suc (length as) \<and> (\<forall>z :: gl. peval cs z = (\<Prod>a\<leftarrow>as. z - a))"
proof -
  have "\<exists>cs. length cs = Suc (card {..<length as}) \<and> (\<forall>t. peval cs t = (\<Prod>i\<in>{..<length as}. (t - as ! i) / 1))"
    by (rule prod_linear_poly) simp
  moreover have "map (\<lambda>a. z - a) as = map (\<lambda>i. z - as ! i) [0..<length as]" for z by (rule nth_equalityI) simp_all
  ultimately show ?thesis by (simp add: prod_list_map_upt)
qed

text \<open>Two products of linear factors that agree at more points than factors have the same factors.\<close>

lemma linear_factors_unique:
  fixes as bs :: "gl list"
  shows "length as = length bs \<Longrightarrow> finite S \<Longrightarrow> length as < card S \<Longrightarrow> \<forall>z \<in> S. (\<Prod>a\<leftarrow>as. z - a) = (\<Prod>b\<leftarrow>bs. z - b) \<Longrightarrow> mset as = mset bs"
proof (induction "length as" arbitrary: as bs S)
  case 0
  then show ?case by simp
next
  case (Suc n)
  obtain ca where ca: "length ca = Suc (length as)" "\<And>z. peval ca z = (\<Prod>a\<leftarrow>as. z - a)" using prod_list_linear_poly by metis
  obtain cb where cb: "length cb = Suc (length bs)" "\<And>z. peval cb z = (\<Prod>b\<leftarrow>bs. z - b)" using prod_list_linear_poly by metis
  have len: "length ca = length cb" "length ca \<le> card S" using Suc.prems(1,3) ca(1) cb(1) by simp_all
  have "peval ca z = peval cb z" if "z \<in> S" for z using Suc.prems(4) that by (simp add: ca(2) cb(2))
  then have "ca = cb" by (rule peval_eq_on_points [OF len(1) Suc.prems(2) len(2)])
  then have all: "(\<Prod>a\<leftarrow>as. z - a) = (\<Prod>b\<leftarrow>bs. z - b)" for z using ca(2) cb(2) by metis
  obtain a as' where a: "as = a # as'" using Suc.hyps(2) by (cases as) auto
  have "(\<Prod>b\<leftarrow>bs. a - b) = 0" using all [of a] a by simp
  then have "a \<in> set bs" by (auto simp: prod_list_zero_iff)
  then obtain bs1 bs2 where b: "bs = bs1 @ a # bs2" by (meson split_list)
  have "(\<Prod>a\<leftarrow>as'. z - a) = (\<Prod>b\<leftarrow>bs1 @ bs2. z - b)" if "z \<in> S - {a}" for z
    using all [of z] that by (simp add: a b mult.left_commute)
  moreover have "length as' < card (S - {a})" using diff_card_le_card_Diff [of "{a}" S] Suc.prems(3) a by simp
  ultimately have "mset as' = mset (bs1 @ bs2)"
    using Suc.hyps Suc.prems(1,2) a b by (intro Suc.hyps(1)) auto
  then show ?case by (simp add: a b)
qed

text \<open>
  Property C29 (\<open>permutation_sound\<close>): if the fingerprints of the two record lists are different
  multisets, at most as many evaluation points as there are records pass the permutation check.
\<close>

theorem permutation_sound:
  assumes ne: "mset (map (\<lambda>r. fingerprint r beta) src) \<noteq> mset (map (\<lambda>r. fingerprint r beta) dst)"
    and S: "finite S" "\<forall>z \<in> S. 0 \<le> z \<and> z < FIELD_P" "\<forall>z \<in> S. permutation_ok src dst beta z"
  shows "card S \<le> length src"
proof (rule ccontr)
  assume "\<not> card S \<le> length src"
  moreover have inj: "inj_on (of_int :: int \<Rightarrow> gl) S" using S(2) by (auto simp: inj_on_def intro: gl_inj_canonical)
  moreover have "S \<noteq> {}" using \<open>\<not> card S \<le> length src\<close> by auto
  ultimately have big: "length src < card (of_int ` S :: gl set)" "length src = length dst"
    using S(3) by (auto simp: card_image permutation_ok_def)
  let ?f = "\<lambda>r. of_int (fingerprint r beta) :: gl"
  have range: "0 \<le> fingerprint r beta \<and> fingerprint r beta < FIELD_P" for r
    unfolding fingerprint_def by (rule foldl_invariant) (auto simp: FIELD_P_val)
  have "mset (map ?f src) = mset (map ?f dst)"
  proof (rule linear_factors_unique)
    show "\<forall>z \<in> of_int ` S. (\<Prod>a\<leftarrow>map ?f src. z - a) = (\<Prod>b\<leftarrow>map ?f dst. z - b)"
      using S(3) gl_characteristic [of src beta] gl_characteristic [of dst beta] by (auto simp: permutation_ok_def comp_def) metis
  qed (use big S(1) in simp_all)
  then have "image_mset Rep_gl (mset (map ?f src)) = image_mset Rep_gl (mset (map ?f dst))" by simp
  then have "mset (map (\<lambda>r. fingerprint r beta) src) = mset (map (\<lambda>r. fingerprint r beta) dst)"
    using range by (simp add: image_mset.compositionality comp_def mod_pos_pos_trivial flip: mset_map)
  then show False using ne by simp
qed

lemma fingerprint_toy: "0 \<le> x \<Longrightarrow> x < FIELD_P \<Longrightarrow> fingerprint (toy_rec 0 0 x) beta = x"
  by (simp add: fingerprint_def toy_rec_def)

theorem permutation_sound_witness:
  "card {z \<in> {3 :: int}. permutation_ok [toy_rec 0 0 1] [toy_rec 0 0 2] 5 z} \<le> length [toy_rec 0 0 1]"
proof (rule permutation_sound)
  show "mset (map (\<lambda>r. fingerprint r 5) [toy_rec 0 0 1]) \<noteq> mset (map (\<lambda>r. fingerprint r 5) [toy_rec 0 0 2])"
    by (simp add: fingerprint_toy FIELD_P_val)
qed (simp_all add: FIELD_P_val)

section \<open>The order check\<close>

definition lane_list :: "int \<times> int \<Rightarrow> moe_record list \<Rightarrow> moe_record list" where
  "lane_list lane rs = filter (\<lambda>r. lane_of r = lane) rs"

lemma order_loop_iff:
  "order_loop S seen rs \<longleftrightarrow> (\<forall>lane. sorted_wrt (<) ((case seen lane of None \<Rightarrow> [] | Some l \<Rightarrow> [l]) @ map (order_key S) (lane_list lane rs)))"
proof (induction rs arbitrary: seen)
  case Nil
  then show ?case by (simp add: lane_list_def split: option.split)
next
  case (Cons r rs)
  let ?pre = "\<lambda>seen lane. case seen lane of None \<Rightarrow> [] | Some l \<Rightarrow> [l]"
  let ?s = "seen(lane_of r \<mapsto> order_key S r)"
  have lanes: "lane_list lane (r # rs) = (if lane_of r = lane then r # lane_list lane rs else lane_list lane rs)" for lane
    by (simp add: lane_list_def)
  have step: "order_loop S seen (r # rs) \<longleftrightarrow> (case seen (lane_of r) of None \<Rightarrow> True | Some l \<Rightarrow> l < order_key S r) \<and> order_loop S ?s rs"
    by (auto simp: Let_def split: option.split)
  have other: "?pre ?s lane @ map (order_key S) (lane_list lane rs) = ?pre seen lane @ map (order_key S) (lane_list lane (r # rs))"
    if "lane \<noteq> lane_of r" for lane
    using that by (simp add: lanes)
  have own: "sorted_wrt (<) (?pre seen (lane_of r) @ map (order_key S) (lane_list (lane_of r) (r # rs))) \<longleftrightarrow>
      (case seen (lane_of r) of None \<Rightarrow> True | Some l \<Rightarrow> l < order_key S r) \<and>
      sorted_wrt (<) (?pre ?s (lane_of r) @ map (order_key S) (lane_list (lane_of r) rs))"
    by (auto simp: lanes split: option.split)
  show ?case unfolding step Cons.IH using own other by metis
qed

lemma strict_order_iff: "strict_order_ok dst S \<longleftrightarrow> (\<forall>lane. sorted_wrt (<) (map (order_key S) (lane_list lane dst)))"
  by (simp add: strict_order_ok_def order_loop_iff)

lemma order_key_lex:
  assumes "0 \<le> m_t r" "m_t r \<le> S" "0 \<le> m_t s" "m_t s \<le> S"
  shows "order_key S r < order_key S s \<longleftrightarrow> (m_e r, m_t r) < (m_e s, m_t s)"
proof -
  have le: "order_key S r < order_key S s" if "m_e r < m_e s" "m_t r \<le> S" "0 \<le> m_t s" "0 \<le> S" for r s :: moe_record
  proof -
    have "(m_e r + 1) * (S + 1) \<le> m_e s * (S + 1)" using that by (intro mult_right_mono) auto
    then show ?thesis using that by (simp add: order_key_def algebra_simps)
  qed
  have S: "0 \<le> S" using assms by linarith
  consider "m_e r < m_e s" | "m_e r = m_e s" | "m_e s < m_e r" by linarith
  then show ?thesis
  proof cases
    case 1
    then show ?thesis using le [of r s] assms S by (simp add: less_prod_def)
  next
    case 2
    then show ?thesis by (simp add: order_key_def less_prod_def)
  next
    case 3
    then show ?thesis using le [of s r] assms S by (auto simp: less_prod_def)
  qed
qed

text \<open>
  Fact (\<open>order_canonical\<close>): if the sorted list is a rearrangement of the source records and
  passes the order check, then in every lane it is exactly the stable sort of the source: the
  prover has no freedom in the permutation.
\<close>

theorem order_canonical:
  assumes ok: "strict_order_ok dst S" and perm: "mset dst = mset src"
    and t: "\<forall>r \<in> set src. 0 \<le> m_t r \<and> m_t r \<le> S"
  shows "lane_list lane dst = lane_list lane (stable_sorted_records src)"
proof -
  have mem: "set dst = set src" using perm by (metis mset_eq_setD)
  let ?d = "lane_list lane dst"
  have strict: "sorted_wrt (\<lambda>r s. order_key S r < order_key S s) ?d"
    using ok unfolding strict_order_iff sorted_wrt_map by blast
  have key: "sorted_wrt (\<lambda>r s. rec_key r < rec_key s) ?d"
  proof (rule sorted_wrt_mono_rel [OF _ strict])
    fix r s assume "r \<in> set ?d" "s \<in> set ?d" "order_key S r < order_key S s"
    then show "rec_key r < rec_key s"
      using t mem order_key_lex [of r S s] by (auto simp: lane_list_def lane_of_def rec_key_def less_prod_def)
  qed
  then have "sorted_wrt (<) (map rec_key ?d)" unfolding sorted_wrt_map .
  then have "sorted (map rec_key ?d)" "distinct (map rec_key ?d)" unfolding strict_sorted_iff by simp_all
  then have "sorted (map rec_key ?d)" "inj_on rec_key (set ?d)" by (simp_all add: distinct_map)
  moreover have "mset (lane_list lane src) = mset ?d" using perm by (simp add: lane_list_def mset_filter)
  moreover from this have "set (lane_list lane src) = set ?d" by (metis mset_eq_setD)
  ultimately have "sort_key rec_key (lane_list lane src) = ?d" by (intro sort_key_inj_key_eq) simp_all
  then show ?thesis by (simp add: stable_sorted_records_def lane_list_def filter_sort)
qed

theorem order_canonical_witness:
  "lane_list (0, 0) [toy_rec 1 0 5, toy_rec 0 2 7] = lane_list (0, 0) (stable_sorted_records [toy_rec 0 2 7, toy_rec 1 0 5])"
  by (rule order_canonical [of _ 1])
    (auto simp: strict_order_ok_def order_key_def lane_of_def toy_rec_def)

section \<open>Per-expert sums and the payoff identity\<close>

definition routed :: "nat \<Rightarrow> int \<Rightarrow> nat \<Rightarrow> bool" where
  "routed E e k \<longleftrightarrow> py_pos E e = Inr k"

definition rows_ok :: "int list list \<Rightarrow> nat \<Rightarrow> nat \<Rightarrow> bool" where
  "rows_ok A E d \<longleftrightarrow> length A = E \<and> (\<forall>r \<in> set A. length r = d \<and> canonical r)"

lemma rows_okD: "rows_ok A E d \<Longrightarrow> e < E \<Longrightarrow> length (A ! e) = d \<and> canonical (A ! e)"
  by (simp add: rows_ok_def)

lemma seg_step_sum:
  assumes s: "seg_step X tau d A t e = Inr B" and ok: "rows_ok A E d"
  shows "rows_ok B E d \<and> (0 < d \<longrightarrow> (\<exists>k < E. routed E e k)) \<and> (\<forall>k < E. \<forall>j < d. (of_int (B ! k ! j) :: gl) = of_int (A ! k ! j) +
    (if routed E e k then of_int (tau ! t) * of_int (X ! t ! j) else 0))"
proof (cases "d = 0")
  case True
  then show ?thesis using s ok by (simp add: seg_step_def)
next
  case False
  obtain k where k: "py_pos (length A) e = Inr k" "k < length A"
    "B = A[k := map (\<lambda>j. (A ! k ! j + tau ! t * X ! t ! j) mod FIELD_P) [0..<d]]"
    using s False by (auto simp: seg_step_def rbind_Inr_iff py_pos_less split: if_splits)
  have "rows_ok B E d" using ok k unfolding rows_ok_def
    by (auto simp: canonical_def dest!: set_update_subset_insert [THEN subsetD])
  moreover have "routed E e k' \<longleftrightarrow> k' = k" for k' using k(1) ok by (auto simp: routed_def rows_ok_def)
  ultimately show ?thesis using k ok by (auto simp: rows_ok_def nth_list_update)
qed

lemma seg_loop_sum:
  "seg_loop X tau d A t es = Inr B \<Longrightarrow> rows_ok A E d \<Longrightarrow>
   rows_ok B E d \<and> (\<forall>k < E. \<forall>j < d. (of_int (B ! k ! j) :: gl) = of_int (A ! k ! j) +
     (\<Sum>i<length es. if routed E (es ! i) k then of_int (tau ! (t + i)) * of_int (X ! (t + i) ! j) else 0))"
proof (induction es arbitrary: A t)
  case Nil
  then show ?case by simp
next
  case (Cons e es)
  obtain A' where a: "seg_step X tau d A t e = Inr A'" "seg_loop X tau d A' (Suc t) es = Inr B"
    using Cons.prems(1) by (auto simp: rbind_Inr_iff)
  note s = seg_step_sum [OF a(1) Cons.prems(2)]
  have IH: "rows_ok B E d" "\<And>k j. k < E \<Longrightarrow> j < d \<Longrightarrow> (of_int (B ! k ! j) :: gl) = of_int (A' ! k ! j) +
     (\<Sum>i<length es. if routed E (es ! i) k then of_int (tau ! (Suc t + i)) * of_int (X ! (Suc t + i) ! j) else 0)"
    using Cons.IH [OF a(2)] s by blast+
  then show ?case using s by (auto simp: sum.lessThan_Suc_shift simp del: sum.lessThan_Suc cong: if_cong)
qed

lemma segment_sums_gl:
  assumes "segment_sums route X tau E = Inr B" and k: "k < E" and j: "j < length (X ! 0)"
  shows "(of_int (B ! k ! j) :: gl) = (\<Sum>t<length route. if routed E (route ! t) k then of_int (tau ! t) * of_int (X ! t ! j) else 0)"
    and "0 \<le> B ! k ! j \<and> B ! k ! j < FIELD_P"
proof -
  let ?d = "length (X ! 0)"
  have "rows_ok (replicate E (replicate ?d 0)) E ?d" by (auto simp: rows_ok_def canonical_def FIELD_P_val)
  moreover have "seg_loop X tau ?d (replicate E (replicate ?d 0)) 0 route = Inr B"
    using assms(1) by (simp add: segment_sums_def Let_def split: if_splits)
  ultimately have B: "rows_ok B E ?d" "(of_int (B ! k ! j) :: gl) = of_int (replicate E (replicate ?d 0) ! k ! j) +
     (\<Sum>i<length route. if routed E (route ! i) k then of_int (tau ! (0 + i)) * of_int (X ! (0 + i) ! j) else 0)"
    using seg_loop_sum k j by blast+
  then show "(of_int (B ! k ! j) :: gl) = (\<Sum>t<length route. if routed E (route ! t) k then of_int (tau ! t) * of_int (X ! t ! j) else 0)"
    using k j by (simp cong: if_cong)
  show "0 \<le> B ! k ! j \<and> B ! k ! j < FIELD_P" using rows_okD [OF B(1) k] j by (auto simp: canonical_nth)
qed

lemma gl_double_foldl:
  "(of_int (foldl (\<lambda>acc t. foldl (\<lambda>acc i. (acc + f t i) mod FIELD_P) acc [0..<m]) 0 [0..<n]) :: gl)
     = (\<Sum>t<n. \<Sum>i<m. of_int (f t i))"
  by (subst foldl_acc_sum, rule foldl_acc_sum, simp) (simp add: sum_list_map_upt)

lemma foldl_mod_range: "0 \<le> a \<and> a < FIELD_P \<Longrightarrow>
    0 \<le> foldl (\<lambda>acc t. foldl (\<lambda>acc i. (acc + f t i) mod FIELD_P) acc (g t)) a ts \<and>
    foldl (\<lambda>acc t. foldl (\<lambda>acc i. (acc + f t i) mod FIELD_P) acc (g t)) a ts < FIELD_P"
  by (rule foldl_invariant, assumption, rule foldl_invariant) auto

lemma routed_index: "py_index W e = Inr We \<Longrightarrow> \<exists>k < length W. routed (length W) e k \<and> W ! k = We"
  by (auto simp: py_index_def routed_def rbind_Inr_iff py_pos_less)

lemma gl_sel_entry:
  assumes "sel_entry route X W d t i = Inr y"
  shows "(of_int y :: gl) = (\<Sum>k<length W. if routed (length W) (route ! t) k
    then (\<Sum>j<d. of_int (X ! t ! j) * of_int (W ! k ! j ! i)) else 0)"
proof (cases "d = 0")
  case True
  then show ?thesis using assms by (auto simp: sel_entry_def cong: if_cong)
next
  case False
  obtain We where We: "py_index W (route ! t) = Inr We" "y = sum_list (map (\<lambda>j. X ! t ! j * We ! j ! i) [0..<d]) mod FIELD_P"
    using assms False by (auto simp: sel_entry_def rbind_Inr_iff split: if_splits)
  obtain k where k: "k < length W" "routed (length W) (route ! t) k" "W ! k = We" using routed_index [OF We(1)] by blast
  have "routed (length W) (route ! t) k' \<longleftrightarrow> k' = k" for k' using k(2) by (auto simp: routed_def)
  then show ?thesis using k We(2) by (simp add: gl_sum_list sum_list_map_upt comp_def)
qed

text \<open>
  Property C30 (\<open>moe_identity\<close>): whenever \<open>moe_identity_sides\<close> returns, for any route (negative indices,
  one expert for every token and unused experts included), its two sides are equal: the selected
  matrix product and the per-expert sums give the same weighted total.
\<close>

theorem moe_identity:
  assumes r: "moe_identity_sides route X W tau rho = Inr (lhs, rhs)"
  shows "lhs = rhs"
proof -
  let ?E = "length W" and ?d = "length (X ! 0)" and ?n = "length route" and ?m = "length (W ! 0 ! 0)"
  obtain Y A Pp where s: "selected_matmul route X W = Inr Y" "segment_sums route X tau ?E = Inr A" "project_experts W rho = Inr Pp"
    "?d \<le> length (W ! 0)"
    and l: "lhs = foldl (\<lambda>acc t. foldl (\<lambda>acc i. (acc + tau ! t * rho ! i * Y ! t ! i) mod FIELD_P) acc [0..<length (Y ! 0)]) 0 [0..<?n]"
    and rh: "rhs = foldl (\<lambda>acc e. foldl (\<lambda>acc j. (acc + A ! e ! j * Pp ! e ! j) mod FIELD_P) acc [0..<?d]) 0 [0..<?E]"
    using r by (auto simp: moe_identity_sides_def rbind_Inr_iff Let_def not_less split: if_splits)
  have Y: "length Y = ?n \<and> (\<forall>t < ?n. length (Y ! t) = ?m \<and> (\<forall>i < ?m. sel_entry route X W ?d t i = Inr (Y ! t ! i)))"
  proof -
    have "rmap (\<lambda>t. rmap (\<lambda>i. sel_entry route X W ?d t i) [0..<?m]) [0..<?n] = Inr Y"
      using s(1) by (simp add: selected_matmul_def Let_def split: if_splits)
    from rmap_InrD [OF this] show ?thesis using rmap_InrD by fastforce
  qed
  have P: "(of_int (Pp ! e ! j) :: gl) = (\<Sum>i<?m. of_int (rho ! i) * of_int (W ! e ! j ! i))" if "e < ?E" "j < ?d" for e j
    using s(3,4) that by (auto simp: project_experts_def Let_def gl_sum_list sum_list_map_upt comp_def split: if_splits)
  have "(of_int lhs :: gl) = (\<Sum>t<?n. \<Sum>i<?m. of_int (tau ! t) * of_int (rho ! i) *
      (\<Sum>k<?E. if routed ?E (route ! t) k then (\<Sum>j<?d. of_int (X ! t ! j) * of_int (W ! k ! j ! i)) else 0))"
  proof (cases "?n = 0")
    case False
    then have "length (Y ! 0) = ?m" using Y by blast
    then show ?thesis unfolding l gl_double_foldl using Y gl_sel_entry [of route X W ?d] by (intro sum.cong) simp_all
  qed (simp add: l)
  also have "\<dots> = (\<Sum>t<?n. \<Sum>i<?m. \<Sum>k<?E. \<Sum>j<?d. if routed ?E (route ! t) k
      then of_int (tau ! t) * of_int (rho ! i) * (of_int (X ! t ! j) * of_int (W ! k ! j ! i)) else 0)"
    by (intro sum.cong refl) (simp add: sum_distrib_left if_distrib cong: if_cong, intro sum.cong refl, simp)
  also have "\<dots> = (\<Sum>k<?E. \<Sum>j<?d. \<Sum>t<?n. \<Sum>i<?m. if routed ?E (route ! t) k
      then of_int (tau ! t) * of_int (rho ! i) * (of_int (X ! t ! j) * of_int (W ! k ! j ! i)) else 0)"
  proof -
    have "(\<Sum>t<?n. \<Sum>i<?m. \<Sum>k<?E. \<Sum>j<?d. g t i k j) = (\<Sum>k<?E. \<Sum>j<?d. \<Sum>t<?n. \<Sum>i<?m. g t i k j)"
      for g :: "nat \<Rightarrow> nat \<Rightarrow> nat \<Rightarrow> nat \<Rightarrow> gl"
    proof -
      have "(\<Sum>t<?n. \<Sum>i<?m. \<Sum>k<?E. \<Sum>j<?d. g t i k j) = (\<Sum>t<?n. \<Sum>k<?E. \<Sum>i<?m. \<Sum>j<?d. g t i k j)"
        by (intro sum.cong refl sum.swap)
      also have "\<dots> = (\<Sum>k<?E. \<Sum>t<?n. \<Sum>i<?m. \<Sum>j<?d. g t i k j)" by (rule sum.swap)
      also have "\<dots> = (\<Sum>k<?E. \<Sum>t<?n. \<Sum>j<?d. \<Sum>i<?m. g t i k j)" by (intro sum.cong refl sum.swap)
      also have "\<dots> = (\<Sum>k<?E. \<Sum>j<?d. \<Sum>t<?n. \<Sum>i<?m. g t i k j)" by (intro sum.cong refl sum.swap)
      finally show ?thesis .
    qed
    then show ?thesis .
  qed
  also have "\<dots> = (\<Sum>k<?E. \<Sum>j<?d. of_int (A ! k ! j) * of_int (Pp ! k ! j))"
  proof (intro sum.cong refl)
    fix k j assume k: "k \<in> {..<?E}" and j: "j \<in> {..<?d}"
    have "(of_int (A ! k ! j) * of_int (Pp ! k ! j) :: gl) = (\<Sum>t<?n. (if routed ?E (route ! t) k then of_int (tau ! t) * of_int (X ! t ! j) else 0) *
        (\<Sum>i<?m. of_int (rho ! i) * of_int (W ! k ! j ! i)))"
      using segment_sums_gl(1) [OF s(2)] P k j by (simp add: sum_distrib_right)
    also have "\<dots> = (\<Sum>t<?n. \<Sum>i<?m. if routed ?E (route ! t) k
      then of_int (tau ! t) * of_int (rho ! i) * (of_int (X ! t ! j) * of_int (W ! k ! j ! i)) else 0)"
      by (intro sum.cong refl) (simp add: sum_distrib_left mult_ac)
    finally show "(\<Sum>t<?n. \<Sum>i<?m. if routed ?E (route ! t) k
      then of_int (tau ! t) * of_int (rho ! i) * (of_int (X ! t ! j) * of_int (W ! k ! j ! i)) else 0) =
      (of_int (A ! k ! j) * of_int (Pp ! k ! j) :: gl)" by simp
  qed
  also have "\<dots> = of_int rhs" unfolding rh gl_double_foldl by simp
  finally have eq: "(of_int lhs :: gl) = of_int rhs" .
  have "0 \<le> lhs \<and> lhs < FIELD_P" unfolding l by (rule foldl_mod_range) (simp add: FIELD_P_val)
  moreover have "0 \<le> rhs \<and> rhs < FIELD_P" unfolding rh by (rule foldl_mod_range) (simp add: FIELD_P_val)
  ultimately show ?thesis using eq by (auto intro: gl_inj_canonical)
qed

theorem moe_identity_witness:
  "\<exists>l r. moe_identity_sides [1, -1, 0] [[2], [3], [4]] [[[5]], [[6]]] [1, 2, 3] [7] = Inr (l, r) \<and> l = r \<and> l = 756"
proof -
  obtain l r where lr: "moe_identity_sides [1, -1, 0] [[2], [3], [4]] [[[5]], [[6]]] [1, 2, 3] [7] = Inr (l, r)" "l = 756"
    by (simp add: moe_identity_sides_def selected_matmul_def sel_entry_def segment_sums_def seg_step_def project_experts_def
        py_index_def py_pos_def upt_rec FIELD_P_val)
  then show ?thesis using moe_identity [OF lr(1)] by simp
qed

end
