(* ===== verification/Layer.thy ===== *)
theory Layer
  imports LogUp
begin

text \<open>
  One dense layer and a chain of layers, \<^verbatim>\<open>layergkr/layer.py\<close>: the layer's computation and its two
  commitments, the prover in schedule order (both projections, the contraction sumcheck, the
  column openings), the verifier, and the composition of layers by root equality.
\<close>

section \<open>Data\<close>

definition DENSE_LAYER_SCHEDULE :: "sched_step list" where
  "DENSE_LAYER_SCHEDULE =
     [(''absorb'', ''R_in''), (''absorb'', ''R_out''), (''coin'', ''rho''), (''absorb'', ''R_P''), (''coin'', ''tau''), (''absorb'', ''R_A''),
      (''coin'', ''sumcheck''), (''absorb'', ''R_terminal''), (''coin'', ''columns'')]"

definition next_pow2 :: "nat \<Rightarrow> nat" where
  "next_pow2 n = pow2_from 1 n"

definition pad_to :: "int list \<Rightarrow> nat \<Rightarrow> int list" where
  "pad_to vec width = map (\<lambda>j. if j < length vec then vec ! j else 0) [0..<width]"

record layer_proof =
  lp_in_root :: bytes
  lp_out_root :: bytes
  lp_p_root :: bytes
  lp_a_root :: bytes
  lp_rho :: "int list"
  lp_tau :: "int list"
  lp_w_opening :: projection_opening
  lp_a_opening :: projection_opening
  lp_sumcheck :: sc_proof
  lp_columns :: "nat list"
  p_message :: "int list"
  a_message :: "int list"
  p_blocks :: "int list list"
  a_blocks :: "int list list"

record layer =
  l_cfg :: config
  l_weights :: persistent_weights
  l_X :: "int list list"
  l_Y :: "int list list"
  l_in_state :: "persistent_weights option"
  l_out_commit :: "commit option"

section \<open>The layer's computation\<close>

text \<open>One output entry reads the first row block of the weights; a row shorter than \<open>n_in\<close> is an
  \<open>IndexError\<close>.\<close>

definition dense_entry :: "int list list \<Rightarrow> int list list \<Rightarrow> nat \<Rightarrow> nat \<Rightarrow> nat \<Rightarrow> int result" where
  "dense_entry X W nin t i =
     rbind (rmap (\<lambda>j. if j < length (X ! t) \<and> i < length W \<and> j < length (W ! i) then Inr (X ! t ! j * W ! i ! j) else Inl IndexError) [0..<nin])
       (\<lambda>ps. Inr (sum_list ps mod FIELD_P))"

definition layer_compute :: "hashfn \<Rightarrow> layer \<Rightarrow> layer result" where
  "layer_compute H l =
     (let nin = n_in (l_weights l); nout = n_out (l_weights l); W = messages (l_weights l) in
      rbind (rmap (\<lambda>t. rmap (\<lambda>i. dense_entry (l_X l) W nin t i) [0..<nout]) [0..<length (l_X l)]) (\<lambda>Y.
      rbind (enroll H (l_cfg l) (l_X l) None) (\<lambda>ins.
      rbind (from_messages H (l_cfg l) Y) (\<lambda>oc.
        Inr (l\<lparr>l_Y := Y, l_in_state := Some ins, l_out_commit := Some oc\<rparr>)))))"

section \<open>The prover\<close>

definition weighted_output :: "int list \<Rightarrow> int list \<Rightarrow> int list list \<Rightarrow> nat \<Rightarrow> nat \<Rightarrow> int" where
  "weighted_output tau rho Y S nout =
     foldl (\<lambda>acc t. foldl (\<lambda>acc i. (acc + tau ! t * rho ! i * Y ! t ! i) mod FIELD_P) acc [0..<nout]) 0 [0..<S]"

text \<open>The transcript part of \<open>prove_layer\<close>, on a computed layer.\<close>

definition prove_computed :: "hashfn \<Rightarrow> layer \<Rightarrow> persistent_weights \<Rightarrow> commit \<Rightarrow> transcript \<Rightarrow> nat \<Rightarrow> (layer_proof \<times> transcript) result" where
  "prove_computed H l ins oc tr q_columns =
     rbind (absorb tr ''R_in'' (c_root (pw_commit ins))) (\<lambda>tr1.
     rbind (absorb tr1 ''R_out'' (c_root oc)) (\<lambda>tr2.
     rbind (coin H tr2 ''rho'' (n_out (l_weights l))) (\<lambda>(rho, tr3).
     rbind (commit_projection H (l_weights l) rho) (\<lambda>pc.
     rbind (absorb tr3 ''R_P'' (c_root pc)) (\<lambda>tr4.
     rbind (coin H tr4 ''tau'' (length (l_X l))) (\<lambda>(tau, tr5).
     rbind (commit_projection H ins tau) (\<lambda>ac.
     rbind (absorb tr5 ''R_A'' (c_root ac)) (\<lambda>tr6.
     rbind (project_message (l_weights l) rho) (\<lambda>p_blk.
     rbind (project_message ins tau) (\<lambda>a_blk.
     let nin = n_in (l_weights l); width = next_pow2 nin;
         p_msg = flatten_projection (l_weights l) p_blk; a_msg = flatten_projection ins a_blk
     in
     rbind (coin H tr6 ''sumcheck'' (max (bit_length width - 1) 1)) (\<lambda>(coins, tr7).
     rbind (prove H [pad_to (take nin a_msg) width, pad_to (take nin p_msg) width] (list_coin coins) None 0) (\<lambda>pf.
     if sc_claim pf \<noteq> weighted_output tau rho (l_Y l) (length (l_X l)) (n_out (l_weights l)) then Inl AssertionError
     else
     rbind (absorb tr7 ''R_terminal'' (replicate 32 0)) (\<lambda>tr8.
     rbind (coin_bytes H tr8 ''columns'') (\<lambda>(col_seed, tr9).
     rbind (sample_columns H col_seed q_columns (N_LIG (l_cfg l))) (\<lambda>cols.
     rbind (open_projection (l_weights l) pc cols) (\<lambda>wo.
     rbind (open_projection ins ac cols) (\<lambda>ao.
       Inr (\<lparr>lp_in_root = c_root (pw_commit ins), lp_out_root = c_root oc, lp_p_root = c_root pc, lp_a_root = c_root ac,
             lp_rho = rho, lp_tau = tau, lp_w_opening = wo, lp_a_opening = ao, lp_sumcheck = pf, lp_columns = cols,
             p_message = p_msg, a_message = a_msg, p_blocks = p_blk, a_blocks = a_blk\<rparr>, tr9))))))))))))))))))"

definition prove_layer :: "hashfn \<Rightarrow> layer \<Rightarrow> transcript \<Rightarrow> nat \<Rightarrow> (layer_proof \<times> layer \<times> transcript) result" where
  "prove_layer H l0 tr q_columns =
     rbind (if l_out_commit l0 = None then layer_compute H l0 else Inr l0) (\<lambda>l.
       case (l_in_state l, l_out_commit l) of
         (Some ins, Some oc) \<Rightarrow> rbind (prove_computed H l ins oc tr q_columns) (\<lambda>(pf, tr'). Inr (pf, l, tr'))
       | _ \<Rightarrow> Inl AttributeError)"

text \<open>Each layer of a chain gets its own transcript, under the layer's schedule.\<close>

fun prove_chain_from :: "hashfn \<Rightarrow> nat \<Rightarrow> layer list \<Rightarrow> nat \<Rightarrow> bytes \<Rightarrow> layer_proof list result" where
  "prove_chain_from H k [] q domain = Inr []"
| "prove_chain_from H k (l # ls) q domain =
     rbind (prove_layer H l (new_transcript (domain @ encode (''/'' @ dec_str k)) (Some (new_schedule DENSE_LAYER_SCHEDULE))) q) (\<lambda>(pf, _, _).
     rbind (prove_chain_from H (Suc k) ls q domain) (\<lambda>pfs. Inr (pf # pfs)))"

definition prove_chain :: "hashfn \<Rightarrow> layer list \<Rightarrow> nat \<Rightarrow> bytes \<Rightarrow> layer_proof list result" where
  "prove_chain H layers q_columns domain = prove_chain_from H 0 layers q_columns domain"

section \<open>The verifier\<close>

fun bind_cols :: "int list \<Rightarrow> projection_opening \<Rightarrow> nat \<Rightarrow> nat list \<Rightarrow> bool result" where
  "bind_cols re o1 b [] = Inr True"
| "bind_cols re o1 b (k # ks) =
     (let c = po_columns o1 ! k in
      if c < length re \<and> k < length (p_values o1) \<and> b < length (p_values o1 ! k)
      then if re ! c \<noteq> p_values o1 ! k ! b then Inr False else bind_cols re o1 b ks
      else Inl IndexError)"

fun bind_blocks :: "config \<Rightarrow> int list list \<Rightarrow> projection_opening \<Rightarrow> nat list \<Rightarrow> bool result" where
  "bind_blocks cfg msgs o1 [] = Inr True"
| "bind_blocks cfg msgs o1 (b # bs) =
     rbind (encode_row cfg (msgs ! b)) (\<lambda>re.
     rbind (bind_cols re o1 b [0..<length (po_columns o1)]) (\<lambda>ok.
       if \<not> ok then Inr False else bind_blocks cfg msgs o1 bs))"

definition bind_small_vector :: "config \<Rightarrow> int list list \<Rightarrow> projection_opening \<Rightarrow> bool result" where
  "bind_small_vector cfg blocks_msg o1 =
     (let nb = (if p_values o1 \<noteq> [] then length (p_values o1 ! 0) else 1) in
      if length blocks_msg \<noteq> nb then Inr False else bind_blocks cfg blocks_msg o1 [0..<nb])"

text \<open>The verifier's checks run in order and stop at the first that fails.\<close>

fun run_checks :: "(unit \<Rightarrow> bool result) list \<Rightarrow> bool result" where
  "run_checks [] = Inr True"
| "run_checks (c # cs) = rbind (c ()) (\<lambda>ok. if \<not> ok then Inr False else run_checks cs)"

definition verify_layer :: "hashfn \<Rightarrow> config \<Rightarrow> bytes \<Rightarrow> layer_proof \<Rightarrow> nat \<Rightarrow> bool result" where
  "verify_layer H cfg w_root pf nin =
     run_checks
       [\<lambda>_. verify_projection H cfg w_root (lp_p_root pf) (lp_rho pf) (lp_w_opening pf),
        \<lambda>_. verify_projection H cfg (lp_in_root pf) (lp_a_root pf) (lp_tau pf) (lp_a_opening pf),
        \<lambda>_. bind_small_vector cfg (p_blocks pf) (lp_w_opening pf),
        \<lambda>_. bind_small_vector cfg (a_blocks pf) (lp_a_opening pf),
        \<lambda>_. let width = next_pow2 nin in
            verify_prod H (lp_sumcheck pf)
              [pad_to (take nin (a_message pf)) width, pad_to (take nin (p_message pf)) width] (own_coins (lp_sumcheck pf))]"

fun verify_chain_from :: "hashfn \<Rightarrow> config \<Rightarrow> bytes list \<Rightarrow> layer_proof list \<Rightarrow> nat list \<Rightarrow> nat list \<Rightarrow> bool result" where
  "verify_chain_from H cfg w_roots pfs n_ins [] = Inr True"
| "verify_chain_from H cfg w_roots pfs n_ins (k # ks) =
     (if k < length w_roots \<and> k < length n_ins
      then rbind (verify_layer H cfg (w_roots ! k) (pfs ! k) (n_ins ! k)) (\<lambda>ok.
             if \<not> ok then Inr False
             else if k > 0 \<and> lp_in_root (pfs ! k) \<noteq> lp_out_root (pfs ! (k - 1)) then Inr False
             else verify_chain_from H cfg w_roots pfs n_ins ks)
      else Inl IndexError)"

definition verify_chain :: "hashfn \<Rightarrow> config \<Rightarrow> bytes list \<Rightarrow> layer_proof list \<Rightarrow> nat list \<Rightarrow> bool result" where
  "verify_chain H cfg w_roots pfs n_ins = verify_chain_from H cfg w_roots pfs n_ins [0..<length pfs]"

lemma run_checks_True: "run_checks cs = Inr True \<longleftrightarrow> (\<forall>c \<in> set cs. c () = Inr True)"
  by (induction cs) (auto simp: rbind_Inr_iff split: if_splits)

lemma verify_layer_iff:
  "verify_layer H cfg w_root pf nin = Inr True \<longleftrightarrow>
     verify_projection H cfg w_root (lp_p_root pf) (lp_rho pf) (lp_w_opening pf) = Inr True \<and>
     verify_projection H cfg (lp_in_root pf) (lp_a_root pf) (lp_tau pf) (lp_a_opening pf) = Inr True \<and>
     bind_small_vector cfg (p_blocks pf) (lp_w_opening pf) = Inr True \<and>
     bind_small_vector cfg (a_blocks pf) (lp_a_opening pf) = Inr True \<and>
     verify_prod H (lp_sumcheck pf) [pad_to (take nin (a_message pf)) (next_pow2 nin), pad_to (take nin (p_message pf)) (next_pow2 nin)]
       (own_coins (lp_sumcheck pf)) = Inr True"
  unfolding verify_layer_def run_checks_True list.set Let_def ball_simps by blast
section \<open>What the verifier does not bind\<close>

lemma length_pad_to [simp]: "length (pad_to v w) = w"
  by (simp add: pad_to_def)

lemma honest_pair:
  "\<exists>pf. prove H [pad_to a (2 ^ length cs), pad_to p (2 ^ length cs)] (list_coin cs) None 0 = Inr pf \<and>
     verify_prod H pf [pad_to a (2 ^ length cs), pad_to p (2 ^ length cs)] (own_coins pf) = Inr True \<and>
     (of_int (sc_claim pf) :: gl) = (\<Sum>i<2 ^ length cs. of_int (pad_to a (2 ^ length cs) ! i) * of_int (pad_to p (2 ^ length cs) ! i)) \<and>
     0 \<le> sc_claim pf \<and> sc_claim pf < FIELD_P" if "canonical cs"
proof -
  let ?fs = "[pad_to a (2 ^ length cs), pad_to p (2 ^ length cs)]"
  have "?fs \<noteq> []" "\<forall>f \<in> set ?fs. length f = 2 ^ length cs" "length ?fs < 2 ^ 32" by simp_all
  from honest_prove [OF this that, of H] show ?thesis by (elim exE conjE) (rule exI, simp)
qed

text \<open>
  Property C32 (\<open>layer_output_unbound\<close>): the verifier never compares the output root with anything, and
  never compares the two vectors of the sumcheck with the projections it has bound. From any
  accepted layer proof, for every output root and every pair of vectors there is an accepted
  proof with that root and those vectors; so any two accepted layers can be spliced into an
  accepted chain.
\<close>

theorem layer_output_unbound:
  assumes acc: "verify_layer H cfg w_root pf nin = Inr True" and acc2: "verify_layer H cfg w_root2 pf2 nin2 = Inr True"
  shows "(\<exists>sc. verify_layer H cfg w_root (pf\<lparr>lp_out_root := r, a_message := am, p_message := pm, lp_sumcheck := sc\<rparr>) nin = Inr True) \<and>
      verify_chain H cfg [w_root, w_root2] [pf\<lparr>lp_out_root := lp_in_root pf2\<rparr>, pf2] [nin, nin2] = Inr True"
proof (rule conjI)
  obtain k where k: "next_pow2 nin = 2 ^ k" unfolding next_pow2_def using pow2_from_1_pow2 by blast
  have "canonical (replicate k 0)" by (simp add: canonical_def FIELD_P_val)
  then obtain sc where "verify_prod H sc [pad_to (take nin am) (2 ^ k), pad_to (take nin pm) (2 ^ k)] (own_coins sc) = Inr True"
    using honest_pair [of "replicate k 0" H "take nin am" "take nin pm"] by auto
  then show "\<exists>sc. verify_layer H cfg w_root (pf\<lparr>lp_out_root := r, a_message := am, p_message := pm, lp_sumcheck := sc\<rparr>) nin = Inr True"
    using acc k by (intro exI [of _ sc]) (simp add: verify_layer_iff)
next
  show "verify_chain H cfg [w_root, w_root2] [pf\<lparr>lp_out_root := lp_in_root pf2\<rparr>, pf2] [nin, nin2] = Inr True"
  proof -
    have "verify_layer H cfg w_root (pf\<lparr>lp_out_root := lp_in_root pf2\<rparr>) nin = Inr True" using acc by (simp add: verify_layer_iff)
    then show ?thesis using acc2 by (simp add: verify_chain_def upt_rec)
  qed
qed

section \<open>Weights of more than one block\<close>

lemma rmap_same_error:
  assumes "\<forall>x \<in> set xs. f x = Inl e \<or> (\<exists>y. f x = Inr y)" "\<exists>x \<in> set xs. f x = Inl e"
  shows "rmap f xs = Inl e"
  using assms
proof (induction xs)
  case (Cons a xs)
  then show ?case by (cases "f a") auto
qed simp

text \<open>
  Fact (\<open>layer_compute_multiblock\<close>): \<open>Layer.compute\<close> indexes the enrolled rows by input
  coordinate, but a row holds one block of \<open>ELL\<close> coordinates: with more inputs than \<open>ELL\<close> the
  computation raises an index error.
\<close>

theorem layer_compute_multiblock:
  assumes pw: "enroll H0 cfg W padding = Inr (l_weights l)" and v: "valid_config cfg"
    and rows: "list_all (\<lambda>r. length r = length (W ! 0)) W" and wide: "ELL cfg < length (W ! 0)" and X: "l_X l \<noteq> []"
  shows "layer_compute H l = Inl IndexError"
proof -
  let ?pw = "l_weights l" and ?W = "messages (l_weights l)"
  have ok: "pw_ok H0 ?pw" "pw_cfg ?pw = cfg" "n_out ?pw = length W" "n_in ?pw = length (W ! 0)" using enroll_ok [OF v rows pw] by simp_all
  have W: "W \<noteq> []" using pw by (auto simp: enroll_def)
  have entry: "dense_entry (l_X l) ?W (n_in ?pw) t i = Inl IndexError" for t i
  proof -
    have "\<not> (i < length ?W \<and> ELL cfg < length (?W ! i))" using ok(1,2) by (auto simp: pw_ok_def list_all_length)
    then have "rmap (\<lambda>j. if j < length (l_X l ! t) \<and> i < length ?W \<and> j < length (?W ! i) then Inr (l_X l ! t ! j * ?W ! i ! j) else Inl IndexError)
        [0..<n_in ?pw] = Inl IndexError"
      using wide ok(4) by (intro rmap_same_error) (auto intro!: bexI [of _ "ELL cfg"])
    then show ?thesis by (simp add: dense_entry_def)
  qed
  have row: "rmap (\<lambda>i. dense_entry (l_X l) ?W (n_in ?pw) t i) [0..<n_out ?pw] = Inl IndexError" for t
    using W ok(3) by (intro rmap_same_error) (auto simp: entry intro!: bexI [of _ 0])
  have "rmap (\<lambda>t. rmap (\<lambda>i. dense_entry (l_X l) ?W (n_in ?pw) t i) [0..<n_out ?pw]) [0..<length (l_X l)] = Inl IndexError"
    using X by (intro rmap_same_error) (auto simp: row intro!: bexI [of _ 0])
  then show ?thesis by (simp add: layer_compute_def)
qed

theorem layer_compute_multiblock_witness:
  "\<exists>pw. enroll toy_hash cfg_toy [[1, 2, 3], [4, 5, 6]] None = Inr pw \<and>
     layer_compute toy_hash \<lparr>l_cfg = cfg_toy, l_weights = pw, l_X = [[1, 1, 1]], l_Y = [], l_in_state = None, l_out_commit = None\<rparr> = Inl IndexError"
proof -
  obtain pw where pw: "enroll toy_hash cfg_toy [[1, 2, 3], [4, 5, 6]] None = Inr pw" using toy_enroll by blast
  have e2: "ELL cfg_toy = 2" by (simp add: cfg_toy_def)
  have "layer_compute toy_hash \<lparr>l_cfg = cfg_toy, l_weights = pw, l_X = [[1, 1, 1]], l_Y = [], l_in_state = None, l_out_commit = None\<rparr> = Inl IndexError"
    by (rule layer_compute_multiblock [OF _ valid_cfg_toy, of toy_hash "[[1, 2, 3], [4, 5, 6]]" None]) (simp_all add: pw e2)
  then show ?thesis using pw by blast
qed

section \<open>Honest layers\<close>

text \<open>The transcript has no schedule, or its schedule still expects exactly these steps.\<close>

definition expects :: "transcript \<Rightarrow> sched_step list \<Rightarrow> bool" where
  "expects tr ss \<longleftrightarrow> (case tschedule tr of None \<Rightarrow> True | Some s \<Rightarrow> drop (pos s) (steps s) = ss)"

lemma expects_check:
  assumes "expects tr ((kind, label) # ss)"
  shows "\<exists>tr'. t_check tr kind label = Inr tr' \<and> expects tr' ss \<and> hashed tr' = hashed tr"
proof (cases "tschedule tr")
  case (Some s)
  then have d: "drop (pos s) (steps s) = (kind, label) # ss" using assms by (simp add: expects_def)
  have "pos s < length (steps s)" using d by (metis drop_all linorder_not_less list.discI)
  moreover from this have "steps s ! pos s = (kind, label)" "drop (Suc (pos s)) (steps s) = ss"
    using d Cons_nth_drop_Suc [of "pos s" "steps s"] by simp_all
  ultimately show ?thesis using Some by (simp add: t_check_def sched_check_def expects_def)
qed (simp add: t_check_def expects_def)

lemma expects_absorb:
  assumes e: "expects tr ((''absorb'', label) # ss)" and l: "length label < 65536" "length data < 2 ^ 64"
  shows "\<exists>tr'. absorb tr label data = Inr tr' \<and> expects tr' ss"
proof -
  obtain tr1 where "t_check tr ''absorb'' label = Inr tr1" "expects tr1 ss" using expects_check [OF e] by blast
  then show ?thesis using l by (simp add: absorb_def to_bytes_def expects_def)
qed

lemma expects_coin:
  assumes e: "expects tr ((''coin'', label) # ss)" and l: "length label < 65536" "n < 2 ^ 64"
  shows "\<exists>cs tr'. coin H tr label n = Inr (cs, tr') \<and> expects tr' ss \<and> length cs = n \<and> canonical cs"
proof -
  obtain tr1 where t: "t_check tr ''coin'' label = Inr tr1" "expects tr1 ss" using expects_check [OF e] by blast
  let ?v = "\<lambda>i. int (from_le (take 16 (H (H (hashed tr1) @ encode label @ le_bytes 8 i)))) mod FIELD_P"
  have "rmap (coin_value H (H (hashed tr1)) label) [0..<n] = Inr (map ?v [0..<n])"
    using l(2) by (intro rmap_Inr_map) (simp add: coin_value_def to_bytes_def)
  then show ?thesis using t l by (simp add: coin_def to_bytes_def expects_def canonical_def)
qed

lemma expects_coin_bytes:
  assumes e: "expects tr ((''coin'', label) # ss)" and l: "length label < 65536"
  shows "\<exists>out tr'. coin_bytes H tr label = Inr (out, tr') \<and> expects tr' ss"
proof -
  obtain tr1 where "t_check tr ''coin'' label = Inr tr1" "expects tr1 ss" using expects_check [OF e] by blast
  then show ?thesis using l by (simp add: coin_bytes_def to_bytes_def expects_def)
qed
lemma enroll_none_total:
  assumes v: "valid_config cfg" "0 < ELL cfg" and W: "W \<noteq> []"
  shows "\<exists>pw. enroll H cfg W None = Inr pw"
proof -
  let ?nin = "length (W ! 0)" and ?bl = "(length (W ! 0) + ELL cfg - 1) div ELL cfg"
  let ?row = "\<lambda>(b, i). slice (W ! i) (b * ELL cfg) (min (b * ELL cfg + ELL cfg) ?nin) @ replicate (ELL cfg - (min (b * ELL cfg + ELL cfg) ?nin - b * ELL cfg)) (0 :: int)"
  let ?ps = "List.product [0..<?bl] [0..<length W]"
  have m: "enroll_messages cfg W None ?nin ?bl = Inr (map ?row ?ps)"
    unfolding enroll_messages_def by (intro rmap_Inr_map) (auto simp: enroll_row_def Let_def)
  have "list_all (\<lambda>m. length m \<le> ELL cfg) (map ?row ?ps)" by (auto simp: list_all_iff slice_def min_def)
  then obtain cm where "from_messages H cfg (map ?row ?ps) = Inr cm" using from_messages_total [OF v(1)] by blast
  then show ?thesis using m W v(2) unfolding enroll_def Let_def by simp
qed

text \<open>At most \<open>ELL\<close> inputs: one block, whose rows start with the weights.\<close>

lemma enroll_single:
  assumes e: "enroll H cfg W padding = Inr pw" and rows: "list_all (\<lambda>r. length r = length (W ! 0)) W"
    and nin: "0 < length (W ! 0)" "length (W ! 0) \<le> ELL cfg"
  shows "n_blocks pw = 1" and "i < length W \<Longrightarrow> j < length (W ! 0) \<Longrightarrow> messages pw ! i ! j = W ! i ! j"
proof -
  let ?nin = "length (W ! 0)" and ?bl = "(length (W ! 0) + ELL cfg - 1) div ELL cfg"
  obtain msgs c where m: "enroll_messages cfg W padding ?nin ?bl = Inr msgs"
    "pw = \<lparr>pw_cfg = cfg, n_in = ?nin, n_out = length W, pw_commit = c, messages = msgs, n_blocks = ?bl\<rparr>"
    using e by (auto simp: enroll_def Let_def rbind_Inr_iff split: if_splits)
  have "?nin + ELL cfg - 1 = (?nin - 1) + ELL cfg" and less: "?nin - 1 < ELL cfg" using nin by linarith+
  then have "?bl = ((?nin - 1) + ELL cfg) div ELL cfg" by (simp only:)
  also have "\<dots> = (?nin - 1) div ELL cfg + 1" using less by (intro div_add_self2) linarith
  also have "\<dots> = 1" using less by (simp only: div_less)
  finally have bl: "?bl = 1" .
  show "n_blocks pw = 1" using m(2) bl by simp
  have "rmap (\<lambda>i. enroll_row cfg W padding ?nin 0 i) [0..<length W] = Inr msgs"
    using m(1) unfolding enroll_messages_def bl by (simp add: rmap_map)
  from rmap_InrD [OF this] have r: "enroll_row cfg W padding ?nin 0 i = Inr (msgs ! i)" if "i < length W" for i using that by simp
  show "messages pw ! i ! j = W ! i ! j" if i: "i < length W" and j: "j < ?nin"
  proof -
    have l: "length (W ! i) = ?nin" using rows i by (simp add: list_all_length)
    have "\<exists>tail. msgs ! i = take ?nin (W ! i) @ tail"
      using r [OF i] nin(2) by (auto simp: enroll_row_def Let_def slice_def min_def dest!: sym [of _ "msgs ! i"] split: option.splits if_splits)
    then show ?thesis using m(2) l j by (auto simp: nth_append)
  qed
qed

lemma project_single:
  assumes e: "enroll H cfg W padding = Inr pw" and v: "valid_config cfg" and rows: "list_all (\<lambda>r. length r = length (W ! 0)) W"
    and nin: "0 < length (W ! 0)" "length (W ! 0) \<le> ELL cfg" and chi: "length chi = length W"
  shows "\<exists>m. project_message pw chi = Inr [m] \<and> flatten_projection pw [m] = take (length (W ! 0)) m \<and> length (W ! 0) \<le> length m \<and>
    (\<forall>j < length (W ! 0). (of_int (m ! j) :: gl) = (\<Sum>i<length W. of_int (chi ! i) * of_int (W ! i ! j)))"
proof -
  have ok: "pw_ok H pw" "pw_cfg pw = cfg" "n_out pw = length W" "n_in pw = length (W ! 0)" using enroll_ok [OF v rows e] by simp_all
  note s = enroll_single [OF e rows nin]
  let ?m = "combine_rows (ELL cfg) chi (messages pw)"
  have lm: "length (messages pw) = length W" using ok s(1) by (simp add: pw_ok_def)
  have "project_message pw chi = Inr [?m]"
    using project_message_eq [OF ok(1)] chi ok s(1) lm slice_all [of "messages pw"] by simp
  moreover have "flatten_projection pw [?m] = take (length (W ! 0)) ?m"
    using nin(2) ok by (simp add: flatten_projection_def block_slice_def Let_def)
  moreover have "(of_int (?m ! j) :: gl) = (\<Sum>i<length W. of_int (chi ! i) * of_int (W ! i ! j))" if "j < length (W ! 0)" for j
  proof -
    have "j < ELL cfg" using that nin by simp
    then have "(of_int (?m ! j) :: gl) = (\<Sum>i<length W. of_int (chi ! i) * of_int (messages pw ! i ! j))" by (simp add: combine_rows_def lm)
    also have "\<dots> = (\<Sum>i<length W. of_int (chi ! i) * of_int (W ! i ! j))" using s(2) that by (intro sum.cong) simp_all
    finally show ?thesis .
  qed
  moreover have "length (W ! 0) \<le> length ?m" using nin(2) by (simp add: combine_rows_def)
  ultimately show ?thesis by blast
qed

section \<open>The opened columns carry the projected messages\<close>

lemma opened_columns:
  assumes pc: "commit_init H cfg cws = Inr pc" and o1: "open_projection pw pc cols = Inr o1" and c: "\<forall>c \<in> set cols. c < N_LIG cfg"
  shows "po_columns o1 = cols \<and> length (p_values o1) = length cols \<and>
    (\<forall>k < length cols. p_values o1 ! k = map (\<lambda>cw. cw ! (cols ! k)) cws)"
proof -
  obtain os where os: "rmap (\<lambda>c. rbind (commit_open (pw_commit pw) c) (\<lambda>w. rbind (commit_open pc c) (\<lambda>p. Inr (w, p)))) cols = Inr os"
    "o1 = \<lparr>po_columns = cols, w_values = map (fst \<circ> fst) os, w_paths = map (snd \<circ> fst) os,
       p_values = map (fst \<circ> snd) os, p_paths = map (snd \<circ> snd) os\<rparr>"
    using o1 by (auto simp: open_projection_def rbind_Inr_iff)
  note r = rmap_InrD [OF os(1)]
  have col: "c_columns pc ! j = map (\<lambda>cw. cw ! j) cws" if "j < N_LIG cfg" for j
    using commit_init_facts [OF pc] that by metis
  have "fst (snd (os ! k)) = map (\<lambda>cw. cw ! (cols ! k)) cws" if k: "k < length cols" for k
  proof -
    have "rbind (commit_open (pw_commit pw) (cols ! k)) (\<lambda>w. rbind (commit_open pc (cols ! k)) (\<lambda>p. Inr (w, p))) = Inr (os ! k)"
      using r k by blast
    then obtain p where p: "commit_open pc (cols ! k) = Inr p" "snd (os ! k) = p" by (auto simp: rbind_Inr_iff dest: sym)
    from p(1) obtain a where "p = (c_columns pc ! (cols ! k), a)" by (auto simp: commit_open_def rbind_Inr_iff split: if_splits)
    then have "fst p = c_columns pc ! (cols ! k)" by simp
    then show ?thesis using p(2) col c k by simp
  qed
  then show ?thesis using os(2) r by simp
qed

lemma bind_blocks_True: "(\<And>b. b \<in> set bs \<Longrightarrow> \<exists>re. encode_row cfg (msgs ! b) = Inr re \<and> bind_cols re o1 b [0..<length (po_columns o1)] = Inr True) \<Longrightarrow>
    bind_blocks cfg msgs o1 bs = Inr True"
proof (induction bs)
  case (Cons b bs)
  obtain re where "encode_row cfg (msgs ! b) = Inr re" "bind_cols re o1 b [0..<length (po_columns o1)] = Inr True" using Cons.prems by force
  then show ?case using Cons by simp
qed simp

lemma bind_cols_True: "(\<And>k. k \<in> set ks \<Longrightarrow> po_columns o1 ! k < length re \<and> k < length (p_values o1) \<and> b < length (p_values o1 ! k) \<and>
    re ! (po_columns o1 ! k) = p_values o1 ! k ! b) \<Longrightarrow> bind_cols re o1 b ks = Inr True"
  by (induction ks) (simp_all add: Let_def)

lemma bind_accepts:
  assumes pc: "commit_init H cfg cws = Inr pc" and enc: "rmap (encode_row cfg) pm = Inr cws" and o1: "open_projection pw pc cols = Inr o1"
    and c: "\<forall>c \<in> set cols. c < N_LIG cfg" and one: "length pm = 1" and lens: "\<forall>cw \<in> set cws. length cw = N_LIG cfg"
  shows "bind_small_vector cfg pm o1 = Inr True"
proof -
  note op = opened_columns [OF pc o1 c] and r = rmap_InrD [OF enc]
  have nb: "(if p_values o1 \<noteq> [] then length (p_values o1 ! 0) else 1) = length pm"
    using op r one by (cases "cols = []") auto
  have "bind_blocks cfg pm o1 [0..<length pm] = Inr True"
  proof (rule bind_blocks_True)
    fix b assume "b \<in> set [0..<length pm]"
    then have b: "b < length cws" "encode_row cfg (pm ! b) = Inr (cws ! b)" using r by simp_all
    have "bind_cols (cws ! b) o1 b [0..<length (po_columns o1)] = Inr True"
      using op c b(1) lens by (intro bind_cols_True) simp
    then show "\<exists>re. encode_row cfg (pm ! b) = Inr re \<and> bind_cols re o1 b [0..<length (po_columns o1)] = Inr True" using b(2) by blast
  qed
  then show ?thesis unfolding bind_small_vector_def Let_def nb by simp
qed
section \<open>Completeness of a layer\<close>

text \<open>A layer before its computation: single-block weights, uniform inputs.\<close>

definition fresh_layer :: "config \<Rightarrow> persistent_weights \<Rightarrow> int list list \<Rightarrow> layer" where
  "fresh_layer cfg pw X = \<lparr>l_cfg = cfg, l_weights = pw, l_X = X, l_Y = [], l_in_state = None, l_out_commit = None\<rparr>"

definition dense_ok :: "config \<Rightarrow> int list list \<Rightarrow> int list list \<Rightarrow> bool" where
  "dense_ok cfg W X \<longleftrightarrow> valid_config cfg \<and> W \<noteq> [] \<and> X \<noteq> [] \<and> 0 < length (W ! 0) \<and> length (W ! 0) \<le> ELL cfg \<and> length W \<le> ELL cfg \<and>
     length W < 2 ^ 64 \<and> length X < 2 ^ 64 \<and> length (W ! 0) < 2 ^ 63 \<and>
     list_all (\<lambda>r. length r = length (W ! 0)) W \<and> list_all (\<lambda>r. length r = length (W ! 0)) X"

lemma layer_computes:
  assumes d: "dense_ok cfg W X" and e: "enroll H cfg W padding = Inr pw"
  shows "\<exists>Y ins oc. layer_compute H (fresh_layer cfg pw X) = Inr ((fresh_layer cfg pw X)\<lparr>l_Y := Y, l_in_state := Some ins, l_out_commit := Some oc\<rparr>) \<and>
    enroll H cfg X None = Inr ins \<and> from_messages H cfg Y = Inr oc \<and>
    (\<forall>t < length X. \<forall>i < length W. (of_int (Y ! t ! i) :: gl) = (\<Sum>j<length (W ! 0). of_int (X ! t ! j) * of_int (W ! i ! j)))"
proof -
  have v: "valid_config cfg" and rows: "list_all (\<lambda>r. length r = length (W ! 0)) W" "list_all (\<lambda>r. length r = length (W ! 0)) X"
    and nin: "0 < length (W ! 0)" "length (W ! 0) \<le> ELL cfg" and ne: "X \<noteq> []" and nout: "length W \<le> ELL cfg"
    using d by (simp_all add: dense_ok_def)
  have ok: "pw_ok H pw" "pw_cfg pw = cfg" "n_out pw = length W" "n_in pw = length (W ! 0)" using enroll_ok [OF v rows(1) e] by simp_all
  note s = enroll_single [OF e rows(1) nin]
  have lm: "length (messages pw) = length W" "list_all (\<lambda>m. length m = ELL cfg) (messages pw)" using ok s(1) by (simp_all add: pw_ok_def)
  let ?y = "\<lambda>t i. sum_list (map (\<lambda>j. X ! t ! j * messages pw ! i ! j) [0..<length (W ! 0)]) mod FIELD_P"
  let ?Y = "map (\<lambda>t. map (?y t) [0..<length W]) [0..<length X]"
  have entry: "dense_entry X (messages pw) (length (W ! 0)) t i = Inr (?y t i)" if "t < length X" "i < length W" for t i
  proof -
    have lx: "length (X ! t) = length (W ! 0)" using rows(2) that by (simp add: list_all_length)
    have lw: "length (messages pw ! i) = ELL cfg" "i < length (messages pw)" using lm that by (simp_all add: list_all_length)
    have "rmap (\<lambda>j. if j < length (X ! t) \<and> i < length (messages pw) \<and> j < length (messages pw ! i) then Inr (X ! t ! j * messages pw ! i ! j) else Inl IndexError)
      [0..<length (W ! 0)] = Inr (map (\<lambda>j. X ! t ! j * messages pw ! i ! j) [0..<length (W ! 0)])"
      using lx lw nin by (intro rmap_Inr_map) simp
    then show ?thesis by (simp add: dense_entry_def)
  qed
  have Y: "rmap (\<lambda>t. rmap (\<lambda>i. dense_entry X (messages pw) (length (W ! 0)) t i) [0..<length W]) [0..<length X] = Inr ?Y"
    using entry by (intro rmap_Inr_map) simp
  obtain ins where ins: "enroll H cfg X None = Inr ins" using enroll_none_total [OF v _ ne] nin by fastforce
  have "list_all (\<lambda>m. length m \<le> ELL cfg) ?Y" using nout by (simp add: list_all_iff)
  then obtain oc where oc: "from_messages H cfg ?Y = Inr oc" using from_messages_total [OF v] by blast
  have gl: "(of_int (?y t i) :: gl) = (\<Sum>j<length (W ! 0). of_int (X ! t ! j) * of_int (W ! i ! j))" if "i < length W" for t i
    using s(2) that by (simp add: sum_list_map_upt)
  have "layer_compute H (fresh_layer cfg pw X) = Inr ((fresh_layer cfg pw X)\<lparr>l_Y := ?Y, l_in_state := Some ins, l_out_commit := Some oc\<rparr>)"
    unfolding layer_compute_def Let_def using Y ins oc ok by (simp add: fresh_layer_def)
  then show ?thesis using ins oc gl by (intro exI [of _ ?Y] exI [of _ ins] exI [of _ oc]) simp
qed

lemma gl_weighted_output:
  "(of_int (weighted_output tau rho Y S n) :: gl) = (\<Sum>t<S. \<Sum>i<n. of_int (tau ! t) * of_int (rho ! i) * of_int (Y ! t ! i))"
proof -
  have inner: "(of_int (foldl (\<lambda>acc i. (acc + f i) mod FIELD_P) a [0..<m]) :: gl) = of_int a + (\<Sum>i<m. of_int (f i))" for f a m
    by (induction m) (simp_all add: add.assoc)
  have "(of_int (foldl (\<lambda>acc t. foldl (\<lambda>acc i. (acc + g t i) mod FIELD_P) acc [0..<n]) a [0..<S]) :: gl) = of_int a + (\<Sum>t<S. \<Sum>i<n. of_int (g t i))" for g a
    by (induction S) (simp_all add: inner add.assoc)
  then show ?thesis by (simp add: weighted_output_def)
qed

lemma weighted_output_range: "0 \<le> weighted_output tau rho Y S n \<and> weighted_output tau rho Y S n < FIELD_P"
  unfolding weighted_output_def by (rule foldl_invariant, simp add: FIELD_P_val, rule foldl_invariant) auto

text \<open>The contraction identity: the claim of the sumcheck is the weighted output.\<close>

lemma contraction:
  assumes a: "\<And>j. j < d \<Longrightarrow> (of_int (a ! j) :: gl) = (\<Sum>t<S. of_int (tau ! t) * of_int (X ! t ! j))"
    and p: "\<And>j. j < d \<Longrightarrow> (of_int (p ! j) :: gl) = (\<Sum>i<n. of_int (rho ! i) * of_int (W ! i ! j))"
    and y: "\<And>t i. t < S \<Longrightarrow> i < n \<Longrightarrow> (of_int (Y ! t ! i) :: gl) = (\<Sum>j<d. of_int (X ! t ! j) * of_int (W ! i ! j))"
    and len: "d \<le> length a" "d \<le> length p" "d \<le> w"
  shows "(\<Sum>j<w. of_int (pad_to (take d a) w ! j) * of_int (pad_to (take d p) w ! j)) = (of_int (weighted_output tau rho Y S n) :: gl)"
proof -
  have "(\<Sum>j<w. of_int (pad_to (take d a) w ! j) * of_int (pad_to (take d p) w ! j)) = (\<Sum>j<w. if j < d then of_int (a ! j) * of_int (p ! j) else (0 :: gl))"
    using len by (intro sum.cong) (auto simp: pad_to_def)
  also have "\<dots> = (\<Sum>j<d. of_int (a ! j) * of_int (p ! j))"
    using len(3) by (intro sum.mono_neutral_cong_right) auto
  also have "\<dots> = (\<Sum>j<d. \<Sum>t<S. \<Sum>i<n. of_int (tau ! t) * of_int (rho ! i) * (of_int (X ! t ! j) * of_int (W ! i ! j)))"
  proof (intro sum.cong refl)
    fix j assume "j \<in> {..<d}"
    then have "(of_int (a ! j) * of_int (p ! j) :: gl) =
        (\<Sum>t<S. of_int (tau ! t) * of_int (X ! t ! j)) * (\<Sum>i<n. of_int (rho ! i) * of_int (W ! i ! j))" using a p by simp
    also have "\<dots> = (\<Sum>t<S. \<Sum>i<n. of_int (tau ! t) * of_int (rho ! i) * (of_int (X ! t ! j) * of_int (W ! i ! j)))"
      unfolding sum_product by (intro sum.cong refl) (simp add: mult_ac)
    finally show "(of_int (a ! j) * of_int (p ! j) :: gl) =
        (\<Sum>t<S. \<Sum>i<n. of_int (tau ! t) * of_int (rho ! i) * (of_int (X ! t ! j) * of_int (W ! i ! j)))" .
  qed
  also have "\<dots> = (\<Sum>t<S. \<Sum>j<d. \<Sum>i<n. of_int (tau ! t) * of_int (rho ! i) * (of_int (X ! t ! j) * of_int (W ! i ! j)))" by (rule sum.swap)
  also have "\<dots> = (\<Sum>t<S. \<Sum>i<n. \<Sum>j<d. of_int (tau ! t) * of_int (rho ! i) * (of_int (X ! t ! j) * of_int (W ! i ! j)))"
    by (intro sum.cong refl sum.swap)
  also have "\<dots> = of_int (weighted_output tau rho Y S n)" unfolding gl_weighted_output using y by (intro sum.cong) (simp_all add: sum_distrib_left)
  finally show ?thesis .
qed
lemma prove_one_point: "prove H [pad_to a 1, pad_to p 1] cn None 0 = prove H [pad_to a 1, pad_to p 1] cn' None 0"
proof -
  have "bit_length (Suc 0) = 1" using bit_length_pow2 [of 0] by simp
  then show ?thesis by (simp add: prove_def prove_terms_def first_len_def Let_def)
qed

text \<open>With one coin per round (and one to spare on a single point) the honest sumcheck is accepted.\<close>

lemma honest_pair_coins:
  assumes "canonical cs" "length cs = max k 1"
  shows "\<exists>pf. prove H [pad_to a (2 ^ k), pad_to p (2 ^ k)] (list_coin cs) None 0 = Inr pf \<and>
     verify_prod H pf [pad_to a (2 ^ k), pad_to p (2 ^ k)] (own_coins pf) = Inr True \<and>
     (of_int (sc_claim pf) :: gl) = (\<Sum>i<2 ^ k. of_int (pad_to a (2 ^ k) ! i) * of_int (pad_to p (2 ^ k) ! i)) \<and>
     0 \<le> sc_claim pf \<and> sc_claim pf < FIELD_P"
proof (cases "k = 0")
  case True
  have "canonical []" by (simp add: canonical_def)
  from honest_pair [OF this, of H a p] show ?thesis
    using True prove_one_point [of H a p "list_coin cs" "list_coin []"] by simp
next
  case False
  then have "length cs = k" using assms(2) by simp
  then show ?thesis using honest_pair [OF assms(1), of H a p] by simp
qed

lemma encode_rows_length:
  assumes "rmap (encode_row cfg) ms = Inr cws" "cw \<in> set cws"
  shows "length cw = N_LIG cfg"
proof -
  from assms(2) obtain i where "i < length cws" "cw = cws ! i" by (auto simp: in_set_conv_nth)
  then have "encode_row cfg (ms ! i) = Inr cw" using rmap_InrD [OF assms(1)] by simp
  then show ?thesis by (auto simp: encode_row_def Let_def split: if_splits)
qed

lemma projection_bound:
  assumes ok: "pw_ok H pw" and chi: "length chi = n_out pw" and pc: "commit_projection H pw chi = Inr pc" and p: "project_message pw chi = Inr [m]"
    and cols: "\<forall>c \<in> set cols. c < N_LIG (pw_cfg pw)" and o1: "open_projection pw pc cols = Inr o1"
  shows "bind_small_vector (pw_cfg pw) [m] o1 = Inr True"
proof -
  have r: "rmap (encode_row (pw_cfg pw)) [m] = Inr (c_codewords pc)" using projection_encodes [OF ok chi pc] p by auto
  have "commit_init H (pw_cfg pw) (c_codewords pc) = Inr pc" using commit_projection_rows [OF ok chi pc] by (metis commit_init_facts)
  then show ?thesis using encode_rows_length [OF r] by (intro bind_accepts [OF _ r o1 cols]) simp_all
qed

lemma computed_layer_accepted:
  assumes h: "hash32 H" and d: "dense_ok cfg W X" and e: "enroll H cfg W padding = Inr pw" and ex: "expects tr DENSE_LAYER_SCHEDULE"
    and ins: "enroll H cfg X None = Inr ins" and oc: "from_messages H cfg Y = Inr oc"
    and y: "\<forall>t < length X. \<forall>i < length W. (of_int (Y ! t ! i) :: gl) = (\<Sum>j<length (W ! 0). of_int (X ! t ! j) * of_int (W ! i ! j))"
    and l: "l_cfg l = cfg" "l_weights l = pw" "l_X l = X" "l_Y l = Y"
  shows "case prove_computed H l ins oc tr q of
      Inl err \<Rightarrow> \<exists>sd. sample_columns H sd q (N_LIG cfg) = Inl err
    | Inr (pf, tr') \<Rightarrow> verify_layer H cfg (c_root (pw_commit pw)) pf (length (W ! 0)) = Inr True \<and>
        lp_in_root pf = c_root (pw_commit ins) \<and> lp_out_root pf = c_root oc \<and> tlog tr' \<noteq> []"
proof -
  let ?nin = "length (W ! 0)"
  have v: "valid_config cfg" and rows: "list_all (\<lambda>r. length r = ?nin) W" "list_all (\<lambda>r. length r = ?nin) X"
    and nin: "0 < ?nin" "?nin \<le> ELL cfg" "?nin < 2 ^ 63" and ne: "X \<noteq> []" "W \<noteq> []" and few: "length W < 2 ^ 64" "length X < 2 ^ 64"
    using d by (simp_all add: dense_ok_def)
  have x0: "length (X ! 0) = ?nin" using rows(2) ne by (cases X) simp_all
  have rx: "list_all (\<lambda>r. length r = length (X ! 0)) X" using rows(2) x0 by simp
  have ok: "pw_ok H pw" "pw_cfg pw = cfg" "n_out pw = length W" "n_in pw = ?nin" using enroll_ok [OF v rows(1) e] by simp_all
  have iok: "pw_ok H ins" "pw_cfg ins = cfg" "n_out ins = length X" "n_in ins = ?nin" using enroll_ok [OF v rx ins] x0 by simp_all
  have root: "length (c_root c) < 2 ^ 64" if "commit_init H cfg cws = Inr c" for c cws using root_length [OF h v that] by simp
  have mroot: "length (c_root c) < 2 ^ 64" if "from_messages H cfg ms = Inr c" for c ms
    using that root by (auto simp: from_messages_def rbind_Inr_iff)
  obtain k where k: "next_pow2 ?nin = 2 ^ k" unfolding next_pow2_def using pow2_from_1_pow2 by blast
  have dk: "?nin \<le> 2 ^ k" unfolding k [symmetric] next_pow2_def by (rule pow2_from_ge) simp
  have "next_pow2 ?nin \<le> 2 ^ 63" unfolding next_pow2_def using nin(3) by (intro pow2_from_le [of _ 0]) simp_all
  then have "k \<le> 63" unfolding k by (rule power_le_imp_le_exp [rotated]) simp
  then have k64: "max k 1 < 2 ^ 64" by simp
  have bl: "bit_length (2 ^ k) - 1 = k" by simp
  obtain tr1 where t1: "absorb tr ''R_in'' (c_root (pw_commit ins)) = Inr tr1" "expects tr1 (drop 1 DENSE_LAYER_SCHEDULE)"
    using expects_absorb [of tr "''R_in''" "drop 1 DENSE_LAYER_SCHEDULE" "c_root (pw_commit ins)"] ex mroot iok by (auto simp: DENSE_LAYER_SCHEDULE_def pw_ok_def)
  obtain tr2 where t2: "absorb tr1 ''R_out'' (c_root oc) = Inr tr2" "expects tr2 (drop 2 DENSE_LAYER_SCHEDULE)"
    using expects_absorb [of tr1 "''R_out''" "drop 2 DENSE_LAYER_SCHEDULE" "c_root oc"] t1 mroot [OF oc] by (auto simp: DENSE_LAYER_SCHEDULE_def)
  obtain rho tr3 where t3: "coin H tr2 ''rho'' (length W) = Inr (rho, tr3)" "expects tr3 (drop 3 DENSE_LAYER_SCHEDULE)" "length rho = length W"
    using expects_coin [of tr2 "''rho''" "drop 3 DENSE_LAYER_SCHEDULE" "length W" H] t2 few by (auto simp: DENSE_LAYER_SCHEDULE_def)
  obtain pc where pc: "commit_projection H pw rho = Inr pc" using commit_projection_total [OF ok(1)] t3(3) ok(3) by auto
  note pi = commit_projection_rows [OF ok(1) _ pc, unfolded ok(2,3), OF t3(3)]
  obtain tr4 where t4: "absorb tr3 ''R_P'' (c_root pc) = Inr tr4" "expects tr4 (drop 4 DENSE_LAYER_SCHEDULE)"
    using expects_absorb [of tr3 "''R_P''" "drop 4 DENSE_LAYER_SCHEDULE" "c_root pc"] t3 root [OF pi] by (auto simp: DENSE_LAYER_SCHEDULE_def)
  obtain tau tr5 where t5: "coin H tr4 ''tau'' (length X) = Inr (tau, tr5)" "expects tr5 (drop 5 DENSE_LAYER_SCHEDULE)" "length tau = length X"
    using expects_coin [of tr4 "''tau''" "drop 5 DENSE_LAYER_SCHEDULE" "length X" H] t4 few by (auto simp: DENSE_LAYER_SCHEDULE_def)
  obtain ac where ac: "commit_projection H ins tau = Inr ac" using commit_projection_total [OF iok(1)] t5(3) iok(3) by auto
  note ai = commit_projection_rows [OF iok(1) _ ac, unfolded iok(2,3), OF t5(3)]
  obtain tr6 where t6: "absorb tr5 ''R_A'' (c_root ac) = Inr tr6" "expects tr6 (drop 6 DENSE_LAYER_SCHEDULE)"
    using expects_absorb [of tr5 "''R_A''" "drop 6 DENSE_LAYER_SCHEDULE" "c_root ac"] t5 root [OF ai] by (auto simp: DENSE_LAYER_SCHEDULE_def)
  obtain p where p: "project_message pw rho = Inr [p]" "flatten_projection pw [p] = take ?nin p" "?nin \<le> length p"
    "\<forall>j < ?nin. (of_int (p ! j) :: gl) = (\<Sum>i<length W. of_int (rho ! i) * of_int (W ! i ! j))"
    using project_single [OF e v rows(1) nin(1,2) t3(3)] by blast
  obtain a where a: "project_message ins tau = Inr [a]" "flatten_projection ins [a] = take ?nin a" "?nin \<le> length a"
    "\<forall>j < ?nin. (of_int (a ! j) :: gl) = (\<Sum>t<length X. of_int (tau ! t) * of_int (X ! t ! j))"
    using project_single [OF ins v rx _ _ t5(3)] nin x0 by auto
  obtain coins tr7 where t7: "coin H tr6 ''sumcheck'' (max k 1) = Inr (coins, tr7)" "expects tr7 (drop 7 DENSE_LAYER_SCHEDULE)"
      "length coins = max k 1" "canonical coins"
    using expects_coin [of tr6 "''sumcheck''" "drop 7 DENSE_LAYER_SCHEDULE" "max k 1" H] t6 k64 by (auto simp: DENSE_LAYER_SCHEDULE_def)
  obtain sc where sc: "prove H [pad_to (take ?nin a) (2 ^ k), pad_to (take ?nin p) (2 ^ k)] (list_coin coins) None 0 = Inr sc"
    "verify_prod H sc [pad_to (take ?nin a) (2 ^ k), pad_to (take ?nin p) (2 ^ k)] (own_coins sc) = Inr True"
    "(of_int (sc_claim sc) :: gl) = (\<Sum>i<2 ^ k. of_int (pad_to (take ?nin a) (2 ^ k) ! i) * of_int (pad_to (take ?nin p) (2 ^ k) ! i))"
    "0 \<le> sc_claim sc" "sc_claim sc < FIELD_P"
    using honest_pair_coins [OF t7(4,3), of H "take ?nin a" "take ?nin p"] by blast
  have "(of_int (sc_claim sc) :: gl) = of_int (weighted_output tau rho Y (length X) (length W))"
    unfolding sc(3) using a(4) p(4) y by (intro contraction [OF _ _ _ a(3) p(3) dk]) auto
  then have claim: "sc_claim sc = weighted_output tau rho Y (length X) (length W)"
    using weighted_output_range [of tau rho Y "length X" "length W"] sc(4,5) by (intro gl_inj_canonical) auto
  obtain tr8 where t8: "absorb tr7 ''R_terminal'' (replicate 32 0) = Inr tr8" "expects tr8 (drop 8 DENSE_LAYER_SCHEDULE)"
    using expects_absorb [of tr7 "''R_terminal''" "drop 8 DENSE_LAYER_SCHEDULE" "replicate 32 0"] t7 by (auto simp: DENSE_LAYER_SCHEDULE_def)
  obtain sd tr9 where t9: "coin_bytes H tr8 ''columns'' = Inr (sd, tr9)"
    using expects_coin_bytes [of tr8 "''columns''" "[]" H] t8 by (auto simp: DENSE_LAYER_SCHEDULE_def)
  have log: "tlog tr9 \<noteq> []" using t9 by (auto simp: coin_bytes_def rbind_Inr_iff)
  have t7': "coin H tr6 ''sumcheck'' (max k (Suc 0)) = Inr (coins, tr7)" using t7(1) by simp
  note steps = t1(1) t2(1) t3(1) t4(1) t5(1) t6(1) t7' t8(1) t9 pc ac p(1,2) a(1,2) sc(1) claim k bl ok(3,4) l
  show ?thesis
  proof (cases "sample_columns H sd q (N_LIG cfg)")
    case (Inl err)
    then have "prove_computed H l ins oc tr q = Inl err" by (simp add: prove_computed_def Let_def steps)
    then show ?thesis using Inl by auto
  next
    case (Inr cols)
    have cols: "\<forall>c \<in> set cols. c < N_LIG cfg" using draw_loop_result [OF Inr [unfolded sample_columns_def]] by simp
    have chi: "rho \<noteq> []" "tau \<noteq> []" using ne t3(3) t5(3) by (metis length_0_conv)+
    obtain wo where wo: "open_projection pw pc cols = Inr wo"
      "verify_projection H cfg (c_root (pw_commit pw)) (c_root pc) rho wo = Inr True"
      using seam_accepts [OF h v rows(1) e t3(3) chi(1) pc cols] by blast
    obtain ao where ao: "open_projection ins ac cols = Inr ao"
      "verify_projection H cfg (c_root (pw_commit ins)) (c_root ac) tau ao = Inr True"
      using seam_accepts [OF h v rx ins t5(3) chi(2) ac cols] by blast
    have bp: "bind_small_vector cfg [p] wo = Inr True"
      using projection_bound [OF ok(1) _ pc p(1) _ wo(1)] t3(3) ok(2,3) cols by simp
    have ba: "bind_small_vector cfg [a] ao = Inr True"
      using projection_bound [OF iok(1) _ ac a(1) _ ao(1)] t5(3) iok(2,3) cols by simp
    let ?pf = "\<lparr>lp_in_root = c_root (pw_commit ins), lp_out_root = c_root oc, lp_p_root = c_root pc, lp_a_root = c_root ac,
             lp_rho = rho, lp_tau = tau, lp_w_opening = wo, lp_a_opening = ao, lp_sumcheck = sc, lp_columns = cols,
             p_message = take ?nin p, a_message = take ?nin a, p_blocks = [p], a_blocks = [a]\<rparr>"
    have run: "prove_computed H l ins oc tr q = Inr (?pf, tr9)" by (simp add: prove_computed_def Let_def steps Inr wo(1) ao(1))
    have "verify_layer H cfg (c_root (pw_commit pw)) ?pf ?nin = Inr True"
      using wo(2) ao(2) bp ba sc(2) by (simp add: verify_layer_iff k)
    then show ?thesis using run log by simp
  qed
qed
definition honest_layer :: "hashfn \<Rightarrow> config \<Rightarrow> layer \<Rightarrow> int list list \<Rightarrow> bool" where
  "honest_layer H cfg l W \<longleftrightarrow> dense_ok cfg W (l_X l) \<and> (\<exists>padding. enroll H cfg W padding = Inr (l_weights l)) \<and>
     l = fresh_layer cfg (l_weights l) (l_X l)"

lemma fresh_layer_sel [simp]:
  "l_cfg (fresh_layer cfg pw X) = cfg" "l_weights (fresh_layer cfg pw X) = pw" "l_X (fresh_layer cfg pw X) = X"
  "l_out_commit (fresh_layer cfg pw X) = None"
  by (simp_all add: fresh_layer_def)

lemma layer_accepted:
  assumes h: "hash32 H" and l: "honest_layer H cfg l W" and ex: "expects tr DENSE_LAYER_SCHEDULE"
  shows "\<exists>l' ins oc. layer_compute H l = Inr l' \<and> enroll H cfg (l_X l) None = Inr ins \<and> from_messages H cfg (l_Y l') = Inr oc \<and>
    (case prove_layer H l tr q of
      Inl err \<Rightarrow> \<exists>sd. sample_columns H sd q (N_LIG cfg) = Inl err
    | Inr (pf, l'', tr') \<Rightarrow> verify_layer H cfg (c_root (pw_commit (l_weights l))) pf (n_in (l_weights l)) = Inr True \<and>
        lp_in_root pf = c_root (pw_commit ins) \<and> lp_out_root pf = c_root oc)"
proof -
  obtain padding where d: "dense_ok cfg W (l_X l)" and e: "enroll H cfg W padding = Inr (l_weights l)" and f: "l = fresh_layer cfg (l_weights l) (l_X l)"
    using l by (auto simp: honest_layer_def)
  let ?pw = "l_weights l" and ?X = "l_X l"
  have nin: "n_in ?pw = length (W ! 0)" using enroll_ok [OF _ _ e] d by (simp add: dense_ok_def)
  obtain Y ins oc where c: "layer_compute H (fresh_layer cfg ?pw ?X) = Inr ((fresh_layer cfg ?pw ?X)\<lparr>l_Y := Y, l_in_state := Some ins, l_out_commit := Some oc\<rparr>)"
    "enroll H cfg ?X None = Inr ins" "from_messages H cfg Y = Inr oc"
    "\<forall>t < length ?X. \<forall>i < length W. (of_int (Y ! t ! i) :: gl) = (\<Sum>j<length (W ! 0). of_int (?X ! t ! j) * of_int (W ! i ! j))"
    using layer_computes [OF d e] by blast
  let ?l = "(fresh_layer cfg ?pw ?X)\<lparr>l_Y := Y, l_in_state := Some ins, l_out_commit := Some oc\<rparr>"
  have comp: "layer_compute H l = Inr ?l" using c(1) f by metis
  have "l_out_commit l = None" using f by (metis fresh_layer_sel(4))
  then have p: "prove_layer H l tr q = rbind (prove_computed H ?l ins oc tr q) (\<lambda>(pf, tr'). Inr (pf, ?l, tr'))"
    by (simp add: prove_layer_def comp)
  have "case prove_computed H ?l ins oc tr q of
      Inl err \<Rightarrow> \<exists>sd. sample_columns H sd q (N_LIG cfg) = Inl err
    | Inr (pf, tr') \<Rightarrow> verify_layer H cfg (c_root (pw_commit ?pw)) pf (length (W ! 0)) = Inr True \<and>
        lp_in_root pf = c_root (pw_commit ins) \<and> lp_out_root pf = c_root oc \<and> tlog tr' \<noteq> []"
    by (rule computed_layer_accepted [OF h d e ex c(2-4)]) simp_all
  then have "case prove_layer H l tr q of
      Inl err \<Rightarrow> \<exists>sd. sample_columns H sd q (N_LIG cfg) = Inl err
    | Inr (pf, l'', tr') \<Rightarrow> verify_layer H cfg (c_root (pw_commit (l_weights l))) pf (n_in (l_weights l)) = Inr True \<and>
        lp_in_root pf = c_root (pw_commit ins) \<and> lp_out_root pf = c_root oc"
    unfolding p nin by (cases "prove_computed H ?l ins oc tr q") auto
  moreover have "from_messages H cfg (l_Y ?l) = Inr oc" using c(3) by simp
  ultimately show ?thesis using comp c(2) by blast
qed

lemma expects_new: "expects (new_transcript d (Some (new_schedule ss))) ss"
  by (simp add: expects_def new_transcript_def new_schedule_def)

text \<open>
  The composition link: committing the output rows and enrolling them as the next input give one
  root, because a short message is encoded as its padding with zeros.
\<close>

lemma encode_row_pad: "length m \<le> ELL cfg \<Longrightarrow> encode_row cfg (m @ replicate (ELL cfg - length m) 0) = encode_row cfg m"
  by (simp add: encode_row_def)

lemma rmap_cong_nth: "length xs = length ys \<Longrightarrow> (\<And>i. i < length xs \<Longrightarrow> f (xs ! i) = g (ys ! i)) \<Longrightarrow> rmap f xs = rmap g ys"
proof (induction xs arbitrary: ys)
  case (Cons x xs)
  then obtain y ys' where y: "ys = y # ys'" by (cases ys) auto
  have "rmap f xs = rmap g ys'" using Cons.prems y by (intro Cons.IH) force+
  moreover have "f x = g y" using Cons.prems(2) [of 0] y by simp
  ultimately show ?case using y by simp
qed simp

lemma output_is_next_input:
  assumes Y: "list_all (\<lambda>r. length r = length (Y ! 0)) Y" "0 < length (Y ! 0)" "length (Y ! 0) \<le> ELL cfg"
    and oc: "from_messages H cfg Y = Inr oc" and ins: "enroll H cfg Y None = Inr ins"
  shows "pw_commit ins = oc"
proof -
  let ?nin = "length (Y ! 0)"
  obtain msgs c where m: "enroll_messages cfg Y None ?nin ((?nin + ELL cfg - 1) div ELL cfg) = Inr msgs" "from_messages H cfg msgs = Inr c" "pw_commit ins = c"
    "n_blocks ins = (?nin + ELL cfg - 1) div ELL cfg"
    using ins by (auto simp: enroll_def Let_def rbind_Inr_iff split: if_splits)
  have "rmap (\<lambda>i. enroll_row cfg Y None ?nin 0 i) [0..<length Y] = Inr msgs"
    using m(1) enroll_single(1) [OF ins Y] m(4) unfolding enroll_messages_def by (simp add: rmap_map)
  note r = rmap_InrD [OF this]
  have "msgs ! i = Y ! i @ replicate (ELL cfg - length (Y ! i)) 0" if i: "i < length Y" for i
  proof -
    have "enroll_row cfg Y None ?nin 0 i = Inr (msgs ! i)" "length (Y ! i) = ?nin" using r i Y(1) by (simp_all add: list_all_length)
    then show ?thesis using Y(3) by (auto simp: enroll_row_def Let_def slice_def min_def dest!: sym [of _ "msgs ! i"] split: if_splits)
  qed
  moreover have "length (Y ! i) \<le> ELL cfg" if "i < length Y" for i using Y that by (simp add: list_all_length)
  ultimately have "rmap (encode_row cfg) msgs = rmap (encode_row cfg) Y"
    using r by (intro rmap_cong_nth) (simp_all add: encode_row_pad)
  then show ?thesis using m(2,3) oc by (simp add: from_messages_def)
qed
section \<open>Chains\<close>

lemma verify_chain_steps:
  assumes "\<And>k. k \<in> set ks \<Longrightarrow> k < length w_roots \<and> k < length n_ins \<and> verify_layer H cfg (w_roots ! k) (pfs ! k) (n_ins ! k) = Inr True \<and>
    (0 < k \<longrightarrow> lp_in_root (pfs ! k) = lp_out_root (pfs ! (k - 1)))"
  shows "verify_chain_from H cfg w_roots pfs n_ins ks = Inr True"
  using assms by (induction ks) auto

lemma prove_chain_results:
  "case prove_chain_from H k ls q domn of
     Inl err \<Rightarrow> \<exists>l \<in> set ls. \<exists>d. prove_layer H l (new_transcript d (Some (new_schedule DENSE_LAYER_SCHEDULE))) q = Inl err
   | Inr pfs \<Rightarrow> length pfs = length ls \<and> (\<forall>i < length ls. \<exists>d l' tr'.
       prove_layer H (ls ! i) (new_transcript d (Some (new_schedule DENSE_LAYER_SCHEDULE))) q = Inr (pfs ! i, l', tr'))"
proof (induction ls arbitrary: k)
  case (Cons l ls)
  let ?d = "domn @ encode (''/'' @ dec_str k)"
  let ?r = "prove_layer H l (new_transcript ?d (Some (new_schedule DENSE_LAYER_SCHEDULE))) q"
  show ?case
  proof (cases ?r)
    case (Inl err)
    then show ?thesis by auto
  next
    case (Inr x)
    then obtain pf l' tr' where r: "?r = Inr (pf, l', tr')" by (cases x) auto
    show ?thesis
    proof (cases "prove_chain_from H (Suc k) ls q domn")
      case (Inl err)
      then show ?thesis using Cons.IH [of "Suc k"] r by auto
    next
      case (Inr pfs)
      then have "prove_chain_from H k (l # ls) q domn = Inr (pf # pfs)" using r by simp
      then show ?thesis using Cons.IH [of "Suc k"] Inr r by (auto simp: nth_Cons split: nat.split)
    qed
  qed
qed simp

text \<open>Each layer's computed output is the next layer's input.\<close>

definition linked :: "hashfn \<Rightarrow> layer list \<Rightarrow> bool" where
  "linked H ls \<longleftrightarrow> list_all (\<lambda>k. case layer_compute H (ls ! k) of Inl e \<Rightarrow> False | Inr l' \<Rightarrow> l_X (ls ! Suc k) = l_Y l') [0..<length ls - 1]"

text \<open>
  Property C31 (\<open>chain_complete\<close>): for a stack of honest single-block layers, each fed with the output of the
  one before, the prover either stops because a column sample ran out of coins, or returns proofs
  that the chain verifier accepts: the output root of each layer is the input root of the next.
\<close>

theorem chain_complete:
  assumes h: "hash32 H" and ls: "list_all2 (honest_layer H cfg) ls Ws" and lk: "linked H ls"
  shows "case prove_chain H ls q domn of
      Inl err \<Rightarrow> \<exists>sd. sample_columns H sd q (N_LIG cfg) = Inl err
    | Inr pfs \<Rightarrow> length pfs = length ls \<and>
        verify_chain H cfg (map (\<lambda>l. c_root (pw_commit (l_weights l))) ls) pfs (map (\<lambda>l. n_in (l_weights l)) ls) = Inr True"
proof -
  have one: "honest_layer H cfg (ls ! i) (Ws ! i)" if "i < length ls" for i using ls that by (simp add: list_all2_conv_all_nth)
  show ?thesis
  proof (cases "prove_chain H ls q domn")
    case (Inl err)
    then obtain l d where l: "l \<in> set ls" "prove_layer H l (new_transcript d (Some (new_schedule DENSE_LAYER_SCHEDULE))) q = Inl err"
      using prove_chain_results [where H = H and k = 0 and ls = ls and q = q and domn = domn] by (auto simp: prove_chain_def)
    from l(1) obtain i where i: "i < length ls" "l = ls ! i" by (auto simp: in_set_conv_nth)
    then show ?thesis using layer_accepted [OF h one [OF i(1)] expects_new [where d = d], where q = q] l(2) Inl by auto
  next
    case (Inr pfs)
    then have res: "length pfs = length ls" "\<And>i. i < length ls \<Longrightarrow> \<exists>d l' tr'.
       prove_layer H (ls ! i) (new_transcript d (Some (new_schedule DENSE_LAYER_SCHEDULE))) q = Inr (pfs ! i, l', tr')"
      using prove_chain_results [where H = H and k = 0 and ls = ls and q = q and domn = domn] by (simp_all add: prove_chain_def)
    have P: "\<exists>l' ins oc. layer_compute H (ls ! i) = Inr l' \<and> enroll H cfg (l_X (ls ! i)) None = Inr ins \<and> from_messages H cfg (l_Y l') = Inr oc \<and>
        verify_layer H cfg (c_root (pw_commit (l_weights (ls ! i)))) (pfs ! i) (n_in (l_weights (ls ! i))) = Inr True \<and>
        lp_in_root (pfs ! i) = c_root (pw_commit ins) \<and> lp_out_root (pfs ! i) = c_root oc" if i: "i < length ls" for i
    proof -
      obtain d l' tr' where "prove_layer H (ls ! i) (new_transcript d (Some (new_schedule DENSE_LAYER_SCHEDULE))) q = Inr (pfs ! i, l', tr')"
        using res(2) [OF i] by blast
      then show ?thesis using layer_accepted [OF h one [OF i] expects_new [where d = d], where q = q] by auto
    qed
    have link: "lp_in_root (pfs ! Suc i) = lp_out_root (pfs ! i)" if i: "Suc i < length ls" for i
    proof -
      obtain l' oc where l': "layer_compute H (ls ! i) = Inr l'" "from_messages H cfg (l_Y l') = Inr oc" "lp_out_root (pfs ! i) = c_root oc"
        using P [of i] i by auto
      have "i \<in> set [0..<length ls - 1]" using i by auto
      then have X: "l_X (ls ! Suc i) = l_Y l'" using lk l'(1) unfolding linked_def list_all_iff by fastforce
      obtain ins where ins: "enroll H cfg (l_X (ls ! Suc i)) None = Inr ins" "lp_in_root (pfs ! Suc i) = c_root (pw_commit ins)" using P [OF i] by auto
      have "dense_ok cfg (Ws ! Suc i) (l_X (ls ! Suc i))" using one [OF i] by (simp add: honest_layer_def)
      then have "list_all (\<lambda>r. length r = length (l_X (ls ! Suc i) ! 0)) (l_X (ls ! Suc i)) \<and> 0 < length (l_X (ls ! Suc i) ! 0) \<and>
          length (l_X (ls ! Suc i) ! 0) \<le> ELL cfg"
        by (cases "l_X (ls ! Suc i)") (simp_all add: dense_ok_def)
      then show ?thesis using output_is_next_input [of "l_X (ls ! Suc i)" cfg H oc ins] l'(2,3) ins X by simp
    qed
    have "verify_chain H cfg (map (\<lambda>l. c_root (pw_commit (l_weights l))) ls) pfs (map (\<lambda>l. n_in (l_weights l)) ls) = Inr True"
      unfolding verify_chain_def
    proof (rule verify_chain_steps)
      fix k assume "k \<in> set [0..<length pfs]"
      then have k: "k < length ls" using res(1) by simp
      have "lp_in_root (pfs ! k) = lp_out_root (pfs ! (k - 1))" if "0 < k" using link [of "k - 1"] k that by simp
      then show "k < length (map (\<lambda>l. c_root (pw_commit (l_weights l))) ls) \<and> k < length (map (\<lambda>l. n_in (l_weights l)) ls) \<and>
        verify_layer H cfg (map (\<lambda>l. c_root (pw_commit (l_weights l))) ls ! k) (pfs ! k) (map (\<lambda>l. n_in (l_weights l)) ls ! k) = Inr True \<and>
        (0 < k \<longrightarrow> lp_in_root (pfs ! k) = lp_out_root (pfs ! (k - 1)))"
        using P [OF k] k by auto
    qed
    then show ?thesis using Inr res(1) by simp
  qed
qed
section \<open>A toy chain\<close>

lemma sample_one: "0 < N \<Longrightarrow> \<exists>j. sample_columns H sd 1 N = Inr [j]"
proof -
  assume N: "0 < N"
  let ?c = "int (from_le (take 16 (H (take 32 (sd @ replicate (32 - length sd) 0) @ encode ''cols'' @ le_bytes 8 0)))) mod FIELD_P"
  have "challenge H (SeedBytes sd) 0 ''cols'' = Inr ?c" by (simp add: challenge_def challenge_input_def to_bytes_def)
  then have "draw_loop H (SeedBytes sd) ''cols'' 1 N [] [] 0 = Inr [nat ?c mod N]"
    using N by (subst draw_loop.simps, simp only: list.size One_nat_def zero_less_Suc if_True sum.case Let_def, subst draw_loop.simps) simp
  then show ?thesis by (simp add: sample_columns_def)
qed

lemma toy_honest: "\<exists>pw. honest_layer toy_hash cfg_toy (fresh_layer cfg_toy pw [[5, 6]]) [[1, 2], [3, 4]]"
proof -
  have e2: "ELL cfg_toy = 2" by (simp add: cfg_toy_def)
  have d: "dense_ok cfg_toy [[1, 2], [3, 4]] [[5, 6]]" by (simp add: dense_ok_def valid_cfg_toy e2)
  obtain pw where "enroll toy_hash cfg_toy [[1, 2], [3, 4]] None = Inr pw"
    using enroll_none_total [OF valid_cfg_toy, of "[[1, 2], [3, 4]]" toy_hash] e2 by auto
  then show ?thesis using d by (intro exI [of _ pw]) (auto simp: honest_layer_def)
qed

theorem chain_complete_witness:
  "\<exists>l. case prove_chain toy_hash [l] 1 [] of
      Inl err \<Rightarrow> \<exists>sd. sample_columns toy_hash sd 1 (N_LIG cfg_toy) = Inl err
    | Inr pfs \<Rightarrow> length pfs = 1 \<and> verify_chain toy_hash cfg_toy [c_root (pw_commit (l_weights l))] pfs [n_in (l_weights l)] = Inr True"
proof -
  obtain pw where l: "honest_layer toy_hash cfg_toy (fresh_layer cfg_toy pw [[5, 6]]) [[1, 2], [3, 4]]" using toy_honest by blast
  then have "list_all2 (honest_layer toy_hash cfg_toy) [fresh_layer cfg_toy pw [[5, 6]]] [[[1, 2], [3, 4]]]" by simp
  from chain_complete [OF hash32_toy this, of 1 "[]"] show ?thesis
    by (intro exI [of _ "fresh_layer cfg_toy pw [[5, 6]]"]) (simp add: linked_def split: sum.splits)
qed

theorem layer_output_unbound_witness:
  "\<exists>H cfg root nin pf sc. verify_layer H cfg root pf nin = Inr True \<and> pf\<lparr>lp_out_root := [], a_message := [7], p_message := [8], lp_sumcheck := sc\<rparr> \<noteq> pf \<and>
     verify_layer H cfg root (pf\<lparr>lp_out_root := [], a_message := [7], p_message := [8], lp_sumcheck := sc\<rparr>) nin = Inr True"
proof -
  obtain pw where l: "honest_layer toy_hash cfg_toy (fresh_layer cfg_toy pw [[5, 6]]) [[1, 2], [3, 4]]" using toy_honest by blast
  let ?l = "fresh_layer cfg_toy pw [[5, 6]]" and ?tr = "new_transcript [] (Some (new_schedule DENSE_LAYER_SCHEDULE))"
  have "0 < N_LIG cfg_toy" by (simp add: cfg_toy_def)
  then have ns: "sample_columns toy_hash sd 1 (N_LIG cfg_toy) \<noteq> Inl err" for sd err using sample_one [of "N_LIG cfg_toy" toy_hash sd] by auto
  obtain l' :: layer and ins :: persistent_weights and oc :: commit where L: "from_messages toy_hash cfg_toy (l_Y l') = Inr oc" "case prove_layer toy_hash ?l ?tr 1 of
      Inl err \<Rightarrow> \<exists>sd. sample_columns toy_hash sd 1 (N_LIG cfg_toy) = Inl err
    | Inr (pf, l'', tr') \<Rightarrow> verify_layer toy_hash cfg_toy (c_root (pw_commit pw)) pf (n_in pw) = Inr True \<and>
        lp_in_root pf = c_root (pw_commit ins) \<and> lp_out_root pf = c_root oc"
    using layer_accepted [OF hash32_toy l expects_new [where d = "[]"], where q = 1] unfolding fresh_layer_sel
    by (elim exE conjE) (rule that, assumption, simp only: fresh_layer_sel)
  obtain r where r: "prove_layer toy_hash ?l ?tr 1 = Inr r" using L(2) ns by (cases "prove_layer toy_hash ?l ?tr 1") auto
  obtain pf l'' tr' where r': "r = (pf, l'', tr')" by (cases r)
  have pf: "verify_layer toy_hash cfg_toy (c_root (pw_commit pw)) pf (n_in pw) = Inr True"
    "from_messages toy_hash cfg_toy (l_Y l') = Inr oc" "lp_out_root pf = c_root oc"
    using L r unfolding r' by simp_all
  have "length (c_root oc) = 32" using pf(2) root_length [OF hash32_toy valid_cfg_toy] by (auto simp: from_messages_def rbind_Inr_iff)
  then have "lp_out_root pf \<noteq> []" using pf(3) by auto
  then have "pf\<lparr>lp_out_root := [], a_message := [7], p_message := [8], lp_sumcheck := sc\<rparr> \<noteq> pf" for sc
    by (metis layer_proof.select_convs(2) layer_proof.surjective layer_proof.update_convs(2,9,11,12))
  then show ?thesis using layer_output_unbound [OF pf(1) pf(1), where r = "[]" and am = "[7]" and pm = "[8]"] pf(1) by blast
qed

end
