(* ===== verification/TopK.thy ===== *)
theory TopK
  imports Goldilocks
begin

text \<open>
  The top-k routing claims of \<^verbatim>\<open>prover/topk_reference.py\<close> and \<^verbatim>\<open>prover/topk_params.py\<close>: the honest
  witness of the selection, of the slot masks and of the gate weights, the relations the claims
  emit (every value modulo the field prime), and the parameter guards. The theorems: a witness
  that breaks no relation under the guards is the honest one, and the honest one breaks none.
\<close>

section \<open>Parameters and guards (topk_params.py)\<close>

definition fP :: "int \<Rightarrow> int" where
  "fP x = x mod FIELD_P"

text \<open>\<open>max(1, ceil(log2 E))\<close>; \<open>log2\<close> of zero is a \<open>ValueError\<close>. (The source takes the logarithm as a
  float, which is exact in this sense below \<open>2^48\<close>.)\<close>

definition l_bits :: "nat \<Rightarrow> nat result" where
  "l_bits E = (if E = 0 then Inl ValueError else Inr (max 1 (bit_length (E - 1))))"

definition top1_guard_ok :: "nat \<Rightarrow> nat \<Rightarrow> bool" where
  "top1_guard_ok width range_bits \<longleftrightarrow> (2::int) ^ range_bits \<le> FIELD_P - 2 ^ width"

definition threshold_guard_ok :: "nat \<Rightarrow> nat \<Rightarrow> bool" where
  "threshold_guard_ok width range_bits \<longleftrightarrow> (2::int) ^ (range_bits + 1) - 1 \<le> FIELD_P - 2 ^ width"

definition threshold_words :: "nat \<Rightarrow> nat \<Rightarrow> nat \<Rightarrow> (nat \<times> nat) result" where
  "threshold_words width word_bits n_words =
     (if n_words = 0 \<and> word_bits = 0 then Inl ZeroDivisionError
      else let n = (if n_words \<noteq> 0 then n_words else max 1 ((width + word_bits - 1) div word_bits));
               R = n * word_bits
           in if R < width then Inl ValueError
              else if \<not> threshold_guard_ok width R then Inl ValueError
              else Inr (n, R))"

definition bracket_guard_ok :: "nat \<Rightarrow> nat \<Rightarrow> nat \<Rightarrow> nat \<Rightarrow> bool" where
  "bracket_guard_ok z_bits rem_bits w_bits cs_bits \<longleftrightarrow>
     (let lhs = (2::int) ^ (w_bits + z_bits) + 2 ^ rem_bits
      in lhs < FIELD_P \<and> (2::int) ^ cs_bits < FIELD_P \<and>
         (2::int) ^ rem_bits \<le> FIELD_P - 2 ^ (max rem_bits z_bits) - 1)"

section \<open>Selection\<close>

definition tiebroken :: "int list \<Rightarrow> nat \<Rightarrow> int list result" where
  "tiebroken q_row E =
     rbind (l_bits E) (\<lambda>L. Inr (map (\<lambda>(e, q). q * 2 ^ L + (int E - 1 - int e)) (enumerate 0 q_row)))"

record routing_row =
  r_m :: "int list"
  r_qt :: "int list"
  r_tau :: int
  r_d :: "int list"
  r_md :: "int list"
  r_v :: "int list"

definition routing_row_of :: "nat \<Rightarrow> nat \<Rightarrow> int list \<Rightarrow> int list \<Rightarrow> routing_row result" where
  "routing_row_of E k st b =
     rbind (rmap (\<lambda>e. rbind (py_index st (int e)) (\<lambda>x. rbind (py_index b (int e)) (\<lambda>y. Inr (x + y)))) [0..<E]) (\<lambda>q.
     rbind (tiebroken q E) (\<lambda>qt.
     let order = sort_key (\<lambda>e. - (qt ! e)) [0..<E]; sel = take k order in
     rbind (py_index order (int k - 1)) (\<lambda>last_sel.
     let tau = qt ! last_sel;
         m = map (\<lambda>e. if e \<in> set sel then 1 else 0) [0..<E];
         d = map (\<lambda>e. qt ! e - tau) [0..<E];
         md = map (\<lambda>e. m ! e * d ! e) [0..<E]
     in Inr \<lparr>r_m = m, r_qt = qt, r_tau = tau, r_d = d, r_md = md, r_v = map (\<lambda>e. 2 * md ! e - d ! e) [0..<E]\<rparr>)))"

text \<open>The source keeps the witness by column (one list of rows per name); here it is a list of
  rows.\<close>

definition routing_witness :: "int list list \<Rightarrow> int list \<Rightarrow> nat \<Rightarrow> routing_row list result" where
  "routing_witness s b k =
     (if s = [] then Inl IndexError else rmap (\<lambda>st. routing_row_of (length (s ! 0)) k st b) s)"

definition fail :: "bool \<Rightarrow> string \<Rightarrow> string set" where
  "fail c name = (if c then {name} else {})"

definition routing_row_failures :: "nat \<Rightarrow> nat \<Rightarrow> nat \<Rightarrow> nat \<Rightarrow> int list \<Rightarrow> int list \<Rightarrow> routing_row \<Rightarrow> string set" where
  "routing_row_failures E L k range_bits st b w =
     fail (sum_list (map fP (r_m w)) mod FIELD_P \<noteq> int k mod FIELD_P) ''F2'' \<union>
     \<Union> (set (map (\<lambda>e.
       fail (fP (r_qt w ! e - st ! e * 2 ^ L - b ! e * 2 ^ L) \<noteq> int E - 1 - int e) ''F1'' \<union>
       fail (fP (r_d w ! e - r_qt w ! e + r_tau w) \<noteq> 0) ''Fd'' \<union>
       fail (fP (r_v w ! e - 2 * r_md w ! e + r_d w ! e) \<noteq> 0) ''Fv'' \<union>
       fail (fP (r_m w ! e * r_m w ! e - r_m w ! e) \<noteq> 0) ''Q1'' \<union>
       fail (fP (r_m w ! e * r_d w ! e - r_md w ! e) \<noteq> 0) ''Q2'' \<union>
       fail (\<not> fP (r_v w ! e) < 2 ^ range_bits) ''R'') [0..<E]))"

definition routing_shapes :: "nat \<Rightarrow> int list \<Rightarrow> int list \<Rightarrow> routing_row \<Rightarrow> bool" where
  "routing_shapes E st b w \<longleftrightarrow> E \<le> length st \<and> E \<le> length b \<and>
     list_all (\<lambda>xs. E \<le> length xs) [r_m w, r_qt w, r_d w, r_md w, r_v w]"

definition routing_failures :: "routing_row list \<Rightarrow> int list list \<Rightarrow> int list \<Rightarrow> nat \<Rightarrow> nat \<Rightarrow> string set result" where
  "routing_failures w s b k range_bits =
     (if s = [] then Inl IndexError
      else rbind (l_bits (length (s ! 0))) (\<lambda>L.
        rbind (rmap (\<lambda>t. if t < length w \<and> routing_shapes (length (s ! 0)) (s ! t) b (w ! t)
                         then Inr (routing_row_failures (length (s ! 0)) L k range_bits (s ! t) b (w ! t))
                         else Inl IndexError) [0..<length s]) (\<lambda>rows. Inr (\<Union> (set rows)))))"

section \<open>Slot masks\<close>

definition slot_row :: "nat \<Rightarrow> nat \<Rightarrow> int list \<Rightarrow> int list list \<Rightarrow> nat \<Rightarrow> (int list list \<times> int list) result" where
  "slot_row E k mt s t =
     (if length mt < E then Inl IndexError
      else let sel = filter (\<lambda>e. mt ! e \<noteq> 0) [0..<E] in
        if k < length sel \<or> (sel \<noteq> [] \<and> (length s \<le> t \<or> \<not> list_all (\<lambda>e. e < length (s ! t)) sel)) then Inl IndexError
        else Inr (map (\<lambda>i. map (\<lambda>e. if i < length sel \<and> sel ! i = e then 1 else 0) [0..<E]) [0..<k],
                  map (\<lambda>i. if i < length sel then s ! t ! (sel ! i) else 0) [0..<k]))"

definition slot_witness :: "int list list \<Rightarrow> int list list \<Rightarrow> nat \<Rightarrow> (int list list list \<times> int list list) result" where
  "slot_witness m s k =
     (if m = [] then Inl IndexError
      else rbind (rmap (\<lambda>t. slot_row (length (m ! 0)) k (m ! t) s t) [0..<length m]) (\<lambda>rows.
        Inr (map (\<lambda>i. map (\<lambda>r. fst r ! i) rows) [0..<k], map snd rows)))"

definition slot_shapes :: "nat \<Rightarrow> nat \<Rightarrow> int list list list \<Rightarrow> int list list \<Rightarrow> int list list \<Rightarrow> int list list \<Rightarrow> nat \<Rightarrow> bool" where
  "slot_shapes k E M ss m s t \<longleftrightarrow> E \<le> length (m ! t) \<and>
     list_all (\<lambda>Mi. t < length Mi \<and> E \<le> length (Mi ! t)) M \<and>
     (0 < k \<longrightarrow> t < length ss \<and> k \<le> length (ss ! t)) \<and>
     (0 < k \<and> 0 < E \<longrightarrow> t < length s \<and> E \<le> length (s ! t))"

definition slot_row_failures :: "nat \<Rightarrow> nat \<Rightarrow> int list list list \<Rightarrow> int list list \<Rightarrow> int list list \<Rightarrow> int list list \<Rightarrow> nat \<Rightarrow> string set" where
  "slot_row_failures k E M ss m s t =
     \<Union> (set (map (\<lambda>e. fail (fP (sum_list (map (\<lambda>i. M ! i ! t ! e) [0..<k]) - m ! t ! e) \<noteq> 0) ''S'') [0..<E])) \<union>
     \<Union> (set (map (\<lambda>i.
       fail (fP (sum_list (M ! i ! t)) \<noteq> 1) ''C'' \<union>
       fail (list_ex (\<lambda>x. fP (x * x - x) \<noteq> 0) (M ! i ! t)) ''B'' \<union>
       fail (fP (sum_list (map (\<lambda>e. M ! i ! t ! e * s ! t ! e) [0..<E]) - ss ! t ! i) \<noteq> 0) ''V'') [0..<k]))"

definition slot_failures :: "int list list list \<Rightarrow> int list list \<Rightarrow> int list list \<Rightarrow> int list list \<Rightarrow> string set result" where
  "slot_failures M ss m s =
     (if m = [] then Inl IndexError
      else rbind (rmap (\<lambda>t. if slot_shapes (length M) (length (m ! 0)) M ss m s t
                         then Inr (slot_row_failures (length M) (length (m ! 0)) M ss m s t)
                         else Inl IndexError) [0..<length m]) (\<lambda>rows. Inr (\<Union> (set rows))))"

section \<open>Gate weights\<close>

record bracket_row =
  b_Z :: int
  b_w :: "int list"
  b_rem :: "int list"
  b_gr :: "int list"

definition bracket_row_of :: "int \<Rightarrow> int list \<Rightarrow> bracket_row result" where
  "bracket_row_of C row =
     (let Z = sum_list row in
      if Z = 0 \<and> row \<noteq> [] then Inl ZeroDivisionError
      else Inr \<lparr>b_Z = Z, b_w = map (\<lambda>x. C * x div Z) row, b_rem = map (\<lambda>x. C * x - (C * x div Z) * Z) row,
                b_gr = map (\<lambda>x. Z - 1 - (C * x - (C * x div Z) * Z)) row\<rparr>)"

definition bracket_witness :: "int list list \<Rightarrow> int \<Rightarrow> bracket_row list result" where
  "bracket_witness ss C = rmap (bracket_row_of C) ss"

definition bracket_row_failures :: "int \<Rightarrow> nat \<Rightarrow> nat \<Rightarrow> int list \<Rightarrow> bracket_row \<Rightarrow> string set" where
  "bracket_row_failures C rem_bits w_bits row br =
     fail (fP (sum_list row - b_Z br) \<noteq> 0) ''Zs'' \<union>
     \<Union> (set (map (\<lambda>i.
       fail (fP (b_w br ! i * b_Z br + b_rem br ! i - C * row ! i) \<noteq> 0) ''D'' \<union>
       fail (fP (b_gr br ! i - b_Z br + 1 + b_rem br ! i) \<noteq> 0) ''G'' \<union>
       fail (\<not> fP (b_rem br ! i) < 2 ^ rem_bits) ''Rr'' \<union>
       fail (\<not> fP (b_gr br ! i) < 2 ^ rem_bits) ''Rg'' \<union>
       fail (\<not> fP (b_w br ! i) < 2 ^ w_bits) ''Rw'') [0..<length row]))"

definition bracket_failures :: "bracket_row list \<Rightarrow> int list list \<Rightarrow> int \<Rightarrow> nat \<Rightarrow> nat \<Rightarrow> string set result" where
  "bracket_failures br ss C rem_bits w_bits =
     rbind (rmap (\<lambda>t. if t < length br \<and> list_all (\<lambda>xs. length (ss ! t) \<le> length xs) [b_w (br ! t), b_rem (br ! t), b_gr (br ! t)]
                      then Inr (bracket_row_failures C rem_bits w_bits (ss ! t) (br ! t))
                      else Inl IndexError) [0..<length ss]) (\<lambda>rows. Inr (\<Union> (set rows)))"

section \<open>The combine\<close>

definition topk_combine :: "int list list \<Rightarrow> int list list \<Rightarrow> nat \<Rightarrow> nat \<Rightarrow> int list list result" where
  "topk_combine w D k T =
     (if D = [] then Inl IndexError
      else let F = length (D ! 0) in
        rmap (\<lambda>t. rmap (\<lambda>j. rbind (rmap (\<lambda>i.
            if t < length w \<and> i < length (w ! t) \<and> i * T + t < length D \<and> j < length (D ! (i * T + t))
            then Inr (w ! t ! i * D ! (i * T + t) ! j) else Inl IndexError) [0..<k])
          (\<lambda>ps. Inr (sum_list ps))) [0..<F]) [0..<T])"

section \<open>Collecting failures\<close>

lemma fail_empty [simp]: "fail c n = {} \<longleftrightarrow> \<not> c"
  by (simp add: fail_def)

lemma rows_no_failure:
  assumes "rbind (rmap g [0..<n]) (\<lambda>rows. Inr (\<Union> (set rows))) = Inr {}" and "t < n"
  shows "g t = Inr {}"
proof -
  obtain rows where r: "rmap g [0..<n] = Inr rows" "\<Union> (set rows) = {}" using assms(1) by (auto simp: rbind_Inr_iff)
  have "rows ! t \<in> set rows" "g t = Inr (rows ! t)" using rmap_InrD [OF r(1)] assms(2) by auto
  then show ?thesis using r(2) by simp
qed

lemma no_failure_rows:
  assumes "\<And>t. t < n \<Longrightarrow> g t = Inr {}"
  shows "rbind (rmap g [0..<n]) (\<lambda>rows. Inr (\<Union> (set rows))) = Inr {}"
proof -
  have "rmap g [0..<n] = Inr (map (\<lambda>_. {}) [0..<n])" using assms by (intro rmap_Inr_map) simp
  then show ?thesis by simp
qed

lemma fP_gl: "fP x = 0 \<longleftrightarrow> (of_int x :: gl) = 0"
  by (simp add: fP_def gl_eq_0_iff dvd_eq_mod_eq_0)

lemma fP_range [simp]: "0 \<le> fP x" "fP x < FIELD_P"
  by (simp_all add: fP_def FIELD_P_val)

lemma gl_fP [simp]: "(of_int (fP x) :: gl) = of_int x"
  by (simp add: fP_def)

lemma fP_eqI: "(of_int x :: gl) = of_int y \<Longrightarrow> 0 \<le> y \<Longrightarrow> y < FIELD_P \<Longrightarrow> fP x = y"
  by (simp add: fP_def mod_eq_by_gl)

lemma fP_bool: "fP (x * x - x) = 0 \<longleftrightarrow> fP x \<in> {0, 1}"
proof -
  have "fP (x * x - x) = 0 \<longleftrightarrow> (of_int x :: gl) * (of_int x - 1) = 0"
    by (simp add: fP_gl algebra_simps)
  also have "\<dots> \<longleftrightarrow> (of_int x :: gl) = of_int 0 \<or> (of_int x :: gl) = of_int 1" by simp
  also have "\<dots> \<longleftrightarrow> fP x \<in> {0, 1}" unfolding gl_eq_iff fP_def by (simp add: FIELD_P_val)
  finally show ?thesis .
qed

text \<open>Congruent integers that are close are equal: the step from the field to the integers.\<close>

lemma cong_close_eq:
  assumes "(of_int x :: gl) = of_int y" and "\<bar>x - y\<bar> < FIELD_P"
  shows "x = y"
proof -
  have "FIELD_P dvd x - y" using assms(1) by (simp flip: gl_eq_0_iff)
  then show ?thesis using assms(2) zdvd_imp_le [of FIELD_P "\<bar>x - y\<bar>"] by (cases "x = y") auto
qed
section \<open>The tie-broken scores\<close>

definition tie :: "nat \<Rightarrow> nat \<Rightarrow> int list \<Rightarrow> int list \<Rightarrow> nat \<Rightarrow> int" where
  "tie L E st b e = (st ! e + b ! e) * 2 ^ L + (int E - 1 - int e)"

lemma l_bits_ge: "l_bits E = Inr L \<Longrightarrow> 0 < E \<and> int E \<le> 2 ^ L"
proof -
  assume l: "l_bits E = Inr L"
  then have E: "0 < E" and L: "L = max 1 (bit_length (E - 1))" by (auto simp: l_bits_def split: if_splits)
  have "E - 1 < 2 ^ bit_length (E - 1)" using bit_length_bounds [of "E - 1"] E by (cases "E = 1") auto
  also have "\<dots> \<le> 2 ^ L" unfolding L by (intro power_increasing) auto
  finally have "E \<le> 2 ^ L" using E by linarith
  then have "int E \<le> int (2 ^ L)" by (simp only: of_nat_le_iff)
  then show ?thesis using E by simp
qed

text \<open>Scores decide, and among equal scores the lower index wins.\<close>

lemma tie_less:
  assumes "int E \<le> 2 ^ L" "e < E" "u < E"
  shows "tie L E st b u < tie L E st b e \<longleftrightarrow>
    st ! u + b ! u < st ! e + b ! e \<or> (st ! u + b ! u = st ! e + b ! e \<and> e < u)"
proof -
  let ?q = "\<lambda>e. st ! e + b ! e" and ?K = "2 ^ L :: int"
  have lt: "tie L E st b u < tie L E st b e" if "?q u < ?q e" "e < E" "u < E" for e u
  proof -
    have "(?q u + 1) * ?K \<le> ?q e * ?K" using that by (intro mult_right_mono) auto
    then have "?q u * ?K + ?K \<le> ?q e * ?K" by (simp only: distrib_right mult_1)
    moreover have "tie L E st b e = ?q e * ?K + (int E - 1 - int e)" "tie L E st b u = ?q u * ?K + (int E - 1 - int u)"
      by (simp_all only: tie_def)
    moreover have "int e < int E" using that by simp
    ultimately show ?thesis using assms(1) by linarith
  qed
  consider "?q u < ?q e" | "?q u = ?q e" | "?q e < ?q u" by linarith
  then show ?thesis
  proof cases
    case 2
    then show ?thesis by (auto simp: tie_def)
  qed (use lt [of u e] lt [of e u] assms in auto)
qed

lemma tie_inj: "int E \<le> 2 ^ L \<Longrightarrow> e < E \<Longrightarrow> u < E \<Longrightarrow> tie L E st b u = tie L E st b e \<Longrightarrow> u = e"
  using tie_less [of E L e u st b] tie_less [of E L u e st b] by (metis less_irrefl linorder_neqE_nat linorder_neqE_linordered_idom)

lemma tiebroken_tie:
  assumes "tiebroken q E = Inr qt" "length q = E" "\<And>e. e < E \<Longrightarrow> q ! e = st ! e + b ! e"
  shows "\<exists>L. l_bits E = Inr L \<and> qt = map (tie L E st b) [0..<E]"
proof -
  obtain L where "l_bits E = Inr L" "qt = map (\<lambda>(e, q). q * 2 ^ L + (int E - 1 - int e)) (enumerate 0 q)"
    using assms(1) by (auto simp: tiebroken_def rbind_Inr_iff)
  then show ?thesis using assms(2,3) by (intro exI [of _ L]) (auto simp: nth_enumerate_eq tie_def intro!: nth_equalityI)
qed

section \<open>The honest selection\<close>

lemma py_index_nat_iff: "py_index xs (int e) = Inr y \<longleftrightarrow> e < length xs \<and> y = xs ! e"
  by (auto simp: py_index_def py_pos_def)

lemma take_sorted_top:
  fixes f :: "nat \<Rightarrow> int"
  assumes "e \<in> set (take k (sort_key (\<lambda>e. - f e) [0..<E]))" "u < E" "u \<notin> set (take k (sort_key (\<lambda>e. - f e) [0..<E]))"
  shows "f u \<le> f e"
proof -
  let ?o = "sort_key (\<lambda>e. - f e) [0..<E]"
  have "u \<in> set (drop k ?o)" using assms(2,3) append_take_drop_id [of k ?o] by (metis UnE set_append set_sort set_upt atLeastLessThan_iff le0)
  moreover have "sorted (map (\<lambda>e. - f e) (take k ?o @ drop k ?o))" by simp
  then have "\<forall>x \<in> set (take k ?o). \<forall>y \<in> set (drop k ?o). - f x \<le> - f y"
    unfolding map_append sorted_append by auto
  ultimately show ?thesis using assms(1) by auto
qed

definition top_set :: "(nat \<Rightarrow> int) \<Rightarrow> nat \<Rightarrow> nat set \<Rightarrow> bool" where
  "top_set f E S \<longleftrightarrow> S \<subseteq> {..<E} \<and> (\<forall>e \<in> S. \<forall>u < E. u \<notin> S \<longrightarrow> f u < f e)"

lemma top_set_unique:
  assumes "top_set f E S" "top_set f E S'" "card S = card S'"
  shows "S = S'"
proof (rule ccontr)
  assume ne: "S \<noteq> S'"
  have fin: "finite S" "finite S'" using assms(1,2) by (auto simp: top_set_def intro: finite_subset)
  then have "\<not> S \<subseteq> S'" "\<not> S' \<subseteq> S" using ne assms(3) by (metis card_subset_eq)+
  then obtain x y where "x \<in> S" "x \<notin> S'" "y \<in> S'" "y \<notin> S" by blast
  then have "f y < f x" "f x < f y" using assms(1,2) by (auto simp: top_set_def)
  then show False by simp
qed

lemma honest_row:
  assumes "routing_row_of E k st b = Inr h"
  shows "\<exists>L S. l_bits E = Inr L \<and> E \<le> length st \<and> E \<le> length b \<and> top_set (tie L E st b) E S \<and> card S = k \<and>
    r_m h = map (\<lambda>e. if e \<in> S then 1 else 0) [0..<E] \<and> r_qt h = map (tie L E st b) [0..<E] \<and>
    r_d h = map (\<lambda>e. tie L E st b e - r_tau h) [0..<E] \<and> r_md h = map (\<lambda>e. r_m h ! e * r_d h ! e) [0..<E] \<and>
    r_v h = map (\<lambda>e. 2 * r_md h ! e - r_d h ! e) [0..<E] \<and>
    (0 < k \<longrightarrow> (\<exists>x \<in> S. r_tau h = tie L E st b x \<and> (\<forall>e \<in> S. r_tau h \<le> tie L E st b e)))"
proof -
  obtain q qt i where q: "rmap (\<lambda>e. rbind (py_index st (int e)) (\<lambda>x. rbind (py_index b (int e)) (\<lambda>y. Inr (x + y)))) [0..<E] = Inr q"
    and qt: "tiebroken q E = Inr qt" and i: "py_index (sort_key (\<lambda>e. - (qt ! e)) [0..<E]) (int k - 1) = Inr i"
    and h: "h = (let order = sort_key (\<lambda>e. - (qt ! e)) [0..<E]; sel = take k order; tau = qt ! i;
         m = map (\<lambda>e. if e \<in> set sel then 1 else 0) [0..<E]; d = map (\<lambda>e. qt ! e - tau) [0..<E]; md = map (\<lambda>e. m ! e * d ! e) [0..<E]
     in \<lparr>r_m = m, r_qt = qt, r_tau = tau, r_d = d, r_md = md, r_v = map (\<lambda>e. 2 * md ! e - d ! e) [0..<E]\<rparr>)"
    using assms by (auto simp: routing_row_of_def Let_def rbind_Inr_iff)
  have Q: "length q = E" "E \<le> length st \<and> E \<le> length b" "\<And>e. e < E \<Longrightarrow> q ! e = st ! e + b ! e"
  proof -
    note r = rmap_InrD [OF q]
    show "length q = E" using r by simp
    have *: "e < length st \<and> e < length b \<and> q ! e = st ! e + b ! e" if e: "e < E" for e
    proof -
      have "rbind (py_index st (int e)) (\<lambda>x. rbind (py_index b (int e)) (\<lambda>y. Inr (x + y))) = Inr (q ! e)" using r e by simp
      then show ?thesis by (auto simp: rbind_Inr_iff py_index_nat_iff)
    qed
    then show "\<And>e. e < E \<Longrightarrow> q ! e = st ! e + b ! e" by blast
    have "E \<le> length st" "E \<le> length b" using * [of "E - 1"] by (cases E; simp)+
    then show "E \<le> length st \<and> E \<le> length b" by blast
  qed
  obtain L where L: "l_bits E = Inr L" "qt = map (tie L E st b) [0..<E]" using tiebroken_tie [OF qt Q(1,3)] by blast
  let ?t = "tie L E st b" and ?o = "sort_key (\<lambda>e. - (qt ! e)) [0..<E]"
  let ?S = "set (take k ?o)"
  have E: "int E \<le> 2 ^ L" using l_bits_ge L(1) by blast
  have qe: "qt ! e = ?t e" if "e < E" for e using that L(2) by simp
  have S: "?S \<subseteq> {..<E}" using set_take_subset [of k ?o] by auto
  have top: "top_set ?t E ?S"
    unfolding top_set_def
  proof (intro conjI S ballI allI impI)
    fix e u assume e: "e \<in> ?S" and u: "u < E" "u \<notin> ?S"
    have "?t u \<le> ?t e" using take_sorted_top [OF e u] qe S e u by auto
    moreover have "?t u \<noteq> ?t e" using tie_inj [OF E _ u(1), of e st b] S e u by auto
    ultimately show "?t u < ?t e" by simp
  qed
  have k: "k \<le> E \<and> (0 < k \<longrightarrow> i = ?o ! (k - 1))"
    using i by (auto simp: py_index_def py_pos_def rbind_Inr_iff nat_diff_distrib split: if_splits)
  have iE: "i < E"
  proof -
    obtain a where "i = ?o ! a" "a < length ?o" using i by (auto simp: py_index_def rbind_Inr_iff dest!: py_pos_less)
    then have "i \<in> set ?o" by (metis nth_mem)
    then show ?thesis by simp
  qed
  have card: "card ?S = k" using k distinct_card [of "take k ?o"] by (simp add: distinct_take)
  have tau: "i \<in> ?S \<and> (\<forall>e \<in> ?S. ?t i \<le> ?t e)" if k0: "0 < k"
  proof -
    have last: "i = take k ?o ! (k - 1)" "k - 1 < length (take k ?o)" using k k0 by simp_all
    have "sorted (map (\<lambda>e. - (qt ! e)) ?o)" by simp
    then have srt: "sorted (map (\<lambda>e. - (qt ! e)) (take k ?o))" by (metis sorted_wrt_take take_map)
    have "?t i \<le> ?t e" if e: "e \<in> ?S" for e
    proof -
      obtain j where j: "j < length (take k ?o)" "e = take k ?o ! j" using e by (auto simp: in_set_conv_nth)
      have "map (\<lambda>e. - (qt ! e)) (take k ?o) ! j \<le> map (\<lambda>e. - (qt ! e)) (take k ?o) ! (k - 1)"
        using srt j last(2) k by (intro sorted_nth_mono) auto
      then have "qt ! i \<le> qt ! e" using j last by simp
      moreover have "e < E" using e S by auto
      ultimately show ?thesis using qe iE by simp
    qed
    moreover have "i \<in> ?S" using last nth_mem by metis
    ultimately show ?thesis by blast
  qed
  have tau_h: "r_tau h = ?t i" using h qe [OF iE] by (simp add: Let_def)
  have m: "r_m h = map (\<lambda>e. if e \<in> ?S then 1 else 0) [0..<E]" "r_qt h = map ?t [0..<E]"
    using h L(2) by (simp_all only: Let_def routing_row.simps)
  have d: "r_d h = map (\<lambda>e. qt ! e - qt ! i) [0..<E]" "r_md h = map (\<lambda>e. r_m h ! e * r_d h ! e) [0..<E]"
    "r_v h = map (\<lambda>e. 2 * r_md h ! e - r_d h ! e) [0..<E]"
    using h by (simp_all only: Let_def routing_row.simps)
  have d': "r_d h = map (\<lambda>e. ?t e - r_tau h) [0..<E]" unfolding d(1) tau_h using qe iE by (intro map_cong) auto
  have "0 < k \<longrightarrow> (\<exists>x \<in> ?S. r_tau h = ?t x \<and> (\<forall>e \<in> ?S. r_tau h \<le> ?t e))" using tau tau_h by metis
  then show ?thesis using L(1) Q(2) top card m d' d(2,3) by blast
qed
section \<open>Selection: soundness and completeness\<close>

text \<open>A wrapped threshold: the residues of \<open>x - tau\<close> and \<open>tau - y\<close> fit the range, so their sum cannot
  be the residue of a negative difference.\<close>

lemma threshold_gap:
  assumes g: "threshold_guard_ok width R" and near: "\<bar>x - y\<bar> < 2 ^ width" and ne: "x \<noteq> y"
    and a: "0 \<le> a" "a < 2 ^ R" "(of_int a :: gl) = of_int x - tau" and c: "0 \<le> c" "c < 2 ^ R" "(of_int c :: gl) = tau - of_int y"
  shows "y < x"
proof (rule ccontr)
  assume "\<not> y < x"
  then have lt: "x < y" using ne by simp
  have "(of_int (a + c) :: gl) = of_int (x - y)" using a(3) c(3) by simp
  then have "FIELD_P dvd (a + c) - (x - y)" by (simp only: of_int_diff diff_self flip: gl_eq_0_iff)
  moreover have "0 < (a + c) - (x - y)" using a(1) c(1) lt by linarith
  ultimately have "FIELD_P \<le> (a + c) - (x - y)" by (rule zdvd_imp_le)
  moreover have "2 * 2 ^ R - 1 \<le> FIELD_P - 2 ^ width" using g by (simp add: threshold_guard_ok_def)
  ultimately show False using a(2) c(2) near by linarith
qed

lemma row_failures_empty:
  "routing_row_failures E L k R st b w = {} \<longleftrightarrow> sum_list (map fP (r_m w)) mod FIELD_P = int k mod FIELD_P \<and>
    (\<forall>e < E. fP (r_qt w ! e - st ! e * 2 ^ L - b ! e * 2 ^ L) = int E - 1 - int e \<and> fP (r_d w ! e - r_qt w ! e + r_tau w) = 0 \<and>
      fP (r_v w ! e - 2 * r_md w ! e + r_d w ! e) = 0 \<and> fP (r_m w ! e * r_m w ! e - r_m w ! e) = 0 \<and>
      fP (r_m w ! e * r_d w ! e - r_md w ! e) = 0 \<and> fP (r_v w ! e) < 2 ^ R)"
  by (auto simp: routing_row_failures_def)

lemmas row_no_failure = row_failures_empty [THEN iffD1, THEN conjunct1] row_failures_empty [THEN iffD1, THEN conjunct2, rule_format]

lemma sound_row:
  assumes ok: "routing_row_failures E L k R st b w = {}" and len: "length (r_m w) = E" and L: "int E \<le> 2 ^ L"
    and g: "threshold_guard_ok width R" and near: "\<And>e u. e < E \<Longrightarrow> u < E \<Longrightarrow> \<bar>tie L E st b e - tie L E st b u\<bar> < 2 ^ width"
    and small: "int E < FIELD_P" "int k < FIELD_P"
  shows "let S = {e. e < E \<and> fP (r_m w ! e) = 1} in top_set (tie L E st b) E S \<and> card S = k \<and>
    map fP (r_m w) = map (\<lambda>e. if e \<in> S then 1 else 0) [0..<E]"
proof -
  note F = row_no_failure(2) [OF ok]
  define S where "S = {e. e < E \<and> fP (r_m w ! e) = 1}"
  have b01: "fP (r_m w ! e) \<in> {0, 1}" if "e < E" for e using F [OF that] fP_bool by blast
  have qt: "(of_int (r_qt w ! e) :: gl) = of_int (tie L E st b e)" if "e < E" for e
  proof -
    have "(of_int (fP (r_qt w ! e - st ! e * 2 ^ L - b ! e * 2 ^ L)) :: gl) = of_int (int E - 1 - int e)" using F [OF that] by simp
    then show ?thesis by (simp add: tie_def algebra_simps)
  qed
  have eqs: "(of_int (r_d w ! e) :: gl) = of_int (r_qt w ! e) - of_int (r_tau w)"
    "(of_int (r_v w ! e) :: gl) = 2 * of_int (r_md w ! e) - of_int (r_d w ! e)"
    "(of_int (r_md w ! e) :: gl) = of_int (r_m w ! e) * of_int (r_d w ! e)" if "e < E" for e
    using F [OF that] by (simp_all add: fP_gl algebra_simps)
  have m: "(of_int (r_m w ! e) :: gl) = (if e \<in> S then 1 else 0)" if "e < E" for e
  proof -
    have "(of_int (r_m w ! e) :: gl) = of_int (fP (r_m w ! e))" by simp
    also have "\<dots> = (if e \<in> S then 1 else 0)" using b01 [OF that] that by (auto simp: S_def simp del: gl_fP)
    finally show ?thesis .
  qed
  have top: "top_set (tie L E st b) E S"
    unfolding top_set_def
  proof (intro conjI ballI allI impI)
    fix e u assume e: "e \<in> S" and u: "u < E" "u \<notin> S"
    have eE: "e < E" using e by (simp add: S_def)
    have "(of_int (fP (r_v w ! e)) :: gl) = of_int (tie L E st b e) - of_int (r_tau w)"
      using eqs [OF eE] m [OF eE] qt [OF eE] e by simp
    moreover have "(of_int (fP (r_v w ! u)) :: gl) = of_int (r_tau w) - of_int (tie L E st b u)"
      using eqs [OF u(1)] m [OF u(1)] qt [OF u(1)] u by simp
    moreover have "tie L E st b e \<noteq> tie L E st b u" using tie_inj [OF L u(1) eE] e u by metis
    moreover have "fP (r_v w ! e) < 2 ^ R" "fP (r_v w ! u) < 2 ^ R" using F eE u(1) by blast+
    ultimately show "tie L E st b u < tie L E st b e"
      using threshold_gap [OF g near [OF eE u(1)]] by (metis fP_range(1))
  qed (simp add: S_def subset_eq)
  have S: "S \<subseteq> {..<E}" by (auto simp: S_def)
  have mm: "map fP (r_m w) = map (\<lambda>e. if e \<in> S then 1 else 0) [0..<E]"
    using b01 len by (intro nth_equalityI) (auto simp: S_def)
  have "sum_list (map fP (r_m w)) = (\<Sum>e<E. if e \<in> S then 1 else 0)" unfolding mm by (simp add: sum_list_map_upt)
  also have "\<dots> = int (card S)" using S by (simp add: sum.If_cases Int_absorb2 Int_commute)
  finally have "int (card S) mod FIELD_P = int k mod FIELD_P" using row_no_failure(1) [OF ok] by simp
  moreover have "int (card S) < FIELD_P" using card_mono [OF _ S] small(1) by simp
  ultimately have "card S = k" using small(2) by simp
  then show ?thesis using top mm by (simp add: S_def Let_def)
qed

definition scores_within :: "nat \<Rightarrow> int list list \<Rightarrow> int list \<Rightarrow> bool" where
  "scores_within width s b \<longleftrightarrow> (let E = length (s ! 0); L = max 1 (bit_length (E - 1)) in
     list_all (\<lambda>st. list_all (\<lambda>e. list_all (\<lambda>u. \<bar>tie L E st b e - tie L E st b u\<bar> < 2 ^ width) [0..<E]) [0..<E]) s)"

lemma scores_withinD:
  "scores_within width s b \<Longrightarrow> l_bits (length (s ! 0)) = Inr L \<Longrightarrow> t < length s \<Longrightarrow> e < length (s ! 0) \<Longrightarrow> u < length (s ! 0) \<Longrightarrow>
   \<bar>tie L (length (s ! 0)) (s ! t) b e - tie L (length (s ! 0)) (s ! t) b u\<bar> < 2 ^ width"
  by (auto simp: scores_within_def Let_def list_all_iff l_bits_def split: if_splits)

text \<open>
  Property C12 (\<open>routing_sound\<close>): whatever the prover commits, if no relation of the selection breaks
  modulo the field prime and the words cover the spread of the tie-broken scores under the
  threshold guard, then every row of the committed mask is, modulo the prime, the honest top-k
  mask: higher score first, lower index on ties.
\<close>

theorem routing_sound:
  assumes ok: "routing_failures w s b k R = Inr {}" and words: "threshold_words width wb nw = Inr (n, R)"
    and near: "scores_within width s b" and small: "int (length (s ! 0)) < FIELD_P" "int k < FIELD_P"
    and len: "\<forall>r \<in> set w. length (r_m r) = length (s ! 0)" and honest: "routing_witness s b k = Inr h" and t: "t < length s"
  shows "map fP (r_m (w ! t)) = r_m (h ! t) \<and>
    (\<forall>e u. e < length (s ! 0) \<longrightarrow> u < length (s ! 0) \<longrightarrow> r_m (h ! t) ! e = 1 \<longrightarrow> r_m (h ! t) ! u = 0 \<longrightarrow>
      s ! t ! u + b ! u < s ! t ! e + b ! e \<or> (s ! t ! u + b ! u = s ! t ! e + b ! e \<and> e < u))"
proof -
  let ?E = "length (s ! 0)"
  have ne: "s \<noteq> []" using t by auto
  obtain L where L: "l_bits ?E = Inr L"
    and rows: "rbind (rmap (\<lambda>t. if t < length w \<and> routing_shapes ?E (s ! t) b (w ! t) then Inr (routing_row_failures ?E L k R (s ! t) b (w ! t))
                         else Inl IndexError) [0..<length s]) (\<lambda>rows. Inr (\<Union> (set rows))) = Inr {}"
    using ok ne by (cases "l_bits ?E") (simp_all only: routing_failures_def if_False rbind_simps sum.distinct)
  have row: "t < length w" "routing_row_failures ?E L k R (s ! t) b (w ! t) = {}"
    using rows_no_failure [OF rows t] by (auto split: if_splits)
  have E: "int ?E \<le> 2 ^ L" using l_bits_ge L by blast
  have g: "threshold_guard_ok width R" using words by (auto simp: threshold_words_def Let_def split: if_splits)
  let ?S = "{e. e < ?E \<and> fP (r_m (w ! t) ! e) = 1}"
  have w: "top_set (tie L ?E (s ! t) b) ?E ?S \<and> card ?S = k \<and> map fP (r_m (w ! t)) = map (\<lambda>e. if e \<in> ?S then 1 else 0) [0..<?E]"
    using sound_row [OF row(2) _ E g _ small] len row(1) scores_withinD [OF near L t] unfolding Let_def by simp
  have hs: "rmap (\<lambda>st. routing_row_of ?E k st b) s = Inr h" using honest ne by (simp add: routing_witness_def)
  have "routing_row_of ?E k (s ! t) b = Inr (h ! t)" using rmap_InrD [OF hs] t by simp
  then obtain L' S where h: "l_bits ?E = Inr L'" "top_set (tie L' ?E (s ! t) b) ?E S" "card S = k"
    "r_m (h ! t) = map (\<lambda>e. if e \<in> S then 1 else 0) [0..<?E]" by (blast dest: honest_row)
  have "L' = L" using h(1) L by simp
  then have "S = ?S" using top_set_unique [of "tie L ?E (s ! t) b" ?E S ?S] h(2,3) w by simp
  then have eq: "map fP (r_m (w ! t)) = r_m (h ! t)" using w h(4) by simp
  have "s ! t ! u + b ! u < s ! t ! e + b ! e \<or> (s ! t ! u + b ! u = s ! t ! e + b ! e \<and> e < u)"
    if "e < ?E" "u < ?E" "r_m (h ! t) ! e = 1" "r_m (h ! t) ! u = 0" for e u
  proof -
    have "e \<in> S" "u \<notin> S" using that h(4) by (auto split: if_splits)
    then have "tie L ?E (s ! t) b u < tie L ?E (s ! t) b e" using h(2) \<open>L' = L\<close> that(2) by (simp add: top_set_def)
    then show ?thesis using tie_less [OF E that(1,2)] by simp
  qed
  then show ?thesis using eq by blast
qed

lemma bit_length_2: "bit_length (Suc (Suc 0)) = 2" "bit_length 2 = 2"
  using bit_length_pow2 [of 1] by (simp_all add: numeral_2_eq_2)

theorem routing_sound_witness:
  "\<exists>w h. routing_witness [[5, 5, 7]] [0, 0, 1] 2 = Inr h \<and> routing_failures w [[5, 5, 7]] [0, 0, 1] 2 8 = Inr {} \<and>
     map fP (r_m (w ! 0)) = r_m (h ! 0) \<and> r_m (h ! 0) = [1, 0, 1]"
proof -
  note bl = bit_length_2
  have tb: "tiebroken [5, 5, 8] 3 = Inr [22, 21, 32]" by (simp add: tiebroken_def l_bits_def bl enumerate_eq_zip upt_rec)
  let ?h = "[\<lparr>r_m = [1, 0, 1], r_qt = [22, 21, 32], r_tau = 22, r_d = [0, -1, 10], r_md = [0, 0, 10], r_v = [0, 1, 10]\<rparr>]"
  have h: "routing_witness [[5, 5, 7]] [0, 0, 1] 2 = Inr ?h"
    using tb by (simp add: routing_witness_def routing_row_of_def py_index_def py_pos_def upt_rec Let_def numeral_2_eq_2 numeral_3_eq_3)
  have f: "routing_failures ?h [[5, 5, 7]] [0, 0, 1] 2 8 = Inr {}"
    by (simp add: routing_failures_def l_bits_def bl routing_shapes_def routing_row_failures_def upt_rec fP_def FIELD_P_val fail_def)
  have wd: "threshold_words 7 4 0 = Inr (2, 8)" by (simp add: threshold_words_def threshold_guard_ok_def FIELD_P_val)
  have nr: "scores_within 7 [[5, 5, 7]] [0, 0, 1]" by (simp add: scores_within_def bl Let_def tie_def upt_rec)
  have "map fP (r_m (?h ! 0)) = r_m (?h ! 0)"
    by (rule routing_sound [OF f wd nr _ _ _ h, THEN conjunct1]) (simp_all add: FIELD_P_val)
  then show ?thesis using h f by (intro exI [of _ ?h]) simp
qed

text \<open>
  Fact (\<open>routing_complete\<close>): for scores whose tie-broken values differ by less than the range,
  the honest witness breaks no relation.
\<close>

theorem routing_complete:
  assumes h: "routing_witness s b k = Inr h" and k: "0 < k" and near: "scores_within R s b" and E: "int (length (s ! 0)) \<le> FIELD_P"
  shows "routing_failures h s b k R = Inr {}"
proof -
  let ?E = "length (s ! 0)"
  have ne: "s \<noteq> []" and rows: "rmap (\<lambda>st. routing_row_of ?E k st b) s = Inr h"
    using h by (auto simp: routing_witness_def split: if_splits)
  have row: "routing_row_of ?E k (s ! t) b = Inr (h ! t)" "length h = length s" if "t < length s" for t
    using rmap_InrD [OF rows] that by auto
  obtain L where L: "l_bits ?E = Inr L" using honest_row [OF row(1) [of 0]] ne by auto
  have *: "(if t < length h \<and> routing_shapes ?E (s ! t) b (h ! t) then Inr (routing_row_failures ?E L k R (s ! t) b (h ! t))
            else Inl IndexError) = Inr {}" if t: "t < length s" for t
  proof -
    let ?f = "tie L ?E (s ! t) b"
    obtain L' S where hr: "l_bits ?E = Inr L'" "?E \<le> length (s ! t)" "?E \<le> length b" "top_set (tie L' ?E (s ! t) b) ?E S" "card S = k"
      "r_m (h ! t) = map (\<lambda>e. if e \<in> S then 1 else 0) [0..<?E]" "r_qt (h ! t) = map (tie L' ?E (s ! t) b) [0..<?E]"
      "r_d (h ! t) = map (\<lambda>e. tie L' ?E (s ! t) b e - r_tau (h ! t)) [0..<?E]" "r_md (h ! t) = map (\<lambda>e. r_m (h ! t) ! e * r_d (h ! t) ! e) [0..<?E]"
      "r_v (h ! t) = map (\<lambda>e. 2 * r_md (h ! t) ! e - r_d (h ! t) ! e) [0..<?E]"
      "\<exists>x \<in> S. r_tau (h ! t) = tie L' ?E (s ! t) b x \<and> (\<forall>e \<in> S. r_tau (h ! t) \<le> tie L' ?E (s ! t) b e)"
      using honest_row [OF row(1) [OF t]] k by blast
    have L': "L' = L" using hr(1) L by simp
    obtain x where x: "x \<in> S" "r_tau (h ! t) = ?f x" "\<forall>e \<in> S. r_tau (h ! t) \<le> ?f e" using hr(11) L' by blast
    have S: "S \<subseteq> {..<?E}" "\<And>e u. e \<in> S \<Longrightarrow> u < ?E \<Longrightarrow> u \<notin> S \<Longrightarrow> ?f u < ?f e" using hr(4) L' by (auto simp: top_set_def)
    have shapes: "routing_shapes ?E (s ! t) b (h ! t)" using hr by (simp add: routing_shapes_def)
    have "map fP (r_m (h ! t)) = map (\<lambda>e. if e \<in> S then 1 else 0) [0..<?E]" unfolding hr(6) by (simp add: fP_def FIELD_P_val)
    then have "sum_list (map fP (r_m (h ! t))) = (\<Sum>e<?E. if e \<in> S then 1 else 0)" by (simp only: sum_list_map_upt)
    also have "\<dots> = int k" using S(1) hr(5) by (simp add: sum.If_cases Int_absorb2 Int_commute)
    finally have F2: "sum_list (map fP (r_m (h ! t))) = int k" .
    have v: "0 \<le> r_v (h ! t) ! e \<and> r_v (h ! t) ! e < 2 ^ R" if e: "e < ?E" for e
    proof -
      have near': "\<bar>?f e - ?f x\<bar> < 2 ^ R" using scores_withinD [OF near L t e] x(1) S(1) by auto
      have "r_v (h ! t) ! e = (if e \<in> S then ?f e - ?f x else ?f x - ?f e)" using hr(6,8,9,10) e x(2) L' by simp
      moreover have "e \<in> S \<Longrightarrow> ?f x \<le> ?f e" "e \<notin> S \<Longrightarrow> ?f e < ?f x" using x S(2) e by auto
      ultimately show ?thesis using near' by (auto split: if_splits)
    qed
    have "routing_row_failures ?E L k R (s ! t) b (h ! t) = {}"
      unfolding row_failures_empty
    proof (intro conjI allI impI)
      show "sum_list (map fP (r_m (h ! t))) mod FIELD_P = int k mod FIELD_P" using F2 by simp
      fix e assume e: "e < ?E"
      have eqs: "r_d (h ! t) ! e = r_qt (h ! t) ! e - r_tau (h ! t)" "r_v (h ! t) ! e = 2 * r_md (h ! t) ! e - r_d (h ! t) ! e"
        "r_md (h ! t) ! e = r_m (h ! t) ! e * r_d (h ! t) ! e" "r_m (h ! t) ! e \<in> {0, 1}"
        using hr(6-10) e L' by simp_all
      show "fP (r_qt (h ! t) ! e - s ! t ! e * 2 ^ L - b ! e * 2 ^ L) = int ?E - 1 - int e"
        using hr(7) L' e E by (simp add: tie_def algebra_simps fP_def)
      show "fP (r_d (h ! t) ! e - r_qt (h ! t) ! e + r_tau (h ! t)) = 0" using eqs(1) by (simp add: fP_def)
      show "fP (r_v (h ! t) ! e - 2 * r_md (h ! t) ! e + r_d (h ! t) ! e) = 0" using eqs(2) by (simp add: fP_def)
      show "fP (r_m (h ! t) ! e * r_m (h ! t) ! e - r_m (h ! t) ! e) = 0" using eqs(4) by (auto simp: fP_def)
      show "fP (r_m (h ! t) ! e * r_d (h ! t) ! e - r_md (h ! t) ! e) = 0" using eqs(3) by (simp add: fP_def)
      show "fP (r_v (h ! t) ! e) < 2 ^ R"
        using v [OF e] zmod_le_nonneg_dividend [of "r_v (h ! t) ! e" FIELD_P] by (simp add: fP_def)
    qed
    then show ?thesis using shapes row(2) t by simp
  qed
  show ?thesis unfolding routing_failures_def L using ne no_failure_rows [OF *] by simp
qed

theorem routing_complete_witness:
  "\<exists>h. routing_witness [[5, 5, 7]] [0, 0, 1] 2 = Inr h \<and> routing_failures h [[5, 5, 7]] [0, 0, 1] 2 5 = Inr {}"
proof -
  note bl = bit_length_2
  have tb: "tiebroken [5, 5, 8] 3 = Inr [22, 21, 32]" by (simp add: tiebroken_def l_bits_def bl enumerate_eq_zip upt_rec)
  obtain h where h: "routing_witness [[5, 5, 7]] [0, 0, 1] 2 = Inr h"
    using tb by (simp add: routing_witness_def routing_row_of_def py_index_def py_pos_def upt_rec Let_def numeral_2_eq_2 numeral_3_eq_3)
  have nr: "scores_within 5 [[5, 5, 7]] [0, 0, 1]" by (simp add: scores_within_def bl Let_def tie_def upt_rec)
  show ?thesis using h routing_complete [OF h _ nr] by (simp add: FIELD_P_val)
qed
section \<open>Slot masks: soundness\<close>

lemma one_hot:
  fixes f :: "nat \<Rightarrow> int"
  assumes "\<And>e. e < E \<Longrightarrow> f e \<in> {0, 1}" "(\<Sum>e<E. f e) = 1"
  obtains a where "a < E" "\<And>e. e < E \<Longrightarrow> f e = (if e = a then 1 else 0)"
proof -
  have "\<exists>a < E. f a \<noteq> 0"
  proof (rule ccontr)
    assume "\<not> (\<exists>a < E. f a \<noteq> 0)"
    then have "(\<Sum>e<E. f e) = 0" by (intro sum.neutral) auto
    then show False using assms(2) by simp
  qed
  then obtain a where a: "a < E" "f a = 1" using assms(1) by fastforce
  have "f e = (if e = a then 1 else 0)" if e: "e < E" for e
  proof (cases "e = a")
    case False
    have "f e + f a \<le> (\<Sum>e<E. f e)"
      using sum_mono2 [of "{..<E}" "{e, a}" f] assms(1) a(1) e False by fastforce
    then show ?thesis using a assms e False by fastforce
  qed (use a in simp)
  then show ?thesis using that a(1) by blast
qed

lemma bounded_sum:
  fixes f :: "nat \<Rightarrow> int"
  assumes "\<And>i. i < n \<Longrightarrow> f i \<in> {0, 1}"
  shows "0 \<le> (\<Sum>i<n. f i)" "(\<Sum>i<n. f i) \<le> int n"
proof -
  show "0 \<le> (\<Sum>i<n. f i)" using assms by (intro sum_nonneg) fastforce
  have "(\<Sum>i<n. f i) \<le> (\<Sum>i<n. 1)" using assms by (intro sum_mono) fastforce
  then show "(\<Sum>i<n. f i) \<le> int n" by simp
qed

lemma gl_sum_fP: "(of_int (\<Sum>i<n. fP (f i)) :: gl) = of_int (\<Sum>i<n. f i)"
  by simp

lemma slot_row_no_failure:
  assumes "slot_row_failures k E M ss m s t = {}"
  shows "e < E \<Longrightarrow> fP ((\<Sum>i<k. M ! i ! t ! e) - m ! t ! e) = 0"
    and "i < k \<Longrightarrow> fP (sum_list (M ! i ! t)) = 1 \<and> (\<forall>x \<in> set (M ! i ! t). fP (x * x - x) = 0) \<and>
      fP ((\<Sum>e<E. M ! i ! t ! e * s ! t ! e) - ss ! t ! i) = 0"
  using assms by (auto simp: slot_row_failures_def sum_list_map_upt list_ex_iff)

text \<open>
  Fact (\<open>slot_sound\<close>): if no slot relation breaks and the mask is boolean, the slot masks are one-hot
  rows that match the slots one to one with the selected experts (so exactly as many experts are
  selected as there are slots), and each slot score is the score of its expert.
\<close>

theorem slot_sound:
  assumes ok: "slot_failures M ss m s = Inr {}" and t: "t < length m" and small: "int (length (m ! 0)) < FIELD_P" "int (length M) < FIELD_P"
    and len: "\<forall>Mi \<in> set M. length (Mi ! t) = length (m ! 0)" and mask: "\<forall>e < length (m ! 0). fP (m ! t ! e) \<in> {0, 1}"
  shows "\<exists>sel. bij_betw sel {..<length M} {e. e < length (m ! 0) \<and> fP (m ! t ! e) = 1} \<and>
    (\<forall>i < length M. map fP (M ! i ! t) = map (\<lambda>e. if e = sel i then 1 else 0) [0..<length (m ! 0)] \<and>
      fP (ss ! t ! i) = fP (s ! t ! sel i))"
proof -
  let ?k = "length M" and ?E = "length (m ! 0)"
  let ?x = "\<lambda>i e. fP (M ! i ! t ! e)"
  have ne: "m \<noteq> []" using t by auto
  have "rbind (rmap (\<lambda>t. if slot_shapes ?k ?E M ss m s t then Inr (slot_row_failures ?k ?E M ss m s t) else Inl IndexError) [0..<length m])
    (\<lambda>rows. Inr (\<Union> (set rows))) = (Inr {} :: string set result)"
    using ok ne by (simp add: slot_failures_def)
  from rows_no_failure [OF this t] have row: "slot_row_failures ?k ?E M ss m s t = {}" by (auto split: if_splits)
  note A = slot_row_no_failure(1) [OF row] and B = slot_row_no_failure(2) [OF row]
  have lenM: "length (M ! i ! t) = ?E" if "i < ?k" for i using len that by simp
  have bool: "?x i e \<in> {0, 1}" if i: "i < ?k" and e: "e < ?E" for i e
  proof -
    have "M ! i ! t ! e \<in> set (M ! i ! t)" using e lenM [OF i] by simp
    then have "fP (M ! i ! t ! e * M ! i ! t ! e - M ! i ! t ! e) = 0" using B [OF i] by blast
    then show ?thesis using fP_bool by blast
  qed
  have "\<exists>a < ?E. \<forall>e < ?E. ?x i e = (if e = a then 1 else 0)" if i: "i < ?k" for i
  proof -
    have "(of_int (\<Sum>e<?E. ?x i e) :: gl) = of_int (fP (sum_list (M ! i ! t)))"
      using lenM [OF i] by (simp add: sum_list_eq_sum_nth)
    then have "(of_int (\<Sum>e<?E. ?x i e) :: gl) = of_int 1" using B [OF i] by simp
    then have "(\<Sum>e<?E. ?x i e) = 1"
      using bounded_sum [of ?E "?x i"] bool [OF i] small(1) by (intro gl_inj_canonical) (auto simp: FIELD_P_val)
    then show ?thesis using one_hot [of ?E "?x i"] bool [OF i] by metis
  qed
  then obtain sel where sel: "\<And>i. i < ?k \<Longrightarrow> sel i < ?E" "\<And>i e. i < ?k \<Longrightarrow> e < ?E \<Longrightarrow> ?x i e = (if e = sel i then 1 else 0)"
    by metis
  have count: "int (card {i. i < ?k \<and> sel i = e}) = fP (m ! t ! e)" if e: "e < ?E" for e
  proof -
    have s: "(\<Sum>i<?k. ?x i e) = (\<Sum>i<?k. if sel i = e then 1 else 0)" using sel(2) e by (intro sum.cong) auto
    also have "\<dots> = int (card {i. i < ?k \<and> sel i = e})" by (simp add: sum.If_cases Int_def conj_commute)
    finally have c: "(\<Sum>i<?k. ?x i e) = int (card {i. i < ?k \<and> sel i = e})" .
    have "(of_int (\<Sum>i<?k. ?x i e) :: gl) = of_int (fP (m ! t ! e))"
      unfolding gl_sum_fP using A [OF e] by (simp add: fP_gl)
    then have "(\<Sum>i<?k. ?x i e) = fP (m ! t ! e)"
      using bounded_sum [of ?k "\<lambda>i. ?x i e"] bool e small(2) by (intro gl_inj_canonical) auto
    then show ?thesis using c by simp
  qed
  have inj: "inj_on sel {..<?k}"
  proof (rule inj_onI)
    fix i j assume i: "i \<in> {..<?k}" and j: "j \<in> {..<?k}" and eq: "sel i = sel j"
    have "fP (m ! t ! sel i) \<le> 1" using mask sel(1) i by fastforce
    moreover have "int (card {l. l < ?k \<and> sel l = sel i}) = fP (m ! t ! sel i)" using count sel(1) i by simp
    ultimately have "card {l. l < ?k \<and> sel l = sel i} \<le> 1" by linarith
    moreover have "{i, j} \<subseteq> {l. l < ?k \<and> sel l = sel i}" using i j eq by auto
    ultimately have "card {i, j} \<le> 1" using card_mono [of "{l. l < ?k \<and> sel l = sel i}" "{i, j}"] by simp
    then show "i = j" by (cases "i = j") auto
  qed
  have img: "sel ` {..<?k} = {e. e < ?E \<and> fP (m ! t ! e) = 1}"
  proof (rule set_eqI)
    fix e
    have "e \<in> sel ` {..<?k} \<longleftrightarrow> e < ?E \<and> {i. i < ?k \<and> sel i = e} \<noteq> {}" using sel(1) by auto
    also have "\<dots> \<longleftrightarrow> e < ?E \<and> int (card {i. i < ?k \<and> sel i = e}) \<noteq> 0" by auto
    also have "\<dots> \<longleftrightarrow> e < ?E \<and> fP (m ! t ! e) \<noteq> 0" using count [of e] by (intro conj_cong refl) simp
    also have "\<dots> \<longleftrightarrow> e < ?E \<and> fP (m ! t ! e) = 1" using mask by fastforce
    finally show "e \<in> sel ` {..<?k} \<longleftrightarrow> e \<in> {e. e < ?E \<and> fP (m ! t ! e) = 1}" by simp
  qed
  have val: "fP (ss ! t ! i) = fP (s ! t ! sel i)" if i: "i < ?k" for i
  proof -
    have "(of_int (ss ! t ! i) :: gl) = (\<Sum>e<?E. of_int (M ! i ! t ! e) * of_int (s ! t ! e))" using B [OF i] by (simp add: fP_gl)
    also have "\<dots> = (\<Sum>e<?E. of_int (?x i e) * of_int (s ! t ! e))" by simp
    also have "\<dots> = (\<Sum>e<?E. if e = sel i then of_int (s ! t ! e) else 0)"
      using sel(2) [OF i] by (intro sum.cong) (auto simp del: gl_fP)
    also have "\<dots> = of_int (s ! t ! sel i)" using sel(1) [OF i] by simp
    finally show ?thesis by (simp add: fP_def gl_eq_iff)
  qed
  have "map fP (M ! i ! t) = map (\<lambda>e. if e = sel i then 1 else 0) [0..<?E]" if "i < ?k" for i
    using sel(2) [OF that] lenM [OF that] by (intro nth_equalityI) auto
  then show ?thesis using inj img val by (intro exI [of _ sel]) (simp add: bij_betw_def)
qed

theorem slot_sound_witness:
  "\<exists>sel. bij_betw sel {..<2} {e. e < 3 \<and> fP ([1, 0, 1] ! e) = 1} \<and>
    (\<forall>i < 2. fP ([7, 4] ! i) = fP ([4, 5, 7] ! sel i))"
proof -
  have f: "slot_failures [[[0, 0, 1]], [[1, 0, 0]]] [[7, 4]] [[1, 0, 1]] [[4, 5, 7]] = Inr {}"
    by (simp add: slot_failures_def slot_shapes_def slot_row_failures_def fP_def FIELD_P_val upt_rec)
  have mask: "\<forall>e < length ([[1, 0, 1 :: int]] ! 0). fP ([[1, 0, 1]] ! 0 ! e) \<in> {0, 1}"
    by (simp add: fP_def FIELD_P_val All_less_Suc)
  show ?thesis
    using slot_sound [OF f, of 0, OF _ _ _ _ mask] by (auto simp: FIELD_P_val numeral_2_eq_2 numeral_3_eq_3)
qed
section \<open>Gate weights: soundness\<close>

lemma bracket_division:
  assumes g: "bracket_guard_ok zb rb wb cb" and Z: "0 < Z" "Z < 2 ^ zb" and cs: "0 \<le> x" "x < 2 ^ cb"
    and w: "0 \<le> w" "w < 2 ^ wb" and rem: "0 \<le> rem" "rem < 2 ^ rb" and gr: "0 \<le> gr" "gr < 2 ^ rb"
    and D: "(of_int (w * Z + rem) :: gl) = of_int x" and G: "(of_int gr :: gl) = of_int (Z - 1 - rem)"
  shows "w = x div Z \<and> rem = x mod Z \<and> gr = Z - 1 - rem"
proof -
  have b: "(2::int) ^ wb * 2 ^ zb + 2 ^ rb < FIELD_P" "(2::int) ^ cb < FIELD_P" "(2::int) ^ rb \<le> FIELD_P - 2 ^ (max rb zb) - 1"
    using g by (simp_all add: bracket_guard_ok_def Let_def power_add)
  have "w * Z \<le> 2 ^ wb * 2 ^ zb" using w Z by (intro mult_mono) auto
  then have lhs: "0 \<le> w * Z + rem" "w * Z + rem < FIELD_P" using w Z rem b(1) by (auto intro: add_nonneg_nonneg)
  have eq: "w * Z + rem = x" using D lhs cs b(2) by (intro gl_inj_canonical) auto
  have zmax: "(2::int) ^ zb \<le> 2 ^ (max rb zb)" "(2::int) ^ rb \<le> 2 ^ (max rb zb)" by (intro power_increasing; simp)+
  have "gr = Z - 1 - rem"
  proof (rule cong_close_eq [OF G])
    have "\<bar>gr - (Z - 1 - rem)\<bar> \<le> 2 ^ rb + 2 ^ (max rb zb)"
      using gr Z rem zmax by linarith
    then show "\<bar>gr - (Z - 1 - rem)\<bar> < FIELD_P" using b(3) by linarith
  qed
  moreover from this have "rem < Z" using gr(1) by linarith
  moreover from this have "w = x div Z" "rem = x mod Z"
    using eq rem(1) int_div_pos_eq [of x Z w rem] int_mod_pos_eq [of x Z w rem] by (simp_all add: mult.commute)
  ultimately show ?thesis by simp
qed

lemma bracket_row_no_failure:
  assumes "bracket_row_failures C rb wb row br = {}"
  shows "fP (sum_list row - b_Z br) = 0"
    and "i < length row \<Longrightarrow> fP (b_w br ! i * b_Z br + b_rem br ! i - C * row ! i) = 0 \<and> fP (b_gr br ! i - b_Z br + 1 + b_rem br ! i) = 0 \<and>
      fP (b_rem br ! i) < 2 ^ rb \<and> fP (b_gr br ! i) < 2 ^ rb \<and> fP (b_w br ! i) < 2 ^ wb"
  using assms by (auto simp: bracket_row_failures_def)

text \<open>
  Fact (\<open>bracket_sound\<close>): if no relation of the gate bracket breaks modulo the field prime, the
  guard holds, and the slot scores are in their range, the committed weights are exactly the
  honest ones: \<open>w\<close> is the rounded-down quotient \<open>C * ss / Z\<close>.
\<close>

theorem bracket_sound:
  assumes ok: "bracket_failures br ss C rb wb = Inr {}" and g: "bracket_guard_ok zb rb wb cb"
    and rng: "list_all (\<lambda>row. 0 < sum_list row \<and> sum_list row < 2 ^ zb \<and> list_all (\<lambda>x. 0 \<le> C * x \<and> C * x < 2 ^ cb) row) ss"
    and len: "list_all (\<lambda>t. length (b_w (br ! t)) = length (ss ! t)) [0..<length ss]"
    and honest: "bracket_witness ss C = Inr h" and t: "t < length ss"
  shows "fP (b_Z (br ! t)) = b_Z (h ! t) \<and> map fP (b_w (br ! t)) = b_w (h ! t)"
proof -
  let ?row = "ss ! t" and ?b = "br ! t"
  have row: "bracket_row_failures C rb wb ?row ?b = {}"
    using rows_no_failure [OF ok [unfolded bracket_failures_def] t] by (auto split: if_splits)
  note F = bracket_row_no_failure [OF row]
  have "?row \<in> set ss" using t by simp
  then have r: "0 < sum_list ?row" "sum_list ?row < 2 ^ zb" "\<And>x. x \<in> set ?row \<Longrightarrow> 0 \<le> C * x \<and> C * x < 2 ^ cb"
    using rng unfolding list_all_iff by blast+
  have "bracket_row_of C ?row = Inr (h ! t)" using rmap_InrD [OF honest [unfolded bracket_witness_def]] t by simp
  then have h: "b_Z (h ! t) = sum_list ?row" "b_w (h ! t) = map (\<lambda>x. C * x div sum_list ?row) ?row"
    by (auto simp: bracket_row_of_def Let_def dest!: sym [of _ "h ! t"] split: if_splits)
  have "(2::int) ^ zb \<le> 2 ^ (wb + zb)" by (intro power_increasing) auto
  then have zP: "(2::int) ^ zb < FIELD_P" using g unfolding bracket_guard_ok_def Let_def by (smt (verit) zero_less_power)
  have Z: "(of_int (b_Z ?b) :: gl) = of_int (sum_list ?row)" using F(1) by (simp add: fP_gl)
  have "fP (b_Z ?b) = sum_list ?row" using Z r(1,2) zP by (intro fP_eqI) auto
  moreover have "map fP (b_w ?b) = b_w (h ! t)"
  proof (rule nth_equalityI)
    show lw: "length (map fP (b_w ?b)) = length (b_w (h ! t))" using len t by (simp add: h(2) list_all_iff)
    fix i assume "i < length (map fP (b_w ?b))"
    then have i: "i < length ?row" "i < length (b_w ?b)" using lw by (simp_all add: h(2))
    note Fi = F(2) [OF i(1)]
    have x: "0 \<le> C * ?row ! i" "C * ?row ! i < 2 ^ cb" using r(3) i(1) by auto
    have D: "(of_int (fP (b_w ?b ! i) * sum_list ?row + fP (b_rem ?b ! i)) :: gl) = of_int (C * ?row ! i)"
      using Fi Z by (simp add: fP_gl)
    have G: "(of_int (fP (b_gr ?b ! i)) :: gl) = of_int (sum_list ?row - 1 - fP (b_rem ?b ! i))"
      using Fi Z by (simp add: fP_gl algebra_simps)
    have "fP (b_w ?b ! i) = C * ?row ! i div sum_list ?row"
      using bracket_division [OF g r(1,2) x _ _ _ _ _ _ D G] Fi by simp
    then show "map fP (b_w ?b) ! i = b_w (h ! t) ! i" using i by (simp add: h(2))
  qed
  ultimately show ?thesis using h(1) by simp
qed

theorem bracket_sound_witness:
  "\<exists>h br. bracket_witness [[3, 5]] 100 = Inr h \<and> bracket_failures br [[3, 5]] 100 4 7 = Inr {} \<and>
     map fP (b_w (br ! 0)) = b_w (h ! 0) \<and> b_w (h ! 0) = [37, 62]"
proof -
  let ?h = "[\<lparr>b_Z = 8, b_w = [37, 62], b_rem = [4, 4], b_gr = [3, 3]\<rparr>]"
  have h: "bracket_witness [[3, 5]] 100 = Inr ?h" by (simp add: bracket_witness_def bracket_row_of_def Let_def)
  have f: "bracket_failures ?h [[3, 5]] 100 4 7 = Inr {}"
    by (simp add: bracket_failures_def bracket_row_failures_def fP_def FIELD_P_val fail_def)
  have g: "bracket_guard_ok 4 4 7 9" by (simp add: bracket_guard_ok_def FIELD_P_val)
  have "fP (b_Z (?h ! 0)) = b_Z (?h ! 0) \<and> map fP (b_w (?h ! 0)) = b_w (?h ! 0)"
    by (rule bracket_sound [OF f g _ _ h]) simp_all
  then show ?thesis using h f by (intro exI [of _ ?h]) simp
qed

end
