(* ===== verification/ShardPlan.thy ===== *)
theory ShardPlan
  imports VI_Prelude "HOL-Library.Product_Lexorder" "HOL-Library.Multiset"
begin

text \<open>
  The weight-split shard plans of \<^verbatim>\<open>prover/shard_plan.py\<close>: validation of the runs that assign weight
  variables to devices, the plan with its two stages, and its accessors. Runs are triples of true
  integers; the source's checks that a run is a triple of ints and not, say, of floats or bools have
  no counterpart in typed data.
\<close>

section \<open>Validation\<close>

type_synonym run = "int \<times> int \<times> int"

text \<open>The per-run checks, with the devices seen so far.\<close>

fun check_runs :: "int \<Rightarrow> int list \<Rightarrow> run list \<Rightarrow> unit result" where
  "check_runs n_vars seen [] = Inr ()"
| "check_runs n_vars seen ((dev, lo, hi) # rs) =
     (if dev < 0 then Inl ValueError
      else if \<not> (0 \<le> lo \<and> lo \<le> hi \<and> hi \<le> n_vars) then Inl ValueError
      else if dev \<in> set seen then Inl ValueError
      else check_runs n_vars (dev # seen) rs)"

text \<open>The sweep over the sorted runs: no gap, no overlap; the result is the end position.\<close>

fun tile_runs :: "int \<Rightarrow> run list \<Rightarrow> int result" where
  "tile_runs p [] = Inr p"
| "tile_runs p ((dev, lo, hi) # rs) =
     (if hi = lo then tile_runs p rs
      else if lo > p then Inl ValueError
      else if lo < p then Inl ValueError
      else tile_runs hi rs)"

definition run_key :: "run \<Rightarrow> int \<times> int" where
  "run_key r = (case r of (dev, lo, hi) \<Rightarrow> (lo, hi))"

definition validate_runs :: "run list \<Rightarrow> int \<Rightarrow> run list result" where
  "validate_runs runs n_vars =
     (if n_vars < 0 then Inl ValueError
      else rbind (check_runs n_vars [] runs) (\<lambda>_.
        let ordered = sort_key run_key runs in
        rbind (tile_runs 0 ordered) (\<lambda>p.
          if p \<noteq> n_vars then Inl ValueError else Inr ordered)))"

section \<open>Plans\<close>

record shard_plan =
  sp_fold :: "run list"
  sp_open :: "run list"
  sp_devices :: "(int \<times> string option) list"

definition enum_runs :: "(int \<times> int) list \<Rightarrow> run list" where
  "enum_runs pairs = map (\<lambda>(d, lo, hi). (int d, lo, hi)) (enumerate 0 pairs)"

definition from_pairs :: "(int \<times> int) list \<Rightarrow> (int \<times> int) list option \<Rightarrow> (int \<times> string option) list option \<Rightarrow> shard_plan" where
  "from_pairs fold_pairs open_pairs devices =
     (let open_pairs = (case open_pairs of None \<Rightarrow> fold_pairs | Some ps \<Rightarrow> ps) in
      \<lparr>sp_fold = enum_runs fold_pairs, sp_open = enum_runs open_pairs, sp_devices = (case devices of None \<Rightarrow> [] | Some ds \<Rightarrow> ds)\<rparr>)"

definition two_way :: "int \<Rightarrow> int option \<Rightarrow> shard_plan" where
  "two_way cut_fold cut_open =
     (let cut_open = (case cut_open of None \<Rightarrow> cut_fold | Some c \<Rightarrow> c) in
      \<lparr>sp_fold = [(0, 0, cut_fold), (1, cut_fold, -1)], sp_open = [(0, 0, cut_open), (1, cut_open, -1)], sp_devices = []\<rparr>)"

definition fill_runs :: "int \<Rightarrow> run list \<Rightarrow> run list" where
  "fill_runs n_vars runs = map (\<lambda>(d, lo, hi). if hi = -1 then (d, lo, n_vars) else (d, lo, hi)) runs"

definition validated :: "shard_plan \<Rightarrow> int \<Rightarrow> shard_plan result" where
  "validated p n_vars =
     rbind (validate_runs (fill_runs n_vars (sp_fold p)) n_vars) (\<lambda>f.
     rbind (validate_runs (fill_runs n_vars (sp_open p)) n_vars) (\<lambda>op.
       let used = map fst (f @ op) in
       if list_ex (\<lambda>(d, _). d \<notin> set used) (sp_devices p) then Inl ValueError
       else Inr \<lparr>sp_fold = f, sp_open = op, sp_devices = sp_devices p\<rparr>))"

definition plan_runs :: "shard_plan \<Rightarrow> string \<Rightarrow> run list result" where
  "plan_runs p stage =
     (if stage = ''fold'' then Inr (sp_fold p) else if stage = ''open'' then Inr (sp_open p) else Inl ValueError)"

definition worker_runs :: "shard_plan \<Rightarrow> string \<Rightarrow> run list result" where
  "worker_runs p stage = rbind (plan_runs p stage) (\<lambda>rs. Inr (filter (\<lambda>(d, lo, hi). d \<noteq> 0 \<and> hi > lo) rs))"

definition coordinator_run :: "shard_plan \<Rightarrow> string \<Rightarrow> (int \<times> int) result" where
  "coordinator_run p stage =
     rbind (plan_runs p stage) (\<lambda>rs. Inr (case find (\<lambda>(d, _, _). d = 0) rs of None \<Rightarrow> (0, 0) | Some (_, lo, hi) \<Rightarrow> (lo, hi)))"

text \<open>Python's slice of a list, for bounds of either sign.\<close>

definition py_bound :: "nat \<Rightarrow> int \<Rightarrow> nat" where
  "py_bound n i = (if i < 0 then nat (max 0 (int n + i)) else min n (nat i))"

definition py_slice :: "'a list \<Rightarrow> int \<Rightarrow> int \<Rightarrow> 'a list" where
  "py_slice xs lo hi = (let l = py_bound (length xs) lo; h = py_bound (length xs) hi in take (h - l) (drop l xs))"

definition owned_ids :: "shard_plan \<Rightarrow> int \<Rightarrow> string \<Rightarrow> int list \<Rightarrow> int set result" where
  "owned_ids p device stage weight_vars =
     rbind (plan_runs p stage) (\<lambda>rs.
       Inr (case find (\<lambda>(d, _, _). d = device) rs of None \<Rightarrow> {} | Some (_, lo, hi) \<Rightarrow> set (py_slice weight_vars lo hi)))"

definition device_of :: "shard_plan \<Rightarrow> int \<Rightarrow> string option" where
  "device_of p device = (case map_of (sp_devices p) device of None \<Rightarrow> None | Some spec \<Rightarrow> spec)"

definition n_devices :: "shard_plan \<Rightarrow> int" where
  "n_devices p = 1 + (let ds = map fst (sp_fold p @ sp_open p) in if ds = [] then 0 else Max (set ds))"

text \<open>What \<open>as_plan\<close> accepts: a plan, a pair of run-pair lists, or anything else (a \<open>TypeError\<close>).\<close>

datatype plan_arg = PlanObject shard_plan | PlanPairs "(int \<times> int) list" "(int \<times> int) list option" | PlanOther

fun as_plan :: "plan_arg \<Rightarrow> int \<Rightarrow> shard_plan result" where
  "as_plan (PlanObject p) n_vars = validated p n_vars"
| "as_plan (PlanPairs fold_pairs open_pairs) n_vars = validated (from_pairs fold_pairs open_pairs None) n_vars"
| "as_plan PlanOther n_vars = Inl TypeError"

section \<open>What validation accepts\<close>

definition owns :: "run \<Rightarrow> int \<Rightarrow> bool" where
  "owns r v = (case r of (dev, lo, hi) \<Rightarrow> lo \<le> v \<and> v < hi)"

lemma check_runs_iff:
  "check_runs n seen rs = Inr () \<longleftrightarrow> distinct (map fst rs) \<and> set (map fst rs) \<inter> set seen = {} \<and>
     (\<forall>(dev, lo, hi) \<in> set rs. 0 \<le> dev \<and> 0 \<le> lo \<and> lo \<le> hi \<and> hi \<le> n)"
  by (induction n seen rs rule: check_runs.induct) auto

lemma tile_runs_covers:
  "tile_runs p rs = Inr q \<Longrightarrow> \<forall>(dev, lo, hi) \<in> set rs. lo \<le> hi \<Longrightarrow>
   p \<le> q \<and> (\<forall>r \<in> set rs. \<forall>v. owns r v \<longrightarrow> p \<le> v \<and> v < q) \<and> (\<forall>v. p \<le> v \<and> v < q \<longrightarrow> (\<exists>r \<in> set rs. owns r v)) \<and>
   (\<forall>r \<in> set rs. \<forall>r' \<in> set rs. \<forall>v. owns r v \<and> owns r' v \<longrightarrow> r = r')"
proof (induction p rs rule: tile_runs.induct)
  case (1 p)
  then show ?case by simp
next
  case (2 p dev lo hi rs)
  show ?case
  proof (cases "hi = lo")
    case True
    have no: "\<not> owns (dev, lo, hi) v" for v using True by (simp add: owns_def)
    have "tile_runs p rs = Inr q" using 2(3) True by simp
    with 2(1) [OF True this] 2(4) no show ?thesis unfolding list.set ball_simps bex_simps by blast
  next
    case False
    then have lo: "lo = p" "lo < hi" and t: "tile_runs hi rs = Inr q" using 2(3,4) by (auto split: if_splits)
    have I: "hi \<le> q \<and> (\<forall>r \<in> set rs. \<forall>v. owns r v \<longrightarrow> hi \<le> v \<and> v < q) \<and> (\<forall>v. hi \<le> v \<and> v < q \<longrightarrow> (\<exists>r \<in> set rs. owns r v)) \<and>
        (\<forall>r \<in> set rs. \<forall>r' \<in> set rs. \<forall>v. owns r v \<and> owns r' v \<longrightarrow> r = r')"
      by (rule 2(2) [OF False _ _ t]) (use lo 2(4) in simp_all)
    then have IH: "hi \<le> q" "\<And>r v. r \<in> set rs \<Longrightarrow> owns r v \<Longrightarrow> hi \<le> v \<and> v < q" "\<And>v. hi \<le> v \<Longrightarrow> v < q \<Longrightarrow> \<exists>r \<in> set rs. owns r v"
      "\<And>r r' v. r \<in> set rs \<Longrightarrow> r' \<in> set rs \<Longrightarrow> owns r v \<Longrightarrow> owns r' v \<Longrightarrow> r = r'"
      by blast+
    have first: "owns (dev, lo, hi) v \<longleftrightarrow> p \<le> v \<and> v < hi" for v by (simp add: owns_def lo)
    have apart: "\<not> (owns (dev, lo, hi) v \<and> owns r v)" if "r \<in> set rs" for r v
      using IH(2) [OF that, of v] first by fastforce
    have cover: "\<exists>r \<in> set ((dev, lo, hi) # rs). owns r v" if "p \<le> v" "v < q" for v
      using IH(3) [of v] first that by (cases "v < hi") auto
    have inside: "p \<le> v \<and> v < q" if "r \<in> set ((dev, lo, hi) # rs)" "owns r v" for r v
    proof (cases "r = (dev, lo, hi)")
      case True
      then have "p \<le> v" "v < hi" using that(2) first by simp_all
      then show ?thesis using IH(1) by linarith
    next
      case False
      then have "hi \<le> v \<and> v < q" using that IH(2) by simp
      then show ?thesis using lo by linarith
    qed
    have one: "r = r'" if "r \<in> set ((dev, lo, hi) # rs)" "r' \<in> set ((dev, lo, hi) # rs)" "owns r v" "owns r' v" for r r' v
      using that apart IH(4) unfolding list.set by blast
    have "p \<le> q" using IH(1) lo by linarith
    then show ?thesis using cover inside one by (intro conjI ballI allI impI; (elim conjE)?) blast+
  qed
qed

text \<open>And the other way: runs that own each position once, sorted, pass the sweep.\<close>

lemma tile_runs_accepts:
  assumes "sorted (map run_key rs)" "\<And>dev lo hi. (dev, lo, hi) \<in> set rs \<Longrightarrow> lo \<le> hi \<and> hi \<le> q \<and> (lo < hi \<longrightarrow> p \<le> lo)" "p \<le> q" "distinct rs"
    and "\<And>v. p \<le> v \<Longrightarrow> v < q \<Longrightarrow> \<exists>r \<in> set rs. owns r v" "\<And>r r' v. r \<in> set rs \<Longrightarrow> r' \<in> set rs \<Longrightarrow> owns r v \<Longrightarrow> owns r' v \<Longrightarrow> r = r'"
  shows "tile_runs p rs = Inr q"
  using assms
proof (induction p rs rule: tile_runs.induct)
  case (1 p)
  then have "\<not> p < q" by fastforce
  then show ?case using 1(3) by simp
next
  case (2 p dev lo hi rs)
  note bounds = 2(4) and cover = 2(7) and one = 2(8)
  have first: "owns (dev, lo, hi) v \<longleftrightarrow> lo \<le> v \<and> v < hi" for v by (simp add: owns_def)
  have rest: "sorted (map run_key rs)" "distinct rs" "\<And>r r' v. r \<in> set rs \<Longrightarrow> r' \<in> set rs \<Longrightarrow> owns r v \<Longrightarrow> owns r' v \<Longrightarrow> r = r'"
    using 2(3,6) one by (simp, simp, metis list.set_intros(2))
  have after: "lo \<le> lo'" if "(d, lo', hi') \<in> set rs" for d lo' hi'
    using 2(3) that by (fastforce simp: run_key_def less_eq_prod_def)
  show ?case
  proof (cases "hi = lo")
    case True
    have "\<exists>r \<in> set rs. owns r v" if "p \<le> v" "v < q" for v using cover [OF that] first True by auto
    then have "tile_runs p rs = Inr q" using bounds rest by (intro "2.IH"(1) [OF True _ _ 2(5)]) auto
    then show ?thesis using True by simp
  next
    case False
    have b: "p \<le> lo" "lo < hi" "hi \<le> q" using bounds [of dev lo hi] False by auto
    have "\<not> p < lo"
    proof
      assume "p < lo"
      then obtain r where r: "r \<in> set ((dev, lo, hi) # rs)" "owns r p" using cover [of p] b by auto
      obtain d l h where dl: "r = (d, l, h)" by (cases r)
      then have "l \<le> p" using r(2) by (simp add: owns_def)
      then show False using r(1) dl \<open>p < lo\<close> after [of d l h] by auto
    qed
    then have lo: "lo = p" using b by simp
    have next_lo: "hi \<le> lo'" if r: "(d, lo', hi') \<in> set rs" "lo' < hi'" for d lo' hi'
    proof (rule ccontr)
      assume "\<not> hi \<le> lo'"
      then have "owns (dev, lo, hi) lo'" "owns (d, lo', hi') lo'" using after [OF r(1)] r(2) by (simp_all add: owns_def)
      then have "(dev, lo, hi) = (d, lo', hi')" using one r(1) by (metis list.set_intros(1,2))
      then show False using r 2(6) by auto
    qed
    have "\<exists>r \<in> set rs. owns r v" if "hi \<le> v" "v < q" for v using cover [of v] first b that by auto
    then have "tile_runs hi rs = Inr q" using bounds rest next_lo lo by (intro "2.IH"(2) [OF False _ _ _ _ b(3)]) auto
    then show ?thesis using False lo by simp
  qed
qed
definition run_ok :: "int \<Rightarrow> run \<Rightarrow> bool" where
  "run_ok n r = (case r of (dev, lo, hi) \<Rightarrow> 0 \<le> dev \<and> 0 \<le> lo \<and> lo \<le> hi \<and> hi \<le> n)"

text \<open>One stage's runs split the variables: distinct devices, in range, each variable owned once.\<close>

definition splits_vars :: "run list \<Rightarrow> int \<Rightarrow> bool" where
  "splits_vars rs n \<longleftrightarrow> 0 \<le> n \<and> distinct (map fst rs) \<and> (\<forall>r \<in> set rs. run_ok n r) \<and>
     (\<forall>v. 0 \<le> v \<and> v < n \<longrightarrow> (\<exists>!r. r \<in> set rs \<and> owns r v))"

lemma validate_runs_splits:
  "validate_runs runs n = Inr rs \<longleftrightarrow> rs = sort_key run_key runs \<and> splits_vars runs n"
proof
  assume v: "validate_runs runs n = Inr rs"
  then have n: "0 \<le> n" "check_runs n [] runs = Inr ()" "tile_runs 0 (sort_key run_key runs) = Inr n" "rs = sort_key run_key runs"
    by (auto simp: validate_runs_def Let_def rbind_Inr_iff split: if_splits)
  have c: "distinct (map fst runs)" "\<forall>r \<in> set runs. run_ok n r" using n(2) by (auto simp: check_runs_iff run_ok_def)
  have "\<forall>(dev, lo, hi) \<in> set (sort_key run_key runs). lo \<le> hi" using c(2) by (auto simp: run_ok_def)
  note t = tile_runs_covers [OF n(3) this]
  have ex: "\<exists>r. r \<in> set runs \<and> owns r v" if "0 \<le> v" "v < n" for v using t that unfolding set_sort by blast
  have un: "r = r'" if "r \<in> set runs" "r' \<in> set runs" "owns r v" "owns r' v" for r r' v using t that unfolding set_sort by blast
  have "\<exists>!r. r \<in> set runs \<and> owns r v" if "0 \<le> v \<and> v < n" for v using ex [of v] un [of _ _ v] that by blast
  then show "rs = sort_key run_key runs \<and> splits_vars runs n" using n(1,4) c by (simp add: splits_vars_def)
next
  assume s: "rs = sort_key run_key runs \<and> splits_vars runs n"
  have c: "check_runs n [] runs = Inr ()" using s by (auto simp: splits_vars_def check_runs_iff run_ok_def)
  have "distinct (map fst runs)" using s by (simp add: splits_vars_def)
  then have d: "distinct runs" by (simp add: distinct_map)
  have "tile_runs 0 (sort_key run_key runs) = Inr n"
  proof (rule tile_runs_accepts)
    show "lo \<le> hi \<and> hi \<le> n \<and> (lo < hi \<longrightarrow> 0 \<le> lo)" if "(dev, lo, hi) \<in> set (sort_key run_key runs)" for dev lo hi
      using s that by (auto simp: splits_vars_def run_ok_def)
    show "\<exists>r \<in> set (sort_key run_key runs). owns r v" if "0 \<le> v" "v < n" for v
      using s that unfolding splits_vars_def set_sort by blast
    show "r = r'" if r: "r \<in> set (sort_key run_key runs)" "r' \<in> set (sort_key run_key runs)" "owns r v" "owns r' v" for r r' v
    proof -
      have "run_ok n r" using s r by (simp add: splits_vars_def)
      then have "0 \<le> v \<and> v < n" using r(3) by (auto simp: owns_def run_ok_def)
      then show ?thesis using s r unfolding splits_vars_def set_sort by blast
    qed
  qed (use s d in \<open>simp_all add: splits_vars_def distinct_sort\<close>)
  then show "validate_runs runs n = Inr rs" using s c by (simp add: validate_runs_def splits_vars_def)
qed

text \<open>
  Property C33 (\<open>validate_runs_exact\<close>): validation accepts exactly the run lists with distinct non-negative
  devices and in-range bounds in which every variable is owned by exactly one run; it returns
  them sorted by position, and otherwise raises \<open>ValueError\<close>.
\<close>

theorem validate_runs_exact:
  "validate_runs runs n = (if splits_vars runs n then Inr (sort_key run_key runs) else Inl ValueError)"
proof -
  have chk: "check_runs n seen rs = Inr () \<or> check_runs n seen rs = Inl ValueError" for seen rs by (induction n seen rs rule: check_runs.induct) auto
  have til: "(\<exists>q. tile_runs p rs = Inr q) \<or> tile_runs p rs = Inl ValueError" for p rs by (induction p rs rule: tile_runs.induct) auto
  have "(\<exists>rs. validate_runs runs n = Inr rs) \<or> validate_runs runs n = Inl ValueError"
    using chk [of "[]" runs] til [of 0 "sort_key run_key runs"] by (auto simp: validate_runs_def Let_def split: if_splits)
  then show ?thesis using validate_runs_splits [of runs n] by (cases "splits_vars runs n") auto
qed

text \<open>
  Fact (\<open>plan_owners_partition\<close>): in a validated plan, at either stage, the sets of variables the
  devices own cover all weight variables and never overlap; a device map of a validated plan
  names only devices with a run.
\<close>

theorem plan_owners_partition:
  assumes v: "validated p (int (length wv)) = Inr q" and st: "stage = ''fold'' \<or> stage = ''open''" and d: "distinct wv"
  shows "\<exists>own. (\<forall>dev. owned_ids q dev stage wv = Inr (own dev)) \<and> (\<Union>dev. own dev) = set wv \<and>
    (\<forall>d1 d2. d1 \<noteq> d2 \<longrightarrow> own d1 \<inter> own d2 = {}) \<and> (\<forall>dev \<in> fst ` set (sp_devices q). dev \<in> fst ` set (sp_fold q @ sp_open q))"
proof -
  let ?n = "int (length wv)"
  obtain f g where fg: "validate_runs (fill_runs ?n (sp_fold p)) ?n = Inr f" "validate_runs (fill_runs ?n (sp_open p)) ?n = Inr g"
    "q = \<lparr>sp_fold = f, sp_open = g, sp_devices = sp_devices p\<rparr>" "\<forall>(dev, _) \<in> set (sp_devices p). dev \<in> set (map fst (f @ g))"
    using v by (auto simp: validated_def Let_def rbind_Inr_iff list_ex_iff case_prod_beta split: if_splits)
  obtain rs raw where rs: "plan_runs q stage = Inr rs" "rs = sort_key run_key raw" "splits_vars raw ?n"
    using fg st by (auto simp: plan_runs_def validate_runs_splits)
  have s: "set rs = set raw" by (simp add: rs(2))
  have "mset (map fst rs) = mset (map fst raw)" by (simp add: rs(2))
  then have dist: "distinct (map fst rs)" using rs(3) by (metis splits_vars_def mset_eq_imp_distinct_iff)
  define own where "own dev = {v. \<exists>lo hi. (dev, lo, hi) \<in> set rs \<and> (\<exists>i. lo \<le> int i \<and> int i < hi \<and> i < length wv \<and> v = wv ! i)}" for dev
  have ok: "0 \<le> lo \<and> lo \<le> hi \<and> hi \<le> ?n" if "(dev, lo, hi) \<in> set rs" for dev lo hi using rs(3) that s by (auto simp: splits_vars_def run_ok_def)
  have slice: "set (py_slice wv lo hi) = {v. \<exists>i. lo \<le> int i \<and> int i < hi \<and> i < length wv \<and> v = wv ! i}"
    if "0 \<le> lo" "lo \<le> hi" "hi \<le> ?n" for lo hi
  proof -
    have "py_bound (length wv) lo = nat lo" "py_bound (length wv) hi = nat hi" using that by (auto simp: py_bound_def)
    then have sl: "py_slice wv lo hi = take (nat hi - nat lo) (drop (nat lo) wv)" by (simp add: py_slice_def Let_def)
    show ?thesis unfolding sl
    proof (intro set_eqI iffI)
      fix x assume "x \<in> set (take (nat hi - nat lo) (drop (nat lo) wv))"
      then obtain j where "j < nat hi - nat lo" "nat lo + j < length wv" "x = wv ! (nat lo + j)" by (auto simp: in_set_conv_nth)
      then show "x \<in> {v. \<exists>i. lo \<le> int i \<and> int i < hi \<and> i < length wv \<and> v = wv ! i}" using that by (intro CollectI exI [of _ "nat lo + j"]) auto
    next
      fix x assume "x \<in> {v. \<exists>i. lo \<le> int i \<and> int i < hi \<and> i < length wv \<and> v = wv ! i}"
      then obtain i where i: "lo \<le> int i" "int i < hi" "i < length wv" "x = wv ! i" by blast
      then have "take (nat hi - nat lo) (drop (nat lo) wv) ! (i - nat lo) = x" "i - nat lo < length (take (nat hi - nat lo) (drop (nat lo) wv))"
        using that by auto
      then show "x \<in> set (take (nat hi - nat lo) (drop (nat lo) wv))" by (metis nth_mem)
    qed
  qed
  have "owned_ids q dev stage wv = Inr (own dev)" for dev
  proof (cases "find (\<lambda>(d, _, _). d = dev) rs")
    case None
    then have "\<not> (\<exists>lo hi. (dev, lo, hi) \<in> set rs)" by (auto simp: find_None_iff)
    then show ?thesis using None rs(1) by (simp add: owned_ids_def own_def)
  next
    case (Some r)
    then obtain lo hi where r: "r = (dev, lo, hi)" "(dev, lo, hi) \<in> set rs"
      by (auto simp: find_Some_iff dest!: nth_mem)
    have "(dev, lo', hi') \<in> set rs \<longleftrightarrow> lo' = lo \<and> hi' = hi" for lo' hi' using dist r(2) by (auto dest: eq_key_imp_eq_value)
    then have "own dev = {v. \<exists>i. lo \<le> int i \<and> int i < hi \<and> i < length wv \<and> v = wv ! i}" by (auto simp: own_def)
    then show ?thesis using Some rs(1) r slice ok [OF r(2)] by (simp add: owned_ids_def)
  qed
  moreover have "(\<Union>dev. own dev) = set wv"
  proof (intro set_eqI iffI)
    fix x assume "x \<in> set wv"
    then obtain i where i: "i < length wv" "x = wv ! i" by (auto simp: in_set_conv_nth)
    have "\<exists>!r. r \<in> set raw \<and> owns r (int i)" using rs(3) i(1) by (simp add: splits_vars_def)
    then obtain r where r: "r \<in> set rs" "owns r (int i)" using s by blast
    obtain dev lo hi where "r = (dev, lo, hi)" by (cases r)
    then show "x \<in> (\<Union>dev. own dev)" using r i by (auto simp: own_def owns_def)
  qed (auto simp: own_def)
  moreover have "own d1 \<inter> own d2 = {}" if "d1 \<noteq> d2" for d1 d2
  proof -
    have False if x: "x \<in> own d1" "x \<in> own d2" for x
    proof -
      obtain lo hi i where a: "(d1, lo, hi) \<in> set rs" "lo \<le> int i" "int i < hi" "i < length wv" "x = wv ! i" using x(1) by (auto simp: own_def)
      obtain lo' hi' j where b: "(d2, lo', hi') \<in> set rs" "lo' \<le> int j" "int j < hi'" "j < length wv" "x = wv ! j" using x(2) by (auto simp: own_def)
      have "i = j" using d a b nth_eq_iff_index_eq by blast
      then have o: "owns (d1, lo, hi) (int i)" "owns (d2, lo', hi') (int i)" using a b by (simp_all add: owns_def)
      have "\<exists>!r. r \<in> set raw \<and> owns r (int i)" using rs(3) a(4) by (simp add: splits_vars_def)
      then have "(d1, lo, hi) = (d2, lo', hi')" using o a(1) b(1) s by blast
      then show False using \<open>d1 \<noteq> d2\<close> by simp
    qed
    then show ?thesis by blast
  qed
  moreover have "\<forall>dev \<in> fst ` set (sp_devices q). dev \<in> fst ` set (sp_fold q @ sp_open q)" using fg(3,4) by force
  ultimately show ?thesis by blast
qed

theorem plan_owners_partition_witness:
  "\<exists>q. validated (two_way 2 (Some 1)) (int (length [10, 11, 12])) = Inr q \<and>
     (\<exists>own. (\<forall>dev. owned_ids q dev ''open'' [10, 11, 12] = Inr (own dev)) \<and> (\<Union>dev. own dev) = {10, 11, 12})"
proof -
  obtain q where q: "validated (two_way 2 (Some 1)) (int (length [10, 11, 12 :: int])) = Inr q"
    by (simp add: validated_def two_way_def fill_runs_def validate_runs_def run_key_def Let_def less_prod_def less_eq_prod_def)
  from plan_owners_partition [OF q, of "''open''"] show ?thesis using q by auto
qed

end
