(* ===== verification/Sha256_Ref.thy ===== *)
theory Sha256_Ref
  imports Bytes
begin

text \<open>
  SHA-256 as its standard states it, on 32-bit words with eight working registers: the abstract
  specification the constraint layout of \<open>Sha256\<close> is compared with, and the model of
  \<^verbatim>\<open>hashlib.sha256\<close>. The tables of constants are those of \<^verbatim>\<open>prover/ref/sha256_trace.py\<close>.
\<close>

unbundle bit_operations_syntax

section \<open>Constants\<close>

definition K_const :: "int list" where
  "K_const = [
    0x428a2f98, 0x71374491, 0xb5c0fbcf, 0xe9b5dba5, 0x3956c25b, 0x59f111f1, 0x923f82a4, 0xab1c5ed5,
    0xd807aa98, 0x12835b01, 0x243185be, 0x550c7dc3, 0x72be5d74, 0x80deb1fe, 0x9bdc06a7, 0xc19bf174,
    0xe49b69c1, 0xefbe4786, 0x0fc19dc6, 0x240ca1cc, 0x2de92c6f, 0x4a7484aa, 0x5cb0a9dc, 0x76f988da,
    0x983e5152, 0xa831c66d, 0xb00327c8, 0xbf597fc7, 0xc6e00bf3, 0xd5a79147, 0x06ca6351, 0x14292967,
    0x27b70a85, 0x2e1b2138, 0x4d2c6dfc, 0x53380d13, 0x650a7354, 0x766a0abb, 0x81c2c92e, 0x92722c85,
    0xa2bfe8a1, 0xa81a664b, 0xc24b8b70, 0xc76c51a3, 0xd192e819, 0xd6990624, 0xf40e3585, 0x106aa070,
    0x19a4c116, 0x1e376c08, 0x2748774c, 0x34b0bcb5, 0x391c0cb3, 0x4ed8aa4a, 0x5b9cca4f, 0x682e6ff3,
    0x748f82ee, 0x78a5636f, 0x84c87814, 0x8cc70208, 0x90befffa, 0xa4506ceb, 0xbef9a3f7, 0xc67178f2]"

definition H0_const :: "int list" where
  "H0_const = [0x6a09e667, 0xbb67ae85, 0x3c6ef372, 0xa54ff53a, 0x510e527f, 0x9b05688c, 0x1f83d9ab, 0x5be0cd19]"

section \<open>Lists built by appending\<close>

lemma foldl_append_build:
  assumes "length xs0 = m" "m \<le> n"
  shows "let xs = foldl (\<lambda>xs r. xs @ [f xs r]) xs0 [m..<n] in
    length xs = n \<and> take m xs = xs0 \<and> (\<forall>r. m \<le> r \<longrightarrow> r < n \<longrightarrow> xs ! r = f (take r xs) r)"
  using assms(2)
proof (induction n rule: dec_induct)
  case base
  then show ?case using assms(1) by simp
next
  case (step n)
  then show ?case using assms(1) by (simp add: Let_def nth_append less_Suc_eq)
qed

lemma concat_upt_Nil: "concat (map f [m..<n]) = [] \<longleftrightarrow> (\<forall>i. m \<le> i \<longrightarrow> i < n \<longrightarrow> f i = [])"
  by auto

section \<open>The compression function\<close>

type_synonym w32 = "32 word"
type_synonym regs = "w32 \<times> w32 \<times> w32 \<times> w32 \<times> w32 \<times> w32 \<times> w32 \<times> w32"

definition BSig0 :: "w32 \<Rightarrow> w32" where "BSig0 x = word_rotr 2 x XOR word_rotr 13 x XOR word_rotr 22 x"
definition BSig1 :: "w32 \<Rightarrow> w32" where "BSig1 x = word_rotr 6 x XOR word_rotr 11 x XOR word_rotr 25 x"
definition SSig0 :: "w32 \<Rightarrow> w32" where "SSig0 x = word_rotr 7 x XOR word_rotr 18 x XOR drop_bit 3 x"
definition SSig1 :: "w32 \<Rightarrow> w32" where "SSig1 x = word_rotr 17 x XOR word_rotr 19 x XOR drop_bit 10 x"
definition Choose :: "w32 \<Rightarrow> w32 \<Rightarrow> w32 \<Rightarrow> w32" where "Choose x y z = (x AND y) XOR (NOT x AND z)"
definition Majority :: "w32 \<Rightarrow> w32 \<Rightarrow> w32 \<Rightarrow> w32" where "Majority x y z = (x AND y) XOR (x AND z) XOR (y AND z)"

definition sched_entry :: "w32 list \<Rightarrow> nat \<Rightarrow> w32" where
  "sched_entry W r = SSig1 (W ! (r - 2)) + W ! (r - 7) + SSig0 (W ! (r - 15)) + W ! (r - 16)"

definition expand_block :: "w32 list \<Rightarrow> w32 list" where
  "expand_block M = foldl (\<lambda>W r. W @ [sched_entry W r]) M [16..<64]"

fun sha_round :: "w32 \<Rightarrow> w32 \<Rightarrow> regs \<Rightarrow> regs" where
  "sha_round k w (a, b, c, d, e, f, g, h) =
     (let T1 = h + BSig1 e + Choose e f g + k + w; T2 = BSig0 a + Majority a b c
      in (T1 + T2, a, b, c, d + T1, e, f, g))"

definition regs_of :: "w32 list \<Rightarrow> regs" where
  "regs_of h = (h ! 0, h ! 1, h ! 2, h ! 3, h ! 4, h ! 5, h ! 6, h ! 7)"

fun list_of_regs :: "regs \<Rightarrow> w32 list" where
  "list_of_regs (a, b, c, d, e, f, g, h) = [a, b, c, d, e, f, g, h]"

definition compress_block :: "w32 list \<Rightarrow> w32 list \<Rightarrow> w32 list" where
  "compress_block h M =
     (let W = expand_block M
      in map2 (+) h (list_of_regs (foldl (\<lambda>s r. sha_round (word_of_int (K_const ! r)) (W ! r) s) (regs_of h) [0..<64])))"

section \<open>Padding and the hash\<close>

definition be_word :: "bytes \<Rightarrow> w32" where
  "be_word bs = word_of_nat (from_le (rev bs))"

definition word_be :: "w32 \<Rightarrow> bytes" where
  "word_be w = rev (le_bytes 4 (unat w))"

definition sha_pad :: "bytes \<Rightarrow> bytes" where
  "sha_pad msg = msg @ [0x80] @ replicate ((119 - length msg mod 64) mod 64) 0 @ rev (le_bytes 8 (8 * length msg))"

definition block_words :: "bytes \<Rightarrow> nat \<Rightarrow> w32 list" where
  "block_words bs k = map (\<lambda>i. be_word (take 4 (drop (64 * k + 4 * i) bs))) [0..<16]"

definition sha256 :: "bytes \<Rightarrow> bytes" where
  "sha256 msg =
     (let p = sha_pad msg
      in concat (map word_be (foldl (\<lambda>h k. compress_block h (block_words p k)) (map word_of_int H0_const) [0..<length p div 64])))"

section \<open>Bit facts\<close>

lemma bit_rotr: "j < 32 \<Longrightarrow> bit (word_rotr k (x :: w32)) j = bit x ((j + k) mod 32)"
  by (simp add: bit_word_rotr_iff)

lemma expand_block_props:
  assumes "length M = 16"
  shows "length (expand_block M) = 64" "\<And>r. r < 16 \<Longrightarrow> expand_block M ! r = M ! r"
    "\<And>r. 16 \<le> r \<Longrightarrow> r < 64 \<Longrightarrow> expand_block M ! r = sched_entry (expand_block M) r"
proof -
  have le: "16 \<le> (64 :: nat)" by simp
  have b: "length (expand_block M) = 64" "take 16 (expand_block M) = M"
    "\<And>r. 16 \<le> r \<Longrightarrow> r < 64 \<Longrightarrow> expand_block M ! r = sched_entry (take r (expand_block M)) r"
    using foldl_append_build [OF assms le, where f = sched_entry, unfolded Let_def, folded expand_block_def] by blast+
  show "length (expand_block M) = 64" by (rule b(1))
  show "expand_block M ! r = M ! r" if "r < 16" for r using b(2) that by (metis nth_take)
  show "expand_block M ! r = sched_entry (expand_block M) r" if "16 \<le> r" "r < 64" for r
    using b(3) [OF that] that by (simp add: sched_entry_def)
qed

end
