(* ===== verification/Sha256.thy ===== *)
theory Sha256
  imports Sha256_Ref
begin

text \<open>
  The SHA-256 constraint layout of \<^verbatim>\<open>prover/ref/sha256_trace.py\<close>: the witness trace of one padded
  block, and the checker that evaluates every constraint of the gadget on a trace. Words are
  Python integers; the bit operators act on them. A trace field is a list or a list of rows.
\<close>

unbundle bit_operations_syntax

section \<open>Constants\<close>

definition MOD32 :: int where
  "MOD32 = 2 ^ 32"

definition M_LO :: nat where "M_LO = 1"
definition M_HI :: nat where "M_HI = 49"
definition N_LO :: nat where "N_LO = 14"
definition N_HI :: nat where "N_HI = 62"
definition NB_HI :: nat where "NB_HI = 64"

section \<open>Word functions\<close>

definition rotr32 :: "int \<Rightarrow> nat \<Rightarrow> int" where
  "rotr32 x k = (drop_bit k x OR push_bit (32 - k) x) AND 0xFFFFFFFF"

definition from_be :: "bytes \<Rightarrow> int" where
  "from_be bs = int (from_le (rev bs))"

definition pad_one_block :: "bytes \<Rightarrow> bytes result" where
  "pad_one_block msg =
     (if length msg \<ge> 56 then Inl AssertionError
      else Inr (msg @ [0x80] @ replicate (55 - length msg) 0 @ rev (le_bytes 8 (8 * length msg))))"

definition bits32 :: "int \<Rightarrow> int list" where
  "bits32 x = map (\<lambda>j. drop_bit j x AND 1) [0..<32]"

definition small_sig0 :: "int \<Rightarrow> int" where
  "small_sig0 x = rotr32 x 7 XOR rotr32 x 18 XOR drop_bit 3 x"

definition small_sig1 :: "int \<Rightarrow> int" where
  "small_sig1 x = rotr32 x 17 XOR rotr32 x 19 XOR drop_bit 10 x"

definition big_sig1 :: "int \<Rightarrow> int" where
  "big_sig1 e = rotr32 e 6 XOR rotr32 e 11 XOR rotr32 e 25"

definition big_sig0 :: "int \<Rightarrow> int" where
  "big_sig0 a = rotr32 a 2 XOR rotr32 a 13 XOR rotr32 a 22"

definition ch_int :: "int \<Rightarrow> int \<Rightarrow> int \<Rightarrow> int" where
  "ch_int e f g = (e AND f) XOR (NOT e AND g AND 0xFFFFFFFF)"

definition maj_int :: "int \<Rightarrow> int \<Rightarrow> int \<Rightarrow> int" where
  "maj_int a b c = (a AND b) XOR (a AND c) XOR (b AND c)"

definition w_full :: "int list \<Rightarrow> nat \<Rightarrow> int" where
  "w_full W r = small_sig1 (W ! (r - 2)) + W ! (r - 7) + small_sig0 (W ! (r - 15)) + W ! (r - 16)"

definition t1_of :: "int list \<Rightarrow> int list \<Rightarrow> nat \<Rightarrow> int" where
  "t1_of E W r = E ! r + big_sig1 (E ! (3 + r)) + ch_int (E ! (3 + r)) (E ! (2 + r)) (E ! (1 + r)) + K_const ! r + W ! r"

definition e_full :: "int list \<Rightarrow> int list \<Rightarrow> int list \<Rightarrow> nat \<Rightarrow> int" where
  "e_full A E W r = A ! r + t1_of E W r"

definition a_full :: "int list \<Rightarrow> int list \<Rightarrow> int list \<Rightarrow> nat \<Rightarrow> int" where
  "a_full A E W r = t1_of E W r + big_sig0 (A ! (3 + r)) + maj_int (A ! (3 + r)) (A ! (2 + r)) (A ! (1 + r))"

section \<open>The trace\<close>

record sha_trace =
  msg_len :: nat
  msg_stride :: "int list list"
  t_W :: "int list"
  t_cw :: "int list"
  t_A :: "int list"
  t_E :: "int list"
  t_ce :: "int list"
  t_ca :: "int list"
  a_bit :: "int list list"
  b_bit :: "int list list"
  c_bit :: "int list list"
  e_bit :: "int list list"
  f_bit :: "int list list"
  g_bit :: "int list list"
  w_bit_m :: "int list list"
  w_bit_n :: "int list list"
  t_x12 :: "int list list"
  t_y12 :: "int list list"
  t_tbc :: "int list list"
  t_p1 :: "int list list"
  t_p2 :: "int list list"
  t_q1 :: "int list list"
  t_q2 :: "int list list"
  t_ef :: "int list list"
  t_eg :: "int list list"
  t_bc :: "int list list"
  t_u :: "int list list"
  t_xm :: "int list list"
  t_m1 :: "int list list"
  t_m2 :: "int list list"
  t_xn :: "int list list"
  t_n1 :: "int list list"
  t_n2 :: "int list list"
  t_cd :: "int list"
  t_digest :: bytes

definition schedule_words :: "int list \<Rightarrow> int list \<times> int list" where
  "schedule_words W0 =
     foldl (\<lambda>(W, cw) r. (W @ [w_full W r mod MOD32], cw @ [w_full W r div MOD32])) (W0, []) [16..<64]"

definition A_prefix :: "int list" where
  "A_prefix = [H0_const ! 3, H0_const ! 2, H0_const ! 1, H0_const ! 0]"

definition E_prefix :: "int list" where
  "E_prefix = [H0_const ! 7, H0_const ! 6, H0_const ! 5, H0_const ! 4]"

definition run_rounds :: "int list \<Rightarrow> int list \<times> int list \<times> int list \<times> int list" where
  "run_rounds W =
     foldl (\<lambda>(A, E, ce, ca) r.
         (A @ [a_full A E W r mod MOD32], E @ [e_full A E W r mod MOD32], ce @ [e_full A E W r div MOD32], ca @ [a_full A E W r div MOD32]))
       (A_prefix, E_prefix, [], []) [0..<64]"

definition grid :: "nat \<Rightarrow> (nat \<Rightarrow> nat \<Rightarrow> int) \<Rightarrow> int list list" where
  "grid m f = map (\<lambda>r. map (f r) [0..<32]) [0..<m]"

definition rot_at :: "int list list \<Rightarrow> nat \<Rightarrow> nat \<Rightarrow> nat \<Rightarrow> int" where
  "rot_at B k r j = B ! r ! ((j + k) mod 32)"

definition high_at :: "int list list \<Rightarrow> nat \<Rightarrow> nat \<Rightarrow> nat \<Rightarrow> int" where
  "high_at B k r j = (if j + k < 32 then B ! r ! (j + k) else 0)"

definition finals :: "int list \<Rightarrow> int list \<Rightarrow> int list" where
  "finals A E = [A ! 67, A ! 66, A ! 65, A ! 64, E ! 67, E ! 66, E ! 65, E ! 64]"

definition trace :: "bytes \<Rightarrow> sha_trace result" where
  "trace msg =
     (if length msg mod 4 \<noteq> 0 \<or> length msg \<ge> 56 then Inl AssertionError
      else rbind (pad_one_block msg) (\<lambda>block.
        let n_words = length msg div 4;
            W0 = map (\<lambda>i. from_be (take 4 (drop (4 * i) block))) [0..<16];
            (W, cw) = schedule_words W0;
            (A, E, ce, ca) = run_rounds W;
            ab = map (\<lambda>r. bits32 (A ! (3 + r))) [0..<64]; bb = map (\<lambda>r. bits32 (A ! (2 + r))) [0..<64]; cb = map (\<lambda>r. bits32 (A ! (1 + r))) [0..<64];
            eb = map (\<lambda>r. bits32 (E ! (3 + r))) [0..<64]; fb = map (\<lambda>r. bits32 (E ! (2 + r))) [0..<64]; gb = map (\<lambda>r. bits32 (E ! (1 + r))) [0..<64];
            wm = map (\<lambda>w. bits32 (W ! w)) [M_LO..<M_HI]; wn = map (\<lambda>w. bits32 (W ! w)) [N_LO..<NB_HI];
            fs = finals A E
        in Inr \<lparr>msg_len = length msg, msg_stride = map (\<lambda>k. map (\<lambda>i. uint (msg ! (4 * i + k))) [0..<n_words]) [0..<4],
             t_W = W, t_cw = cw, t_A = A, t_E = E, t_ce = ce, t_ca = ca,
             a_bit = ab, b_bit = bb, c_bit = cb, e_bit = eb, f_bit = fb, g_bit = gb, w_bit_m = wm, w_bit_n = wn,
             t_x12 = grid 64 (\<lambda>r j. rot_at eb 6 r j XOR rot_at eb 11 r j), t_y12 = grid 64 (\<lambda>r j. rot_at ab 2 r j XOR rot_at ab 13 r j),
             t_tbc = grid 64 (\<lambda>r j. bb ! r ! j XOR cb ! r ! j),
             t_p1 = grid 64 (\<lambda>r j. rot_at eb 6 r j * rot_at eb 11 r j), t_p2 = grid 64 (\<lambda>r j. (rot_at eb 6 r j XOR rot_at eb 11 r j) * rot_at eb 25 r j),
             t_q1 = grid 64 (\<lambda>r j. rot_at ab 2 r j * rot_at ab 13 r j), t_q2 = grid 64 (\<lambda>r j. (rot_at ab 2 r j XOR rot_at ab 13 r j) * rot_at ab 22 r j),
             t_ef = grid 64 (\<lambda>r j. eb ! r ! j * fb ! r ! j), t_eg = grid 64 (\<lambda>r j. eb ! r ! j * gb ! r ! j),
             t_bc = grid 64 (\<lambda>r j. bb ! r ! j * cb ! r ! j), t_u = grid 64 (\<lambda>r j. ab ! r ! j * (bb ! r ! j XOR cb ! r ! j)),
             t_xm = grid 48 (\<lambda>i j. rot_at wm 7 i j XOR rot_at wm 18 i j), t_m1 = grid 48 (\<lambda>i j. rot_at wm 7 i j * rot_at wm 18 i j),
             t_m2 = grid 48 (\<lambda>i j. (rot_at wm 7 i j XOR rot_at wm 18 i j) * high_at wm 3 i j),
             t_xn = grid 48 (\<lambda>i j. rot_at wn 17 i j XOR rot_at wn 19 i j), t_n1 = grid 48 (\<lambda>i j. rot_at wn 17 i j * rot_at wn 19 i j),
             t_n2 = grid 48 (\<lambda>i j. (rot_at wn 17 i j XOR rot_at wn 19 i j) * high_at wn 10 i j),
             t_cd = map (\<lambda>i. (H0_const ! i + fs ! i) div MOD32) [0..<8],
             t_digest = concat (map (\<lambda>i. rev (le_bytes 4 (nat ((H0_const ! i + fs ! i) mod MOD32)))) [0..<8])\<rparr>))"

section \<open>The checker\<close>

type_synonym residuals = "(string \<times> nat list \<times> int) list"

definition req :: "string \<Rightarrow> nat list \<Rightarrow> int \<Rightarrow> int \<Rightarrow> residuals" where
  "req name idx lhs rhs = (if lhs \<noteq> rhs then [(name, idx, lhs - rhs)] else [])"

definition xor2 :: "int \<Rightarrow> int \<Rightarrow> int \<Rightarrow> int" where
  "xor2 x y p = x + y - 2 * p"

definition acc32 :: "(nat \<Rightarrow> int) \<Rightarrow> int" where
  "acc32 f = sum_list (map (\<lambda>j. push_bit j (f j)) [0..<32])"

definition bad_prefix :: "sha_trace \<Rightarrow> residuals" where
  "bad_prefix t = concat (map (\<lambda>i. req ''A_prefix'' [i] (t_A t ! i) (A_prefix ! i) @ req ''E_prefix'' [i] (t_E t ! i) (E_prefix ! i)) [0..<4])"

definition bad_message :: "sha_trace \<Rightarrow> residuals" where
  "bad_message t =
     (let n = msg_len t div 4
      in concat (map (\<lambda>k. concat (map (\<lambda>i. let v = msg_stride t ! k ! i in req ''msg_byte_range'' [k, i] (of_bool (\<not> (0 \<le> v \<and> v < 256))) 0) [0..<n])) [0..<4]) @
         concat (map (\<lambda>i. req ''W_msg_recompose'' [i] (t_W t ! i) (sum_list (map (\<lambda>k. push_bit (8 * (3 - k)) (msg_stride t ! k ! i)) [0..<4]))) [0..<n]))"

definition bad_padding :: "sha_trace \<Rightarrow> bytes \<Rightarrow> residuals" where
  "bad_padding t pad_block =
     concat (map (\<lambda>i. req ''W_pad_public'' [i] (t_W t ! i) (from_be (take 4 (drop (4 * i) pad_block)))) [msg_len t div 4..<16])"

text \<open>One bit class: every bit is 0 or 1 and the bits recompose the word.\<close>

definition bad_bits :: "string \<Rightarrow> nat \<Rightarrow> int list \<Rightarrow> int \<Rightarrow> residuals" where
  "bad_bits name r bits w =
     concat (map (\<lambda>j. req (name @ ''_bool'') [r, j] (bits ! j * bits ! j - bits ! j) 0) [0..<32]) @
     req (name @ ''_recompose'') [r] w (acc32 (\<lambda>j. bits ! j))"

definition bad_roles :: "sha_trace \<Rightarrow> residuals" where
  "bad_roles t =
     concat (map (\<lambda>(name, rows, hist, off). concat (map (\<lambda>r. bad_bits name r (rows ! r) (hist ! (off + r))) [0..<64]))
       [(''a_bit'', a_bit t, t_A t, 3), (''b_bit'', b_bit t, t_A t, 2), (''c_bit'', c_bit t, t_A t, 1 :: nat),
        (''e_bit'', e_bit t, t_E t, 3), (''f_bit'', f_bit t, t_E t, 2), (''g_bit'', g_bit t, t_E t, 1)])"

definition bad_schedule_bits :: "sha_trace \<Rightarrow> residuals" where
  "bad_schedule_bits t =
     concat (map (\<lambda>w. bad_bits ''w_bit_m'' w (w_bit_m t ! (w - M_LO)) (t_W t ! w)) [M_LO..<M_HI]) @
     concat (map (\<lambda>w. bad_bits ''w_bit_n'' w (w_bit_n t ! (w - N_LO)) (t_W t ! w)) [N_LO..<NB_HI])"

text \<open>One round: the products, the exclusive ors and the two additions with carries.\<close>

definition bad_round_bit :: "sha_trace \<Rightarrow> nat \<Rightarrow> nat \<Rightarrow> residuals" where
  "bad_round_bit t r j =
     (let r6 = rot_at (e_bit t) 6 r j; r11 = rot_at (e_bit t) 11 r j; r25 = rot_at (e_bit t) 25 r j;
          r2 = rot_at (a_bit t) 2 r j; r13 = rot_at (a_bit t) 13 r j; r22 = rot_at (a_bit t) 22 r j;
          a = a_bit t ! r ! j; b = b_bit t ! r ! j; c = c_bit t ! r ! j; e = e_bit t ! r ! j; f = f_bit t ! r ! j; g = g_bit t ! r ! j
      in req ''p1_quad'' [r, j] (t_p1 t ! r ! j) (r6 * r11) @
         req ''x12_pin'' [r, j] (t_x12 t ! r ! j) (xor2 r6 r11 (t_p1 t ! r ! j)) @
         req ''p2_quad'' [r, j] (t_p2 t ! r ! j) (t_x12 t ! r ! j * r25) @
         req ''q1_quad'' [r, j] (t_q1 t ! r ! j) (r2 * r13) @
         req ''y12_pin'' [r, j] (t_y12 t ! r ! j) (xor2 r2 r13 (t_q1 t ! r ! j)) @
         req ''q2_quad'' [r, j] (t_q2 t ! r ! j) (t_y12 t ! r ! j * r22) @
         req ''ef_quad'' [r, j] (t_ef t ! r ! j) (e * f) @
         req ''eg_quad'' [r, j] (t_eg t ! r ! j) (e * g) @
         req ''bc_quad'' [r, j] (t_bc t ! r ! j) (b * c) @
         req ''tbc_pin'' [r, j] (t_tbc t ! r ! j) (xor2 b c (t_bc t ! r ! j)) @
         req ''u_quad'' [r, j] (t_u t ! r ! j) (a * t_tbc t ! r ! j))"

definition round_S1 :: "sha_trace \<Rightarrow> nat \<Rightarrow> int" where
  "round_S1 t r = acc32 (\<lambda>j. xor2 (t_x12 t ! r ! j) (rot_at (e_bit t) 25 r j) (t_p2 t ! r ! j))"

definition round_S0 :: "sha_trace \<Rightarrow> nat \<Rightarrow> int" where
  "round_S0 t r = acc32 (\<lambda>j. xor2 (t_y12 t ! r ! j) (rot_at (a_bit t) 22 r j) (t_q2 t ! r ! j))"

definition round_ch :: "sha_trace \<Rightarrow> nat \<Rightarrow> int" where
  "round_ch t r = acc32 (\<lambda>j. t_ef t ! r ! j + g_bit t ! r ! j - t_eg t ! r ! j)"

definition round_maj :: "sha_trace \<Rightarrow> nat \<Rightarrow> int" where
  "round_maj t r = acc32 (\<lambda>j. t_bc t ! r ! j + t_u t ! r ! j)"

definition bad_round :: "sha_trace \<Rightarrow> nat \<Rightarrow> residuals" where
  "bad_round t r =
     (let t1 = t_E t ! r + round_S1 t r + round_ch t r + K_const ! r + t_W t ! r
      in concat (map (bad_round_bit t r) [0..<32]) @
         req ''e_add'' [r] (t_E t ! (4 + r) + MOD32 * t_ce t ! r) (t_A t ! r + t1) @
         req ''a_add'' [r] (t_A t ! (4 + r) + MOD32 * t_ca t ! r) (t1 + round_S0 t r + round_maj t r) @
         req ''ce_range'' [r] (of_bool (\<not> (0 \<le> t_ce t ! r \<and> t_ce t ! r < 8))) 0 @
         req ''ca_range'' [r] (of_bool (\<not> (0 \<le> t_ca t ! r \<and> t_ca t ! r < 8))) 0)"

text \<open>One step of the message schedule, its products stored at \<open>r - 16\<close>.\<close>

definition bad_sched_bit :: "sha_trace \<Rightarrow> nat \<Rightarrow> nat \<Rightarrow> residuals" where
  "bad_sched_bit t r j =
     (let i = r - 16; m = r - 15 - M_LO; n = r - 2 - N_LO;
          s7 = rot_at (w_bit_m t) 7 m j; s18 = rot_at (w_bit_m t) 18 m j; h3 = high_at (w_bit_m t) 3 m j;
          s17 = rot_at (w_bit_n t) 17 n j; s19 = rot_at (w_bit_n t) 19 n j; h10 = high_at (w_bit_n t) 10 n j
      in req ''m1_quad'' [r, j] (t_m1 t ! i ! j) (s7 * s18) @
         req ''xm_pin'' [r, j] (t_xm t ! i ! j) (xor2 s7 s18 (t_m1 t ! i ! j)) @
         req ''m2_quad'' [r, j] (t_m2 t ! i ! j) (t_xm t ! i ! j * h3) @
         req ''n1_quad'' [r, j] (t_n1 t ! i ! j) (s17 * s19) @
         req ''xn_pin'' [r, j] (t_xn t ! i ! j) (xor2 s17 s19 (t_n1 t ! i ! j)) @
         req ''n2_quad'' [r, j] (t_n2 t ! i ! j) (t_xn t ! i ! j * h10))"

definition sched_s0 :: "sha_trace \<Rightarrow> nat \<Rightarrow> int" where
  "sched_s0 t r = acc32 (\<lambda>j. xor2 (t_xm t ! (r - 16) ! j) (high_at (w_bit_m t) 3 (r - 15 - M_LO) j) (t_m2 t ! (r - 16) ! j))"

definition sched_s1 :: "sha_trace \<Rightarrow> nat \<Rightarrow> int" where
  "sched_s1 t r = acc32 (\<lambda>j. xor2 (t_xn t ! (r - 16) ! j) (high_at (w_bit_n t) 10 (r - 2 - N_LO) j) (t_n2 t ! (r - 16) ! j))"

definition bad_sched :: "sha_trace \<Rightarrow> nat \<Rightarrow> residuals" where
  "bad_sched t r =
     concat (map (bad_sched_bit t r) [0..<32]) @
     req ''w_schedule'' [r] (t_W t ! r + MOD32 * t_cw t ! (r - 16)) (sched_s1 t r + t_W t ! (r - 7) + sched_s0 t r + t_W t ! (r - 16)) @
     req ''cw_range'' [r] (of_bool (\<not> (0 \<le> t_cw t ! (r - 16) \<and> t_cw t ! (r - 16) < 4))) 0"

definition bad_digest :: "sha_trace \<Rightarrow> int list \<Rightarrow> residuals" where
  "bad_digest t dwords =
     concat (map (\<lambda>i. req ''digest_add'' [i] (MOD32 * t_cd t ! i) (H0_const ! i + finals (t_A t) (t_E t) ! i - dwords ! i) @
       req ''cd_range'' [i] (of_bool (\<not> (0 \<le> t_cd t ! i \<and> t_cd t ! i < 2))) 0) [0..<8])"

text \<open>Indexing past the end of a trace list raises \<open>IndexError\<close>: the lists read before the padding
  is built, and those read after.\<close>

definition has_grid :: "nat \<Rightarrow> int list list \<Rightarrow> bool" where
  "has_grid n B \<longleftrightarrow> n \<le> length B \<and> list_all (\<lambda>row. 32 \<le> length row) (take n B)"

definition head_shapes :: "sha_trace \<Rightarrow> bool" where
  "head_shapes t \<longleftrightarrow> 4 \<le> length (t_A t) \<and> 4 \<le> length (t_E t) \<and> msg_len t div 4 \<le> length (t_W t) \<and>
     (msg_len t div 4 = 0 \<or> 4 \<le> length (msg_stride t) \<and> list_all (\<lambda>row. msg_len t div 4 \<le> length row) (take 4 (msg_stride t)))"

definition body_shapes :: "sha_trace \<Rightarrow> bool" where
  "body_shapes t \<longleftrightarrow> 68 \<le> length (t_A t) \<and> 68 \<le> length (t_E t) \<and> 64 \<le> length (t_W t) \<and> 48 \<le> length (t_cw t) \<and>
     64 \<le> length (t_ce t) \<and> 64 \<le> length (t_ca t) \<and> 8 \<le> length (t_cd t) \<and>
     list_all (has_grid 64) [a_bit t, b_bit t, c_bit t, e_bit t, f_bit t, g_bit t, t_x12 t, t_y12 t, t_tbc t, t_p1 t, t_p2 t, t_q1 t, t_q2 t,
       t_ef t, t_eg t, t_bc t, t_u t] \<and>
     list_all (has_grid 48) [w_bit_m t, t_xm t, t_m1 t, t_m2 t, t_xn t, t_n1 t, t_n2 t] \<and> has_grid 50 (w_bit_n t)"

definition check_constraints :: "sha_trace \<Rightarrow> bytes option \<Rightarrow> residuals result" where
  "check_constraints t digest =
     (let d = (case digest of Some d \<Rightarrow> d | None \<Rightarrow> t_digest t);
          dwords = map (\<lambda>i. from_be (take 4 (drop (4 * i) d))) [0..<8]
      in if \<not> head_shapes t then Inl IndexError
         else rbind (pad_one_block (replicate (msg_len t) 0)) (\<lambda>pad_block.
           if \<not> body_shapes t then Inl IndexError
           else Inr (bad_prefix t @ bad_message t @ bad_padding t pad_block @ bad_roles t @ bad_schedule_bits t @
             concat (map (bad_round t) [0..<64]) @ concat (map (bad_sched t) [16..<64]) @ bad_digest t dwords)))"

definition sha256_one_block :: "bytes \<Rightarrow> sha_trace result" where
  "sha256_one_block msg =
     rbind (trace msg) (\<lambda>t. rbind (check_constraints t None) (\<lambda>bad.
       if bad \<noteq> [] then Inl AssertionError
       else if t_digest t \<noteq> sha256 msg then Inl AssertionError
       else Inr t))"
section \<open>Bits of words\<close>

lemma acc32_cong: "(\<And>j. j < 32 \<Longrightarrow> f j = g j) \<Longrightarrow> acc32 f = acc32 g"
  unfolding acc32_def by (rule arg_cong [of _ _ sum_list], rule map_cong) auto

lemma acc32_horner: "acc32 (\<lambda>j. of_bool (p j)) = horner_sum of_bool 2 (map p [0..<32])"
  unfolding acc32_def
  by (simp add: horner_sum_eq_sum push_bit_eq_mult interv_sum_list_conv_sum_set_nat atLeast0LessThan del: upt_conv_Cons)

lemma acc32_bits: "acc32 (\<lambda>j. of_bool (bit (x :: w32) j)) = uint x"
proof -
  have "acc32 (\<lambda>j. of_bool (bit x j)) = acc32 (\<lambda>j. of_bool (bit (uint x) j))" by (rule acc32_cong) (simp add: bit_uint_iff)
  also have "\<dots> = take_bit 32 (uint x)" by (simp only: acc32_horner horner_sum_bit_eq_take_bit)
  also have "\<dots> = uint x" using uint_lt2p [of x] by (intro take_bit_int_eq_self) simp_all
  finally show ?thesis .
qed

lemma bool_int: "(b :: int) * b - b = 0 \<Longrightarrow> b = of_bool (b = 1)"
proof -
  assume "b * b - b = 0"
  then have "b * (b - 1) = 0" by (simp add: algebra_simps)
  then show ?thesis by auto
qed

text \<open>A satisfied bit class holds the bits of a 32-bit word, and pins the word to its range.\<close>

lemma bit_class:
  assumes b: "\<forall>j < 32. bs ! j * bs ! j - bs ! j = (0 :: int)" and w: "w = acc32 (\<lambda>j. bs ! j)"
  shows "w = uint (of_int w :: w32) \<and> (\<forall>j < 32. bs ! j = of_bool (bit (of_int w :: w32) j))"
proof -
  let ?p = "\<lambda>j. bs ! j = 1"
  have e: "bs ! j = of_bool (?p j)" if "j < 32" for j using b that by (intro bool_int) blast
  have w': "w = horner_sum of_bool 2 (map ?p [0..<32])" unfolding w acc32_horner [symmetric] by (rule acc32_cong) (rule e)
  have bit: "bit w j = ?p j" if "j < 32" for j unfolding w' using that by (simp add: bit_horner_sum_bit_iff del: upt_conv_Cons)
  have "bit (of_int w :: w32) j = ?p j" if "j < 32" for j using bit [OF that] that by (simp add: bit_word_of_int_iff)
  then have "\<forall>j < 32. bs ! j = of_bool (bit (of_int w :: w32) j)" using e by simp
  moreover from this have "w = uint (of_int w :: w32)" unfolding w by (subst acc32_bits [symmetric]) (rule acc32_cong, simp)
  ultimately show ?thesis by blast
qed

lemma bits32_word: "j < 32 \<Longrightarrow> bits32 (uint (x :: w32)) ! j = of_bool (bit x j)"
  by (simp add: bits32_def bit_iff_odd_drop_bit [symmetric] bit_uint_iff and_one_eq odd_iff_mod_2_eq_one del: upt_conv_Cons)
   (simp add: mod_2_eq_odd bit_iff_odd_drop_bit [symmetric] bit_uint_iff)

section \<open>The integer functions are the word functions\<close>

lemma int_mask32: "(0xFFFFFFFF :: int) = mask 32"
  by (simp add: mask_eq_exp_minus_1)

lemma rotr32_uint:
  assumes "0 < k" "k < 32"
  shows "rotr32 (uint x) k = uint (word_rotr k (x :: w32))"
proof (rule bit_eqI)
  fix j
  have "bit (rotr32 (uint x) k) j \<longleftrightarrow> j < 32 \<and> (bit x (k + j) \<or> 32 - k \<le> j \<and> bit x (j - (32 - k)))"
    using assms by (auto simp: rotr32_def int_mask32 bit_and_iff bit_or_iff bit_drop_bit_eq bit_push_bit_iff bit_mask_iff bit_uint_iff dest: bit_imp_le_length)
  also have "\<dots> \<longleftrightarrow> j < 32 \<and> bit x ((j + k) mod 32)"
  proof (cases "j + k < 32")
    case True
    then show ?thesis by (auto simp: add.commute)
  next
    case False
    have m: "(j + k) mod 32 = j - (32 - k)" if "j < 32" using that assms False by (simp add: le_mod_geq)
    have "\<not> bit x (k + j)" using False bit_imp_le_length [of x "k + j"] by auto
    moreover have "32 - k \<le> j" if "j < 32" using False by simp
    ultimately show ?thesis using m by (cases "j < 32") simp_all
  qed
  finally show "bit (rotr32 (uint x) k) j \<longleftrightarrow> bit (uint (word_rotr k x)) j" by (simp add: bit_uint_iff bit_word_rotr_iff)
qed

lemma drop_bit_uint: "drop_bit k (uint (x :: w32)) = uint (drop_bit k x)"
  by (rule bit_eqI) (auto simp: bit_drop_bit_eq bit_uint_iff dest: bit_imp_le_length)

lemma int_functions:
  "big_sig0 (uint x) = uint (BSig0 x)" "big_sig1 (uint x) = uint (BSig1 x)"
  "small_sig0 (uint x) = uint (SSig0 x)" "small_sig1 (uint x) = uint (SSig1 x)"
  "ch_int (uint x) (uint y) (uint z) = uint (Choose x y z)" "maj_int (uint x) (uint y) (uint z) = uint (Majority x y z)"
proof -
  have "(NOT (uint x) AND uint z) AND mask 32 = uint (NOT x AND z)"
    by (rule bit_eqI) (auto simp: bit_and_iff bit_mask_iff bit_uint_iff bit_not_iff bit_not_iff_eq dest: bit_imp_le_length)
  then show "ch_int (uint x) (uint y) (uint z) = uint (Choose x y z)"
    by (simp only: ch_int_def Choose_def uint_xor uint_and [of x] int_mask32 and.assoc)
qed (simp_all add: big_sig0_def big_sig1_def small_sig0_def small_sig1_def maj_int_def BSig0_def BSig1_def SSig0_def SSig1_def Majority_def
    rotr32_uint drop_bit_uint uint_xor uint_and)
section \<open>Satisfied constraints give the word functions\<close>

lemma req_Nil [simp]: "req n i a b = [] \<longleftrightarrow> a = b"
  by (simp add: req_def)

lemma neq_assoc: "(p \<noteq> (q \<noteq> s)) = ((p \<noteq> q) \<noteq> s)"
  by auto

lemma xor2_of_bool: "xor2 (of_bool p) (of_bool q) (of_bool p * of_bool q) = of_bool (p \<noteq> q)"
  by (cases p; cases q) (simp_all add: xor2_def)

lemma xor_of_bool: "(of_bool p :: int) XOR of_bool q = of_bool (p \<noteq> q)"
  by (cases p; cases q) simp_all

definition row_bits :: "int list list \<Rightarrow> nat \<Rightarrow> w32 \<Rightarrow> bool" where
  "row_bits B r x \<longleftrightarrow> (\<forall>j < 32. B ! r ! j = of_bool (bit x j))"

lemma row_bitsD: "row_bits B r x \<Longrightarrow> j < 32 \<Longrightarrow> B ! r ! j = of_bool (bit x j)"
  by (simp add: row_bits_def)

lemma rot_at_bits: "row_bits B r x \<Longrightarrow> j < 32 \<Longrightarrow> rot_at B k r j = of_bool (bit (word_rotr k x) j)"
  by (simp add: row_bits_def rot_at_def bit_rotr)

lemma high_at_bits: "row_bits B r x \<Longrightarrow> j < 32 \<Longrightarrow> high_at B k r j = of_bool (bit (drop_bit k x) j)"
proof -
  assume a: "row_bits B r x" "j < 32"
  have "\<not> bit x (k + j)" if "\<not> j + k < 32" using that bit_imp_le_length [of x "k + j"] by auto
  then show ?thesis using a by (auto simp: high_at_def row_bits_def bit_drop_bit_eq add.commute)
qed

lemma acc32_word: "(\<And>j. j < 32 \<Longrightarrow> f j = of_bool (bit (x :: w32) j)) \<Longrightarrow> acc32 f = uint x"
  by (subst acc32_bits [symmetric]) (rule acc32_cong)

lemma round_sums:
  assumes rows: "row_bits (a_bit t) r a" "row_bits (b_bit t) r b" "row_bits (c_bit t) r c"
      "row_bits (e_bit t) r e" "row_bits (f_bit t) r f" "row_bits (g_bit t) r g"
    and sat: "\<And>j. j < 32 \<Longrightarrow> bad_round_bit t r j = []"
  shows "round_S1 t r = uint (BSig1 e) \<and> round_S0 t r = uint (BSig0 a) \<and> round_ch t r = uint (Choose e f g) \<and> round_maj t r = uint (Majority a b c)"
proof (intro conjI)
  note at = rot_at_bits [OF rows(1)] rot_at_bits [OF rows(4)] rows [THEN row_bitsD]
  note sat' = sat [unfolded bad_round_bit_def Let_def append_is_Nil_conv req_Nil]
  show "round_S1 t r = uint (BSig1 e)" unfolding round_S1_def
    by (rule acc32_word) (simp only: sat' at xor2_of_bool BSig1_def bit_xor_iff neq_assoc)
  show "round_S0 t r = uint (BSig0 a)" unfolding round_S0_def
    by (rule acc32_word) (simp only: sat' at xor2_of_bool BSig0_def bit_xor_iff neq_assoc)
  show "round_ch t r = uint (Choose e f g)" unfolding round_ch_def
    by (rule acc32_word) (simp add: sat' at Choose_def bit_xor_iff bit_and_iff bit_not_iff)
  show "round_maj t r = uint (Majority a b c)" unfolding round_maj_def
    by (rule acc32_word) (simp only: sat' at xor2_of_bool Majority_def bit_xor_iff bit_and_iff, auto)
qed

lemma sched_sums:
  assumes rows: "row_bits (w_bit_m t) (r - 15 - M_LO) x" "row_bits (w_bit_n t) (r - 2 - N_LO) y"
    and sat: "\<And>j. j < 32 \<Longrightarrow> bad_sched_bit t r j = []"
  shows "sched_s0 t r = uint (SSig0 x) \<and> sched_s1 t r = uint (SSig1 y)"
proof (intro conjI)
  note at = rot_at_bits [OF rows(1)] rot_at_bits [OF rows(2)] high_at_bits [OF rows(1)] high_at_bits [OF rows(2)]
  note sat' = sat [unfolded bad_sched_bit_def Let_def append_is_Nil_conv req_Nil]
  show "sched_s0 t r = uint (SSig0 x)" unfolding sched_s0_def
    by (rule acc32_word) (simp only: sat' at xor2_of_bool SSig0_def bit_xor_iff neq_assoc)
  show "sched_s1 t r = uint (SSig1 y)" unfolding sched_s1_def
    by (rule acc32_word) (simp only: sat' at xor2_of_bool SSig1_def bit_xor_iff neq_assoc)
qed

lemma bad_bits_Nil:
  assumes "bad_bits name r (B ! i) w = []"
  shows "w = uint (of_int w :: w32) \<and> row_bits B i (of_int w)"
proof (rule bit_class [of "B ! i" w, folded row_bits_def])
  have "(\<forall>j < 32. B ! i ! j * B ! i ! j - B ! i ! j = 0) \<and> w = acc32 (\<lambda>j. B ! i ! j)"
    using assms unfolding bad_bits_def append_is_Nil_conv concat_upt_Nil req_Nil by blast
  then show "\<forall>j < 32. B ! i ! j * B ! i ! j - B ! i ! j = 0" "w = acc32 (\<lambda>j. B ! i ! j)" by blast+
qed
section \<open>Histories and working registers\<close>

lemma expand_block_unique:
  assumes M: "length M = 16" "\<forall>i < 16. w i = M ! i"
    and rec: "\<forall>r. 16 \<le> r \<longrightarrow> r < 64 \<longrightarrow> w r = SSig1 (w (r - 2)) + w (r - 7) + SSig0 (w (r - 15)) + w (r - 16)"
  shows "r < 64 \<Longrightarrow> expand_block M ! r = w r"
proof (induction r rule: less_induct)
  case (less r)
  show ?case
  proof (cases "r < 16")
    case True
    then show ?thesis using M expand_block_props(2) [OF M(1)] by simp
  next
    case False
    then have "expand_block M ! r = sched_entry (expand_block M) r" using less.prems expand_block_props(3) [OF M(1)] by simp
    moreover have "expand_block M ! (r - k) = w (r - k)" if "k \<in> {2, 7, 15, 16}" for k using less that False by auto
    ultimately show ?thesis using rec False less.prems by (simp add: sched_entry_def)
  qed
qed

text \<open>The state histories are the working registers over time: register \<open>a\<close> after \<open>n\<close> rounds is entry
  \<open>n + 3\<close> of its history, the registers \<open>b\<close>, \<open>c\<close>, \<open>d\<close> are its older entries.\<close>

lemma history_regs:
  fixes a e :: "nat \<Rightarrow> w32"
  assumes init: "regs_of h = (a 3, a 2, a 1, a 0, e 3, e 2, e 1, e 0)"
    and step: "\<forall>r < N. let T1 = e r + BSig1 (e (r + 3)) + Choose (e (r + 3)) (e (r + 2)) (e (r + 1)) + k r + w r in
        e (r + 4) = a r + T1 \<and> a (r + 4) = T1 + BSig0 (a (r + 3)) + Majority (a (r + 3)) (a (r + 2)) (a (r + 1))"
  shows "n \<le> N \<Longrightarrow> foldl (\<lambda>s r. sha_round (k r) (w r) s) (regs_of h) [0..<n] =
    (a (n + 3), a (n + 2), a (n + 1), a n, e (n + 3), e (n + 2), e (n + 1), e n)"
proof (induction n)
  case 0
  then show ?case by (simp only: init upt.simps(1) foldl_Nil add_0)
next
  case (Suc n)
  have "n < N" using Suc.prems by simp
  note st = step [rule_format, OF this]
  have ih: "foldl (\<lambda>s r. sha_round (k r) (w r) s) (regs_of h) [0..<n] =
      (a (n + 3), a (n + 2), a (n + 1), a n, e (n + 3), e (n + 2), e (n + 1), e n)" using Suc by simp
  have idx: "a (Suc n + 3) = a (n + 4)" "e (Suc n + 3) = e (n + 4)" "a (Suc n + 2) = a (n + 3)" "e (Suc n + 2) = e (n + 3)"
    "a (Suc n + 1) = a (n + 2)" "e (Suc n + 1) = e (n + 2)" "a (Suc n) = a (n + 1)" "e (Suc n) = e (n + 1)" by (simp_all add: eval_nat_numeral)
  show ?case
    by (simp only: upt_Suc_append zero_le foldl_append foldl_Cons foldl_Nil ih sha_round.simps Let_def idx st [unfolded Let_def] prod.inject add.assoc simp_thms)
qed

lemma compress_history:
  fixes a e :: "nat \<Rightarrow> w32"
  assumes M: "length M = 16" "\<forall>i < 16. w i = M ! i"
    and rec: "\<forall>r. 16 \<le> r \<longrightarrow> r < 64 \<longrightarrow> w r = SSig1 (w (r - 2)) + w (r - 7) + SSig0 (w (r - 15)) + w (r - 16)"
    and init: "regs_of h = (a 3, a 2, a 1, a 0, e 3, e 2, e 1, e 0)"
    and step: "\<forall>r < 64. let T1 = e r + BSig1 (e (r + 3)) + Choose (e (r + 3)) (e (r + 2)) (e (r + 1)) + word_of_int (K_const ! r) + w r in
        e (r + 4) = a r + T1 \<and> a (r + 4) = T1 + BSig0 (a (r + 3)) + Majority (a (r + 3)) (a (r + 2)) (a (r + 1))"
  shows "compress_block h M = map2 (+) h [a 67, a 66, a 65, a 64, e 67, e 66, e 65, e 64]"
proof -
  have "foldl (\<lambda>s r. sha_round (word_of_int (K_const ! r)) (expand_block M ! r) s) (regs_of h) [0..<64] =
      foldl (\<lambda>s r. sha_round (word_of_int (K_const ! r)) (w r) s) (regs_of h) [0..<64]"
    by (rule foldl_cong) (simp_all add: expand_block_unique [OF M rec] del: upt_rec_numeral)
  also have "\<dots> = (a (64 + 3), a (64 + 2), a (64 + 1), a 64, e (64 + 3), e (64 + 2), e (64 + 1), e 64)"
    by (rule history_regs [OF init step]) simp
  finally show ?thesis by (simp add: compress_block_def Let_def del: upt_rec_numeral)
qed

section \<open>Messages of one block\<close>

lemma pad_block_is_sha_pad:
  assumes "length msg < 56"
  shows "pad_one_block msg = Inr (sha_pad msg) \<and> length (sha_pad msg) = 64"
proof -
  have "(119 - length msg mod 64) mod 64 = 55 - length msg" using assms by (simp add: mod_if)
  then show ?thesis using assms by (simp add: pad_one_block_def sha_pad_def)
qed

lemma take_drop_slices: "concat (map (\<lambda>i. take 4 (drop (4 * i) d)) [0..<n]) = take (4 * n) d"
  by (induction n) (simp_all add: take_add [symmetric] add.commute)

lemma sha256_single:
  assumes "length msg < 56"
  shows "sha256 msg = concat (map word_be (compress_block (map word_of_int H0_const) (block_words (sha_pad msg) 0)))"
  using pad_block_is_sha_pad [OF assms] by (simp add: sha256_def Let_def)

lemma word_be_slice: "length bs = 4 \<Longrightarrow> word_be (of_int (from_be bs)) = bs"
proof -
  assume l: "length bs = 4"
  have "from_le (rev bs) < 2 ^ 32" using from_le_less [of "rev bs"] l by simp
  then have "unat (of_int (from_be bs) :: w32) = from_le (rev bs)" by (simp add: from_be_def unat_of_nat take_bit_nat_eq_self)
  then show ?thesis using l le_bytes_from_le [of "rev bs"] by (simp add: word_be_def)
qed

lemma be_word_from_be: "be_word bs = of_int (from_be bs)"
  by (simp add: be_word_def from_be_def)
section \<open>Soundness of the layout\<close>

definition strides_message :: "sha_trace \<Rightarrow> bytes" where
  "strides_message t = concat (map (\<lambda>i. map (\<lambda>k. word_of_int (msg_stride t ! k ! i)) [0..<4]) [0..<msg_len t div 4])"

lemma guarded_Inr:
  "p = (if g then Inr b else Inl z) \<Longrightarrow>
   (if \<not> h then Inl x else rbind p (\<lambda>b. if \<not> c then Inl y else Inr (X b))) = Inr [] \<longleftrightarrow> h \<and> c \<and> g \<and> X b = []"
  by (cases p) auto

lemma check_satisfied_iff:
  "check_constraints t dg = Inr [] \<longleftrightarrow> head_shapes t \<and> body_shapes t \<and> msg_len t < 56 \<and> bad_prefix t = [] \<and> bad_message t = [] \<and>
    bad_padding t (sha_pad (replicate (msg_len t) 0)) = [] \<and> bad_roles t = [] \<and> bad_schedule_bits t = [] \<and>
    (\<forall>r < 64. bad_round t r = []) \<and> (\<forall>r. 16 \<le> r \<longrightarrow> r < 64 \<longrightarrow> bad_sched t r = []) \<and>
    bad_digest t (map (\<lambda>i. from_be (take 4 (drop (4 * i) (case dg of Some d \<Rightarrow> d | None \<Rightarrow> t_digest t)))) [0..<8]) = []"
proof -
  have p: "pad_one_block (replicate (msg_len t) 0) = (if msg_len t < 56 then Inr (sha_pad (replicate (msg_len t) 0)) else Inl AssertionError)"
    using pad_block_is_sha_pad [of "replicate (msg_len t) 0"] by (cases "msg_len t < 56") (simp_all add: pad_one_block_def)
  show ?thesis unfolding check_constraints_def Let_def guarded_Inr [OF p] append_is_Nil_conv concat_upt_Nil
    by (simp only: le0 simp_thms)
qed

lemma role_rows:
  assumes "bad_roles t = []" "r < 64"
  shows "row_bits (a_bit t) r (of_int (t_A t ! (3 + r))) \<and> row_bits (b_bit t) r (of_int (t_A t ! (2 + r))) \<and>
    row_bits (c_bit t) r (of_int (t_A t ! (1 + r))) \<and> row_bits (e_bit t) r (of_int (t_E t ! (3 + r))) \<and>
    row_bits (f_bit t) r (of_int (t_E t ! (2 + r))) \<and> row_bits (g_bit t) r (of_int (t_E t ! (1 + r)))"
proof -
  have "bad_bits ''a_bit'' r (a_bit t ! r) (t_A t ! (3 + r)) = [] \<and> bad_bits ''b_bit'' r (b_bit t ! r) (t_A t ! (2 + r)) = [] \<and>
    bad_bits ''c_bit'' r (c_bit t ! r) (t_A t ! (1 + r)) = [] \<and> bad_bits ''e_bit'' r (e_bit t ! r) (t_E t ! (3 + r)) = [] \<and>
    bad_bits ''f_bit'' r (f_bit t ! r) (t_E t ! (2 + r)) = [] \<and> bad_bits ''g_bit'' r (g_bit t ! r) (t_E t ! (1 + r)) = []"
    using assms unfolding bad_roles_def list.map prod.case concat.simps append_is_Nil_conv concat_upt_Nil by (simp only: le0 simp_thms)
  then show ?thesis by (elim conjE) (intro conjI; rule bad_bits_Nil [THEN conjunct2], assumption)
qed

lemma schedule_rows:
  assumes "bad_schedule_bits t = []"
  shows "(1 \<le> w \<longrightarrow> w < 49 \<longrightarrow> row_bits (w_bit_m t) (w - 1) (of_int (t_W t ! w))) \<and>
    (14 \<le> w \<longrightarrow> w < 64 \<longrightarrow> row_bits (w_bit_n t) (w - 14) (of_int (t_W t ! w)))"
  using assms unfolding bad_schedule_bits_def append_is_Nil_conv concat_upt_Nil M_LO_def M_HI_def N_LO_def NB_HI_def
  using bad_bits_Nil [THEN conjunct2] by metis

lemma mod32_word: "(of_int (MOD32 * x) :: w32) = 0"
proof -
  have "(of_int MOD32 :: w32) = 0" by (simp add: MOD32_def)
  then show ?thesis by (simp add: of_int_mult)
qed

lemma round_word_step:
  assumes sat: "bad_round t r = []" and rows: "bad_roles t = []" and r: "r < 64"
  defines "A \<equiv> \<lambda>i. of_int (t_A t ! i) :: w32" and "E \<equiv> \<lambda>i. of_int (t_E t ! i) :: w32"
  shows "let T1 = E r + BSig1 (E (r + 3)) + Choose (E (r + 3)) (E (r + 2)) (E (r + 1)) + word_of_int (K_const ! r) + of_int (t_W t ! r) in
    E (r + 4) = A r + T1 \<and> A (r + 4) = T1 + BSig0 (A (r + 3)) + Majority (A (r + 3)) (A (r + 2)) (A (r + 1))"
proof -
  have s: "\<And>j. j < 32 \<Longrightarrow> bad_round_bit t r j = []"
    and add: "t_E t ! (4 + r) + MOD32 * t_ce t ! r = t_A t ! r + (t_E t ! r + round_S1 t r + round_ch t r + K_const ! r + t_W t ! r)"
      "t_A t ! (4 + r) + MOD32 * t_ca t ! r = t_E t ! r + round_S1 t r + round_ch t r + K_const ! r + t_W t ! r + round_S0 t r + round_maj t r"
    using sat unfolding bad_round_def Let_def append_is_Nil_conv req_Nil concat_upt_Nil by blast+
  have sums: "round_S1 t r = uint (BSig1 (E (r + 3))) \<and> round_S0 t r = uint (BSig0 (A (r + 3))) \<and>
      round_ch t r = uint (Choose (E (r + 3)) (E (r + 2)) (E (r + 1))) \<and> round_maj t r = uint (Majority (A (r + 3)) (A (r + 2)) (A (r + 1)))"
    unfolding A_def E_def using role_rows [OF rows r] by (intro round_sums) (simp_all add: s add.commute)
  have "(of_int (t_E t ! (4 + r) + MOD32 * t_ce t ! r) :: w32) = of_int (t_A t ! r + (t_E t ! r + round_S1 t r + round_ch t r + K_const ! r + t_W t ! r))"
    "(of_int (t_A t ! (4 + r) + MOD32 * t_ca t ! r) :: w32) = of_int (t_E t ! r + round_S1 t r + round_ch t r + K_const ! r + t_W t ! r + round_S0 t r + round_maj t r)"
    using add by simp_all
  then show ?thesis unfolding of_int_add mod32_word sums [THEN conjunct1] sums [THEN conjunct2, THEN conjunct1]
      sums [THEN conjunct2, THEN conjunct2, THEN conjunct1] sums [THEN conjunct2, THEN conjunct2, THEN conjunct2]
    by (simp add: A_def E_def Let_def add.commute [of 4])
qed

lemma sched_word_step:
  assumes sat: "bad_sched t r = []" and rows: "bad_schedule_bits t = []" and r: "16 \<le> r" "r < 64"
  defines "w \<equiv> \<lambda>i. of_int (t_W t ! i) :: w32"
  shows "w r = SSig1 (w (r - 2)) + w (r - 7) + SSig0 (w (r - 15)) + w (r - 16)"
proof -
  have s: "\<And>j. j < 32 \<Longrightarrow> bad_sched_bit t r j = []"
    and add: "t_W t ! r + MOD32 * t_cw t ! (r - 16) = sched_s1 t r + t_W t ! (r - 7) + sched_s0 t r + t_W t ! (r - 16)"
    using sat unfolding bad_sched_def append_is_Nil_conv req_Nil concat_upt_Nil by blast+
  have "row_bits (w_bit_m t) (r - 15 - 1) (w (r - 15))" "row_bits (w_bit_n t) (r - 2 - 14) (w (r - 2))"
    unfolding w_def using schedule_rows [OF rows, of "r - 15"] schedule_rows [OF rows, of "r - 2"] r by simp_all
  then have sums: "sched_s0 t r = uint (SSig0 (w (r - 15))) \<and> sched_s1 t r = uint (SSig1 (w (r - 2)))"
    by (intro sched_sums) (simp_all add: M_LO_def N_LO_def s)
  have "(of_int (t_W t ! r + MOD32 * t_cw t ! (r - 16)) :: w32) = of_int (sched_s1 t r + t_W t ! (r - 7) + sched_s0 t r + t_W t ! (r - 16))"
    using add by simp
  then show ?thesis unfolding of_int_add mod32_word sums [THEN conjunct1] sums [THEN conjunct2] by (simp add: w_def)
qed
lemma length_strides_message: "length (strides_message t) = 4 * (msg_len t div 4)"
  by (simp add: strides_message_def length_concat sum_list_triv comp_def)

lemma slice_of_rows:
  assumes "\<And>j. length (row j) = 4" "i < n"
  shows "take 4 (drop (4 * i) (concat (map row [0..<n]) @ ys)) = row i"
  using assms(2)
proof (induction n arbitrary: ys)
  case (Suc n)
  have l: "length (concat (map row [0..<n])) = 4 * n" by (simp add: length_concat sum_list_triv comp_def assms(1))
  have e: "concat (map row [0..<Suc n]) @ ys = concat (map row [0..<n]) @ (row n @ ys)" by simp
  show ?case
  proof (cases "i < n")
    case True
    then show ?thesis unfolding e by (rule Suc.IH)
  next
    case False
    then have "i = n" using Suc.prems by simp
    then show ?thesis using l assms(1) [of n] unfolding e by simp
  qed
qed simp

lemma strides_slice:
  "i < msg_len t div 4 \<Longrightarrow> take 4 (drop (4 * i) (strides_message t @ ys)) = map (\<lambda>k. word_of_int (msg_stride t ! k ! i)) [0..<4]"
  unfolding strides_message_def by (rule slice_of_rows) simp_all

lemma stride_word:
  assumes "bad_message t = []" "i < msg_len t div 4"
  shows "(of_int (t_W t ! i) :: w32) = be_word (map (\<lambda>k. word_of_int (msg_stride t ! k ! i)) [0..<4])"
proof -
  note m = assms(1) [unfolded bad_message_def Let_def append_is_Nil_conv concat_upt_Nil req_Nil of_bool_eq_0_iff not_not]
  have w: "t_W t ! i = sum_list (map (\<lambda>k. push_bit (8 * (3 - k)) (msg_stride t ! k ! i)) [0..<4])" using m assms(2) by blast
  have rng: "0 \<le> msg_stride t ! k ! i \<and> msg_stride t ! k ! i < 256" if "k < 4" for k using m assms(2) that by blast
  have u: "int (unat (word_of_int (msg_stride t ! k ! i) :: byte)) = msg_stride t ! k ! i" if "k < 4" for k
    using rng [OF that] by (simp add: unsigned_of_int take_bit_int_eq_self)
  have "from_be (map (\<lambda>k. word_of_int (msg_stride t ! k ! i)) [0..<4]) = t_W t ! i"
    unfolding w from_be_def using u [of 0] u [of 1] u [of 2] u [of 3]
    by (simp add: push_bit_eq_mult upt_rec numeral_2_eq_2 numeral_3_eq_3)
  then show ?thesis by (simp add: be_word_from_be)
qed

lemma pad_slice_same:
  assumes "4 * (length msg div 4) = length msg" "length msg div 4 \<le> i" "length msg < 56"
  shows "take 4 (drop (4 * i) (sha_pad msg)) = take 4 (drop (4 * i) (sha_pad (replicate (length msg) 0)))"
proof -
  have "length msg \<le> 4 * i" using assms by linarith
  then show ?thesis by (simp add: sha_pad_def)
qed

lemma message_words:
  assumes "bad_message t = []" "bad_padding t (sha_pad (replicate (msg_len t) 0)) = []" "msg_len t mod 4 = 0" "msg_len t < 56" "i < 16"
  shows "(of_int (t_W t ! i) :: w32) = block_words (sha_pad (strides_message t)) 0 ! i"
proof -
  have l: "length (strides_message t) = msg_len t" using assms(3) by (simp add: length_strides_message minus_mod_eq_mult_div [symmetric])
  have b: "block_words (sha_pad (strides_message t)) 0 ! i = be_word (take 4 (drop (4 * i) (sha_pad (strides_message t))))"
    using assms(5) by (simp add: block_words_def del: upt_rec_numeral)
  show ?thesis
  proof (cases "i < msg_len t div 4")
    case True
    then have "take 4 (drop (4 * i) (sha_pad (strides_message t))) = map (\<lambda>k. word_of_int (msg_stride t ! k ! i)) [0..<4]"
      unfolding sha_pad_def by (rule strides_slice)
    then show ?thesis using stride_word [OF assms(1) True] b by (simp only:)
  next
    case False
    then have "t_W t ! i = from_be (take 4 (drop (4 * i) (sha_pad (replicate (msg_len t) 0))))"
      using assms(2,5) unfolding bad_padding_def concat_upt_Nil req_Nil by simp
    moreover have "take 4 (drop (4 * i) (sha_pad (strides_message t))) = take 4 (drop (4 * i) (sha_pad (replicate (msg_len t) 0)))"
      using pad_slice_same [of "strides_message t" i] False assms(3,4) l by (simp add: minus_mod_eq_mult_div [symmetric])
    ultimately show ?thesis unfolding b be_word_from_be by simp
  qed
qed

lemma layout_digest:
  assumes ok: "check_constraints t (Some d) = Inr []" and m4: "msg_len t mod 4 = 0" and d: "length d = 32"
  shows "d = sha256 (strides_message t)"
proof -
  note sat = ok [unfolded check_satisfied_iff option.case]
  let ?w = "\<lambda>i. of_int (t_W t ! i) :: w32" and ?a = "\<lambda>i. of_int (t_A t ! i) :: w32" and ?e = "\<lambda>i. of_int (t_E t ! i) :: w32"
  let ?M = "block_words (sha_pad (strides_message t)) 0" and ?h = "map word_of_int H0_const :: w32 list"
  have l: "length (strides_message t) = msg_len t" using m4 by (simp add: length_strides_message minus_mod_eq_mult_div [symmetric])
  have M: "length ?M = 16" by (simp add: block_words_def)
  have pre: "t_A t ! i = A_prefix ! i \<and> t_E t ! i = E_prefix ! i" if "i < 4" for i
    using sat that unfolding bad_prefix_def concat_upt_Nil append_is_Nil_conv req_Nil by simp
  have init: "regs_of ?h = (?a 3, ?a 2, ?a 1, ?a 0, ?e 3, ?e 2, ?e 1, ?e 0)"
    using pre [of 0] pre [of 1] pre [of 2] pre [of 3] by (simp add: regs_of_def A_prefix_def E_prefix_def H0_const_def numeral_2_eq_2 numeral_3_eq_3)
  obtain fin where fin: "fin = [?a 67, ?a 66, ?a 65, ?a 64, ?e 67, ?e 66, ?e 65, ?e 64]" by blast
  have "compress_block ?h ?M = map2 (+) ?h fin"
    unfolding fin
  proof (rule compress_history [OF M _ _ init])
    show "\<forall>i < 16. ?w i = ?M ! i" using message_words [of t] m4 sat by simp
    show "\<forall>r. 16 \<le> r \<longrightarrow> r < 64 \<longrightarrow> ?w r = SSig1 (?w (r - 2)) + ?w (r - 7) + SSig0 (?w (r - 15)) + ?w (r - 16)"
      using sched_word_step sat by blast
    show "\<forall>r < 64. let T1 = ?e r + BSig1 (?e (r + 3)) + Choose (?e (r + 3)) (?e (r + 2)) (?e (r + 1)) + word_of_int (K_const ! r) + ?w r in
        ?e (r + 4) = ?a r + T1 \<and> ?a (r + 4) = T1 + BSig0 (?a (r + 3)) + Majority (?a (r + 3)) (?a (r + 2)) (?a (r + 1))"
      using round_word_step sat by blast
  qed
  moreover have lf: "length fin = 8" and lh: "length H0_const = 8" by (simp_all add: fin H0_const_def)
  moreover have "map2 (+) ?h fin = map (\<lambda>i. of_int (from_be (take 4 (drop (4 * i) d)))) [0..<8]"
  proof (rule nth_equalityI)
    fix i assume "i < length (map2 (+) ?h fin)"
    then have i: "i < 8" by (simp add: H0_const_def fin)
    then have "MOD32 * t_cd t ! i = H0_const ! i + finals (t_A t) (t_E t) ! i - from_be (take 4 (drop (4 * i) d))"
      using sat unfolding bad_digest_def concat_upt_Nil append_is_Nil_conv req_Nil by (simp del: upt_rec_numeral)
    then have "(of_int (from_be (take 4 (drop (4 * i) d))) :: w32) = of_int (H0_const ! i + finals (t_A t) (t_E t) ! i - MOD32 * t_cd t ! i)" by simp
    then have "(of_int (from_be (take 4 (drop (4 * i) d))) :: w32) = of_int (H0_const ! i) + of_int (finals (t_A t) (t_E t) ! i)"
      unfolding of_int_diff of_int_add mod32_word by simp
    moreover have "(of_int (finals (t_A t) (t_E t) ! i) :: w32) = fin ! i"
      using i by (auto simp: fin finals_def less_Suc_eq numeral_eq_Suc)
    ultimately show "map2 (+) ?h fin ! i = map (\<lambda>i. of_int (from_be (take 4 (drop (4 * i) d)))) [0..<8] ! i"
      using i lf lh by (simp del: upt_rec_numeral)
  qed (simp add: fin H0_const_def)
  ultimately have "sha256 (strides_message t) = concat (map (\<lambda>i. word_be (of_int (from_be (take 4 (drop (4 * i) d))))) [0..<8])"
    using sha256_single [of "strides_message t"] l sat by (simp add: comp_def del: upt_rec_numeral)
  also have "\<dots> = concat (map (\<lambda>i. take 4 (drop (4 * i) d)) [0..<8])"
    by (intro arg_cong [of _ _ concat] map_cong refl word_be_slice) (use d in auto)
  also have "\<dots> = d" using d by (simp add: take_drop_slices del: upt_rec_numeral)
  finally show ?thesis ..
qed
section \<open>The honest trace\<close>

lemma w_full_append: "16 \<le> r \<Longrightarrow> r \<le> length W \<Longrightarrow> w_full (W @ xs) r = w_full W r"
proof -
  assume "16 \<le> r" "r \<le> length W"
  then have "r - 2 < length W" "r - 7 < length W" "r - 15 < length W" "r - 16 < length W" by linarith+
  then show ?thesis by (simp add: w_full_def nth_append)
qed

lemma schedule_words_props:
  assumes "schedule_words W0 = (W, cw)" "length W0 = 16"
  shows "length W = 64 \<and> length cw = 48 \<and> take 16 W = W0 \<and>
    (\<forall>r. 16 \<le> r \<longrightarrow> r < 64 \<longrightarrow> W ! r = w_full W r mod MOD32 \<and> cw ! (r - 16) = w_full W r div MOD32)"
proof -
  let ?f = "\<lambda>(W, cw) r. (W @ [w_full W r mod MOD32], cw @ [w_full W r div MOD32])"
  have gen: "\<exists>W cw. foldl ?f (W0, []) [16..<n] = (W, cw) \<and> length W = n \<and> length cw = n - 16 \<and> take 16 W = W0 \<and>
      (\<forall>r. 16 \<le> r \<longrightarrow> r < n \<longrightarrow> W ! r = w_full W r mod MOD32 \<and> cw ! (r - 16) = w_full W r div MOD32)" if "16 \<le> n" for n
    using that
  proof (induction n rule: dec_induct)
    case (step n)
    then obtain W cw where ih: "foldl ?f (W0, []) [16..<n] = (W, cw)" "length W = n" "length cw = n - 16" "take 16 W = W0"
      "\<forall>r. 16 \<le> r \<longrightarrow> r < n \<longrightarrow> W ! r = w_full W r mod MOD32 \<and> cw ! (r - 16) = w_full W r div MOD32" by blast
    have "foldl ?f (W0, []) [16..<Suc n] = (W @ [w_full W n mod MOD32], cw @ [w_full W n div MOD32])"
      using step(1) ih(1) by (simp add: upt_Suc_append)
    moreover have "\<forall>r. 16 \<le> r \<longrightarrow> r < Suc n \<longrightarrow>
        (W @ [w_full W n mod MOD32]) ! r = w_full (W @ [w_full W n mod MOD32]) r mod MOD32 \<and>
        (cw @ [w_full W n div MOD32]) ! (r - 16) = w_full (W @ [w_full W n mod MOD32]) r div MOD32"
      using ih step(1) by (auto simp: w_full_append nth_append less_Suc_eq)
    ultimately show ?case using ih step(1) by (intro exI conjI) (assumption | simp)+
  qed (use assms(2) in simp)
  show ?thesis using gen [of 64] assms(1) by (simp add: schedule_words_def del: upt_rec_numeral)
qed

lemma run_rounds_props:
  assumes "run_rounds W = (A, E, ce, ca)"
  shows "length A = 68 \<and> length E = 68 \<and> length ce = 64 \<and> length ca = 64 \<and> take 4 A = A_prefix \<and> take 4 E = E_prefix \<and>
    (\<forall>r < 64. A ! (4 + r) = a_full A E W r mod MOD32 \<and> ca ! r = a_full A E W r div MOD32 \<and>
      E ! (4 + r) = e_full A E W r mod MOD32 \<and> ce ! r = e_full A E W r div MOD32)"
proof -
  let ?f = "\<lambda>(A, E, ce, ca) r.
      (A @ [a_full A E W r mod MOD32], E @ [e_full A E W r mod MOD32], ce @ [e_full A E W r div MOD32], ca @ [a_full A E W r div MOD32])"
  have gen: "\<exists>A E ce ca. foldl ?f (A_prefix, E_prefix, [], []) [0..<n] = (A, E, ce, ca) \<and> length A = 4 + n \<and> length E = 4 + n \<and>
      length ce = n \<and> length ca = n \<and> take 4 A = A_prefix \<and> take 4 E = E_prefix \<and>
      (\<forall>r < n. A ! (4 + r) = a_full A E W r mod MOD32 \<and> ca ! r = a_full A E W r div MOD32 \<and>
        E ! (4 + r) = e_full A E W r mod MOD32 \<and> ce ! r = e_full A E W r div MOD32)" for n
  proof (induction n)
    case 0
    show ?case by (simp add: A_prefix_def E_prefix_def)
  next
    case (Suc n)
    then obtain A E ce ca where ih: "foldl ?f (A_prefix, E_prefix, [], []) [0..<n] = (A, E, ce, ca)" "length A = 4 + n" "length E = 4 + n"
      "length ce = n" "length ca = n" "take 4 A = A_prefix" "take 4 E = E_prefix"
      "\<forall>r < n. A ! (4 + r) = a_full A E W r mod MOD32 \<and> ca ! r = a_full A E W r div MOD32 \<and>
        E ! (4 + r) = e_full A E W r mod MOD32 \<and> ce ! r = e_full A E W r div MOD32" by blast
    let ?A = "A @ [a_full A E W n mod MOD32]" and ?E = "E @ [e_full A E W n mod MOD32]"
    have st: "foldl ?f (A_prefix, E_prefix, [], []) [0..<Suc n] = (?A, ?E, ce @ [e_full A E W n div MOD32], ca @ [a_full A E W n div MOD32])"
      using ih(1) by (simp add: upt_Suc_append)
    have loc: "a_full ?A ?E W r = a_full A E W r \<and> e_full ?A ?E W r = e_full A E W r" if "r \<le> n" for r
      using ih(2,3) that by (simp add: a_full_def e_full_def t1_of_def nth_append)
    have "\<forall>r < Suc n. ?A ! (4 + r) = a_full ?A ?E W r mod MOD32 \<and> (ca @ [a_full A E W n div MOD32]) ! r = a_full ?A ?E W r div MOD32 \<and>
        ?E ! (4 + r) = e_full ?A ?E W r mod MOD32 \<and> (ce @ [e_full A E W n div MOD32]) ! r = e_full ?A ?E W r div MOD32"
      using ih loc by (auto simp: nth_append less_Suc_eq)
    then show ?case unfolding st using ih by (intro exI conjI) (rule refl | assumption | simp)+
  qed
  show ?thesis using gen [of 64] assms by (simp add: run_rounds_def del: upt_rec_numeral)
qed

lemma grid_nth: "r < m \<Longrightarrow> j < 32 \<Longrightarrow> grid m f ! r ! j = f r j"
  by (simp add: grid_def del: upt_rec_numeral)

lemma has_grid_grid: "has_grid m (grid m f)"
  by (simp add: has_grid_def grid_def list_all_iff del: upt_rec_numeral)

lemma has_grid_bits: "has_grid m (map (\<lambda>r. bits32 (f r)) [i..<i + m])"
  by (simp add: has_grid_def bits32_def list_all_iff del: upt_rec_numeral)

lemma word_range: "0 \<le> x \<Longrightarrow> x < MOD32 \<Longrightarrow> x = uint (of_int x :: w32)"
  by (simp add: MOD32_def take_bit_int_eq_self unsigned_of_int)
text \<open>The fields of an honest trace, the intermediates stated on its own bit classes.\<close>

lemma trace_fields:
  assumes "trace msg = Inr t"
  defines "n \<equiv> length msg div 4"
  shows "length msg mod 4 = 0 \<and> length msg < 56 \<and> msg_len t = length msg \<and>
    msg_stride t = map (\<lambda>k. map (\<lambda>i. uint (msg ! (4 * i + k))) [0..<n]) [0..<4] \<and>
    schedule_words (map (\<lambda>i. from_be (take 4 (drop (4 * i) (sha_pad msg)))) [0..<16]) = (t_W t, t_cw t) \<and>
    run_rounds (t_W t) = (t_A t, t_E t, t_ce t, t_ca t) \<and>
    t_cd t = map (\<lambda>i. (H0_const ! i + finals (t_A t) (t_E t) ! i) div MOD32) [0..<8] \<and>
    t_digest t = concat (map (\<lambda>i. rev (le_bytes 4 (nat ((H0_const ! i + finals (t_A t) (t_E t) ! i) mod MOD32)))) [0..<8])"
  using assms pad_block_is_sha_pad [of msg]
  by (auto simp: trace_def Let_def split: if_splits prod.splits simp del: upt_rec_numeral)

lemma trace_bits:
  assumes "trace msg = Inr t"
  shows "a_bit t = map (\<lambda>r. bits32 (t_A t ! (3 + r))) [0..<64] \<and> b_bit t = map (\<lambda>r. bits32 (t_A t ! (2 + r))) [0..<64] \<and>
    c_bit t = map (\<lambda>r. bits32 (t_A t ! (1 + r))) [0..<64] \<and> e_bit t = map (\<lambda>r. bits32 (t_E t ! (3 + r))) [0..<64] \<and>
    f_bit t = map (\<lambda>r. bits32 (t_E t ! (2 + r))) [0..<64] \<and> g_bit t = map (\<lambda>r. bits32 (t_E t ! (1 + r))) [0..<64] \<and>
    w_bit_m t = map (\<lambda>w. bits32 (t_W t ! w)) [M_LO..<M_HI] \<and> w_bit_n t = map (\<lambda>w. bits32 (t_W t ! w)) [N_LO..<NB_HI]"
  using assms pad_block_is_sha_pad [of msg]
  by (auto simp: trace_def Let_def split: if_splits prod.splits simp del: upt_rec_numeral)

lemma trace_products:
  assumes "trace msg = Inr t"
  defines "eb \<equiv> e_bit t" and "ab \<equiv> a_bit t" and "wm \<equiv> w_bit_m t" and "wn \<equiv> w_bit_n t"
  shows "t_x12 t = grid 64 (\<lambda>r j. rot_at eb 6 r j XOR rot_at eb 11 r j) \<and> t_y12 t = grid 64 (\<lambda>r j. rot_at ab 2 r j XOR rot_at ab 13 r j) \<and>
    t_tbc t = grid 64 (\<lambda>r j. b_bit t ! r ! j XOR c_bit t ! r ! j) \<and>
    t_p1 t = grid 64 (\<lambda>r j. rot_at eb 6 r j * rot_at eb 11 r j) \<and>
    t_p2 t = grid 64 (\<lambda>r j. (rot_at eb 6 r j XOR rot_at eb 11 r j) * rot_at eb 25 r j) \<and>
    t_q1 t = grid 64 (\<lambda>r j. rot_at ab 2 r j * rot_at ab 13 r j) \<and>
    t_q2 t = grid 64 (\<lambda>r j. (rot_at ab 2 r j XOR rot_at ab 13 r j) * rot_at ab 22 r j) \<and>
    t_ef t = grid 64 (\<lambda>r j. eb ! r ! j * f_bit t ! r ! j) \<and> t_eg t = grid 64 (\<lambda>r j. eb ! r ! j * g_bit t ! r ! j) \<and>
    t_bc t = grid 64 (\<lambda>r j. b_bit t ! r ! j * c_bit t ! r ! j) \<and> t_u t = grid 64 (\<lambda>r j. ab ! r ! j * (b_bit t ! r ! j XOR c_bit t ! r ! j)) \<and>
    t_xm t = grid 48 (\<lambda>i j. rot_at wm 7 i j XOR rot_at wm 18 i j) \<and> t_m1 t = grid 48 (\<lambda>i j. rot_at wm 7 i j * rot_at wm 18 i j) \<and>
    t_m2 t = grid 48 (\<lambda>i j. (rot_at wm 7 i j XOR rot_at wm 18 i j) * high_at wm 3 i j) \<and>
    t_xn t = grid 48 (\<lambda>i j. rot_at wn 17 i j XOR rot_at wn 19 i j) \<and> t_n1 t = grid 48 (\<lambda>i j. rot_at wn 17 i j * rot_at wn 19 i j) \<and>
    t_n2 t = grid 48 (\<lambda>i j. (rot_at wn 17 i j XOR rot_at wn 19 i j) * high_at wn 10 i j)"
  using assms pad_block_is_sha_pad [of msg]
  by (auto simp: trace_def Let_def split: if_splits prod.splits simp del: upt_rec_numeral)

lemma trace_total: "length msg mod 4 = 0 \<Longrightarrow> length msg < 56 \<Longrightarrow> \<exists>t. trace msg = Inr t"
  using pad_block_is_sha_pad [of msg] by (simp add: trace_def Let_def split: prod.splits del: upt_rec_numeral)
lemma int_functions_range:
  assumes "0 \<le> x" "x < MOD32" "0 \<le> y" "y < MOD32" "0 \<le> z" "z < MOD32"
  shows "big_sig0 x = uint (BSig0 (of_int x)) \<and> big_sig1 x = uint (BSig1 (of_int x)) \<and>
    small_sig0 x = uint (SSig0 (of_int x)) \<and> small_sig1 x = uint (SSig1 (of_int x)) \<and>
    ch_int x y z = uint (Choose (of_int x) (of_int y) (of_int z)) \<and> maj_int x y z = uint (Majority (of_int x) (of_int y) (of_int z))"
  using int_functions(1,2,3,4) [of "of_int x"] int_functions(5,6) [of "of_int x" "of_int y" "of_int z"]
  unfolding word_range [OF assms(1,2), symmetric] word_range [OF assms(3,4), symmetric] word_range [OF assms(5,6), symmetric]
  by blast

lemma map_upt_offset: "m \<le> w \<Longrightarrow> w < n \<Longrightarrow> map f [m..<n] ! (w - m) = f w"
  by simp

lemma sum_range: "x = uint (w :: w32) \<Longrightarrow> 0 \<le> x \<and> x < MOD32"
  using uint_lt2p [of w] by (simp add: MOD32_def)

lemma K_range: "r < 64 \<Longrightarrow> 0 \<le> K_const ! r \<and> K_const ! r < MOD32"
proof -
  have "list_all (\<lambda>k. 0 \<le> k \<and> k < MOD32) K_const" "length K_const = 64" by (simp_all add: K_const_def MOD32_def)
  then show "r < 64 \<Longrightarrow> 0 \<le> K_const ! r \<and> K_const ! r < MOD32" by (simp add: list_all_length)
qed

lemma H0_range: "i < 8 \<Longrightarrow> 0 \<le> H0_const ! i \<and> H0_const ! i < MOD32"
proof -
  have "list_all (\<lambda>k. 0 \<le> k \<and> k < MOD32) H0_const" "length H0_const = 8" by (simp_all add: H0_const_def MOD32_def)
  then show "i < 8 \<Longrightarrow> 0 \<le> H0_const ! i \<and> H0_const ! i < MOD32" by (simp add: list_all_length)
qed

lemma from_be_range: "0 \<le> from_be (take 4 bs) \<and> from_be (take 4 bs) < MOD32"
proof -
  have "from_le (rev (take 4 bs)) < 256 ^ length (rev (take 4 bs))" by (rule from_le_less)
  also have "\<dots> \<le> 256 ^ 4" by (rule power_increasing) simp_all
  finally show ?thesis by (simp add: from_be_def MOD32_def)
qed

lemma honest_bits: "bad_bits name r (bits32 x) x = []" if "0 \<le> x" "x < MOD32"
proof -
  have x: "x = uint (of_int x :: w32)" by (rule word_range [OF that])
  have b: "bits32 x ! j = of_bool (bit (of_int x :: w32) j)" if "j < 32" for j by (subst x) (rule bits32_word [OF that])
  then have "acc32 (\<lambda>j. bits32 x ! j) = x" using x by (subst x) (rule acc32_word, simp)
  then show ?thesis unfolding bad_bits_def append_is_Nil_conv concat_upt_Nil req_Nil using b by simp
qed

lemma honest_ranges:
  assumes "trace msg = Inr t"
  shows "(\<forall>i < 68. 0 \<le> t_A t ! i \<and> t_A t ! i < MOD32 \<and> 0 \<le> t_E t ! i \<and> t_E t ! i < MOD32) \<and> (\<forall>i < 64. 0 \<le> t_W t ! i \<and> t_W t ! i < MOD32)"
proof -
  note f = trace_fields [OF assms]
  have M: "MOD32 > 0" by (simp add: MOD32_def)
  let ?W0 = "map (\<lambda>i. from_be (take 4 (drop (4 * i) (sha_pad msg)))) [0..<16]"
  have "schedule_words ?W0 = (t_W t, t_cw t)" "length ?W0 = 16" using f by simp_all
  note s = schedule_words_props [OF this]
  have "run_rounds (t_W t) = (t_A t, t_E t, t_ce t, t_ca t)" using f by simp
  note r = run_rounds_props [OF this]
  have pr: "list_all (\<lambda>x. 0 \<le> x \<and> x < MOD32) A_prefix" "list_all (\<lambda>x. 0 \<le> x \<and> x < MOD32) E_prefix" "length A_prefix = 4" "length E_prefix = 4"
    by (simp_all add: A_prefix_def E_prefix_def H0_const_def MOD32_def)
  have "0 \<le> t_A t ! i \<and> t_A t ! i < MOD32 \<and> 0 \<le> t_E t ! i \<and> t_E t ! i < MOD32" if i: "i < 68" for i
  proof (cases "i < 4")
    case True
    then have "t_A t ! i = A_prefix ! i" "t_E t ! i = E_prefix ! i" using r by (metis nth_take)+
    then show ?thesis using pr True by (simp add: list_all_length)
  next
    case False
    define r' where "r' = i - 4"
    have i': "i = 4 + r'" "r' < 64" using False i by (simp_all add: r'_def)
    then have "t_A t ! i = a_full (t_A t) (t_E t) (t_W t) r' mod MOD32" "t_E t ! i = e_full (t_A t) (t_E t) (t_W t) r' mod MOD32"
      using r by simp_all
    then show ?thesis using False M by simp
  qed
  moreover have "0 \<le> t_W t ! i \<and> t_W t ! i < MOD32" if i: "i < 64" for i
  proof (cases "i < 16")
    case True
    then have "t_W t ! i = ?W0 ! i" using s by (metis nth_take)
    then show ?thesis using True from_be_range by (simp del: upt_rec_numeral)
  next
    case False
    then show ?thesis using s i M by simp
  qed
  ultimately show ?thesis by blast
qed

lemma honest_rows:
  assumes t: "trace msg = Inr t"
  shows "bad_roles t = [] \<and> bad_schedule_bits t = []"
proof -
  note b = trace_bits [OF t] and rg = honest_ranges [OF t]
  have "(\<forall>r < 64. bad_bits ''a_bit'' r (a_bit t ! r) (t_A t ! (3 + r)) = [] \<and> bad_bits ''b_bit'' r (b_bit t ! r) (t_A t ! (2 + r)) = [] \<and>
    bad_bits ''c_bit'' r (c_bit t ! r) (t_A t ! (1 + r)) = [] \<and> bad_bits ''e_bit'' r (e_bit t ! r) (t_E t ! (3 + r)) = [] \<and>
    bad_bits ''f_bit'' r (f_bit t ! r) (t_E t ! (2 + r)) = [] \<and> bad_bits ''g_bit'' r (g_bit t ! r) (t_E t ! (1 + r)) = [])"
    using b rg by (simp add: honest_bits del: upt_rec_numeral)
  then have "bad_roles t = []" unfolding bad_roles_def list.map prod.case concat.simps append_is_Nil_conv concat_upt_Nil by simp
  moreover have "bad_bits ''w_bit_m'' w (w_bit_m t ! (w - M_LO)) (t_W t ! w) = []" if "M_LO \<le> w" "w < M_HI" for w
    using rg that map_upt_offset [OF that, of "\<lambda>w. bits32 (t_W t ! w)"] b by (simp add: honest_bits M_HI_def del: upt_rec_numeral nth_map nth_map_upt)
  moreover have "bad_bits ''w_bit_n'' w (w_bit_n t ! (w - N_LO)) (t_W t ! w) = []" if "N_LO \<le> w" "w < NB_HI" for w
    using rg that map_upt_offset [OF that, of "\<lambda>w. bits32 (t_W t ! w)"] b by (simp add: honest_bits NB_HI_def del: upt_rec_numeral nth_map nth_map_upt)
  ultimately show ?thesis unfolding bad_schedule_bits_def append_is_Nil_conv concat_upt_Nil by blast
qed

lemma sha_honest_round:
  assumes t: "trace msg = Inr t" and r: "r < 64"
  shows "bad_round t r = []"
proof -
  note p = trace_products [OF t] and rg = honest_ranges [OF t]
  let ?w = "\<lambda>x. of_int x :: w32"
  note rows = role_rows [OF honest_rows [OF t, THEN conjunct1] r]
  note R = rows [THEN conjunct1] rows [THEN conjunct2, THEN conjunct1] rows [THEN conjunct2, THEN conjunct2, THEN conjunct1]
    rows [THEN conjunct2, THEN conjunct2, THEN conjunct2, THEN conjunct1] rows [THEN conjunct2, THEN conjunct2, THEN conjunct2, THEN conjunct2, THEN conjunct1]
    rows [THEN conjunct2, THEN conjunct2, THEN conjunct2, THEN conjunct2, THEN conjunct2]
  note at = rot_at_bits [OF R(1)] rot_at_bits [OF R(4)] R [THEN row_bitsD]
  have bits: "bad_round_bit t r j = []" if "j < 32" for j
    unfolding bad_round_bit_def Let_def append_is_Nil_conv req_Nil
    by (simp only: p grid_nth [OF r that] at [OF that] xor_of_bool xor2_of_bool simp_thms)
  have sums: "round_S1 t r = uint (BSig1 (?w (t_E t ! (3 + r)))) \<and> round_S0 t r = uint (BSig0 (?w (t_A t ! (3 + r)))) \<and>
      round_ch t r = uint (Choose (?w (t_E t ! (3 + r))) (?w (t_E t ! (2 + r))) (?w (t_E t ! (1 + r)))) \<and>
      round_maj t r = uint (Majority (?w (t_A t ! (3 + r))) (?w (t_A t ! (2 + r))) (?w (t_A t ! (1 + r))))"
    using R bits by (intro round_sums)
  have bnd: "3 + r < 68" "2 + r < 68" "1 + r < 68" "4 + r < 68" "r < 68" using r by simp_all
  have x: "0 \<le> t_A t ! i \<and> t_A t ! i < MOD32 \<and> 0 \<le> t_E t ! i \<and> t_E t ! i < MOD32" if "i < 68" for i using rg that by blast
  have "round_S1 t r = big_sig1 (t_E t ! (3 + r))" "round_S0 t r = big_sig0 (t_A t ! (3 + r))"
      "round_ch t r = ch_int (t_E t ! (3 + r)) (t_E t ! (2 + r)) (t_E t ! (1 + r))"
      "round_maj t r = maj_int (t_A t ! (3 + r)) (t_A t ! (2 + r)) (t_A t ! (1 + r))"
    using sums int_functions_range [of "t_E t ! (3 + r)" "t_E t ! (2 + r)" "t_E t ! (1 + r)"]
      int_functions_range [of "t_A t ! (3 + r)" "t_A t ! (2 + r)" "t_A t ! (1 + r)"] x bnd by simp_all
  then have t1: "t1_of (t_E t) (t_W t) r = t_E t ! r + round_S1 t r + round_ch t r + K_const ! r + t_W t ! r"
    and af: "a_full (t_A t) (t_E t) (t_W t) r = t1_of (t_E t) (t_W t) r + round_S0 t r + round_maj t r"
    and ef: "e_full (t_A t) (t_E t) (t_W t) r = t_A t ! r + t1_of (t_E t) (t_W t) r" by (simp_all add: t1_of_def a_full_def e_full_def)
  have sr: "0 \<le> round_S1 t r \<and> round_S1 t r < MOD32" "0 \<le> round_S0 t r \<and> round_S0 t r < MOD32" "0 \<le> round_ch t r \<and> round_ch t r < MOD32"
    "0 \<le> round_maj t r \<and> round_maj t r < MOD32" 
    using sums [THEN conjunct1, THEN sum_range] sums [THEN conjunct2, THEN conjunct1, THEN sum_range]
      sums [THEN conjunct2, THEN conjunct2, THEN conjunct1, THEN sum_range] sums [THEN conjunct2, THEN conjunct2, THEN conjunct2, THEN sum_range]
    by blast+
  have wr: "0 \<le> t_W t ! r \<and> t_W t ! r < MOD32" using rg r by blast
  have M: "MOD32 = 4294967296" by (simp add: MOD32_def)
  have q: "0 \<le> x div MOD32 \<and> x div MOD32 < 8" if "0 \<le> x" "x < 7 * MOD32" for x using that unfolding M by linarith
  have c: "0 \<le> e_full (t_A t) (t_E t) (t_W t) r \<and> e_full (t_A t) (t_E t) (t_W t) r < 7 * MOD32 \<and>
      0 \<le> a_full (t_A t) (t_E t) (t_W t) r \<and> a_full (t_A t) (t_E t) (t_W t) r < 7 * MOD32"
    unfolding ef af t1 using sr wr K_range [OF r] x [OF bnd(5)] by linarith
  have "run_rounds (t_W t) = (t_A t, t_E t, t_ce t, t_ca t)" using trace_fields [OF t] by blast
  note rr = run_rounds_props [OF this]
  have h: "t_E t ! (4 + r) + MOD32 * t_ce t ! r = e_full (t_A t) (t_E t) (t_W t) r" "t_A t ! (4 + r) + MOD32 * t_ca t ! r = a_full (t_A t) (t_E t) (t_W t) r"
    using rr r by (simp_all add: mod_mult_div_eq)
  have "0 \<le> t_ce t ! r \<and> t_ce t ! r < 8 \<and> 0 \<le> t_ca t ! r \<and> t_ca t ! r < 8" using rr r q c by simp
  then show ?thesis unfolding bad_round_def Let_def append_is_Nil_conv concat_upt_Nil req_Nil using bits h unfolding ef af t1 by simp
qed
lemma honest_sched:
  assumes t: "trace msg = Inr t" and r: "16 \<le> r" "r < 64"
  shows "bad_sched t r = []"
proof -
  note p = trace_products [OF t] and rg = honest_ranges [OF t]
  let ?w = "\<lambda>i. of_int (t_W t ! i) :: w32"
  have bnd: "r - 15 < 64" "r - 2 < 64" "r - 7 < 64" "r - 16 < 64" "r - 15 - M_LO = r - 16" "r - 2 - N_LO = r - 16" "r - 16 < 48" "1 \<le> r - 15" "r - 15 < 49" "14 \<le> r - 2"
    using r by (auto simp: M_LO_def N_LO_def)
  note rows = schedule_rows [OF honest_rows [OF t, THEN conjunct2]]
  have R: "row_bits (w_bit_m t) (r - 16) (?w (r - 15))" "row_bits (w_bit_n t) (r - 16) (?w (r - 2))"
    using rows [of "r - 15"] rows [of "r - 2"] bnd by (simp_all add: M_LO_def N_LO_def)
  note at = rot_at_bits [OF R(1)] rot_at_bits [OF R(2)] high_at_bits [OF R(1)] high_at_bits [OF R(2)]
  have bits: "bad_sched_bit t r j = []" if "j < 32" for j
    unfolding bad_sched_bit_def Let_def append_is_Nil_conv req_Nil bnd(5,6)
    by (simp only: p grid_nth [OF bnd(7) that] at [OF that] xor_of_bool xor2_of_bool simp_thms)
  have sums: "sched_s0 t r = uint (SSig0 (?w (r - 15))) \<and> sched_s1 t r = uint (SSig1 (?w (r - 2)))"
    using R bits by (intro sched_sums) (simp_all only: bnd(5,6))
  have x: "0 \<le> t_W t ! i \<and> t_W t ! i < MOD32" if "i < 64" for i using rg that by blast
  have f: "w_full (t_W t) r = sched_s1 t r + t_W t ! (r - 7) + sched_s0 t r + t_W t ! (r - 16)"
    using sums int_functions_range [of "t_W t ! (r - 15)" 0 0] int_functions_range [of "t_W t ! (r - 2)" 0 0] x bnd by (simp add: w_full_def MOD32_def)
  have sr: "0 \<le> sched_s0 t r \<and> sched_s0 t r < MOD32" "0 \<le> sched_s1 t r \<and> sched_s1 t r < MOD32"
    using sums [THEN conjunct1, THEN sum_range] sums [THEN conjunct2, THEN sum_range] by blast+
  have c: "0 \<le> w_full (t_W t) r \<and> w_full (t_W t) r < 4 * MOD32" unfolding f using sr x [OF bnd(3)] x [OF bnd(4)] by linarith
  have q: "0 \<le> w_full (t_W t) r div MOD32 \<and> w_full (t_W t) r div MOD32 < 4" using c by (simp add: MOD32_def) linarith
  have "schedule_words (map (\<lambda>i. from_be (take 4 (drop (4 * i) (sha_pad msg)))) [0..<16]) = (t_W t, t_cw t)" using trace_fields [OF t] by blast
  note s = schedule_words_props [OF this]
  then have "t_W t ! r = w_full (t_W t) r mod MOD32" "t_cw t ! (r - 16) = w_full (t_W t) r div MOD32" using r by simp_all
  then have "t_W t ! r + MOD32 * t_cw t ! (r - 16) = w_full (t_W t) r \<and> 0 \<le> t_cw t ! (r - 16) \<and> t_cw t ! (r - 16) < 4" using q by simp
  then show ?thesis unfolding bad_sched_def append_is_Nil_conv concat_upt_Nil req_Nil using bits unfolding f by simp
qed

lemma byte_slice:
  assumes "4 * i + 4 \<le> length (msg :: bytes)"
  shows "from_be (take 4 (drop (4 * i) msg)) = sum_list (map (\<lambda>k. push_bit (8 * (3 - k)) (uint (msg ! (4 * i + k)))) [0..<4])"
proof -
  have l: "4 \<le> length (drop (4 * i) msg)" using assms by simp
  have "take 4 (drop (4 * i) msg) = map (\<lambda>k. msg ! (4 * i + k)) [0..<4]"
    using l by (intro nth_equalityI) (simp_all del: upt_rec_numeral)
  then show ?thesis by (simp add: from_be_def push_bit_eq_mult upt_rec numeral_2_eq_2 numeral_3_eq_3)
qed

lemma honest_head:
  assumes t: "trace msg = Inr t"
  shows "bad_prefix t = [] \<and> bad_message t = [] \<and> bad_padding t (sha_pad (replicate (msg_len t) 0)) = [] \<and> strides_message t = msg"
proof (intro conjI)
  note f = trace_fields [OF t]
  have "run_rounds (t_W t) = (t_A t, t_E t, t_ce t, t_ca t)" using f by blast
  note r = run_rounds_props [OF this]
  let ?W0 = "map (\<lambda>i. from_be (take 4 (drop (4 * i) (sha_pad msg)))) [0..<16]"
  have "schedule_words ?W0 = (t_W t, t_cw t)" "length ?W0 = 16" using f by simp_all
  note s = schedule_words_props [OF this]
  have len: "4 * (length msg div 4) = length msg" "length msg div 4 \<le> 13" "msg_len t = length msg" using f by auto
  have st: "msg_stride t ! k ! i = uint (msg ! (4 * i + k))" if "k < 4" "i < length msg div 4" for k i using f that by (simp del: upt_rec_numeral)
  have W: "t_W t ! i = from_be (take 4 (drop (4 * i) (sha_pad msg)))" if "i < 16" for i
  proof -
    have "t_W t ! i = ?W0 ! i" using s that by (metis nth_take)
    then show ?thesis using that by (simp del: upt_rec_numeral)
  qed
  have pre: "t_A t ! i = A_prefix ! i \<and> t_E t ! i = E_prefix ! i" if "i < 4" for i using r that by (metis nth_take)
  show "bad_prefix t = []" unfolding bad_prefix_def concat_upt_Nil append_is_Nil_conv req_Nil using pre by blast
  have rec: "t_W t ! i = sum_list (map (\<lambda>k. push_bit (8 * (3 - k)) (msg_stride t ! k ! i)) [0..<4])" if i: "i < length msg div 4" for i
  proof -
    have b: "4 * i + 4 \<le> length msg" using i len(1) by linarith
    then have "t_W t ! i = from_be (take 4 (drop (4 * i) msg))" using W [of i] i len by (simp add: sha_pad_def)
    then show ?thesis using st [of _ i] i byte_slice [OF b] by (simp add: upt_rec)
  qed
  have rng: "0 \<le> msg_stride t ! k ! i \<and> msg_stride t ! k ! i < 256" if "k < 4" "i < length msg div 4" for k i
    using st [OF that] uint_lt2p [of "msg ! (4 * i + k)"] by simp
  show "bad_message t = []" unfolding bad_message_def Let_def append_is_Nil_conv concat_upt_Nil req_Nil of_bool_eq_0_iff not_not len(3)
    using rng rec by blast
  show "bad_padding t (sha_pad (replicate (msg_len t) 0)) = []" unfolding bad_padding_def concat_upt_Nil req_Nil len(3)
    using W pad_slice_same [OF len(1)] f by simp
  have "strides_message t = concat (map (\<lambda>i. take 4 (drop (4 * i) msg)) [0..<length msg div 4])"
    unfolding strides_message_def len(3)
  proof (intro arg_cong [of _ _ concat] map_cong refl)
    fix i assume "i \<in> set [0..<length msg div 4]"
    then have i: "i < length msg div 4" by simp
    have "4 \<le> length (drop (4 * i) msg)" using i len(1) by simp
    then show "map (\<lambda>k. word_of_int (msg_stride t ! k ! i)) [0..<4] = take 4 (drop (4 * i) msg)"
      using st [OF _ i] by (intro nth_equalityI) (simp_all del: upt_rec_numeral)
  qed
  then show "strides_message t = msg" using len(1) by (simp add: take_drop_slices)
qed


lemma honest_digest:
  assumes t: "trace msg = Inr t"
  shows "length (t_digest t) = 32 \<and> bad_digest t (map (\<lambda>i. from_be (take 4 (drop (4 * i) (t_digest t)))) [0..<8]) = []"
proof -
  note f = trace_fields [OF t] and rg = honest_ranges [OF t]
  let ?fin = "finals (t_A t) (t_E t)" and ?s = "\<lambda>i. H0_const ! i + finals (t_A t) (t_E t) ! i"
  let ?row = "\<lambda>i. rev (le_bytes 4 (nat (?s i mod MOD32)))"
  have M: "MOD32 = 4294967296" by (simp add: MOD32_def)
  have fin: "0 \<le> ?fin ! i \<and> ?fin ! i < MOD32" if "i < 8" for i
  proof -
    have "?fin ! i \<in> set ?fin" using that by (intro nth_mem) (simp add: finals_def)
    then show ?thesis using rg by (auto simp: finals_def)
  qed
  have d: "t_digest t = concat (map ?row [0..<8]) @ []" using f by simp
  have sl: "take 4 (drop (4 * i) (t_digest t)) = ?row i" if "i < 8" for i unfolding d using that by (intro slice_of_rows) simp
  have be: "from_be (?row i) = ?s i mod MOD32" for i
    by (simp add: from_be_def from_le_bytes M)
  have "MOD32 * t_cd t ! i = ?s i - from_be (take 4 (drop (4 * i) (t_digest t))) \<and> 0 \<le> t_cd t ! i \<and> t_cd t ! i < 2" if i: "i < 8" for i
  proof -
    have cd: "t_cd t ! i = ?s i div MOD32" using f i by (simp del: upt_rec_numeral)
    have "0 \<le> ?s i \<and> ?s i < 2 * MOD32" using fin [OF i] H0_range [OF i] by linarith
    then have "0 \<le> ?s i div MOD32 \<and> ?s i div MOD32 < 2" unfolding M by linarith
    then show ?thesis unfolding sl [OF i] be cd by (simp add: minus_mod_eq_mult_div)
  qed
  then have "bad_digest t (map (\<lambda>i. from_be (take 4 (drop (4 * i) (t_digest t)))) [0..<8]) = []"
    unfolding bad_digest_def append_is_Nil_conv concat_upt_Nil req_Nil by (simp del: upt_rec_numeral)
  moreover have "length (t_digest t) = 32" unfolding d by (simp add: length_concat sum_list_triv comp_def)
  ultimately show ?thesis by blast
qed

lemma honest_shapes:
  assumes t: "trace msg = Inr t"
  shows "head_shapes t \<and> body_shapes t"
proof -
  note f = trace_fields [OF t] and b = trace_bits [OF t] and p = trace_products [OF t]
  have "run_rounds (t_W t) = (t_A t, t_E t, t_ce t, t_ca t)" using f by blast
  note r = run_rounds_props [OF this]
  have "schedule_words (map (\<lambda>i. from_be (take 4 (drop (4 * i) (sha_pad msg)))) [0..<16]) = (t_W t, t_cw t)" using f by blast
  note s = schedule_words_props [OF this]
  have l: "length (t_A t) = 68" "length (t_E t) = 68" "length (t_W t) = 64" "length (t_cw t) = 48" "length (t_ce t) = 64" "length (t_ca t) = 64"
    using r s by simp_all
  have cd: "length (t_cd t) = 8" using f by (simp del: upt_rec_numeral)
  have n: "msg_len t div 4 \<le> 64" "msg_len t = length msg" using f by auto
  have st: "length (msg_stride t) = 4" "list_all (\<lambda>row. msg_len t div 4 \<le> length row) (take 4 (msg_stride t))"
    using f by (simp_all add: list_all_iff del: upt_rec_numeral)
  have g: "has_grid 64 (map (\<lambda>r. bits32 (g r)) [0..<64])" for g using has_grid_bits [of 64 g 0] by (simp del: upt_rec_numeral)
  have m: "has_grid 48 (w_bit_m t)" "has_grid 50 (w_bit_n t)"
    using b has_grid_bits [of 50 "\<lambda>w. t_W t ! w" 14] has_grid_bits [of 48 "\<lambda>w. t_W t ! w" 1]
    by (simp_all add: M_LO_def M_HI_def N_LO_def NB_HI_def del: upt_rec_numeral)
  have "body_shapes t" unfolding body_shapes_def list.pred_inject using b p l cd m by (simp only: g has_grid_grid order_refl simp_thms list.pred_inject)
  then show ?thesis using l n st by (simp add: head_shapes_def)
qed

lemma honest_satisfied:
  assumes t: "trace msg = Inr t"
  shows "check_constraints t None = Inr [] \<and> t_digest t = sha256 msg"
proof -
  have l: "msg_len t = length msg" "length msg < 56" "length msg mod 4 = 0" using trace_fields [OF t] by blast+
  have rs: "(\<forall>r < 64. bad_round t r = []) \<and> (\<forall>r. 16 \<le> r \<longrightarrow> r < 64 \<longrightarrow> bad_sched t r = [])"
    using sha_honest_round [OF t] honest_sched [OF t] by (intro conjI allI impI)
  have ok: "check_constraints t None = Inr []" unfolding check_satisfied_iff option.case
    using honest_shapes [OF t] honest_head [OF t] honest_rows [OF t] rs honest_digest [OF t] l
    by (simp only: simp_thms)
  then have "check_constraints t (Some (t_digest t)) = Inr []" unfolding check_satisfied_iff option.case .
  then show ?thesis using layout_digest [of t "t_digest t"] honest_digest [OF t] honest_head [OF t] l ok by simp
qed

text \<open>
  Property C16 (\<open>sha_layout_sound\<close>): whatever values a prover commits, if no constraint of the
  layout has a residual then the public digest is the SHA-256 hash of the message whose bytes
  the stride vectors hold. No other digest can be reached by tampering with any class.
\<close>

theorem sha_layout_sound:
  assumes "check_constraints t (Some d) = Inr []" "msg_len t mod 4 = 0" "length d = 32"
  shows "d = sha256 (strides_message t) \<and> length (strides_message t) = msg_len t"
  using layout_digest [OF assms] assms(2) by (simp add: length_strides_message minus_mod_eq_mult_div [symmetric])

theorem sha_layout_sound_witness:
  "\<exists>t. check_constraints t (Some (t_digest t)) = Inr [] \<and> t_digest t = sha256 (strides_message t) \<and> strides_message t = [0x61, 0x62, 0x63, 0x64]"
proof -
  obtain t where t: "trace [0x61, 0x62, 0x63, 0x64] = Inr t" using trace_total [of "[0x61, 0x62, 0x63, 0x64]"] by auto
  have c: "check_constraints t (Some (t_digest t)) = Inr []" using honest_satisfied [OF t] unfolding check_satisfied_iff option.case by blast
  have "msg_len t mod 4 = 0" "length (t_digest t) = 32" using trace_fields [OF t] honest_digest [OF t] by simp_all
  from sha_layout_sound [OF c this] show ?thesis using c honest_head [OF t] by blast
qed

text \<open>
  Fact (\<open>sha_one_block_correct\<close>): the reference entry point never trips either assertion. On
  every message of whole words that fits one block, the honest trace satisfies every constraint
  and its digest is SHA-256 of the message; on any other length it raises \<open>AssertionError\<close>.
\<close>

theorem sha_one_block_correct:
  "sha256_one_block msg = trace msg \<and>
   (case trace msg of Inl err \<Rightarrow> err = AssertionError \<and> \<not> (length msg mod 4 = 0 \<and> length msg < 56)
     | Inr t \<Rightarrow> check_constraints t None = Inr [] \<and> t_digest t = sha256 msg)"
proof (cases "trace msg")
  case (Inl err)
  then have "\<not> (length msg mod 4 = 0 \<and> length msg < 56)" using trace_total [of msg] by auto
  moreover from this Inl have "err = AssertionError" by (auto simp: trace_def split: if_splits)
  ultimately show ?thesis using Inl by (auto simp: sha256_one_block_def)
next
  case (Inr t)
  then show ?thesis using honest_satisfied [OF Inr] by (simp add: sha256_one_block_def)
qed

end
