(* ===== verification/Token_Recorder.thy ===== *)
theory Token_Recorder
  imports Sha256_Ref
begin

text \<open>
  The reference recorder of \<^verbatim>\<open>prover/ref/token_recorder.py\<close>: AES-128 from its algebraic definition,
  counter mode with the GCM counter layout, the serialization of tokens and the three public
  digests. \<^verbatim>\<open>hashlib.sha256\<close> is \<^const>\<open>sha256\<close>. State bytes are Python integers; keys, payloads and
  digests are byte strings.
\<close>

unbundle bit_operations_syntax

definition TOKEN_BYTES :: nat where "TOKEN_BYTES = 4"
definition KEY_BYTES :: nat where "KEY_BYTES = 16"
definition IV_BYTES :: nat where "IV_BYTES = 12"
definition AES_BLOCK :: nat where "AES_BLOCK = 16"
definition CTR_START :: nat where "CTR_START = 2"

section \<open>AES-128\<close>

definition gf_double :: "int \<Rightarrow> int" where
  "gf_double a =
     (let hi = a AND 0x80; a' = push_bit 1 a AND 0xFF
      in if hi \<noteq> 0 then a' XOR 0x1B else a')"

fun gf_loop :: "nat \<Rightarrow> int \<Rightarrow> int \<Rightarrow> int \<Rightarrow> int" where
  "gf_loop 0 r a b = r"
| "gf_loop (Suc n) r a b = gf_loop n (if b AND 1 \<noteq> 0 then r XOR a else r) (gf_double a) (drop_bit 1 b)"

definition gf_mul :: "int \<Rightarrow> int \<Rightarrow> int" where
  "gf_mul a b = gf_loop 8 0 a b"

text \<open>Inverses by brute force (0 has none and keeps 0), then the affine map.\<close>

definition gf_inv :: "int \<Rightarrow> int" where
  "gf_inv x = (if x = 0 then 0 else case filter (\<lambda>y. gf_mul x y = 1) (map int [1..<256]) of [] \<Rightarrow> 0 | y # ys \<Rightarrow> y)"

definition sbox_bit :: "int \<Rightarrow> nat \<Rightarrow> int" where
  "sbox_bit b i =
     (drop_bit i b XOR drop_bit ((i + 4) mod 8) b XOR drop_bit ((i + 5) mod 8) b XOR drop_bit ((i + 6) mod 8) b XOR
      drop_bit ((i + 7) mod 8) b XOR drop_bit i 0x63) AND 1"

definition sbox_entry :: "int \<Rightarrow> int" where
  "sbox_entry x = foldl (\<lambda>s i. s OR push_bit i (sbox_bit (gf_inv x) i)) 0 [0..<8]"

definition SBOX :: "int list" where
  "SBOX = map (\<lambda>x. sbox_entry (int x)) [0..<256]"

definition sub_byte :: "int \<Rightarrow> int" where
  "sub_byte x = SBOX ! nat x"

text \<open>The key schedule builds 44 words of four bytes.\<close>

definition key_word :: "int list list \<Rightarrow> int \<Rightarrow> nat \<Rightarrow> int list" where
  "key_word w rcon i =
     (let t = w ! (i - 1);
          t' = (if i mod 4 = 0 then (let s = map sub_byte (tl t @ take 1 t) in s[0 := s ! 0 XOR rcon]) else t)
      in map2 (XOR) (w ! (i - 4)) t')"

definition key_words :: "int list \<Rightarrow> int list list \<times> int" where
  "key_words key =
     foldl (\<lambda>(w, rcon) i. (w @ [key_word w rcon i], if i mod 4 = 0 then gf_mul rcon 2 else rcon))
       (map (\<lambda>i. take 4 (drop (4 * i) key)) [0..<4], 1) [4..<44]"

definition key_expand :: "bytes \<Rightarrow> int list list result" where
  "key_expand key =
     (if length key \<noteq> KEY_BYTES then Inl AssertionError
      else let (w, rcon) = key_words (map uint key)
           in Inr (map (\<lambda>r. concat (take 4 (drop (4 * r) w))) [0..<11]))"

text \<open>One block. The state is four rows of four columns, \<open>s ! r ! c\<close> holding input byte \<open>r + 4 c\<close>.\<close>

type_synonym aes_state = "int list list"

definition state4 :: "(nat \<Rightarrow> nat \<Rightarrow> int) \<Rightarrow> aes_state" where
  "state4 f = map (\<lambda>r. map (f r) [0..<4]) [0..<4]"

definition add_rk :: "aes_state \<Rightarrow> int list \<Rightarrow> aes_state" where
  "add_rk s rk = state4 (\<lambda>r c. s ! r ! c XOR rk ! (r + 4 * c))"

definition sub_bytes :: "aes_state \<Rightarrow> aes_state" where
  "sub_bytes s = map (map sub_byte) s"

definition shift_rows :: "aes_state \<Rightarrow> aes_state" where
  "shift_rows s = map (\<lambda>r. drop r (s ! r) @ take r (s ! r)) [0..<4]"

definition mix_col :: "int list \<Rightarrow> int list" where
  "mix_col a =
     [gf_mul (a ! 0) 2 XOR gf_mul (a ! 1) 3 XOR a ! 2 XOR a ! 3,
      a ! 0 XOR gf_mul (a ! 1) 2 XOR gf_mul (a ! 2) 3 XOR a ! 3,
      a ! 0 XOR a ! 1 XOR gf_mul (a ! 2) 2 XOR gf_mul (a ! 3) 3,
      gf_mul (a ! 0) 3 XOR a ! 1 XOR a ! 2 XOR gf_mul (a ! 3) 2]"

definition mix_columns :: "aes_state \<Rightarrow> aes_state" where
  "mix_columns s = state4 (\<lambda>r c. mix_col (map (\<lambda>r. s ! r ! c) [0..<4]) ! r)"

definition aes_round :: "int list list \<Rightarrow> aes_state \<Rightarrow> nat \<Rightarrow> aes_state" where
  "aes_round rks s rnd =
     (let s' = shift_rows (sub_bytes s)
      in add_rk (if rnd < 10 then mix_columns s' else s') (rks ! rnd))"

definition encrypt_block :: "int list list \<Rightarrow> int list \<Rightarrow> int list" where
  "encrypt_block rks block =
     (let s0 = add_rk (state4 (\<lambda>r c. block ! (r + 4 * c))) (rks ! 0);
          s = foldl (aes_round rks) s0 [1..<11]
      in map (\<lambda>r. s ! (r mod 4) ! (r div 4)) [0..<16])"

section \<open>Counter mode\<close>

definition to_be :: "nat \<Rightarrow> int \<Rightarrow> bytes result" where
  "to_be n v = rbind (to_bytes n v) (\<lambda>bs. Inr (rev bs))"

definition n_blocks :: "nat \<Rightarrow> nat" where
  "n_blocks n = (n + AES_BLOCK - 1) div AES_BLOCK"

definition ctr_chunk :: "int list list \<Rightarrow> bytes \<Rightarrow> bytes \<Rightarrow> nat \<Rightarrow> bytes result" where
  "ctr_chunk rks iv plaintext j =
     rbind (to_be 4 (int (CTR_START + j))) (\<lambda>ctr.
       let ks = encrypt_block rks (map uint (iv @ ctr));
           chunk = take AES_BLOCK (drop (AES_BLOCK * j) plaintext)
       in Inr (map (\<lambda>(p, k). word_of_int (uint p XOR k)) (zip chunk ks)))"

definition aes128_ctr_gcm :: "bytes \<Rightarrow> bytes \<Rightarrow> bytes \<Rightarrow> bytes result" where
  "aes128_ctr_gcm key iv plaintext =
     (if length key \<noteq> KEY_BYTES \<or> length iv \<noteq> IV_BYTES then Inl AssertionError
      else rbind (key_expand key) (\<lambda>rks.
        rbind (rmap (ctr_chunk rks iv plaintext) [0..<n_blocks (length plaintext)]) (\<lambda>chunks. Inr (concat chunks))))"

section \<open>Serialization and the record\<close>

definition token_unit :: "int \<Rightarrow> bytes result" where
  "token_unit t = (if 0 \<le> t \<and> t < 2 ^ (8 * TOKEN_BYTES) then to_bytes TOKEN_BYTES t else Inl ValueError)"

definition serialize_tokens :: "int list \<Rightarrow> bytes result" where
  "serialize_tokens tokens = rbind (rmap token_unit tokens) (\<lambda>us. Inr (concat us))"

definition hex_digit :: "nat \<Rightarrow> char" where
  "hex_digit d = (if d < 10 then char_of (48 + d) else char_of (87 + d))"

definition hex :: "bytes \<Rightarrow> string" where
  "hex bs = concat (map (\<lambda>b. [hex_digit (unat b div 16), hex_digit (unat b mod 16)]) bs)"

record recording =
  H1_in :: string
  H1_out :: string
  H2 :: string
  rec_ct_in :: string
  rec_ct_out :: string
  rec_key_material :: string

definition token_record :: "int list \<Rightarrow> int list \<Rightarrow> bytes \<Rightarrow> bytes \<Rightarrow> bytes \<Rightarrow> recording result" where
  "token_record tokens_in tokens_out key iv_in iv_out =
     (if iv_in = iv_out then Inl ValueError
      else rbind (serialize_tokens tokens_in) (\<lambda>p_in. rbind (aes128_ctr_gcm key iv_in p_in) (\<lambda>ct_in.
           rbind (serialize_tokens tokens_out) (\<lambda>p_out. rbind (aes128_ctr_gcm key iv_out p_out) (\<lambda>ct_out.
           Inr \<lparr>H1_in = hex (sha256 ct_in), H1_out = hex (sha256 ct_out), H2 = hex (sha256 (key @ iv_in @ iv_out)),
             rec_ct_in = hex ct_in, rec_ct_out = hex ct_out, rec_key_material = hex (key @ iv_in @ iv_out)\<rparr>)))))"
section \<open>Counter mode is an exclusive or with the key stream\<close>

definition ctr_suffix :: "nat \<Rightarrow> bytes" where
  "ctr_suffix j = rev (le_bytes 4 (CTR_START + j))"

definition stream_block :: "bytes \<Rightarrow> bytes \<Rightarrow> nat \<Rightarrow> bytes" where
  "stream_block key iv j = (case key_expand key of Inl e \<Rightarrow> [] | Inr rks \<Rightarrow> map word_of_int (encrypt_block rks (map uint (iv @ ctr_suffix j))))"

definition key_stream :: "bytes \<Rightarrow> bytes \<Rightarrow> nat \<Rightarrow> bytes" where
  "key_stream key iv n = concat (map (stream_block key iv) [0..<n])"

lemma key_expand_total: "length key = KEY_BYTES \<Longrightarrow> \<exists>rks. key_expand key = Inr rks"
  by (cases "key_words (map uint key)") (simp add: key_expand_def)

lemma zip_slices:
  assumes "\<And>j. length (K j) = k"
  shows "concat (map (\<lambda>j. zip (take k (drop (k * j) xs)) (K j)) [0..<n]) = zip (take (k * n) xs) (concat (map K [0..<n]))"
proof (induction n)
  case (Suc n)
  have l: "length (concat (map K [0..<n])) = k * n" by (simp add: length_concat sum_list_triv comp_def assms mult.commute)
  have "take k (drop (k * n) xs) = drop (k * n) (take (k * Suc n) xs)" "take (k * n) xs = take (k * n) (take (k * Suc n) xs)"
    by (simp_all add: drop_take add.commute)
  then show ?case using Suc.IH l by (simp add: zip_append2)
qed simp

lemma length_encrypt_block [simp]: "length (encrypt_block rks b) = 16"
  by (simp add: encrypt_block_def Let_def)

lemma length_stream_block: "length key = KEY_BYTES \<Longrightarrow> length (stream_block key iv j) = 16"
  by (simp add: stream_block_def key_expand_def split: prod.splits)

lemma length_key_stream: "length key = KEY_BYTES \<Longrightarrow> length (key_stream key iv n) = 16 * n"
  by (simp add: key_stream_def length_concat comp_def length_stream_block sum_list_triv)

lemma xor_byte: "(word_of_int (uint p XOR k) :: byte) = p XOR word_of_int k"
  by (rule bit_word_eqI) (simp add: bit_word_of_int_iff bit_xor_iff bit_uint_iff)

lemma n_blocks_covers: "n \<le> 16 * n_blocks n" "n_blocks 0 = 0"
  by (simp_all add: n_blocks_def AES_BLOCK_def)

lemma ctr_chunk_Inr:
  assumes "length key = KEY_BYTES" "key_expand key = Inr rks" "CTR_START + j < 2 ^ 32"
  shows "ctr_chunk rks iv pt j = Inr (map2 (XOR) (take 16 (drop (16 * j) pt)) (stream_block key iv j))"
proof -
  have "to_be 4 (int (CTR_START + j)) = Inr (ctr_suffix j)" using assms(3) by (simp add: to_be_def to_bytes_def ctr_suffix_def nat_int_add)
  then show ?thesis using assms(2)
    by (simp add: ctr_chunk_def stream_block_def AES_BLOCK_def zip_map2 xor_byte Let_def case_prod_beta comp_def)
qed

lemma ctr_chunk_overflow: "\<not> CTR_START + j < 2 ^ 32 \<Longrightarrow> ctr_chunk rks iv pt j = Inl OverflowError"
proof -
  assume "\<not> CTR_START + j < 2 ^ 32"
  then have "to_bytes 4 (int (CTR_START + j)) = Inl OverflowError" unfolding to_bytes_def by (simp add: nat_int_add)
  then show ?thesis by (simp only: ctr_chunk_def to_be_def rbind_simps)
qed

lemma aes_ctr_xor:
  assumes "length key = KEY_BYTES" "length iv = IV_BYTES" "CTR_START + n_blocks (length pt) \<le> 2 ^ 32"
  shows "aes128_ctr_gcm key iv pt = Inr (map2 (XOR) pt (key_stream key iv (n_blocks (length pt))))"
proof -
  obtain rks where k: "key_expand key = Inr rks" using key_expand_total [OF assms(1)] by blast
  have "rmap (ctr_chunk rks iv pt) [0..<n_blocks (length pt)] =
      Inr (map (\<lambda>j. map2 (XOR) (take 16 (drop (16 * j) pt)) (stream_block key iv j)) [0..<n_blocks (length pt)])"
    using ctr_chunk_Inr [OF assms(1) k] assms(3) by (intro rmap_Inr_map) simp
  moreover have "concat (map (\<lambda>j. map2 (XOR) (take 16 (drop (16 * j) pt)) (stream_block key iv j)) [0..<n_blocks (length pt)]) =
      map (\<lambda>(p, k). p XOR k) (concat (map (\<lambda>j. zip (take 16 (drop (16 * j) pt)) (stream_block key iv j)) [0..<n_blocks (length pt)]))"
    by (simp add: map_concat comp_def)
  moreover have "take (16 * n_blocks (length pt)) pt = pt" using n_blocks_covers(1) by simp
  ultimately show ?thesis using assms(1,2) k zip_slices [of "stream_block key iv" 16 pt] length_stream_block [OF assms(1)]
    by (simp add: aes128_ctr_gcm_def key_stream_def)
qed

lemma rmap_Inr_all: "rmap f xs = Inr ys \<Longrightarrow> x \<in> set xs \<Longrightarrow> \<exists>y. f x = Inr y"
  by (induction xs arbitrary: ys) (auto simp: rbind_Inr_iff)

lemma aes_ctr_InrD:
  assumes "aes128_ctr_gcm key iv pt = Inr ct"
  shows "length key = KEY_BYTES \<and> length iv = IV_BYTES \<and> CTR_START + n_blocks (length pt) \<le> 2 ^ 32 \<and>
    ct = map2 (XOR) pt (key_stream key iv (n_blocks (length pt)))"
proof -
  have l: "length key = KEY_BYTES" "length iv = IV_BYTES" using assms by (auto simp: aes128_ctr_gcm_def split: if_splits)
  obtain rks where k: "key_expand key = Inr rks" using key_expand_total [OF l(1)] by blast
  have c: "CTR_START + n_blocks (length pt) \<le> 2 ^ 32"
  proof (cases "n_blocks (length pt)")
    case 0
    then show ?thesis by (simp add: CTR_START_def)
  next
    case (Suc m)
    obtain cs where cs: "rmap (ctr_chunk rks iv pt) [0..<n_blocks (length pt)] = Inr cs"
      using assms l k by (auto simp: aes128_ctr_gcm_def rbind_Inr_iff)
    have m: "m \<in> set [0..<n_blocks (length pt)]" using Suc by simp
    obtain y where "ctr_chunk rks iv pt m = Inr y" using rmap_Inr_all [OF cs m] by blast
    then have "CTR_START + m < 2 ^ 32" using ctr_chunk_overflow [of m rks iv pt] by (cases "CTR_START + m < 2 ^ 32") simp_all
    then show ?thesis unfolding Suc by (simp only: add_Suc_right Suc_le_eq)
  qed
  then show ?thesis using l aes_ctr_xor [OF l c] assms by simp
qed

lemma length_aes_ctr: "aes128_ctr_gcm key iv pt = Inr ct \<Longrightarrow> length ct = length pt"
  using aes_ctr_InrD [of key iv pt ct] length_key_stream [of key iv "n_blocks (length pt)"] n_blocks_covers(1) [of "length pt"] by simp

lemma xor_xor_list: "length xs \<le> length ys \<Longrightarrow> map2 (XOR) (map2 (XOR) xs ys) ys = (xs :: bytes)"
proof (induction xs arbitrary: ys)
  case (Cons x xs)
  then show ?case by (cases ys) (simp_all add: xor.assoc)
qed simp

lemma aes_ctr_inverse:
  assumes "aes128_ctr_gcm key iv pt = Inr ct"
  shows "aes128_ctr_gcm key iv ct = Inr pt"
proof -
  note d = aes_ctr_InrD [OF assms]
  have "length pt \<le> length (key_stream key iv (n_blocks (length pt)))" using d length_key_stream n_blocks_covers(1) by simp
  then show ?thesis using d length_aes_ctr [OF assms] aes_ctr_xor [of key iv ct] by (simp add: xor_xor_list)
qed

text \<open>
  Fact (\<open>aes_ctr_roundtrip\<close>): counter mode is its own inverse. Whenever a payload is
  encrypted, the ciphertext has its length and encrypting it again under the same key and
  initialisation vector returns the payload.
\<close>

theorem aes_ctr_roundtrip:
  assumes "aes128_ctr_gcm key iv pt = Inr ct"
  shows "length ct = length pt \<and> aes128_ctr_gcm key iv ct = Inr pt"
  using aes_ctr_inverse [OF assms] length_aes_ctr [OF assms] by blast

theorem aes_ctr_roundtrip_witness:
  "\<exists>ct. aes128_ctr_gcm (replicate 16 7) (replicate 12 1) [0x68, 0x69] = Inr ct \<and> length ct = 2 \<and>
     aes128_ctr_gcm (replicate 16 7) (replicate 12 1) ct = Inr [0x68, 0x69]"
proof -
  have "\<exists>ct. aes128_ctr_gcm (replicate 16 7) (replicate 12 1) [0x68, 0x69] = Inr ct"
    using aes_ctr_xor [of "replicate 16 7" "replicate 12 1" "[0x68, 0x69]"] by (simp add: KEY_BYTES_def IV_BYTES_def CTR_START_def n_blocks_def AES_BLOCK_def)
  then obtain ct where ct: "aes128_ctr_gcm (replicate 16 7) (replicate 12 1) [0x68, 0x69] = Inr ct" by blast
  from aes_ctr_roundtrip [OF ct] ct show ?thesis by auto
qed

section \<open>What the digests bind\<close>

lemma hex_digit_inj: "d < 16 \<Longrightarrow> e < 16 \<Longrightarrow> hex_digit d = hex_digit e \<longleftrightarrow> d = e"
proof -
  assume a: "d < 16" "e < 16"
  have c: "(of_char (char_of n) :: nat) = n" if "n < 256" for n :: nat using that by (simp only: of_char_of mod_less)
  have v: "(of_char (hex_digit d) :: nat) = (if d < 10 then 48 + d else 87 + d)" if "d < 16" for d using that c by (simp add: hex_digit_def)
  show ?thesis
  proof
    assume "hex_digit d = hex_digit e"
    then have "(if d < 10 then 48 + d else 87 + d) = (if e < 10 then 48 + e else 87 + e)" using v [OF a(1)] v [OF a(2)] by metis
    then show "d = e" by (simp split: if_splits)
  qed simp
qed

lemma hex_inj: "hex a = hex b \<longleftrightarrow> a = b"
proof
  show "hex a = hex b \<Longrightarrow> a = b"
  proof (induction a arbitrary: b)
    case Nil
    then show ?case by (cases b) (simp_all add: hex_def)
  next
    case (Cons x a)
    then obtain y b' where b: "b = y # b'" by (cases b) (simp_all add: hex_def)
    have r: "unat x div 16 < 16" "unat y div 16 < 16" using unat_byte_less [of x] unat_byte_less [of y] by (simp_all add: less_mult_imp_div_less)
    have "unat x div 16 = unat y div 16" "unat x mod 16 = unat y mod 16" "hex a = hex b'"
      using Cons.prems r unfolding b by (simp_all add: hex_def hex_digit_inj)
    then have "unat x = unat y" by (metis div_mult_mod_eq)
    then show ?case using Cons.IH [OF \<open>hex a = hex b'\<close>] b by (simp add: unsigned_word_eqI)
  qed
qed simp

lemma token_unit_InrD: "token_unit t = Inr u \<Longrightarrow> length u = 4 \<and> to_bytes 4 t = Inr u"
  by (auto simp: token_unit_def TOKEN_BYTES_def to_bytes_length split: if_splits)

lemma serialize_inj: "serialize_tokens ts = Inr p \<Longrightarrow> serialize_tokens us = Inr p \<Longrightarrow> ts = us"
proof -
  have gen: "rmap token_unit ts = Inr a \<Longrightarrow> rmap token_unit us = Inr b \<Longrightarrow> concat a = concat b \<Longrightarrow> ts = us" for a b
  proof (induction ts arbitrary: us a b)
    case Nil
    then show ?case by (cases us) (auto simp: rbind_Inr_iff dest!: token_unit_InrD)
  next
    case (Cons t ts)
    then obtain u a' where a: "a = u # a'" "token_unit t = Inr u" "rmap token_unit ts = Inr a'" by (auto simp: rbind_Inr_iff)
    note l = token_unit_InrD [OF a(2)]
    obtain w us' where us: "us = w # us'" using Cons.prems a l by (cases us) auto
    obtain v b' where b: "b = v # b'" "token_unit w = Inr v" "rmap token_unit us' = Inr b'" using Cons.prems(2) us by (auto simp: rbind_Inr_iff)
    have "u = v" "concat a' = concat b'" using Cons.prems(3) a b l token_unit_InrD [OF b(2)] by auto
    then show ?case using Cons.IH [OF a(3) b(3)] us l token_unit_InrD [OF b(2)] to_bytes_inj by blast
  qed
  show "serialize_tokens ts = Inr p \<Longrightarrow> serialize_tokens us = Inr p \<Longrightarrow> ts = us"
    using gen by (auto simp: serialize_tokens_def rbind_Inr_iff)
qed

lemma token_record_InrD:
  assumes "token_record ti to key ivi ivo = Inr r"
  shows "\<exists>pi po ci co. serialize_tokens ti = Inr pi \<and> serialize_tokens to = Inr po \<and> aes128_ctr_gcm key ivi pi = Inr ci \<and> aes128_ctr_gcm key ivo po = Inr co \<and>
    r = \<lparr>H1_in = hex (sha256 ci), H1_out = hex (sha256 co), H2 = hex (sha256 (key @ ivi @ ivo)), rec_ct_in = hex ci, rec_ct_out = hex co,
      rec_key_material = hex (key @ ivi @ ivo)\<rparr>"
  using assms by (auto simp: token_record_def rbind_Inr_iff split: if_splits)

text \<open>A collision of the hash on one of the three recorded pairs of inputs.\<close>

definition record_collision :: "recording \<Rightarrow> recording \<Rightarrow> bool" where
  "record_collision r r' \<longleftrightarrow> (\<exists>x y. x \<noteq> y \<and> sha256 x = sha256 y \<and>
     (hex x, hex y) \<in> {(rec_ct_in r, rec_ct_in r'), (rec_ct_out r, rec_ct_out r'), (rec_key_material r, rec_key_material r')})"

text \<open>
  Fact (\<open>record_binding\<close>): the three public digests bind the whole exchange. Two
  recordings with equal digests have the same tokens in both directions, the same key and the
  same initialisation vectors, or one of the three pairs of hashed strings the two runs produced
  is a collision of SHA-256.
\<close>

theorem record_binding:
  assumes "token_record ti to key ivi ivo = Inr r" "token_record ti' to' key' ivi' ivo' = Inr r'"
    and eq: "H1_in r = H1_in r'" "H1_out r = H1_out r'" "H2 r = H2 r'"
  shows "(ti = ti' \<and> to = to' \<and> key = key' \<and> ivi = ivi' \<and> ivo = ivo') \<or> record_collision r r'"
proof (rule disjCI)
  assume n: "\<not> record_collision r r'"
  obtain pi po ci co where r: "serialize_tokens ti = Inr pi" "serialize_tokens to = Inr po" "aes128_ctr_gcm key ivi pi = Inr ci" "aes128_ctr_gcm key ivo po = Inr co"
    "r = \<lparr>H1_in = hex (sha256 ci), H1_out = hex (sha256 co), H2 = hex (sha256 (key @ ivi @ ivo)), rec_ct_in = hex ci, rec_ct_out = hex co,
      rec_key_material = hex (key @ ivi @ ivo)\<rparr>" using token_record_InrD [OF assms(1)] by blast
  obtain pi' po' ci' co' where r': "serialize_tokens ti' = Inr pi'" "serialize_tokens to' = Inr po'" "aes128_ctr_gcm key' ivi' pi' = Inr ci'" "aes128_ctr_gcm key' ivo' po' = Inr co'"
    "r' = \<lparr>H1_in = hex (sha256 ci'), H1_out = hex (sha256 co'), H2 = hex (sha256 (key' @ ivi' @ ivo')), rec_ct_in = hex ci', rec_ct_out = hex co',
      rec_key_material = hex (key' @ ivi' @ ivo')\<rparr>" using token_record_InrD [OF assms(2)] by blast
  have m: "ci = ci'" "co = co'" "key @ ivi @ ivo = key' @ ivi' @ ivo'"
    using n eq unfolding record_collision_def r(5) r'(5) by (simp_all add: hex_inj) blast+
  have k: "key = key'" "ivi = ivi'" "ivo = ivo'"
    using m(3) aes_ctr_InrD [OF r(3)] aes_ctr_InrD [OF r'(3)] by auto
  have "Inr pi = (Inr pi' :: bytes result)" "Inr po = (Inr po' :: bytes result)"
    using aes_ctr_inverse [OF r(3)] aes_ctr_inverse [OF r(4)] aes_ctr_inverse [OF r'(3)] aes_ctr_inverse [OF r'(4)] m k by simp_all
  then show "ti = ti' \<and> to = to' \<and> key = key' \<and> ivi = ivi' \<and> ivo = ivo'" using serialize_inj r r' k by auto
qed

theorem record_binding_witness:
  "\<exists>r. token_record [1] [2, 3] (replicate 16 7) (replicate 12 1) (replicate 12 2) = Inr r \<and>
     (([1], [2, 3]) = ([1], [2 :: int, 3 :: int]) \<or> record_collision r r)"
proof -
  have "\<exists>r. token_record [1] [2, 3] (replicate 16 7) (replicate 12 1) (replicate 12 2) = Inr r"
    by (simp add: token_record_def serialize_tokens_def token_unit_def TOKEN_BYTES_def to_bytes_def aes_ctr_xor KEY_BYTES_def IV_BYTES_def CTR_START_def n_blocks_def AES_BLOCK_def)
  then obtain r where r: "token_record [1] [2, 3] (replicate 16 7) (replicate 12 1) (replicate 12 2) = Inr r" by blast
  from record_binding [OF r r] r show ?thesis by blast
qed

end
