(* ===== verification/Aes.thy ===== *)
theory Aes
  imports Token_Recorder
begin

text \<open>
  The AES-128-CTR constraint layout of \<^verbatim>\<open>prover/ref/aes_trace.py\<close>: the witness trace of one
  invocation, the checker of every constraint, and the site enumeration and byte pool the
  circuit is composed from. Committed values are Python integers in nested lists.
\<close>

unbundle bit_operations_syntax

section \<open>Public tables\<close>

definition XTIME :: "int list" where
  "XTIME = map (\<lambda>x. gf_mul (int x) 2) [0..<256]"

definition RCON :: "int list" where
  "RCON = foldl (\<lambda>rc k. rc @ [gf_mul (rc ! (length rc - 1)) 2]) [1] [1..<10]"

definition SHIFT_SRC :: "nat list" where
  "SHIFT_SRC = map (\<lambda>i. i mod 4 + 4 * ((i div 4 + i mod 4) mod 4)) [0..<16]"

definition BYTE_CLASSES :: "string list" where
  "BYTE_CLASSES = [''rk'', ''ks_sub'', ''ks_rcon_b'', ''ks_rcon_z'', ''iv_bytes'', ''ctr_bytes'', ''pt_bytes'', ''s_ark'', ''s_sub'', ''mc_xt'',
     ''mc_mid'', ''mc_out'', ''ct_bytes'']"

definition KEY_CLASSES :: "string list" where
  "KEY_CLASSES = [''ks_rcon_k'', ''ks_xor_k'', ''ark_k'', ''mc_k'', ''ct_k'']"

definition COMMITTED :: "string list" where
  "COMMITTED = BYTE_CLASSES @ KEY_CLASSES"

section \<open>Committed classes and their slots\<close>

record aes_trace =
  nblocks :: nat
  iv_bytes :: "int list"
  ks_sub :: "int list list"
  ks_rcon_b :: "int list"
  ks_rcon_k :: "int list"
  ks_rcon_z :: "int list"
  ks_xor_k :: "int list list"
  rk :: "int list list"
  ctr_bytes :: "int list list"
  pt_bytes :: "int list list"
  s_ark :: "int list list list"
  s_sub :: "int list list list"
  ark_k :: "int list list list"
  mc_xt :: "int list list list"
  mc_k :: "int list list list list"
  mc_mid :: "int list list list list"
  mc_out :: "int list list list"
  ct_k :: "int list list"
  ct_bytes :: "int list list"
  ciphertext :: bytes

text \<open>A nested Python list of integers.\<close>

datatype slot = Leaf int | Node "slot list"

fun slots_from :: "slot list \<Rightarrow> nat list \<Rightarrow> nat \<Rightarrow> (nat list \<times> int) list" where
  "slots_from [] path i = []"
| "slots_from (Leaf v # xs) path i = (path @ [i], v) # slots_from xs path (Suc i)"
| "slots_from (Node ys # xs) path i = slots_from ys (path @ [i]) 0 @ slots_from xs path (Suc i)"

fun slots :: "slot \<Rightarrow> (nat list \<times> int) list" where
  "slots (Leaf v) = []"
| "slots (Node xs) = slots_from xs [] 0"

fun slot_at :: "slot \<Rightarrow> nat list \<Rightarrow> slot result" where
  "slot_at s [] = Inr s"
| "slot_at (Leaf v) (p # ps) = Inl TypeError"
| "slot_at (Node xs) (p # ps) = (if p < length xs then slot_at (xs ! p) ps else Inl IndexError)"

definition nest1 :: "int list \<Rightarrow> slot" where "nest1 xs = Node (map Leaf xs)"
definition nest2 :: "int list list \<Rightarrow> slot" where "nest2 xs = Node (map nest1 xs)"
definition nest3 :: "int list list list \<Rightarrow> slot" where "nest3 xs = Node (map nest2 xs)"
definition nest4 :: "int list list list list \<Rightarrow> slot" where "nest4 xs = Node (map nest3 xs)"

definition class_table :: "aes_trace \<Rightarrow> (string \<times> slot) list" where
  "class_table t =
     [(''rk'', nest2 (rk t)), (''ks_sub'', nest2 (ks_sub t)), (''ks_rcon_b'', nest1 (ks_rcon_b t)), (''ks_rcon_z'', nest1 (ks_rcon_z t)),
      (''iv_bytes'', nest1 (iv_bytes t)), (''ctr_bytes'', nest2 (ctr_bytes t)), (''pt_bytes'', nest2 (pt_bytes t)), (''s_ark'', nest3 (s_ark t)),
      (''s_sub'', nest3 (s_sub t)), (''mc_xt'', nest3 (mc_xt t)), (''mc_mid'', nest4 (mc_mid t)), (''mc_out'', nest3 (mc_out t)),
      (''ct_bytes'', nest2 (ct_bytes t)), (''ks_rcon_k'', nest1 (ks_rcon_k t)), (''ks_xor_k'', nest2 (ks_xor_k t)), (''ark_k'', nest3 (ark_k t)),
      (''mc_k'', nest4 (mc_k t)), (''ct_k'', nest2 (ct_k t))]"

definition class_of :: "aes_trace \<Rightarrow> string \<Rightarrow> slot result" where
  "class_of t cls = (case map_of (class_table t) cls of None \<Rightarrow> Inl KeyError | Some s \<Rightarrow> Inr s)"

section \<open>The trace\<close>

text \<open>Key schedule: one round key from the previous one.\<close>

definition chain_word :: "int list \<Rightarrow> int list \<Rightarrow> int list \<times> int list \<Rightarrow> nat \<Rightarrow> int list \<times> int list" where
  "chain_word prev temp acc w =
     (let (cur, ks) = acc; src = (if w = 0 then temp else take 4 (drop (4 * (w - 1)) cur))
      in (cur @ map (\<lambda>r. prev ! (4 * w + r) XOR src ! r) [0..<4], ks @ map (\<lambda>r. 256 * prev ! (4 * w + r) + src ! r) [0..<4]))"

definition word_chain :: "int list \<Rightarrow> int list \<Rightarrow> int list \<times> int list" where
  "word_chain prev temp = foldl (chain_word prev temp) ([], []) [0..<4]"

definition rot_sub :: "int list \<Rightarrow> int list" where
  "rot_sub prev = map (\<lambda>j. sub_byte (prev ! (12 + (j + 1) mod 4))) [0..<4]"

definition rcon_temp :: "int list \<Rightarrow> nat \<Rightarrow> int list" where
  "rcon_temp prev i = (let sub = rot_sub prev in [sub ! 0 XOR RCON ! (i - 1), sub ! 1, sub ! 2, sub ! 3])"

definition round_keys :: "int list \<Rightarrow> int list list" where
  "round_keys key = foldl (\<lambda>rk i. rk @ [fst (word_chain (rk ! (i - 1)) (rcon_temp (rk ! (i - 1)) i))]) [key] [1..<11]"

text \<open>One block.\<close>

definition mc_terms :: "int list \<Rightarrow> int list \<Rightarrow> nat \<Rightarrow> nat \<Rightarrow> int list" where
  "mc_terms xt shifted c row =
     [xt ! (4 * c + row), xt ! (4 * c + (row + 1) mod 4), shifted ! (4 * c + (row + 1) mod 4), shifted ! (4 * c + (row + 2) mod 4),
      shifted ! (4 * c + (row + 3) mod 4)]"

definition xor_chain :: "int list \<Rightarrow> int list \<times> int list" where
  "xor_chain terms =
     (let (acc, ks, zs) = foldl (\<lambda>(acc, ks, zs) tm. (acc XOR tm, ks @ [256 * acc + tm], zs @ [acc XOR tm])) (hd terms, [], []) (tl terms)
      in (ks, zs))"

definition shifted_of :: "int list \<Rightarrow> int list" where
  "shifted_of sub = map (\<lambda>i. sub ! (SHIFT_SRC ! i)) [0..<16]"

record block_trace =
  b_ark :: "int list list"
  b_ark_k :: "int list list"
  b_sub :: "int list list"
  b_xt :: "int list list"
  b_mk :: "int list list list"
  b_mid :: "int list list list"
  b_out :: "int list list"

definition ark_step :: "int list list \<Rightarrow> int list \<Rightarrow> nat \<Rightarrow> block_trace \<Rightarrow> block_trace" where
  "ark_step rks inp rnd bt =
     bt\<lparr>b_ark_k := b_ark_k bt @ [map (\<lambda>i. 256 * inp ! i + rks ! rnd ! i) [0..<16]],
        b_ark := b_ark bt @ [map (\<lambda>i. inp ! i XOR rks ! rnd ! i) [0..<16]]\<rparr>"

definition block_round :: "int list list \<Rightarrow> block_trace \<Rightarrow> nat \<Rightarrow> block_trace" where
  "block_round rks bt rnd =
     (let sub = map sub_byte (b_ark bt ! (rnd - 1));
          shifted = shifted_of sub;
          bt1 = bt\<lparr>b_sub := b_sub bt @ [sub]\<rparr>
      in if rnd < 10 then
           let xt = map (\<lambda>x. XTIME ! nat x) shifted;
               chains = concat (map (\<lambda>c. map (\<lambda>row. xor_chain (mc_terms xt shifted c row)) [0..<4]) [0..<4]);
               out_r = map (\<lambda>(ks, zs). zs ! 3) chains
           in ark_step rks out_r rnd
                (bt1\<lparr>b_xt := b_xt bt @ [xt], b_mk := b_mk bt @ [map fst chains], b_mid := b_mid bt @ [map (\<lambda>(ks, zs). take 3 zs) chains],
                     b_out := b_out bt @ [out_r]\<rparr>)
         else ark_step rks shifted rnd bt1)"

definition block_of :: "int list list \<Rightarrow> int list \<Rightarrow> block_trace" where
  "block_of rks inp = foldl (block_round rks) (ark_step rks inp 0 \<lparr>b_ark = [], b_ark_k = [], b_sub = [], b_xt = [], b_mk = [], b_mid = [], b_out = []\<rparr>) [1..<11]"

definition aes_trace_of :: "bytes \<Rightarrow> bytes \<Rightarrow> bytes \<Rightarrow> aes_trace result" where
  "aes_trace_of key iv plaintext =
     (if length key \<noteq> KEY_BYTES \<or> length iv \<noteq> IV_BYTES \<or> plaintext = [] then Inl AssertionError
      else let n = n_blocks (length plaintext);
               rks = round_keys (map uint key);
               ivb = map uint iv
           in rbind (rmap (\<lambda>j. to_be 4 (int (CTR_START + j))) [0..<n]) (\<lambda>ctrs.
              let ctr = map (map uint) ctrs;
                  bt = (\<lambda>j. block_of rks (ivb @ ctr ! j));
                  chunk = (\<lambda>j. map uint (take AES_BLOCK (drop (AES_BLOCK * j) plaintext)));
                  ct = (\<lambda>j. map (\<lambda>i. b_ark (bt j) ! 10 ! i XOR chunk j ! i) [0..<length (chunk j)])
              in Inr \<lparr>nblocks = n, iv_bytes = ivb,
                   ks_sub = map (\<lambda>i. rot_sub (rks ! (i - 1))) [1..<11],
                   ks_rcon_b = map (\<lambda>i. RCON ! (i - 1)) [1..<11],
                   ks_rcon_k = map (\<lambda>i. 256 * rot_sub (rks ! (i - 1)) ! 0 + RCON ! (i - 1)) [1..<11],
                   ks_rcon_z = map (\<lambda>i. rcon_temp (rks ! (i - 1)) i ! 0) [1..<11],
                   ks_xor_k = map (\<lambda>i. snd (word_chain (rks ! (i - 1)) (rcon_temp (rks ! (i - 1)) i))) [1..<11],
                   rk = rks, ctr_bytes = ctr, pt_bytes = map chunk [0..<n],
                   s_ark = map (\<lambda>j. b_ark (bt j)) [0..<n], s_sub = map (\<lambda>j. b_sub (bt j)) [0..<n], ark_k = map (\<lambda>j. b_ark_k (bt j)) [0..<n],
                   mc_xt = map (\<lambda>j. b_xt (bt j)) [0..<n], mc_k = map (\<lambda>j. b_mk (bt j)) [0..<n], mc_mid = map (\<lambda>j. b_mid (bt j)) [0..<n],
                   mc_out = map (\<lambda>j. b_out (bt j)) [0..<n],
                   ct_k = map (\<lambda>j. map (\<lambda>i. 256 * b_ark (bt j) ! 10 ! i + chunk j ! i) [0..<length (chunk j)]) [0..<n],
                   ct_bytes = map ct [0..<n], ciphertext = map word_of_int (concat (map ct [0..<n]))\<rparr>))"

section \<open>The checker\<close>

type_synonym aes_residuals = "(string \<times> nat list \<times> int) list"

definition aes_req :: "string \<Rightarrow> nat list \<Rightarrow> int \<Rightarrow> int \<Rightarrow> aes_residuals" where
  "aes_req name idx lhs rhs = (if lhs \<noteq> rhs then [(name, idx, lhs - rhs)] else [])"

definition look :: "string \<Rightarrow> nat list \<Rightarrow> int list \<Rightarrow> int \<Rightarrow> int \<Rightarrow> aes_residuals" where
  "look name idx table x y =
     (if 0 \<le> x \<and> x < 256 then aes_req name idx y (table ! nat x) else [(name @ ''_in_range'', idx, x)])"

definition xor8 :: "string \<Rightarrow> nat list \<Rightarrow> int \<Rightarrow> int \<Rightarrow> int \<Rightarrow> int \<Rightarrow> aes_residuals" where
  "xor8 name idx a b k z =
     aes_req (name @ ''_key'') idx k (256 * a + b) @
     (if 0 \<le> k \<and> k < 65536 then aes_req name idx z (drop_bit 8 k XOR (k AND 0xFF)) else [(name @ ''_key_range'', idx, k)])"

definition bad_ranges :: "aes_trace \<Rightarrow> aes_residuals" where
  "bad_ranges t =
     concat (map (\<lambda>cls. case class_of t cls of Inl e \<Rightarrow> []
        | Inr s \<Rightarrow> concat (map (\<lambda>(path, v). aes_req (cls @ ''_byte_range'') path (of_bool (\<not> (0 \<le> v \<and> v < 256))) 0) (slots s)))
       BYTE_CLASSES)"

definition bad_key_round :: "aes_trace \<Rightarrow> nat \<Rightarrow> aes_residuals" where
  "bad_key_round t i =
     (let prev = rk t ! (i - 1); cur = rk t ! i; sub = ks_sub t ! (i - 1); z = ks_rcon_z t ! (i - 1);
          temp = [z, sub ! 1, sub ! 2, sub ! 3]
      in concat (map (\<lambda>j. look ''ks_sbox'' [i, j] SBOX (prev ! (12 + (j + 1) mod 4)) (sub ! j)) [0..<4]) @
         aes_req ''ks_rcon_const'' [i] (ks_rcon_b t ! (i - 1)) (RCON ! (i - 1)) @
         xor8 ''ks_rcon_xor'' [i] (sub ! 0) (ks_rcon_b t ! (i - 1)) (ks_rcon_k t ! (i - 1)) z @
         concat (map (\<lambda>w. let src = (if w = 0 then temp else take 4 (drop (4 * (w - 1)) cur))
            in concat (map (\<lambda>r. xor8 ''ks_word_xor'' [i, w, r] (prev ! (4 * w + r)) (src ! r) (ks_xor_k t ! (i - 1) ! (4 * w + r)) (cur ! (4 * w + r))) [0..<4]))
           [0..<4]))"

definition bad_mc :: "aes_trace \<Rightarrow> nat \<Rightarrow> nat \<Rightarrow> nat \<Rightarrow> nat \<Rightarrow> aes_residuals" where
  "bad_mc t b rnd c row =
     (let i = 4 * c + row;
          shifted = shifted_of (s_sub t ! b ! (rnd - 1));
          terms = mc_terms (mc_xt t ! b ! (rnd - 1)) shifted c row;
          chain = mc_mid t ! b ! (rnd - 1) ! i @ [mc_out t ! b ! (rnd - 1) ! i]
      in concat (map (\<lambda>step. xor8 ''mc_xor'' [b, rnd, i, step] (if step = 0 then terms ! 0 else chain ! (step - 1)) (terms ! (step + 1))
           (mc_k t ! b ! (rnd - 1) ! i ! step) (chain ! step)) [0..<4]))"

text \<open>The input of a round's key addition: counter block, MixColumns output or shifted state.\<close>

definition ark_input :: "aes_trace \<Rightarrow> nat \<Rightarrow> nat \<Rightarrow> int list" where
  "ark_input t b rnd =
     (if rnd = 0 then iv_bytes t @ ctr_bytes t ! b
      else if rnd < 10 then mc_out t ! b ! (rnd - 1)
      else shifted_of (s_sub t ! b ! (rnd - 1)))"

definition bad_aes_round :: "aes_trace \<Rightarrow> nat \<Rightarrow> nat \<Rightarrow> aes_residuals" where
  "bad_aes_round t b rnd =
     (if rnd > 0 then
        concat (map (\<lambda>i. look ''sbox'' [b, rnd, i] SBOX (s_ark t ! b ! (rnd - 1) ! i) (s_sub t ! b ! (rnd - 1) ! i)) [0..<16]) @
        (if rnd < 10 then
           concat (map (\<lambda>i. look ''xtime'' [b, rnd, i] XTIME (shifted_of (s_sub t ! b ! (rnd - 1)) ! i) (mc_xt t ! b ! (rnd - 1) ! i)) [0..<16]) @
           concat (map (\<lambda>c. concat (map (bad_mc t b rnd c) [0..<4])) [0..<4])
         else [])
      else []) @
     concat (map (\<lambda>i. xor8 ''ark_xor'' [b, rnd, i] (ark_input t b rnd ! i) (rk t ! rnd ! i) (ark_k t ! b ! rnd ! i) (s_ark t ! b ! rnd ! i)) [0..<16])"

definition bad_block :: "aes_trace \<Rightarrow> nat \<Rightarrow> aes_residuals result" where
  "bad_block t b =
     rbind (to_be 4 (int (CTR_START + b))) (\<lambda>ctr4.
       Inr (concat (map (\<lambda>i. aes_req ''ctr_public'' [b, i] (ctr_bytes t ! b ! i) (uint (ctr4 ! i))) [0..<4]) @
         concat (map (bad_aes_round t b) [0..<11]) @
         concat (map (\<lambda>i. xor8 ''ct_xor'' [b, i] (s_ark t ! b ! 10 ! i) (pt_bytes t ! b ! i) (ct_k t ! b ! i) (ct_bytes t ! b ! i))
           [0..<length (pt_bytes t ! b)])))"

text \<open>Reading past the end of a committed list raises \<open>IndexError\<close>: every list must be at least as
  long as the indices the checker reads.\<close>

definition grid2 :: "nat \<Rightarrow> nat \<Rightarrow> 'a list list \<Rightarrow> bool" where
  "grid2 m n xs \<longleftrightarrow> m \<le> length xs \<and> list_all (\<lambda>row. n \<le> length row) (take m xs)"

definition block_readable :: "aes_trace \<Rightarrow> nat \<Rightarrow> bool" where
  "block_readable t b \<longleftrightarrow> b < length (ctr_bytes t) \<and> b < length (s_ark t) \<and> b < length (s_sub t) \<and> b < length (ark_k t) \<and> b < length (mc_xt t) \<and>
     b < length (mc_k t) \<and> b < length (mc_mid t) \<and> b < length (mc_out t) \<and> b < length (pt_bytes t) \<and> b < length (ct_k t) \<and> b < length (ct_bytes t) \<and>
     4 \<le> length (ctr_bytes t ! b) \<and> 16 \<le> length (iv_bytes t @ ctr_bytes t ! b) \<and>
     grid2 11 16 (s_ark t ! b) \<and> grid2 11 16 (ark_k t ! b) \<and> grid2 10 16 (s_sub t ! b) \<and> grid2 9 16 (mc_xt t ! b) \<and> grid2 9 16 (mc_out t ! b) \<and>
     grid2 9 16 (mc_mid t ! b) \<and> grid2 9 16 (mc_k t ! b) \<and>
     list_all (\<lambda>rows. list_all (\<lambda>ms. 3 \<le> length ms) (take 16 rows)) (take 9 (mc_mid t ! b)) \<and>
     list_all (\<lambda>rows. list_all (\<lambda>ks. 4 \<le> length ks) (take 16 rows)) (take 9 (mc_k t ! b)) \<and>
     length (pt_bytes t ! b) \<le> length (s_ark t ! b ! 10) \<and> length (pt_bytes t ! b) \<le> length (ct_k t ! b) \<and>
     length (pt_bytes t ! b) \<le> length (ct_bytes t ! b)"

definition aes_readable :: "aes_trace \<Rightarrow> bool" where
  "aes_readable t \<longleftrightarrow> grid2 11 16 (rk t) \<and> grid2 10 4 (ks_sub t) \<and> grid2 10 16 (ks_xor_k t) \<and>
     10 \<le> length (ks_rcon_b t) \<and> 10 \<le> length (ks_rcon_k t) \<and> 10 \<le> length (ks_rcon_z t) \<and> list_all (block_readable t) [0..<nblocks t]"

definition aes_check :: "aes_trace \<Rightarrow> aes_residuals result" where
  "aes_check t =
     (if \<not> aes_readable t then Inl IndexError
      else rbind (rmap (bad_block t) [0..<nblocks t]) (\<lambda>blocks.
        Inr (bad_ranges t @ concat (map (bad_key_round t) [1..<11]) @ concat blocks)))"

definition aes_ctr :: "bytes \<Rightarrow> bytes \<Rightarrow> bytes \<Rightarrow> aes_trace result" where
  "aes_ctr key iv plaintext =
     rbind (aes_trace_of key iv plaintext) (\<lambda>t. rbind (aes_check t) (\<lambda>bad.
       if bad \<noteq> [] then Inl AssertionError
       else rbind (aes128_ctr_gcm key iv plaintext) (\<lambda>ct. if ciphertext t \<noteq> ct then Inl AssertionError else Inr t)))"

section \<open>The circuit's enumeration of sites\<close>

type_synonym ref = "string \<times> nat list"

record xor_site =
  xs_a :: ref
  xs_b :: ref
  xs_k :: ref
  xs_z :: ref

record aes_sites =
  st_sbox :: "(ref \<times> ref) list"
  st_xtime :: "(ref \<times> ref) list"
  st_xor :: "xor_site list"
  st_public :: "(ref \<times> int) list"

definition deref :: "aes_trace \<Rightarrow> ref \<Rightarrow> slot result" where
  "deref t r = rbind (class_of t (fst r)) (\<lambda>s. slot_at s (snd r))"

definition pool_refs :: "aes_trace \<Rightarrow> (ref \<times> int) list" where
  "pool_refs t =
     concat (map (\<lambda>cls. case class_of t cls of Inl e \<Rightarrow> [] | Inr s \<Rightarrow> map (\<lambda>(path, v). ((cls, path), v)) (slots s)) BYTE_CLASSES)"

definition pool_layout :: "aes_trace \<Rightarrow> (ref \<Rightarrow> nat option) \<times> int list" where
  "pool_layout t = foldl (\<lambda>(index_of, vs) (r, v). (index_of(r \<mapsto> length vs), vs @ [v])) (\<lambda>r. None, []) (pool_refs t)"

definition key_values :: "aes_trace \<Rightarrow> xor_site list \<Rightarrow> slot list result" where
  "key_values t xs = rmap (\<lambda>s. deref t (xs_k s)) xs"

definition key_sbox_sites :: "(ref \<times> ref) list" where
  "key_sbox_sites = concat (map (\<lambda>i. map (\<lambda>j. ((''rk'', [i - 1, 12 + (j + 1) mod 4]), (''ks_sub'', [i - 1, j]))) [0..<4]) [1..<11])"

definition key_xor_sites :: "xor_site list" where
  "key_xor_sites =
     concat (map (\<lambda>i.
       \<lparr>xs_a = (''ks_sub'', [i - 1, 0]), xs_b = (''ks_rcon_b'', [i - 1]), xs_k = (''ks_rcon_k'', [i - 1]), xs_z = (''ks_rcon_z'', [i - 1])\<rparr> #
       concat (map (\<lambda>w. map (\<lambda>r.
         \<lparr>xs_a = (''rk'', [i - 1, 4 * w + r]),
          xs_b = (if w = 0 then (if r = 0 then (''ks_rcon_z'', [i - 1]) else (''ks_sub'', [i - 1, r])) else (''rk'', [i, 4 * (w - 1) + r])),
          xs_k = (''ks_xor_k'', [i - 1, 4 * w + r]), xs_z = (''rk'', [i, 4 * w + r])\<rparr>) [0..<4]) [0..<4])) [1..<11])"

definition mc_site :: "nat \<Rightarrow> nat \<Rightarrow> nat \<Rightarrow> nat \<Rightarrow> nat \<Rightarrow> xor_site" where
  "mc_site b rnd c row step =
     (let i = 4 * c + row;
          term_refs = [(''mc_xt'', [b, rnd - 1, 4 * c + (row + 1) mod 4]), (''s_sub'', [b, rnd - 1, SHIFT_SRC ! (4 * c + (row + 1) mod 4)]),
             (''s_sub'', [b, rnd - 1, SHIFT_SRC ! (4 * c + (row + 2) mod 4)]), (''s_sub'', [b, rnd - 1, SHIFT_SRC ! (4 * c + (row + 3) mod 4)])];
          z_ref = (\<lambda>step. if step < 3 then (''mc_mid'', [b, rnd - 1, i, step]) else (''mc_out'', [b, rnd - 1, i]))
      in \<lparr>xs_a = (if step = 0 then (''mc_xt'', [b, rnd - 1, i]) else z_ref (step - 1)), xs_b = term_refs ! step,
          xs_k = (''mc_k'', [b, rnd - 1, i, step]), xs_z = z_ref step\<rparr>)"

definition ark_site :: "nat \<Rightarrow> nat \<Rightarrow> nat \<Rightarrow> xor_site" where
  "ark_site b rnd i =
     \<lparr>xs_a = (if rnd = 0 then (if i < 12 then (''iv_bytes'', [i]) else (''ctr_bytes'', [b, i - 12]))
              else if rnd < 10 then (''mc_out'', [b, rnd - 1, i]) else (''s_sub'', [b, 9, SHIFT_SRC ! i])),
      xs_b = (''rk'', [rnd, i]), xs_k = (''ark_k'', [b, rnd, i]), xs_z = (''s_ark'', [b, rnd, i])\<rparr>"

definition block_xor_sites :: "aes_trace \<Rightarrow> nat \<Rightarrow> xor_site list" where
  "block_xor_sites t b =
     concat (map (\<lambda>rnd. map (ark_site b rnd) [0..<16] @
       (if 0 < rnd \<and> rnd < 10 then concat (map (\<lambda>c. concat (map (\<lambda>row. map (mc_site b rnd c row) [0..<4]) [0..<4])) [0..<4]) else [])) [0..<11]) @
     map (\<lambda>i. \<lparr>xs_a = (''s_ark'', [b, 10, i]), xs_b = (''pt_bytes'', [b, i]), xs_k = (''ct_k'', [b, i]), xs_z = (''ct_bytes'', [b, i])\<rparr>)
       [0..<length (pt_bytes t ! b)]"

definition public_sites :: "nat \<Rightarrow> (ref \<times> int) list result" where
  "public_sites n =
     rbind (rmap (\<lambda>b. rbind (to_be 4 (int (CTR_START + b))) (\<lambda>ctr4. Inr (map (\<lambda>i. ((''ctr_bytes'', [b, i]), uint (ctr4 ! i))) [0..<4]))) [0..<n]) (\<lambda>cs.
       Inr (concat cs @ map (\<lambda>i. ((''ks_rcon_b'', [i]), RCON ! i)) [0..<10]))"

definition sites :: "aes_trace \<Rightarrow> aes_sites result" where
  "sites t =
     (if length (pt_bytes t) < nblocks t then Inl IndexError
      else rbind (public_sites (nblocks t)) (\<lambda>publics. Inr
        \<lparr>st_sbox = key_sbox_sites @ concat (map (\<lambda>b. concat (map (\<lambda>rnd. map (\<lambda>i. ((''s_ark'', [b, rnd - 1, i]), (''s_sub'', [b, rnd - 1, i]))) [0..<16])
            [1..<11])) [0..<nblocks t]),
         st_xtime = concat (map (\<lambda>b. concat (map (\<lambda>rnd. map (\<lambda>i. ((''s_sub'', [b, rnd - 1, SHIFT_SRC ! i]), (''mc_xt'', [b, rnd - 1, i]))) [0..<16])
            [1..<10])) [0..<nblocks t]),
         st_xor = key_xor_sites @ concat (map (block_xor_sites t) [0..<nblocks t]),
         st_public = publics\<rparr>))"

end
