(* ===== verification/Aes_Sound.thy ===== *)
theory Aes_Sound
  imports Aes
begin

text \<open>
  What the AES constraint layout guarantees: a trace of the committed shape with no residual
  holds the AES-128-CTR encryption of its plaintext under its key, and the honest trace has no
  residual.
\<close>

unbundle bit_operations_syntax

section \<open>Slots of the committed classes\<close>

lemma slots_from_mem:
  "(q, v) \<in> set (slots_from xs path i) \<longleftrightarrow> (\<exists>j ps. q = path @ (i + j) # ps \<and> j < length xs \<and> slot_at (xs ! j) ps = Inr (Leaf v))"
proof (induction xs path i arbitrary: q v rule: slots_from.induct)
  case (1 path i)
  then show ?case by simp
next
  case (2 w xs path i)
  have "(\<exists>j ps. q = path @ (i + j) # ps \<and> j < length (Leaf w # xs) \<and> slot_at ((Leaf w # xs) ! j) ps = Inr (Leaf v)) \<longleftrightarrow>
      (\<exists>ps. q = path @ i # ps \<and> slot_at (Leaf w) ps = Inr (Leaf v)) \<or>
      (\<exists>j ps. q = path @ (Suc i + j) # ps \<and> j < length xs \<and> slot_at (xs ! j) ps = Inr (Leaf v))"
    by (auto simp: less_Suc_eq_0_disj)
  moreover have "slot_at (Leaf w) ps = Inr (Leaf v) \<longleftrightarrow> ps = [] \<and> w = v" for ps by (cases ps) auto
  ultimately show ?case using 2 by auto
next
  case (3 ys xs path i)
  have "(\<exists>j ps. q = path @ (i + j) # ps \<and> j < length (Node ys # xs) \<and> slot_at ((Node ys # xs) ! j) ps = Inr (Leaf v)) \<longleftrightarrow>
      (\<exists>ps. q = path @ i # ps \<and> slot_at (Node ys) ps = Inr (Leaf v)) \<or>
      (\<exists>j ps. q = path @ (Suc i + j) # ps \<and> j < length xs \<and> slot_at (xs ! j) ps = Inr (Leaf v))"
    by (auto simp: less_Suc_eq_0_disj)
  moreover have "(\<exists>ps. q = path @ i # ps \<and> slot_at (Node ys) ps = Inr (Leaf v)) \<longleftrightarrow>
      (\<exists>j ps. q = (path @ [i]) @ (0 + j) # ps \<and> j < length ys \<and> slot_at (ys ! j) ps = Inr (Leaf v))"
  proof
    assume "\<exists>ps. q = path @ i # ps \<and> slot_at (Node ys) ps = Inr (Leaf v)"
    then obtain ps where ps: "q = path @ i # ps" "slot_at (Node ys) ps = Inr (Leaf v)" by blast
    then show "\<exists>j ps. q = (path @ [i]) @ (0 + j) # ps \<and> j < length ys \<and> slot_at (ys ! j) ps = Inr (Leaf v)"
      by (cases ps) (auto split: if_splits)
  next
    assume "\<exists>j ps. q = (path @ [i]) @ (0 + j) # ps \<and> j < length ys \<and> slot_at (ys ! j) ps = Inr (Leaf v)"
    then obtain j ps where "q = (path @ [i]) @ (0 + j) # ps" "j < length ys" "slot_at (ys ! j) ps = Inr (Leaf v)" by blast
    then show "\<exists>ps. q = path @ i # ps \<and> slot_at (Node ys) ps = Inr (Leaf v)" by (intro exI [of _ "j # ps"]) simp
  qed
  ultimately show ?case using 3 by (simp only: slots_from.simps set_append Un_iff)
qed

lemma slots_mem: "(q, v) \<in> set (slots (Node xs)) \<longleftrightarrow> q \<noteq> [] \<and> slot_at (Node xs) q = Inr (Leaf v)"
  by (cases q) (auto simp: slots_from_mem split: if_splits)

lemma slot_at_nest [simp]:
  "slot_at (nest1 xs) (i # ps) = (if i < length xs then slot_at (Leaf (xs ! i)) ps else Inl IndexError)"
  "slot_at (nest2 xs2) (i # ps) = (if i < length xs2 then slot_at (nest1 (xs2 ! i)) ps else Inl IndexError)"
  "slot_at (nest3 xs3) (i # ps) = (if i < length xs3 then slot_at (nest2 (xs3 ! i)) ps else Inl IndexError)"
  "slot_at (nest4 xs4) (i # ps) = (if i < length xs4 then slot_at (nest3 (xs4 ! i)) ps else Inl IndexError)"
  by (simp_all add: nest1_def nest2_def nest3_def nest4_def)

lemma class_of_simps [simp]:
  "class_of t ''rk'' = Inr (nest2 (rk t))" "class_of t ''ks_sub'' = Inr (nest2 (ks_sub t))" "class_of t ''ks_rcon_b'' = Inr (nest1 (ks_rcon_b t))"
  "class_of t ''ks_rcon_z'' = Inr (nest1 (ks_rcon_z t))" "class_of t ''iv_bytes'' = Inr (nest1 (iv_bytes t))" "class_of t ''ctr_bytes'' = Inr (nest2 (ctr_bytes t))"
  "class_of t ''pt_bytes'' = Inr (nest2 (pt_bytes t))" "class_of t ''s_ark'' = Inr (nest3 (s_ark t))" "class_of t ''s_sub'' = Inr (nest3 (s_sub t))"
  "class_of t ''mc_xt'' = Inr (nest3 (mc_xt t))" "class_of t ''mc_mid'' = Inr (nest4 (mc_mid t))" "class_of t ''mc_out'' = Inr (nest3 (mc_out t))"
  "class_of t ''ct_bytes'' = Inr (nest2 (ct_bytes t))" "class_of t ''ks_rcon_k'' = Inr (nest1 (ks_rcon_k t))" "class_of t ''ks_xor_k'' = Inr (nest2 (ks_xor_k t))"
  "class_of t ''ark_k'' = Inr (nest3 (ark_k t))" "class_of t ''mc_k'' = Inr (nest4 (mc_k t))" "class_of t ''ct_k'' = Inr (nest2 (ct_k t))"
  by (simp_all add: class_of_def class_table_def)

lemma byte_class_node: "cls \<in> set BYTE_CLASSES \<Longrightarrow> \<exists>xs. class_of t cls = Inr (Node xs)"
  by (auto simp: BYTE_CLASSES_def nest1_def nest2_def nest3_def nest4_def)

text \<open>The byte ranges hold exactly when every leaf of every byte class is a byte.\<close>

lemma aes_req_Nil [simp]: "aes_req n i a b = [] \<longleftrightarrow> a = b"
  by (simp add: aes_req_def)

lemma concat_map_Nil: "concat (map f xs) = [] \<longleftrightarrow> (\<forall>x \<in> set xs. f x = [])"
  by (induction xs) simp_all

lemma bad_ranges_Nil:
  "bad_ranges t = [] \<longleftrightarrow> (\<forall>cls \<in> set BYTE_CLASSES. \<forall>p v. p \<noteq> [] \<longrightarrow> deref t (cls, p) = Inr (Leaf v) \<longrightarrow> 0 \<le> v \<and> v < 256)"
proof -
  have "bad_ranges t = [] \<longleftrightarrow> (\<forall>cls \<in> set BYTE_CLASSES. \<forall>s. class_of t cls = Inr s \<longrightarrow> (\<forall>(p, v) \<in> set (slots s). 0 \<le> v \<and> v < 256))"
    unfolding bad_ranges_def concat_map_Nil
  proof (rule ball_cong [OF refl])
    fix cls
    show "(case class_of t cls of Inl e \<Rightarrow> [] | Inr s \<Rightarrow> concat (map (\<lambda>(path, v). aes_req (cls @ ''_byte_range'') path (of_bool (\<not> (0 \<le> v \<and> v < 256))) 0) (slots s))) = [] \<longleftrightarrow>
        (\<forall>s. class_of t cls = Inr s \<longrightarrow> (\<forall>(p, v) \<in> set (slots s). 0 \<le> v \<and> v < 256))"
      by (cases "class_of t cls") (simp_all add: concat_map_Nil case_prod_beta del: slots.simps)
  qed
  also have "\<dots> \<longleftrightarrow> (\<forall>cls \<in> set BYTE_CLASSES. \<forall>p v. p \<noteq> [] \<longrightarrow> deref t (cls, p) = Inr (Leaf v) \<longrightarrow> 0 \<le> v \<and> v < 256)"
  proof (rule ball_cong [OF refl])
    fix cls assume "cls \<in> set BYTE_CLASSES"
    then obtain xs where xs: "class_of t cls = Inr (Node xs)" using byte_class_node by blast
    then show "(\<forall>s. class_of t cls = Inr s \<longrightarrow> (\<forall>(p, v) \<in> set (slots s). 0 \<le> v \<and> v < 256)) \<longleftrightarrow>
        (\<forall>p v. p \<noteq> [] \<longrightarrow> deref t (cls, p) = Inr (Leaf v) \<longrightarrow> 0 \<le> v \<and> v < 256)"
      by (simp add: deref_def Ball_def slots_mem del: slots.simps) blast
  qed
  finally show ?thesis .
qed

section \<open>Single constraints\<close>

lemma look_Nil: "look n i tab x y = [] \<longleftrightarrow> 0 \<le> x \<and> x < 256 \<and> y = tab ! nat x"
  by (auto simp: look_def)

lemma byte_key:
  assumes "0 \<le> a" "a < 256" "0 \<le> b" "b < (256 :: int)"
  shows "0 \<le> 256 * a + b \<and> 256 * a + b < 65536 \<and> drop_bit 8 (256 * a + b) XOR ((256 * a + b) AND 0xFF) = a XOR b"
proof -
  have "drop_bit 8 (256 * a + b) = a" using assms by (simp add: drop_bit_eq_div)
  moreover have "(256 * a + b) AND 0xFF = b"
  proof -
    have m: "(0xFF :: int) = mask 8" by (simp add: mask_eq_exp_minus_1)
    show ?thesis unfolding m take_bit_eq_mask [symmetric] using assms by (simp add: take_bit_eq_mod)
  qed
  ultimately show ?thesis using assms by simp
qed

lemma xor8_Nil:
  assumes "0 \<le> a \<and> a < 256" "0 \<le> b \<and> b < 256"
  shows "xor8 n i a b k z = [] \<longleftrightarrow> k = 256 * a + b \<and> z = a XOR b"
  using byte_key [of a b] assms by (auto simp: xor8_def)

lemma upt4: "[0..<4] = [0, 1, 2, 3 :: nat]" "[0..<16] = [0, 1, 2, 3, 4, 5, 6, 7, 8, 9, 10, 11, 12, 13, 14, 15 :: nat]"
  by (simp_all add: upt_rec)

lemma less_4: "(\<forall>i < 4. P i) \<longleftrightarrow> P 0 \<and> P 1 \<and> P 2 \<and> P (3 :: nat)"
  by (auto simp: less_Suc_eq numeral_eq_Suc)

section \<open>The doubling table\<close>

lemma gf_mul_2: "gf_mul a 2 = gf_double a"
  by (simp add: gf_mul_def eval_nat_numeral drop_bit_Suc)

lemma gf_mul_3: "gf_mul a 3 = a XOR gf_double a"
  by (simp add: gf_mul_def eval_nat_numeral drop_bit_Suc)

lemma gf_double_range: "0 \<le> a \<Longrightarrow> 0 \<le> gf_double a \<and> gf_double a < 256"
proof -
  assume "0 \<le> a"
  have m: "(0xFF :: int) = mask 8" by (simp add: mask_eq_exp_minus_1)
  let ?x = "push_bit 1 a AND 0xFF :: int"
  have x: "take_bit 8 ?x = ?x" unfolding m take_bit_eq_mask [symmetric] by simp
  then have "take_bit 8 (?x XOR 0x1B) = ?x XOR 0x1B" by (simp add: take_bit_xor)
  then have e: "take_bit 8 (gf_double a) = gf_double a" using x by (simp add: gf_double_def Let_def)
  have "0 \<le> take_bit 8 (gf_double a) \<and> take_bit 8 (gf_double a) < 2 ^ 8" by (simp only: take_bit_nonnegative take_bit_int_less_exp simp_thms)
  then show "0 \<le> gf_double a \<and> gf_double a < 256" unfolding e by simp
qed

lemma XTIME_nth: "0 \<le> x \<Longrightarrow> x < 256 \<Longrightarrow> XTIME ! nat x = gf_double x"
  by (simp add: XTIME_def gf_mul_2 nat_less_iff del: upt_rec_numeral)
section \<open>The key schedule\<close>

definition rcon_val :: "nat \<Rightarrow> int" where
  "rcon_val n = ((\<lambda>x. gf_mul x 2) ^^ n) 1"

lemma RCON_nth: "i < 10 \<Longrightarrow> RCON ! i = rcon_val i"
proof (induction i)
  have le: "1 \<le> (10 :: nat)" and l1: "length [1 :: int] = 1" by simp_all
  have b: "length RCON = 10" "take 1 RCON = [1]" "\<And>r. 1 \<le> r \<Longrightarrow> r < 10 \<Longrightarrow> RCON ! r = gf_mul (take r RCON ! (length (take r RCON) - 1)) 2"
    using foldl_append_build [where f = "\<lambda>rc k. gf_mul (rc ! (length rc - 1)) 2", OF l1 le, unfolded Let_def, folded RCON_def] by blast+
  {
    case 0
    have "RCON ! 0 = take 1 RCON ! 0" by simp
    then show ?case unfolding b(2) by (simp add: rcon_val_def)
  next
    case (Suc i)
    then show ?case using b(1) b(3) [of "Suc i"] by (simp add: rcon_val_def)
  }
qed

text \<open>Round key \<open>i\<close> follows from round key \<open>i - 1\<close>, byte \<open>r\<close> of word \<open>w\<close> at \<open>4 w + r\<close>.\<close>

definition key_rel :: "int list \<Rightarrow> int list \<Rightarrow> nat \<Rightarrow> bool" where
  "key_rel prev cur i \<longleftrightarrow>
     (\<forall>r < 4. cur ! r = prev ! r XOR (if r = 0 then sub_byte (prev ! 13) XOR RCON ! (i - 1) else sub_byte (prev ! (12 + (r + 1) mod 4)))) \<and>
     (\<forall>w r. 1 \<le> w \<longrightarrow> w < 4 \<longrightarrow> r < 4 \<longrightarrow> cur ! (4 * w + r) = prev ! (4 * w + r) XOR cur ! (4 * (w - 1) + r))"

lemma key_words_props:
  assumes "length key = 16" "key_words key = (w, rcon)"
  shows "length w = 44 \<and> (\<forall>i < 4. w ! i = take 4 (drop (4 * i) key)) \<and> (\<forall>i. 4 \<le> i \<longrightarrow> i < 44 \<longrightarrow> w ! i = key_word w (rcon_val ((i - 1) div 4)) i)"
proof -
  let ?f = "\<lambda>(w, rcon) i. (w @ [key_word w rcon i], if i mod 4 = 0 then gf_mul rcon 2 else rcon)"
  let ?w0 = "map (\<lambda>i. take 4 (drop (4 * i) key)) [0..<4]"
  have loc: "key_word (w @ us) c i = key_word w c i" if "4 \<le> i" "i \<le> length w" for w us c i
  proof -
    have "i - 1 < length w" "i - 4 < length w" using that by linarith+
    then show ?thesis by (simp add: key_word_def nth_append)
  qed
  have gen: "\<exists>w. foldl ?f (?w0, 1) [4..<n] = (w, rcon_val ((n - 1) div 4)) \<and> length w = n \<and> take 4 w = ?w0 \<and>
      (\<forall>i. 4 \<le> i \<longrightarrow> i < n \<longrightarrow> w ! i = key_word w (rcon_val ((i - 1) div 4)) i)" if "4 \<le> n" for n
    using that
  proof (induction n rule: dec_induct)
    case base
    show ?case by (intro exI [of _ ?w0]) (simp add: rcon_val_def)
  next
    case (step n)
    then obtain w where ih: "foldl ?f (?w0, 1) [4..<n] = (w, rcon_val ((n - 1) div 4))" "length w = n" "take 4 w = ?w0"
      "\<forall>i. 4 \<le> i \<longrightarrow> i < n \<longrightarrow> w ! i = key_word w (rcon_val ((i - 1) div 4)) i" by blast
    have rc: "(if n mod 4 = 0 then gf_mul (rcon_val ((n - 1) div 4)) 2 else rcon_val ((n - 1) div 4)) = rcon_val ((Suc n - 1) div 4)"
    proof (cases "n mod 4 = 0")
      case True
      then obtain k where "n = 4 * k" by auto
      then obtain k' where "n = 4 * Suc k'" using step(1) by (cases k) auto
      then have "(n - 1) div 4 = k'" "n div 4 = Suc k'" by auto
      then show ?thesis using True by (simp add: rcon_val_def)
    next
      case False
      then have "(n - 1) div 4 = n div 4" by (metis One_nat_def Suc_pred div_Suc mod_0 neq0_conv)
      then show ?thesis using False by simp
    qed
    have "foldl ?f (?w0, 1) [4..<Suc n] = ?f (foldl ?f (?w0, 1) [4..<n]) n" using step(1) by (simp add: upt_Suc_append del: upt_rec_numeral)
    then have "foldl ?f (?w0, 1) [4..<Suc n] = (w @ [key_word w (rcon_val ((n - 1) div 4)) n], rcon_val ((Suc n - 1) div 4))"
      unfolding ih(1) prod.case rc .
    moreover have "\<forall>i. 4 \<le> i \<longrightarrow> i < Suc n \<longrightarrow>
        (w @ [key_word w (rcon_val ((n - 1) div 4)) n]) ! i = key_word (w @ [key_word w (rcon_val ((n - 1) div 4)) n]) (rcon_val ((i - 1) div 4)) i"
      using ih step(1) by (auto simp: loc nth_append less_Suc_eq)
    ultimately show ?case using ih step(1) by (intro exI conjI) (assumption | simp)+
  qed
  have all: "length w = 44" "take 4 w = ?w0" "\<forall>i. 4 \<le> i \<longrightarrow> i < 44 \<longrightarrow> w ! i = key_word w (rcon_val ((i - 1) div 4)) i"
    using gen [of 44] assms(2) by (simp_all add: key_words_def del: upt_rec_numeral)
  have "w ! i = take 4 (drop (4 * i) key)" if "i < 4" for i
  proof -
    have "w ! i = take 4 w ! i" using that by simp
    then show ?thesis unfolding all(2) using that by (simp del: upt_rec_numeral)
  qed
  then show ?thesis using all by blast
qed

lemma four_bytes: "length xs = 4 \<Longrightarrow> xs = [xs ! 0, xs ! 1, xs ! 2, xs ! 3]"
  by (auto simp: length_Suc_conv numeral_eq_Suc)

lemma schedule_words_match:
  assumes key: "length key = 16" "rks ! 0 = key" and rel: "\<And>i. 1 \<le> i \<Longrightarrow> i < 11 \<Longrightarrow> key_rel (rks ! (i - 1)) (rks ! i) i"
    and w: "key_words key = (w, rcon)"
  shows "r < 11 \<Longrightarrow> c < 4 \<Longrightarrow> w ! (4 * r + c) = map (\<lambda>b. rks ! r ! (4 * c + b)) [0..<4]"
proof (induction "4 * r + c" arbitrary: r c rule: less_induct)
  case less
  note props = key_words_props [OF key(1) w]
  show ?case
  proof (cases r)
    case 0
    have "take 4 (drop (4 * c) key) = map (\<lambda>b. key ! (4 * c + b)) [0..<4]"
      using key(1) less.prems by (intro nth_equalityI) (simp_all del: upt_rec_numeral)
    then show ?thesis using 0 props less.prems key(2) by (simp del: upt_rec_numeral)
  next
    case (Suc r')
    let ?i = "4 * r + c"
    have i: "4 \<le> ?i" "?i < 44" using less.prems Suc by simp_all
    have W: "w ! ?i = key_word w (rcon_val ((?i - 1) div 4)) ?i" using props i by blast
    have p4: "w ! (?i - 4) = map (\<lambda>b. rks ! r' ! (4 * c + b)) [0..<4]"
      using less.hyps [of r' c] less.prems Suc by simp
    have rel': "key_rel (rks ! r') (rks ! r) r" using rel [of r] Suc less.prems by simp
    show ?thesis
    proof (cases "c = 0")
      case True
      have m: "?i mod 4 = 0" "(?i - 1) div 4 = r'" using True Suc by auto
      have p1: "w ! (?i - 1) = map (\<lambda>b. rks ! r' ! (12 + b)) [0..<4]"
        using less.hyps [of r' 3] less.prems Suc True by (simp add: add.commute)
      have rc: "rcon_val r' = RCON ! (r - 1)" using RCON_nth [of r'] Suc less.prems by simp
      show ?thesis unfolding W key_word_def Let_def p4 p1 m rc using rel' True Suc
        by (simp add: upt4 key_rel_def less_4 add.commute xor.commute)
    next
      case False
      have m: "?i mod 4 \<noteq> 0" using False less.prems by auto
      have p1: "w ! (?i - 1) = map (\<lambda>b. rks ! r ! (4 * (c - 1) + b)) [0..<4]"
        using less.hyps [of r "c - 1"] less.prems Suc False by (simp add: algebra_simps)
      have k: "rks ! r ! (4 * c + b) = rks ! r' ! (4 * c + b) XOR rks ! r ! (4 * (c - 1) + b)" if "b < 4" for b
        using rel' that False less.prems by (simp add: key_rel_def)
      show ?thesis unfolding W key_word_def Let_def p4 p1 using m k [of 0] k [of 1] k [of 2] k [of 3] by (simp add: upt4)
    qed
  qed
qed

lemma concat_words: "concat (map (\<lambda>c. map (\<lambda>b. f (4 * c + b)) [0..<4]) [0..<4]) = map f [0..<16]"
  by (simp add: upt4 numeral_2_eq_2)

lemma key_schedule_sound:
  assumes "length key = 16" "rks ! 0 = map uint key" "length rks = 11" "\<And>i. i < 11 \<Longrightarrow> length (rks ! i) = 16"
    and rel: "\<And>i. 1 \<le> i \<Longrightarrow> i < 11 \<Longrightarrow> key_rel (rks ! (i - 1)) (rks ! i) i"
  shows "key_expand key = Inr rks"
proof -
  obtain w rcon where w: "key_words (map uint key) = (w, rcon)" by (cases "key_words (map uint key)")
  have l: "length (map uint key) = 16" using assms(1) by simp
  have match: "w ! (4 * r + c) = map (\<lambda>b. rks ! r ! (4 * c + b)) [0..<4]" if "r < 11" "c < 4" for r c
    by (rule schedule_words_match [OF l assms(2) _ w that]) (rule rel)
  have lw: "length w = 44" using key_words_props [OF l w] by blast
  have "concat (take 4 (drop (4 * r) w)) = rks ! r" if r: "r < 11" for r
  proof -
    have "take 4 (drop (4 * r) w) = map (\<lambda>c. w ! (4 * r + c)) [0..<4]" using lw r by (intro nth_equalityI) (simp_all del: upt_rec_numeral)
    also have "\<dots> = map (\<lambda>c. map (\<lambda>b. rks ! r ! (4 * c + b)) [0..<4]) [0..<4]" using match [OF r] by (intro map_cong refl) simp
    finally have "concat (take 4 (drop (4 * r) w)) = map (\<lambda>i. rks ! r ! i) [0..<16]" using concat_words by metis
    then show ?thesis using assms(4) [OF r] map_nth [of "rks ! r"] by simp
  qed
  then have "map (\<lambda>r. concat (take 4 (drop (4 * r) w))) [0..<11] = rks" using assms(3) by (intro nth_equalityI) (simp_all del: upt_rec_numeral)
  then show ?thesis using assms(1) w by (simp add: key_expand_def KEY_BYTES_def del: upt_rec_numeral)
qed
section \<open>One block on the flat state\<close>

abbreviation of_flat :: "int list \<Rightarrow> aes_state" where
  "of_flat s \<equiv> state4 (\<lambda>r c. s ! (r + 4 * c))"

lemma state4_nth: "r < 4 \<Longrightarrow> c < 4 \<Longrightarrow> state4 f ! r ! c = f r c"
  by (simp add: state4_def del: upt_rec_numeral)

lemma state4_cong: "(\<And>r c. r < 4 \<Longrightarrow> c < 4 \<Longrightarrow> f r c = g r c) \<Longrightarrow> state4 f = state4 g"
  unfolding state4_def by (intro map_cong refl) auto

lemma SHIFT_SRC_nth: "r < 4 \<Longrightarrow> c < 4 \<Longrightarrow> SHIFT_SRC ! (r + 4 * c) = r + 4 * ((c + r) mod 4)"
  by (simp add: SHIFT_SRC_def del: upt_rec_numeral)

lemma length_shifted_of [simp]: "length (shifted_of s) = 16"
  by (simp add: shifted_of_def)

lemma shifted_of_nth: "r < 4 \<Longrightarrow> c < 4 \<Longrightarrow> shifted_of s ! (r + 4 * c) = s ! (r + 4 * ((c + r) mod 4))"
  by (simp add: shifted_of_def SHIFT_SRC_nth del: upt_rec_numeral)

lemma shift_rows_state4: "shift_rows (state4 f) = state4 (\<lambda>r c. f r ((c + r) mod 4))"
proof -
  have "drop r (state4 f ! r) @ take r (state4 f ! r) = map (\<lambda>c. f r ((c + r) mod 4)) [0..<4]" if r: "r < 4" for r
  proof (rule nth_equalityI)
    have row: "state4 f ! r = map (f r) [0..<4]" using r by (simp add: state4_def del: upt_rec_numeral)
    have rot: "drop r (state4 f ! r) @ take r (state4 f ! r) = rotate r (map (f r) [0..<4])" unfolding row using r by (simp add: rotate_drop_take del: upt_rec_numeral)
    show "length (drop r (state4 f ! r) @ take r (state4 f ! r)) = length (map (\<lambda>c. f r ((c + r) mod 4)) [0..<4])" unfolding rot by simp
    fix c assume "c < length (drop r (state4 f ! r) @ take r (state4 f ! r))"
    then have "c < 4" unfolding rot by simp
    then show "(drop r (state4 f ! r) @ take r (state4 f ! r)) ! c = map (\<lambda>c. f r ((c + r) mod 4)) [0..<4] ! c"
      unfolding rot by (simp add: nth_rotate add.commute del: upt_rec_numeral)
  qed
  then show ?thesis unfolding shift_rows_def state4_def [of "\<lambda>r c. f r ((c + r) mod 4)"] by (intro map_cong refl) simp
qed

lemma sub_bytes_state4: "sub_bytes (state4 f) = state4 (\<lambda>r c. sub_byte (f r c))"
  by (simp add: sub_bytes_def state4_def)

definition mc_val :: "int list \<Rightarrow> nat \<Rightarrow> nat \<Rightarrow> int" where
  "mc_val a c row =
     gf_double (a ! (4 * c + row)) XOR gf_double (a ! (4 * c + (row + 1) mod 4)) XOR a ! (4 * c + (row + 1) mod 4) XOR
     a ! (4 * c + (row + 2) mod 4) XOR a ! (4 * c + (row + 3) mod 4)"

lemma mix_columns_state4: "mix_columns (of_flat a) = state4 (\<lambda>r c. mc_val a c r)"
  unfolding mix_columns_def
proof (rule state4_cong)
  fix r c :: nat assume "r < 4" "c < 4"
  have col: "map (\<lambda>r. of_flat a ! r ! c) [0..<4] = [a ! (4 * c), a ! (4 * c + 1), a ! (4 * c + 2), a ! (4 * c + 3)]"
    using \<open>c < 4\<close> by (simp add: upt4 state4_nth add.commute)
  have "r = 0 \<or> r = 1 \<or> r = 2 \<or> r = 3" using \<open>r < 4\<close> by auto
  then show "mix_col (map (\<lambda>r. of_flat a ! r ! c) [0..<4]) ! r = mc_val a c r"
    unfolding col by (elim disjE) (simp_all add: mix_col_def mc_val_def gf_mul_2 gf_mul_3 xor.assoc xor.commute xor.left_commute)
qed

definition round_rel :: "int list list \<Rightarrow> int list \<Rightarrow> int list \<Rightarrow> nat \<Rightarrow> bool" where
  "round_rel rks s s' rnd \<longleftrightarrow>
     (let a = shifted_of (map sub_byte s)
      in \<forall>c < 4. \<forall>r < 4. s' ! (4 * c + r) = (if rnd < 10 then mc_val a c r else a ! (4 * c + r)) XOR rks ! rnd ! (4 * c + r))"

lemma aes_round_flat:
  assumes "round_rel rks s s' rnd" "length s = 16"
  shows "aes_round rks (of_flat s) rnd = of_flat s'"
proof -
  let ?a = "shifted_of (map sub_byte s)"
  have sh: "shift_rows (sub_bytes (of_flat s)) = of_flat ?a"
    unfolding sub_bytes_state4 shift_rows_state4
  proof (rule state4_cong)
    fix r c :: nat assume rc: "r < 4" "c < 4"
    have "r + 4 * ((c + r) mod 4) < 16" using rc mod_less_divisor [of 4 "c + r"] by linarith
    then show "sub_byte (s ! (r + 4 * ((c + r) mod 4))) = ?a ! (r + 4 * c)" using rc assms(2) by (simp add: shifted_of_nth)
  qed
  show ?thesis unfolding aes_round_def Let_def sh add_rk_def mix_columns_state4
  proof (rule state4_cong)
    fix r c :: nat assume rc: "r < 4" "c < 4"
    show "(if rnd < 10 then state4 (\<lambda>r c. mc_val ?a c r) else of_flat ?a) ! r ! c XOR rks ! rnd ! (r + 4 * c) = s' ! (r + 4 * c)"
      using assms(1) rc by (simp add: round_rel_def Let_def state4_nth add.commute)
  qed
qed

lemma encrypt_flat:
  assumes l: "\<And>n. n < 11 \<Longrightarrow> length (S n) = 16"
    and s0: "\<And>i. i < 16 \<Longrightarrow> S 0 ! i = inp ! i XOR rks ! 0 ! i"
    and step: "\<And>n. 1 \<le> n \<Longrightarrow> n < 11 \<Longrightarrow> round_rel rks (S (n - 1)) (S n) n"
  shows "encrypt_block rks inp = S 10"
proof -
  have "add_rk (of_flat inp) (rks ! 0) = of_flat (S 0)" unfolding add_rk_def
    by (rule state4_cong) (simp add: state4_nth s0)
  moreover have "foldl (aes_round rks) (of_flat (S 0)) [1..<n] = of_flat (S (n - 1))" if "1 \<le> n" "n < 12" for n
    using that
  proof (induction n rule: dec_induct)
    case (step n)
    then show ?case using aes_round_flat [OF assms(3) [of n]] l [of "n - 1"] by (simp add: upt_Suc_append del: upt_rec_numeral)
  qed (simp del: upt_rec_numeral)
  ultimately have "encrypt_block rks inp = map (\<lambda>r. of_flat (S 10) ! (r mod 4) ! (r div 4)) [0..<16]"
    by (simp add: encrypt_block_def Let_def del: upt_rec_numeral)
  also have "\<dots> = map (\<lambda>r. S 10 ! r) [0..<16]"
  proof (intro map_cong refl)
    fix r assume "r \<in> set [0..<16 :: nat]"
    then have "r div 4 < 4" by auto
    then show "of_flat (S 10) ! (r mod 4) ! (r div 4) = S 10 ! r" by (simp add: state4_nth)
  qed
  also have "\<dots> = S 10" using l [of 10] map_nth [of "S 10"] by simp
  finally show ?thesis .
qed
section \<open>Traces of the committed shape\<close>

definition exact2 :: "nat \<Rightarrow> nat \<Rightarrow> 'a list list \<Rightarrow> bool" where
  "exact2 m n xs \<longleftrightarrow> length xs = m \<and> list_all (\<lambda>row. length row = n) xs"

definition chunks_ok :: "nat \<Rightarrow> 'a list list \<Rightarrow> bool" where
  "chunks_ok n xs \<longleftrightarrow> length xs = n \<and> list_all (\<lambda>b. length (xs ! b) \<le> 16 \<and> (Suc b < n \<longrightarrow> length (xs ! b) = 16)) [0..<n]"

definition aes_shape :: "aes_trace \<Rightarrow> bool" where
  "aes_shape t \<longleftrightarrow> (let n = nblocks t in
     exact2 11 16 (rk t) \<and> exact2 10 4 (ks_sub t) \<and> exact2 10 16 (ks_xor_k t) \<and>
     length (ks_rcon_b t) = 10 \<and> length (ks_rcon_k t) = 10 \<and> length (ks_rcon_z t) = 10 \<and> length (iv_bytes t) = 12 \<and>
     exact2 n 4 (ctr_bytes t) \<and> exact2 n 11 (s_ark t) \<and> exact2 n 11 (ark_k t) \<and> exact2 n 10 (s_sub t) \<and> exact2 n 9 (mc_xt t) \<and> exact2 n 9 (mc_out t) \<and>
     exact2 n 9 (mc_mid t) \<and> exact2 n 9 (mc_k t) \<and>
     list_all (list_all (\<lambda>row. length row = 16)) (s_ark t) \<and> list_all (list_all (\<lambda>row. length row = 16)) (ark_k t) \<and>
     list_all (list_all (\<lambda>row. length row = 16)) (s_sub t) \<and> list_all (list_all (\<lambda>row. length row = 16)) (mc_xt t) \<and>
     list_all (list_all (\<lambda>row. length row = 16)) (mc_out t) \<and>
     list_all (list_all (\<lambda>row. length row = 16 \<and> list_all (\<lambda>ms. length ms = 3) row)) (mc_mid t) \<and>
     list_all (list_all (\<lambda>row. length row = 16 \<and> list_all (\<lambda>ks. length ks = 4) row)) (mc_k t) \<and>
     chunks_ok n (pt_bytes t) \<and> map length (ct_bytes t) = map length (pt_bytes t) \<and> map length (ct_k t) = map length (pt_bytes t))"

lemma shape_key:
  assumes "aes_shape t"
  shows "length (rk t) = 11 \<and> (\<forall>i < 11. length (rk t ! i) = 16) \<and> length (ks_sub t) = 10 \<and> (\<forall>i < 10. length (ks_sub t ! i) = 4) \<and>
    length (ks_xor_k t) = 10 \<and> (\<forall>i < 10. length (ks_xor_k t ! i) = 16) \<and> length (ks_rcon_b t) = 10 \<and> length (ks_rcon_k t) = 10 \<and>
    length (ks_rcon_z t) = 10 \<and> length (iv_bytes t) = 12"
  using assms by (simp add: aes_shape_def Let_def exact2_def list_all_length)

lemma shape_block:
  assumes "aes_shape t" "b < nblocks t"
  shows "b < length (ctr_bytes t) \<and> b < length (s_ark t) \<and> b < length (s_sub t) \<and> b < length (ark_k t) \<and> b < length (mc_xt t) \<and>
     b < length (mc_k t) \<and> b < length (mc_mid t) \<and> b < length (mc_out t) \<and> b < length (pt_bytes t) \<and> b < length (ct_k t) \<and> b < length (ct_bytes t) \<and>
     length (ctr_bytes t ! b) = 4 \<and> length (s_ark t ! b) = 11 \<and> length (ark_k t ! b) = 11 \<and> length (s_sub t ! b) = 10 \<and> length (mc_xt t ! b) = 9 \<and>
     length (mc_out t ! b) = 9 \<and> length (mc_mid t ! b) = 9 \<and> length (mc_k t ! b) = 9 \<and>
     (\<forall>i < 11. length (s_ark t ! b ! i) = 16 \<and> length (ark_k t ! b ! i) = 16) \<and> (\<forall>i < 10. length (s_sub t ! b ! i) = 16) \<and>
     (\<forall>i < 9. length (mc_xt t ! b ! i) = 16 \<and> length (mc_out t ! b ! i) = 16 \<and> length (mc_mid t ! b ! i) = 16 \<and> length (mc_k t ! b ! i) = 16 \<and>
        (\<forall>j < 16. length (mc_mid t ! b ! i ! j) = 3 \<and> length (mc_k t ! b ! i ! j) = 4))"
proof -
  have "length (ct_k t) = length (pt_bytes t)" "length (ct_bytes t) = length (pt_bytes t)" using assms(1) unfolding aes_shape_def Let_def by (metis length_map)+
  then show ?thesis using assms by (simp add: aes_shape_def Let_def exact2_def list_all_length chunks_ok_def)
qed

lemma shape_chunks:
  assumes "aes_shape t" "b < nblocks t"
  shows "length (pt_bytes t ! b) \<le> 16 \<and> length (ct_bytes t ! b) = length (pt_bytes t ! b) \<and> length (ct_k t ! b) = length (pt_bytes t ! b) \<and>
    (Suc b < nblocks t \<longrightarrow> length (pt_bytes t ! b) = 16)"
proof -
  have b: "b < length (ct_bytes t)" "b < length (ct_k t)" "b < length (pt_bytes t)" using shape_block [OF assms] by simp_all
  have "map length (ct_bytes t) ! b = map length (pt_bytes t) ! b" "map length (ct_k t) ! b = map length (pt_bytes t) ! b"
    using assms(1) by (simp_all add: aes_shape_def Let_def)
  moreover have "b \<in> set [0..<nblocks t]" using assms(2) by simp
  ultimately show ?thesis using assms b by (simp add: aes_shape_def Let_def chunks_ok_def list_all_iff)
qed

lemma grid2I: "length xs = m \<Longrightarrow> (\<And>i. i < m \<Longrightarrow> n \<le> length (xs ! i)) \<Longrightarrow> grid2 m n xs"
  by (auto simp: grid2_def list_all_length)

lemma shape_readable: "aes_shape t \<Longrightarrow> aes_readable t"
proof -
  assume s: "aes_shape t"
  note k = shape_key [OF s]
  have "block_readable t b" if "b < nblocks t" for b
    using shape_block [OF s that] shape_chunks [OF s that] k unfolding block_readable_def
    by (intro conjI grid2I) (simp_all add: list_all_length)
  then have "list_all (block_readable t) [0..<nblocks t]" by (simp add: list_all_iff)
  then show ?thesis using k unfolding aes_readable_def by (intro conjI grid2I) simp_all
qed

abbreviation is_byte :: "int \<Rightarrow> bool" where
  "is_byte v \<equiv> 0 \<le> v \<and> v < 256"

lemma class_byte: "bad_ranges t = [] \<Longrightarrow> cls \<in> set BYTE_CLASSES \<Longrightarrow> deref t (cls, p) = Inr (Leaf v) \<Longrightarrow> p \<noteq> [] \<Longrightarrow> is_byte v"
  unfolding bad_ranges_Nil by blast

lemma sat_bytes_key:
  assumes s: "aes_shape t" and r: "bad_ranges t = []"
  shows "(\<forall>i < 11. \<forall>j < 16. is_byte (rk t ! i ! j)) \<and> (\<forall>i < 10. \<forall>j < 4. is_byte (ks_sub t ! i ! j)) \<and>
    (\<forall>i < 10. is_byte (ks_rcon_b t ! i) \<and> is_byte (ks_rcon_z t ! i)) \<and> (\<forall>i < 12. is_byte (iv_bytes t ! i))"
proof -
  note k = shape_key [OF s]
  have "is_byte (rk t ! i ! j)" if "i < 11" "j < 16" for i j using class_byte [OF r, of "''rk''" "[i, j]"] that k by (simp add: BYTE_CLASSES_def deref_def)
  moreover have "is_byte (ks_sub t ! i ! j)" if "i < 10" "j < 4" for i j
    using class_byte [OF r, of "''ks_sub''" "[i, j]"] that k by (simp add: BYTE_CLASSES_def deref_def)
  moreover have "is_byte (ks_rcon_b t ! i)" if "i < 10" for i using class_byte [OF r, of "''ks_rcon_b''" "[i]"] that k by (simp add: BYTE_CLASSES_def deref_def)
  moreover have "is_byte (ks_rcon_z t ! i)" if "i < 10" for i using class_byte [OF r, of "''ks_rcon_z''" "[i]"] that k by (simp add: BYTE_CLASSES_def deref_def)
  moreover have "is_byte (iv_bytes t ! i)" if "i < 12" for i using class_byte [OF r, of "''iv_bytes''" "[i]"] that k by (simp add: BYTE_CLASSES_def deref_def)
  ultimately show ?thesis by blast
qed

lemma sat_bytes_block:
  assumes s: "aes_shape t" and r: "bad_ranges t = []" and b: "b < nblocks t"
  shows "(\<forall>i < 4. is_byte (ctr_bytes t ! b ! i)) \<and> (\<forall>i < 11. \<forall>j < 16. is_byte (s_ark t ! b ! i ! j)) \<and> (\<forall>i < 10. \<forall>j < 16. is_byte (s_sub t ! b ! i ! j)) \<and>
    (\<forall>i < 9. \<forall>j < 16. is_byte (mc_xt t ! b ! i ! j) \<and> is_byte (mc_out t ! b ! i ! j) \<and> (\<forall>k < 3. is_byte (mc_mid t ! b ! i ! j ! k))) \<and>
    (\<forall>i < length (pt_bytes t ! b). is_byte (pt_bytes t ! b ! i) \<and> is_byte (ct_bytes t ! b ! i))"
proof -
  note k = shape_block [OF s b]
  have "is_byte (ctr_bytes t ! b ! i)" if "i < 4" for i using class_byte [OF r, of "''ctr_bytes''" "[b, i]"] that k by (simp add: BYTE_CLASSES_def deref_def)
  moreover have "is_byte (s_ark t ! b ! i ! j)" if "i < 11" "j < 16" for i j
    using class_byte [OF r, of "''s_ark''" "[b, i, j]"] that k by (simp add: BYTE_CLASSES_def deref_def)
  moreover have "is_byte (s_sub t ! b ! i ! j)" if "i < 10" "j < 16" for i j
    using class_byte [OF r, of "''s_sub''" "[b, i, j]"] that k by (simp add: BYTE_CLASSES_def deref_def)
  moreover have "is_byte (mc_xt t ! b ! i ! j)" if "i < 9" "j < 16" for i j
    using class_byte [OF r, of "''mc_xt''" "[b, i, j]"] that k by (simp add: BYTE_CLASSES_def deref_def)
  moreover have "is_byte (mc_out t ! b ! i ! j)" if "i < 9" "j < 16" for i j
    using class_byte [OF r, of "''mc_out''" "[b, i, j]"] that k by (simp add: BYTE_CLASSES_def deref_def)
  moreover have "is_byte (mc_mid t ! b ! i ! j ! m)" if "i < 9" "j < 16" "m < 3" for i j m
    using class_byte [OF r, of "''mc_mid''" "[b, i, j, m]"] that k by (simp add: BYTE_CLASSES_def deref_def)
  moreover have "is_byte (pt_bytes t ! b ! i)" if "i < length (pt_bytes t ! b)" for i
    using class_byte [OF r, of "''pt_bytes''" "[b, i]"] that k by (simp add: BYTE_CLASSES_def deref_def)
  moreover have "is_byte (ct_bytes t ! b ! i)" if "i < length (pt_bytes t ! b)" for i
    using class_byte [OF r, of "''ct_bytes''" "[b, i]"] that k shape_chunks [OF s b] by (simp add: BYTE_CLASSES_def deref_def)
  ultimately show ?thesis by blast
qed
section \<open>The constraints as equations\<close>

definition xor_rel :: "int \<Rightarrow> int \<Rightarrow> int \<Rightarrow> int \<Rightarrow> bool" where
  "xor_rel a b k z \<longleftrightarrow> k = 256 * a + b \<and> z = a XOR b"

definition key_src :: "aes_trace \<Rightarrow> nat \<Rightarrow> nat \<Rightarrow> nat \<Rightarrow> int" where
  "key_src t i w r = (if w = 0 then (if r = 0 then ks_rcon_z t ! (i - 1) else ks_sub t ! (i - 1) ! r) else rk t ! i ! (4 * (w - 1) + r))"

definition key_eqs :: "aes_trace \<Rightarrow> nat \<Rightarrow> bool" where
  "key_eqs t i \<longleftrightarrow>
     (\<forall>j < 4. ks_sub t ! (i - 1) ! j = SBOX ! nat (rk t ! (i - 1) ! (12 + (j + 1) mod 4))) \<and>
     ks_rcon_b t ! (i - 1) = RCON ! (i - 1) \<and>
     xor_rel (ks_sub t ! (i - 1) ! 0) (ks_rcon_b t ! (i - 1)) (ks_rcon_k t ! (i - 1)) (ks_rcon_z t ! (i - 1)) \<and>
     (\<forall>w < 4. \<forall>r < 4. xor_rel (rk t ! (i - 1) ! (4 * w + r)) (key_src t i w r) (ks_xor_k t ! (i - 1) ! (4 * w + r)) (rk t ! i ! (4 * w + r)))"

definition mc_chain :: "aes_trace \<Rightarrow> nat \<Rightarrow> nat \<Rightarrow> nat \<Rightarrow> nat \<Rightarrow> int" where
  "mc_chain t b rnd i step = (if step < 3 then mc_mid t ! b ! (rnd - 1) ! i ! step else mc_out t ! b ! (rnd - 1) ! i)"

definition mc_eqs :: "aes_trace \<Rightarrow> nat \<Rightarrow> nat \<Rightarrow> nat \<Rightarrow> nat \<Rightarrow> bool" where
  "mc_eqs t b rnd c row \<longleftrightarrow>
     (let i = 4 * c + row; terms = mc_terms (mc_xt t ! b ! (rnd - 1)) (shifted_of (s_sub t ! b ! (rnd - 1))) c row
      in \<forall>step < 4. xor_rel (if step = 0 then terms ! 0 else mc_chain t b rnd i (step - 1)) (terms ! (step + 1))
           (mc_k t ! b ! (rnd - 1) ! i ! step) (mc_chain t b rnd i step))"

definition round_eqs :: "aes_trace \<Rightarrow> nat \<Rightarrow> nat \<Rightarrow> bool" where
  "round_eqs t b rnd \<longleftrightarrow>
     (0 < rnd \<longrightarrow> (\<forall>i < 16. s_sub t ! b ! (rnd - 1) ! i = SBOX ! nat (s_ark t ! b ! (rnd - 1) ! i))) \<and>
     (0 < rnd \<and> rnd < 10 \<longrightarrow> (\<forall>i < 16. mc_xt t ! b ! (rnd - 1) ! i = XTIME ! nat (shifted_of (s_sub t ! b ! (rnd - 1)) ! i)) \<and>
        (\<forall>c < 4. \<forall>row < 4. mc_eqs t b rnd c row)) \<and>
     (\<forall>i < 16. xor_rel (ark_input t b rnd ! i) (rk t ! rnd ! i) (ark_k t ! b ! rnd ! i) (s_ark t ! b ! rnd ! i))"

definition block_eqs :: "aes_trace \<Rightarrow> nat \<Rightarrow> bool" where
  "block_eqs t b \<longleftrightarrow> CTR_START + b < 2 ^ 32 \<and> (\<forall>i < 4. ctr_bytes t ! b ! i = uint (ctr_suffix b ! i)) \<and> (\<forall>rnd < 11. round_eqs t b rnd) \<and>
     (\<forall>i < length (pt_bytes t ! b). xor_rel (s_ark t ! b ! 10 ! i) (pt_bytes t ! b ! i) (ct_k t ! b ! i) (ct_bytes t ! b ! i))"

lemma xor8_rel: "is_byte a \<Longrightarrow> is_byte b \<Longrightarrow> xor8 n i a b k z = [] \<longleftrightarrow> xor_rel a b k z"
  by (simp add: xor8_Nil xor_rel_def)

lemma look_byte: "is_byte x \<Longrightarrow> look n i tab x y = [] \<longleftrightarrow> y = tab ! nat x"
  by (simp add: look_Nil)

lemma all_upt0: "(\<forall>i. m \<le> i \<longrightarrow> i < n \<longrightarrow> P i) \<Longrightarrow> m \<le> i \<Longrightarrow> i < n \<Longrightarrow> P i"
  by blast

lemma concat_upt0_Nil: "concat (map f [0..<n]) = [] \<longleftrightarrow> (\<forall>i < n. f i = [])"
  by auto

lemma bad_key_round_Nil:
  assumes s: "aes_shape t" and r: "bad_ranges t = []" and i: "1 \<le> i" "i < 11"
  shows "bad_key_round t i = [] \<longleftrightarrow> key_eqs t i"
proof -
  note byt = sat_bytes_key [OF s r]
  have i': "i - 1 < 10" "i - 1 < 11" using i by simp_all
  let ?src = "\<lambda>w. if w = 0 then [ks_rcon_z t ! (i - 1), ks_sub t ! (i - 1) ! 1, ks_sub t ! (i - 1) ! 2, ks_sub t ! (i - 1) ! 3]
      else take 4 (drop (4 * (w - 1)) (rk t ! i))"
  have src: "?src w ! q = key_src t i w q" if "w < 4" "q < 4" for w q
  proof (cases "w = 0")
    case True
    have "q = 0 \<or> q = 1 \<or> q = 2 \<or> q = 3" using that(2) by auto
    then show ?thesis using True by (auto simp: key_src_def)
  next
    case False
    then have "4 * (w - 1) + q < 16" using that by auto
    then show ?thesis using False that shape_key [OF s] i by (simp add: key_src_def)
  qed
  have srcb: "is_byte (key_src t i w q)" if "w < 4" "q < 4" for w q
  proof -
    have "4 * (w - 1) + q < 16" using that by auto
    then show ?thesis using byt i i' that by (simp add: key_src_def)
  qed
  have p: "4 * w + q < 16" if "w < 4" "q < 4" for w q :: nat using that by simp
  have sb: "look ''ks_sbox'' [i, j] SBOX (rk t ! (i - 1) ! (12 + (j + 1) mod 4)) (ks_sub t ! (i - 1) ! j) = [] \<longleftrightarrow>
      ks_sub t ! (i - 1) ! j = SBOX ! nat (rk t ! (i - 1) ! (12 + (j + 1) mod 4))" for j
    using byt i' by (intro look_byte) simp
  have rc: "xor8 ''ks_rcon_xor'' [i] (ks_sub t ! (i - 1) ! 0) (ks_rcon_b t ! (i - 1)) (ks_rcon_k t ! (i - 1)) (ks_rcon_z t ! (i - 1)) = [] \<longleftrightarrow>
      xor_rel (ks_sub t ! (i - 1) ! 0) (ks_rcon_b t ! (i - 1)) (ks_rcon_k t ! (i - 1)) (ks_rcon_z t ! (i - 1))"
    using byt i' by (intro xor8_rel) simp_all
  have wx: "xor8 ''ks_word_xor'' [i, w, q] (rk t ! (i - 1) ! (4 * w + q)) (?src w ! q) (ks_xor_k t ! (i - 1) ! (4 * w + q)) (rk t ! i ! (4 * w + q)) = [] \<longleftrightarrow>
      xor_rel (rk t ! (i - 1) ! (4 * w + q)) (key_src t i w q) (ks_xor_k t ! (i - 1) ! (4 * w + q)) (rk t ! i ! (4 * w + q))" if "w < 4" "q < 4" for w q
    unfolding src [OF that] using byt i' p [OF that] srcb [OF that] by (intro xor8_rel) simp_all
  show ?thesis unfolding bad_key_round_def key_eqs_def Let_def append_is_Nil_conv concat_upt0_Nil aes_req_Nil sb rc using wx by (simp only: cong: imp_cong)
qed
lemma shifted_byte:
  assumes "\<forall>j < 16. is_byte (s ! j)" "i < 16"
  shows "is_byte (shifted_of s ! i)"
proof -
  have "SHIFT_SRC ! i < 16" using assms(2) mod_less_divisor [of 4 "i div 4 + i mod 4"] by (simp add: SHIFT_SRC_def del: upt_rec_numeral)
  then show ?thesis using assms by (simp add: shifted_of_def del: upt_rec_numeral)
qed

lemma mc_terms_nth:
  "mc_terms xt sh c row ! 0 = xt ! (4 * c + row)" "mc_terms xt sh c row ! 1 = xt ! (4 * c + (row + 1) mod 4)"
  "mc_terms xt sh c row ! 2 = sh ! (4 * c + (row + 1) mod 4)" "mc_terms xt sh c row ! 3 = sh ! (4 * c + (row + 2) mod 4)"
  "mc_terms xt sh c row ! 4 = sh ! (4 * c + (row + 3) mod 4)"
  by (simp_all add: mc_terms_def)

lemma mc_index: "c < 4 \<Longrightarrow> row < 4 \<Longrightarrow> 4 * c + row < 16 \<and> 4 * c + (row + k) mod 4 < (16 :: nat)"
  using mod_less_divisor [of 4 "row + k"] by linarith

lemma bad_mc_Nil:
  assumes s: "aes_shape t" and r: "bad_ranges t = []" and b: "b < nblocks t" and n: "1 \<le> rnd" "rnd < 10" and c: "c < 4" "row < 4"
  shows "bad_mc t b rnd c row = [] \<longleftrightarrow> mc_eqs t b rnd c row"
proof -
  let ?i = "4 * c + row" and ?sh = "shifted_of (s_sub t ! b ! (rnd - 1))"
  let ?terms = "mc_terms (mc_xt t ! b ! (rnd - 1)) ?sh c row" and ?chain = "mc_mid t ! b ! (rnd - 1) ! (4 * c + row) @ [mc_out t ! b ! (rnd - 1) ! (4 * c + row)]"
  note byt = sat_bytes_block [OF s r b] and k = shape_block [OF s b]
  have n': "rnd - 1 < 9" "rnd - 1 < 10" using n by simp_all
  have idx: "?i < 16" "4 * c + (row + 1) mod 4 < 16" "4 * c + (row + 2) mod 4 < 16" "4 * c + (row + 3) mod 4 < 16"
    using mc_index [OF c] by blast+
  have shb: "is_byte (?sh ! j)" if "j < 16" for j using byt n' that by (intro shifted_byte) simp_all
  have "is_byte (?terms ! 0) \<and> is_byte (?terms ! 1) \<and> is_byte (?terms ! 2) \<and> is_byte (?terms ! 3) \<and> is_byte (?terms ! 4)"
    unfolding mc_terms_nth using byt n' idx shb by simp
  then have tb: "is_byte (?terms ! (step + 1))" "is_byte (?terms ! 0)" if "step < 4" for step using that by (auto simp: less_Suc_eq numeral_eq_Suc)
  have lm: "length (mc_mid t ! b ! (rnd - 1) ! ?i) = 3" using k n' idx by simp
  have ch: "?chain ! step = mc_chain t b rnd ?i step" if "step < 4" for step
    using lm that by (auto simp: mc_chain_def nth_append less_Suc_eq numeral_eq_Suc)
  have cb: "is_byte (mc_chain t b rnd ?i step)" if "step < 4" for step using byt n' idx that by (simp add: mc_chain_def)
  have "xor8 ''mc_xor'' [b, rnd, ?i, step] (if step = 0 then ?terms ! 0 else ?chain ! (step - 1)) (?terms ! (step + 1)) (mc_k t ! b ! (rnd - 1) ! ?i ! step) (?chain ! step) = [] \<longleftrightarrow>
      xor_rel (if step = 0 then ?terms ! 0 else mc_chain t b rnd ?i (step - 1)) (?terms ! (step + 1)) (mc_k t ! b ! (rnd - 1) ! ?i ! step) (mc_chain t b rnd ?i step)"
    if "step < 4" for step
  proof -
    have e: "(if step = 0 then ?terms ! 0 else ?chain ! (step - 1)) = (if step = 0 then ?terms ! 0 else mc_chain t b rnd ?i (step - 1))" using ch [of "step - 1"] that by simp
    have "is_byte (if step = 0 then ?terms ! 0 else mc_chain t b rnd ?i (step - 1))" using tb(2) [OF that] cb [of "step - 1"] that by simp
    then show ?thesis unfolding e ch [OF that] using tb(1) [OF that] by (rule xor8_rel)
  qed
  then show ?thesis unfolding bad_mc_def mc_eqs_def Let_def concat_upt0_Nil by (simp only: cong: imp_cong)
qed

lemma ark_input_byte:
  assumes s: "aes_shape t" and r: "bad_ranges t = []" and b: "b < nblocks t" and n: "rnd < 11" "i < 16"
  shows "is_byte (ark_input t b rnd ! i)"
proof -
  note byt = sat_bytes_block [OF s r b] and bk = sat_bytes_key [OF s r] and k = shape_block [OF s b] shape_key [OF s]
  consider "rnd = 0" | "0 < rnd" "rnd < 10" | "rnd = 10" using n by linarith
  then show ?thesis
  proof cases
    case 1
    then show ?thesis using byt bk k n by (auto simp: ark_input_def nth_append)
  next
    case 2
    then show ?thesis using byt n by (simp add: ark_input_def)
  next
    case 3
    then show ?thesis using byt n shifted_byte [of "s_sub t ! b ! 9" i] by (simp add: ark_input_def)
  qed
qed

lemma bad_aes_round_Nil:
  assumes s: "aes_shape t" and r: "bad_ranges t = []" and b: "b < nblocks t" and n: "rnd < 11"
  shows "bad_aes_round t b rnd = [] \<longleftrightarrow> round_eqs t b rnd"
proof -
  note byt = sat_bytes_block [OF s r b] and bk = sat_bytes_key [OF s r]
  have sb: "look ''sbox'' [b, rnd, i] SBOX (s_ark t ! b ! (rnd - 1) ! i) (s_sub t ! b ! (rnd - 1) ! i) = [] \<longleftrightarrow>
      s_sub t ! b ! (rnd - 1) ! i = SBOX ! nat (s_ark t ! b ! (rnd - 1) ! i)" if "i < 16" for i
    using byt n that by (intro look_byte) simp
  have xt: "look ''xtime'' [b, rnd, i] XTIME (shifted_of (s_sub t ! b ! (rnd - 1)) ! i) (mc_xt t ! b ! (rnd - 1) ! i) = [] \<longleftrightarrow>
      mc_xt t ! b ! (rnd - 1) ! i = XTIME ! nat (shifted_of (s_sub t ! b ! (rnd - 1)) ! i)" if "i < 16" "rnd < 10" for i
    using byt that by (intro look_byte shifted_byte) simp_all
  have ark: "xor8 ''ark_xor'' [b, rnd, i] (ark_input t b rnd ! i) (rk t ! rnd ! i) (ark_k t ! b ! rnd ! i) (s_ark t ! b ! rnd ! i) = [] \<longleftrightarrow>
      xor_rel (ark_input t b rnd ! i) (rk t ! rnd ! i) (ark_k t ! b ! rnd ! i) (s_ark t ! b ! rnd ! i)" if "i < 16" for i
    using ark_input_byte [OF s r b n that] bk n that by (intro xor8_rel) simp_all
  have mc: "bad_mc t b rnd c row = [] \<longleftrightarrow> mc_eqs t b rnd c row" if "0 < rnd" "rnd < 10" "c < 4" "row < 4" for c row
    using that by (intro bad_mc_Nil [OF s r b]) simp_all
  consider "rnd = 0" | "0 < rnd" "rnd < 10" | "rnd = 10" using n by linarith
  then show ?thesis
  proof cases
    case 1
    then show ?thesis unfolding bad_aes_round_def round_eqs_def append_is_Nil_conv concat_upt0_Nil using ark by simp
  next
    case 2
    note ifs = 2 [THEN eqTrueI]
    show ?thesis unfolding bad_aes_round_def round_eqs_def ifs if_True simp_thms append_is_Nil_conv concat_upt0_Nil
      using ark sb xt [OF _ 2(2)] mc [OF 2] by (simp only: simp_thms conj_assoc cong: imp_cong)
  next
    case 3
    have ifs: "(0 < rnd) = True" "(rnd < 10) = False" using 3 by simp_all
    show ?thesis unfolding bad_aes_round_def round_eqs_def ifs if_True if_False simp_thms append_is_Nil_conv concat_upt0_Nil
      using ark sb by (simp only: simp_thms cong: imp_cong)
  qed
qed

lemma to_be_suffix: "to_be 4 (int (CTR_START + b)) = (if CTR_START + b < 2 ^ 32 then Inr (ctr_suffix b) else Inl OverflowError)"
  by (simp add: to_be_def to_bytes_def ctr_suffix_def nat_int_add)

lemma bad_block_Nil:
  assumes s: "aes_shape t" and r: "bad_ranges t = []" and b: "b < nblocks t"
  shows "bad_block t b = Inr [] \<longleftrightarrow> block_eqs t b"
proof -
  note byt = sat_bytes_block [OF s r b] and k = shape_chunks [OF s b]
  have ct: "xor8 ''ct_xor'' [b, i] (s_ark t ! b ! 10 ! i) (pt_bytes t ! b ! i) (ct_k t ! b ! i) (ct_bytes t ! b ! i) = [] \<longleftrightarrow>
      xor_rel (s_ark t ! b ! 10 ! i) (pt_bytes t ! b ! i) (ct_k t ! b ! i) (ct_bytes t ! b ! i)" if "i < length (pt_bytes t ! b)" for i
    using byt k that by (intro xor8_rel) simp_all
  show ?thesis
  proof (cases "CTR_START + b < 2 ^ 32")
    case True
    then have tb: "to_be 4 (int (CTR_START + b)) = Inr (ctr_suffix b)" by (simp only: to_be_suffix if_True)
    show ?thesis unfolding bad_block_def tb rbind_simps sum.inject append_is_Nil_conv concat_upt0_Nil aes_req_Nil block_eqs_def
      using ct bad_aes_round_Nil [OF s r b] True by (simp only: simp_thms cong: imp_cong)
  next
    case False
    then have "to_be 4 (int (CTR_START + b)) = Inl OverflowError" by (simp only: to_be_suffix if_False)
    then show ?thesis using False by (simp only: bad_block_def block_eqs_def rbind_simps sum.distinct simp_thms)
  qed
qed

lemma rmap_all_Nil: "(\<exists>ys. rmap f xs = Inr ys \<and> concat ys = []) \<longleftrightarrow> (\<forall>x \<in> set xs. f x = Inr [])"
proof (induction xs)
  case (Cons x xs)
  show ?case
  proof (cases "f x")
    case (Inr y)
    then show ?thesis using Cons by (cases "rmap f xs") auto
  qed simp
qed simp

text \<open>On a trace of the committed shape the checker finds nothing exactly when the committed bytes
  are bytes and every equation of the layout holds.\<close>

lemma aes_check_Nil:
  assumes "aes_shape t"
  shows "aes_check t = Inr [] \<longleftrightarrow> bad_ranges t = [] \<and> (\<forall>i. 1 \<le> i \<longrightarrow> i < 11 \<longrightarrow> key_eqs t i) \<and> (\<forall>b < nblocks t. block_eqs t b)"
proof -
  have "aes_check t = Inr [] \<longleftrightarrow> bad_ranges t = [] \<and> (\<forall>i. 1 \<le> i \<longrightarrow> i < 11 \<longrightarrow> bad_key_round t i = []) \<and>
      (\<exists>bs. rmap (bad_block t) [0..<nblocks t] = Inr bs \<and> concat bs = [])"
    using shape_readable [OF assms]
    by (cases "rmap (bad_block t) [0..<nblocks t]") (simp_all add: aes_check_def concat_upt_Nil del: concat_eq_Nil_conv upt_rec_numeral)
  also have "\<dots> \<longleftrightarrow> bad_ranges t = [] \<and> (\<forall>i. 1 \<le> i \<longrightarrow> i < 11 \<longrightarrow> key_eqs t i) \<and> (\<forall>b < nblocks t. block_eqs t b)"
    unfolding rmap_all_Nil using bad_key_round_Nil [OF assms] bad_block_Nil [OF assms] by (auto simp: Ball_def)
  finally show ?thesis .
qed
section \<open>Satisfied equations compute AES\<close>

definition bytes_of :: "int list \<Rightarrow> bytes" where
  "bytes_of xs = map word_of_int xs"

lemma xor_byte_int: "(word_of_int (a XOR b) :: byte) = word_of_int a XOR word_of_int b"
  by (rule bit_word_eqI) (simp add: bit_word_of_int_iff bit_xor_iff)

lemma uint_bytes_of: "(\<And>i. i < length xs \<Longrightarrow> is_byte (xs ! i)) \<Longrightarrow> map uint (bytes_of xs) = xs"
  by (rule nth_equalityI) (simp_all add: bytes_of_def unsigned_of_int take_bit_int_eq_self)

lemma eqs_key_rel:
  assumes "key_eqs t i"
  shows "key_rel (rk t ! (i - 1)) (rk t ! i) i"
proof -
  have x: "rk t ! i ! (4 * w + r) = rk t ! (i - 1) ! (4 * w + r) XOR key_src t i w r" if "w < 4" "r < 4" for w r
    using assms that by (simp add: key_eqs_def xor_rel_def)
  have s: "ks_sub t ! (i - 1) ! j = sub_byte (rk t ! (i - 1) ! (12 + (j + 1) mod 4))" if "j < 4" for j
    using assms that by (simp add: key_eqs_def sub_byte_def)
  have z: "ks_rcon_z t ! (i - 1) = ks_sub t ! (i - 1) ! 0 XOR RCON ! (i - 1)" using assms by (simp add: key_eqs_def xor_rel_def)
  show ?thesis unfolding key_rel_def
  proof (intro conjI allI impI)
    fix r :: nat assume r: "r < 4"
    show "rk t ! i ! r = rk t ! (i - 1) ! r XOR (if r = 0 then sub_byte (rk t ! (i - 1) ! 13) XOR RCON ! (i - 1) else sub_byte (rk t ! (i - 1) ! (12 + (r + 1) mod 4)))"
      using x [of 0 r] s [of 0] s [OF r] z r by (simp add: key_src_def)
  next
    fix w r :: nat assume "1 \<le> w" "w < 4" "r < 4"
    then show "rk t ! i ! (4 * w + r) = rk t ! (i - 1) ! (4 * w + r) XOR rk t ! i ! (4 * (w - 1) + r)" using x [of w r] by (simp add: key_src_def)
  qed
qed

lemma eqs_round_rel:
  assumes s: "aes_shape t" and r: "bad_ranges t = []" and b: "b < nblocks t" and e: "round_eqs t b n" and n: "1 \<le> n" "n < 11"
  shows "round_rel (rk t) (s_ark t ! b ! (n - 1)) (s_ark t ! b ! n) n"
proof -
  note byt = sat_bytes_block [OF s r b] and k = shape_block [OF s b]
  have n': "0 < n" "n - 1 < 11" "n - 1 < 10" using n by simp_all
  have sub: "s_sub t ! b ! (n - 1) = map sub_byte (s_ark t ! b ! (n - 1))"
    using e n' k by (intro nth_equalityI) (simp_all add: round_eqs_def sub_byte_def)
  let ?a = "shifted_of (map sub_byte (s_ark t ! b ! (n - 1)))"
  have ab: "is_byte (?a ! j)" if "j < 16" for j using byt n' that unfolding sub [symmetric] by (intro shifted_byte) simp_all
  have ark: "s_ark t ! b ! n ! i = ark_input t b n ! i XOR rk t ! n ! i" if "i < 16" for i using e that by (simp add: round_eqs_def xor_rel_def)
  have inp: "ark_input t b n ! (4 * c + row) = (if n < 10 then mc_val ?a c row else ?a ! (4 * c + row))" if c: "c < 4" "row < 4" for c row
  proof (cases "n < 10")
    case True
    have xt: "mc_xt t ! b ! (n - 1) ! i = gf_double (?a ! i)" if "i < 16" for i
      using e True n' that ab [OF that] XTIME_nth [of "?a ! i"] by (simp add: round_eqs_def sub [unfolded One_nat_def])
    have idx: "4 * c + row < 16" "4 * c + (row + 1) mod 4 < 16" using mc_index [OF c] by blast+
    have "mc_eqs t b n c row" using e True n' c by (simp add: round_eqs_def)
    then have m: "\<forall>step < 4. xor_rel (if step = 0 then mc_terms (mc_xt t ! b ! (n - 1)) ?a c row ! 0 else mc_chain t b n (4 * c + row) (step - 1))
        (mc_terms (mc_xt t ! b ! (n - 1)) ?a c row ! (step + 1)) (mc_k t ! b ! (n - 1) ! (4 * c + row) ! step) (mc_chain t b n (4 * c + row) step)"
      by (simp only: mc_eqs_def Let_def sub)
    have c0: "mc_chain t b n (4 * c + row) 0 = mc_xt t ! b ! (n - 1) ! (4 * c + row) XOR mc_xt t ! b ! (n - 1) ! (4 * c + (row + 1) mod 4)"
      using m [THEN spec, of 0] mc_terms_nth(1,2) by (simp add: xor_rel_def)
    have c1: "mc_chain t b n (4 * c + row) 1 = mc_chain t b n (4 * c + row) 0 XOR ?a ! (4 * c + (row + 1) mod 4)"
      using m [THEN spec, of 1] mc_terms_nth(3) by (simp add: xor_rel_def numeral_2_eq_2)
    have c2: "mc_chain t b n (4 * c + row) 2 = mc_chain t b n (4 * c + row) 1 XOR ?a ! (4 * c + (row + 2) mod 4)"
      using m [THEN spec, of 2] mc_terms_nth(4) by (simp add: xor_rel_def)
    have c3: "mc_chain t b n (4 * c + row) 3 = mc_chain t b n (4 * c + row) 2 XOR ?a ! (4 * c + (row + 3) mod 4)"
      using m [THEN spec, of 3] mc_terms_nth(5) by (simp add: xor_rel_def)
    have "ark_input t b n ! (4 * c + row) = mc_chain t b n (4 * c + row) 3" using True n' by (simp add: ark_input_def mc_chain_def)
    also have "\<dots> = mc_val ?a c row" unfolding c3 c2 c1 c0 xt [OF idx(1)] xt [OF idx(2)] mc_val_def by (simp only: xor.assoc)
    finally show ?thesis using True by simp
  next
    case False
    then show ?thesis using n' by (simp add: ark_input_def sub [unfolded One_nat_def])
  qed
  show ?thesis unfolding round_rel_def Let_def
  proof (intro allI impI)
    fix c row :: nat assume c: "c < 4" "row < 4"
    show "s_ark t ! b ! n ! (4 * c + row) = (if n < 10 then mc_val ?a c row else ?a ! (4 * c + row)) XOR rk t ! n ! (4 * c + row)"
      using ark [of "4 * c + row"] inp [OF c] c by simp
  qed
qed

lemma eqs_stream:
  assumes s: "aes_shape t" and r: "bad_ranges t = []" and k: "\<And>i. 1 \<le> i \<Longrightarrow> i < 11 \<Longrightarrow> key_eqs t i" and b: "b < nblocks t" "block_eqs t b"
  shows "bytes_of (s_ark t ! b ! 10) = stream_block (bytes_of (rk t ! 0)) (bytes_of (iv_bytes t)) b"
proof -
  note sk = shape_key [OF s] and sb = shape_block [OF s b(1)] and bk = sat_bytes_key [OF s r] and byt = sat_bytes_block [OF s r b(1)]
  have u: "map uint (bytes_of (rk t ! 0)) = rk t ! 0" "map uint (bytes_of (iv_bytes t)) = iv_bytes t" using sk bk by (auto intro!: uint_bytes_of)
  have ke: "key_expand (bytes_of (rk t ! 0)) = Inr (rk t)"
  proof (rule key_schedule_sound)
    show "length (bytes_of (rk t ! 0)) = 16" "length (rk t) = 11" using sk by (simp_all add: bytes_of_def)
    show "rk t ! 0 = map uint (bytes_of (rk t ! 0))" using u by simp
    show "length (rk t ! i) = 16" if "i < 11" for i using sk that by simp
    show "key_rel (rk t ! (i - 1)) (rk t ! i) i" if "1 \<le> i" "i < 11" for i using eqs_key_rel [OF k [OF that]] .
  qed
  have ctr: "ctr_bytes t ! b = map uint (ctr_suffix b)"
    using b(2) sb by (intro nth_equalityI) (simp_all add: block_eqs_def ctr_suffix_def)
  have "encrypt_block (rk t) (iv_bytes t @ ctr_bytes t ! b) = s_ark t ! b ! 10"
  proof (rule encrypt_flat)
    show "length (s_ark t ! b ! n) = 16" if "n < 11" for n using sb that by simp
    show "s_ark t ! b ! 0 ! i = (iv_bytes t @ ctr_bytes t ! b) ! i XOR rk t ! 0 ! i" if "i < 16" for i
    proof -
      have "round_eqs t b 0" using b(2) by (simp add: block_eqs_def)
      then show ?thesis using that by (simp add: round_eqs_def xor_rel_def ark_input_def)
    qed
    show "round_rel (rk t) (s_ark t ! b ! (n - 1)) (s_ark t ! b ! n) n" if "1 \<le> n" "n < 11" for n
      using eqs_round_rel [OF s r b(1) _ that] b(2) that by (simp add: block_eqs_def)
  qed
  then show ?thesis by (simp only: stream_block_def ke sum.case map_append u ctr [symmetric] bytes_of_def [of "s_ark t ! b ! 10"])
qed

lemma chunk_slices:
  assumes "\<forall>b < length xs. length (xs ! b) \<le> 16 \<and> (Suc b < length xs \<longrightarrow> length (xs ! b) = 16)" "b < length xs"
  shows "take 16 (drop (16 * b) (concat xs)) = xs ! b \<and> length (concat xs) \<le> 16 * length xs"
  using assms
proof (induction xs arbitrary: b)
  case (Cons x xs)
  have IH: "take 16 (drop (16 * b) (concat xs)) = xs ! b \<and> length (concat xs) \<le> 16 * length xs" if "b < length xs" for b
    using Cons.prems(1) by (intro Cons.IH [OF _ that]) auto
  have x: "length x \<le> 16" "xs \<noteq> [] \<longrightarrow> length x = 16" using Cons.prems(1) [THEN spec, of 0] by simp_all
  have l: "length (concat xs) \<le> 16 * length xs" using IH [of 0] by (cases xs) auto
  show ?case
  proof (cases b)
    case 0
    then show ?thesis using x l by (cases xs) simp_all
  next
    case (Suc b')
    then have "xs \<noteq> []" "b' < length xs" using Cons.prems(2) by auto
    then show ?thesis using x l IH Suc by simp
  qed
qed simp

lemma zip_longer: "length xs \<le> length ys \<Longrightarrow> zip xs (ys @ zs) = zip xs ys"
  by (simp add: zip_append2)

lemma stream_prefix: "n \<le> m \<Longrightarrow> \<exists>zs. key_stream key iv m = key_stream key iv n @ zs"
proof -
  assume "n \<le> m"
  then have "[0..<m] = [0..<n] @ [n..<m]" by (metis le0 upt_add_eq_append le_add_diff_inverse add_0)
  then show ?thesis by (simp add: key_stream_def)
qed

lemma layout_ciphertext:
  assumes s: "aes_shape t" and c: "aes_check t = Inr []"
  shows "aes128_ctr_gcm (bytes_of (rk t ! 0)) (bytes_of (iv_bytes t)) (bytes_of (concat (pt_bytes t))) = Inr (bytes_of (concat (ct_bytes t)))"
proof -
  note sk = shape_key [OF s]
  have r: "bad_ranges t = []" and k: "\<And>i. 1 \<le> i \<Longrightarrow> i < 11 \<Longrightarrow> key_eqs t i" and be: "\<And>b. b < nblocks t \<Longrightarrow> block_eqs t b"
    using c unfolding aes_check_Nil [OF s] by blast+
  let ?key = "bytes_of (rk t ! 0)" and ?iv = "bytes_of (iv_bytes t)" and ?pt = "bytes_of (concat (pt_bytes t))" and ?n = "nblocks t"
  have lk: "length ?key = KEY_BYTES" "length ?iv = IV_BYTES" using sk by (simp_all add: bytes_of_def KEY_BYTES_def IV_BYTES_def)
  have lp: "length (pt_bytes t) = ?n" "length (ct_bytes t) = ?n"
  proof -
    show "length (pt_bytes t) = ?n" using s by (simp add: aes_shape_def Let_def chunks_ok_def)
    then show "length (ct_bytes t) = ?n" using s unfolding aes_shape_def Let_def by (metis length_map)
  qed
  have ch: "\<forall>b < length (pt_bytes t). length (pt_bytes t ! b) \<le> 16 \<and> (Suc b < length (pt_bytes t) \<longrightarrow> length (pt_bytes t ! b) = 16)"
    using shape_chunks [OF s] lp by simp
  have len: "length (concat (pt_bytes t)) \<le> 16 * ?n" using chunk_slices [OF ch, of 0] lp by (cases "pt_bytes t") auto
  have nb: "n_blocks (length ?pt) \<le> ?n" using len by (simp add: n_blocks_def AES_BLOCK_def bytes_of_def)
  have cnt: "CTR_START + n_blocks (length ?pt) \<le> 2 ^ 32"
  proof (cases ?n)
    case 0
    then show ?thesis using nb by (simp add: CTR_START_def)
  next
    case (Suc m)
    then have "CTR_START + m < 2 ^ 32" using be [of m] by (simp add: block_eqs_def)
    then show ?thesis using nb Suc by linarith
  qed
  obtain zs where zs: "key_stream ?key ?iv ?n = key_stream ?key ?iv (n_blocks (length ?pt)) @ zs" using stream_prefix [OF nb] by blast
  have "length ?pt \<le> length (key_stream ?key ?iv (n_blocks (length ?pt)))" using length_key_stream [OF lk(1)] n_blocks_covers(1) by simp
  then have "map2 (XOR) ?pt (key_stream ?key ?iv (n_blocks (length ?pt))) = map2 (XOR) ?pt (key_stream ?key ?iv ?n)" unfolding zs by (simp add: zip_longer)
  also have "\<dots> = map (\<lambda>(x, y). x XOR y) (concat (map (\<lambda>b. zip (take 16 (drop (16 * b) ?pt)) (stream_block ?key ?iv b)) [0..<?n]))"
    using zip_slices [of "stream_block ?key ?iv" 16 ?pt ?n] length_stream_block [OF lk(1)] len by (simp add: key_stream_def bytes_of_def)
  also have "\<dots> = concat (map (\<lambda>b. map2 (XOR) (take 16 (drop (16 * b) ?pt)) (stream_block ?key ?iv b)) [0..<?n])"
    by (simp add: map_concat comp_def)
  also have "\<dots> = concat (map (\<lambda>b. bytes_of (ct_bytes t ! b)) [0..<?n])"
  proof (intro arg_cong [of _ _ concat] map_cong refl)
    fix b assume "b \<in> set [0..<?n]"
    then have b: "b < ?n" by simp
    have sl: "take 16 (drop (16 * b) ?pt) = bytes_of (pt_bytes t ! b)" using chunk_slices [OF ch, of b] b lp by (simp add: bytes_of_def take_map drop_map)
    have st: "stream_block ?key ?iv b = bytes_of (s_ark t ! b ! 10)" using eqs_stream [OF s r k b be [OF b]] by simp
    note sc = shape_chunks [OF s b] and sb = shape_block [OF s b]
    show "map2 (XOR) (take 16 (drop (16 * b) ?pt)) (stream_block ?key ?iv b) = bytes_of (ct_bytes t ! b)"
      unfolding sl st
    proof (rule nth_equalityI)
      show l: "length (map2 (XOR) (bytes_of (pt_bytes t ! b)) (bytes_of (s_ark t ! b ! 10))) = length (bytes_of (ct_bytes t ! b))"
        using sc sb by (simp add: bytes_of_def)
      fix i assume "i < length (map2 (XOR) (bytes_of (pt_bytes t ! b)) (bytes_of (s_ark t ! b ! 10)))"
      then have i: "i < length (pt_bytes t ! b)" "i < 16" using sc by (simp_all add: bytes_of_def)
      have "ct_bytes t ! b ! i = s_ark t ! b ! 10 ! i XOR pt_bytes t ! b ! i" using be [OF b] i by (simp add: block_eqs_def xor_rel_def)
      then show "map2 (XOR) (bytes_of (pt_bytes t ! b)) (bytes_of (s_ark t ! b ! 10)) ! i = bytes_of (ct_bytes t ! b) ! i"
        using i sc sb by (simp add: bytes_of_def xor_byte_int xor.commute)
    qed
  qed
  also have "\<dots> = bytes_of (concat (ct_bytes t))" using lp(2) map_nth [of "ct_bytes t"] by (simp add: bytes_of_def map_concat flip: map_map [unfolded comp_def])
  finally show ?thesis using aes_ctr_xor [OF lk cnt] by simp
qed
end
