(* ===== verification/Aes_Honest.thy ===== *)
theory Aes_Honest
  imports Aes_Sound
begin

text \<open>
  The honest trace of an AES-128-CTR invocation satisfies every equation of the layout.
\<close>

unbundle bit_operations_syntax

section \<open>The honest trace: bytes\<close>

abbreviation byte_list :: "int list \<Rightarrow> bool" where
  "byte_list xs \<equiv> list_all is_byte xs"

lemma is_byte_take_bit: "is_byte v \<longleftrightarrow> take_bit 8 v = v"
proof
  show "is_byte v \<Longrightarrow> take_bit 8 v = v" by (intro take_bit_int_eq_self) simp_all
  have "0 \<le> take_bit 8 v \<and> take_bit 8 v < 2 ^ 8" by (simp only: take_bit_nonnegative take_bit_int_less_exp simp_thms)
  then show "take_bit 8 v = v \<Longrightarrow> is_byte v" by simp
qed

lemma is_byte_xor [intro]: "is_byte a \<Longrightarrow> is_byte b \<Longrightarrow> is_byte (a XOR b)"
  unfolding is_byte_take_bit by (simp add: take_bit_xor)

lemma is_byte_or: "is_byte a \<Longrightarrow> is_byte b \<Longrightarrow> is_byte (a OR b)"
  unfolding is_byte_take_bit by (simp add: take_bit_or)

lemma is_byte_sbox_entry: "is_byte (sbox_entry x)"
proof -
  have b: "is_byte (push_bit i (sbox_bit y i))" if "i < 8" for y i
  proof -
    have "sbox_bit y i \<in> {0, 1}" unfolding sbox_bit_def and_one_eq by auto
    moreover have "(2 :: int) ^ i < 2 ^ 8" using that by (intro power_strict_increasing) simp_all
    ultimately show ?thesis by (auto simp: push_bit_eq_mult)
  qed
  have "is_byte (foldl (\<lambda>s i. s OR push_bit i (sbox_bit y i)) 0 [0..<n])" if "n \<le> 8" for y n
    using that
  proof (induction n)
    case (Suc n)
    then show ?case unfolding upt_Suc_append [OF le0] foldl_append foldl_Cons foldl_Nil by (intro is_byte_or b) simp_all
  qed simp
  then show ?thesis unfolding sbox_entry_def by blast
qed

lemma is_byte_sub: "is_byte x \<Longrightarrow> is_byte (sub_byte x)"
  using is_byte_sbox_entry by (simp add: sub_byte_def SBOX_def nat_less_iff del: upt_rec_numeral)

lemma is_byte_RCON: "i < 10 \<Longrightarrow> is_byte (RCON ! i)"
proof -
  have "is_byte (rcon_val i)" for i
  proof (induction i)
    case (Suc i)
    then show ?case using gf_double_range [of "rcon_val i"] by (simp add: rcon_val_def gf_mul_2)
  qed (simp add: rcon_val_def)
  then show "i < 10 \<Longrightarrow> is_byte (RCON ! i)" by (simp add: RCON_nth)
qed

lemma byte_list_uint: "byte_list (map uint (bs :: bytes))"
proof -
  have "is_byte (uint b)" for b :: byte using uint_lt2p [of b] by simp
  then show ?thesis by (simp add: list_all_iff)
qed

lemma byte_list_nth: "byte_list xs \<Longrightarrow> i < length xs \<Longrightarrow> is_byte (xs ! i)"
  by (simp add: list_all_length)

section \<open>The honest trace: key schedule\<close>

lemma round_keys_props:
  "length (round_keys key) = 11 \<and> round_keys key ! 0 = key \<and>
   (\<forall>i. 1 \<le> i \<longrightarrow> i < 11 \<longrightarrow> round_keys key ! i = fst (word_chain (round_keys key ! (i - 1)) (rcon_temp (round_keys key ! (i - 1)) i)))"
proof -
  have le: "1 \<le> (11 :: nat)" and l: "length [key] = 1" by simp_all
  have b: "length (round_keys key) = 11" "take 1 (round_keys key) = [key]"
    "\<And>r. 1 \<le> r \<Longrightarrow> r < 11 \<Longrightarrow> round_keys key ! r =
      fst (word_chain (take r (round_keys key) ! (r - 1)) (rcon_temp (take r (round_keys key) ! (r - 1)) r))"
    using foldl_append_build [where f = "\<lambda>rk i. fst (word_chain (rk ! (i - 1)) (rcon_temp (rk ! (i - 1)) i))", OF l le, unfolded Let_def, folded round_keys_def]
    by blast+
  have "round_keys key ! 0 = take 1 (round_keys key) ! 0" by simp
  then have "round_keys key ! 0 = key" unfolding b(2) by simp
  moreover have "take r (round_keys key) ! (r - 1) = round_keys key ! (r - 1)" if "1 \<le> r" for r using that by simp
  ultimately show ?thesis using b(1,3) by simp
qed

lemma word_chain_explicit:
  "word_chain prev temp = (let s = \<lambda>w r. prev ! (4 * w + r);
      c0 = \<lambda>r. s 0 r XOR temp ! r; c1 = \<lambda>r. s 1 r XOR c0 r; c2 = \<lambda>r. s 2 r XOR c1 r; c3 = \<lambda>r. s 3 r XOR c2 r
    in (map c0 [0..<4] @ map c1 [0..<4] @ map c2 [0..<4] @ map c3 [0..<4],
        map (\<lambda>r. 256 * s 0 r + temp ! r) [0..<4] @ map (\<lambda>r. 256 * s 1 r + c0 r) [0..<4] @ map (\<lambda>r. 256 * s 2 r + c1 r) [0..<4] @
        map (\<lambda>r. 256 * s 3 r + c2 r) [0..<4]))"
  by (simp add: word_chain_def chain_word_def upt4 numeral_2_eq_2 numeral_3_eq_3)

lemma word_chain_props:
  fixes prev temp defines "cur \<equiv> fst (word_chain prev temp)" and "ks \<equiv> snd (word_chain prev temp)"
  shows "length cur = 16 \<and> length ks = 16 \<and> (\<forall>w < 4. \<forall>r < 4.
     xor_rel (prev ! (4 * w + r)) (if w = 0 then temp ! r else cur ! (4 * (w - 1) + r)) (ks ! (4 * w + r)) (cur ! (4 * w + r)))"
proof -
  have "\<forall>w < 4. \<forall>r < 4. xor_rel (prev ! (4 * w + r)) (if w = 0 then temp ! r else cur ! (4 * (w - 1) + r)) (ks ! (4 * w + r)) (cur ! (4 * w + r))"
    unfolding less_4 cur_def ks_def word_chain_explicit Let_def by (simp add: upt4 xor_rel_def numeral_2_eq_2)
  then show ?thesis by (simp add: cur_def ks_def word_chain_explicit Let_def)
qed

lemma byte_list_I: "length xs = n \<Longrightarrow> (\<And>i. i < n \<Longrightarrow> is_byte (xs ! i)) \<Longrightarrow> byte_list xs"
  by (simp add: list_all_length)

lemma split16: "(\<And>w r. w < 4 \<Longrightarrow> r < 4 \<Longrightarrow> P (4 * w + r)) \<Longrightarrow> i < 16 \<Longrightarrow> P (i :: nat)"
proof -
  assume a: "\<And>w r. w < 4 \<Longrightarrow> r < 4 \<Longrightarrow> P (4 * w + r)" "i < 16"
  have "i div 4 < 4" "i mod 4 < 4" using a(2) by auto
  then have "P (4 * (i div 4) + i mod 4)" by (rule a(1))
  then show ?thesis by simp
qed

lemma rcon_temp_bytes:
  assumes "length prev = 16" "byte_list prev" "1 \<le> i" "i < 11"
  shows "(\<forall>r < 4. is_byte (rcon_temp prev i ! r) \<and> is_byte (rot_sub prev ! r)) \<and> length (rot_sub prev) = 4"
proof -
  have s: "is_byte (rot_sub prev ! r)" if "r < 4" for r
    using that assms mod_less_divisor [of 4 "r + 1"] by (simp add: rot_sub_def list_all_length is_byte_sub del: upt_rec_numeral)
  have "is_byte (rcon_temp prev i ! r)" if "r < 4" for r
    using that s [of 0] s [of 1] s [of 2] s [of 3] is_byte_RCON [of "i - 1"] is_byte_xor [of "rot_sub prev ! 0" "RCON ! (i - 1)"] assms
    by (auto simp: rcon_temp_def Let_def less_Suc_eq numeral_eq_Suc)
  then show ?thesis using s by (simp add: rot_sub_def)
qed

lemma round_keys_bytes:
  assumes "length key = 16" "byte_list key"
  shows "i < 11 \<Longrightarrow> length (round_keys key ! i) = 16 \<and> byte_list (round_keys key ! i)"
proof (induction i)
  case 0
  then show ?case using assms round_keys_props by simp
next
  case (Suc i)
  let ?p = "round_keys key ! i" and ?t = "rcon_temp (round_keys key ! i) (Suc i)"
  have ih: "length ?p = 16" "byte_list ?p" using Suc by simp_all
  have e: "round_keys key ! Suc i = fst (word_chain ?p ?t)" using round_keys_props [of key] Suc.prems by simp
  note wp = word_chain_props [of ?p ?t, folded e]
  have tb: "is_byte (?t ! r)" if "r < 4" for r using rcon_temp_bytes [OF ih, of "Suc i"] Suc.prems that by simp
  have "is_byte (round_keys key ! Suc i ! (4 * w + r))" if "w < 4" "r < 4" for w r
    using that
  proof (induction w)
    case 0
    have "round_keys key ! Suc i ! r = ?p ! r XOR ?t ! r" using wp [THEN conjunct2, THEN conjunct2, rule_format, of 0 r] 0 by (simp add: xor_rel_def)
    then show ?case using byte_list_nth [OF ih(2), of r] ih(1) tb 0 by (simp add: is_byte_xor)
  next
    case (Suc w)
    have "round_keys key ! Suc i ! (4 * Suc w + r) = ?p ! (4 * Suc w + r) XOR round_keys key ! Suc i ! (4 * w + r)"
      using wp [THEN conjunct2, THEN conjunct2, rule_format, of "Suc w" r] Suc.prems by (simp add: xor_rel_def)
    then show ?case using byte_list_nth [OF ih(2), of "4 * Suc w + r"] ih(1) Suc by (simp add: is_byte_xor)
  qed
  then show ?case using wp by (intro conjI byte_list_I [of _ 16] split16 [of "\<lambda>j. is_byte (round_keys key ! Suc i ! j)"]) simp_all
qed
section \<open>The honest trace: one block\<close>

lemma xor_chain_eq:
  "xor_chain [a, b, c, d, e] =
    ([256 * a + b, 256 * (a XOR b) + c, 256 * (a XOR b XOR c) + d, 256 * (a XOR b XOR c XOR d) + e],
     [a XOR b, a XOR b XOR c, a XOR b XOR c XOR d, a XOR b XOR c XOR d XOR e])"
  by (simp add: xor_chain_def xor.assoc)

definition round_chains :: "int list \<Rightarrow> int list \<Rightarrow> (int list \<times> int list) list" where
  "round_chains xt sh = concat (map (\<lambda>c. map (\<lambda>row. xor_chain (mc_terms xt sh c row)) [0..<4]) [0..<4])"

lemma round_chains_nth:
  assumes "c < 4" "row < 4"
  shows "round_chains xt sh ! (4 * c + row) = xor_chain (mc_terms xt sh c row)"
proof -
  have "round_chains xt sh = map (\<lambda>i. xor_chain (mc_terms xt sh (i div 4) (i mod 4))) [0..<16]"
    unfolding round_chains_def concat_words [symmetric] by (intro arg_cong [of _ _ concat] map_cong refl) simp
  then show ?thesis using assms by (simp del: upt_rec_numeral)
qed

lemma length_round_chains: "length (round_chains xt sh) = 16"
  by (simp add: round_chains_def upt4)

text \<open>What a block trace satisfies after its first \<open>n\<close> key additions.\<close>

definition ark_in :: "int list \<Rightarrow> block_trace \<Rightarrow> nat \<Rightarrow> int list" where
  "ark_in inp bt k = (if k = 0 then inp else if k < 10 then b_out bt ! (k - 1) else shifted_of (b_sub bt ! (k - 1)))"

definition blk_inv :: "int list list \<Rightarrow> int list \<Rightarrow> nat \<Rightarrow> block_trace \<Rightarrow> bool" where
  "blk_inv rks inp n bt \<longleftrightarrow> length (b_ark bt) = n \<and> length (b_ark_k bt) = n \<and> length (b_sub bt) = n - 1 \<and>
     length (b_xt bt) = min (n - 1) 9 \<and> length (b_mk bt) = min (n - 1) 9 \<and> length (b_mid bt) = min (n - 1) 9 \<and> length (b_out bt) = min (n - 1) 9 \<and>
     (\<forall>k < n. b_ark bt ! k = map (\<lambda>i. ark_in inp bt k ! i XOR rks ! k ! i) [0..<16] \<and>
        b_ark_k bt ! k = map (\<lambda>i. 256 * ark_in inp bt k ! i + rks ! k ! i) [0..<16]) \<and>
     (\<forall>k < n - 1. b_sub bt ! k = map sub_byte (b_ark bt ! k)) \<and>
     (\<forall>k < min (n - 1) 9. let sh = shifted_of (b_sub bt ! k); ch = round_chains (b_xt bt ! k) sh in
        b_xt bt ! k = map (\<lambda>x. XTIME ! nat x) sh \<and> b_mk bt ! k = map fst ch \<and> b_mid bt ! k = map (\<lambda>(ks, zs). take 3 zs) ch \<and>
        b_out bt ! k = map (\<lambda>(ks, zs). zs ! 3) ch)"

lemma block_round_inv:
  assumes "blk_inv rks inp n bt" "1 \<le> n" "n < 11"
  shows "blk_inv rks inp (Suc n) (block_round rks bt n)"
proof -
  note inv = assms(1) [unfolded blk_inv_def]
  have n1: "Suc n - 1 = n" "n - 1 < n" using assms(2) by simp_all
  show ?thesis
  proof (cases "n < 10")
    case True
    then have m: "min (n - 1) 9 = n - 1" "min n 9 = n" by simp_all
    let ?sub = "map sub_byte (b_ark bt ! (n - 1))"
    let ?xt = "map (\<lambda>x. XTIME ! nat x) (shifted_of ?sub)"
    let ?ch = "round_chains ?xt (shifted_of ?sub)"
    let ?out = "map (\<lambda>(ks, zs). zs ! 3) ?ch"
    have e: "block_round rks bt n = bt\<lparr>b_sub := b_sub bt @ [?sub], b_xt := b_xt bt @ [?xt], b_mk := b_mk bt @ [map fst ?ch],
        b_mid := b_mid bt @ [map (\<lambda>(ks, zs). take 3 zs) ?ch], b_out := b_out bt @ [?out],
        b_ark_k := b_ark_k bt @ [map (\<lambda>i. 256 * ?out ! i + rks ! n ! i) [0..<16]], b_ark := b_ark bt @ [map (\<lambda>i. ?out ! i XOR rks ! n ! i) [0..<16]]\<rparr>"
      using True by (simp add: block_round_def ark_step_def Let_def round_chains_def del: upt_rec_numeral)
    have ai: "ark_in inp (block_round rks bt n) k = ark_in inp bt k" if "k < n" for k
      using inv True that by (auto simp: ark_in_def e nth_append m)
    have an: "ark_in inp (block_round rks bt n) n = ?out" using inv True assms(2) by (simp add: ark_in_def e nth_append m)
    show ?thesis unfolding blk_inv_def n1 m
    proof (intro conjI allI impI)
      fix k assume "k < Suc n"
      then show "b_ark (block_round rks bt n) ! k = map (\<lambda>i. ark_in inp (block_round rks bt n) k ! i XOR rks ! k ! i) [0..<16]"
        "b_ark_k (block_round rks bt n) ! k = map (\<lambda>i. 256 * ark_in inp (block_round rks bt n) k ! i + rks ! k ! i) [0..<16]"
        using inv ai an by (auto simp: e nth_append less_Suc_eq simp del: upt_rec_numeral)
    next
      fix k assume k: "k < n"
      show "b_sub (block_round rks bt n) ! k = map sub_byte (b_ark (block_round rks bt n) ! k)"
      proof (cases "k = n - 1")
        case True
        then show ?thesis using inv k by (simp add: e nth_append)
      next
        case False
        then have "k < n - 1" using k by simp
        then show ?thesis using inv k by (simp add: e nth_append)
      qed
      show "let sh = shifted_of (b_sub (block_round rks bt n) ! k); ch = round_chains (b_xt (block_round rks bt n) ! k) sh in
          b_xt (block_round rks bt n) ! k = map (\<lambda>x. XTIME ! nat x) sh \<and> b_mk (block_round rks bt n) ! k = map fst ch \<and>
          b_mid (block_round rks bt n) ! k = map (\<lambda>(ks, zs). take 3 zs) ch \<and> b_out (block_round rks bt n) ! k = map (\<lambda>(ks, zs). zs ! 3) ch"
      proof (cases "k = n - 1")
        case True
        then show ?thesis using inv k m by (simp add: e nth_append Let_def)
      next
        case False
        then have "k < n - 1" using k by simp
        then show ?thesis using inv k m by (simp add: e nth_append Let_def)
      qed
    qed (use inv m assms(2) in \<open>simp_all add: e\<close>)
  next
    case False
    then have n10: "n = 10" using assms(3) by simp
    let ?sub = "map sub_byte (b_ark bt ! 9)"
    have e: "block_round rks bt n = bt\<lparr>b_sub := b_sub bt @ [?sub],
        b_ark_k := b_ark_k bt @ [map (\<lambda>i. 256 * shifted_of ?sub ! i + rks ! 10 ! i) [0..<16]],
        b_ark := b_ark bt @ [map (\<lambda>i. shifted_of ?sub ! i XOR rks ! 10 ! i) [0..<16]]\<rparr>"
      using n10 by (simp add: block_round_def ark_step_def Let_def del: upt_rec_numeral)
    note e' = e [unfolded n10]
    have ai: "ark_in inp (block_round rks bt n) k = ark_in inp bt k" if "k < n" for k
      using inv that n10 by (auto simp: ark_in_def e' nth_append)
    have an: "ark_in inp (block_round rks bt n) n = shifted_of ?sub" using inv n10 by (simp add: ark_in_def e' nth_append)
    have st: "b_ark (block_round rks bt n) ! k = (if k < n then b_ark bt ! k else map (\<lambda>i. shifted_of ?sub ! i XOR rks ! 10 ! i) [0..<16])"
      "b_ark_k (block_round rks bt n) ! k = (if k < n then b_ark_k bt ! k else map (\<lambda>i. 256 * shifted_of ?sub ! i + rks ! 10 ! i) [0..<16])" if "k < Suc n" for k
      using inv n10 that by (simp_all add: e' nth_append del: upt_rec_numeral)
    show ?thesis unfolding blk_inv_def n1
    proof (intro conjI allI impI)
      fix k assume k: "k < Suc n"
      show "b_ark (block_round rks bt n) ! k = map (\<lambda>i. ark_in inp (block_round rks bt n) k ! i XOR rks ! k ! i) [0..<16]"
        "b_ark_k (block_round rks bt n) ! k = map (\<lambda>i. 256 * ark_in inp (block_round rks bt n) k ! i + rks ! k ! i) [0..<16]"
        unfolding st [OF k]
      proof -
        consider "k < n" | "k = n" using k by linarith
        then have "(if k < n then b_ark bt ! k else map (\<lambda>i. shifted_of ?sub ! i XOR rks ! 10 ! i) [0..<16]) =
            map (\<lambda>i. ark_in inp (block_round rks bt n) k ! i XOR rks ! k ! i) [0..<16] \<and>
          (if k < n then b_ark_k bt ! k else map (\<lambda>i. 256 * shifted_of ?sub ! i + rks ! 10 ! i) [0..<16]) =
            map (\<lambda>i. 256 * ark_in inp (block_round rks bt n) k ! i + rks ! k ! i) [0..<16]"
        proof cases
          case 1
          then show ?thesis unfolding ai [OF 1] using inv by (simp only: if_True)
        next
          case 2
          have "(n < n) = False" by simp
          then show ?thesis unfolding 2 an using n10 by (simp only: if_False)
        qed
        then show "(if k < n then b_ark bt ! k else map (\<lambda>i. shifted_of ?sub ! i XOR rks ! 10 ! i) [0..<16]) =
            map (\<lambda>i. ark_in inp (block_round rks bt n) k ! i XOR rks ! k ! i) [0..<16]"
          "(if k < n then b_ark_k bt ! k else map (\<lambda>i. 256 * shifted_of ?sub ! i + rks ! 10 ! i) [0..<16]) =
            map (\<lambda>i. 256 * ark_in inp (block_round rks bt n) k ! i + rks ! k ! i) [0..<16]" by blast+
      qed
    next
      fix k assume k: "k < n"
      show "b_sub (block_round rks bt n) ! k = map sub_byte (b_ark (block_round rks bt n) ! k)"
        using inv k n10 by (cases "k = 9") (simp_all add: e' nth_append)
    next
      fix k assume k: "k < min n 9"
      then show "let sh = shifted_of (b_sub (block_round rks bt n) ! k); ch = round_chains (b_xt (block_round rks bt n) ! k) sh in
          b_xt (block_round rks bt n) ! k = map (\<lambda>x. XTIME ! nat x) sh \<and> b_mk (block_round rks bt n) ! k = map fst ch \<and>
          b_mid (block_round rks bt n) ! k = map (\<lambda>(ks, zs). take 3 zs) ch \<and> b_out (block_round rks bt n) ! k = map (\<lambda>(ks, zs). zs ! 3) ch"
        using inv n10 by (simp add: e' nth_append Let_def)
    qed (use inv n10 in \<open>simp_all add: e'\<close>)
  qed
qed

lemma block_of_inv: "blk_inv rks inp 11 (block_of rks inp)"
proof -
  let ?b0 = "ark_step rks inp 0 \<lparr>b_ark = [], b_ark_k = [], b_sub = [], b_xt = [], b_mk = [], b_mid = [], b_out = []\<rparr>"
  have "blk_inv rks inp n (foldl (block_round rks) ?b0 [1..<n])" if "1 \<le> n" "n < 12" for n
    using that
  proof (induction n rule: dec_induct)
    case base
    show ?case by (simp add: blk_inv_def ark_step_def ark_in_def del: upt_rec_numeral)
  next
    case (step n)
    then show ?case using block_round_inv by (simp add: upt_Suc_append del: upt_rec_numeral)
  qed
  from this [of 11] show ?thesis by (simp add: block_of_def del: upt_rec_numeral)
qed
lemma xor_chain_bytes:
  assumes "is_byte a" "is_byte b" "is_byte c" "is_byte d" "is_byte e"
  shows "length (fst (xor_chain [a, b, c, d, e])) = 4 \<and> length (snd (xor_chain [a, b, c, d, e])) = 4 \<and> byte_list (snd (xor_chain [a, b, c, d, e]))"
proof -
  have "is_byte (a XOR b) \<and> is_byte (a XOR b XOR c) \<and> is_byte (a XOR b XOR c XOR d) \<and> is_byte (a XOR b XOR c XOR d XOR e)"
    using assms by (intro conjI is_byte_xor) (simp_all only:)
  then have "byte_list (snd (xor_chain [a, b, c, d, e]))" by (simp only: xor_chain_eq snd_conv list.pred_inject simp_thms)
  moreover have "length (fst (xor_chain [a, b, c, d, e])) = 4" "length (snd (xor_chain [a, b, c, d, e])) = 4" by (simp_all add: xor_chain_eq)
  ultimately show ?thesis by blast
qed

lemma chain_bytes:
  assumes "length xt = 16" "byte_list xt" "length sh = 16" "byte_list sh" "c < 4" "row < 4"
  shows "length (fst (xor_chain (mc_terms xt sh c row))) = 4 \<and> length (snd (xor_chain (mc_terms xt sh c row))) = 4 \<and>
    byte_list (snd (xor_chain (mc_terms xt sh c row)))"
proof -
  have i: "4 * c + row < 16" "4 * c + (row + 1) mod 4 < 16" "4 * c + (row + 2) mod 4 < 16" "4 * c + (row + 3) mod 4 < 16"
    using mc_index [OF assms(5,6)] by blast+
  have "is_byte (xt ! (4 * c + row))" "is_byte (xt ! (4 * c + (row + 1) mod 4))" "is_byte (sh ! (4 * c + (row + 1) mod 4))"
    "is_byte (sh ! (4 * c + (row + 2) mod 4))" "is_byte (sh ! (4 * c + (row + 3) mod 4))"
    using assms i by (simp_all only: byte_list_nth)
  from xor_chain_bytes [OF this] show ?thesis unfolding mc_terms_def .
qed

lemma shifted_bytes: "length s = 16 \<Longrightarrow> byte_list s \<Longrightarrow> byte_list (shifted_of s)"
  by (rule byte_list_I [of _ 16]) (simp_all add: shifted_byte byte_list_nth)

lemma xtime_bytes: "byte_list sh \<Longrightarrow> byte_list (map (\<lambda>x. XTIME ! nat x) sh)"
  using gf_double_range by (auto simp: list_all_iff XTIME_nth)

lemma sub_list_bytes: "byte_list s \<Longrightarrow> byte_list (map sub_byte s)"
  using is_byte_sub by (auto simp: list_all_iff)

lemma block_bytes:
  assumes inp: "length inp = 16" "byte_list inp" and rks: "\<And>i. i < 11 \<Longrightarrow> length (rks ! i) = 16 \<and> byte_list (rks ! i)"
    and inv: "blk_inv rks inp 11 bt"
  shows "k < 11 \<Longrightarrow> length (b_ark bt ! k) = 16 \<and> byte_list (b_ark bt ! k)"
    and "k < 10 \<Longrightarrow> length (b_sub bt ! k) = 16 \<and> byte_list (b_sub bt ! k)"
    and "k < 9 \<Longrightarrow> length (b_xt bt ! k) = 16 \<and> byte_list (b_xt bt ! k) \<and> length (b_out bt ! k) = 16 \<and> byte_list (b_out bt ! k)"
proof -
  note I = inv [unfolded blk_inv_def]
  have sub: "length (b_sub bt ! k) = 16 \<and> byte_list (b_sub bt ! k)" if "k < 10" "length (b_ark bt ! k) = 16" "byte_list (b_ark bt ! k)" for k
  proof -
    have "b_sub bt ! k = map sub_byte (b_ark bt ! k)" using I that(1) by simp
    then show ?thesis using that sub_list_bytes by simp
  qed
  have mc: "length (b_xt bt ! k) = 16 \<and> byte_list (b_xt bt ! k) \<and> length (b_out bt ! k) = 16 \<and> byte_list (b_out bt ! k)"
    if "k < 9" "length (b_sub bt ! k) = 16" "byte_list (b_sub bt ! k)" for k
  proof -
    let ?sh = "shifted_of (b_sub bt ! k)"
    have e: "b_xt bt ! k = map (\<lambda>x. XTIME ! nat x) ?sh" "b_out bt ! k = map (\<lambda>(ks, zs). zs ! 3) (round_chains (b_xt bt ! k) ?sh)"
      using I that(1) by (simp_all add: Let_def)
    have sh: "length ?sh = 16" "byte_list ?sh" using shifted_bytes that by simp_all
    have xt: "length (b_xt bt ! k) = 16" "byte_list (b_xt bt ! k)" unfolding e(1) using xtime_bytes sh by simp_all
    have lo: "length (b_out bt ! k) = 16" by (simp add: e(2) length_round_chains)
    have "is_byte (b_out bt ! k ! i)" if i: "i < 16" for i
    proof (rule split16 [of "\<lambda>i. is_byte (b_out bt ! k ! i)", OF _ i])
      fix c row :: nat assume c: "c < 4" "row < 4"
      note ch = chain_bytes [OF xt sh c]
      have "b_out bt ! k ! (4 * c + row) = snd (xor_chain (mc_terms (b_xt bt ! k) ?sh c row)) ! 3"
        using c round_chains_nth [OF c] by (simp add: e(2) length_round_chains case_prod_beta)
      then show "is_byte (b_out bt ! k ! (4 * c + row))" using ch byte_list_nth [of "snd (xor_chain (mc_terms (b_xt bt ! k) ?sh c row))" 3] by simp
    qed
    then have "byte_list (b_out bt ! k)" using lo by (intro byte_list_I [of _ 16]) simp_all
    then show ?thesis using xt lo by blast
  qed
  have ark: "length (b_ark bt ! k) = 16 \<and> byte_list (b_ark bt ! k)" if "k < 11" "length (ark_in inp bt k) = 16" "byte_list (ark_in inp bt k)" for k
  proof -
    have e: "b_ark bt ! k = map (\<lambda>i. ark_in inp bt k ! i XOR rks ! k ! i) [0..<16]" using I that(1) by blast
    have "is_byte (ark_in inp bt k ! i XOR rks ! k ! i)" if "i < 16" for i
      using byte_list_nth [of "ark_in inp bt k" i] byte_list_nth [of "rks ! k" i] rks [of k] that \<open>k < 11\<close> \<open>length (ark_in inp bt k) = 16\<close> \<open>byte_list (ark_in inp bt k)\<close>
      by (intro is_byte_xor) simp_all
    then show ?thesis unfolding e by (simp add: list_all_iff)
  qed
  have all: "length (b_ark bt ! k) = 16 \<and> byte_list (b_ark bt ! k)" if "k < 11" for k
    using that
  proof (induction k)
    case 0
    then show ?case using inp by (intro ark) (simp_all add: ark_in_def)
  next
    case (Suc k)
    then have s: "length (b_sub bt ! k) = 16 \<and> byte_list (b_sub bt ! k)" by (intro sub) simp_all
    have "length (ark_in inp bt (Suc k)) = 16 \<and> byte_list (ark_in inp bt (Suc k))"
    proof (cases "Suc k < 10")
      case True
      then show ?thesis using mc [of k] s by (simp add: ark_in_def)
    next
      case False
      then show ?thesis using s shifted_bytes [of "b_sub bt ! k"] by (simp add: ark_in_def)
    qed
    then show ?case using Suc.prems by (intro ark) simp_all
  qed
  show "k < 11 \<Longrightarrow> length (b_ark bt ! k) = 16 \<and> byte_list (b_ark bt ! k)" by (rule all)
  show s: "k < 10 \<Longrightarrow> length (b_sub bt ! k) = 16 \<and> byte_list (b_sub bt ! k)" for k using sub all by simp
  show "k < 9 \<Longrightarrow> length (b_xt bt ! k) = 16 \<and> byte_list (b_xt bt ! k) \<and> length (b_out bt ! k) = 16 \<and> byte_list (b_out bt ! k)"
    using mc s by simp
qed

text \<open>The MixColumns chains of one round.\<close>

lemma block_mids:
  assumes inp: "length inp = 16" "byte_list inp" and rks: "\<And>i. i < 11 \<Longrightarrow> length (rks ! i) = 16 \<and> byte_list (rks ! i)"
    and inv: "blk_inv rks inp 11 bt" and k: "k < 9" and c: "c < 4" "row < 4"
  defines "ch \<equiv> xor_chain (mc_terms (b_xt bt ! k) (shifted_of (b_sub bt ! k)) c row)"
  shows "length (b_mid bt ! k) = 16 \<and> length (b_mk bt ! k) = 16 \<and> b_mk bt ! k ! (4 * c + row) = fst ch \<and>
    b_mid bt ! k ! (4 * c + row) = take 3 (snd ch) \<and> b_out bt ! k ! (4 * c + row) = snd ch ! 3 \<and>
    length (fst ch) = 4 \<and> length (snd ch) = 4 \<and> byte_list (snd ch)"
proof -
  note I = inv [unfolded blk_inv_def] and B = block_bytes [OF inp rks inv]
  let ?sh = "shifted_of (b_sub bt ! k)"
  have e: "b_mk bt ! k = map fst (round_chains (b_xt bt ! k) ?sh)" "b_mid bt ! k = map (\<lambda>(ks, zs). take 3 zs) (round_chains (b_xt bt ! k) ?sh)"
    "b_out bt ! k = map (\<lambda>(ks, zs). zs ! 3) (round_chains (b_xt bt ! k) ?sh)"
    using I k by (simp_all add: Let_def)
  have sh: "length ?sh = 16" "byte_list ?sh" using shifted_bytes B(2) [of k] k by simp_all
  note cb = chain_bytes [OF _ _ sh c, of "b_xt bt ! k"]
  have "4 * c + row < 16" using c by simp
  then show ?thesis using cb B(3) [OF _ k] k c round_chains_nth [OF c]
    by (simp add: e length_round_chains case_prod_beta ch_def)
qed
section \<open>The whole invocation\<close>

definition honest_block :: "bytes \<Rightarrow> bytes \<Rightarrow> nat \<Rightarrow> block_trace" where
  "honest_block key iv j = block_of (round_keys (map uint key)) (map uint iv @ map uint (ctr_suffix j))"

definition pt_chunk :: "bytes \<Rightarrow> nat \<Rightarrow> int list" where
  "pt_chunk pt j = map uint (take 16 (drop (16 * j) pt))"

lemma ctr_results:
  "rmap (\<lambda>j. to_be 4 (int (CTR_START + j))) [0..<n] = (if n = 0 \<or> CTR_START + n \<le> 2 ^ 32 then Inr (map ctr_suffix [0..<n]) else Inl OverflowError)"
proof (induction n)
  case (Suc n)
  have step: "rmap f (xs @ [x]) = rbind (rmap f xs) (\<lambda>ys. rbind (f x) (\<lambda>y. Inr (ys @ [y])))" for f :: "nat \<Rightarrow> bytes result" and xs x
    by (induction xs) (simp_all add: rbind_def split: sum.splits)
  show ?case unfolding upt_Suc_append [OF le0] step Suc.IH to_be_suffix [of n] by (auto simp: CTR_START_def)
qed simp

lemma aes_trace_fields:
  assumes "aes_trace_of key iv pt = Inr t"
  defines "rks \<equiv> round_keys (map uint key)" and "B \<equiv> honest_block key iv" and "n \<equiv> n_blocks (length pt)" and "P \<equiv> pt_chunk pt"
  shows "length key = 16 \<and> length iv = 12 \<and> pt \<noteq> [] \<and> CTR_START + n \<le> 2 ^ 32 \<and> t = \<lparr>nblocks = n, iv_bytes = map uint iv,
       ks_sub = map (\<lambda>i. rot_sub (rks ! (i - 1))) [1..<11], ks_rcon_b = map (\<lambda>i. RCON ! (i - 1)) [1..<11],
       ks_rcon_k = map (\<lambda>i. 256 * rot_sub (rks ! (i - 1)) ! 0 + RCON ! (i - 1)) [1..<11],
       ks_rcon_z = map (\<lambda>i. rcon_temp (rks ! (i - 1)) i ! 0) [1..<11],
       ks_xor_k = map (\<lambda>i. snd (word_chain (rks ! (i - 1)) (rcon_temp (rks ! (i - 1)) i))) [1..<11],
       rk = rks, ctr_bytes = map (\<lambda>j. map uint (ctr_suffix j)) [0..<n], pt_bytes = map P [0..<n],
       s_ark = map (\<lambda>j. b_ark (B j)) [0..<n], s_sub = map (\<lambda>j. b_sub (B j)) [0..<n], ark_k = map (\<lambda>j. b_ark_k (B j)) [0..<n],
       mc_xt = map (\<lambda>j. b_xt (B j)) [0..<n], mc_k = map (\<lambda>j. b_mk (B j)) [0..<n], mc_mid = map (\<lambda>j. b_mid (B j)) [0..<n],
       mc_out = map (\<lambda>j. b_out (B j)) [0..<n],
       ct_k = map (\<lambda>j. map (\<lambda>i. 256 * b_ark (B j) ! 10 ! i + P j ! i) [0..<length (P j)]) [0..<n],
       ct_bytes = map (\<lambda>j. map (\<lambda>i. b_ark (B j) ! 10 ! i XOR P j ! i) [0..<length (P j)]) [0..<n],
       ciphertext = map word_of_int (concat (map (\<lambda>j. map (\<lambda>i. b_ark (B j) ! 10 ! i XOR P j ! i) [0..<length (P j)]) [0..<n]))\<rparr>"
proof -
  have g: "length key = 16" "length iv = 12" "pt \<noteq> []"
    using assms(1) by (auto simp: aes_trace_of_def KEY_BYTES_def IV_BYTES_def split: if_splits)
  have "0 < length pt" using g(3) by simp
  then have n0: "n \<noteq> 0" using n_blocks_covers(1) [of "length pt"] unfolding n_def by linarith
  have c: "CTR_START + n \<le> 2 ^ 32"
  proof (rule ccontr)
    assume "\<not> CTR_START + n \<le> 2 ^ 32"
    then have "rmap (\<lambda>j. to_be 4 (int (CTR_START + j))) [0..<n_blocks (length pt)] = Inl OverflowError"
      using n0 unfolding ctr_results n_def by (simp only: simp_thms if_False)
    then show False using assms(1) g by (simp only: aes_trace_of_def Let_def rbind_simps KEY_BYTES_def IV_BYTES_def simp_thms if_False sum.distinct)
  qed
  then have r: "rmap (\<lambda>j. to_be 4 (int (CTR_START + j))) [0..<n] = Inr (map ctr_suffix [0..<n])"
    unfolding ctr_results by (simp only: simp_thms if_True)
  have B: "block_of rks (map uint iv @ map (\<lambda>x. map uint (ctr_suffix x)) [0..<n] ! j) = B j" if "j \<in> set [0..<n]" for j
    using that by (simp add: B_def honest_block_def rks_def)
  have P: "map uint (take AES_BLOCK (drop (AES_BLOCK * j) pt)) = P j" for j by (simp add: P_def pt_chunk_def AES_BLOCK_def)
  have "Inr t = aes_trace_of key iv pt" using assms(1) by simp
  then show ?thesis using g c unfolding aes_trace_of_def Let_def P n_def [symmetric] rks_def [symmetric]
    by (simp only: r rbind_simps B KEY_BYTES_def IV_BYTES_def simp_thms if_False sum.inject list.map_comp comp_def cong: map_cong)
qed

end
