(* ===== verification/Aes_Layout.thy ===== *)
theory Aes_Layout
  imports Aes_Honest
begin

text \<open>
  The properties of the AES-128-CTR layout: soundness and completeness of its checker, and the
  agreement of the circuit's enumeration of sites with the checker.
\<close>

unbundle bit_operations_syntax

section \<open>The honest trace satisfies the layout\<close>

lemma nest1_bytes: "byte_list xs \<Longrightarrow> slot_at (nest1 xs) p = Inr (Leaf v) \<Longrightarrow> is_byte v"
  by (cases p rule: list.exhaust; cases "tl p") (auto simp: nest1_def list_all_length split: if_splits)

lemma nest2_bytes: "list_all byte_list xs \<Longrightarrow> slot_at (nest2 xs) p = Inr (Leaf v) \<Longrightarrow> is_byte v"
proof (cases p)
  case (Cons i q)
  assume "list_all byte_list xs" "slot_at (nest2 xs) p = Inr (Leaf v)"
  then show ?thesis using nest1_bytes [of "xs ! i" q v] Cons by (simp add: list_all_length split: if_splits)
qed (simp add: nest2_def)

lemma nest3_bytes: "list_all (list_all byte_list) xs \<Longrightarrow> slot_at (nest3 xs) p = Inr (Leaf v) \<Longrightarrow> is_byte v"
proof (cases p)
  case (Cons i q)
  assume "list_all (list_all byte_list) xs" "slot_at (nest3 xs) p = Inr (Leaf v)"
  then show ?thesis using nest2_bytes [of "xs ! i" q v] Cons by (simp add: list_all_length split: if_splits)
qed (simp add: nest3_def)

lemma nest4_bytes: "list_all (list_all (list_all byte_list)) xs \<Longrightarrow> slot_at (nest4 xs) p = Inr (Leaf v) \<Longrightarrow> is_byte v"
proof (cases p)
  case (Cons i q)
  assume "list_all (list_all (list_all byte_list)) xs" "slot_at (nest4 xs) p = Inr (Leaf v)"
  then show ?thesis using nest3_bytes [of "xs ! i" q v] Cons by (simp add: list_all_length split: if_splits)
qed (simp add: nest4_def)

lemma ranges_from_bytes:
  assumes "list_all byte_list (rk t)" "list_all byte_list (ks_sub t)" "byte_list (ks_rcon_b t)" "byte_list (ks_rcon_z t)" "byte_list (iv_bytes t)"
    "list_all byte_list (ctr_bytes t)" "list_all byte_list (pt_bytes t)" "list_all (list_all byte_list) (s_ark t)" "list_all (list_all byte_list) (s_sub t)"
    "list_all (list_all byte_list) (mc_xt t)" "list_all (list_all (list_all byte_list)) (mc_mid t)" "list_all (list_all byte_list) (mc_out t)"
    "list_all byte_list (ct_bytes t)"
  shows "bad_ranges t = []"
  unfolding bad_ranges_Nil BYTE_CLASSES_def list.set ball_simps deref_def fst_conv snd_conv class_of_simps rbind_simps
  using assms nest1_bytes nest2_bytes nest3_bytes nest4_bytes by (intro conjI allI impI) blast+

lemma block_lengths:
  assumes "length inp = 16" "byte_list inp" "\<And>i. i < 11 \<Longrightarrow> length (rks ! i) = 16 \<and> byte_list (rks ! i)" "bt = block_of rks inp"
  shows "length (b_ark bt) = 11 \<and> length (b_ark_k bt) = 11 \<and> length (b_sub bt) = 10 \<and> length (b_xt bt) = 9 \<and> length (b_mk bt) = 9 \<and>
    length (b_mid bt) = 9 \<and> length (b_out bt) = 9 \<and>
    list_all (\<lambda>r. length r = 16 \<and> byte_list r) (b_ark bt) \<and> list_all (\<lambda>r. length r = 16) (b_ark_k bt) \<and> list_all (\<lambda>r. length r = 16 \<and> byte_list r) (b_sub bt) \<and>
    list_all (\<lambda>r. length r = 16 \<and> byte_list r) (b_xt bt) \<and> list_all (\<lambda>r. length r = 16 \<and> byte_list r) (b_out bt) \<and>
    list_all (\<lambda>r. length r = 16 \<and> list_all (\<lambda>ks. length ks = 4) r) (b_mk bt) \<and>
    list_all (\<lambda>r. length r = 16 \<and> list_all (\<lambda>ms. length ms = 3 \<and> byte_list ms) r) (b_mid bt)"
proof -
  have inv: "blk_inv rks inp 11 bt" using block_of_inv assms(4) by simp
  note I = inv [unfolded blk_inv_def] and B = block_bytes [OF assms(1-3) inv] and M = block_mids [OF assms(1-3) inv]
  have l: "length (b_ark bt) = 11" "length (b_ark_k bt) = 11" "length (b_sub bt) = 10" "length (b_xt bt) = 9" "length (b_mk bt) = 9"
    "length (b_mid bt) = 9" "length (b_out bt) = 9" using I by simp_all
  have k: "length (b_ark_k bt ! i) = 16" if "i < 11" for i
  proof -
    have "b_ark_k bt ! i = map (\<lambda>j. 256 * ark_in inp bt i ! j + rks ! i ! j) [0..<16]" using I that by blast
    then show ?thesis by simp
  qed
  have mk: "length (b_mk bt ! i) = 16 \<and> length (b_mid bt ! i) = 16" if "i < 9" for i using M [OF _ that, of 0 0] by simp
  have mm: "length (b_mk bt ! i ! j) = 4 \<and> length (b_mid bt ! i ! j) = 3 \<and> byte_list (b_mid bt ! i ! j)" if "i < 9" "j < 16" for i j
  proof (rule split16 [of "\<lambda>j. length (b_mk bt ! i ! j) = 4 \<and> length (b_mid bt ! i ! j) = 3 \<and> byte_list (b_mid bt ! i ! j)", OF _ that(2)])
    fix c row :: nat assume c: "c < 4" "row < 4"
    note m = M [OF _ that(1) c]
    have "byte_list (take 3 zs)" if "byte_list zs" for zs using that by (auto simp: list_all_iff dest: in_set_takeD)
    then show "length (b_mk bt ! i ! (4 * c + row)) = 4 \<and> length (b_mid bt ! i ! (4 * c + row)) = 3 \<and> byte_list (b_mid bt ! i ! (4 * c + row))" using m by simp
  qed
  show ?thesis using l k mk mm B by (simp add: list_all_length)
qed
lemma pt_chunk_props:
  assumes "j < n_blocks (length pt)"
  shows "length (pt_chunk pt j) \<le> 16 \<and> byte_list (pt_chunk pt j) \<and> (Suc j < n_blocks (length pt) \<longrightarrow> length (pt_chunk pt j) = 16)"
proof -
  have "length (pt_chunk pt j) = 16" if "Suc j < n_blocks (length pt)"
  proof -
    have "16 * (j + 2) \<le> length pt + 15" using that by (simp add: n_blocks_def AES_BLOCK_def)
    then show ?thesis by (simp add: pt_chunk_def)
  qed
  then show ?thesis using byte_list_uint by (simp add: pt_chunk_def)
qed

lemma list_all_map_upt: "(\<And>i. m \<le> i \<Longrightarrow> i < n \<Longrightarrow> P (f i)) \<Longrightarrow> list_all P (map f [m..<n])"
  by (simp add: list_all_iff)

lemma honest_fields:
  assumes "aes_trace_of key iv pt = Inr t"
  defines "rks \<equiv> round_keys (map uint key)" and "B \<equiv> honest_block key iv" and "n \<equiv> n_blocks (length pt)" and "P \<equiv> pt_chunk pt"
  shows "nblocks t = n \<and> iv_bytes t = map uint iv \<and> rk t = rks \<and> ks_sub t = map (\<lambda>i. rot_sub (rks ! (i - 1))) [1..<11] \<and>
    ks_rcon_b t = map (\<lambda>i. RCON ! (i - 1)) [1..<11] \<and> ks_rcon_k t = map (\<lambda>i. 256 * rot_sub (rks ! (i - 1)) ! 0 + RCON ! (i - 1)) [1..<11] \<and>
    ks_rcon_z t = map (\<lambda>i. rcon_temp (rks ! (i - 1)) i ! 0) [1..<11] \<and>
    ks_xor_k t = map (\<lambda>i. snd (word_chain (rks ! (i - 1)) (rcon_temp (rks ! (i - 1)) i))) [1..<11]"
    and "ctr_bytes t = map (\<lambda>j. map uint (ctr_suffix j)) [0..<n] \<and> pt_bytes t = map P [0..<n] \<and>
    s_ark t = map (\<lambda>j. b_ark (B j)) [0..<n] \<and> s_sub t = map (\<lambda>j. b_sub (B j)) [0..<n] \<and> ark_k t = map (\<lambda>j. b_ark_k (B j)) [0..<n] \<and>
    mc_xt t = map (\<lambda>j. b_xt (B j)) [0..<n] \<and> mc_k t = map (\<lambda>j. b_mk (B j)) [0..<n] \<and> mc_mid t = map (\<lambda>j. b_mid (B j)) [0..<n] \<and>
    mc_out t = map (\<lambda>j. b_out (B j)) [0..<n] \<and>
    ct_k t = map (\<lambda>j. map (\<lambda>i. 256 * b_ark (B j) ! 10 ! i + P j ! i) [0..<length (P j)]) [0..<n] \<and>
    ct_bytes t = map (\<lambda>j. map (\<lambda>i. b_ark (B j) ! 10 ! i XOR P j ! i) [0..<length (P j)]) [0..<n] \<and>
    ciphertext t = map word_of_int (concat (ct_bytes t))"
  using aes_trace_fields [OF assms(1)] unfolding rks_def B_def n_def P_def by (simp_all del: upt_rec_numeral)

lemma list_all_weaken: "list_all P xs \<Longrightarrow> (\<And>x. P x \<Longrightarrow> Q x) \<Longrightarrow> list_all Q xs"
  by (simp add: list_all_iff)

lemma honest_parts:
  assumes t: "aes_trace_of key iv pt = Inr t"
  defines "rks \<equiv> round_keys (map uint key)" and "B \<equiv> honest_block key iv"
  shows "length key = 16" "length iv = 12" "CTR_START + n_blocks (length pt) \<le> 2 ^ 32" "length rks = 11"
    "\<And>i. i < 11 \<Longrightarrow> length (rks ! i) = 16 \<and> byte_list (rks ! i)"
    "\<And>i. 1 \<le> i \<Longrightarrow> i < 11 \<Longrightarrow> (\<forall>r < 4. is_byte (rcon_temp (rks ! (i - 1)) i ! r) \<and> is_byte (rot_sub (rks ! (i - 1)) ! r)) \<and> length (rot_sub (rks ! (i - 1))) = 4"
    "\<And>j. blk_inv rks (map uint iv @ map uint (ctr_suffix j)) 11 (B j)"
    "\<And>j. length (map uint iv @ map uint (ctr_suffix j)) = 16 \<and> byte_list (map uint iv @ map uint (ctr_suffix j))"
proof -
  show g: "length key = 16" "length iv = 12" "CTR_START + n_blocks (length pt) \<le> 2 ^ 32" using aes_trace_fields [OF t] by blast+
  show "length rks = 11" unfolding rks_def using round_keys_props by blast
  show rb: "length (rks ! i) = 16 \<and> byte_list (rks ! i)" if "i < 11" for i
    using round_keys_bytes [of "map uint key" i] that g byte_list_uint by (simp add: rks_def)
  show "(\<forall>r < 4. is_byte (rcon_temp (rks ! (i - 1)) i ! r) \<and> is_byte (rot_sub (rks ! (i - 1)) ! r)) \<and> length (rot_sub (rks ! (i - 1))) = 4"
    if "1 \<le> i" "i < 11" for i using rcon_temp_bytes [of "rks ! (i - 1)" i] rb [of "i - 1"] that by simp
  show "blk_inv rks (map uint iv @ map uint (ctr_suffix j)) 11 (B j)" for j unfolding B_def honest_block_def rks_def by (rule block_of_inv)
  show "length (map uint iv @ map uint (ctr_suffix j)) = 16 \<and> byte_list (map uint iv @ map uint (ctr_suffix j))" for j
    using g byte_list_uint by (simp add: ctr_suffix_def)
qed

lemma honest_lengths:
  assumes t: "aes_trace_of key iv pt = Inr t"
  defines "B \<equiv> honest_block key iv"
  shows "length (b_ark (B j)) = 11 \<and> length (b_ark_k (B j)) = 11 \<and> length (b_sub (B j)) = 10 \<and> length (b_xt (B j)) = 9 \<and> length (b_mk (B j)) = 9 \<and>
    length (b_mid (B j)) = 9 \<and> length (b_out (B j)) = 9 \<and>
    list_all (\<lambda>r. length r = 16 \<and> byte_list r) (b_ark (B j)) \<and> list_all (\<lambda>r. length r = 16) (b_ark_k (B j)) \<and> list_all (\<lambda>r. length r = 16 \<and> byte_list r) (b_sub (B j)) \<and>
    list_all (\<lambda>r. length r = 16 \<and> byte_list r) (b_xt (B j)) \<and> list_all (\<lambda>r. length r = 16 \<and> byte_list r) (b_out (B j)) \<and>
    list_all (\<lambda>r. length r = 16 \<and> list_all (\<lambda>ks. length ks = 4) r) (b_mk (B j)) \<and>
    list_all (\<lambda>r. length r = 16 \<and> list_all (\<lambda>ms. length ms = 3 \<and> byte_list ms) r) (b_mid (B j))"
  unfolding B_def
  by (rule block_lengths [of "map uint iv @ map uint (ctr_suffix j)" "round_keys (map uint key)"])
    (use honest_parts(5,8) [OF t] in \<open>simp_all add: honest_block_def\<close>)

lemma honest_shape:
  assumes t: "aes_trace_of key iv pt = Inr t"
  shows "aes_shape t"
proof -
  note F = honest_fields [OF t] and H = honest_parts [OF t] and L = honest_lengths [OF t]
  have wc: "length (snd (word_chain p q)) = 16" for p q using word_chain_props by simp
  have cs: "length (ctr_suffix j) = 4" for j by (simp add: ctr_suffix_def)
  have rs: "length (rot_sub p) = 4" for p by (simp add: rot_sub_def)
  have key: "exact2 11 16 (rk t)" "exact2 10 4 (ks_sub t)" "exact2 10 16 (ks_xor_k t)" "length (ks_rcon_b t) = 10" "length (ks_rcon_k t) = 10"
    "length (ks_rcon_z t) = 10" "length (iv_bytes t) = 12"
    using F(1) H wc rs by (simp_all add: exact2_def list_all_length del: upt_rec_numeral)
  have blk: "exact2 (nblocks t) 4 (ctr_bytes t)" "exact2 (nblocks t) 11 (s_ark t)" "exact2 (nblocks t) 11 (ark_k t)" "exact2 (nblocks t) 10 (s_sub t)"
    "exact2 (nblocks t) 9 (mc_xt t)" "exact2 (nblocks t) 9 (mc_out t)" "exact2 (nblocks t) 9 (mc_mid t)" "exact2 (nblocks t) 9 (mc_k t)"
    using F L cs by (simp_all add: exact2_def list_all_iff)
  have rows: "list_all (list_all (\<lambda>row. length row = 16)) (s_ark t)" "list_all (list_all (\<lambda>row. length row = 16)) (ark_k t)"
    "list_all (list_all (\<lambda>row. length row = 16)) (s_sub t)" "list_all (list_all (\<lambda>row. length row = 16)) (mc_xt t)"
    "list_all (list_all (\<lambda>row. length row = 16)) (mc_out t)"
    "list_all (list_all (\<lambda>row. length row = 16 \<and> list_all (\<lambda>ms. length ms = 3) row)) (mc_mid t)"
    "list_all (list_all (\<lambda>row. length row = 16 \<and> list_all (\<lambda>ks. length ks = 4) row)) (mc_k t)"
    using F(2) L by (simp_all add: list_all_iff)
  have ch: "chunks_ok (nblocks t) (pt_bytes t)" "map length (ct_bytes t) = map length (pt_bytes t)" "map length (ct_k t) = map length (pt_bytes t)"
    using F pt_chunk_props [where pt = pt] by (simp_all add: chunks_ok_def list_all_iff comp_def)
  show ?thesis unfolding aes_shape_def Let_def using key blk rows ch by blast
qed

lemma honest_byte_classes:
  assumes t: "aes_trace_of key iv pt = Inr t"
  shows "bad_ranges t = []"
proof (rule ranges_from_bytes)
  note F = honest_fields [OF t] and H = honest_parts [OF t] and L = honest_lengths [OF t]
  show "list_all byte_list (rk t)" using F(1) H by (simp add: list_all_length)
  have "byte_list (rot_sub (round_keys (map uint key) ! (i - 1)))" if "1 \<le> i" "i < 11" for i using H(6) [OF that] by (simp add: list_all_length)
  then show "list_all byte_list (ks_sub t)" using F(1) by (simp add: list_all_map_upt del: upt_rec_numeral)
  have "is_byte (RCON ! (i - 1))" if "1 \<le> i" "i < 11" for i using is_byte_RCON [of "i - 1"] that by simp
  then show "byte_list (ks_rcon_b t)" using F(1) by (simp add: list_all_map_upt del: upt_rec_numeral)
  show "byte_list (ks_rcon_z t)" using F(1) H(6) by (simp add: list_all_iff del: upt_rec_numeral)
  show "byte_list (iv_bytes t)" using F(1) byte_list_uint by simp
  show "list_all byte_list (ctr_bytes t)" using F(2) byte_list_uint by (simp add: list_all_iff)
  show "list_all byte_list (pt_bytes t)" using F(2) pt_chunk_props [where pt = pt] by (simp add: list_all_iff)
  show "list_all (list_all byte_list) (s_ark t)" "list_all (list_all byte_list) (s_sub t)" "list_all (list_all byte_list) (mc_xt t)"
    "list_all (list_all byte_list) (mc_out t)" "list_all (list_all (list_all byte_list)) (mc_mid t)"
    using F(2) L by (simp_all add: list_all_iff)
  have "is_byte (b_ark (honest_block key iv j) ! 10 ! i XOR pt_chunk pt j ! i)" if "j < n_blocks (length pt)" "i < length (pt_chunk pt j)" for i j
  proof -
    have "length (b_ark (honest_block key iv j) ! 10) = 16" "byte_list (b_ark (honest_block key iv j) ! 10)" using L [of j] by (simp_all add: list_all_length)
    then show ?thesis using that pt_chunk_props [OF that(1)] by (intro is_byte_xor byte_list_nth) simp_all
  qed
  then show "list_all byte_list (ct_bytes t)" using F(2) by (simp add: list_all_iff)
qed

lemma honest_key_eqs:
  assumes t: "aes_trace_of key iv pt = Inr t" and i: "1 \<le> i" "i < 11"
  shows "key_eqs t i"
proof -
  note F = honest_fields(1) [OF t]
  let ?R = "round_keys (map uint key)"
  let ?p = "?R ! (i - 1)"
  have j: "i - 1 < 10" "Suc (i - 1) = i" using i by simp_all
  have rcur: "?R ! i = fst (word_chain ?p (rcon_temp ?p i))" using round_keys_props i by blast
  note wp = word_chain_props [of ?p "rcon_temp ?p i", folded rcur, THEN conjunct2, THEN conjunct2]
  have f: "rk t = ?R" "ks_sub t ! (i - 1) = rot_sub ?p" "ks_rcon_b t ! (i - 1) = RCON ! (i - 1)"
    "ks_rcon_k t ! (i - 1) = 256 * rot_sub ?p ! 0 + RCON ! (i - 1)" "ks_rcon_z t ! (i - 1) = rcon_temp ?p i ! 0"
    "ks_xor_k t ! (i - 1) = snd (word_chain ?p (rcon_temp ?p i))"
    using F j by (simp_all add: nth_upt del: upt_rec_numeral)
  have src: "(if w = 0 then rcon_temp ?p i ! r else ?R ! i ! (4 * (w - 1) + r)) = key_src t i w r" if "r < 4" for w r
  proof (cases "w = 0")
    case True
    have "r = 0 \<or> r = 1 \<or> r = 2 \<or> r = 3" using that by auto
    then have "rcon_temp ?p i ! r = (if r = 0 then rcon_temp ?p i ! 0 else rot_sub ?p ! r)" by (auto simp: rcon_temp_def Let_def)
    then show ?thesis using True by (simp add: key_src_def f [unfolded One_nat_def])
  next
    case False
    then show ?thesis by (simp add: key_src_def f(1))
  qed
  show ?thesis unfolding key_eqs_def f
  proof (intro conjI allI impI)
    fix w r :: nat assume "w < 4" "r < 4"
    then show "xor_rel (?p ! (4 * w + r)) (key_src t i w r) (snd (word_chain ?p (rcon_temp ?p i)) ! (4 * w + r)) (?R ! i ! (4 * w + r))"
      using wp [rule_format, of w r] src [of r w] by simp
  qed (simp_all add: rot_sub_def sub_byte_def xor_rel_def rcon_temp_def Let_def)
qed

lemma honest_block_eqs:
  assumes t: "aes_trace_of key iv pt = Inr t" and b: "b < nblocks t"
  shows "block_eqs t b"
proof -
  note F = honest_fields [OF t] and H = honest_parts [OF t]
  let ?B = "honest_block key iv b" and ?R = "round_keys (map uint key)" and ?inp = "map uint iv @ map uint (ctr_suffix b)"
  have n: "b < n_blocks (length pt)" using F b by simp
  have inv: "blk_inv ?R ?inp 11 ?B" using H(7) .
  note I = inv [unfolded blk_inv_def]
  have inp: "length ?inp = 16" "byte_list ?inp" using H(8) by blast+
  note M = block_mids [OF inp H(5) inv]
  have f: "rk t = ?R" "s_ark t ! b = b_ark ?B" "s_sub t ! b = b_sub ?B" "ark_k t ! b = b_ark_k ?B" "mc_xt t ! b = b_xt ?B" "mc_k t ! b = b_mk ?B"
    "mc_mid t ! b = b_mid ?B" "mc_out t ! b = b_out ?B" "pt_bytes t ! b = pt_chunk pt b" "ctr_bytes t ! b = map uint (ctr_suffix b)"
    "iv_bytes t = map uint iv" "ct_k t ! b = map (\<lambda>i. 256 * b_ark ?B ! 10 ! i + pt_chunk pt b ! i) [0..<length (pt_chunk pt b)]"
    "ct_bytes t ! b = map (\<lambda>i. b_ark ?B ! 10 ! i XOR pt_chunk pt b ! i) [0..<length (pt_chunk pt b)]"
    using F n by simp_all
  have ai: "ark_input t b k = ark_in ?inp ?B k" if "k < 11" for k
    using that by (auto simp: ark_input_def ark_in_def f)
  have mc: "mc_eqs t b k c row" if "0 < k" "k < 10" "c < 4" "row < 4" for k c row
  proof -
    let ?tm = "mc_terms (b_xt ?B ! (k - 1)) (shifted_of (b_sub ?B ! (k - 1))) c row"
    obtain p q r s u where tm: "?tm = [p, q, r, s, u]" by (simp add: mc_terms_def)
    have "k - 1 < 9" using that by simp
    note m = M [OF _ this that(3,4), unfolded tm]
    show ?thesis unfolding mc_eqs_def Let_def f less_4 mc_chain_def tm using m by (simp add: xor_chain_eq xor_rel_def xor.assoc numeral_2_eq_2 numeral_3_eq_3)
  qed
  have rnd: "round_eqs t b k" if "k < 11" for k
    unfolding round_eqs_def f ai [OF that]
  proof (intro conjI impI allI)
    note k11 = that
    fix i :: nat assume i: "i < 16"
    have "b_ark ?B ! k = map (\<lambda>i. ark_in ?inp ?B k ! i XOR ?R ! k ! i) [0..<16]" "b_ark_k ?B ! k = map (\<lambda>i. 256 * ark_in ?inp ?B k ! i + ?R ! k ! i) [0..<16]"
      using I that by blast+
    then show "xor_rel (ark_in ?inp ?B k ! i) (?R ! k ! i) (b_ark_k ?B ! k ! i) (b_ark ?B ! k ! i)"
      using i by (simp add: xor_rel_def del: upt_rec_numeral)
    assume k: "0 < k"
    obtain m where m: "k = Suc m" "m < 10" using k k11 by (cases k) auto
    have "b_sub ?B ! (k - 1) = map sub_byte (b_ark ?B ! (k - 1))" "length (b_ark ?B ! (k - 1)) = 16"
      using I m block_bytes(1) [OF inp H(5) inv, of m] by simp_all
    then show "b_sub ?B ! (k - 1) ! i = SBOX ! nat (b_ark ?B ! (k - 1) ! i)" using i by (simp add: sub_byte_def)
  next
    fix i :: nat assume k: "0 < k \<and> k < 10" and i: "i < 16"
    obtain m where m: "k = Suc m" "m < 9" using k by (cases k) auto
    have "b_xt ?B ! (k - 1) = map (\<lambda>x. XTIME ! nat x) (shifted_of (b_sub ?B ! (k - 1)))" using I m by (simp add: Let_def)
    then show "b_xt ?B ! (k - 1) ! i = XTIME ! nat (shifted_of (b_sub ?B ! (k - 1)) ! i)" using i by simp
  qed (use mc in blast)
  have "CTR_START + b < 2 ^ 32" using H(3) n by linarith
  then show ?thesis unfolding block_eqs_def f using rnd by (simp add: xor_rel_def ctr_suffix_def)
qed

lemma honest_accepted:
  assumes "aes_trace_of key iv pt = Inr t"
  shows "aes_check t = Inr []"
  unfolding aes_check_Nil [OF honest_shape [OF assms]]
  using honest_byte_classes [OF assms] honest_key_eqs [OF assms] honest_block_eqs [OF assms] by blast
section \<open>The trace computes the oracle's ciphertext\<close>

lemma bytes_of_uint [simp]: "bytes_of (map uint bs) = bs"
  by (simp add: bytes_of_def comp_def)

lemma concat_chunks: "concat (map (\<lambda>j. take 16 (drop (16 * j) xs)) [0..<n]) = take (16 * n) xs"
proof (induction n)
  case (Suc n)
  have "16 * Suc n = 16 * n + 16" by simp
  then show ?case using Suc by (simp only: upt_Suc_append [OF le0] map_append concat_append take_add) simp
qed simp

lemma honest_ciphertext:
  assumes "aes_trace_of key iv pt = Inr t"
  shows "aes128_ctr_gcm key iv pt = Inr (ciphertext t)"
proof -
  note F = honest_fields [OF assms]
  have "bytes_of (concat (pt_bytes t)) = concat (map (\<lambda>j. take 16 (drop (16 * j) pt)) [0..<n_blocks (length pt)])"
    using F(2) bytes_of_uint by (simp add: pt_chunk_def bytes_of_def map_concat comp_def)
  then have "bytes_of (concat (pt_bytes t)) = pt" using n_blocks_covers(1) [of "length pt"] by (simp add: concat_chunks)
  moreover have "bytes_of (rk t ! 0) = key" using F(1) round_keys_props by simp
  moreover have "bytes_of (iv_bytes t) = iv" using F(1) by simp
  moreover have "bytes_of (concat (ct_bytes t)) = ciphertext t" using F(2) by (simp add: bytes_of_def)
  ultimately show ?thesis using layout_ciphertext [OF honest_shape [OF assms] honest_accepted [OF assms]] by simp
qed

lemma rmap_InlD: "rmap f xs = Inl e \<Longrightarrow> \<exists>x \<in> set xs. f x = Inl e"
  by (induction xs) (auto simp: rbind_def split: sum.splits)

lemma aes_ctr_gcm_errors:
  "aes128_ctr_gcm key iv pt = Inl e \<longleftrightarrow>
     (if length key \<noteq> 16 \<or> length iv \<noteq> 12 then e = AssertionError else 2 ^ 32 < CTR_START + n_blocks (length pt) \<and> e = OverflowError)"
proof (cases "length key \<noteq> 16 \<or> length iv \<noteq> 12")
  case True
  then show ?thesis by (auto simp: aes128_ctr_gcm_def KEY_BYTES_def IV_BYTES_def)
next
  case False
  then have l: "length key = KEY_BYTES" "length iv = IV_BYTES" by (simp_all add: KEY_BYTES_def IV_BYTES_def)
  show ?thesis
  proof (cases "CTR_START + n_blocks (length pt) \<le> 2 ^ 32")
    case True
    then have "\<not> 2 ^ 32 < CTR_START + n_blocks (length pt)" by linarith
    then show ?thesis using aes_ctr_xor [OF l True] \<open>\<not> (length key \<noteq> 16 \<or> length iv \<noteq> 12)\<close> by (simp only: sum.distinct simp_thms if_False)
  next
    case c: False
    obtain rks where k: "key_expand key = Inr rks" using key_expand_total [OF l(1)] by blast
    have "\<nexists>ct. aes128_ctr_gcm key iv pt = Inr ct" using aes_ctr_InrD c by blast
    then obtain e' where e': "aes128_ctr_gcm key iv pt = Inl e'" by (cases "aes128_ctr_gcm key iv pt") auto
    have "aes128_ctr_gcm key iv pt = rbind (rmap (ctr_chunk rks iv pt) [0..<n_blocks (length pt)]) (\<lambda>chunks. Inr (concat chunks))"
      using l k by (simp only: aes128_ctr_gcm_def rbind_simps simp_thms if_False)
    then have "rmap (ctr_chunk rks iv pt) [0..<n_blocks (length pt)] = Inl e'"
      using e' by (cases "rmap (ctr_chunk rks iv pt) [0..<n_blocks (length pt)]") (simp_all only: rbind_simps sum.inject sum.distinct)
    from rmap_InlD [OF this] obtain j where j: "ctr_chunk rks iv pt j = Inl e'" by blast
    have "e' = OverflowError"
    proof (cases "CTR_START + j < 2 ^ 32")
      case True
      then show ?thesis using j ctr_chunk_Inr [OF l(1) k, of j iv pt] by simp
    next
      case False
      then show ?thesis using j ctr_chunk_overflow [of j rks iv pt] by simp
    qed
    then show ?thesis using e' c False by auto
  qed
qed

lemma aes_trace_errors:
  "aes_trace_of key iv pt = Inl e \<longleftrightarrow>
     (if length key \<noteq> 16 \<or> length iv \<noteq> 12 \<or> pt = [] then e = AssertionError else 2 ^ 32 < CTR_START + n_blocks (length pt) \<and> e = OverflowError)"
proof (cases "length key \<noteq> 16 \<or> length iv \<noteq> 12 \<or> pt = []")
  case True
  then show ?thesis by (auto simp: aes_trace_of_def KEY_BYTES_def IV_BYTES_def)
next
  case False
  then have g: "(length key \<noteq> KEY_BYTES \<or> length iv \<noteq> IV_BYTES \<or> pt = []) = False" by (simp add: KEY_BYTES_def IV_BYTES_def)
  have "0 < length pt" using False by simp
  then have n0: "n_blocks (length pt) \<noteq> 0" using n_blocks_covers(1) [of "length pt"] by linarith
  show ?thesis
  proof (cases "CTR_START + n_blocks (length pt) \<le> 2 ^ 32")
    case c: True
    then have n: "\<not> 2 ^ 32 < CTR_START + n_blocks (length pt)" by linarith
    show ?thesis unfolding aes_trace_of_def g Let_def ctr_results using c n False by (simp only: simp_thms if_True if_False rbind_simps sum.distinct)
  next
    case c: False
    then have n: "2 ^ 32 < CTR_START + n_blocks (length pt)" by linarith
    show ?thesis unfolding aes_trace_of_def g Let_def ctr_results using c n n0 False by (simp only: simp_thms if_True if_False rbind_simps sum.inject eq_commute [of OverflowError])
  qed
qed

lemma aes_ctr_eq: "aes_ctr key iv pt = aes_trace_of key iv pt"
proof (cases "aes_trace_of key iv pt")
  case (Inr t)
  then show ?thesis using honest_accepted [OF Inr] honest_ciphertext [OF Inr] by (simp add: aes_ctr_def)
qed (simp add: aes_ctr_def)

lemma aes_ctr_equals_oracle:
  "rbind (aes_ctr key iv pt) (\<lambda>t. Inr (ciphertext t)) = (if pt = [] then Inl AssertionError else aes128_ctr_gcm key iv pt)"
proof (cases "aes_trace_of key iv pt")
  case (Inl e)
  then have "pt \<noteq> [] \<Longrightarrow> aes128_ctr_gcm key iv pt = Inl e" and "pt = [] \<Longrightarrow> e = AssertionError"
    unfolding aes_ctr_gcm_errors aes_trace_errors by (auto split: if_splits)
  then show ?thesis using Inl by (auto simp: aes_ctr_eq)
next
  case (Inr t)
  then have "pt \<noteq> []" using aes_trace_fields [OF Inr] by blast
  then show ?thesis using Inr honest_ciphertext [OF Inr] by (simp add: aes_ctr_eq)
qed

text \<open>
  Property C34 (\<open>aes_ctr_correct\<close>): the witness routine never trips its own assertions and agrees
  with the encryption oracle. It raises \<open>AssertionError\<close> on an empty payload and otherwise fails
  exactly as the oracle does (sizes of key and vector, counter past 32 bits); when it returns a
  trace, the trace's ciphertext is the oracle's.
\<close>

theorem aes_ctr_correct:
  "rbind (aes_ctr key iv pt) (\<lambda>t. Inr (ciphertext t)) = (if pt = [] then Inl AssertionError else aes128_ctr_gcm key iv pt)"
  by (rule aes_ctr_equals_oracle)

text \<open>
  Property C17 (\<open>aes_layout_sound\<close>): the constraint layout is sound. Any trace of the committed
  shape in which the checker finds no violated constraint, whoever made it, holds in its
  ciphertext column the AES-128-CTR encryption of its plaintext column under the key of its
  first round key and its initialisation vector.
\<close>

theorem aes_layout_sound:
  assumes "aes_shape t" "aes_check t = Inr []"
  shows "aes128_ctr_gcm (bytes_of (rk t ! 0)) (bytes_of (iv_bytes t)) (bytes_of (concat (pt_bytes t))) = Inr (bytes_of (concat (ct_bytes t)))"
  by (rule layout_ciphertext [OF assms])

theorem aes_layout_sound_witness:
  "\<exists>t. aes_trace_of (replicate 16 7) (replicate 12 1) [0x68, 0x69] = Inr t \<and> aes_check t = Inr [] \<and>
     aes128_ctr_gcm (bytes_of (rk t ! 0)) (bytes_of (iv_bytes t)) (bytes_of (concat (pt_bytes t))) = Inr (bytes_of (concat (ct_bytes t)))"
proof -
  let ?r = "aes_trace_of (replicate 16 7) (replicate 12 1) [0x68, 0x69]"
  have "\<nexists>e. ?r = Inl e" unfolding aes_trace_errors by (simp add: CTR_START_def n_blocks_def AES_BLOCK_def)
  then obtain t where t: "?r = Inr t" by (cases ?r) auto
  from aes_layout_sound [OF honest_shape [OF t] honest_accepted [OF t]] show ?thesis using t honest_accepted [OF t] by blast
qed
end
