(* ===== verification/Aes_Sites.thy ===== *)
theory Aes_Sites
  imports Aes_Layout
begin

text \<open>
  The enumeration of constraint sites the AES circuit is composed from
  (\<^verbatim>\<open>sites()\<close> of \<^verbatim>\<open>prover/ref/aes_trace.py\<close>) states the same constraints as the checker.
\<close>

unbundle bit_operations_syntax

section \<open>Satisfied sites\<close>

text \<open>The value a reference names, and the sites read as constraints on those values.\<close>

definition site_val :: "aes_trace \<Rightarrow> ref \<Rightarrow> int option" where
  "site_val t r = (case deref t r of Inr (Leaf v) \<Rightarrow> Some v | _ \<Rightarrow> None)"

definition lookup_ok :: "aes_trace \<Rightarrow> int list \<Rightarrow> ref \<times> ref \<Rightarrow> bool" where
  "lookup_ok t tab xy =
     (case (site_val t (fst xy), site_val t (snd xy)) of (Some x, Some y) \<Rightarrow> 0 \<le> x \<and> x < 256 \<and> y = tab ! nat x | _ \<Rightarrow> False)"

definition xor_ok :: "aes_trace \<Rightarrow> xor_site \<Rightarrow> bool" where
  "xor_ok t s =
     (case (site_val t (xs_a s), site_val t (xs_b s), site_val t (xs_k s), site_val t (xs_z s)) of
        (Some a, Some b, Some k, Some z) \<Rightarrow> k = 256 * a + b \<and> 0 \<le> k \<and> k < 65536 \<and> z = drop_bit 8 k XOR (k AND 0xFF)
      | _ \<Rightarrow> False)"

definition sites_hold :: "aes_trace \<Rightarrow> aes_sites \<Rightarrow> bool" where
  "sites_hold t S \<longleftrightarrow> list_all (lookup_ok t SBOX) (st_sbox S) \<and> list_all (lookup_ok t XTIME) (st_xtime S) \<and> list_all (xor_ok t) (st_xor S) \<and>
     list_all (\<lambda>(r, v). site_val t r = Some v) (st_public S)"

lemma site_val_leaf [simp]: "deref t r = Inr (Leaf v) \<Longrightarrow> site_val t r = Some v"
  by (simp add: site_val_def)

lemma slot_at_Leaf [simp]: "slot_at (Leaf v) [] = Inr (Leaf v)"
  by simp

lemma site_val_class:
  "i < length (rk t) \<Longrightarrow> j < length (rk t ! i) \<Longrightarrow> site_val t (''rk'', [i, j]) = Some (rk t ! i ! j)"
  "i < length (ks_sub t) \<Longrightarrow> j < length (ks_sub t ! i) \<Longrightarrow> site_val t (''ks_sub'', [i, j]) = Some (ks_sub t ! i ! j)"
  "i < length (ks_rcon_b t) \<Longrightarrow> site_val t (''ks_rcon_b'', [i]) = Some (ks_rcon_b t ! i)"
  "i < length (ks_rcon_k t) \<Longrightarrow> site_val t (''ks_rcon_k'', [i]) = Some (ks_rcon_k t ! i)"
  "i < length (ks_rcon_z t) \<Longrightarrow> site_val t (''ks_rcon_z'', [i]) = Some (ks_rcon_z t ! i)"
  "i < length (ks_xor_k t) \<Longrightarrow> j < length (ks_xor_k t ! i) \<Longrightarrow> site_val t (''ks_xor_k'', [i, j]) = Some (ks_xor_k t ! i ! j)"
  "i < length (iv_bytes t) \<Longrightarrow> site_val t (''iv_bytes'', [i]) = Some (iv_bytes t ! i)"
  "i < length (ctr_bytes t) \<Longrightarrow> j < length (ctr_bytes t ! i) \<Longrightarrow> site_val t (''ctr_bytes'', [i, j]) = Some (ctr_bytes t ! i ! j)"
  "i < length (pt_bytes t) \<Longrightarrow> j < length (pt_bytes t ! i) \<Longrightarrow> site_val t (''pt_bytes'', [i, j]) = Some (pt_bytes t ! i ! j)"
  "i < length (ct_bytes t) \<Longrightarrow> j < length (ct_bytes t ! i) \<Longrightarrow> site_val t (''ct_bytes'', [i, j]) = Some (ct_bytes t ! i ! j)"
  "i < length (ct_k t) \<Longrightarrow> j < length (ct_k t ! i) \<Longrightarrow> site_val t (''ct_k'', [i, j]) = Some (ct_k t ! i ! j)"
  "i < length (s_ark t) \<Longrightarrow> j < length (s_ark t ! i) \<Longrightarrow> k < length (s_ark t ! i ! j) \<Longrightarrow> site_val t (''s_ark'', [i, j, k]) = Some (s_ark t ! i ! j ! k)"
  "i < length (ark_k t) \<Longrightarrow> j < length (ark_k t ! i) \<Longrightarrow> k < length (ark_k t ! i ! j) \<Longrightarrow> site_val t (''ark_k'', [i, j, k]) = Some (ark_k t ! i ! j ! k)"
  "i < length (s_sub t) \<Longrightarrow> j < length (s_sub t ! i) \<Longrightarrow> k < length (s_sub t ! i ! j) \<Longrightarrow> site_val t (''s_sub'', [i, j, k]) = Some (s_sub t ! i ! j ! k)"
  "i < length (mc_xt t) \<Longrightarrow> j < length (mc_xt t ! i) \<Longrightarrow> k < length (mc_xt t ! i ! j) \<Longrightarrow> site_val t (''mc_xt'', [i, j, k]) = Some (mc_xt t ! i ! j ! k)"
  "i < length (mc_out t) \<Longrightarrow> j < length (mc_out t ! i) \<Longrightarrow> k < length (mc_out t ! i ! j) \<Longrightarrow> site_val t (''mc_out'', [i, j, k]) = Some (mc_out t ! i ! j ! k)"
  "i < length (mc_mid t) \<Longrightarrow> j < length (mc_mid t ! i) \<Longrightarrow> k < length (mc_mid t ! i ! j) \<Longrightarrow> m < length (mc_mid t ! i ! j ! k) \<Longrightarrow>
     site_val t (''mc_mid'', [i, j, k, m]) = Some (mc_mid t ! i ! j ! k ! m)"
  "i < length (mc_k t) \<Longrightarrow> j < length (mc_k t ! i) \<Longrightarrow> k < length (mc_k t ! i ! j) \<Longrightarrow> m < length (mc_k t ! i ! j ! k) \<Longrightarrow>
     site_val t (''mc_k'', [i, j, k, m]) = Some (mc_k t ! i ! j ! k ! m)"
  by (simp_all add: deref_def)

text \<open>On byte operands a site is one equation.\<close>

lemma lookup_ok_byte:
  assumes "site_val t x = Some a" "site_val t y = Some b" "is_byte a"
  shows "lookup_ok t tab (x, y) \<longleftrightarrow> b = tab ! nat a"
  using assms by (simp add: lookup_ok_def)

lemma xor_ok_byte:
  assumes "site_val t (xs_a s) = Some a" "site_val t (xs_b s) = Some b" "site_val t (xs_k s) = Some k" "site_val t (xs_z s) = Some z" "is_byte a" "is_byte b"
  shows "xor_ok t s \<longleftrightarrow> xor_rel a b k z"
proof -
  have "xor_ok t s \<longleftrightarrow> k = 256 * a + b \<and> 0 \<le> k \<and> k < 65536 \<and> z = drop_bit 8 k XOR (k AND 0xFF)" using assms by (simp add: xor_ok_def)
  also have "\<dots> \<longleftrightarrow> xor_rel a b k z"
  proof (cases "k = 256 * a + b")
    case True
    have "0 \<le> k \<and> k < 65536 \<and> drop_bit 8 k XOR (k AND 0xFF) = a XOR b" unfolding True using byte_key [of a b] assms(5,6) by blast
    then show ?thesis using True by (simp only: xor_rel_def simp_thms)
  qed (simp add: xor_rel_def)
  finally show ?thesis .
qed

lemma list_all_concat_upt: "list_all P (concat (map f [m..<n])) \<longleftrightarrow> (\<forall>i. m \<le> i \<longrightarrow> i < n \<longrightarrow> list_all P (f i))"
  by (auto simp: list_all_iff)

lemma list_all_upt: "list_all P (map f [0..<n]) \<longleftrightarrow> (\<forall>i < n. P (f i))"
  by (auto simp: list_all_iff)

lemma all_upt_0: "(\<forall>i. 0 \<le> i \<longrightarrow> i < n \<longrightarrow> Q i) \<longleftrightarrow> (\<forall>i < (n :: nat). Q i)"
  by simp

section \<open>The key schedule\<close>

lemma key_sites:
  assumes s: "aes_shape t" and r: "bad_ranges t = []"
  shows "list_all (lookup_ok t SBOX) key_sbox_sites \<and> list_all (xor_ok t) key_xor_sites \<and> (\<forall>i < 10. site_val t (''ks_rcon_b'', [i]) = Some (RCON ! i)) \<longleftrightarrow>
    (\<forall>i. 1 \<le> i \<longrightarrow> i < 11 \<longrightarrow> key_eqs t i)"
proof -
  note k = shape_key [OF s] and b = sat_bytes_key [OF s r]
  have sb: "lookup_ok t SBOX ((''rk'', [i - 1, 12 + (j + 1) mod 4]), (''ks_sub'', [i - 1, j])) \<longleftrightarrow>
      ks_sub t ! (i - 1) ! j = SBOX ! nat (rk t ! (i - 1) ! (12 + (j + 1) mod 4))" if "1 \<le> i" "i < 11" "j < 4" for i j
  proof (rule lookup_ok_byte)
    have m: "12 + (j + 1) mod 4 < 16" using mod_less_divisor [of 4 "j + 1"] by linarith
    have i: "i - 1 < 11" "i - 1 < 10" using that by simp_all
    show "site_val t (''rk'', [i - 1, 12 + (j + 1) mod 4]) = Some (rk t ! (i - 1) ! (12 + (j + 1) mod 4))" using k i m by (intro site_val_class) simp_all
    show "site_val t (''ks_sub'', [i - 1, j]) = Some (ks_sub t ! (i - 1) ! j)" using k i that by (intro site_val_class) simp_all
    show "is_byte (rk t ! (i - 1) ! (12 + (j + 1) mod 4))" using b i m by blast
  qed
  have z: "xor_ok t \<lparr>xs_a = (''ks_sub'', [i - 1, 0]), xs_b = (''ks_rcon_b'', [i - 1]), xs_k = (''ks_rcon_k'', [i - 1]), xs_z = (''ks_rcon_z'', [i - 1])\<rparr> \<longleftrightarrow>
      xor_rel (ks_sub t ! (i - 1) ! 0) (ks_rcon_b t ! (i - 1)) (ks_rcon_k t ! (i - 1)) (ks_rcon_z t ! (i - 1))" if "1 \<le> i" "i < 11" for i
  proof -
    have i: "i - 1 < 10" using that by simp
    then show ?thesis using k b by (intro xor_ok_byte) (simp_all add: site_val_class)
  qed
  have w: "xor_ok t \<lparr>xs_a = (''rk'', [i - 1, 4 * w + r]),
        xs_b = (if w = 0 then (if r = 0 then (''ks_rcon_z'', [i - 1]) else (''ks_sub'', [i - 1, r])) else (''rk'', [i, 4 * (w - 1) + r])),
        xs_k = (''ks_xor_k'', [i - 1, 4 * w + r]), xs_z = (''rk'', [i, 4 * w + r])\<rparr> \<longleftrightarrow>
      xor_rel (rk t ! (i - 1) ! (4 * w + r)) (key_src t i w r) (ks_xor_k t ! (i - 1) ! (4 * w + r)) (rk t ! i ! (4 * w + r))"
    if "1 \<le> i" "i < 11" "w < 4" "r < 4" for i w r
  proof -
    have i: "i - 1 < 10" "i - 1 < 11" "4 * w + r < 16" "4 * (w - 1) + r < 16" using that by simp_all
    then show ?thesis using k b that by (intro xor_ok_byte) (simp_all add: site_val_class key_src_def)
  qed
  have rc: "(\<forall>i < 10. site_val t (''ks_rcon_b'', [i]) = Some (RCON ! i)) \<longleftrightarrow> (\<forall>i. 1 \<le> i \<longrightarrow> i < 11 \<longrightarrow> ks_rcon_b t ! (i - 1) = RCON ! (i - 1))"
  proof -
    have "(\<forall>i < 10. site_val t (''ks_rcon_b'', [i]) = Some (RCON ! i)) \<longleftrightarrow> (\<forall>i < 10. ks_rcon_b t ! i = RCON ! i)"
      using k by (simp add: site_val_class)
    also have "\<dots> \<longleftrightarrow> (\<forall>i. 1 \<le> i \<longrightarrow> i < 11 \<longrightarrow> ks_rcon_b t ! (i - 1) = RCON ! (i - 1))"
    proof (intro iffI allI impI)
      fix i :: nat assume "\<forall>i. 1 \<le> i \<longrightarrow> i < 11 \<longrightarrow> ks_rcon_b t ! (i - 1) = RCON ! (i - 1)" "i < 10"
      from this(1) [rule_format, of "Suc i"] this(2) show "ks_rcon_b t ! i = RCON ! i" by simp
    qed simp
    finally show ?thesis .
  qed
  show ?thesis unfolding key_sbox_sites_def key_xor_sites_def list_all_concat_upt list_all_upt list.pred_inject all_upt_0 rc key_eqs_def
    using sb z w by (simp only: simp_thms cong: imp_cong) blast
qed

section \<open>One block\<close>

definition block_sites_ok :: "aes_trace \<Rightarrow> nat \<Rightarrow> bool" where
  "block_sites_ok t b \<longleftrightarrow>
     (\<forall>rnd. 1 \<le> rnd \<longrightarrow> rnd < 11 \<longrightarrow> (\<forall>i < 16. lookup_ok t SBOX ((''s_ark'', [b, rnd - 1, i]), (''s_sub'', [b, rnd - 1, i])))) \<and>
     (\<forall>rnd. 1 \<le> rnd \<longrightarrow> rnd < 10 \<longrightarrow> (\<forall>i < 16. lookup_ok t XTIME ((''s_sub'', [b, rnd - 1, SHIFT_SRC ! i]), (''mc_xt'', [b, rnd - 1, i])))) \<and>
     list_all (xor_ok t) (block_xor_sites t b) \<and>
     (\<forall>i < 4. site_val t (''ctr_bytes'', [b, i]) = Some (uint (ctr_suffix b ! i)))"

lemma SHIFT_SRC_less: "i < 16 \<Longrightarrow> SHIFT_SRC ! i < 16"
  using mod_less_divisor [of 4 "i div 4 + i mod 4"] by (simp add: SHIFT_SRC_def del: upt_rec_numeral)

lemma shifted_of_at: "i < 16 \<Longrightarrow> shifted_of x ! i = x ! (SHIFT_SRC ! i)"
  by (simp add: shifted_of_def del: upt_rec_numeral)

lemma mc_site_ok:
  assumes s: "aes_shape t" and r: "bad_ranges t = []" and b: "b < nblocks t" and n: "0 < rnd" "rnd < 10" and c: "c < 4" "row < 4"
  shows "(\<forall>step < 4. xor_ok t (mc_site b rnd c row step)) \<longleftrightarrow> mc_eqs t b rnd c row"
proof -
  let ?i = "4 * c + row"
  note byt = sat_bytes_block [OF s r b] and k = shape_block [OF s b]
  have n': "rnd - 1 < 9" "rnd - 1 < 10" using n by simp_all
  have idx: "?i < 16" "4 * c + (row + 1) mod 4 < 16" "4 * c + (row + 2) mod 4 < 16" "4 * c + (row + 3) mod 4 < 16"
    using mc_index [OF c] by blast+
  note sh = SHIFT_SRC_less [OF idx(2)] SHIFT_SRC_less [OF idx(3)] SHIFT_SRC_less [OF idx(4)]
  let ?x = "mc_xt t ! b ! (rnd - 1)" and ?h = "shifted_of (s_sub t ! b ! (rnd - 1))" and ?m = "mc_mid t ! b ! (rnd - 1) ! ?i" and ?o = "mc_out t ! b ! (rnd - 1) ! ?i"
    and ?k = "mc_k t ! b ! (rnd - 1) ! ?i"
  have vx: "site_val t (''mc_xt'', [b, rnd - 1, j]) = Some (?x ! j)" "is_byte (?x ! j)" if "j < 16" for j
    using k n' that byt by (simp_all add: site_val_class)
  have vh: "site_val t (''s_sub'', [b, rnd - 1, SHIFT_SRC ! j]) = Some (?h ! j)" "is_byte (?h ! j)" if "j < 16" for j
  proof -
    show "site_val t (''s_sub'', [b, rnd - 1, SHIFT_SRC ! j]) = Some (?h ! j)" using k n' SHIFT_SRC_less [OF that] that by (simp add: site_val_class shifted_of_at)
    show "is_byte (?h ! j)" using byt n' that by (intro shifted_byte) simp_all
  qed
  have vm: "site_val t (''mc_mid'', [b, rnd - 1, ?i, j]) = Some (?m ! j)" "is_byte (?m ! j)" if "j < 3" for j
    using k n' idx(1) that byt by (simp_all add: site_val_class)
  have vo: "site_val t (''mc_out'', [b, rnd - 1, ?i]) = Some ?o" using k n' idx(1) by (simp add: site_val_class)
  have vk: "site_val t (''mc_k'', [b, rnd - 1, ?i, j]) = Some (?k ! j)" if "j < 4" for j using k n' idx(1) that by (simp add: site_val_class)
  let ?t1 = "4 * c + (row + 1) mod 4" and ?t2 = "4 * c + (row + 2) mod 4" and ?t3 = "4 * c + (row + 3) mod 4"
  have n1: "(1 :: nat) < 4" "(2 :: nat) < 4" "(3 :: nat) < 4" "(0 :: nat) < 4" "(0 :: nat) < 3" "(1 :: nat) < 3" "(2 :: nat) < 3" by simp_all
  have ar: "(1 :: nat) \<noteq> 0" "(2 :: nat) \<noteq> 0" "(3 :: nat) \<noteq> 0" "(0 :: nat) + 1 = 1" "(1 :: nat) + 1 = 2" "(2 :: nat) + 1 = 3" "(3 :: nat) + 1 = 4"
    "(1 :: nat) - 1 = 0" "(2 :: nat) - 1 = 1" "(3 :: nat) - 1 = 2" by simp_all
  have n4: "[p, q, u, v] ! 0 = p" "[p, q, u, v] ! 1 = q" "[p, q, u, v] ! 2 = u" "[p, q, u, v] ! 3 = v" for p q u v :: ref by simp_all
  have lt: "((3 :: nat) < 3) = False" "((0 :: nat) < 3) = True" "((1 :: nat) < 3) = True" "((2 :: nat) < 3) = True" by simp_all
  have st: "mc_site b rnd c row 0 = \<lparr>xs_a = (''mc_xt'', [b, rnd - 1, ?i]), xs_b = (''mc_xt'', [b, rnd - 1, ?t1]), xs_k = (''mc_k'', [b, rnd - 1, ?i, 0]), xs_z = (''mc_mid'', [b, rnd - 1, ?i, 0])\<rparr>"
    "mc_site b rnd c row 1 = \<lparr>xs_a = (''mc_mid'', [b, rnd - 1, ?i, 0]), xs_b = (''s_sub'', [b, rnd - 1, SHIFT_SRC ! ?t1]), xs_k = (''mc_k'', [b, rnd - 1, ?i, 1]), xs_z = (''mc_mid'', [b, rnd - 1, ?i, 1])\<rparr>"
    "mc_site b rnd c row 2 = \<lparr>xs_a = (''mc_mid'', [b, rnd - 1, ?i, 1]), xs_b = (''s_sub'', [b, rnd - 1, SHIFT_SRC ! ?t2]), xs_k = (''mc_k'', [b, rnd - 1, ?i, 2]), xs_z = (''mc_mid'', [b, rnd - 1, ?i, 2])\<rparr>"
    "mc_site b rnd c row 3 = \<lparr>xs_a = (''mc_mid'', [b, rnd - 1, ?i, 2]), xs_b = (''s_sub'', [b, rnd - 1, SHIFT_SRC ! ?t3]), xs_k = (''mc_k'', [b, rnd - 1, ?i, 3]), xs_z = (''mc_out'', [b, rnd - 1, ?i])\<rparr>"
    unfolding mc_site_def Let_def by (simp_all only: ar n4 lt if_True if_False simp_thms)
  have o0: "xor_ok t (mc_site b rnd c row 0) \<longleftrightarrow> xor_rel (?x ! ?i) (?x ! ?t1) (?k ! 0) (?m ! 0)"
    unfolding st by (rule xor_ok_byte) (simp_all only: xor_site.simps vx [OF idx(1)] vx [OF idx(2)] vk n1 vm)
  have o1: "xor_ok t (mc_site b rnd c row 1) \<longleftrightarrow> xor_rel (?m ! 0) (?h ! ?t1) (?k ! 1) (?m ! 1)"
    unfolding st by (rule xor_ok_byte) (simp_all only: xor_site.simps vh [OF idx(2)] vk n1 vm)
  have o2: "xor_ok t (mc_site b rnd c row 2) \<longleftrightarrow> xor_rel (?m ! 1) (?h ! ?t2) (?k ! 2) (?m ! 2)"
    unfolding st by (rule xor_ok_byte) (simp_all only: xor_site.simps vh [OF idx(3)] vk n1 vm)
  have o3: "xor_ok t (mc_site b rnd c row 3) \<longleftrightarrow> xor_rel (?m ! 2) (?h ! ?t3) (?k ! 3) ?o"
    unfolding st by (rule xor_ok_byte) (simp_all only: xor_site.simps vh [OF idx(4)] vk n1 vm vo)
  have ch: "mc_chain t b rnd ?i 0 = ?m ! 0" "mc_chain t b rnd ?i 1 = ?m ! 1" "mc_chain t b rnd ?i 2 = ?m ! 2" "mc_chain t b rnd ?i 3 = ?o" by (simp_all add: mc_chain_def)
  show ?thesis unfolding mc_eqs_def Let_def less_4 o0 o1 o2 o3 by (simp only: ar if_False if_True refl simp_thms ch mc_terms_nth)
qed

lemma ark_site_ok:
  assumes s: "aes_shape t" and r: "bad_ranges t = []" and b: "b < nblocks t" and n: "rnd < 11" "i < 16"
  shows "xor_ok t (ark_site b rnd i) \<longleftrightarrow> xor_rel (ark_input t b rnd ! i) (rk t ! rnd ! i) (ark_k t ! b ! rnd ! i) (s_ark t ! b ! rnd ! i)"
proof (rule xor_ok_byte)
  note byt = sat_bytes_block [OF s r b] and k = shape_block [OF s b] and kk = shape_key [OF s]
  show "is_byte (ark_input t b rnd ! i)" by (rule ark_input_byte [OF s r b n])
  show "is_byte (rk t ! rnd ! i)" using sat_bytes_key [OF s r] n by blast
  show "site_val t (xs_b (ark_site b rnd i)) = Some (rk t ! rnd ! i)" using kk n by (simp add: ark_site_def site_val_class)
  show "site_val t (xs_k (ark_site b rnd i)) = Some (ark_k t ! b ! rnd ! i)" using k n by (simp add: ark_site_def site_val_class)
  show "site_val t (xs_z (ark_site b rnd i)) = Some (s_ark t ! b ! rnd ! i)" using k n by (simp add: ark_site_def site_val_class)
  consider "rnd = 0" "i < 12" | "rnd = 0" "12 \<le> i" | "0 < rnd" "rnd < 10" | "rnd = 10" using n by linarith
  then show "site_val t (xs_a (ark_site b rnd i)) = Some (ark_input t b rnd ! i)"
  proof cases
    case 1
    then show ?thesis using kk by (simp add: ark_site_def ark_input_def site_val_class nth_append)
  next
    case 2
    then show ?thesis using k kk n by (simp add: ark_site_def ark_input_def site_val_class nth_append)
  next
    case 3
    then have "rnd - 1 < 9" by simp
    then show ?thesis using 3 k n by (simp add: ark_site_def ark_input_def site_val_class)
  next
    case 4
    then show ?thesis using k n SHIFT_SRC_less [OF n(2)] by (simp add: ark_site_def ark_input_def site_val_class shifted_of_at)
  qed
qed

lemma block_xor_sites_ok:
  assumes s: "aes_shape t" and r: "bad_ranges t = []" and b: "b < nblocks t"
  shows "list_all (xor_ok t) (block_xor_sites t b) \<longleftrightarrow>
    (\<forall>rnd < 11. (\<forall>i < 16. xor_rel (ark_input t b rnd ! i) (rk t ! rnd ! i) (ark_k t ! b ! rnd ! i) (s_ark t ! b ! rnd ! i)) \<and>
       (0 < rnd \<and> rnd < 10 \<longrightarrow> (\<forall>c < 4. \<forall>row < 4. mc_eqs t b rnd c row))) \<and>
    (\<forall>i < length (pt_bytes t ! b). xor_rel (s_ark t ! b ! 10 ! i) (pt_bytes t ! b ! i) (ct_k t ! b ! i) (ct_bytes t ! b ! i))"
proof -
  note byt = sat_bytes_block [OF s r b] and k = shape_block [OF s b] and ch = shape_chunks [OF s b]
  have mc: "list_all (xor_ok t) (if 0 < rnd \<and> rnd < 10 then concat (map (\<lambda>c. concat (map (\<lambda>row. map (mc_site b rnd c row) [0..<4]) [0..<4])) [0..<4]) else []) \<longleftrightarrow>
      (0 < rnd \<and> rnd < 10 \<longrightarrow> (\<forall>c < 4. \<forall>row < 4. mc_eqs t b rnd c row))" for rnd
  proof (cases "0 < rnd \<and> rnd < 10")
    case True
    then show ?thesis unfolding if_P [OF True] list_all_concat_upt list_all_upt all_upt_0
      using mc_site_ok [OF s r b conjunct1 [OF True] conjunct2 [OF True]] True by (simp only: simp_thms cong: imp_cong)
  next
    case False
    then have "(0 < rnd \<and> rnd < 10) = False" by simp
    then show ?thesis by (simp only: if_False list.pred_inject simp_thms)
  qed
  have ct: "xor_ok t \<lparr>xs_a = (''s_ark'', [b, 10, i]), xs_b = (''pt_bytes'', [b, i]), xs_k = (''ct_k'', [b, i]), xs_z = (''ct_bytes'', [b, i])\<rparr> \<longleftrightarrow>
      xor_rel (s_ark t ! b ! 10 ! i) (pt_bytes t ! b ! i) (ct_k t ! b ! i) (ct_bytes t ! b ! i)" if "i < length (pt_bytes t ! b)" for i
  proof -
    have "i < 16" using ch that by simp
    then show ?thesis using k ch byt that by (intro xor_ok_byte) (simp_all add: site_val_class)
  qed
  show ?thesis unfolding block_xor_sites_def list_all_append list_all_concat_upt list_all_upt all_upt_0 mc
    using ct ark_site_ok [OF s r b] by (simp only: simp_thms cong: imp_cong)
qed

lemma regroup_rounds:
  "(\<forall>rnd < 11. (1 \<le> rnd \<longrightarrow> A rnd) \<and> (1 \<le> rnd \<and> rnd < 10 \<longrightarrow> B rnd \<and> M rnd) \<and> C rnd) \<longleftrightarrow>
     (\<forall>rnd. 1 \<le> rnd \<longrightarrow> rnd < 11 \<longrightarrow> A rnd) \<and> (\<forall>rnd. 1 \<le> rnd \<longrightarrow> rnd < 10 \<longrightarrow> B rnd) \<and>
     (\<forall>rnd < 11. C rnd \<and> (1 \<le> rnd \<and> rnd < 10 \<longrightarrow> M (rnd :: nat)))"
  by auto

lemma block_sites_eq:
  assumes s: "aes_shape t" and r: "bad_ranges t = []" and b: "b < nblocks t" and c: "CTR_START + b < 2 ^ 32"
  shows "block_sites_ok t b \<longleftrightarrow> block_eqs t b"
proof -
  note byt = sat_bytes_block [OF s r b] and k = shape_block [OF s b]
  have sb: "lookup_ok t SBOX ((''s_ark'', [b, rnd - 1, i]), (''s_sub'', [b, rnd - 1, i])) \<longleftrightarrow>
      s_sub t ! b ! (rnd - 1) ! i = SBOX ! nat (s_ark t ! b ! (rnd - 1) ! i)" if "1 \<le> rnd" "rnd < 11" "i < 16" for rnd i
  proof -
    have "rnd - 1 < 11" "rnd - 1 < 10" using that by simp_all
    then show ?thesis using k byt that by (intro lookup_ok_byte) (simp_all add: site_val_class)
  qed
  have xt: "lookup_ok t XTIME ((''s_sub'', [b, rnd - 1, SHIFT_SRC ! i]), (''mc_xt'', [b, rnd - 1, i])) \<longleftrightarrow>
      mc_xt t ! b ! (rnd - 1) ! i = XTIME ! nat (shifted_of (s_sub t ! b ! (rnd - 1)) ! i)" if "1 \<le> rnd" "rnd < 10" "i < 16" for rnd i
  proof -
    have "rnd - 1 < 9" "rnd - 1 < 10" using that by simp_all
    then show ?thesis using k byt that SHIFT_SRC_less [OF that(3)] by (intro lookup_ok_byte) (simp_all add: site_val_class shifted_of_at)
  qed
  have ctr: "(\<forall>i < 4. site_val t (''ctr_bytes'', [b, i]) = Some (uint (ctr_suffix b ! i))) \<longleftrightarrow> (\<forall>i < 4. ctr_bytes t ! b ! i = uint (ctr_suffix b ! i))"
    using k by (simp add: site_val_class)
  have one: "0 < rnd \<longleftrightarrow> 1 \<le> rnd" for rnd :: nat by linarith
  have "block_sites_ok t b \<longleftrightarrow>
      (\<forall>rnd. 1 \<le> rnd \<longrightarrow> rnd < 11 \<longrightarrow> (\<forall>i < 16. s_sub t ! b ! (rnd - 1) ! i = SBOX ! nat (s_ark t ! b ! (rnd - 1) ! i))) \<and>
      (\<forall>rnd. 1 \<le> rnd \<longrightarrow> rnd < 10 \<longrightarrow> (\<forall>i < 16. mc_xt t ! b ! (rnd - 1) ! i = XTIME ! nat (shifted_of (s_sub t ! b ! (rnd - 1)) ! i))) \<and>
      list_all (xor_ok t) (block_xor_sites t b) \<and> (\<forall>i < 4. ctr_bytes t ! b ! i = uint (ctr_suffix b ! i))"
    unfolding block_sites_ok_def ctr using sb xt by (simp only: cong: imp_cong)
  then show ?thesis unfolding block_xor_sites_ok [OF s r b] block_eqs_def round_eqs_def one regroup_rounds
    using c by (simp only: conj_assoc simp_thms) (rule iffI; elim conjE; intro conjI; assumption)
qed

section \<open>The two descriptions agree\<close>

lemma public_sites_ok:
  assumes "public_sites n = Inr ps"
  shows "list_all (\<lambda>(r, v). site_val t r = Some v) ps \<longleftrightarrow>
    (\<forall>b < n. \<forall>i < 4. site_val t (''ctr_bytes'', [b, i]) = Some (uint (ctr_suffix b ! i))) \<and> (\<forall>i < 10. site_val t (''ks_rcon_b'', [i]) = Some (RCON ! i))"
    and "b < n \<Longrightarrow> CTR_START + b < 2 ^ 32"
proof -
  let ?f = "\<lambda>b. rbind (to_be 4 (int (CTR_START + b))) (\<lambda>ctr4. Inr (map (\<lambda>i. ((''ctr_bytes'', [b, i]), uint (ctr4 ! i))) [0..<4]))"
  obtain cs where cs: "rmap ?f [0..<n] = Inr cs" "ps = concat cs @ map (\<lambda>i. ((''ks_rcon_b'', [i]), RCON ! i)) [0..<10]"
    using assms unfolding public_sites_def by (auto simp only: rbind_Inr_iff sum.inject)
  have lt: "CTR_START + b < 2 ^ 32" if b: "b < n" for b
  proof -
    have "b \<in> set [0..<n]" using b by simp
    from rmap_Inr_all [OF cs(1) this] obtain y where "?f b = Inr y" by blast
    then show ?thesis unfolding to_be_suffix by (cases "CTR_START + b < 2 ^ 32") (simp_all only: if_False rbind_simps sum.distinct)
  qed
  then show "b < n \<Longrightarrow> CTR_START + b < 2 ^ 32" .
  have "rmap ?f [0..<n] = Inr (map (\<lambda>b. map (\<lambda>i. ((''ctr_bytes'', [b, i]), uint (ctr_suffix b ! i))) [0..<4]) [0..<n])"
  proof (rule rmap_Inr_map)
    fix b assume "b \<in> set [0..<n]"
    then have "CTR_START + b < 2 ^ 32" using lt by simp
    then show "?f b = Inr (map (\<lambda>i. ((''ctr_bytes'', [b, i]), uint (ctr_suffix b ! i))) [0..<4])" unfolding to_be_suffix by (simp only: if_True rbind_simps)
  qed
  then have c: "cs = map (\<lambda>b. map (\<lambda>i. ((''ctr_bytes'', [b, i]), uint (ctr_suffix b ! i))) [0..<4]) [0..<n]" using cs(1) by (simp only: sum.inject)
  show "list_all (\<lambda>(r, v). site_val t r = Some v) ps \<longleftrightarrow>
    (\<forall>b < n. \<forall>i < 4. site_val t (''ctr_bytes'', [b, i]) = Some (uint (ctr_suffix b ! i))) \<and> (\<forall>i < 10. site_val t (''ks_rcon_b'', [i]) = Some (RCON ! i))"
    unfolding cs(2) c list_all_append list_all_concat_upt list_all_upt all_upt_0 by (simp only: prod.case)
qed

lemma sites_agree:
  assumes s: "aes_shape t" and S: "sites t = Inr S"
  shows "bad_ranges t = [] \<and> sites_hold t S \<longleftrightarrow> aes_check t = Inr []"
proof (cases "bad_ranges t = []")
  case r: True
  obtain ps where ps: "public_sites (nblocks t) = Inr ps" using S by (auto simp: sites_def rbind_Inr_iff split: if_splits)
  note p = public_sites_ok [OF ps]
  have ok: "\<not> length (pt_bytes t) < nblocks t" using s by (simp add: aes_shape_def Let_def chunks_ok_def)
  have f: "st_sbox S = key_sbox_sites @ concat (map (\<lambda>b. concat (map (\<lambda>rnd. map (\<lambda>i. ((''s_ark'', [b, rnd - 1, i]), (''s_sub'', [b, rnd - 1, i]))) [0..<16])
      [1..<11])) [0..<nblocks t])"
    "st_xtime S = concat (map (\<lambda>b. concat (map (\<lambda>rnd. map (\<lambda>i. ((''s_sub'', [b, rnd - 1, SHIFT_SRC ! i]), (''mc_xt'', [b, rnd - 1, i]))) [0..<16])
      [1..<10])) [0..<nblocks t])"
    "st_xor S = key_xor_sites @ concat (map (block_xor_sites t) [0..<nblocks t])" "st_public S = ps"
    using S ok by (auto simp: sites_def ps simp del: upt_rec_numeral)
  have hold: "sites_hold t S \<longleftrightarrow> (list_all (lookup_ok t SBOX) key_sbox_sites \<and> list_all (xor_ok t) key_xor_sites \<and>
        (\<forall>i < 10. site_val t (''ks_rcon_b'', [i]) = Some (RCON ! i))) \<and> (\<forall>b < nblocks t. block_sites_ok t b)"
    unfolding sites_hold_def f list_all_append list_all_concat_upt list_all_upt all_upt_0 p(1) block_sites_ok_def by blast
  have "(\<forall>b < nblocks t. block_sites_ok t b) \<longleftrightarrow> (\<forall>b < nblocks t. block_eqs t b)"
    using block_sites_eq [OF s r] p(2) by (simp only: cong: imp_cong)
  then show ?thesis unfolding aes_check_Nil [OF s] hold key_sites [OF s r] using r by blast
next
  case False
  then show ?thesis unfolding aes_check_Nil [OF s] by blast
qed

text \<open>
  Property C35 (\<open>aes_sites_complete\<close>): the circuit's enumeration of constraint sites and the
  checker describe the same layout. On a trace of the committed shape whose counters fit in 32
  bits, every enumerated site holds and every pooled value is a byte exactly when the checker
  finds nothing.
\<close>

theorem aes_sites_complete:
  assumes "aes_shape t" "sites t = Inr S"
  shows "bad_ranges t = [] \<and> sites_hold t S \<longleftrightarrow> aes_check t = Inr []"
  by (rule sites_agree [OF assms])

theorem aes_sites_complete_witness:
  "\<exists>t S. aes_trace_of (replicate 16 7) (replicate 12 1) [0x68, 0x69] = Inr t \<and> sites t = Inr S \<and> sites_hold t S"
proof -
  let ?r = "aes_trace_of (replicate 16 7) (replicate 12 1) [0x68, 0x69]"
  have "\<nexists>e. ?r = Inl e" unfolding aes_trace_errors by (simp add: CTR_START_def n_blocks_def AES_BLOCK_def)
  then obtain t where t: "?r = Inr t" by (cases ?r) auto
  have n: "nblocks t = 1" "length (pt_bytes t) = 1" using honest_fields [OF t] by (simp_all add: n_blocks_def AES_BLOCK_def)
  have "public_sites 1 = Inr (map (\<lambda>i. ((''ctr_bytes'', [0, i]), uint (ctr_suffix 0 ! i))) [0..<4] @ map (\<lambda>i. ((''ks_rcon_b'', [i]), RCON ! i)) [0..<10])"
    unfolding public_sites_def using to_be_suffix [of 0] by (simp add: CTR_START_def del: upt_rec_numeral)
  then obtain S where S: "sites t = Inr S" using n by (simp add: sites_def)
  from aes_sites_complete [OF honest_shape [OF t] S] show ?thesis using t S honest_accepted [OF t] by blast
qed

end
