(* ===== verification/Semantics.thy ===== *)
theory Semantics
  imports Relations
begin

text \<open>
  The integer semantics of a transformer layer in \<^verbatim>\<open>layergkr/semantics.py\<close>: the unary tables, the
  trace builder whose operations emit a gate and lookups with every value they compute, the layer
  \<open>forward\<close> on given weights, and \<open>check_trace\<close>. The device-tensor path of the file is not
  modelled; lists stand for Python lists and \<open>float\<close> square roots are integer square roots.
\<close>

unbundle bit_operations_syntax

section \<open>Tables\<close>

record table =
  tab_id :: int
  tab_name :: string
  tab_rows :: "(int \<times> int) list"

definition tab_size :: "table \<Rightarrow> nat" where
  "tab_size t = length (tab_rows t)"

definition tab_lookup :: "table \<Rightarrow> int \<Rightarrow> int result" where
  "tab_lookup t x = rbind (py_index (tab_rows t) x) (\<lambda>row. Inr (snd row))"

definition int_sqrt :: "nat \<Rightarrow> nat" where
  "int_sqrt x = length (takeWhile (\<lambda>m. m * m \<le> x) [1..<Suc x])"

definition table_rows :: "nat \<Rightarrow> (int \<Rightarrow> int) \<Rightarrow> (int \<times> int) list" where
  "table_rows n f = map (\<lambda>x. (int x, f (int x))) [0..<n]"

type_synonym tables = "(string \<times> table) list"

definition build_tables :: "nat \<Rightarrow> int \<Rightarrow> tables result" where
  "build_tables bits scale =
     (if scale = 0 then Inl ZeroDivisionError
      else let n = 2 ^ bits in Inr
        [(''exp'', \<lparr>tab_id = 1, tab_name = ''exp'', tab_rows = table_rows n (\<lambda>x. (x * x + 1) mod scale)\<rparr>),
         (''silu'', \<lparr>tab_id = 2, tab_name = ''silu'', tab_rows = table_rows n (\<lambda>x. (x * (x + 1) div 2) mod scale)\<rparr>),
         (''isqrt'', \<lparr>tab_id = 3, tab_name = ''isqrt'', tab_rows = table_rows n (\<lambda>x. (scale div (1 + int (int_sqrt (nat x)))) mod scale)\<rparr>),
         (''recip'', \<lparr>tab_id = 4, tab_name = ''recip'', tab_rows = table_rows n (\<lambda>x. (scale div (x + 1)) mod scale)\<rparr>),
         (''range'', \<lparr>tab_id = 5, tab_name = ''range'', tab_rows = table_rows n (\<lambda>x. 0)\<rparr>)])"

section \<open>The quotient bound\<close>

definition LIFT_BITS :: int where "LIFT_BITS = 63"

definition quotient_words :: "nat \<Rightarrow> nat \<Rightarrow> nat result" where
  "quotient_words divisor_bits word_bits =
     (if word_bits = 0 then Inl ZeroDivisionError
      else let k = (LIFT_BITS - int divisor_bits) div int word_bits
           in if k < 1 then Inl ValueError else Inr (nat k))"

section \<open>Configuration and trace\<close>

record toy_config =
  c_S :: nat
  c_d :: nat
  c_dff :: nat
  c_E :: nat
  c_table_bits :: nat
  c_scale_bits :: nat

definition c_scale :: "toy_config \<Rightarrow> int" where "c_scale c = 2 ^ c_scale_bits c"
definition c_table_size :: "toy_config \<Rightarrow> int" where "c_table_size c = 2 ^ c_table_bits c"

type_synonym matrix = "int list list"

record matmul_node =
  mm_name :: string
  mm_X :: matrix
  mm_W :: matrix
  mm_Y :: matrix

record moe_node =
  me_name :: string
  me_route :: "int list"
  me_X :: matrix
  me_W :: "matrix list"
  me_Y :: matrix

record lookup_use =
  us_table :: table
  us_queries :: "(int \<times> int) list"

record layer_trace =
  lt_cfg :: toy_config
  lt_x_in :: matrix
  lt_y_out :: matrix
  lt_matmuls :: "matmul_node list"
  lt_moe :: "moe_node list"
  lt_gates :: "gate list"
  lt_lookups :: "lookup_use list"
  lt_route :: "int list"
  lt_expert_weights :: "matrix list"
  lt_peak_value :: int
  lt_peak_bound :: int

text \<open>\<open>xs[i]\<close> for a counter \<open>i\<close>, and \<open>A[t][j]\<close>.\<close>

definition at :: "'a list \<Rightarrow> nat \<Rightarrow> 'a result" where
  "at xs i = (if i < length xs then Inr (xs ! i) else Inl IndexError)"

definition at2 :: "'a list list \<Rightarrow> nat \<Rightarrow> nat \<Rightarrow> 'a result" where
  "at2 A t j = rbind (at A t) (\<lambda>row. at row j)"

record trace_counts =
  n_matmuls :: nat
  n_moe_nodes :: nat
  n_moe_cells :: nat
  n_moe_route :: nat
  n_matmul_cells :: nat
  n_gates :: nat
  n_gate_slots :: nat
  n_lookup_uses :: nat
  n_lookup_queries :: nat
  n_table_rows :: nat

definition moe_cells :: "moe_node \<Rightarrow> nat result" where
  "moe_cells m = rbind (at (me_W m) 0) (\<lambda>w. rbind (at w 0) (\<lambda>row. Inr (length (me_W m) * length w * length row)))"

definition matmul_cells :: "matmul_node \<Rightarrow> nat result" where
  "matmul_cells m = rbind (at (mm_W m) 0) (\<lambda>row. Inr (length (mm_X m) * length (mm_W m) * length row))"

definition counts :: "layer_trace \<Rightarrow> trace_counts result" where
  "counts tr =
     rbind (rmap moe_cells (lt_moe tr)) (\<lambda>mc. rbind (rmap matmul_cells (lt_matmuls tr)) (\<lambda>cc. rbind (rmap gate_size (lt_gates tr)) (\<lambda>gs.
       Inr \<lparr>n_matmuls = length (lt_matmuls tr), n_moe_nodes = length (lt_moe tr), n_moe_cells = sum_list mc,
         n_moe_route = sum_list (map (\<lambda>m. length (me_route m)) (lt_moe tr)), n_matmul_cells = sum_list cc, n_gates = length (lt_gates tr),
         n_gate_slots = sum_list gs, n_lookup_uses = length (lt_lookups tr),
         n_lookup_queries = sum_list (map (\<lambda>l. length (us_queries l)) (lt_lookups tr)),
         n_table_rows = sum_list (map (\<lambda>l. tab_size (us_table l)) (lt_lookups tr))\<rparr>)))"

section \<open>The builder\<close>

record builder =
  bd_cfg :: toy_config
  bd_tables :: tables
  bd_gates :: "gate list"
  bd_lookups :: "(string \<times> (int \<times> int) list) list"
  bd_matmuls :: "matmul_node list"
  bd_moe :: "moe_node list"
  bd_n :: nat

definition new_builder :: "toy_config \<Rightarrow> tables \<Rightarrow> builder" where
  "new_builder cfg tabs =
     \<lparr>bd_cfg = cfg, bd_tables = tabs, bd_gates = [], bd_lookups = map (\<lambda>(k, t). (k, [])) tabs, bd_matmuls = [], bd_moe = [], bd_n = 0\<rparr>"

text \<open>A step of the computation: it may raise, and it threads the builder.\<close>

type_synonym 'a step = "builder \<Rightarrow> ('a \<times> builder) result"

definition ret :: "'a \<Rightarrow> 'a step" where
  "ret x = (\<lambda>b. Inr (x, b))"

definition sbind :: "'a step \<Rightarrow> ('a \<Rightarrow> 'b step) \<Rightarrow> 'b step" where
  "sbind m f = (\<lambda>b. rbind (m b) (\<lambda>(x, b'). f x b'))"

definition lift :: "'a result \<Rightarrow> 'a step" where
  "lift r = (\<lambda>b. rbind r (\<lambda>x. Inr (x, b)))"

fun smap :: "('a \<Rightarrow> 'b step) \<Rightarrow> 'a list \<Rightarrow> 'b list step" where
  "smap f [] = ret []"
| "smap f (x # xs) = sbind (f x) (\<lambda>y. sbind (smap f xs) (\<lambda>ys. ret (y # ys)))"

definition b_id :: "string \<Rightarrow> string step" where
  "b_id kind = (\<lambda>b. let n = Suc (bd_n b) in Inr (kind @ ''#'' @ dec_str n, b\<lparr>bd_n := n\<rparr>))"

definition emit :: "gate \<Rightarrow> unit step" where
  "emit g = (\<lambda>b. Inr ((), b\<lparr>bd_gates := bd_gates b @ [g]\<rparr>))"

definition log_queries :: "string \<Rightarrow> (int \<times> int) list \<Rightarrow> unit step" where
  "log_queries name qs = (\<lambda>b.
     if map_of (bd_lookups b) name = None then Inl KeyError
     else Inr ((), b\<lparr>bd_lookups := map (\<lambda>(k, v). (k, if k = name then v @ qs else v)) (bd_lookups b)\<rparr>))"

definition b_table :: "string \<Rightarrow> table step" where
  "b_table name = (\<lambda>b. case map_of (bd_tables b) name of None \<Rightarrow> Inl KeyError | Some t \<Rightarrow> Inr (t, b))"

definition b_range_check :: "int list \<Rightarrow> int \<Rightarrow> unit step" where
  "b_range_check vals bound =
     sbind (b_table ''range'') (\<lambda>t.
       if int (tab_size t) < bound then lift (Inl ValueError) else log_queries ''range'' (map (\<lambda>v. (v, 0)) vals))"

definition word_of :: "nat \<Rightarrow> nat \<Rightarrow> int \<Rightarrow> int" where
  "word_of wb j q = drop_bit (wb * j) q AND (push_bit wb 1 - 1)"

definition min_default :: "int list \<Rightarrow> int" where
  "min_default xs = (if xs = [] then 0 else Min (set xs))"

definition max_default :: "int list \<Rightarrow> int" where
  "max_default xs = (if xs = [] then 0 else Max (set xs))"

definition b_bound_quotient :: "int list \<Rightarrow> nat \<Rightarrow> unit step" where
  "b_bound_quotient qs divisor_bits = (\<lambda>b.
     let wb = c_table_bits (bd_cfg b)
     in rbind (quotient_words divisor_bits wb) (\<lambda>k.
          if min_default qs < 0 \<or> push_bit (wb * k) 1 \<le> max_default qs then Inl RuntimeError
          else let words = map (\<lambda>j. map (word_of wb j) qs) [0..<k]
               in sbind (b_id ''qbound'') (\<lambda>nd.
                  sbind (emit (affine nd (map (\<lambda>j. push_bit (wb * j) 1) [0..<k]) words qs)) (\<lambda>_.
                  sbind (smap (\<lambda>w. b_range_check w (push_bit wb 1)) words) (\<lambda>_. ret ()))) b))"

definition b_divide :: "string \<Rightarrow> int \<Rightarrow> nat \<Rightarrow> int list \<Rightarrow> (int list \<times> int list) step" where
  "b_divide kind n bits raws =
     (let qs = map (\<lambda>r. r div n) raws; rs = map (\<lambda>r. r mod n) raws
      in sbind (b_id kind) (\<lambda>nd.
         sbind (emit (rescale nd raws qs rs n)) (\<lambda>_.
         sbind (b_range_check rs n) (\<lambda>_.
         sbind (b_bound_quotient qs bits) (\<lambda>_. ret (qs, rs))))))"

definition b_rescale :: "int list \<Rightarrow> int list step" where
  "b_rescale raws = (\<lambda>b. sbind (b_divide ''rescale'' (c_scale (bd_cfg b)) (c_scale_bits (bd_cfg b)) raws) (\<lambda>(qs, rs). ret qs) b)"

definition b_bracket :: "int list \<Rightarrow> int list step" where
  "b_bracket vals = (\<lambda>b. sbind (b_divide ''bracket'' (c_table_size (bd_cfg b)) (c_table_bits (bd_cfg b)) vals) (\<lambda>(his, los). ret los) b)"

definition b_lookup :: "string \<Rightarrow> int list \<Rightarrow> int list step" where
  "b_lookup name xs =
     sbind (b_table name) (\<lambda>t. sbind (lift (rmap (tab_lookup t) xs)) (\<lambda>ys. sbind (log_queries name (zip xs ys)) (\<lambda>_. ret ys)))"

definition b_mul_rescaled :: "int list \<Rightarrow> int list \<Rightarrow> string \<Rightarrow> int list step" where
  "b_mul_rescaled a b tag =
     (let raw = map2 (*) a b
      in sbind (b_id (''had_'' @ tag)) (\<lambda>nd. sbind (emit (hadamard_gate nd a b (map (\<lambda>r. r mod FIELD_P) raw))) (\<lambda>_. b_rescale raw)))"

definition b_add :: "int list \<Rightarrow> int list \<Rightarrow> string \<Rightarrow> int list step" where
  "b_add a b tag =
     (let y = map2 (+) a b
      in sbind (b_id (''add_'' @ tag)) (\<lambda>nd. sbind (emit (affine nd [1, 1] [a, b] (map (\<lambda>v. v mod FIELD_P) y))) (\<lambda>_. ret y)))"

text \<open>Contractions. \<open>rows_of n q\<close> cuts a flat list into rows of length \<open>n\<close>.\<close>

definition dot_at :: "matrix \<Rightarrow> nat \<Rightarrow> matrix \<Rightarrow> nat \<Rightarrow> nat \<Rightarrow> int result" where
  "dot_at A t B i n = rbind (rmap (\<lambda>j. rbind (at2 A t j) (\<lambda>x. rbind (at2 B i j) (\<lambda>y. Inr (x * y)))) [0..<n]) (\<lambda>ps. Inr (sum_list ps))"

definition cut_rows :: "nat \<Rightarrow> nat \<Rightarrow> int list \<Rightarrow> matrix" where
  "cut_rows n m q = map (\<lambda>i. take n (drop (i * n) q)) [0..<m]"

definition b_matmul :: "string \<Rightarrow> matrix \<Rightarrow> matrix \<Rightarrow> matrix step" where
  "b_matmul name X W =
     sbind (lift (rmap (\<lambda>t. rmap (\<lambda>i. dot_at X t W i (length (W ! 0))) [0..<length W]) [0..<length X])) (\<lambda>raws.
     sbind (\<lambda>b. Inr ((), b\<lparr>bd_matmuls := bd_matmuls b @ [\<lparr>mm_name = name, mm_X = X, mm_W = W, mm_Y = map (map (\<lambda>v. v mod FIELD_P)) raws\<rparr>]\<rparr>)) (\<lambda>_.
     sbind (b_rescale (concat raws)) (\<lambda>q. ret (cut_rows (length W) (length X) q))))"

definition moe_dot :: "matrix \<Rightarrow> nat \<Rightarrow> matrix list \<Rightarrow> int list \<Rightarrow> nat \<Rightarrow> nat \<Rightarrow> int result" where
  "moe_dot X t W3 route i n =
     rbind (rmap (\<lambda>j. rbind (at2 X t j) (\<lambda>x. rbind (at route t) (\<lambda>r. rbind (py_index W3 r) (\<lambda>w. rbind (at2 w i j) (\<lambda>y. Inr (x * y)))))) [0..<n])
       (\<lambda>ps. Inr (sum_list ps))"

definition b_moe_matmul :: "string \<Rightarrow> matrix \<Rightarrow> matrix list \<Rightarrow> int list \<Rightarrow> matrix step" where
  "b_moe_matmul name X W3 route =
     sbind (lift (at W3 0)) (\<lambda>w. sbind (lift (at w 0)) (\<lambda>row.
       let d_out = length w; d_in = length row
       in sbind (lift (rmap (\<lambda>t. rmap (\<lambda>i. moe_dot X t W3 route i d_in) [0..<d_out]) [0..<length X])) (\<lambda>raws.
          sbind (\<lambda>b. Inr ((), b\<lparr>bd_moe := bd_moe b @ [\<lparr>me_name = name, me_route = route, me_X = X, me_W = W3, me_Y = map (map (\<lambda>v. v mod FIELD_P)) raws\<rparr>]\<rparr>)) (\<lambda>_.
          sbind (b_rescale (concat raws)) (\<lambda>q. ret (cut_rows d_out (length X) q))))))"

section \<open>The layer\<close>

record layer_weights =
  w_x :: matrix
  w_q :: matrix
  w_k :: matrix
  w_v :: matrix
  w_o :: matrix
  w_cos :: "int list"
  w_sin :: "int list"
  w_experts :: "(matrix \<times> matrix \<times> matrix) list"
  w_route :: "int list"

definition rms_norm :: "toy_config \<Rightarrow> matrix \<Rightarrow> matrix step" where
  "rms_norm cfg x =
     (let flat = concat x; ss = map (\<lambda>row. sum_list (map (\<lambda>v. v * v) row)) x
      in sbind (emit (hadamard_gate ''rms_sq'' flat flat (map (\<lambda>v. (v * v) mod FIELD_P) flat))) (\<lambda>_.
         sbind (b_bracket (map (\<lambda>v. v mod FIELD_P) ss)) (\<lambda>ss_b.
         sbind (b_lookup ''isqrt'' ss_b) (\<lambda>inv_rms.
           smap (\<lambda>t. sbind (lift (at x t)) (\<lambda>row. sbind (lift (at inv_rms t)) (\<lambda>s. b_mul_rescaled row (replicate (c_d cfg) s) ''rms'')))
             [0..<c_S cfg]))))"

definition rope_row :: "toy_config \<Rightarrow> int list \<Rightarrow> int list \<Rightarrow> string \<Rightarrow> matrix \<Rightarrow> nat \<Rightarrow> int list step" where
  "rope_row cfg cos sin tag mat t =
     sbind (lift (rmap (\<lambda>j. rbind (at2 mat t j) (\<lambda>m. rbind (at cos j) (\<lambda>c. rbind (at2 mat t ((j + 1) mod c_d cfg)) (\<lambda>m'.
         rbind (at sin j) (\<lambda>s. Inr (m * c, m' * s)))))) [0..<c_d cfg])) (\<lambda>ps.
       let rot = map (\<lambda>(a, b). a + b) ps
       in sbind (emit (affine (''rope_'' @ tag @ ''_'' @ dec_str t) [1, 1]
            [map (\<lambda>(a, b). a mod FIELD_P) ps, map (\<lambda>(a, b). b mod FIELD_P) ps] (map (\<lambda>r. r mod FIELD_P) rot))) (\<lambda>_. b_rescale rot))"

definition rope :: "toy_config \<Rightarrow> int list \<Rightarrow> int list \<Rightarrow> string \<Rightarrow> matrix \<Rightarrow> matrix step" where
  "rope cfg cos sin tag mat = sbind (smap (rope_row cfg cos sin tag mat) [0..<c_S cfg]) (\<lambda>rows. ret (rows @ drop (c_S cfg) mat))"

definition attention_probs :: "toy_config \<Rightarrow> matrix \<Rightarrow> matrix \<Rightarrow> matrix step" where
  "attention_probs cfg q k =
     (let S = c_S cfg; d = c_d cfg
      in sbind (lift (rmap (\<lambda>t. rmap (\<lambda>i. if i \<le> t then dot_at q t k i d else Inr 0) [0..<S]) [0..<S])) (\<lambda>scores.
         sbind (emit (booleanity ''causal_mask'' (concat (map (\<lambda>t. map (\<lambda>i. if i \<le> t then 1 else 0) [0..<S]) [0..<S])))) (\<lambda>_.
         sbind (b_bracket (map (\<lambda>v. v mod FIELD_P) (concat scores))) (\<lambda>sb.
         sbind (b_lookup ''exp'' sb) (\<lambda>ef.
           let e = cut_rows S S ef
           in sbind (b_bracket (map (\<lambda>row. sum_list row mod FIELD_P) e)) (\<lambda>sb2.
              sbind (b_lookup ''recip'' sb2) (\<lambda>recip.
                smap (\<lambda>t. sbind (lift (at e t)) (\<lambda>row. sbind (lift (at recip t)) (\<lambda>r. b_mul_rescaled row (replicate S r) ''softmax''))) [0..<S]))))))) "

definition residual :: "toy_config \<Rightarrow> matrix \<Rightarrow> matrix \<Rightarrow> string \<Rightarrow> matrix step" where
  "residual cfg x y tag = smap (\<lambda>t. sbind (lift (at x t)) (\<lambda>a. sbind (lift (at y t)) (\<lambda>b. b_add a b tag))) [0..<c_S cfg]"

definition ffn :: "toy_config \<Rightarrow> layer_weights \<Rightarrow> matrix \<Rightarrow> matrix step" where
  "ffn cfg w h =
     sbind (b_moe_matmul ''moe_gate'' h (map fst (w_experts w)) (w_route w)) (\<lambda>g_all.
     sbind (b_moe_matmul ''moe_up'' h (map (fst \<circ> snd) (w_experts w)) (w_route w)) (\<lambda>u_all.
     sbind (smap (\<lambda>t. sbind (lift (at g_all t)) (\<lambda>g. sbind (b_bracket g) (\<lambda>gb. sbind (b_lookup ''silu'' gb) (\<lambda>sg.
         sbind (lift (at u_all t)) (\<lambda>u. b_mul_rescaled sg u ''swiglu''))))) [0..<c_S cfg]) (\<lambda>f_all.
       b_moe_matmul ''moe_down'' f_all (map (snd \<circ> snd) (w_experts w)) (w_route w))))"

definition layer_steps :: "toy_config \<Rightarrow> layer_weights \<Rightarrow> matrix step" where
  "layer_steps cfg w =
     sbind (rms_norm cfg (w_x w)) (\<lambda>xn.
     sbind (b_matmul ''Wq'' xn (w_q w)) (\<lambda>q0.
     sbind (b_matmul ''Wk'' xn (w_k w)) (\<lambda>k0.
     sbind (b_matmul ''Wv'' xn (w_v w)) (\<lambda>v.
     sbind (rope cfg (w_cos w) (w_sin w) ''q'' q0) (\<lambda>q.
     sbind (rope cfg (w_cos w) (w_sin w) ''k'' k0) (\<lambda>k.
     sbind (attention_probs cfg q k) (\<lambda>p.
     sbind (lift (rmap (\<lambda>j. rmap (\<lambda>i. at2 v i j) [0..<c_S cfg]) [0..<c_d cfg])) (\<lambda>v_t.
     sbind (b_matmul ''attn_pv'' p v_t) (\<lambda>a.
     sbind (b_matmul ''Wo'' a (w_o w)) (\<lambda>o_rows.
     sbind (residual cfg (w_x w) o_rows ''res1'') (\<lambda>h.
     sbind (ffn cfg w h) (\<lambda>d_all.
       residual cfg h d_all ''res2''))))))))))))"

definition trace_lookups :: "tables \<Rightarrow> (string \<times> (int \<times> int) list) list \<Rightarrow> lookup_use list" where
  "trace_lookups tabs logs =
     concat (map (\<lambda>((k, t), (k', qs)). if qs = [] then [] else [\<lparr>us_table = t, us_queries = qs\<rparr>]) (zip tabs logs))"

definition forward :: "toy_config \<Rightarrow> layer_weights \<Rightarrow> layer_trace result" where
  "forward cfg w =
     rbind (build_tables (c_table_bits cfg) (c_scale cfg)) (\<lambda>tabs.
     rbind (layer_steps cfg w (new_builder cfg tabs)) (\<lambda>(y, b).
       Inr \<lparr>lt_cfg = cfg, lt_x_in = w_x w, lt_y_out = map (map (\<lambda>v. v mod FIELD_P)) y, lt_matmuls = bd_matmuls b, lt_moe = bd_moe b,
         lt_gates = bd_gates b, lt_lookups = trace_lookups tabs (bd_lookups b), lt_route = w_route w,
         lt_expert_weights = map fst (w_experts w), lt_peak_value = 0, lt_peak_bound = 0\<rparr>))"

section \<open>The checker\<close>

datatype trace_failure =
    GateFails string string nat
  | MatmulWrong string nat nat
  | MoeWrong string nat nat
  | LookupWrong string int int

fun first_failure :: "('a \<Rightarrow> trace_failure option result) \<Rightarrow> 'a list \<Rightarrow> trace_failure option result" where
  "first_failure f [] = Inr None"
| "first_failure f (x # xs) = rbind (f x) (\<lambda>r. case r of None \<Rightarrow> first_failure f xs | Some e \<Rightarrow> Inr (Some e))"

definition gate_acc :: "gate \<Rightarrow> nat \<Rightarrow> int" where
  "gate_acc g idx =
     foldl (\<lambda>acc (coeff, factors).
       (acc + foldl (\<lambda>pr f. pr * (if idx < length f then f ! idx else 0) mod FIELD_P) (coeff mod FIELD_P) factors) mod FIELD_P) 0 (g_terms g)"

definition check_gate :: "gate \<Rightarrow> trace_failure option result" where
  "check_gate g =
     rbind (gate_size g) (\<lambda>n. first_failure (\<lambda>idx. Inr (if gate_acc g idx \<noteq> 0 then Some (GateFails (g_node g) (g_kind g) idx) else None)) [0..<n])"

definition check_cell :: "trace_failure \<Rightarrow> int result \<Rightarrow> matrix \<Rightarrow> nat \<Rightarrow> nat \<Rightarrow> trace_failure option result" where
  "check_cell err want Y t i = rbind want (\<lambda>s. rbind (at2 Y t i) (\<lambda>y. Inr (if y \<noteq> s mod FIELD_P then Some err else None)))"

definition check_matmul :: "matmul_node \<Rightarrow> trace_failure option result" where
  "check_matmul m =
     first_failure (\<lambda>t. first_failure (\<lambda>i. check_cell (MatmulWrong (mm_name m) t i)
         (dot_at (mm_X m) t (mm_W m) i (length (mm_W m ! 0))) (mm_Y m) t i) [0..<length (mm_W m)]) [0..<length (mm_X m)]"

definition check_moe :: "moe_node \<Rightarrow> trace_failure option result" where
  "check_moe m =
     rbind (at (me_W m) 0) (\<lambda>w. rbind (at w 0) (\<lambda>row.
       first_failure (\<lambda>t. first_failure (\<lambda>i. check_cell (MoeWrong (me_name m) t i)
           (moe_dot (me_X m) t (me_W m) (me_route m) i (length row)) (me_Y m) t i) [0..<length w]) [0..<length (me_X m)]))"

definition check_use :: "lookup_use \<Rightarrow> trace_failure option result" where
  "check_use u =
     first_failure (\<lambda>(x, y). Inr (if map_of (rev (tab_rows (us_table u))) x \<noteq> Some y then Some (LookupWrong (tab_name (us_table u)) x y) else None))
       (us_queries u)"

definition check_trace :: "layer_trace \<Rightarrow> trace_failure option result" where
  "check_trace tr =
     rbind (first_failure check_gate (lt_gates tr)) (\<lambda>r. if r \<noteq> None then Inr r else
     rbind (first_failure check_matmul (lt_matmuls tr)) (\<lambda>r. if r \<noteq> None then Inr r else
     rbind (first_failure check_moe (lt_moe tr)) (\<lambda>r. if r \<noteq> None then Inr r else
       first_failure check_use (lt_lookups tr))))"

end
