(* ===== verification/Semantics_Sound.thy ===== *)
theory Semantics_Sound
  imports Semantics
begin

text \<open>
  The layer semantics keeps its promises: on well-shaped weights \<open>forward\<close> either stops because a
  quotient leaves its range or returns a trace that the independent checker accepts, with the
  counts the geometry predicts. The proofs run over a specification of builder steps.
\<close>

unbundle bit_operations_syntax

section \<open>The checker's verdict\<close>

lemma first_failure_None: "first_failure f xs = Inr None \<longleftrightarrow> (\<forall>x \<in> set xs. f x = Inr None)"
proof (induction xs)
  case (Cons x xs)
  show ?case
  proof (cases "f x")
    case (Inr r)
    then show ?thesis using Cons by (cases r) simp_all
  qed simp
qed simp

lemma mod_step: "p mod m = x mod m \<Longrightarrow> (a mod m + p) mod m = (a + x) mod (m :: int)"
  by (metis mod_add_left_eq mod_add_right_eq)

lemma gate_acc_eq: "gate_acc g idx = gate_value g idx"
proof -
  have f: "foldl (\<lambda>pr f. pr * (if idx < length f then f ! idx else 0) mod FIELD_P) c fs mod FIELD_P = c * prod_list (map (\<lambda>f. at0 f idx) fs) mod FIELD_P" for c fs
  proof (induction fs arbitrary: c)
    case (Cons f fs)
    then show ?case by (simp add: at0_def mod_mult_left_eq mult.assoc)
  qed simp
  have "foldl (\<lambda>acc (coeff, factors). (acc + foldl (\<lambda>pr f. pr * (if idx < length f then f ! idx else 0) mod FIELD_P) (coeff mod FIELD_P) factors) mod FIELD_P) (a mod FIELD_P) ts =
      (a + sum_list (map (\<lambda>(c, fs). c * prod_list (map (\<lambda>f. at0 f idx) fs)) ts)) mod FIELD_P" for a ts
  proof (induction ts arbitrary: a)
    case (Cons t ts)
    obtain c fs where t: "t = (c, fs)" by (cases t)
    let ?p = "foldl (\<lambda>pr f. pr * (if idx < length f then f ! idx else 0) mod FIELD_P) (c mod FIELD_P) fs"
    have "(a mod FIELD_P + ?p) mod FIELD_P = (a + c * prod_list (map (\<lambda>f. at0 f idx) fs)) mod FIELD_P"
      by (rule mod_step) (simp only: f mod_mult_left_eq)
    then show ?case using Cons [of "a + c * prod_list (map (\<lambda>f. at0 f idx) fs)"] by (simp add: t add.assoc)
  qed simp
  from this [of 0 "g_terms g"] show ?thesis by (simp add: gate_acc_def gate_value_def)
qed

definition good_gate :: "gate \<Rightarrow> bool" where
  "good_gate g \<longleftrightarrow> g_terms g \<noteq> [] \<and> snd (hd (g_terms g)) \<noteq> [] \<and> gate_holds g (first_len (g_terms g))"

lemma good_gate_check: "good_gate g \<Longrightarrow> check_gate g = Inr None \<and> gate_size g = Inr (first_len (g_terms g))"
  by (simp add: check_gate_def gate_size_def good_gate_def gate_holds_def first_failure_None gate_acc_eq)

definition good_query :: "tables \<Rightarrow> string \<Rightarrow> int \<times> int \<Rightarrow> bool" where
  "good_query tabs name q \<longleftrightarrow> (\<exists>t. map_of tabs name = Some t \<and> q \<in> set (tab_rows t))"

section \<open>What a step guarantees\<close>

text \<open>The quantities the builder accumulates: gates, their slots, the queries of the five tables,
  matmuls and their cells, MoE nodes, their cells and their route entries.\<close>

datatype tally = Tally nat nat nat nat nat nat nat nat nat nat nat nat

instantiation tally :: "{zero, plus}"
begin

definition "0 = Tally 0 0 0 0 0 0 0 0 0 0 0 0"

fun plus_tally :: "tally \<Rightarrow> tally \<Rightarrow> tally" where
  "plus_tally (Tally a b c d e f g h i j k l) (Tally a' b' c' d' e' f' g' h' i' j' k' l') =
     Tally (a + a') (b + b') (c + c') (d + d') (e + e') (f + f') (g + g') (h + h') (i + i') (j + j') (k + k') (l + l')"

instance ..

end

instance tally :: comm_monoid_add
proof
  fix a b c :: tally
  show "a + b + c = a + (b + c)" by (cases a; cases b; cases c) simp
  show "a + b = b + a" by (cases a; cases b) simp
  show "0 + a = a" by (cases a) (simp add: zero_tally_def)
qed

fun times_tally :: "nat \<Rightarrow> tally \<Rightarrow> tally" where
  "times_tally n (Tally a b c d e f g h i j k l) =
     Tally (n * a) (n * b) (n * c) (n * d) (n * e) (n * f) (n * g) (n * h) (n * i) (n * j) (n * k) (n * l)"

lemma times_tally_simps [simp]: "times_tally 0 t = 0" "times_tally (Suc n) t = t + times_tally n t"
  by (cases t; simp add: zero_tally_def)+

definition log_len :: "builder \<Rightarrow> string \<Rightarrow> nat" where
  "log_len b name = (case map_of (bd_lookups b) name of None \<Rightarrow> 0 | Some qs \<Rightarrow> length qs)"

definition mm_cells :: "matmul_node \<Rightarrow> nat" where
  "mm_cells m = length (mm_X m) * length (mm_W m) * length (mm_W m ! 0)"

definition me_cells :: "moe_node \<Rightarrow> nat" where
  "me_cells m = length (me_W m) * length (me_W m ! 0) * length (me_W m ! 0 ! 0)"

definition tally_of :: "builder \<Rightarrow> tally" where
  "tally_of b = Tally (length (bd_gates b)) (sum_list (map (\<lambda>g. first_len (g_terms g)) (bd_gates b)))
     (log_len b ''exp'') (log_len b ''silu'') (log_len b ''isqrt'') (log_len b ''recip'') (log_len b ''range'')
     (length (bd_matmuls b)) (sum_list (map mm_cells (bd_matmuls b)))
     (length (bd_moe b)) (sum_list (map me_cells (bd_moe b))) (sum_list (map (\<lambda>m. length (me_route m)) (bd_moe b)))"

text \<open>The state a builder is in while it builds a trace the checker accepts.\<close>

definition table_names :: "string list" where
  "table_names = [''exp'', ''silu'', ''isqrt'', ''recip'', ''range'']"

definition good :: "toy_config \<Rightarrow> builder \<Rightarrow> bool" where
  "good cfg b \<longleftrightarrow> bd_cfg b = cfg \<and> build_tables (c_table_bits cfg) (c_scale cfg) = Inr (bd_tables b) \<and> map fst (bd_lookups b) = table_names \<and>
     list_all good_gate (bd_gates b) \<and>
     list_all (\<lambda>(name, qs). list_all (good_query (bd_tables b) name) qs) (bd_lookups b) \<and>
     list_all (\<lambda>m. check_matmul m = Inr None \<and> mm_W m \<noteq> []) (bd_matmuls b) \<and>
     list_all (\<lambda>m. check_moe m = Inr None \<and> me_W m \<noteq> [] \<and> me_W m ! 0 \<noteq> []) (bd_moe b)"

text \<open>From a good state a step returns a value with property \<open>Q\<close> in a good state whose tally grew by
  \<open>d\<close>, or raises \<open>RuntimeError\<close>.\<close>

definition spec :: "toy_config \<Rightarrow> 'a step \<Rightarrow> tally \<Rightarrow> ('a \<Rightarrow> bool) \<Rightarrow> bool" where
  "spec cfg m d Q \<longleftrightarrow> (\<forall>b. good cfg b \<longrightarrow>
     (case m b of Inl e \<Rightarrow> e = RuntimeError | Inr (x, b') \<Rightarrow> good cfg b' \<and> tally_of b' = tally_of b + d \<and> Q x))"

lemma specI:
  "(\<And>b. good cfg b \<Longrightarrow> m b = Inl RuntimeError \<or> (\<exists>x b'. m b = Inr (x, b') \<and> good cfg b' \<and> tally_of b' = tally_of b + d \<and> Q x)) \<Longrightarrow> spec cfg m d Q"
  unfolding spec_def by fastforce

lemma specD:
  "spec cfg m d Q \<Longrightarrow> good cfg b \<Longrightarrow> m b = Inl RuntimeError \<or> (\<exists>x b'. m b = Inr (x, b') \<and> good cfg b' \<and> tally_of b' = tally_of b + d \<and> Q x)"
  unfolding spec_def by (cases "m b") auto

lemma spec_ret [intro]: "Q x \<Longrightarrow> d = 0 \<Longrightarrow> spec cfg (ret x) d Q"
  by (simp add: spec_def ret_def)

lemma spec_lift [intro]: "r = Inr x \<Longrightarrow> Q x \<Longrightarrow> d = 0 \<Longrightarrow> spec cfg (lift r) d Q"
  by (simp add: spec_def lift_def)

lemma spec_sbind:
  assumes "spec cfg m d Q" "\<And>x. Q x \<Longrightarrow> spec cfg (f x) d' R" "D = d + d'"
  shows "spec cfg (sbind m f) D R"
proof (rule specI)
  fix b assume b: "good cfg b"
  show "sbind m f b = Inl RuntimeError \<or> (\<exists>x b'. sbind m f b = Inr (x, b') \<and> good cfg b' \<and> tally_of b' = tally_of b + D \<and> R x)"
  proof (cases "m b")
    case (Inl e)
    then show ?thesis using assms(1) b by (auto simp: spec_def sbind_def split: sum.splits)
  next
    case (Inr p)
    obtain x b' where p: "p = (x, b')" by (cases p)
    then have m: "good cfg b'" "tally_of b' = tally_of b + d" "Q x" using assms(1) b Inr by (auto simp: spec_def)
    have "case f x b' of Inl e \<Rightarrow> e = RuntimeError | Inr (y, b'') \<Rightarrow> good cfg b'' \<and> tally_of b'' = tally_of b' + d' \<and> R y"
      using assms(2) [OF m(3)] m(1) by (simp add: spec_def)
    then show ?thesis using Inr p m(2) by (cases "f x b'") (auto simp: sbind_def assms(3) add.assoc)
  qed
qed

lemma spec_smap:
  assumes "\<And>x. x \<in> set xs \<Longrightarrow> spec cfg (f x) d Q"
  shows "spec cfg (smap f xs) (times_tally (length xs) d) (\<lambda>ys. length ys = length xs \<and> (\<forall>y \<in> set ys. Q y))"
  using assms
proof (induction xs)
  case Nil
  then show ?case by auto
next
  case (Cons x xs)
  show ?case unfolding smap.simps
  proof (rule spec_sbind [where d = d and Q = Q])
    show "spec cfg (f x) d Q" using Cons by simp
    fix y assume "Q y"
    then show "spec cfg (sbind (smap f xs) (\<lambda>ys. ret (y # ys))) (times_tally (length xs) d) (\<lambda>ys. length ys = length (x # xs) \<and> (\<forall>y \<in> set ys. Q y))"
      by (intro spec_sbind [OF Cons.IH, where d' = 0] spec_ret) (auto simp: Cons)
  qed simp
qed

lemma spec_weaken: "spec cfg m d Q \<Longrightarrow> (\<And>x. Q x \<Longrightarrow> R x) \<Longrightarrow> d = d' \<Longrightarrow> spec cfg m d' R"
  unfolding spec_def by (fastforce split: sum.splits)

section \<open>Gates and tables\<close>

lemma at0_map: "at0 (map f xs) i = (if i < length xs then f (xs ! i) else 0)"
  by (simp add: at0_def)

lemma good_rescale_gate:
  assumes "length qs = length raws" "length rs = length raws" "\<And>i. i < length raws \<Longrightarrow> raws ! i mod FIELD_P = (s * qs ! i + rs ! i) mod FIELD_P"
  shows "good_gate (rescale nd raws qs rs s) \<and> first_len (g_terms (rescale nd raws qs rs s)) = length raws"
proof -
  have l: "first_len (g_terms (rescale nd raws qs rs s)) = length raws" by (simp add: rescale_def first_len_def)
  have "gate_value (rescale nd raws qs rs s) i = 0" if "i < length raws" for i
    unfolding gate_relations(4) using assms that by (simp add: at0_def)
  then show ?thesis using l by (simp add: good_gate_def gate_holds_def rescale_def first_len_def)
qed

lemma good_hadamard_gate:
  assumes "length b = length a" "length c = length a" "\<And>i. i < length a \<Longrightarrow> (a ! i * b ! i) mod FIELD_P = c ! i mod FIELD_P"
  shows "good_gate (hadamard_gate nd a b c) \<and> first_len (g_terms (hadamard_gate nd a b c)) = length a"
proof -
  have l: "first_len (g_terms (hadamard_gate nd a b c)) = length a" by (simp add: hadamard_gate_def first_len_def)
  have "gate_value (hadamard_gate nd a b c) i = 0" if "i < length a" for i
    unfolding gate_relations(1) using assms that by (simp add: at0_def)
  then show ?thesis using l by (simp add: good_gate_def gate_holds_def hadamard_gate_def first_len_def)
qed

lemma good_boolean_gate:
  assumes "\<And>i. i < length b \<Longrightarrow> b ! i = 0 \<or> b ! i = 1"
  shows "good_gate (booleanity nd b) \<and> first_len (g_terms (booleanity nd b)) = length b"
proof -
  have l: "first_len (g_terms (booleanity nd b)) = length b" by (simp add: booleanity_def first_len_def)
  have "gate_value (booleanity nd b) i = 0" if "i < length b" for i
    unfolding gate_relations(2) using assms [OF that] that by (auto simp: at0_def FIELD_P_val)
  then show ?thesis using l by (simp add: good_gate_def gate_holds_def booleanity_def first_len_def)
qed

lemma good_affine_gate:
  assumes "length coeffs = length xs" "xs \<noteq> []" "\<And>x. x \<in> set xs \<Longrightarrow> length x = length y"
    "\<And>i. i < length y \<Longrightarrow> sum_list (map (\<lambda>(c, x). c * x ! i) (zip coeffs xs)) mod FIELD_P = y ! i mod FIELD_P"
  shows "good_gate (affine nd coeffs xs y) \<and> first_len (g_terms (affine nd coeffs xs y)) = length y"
proof -
  obtain c cs x xs' where e: "coeffs = c # cs" "xs = x # xs'" using assms(1,2) by (cases coeffs; cases xs) auto
  then have l: "first_len (g_terms (affine nd coeffs xs y)) = length y" using assms(3) by (simp add: affine_def first_len_def)
  have "gate_value (affine nd coeffs xs y) i = 0" if i: "i < length y" for i
  proof -
    have e: "map (\<lambda>(c, x). c * at0 x i) (zip coeffs xs) = map (\<lambda>(c, x). c * x ! i) (zip coeffs xs)"
      using assms(3) i by (intro map_cong refl) (auto simp: at0_def dest!: set_zip_rightD)
    have "at0 y i = y ! i" using i by (simp add: at0_def)
    then show ?thesis unfolding gate_relations(3) e using assms(4) [OF i] by (simp only:)
  qed
  then show ?thesis using l e by (simp add: good_gate_def gate_holds_def affine_def first_len_def)
qed

text \<open>The words of a quotient.\<close>

lemma word_of_eq: "word_of wb j q = (q div 2 ^ (wb * j)) mod 2 ^ wb"
proof -
  have "(push_bit wb 1 - 1 :: int) = mask wb" by (simp add: mask_eq_exp_minus_1 push_bit_eq_mult)
  then have "word_of wb j q = take_bit wb (drop_bit (wb * j) q)" by (simp only: word_of_def take_bit_eq_mask)
  then show ?thesis by (simp only: take_bit_eq_mod drop_bit_eq_div)
qed

lemma word_of_range: "0 \<le> word_of wb j q \<and> word_of wb j q < 2 ^ wb"
  by (simp add: word_of_eq)

lemma words_sum: "(\<Sum>j<k. 2 ^ (wb * j) * word_of wb j q) = q mod 2 ^ (wb * k)"
proof (induction k)
  case (Suc k)
  have "(2 :: int) ^ (wb * Suc k) = 2 ^ (wb * k) * 2 ^ wb" by (simp add: power_add algebra_simps)
  then have "q mod 2 ^ (wb * Suc k) = 2 ^ (wb * k) * (q div 2 ^ (wb * k) mod 2 ^ wb) + q mod 2 ^ (wb * k)"
    by (simp only: zmod_zmult2_eq [of "2 ^ wb" q "2 ^ (wb * k)"] zero_le_power zero_le_numeral)
  then show ?case using Suc by (simp add: word_of_eq)
qed simp

lemma sum_list_zip_upt: "sum_list (map (\<lambda>(c, x). f c x) (zip (map g [0..<k]) (map h [0..<k]))) = (\<Sum>j<k. f (g j) (h j))"
  for f :: "'a \<Rightarrow> 'b \<Rightarrow> int"
  by (simp add: zip_map_map sum_list_map_upt [symmetric] comp_def zip_same_conv_map)

lemma table_of:
  assumes "build_tables bits scale = Inr tabs" "name \<in> set table_names"
  shows "\<exists>t f. map_of tabs name = Some t \<and> tab_rows t = table_rows (2 ^ bits) f \<and> (name = ''range'' \<longrightarrow> f = (\<lambda>x. 0))"
  using assms by (auto simp: build_tables_def table_names_def Let_def split: if_splits)

lemma table_rows_mem: "(x, y) \<in> set (table_rows n f) \<longleftrightarrow> 0 \<le> x \<and> x < int n \<and> y = f x"
proof -
  have "0 \<le> x \<and> x < int n \<and> y = f x \<Longrightarrow> (x, y) \<in> (\<lambda>k. (int k, f (int k))) ` {0..<n}"
    by (intro image_eqI [of _ _ "nat x"]) auto
  then show ?thesis by (auto simp: table_rows_def)
qed

lemma tab_lookup_rows:
  assumes "tab_rows t = table_rows n f" "0 \<le> x" "x < int n"
  shows "tab_lookup t x = Inr (f x)"
proof -
  have "nat x < n" using assms by simp
  then have "py_index (tab_rows t) x = Inr (x, f x)" using assms by (simp add: py_index_def py_pos_def table_rows_def)
  then show ?thesis by (simp add: tab_lookup_def)
qed

section \<open>The builder's operations\<close>

abbreviation gates_t :: "nat \<Rightarrow> nat \<Rightarrow> tally" where
  "gates_t n s \<equiv> Tally n s 0 0 0 0 0 0 0 0 0 0"

definition logs_t :: "string \<Rightarrow> nat \<Rightarrow> tally" where
  "logs_t name n = Tally 0 0 (if name = ''exp'' then n else 0) (if name = ''silu'' then n else 0) (if name = ''isqrt'' then n else 0)
     (if name = ''recip'' then n else 0) (if name = ''range'' then n else 0) 0 0 0 0 0"

lemma spec_b_id: "spec cfg (b_id kind) 0 (\<lambda>_. True)"
  by (rule specI) (simp add: b_id_def Let_def good_def tally_of_def log_len_def zero_tally_def)

lemma spec_emit:
  assumes "good_gate g"
  shows "spec cfg (emit g) (gates_t 1 (first_len (g_terms g))) (\<lambda>_. True)"
  by (rule specI) (use assms in \<open>simp add: emit_def good_def tally_of_def log_len_def\<close>)

lemma map_of_update: "map_of (map (\<lambda>(k, v). (k, if k = name then v @ qs else v)) xs) nm =
    map_option (\<lambda>v. if nm = name then v @ qs else v) (map_of xs nm)"
  by (induction xs) auto

lemma spec_log:
  assumes "name \<in> set table_names" "\<And>b. good cfg b \<Longrightarrow> list_all (good_query (bd_tables b) name) qs"
  shows "spec cfg (log_queries name qs) (logs_t name (length qs)) (\<lambda>_. True)"
proof (rule specI)
  fix b assume b: "good cfg b"
  have keys: "map fst (bd_lookups b) = table_names" using b by (simp add: good_def)
  then have some: "\<exists>v. map_of (bd_lookups b) nm = Some v" if "nm \<in> set table_names" for nm
    using that by (metis map_of_eq_None_iff not_Some_eq set_map)
  let ?b' = "b\<lparr>bd_lookups := map (\<lambda>(k, v). (k, if k = name then v @ qs else v)) (bd_lookups b)\<rparr>"
  have l: "log_len ?b' nm = log_len b nm + (if nm = name then length qs else 0)" if "nm \<in> set table_names" for nm
    using some [OF that] by (auto simp: log_len_def map_of_update)
  have "good cfg ?b'" using b assms(2) [OF b] by (auto simp: good_def list_all_iff comp_def case_prod_beta)
  moreover have "tally_of ?b' = tally_of b + logs_t name (length qs)"
    using l by (simp add: tally_of_def logs_t_def table_names_def)
  ultimately show "log_queries name qs b = Inl RuntimeError \<or> (\<exists>x b'. log_queries name qs b = Inr (x, b') \<and> good cfg b' \<and>
      tally_of b' = tally_of b + logs_t name (length qs) \<and> True)"
    using some [OF assms(1)] by (auto simp: log_queries_def)
qed

lemma spec_table:
  assumes "name \<in> set table_names"
  shows "spec cfg (b_table name) 0 (\<lambda>t. \<exists>f. tab_rows t = table_rows (2 ^ c_table_bits cfg) f \<and>
    (\<forall>b. good cfg b \<longrightarrow> map_of (bd_tables b) name = Some t))"
proof (rule specI)
  fix b assume b: "good cfg b"
  have bt: "build_tables (c_table_bits cfg) (c_scale cfg) = Inr (bd_tables b)" using b by (simp add: good_def)
  obtain t f where t: "map_of (bd_tables b) name = Some t" "tab_rows t = table_rows (2 ^ c_table_bits cfg) f"
    using table_of [OF bt assms] by blast
  have "\<forall>b'. good cfg b' \<longrightarrow> map_of (bd_tables b') name = Some t" using t bt by (auto simp: good_def)
  then show "b_table name b = Inl RuntimeError \<or> (\<exists>x b'. b_table name b = Inr (x, b') \<and> good cfg b' \<and> tally_of b' = tally_of b + 0 \<and>
      (\<exists>f. tab_rows x = table_rows (2 ^ c_table_bits cfg) f \<and> (\<forall>b. good cfg b \<longrightarrow> map_of (bd_tables b) name = Some x)))"
    using t b by (auto simp: b_table_def)
qed

lemma times_logs [simp]: "times_tally n (logs_t name m) = logs_t name (n * m)"
  by (simp add: logs_t_def)

definition cfg_ok :: "toy_config \<Rightarrow> nat \<Rightarrow> nat \<Rightarrow> bool" where
  "cfg_ok cfg kr kb \<longleftrightarrow> c_scale_bits cfg \<le> c_table_bits cfg \<and> quotient_words (c_scale_bits cfg) (c_table_bits cfg) = Inr kr \<and>
     quotient_words (c_table_bits cfg) (c_table_bits cfg) = Inr kb"

lemma quotient_words_pos: "quotient_words d w = Inr k \<Longrightarrow> 0 < k \<and> 0 < w \<and> d + w * k \<le> 63"
proof -
  assume a: "quotient_words d w = Inr k"
  then have w: "w \<noteq> 0" and k: "1 \<le> (63 - int d) div int w" "int k = (63 - int d) div int w"
    by (auto simp: quotient_words_def LIFT_BITS_def Let_def split: if_splits)
  have "int w * ((63 - int d) div int w) \<le> 63 - int d" using w by (simp add: mult.commute pos_zdiv_mult_2 minus_mod_eq_mult_div [symmetric])
  then have "int d + int w * int k \<le> 63" using k by simp
  then have "int (d + w * k) \<le> int 63" by simp
  then show ?thesis using w k by linarith
qed

lemma spec_range_check:
  assumes "\<And>v. v \<in> set vals \<Longrightarrow> 0 \<le> v \<and> v < 2 ^ c_table_bits cfg" "bound \<le> 2 ^ c_table_bits cfg"
  shows "spec cfg (b_range_check vals bound) (logs_t ''range'' (length vals)) (\<lambda>_. True)"
  unfolding b_range_check_def
proof (rule spec_sbind [OF spec_table, where d' = "logs_t ''range'' (length vals)"])
  show "''range'' \<in> set table_names" by (simp add: table_names_def)
  fix t assume "\<exists>f. tab_rows t = table_rows (2 ^ c_table_bits cfg) f \<and> (\<forall>b. good cfg b \<longrightarrow> map_of (bd_tables b) ''range'' = Some t)"
  then obtain f where t: "tab_rows t = table_rows (2 ^ c_table_bits cfg) f" "\<And>b. good cfg b \<Longrightarrow> map_of (bd_tables b) ''range'' = Some t" by blast
  have "int (tab_size t) = 2 ^ c_table_bits cfg" by (simp add: tab_size_def t table_rows_def)
  then have nb: "\<not> int (tab_size t) < bound" using assms(2) by simp
  have "spec cfg (log_queries ''range'' (map (\<lambda>v. (v, 0)) vals)) (logs_t ''range'' (length (map (\<lambda>v. (v, 0 :: int)) vals))) (\<lambda>_. True)"
  proof (rule spec_log)
    show "''range'' \<in> set table_names" by (simp add: table_names_def)
    fix b assume b: "good cfg b"
    then have bt: "build_tables (c_table_bits cfg) (c_scale cfg) = Inr (bd_tables b)" by (simp add: good_def)
    have "tab_rows t = table_rows (2 ^ c_table_bits cfg) (\<lambda>x. 0)"
      using table_of [OF bt, of "''range''"] t(2) [OF b] by (auto simp: table_names_def)
    then show "list_all (good_query (bd_tables b) ''range'') (map (\<lambda>v. (v, 0)) vals)"
      using assms(1) t(2) [OF b] by (auto simp: list_all_iff good_query_def table_rows_mem)
  qed
  then show "spec cfg (if int (tab_size t) < bound then lift (Inl ValueError) else log_queries ''range'' (map (\<lambda>v. (v, 0)) vals))
      (logs_t ''range'' (length vals)) (\<lambda>_. True)"
    using nb by simp
qed simp

lemma good_qbound_gate:
  assumes "0 < k" "\<And>q. q \<in> set qs \<Longrightarrow> 0 \<le> q \<and> q < 2 ^ (wb * k)"
  shows "good_gate (affine nd (map (\<lambda>j. push_bit (wb * j) 1) [0..<k]) (map (\<lambda>j. map (word_of wb j) qs) [0..<k]) qs) \<and>
    first_len (g_terms (affine nd (map (\<lambda>j. push_bit (wb * j) 1) [0..<k]) (map (\<lambda>j. map (word_of wb j) qs) [0..<k]) qs)) = length qs"
proof (rule good_affine_gate)
  fix i assume i: "i < length qs"
  have "sum_list (map (\<lambda>(c, x). c * x ! i) (zip (map (\<lambda>j. push_bit (wb * j) 1) [0..<k]) (map (\<lambda>j. map (word_of wb j) qs) [0..<k]))) =
      (\<Sum>j<k. 2 ^ (wb * j) * word_of wb j (qs ! i))"
    using i by (simp add: sum_list_zip_upt push_bit_eq_mult)
  also have "\<dots> = qs ! i" unfolding words_sum using assms(2) [of "qs ! i"] i by simp
  finally show "sum_list (map (\<lambda>(c, x). c * x ! i) (zip (map (\<lambda>j. push_bit (wb * j) 1) [0..<k]) (map (\<lambda>j. map (word_of wb j) qs) [0..<k]))) mod FIELD_P =
      qs ! i mod FIELD_P" by simp
qed (use assms(1) in auto)

lemma spec_bound_quotient:
  assumes k: "quotient_words bits (c_table_bits cfg) = Inr k"
  shows "spec cfg (b_bound_quotient qs bits) (gates_t 1 (length qs) + logs_t ''range'' (k * length qs))
    (\<lambda>_. \<forall>q \<in> set qs. 0 \<le> q \<and> q < 2 ^ (c_table_bits cfg * k))"
proof (rule specI)
  fix b assume b: "good cfg b"
  let ?wb = "c_table_bits cfg" and ?Q = "\<lambda>_ :: unit. \<forall>q \<in> set qs. 0 \<le> q \<and> q < 2 ^ (c_table_bits cfg * k)"
  have c: "bd_cfg b = cfg" using b by (simp add: good_def)
  show "b_bound_quotient qs bits b = Inl RuntimeError \<or> (\<exists>x b'. b_bound_quotient qs bits b = Inr (x, b') \<and> good cfg b' \<and>
      tally_of b' = tally_of b + (gates_t 1 (length qs) + logs_t ''range'' (k * length qs)) \<and> ?Q x)"
  proof (cases "min_default qs < 0 \<or> push_bit (?wb * k) 1 \<le> max_default qs")
    case True
    then show ?thesis by (simp add: b_bound_quotient_def c k Let_def)
  next
    case False
    have r: "0 \<le> q \<and> q < 2 ^ (?wb * k)" if "q \<in> set qs" for q
    proof -
      have "qs \<noteq> []" using that by auto
      then have "Min (set qs) \<le> q" "q \<le> Max (set qs)" using that by simp_all
      then show ?thesis using False \<open>qs \<noteq> []\<close> by (simp add: min_default_def max_default_def push_bit_eq_mult)
    qed
    let ?words = "map (\<lambda>j. map (word_of ?wb j) qs) [0..<k]"
    have sp: "spec cfg (sbind (b_id ''qbound'') (\<lambda>nd. sbind (emit (affine nd (map (\<lambda>j. push_bit (?wb * j) 1) [0..<k]) ?words qs)) (\<lambda>_.
        sbind (smap (\<lambda>w. b_range_check w (push_bit ?wb 1)) ?words) (\<lambda>_. ret ())))) (gates_t 1 (length qs) + logs_t ''range'' (k * length qs)) ?Q"
    proof (rule spec_sbind [OF spec_b_id])
      fix nd
      let ?g = "affine nd (map (\<lambda>j. push_bit (?wb * j) 1) [0..<k]) ?words qs"
      have g: "good_gate ?g \<and> first_len (g_terms ?g) = length qs"
        by (rule good_qbound_gate [OF conjunct1 [OF quotient_words_pos [OF k]]]) (rule r)
      have e: "spec cfg (emit (affine nd (map (\<lambda>j. push_bit (?wb * j) 1) [0..<k]) ?words qs)) (gates_t 1 (length qs)) (\<lambda>_. True)"
        using spec_emit [OF conjunct1 [OF g], of cfg] by (simp only: conjunct2 [OF g])
      have "spec cfg (smap (\<lambda>w. b_range_check w (push_bit ?wb 1)) ?words) (times_tally (length ?words) (logs_t ''range'' (length qs)))
          (\<lambda>ys. length ys = length ?words \<and> (\<forall>y \<in> set ys. True))"
      proof (rule spec_smap)
        fix w assume "w \<in> set ?words"
        then obtain j where j: "w = map (word_of ?wb j) qs" by auto
        have "spec cfg (b_range_check w (push_bit ?wb 1)) (logs_t ''range'' (length w)) (\<lambda>_. True)"
          by (rule spec_range_check) (use word_of_range in \<open>auto simp: j push_bit_eq_mult\<close>)
        then show "spec cfg (b_range_check w (push_bit ?wb 1)) (logs_t ''range'' (length qs)) (\<lambda>_. True)" by (simp add: j)
      qed
      then have s: "spec cfg (sbind (smap (\<lambda>w. b_range_check w (push_bit ?wb 1)) ?words) (\<lambda>_. ret ())) (logs_t ''range'' (k * length qs)) ?Q"
        using r by (intro spec_sbind [where d' = 0] spec_ret) auto
      show "spec cfg (sbind (emit (affine nd (map (\<lambda>j. push_bit (?wb * j) 1) [0..<k]) ?words qs)) (\<lambda>_.
          sbind (smap (\<lambda>w. b_range_check w (push_bit ?wb 1)) ?words) (\<lambda>_. ret ()))) (gates_t 1 (length qs) + logs_t ''range'' (k * length qs)) ?Q"
        by (rule spec_sbind [OF e s refl])
    qed simp
    show ?thesis unfolding b_bound_quotient_def c k Let_def rbind_simps if_not_P [OF False] by (rule specD [OF sp b])
  qed
qed

text \<open>Division with remainder: rescale and bracket.\<close>

lemma spec_divide:
  assumes k: "quotient_words bits (c_table_bits cfg) = Inr k" and n: "n = 2 ^ bits" "bits \<le> c_table_bits cfg"
  shows "spec cfg (b_divide kind n bits raws) (gates_t 2 (2 * length raws) + logs_t ''range'' ((1 + k) * length raws))
    (\<lambda>(qs, rs). qs = map (\<lambda>r. r div n) raws \<and> rs = map (\<lambda>r. r mod n) raws)"
proof -
  let ?qs = "map (\<lambda>r. r div n) raws" and ?rs = "map (\<lambda>r. r mod n) raws"
  have le: "(2 :: int) ^ bits \<le> 2 ^ c_table_bits cfg" using n(2) by (rule power_increasing) simp
  have g: "good_gate (rescale nd raws ?qs ?rs n) \<and> first_len (g_terms (rescale nd raws ?qs ?rs n)) = length raws" for nd
    by (rule good_rescale_gate) simp_all
  have e: "spec cfg (emit (rescale nd raws ?qs ?rs n)) (gates_t 1 (length raws)) (\<lambda>_. True)" for nd
    using spec_emit [OF conjunct1 [OF g]] conjunct2 [OF g] by simp
  have "v < 2 ^ c_table_bits cfg \<and> 0 \<le> v" if "v \<in> set ?rs" for v
  proof -
    have "0 \<le> v \<and> v < n" using that n(1) by auto
    then show ?thesis using le n(1) by linarith
  qed
  then have "spec cfg (b_range_check ?rs n) (logs_t ''range'' (length ?rs)) (\<lambda>_. True)"
    using le n(1) by (intro spec_range_check) blast+
  then have rc: "spec cfg (b_range_check ?rs n) (logs_t ''range'' (length raws)) (\<lambda>_. True)" by simp
  have bq: "spec cfg (sbind (b_bound_quotient ?qs bits) (\<lambda>_. ret (?qs, ?rs))) (gates_t 1 (length raws) + logs_t ''range'' (k * length raws))
      (\<lambda>(qs, rs). qs = ?qs \<and> rs = ?rs)"
    using spec_bound_quotient [OF k, of ?qs] by (intro spec_sbind [where d' = 0] spec_ret) (auto simp: comp_def)
  show ?thesis unfolding b_divide_def Let_def
    by (rule spec_sbind [OF spec_b_id spec_sbind [OF e spec_sbind [OF rc bq refl] refl]]) (simp add: logs_t_def)
qed

lemma spec_ext: "spec cfg m' d Q \<Longrightarrow> (\<And>b. good cfg b \<Longrightarrow> m b = m' b) \<Longrightarrow> spec cfg m d Q"
  unfolding spec_def by simp

lemma good_cfg: "good cfg b \<Longrightarrow> bd_cfg b = cfg"
  by (simp add: good_def)

abbreviation div_t :: "nat \<Rightarrow> nat \<Rightarrow> tally" where
  "div_t k n \<equiv> Tally 2 (2 * n) 0 0 0 0 ((1 + k) * n) 0 0 0 0 0"

lemma div_t_eq: "gates_t 2 (2 * n) + logs_t ''range'' ((1 + k) * n) = div_t k n"
  by (simp add: logs_t_def)

lemma spec_rescale:
  assumes "cfg_ok cfg kr kb"
  shows "spec cfg (b_rescale raws) (div_t kr (length raws)) (\<lambda>qs. length qs = length raws)"
proof -
  have k: "quotient_words (c_scale_bits cfg) (c_table_bits cfg) = Inr kr" "c_scale_bits cfg \<le> c_table_bits cfg" using assms by (simp_all add: cfg_ok_def)
  have "spec cfg (sbind (b_divide ''rescale'' (c_scale cfg) (c_scale_bits cfg) raws) (\<lambda>(qs, rs). ret qs)) (div_t kr (length raws)) (\<lambda>qs. length qs = length raws)"
    unfolding div_t_eq [symmetric]
    by (rule spec_sbind [OF spec_divide [OF k(1) c_scale_def k(2)], where d' = 0]) (auto intro!: spec_ret)
  then show ?thesis by (rule spec_ext) (simp add: b_rescale_def good_cfg)
qed

lemma spec_bracket:
  assumes "cfg_ok cfg kr kb"
  shows "spec cfg (b_bracket vals) (div_t kb (length vals)) (\<lambda>los. length los = length vals \<and> (\<forall>v \<in> set los. 0 \<le> v \<and> v < 2 ^ c_table_bits cfg))"
proof -
  have k: "quotient_words (c_table_bits cfg) (c_table_bits cfg) = Inr kb" using assms by (simp add: cfg_ok_def)
  have "spec cfg (sbind (b_divide ''bracket'' (c_table_size cfg) (c_table_bits cfg) vals) (\<lambda>(his, los). ret los)) (div_t kb (length vals))
      (\<lambda>los. length los = length vals \<and> (\<forall>v \<in> set los. 0 \<le> v \<and> v < 2 ^ c_table_bits cfg))"
    unfolding div_t_eq [symmetric]
    by (rule spec_sbind [OF spec_divide [OF k c_table_size_def order_refl], where d' = 0]) (auto intro!: spec_ret simp: c_table_size_def)
  then show ?thesis by (rule spec_ext) (simp add: b_bracket_def good_cfg)
qed

lemma spec_lookup:
  assumes "name \<in> set table_names" "\<And>x. x \<in> set xs \<Longrightarrow> 0 \<le> x \<and> x < 2 ^ c_table_bits cfg"
  shows "spec cfg (b_lookup name xs) (logs_t name (length xs)) (\<lambda>ys. length ys = length xs)"
  unfolding b_lookup_def
proof (rule spec_sbind [OF spec_table [OF assms(1)], where d' = "logs_t name (length xs)"])
  fix t assume "\<exists>f. tab_rows t = table_rows (2 ^ c_table_bits cfg) f \<and> (\<forall>b. good cfg b \<longrightarrow> map_of (bd_tables b) name = Some t)"
  then obtain f where t: "tab_rows t = table_rows (2 ^ c_table_bits cfg) f" "\<And>b. good cfg b \<Longrightarrow> map_of (bd_tables b) name = Some t" by blast
  have l: "rmap (tab_lookup t) xs = Inr (map f xs)"
    using assms(2) by (intro rmap_Inr_map tab_lookup_rows [OF t(1)]) simp_all
  have "spec cfg (log_queries name (zip xs (map f xs))) (logs_t name (length (zip xs (map f xs)))) (\<lambda>_. True)"
  proof (rule spec_log [OF assms(1)])
    fix b assume b: "good cfg b"
    have "(x, f x) \<in> set (tab_rows t)" if "x \<in> set xs" for x using assms(2) [OF that] by (simp add: t(1) table_rows_mem)
    then show "list_all (good_query (bd_tables b) name) (zip xs (map f xs))"
      using t(2) [OF b] by (auto simp: list_all_iff good_query_def zip_map2 zip_same_conv_map)
  qed
  then have "spec cfg (log_queries name (zip xs (map f xs))) (logs_t name (length xs)) (\<lambda>_. True)" by simp
  then have "spec cfg (sbind (log_queries name (zip xs (map f xs))) (\<lambda>_. ret (map f xs))) (logs_t name (length xs)) (\<lambda>ys. length ys = length xs)"
    by (rule spec_sbind [where d' = 0]) (auto intro!: spec_ret)
  then show "spec cfg (sbind (lift (rmap (tab_lookup t) xs)) (\<lambda>ys. sbind (log_queries name (zip xs ys)) (\<lambda>_. ret ys)))
      (logs_t name (length xs)) (\<lambda>ys. length ys = length xs)"
    unfolding l by (intro spec_sbind [OF spec_lift [OF refl, where Q = "\<lambda>ys. ys = map f xs"]]) auto
qed simp

lemma spec_mul_rescaled:
  assumes "cfg_ok cfg kr kb" "length a = n" "length b = n"
  shows "spec cfg (b_mul_rescaled a b tag) (Tally 3 (3 * n) 0 0 0 0 ((1 + kr) * n) 0 0 0 0 0) (\<lambda>qs. length qs = n)"
  unfolding b_mul_rescaled_def Let_def
proof (rule spec_sbind [OF spec_b_id])
  fix nd
  let ?raw = "map2 (*) a b"
  let ?g = "hadamard_gate nd a b (map (\<lambda>r. r mod FIELD_P) ?raw)"
  have g: "good_gate ?g \<and> first_len (g_terms ?g) = length a" using assms by (intro good_hadamard_gate) simp_all
  have e: "spec cfg (emit ?g) (gates_t 1 n) (\<lambda>_. True)" using spec_emit [OF conjunct1 [OF g], of cfg] assms(2) by (simp only: conjunct2 [OF g])
  have "spec cfg (b_rescale ?raw) (div_t kr n) (\<lambda>qs. length qs = n)" using spec_rescale [OF assms(1), of ?raw] assms(2,3) by simp
  with e show "spec cfg (sbind (emit ?g) (\<lambda>_. b_rescale ?raw)) (Tally 3 (3 * n) 0 0 0 0 ((1 + kr) * n) 0 0 0 0 0) (\<lambda>qs. length qs = n)"
    by (rule spec_sbind) simp
qed simp

lemma spec_add:
  assumes "length a = n" "length b = n"
  shows "spec cfg (b_add a b tag) (gates_t 1 n) (\<lambda>y. length y = n)"
  unfolding b_add_def Let_def
proof (rule spec_sbind [OF spec_b_id])
  fix nd
  let ?y = "map2 (+) a b"
  let ?g = "affine nd [1, 1] [a, b] (map (\<lambda>v. v mod FIELD_P) ?y)"
  have "good_gate ?g \<and> first_len (g_terms ?g) = length (map (\<lambda>v. v mod FIELD_P) ?y)"
    by (rule good_affine_gate) (use assms in auto)
  then have g: "good_gate ?g" "first_len (g_terms ?g) = n" using assms by simp_all
  have "spec cfg (emit ?g) (gates_t 1 n) (\<lambda>_. True)" using spec_emit [OF g(1), of cfg] by (simp only: g(2))
  then show "spec cfg (sbind (emit ?g) (\<lambda>_. ret ?y)) (gates_t 1 n) (\<lambda>y. length y = n)"
    using assms by (intro spec_sbind [where d' = 0] spec_ret) (auto simp: zero_tally_def)
qed (simp add: zero_tally_def)

section \<open>Contractions\<close>

definition mat :: "nat \<Rightarrow> nat \<Rightarrow> matrix \<Rightarrow> bool" where
  "mat m n A \<longleftrightarrow> length A = m \<and> (\<forall>r \<in> set A. length r = n)"

lemma mat_nth: "mat m n A \<Longrightarrow> i < m \<Longrightarrow> length (A ! i) = n"
  by (simp add: mat_def)

lemma at_nth [simp]: "i < length xs \<Longrightarrow> at xs i = Inr (xs ! i)"
  by (simp add: at_def)

lemma at2_mat: "mat m n A \<Longrightarrow> i < m \<Longrightarrow> j < n \<Longrightarrow> at2 A i j = Inr (A ! i ! j)"
  using mat_nth [of m n A i] by (simp add: at2_def mat_def)

definition dot_val :: "matrix \<Rightarrow> nat \<Rightarrow> matrix \<Rightarrow> nat \<Rightarrow> nat \<Rightarrow> int" where
  "dot_val A t B i n = (\<Sum>j<n. A ! t ! j * B ! i ! j)"

lemma dot_at_mat:
  assumes "mat m n A" "mat p n B" "t < m" "i < p"
  shows "dot_at A t B i n = Inr (dot_val A t B i n)"
proof -
  have "rmap (\<lambda>j. rbind (at2 A t j) (\<lambda>x. rbind (at2 B i j) (\<lambda>y. Inr (x * y)))) [0..<n] = Inr (map (\<lambda>j. A ! t ! j * B ! i ! j) [0..<n])"
    using assms by (intro rmap_Inr_map) (simp add: at2_mat)
  then show ?thesis by (simp add: dot_at_def dot_val_def sum_list_map_upt)
qed

lemma rmap_grid:
  assumes "\<And>t i. t < m \<Longrightarrow> i < p \<Longrightarrow> f t i = Inr (g t i)"
  shows "rmap (\<lambda>t. rmap (f t) [0..<p]) [0..<m] = Inr (map (\<lambda>t. map (g t) [0..<p]) [0..<m])"
  using assms by (intro rmap_Inr_map) simp

lemma mat_grid [simp]: "mat m p (map (\<lambda>t. map (g t) [0..<p]) [0..<m])"
  by (auto simp: mat_def)

lemma mat_cut: "length q = m * n \<Longrightarrow> mat m n (cut_rows n m q)"
proof -
  assume l: "length q = m * n"
  have "n \<le> m * n - i * n" if "i < m" for i
  proof -
    have "Suc i * n \<le> m * n" using that by (intro mult_le_mono1) simp
    then show ?thesis by simp
  qed
  then show ?thesis using l by (auto simp: mat_def cut_rows_def)
qed

lemma length_concat_mat: "mat m n A \<Longrightarrow> length (concat A) = m * n"
proof (induction A arbitrary: m)
  case (Cons r A)
  then have "mat (m - 1) n A" "0 < m" "length r = n" by (auto simp: mat_def)
  then show ?case using Cons.IH [of "m - 1"] by (cases m) simp_all
qed (simp add: mat_def)

lemma check_cell_ok:
  assumes "want = Inr v" "at2 Y t i = Inr (v mod FIELD_P)"
  shows "check_cell err want Y t i = Inr None"
  using assms by (simp add: check_cell_def)

lemma spec_matmul:
  assumes ok: "cfg_ok cfg kr kb" and X: "mat m n X" and W: "mat p n W" and p: "0 < p"
  shows "spec cfg (b_matmul name X W) (Tally 2 (2 * (m * p)) 0 0 0 0 ((1 + kr) * (m * p)) 1 (m * p * n) 0 0 0) (mat m p)"
proof -
  let ?raws = "map (\<lambda>t. map (\<lambda>i. dot_val X t W i n) [0..<p]) [0..<m]"
  let ?Y = "map (map (\<lambda>v. v mod FIELD_P)) ?raws"
  let ?node = "\<lparr>mm_name = name, mm_X = X, mm_W = W, mm_Y = ?Y\<rparr>"
  have w: "length X = m" "length W = p" "length (W ! 0) = n" "W \<noteq> []" using X W p mat_nth [OF W, of 0] by (auto simp: mat_def)
  have r: "rmap (\<lambda>t. rmap (\<lambda>i. dot_at X t W i (length (W ! 0))) [0..<length W]) [0..<length X] = Inr ?raws"
    unfolding w by (rule rmap_grid) (rule dot_at_mat [OF X W])
  have "check_cell (MatmulWrong name t i) (dot_at X t W i n) ?Y t i = Inr None" if "t < m" "i < p" for t i
    using that by (intro check_cell_ok [OF dot_at_mat [OF X W]]) (simp_all add: at2_def)
  then have c: "check_matmul ?node = Inr None" by (simp add: check_matmul_def w first_failure_None)
  have cells: "mm_cells ?node = m * p * n" by (simp add: mm_cells_def w)
  have a: "spec cfg (\<lambda>b. Inr ((), b\<lparr>bd_matmuls := bd_matmuls b @ [?node]\<rparr>)) (Tally 0 0 0 0 0 0 0 1 (m * p * n) 0 0 0) (\<lambda>_. True)"
    by (rule specI) (use c cells w in \<open>simp add: good_def tally_of_def log_len_def\<close>)
  have "spec cfg (b_rescale (concat ?raws)) (div_t kr (m * p)) (\<lambda>q. length q = m * p)"
    using spec_rescale [OF ok, of "concat ?raws"] length_concat_mat [of m p ?raws] by simp
  then have s: "spec cfg (sbind (b_rescale (concat ?raws)) (\<lambda>q. ret (cut_rows (length W) (length X) q))) (div_t kr (m * p)) (mat m p)"
    by (rule spec_sbind [where d' = 0]) (auto intro!: spec_ret mat_cut simp: w zero_tally_def)
  show ?thesis unfolding b_matmul_def r
    by (rule spec_sbind [OF spec_lift [OF refl, where Q = "\<lambda>x. x = ?raws"]], rule refl, rule refl, hypsubst, rule spec_sbind [OF a s refl])
      (simp add: zero_tally_def)
qed

definition moe_val :: "matrix \<Rightarrow> nat \<Rightarrow> matrix list \<Rightarrow> int list \<Rightarrow> nat \<Rightarrow> nat \<Rightarrow> int" where
  "moe_val X t W3 route i n = (\<Sum>j<n. X ! t ! j * W3 ! nat (route ! t) ! i ! j)"

lemma moe_dot_mat:
  assumes X: "mat m n X" and W: "\<And>w. w \<in> set W3 \<Longrightarrow> mat p n w" and r: "length route = m" "\<And>r. r \<in> set route \<Longrightarrow> 0 \<le> r \<and> r < int (length W3)"
    and t: "t < m" "i < p"
  shows "moe_dot X t W3 route i n = Inr (moe_val X t W3 route i n)"
proof -
  have rt: "0 \<le> route ! t \<and> route ! t < int (length W3)" using r t by simp
  then have w: "mat p n (W3 ! nat (route ! t))" "py_index W3 (route ! t) = Inr (W3 ! nat (route ! t))"
    by (auto intro!: W nth_mem simp: py_index_def py_pos_def)
  have "rmap (\<lambda>j. rbind (at2 X t j) (\<lambda>x. rbind (at route t) (\<lambda>r. rbind (py_index W3 r) (\<lambda>w. rbind (at2 w i j) (\<lambda>y. Inr (x * y)))))) [0..<n] =
      Inr (map (\<lambda>j. X ! t ! j * W3 ! nat (route ! t) ! i ! j) [0..<n])"
    using r(1) t by (intro rmap_Inr_map) (simp add: at2_mat [OF X] at2_mat [OF w(1)] w(2))
  then show ?thesis by (simp add: moe_dot_def moe_val_def sum_list_map_upt)
qed

lemma spec_moe:
  assumes ok: "cfg_ok cfg kr kb" and X: "mat m n X" and W: "\<And>w. w \<in> set W3 \<Longrightarrow> mat p n w" and E: "length W3 = E" "0 < E" "0 < p"
    and r: "length route = m" "\<And>r. r \<in> set route \<Longrightarrow> 0 \<le> r \<and> r < int E"
  shows "spec cfg (b_moe_matmul name X W3 route) (Tally 2 (2 * (m * p)) 0 0 0 0 ((1 + kr) * (m * p)) 0 0 1 (E * p * n) m) (mat m p)"
proof -
  let ?raws = "map (\<lambda>t. map (\<lambda>i. moe_val X t W3 route i n) [0..<p]) [0..<m]"
  let ?Y = "map (map (\<lambda>v. v mod FIELD_P)) ?raws"
  let ?node = "\<lparr>me_name = name, me_route = route, me_X = X, me_W = W3, me_Y = ?Y\<rparr>"
  have w0: "W3 \<noteq> []" "mat p n (W3 ! 0)" using E by (auto intro!: W nth_mem)
  then have w: "length X = m" "length (W3 ! 0) = p" "W3 ! 0 \<noteq> []" "length (W3 ! 0 ! 0) = n"
    using X E(3) mat_nth [OF w0(2), of 0] by (auto simp: mat_def)
  have w_at: "at W3 0 = Inr (W3 ! 0)" "at (W3 ! 0) 0 = Inr (W3 ! 0 ! 0)" using w0(1) w(2) E(3) by simp_all
  note dot = moe_dot_mat [OF X W r(1) r(2) [folded E(1)]]
  have g: "rmap (\<lambda>t. rmap (\<lambda>i. moe_dot X t W3 route i n) [0..<p]) [0..<m] = Inr ?raws"
    by (rule rmap_grid) (rule dot)
  have "check_cell (MoeWrong name t i) (moe_dot X t W3 route i n) ?Y t i = Inr None" if "t < m" "i < p" for t i
    using that by (intro check_cell_ok [OF dot]) (simp_all add: at2_def)
  then have c: "check_moe ?node = Inr None" using w by (simp add: check_moe_def first_failure_None w_at)
  have cells: "me_cells ?node = E * p * n" by (simp add: me_cells_def w E)
  have a: "spec cfg (\<lambda>b. Inr ((), b\<lparr>bd_moe := bd_moe b @ [?node]\<rparr>)) (Tally 0 0 0 0 0 0 0 0 0 1 (E * p * n) m) (\<lambda>_. True)"
    by (rule specI) (use c cells w w0(1) r(1) in \<open>simp add: good_def tally_of_def log_len_def\<close>)
  have "spec cfg (b_rescale (concat ?raws)) (div_t kr (m * p)) (\<lambda>q. length q = m * p)"
    using spec_rescale [OF ok, of "concat ?raws"] length_concat_mat [of m p ?raws] by simp
  then have s: "spec cfg (sbind (b_rescale (concat ?raws)) (\<lambda>q. ret (cut_rows p (length X) q))) (div_t kr (m * p)) (mat m p)"
    by (rule spec_sbind [where d' = 0]) (auto intro!: spec_ret mat_cut simp: w zero_tally_def)
  have body: "spec cfg (sbind (lift (rmap (\<lambda>t. rmap (\<lambda>i. moe_dot X t W3 route i n) [0..<p]) [0..<m])) (\<lambda>raws.
      sbind (\<lambda>b. Inr ((), b\<lparr>bd_moe := bd_moe b @ [\<lparr>me_name = name, me_route = route, me_X = X, me_W = W3, me_Y = map (map (\<lambda>v. v mod FIELD_P)) raws\<rparr>]\<rparr>)) (\<lambda>_.
      sbind (b_rescale (concat raws)) (\<lambda>q. ret (cut_rows p (length X) q)))))
      (Tally 2 (2 * (m * p)) 0 0 0 0 ((1 + kr) * (m * p)) 0 0 1 (E * p * n) m) (mat m p)"
    unfolding g by (rule spec_sbind [OF spec_lift [OF refl, where Q = "\<lambda>x. x = ?raws"]], rule refl, rule refl, hypsubst, rule spec_sbind [OF a s refl])
      (simp add: zero_tally_def)
  show ?thesis unfolding b_moe_matmul_def Let_def w_at
    by (rule spec_sbind [OF spec_lift [OF refl, where Q = "\<lambda>x. x = W3 ! 0"]], rule refl, rule refl, hypsubst, unfold w_at,
        rule spec_sbind [OF spec_lift [OF refl, where Q = "\<lambda>x. x = W3 ! 0 ! 0"]], rule refl, rule refl, hypsubst, unfold w, rule body [unfolded w])
      (simp_all only: add_0)
qed

section \<open>The layer\<close>

definition weights_ok :: "toy_config \<Rightarrow> layer_weights \<Rightarrow> bool" where
  "weights_ok cfg w \<longleftrightarrow> (let S = c_S cfg; d = c_d cfg; d_ff = c_dff cfg in
     0 < S \<and> 0 < d \<and> 0 < d_ff \<and> mat S d (w_x w) \<and> mat d d (w_q w) \<and> mat d d (w_k w) \<and> mat d d (w_v w) \<and> mat d d (w_o w) \<and>
     length (w_cos w) = d \<and> length (w_sin w) = d \<and> length (w_experts w) = max (c_E cfg) 1 \<and>
     (\<forall>(g, u, dn) \<in> set (w_experts w). mat d_ff d g \<and> mat d_ff d u \<and> mat d d_ff dn) \<and>
     length (w_route w) = S \<and> (\<forall>r \<in> set (w_route w). 0 \<le> r \<and> r < int (max (c_E cfg) 1)))"

lemma spec_rows:
  assumes "\<And>t. t < m \<Longrightarrow> spec cfg (f t) D (\<lambda>r. length r = n)"
  shows "spec cfg (smap f [0..<m]) (times_tally m D) (mat m n)"
  using spec_smap [of "[0..<m]" cfg f D "\<lambda>r. length r = n"] assms by (auto simp: mat_def elim!: spec_weaken)

lemma spec_at: "xs ! i = x \<Longrightarrow> i < length xs \<Longrightarrow> spec cfg (f x) D Q \<Longrightarrow> spec cfg (sbind (lift (at xs i)) f) D Q"
  by (rule spec_sbind [OF spec_lift, where Q = "\<lambda>y. y = x"]) auto

lemma spec_rms:
  assumes ok: "cfg_ok cfg kr kb" and x: "mat (c_S cfg) (c_d cfg) x"
  defines "S \<equiv> c_S cfg" and "d \<equiv> c_d cfg"
  shows "spec cfg (rms_norm cfg x) (Tally (3 + 3 * S) (S * d + 2 * S + S * (3 * d)) 0 0 S 0 ((1 + kb) * S + S * ((1 + kr) * d)) 0 0 0 0 0) (mat S d)"
proof -
  let ?flat = "concat x" and ?ss = "map (\<lambda>row. sum_list (map (\<lambda>v. v * v) row)) x"
  let ?g = "hadamard_gate ''rms_sq'' ?flat ?flat (map (\<lambda>v. (v * v) mod FIELD_P) ?flat)"
  have l: "length ?flat = S * d" "length ?ss = S" using x length_concat_mat [OF x] by (simp_all add: mat_def S_def d_def)
  have g: "good_gate ?g \<and> first_len (g_terms ?g) = length ?flat" by (rule good_hadamard_gate) simp_all
  have e: "spec cfg (emit ?g) (gates_t 1 (S * d)) (\<lambda>_. True)" using spec_emit [OF conjunct1 [OF g], of cfg] by (simp only: conjunct2 [OF g] l)
  have b: "spec cfg (b_bracket (map (\<lambda>v. v mod FIELD_P) ?ss)) (div_t kb S) (\<lambda>los. length los = S \<and> (\<forall>v \<in> set los. 0 \<le> v \<and> v < 2 ^ c_table_bits cfg))"
    using spec_bracket [OF ok, of "map (\<lambda>v. v mod FIELD_P) ?ss"] l by simp
  have rows: "spec cfg (smap (\<lambda>t. sbind (lift (at x t)) (\<lambda>row. sbind (lift (at inv t)) (\<lambda>s. b_mul_rescaled row (replicate d s) ''rms''))) [0..<S])
      (times_tally S (Tally 3 (3 * d) 0 0 0 0 ((1 + kr) * d) 0 0 0 0 0)) (mat S d)" if "length inv = S" for inv
  proof (rule spec_rows)
    fix t assume t: "t < S"
    show "spec cfg (sbind (lift (at x t)) (\<lambda>row. sbind (lift (at inv t)) (\<lambda>s. b_mul_rescaled row (replicate d s) ''rms'')))
        (Tally 3 (3 * d) 0 0 0 0 ((1 + kr) * d) 0 0 0 0 0) (\<lambda>r. length r = d)"
      by (rule spec_at [OF refl], use x t in \<open>simp add: mat_def S_def\<close>, rule spec_at [OF refl], use that t in simp,
          rule spec_mul_rescaled [OF ok]) (use x t mat_nth [OF x] in \<open>simp_all add: S_def d_def\<close>)
  qed
  have k: "spec cfg (sbind (b_lookup ''isqrt'' ss_b) (\<lambda>inv. smap (\<lambda>t. sbind (lift (at x t)) (\<lambda>row. sbind (lift (at inv t)) (\<lambda>s. b_mul_rescaled row (replicate d s) ''rms''))) [0..<S]))
      (logs_t ''isqrt'' S + times_tally S (Tally 3 (3 * d) 0 0 0 0 ((1 + kr) * d) 0 0 0 0 0)) (mat S d)"
    if "length ss_b = S \<and> (\<forall>v \<in> set ss_b. 0 \<le> v \<and> v < 2 ^ c_table_bits cfg)" for ss_b
  proof (rule spec_sbind [OF _ _ refl])
    show "spec cfg (b_lookup ''isqrt'' ss_b) (logs_t ''isqrt'' S) (\<lambda>inv. length inv = S)"
      using spec_lookup [of "''isqrt''" ss_b cfg] that by (simp add: table_names_def)
  qed (rule rows)
  show ?thesis unfolding rms_norm_def Let_def S_def [symmetric] d_def [symmetric]
    by (rule spec_sbind [OF e spec_sbind [OF b k refl]]) (simp_all add: logs_t_def)
qed

lemma spec_rope:
  assumes ok: "cfg_ok cfg kr kb" and m: "mat (c_S cfg) (c_d cfg) mt" and cs: "length cos = c_d cfg" "length sin = c_d cfg"
  defines "S \<equiv> c_S cfg" and "d \<equiv> c_d cfg"
  shows "spec cfg (rope cfg cos sin tag mt) (Tally (S * 3) (S * (3 * d)) 0 0 0 0 (S * ((1 + kr) * d)) 0 0 0 0 0) (mat S d)"
proof -
  have row: "spec cfg (rope_row cfg cos sin tag mt t) (Tally 3 (3 * d) 0 0 0 0 ((1 + kr) * d) 0 0 0 0 0) (\<lambda>r. length r = d)" if t: "t < S" for t
  proof -
    let ?ps = "map (\<lambda>j. (mt ! t ! j * cos ! j, mt ! t ! ((j + 1) mod d) * sin ! j)) [0..<d]"
    have p: "rmap (\<lambda>j. rbind (at2 mt t j) (\<lambda>m. rbind (at cos j) (\<lambda>c. rbind (at2 mt t ((j + 1) mod d)) (\<lambda>m'. rbind (at sin j) (\<lambda>s. Inr (m * c, m' * s)))))) [0..<d] = Inr ?ps"
    proof (rule rmap_Inr_map)
      fix j assume "j \<in> set [0..<d]"
      then have j: "j < d" "(j + 1) mod d < d" by simp_all
      have "at2 mt t j = Inr (mt ! t ! j)" "at2 mt t ((j + 1) mod d) = Inr (mt ! t ! ((j + 1) mod d))"
        using at2_mat [OF m] t j by (simp_all add: S_def d_def)
      then show "rbind (at2 mt t j) (\<lambda>m. rbind (at cos j) (\<lambda>c. rbind (at2 mt t ((j + 1) mod d)) (\<lambda>m'. rbind (at sin j) (\<lambda>s. Inr (m * c, m' * s))))) =
          Inr (mt ! t ! j * cos ! j, mt ! t ! ((j + 1) mod d) * sin ! j)" using j cs by (simp add: d_def)
    qed
    let ?rot = "map (\<lambda>(a, b). a + b) ?ps"
    let ?g = "affine (''rope_'' @ tag @ ''_'' @ dec_str t) [1, 1] [map (\<lambda>(a, b). a mod FIELD_P) ?ps, map (\<lambda>(a, b). b mod FIELD_P) ?ps] (map (\<lambda>r. r mod FIELD_P) ?rot)"
    have "good_gate ?g \<and> first_len (g_terms ?g) = length (map (\<lambda>r. r mod FIELD_P) ?rot)"
      by (rule good_affine_gate) (auto simp: mod_add_eq)
    then have g: "good_gate ?g" "first_len (g_terms ?g) = d" by simp_all
    have e: "spec cfg (emit ?g) (gates_t 1 d) (\<lambda>_. True)" using spec_emit [OF g(1), of cfg] by (simp only: g(2))
    have r: "spec cfg (b_rescale ?rot) (div_t kr d) (\<lambda>qs. length qs = d)" using spec_rescale [OF ok, of ?rot] by simp
    show ?thesis unfolding rope_row_def Let_def d_def [symmetric] p
      by (rule spec_sbind [OF spec_lift [OF refl, where Q = "\<lambda>x. x = ?ps"]], rule refl, rule refl, hypsubst, rule spec_sbind [OF e r refl])
        (simp add: zero_tally_def)
  qed
  have drop0: "drop S mt = []" using m by (simp add: mat_def S_def)
  have t: "times_tally S (Tally 3 (3 * d) 0 0 0 0 ((1 + kr) * d) 0 0 0 0 0) + 0 = Tally (S * 3) (S * (3 * d)) 0 0 0 0 (S * ((1 + kr) * d)) 0 0 0 0 0"
    by (simp add: zero_tally_def)
  show ?thesis unfolding rope_def S_def [symmetric] drop0 append_Nil2 t [symmetric]
    by (rule spec_sbind [OF spec_rows [OF row]]) (auto intro: spec_ret)
qed

lemma spec_residual:
  assumes "mat (c_S cfg) n x" "mat (c_S cfg) n y"
  shows "spec cfg (residual cfg x y tag) (gates_t (c_S cfg) (c_S cfg * n)) (mat (c_S cfg) n)"
proof -
  have "spec cfg (smap (\<lambda>t. sbind (lift (at x t)) (\<lambda>a. sbind (lift (at y t)) (\<lambda>b. b_add a b tag))) [0..<c_S cfg]) (times_tally (c_S cfg) (gates_t 1 n)) (mat (c_S cfg) n)"
  proof (rule spec_rows)
    fix t assume t: "t < c_S cfg"
    show "spec cfg (sbind (lift (at x t)) (\<lambda>a. sbind (lift (at y t)) (\<lambda>b. b_add a b tag))) (gates_t 1 n) (\<lambda>r. length r = n)"
      by (rule spec_at [OF refl], use assms t in \<open>simp add: mat_def\<close>, rule spec_at [OF refl], use assms t in \<open>simp add: mat_def\<close>, rule spec_add)
        (use assms t in \<open>simp_all add: mat_nth\<close>)
  qed
  then show ?thesis by (simp add: residual_def)
qed

lemma spec_attention:
  assumes ok: "cfg_ok cfg kr kb" and q: "mat (c_S cfg) (c_d cfg) q" and k: "mat (c_S cfg) (c_d cfg) k"
  defines "S \<equiv> c_S cfg" and "d \<equiv> c_d cfg"
  shows "spec cfg (attention_probs cfg q k) (Tally (5 + 3 * S) (S * S + 2 * (S * S) + 2 * S + S * (3 * S)) (S * S) 0 0 S
    ((1 + kb) * (S * S) + (1 + kb) * S + S * ((1 + kr) * S)) 0 0 0 0 0) (mat S S)"
proof -
  let ?in = "\<lambda>v :: int. 0 \<le> v \<and> v < 2 ^ c_table_bits cfg"
  let ?scores = "map (\<lambda>t. map (\<lambda>i. if i \<le> t then dot_val q t k i d else 0) [0..<S]) [0..<S]"
  let ?mask = "concat (map (\<lambda>t. map (\<lambda>i. if i \<le> t then 1 else 0) [0..<S]) [0..<S]) :: int list"
  have sc: "rmap (\<lambda>t. rmap (\<lambda>i. if i \<le> t then dot_at q t k i d else Inr 0) [0..<S]) [0..<S] = Inr ?scores"
    using dot_at_mat [OF q k] by (intro rmap_grid) (simp add: S_def d_def)
  have lm: "length ?mask = S * S" "length (concat ?scores) = S * S" by (rule length_concat_mat; simp)+
  have "good_gate (booleanity ''causal_mask'' ?mask) \<and> first_len (g_terms (booleanity ''causal_mask'' ?mask)) = length ?mask"
  proof (rule good_boolean_gate)
    fix i assume "i < length ?mask"
    then have "?mask ! i \<in> set ?mask" by (rule nth_mem)
    then show "?mask ! i = 0 \<or> ?mask ! i = 1" by (auto split: if_splits)
  qed
  then have g: "good_gate (booleanity ''causal_mask'' ?mask)" "first_len (g_terms (booleanity ''causal_mask'' ?mask)) = S * S" unfolding lm by blast+
  have e: "spec cfg (emit (booleanity ''causal_mask'' ?mask)) (gates_t 1 (S * S)) (\<lambda>_. True)" using spec_emit [OF g(1), of cfg] by (simp only: g(2))
  have b1: "spec cfg (b_bracket (map (\<lambda>v. v mod FIELD_P) (concat ?scores))) (div_t kb (S * S)) (\<lambda>los. length los = S * S \<and> (\<forall>v \<in> set los. ?in v))"
    using spec_bracket [OF ok, of "map (\<lambda>v. v mod FIELD_P) (concat ?scores)"] by (simp only: length_map lm)
  have l1: "spec cfg (b_lookup ''exp'' sb) (logs_t ''exp'' (S * S)) (\<lambda>ys. length ys = S * S)" if "length sb = S * S \<and> (\<forall>v \<in> set sb. ?in v)" for sb
    using spec_lookup [of "''exp''" sb cfg] that by (simp add: table_names_def)
  have b2: "spec cfg (b_bracket (map (\<lambda>row. sum_list row mod FIELD_P) e)) (div_t kb S) (\<lambda>los. length los = S \<and> (\<forall>v \<in> set los. ?in v))" if "mat S S e" for e
    using spec_bracket [OF ok, of "map (\<lambda>row. sum_list row mod FIELD_P) e"] that by (simp add: mat_def)
  have l2: "spec cfg (b_lookup ''recip'' sb) (logs_t ''recip'' S) (\<lambda>ys. length ys = S)" if "length sb = S \<and> (\<forall>v \<in> set sb. ?in v)" for sb
    using spec_lookup [of "''recip''" sb cfg] that by (simp add: table_names_def)
  have rows: "spec cfg (smap (\<lambda>t. sbind (lift (at e t)) (\<lambda>row. sbind (lift (at recip t)) (\<lambda>r. b_mul_rescaled row (replicate S r) ''softmax''))) [0..<S])
      (times_tally S (Tally 3 (3 * S) 0 0 0 0 ((1 + kr) * S) 0 0 0 0 0)) (mat S S)" if "mat S S e" "length recip = S" for e recip
  proof (rule spec_rows)
    fix t assume t: "t < S"
    show "spec cfg (sbind (lift (at e t)) (\<lambda>row. sbind (lift (at recip t)) (\<lambda>r. b_mul_rescaled row (replicate S r) ''softmax'')))
        (Tally 3 (3 * S) 0 0 0 0 ((1 + kr) * S) 0 0 0 0 0) (\<lambda>r. length r = S)"
      by (rule spec_at [OF refl], use that t in \<open>simp add: mat_def\<close>, rule spec_at [OF refl], use that t in simp, rule spec_mul_rescaled [OF ok])
        (use that t in \<open>simp_all add: mat_nth\<close>)
  qed
  have norm: "spec cfg (sbind (b_bracket (map (\<lambda>row. sum_list row mod FIELD_P) e)) (\<lambda>sb2. sbind (b_lookup ''recip'' sb2) (\<lambda>recip.
      smap (\<lambda>t. sbind (lift (at e t)) (\<lambda>row. sbind (lift (at recip t)) (\<lambda>r. b_mul_rescaled row (replicate S r) ''softmax''))) [0..<S])))
      (div_t kb S + (logs_t ''recip'' S + times_tally S (Tally 3 (3 * S) 0 0 0 0 ((1 + kr) * S) 0 0 0 0 0))) (mat S S)" if "mat S S e" for e
    by (rule spec_sbind [OF b2 [OF that] spec_sbind [OF l2 rows [OF that] refl] refl])
  show ?thesis unfolding attention_probs_def Let_def S_def [symmetric] d_def [symmetric] sc
    by (rule spec_sbind [OF spec_lift [OF refl, where Q = "\<lambda>x. x = ?scores"]], rule refl, rule refl, hypsubst,
        rule spec_sbind [OF e spec_sbind [OF b1 spec_sbind [OF l1 norm [OF mat_cut] refl] refl] refl])
      (simp_all add: zero_tally_def logs_t_def)
qed

lemma spec_ffn:
  assumes ok: "cfg_ok cfg kr kb" and w: "weights_ok cfg w" and h: "mat (c_S cfg) (c_d cfg) h"
  defines "S \<equiv> c_S cfg" and "d \<equiv> c_d cfg" and "f \<equiv> c_dff cfg" and "E \<equiv> max (c_E cfg) 1"
  shows "spec cfg (ffn cfg w h) (Tally (6 + S * 5) (2 * (S * f) + 2 * (S * f) + S * (5 * f) + 2 * (S * d)) 0 (S * f) 0 0
    ((1 + kr) * (S * f) + (1 + kr) * (S * f) + S * ((1 + kb) * f + (1 + kr) * f) + (1 + kr) * (S * d)) 0 0 3
    (E * f * d + E * f * d + E * d * f) (S + S + S)) (mat S d)"
proof -
  note wk = w [unfolded weights_ok_def Let_def, folded S_def d_def f_def E_def]
  have E0: "0 < E" by (simp add: E_def)
  have ex: "length (map fst (w_experts w)) = E" "length (map (fst \<circ> snd) (w_experts w)) = E" "length (map (snd \<circ> snd) (w_experts w)) = E" using wk by simp_all
  have r: "length (w_route w) = S" "\<And>r. r \<in> set (w_route w) \<Longrightarrow> 0 \<le> r \<and> r < int E" using wk by blast+
  have ms: "\<And>m. m \<in> set (map fst (w_experts w)) \<Longrightarrow> mat f d m" "\<And>m. m \<in> set (map (fst \<circ> snd) (w_experts w)) \<Longrightarrow> mat f d m"
    "\<And>m. m \<in> set (map (snd \<circ> snd) (w_experts w)) \<Longrightarrow> mat d f m" using wk by fastforce+
  have f0: "0 < f" and d0: "0 < d" using wk by blast+
  note gate = spec_moe [OF ok h [folded S_def d_def] ms(1) ex(1) E0 f0 r] and up = spec_moe [OF ok h [folded S_def d_def] ms(2) ex(2) E0 f0 r]
  have row: "spec cfg (sbind (lift (at g_all t)) (\<lambda>g. sbind (b_bracket g) (\<lambda>gb. sbind (b_lookup ''silu'' gb) (\<lambda>sg.
      sbind (lift (at u_all t)) (\<lambda>u. b_mul_rescaled sg u ''swiglu''))))) (div_t kb f + (logs_t ''silu'' f + Tally 3 (3 * f) 0 0 0 0 ((1 + kr) * f) 0 0 0 0 0)) (\<lambda>r. length r = f)"
    if "mat S f g_all" "mat S f u_all" "t < S" for g_all u_all t
  proof -
    have b: "spec cfg (b_bracket (g_all ! t)) (div_t kb f) (\<lambda>los. length los = f \<and> (\<forall>v \<in> set los. 0 \<le> v \<and> v < 2 ^ c_table_bits cfg))"
      using spec_bracket [OF ok, of "g_all ! t"] mat_nth [OF that(1,3)] by simp
    have l: "spec cfg (b_lookup ''silu'' gb) (logs_t ''silu'' f) (\<lambda>ys. length ys = f)" if "length gb = f \<and> (\<forall>v \<in> set gb. 0 \<le> v \<and> v < 2 ^ c_table_bits cfg)" for gb
      using spec_lookup [of "''silu''" gb cfg] that by (simp add: table_names_def)
    have m: "spec cfg (sbind (lift (at u_all t)) (\<lambda>u. b_mul_rescaled sg u ''swiglu'')) (Tally 3 (3 * f) 0 0 0 0 ((1 + kr) * f) 0 0 0 0 0) (\<lambda>r. length r = f)"
      if "length sg = f" for sg
      by (rule spec_at [OF refl], use \<open>mat S f u_all\<close> \<open>t < S\<close> in \<open>simp add: mat_def\<close>, rule spec_mul_rescaled [OF ok that mat_nth [OF \<open>mat S f u_all\<close> \<open>t < S\<close>]])
    show ?thesis by (rule spec_at [OF refl], use that in \<open>simp add: mat_def\<close>, rule spec_sbind [OF b spec_sbind [OF l m refl] refl])
  qed
  have rest: "spec cfg (sbind (smap (\<lambda>t. sbind (lift (at g_all t)) (\<lambda>g. sbind (b_bracket g) (\<lambda>gb. sbind (b_lookup ''silu'' gb) (\<lambda>sg.
      sbind (lift (at u_all t)) (\<lambda>u. b_mul_rescaled sg u ''swiglu''))))) [0..<S]) (\<lambda>f_all. b_moe_matmul ''moe_down'' f_all (map (snd \<circ> snd) (w_experts w)) (w_route w)))
      (times_tally S (div_t kb f + (logs_t ''silu'' f + Tally 3 (3 * f) 0 0 0 0 ((1 + kr) * f) 0 0 0 0 0)) +
       Tally 2 (2 * (S * d)) 0 0 0 0 ((1 + kr) * (S * d)) 0 0 1 (E * d * f) S) (mat S d)"
    if "mat S f g_all" "mat S f u_all" for g_all u_all
    by (rule spec_sbind [OF spec_rows [OF row [OF that]] spec_moe [OF ok _ ms(3) ex(3) E0 d0 r] refl])
  show ?thesis unfolding ffn_def S_def [symmetric]
    by (rule spec_sbind [OF gate spec_sbind [OF up rest refl]]) (simp_all add: logs_t_def)
qed

end
