(* ===== verification/Count_Model.thy ===== *)
theory Count_Model
  imports Semantics_Sound
begin

text \<open>
  The shape model of \<^verbatim>\<open>layergkr/count_model.py\<close> (\<open>predict_trace_shape\<close>) and the properties of the
  layer semantics: the trace \<open>forward\<close> returns is accepted by \<open>check_trace\<close>, has the predicted
  shape, and a ranged quotient is the integer quotient.
\<close>

section \<open>The predicted shape\<close>

record trace_shape =
  ts_matmuls :: nat
  ts_matmul_cells :: nat
  ts_gates :: nat
  ts_gate_slots :: nat
  ts_lookup_queries :: nat
  ts_table_rows :: nat
  ts_moe_nodes :: nat
  ts_moe_cells :: nat

definition predict_trace_shape :: "toy_config \<Rightarrow> bool \<Rightarrow> trace_shape result" where
  "predict_trace_shape cfg quotient_bound =
     (let S = c_S cfg; d = c_d cfg; d_ff = c_dff cfg; E = max (c_E cfg) 1; n_tab = 2 ^ c_table_bits cfg;
          matmuls = 5; cells = 4 * S * d * d + S * S * d; moe_cells = 3 * E * d * d_ff;
          qb = (if quotient_bound then 1 else 0);
          gates = 13 + 13 * S + qb * (11 + 6 * S);
          n_rescaled = 9 * S * d + S * S + 3 * S * d_ff;
          n_bracketed = 2 * S + S * S + S * d_ff;
          slots = 15 * S * d + 4 * S * S + 5 * S * d_ff + 2 * S + qb * (n_rescaled + n_bracketed)
      in rbind (quotient_words (c_scale_bits cfg) (c_table_bits cfg)) (\<lambda>k_r.
         rbind (quotient_words (c_table_bits cfg) (c_table_bits cfg)) (\<lambda>k_b.
           let range_checks = 9 * S * d + 2 * S * S + 4 * S * d_ff + 2 * S + qb * (k_r * n_rescaled + k_b * n_bracketed);
               tables = 2 * S + S * S + S * d_ff
           in Inr \<lparr>ts_matmuls = matmuls, ts_matmul_cells = cells, ts_gates = gates, ts_gate_slots = slots,
                ts_lookup_queries = range_checks + tables, ts_table_rows = 5 * n_tab, ts_moe_nodes = 3, ts_moe_cells = moe_cells\<rparr>)))"

definition shape_of :: "trace_counts \<Rightarrow> trace_shape" where
  "shape_of c = \<lparr>ts_matmuls = n_matmuls c, ts_matmul_cells = n_matmul_cells c, ts_gates = n_gates c, ts_gate_slots = n_gate_slots c,
     ts_lookup_queries = n_lookup_queries c, ts_table_rows = n_table_rows c, ts_moe_nodes = n_moe_nodes c, ts_moe_cells = n_moe_cells c\<rparr>"

section \<open>The whole layer\<close>

definition layer_tally :: "toy_config \<Rightarrow> nat \<Rightarrow> nat \<Rightarrow> tally" where
  "layer_tally cfg kr kb = (let S = c_S cfg; d = c_d cfg; f = c_dff cfg; E = max (c_E cfg) 1;
       R = 9 * S * d + S * S + 3 * S * f; B = 2 * S + S * S + S * f in
     Tally (24 + 19 * S) (15 * S * d + 4 * S * S + 5 * S * f + 2 * S + (R + B)) (S * S) (S * f) S S
       ((1 + kr) * R + (1 + kb) * B) 5 (4 * S * d * d + S * S * d) 3 (3 * E * d * f) (3 * S))"

lemma spec_layer:
  assumes ok: "cfg_ok cfg kr kb" and w: "weights_ok cfg w"
  shows "spec cfg (layer_steps cfg w) (layer_tally cfg kr kb) (mat (c_S cfg) (c_d cfg))"
proof -
  define S d where "S = c_S cfg" and "d = c_d cfg"
  note wk = w [unfolded weights_ok_def Let_def]
  have x: "mat S d (w_x w)" and sq: "mat d d (w_q w)" "mat d d (w_k w)" "mat d d (w_v w)" "mat d d (w_o w)" and d0: "0 < d"
    and cs: "length (w_cos w) = c_d cfg" "length (w_sin w) = c_d cfg"
    using wk by (simp_all add: S_def d_def)
  note defs = S_def [symmetric] d_def [symmetric]
  note rms = spec_rms [OF ok x [unfolded S_def d_def], unfolded defs]
  note mm = spec_matmul [OF ok _ _ d0] and rp = spec_rope [OF ok _ cs, unfolded defs]
  have vt: "spec cfg (lift (rmap (\<lambda>j. rmap (\<lambda>i. at2 v i j) [0..<S]) [0..<d])) 0 (mat d S)" if v: "mat S d v" for v
  proof -
    have "rmap (\<lambda>j. rmap (\<lambda>i. at2 v i j) [0..<S]) [0..<d] = Inr (map (\<lambda>j. map (\<lambda>i. v ! i ! j) [0..<S]) [0..<d])"
      by (rule rmap_grid) (rule at2_mat [OF v])
    then show ?thesis by (rule spec_lift) simp_all
  qed
  note att = spec_attention [OF ok, unfolded defs] and res = spec_residual [where cfg = cfg, unfolded defs] and ff = spec_ffn [OF ok w, unfolded defs]
  show ?thesis unfolding layer_steps_def defs
    by (rule spec_sbind [OF rms], rule spec_sbind [OF mm [OF _ sq(1)]], assumption, rule spec_sbind [OF mm [OF _ sq(2)]], assumption,
        rule spec_sbind [OF mm [OF _ sq(3)]], assumption, rule spec_sbind [OF rp], assumption, rule spec_sbind [OF rp], assumption,
        rule spec_sbind [OF att], assumption, assumption, rule spec_sbind [OF vt], assumption,
        rule spec_sbind [OF mm], assumption, assumption, rule spec_sbind [OF mm [OF _ sq(4)]], assumption,
        rule spec_sbind [OF res [OF x]], assumption, rule spec_sbind [OF ff], assumption, rule res, assumption, assumption, (rule refl)+)
      (simp add: layer_tally_def Let_def defs zero_tally_def algebra_simps)
qed

lemma named_list: "map fst xs = table_names \<Longrightarrow> \<exists>a b c d e. xs = [(''exp'', a), (''silu'', b), (''isqrt'', c), (''recip'', d), (''range'', e)]"
  by (auto simp: table_names_def Cons_eq_map_conv map_eq_Cons_conv)

lemma built_tables:
  assumes "build_tables bits scale = Inr tabs"
  shows "map fst tabs = table_names \<and> (\<forall>(k, t) \<in> set tabs. tab_size t = 2 ^ bits \<and> distinct (map fst (tab_rows t)) \<and> map_of tabs k = Some t)"
proof -
  have e: "map fst (table_rows n f) = map int [0..<n]" for n f by (simp add: table_rows_def comp_def)
  have "distinct (map fst (table_rows n f)) \<and> length (table_rows n f) = n" for n f unfolding e by (simp add: distinct_map table_rows_def)
  then show ?thesis using assms
    by (auto simp: build_tables_def table_names_def tab_size_def Let_def simp del: distinct_map map_map split: if_splits)
qed

lemma use_ok:
  assumes "distinct (map fst (tab_rows t))" "set qs \<subseteq> set (tab_rows t)"
  shows "check_use \<lparr>us_table = t, us_queries = qs\<rparr> = Inr None"
proof -
  have "map_of (rev (tab_rows t)) x = Some y" if "(x, y) \<in> set qs" for x y
    using that assms by (intro map_of_is_SomeI) (auto simp: rev_map [symmetric])
  then show ?thesis by (auto simp: check_use_def first_failure_None)
qed

lemma new_builder_good:
  assumes "build_tables (c_table_bits cfg) (c_scale cfg) = Inr tabs"
  shows "good cfg (new_builder cfg tabs) \<and> tally_of (new_builder cfg tabs) = 0"
proof -
  have n: "map fst tabs = table_names" using built_tables [OF assms] by blast
  have z: "map_of (bd_lookups (new_builder cfg ts)) nm = None \<or> map_of (bd_lookups (new_builder cfg ts)) nm = Some []" for ts nm
    unfolding new_builder_def builder.simps by (induction ts) auto
  have "log_len (new_builder cfg tabs) nm = 0" for nm using z [of tabs nm] by (auto simp: log_len_def)
  moreover have "map fst (map (\<lambda>(k, t). (k, [])) tabs) = map fst tabs" by (induction tabs) auto
  moreover have "list_all (\<lambda>(name, qs). list_all (good_query tabs name) qs) (map (\<lambda>(k, t). (k, [])) tabs)" by (simp add: list_all_iff split: prod.splits)
  ultimately show ?thesis using assms n by (simp add: good_def tally_of_def zero_tally_def new_builder_def)
qed

text \<open>The builder at the end of a run.\<close>

lemma forward_runs:
  assumes ok: "cfg_ok cfg kr kb" and w: "weights_ok cfg w"
  shows "forward cfg w = Inl RuntimeError \<or> (\<exists>tabs y b. build_tables (c_table_bits cfg) (c_scale cfg) = Inr tabs \<and>
    good cfg b \<and> bd_tables b = tabs \<and> tally_of b = layer_tally cfg kr kb \<and> mat (c_S cfg) (c_d cfg) y \<and>
    forward cfg w = Inr \<lparr>lt_cfg = cfg, lt_x_in = w_x w, lt_y_out = map (map (\<lambda>v. v mod FIELD_P)) y, lt_matmuls = bd_matmuls b, lt_moe = bd_moe b,
      lt_gates = bd_gates b, lt_lookups = trace_lookups tabs (bd_lookups b), lt_route = w_route w,
      lt_expert_weights = map fst (w_experts w), lt_peak_value = 0, lt_peak_bound = 0\<rparr>)"
proof -
  have "c_scale cfg \<noteq> 0" by (simp add: c_scale_def)
  then obtain tabs where t: "build_tables (c_table_bits cfg) (c_scale cfg) = Inr tabs" by (simp add: build_tables_def Let_def)
  note nb = new_builder_good [OF t]
  from specD [OF spec_layer [OF ok w] conjunct1 [OF nb]] consider "layer_steps cfg w (new_builder cfg tabs) = Inl RuntimeError"
    | y b where "layer_steps cfg w (new_builder cfg tabs) = Inr (y, b)" "good cfg b" "tally_of b = layer_tally cfg kr kb" "mat (c_S cfg) (c_d cfg) y"
    using nb by auto
  then show ?thesis
  proof cases
    case 1
    then show ?thesis by (simp add: forward_def t)
  next
    case 2
    have "bd_tables b = tabs" using 2(2) t by (simp add: good_def)
    then show ?thesis using 2 t by (intro disjI2 exI [of _ tabs] exI [of _ y] exI [of _ b]) (simp add: forward_def)
  qed
qed

lemma good_lookups:
  assumes g: "good cfg b" and pos: "0 < c_S cfg" "0 < c_dff cfg" and t: "tally_of b = layer_tally cfg kr kb"
  shows "list_all (\<lambda>u. check_use u = Inr None) (trace_lookups (bd_tables b) (bd_lookups b)) \<and>
    sum_list (map (\<lambda>l. length (us_queries l)) (trace_lookups (bd_tables b) (bd_lookups b))) =
      log_len b ''exp'' + log_len b ''silu'' + log_len b ''isqrt'' + log_len b ''recip'' + log_len b ''range'' \<and>
    sum_list (map (\<lambda>l. tab_size (us_table l)) (trace_lookups (bd_tables b) (bd_lookups b))) = 5 * 2 ^ c_table_bits cfg \<and>
    length (trace_lookups (bd_tables b) (bd_lookups b)) = 5"
proof -
  have bt: "build_tables (c_table_bits cfg) (c_scale cfg) = Inr (bd_tables b)" and lk: "map fst (bd_lookups b) = table_names"
    and gq: "\<And>name qs q. (name, qs) \<in> set (bd_lookups b) \<Longrightarrow> q \<in> set qs \<Longrightarrow> good_query (bd_tables b) name q"
    using g by (auto simp: good_def list_all_iff)
  note T = built_tables [OF bt]
  obtain ta tb tc td te where ts: "bd_tables b = [(''exp'', ta), (''silu'', tb), (''isqrt'', tc), (''recip'', td), (''range'', te)]"
    using named_list T by blast
  obtain qa qb qc qd qe where qs: "bd_lookups b = [(''exp'', qa), (''silu'', qb), (''isqrt'', qc), (''recip'', qd), (''range'', qe)]"
    using named_list [OF lk] by blast
  have l: "log_len b ''exp'' = length qa" "log_len b ''silu'' = length qb" "log_len b ''isqrt'' = length qc" "log_len b ''recip'' = length qd"
    "log_len b ''range'' = length qe" by (simp_all add: log_len_def qs)
  have "length qa = c_S cfg * c_S cfg" "length qb = c_S cfg * c_dff cfg" "length qc = c_S cfg" "length qd = c_S cfg"
    "length qe = (1 + kr) * (9 * c_S cfg * c_d cfg + c_S cfg * c_S cfg + 3 * c_S cfg * c_dff cfg) + (1 + kb) * (2 * c_S cfg + c_S cfg * c_S cfg + c_S cfg * c_dff cfg)"
    using t by (simp_all add: tally_of_def layer_tally_def Let_def l)
  then have ne: "qa \<noteq> []" "qb \<noteq> []" "qc \<noteq> []" "qd \<noteq> []" "qe \<noteq> []" using pos by auto
  have tl: "trace_lookups (bd_tables b) (bd_lookups b) = [\<lparr>us_table = ta, us_queries = qa\<rparr>, \<lparr>us_table = tb, us_queries = qb\<rparr>,
      \<lparr>us_table = tc, us_queries = qc\<rparr>, \<lparr>us_table = td, us_queries = qd\<rparr>, \<lparr>us_table = te, us_queries = qe\<rparr>]"
    using ne by (simp add: trace_lookups_def ts qs)
  have sub: "set q \<subseteq> set (tab_rows tt)" if "(nm, q) \<in> set (bd_lookups b)" "(nm, tt) \<in> set (bd_tables b)" for nm q tt
    using gq [OF that(1)] T that(2) by (fastforce simp: good_query_def)
  have uses: "check_use \<lparr>us_table = tt, us_queries = q\<rparr> = Inr None" if "(nm, q) \<in> set (bd_lookups b)" "(nm, tt) \<in> set (bd_tables b)" for nm q tt
    using sub [OF that] T that(2) by (intro use_ok) auto
  have sz: "tab_size tt = 2 ^ c_table_bits cfg" if "(nm, tt) \<in> set (bd_tables b)" for nm tt using T that by blast
  have u: "check_use \<lparr>us_table = ta, us_queries = qa\<rparr> = Inr None" "check_use \<lparr>us_table = tb, us_queries = qb\<rparr> = Inr None"
    "check_use \<lparr>us_table = tc, us_queries = qc\<rparr> = Inr None" "check_use \<lparr>us_table = td, us_queries = qd\<rparr> = Inr None"
    "check_use \<lparr>us_table = te, us_queries = qe\<rparr> = Inr None"
    using uses [of "''exp''" qa ta] uses [of "''silu''" qb tb] uses [of "''isqrt''" qc tc] uses [of "''recip''" qd td] uses [of "''range''" qe te]
    by (simp_all add: ts qs)
  have z: "tab_size ta = 2 ^ c_table_bits cfg" "tab_size tb = 2 ^ c_table_bits cfg" "tab_size tc = 2 ^ c_table_bits cfg"
    "tab_size td = 2 ^ c_table_bits cfg" "tab_size te = 2 ^ c_table_bits cfg"
    using sz [of "''exp''" ta] sz [of "''silu''" tb] sz [of "''isqrt''" tc] sz [of "''recip''" td] sz [of "''range''" te] by (simp_all add: ts)
  show ?thesis unfolding tl by (simp add: u z l)
qed

lemma forward_accepted:
  assumes "cfg_ok cfg kr kb" "weights_ok cfg w" "forward cfg w = Inr tr"
  shows "check_trace tr = Inr None"
proof -
  obtain tabs y b where b: "good cfg b" "bd_tables b = tabs" "tally_of b = layer_tally cfg kr kb"
    and tr: "lt_matmuls tr = bd_matmuls b" "lt_moe tr = bd_moe b" "lt_gates tr = bd_gates b" "lt_lookups tr = trace_lookups tabs (bd_lookups b)"
    using forward_runs [OF assms(1,2)] assms(3) by auto
  have pos: "0 < c_S cfg" "0 < c_dff cfg" using assms(2) by (simp_all add: weights_ok_def Let_def)
  have u: "list_all (\<lambda>u. check_use u = Inr None) (trace_lookups tabs (bd_lookups b))" using good_lookups [OF b(1) pos b(3)] b(2) by simp
  have "first_failure check_gate (bd_gates b) = Inr None" "first_failure check_matmul (bd_matmuls b) = Inr None" "first_failure check_moe (bd_moe b) = Inr None"
    using b(1) good_gate_check by (auto simp: good_def first_failure_None list_all_iff)
  moreover have "first_failure check_use (trace_lookups tabs (bd_lookups b)) = Inr None" using u by (simp add: first_failure_None list_all_iff)
  ultimately show ?thesis by (simp add: check_trace_def tr)
qed

lemma forward_counts:
  assumes "cfg_ok cfg kr kb" "weights_ok cfg w" "forward cfg w = Inr tr"
  shows "\<exists>c. counts tr = Inr c \<and> predict_trace_shape cfg True = Inr (shape_of c) \<and> n_lookup_uses c = 5 \<and> n_moe_route c = 3 * c_S cfg"
proof -
  obtain tabs y b where b: "good cfg b" "bd_tables b = tabs" "tally_of b = layer_tally cfg kr kb"
    and tr: "lt_matmuls tr = bd_matmuls b" "lt_moe tr = bd_moe b" "lt_gates tr = bd_gates b" "lt_lookups tr = trace_lookups tabs (bd_lookups b)"
    using forward_runs [OF assms(1,2)] assms(3) by auto
  have pos: "0 < c_S cfg" "0 < c_dff cfg" using assms(2) by (simp_all add: weights_ok_def Let_def)
  note L = good_lookups [OF b(1) pos b(3), unfolded b(2)]
  have k: "quotient_words (c_scale_bits cfg) (c_table_bits cfg) = Inr kr" "quotient_words (c_table_bits cfg) (c_table_bits cfg) = Inr kb"
    using assms(1) by (simp_all add: cfg_ok_def)
  have mc: "rmap moe_cells (bd_moe b) = Inr (map me_cells (bd_moe b))"
    using b(1) by (intro rmap_Inr_map) (auto simp: good_def list_all_iff moe_cells_def me_cells_def at_def)
  have cc: "rmap matmul_cells (bd_matmuls b) = Inr (map mm_cells (bd_matmuls b))"
    using b(1) by (intro rmap_Inr_map) (auto simp: good_def list_all_iff matmul_cells_def mm_cells_def at_def)
  have gs: "rmap gate_size (bd_gates b) = Inr (map (\<lambda>g. first_len (g_terms g)) (bd_gates b))"
    using b(1) good_gate_check by (intro rmap_Inr_map) (auto simp: good_def list_all_iff)
  note t = b(3) [unfolded tally_of_def layer_tally_def Let_def tally.inject]
  show ?thesis using t L
    by (simp add: counts_def tr mc cc gs predict_trace_shape_def Let_def k shape_of_def algebra_simps)
qed

section \<open>Ranged quotients are integer quotients\<close>

lemma lift_division:
  assumes k: "quotient_words nb wb = Inr k" and ws: "length ws = k" "\<And>w. w \<in> set ws \<Longrightarrow> 0 \<le> w \<and> w < 2 ^ wb"
    and q: "0 \<le> q" "q < FIELD_P" and raw: "0 \<le> raw" "raw < FIELD_P" and r: "0 \<le> r" "r < 2 ^ nb"
    and eq: "(\<Sum>j<k. 2 ^ (wb * j) * ws ! j) mod FIELD_P = q mod FIELD_P" "raw mod FIELD_P = (2 ^ nb * q + r) mod FIELD_P"
  shows "q = raw div 2 ^ nb \<and> r = raw mod 2 ^ nb \<and> raw < 2 ^ (nb + wb * k)"
proof -
  have sum: "0 \<le> (\<Sum>j<n. 2 ^ (wb * j) * ws ! j) \<and> (\<Sum>j<n. 2 ^ (wb * j) * ws ! j) < 2 ^ (wb * n)" if "n \<le> k" for n
    using that
  proof (induction n)
    case (Suc n)
    then have "0 \<le> ws ! n \<and> ws ! n \<le> 2 ^ wb - 1" using ws by force
    then have "2 ^ (wb * n) * ws ! n \<le> 2 ^ (wb * n) * (2 ^ wb - 1)" "0 \<le> 2 ^ (wb * n) * ws ! n" by simp_all
    then show ?case using Suc by (simp add: power_add algebra_simps)
  qed simp
  have b63: "(2 :: int) ^ (nb + wb * k) \<le> 2 ^ 63" using quotient_words_pos [OF k] by (intro power_increasing) simp_all
  have P: "(2 :: int) ^ 63 < FIELD_P" by (simp add: FIELD_P_val)
  have "(2 :: int) ^ (wb * k) \<le> 2 ^ (nb + wb * k)" by (rule power_increasing) simp_all
  then have "(\<Sum>j<k. 2 ^ (wb * j) * ws ! j) < FIELD_P" using sum [of k] b63 P by linarith
  then have qs: "q = (\<Sum>j<k. 2 ^ (wb * j) * ws ! j)" using eq(1) q sum [of k] by simp
  then have "q \<le> 2 ^ (wb * k) - 1" using sum [of k] by simp
  then have "2 ^ nb * q \<le> 2 ^ nb * (2 ^ (wb * k) - 1)" by simp
  then have up: "2 ^ nb * q + r < 2 ^ (nb + wb * k)" using r by (simp add: power_add algebra_simps)
  then have "raw = 2 ^ nb * q + r" using eq(2) raw q r b63 P by simp
  then show ?thesis using up r by simp
qed

lemma quotient_lifts:
  assumes k: "quotient_words nb wb = Inr k" and ws: "length ws = k" "\<And>w v. w \<in> set ws \<Longrightarrow> v \<in> set w \<Longrightarrow> 0 \<le> v \<and> v < 2 ^ wb"
    and len: "length qs = length raws" "length rs = length raws" "\<And>w. w \<in> set ws \<Longrightarrow> length w = length raws"
    and fld: "\<And>v. v \<in> set raws \<union> set qs \<Longrightarrow> 0 \<le> v \<and> v < FIELD_P" and r: "\<And>v. v \<in> set rs \<Longrightarrow> 0 \<le> v \<and> v < 2 ^ nb"
    and g1: "gate_holds (rescale nd1 raws qs rs (2 ^ nb)) (length raws)"
    and g2: "gate_holds (affine nd2 (map (\<lambda>j. 2 ^ (wb * j)) [0..<k]) ws qs) (length raws)"
  shows "qs = map (\<lambda>v. v div 2 ^ nb) raws \<and> rs = map (\<lambda>v. v mod 2 ^ nb) raws \<and> (\<forall>v \<in> set raws. v < 2 ^ (nb + wb * k))"
proof -
  have each: "qs ! i = raws ! i div 2 ^ nb \<and> rs ! i = raws ! i mod 2 ^ nb \<and> raws ! i < 2 ^ (nb + wb * k)" if i: "i < length raws" for i
  proof (rule lift_division [OF k, of "map (\<lambda>w. w ! i) ws"])
    show "length (map (\<lambda>w. w ! i) ws) = k" using ws by simp
    show "0 \<le> w \<and> w < 2 ^ wb" if "w \<in> set (map (\<lambda>w. w ! i) ws)" for w using that ws(2) len(3) i by auto
    show "0 \<le> qs ! i" "qs ! i < FIELD_P" "0 \<le> raws ! i" "raws ! i < FIELD_P" using fld [of "qs ! i"] fld [of "raws ! i"] i len by simp_all
    show "0 \<le> rs ! i" "rs ! i < 2 ^ nb" using r [of "rs ! i"] i len by simp_all
    have "gate_value (rescale nd1 raws qs rs (2 ^ nb)) i = 0" using g1 i by (simp add: gate_holds_def)
    then show "raws ! i mod FIELD_P = (2 ^ nb * qs ! i + rs ! i) mod FIELD_P" unfolding gate_relations(4) using i len by (simp add: at0_def)
    have "gate_value (affine nd2 (map (\<lambda>j. 2 ^ (wb * j)) [0..<k]) ws qs) i = 0" using g2 i by (simp add: gate_holds_def)
    then have g: "sum_list (map (\<lambda>(c, x). c * at0 x i) (zip (map (\<lambda>j. 2 ^ (wb * j)) [0..<k]) ws)) mod FIELD_P = at0 qs i mod FIELD_P" unfolding gate_relations(3) .
    have wz: "ws = map (\<lambda>j. ws ! j) [0..<k]" using ws(1) map_nth [of ws] by simp
    have "sum_list (map (\<lambda>(c, x). c * at0 x i) (zip (map (\<lambda>j. 2 ^ (wb * j)) [0..<k]) (map (\<lambda>j. ws ! j) [0..<k]))) = (\<Sum>j<k. 2 ^ (wb * j) * at0 (ws ! j) i)"
      by (rule sum_list_zip_upt)
    also have "\<dots> = (\<Sum>j<k. 2 ^ (wb * j) * map (\<lambda>w. w ! i) ws ! j)"
      using ws(1) len(3) i by (intro sum.cong refl) (simp add: at0_def)
    finally show "(\<Sum>j<k. 2 ^ (wb * j) * map (\<lambda>w. w ! i) ws ! j) mod FIELD_P = qs ! i mod FIELD_P"
      using g wz i len(1) by (simp add: at0_def)
  qed
  then show ?thesis using len by (auto intro!: nth_equalityI simp: in_set_conv_nth)
qed

section \<open>The range lookup does not enforce its bound\<close>

lemma int_div_less_power: "(raw :: int) < 2 ^ (m + n) \<Longrightarrow> raw div 2 ^ m < 2 ^ n"
proof -
  assume a: "raw < 2 ^ (m + n)"
  have "raw div 2 ^ m * 2 ^ m = raw - raw mod 2 ^ m" by (rule minus_mod_eq_div_mult [symmetric])
  then have "raw div 2 ^ m * 2 ^ m \<le> raw" by simp
  also have "\<dots> < 2 ^ n * 2 ^ m" using a by (simp add: power_add mult.commute)
  finally show ?thesis using mult_less_cancel_right_pos [of "2 ^ m :: int"] by simp
qed

text \<open>
  The step of \<open>b_divide\<close> with the quotients and remainders as arguments: what a prover can put in
  the witness. \<open>b_rescale\<close> is this step on the true ones.
\<close>

definition divide_with :: "string \<Rightarrow> int \<Rightarrow> nat \<Rightarrow> int list \<Rightarrow> int list \<Rightarrow> int list \<Rightarrow> int list step" where
  "divide_with kind n bits raws qs rs =
     sbind (b_id kind) (\<lambda>nd. sbind (emit (rescale nd raws qs rs n)) (\<lambda>_.
     sbind (b_range_check rs n) (\<lambda>_. sbind (b_bound_quotient qs bits) (\<lambda>_. ret qs))))"

text \<open>The trace a builder holds, as \<open>forward\<close> assembles it.\<close>

definition trace_of :: "builder \<Rightarrow> layer_trace" where
  "trace_of b = \<lparr>lt_cfg = bd_cfg b, lt_x_in = [], lt_y_out = [], lt_matmuls = bd_matmuls b, lt_moe = bd_moe b, lt_gates = bd_gates b,
     lt_lookups = trace_lookups (bd_tables b) (bd_lookups b), lt_route = [], lt_expert_weights = [], lt_peak_value = 0, lt_peak_bound = 0\<rparr>"

lemma sbind_assoc: "sbind (sbind m f) g b = sbind m (\<lambda>x. sbind (f x) g) b"
  by (cases "m b") (auto simp: sbind_def)

lemma sbind_ret: "sbind (ret x) f = f x"
  by (simp add: sbind_def ret_def)

lemma sbind_cong: "(\<And>x b. f x b = g x b) \<Longrightarrow> sbind m f b = sbind m g b"
  by (simp add: sbind_def)

lemma rescale_divide:
  "b_rescale raws b = divide_with ''rescale'' (c_scale (bd_cfg b)) (c_scale_bits (bd_cfg b)) raws
    (map (\<lambda>r. r div c_scale (bd_cfg b)) raws) (map (\<lambda>r. r mod c_scale (bd_cfg b)) raws) b"
  unfolding b_rescale_def b_divide_def divide_with_def Let_def
  by (simp add: sbind_assoc, intro sbind_cong, simp add: sbind_assoc, intro sbind_cong, simp add: sbind_assoc,
      intro sbind_cong, simp add: sbind_assoc sbind_ret)

lemma good_trace:
  assumes g: "good cfg b"
  shows "check_trace (trace_of b) = Inr None"
proof -
  have bt: "build_tables (c_table_bits cfg) (c_scale cfg) = Inr (bd_tables b)" and lk: "map fst (bd_lookups b) = table_names"
    and gq: "\<And>name qs q. (name, qs) \<in> set (bd_lookups b) \<Longrightarrow> q \<in> set qs \<Longrightarrow> good_query (bd_tables b) name q"
    using g by (auto simp: good_def list_all_iff)
  note T = built_tables [OF bt]
  have names: "map fst (bd_tables b) = map fst (bd_lookups b)" using T lk by simp
  have "check_use u = Inr None" if "u \<in> set (trace_lookups (bd_tables b) (bd_lookups b))" for u
  proof -
    obtain k t k' qs where z: "((k, t), (k', qs)) \<in> set (zip (bd_tables b) (bd_lookups b))" and u: "u = \<lparr>us_table = t, us_queries = qs\<rparr>"
      using \<open>u \<in> _\<close> by (auto simp: trace_lookups_def split: if_splits)
    obtain i where i: "i < length (bd_tables b)" "i < length (bd_lookups b)" "bd_tables b ! i = (k, t)" "bd_lookups b ! i = (k', qs)"
      using z by (auto simp: in_set_zip)
    have "fst (bd_tables b ! i) = fst (bd_lookups b ! i)" using names i(1,2) by (metis nth_map)
    then have m: "(k, t) \<in> set (bd_tables b)" "(k, qs) \<in> set (bd_lookups b)" using i nth_mem by (metis fst_conv)+
    have "set qs \<subseteq> set (tab_rows t)" using gq [OF m(2)] T m(1) by (fastforce simp: good_query_def)
    then show ?thesis using T m(1) unfolding u by (intro use_ok) auto
  qed
  moreover have "first_failure check_gate (bd_gates b) = Inr None" "first_failure check_matmul (bd_matmuls b) = Inr None"
    "first_failure check_moe (bd_moe b) = Inr None"
    using g good_gate_check by (auto simp: good_def first_failure_None list_all_iff)
  moreover from calculation(1) have "first_failure check_use (trace_lookups (bd_tables b) (bd_lookups b)) = Inr None"
    by (simp add: first_failure_None)
  ultimately show ?thesis by (simp add: check_trace_def trace_of_def)
qed

text \<open>Any quotient and remainder that fit the gate, the words and the table are taken.\<close>

lemma spec_divide_with:
  assumes k: "quotient_words bits (c_table_bits cfg) = Inr k" and n: "n = 2 ^ bits" "bits \<le> c_table_bits cfg"
    and fit: "length qs = length raws" "length rs = length raws" "\<And>i. i < length raws \<Longrightarrow> raws ! i = n * qs ! i + rs ! i"
    and r: "\<And>v. v \<in> set rs \<Longrightarrow> 0 \<le> v \<and> v < 2 ^ c_table_bits cfg"
  shows "spec cfg (divide_with kind n bits raws qs rs) (gates_t 2 (2 * length raws) + logs_t ''range'' ((1 + k) * length raws)) (\<lambda>x. x = qs)"
proof -
  have le: "(2 :: int) ^ bits \<le> 2 ^ c_table_bits cfg" using n(2) by (rule power_increasing) simp
  have g: "good_gate (rescale nd raws qs rs n) \<and> first_len (g_terms (rescale nd raws qs rs n)) = length raws" for nd
    by (rule good_rescale_gate) (use fit in simp_all)
  have e: "spec cfg (emit (rescale nd raws qs rs n)) (gates_t 1 (length raws)) (\<lambda>_. True)" for nd
    using spec_emit [OF conjunct1 [OF g]] conjunct2 [OF g] by simp
  have rc: "spec cfg (b_range_check rs n) (logs_t ''range'' (length raws)) (\<lambda>_. True)"
    using spec_range_check [of rs cfg n] r le n(1) fit(2) by simp
  have bq: "spec cfg (sbind (b_bound_quotient qs bits) (\<lambda>_. ret qs)) (gates_t 1 (length raws) + logs_t ''range'' (k * length raws)) (\<lambda>x. x = qs)"
    using spec_bound_quotient [OF k, of qs] fit(1) by (intro spec_sbind [where d' = 0] spec_ret) auto
  show ?thesis unfolding divide_with_def
    by (rule spec_sbind [OF spec_b_id spec_sbind [OF e spec_sbind [OF rc bq refl] refl]]) (simp add: logs_t_def)
qed

section \<open>Properties\<close>

text \<open>
  Property C36 (\<open>forward_checks\<close>): the emitter and the checker agree. On weights of the declared
  shapes, every trace \<open>forward\<close> returns passes \<open>check_trace\<close>, which re-derives each gate, each
  contraction, each routed contraction and each lookup from the witness.
\<close>

theorem forward_checks:
  assumes "cfg_ok cfg kr kb" "weights_ok cfg w" "forward cfg w = Inr tr"
  shows "check_trace tr = Inr None"
  by (rule forward_accepted [OF assms])

text \<open>
  Property C38 (\<open>trace_shape_exact\<close>): the shape model is exact. Every returned trace has the
  numbers of matmuls, gates, gate slots, lookup queries, table rows, MoE nodes and cells that
  \<open>predict_trace_shape\<close> computes from the geometry alone.
\<close>

theorem trace_shape_exact:
  assumes "cfg_ok cfg kr kb" "weights_ok cfg w" "forward cfg w = Inr tr"
  shows "\<exists>c. counts tr = Inr c \<and> predict_trace_shape cfg True = Inr (shape_of c) \<and> n_lookup_uses c = 5 \<and> n_moe_route c = 3 * c_S cfg"
  by (rule forward_counts [OF assms])

text \<open>
  Fact (\<open>quotient_unique\<close>): the quotient bound of review F12. If a division gate and its
  word gate vanish modulo the field prime, the words are in the table domain and the remainders
  below the divisor, then quotients and remainders are the integer quotients and remainders of
  the canonical raws, and every raw is below \<open>2 ^ (nb + wb * k)\<close>.
\<close>

theorem quotient_unique:
  assumes "quotient_words nb wb = Inr k" "length ws = k" "\<And>w v. w \<in> set ws \<Longrightarrow> v \<in> set w \<Longrightarrow> 0 \<le> v \<and> v < 2 ^ wb"
    and "length qs = length raws" "length rs = length raws" "\<And>w. w \<in> set ws \<Longrightarrow> length w = length raws"
    and "\<And>v. v \<in> set raws \<union> set qs \<Longrightarrow> 0 \<le> v \<and> v < FIELD_P" "\<And>v. v \<in> set rs \<Longrightarrow> 0 \<le> v \<and> v < 2 ^ nb"
    and "gate_holds (rescale nd1 raws qs rs (2 ^ nb)) (length raws)"
    and "gate_holds (affine nd2 (map (\<lambda>j. 2 ^ (wb * j)) [0..<k]) ws qs) (length raws)"
  shows "qs = map (\<lambda>v. v div 2 ^ nb) raws \<and> rs = map (\<lambda>v. v mod 2 ^ nb) raws \<and> (\<forall>v \<in> set raws. v < 2 ^ (nb + wb * k))"
  by (rule quotient_lifts [OF assms])

section \<open>A concrete layer\<close>

definition toy_cfg :: toy_config where
  "toy_cfg = \<lparr>c_S = 1, c_d = 1, c_dff = 1, c_E = 1, c_table_bits = 4, c_scale_bits = 4\<rparr>"

definition toy_weights :: layer_weights where
  "toy_weights = \<lparr>w_x = [[30]], w_q = [[16]], w_k = [[32]], w_v = [[48]], w_o = [[9]], w_cos = [16], w_sin = [4],
     w_experts = [([[6]], [[8]], [[32]])], w_route = [0]\<rparr>"

lemma toy_cfg_ok: "cfg_ok toy_cfg 14 14"
  by (simp add: cfg_ok_def toy_cfg_def quotient_words_def LIFT_BITS_def)

lemma toy_weights_ok: "weights_ok toy_cfg toy_weights"
  by (simp add: weights_ok_def toy_cfg_def toy_weights_def mat_def)

text \<open>Runs of single steps on the tables of a configuration: a step \<open>yields\<close> a value when, from every builder on
  those tables, it returns the value and such a builder.\<close>

definition on_tables :: "toy_config \<Rightarrow> builder \<Rightarrow> bool" where
  "on_tables cfg b \<longleftrightarrow> bd_cfg b = cfg \<and> build_tables (c_table_bits cfg) (c_scale cfg) = Inr (bd_tables b) \<and> map fst (bd_lookups b) = table_names"

definition yields :: "toy_config \<Rightarrow> 'a step \<Rightarrow> 'a \<Rightarrow> bool" where
  "yields cfg m x \<longleftrightarrow> (\<forall>b. on_tables cfg b \<longrightarrow> (\<exists>b'. m b = Inr (x, b') \<and> on_tables cfg b'))"

lemma yields_ret: "yields cfg (ret x) x"
  by (simp add: yields_def ret_def)

lemma yields_lift: "r = Inr x \<Longrightarrow> yields cfg (lift r) x"
  by (simp add: yields_def lift_def)

lemma yields_sbind: "yields cfg m x \<Longrightarrow> yields cfg (f x) y \<Longrightarrow> yields cfg (sbind m f) y"
  unfolding yields_def sbind_def by fastforce

lemma yields_smap: "length xs = length ys \<Longrightarrow> (\<And>i. i < length xs \<Longrightarrow> yields cfg (f (xs ! i)) (ys ! i)) \<Longrightarrow> yields cfg (smap f xs) ys"
proof (induction xs ys rule: list_induct2)
  case (Cons x xs y ys)
  have "yields cfg (f x) y" using Cons.prems [of 0] by simp
  moreover have "yields cfg (smap f xs) ys" using Cons.prems [of "Suc _"] by (intro Cons.IH) fastforce
  ultimately show ?case by (auto intro!: yields_sbind yields_ret)
qed (simp add: yields_ret)

lemma yields_id: "(\<And>nd. yields cfg (m nd) y) \<Longrightarrow> yields cfg (sbind (b_id kind) m) y"
proof -
  assume m: "\<And>nd. yields cfg (m nd) y"
  have "on_tables cfg b \<Longrightarrow> \<exists>b'. sbind (b_id kind) m b = Inr (y, b') \<and> on_tables cfg b'" for b
    using m [of "kind @ ''#'' @ dec_str (Suc (bd_n b))"] unfolding yields_def
    by (auto simp: sbind_def b_id_def Let_def on_tables_def elim!: allE [of _ "b\<lparr>bd_n := Suc (bd_n b)\<rparr>"])
  then show ?thesis by (simp add: yields_def)
qed

lemma yields_emit: "yields cfg (emit g) ()"
  by (simp add: yields_def emit_def on_tables_def)

lemma yields_add_matmul: "yields cfg (\<lambda>b. Inr ((), b\<lparr>bd_matmuls := bd_matmuls b @ [m]\<rparr>)) ()"
  by (simp add: yields_def on_tables_def)

lemma yields_add_moe: "yields cfg (\<lambda>b. Inr ((), b\<lparr>bd_moe := bd_moe b @ [m]\<rparr>)) ()"
  by (simp add: yields_def on_tables_def)

lemma yields_log: "name \<in> set table_names \<Longrightarrow> yields cfg (log_queries name qs) ()"
proof -
  assume n: "name \<in> set table_names"
  have k: "map_of (bd_lookups b) name \<noteq> None" if "on_tables cfg b" for b
    using n that by (metis map_of_eq_None_iff on_tables_def set_map)
  have "on_tables cfg (b\<lparr>bd_lookups := map (\<lambda>(k, v). (k, if k = name then v @ qs else v)) (bd_lookups b)\<rparr>)" if "on_tables cfg b" for b
    using that by (simp add: on_tables_def comp_def case_prod_beta)
  then show ?thesis using k by (fastforce simp: yields_def log_queries_def)
qed

lemma yields_range: "bound \<le> 2 ^ c_table_bits cfg \<Longrightarrow> yields cfg (b_range_check vals bound) ()"
proof -
  assume bd: "bound \<le> 2 ^ c_table_bits cfg"
  have l: "yields cfg (log_queries ''range'' (map (\<lambda>v. (v, 0)) vals)) ()" by (rule yields_log) (simp add: table_names_def)
  have "on_tables cfg b \<Longrightarrow> b_range_check vals bound b = log_queries ''range'' (map (\<lambda>v. (v, 0)) vals) b" for b
    using bd table_of [of "c_table_bits cfg" "c_scale cfg" "bd_tables b" "''range''"]
    by (auto simp: b_range_check_def sbind_def b_table_def on_tables_def table_names_def tab_size_def table_rows_def)
  then show ?thesis using l by (simp add: yields_def)
qed

lemma yields_bound:
  assumes "quotient_words bits (c_table_bits cfg) = Inr k" "\<And>q. q \<in> set qs \<Longrightarrow> 0 \<le> q \<and> q < 2 ^ (c_table_bits cfg * k)"
  shows "yields cfg (b_bound_quotient qs bits) ()"
proof -
  let ?wb = "c_table_bits cfg"
  let ?words = "map (\<lambda>j. map (word_of ?wb j) qs) [0..<k]"
  let ?m = "sbind (b_id ''qbound'') (\<lambda>nd. sbind (emit (affine nd (map (\<lambda>j. push_bit (?wb * j) 1) [0..<k]) ?words qs)) (\<lambda>_.
                  sbind (smap (\<lambda>w. b_range_check w (push_bit ?wb 1)) ?words) (\<lambda>_. ret ())))"
  have s: "yields cfg (smap (\<lambda>w. b_range_check w (push_bit ?wb 1)) ?words) (replicate k ())"
    by (rule yields_smap) (auto intro!: yields_range simp: push_bit_eq_mult)
  have m: "yields cfg ?m ()"
    by (rule yields_id, rule yields_sbind [OF yields_emit], rule yields_sbind [OF s yields_ret])
  have "\<not> (min_default qs < 0 \<or> push_bit (?wb * k) 1 \<le> max_default qs)"
    using assms(2) by (auto simp: min_default_def max_default_def push_bit_eq_mult not_le not_less Min_less_iff Max_ge_iff dest: leD)
  then have "on_tables cfg b \<Longrightarrow> b_bound_quotient qs bits b = ?m b" for b
    using assms(1) by (simp add: b_bound_quotient_def on_tables_def Let_def)
  then show ?thesis using m by (simp add: yields_def)
qed

lemma yields_divide:
  assumes "quotient_words bits (c_table_bits cfg) = Inr k" "n \<le> 2 ^ c_table_bits cfg" "\<And>r. r \<in> set raws \<Longrightarrow> 0 \<le> r div n \<and> r div n < 2 ^ (c_table_bits cfg * k)"
  shows "yields cfg (b_divide kind n bits raws) (map (\<lambda>r. r div n) raws, map (\<lambda>r. r mod n) raws)"
  unfolding b_divide_def Let_def
  by (rule yields_id, rule yields_sbind [OF yields_emit], rule yields_sbind [OF yields_range [OF assms(2)]],
      rule yields_sbind [OF yields_bound [OF assms(1)] yields_ret]) (use assms(3) in auto)

lemma yields_cfg: "(\<And>b. bd_cfg b = cfg \<Longrightarrow> m b = m' b) \<Longrightarrow> yields cfg m' x \<Longrightarrow> yields cfg m x"
  by (simp add: yields_def on_tables_def)

lemma yields_rescale:
  assumes "cfg_ok cfg kr kb" "\<And>r. r \<in> set raws \<Longrightarrow> 0 \<le> r div c_scale cfg \<and> r div c_scale cfg < 2 ^ (c_table_bits cfg * kr)"
  shows "yields cfg (b_rescale raws) (map (\<lambda>r. r div c_scale cfg) raws)"
proof (rule yields_cfg)
  show "b_rescale raws b = sbind (b_divide ''rescale'' (c_scale cfg) (c_scale_bits cfg) raws) (\<lambda>(qs, rs). ret qs) b" if "bd_cfg b = cfg" for b
    using that by (simp add: b_rescale_def)
  show "yields cfg (sbind (b_divide ''rescale'' (c_scale cfg) (c_scale_bits cfg) raws) (\<lambda>(qs, rs). ret qs)) (map (\<lambda>r. r div c_scale cfg) raws)"
    by (rule yields_sbind [OF yields_divide [of _ _ kr]]) (use assms in \<open>auto simp: cfg_ok_def c_scale_def intro: yields_ret\<close>)
qed

lemma yields_bracket_words:
  assumes "quotient_words (c_table_bits cfg) (c_table_bits cfg) = Inr kb"
    "\<And>r. r \<in> set vals \<Longrightarrow> 0 \<le> r div c_table_size cfg \<and> r div c_table_size cfg < 2 ^ (c_table_bits cfg * kb)"
  shows "yields cfg (b_bracket vals) (map (\<lambda>r. r mod c_table_size cfg) vals)"
proof (rule yields_cfg)
  show "b_bracket vals b = sbind (b_divide ''bracket'' (c_table_size cfg) (c_table_bits cfg) vals) (\<lambda>(his, los). ret los) b" if "bd_cfg b = cfg" for b
    using that by (simp add: b_bracket_def)
  show "yields cfg (sbind (b_divide ''bracket'' (c_table_size cfg) (c_table_bits cfg) vals) (\<lambda>(his, los). ret los)) (map (\<lambda>r. r mod c_table_size cfg) vals)"
    by (rule yields_sbind [OF yields_divide [of _ _ kb]]) (use assms in \<open>auto simp: c_table_size_def intro: yields_ret\<close>)
qed

lemma yields_bracket:
  assumes "cfg_ok cfg kr kb" "\<And>r. r \<in> set vals \<Longrightarrow> 0 \<le> r div c_table_size cfg \<and> r div c_table_size cfg < 2 ^ (c_table_bits cfg * kb)"
  shows "yields cfg (b_bracket vals) (map (\<lambda>r. r mod c_table_size cfg) vals)"
  by (rule yields_bracket_words) (use assms in \<open>auto simp: cfg_ok_def\<close>)

lemma yields_lookup:
  assumes "name \<in> set table_names" "\<And>tabs t. build_tables (c_table_bits cfg) (c_scale cfg) = Inr tabs \<Longrightarrow> map_of tabs name = Some t \<Longrightarrow> rmap (tab_lookup t) xs = Inr ys"
  shows "yields cfg (b_lookup name xs) ys"
proof -
  let ?m = "sbind (log_queries name (zip xs ys)) (\<lambda>_. ret ys)"
  have m: "yields cfg ?m ys" by (rule yields_sbind [OF yields_log [OF assms(1)] yields_ret])
  have "b_lookup name xs b = ?m b" if b: "on_tables cfg b" for b
    using b table_of [of "c_table_bits cfg" "c_scale cfg" "bd_tables b" name] assms
    by (auto simp: b_lookup_def b_table_def on_tables_def sbind_def lift_def)
  then show ?thesis using m by (simp add: yields_def)
qed

lemma yields_mul:
  assumes "cfg_ok cfg kr kb" "\<And>r. r \<in> set (map2 (*) a b) \<Longrightarrow> 0 \<le> r div c_scale cfg \<and> r div c_scale cfg < 2 ^ (c_table_bits cfg * kr)"
  shows "yields cfg (b_mul_rescaled a b tag) (map (\<lambda>r. r div c_scale cfg) (map2 (*) a b))"
  unfolding b_mul_rescaled_def Let_def
  by (rule yields_id, rule yields_sbind [OF yields_emit], rule yields_rescale [OF assms])

lemma yields_badd: "yields cfg (b_add a b tag) (map2 (+) a b)"
  unfolding b_add_def Let_def by (rule yields_id, rule yields_sbind [OF yields_emit yields_ret])

lemma yields_matmul:
  assumes "cfg_ok cfg kr kb" "rmap (\<lambda>t. rmap (\<lambda>i. dot_at X t W i (length (W ! 0))) [0..<length W]) [0..<length X] = Inr raws"
    and "\<And>r. r \<in> set (concat raws) \<Longrightarrow> 0 \<le> r div c_scale cfg \<and> r div c_scale cfg < 2 ^ (c_table_bits cfg * kr)"
  shows "yields cfg (b_matmul name X W) (cut_rows (length W) (length X) (map (\<lambda>r. r div c_scale cfg) (concat raws)))"
  unfolding b_matmul_def
  by (rule yields_sbind [OF yields_lift [OF assms(2)]], rule yields_sbind [OF yields_add_matmul],
      rule yields_sbind [OF yields_rescale [OF assms(1,3)] yields_ret])

lemma yields_moe:
  assumes "cfg_ok cfg kr kb" "at W3 0 = Inr w" "at w 0 = Inr row"
    and "rmap (\<lambda>t. rmap (\<lambda>i. moe_dot X t W3 route i (length row)) [0..<length w]) [0..<length X] = Inr raws"
    and "\<And>r. r \<in> set (concat raws) \<Longrightarrow> 0 \<le> r div c_scale cfg \<and> r div c_scale cfg < 2 ^ (c_table_bits cfg * kr)"
  shows "yields cfg (b_moe_matmul name X W3 route) (cut_rows (length w) (length X) (map (\<lambda>r. r div c_scale cfg) (concat raws)))"
  unfolding b_moe_matmul_def Let_def
  by (rule yields_sbind [OF yields_lift [OF assms(2)]], rule yields_sbind [OF yields_lift [OF assms(3)]],
      rule yields_sbind [OF yields_lift [OF assms(4)]], rule yields_sbind [OF yields_add_moe],
      rule yields_sbind [OF yields_rescale [OF assms(1,5)] yields_ret])

text \<open>The layer of one token, one feature, one hidden unit and one expert.\<close>

lemmas toy_defs = toy_cfg_def toy_weights_def c_scale_def c_table_size_def at_def at2_def dot_at_def moe_dot_def cut_rows_def py_index_def py_pos_def

lemma toy_rms: "yields toy_cfg (rms_norm toy_cfg [[30]]) [[9]]"
  unfolding rms_norm_def Let_def
proof (rule yields_sbind [OF yields_emit], rule yields_sbind)
  show "yields toy_cfg (b_bracket (map (\<lambda>v. v mod FIELD_P) (map (\<lambda>row. sum_list (map (\<lambda>v. v * v) row)) [[30]]))) [4]"
    using yields_bracket [OF toy_cfg_ok, of "[900]"] by (simp add: toy_defs FIELD_P_val)
  show "yields toy_cfg (sbind (b_lookup ''isqrt'' [4]) (\<lambda>inv_rms. smap (\<lambda>t. sbind (lift (at [[30]] t)) (\<lambda>row.
      sbind (lift (at inv_rms t)) (\<lambda>s. b_mul_rescaled row (replicate (c_d toy_cfg) s) ''rms''))) [0..<c_S toy_cfg])) [[9]]"
  proof (rule yields_sbind [OF yields_lookup])
    show "rmap (tab_lookup t) [4] = Inr [5]" if "build_tables (c_table_bits toy_cfg) (c_scale toy_cfg) = Inr tabs" "map_of tabs ''isqrt'' = Some t" for tabs t
    proof -
      have "int_sqrt 4 = 2" by code_simp
      then show ?thesis using that by (auto simp: toy_defs build_tables_def tab_lookup_def table_rows_def)
    qed
    have "yields toy_cfg (b_mul_rescaled [30] [5] ''rms'') [9]"
      using yields_mul [OF toy_cfg_ok, of "[30]" "[5]"] by (simp add: toy_defs)
    then show "yields toy_cfg (smap (\<lambda>t. sbind (lift (at [[30]] t)) (\<lambda>row. sbind (lift (at [5] t)) (\<lambda>s.
        b_mul_rescaled row (replicate (c_d toy_cfg) s) ''rms''))) [0..<c_S toy_cfg]) [[9]]"
      by (intro yields_smap) (auto simp: toy_defs intro!: yields_sbind [OF yields_lift])
  qed (simp add: table_names_def)
qed

lemma toy_row: "yields cfg (m 0) r \<Longrightarrow> c_S cfg = 1 \<Longrightarrow> yields cfg (smap m [0..<c_S cfg]) [r]"
  by (intro yields_smap) auto

lemma toy_matmul:
  assumes "0 \<le> x * w" "x * w < 2 ^ 56"
  shows "yields toy_cfg (b_matmul name [[x]] [[w]]) [[x * w div 16]]"
proof -
  have "x * w div 16 < 2 ^ 56" using assms by linarith
  then show ?thesis using yields_matmul [OF toy_cfg_ok, of "[[x]]" "[[w]]" "[[x * w]]" name] assms by (simp add: toy_defs)
qed

lemma toy_moe:
  assumes "0 \<le> x * w" "x * w < 2 ^ 56"
  shows "yields toy_cfg (b_moe_matmul name [[x]] [[[w]]] [0]) [[x * w div 16]]"
proof -
  have "x * w div 16 < 2 ^ 56" using assms by linarith
  then show ?thesis using yields_moe [OF toy_cfg_ok, of "[[[w]]]" "[[w]]" "[w]" "[[x]]" "[0]" "[[x * w]]" name] assms by (simp add: toy_defs)
qed

lemma toy_div: "0 \<le> x \<Longrightarrow> x < 2 ^ 56 \<Longrightarrow> 0 \<le> x div 16 \<and> x div 16 < (2 ^ 56 :: int)"
  by auto

lemma toy_mul: "0 \<le> x * w \<Longrightarrow> x * w < 2 ^ 56 \<Longrightarrow> yields toy_cfg (b_mul_rescaled [x] [w] tag) [x * w div 16]"
  using yields_mul [OF toy_cfg_ok, of "[x]" "[w]" tag] toy_div [of "x * w"] by (simp add: toy_defs)

lemma toy_bracket: "0 \<le> x \<Longrightarrow> x < 2 ^ 56 \<Longrightarrow> yields toy_cfg (b_bracket [x]) [x mod 16]"
  using yields_bracket [OF toy_cfg_ok, of "[x]"] toy_div [of x] by (simp add: toy_defs)

lemma toy_lookup:
  assumes "(name, y) \<in> {(''exp'', (x * x + 1) mod 16), (''silu'', x * (x + 1) div 2 mod 16), (''recip'', 16 div (x + 1) mod 16)}" "0 \<le> x" "x < 16"
  shows "yields toy_cfg (b_lookup name [x]) [y]"
proof (rule yields_lookup)
  show "name \<in> set table_names" using assms(1) by (auto simp: table_names_def)
  fix tabs t assume "build_tables (c_table_bits toy_cfg) (c_scale toy_cfg) = Inr tabs" "map_of tabs name = Some t"
  then have "tab_rows t = table_rows 16 (\<lambda>x. if name = ''exp'' then (x * x + 1) mod 16 else if name = ''silu'' then x * (x + 1) div 2 mod 16 else 16 div (x + 1) mod 16)"
    using assms(1) by (auto simp: build_tables_def toy_cfg_def c_scale_def Let_def)
  then show "rmap (tab_lookup t) [x] = Inr [y]" using tab_lookup_rows assms by auto
qed

lemma toy_rope: "0 \<le> m \<Longrightarrow> m < 2 ^ 50 \<Longrightarrow> yields toy_cfg (rope toy_cfg [16] [4] tag [[m]]) [[m * 20 div 16]]"
proof -
  assume m: "0 \<le> m" "m < 2 ^ 50"
  have q: "m * 20 div 16 < 2 ^ 56" using m by simp
  have "yields toy_cfg (b_rescale [m * 20]) [m * 20 div 16]"
    using yields_rescale [OF toy_cfg_ok, of "[m * 20]"] m q by (simp add: toy_defs)
  then have "yields toy_cfg (rope_row toy_cfg [16] [4] tag [[m]] 0) [m * 20 div 16]"
    unfolding rope_row_def Let_def
    by (intro yields_sbind [OF yields_lift [where x = "[(m * 16, m * 4)]"]] yields_sbind [OF yields_emit]) (simp_all add: toy_defs distrib_left [symmetric])
  then have "yields toy_cfg (smap (rope_row toy_cfg [16] [4] tag [[m]]) [0..<c_S toy_cfg]) [[m * 20 div 16]]"
    by (rule toy_row) (simp add: toy_cfg_def)
  then show ?thesis unfolding rope_def by (rule yields_sbind) (simp add: toy_cfg_def yields_ret)
qed

lemma toy_attention: "yields toy_cfg (attention_probs toy_cfg [[11]] [[22]]) [[0]]"
  unfolding attention_probs_def Let_def
proof (rule yields_sbind [OF yields_lift], rule_tac [2] yields_sbind [OF yields_emit], rule_tac [2] yields_sbind, rule_tac [3] yields_sbind)
  show "rmap (\<lambda>t. rmap (\<lambda>i. if i \<le> t then dot_at [[11]] t [[22]] i (c_d toy_cfg) else Inr 0) [0..<c_S toy_cfg]) [0..<c_S toy_cfg] = Inr [[242]]"
    by (simp add: toy_defs)
  show "yields toy_cfg (b_bracket (map (\<lambda>v. v mod FIELD_P) (concat [[242]]))) [2]" using toy_bracket [of 242] by (simp add: FIELD_P_val)
  show "yields toy_cfg (b_lookup ''exp'' [2]) [5]" by (rule toy_lookup) simp_all
  let ?k = "\<lambda>r. smap (\<lambda>t. sbind (lift (at (cut_rows (c_S toy_cfg) (c_S toy_cfg) [5]) t)) (\<lambda>row. sbind (lift (at r t)) (\<lambda>r. b_mul_rescaled row (replicate (c_S toy_cfg) r) ''softmax''))) [0..<c_S toy_cfg]"
  have "yields toy_cfg (?k [2]) [[0]]"
  proof (rule toy_row)
    show "yields toy_cfg (sbind (lift (at (cut_rows (c_S toy_cfg) (c_S toy_cfg) [5]) 0)) (\<lambda>row. sbind (lift (at [2] 0)) (\<lambda>r. b_mul_rescaled row (replicate (c_S toy_cfg) r) ''softmax''))) [0]"
      using toy_mul [of 5 2] by (intro yields_sbind [OF yields_lift [where x = "[5]"]] yields_sbind [OF yields_lift [where x = 2]]) (simp_all add: toy_defs)
  qed (simp add: toy_cfg_def)
  moreover have "yields toy_cfg (b_lookup ''recip'' [5]) [2]" by (rule toy_lookup) simp_all
  moreover have "yields toy_cfg (b_bracket (map (\<lambda>row. sum_list row mod FIELD_P) (cut_rows (c_S toy_cfg) (c_S toy_cfg) [5]))) [5]"
    using toy_bracket [of 5] by (simp add: FIELD_P_val toy_defs)
  ultimately show "yields toy_cfg (sbind (b_bracket (map (\<lambda>row. sum_list row mod FIELD_P) (cut_rows (c_S toy_cfg) (c_S toy_cfg) [5]))) (\<lambda>sb2. sbind (b_lookup ''recip'' sb2) ?k)) [[0]]"
    by (intro yields_sbind)
qed

lemma toy_ffn: "yields toy_cfg (ffn toy_cfg toy_weights [[30]]) [[2]]"
  unfolding ffn_def
proof (rule yields_sbind, rule_tac [2] yields_sbind, rule_tac [3] yields_sbind)
  show "yields toy_cfg (b_moe_matmul ''moe_gate'' [[30]] (map fst (w_experts toy_weights)) (w_route toy_weights)) [[11]]"
    using toy_moe [of 30 6 "''moe_gate''"] by (simp add: toy_weights_def)
  show "yields toy_cfg (b_moe_matmul ''moe_up'' [[30]] (map (fst \<circ> snd) (w_experts toy_weights)) (w_route toy_weights)) [[15]]"
    using toy_moe [of 30 8 "''moe_up''"] by (simp add: toy_weights_def)
  show "yields toy_cfg (smap (\<lambda>t. sbind (lift (at [[11]] t)) (\<lambda>g. sbind (b_bracket g) (\<lambda>gb. sbind (b_lookup ''silu'' gb) (\<lambda>sg.
      sbind (lift (at [[15]] t)) (\<lambda>u. b_mul_rescaled sg u ''swiglu''))))) [0..<c_S toy_cfg]) [[1]]"
  proof (rule toy_row)
    have b: "yields toy_cfg (b_bracket [11]) [11]" using toy_bracket [of 11] by simp
    have l: "yields toy_cfg (b_lookup ''silu'' [11]) [2]" by (rule toy_lookup) simp_all
    have "yields toy_cfg (b_mul_rescaled [2] [15] ''swiglu'') [1]" using toy_mul [of 2 15] by simp
    then show "yields toy_cfg (sbind (lift (at [[11]] 0)) (\<lambda>g. sbind (b_bracket g) (\<lambda>gb. sbind (b_lookup ''silu'' gb) (\<lambda>sg.
        sbind (lift (at [[15]] 0)) (\<lambda>u. b_mul_rescaled sg u ''swiglu''))))) [1]"
      by (intro yields_sbind [OF yields_lift [where x = "[11]"]] yields_sbind [OF b] yields_sbind [OF l] yields_sbind [OF yields_lift [where x = "[15]"]]) (simp_all add: at_def)
  qed (simp add: toy_cfg_def)
  show "yields toy_cfg (b_moe_matmul ''moe_down'' [[1]] (map (snd \<circ> snd) (w_experts toy_weights)) (w_route toy_weights)) [[2]]"
    using toy_moe [of 1 32 "''moe_down''"] by (simp add: toy_weights_def)
qed

lemma toy_residual: "yields toy_cfg (residual toy_cfg [[x]] [[y]] tag) [[x + y]]"
  unfolding residual_def
proof (rule toy_row)
  show "yields toy_cfg (sbind (lift (at [[x]] 0)) (\<lambda>a. sbind (lift (at [[y]] 0)) (\<lambda>b. b_add a b tag))) [x + y]"
    using yields_badd [of toy_cfg "[x]" "[y]" tag]
    by (intro yields_sbind [OF yields_lift [where x = "[x]"]] yields_sbind [OF yields_lift [where x = "[y]"]]) (simp_all add: at_def)
qed (simp add: toy_cfg_def)

lemma toy_layer: "yields toy_cfg (layer_steps toy_cfg toy_weights) [[32]]"
proof -
  have q: "yields toy_cfg (b_matmul ''Wq'' [[9]] (w_q toy_weights)) [[9]]" using toy_matmul [of 9 16] by (simp add: toy_weights_def)
  have k: "yields toy_cfg (b_matmul ''Wk'' [[9]] (w_k toy_weights)) [[18]]" using toy_matmul [of 9 32] by (simp add: toy_weights_def)
  have v: "yields toy_cfg (b_matmul ''Wv'' [[9]] (w_v toy_weights)) [[27]]" using toy_matmul [of 9 48] by (simp add: toy_weights_def)
  have rq: "yields toy_cfg (rope toy_cfg (w_cos toy_weights) (w_sin toy_weights) ''q'' [[9]]) [[11]]" using toy_rope [of 9] by (simp add: toy_weights_def)
  have rk: "yields toy_cfg (rope toy_cfg (w_cos toy_weights) (w_sin toy_weights) ''k'' [[18]]) [[22]]" using toy_rope [of 18] by (simp add: toy_weights_def)
  have vt: "yields toy_cfg (lift (rmap (\<lambda>j. rmap (\<lambda>i. at2 [[27]] i j) [0..<c_S toy_cfg]) [0..<c_d toy_cfg])) [[27]]"
    by (rule yields_lift) (simp add: toy_defs)
  have pv: "yields toy_cfg (b_matmul ''attn_pv'' [[0]] [[27]]) [[0]]" using toy_matmul [of 0 27] by simp
  have wo: "yields toy_cfg (b_matmul ''Wo'' [[0]] (w_o toy_weights)) [[0]]" using toy_matmul [of 0 9] by (simp add: toy_weights_def)
  have r1: "yields toy_cfg (residual toy_cfg (w_x toy_weights) [[0]] ''res1'') [[30]]" using toy_residual [of 30 0] by (simp add: toy_weights_def)
  have r2: "yields toy_cfg (residual toy_cfg [[30]] [[2]] ''res2'') [[32]]" using toy_residual [of 30 2] by simp
  have rms: "yields toy_cfg (rms_norm toy_cfg (w_x toy_weights)) [[9]]" using toy_rms by (simp add: toy_weights_def)
  show ?thesis unfolding layer_steps_def
    by (rule yields_sbind [OF rms], rule yields_sbind [OF q], rule yields_sbind [OF k], rule yields_sbind [OF v], rule yields_sbind [OF rq],
        rule yields_sbind [OF rk], rule yields_sbind [OF toy_attention], rule yields_sbind [OF vt], rule yields_sbind [OF pv],
        rule yields_sbind [OF wo], rule yields_sbind [OF r1], rule yields_sbind [OF toy_ffn], rule r2)
qed

lemma toy_forward: "\<exists>tr. forward toy_cfg toy_weights = Inr tr \<and> lt_y_out tr = [[32]]"
proof -
  obtain tabs where tabs: "build_tables (c_table_bits toy_cfg) (c_scale toy_cfg) = Inr tabs"
    by (simp add: build_tables_def c_scale_def Let_def)
  have "on_tables toy_cfg (new_builder toy_cfg tabs)"
    using tabs by (auto simp: on_tables_def new_builder_def comp_def case_prod_beta build_tables_def table_names_def Let_def split: if_splits)
  then obtain b where "layer_steps toy_cfg toy_weights (new_builder toy_cfg tabs) = Inr ([[32]], b)"
    using toy_layer by (auto simp: yields_def)
  then show ?thesis using tabs by (simp add: forward_def FIELD_P_val)
qed

theorem forward_checks_witness: "\<exists>tr. forward toy_cfg toy_weights = Inr tr \<and> check_trace tr = Inr None"
  using toy_forward forward_checks [OF toy_cfg_ok toy_weights_ok] by blast

theorem trace_shape_exact_witness:
  "\<exists>tr c. forward toy_cfg toy_weights = Inr tr \<and> counts tr = Inr c \<and> predict_trace_shape toy_cfg True = Inr (shape_of c)"
  using toy_forward trace_shape_exact [OF toy_cfg_ok toy_weights_ok] by blast

theorem quotient_unique_witness: "[5 :: int] = map (\<lambda>v. v div 2 ^ 4) [83] \<and> [3 :: int] = map (\<lambda>v. v mod 2 ^ 4) [83] \<and> (83 :: int) < 2 ^ (4 + 4 * 14)"
proof -
  have "[5 :: int] = map (\<lambda>v. v div 2 ^ 4) [83] \<and> [3 :: int] = map (\<lambda>v. v mod 2 ^ 4) [83] \<and> (\<forall>v \<in> set [83 :: int]. v < 2 ^ (4 + 4 * 14))"
    by (rule quotient_unique [of 4 4 14 "[5] # replicate 13 [0]" "[5]" "[83]" "[3]" "''r''" "''q''"])
      (auto simp: quotient_words_def LIFT_BITS_def FIELD_P_val gate_holds_def gate_relations at0_def numeral_eq_Suc zip_replicate2)
  then show ?thesis by simp
qed

text \<open>A negative query weight: the first quotient is negative and the builder refuses it.\<close>

definition neg_weights :: layer_weights where
  "neg_weights = toy_weights\<lparr>w_q := [[-16]]\<rparr>"

lemma neg_weights_ok: "weights_ok toy_cfg neg_weights"
  using toy_weights_ok by (simp add: weights_ok_def toy_cfg_def neg_weights_def mat_def)

definition raises :: "toy_config \<Rightarrow> 'a step \<Rightarrow> py_error \<Rightarrow> bool" where
  "raises cfg m e \<longleftrightarrow> (\<forall>b. on_tables cfg b \<longrightarrow> m b = Inl e)"

lemma raises_first: "raises cfg m e \<Longrightarrow> raises cfg (sbind m f) e"
  by (simp add: raises_def sbind_def)

lemma raises_then: "yields cfg m x \<Longrightarrow> raises cfg (f x) e \<Longrightarrow> raises cfg (sbind m f) e"
  unfolding yields_def raises_def sbind_def by fastforce

lemma raises_id: "(\<And>nd. raises cfg (m nd) e) \<Longrightarrow> raises cfg (sbind (b_id kind) m) e"
  by (simp add: raises_def sbind_def b_id_def Let_def on_tables_def)

lemma neg_rescale: "raises toy_cfg (b_rescale [- 144]) RuntimeError"
proof -
  have r: "yields toy_cfg (b_range_check [0] 16) ()" by (rule yields_range) (simp add: toy_cfg_def)
  have q: "raises toy_cfg (b_bound_quotient [- 9] 4) RuntimeError"
    by (simp add: raises_def on_tables_def toy_cfg_def b_bound_quotient_def quotient_words_def LIFT_BITS_def min_default_def)
  have "raises toy_cfg (b_divide ''rescale'' 16 4 [- 144]) RuntimeError"
    unfolding b_divide_def Let_def
    by (rule raises_id, rule raises_then [OF yields_emit]) (use r q in \<open>auto intro: raises_then raises_first\<close>)
  then have "raises toy_cfg (sbind (b_divide ''rescale'' 16 4 [- 144]) (\<lambda>(qs, rs). ret qs)) RuntimeError" by (rule raises_first)
  then show ?thesis by (simp add: raises_def b_rescale_def on_tables_def toy_cfg_def c_scale_def)
qed

lemma neg_forward: "forward toy_cfg neg_weights = Inl RuntimeError"
proof -
  obtain tabs where tabs: "build_tables (c_table_bits toy_cfg) (c_scale toy_cfg) = Inr tabs"
    by (simp add: build_tables_def c_scale_def Let_def)
  have nb: "on_tables toy_cfg (new_builder toy_cfg tabs)"
    using tabs by (auto simp: on_tables_def new_builder_def comp_def case_prod_beta build_tables_def table_names_def Let_def split: if_splits)
  have x: "yields toy_cfg (rms_norm toy_cfg (w_x neg_weights)) [[9]]" using toy_rms by (simp add: neg_weights_def toy_weights_def)
  have "raises toy_cfg (b_matmul ''Wq'' [[9]] [[- 16]]) RuntimeError"
    unfolding b_matmul_def
    by (rule raises_then [OF yields_lift [where x = "[[- 144]]"]], simp add: toy_defs,
        rule raises_then [OF yields_add_matmul], rule raises_first) (use neg_rescale in simp)
  then have "raises toy_cfg (b_matmul ''Wq'' [[9]] (w_q neg_weights)) RuntimeError" by (simp add: neg_weights_def)
  then have "raises toy_cfg (layer_steps toy_cfg neg_weights) RuntimeError"
    unfolding layer_steps_def by (rule raises_then [OF x raises_first])
  then show ?thesis using tabs nb by (simp add: forward_def raises_def)
qed

section \<open>The errors of the forward pass\<close>

lemma raises_cfg: "(\<And>b. bd_cfg b = cfg \<Longrightarrow> m b = m' b) \<Longrightarrow> raises cfg m' e \<Longrightarrow> raises cfg m e"
  by (simp add: raises_def on_tables_def)

lemma raises_range:
  assumes "2 ^ c_table_bits cfg < bound"
  shows "raises cfg (b_range_check vals bound) ValueError"
proof -
  have "b_range_check vals bound b = Inl ValueError" if "on_tables cfg b" for b
    using assms table_of [of "c_table_bits cfg" "c_scale cfg" "bd_tables b" "''range''"] that
    by (auto simp: b_range_check_def sbind_def lift_def b_table_def on_tables_def table_names_def tab_size_def table_rows_def)
  then show ?thesis by (simp add: raises_def)
qed

lemma raises_divide_range: "2 ^ c_table_bits cfg < n \<Longrightarrow> raises cfg (b_divide kind n bits raws) ValueError"
  unfolding b_divide_def Let_def
  by (rule raises_id, rule raises_then [OF yields_emit], rule raises_first [OF raises_range])

lemma raises_divide_bound:
  assumes "n \<le> 2 ^ c_table_bits cfg" "raises cfg (b_bound_quotient (map (\<lambda>r. r div n) raws) bits) e"
  shows "raises cfg (b_divide kind n bits raws) e"
  unfolding b_divide_def Let_def
  by (rule raises_id, rule raises_then [OF yields_emit], rule raises_then [OF yields_range [OF assms(1)]], rule raises_first [OF assms(2)])

lemma raises_bound_words: "quotient_words bits (c_table_bits cfg) = Inl e \<Longrightarrow> raises cfg (b_bound_quotient qs bits) e"
  by (simp add: raises_def on_tables_def b_bound_quotient_def Let_def)

lemma raises_bound_overflow:
  assumes "quotient_words bits (c_table_bits cfg) = Inr k" "q \<in> set qs" "q < 0 \<or> 2 ^ (c_table_bits cfg * k) \<le> q"
  shows "raises cfg (b_bound_quotient qs bits) RuntimeError"
proof -
  have "qs \<noteq> []" "Min (set qs) \<le> q" "q \<le> Max (set qs)" using assms(2) by auto
  then have "min_default qs < 0 \<or> push_bit (c_table_bits cfg * k) 1 \<le> max_default qs"
    using assms(3) by (auto simp: min_default_def max_default_def push_bit_eq_mult)
  then show ?thesis by (simp add: raises_def on_tables_def b_bound_quotient_def Let_def assms(1))
qed

lemma raises_bracket:
  assumes "raises cfg (b_bound_quotient (map (\<lambda>r. r div c_table_size cfg) vals) (c_table_bits cfg)) e"
  shows "raises cfg (b_bracket vals) e"
proof (rule raises_cfg)
  show "b_bracket vals b = sbind (b_divide ''bracket'' (c_table_size cfg) (c_table_bits cfg) vals) (\<lambda>(his, los). ret los) b" if "bd_cfg b = cfg" for b
    using that by (simp add: b_bracket_def)
  show "raises cfg (sbind (b_divide ''bracket'' (c_table_size cfg) (c_table_bits cfg) vals) (\<lambda>(his, los). ret los)) e"
    by (rule raises_first, rule raises_divide_bound [OF _ assms]) (simp add: c_table_size_def)
qed

lemma bracket_outcome:
  assumes "quotient_words (c_table_bits cfg) (c_table_bits cfg) = Inr kb"
  shows "raises cfg (b_bracket vals) RuntimeError \<or> yields cfg (b_bracket vals) (map (\<lambda>r. r mod c_table_size cfg) vals)"
proof (cases "\<forall>r \<in> set vals. 0 \<le> r div c_table_size cfg \<and> r div c_table_size cfg < 2 ^ (c_table_bits cfg * kb)")
  case True
  then show ?thesis using yields_bracket_words [OF assms] by blast
next
  case False
  then obtain r where "r \<in> set vals" "r div c_table_size cfg < 0 \<or> 2 ^ (c_table_bits cfg * kb) \<le> r div c_table_size cfg" by force
  then show ?thesis using raises_bracket [OF raises_bound_overflow [OF assms, of "r div c_table_size cfg"]] by simp
qed

lemma raises_mul: "c_table_bits cfg < c_scale_bits cfg \<Longrightarrow> raises cfg (b_mul_rescaled a b tag) ValueError"
  unfolding b_mul_rescaled_def Let_def
proof (rule raises_id, rule raises_then [OF yields_emit], rule raises_cfg)
  fix raw
  assume l: "c_table_bits cfg < c_scale_bits cfg"
  have "(2 :: int) ^ c_table_bits cfg < 2 ^ c_scale_bits cfg" using l by (intro power_strict_increasing) simp_all
  then show "raises cfg (sbind (b_divide ''rescale'' (c_scale cfg) (c_scale_bits cfg) (map2 (*) a b)) (\<lambda>(qs, rs). ret qs)) ValueError"
    by (intro raises_first raises_divide_range) (simp add: c_scale_def)
qed (simp add: b_rescale_def)

lemma raises_rows: "0 < n \<Longrightarrow> raises cfg (f 0) e \<Longrightarrow> raises cfg (smap f [0..<n]) e"
  by (cases n) (auto simp: upt_conv_Cons simp del: upt_Suc intro: raises_first)

text \<open>Which error the first normalisation meets on a configuration that is not \<open>cfg_ok\<close>.\<close>

lemma rms_errors:
  assumes x: "mat (c_S cfg) (c_d cfg) x" "0 < c_S cfg"
  shows "(quotient_words (c_table_bits cfg) (c_table_bits cfg) = Inl e \<longrightarrow> raises cfg (rms_norm cfg x) e) \<and>
    (quotient_words (c_table_bits cfg) (c_table_bits cfg) = Inr kb \<and> c_table_bits cfg < c_scale_bits cfg \<longrightarrow>
      raises cfg (rms_norm cfg x) RuntimeError \<or> raises cfg (rms_norm cfg x) ValueError)"
proof (intro conjI impI)
  assume "quotient_words (c_table_bits cfg) (c_table_bits cfg) = Inl e"
  then show "raises cfg (rms_norm cfg x) e"
    unfolding rms_norm_def Let_def by (intro raises_then [OF yields_emit] raises_first raises_bracket raises_bound_words)
next
  assume k: "quotient_words (c_table_bits cfg) (c_table_bits cfg) = Inr kb \<and> c_table_bits cfg < c_scale_bits cfg"
  let ?ss = "map (\<lambda>v. v mod FIELD_P) (map (\<lambda>row. sum_list (map (\<lambda>v. v * v) row)) x)"
  let ?lo = "map (\<lambda>r. r mod c_table_size cfg) ?ss"
  let ?rest = "\<lambda>inv_rms. smap (\<lambda>t. sbind (lift (at x t)) (\<lambda>row. sbind (lift (at inv_rms t)) (\<lambda>s.
      b_mul_rescaled row (replicate (c_d cfg) s) ''rms''))) [0..<c_S cfg]"
  have lx: "length x = c_S cfg" using x(1) by (simp add: mat_def)
  have lk: "\<exists>ys. length ys = c_S cfg \<and> yields cfg (b_lookup ''isqrt'' ?lo) ys"
  proof -
    have "c_scale cfg \<noteq> 0" by (simp add: c_scale_def)
    then obtain tabs where tabs: "build_tables (c_table_bits cfg) (c_scale cfg) = Inr tabs" by (simp add: build_tables_def Let_def)
    obtain t f where t: "map_of tabs ''isqrt'' = Some t" "tab_rows t = table_rows (2 ^ c_table_bits cfg) f"
      using table_of [OF tabs, of "''isqrt''"] by (auto simp: table_names_def)
    have "rmap (tab_lookup t) ?lo = Inr (map f ?lo)"
      by (intro rmap_Inr_map tab_lookup_rows [OF t(2)]) (auto simp: c_table_size_def)
    then have "yields cfg (b_lookup ''isqrt'' ?lo) (map f ?lo)"
      using tabs t(1) by (intro yields_lookup) (simp_all add: table_names_def)
    then show ?thesis using lx by (intro exI [of _ "map f ?lo"]) simp
  qed
  then obtain ys where ys: "length ys = c_S cfg" "yields cfg (b_lookup ''isqrt'' ?lo) ys" by blast
  have "at x 0 = Inr (x ! 0)" "at ys 0 = Inr (ys ! 0)" using lx ys(1) x(2) by (simp_all add: at_def)
  then have rest: "raises cfg (?rest ys) ValueError"
    using k x(2) by (intro raises_rows raises_then [OF yields_lift] raises_mul) simp_all
  show "raises cfg (rms_norm cfg x) RuntimeError \<or> raises cfg (rms_norm cfg x) ValueError"
    using bracket_outcome [OF conjunct1 [OF k], of ?ss]
  proof
    assume "raises cfg (b_bracket ?ss) RuntimeError"
    then show ?thesis unfolding rms_norm_def Let_def by (intro disjI1 raises_then [OF yields_emit] raises_first)
  next
    assume y: "yields cfg (b_bracket ?ss) ?lo"
    show ?thesis unfolding rms_norm_def Let_def
      by (intro disjI2 raises_then [OF yields_emit] raises_then [OF y] raises_then [OF ys(2)] rest)
  qed
qed

lemma quotient_words_self:
  "quotient_words tb tb = (if tb = 0 then Inl ZeroDivisionError else if 32 \<le> tb then Inl ValueError else Inr (nat ((63 - int tb) div int tb)))"
proof -
  have "(63 - int tb) div int tb < 1 \<longleftrightarrow> 32 \<le> tb" if "tb \<noteq> 0"
    using that pos_imp_zdiv_pos_iff [of "int tb" "63 - int tb"] by linarith
  then show ?thesis by (simp add: quotient_words_def LIFT_BITS_def Let_def)
qed

lemma cfg_ok_iff: "(\<exists>kr kb. cfg_ok cfg kr kb) \<longleftrightarrow> 0 < c_table_bits cfg \<and> c_table_bits cfg < 32 \<and> c_scale_bits cfg \<le> c_table_bits cfg"
proof -
  let ?tb = "c_table_bits cfg" and ?sb = "c_scale_bits cfg"
  have "\<exists>kr. quotient_words ?sb ?tb = Inr kr" if "0 < ?tb" "?tb < 32" "?sb \<le> ?tb"
  proof -
    have "1 \<le> (63 - int ?sb) div int ?tb" using that by (simp add: int_one_le_iff_zero_less pos_imp_zdiv_pos_iff)
    then show ?thesis using that by (simp add: quotient_words_def LIFT_BITS_def Let_def)
  qed
  then show ?thesis using quotient_words_self [of ?tb] by (auto simp: cfg_ok_def split: if_splits)
qed
lemma forward_raises:
  assumes w: "weights_ok cfg w" and e: "raises cfg (rms_norm cfg (w_x w)) e"
  shows "forward cfg w = Inl e"
proof -
  have "c_scale cfg \<noteq> 0" by (simp add: c_scale_def)
  then obtain tabs where t: "build_tables (c_table_bits cfg) (c_scale cfg) = Inr tabs" by (simp add: build_tables_def Let_def)
  have "good cfg (new_builder cfg tabs)" using new_builder_good [OF t] by simp
  then have "on_tables cfg (new_builder cfg tabs)" by (simp add: good_def on_tables_def)
  moreover have "raises cfg (layer_steps cfg w) e" unfolding layer_steps_def by (rule raises_first [OF e])
  ultimately show ?thesis by (simp add: forward_def t raises_def)
qed

text \<open>
  Property C37 (\<open>forward_errors\<close>): every way the forward pass can fail on weights of the declared
  shapes, for every configuration. With no table bits it raises \<open>ZeroDivisionError\<close>, with 32 or
  more \<open>ValueError\<close> (no quotient word fits); with more scale bits than table bits it always fails,
  by \<open>ValueError\<close> (the range bound exceeds the table) or, before that, by an overflow; otherwise it
  returns or fails by \<open>RangeOverflow\<close>, a \<open>RuntimeError\<close>. No index, key or table-domain error is
  reachable.
\<close>

theorem forward_errors:
  assumes w: "weights_ok cfg w"
  shows "case forward cfg w of
      Inr tr \<Rightarrow> 0 < c_table_bits cfg \<and> c_table_bits cfg < 32 \<and> c_scale_bits cfg \<le> c_table_bits cfg
    | Inl e \<Rightarrow> (if c_table_bits cfg = 0 then e = ZeroDivisionError
               else if 32 \<le> c_table_bits cfg then e = ValueError
               else e = RuntimeError \<or> c_table_bits cfg < c_scale_bits cfg \<and> e = ValueError)"
proof (cases "\<exists>kr kb. cfg_ok cfg kr kb")
  case True
  then obtain kr kb where ok: "cfg_ok cfg kr kb" by blast
  then have b: "0 < c_table_bits cfg" "c_table_bits cfg < 32" "c_scale_bits cfg \<le> c_table_bits cfg" using cfg_ok_iff by blast+
  from forward_runs [OF ok w] show ?thesis
  proof
    assume "forward cfg w = Inl RuntimeError"
    then show ?thesis using b by simp
  next
    assume "\<exists>tabs y b. build_tables (c_table_bits cfg) (c_scale cfg) = Inr tabs \<and>
      good cfg b \<and> bd_tables b = tabs \<and> tally_of b = layer_tally cfg kr kb \<and> mat (c_S cfg) (c_d cfg) y \<and>
      forward cfg w = Inr \<lparr>lt_cfg = cfg, lt_x_in = w_x w, lt_y_out = map (map (\<lambda>v. v mod FIELD_P)) y, lt_matmuls = bd_matmuls b, lt_moe = bd_moe b,
        lt_gates = bd_gates b, lt_lookups = trace_lookups tabs (bd_lookups b), lt_route = w_route w,
        lt_expert_weights = map fst (w_experts w), lt_peak_value = 0, lt_peak_bound = 0\<rparr>"
    then obtain tr where "forward cfg w = Inr tr" by blast
    then show ?thesis using b by simp
  qed
next
  case False
  have x: "mat (c_S cfg) (c_d cfg) (w_x w)" "0 < c_S cfg" using w by (simp_all add: weights_ok_def Let_def)
  have bad: "c_table_bits cfg = 0 \<or> 32 \<le> c_table_bits cfg \<or> c_table_bits cfg < c_scale_bits cfg" using False cfg_ok_iff [of cfg] by auto
  show ?thesis
  proof (cases "c_table_bits cfg = 0 \<or> 32 \<le> c_table_bits cfg")
    case True
    then have "quotient_words (c_table_bits cfg) (c_table_bits cfg) = Inl (if c_table_bits cfg = 0 then ZeroDivisionError else ValueError)"
      by (auto simp: quotient_words_self)
    then have "forward cfg w = Inl (if c_table_bits cfg = 0 then ZeroDivisionError else ValueError)"
      using rms_errors [OF x] forward_raises [OF w] by blast
    then show ?thesis using True by auto
  next
    case False
    then obtain kb where "quotient_words (c_table_bits cfg) (c_table_bits cfg) = Inr kb" by (auto simp: quotient_words_self)
    then have "forward cfg w = Inl RuntimeError \<or> forward cfg w = Inl ValueError"
      using rms_errors [OF x] forward_raises [OF w] bad False by blast
    then show ?thesis using False bad by auto
  qed
qed

theorem forward_errors_witness:
  "forward toy_cfg neg_weights = Inl RuntimeError \<and> forward (toy_cfg\<lparr>c_table_bits := 0\<rparr>) toy_weights = Inl ZeroDivisionError \<and>
   forward (toy_cfg\<lparr>c_table_bits := 32\<rparr>) toy_weights = Inl ValueError \<and>
   (\<exists>e. forward (toy_cfg\<lparr>c_scale_bits := 7, c_table_bits := 6\<rparr>) toy_weights = Inl e \<and> e \<in> {RuntimeError, ValueError})"
proof -
  have w: "weights_ok (toy_cfg\<lparr>c_table_bits := 0\<rparr>) toy_weights" "weights_ok (toy_cfg\<lparr>c_table_bits := 32\<rparr>) toy_weights"
    "weights_ok (toy_cfg\<lparr>c_scale_bits := 7, c_table_bits := 6\<rparr>) toy_weights"
    using toy_weights_ok by (simp_all add: weights_ok_def)
  show ?thesis
    using forward_errors [OF neg_weights_ok] neg_forward forward_errors [OF w(1)] forward_errors [OF w(2)] forward_errors [OF w(3)]
    by (auto split: sum.splits)
qed

section \<open>The looseness of the range check\<close>

text \<open>
  Property C39 (\<open>rescale_remainder_loose\<close>): with fewer scale bits than table bits \<open>_range_check\<close> does
  not enforce its bound. Any bound up to the table size has the same effect as the table size; and
  for a \<open>raw\<close> of at least the scale, both the step that \<open>b_rescale\<close> takes on it and the same step
  with the quotient one lower and the remainder raised by the scale return, and the checker accepts
  both traces.
\<close>

theorem rescale_remainder_loose:
  assumes sb: "c_scale_bits cfg < c_table_bits cfg" and k: "quotient_words (c_scale_bits cfg) (c_table_bits cfg) = Inr k"
    and raw: "c_scale cfg \<le> raw" "raw < 2 ^ (c_scale_bits cfg + c_table_bits cfg * k)"
    and t: "build_tables (c_table_bits cfg) (c_scale cfg) = Inr tabs"
  shows "b_range_check vals (c_scale cfg) (new_builder cfg tabs) = b_range_check vals (c_table_size cfg) (new_builder cfg tabs) \<and>
    b_rescale [raw] (new_builder cfg tabs) = divide_with ''rescale'' (c_scale cfg) (c_scale_bits cfg) [raw] [raw div c_scale cfg] [raw mod c_scale cfg] (new_builder cfg tabs) \<and>
    (\<forall>i \<in> {0, 1}. \<exists>b. divide_with ''rescale'' (c_scale cfg) (c_scale_bits cfg) [raw] [raw div c_scale cfg - i] [raw mod c_scale cfg + i * c_scale cfg]
        (new_builder cfg tabs) = Inr ([raw div c_scale cfg - i], b) \<and> check_trace (trace_of b) = Inr None)"
proof (intro conjI ballI)
  let ?b0 = "new_builder cfg tabs" and ?s = "c_scale cfg"
  have g: "good cfg ?b0" using new_builder_good [OF t] by simp
  have ot: "on_tables cfg ?b0" using g by (simp add: good_def on_tables_def)
  have s: "?s = 2 ^ c_scale_bits cfg" "0 < ?s" "?s \<le> c_table_size cfg"
    using sb by (auto simp: c_scale_def c_table_size_def intro: power_increasing)
  obtain rt where "map_of tabs ''range'' = Some rt" "int (tab_size rt) = c_table_size cfg"
    using table_of [OF t, of "''range''"] by (auto simp: table_names_def tab_size_def table_rows_def c_table_size_def)
  then show "b_range_check vals ?s ?b0 = b_range_check vals (c_table_size cfg) ?b0"
    using s(3) by (simp add: b_range_check_def b_table_def sbind_def new_builder_def)
  show "b_rescale [raw] ?b0 = divide_with ''rescale'' ?s (c_scale_bits cfg) [raw] [raw div ?s] [raw mod ?s] ?b0"
    by (simp add: rescale_divide new_builder_def)
  fix i :: int assume i: "i \<in> {0, 1}"
  let ?q = "raw div ?s - i" and ?r = "raw mod ?s + i * ?s"
  have two: "2 * ?s \<le> c_table_size cfg"
  proof -
    have "(2 :: int) ^ Suc (c_scale_bits cfg) \<le> 2 ^ c_table_bits cfg" using sb by (intro power_increasing) simp_all
    then show ?thesis by (simp add: s(1) c_table_size_def)
  qed
  have r: "0 \<le> ?r \<and> ?r < 2 ^ c_table_bits cfg"
    using i s(2) two pos_mod_bound [OF s(2), of raw] pos_mod_sign [OF s(2), of raw] by (auto simp: c_table_size_def)
  have q: "0 \<le> ?q \<and> ?q < 2 ^ (c_table_bits cfg * k)"
  proof -
    have "1 \<le> raw div ?s" using raw(1) s(2) by (simp add: pos_imp_zdiv_pos_iff int_one_le_iff_zero_less)
    moreover have "raw div ?s < 2 ^ (c_table_bits cfg * k)"
      unfolding s(1) using raw(2) by (intro int_div_less_power) (simp_all add: add.commute)
    ultimately show ?thesis using i by auto
  qed
  have y: "yields cfg (divide_with ''rescale'' ?s (c_scale_bits cfg) [raw] [?q] [?r]) [?q]"
    unfolding divide_with_def
    by (rule yields_id, rule yields_sbind [OF yields_emit], rule yields_sbind [OF yields_range],
        use s(3) in \<open>simp add: c_table_size_def\<close>, rule yields_sbind [OF yields_bound [OF k] yields_ret]) (use q in auto)
  have sp: "spec cfg (divide_with ''rescale'' ?s (c_scale_bits cfg) [raw] [?q] [?r])
      (gates_t 2 (2 * length [raw]) + logs_t ''range'' ((1 + k) * length [raw])) (\<lambda>x. x = [?q])"
    by (rule spec_divide_with [OF k s(1)]) (use sb r in \<open>auto simp: algebra_simps\<close>)
  obtain b where b: "divide_with ''rescale'' ?s (c_scale_bits cfg) [raw] [?q] [?r] ?b0 = Inr ([?q], b)"
    using y ot unfolding yields_def by blast
  then have "good cfg b" using specD [OF sp g] by auto
  then show "\<exists>b. divide_with ''rescale'' ?s (c_scale_bits cfg) [raw] [?q] [?r] ?b0 = Inr ([?q], b) \<and> check_trace (trace_of b) = Inr None"
    using b good_trace by blast
qed

theorem rescale_remainder_loose_witness:
  "\<exists>tabs b. let cfg = toy_cfg\<lparr>c_table_bits := 8\<rparr> in build_tables 8 16 = Inr tabs \<and>
     divide_with ''rescale'' 16 4 [40] [1] [24] (new_builder cfg tabs) = Inr ([1], b) \<and> check_trace (trace_of b) = Inr None"
proof -
  let ?cfg = "toy_cfg\<lparr>c_table_bits := 8\<rparr>"
  obtain tabs where tabs: "build_tables 8 16 = Inr tabs" by (simp add: build_tables_def Let_def)
  have k: "quotient_words (c_scale_bits ?cfg) (c_table_bits ?cfg) = Inr 7" by (simp add: quotient_words_def LIFT_BITS_def toy_cfg_def)
  have c: "c_scale ?cfg = 16" by (simp add: c_scale_def toy_cfg_def)
  have t: "build_tables (c_table_bits ?cfg) (c_scale ?cfg) = Inr tabs" using tabs c by simp
  have sb: "c_scale_bits ?cfg < c_table_bits ?cfg" by (simp add: toy_cfg_def)
  have raw: "c_scale ?cfg \<le> 40" "40 < (2 :: int) ^ (c_scale_bits ?cfg + c_table_bits ?cfg * 7)"
    unfolding c by simp (simp add: toy_cfg_def)
  have one: "(1 :: int) \<in> {0, 1}" by simp
  have b4: "c_scale_bits ?cfg = 4" by (simp add: toy_cfg_def)
  from bspec [OF conjunct2 [OF conjunct2 [OF rescale_remainder_loose [OF sb k raw t]]] one]
  obtain b where "divide_with ''rescale'' 16 4 [40] [1] [24] (new_builder ?cfg tabs) = Inr ([1], b)" "check_trace (trace_of b) = Inr None"
    unfolding c b4 by auto
  then show ?thesis using tabs unfolding Let_def by blast
qed

end
