(* ===== verification/Bands.thy ===== *)
theory Bands
  imports Polys
begin

text \<open>
  The linear band templates of \<^verbatim>\<open>prover/packets.py\<close>, their lowering to launch descriptors in
  \<^verbatim>\<open>prover/core.py\<close> (\<open>_lower_geometry\<close>, \<open>_lower_band\<close>, \<open>ChalSource\<close>) and the kernels of
  \<^verbatim>\<open>prover/cuda_primitives.py\<close> that evaluate them, one slot per thread. Indices are natural numbers
  (the kernels use 64-bit words; every index stays below the number of witness slots), table
  reads are list reads, and the challenge of a constraint is a parameter.
\<close>

section \<open>The templates\<close>

datatype band =
    L2_IdentityScalar (b_base: nat) (b_row: int) (b_L: nat) (b_coef: int)
  | L2_PerSlotVector (b_base: nat) (b_row: int) (b_L: nat) (b_vec: "int list")
  | L2_RowSumPerSlotVector (b_base: nat) (b_row: int) (b_L: nat) (b_stride: nat) (b_vec: "int list")
  | L2_StrideOneToManyScalar (b_base: nat) (b_row: int) (b_L: nat) (b_stride: nat) (b_coef: int)
  | L2_StrideManyToOneScalar (b_base: nat) (b_row: int) (b_L: nat) (b_stride: nat) (b_coef: int)
  | L2_TransposeO2MScalar (b_base: nat) (b_row: int) (b_L: nat) (b_rows: nat) (b_cols: nat) (b_fan: nat) (b_coef: int)
  | L2_CausalFilteredIdScalar (b_base: nat) (b_row: int) (b_L: nat) (b_M: nat) (b_H: nat) (b_coef: int)
  | L2_CausalFilteredC2Stride (b_base: nat) (b_row: int) (b_B: nat) (b_H: nat) (b_coef: int)
  | L2_CausalMaskedIdScalar (b_base: nat) (b_row: int) (b_L: nat) (b_M: nat) (b_H: nat) (b_coef: int)
  | L2_EmbedE (b_base: nat) (b_row: int) (b_d: nat) (b_tokens: "nat list")
  | L2_FreivaldsLF1B (b_base: nat) (b_row: int) (b_k: nat) (b_n: nat) (b_H: nat) (b_K: nat) (b_transpose: bool) (b_vec: "int list")
  | L2_FreivaldsLF2A (b_base: nat) (b_row: int) (b_k: nat) (b_m: nat) (b_H: nat) (b_K: nat) (b_vec: "int list")
  | L2_FreivaldsLF3C (b_base: nat) (b_row: int) (b_m: nat) (b_n: nat) (b_H: nat) (b_L: nat) (b_vec: "int list") (b_rho: "int list")
  | L2_RoPEXRot (b_base: nat) (b_row: int) (b_SEQ: nat) (b_H: nat) (b_dh: nat) (b_L: nat)
  | L2_RoPEX (b_base: nat) (b_row: int) (b_SEQ: nat) (b_H: nat) (b_dh: nat) (b_L: nat) (b_vec: "int list") (b_sin: "int list")

text \<open>Ranks of the cells of a causal softmax: of an unmasked cell among the unmasked ones, of a
  masked cell among the masked ones, and the number of masked cells.\<close>

definition causal_rank :: "nat \<Rightarrow> nat \<Rightarrow> nat \<Rightarrow> nat \<Rightarrow> nat" where
  "causal_rank H i h j = H * i * (i + 1) div 2 + h * (i + 1) + j"

definition masked_rank :: "nat \<Rightarrow> nat \<Rightarrow> nat \<Rightarrow> nat \<Rightarrow> nat \<Rightarrow> nat" where
  "masked_rank M H i h j = H * (i * (M - 1) - i * (i - 1) div 2) + h * (M - 1 - i) + (j - i - 1)"

definition causal_masked_count :: "nat \<Rightarrow> nat \<Rightarrow> nat \<Rightarrow> nat result" where
  "causal_masked_count B M H =
     (if H = 0 then Inl ZeroDivisionError
      else let seq = B div H in
        if \<not> (B = seq * H \<and> seq \<le> M) then Inl AssertionError
        else Inr (H * sum_list (map (\<lambda>i. M - 1 - i) [0..<seq])))"

text \<open>The documented index maps: the constraints the slot \<open>f\<close> of the variable feeds, with the
  coefficients.\<close>

fun band_terms :: "nat \<Rightarrow> band \<Rightarrow> nat \<Rightarrow> (nat \<times> int) list" where
  "band_terms ell (L2_IdentityScalar bs rs L coef) f = [(bs + f, coef)]"
| "band_terms ell (L2_PerSlotVector bs rs L vec) f = [(bs + f, vec ! f)]"
| "band_terms ell (L2_RowSumPerSlotVector bs rs L stride vec) f = [(bs + f div stride, vec ! (f mod stride))]"
| "band_terms ell (L2_StrideOneToManyScalar bs rs L stride coef) f = map (\<lambda>k. (bs + f * stride + k, coef)) [0..<stride]"
| "band_terms ell (L2_StrideManyToOneScalar bs rs L stride coef) f = [(bs + f div stride, coef)]"
| "band_terms ell (L2_TransposeO2MScalar bs rs L rows cols fan coef) f =
     map (\<lambda>k. (bs + (f mod cols) * rows * fan + (f div cols) * fan + k, coef)) [0..<fan]"
| "band_terms ell (L2_CausalFilteredIdScalar bs rs L M H coef) f =
     (let b = f div M; j = f mod M; i = b div H; h = b mod H in if j \<le> i then [(bs + causal_rank H i h j, coef)] else [])"
| "band_terms ell (L2_CausalFilteredC2Stride bs rs B H coef) f =
     (let i = f div H; h = f mod H in map (\<lambda>j. (bs + causal_rank H i h 0 + j, coef)) [0..<i + 1])"
| "band_terms ell (L2_CausalMaskedIdScalar bs rs L M H coef) f =
     (let b = f div M; j = f mod M; i = b div H; h = b mod H in if i < j then [(bs + masked_rank M H i h j, coef)] else [])"
| "band_terms ell (L2_EmbedE bs rs d tokens) f =
     (let row_off = f div ell; rows_per_w = ell div d; vocab_lo = row_off * rows_per_w; s = f mod ell in
      concat (map (\<lambda>i. concat (map (\<lambda>j. if s = (tokens ! i - vocab_lo) * d + j then [(bs + i * d + j, FIELD_P - 1)] else []) [0..<d]))
        (filter (\<lambda>i. vocab_lo \<le> tokens ! i \<and> tokens ! i < vocab_lo + rows_per_w) [0..<length tokens])))"
| "band_terms ell (L2_FreivaldsLF1B bs rs k n H K tr neg_rho) f =
     (let (i_k, j) = (if tr then (f mod k, f div k) else (let rest = f div n in ((rest mod H) * K + rest div H, f mod n)))
      in [(bs + i_k, neg_rho ! ((i_k div K) * n + j))])"
| "band_terms ell (L2_FreivaldsLF2A bs rs k m H K neg_lam) f = [(bs + f mod k, neg_lam ! ((f mod k div K) * m + f div k))]"
| "band_terms ell (L2_FreivaldsLF3C bs rs m n H L lam rho) f =
     (let j = f mod n; rest = f div n; h = rest mod H; i = rest div H in [(bs + h, - (lam ! (h * m + i) * rho ! (h * n + j)))])"
| "band_terms ell (L2_RoPEXRot bs rs SEQ H d_h L) f =
     (let seq = f div (H * d_h); h = (f div d_h) mod H; k = f mod d_h; half = d_h div 2; e_self = k div half; k_in_pair = k mod half;
          pair_t = seq * H * half + h * half + k_in_pair in [(bs + 2 * pair_t + e_self, 1)])"
| "band_terms ell (L2_RoPEX bs rs SEQ H d_h L cos_t sin_t) f =
     (let seq = f div (H * d_h); h = (f div d_h) mod H; k = f mod d_h; half = d_h div 2; e_self = k div half; k_in_pair = k mod half;
          pair_t = seq * H * half + h * half + k_in_pair; c = cos_t ! (seq * half + k_in_pair); s = sin_t ! (seq * half + k_in_pair)
      in if e_self = 0 then [(bs + 2 * pair_t, - c), (bs + 2 * pair_t + 1, - s)] else [(bs + 2 * pair_t, s), (bs + 2 * pair_t + 1, - c)])"

section \<open>Lowering to a launch descriptor\<close>

text \<open>The descriptor: the digit radices (most significant first), the constraint strides of the
  digits, the fan and its stride, the coefficient mode (constant, table, product of tables) with
  its constant, and the strides and contents of the two tables.\<close>

record geometry =
  ge_q :: nat
  ge_shape :: "nat list"
  ge_cs :: "nat list"
  ge_fan :: nat
  ge_fs :: nat
  ge_mode :: nat
  ge_c0 :: int
  ge_astr :: "nat list"
  ge_tblA :: "int list option"
  ge_bstr :: "nat list"
  ge_tblB :: "int list option"
  ge_L :: nat

definition ceil_div :: "nat \<Rightarrow> nat \<Rightarrow> nat" where
  "ceil_div a b = (a + b - 1) div b"

fun lower_geometry :: "band \<Rightarrow> geometry option" where
  "lower_geometry (L2_IdentityScalar bs rs L coef) = Some \<lparr>ge_q = 1, ge_shape = [L, 1, 1, 1], ge_cs = [1, 0, 0, 0], ge_fan = 1, ge_fs = 0,
     ge_mode = 0, ge_c0 = coef mod FIELD_P, ge_astr = [0, 0, 0, 0], ge_tblA = None, ge_bstr = [0, 0, 0, 0], ge_tblB = None, ge_L = L\<rparr>"
| "lower_geometry (L2_PerSlotVector bs rs L vec) = Some \<lparr>ge_q = 1, ge_shape = [L, 1, 1, 1], ge_cs = [1, 0, 0, 0], ge_fan = 1, ge_fs = 0,
     ge_mode = 1, ge_c0 = 0, ge_astr = [1, 0, 0, 0], ge_tblA = Some vec, ge_bstr = [0, 0, 0, 0], ge_tblB = None, ge_L = L\<rparr>"
| "lower_geometry (L2_RowSumPerSlotVector bs rs L stride vec) = Some \<lparr>ge_q = 2, ge_shape = [ceil_div L stride, stride, 1, 1], ge_cs = [1, 0, 0, 0],
     ge_fan = 1, ge_fs = 0, ge_mode = 1, ge_c0 = 0, ge_astr = [0, 1, 0, 0], ge_tblA = Some vec, ge_bstr = [0, 0, 0, 0], ge_tblB = None, ge_L = L\<rparr>"
| "lower_geometry (L2_StrideManyToOneScalar bs rs L stride coef) = Some \<lparr>ge_q = 2, ge_shape = [ceil_div L stride, stride, 1, 1], ge_cs = [1, 0, 0, 0],
     ge_fan = 1, ge_fs = 0, ge_mode = 0, ge_c0 = coef mod FIELD_P, ge_astr = [0, 0, 0, 0], ge_tblA = None, ge_bstr = [0, 0, 0, 0], ge_tblB = None, ge_L = L\<rparr>"
| "lower_geometry (L2_StrideOneToManyScalar bs rs L stride coef) = Some \<lparr>ge_q = 1, ge_shape = [L, 1, 1, 1], ge_cs = [stride, 0, 0, 0],
     ge_fan = stride, ge_fs = 1, ge_mode = 0, ge_c0 = coef mod FIELD_P, ge_astr = [0, 0, 0, 0], ge_tblA = None, ge_bstr = [0, 0, 0, 0], ge_tblB = None, ge_L = L\<rparr>"
| "lower_geometry (L2_TransposeO2MScalar bs rs L rows cols fan coef) = Some \<lparr>ge_q = 2, ge_shape = [rows, cols, 1, 1], ge_cs = [fan, rows * fan, 0, 0],
     ge_fan = fan, ge_fs = 1, ge_mode = 0, ge_c0 = coef mod FIELD_P, ge_astr = [0, 0, 0, 0], ge_tblA = None, ge_bstr = [0, 0, 0, 0], ge_tblB = None, ge_L = L\<rparr>"
| "lower_geometry (L2_FreivaldsLF1B bs rs k n H K tr neg_rho) =
     (if tr then Some \<lparr>ge_q = 3, ge_shape = [ceil_div (n * k) k, H, K, 1], ge_cs = [0, K, 1, 0], ge_fan = 1, ge_fs = 0, ge_mode = 1, ge_c0 = 0,
        ge_astr = [1, n, 0, 0], ge_tblA = Some neg_rho, ge_bstr = [0, 0, 0, 0], ge_tblB = None, ge_L = k * n\<rparr>
      else Some \<lparr>ge_q = 3, ge_shape = [K, H, n, 1], ge_cs = [1, K, 0, 0], ge_fan = 1, ge_fs = 0, ge_mode = 1, ge_c0 = 0,
        ge_astr = [0, n, 1, 0], ge_tblA = Some neg_rho, ge_bstr = [0, 0, 0, 0], ge_tblB = None, ge_L = k * n\<rparr>)"
| "lower_geometry (L2_FreivaldsLF2A bs rs k m H K neg_lam) = Some \<lparr>ge_q = 3, ge_shape = [m, H, K, 1], ge_cs = [0, K, 1, 0], ge_fan = 1, ge_fs = 0,
     ge_mode = 1, ge_c0 = 0, ge_astr = [1, m, 0, 0], ge_tblA = Some neg_lam, ge_bstr = [0, 0, 0, 0], ge_tblB = None, ge_L = m * k\<rparr>"
| "lower_geometry (L2_FreivaldsLF3C bs rs m n H L lam rho) = Some \<lparr>ge_q = 3, ge_shape = [m, H, n, 1], ge_cs = [0, 1, 0, 0], ge_fan = 1, ge_fs = 0,
     ge_mode = 2, ge_c0 = 0, ge_astr = [1, m, 0, 0], ge_tblA = Some lam, ge_bstr = [0, n, 1, 0], ge_tblB = Some rho, ge_L = L\<rparr>"
| "lower_geometry (L2_RoPEXRot bs rs SEQ H d_h L) = (let half = d_h div 2 in Some \<lparr>ge_q = 4, ge_shape = [SEQ, H, 2, half],
     ge_cs = [2 * H * half, 2 * half, 1, 2], ge_fan = 1, ge_fs = 0, ge_mode = 0, ge_c0 = 1,
     ge_astr = [0, 0, 0, 0], ge_tblA = None, ge_bstr = [0, 0, 0, 0], ge_tblB = None, ge_L = L\<rparr>)"
| "lower_geometry _ = None"

text \<open>\<open>ChalSource\<close>: the constraint span whose challenges are hashed once into a buffer.\<close>

fun chal_span :: "band \<Rightarrow> (nat \<times> nat) option" where
  "chal_span (L2_FreivaldsLF1B bs rs k n H K tr vec) = Some (bs, bs + k)"
| "chal_span (L2_FreivaldsLF2A bs rs k m H K vec) = Some (bs, bs + k)"
| "chal_span (L2_FreivaldsLF3C bs rs m n H L lam rho) = Some (bs, bs + H)"
| "chal_span _ = None"

definition buffer_for :: "(nat \<Rightarrow> int) \<Rightarrow> band \<Rightarrow> (nat \<times> int list) option" where
  "buffer_for chal b = map_option (\<lambda>(lo, hi). (lo, map chal [lo..<hi])) (chal_span b)"

section \<open>The kernels, one slot\<close>

definition read_chal :: "(nat \<Rightarrow> int) \<Rightarrow> (nat \<times> int list) option \<Rightarrow> nat \<Rightarrow> int" where
  "read_chal chal buf c = (case buf of None \<Rightarrow> chal c | Some (lo, vs) \<Rightarrow> vs ! (c - lo))"

text \<open>The digit loop: \<open>j\<close> from \<open>q - 1\<close> down to 1.\<close>

fun digit_loop :: "geometry \<Rightarrow> nat \<Rightarrow> nat \<times> nat \<times> nat \<times> nat \<Rightarrow> nat \<times> nat \<times> nat \<times> nat" where
  "digit_loop g 0 st = st"
| "digit_loop g (Suc j) (rm, cid, ia, ib) =
     (let dig = rm mod ge_shape g ! Suc j in
      digit_loop g j (rm div ge_shape g ! Suc j, cid + dig * ge_cs g ! Suc j, ia + dig * ge_astr g ! Suc j, ib + dig * ge_bstr g ! Suc j))"

definition interp_band :: "(nat \<Rightarrow> int) \<Rightarrow> (nat \<times> int list) option \<Rightarrow> geometry \<Rightarrow> nat \<Rightarrow> nat \<Rightarrow> int" where
  "interp_band chal buf g bs f =
     (let (rm, cid0, ia0, ib0) = digit_loop g (ge_q g - 1) (f, bs, 0, 0);
          cid = cid0 + rm * ge_cs g ! 0; ia = ia0 + rm * ge_astr g ! 0; ib = ib0 + rm * ge_bstr g ! 0;
          coef = (if ge_mode g = 0 then ge_c0 g else if ge_mode g = 1 then the (ge_tblA g) ! ia
                  else (0 - the (ge_tblA g) ! ia * the (ge_tblB g) ! ib mod FIELD_P) mod FIELD_P);
          acc = foldl (\<lambda>acc t. (acc + read_chal chal buf (cid + t * ge_fs g)) mod FIELD_P) 0 [0..<ge_fan g]
      in coef * acc mod FIELD_P)"

definition k_band_causal_id :: "(nat \<Rightarrow> int) \<Rightarrow> nat \<Rightarrow> nat \<Rightarrow> nat \<Rightarrow> int \<Rightarrow> nat \<Rightarrow> int" where
  "k_band_causal_id chal bs m h coef f =
     (let b = f div m; j = f mod m; i_qry = b div h; hh = b mod h in
      if j > i_qry then 0 else coef * chal (bs + h * i_qry * (i_qry + 1) div 2 + hh * (i_qry + 1) + j) mod FIELD_P)"

definition k_band_causal_c2 :: "(nat \<Rightarrow> int) \<Rightarrow> nat \<Rightarrow> nat \<Rightarrow> int \<Rightarrow> nat \<Rightarrow> int" where
  "k_band_causal_c2 chal bs h coef f =
     (let i_qry = f div h; hh = f mod h; rank0 = bs + h * i_qry * (i_qry + 1) div 2 + hh * (i_qry + 1);
          acc = foldl (\<lambda>acc jo. (acc + chal (rank0 + jo)) mod FIELD_P) 0 [0..<i_qry + 1]
      in coef * acc mod FIELD_P)"

definition k_band_causal_masked_id :: "(nat \<Rightarrow> int) \<Rightarrow> nat \<Rightarrow> nat \<Rightarrow> nat \<Rightarrow> int \<Rightarrow> nat \<Rightarrow> int" where
  "k_band_causal_masked_id chal bs m h coef f =
     (let b = f div m; j = f mod m; i_qry = b div h; hh = b mod h in
      if j \<le> i_qry then 0
      else let before = h * (i_qry * (m - 1) - i_qry * (i_qry - 1) div 2) + hh * (m - 1 - i_qry)
           in coef * chal (bs + before + (j - i_qry - 1)) mod FIELD_P)"

definition k_band_embed :: "(nat \<Rightarrow> int) \<Rightarrow> nat \<Rightarrow> nat \<Rightarrow> nat \<Rightarrow> nat \<Rightarrow> nat list \<Rightarrow> nat \<Rightarrow> int" where
  "k_band_embed chal bs d rows_per_w ell tokens f =
     (let row_off = f div ell; within = f mod ell; rel = within div d; jj = within mod d in
      if rel \<ge> rows_per_w then 0
      else let v = row_off * rows_per_w + rel;
               acc = foldl (\<lambda>acc i. if tokens ! i = v then (acc + chal (bs + i * d + jj)) mod FIELD_P else acc) 0 [0..<length tokens]
           in (0 - acc) mod FIELD_P)"

definition k_band_rope_x :: "(nat \<Rightarrow> int) \<Rightarrow> nat \<Rightarrow> nat \<Rightarrow> nat \<Rightarrow> int list \<Rightarrow> int list \<Rightarrow> nat \<Rightarrow> int" where
  "k_band_rope_x chal bs H d_h cos_t sin_t f =
     (let half = d_h div 2; sq = f div (H * d_h); hh = (f div d_h) mod H; k = f mod d_h; e = k div half; kp = k mod half;
          pair_t = sq * H * half + hh * half + kp; ci = sq * half + kp; c = cos_t ! ci; sn = sin_t ! ci;
          r1 = chal (bs + 2 * pair_t); r2 = chal (bs + 2 * pair_t + 1);
          c1 = (if e = 0 then (0 - c) mod FIELD_P else sn);
          c2 = (if e = 0 then (0 - sn) mod FIELD_P else (0 - c) mod FIELD_P)
      in (c1 * r1 mod FIELD_P + c2 * r2 mod FIELD_P) mod FIELD_P)"

text \<open>\<open>_lower_band\<close>: the value a launch adds to the slot \<open>f\<close> of its variable. \<open>None\<close> is the
  assertion that every kind has a lowering.\<close>

fun launch :: "nat \<Rightarrow> (nat \<Rightarrow> int) \<Rightarrow> band \<Rightarrow> nat \<Rightarrow> int result" where
  "launch ell chal (L2_CausalFilteredIdScalar bs rs L M H coef) f = Inr (k_band_causal_id chal bs M H (coef mod FIELD_P) f)"
| "launch ell chal (L2_CausalFilteredC2Stride bs rs B H coef) f = Inr (k_band_causal_c2 chal bs H (coef mod FIELD_P) f)"
| "launch ell chal (L2_CausalMaskedIdScalar bs rs L M H coef) f = Inr (k_band_causal_masked_id chal bs M H (coef mod FIELD_P) f)"
| "launch ell chal (L2_EmbedE bs rs d tokens) f = (if d = 0 then Inl ZeroDivisionError else Inr (k_band_embed chal bs d (max 1 (ell div d)) ell tokens f))"
| "launch ell chal (L2_RoPEX bs rs SEQ H d_h L cos_t sin_t) f = Inr (k_band_rope_x chal bs H d_h cos_t sin_t f)"
| "launch ell chal b f = (case lower_geometry b of None \<Rightarrow> Inl AssertionError | Some g \<Rightarrow> Inr (interp_band chal (buffer_for chal b) g (b_base b) f))"

text \<open>The length each launch is clipped to.\<close>

fun launch_len :: "band \<Rightarrow> nat" where
  "launch_len (L2_CausalFilteredIdScalar bs rs L M H coef) = L"
| "launch_len (L2_CausalFilteredC2Stride bs rs B H coef) = B"
| "launch_len (L2_CausalMaskedIdScalar bs rs L M H coef) = L"
| "launch_len (L2_EmbedE bs rs d tokens) = 2 ^ 62"
| "launch_len (L2_RoPEX bs rs SEQ H d_h L cos_t sin_t) = L"
| "launch_len b = (case lower_geometry b of None \<Rightarrow> 0 | Some g \<Rightarrow> ge_L g)"

section \<open>The lowering computes the documented maps\<close>

fun band_ok :: "nat \<Rightarrow> band \<Rightarrow> bool" where
  "band_ok ell (L2_RowSumPerSlotVector bs rs L stride vec) \<longleftrightarrow> 0 < stride"
| "band_ok ell (L2_StrideManyToOneScalar bs rs L stride coef) \<longleftrightarrow> 0 < stride"
| "band_ok ell (L2_TransposeO2MScalar bs rs L rows cols fan coef) \<longleftrightarrow> 0 < cols"
| "band_ok ell (L2_CausalFilteredIdScalar bs rs L M H coef) \<longleftrightarrow> 0 < M \<and> 0 < H"
| "band_ok ell (L2_CausalFilteredC2Stride bs rs B H coef) \<longleftrightarrow> 0 < H"
| "band_ok ell (L2_CausalMaskedIdScalar bs rs L M H coef) \<longleftrightarrow> 0 < M \<and> 0 < H"
| "band_ok ell (L2_EmbedE bs rs d tokens) \<longleftrightarrow> 0 < d \<and> d dvd ell \<and> 0 < ell"
| "band_ok ell (L2_FreivaldsLF1B bs rs k n H K tr vec) \<longleftrightarrow> k = H * K \<and> 0 < H \<and> 0 < K \<and> 0 < n"
| "band_ok ell (L2_FreivaldsLF2A bs rs k m H K vec) \<longleftrightarrow> k = H * K \<and> 0 < H \<and> 0 < K \<and> 0 < m"
| "band_ok ell (L2_FreivaldsLF3C bs rs m n H L lam rho) \<longleftrightarrow> 0 < H \<and> 0 < n"
| "band_ok ell (L2_RoPEXRot bs rs SEQ H d_h L) \<longleftrightarrow> 0 < H \<and> 0 < d_h \<and> even d_h"
| "band_ok ell (L2_RoPEX bs rs SEQ H d_h L cos_t sin_t) \<longleftrightarrow> 0 < H \<and> 0 < d_h \<and> even d_h"
| "band_ok ell b \<longleftrightarrow> True"

definition terms_value :: "(nat \<Rightarrow> int) \<Rightarrow> (nat \<times> int) list \<Rightarrow> int" where
  "terms_value chal ts = sum_list (map (\<lambda>(cid, c). c * chal cid) ts) mod FIELD_P"

lemma foldl_add_mod: "foldl (\<lambda>acc t. (acc + g t) mod m) a xs mod m = (a + sum_list (map g xs)) mod (m :: int)"
proof (induction xs arbitrary: a)
  case (Cons x xs)
  then show ?case by (simp add: mod_add_left_eq add.assoc)
qed simp

lemma foldl_add_mod_if: "foldl (\<lambda>acc t. if Q t then (acc + g t) mod m else acc) a xs mod m = (a + sum_list (map g (filter Q xs))) mod (m :: int)"
proof (induction xs arbitrary: a)
  case (Cons x xs)
  then show ?case by (simp add: mod_add_left_eq add.assoc)
qed simp

lemma times_mod_acc: "a mod m = b mod m \<Longrightarrow> c * a mod m = c * b mod (m :: int)"
  by (metis mod_mult_right_eq)

lemma terms_single: "terms_value chal [(cid, c)] = c * chal cid mod FIELD_P"
  by (simp add: terms_value_def)

lemma terms_scaled: "terms_value chal (map (\<lambda>k. (g k, c)) xs) = c * sum_list (map (\<lambda>k. chal (g k)) xs) mod FIELD_P"
  by (simp add: terms_value_def comp_def sum_list_const_mult)

lemma interp_single:
  assumes "ge_fan g = 1" "ge_fs g = 0" "ge_mode g = 0"
    and "digit_loop g (ge_q g - 1) (f, bs, 0, 0) = (rm, cid0, ia0, ib0)"
  shows "interp_band chal None g bs f = ge_c0 g * chal (cid0 + rm * ge_cs g ! 0) mod FIELD_P"
  using assms by (simp add: interp_band_def Let_def read_chal_def mod_mult_right_eq)

lemma interp_table:
  assumes "ge_fan g = 1" "ge_fs g = 0" "ge_mode g = 1" "ge_tblA g = Some vec"
    and "digit_loop g (ge_q g - 1) (f, bs, 0, 0) = (rm, cid0, ia0, ib0)"
  shows "interp_band chal buf g bs f = vec ! (ia0 + rm * ge_astr g ! 0) * read_chal chal buf (cid0 + rm * ge_cs g ! 0) mod FIELD_P"
  using assms by (simp add: interp_band_def Let_def mod_mult_right_eq)

lemma interp_fan:
  assumes "ge_fs g = 1" "ge_mode g = 0"
    and "digit_loop g (ge_q g - 1) (f, bs, 0, 0) = (rm, cid0, ia0, ib0)"
  shows "interp_band chal None g bs f = ge_c0 g * sum_list (map (\<lambda>t. chal (cid0 + rm * ge_cs g ! 0 + t)) [0..<ge_fan g]) mod FIELD_P"
  using assms by (simp add: interp_band_def Let_def read_chal_def, intro times_mod_acc) (simp add: foldl_add_mod)

lemma read_buffer: "lo \<le> c \<Longrightarrow> c < hi \<Longrightarrow> read_chal chal (Some (lo, map chal [lo..<hi])) c = chal c"
  by (simp add: read_chal_def)

lemma coef_mod: "c mod FIELD_P * x mod FIELD_P = c * x mod FIELD_P"
  by (simp add: mod_mult_left_eq)

lemma head_index: "r < K \<Longrightarrow> (h * K + r) div K = (h :: nat)"
  by simp

lemma digits_1: "digit_loop g (Suc 0) (f, c, a, b) =
    (f div ge_shape g ! 1, c + (f mod ge_shape g ! 1) * ge_cs g ! 1, a + (f mod ge_shape g ! 1) * ge_astr g ! 1, b + (f mod ge_shape g ! 1) * ge_bstr g ! 1)"
  by (simp add: Let_def)

lemma digits_2: "digit_loop g 2 (f, c, a, b) =
    digit_loop g (Suc 0) (f div ge_shape g ! 2, c + (f mod ge_shape g ! 2) * ge_cs g ! 2, a + (f mod ge_shape g ! 2) * ge_astr g ! 2, b + (f mod ge_shape g ! 2) * ge_bstr g ! 2)"
  by (simp add: numeral_2_eq_2 Let_def)

lemma digits_3: "digit_loop g 3 (f, c, a, b) =
    digit_loop g 2 (f div ge_shape g ! 3, c + (f mod ge_shape g ! 3) * ge_cs g ! 3, a + (f mod ge_shape g ! 3) * ge_astr g ! 3, b + (f mod ge_shape g ! 3) * ge_bstr g ! 3)"
  by (simp add: numeral_3_eq_3 numeral_2_eq_2 Let_def)

lemmas geo_simps = digits_1 digits_2 digits_3 ceil_div_def

lemma interp_fields:
  "interp_band chal buf g bs f =
    (case digit_loop g (ge_q g - 1) (f, bs, 0, 0) of (rm, cid0, ia0, ib0) \<Rightarrow>
      (if ge_mode g = 0 then ge_c0 g else if ge_mode g = 1 then the (ge_tblA g) ! (ia0 + rm * ge_astr g ! 0)
       else (0 - the (ge_tblA g) ! (ia0 + rm * ge_astr g ! 0) * the (ge_tblB g) ! (ib0 + rm * ge_bstr g ! 0) mod FIELD_P) mod FIELD_P) *
      sum_list (map (\<lambda>t. read_chal chal buf (cid0 + rm * ge_cs g ! 0 + t * ge_fs g)) [0..<ge_fan g]) mod FIELD_P)"
proof -
  have acc: "c * foldl (\<lambda>acc t. (acc + h t) mod FIELD_P) 0 xs mod FIELD_P = c * sum_list (map h xs) mod FIELD_P" for c h and xs :: "nat list"
    by (intro times_mod_acc) (simp add: foldl_add_mod)
  show ?thesis unfolding interp_band_def Let_def acc by simp
qed

lemmas interp_unfold = launch.simps lower_geometry.simps buffer_for_def chal_span.simps option.simps option.map Let_def prod.case if_True if_False
  interp_fields geometry.simps

lemma launch_identity: "launch ell chal (L2_IdentityScalar bs rs L coef) f = Inr (terms_value chal (band_terms ell (L2_IdentityScalar bs rs L coef) f))"
  unfolding interp_unfold by (simp add: terms_single coef_mod read_chal_def)

lemma launch_slot_vector: "launch ell chal (L2_PerSlotVector bs rs L vec) f = Inr (terms_value chal (band_terms ell (L2_PerSlotVector bs rs L vec) f))"
  unfolding interp_unfold by (simp add: terms_single read_chal_def)

lemma launch_row_sum: "launch ell chal (L2_RowSumPerSlotVector bs rs L stride vec) f = Inr (terms_value chal (band_terms ell (L2_RowSumPerSlotVector bs rs L stride vec) f))"
  unfolding interp_unfold by (simp add: geo_simps terms_single read_chal_def)

lemma launch_many_to_one: "launch ell chal (L2_StrideManyToOneScalar bs rs L stride coef) f = Inr (terms_value chal (band_terms ell (L2_StrideManyToOneScalar bs rs L stride coef) f))"
  unfolding interp_unfold by (simp add: geo_simps terms_single read_chal_def coef_mod)

lemma launch_one_to_many: "launch ell chal (L2_StrideOneToManyScalar bs rs L stride coef) f = Inr (terms_value chal (band_terms ell (L2_StrideOneToManyScalar bs rs L stride coef) f))"
  unfolding interp_unfold by (simp add: terms_scaled read_chal_def coef_mod)

lemma launch_transpose: "launch ell chal (L2_TransposeO2MScalar bs rs L rows cols fan coef) f = Inr (terms_value chal (band_terms ell (L2_TransposeO2MScalar bs rs L rows cols fan coef) f))"
proof -
  have "(\<lambda>k. bs + f mod cols * (rows * fan) + f div cols * fan + k) = (\<lambda>k. bs + f mod cols * rows * fan + f div cols * fan + k)" by (simp add: mult.assoc)
  then show ?thesis unfolding interp_unfold by (simp add: geo_simps read_chal_def coef_mod terms_scaled mult.assoc)
qed

lemma term_eqI: "i = i' \<Longrightarrow> c = c' \<Longrightarrow> vec ! i * x c mod m = vec ! i' * x c' mod (m :: int)"
  by simp

lemma split_mod: "f mod (H * K) = (f div K mod H) * K + f mod (K :: nat)"
  using mod_mult2_eq [of f K H] by (simp add: mult.commute)

lemma split_div: "f div (H * K) = f div K div (H :: nat)"
  using div_mult2_eq [of f K H] by (simp add: mult.commute)

lemma launch_lf1b:
  assumes "band_ok ell (L2_FreivaldsLF1B bs rs k n H K tr vec)" "f < k * n"
  shows "launch ell chal (L2_FreivaldsLF1B bs rs k n H K tr vec) f = Inr (terms_value chal (band_terms ell (L2_FreivaldsLF1B bs rs k n H K tr vec) f))"
proof -
  have ok: "k = H * K" "0 < H" "0 < K" "0 < n" using assms(1) by simp_all
  show ?thesis
  proof (cases tr)
    case True
    let ?r = "f mod K" and ?h = "f div K mod H" and ?j = "f div K div H"
    have i: "f mod k = ?h * K + ?r" and j: "f div k = ?j"
      unfolding ok(1) by (rule split_mod, rule split_div)
    have h: "f mod k div K = ?h" unfolding i using ok by (simp add: head_index)
    have b: "read_chal chal (Some (bs, map chal [bs..<bs + k])) (bs + f mod k) = chal (bs + f mod k)"
      by (rule read_buffer) (use ok in simp_all)
    have c: "bs + ?r + ?h * K = bs + f mod k" by (simp add: i)
    have ia: "?h * n + ?j = f mod k div K * n + f div k" by (simp only: h j)
    show ?thesis unfolding interp_unfold using True by (simp add: Let_def geo_simps terms_single c ia b)
  next
    case False
    let ?j = "f mod n" and ?h = "f div n mod H" and ?r = "f div n div H"
    have r: "?r < K" using assms(2) ok by (simp add: less_mult_imp_div_less mult.commute mult.assoc mult.left_commute)
    then have lt: "?h * K + ?r < k" using ok mult_add_less [of ?h H ?r K] by simp
    have b: "read_chal chal (Some (bs, map chal [bs..<bs + k])) (bs + (?h * K + ?r)) = chal (bs + (?h * K + ?r))"
      by (rule read_buffer) (use lt in simp_all)
    have ia: "(?h * K + ?r) div K * n + ?j = ?j + ?h * n" using r by (simp add: head_index)
    show ?thesis unfolding interp_unfold using False by (simp add: Let_def geo_simps terms_single ia b add.assoc)
  qed
qed

lemma launch_lf2a:
  assumes "band_ok ell (L2_FreivaldsLF2A bs rs k m H K vec)"
  shows "launch ell chal (L2_FreivaldsLF2A bs rs k m H K vec) f = Inr (terms_value chal (band_terms ell (L2_FreivaldsLF2A bs rs k m H K vec) f))"
proof -
  have ok: "k = H * K" "0 < H" "0 < K" "0 < m" using assms(1) by simp_all
  let ?r = "f mod K" and ?h = "f div K mod H" and ?j = "f div K div H"
  have i: "f mod k = ?h * K + ?r" and j: "f div k = ?j"
    unfolding ok(1) by (rule split_mod, rule split_div)
  have h: "f mod k div K = ?h" unfolding i using ok by (simp add: head_index)
  have b: "read_chal chal (Some (bs, map chal [bs..<bs + k])) (bs + f mod k) = chal (bs + f mod k)"
    by (rule read_buffer) (use ok in simp_all)
  have c: "bs + ?r + ?h * K = bs + f mod k" by (simp add: i)
    have ia: "?h * m + ?j = f mod k div K * m + f div k" by (simp only: h j)
  show ?thesis unfolding interp_unfold by (simp add: Let_def geo_simps terms_single c ia b)
qed

lemma launch_lf3c:
  assumes "band_ok ell (L2_FreivaldsLF3C bs rs m n H L lam rho)"
  shows "launch ell chal (L2_FreivaldsLF3C bs rs m n H L lam rho) f = Inr (terms_value chal (band_terms ell (L2_FreivaldsLF3C bs rs m n H L lam rho) f))"
proof -
  let ?h = "f div n mod H"
  have b: "read_chal chal (Some (bs, map chal [bs..<bs + H])) (bs + ?h) = chal (bs + ?h)"
    by (rule read_buffer) (use assms in simp_all)
  have m: "(- (a mod FIELD_P)) mod FIELD_P * x mod FIELD_P = - (a * x) mod FIELD_P" for a x
    by (metis mod_minus_eq mod_mult_left_eq mult_minus_left)
  show ?thesis unfolding interp_unfold by (simp add: Let_def geo_simps terms_single b m add.commute [of "f mod n"] add.commute [of "f div n div H"])
qed

lemma launch_rope_rot:
  assumes "band_ok ell (L2_RoPEXRot bs rs SEQ H d_h L)"
  shows "launch ell chal (L2_RoPEXRot bs rs SEQ H d_h L) f = Inr (terms_value chal (band_terms ell (L2_RoPEXRot bs rs SEQ H d_h L) f))"
proof -
  obtain hf where d: "d_h = 2 * hf" "0 < hf" using assms by (auto elim!: evenE)
  have half: "d_h div 2 = hf" using d by simp
  have k: "f mod d_h = (f div hf mod 2) * hf + f mod hf" "f div d_h = f div hf div 2" unfolding d(1) by (rule split_mod, rule split_div)
  have e: "f mod d_h div hf = f div hf mod 2" "f mod d_h mod hf = f mod hf" unfolding k using d(2) by simp_all
  have sq: "f div (H * d_h) = f div hf div 2 div H" by (simp add: split_div k)
  show ?thesis unfolding interp_unfold
    by (simp add: geo_simps terms_single half e k(2) sq read_chal_def) (simp add: algebra_simps)
qed

lemma launch_causal_id:
  "launch ell chal (L2_CausalFilteredIdScalar bs rs L M H coef) f = Inr (terms_value chal (band_terms ell (L2_CausalFilteredIdScalar bs rs L M H coef) f))"
  by (simp add: k_band_causal_id_def causal_rank_def Let_def terms_value_def mod_mult_left_eq add.assoc)

lemma launch_causal_c2:
  "launch ell chal (L2_CausalFilteredC2Stride bs rs B H coef) f = Inr (terms_value chal (band_terms ell (L2_CausalFilteredC2Stride bs rs B H coef) f))"
proof -
  have acc: "c * foldl (\<lambda>acc t. (acc + h t) mod FIELD_P) 0 xs mod FIELD_P = c * sum_list (map h xs) mod FIELD_P" for c h and xs :: "nat list"
    by (intro times_mod_acc) (simp add: foldl_add_mod)
  show ?thesis
    unfolding launch.simps k_band_causal_c2_def Let_def acc band_terms.simps terms_scaled coef_mod by (simp add: causal_rank_def add.assoc)
qed

lemma launch_causal_masked:
  "launch ell chal (L2_CausalMaskedIdScalar bs rs L M H coef) f = Inr (terms_value chal (band_terms ell (L2_CausalMaskedIdScalar bs rs L M H coef) f))"
  by (simp add: k_band_causal_masked_id_def masked_rank_def Let_def terms_value_def mod_mult_left_eq add.assoc)

lemma launch_rope_x:
  "launch ell chal (L2_RoPEX bs rs SEQ H d_h L cos_t sin_t) f = Inr (terms_value chal (band_terms ell (L2_RoPEX bs rs SEQ H d_h L cos_t sin_t) f))"
proof -
  have m: "(a mod FIELD_P * x mod FIELD_P + b mod FIELD_P * y mod FIELD_P) mod FIELD_P = (a * x + b * y) mod FIELD_P"
    "(a * x mod FIELD_P + b mod FIELD_P * y mod FIELD_P) mod FIELD_P = (a * x + b * y) mod FIELD_P" for a b x y
    by (simp_all add: mod_add_eq mod_mult_left_eq)
  have m': "(a mod FIELD_P * x + t) mod FIELD_P = (a * x + t) mod FIELD_P" for a x t
    by (rule mod_add_cong) (simp_all add: mod_mult_left_eq)
  show ?thesis
    by (cases "f mod d_h div (d_h div 2) = 0") (simp_all only: launch.simps band_terms.simps k_band_rope_x_def Let_def terms_value_def if_True if_False
      list.map prod.case sum_list.Cons sum_list.Nil add_0_right diff_0 m m' simp_thms)
qed

text \<open>The slots of the embedding matrix: a slot holds one coordinate of one vocabulary row, and feeds
  every position whose token is that row.\<close>

lemma concat_map_if: "concat (map (\<lambda>j. if Q j then [g j] else []) xs) = map g (filter Q xs)"
  by (induction xs) simp_all

lemma filter_upt_one: "filter (\<lambda>j. j = a) [0..<d] = (if a < d then [a] else [])"
  by (induction d) auto

lemma embed_slot_terms:
  assumes "0 < d" "d dvd ell" "0 < ell"
  shows "band_terms ell (L2_EmbedE bs rs d tokens) f =
    map (\<lambda>i. (bs + i * d + f mod ell mod d, FIELD_P - 1)) (filter (\<lambda>i. tokens ! i = f div ell * (ell div d) + f mod ell div d) [0..<length tokens])"
proof -
  define s w lo where "s = f mod ell" and "w = ell div d" and "lo = f div ell * w"
  have s: "s div d < w" using assms by (simp add: s_def w_def less_mult_imp_div_less)
  have one: "concat (map (\<lambda>j. if s = (v - lo) * d + j then [g j] else []) [0..<d]) = (if v = lo + s div d then [g (s mod d)] else [])"
    if v: "lo \<le> v" for v and g :: "nat \<Rightarrow> nat \<times> int"
  proof -
    have eq: "s = (v - lo) * d + j \<longleftrightarrow> v = lo + s div d \<and> j = s mod d" if "j < d" for j
      using that v assms(1) by (auto simp: div_mult_mod_eq)
    have "filter (\<lambda>j. s = (v - lo) * d + j) [0..<d] = filter (\<lambda>j. v = lo + s div d \<and> j = s mod d) [0..<d]"
      using eq by (intro filter_cong) auto
    then show ?thesis unfolding concat_map_if using assms(1) by (cases "v = lo + s div d") (simp_all add: filter_upt_one)
  qed
  let ?in = "\<lambda>i. lo \<le> tokens ! i \<and> tokens ! i < lo + w"
  have "band_terms ell (L2_EmbedE bs rs d tokens) f =
      concat (map (\<lambda>i. concat (map (\<lambda>j. if s = (tokens ! i - lo) * d + j then [(bs + i * d + j, FIELD_P - 1)] else []) [0..<d])) (filter ?in [0..<length tokens]))"
    by (simp add: Let_def s_def w_def lo_def)
  also have "\<dots> = concat (map (\<lambda>i. if tokens ! i = lo + s div d then [(bs + i * d + s mod d, FIELD_P - 1)] else []) (filter ?in [0..<length tokens]))"
    using one by (intro arg_cong [of _ _ concat] map_cong) auto
  also have "\<dots> = map (\<lambda>i. (bs + i * d + s mod d, FIELD_P - 1)) (filter (\<lambda>i. ?in i \<and> tokens ! i = lo + s div d) [0..<length tokens])"
    by (simp add: concat_map_if conj_commute)
  also have "filter (\<lambda>i. ?in i \<and> tokens ! i = lo + s div d) [0..<length tokens] = filter (\<lambda>i. tokens ! i = lo + s div d) [0..<length tokens]"
    using s by (intro filter_cong) auto
  finally show ?thesis by (simp add: s_def w_def lo_def)
qed

lemma launch_embed:
  assumes "band_ok ell (L2_EmbedE bs rs d tokens)"
  shows "launch ell chal (L2_EmbedE bs rs d tokens) f = Inr (terms_value chal (band_terms ell (L2_EmbedE bs rs d tokens) f))"
proof -
  have ok: "0 < d" "d dvd ell" "0 < ell" using assms by simp_all
  then have w: "1 \<le> ell div d" by (metis One_nat_def Suc_leI div_greater_zero_iff dvd_imp_le)
  have "f mod ell div d < ell div d" using ok by (simp add: less_mult_imp_div_less)
  then have nr: "\<not> max 1 (ell div d) \<le> f mod ell div d" using w by simp
  let ?v = "f div ell * (ell div d) + f mod ell div d" and ?h = "\<lambda>i. chal (bs + i * d + f mod ell mod d)"
  have acc: "(0 - foldl (\<lambda>acc t. if Q t then (acc + h t) mod FIELD_P else acc) 0 xs) mod FIELD_P = (0 - sum_list (map h (filter Q xs))) mod FIELD_P"
    for h Q and xs :: "nat list" by (rule mod_diff_cong, rule refl) (simp only: foldl_add_mod_if add_0)
  have mx: "max 1 (ell div d) = ell div d" using w by simp
  have "terms_value chal (band_terms ell (L2_EmbedE bs rs d tokens) f) = (FIELD_P - 1) * sum_list (map ?h (filter (\<lambda>i. tokens ! i = ?v) [0..<length tokens])) mod FIELD_P"
    unfolding embed_slot_terms [OF ok] terms_scaled ..
  also have "\<dots> = (0 - sum_list (map ?h (filter (\<lambda>i. tokens ! i = ?v) [0..<length tokens]))) mod FIELD_P"
    unfolding left_diff_distrib mult_1 by (rule mod_diff_cong) simp_all
  finally show ?thesis using ok nr
    by (simp only: launch.simps k_band_embed_def Let_def mx acc if_False) simp
qed

text \<open>
  Property C11 (\<open>lowering_exact\<close>): the lowering of a band is exact. For every template of a supported
  geometry and every slot of its variable, the launch (the digit loop on the lowered descriptor with
  the challenge buffer of the band's span, or the kernel of an irregular kind) adds the sum of
  coefficient times challenge over the constraints the template documents for that slot.
\<close>

theorem lowering_exact:
  assumes "band_ok ell b" "f < launch_len b"
  shows "launch ell chal b f = Inr (terms_value chal (band_terms ell b f))"
proof (cases b)
  case (L2_FreivaldsLF1B bs rs k n H K tr vec)
  then have "f < k * n" using assms(2) by (simp split: if_splits)
  then show ?thesis unfolding L2_FreivaldsLF1B using assms(1) L2_FreivaldsLF1B by (intro launch_lf1b) simp_all
qed (use assms(1) in \<open>simp_all only: launch_identity launch_slot_vector launch_row_sum launch_one_to_many launch_many_to_one launch_transpose
    launch_causal_id launch_causal_c2 launch_causal_masked launch_embed launch_lf2a launch_lf3c launch_rope_rot launch_rope_x\<close>)

theorem lowering_exact_witness:
  "launch 4 (\<lambda>c. int c * int c + 5) (L2_FreivaldsLF1B 10 3 4 3 2 2 True [1, 2, 3, 4, 5, 6]) 7 =
     Inr (terms_value (\<lambda>c. int c * int c + 5) (band_terms 4 (L2_FreivaldsLF1B 10 3 4 3 2 2 True [1, 2, 3, 4, 5, 6]) 7))"
  by (rule lowering_exact) simp_all

section \<open>The causal ranks number the cells\<close>

text \<open>Rows of blocks: \<open>H\<close> blocks of width \<open>w i\<close> in row \<open>i\<close>, numbered row by row.\<close>

lemma prefix_bij:
  fixes w :: "nat \<Rightarrow> nat"
  shows "bij_betw (\<lambda>(i, h, c). H * (\<Sum>i'<i. w i') + h * w i + c) {(i, h, c). i < n \<and> h < H \<and> c < w i} {..<H * (\<Sum>i<n. w i)}"
proof (induction n)
  case 0
  then show ?case by (simp add: bij_betw_def)
next
  case (Suc n)
  let ?f = "\<lambda>(i, h, c). H * (\<Sum>i'<i. w i') + h * w i + c" and ?s = "H * (\<Sum>i<n. w i)"
  have "bij_betw ?f {(i, h, c). i = n \<and> h < H \<and> c < w i} {?s..<?s + H * w n}"
  proof (rule bij_betw_byWitness [where f' = "\<lambda>m. (n, (m - ?s) div w n, (m - ?s) mod w n)"])
    show "?f ` {(i, h, c). i = n \<and> h < H \<and> c < w i} \<subseteq> {?s..<?s + H * w n}"
      using mult_add_less [of _ H _ "w n"] by auto
    show "(\<lambda>m. (n, (m - ?s) div w n, (m - ?s) mod w n)) ` {?s..<?s + H * w n} \<subseteq> {(i, h, c). i = n \<and> h < H \<and> c < w i}"
    proof clarify
      fix m assume m: "m \<in> {?s..<?s + H * w n}"
      then have "m - ?s < H * w n" by auto
      moreover from this have "0 < w n" by (cases "w n") auto
      ultimately show "n = n \<and> (m - ?s) div w n < H \<and> (m - ?s) mod w n < w n" by (simp add: less_mult_imp_div_less)
    qed
  qed (auto simp: add.assoc)
  with Suc have "bij_betw ?f ({(i, h, c). i < n \<and> h < H \<and> c < w i} \<union> {(i, h, c). i = n \<and> h < H \<and> c < w i}) ({..<?s} \<union> {?s..<?s + H * w n})"
    by (rule bij_betw_combine) auto
  moreover have "{(i, h, c). i < n \<and> h < H \<and> c < w i} \<union> {(i, h, c). i = n \<and> h < H \<and> c < w i} = {(i, h, c). i < Suc n \<and> h < H \<and> c < w i}" by auto
  moreover have "{..<?s} \<union> {?s..<?s + H * w n} = {..<H * (\<Sum>i<Suc n. w i)}" by (auto simp: distrib_left)
  ultimately show ?case by simp
qed

lemma gauss: "(\<Sum>i'<i. i' + 1) = i * (i + 1) div (2 :: nat)"
  by (induction i) auto

lemma gauss_down: "i \<le> M \<Longrightarrow> (\<Sum>i'<i. M - 1 - i') = i * (M - 1) - i * (i - 1) div (2 :: nat)"
proof (induction i)
  case (Suc i)
  have e: "Suc i * i div 2 = i * (i - 1) div 2 + i" by (cases i) (auto simp: algebra_simps)
  have ih: "(\<Sum>i'<i. M - 1 - i') = i * (M - 1) - i * (i - 1) div 2" by (rule Suc.IH) (use Suc.prems in simp)
  have "i * (i - 1) div 2 \<le> i * (M - 1)" using Suc.prems by (intro order_trans [OF div_le_dividend] mult_le_mono2) simp
  then have "(\<Sum>i'<Suc i. M - 1 - i') = i * (M - 1) + (M - 1 - i) - i * (i - 1) div 2"
    unfolding sum.lessThan_Suc ih by (rule diff_add_assoc2 [symmetric])
  also have "\<dots> = Suc i * (M - 1) - Suc i * i div 2"
  proof -
    have "y + (M - 1 - i) - x = (M - 1) + y - (x + i)" for x y using Suc.prems by arith
    then show ?thesis unfolding e by (simp only: mult_Suc)
  qed
  finally show ?case by (simp only: diff_Suc_1)
qed simp

lemma causal_rank_prefix: "causal_rank H i h j = H * (\<Sum>i'<i. i' + 1) + h * (i + 1) + j"
proof -
  obtain c where c: "i * (i + 1) = 2 * c" by (metis evenE even_add even_mult_iff odd_one)
  have "H * i * (i + 1) div 2 = H * (i * (i + 1) div 2)" unfolding mult.assoc c by simp
  then show ?thesis unfolding causal_rank_def gauss by (simp only:)
qed

lemma masked_rank_prefix: "i < M \<Longrightarrow> masked_rank M H i h j = H * (\<Sum>i'<i. M - 1 - i') + h * (M - 1 - i) + (j - i - 1)"
  using gauss_down [of i M] by (simp add: masked_rank_def)

lemma causal_rank_bij:
  "bij_betw (\<lambda>(i, h, j). causal_rank H i h j) {(i, h, j). i < n \<and> h < H \<and> j \<le> i} {..<H * (n * (n + 1) div 2)}"
proof -
  have "{(i, h, j). i < n \<and> h < H \<and> j \<le> i} = {(i, h, j). i < n \<and> h < H \<and> j < i + 1}" by auto
  then show ?thesis using prefix_bij [of H "\<lambda>i. i + 1" n] by (simp only: causal_rank_prefix gauss)
qed

lemma masked_rank_bij:
  assumes "n \<le> M"
  shows "bij_betw (\<lambda>(i, h, j). masked_rank M H i h j) {(i, h, j). i < n \<and> h < H \<and> i < j \<and> j < M} (lessThan (H * (\<Sum>t<n. M - 1 - t)))"
proof -
  let ?A = "{(i, h, j). i < n \<and> h < H \<and> i < j \<and> j < M}" and ?B = "{(i, h, c). i < n \<and> h < H \<and> c < M - 1 - i}"
  let ?g = "\<lambda>(i, h, j). (i, h, j - i - 1 :: nat)" and ?f = "\<lambda>(i, h, c). H * (\<Sum>i'<i. M - 1 - i') + h * (M - 1 - i) + c"
  have "bij_betw ?g ?A ?B"
    by (rule bij_betw_byWitness [where f' = "\<lambda>(i, h, c). (i, h, c + i + 1)"]) (use assms in auto)
  then have "bij_betw (?f \<circ> ?g) ?A (lessThan (H * (\<Sum>t<n. M - 1 - t)))"
    using prefix_bij [of H "\<lambda>i. M - 1 - i" n] by (rule bij_betw_trans)
  moreover have "(?f \<circ> ?g) x = (\<lambda>(i, h, j). masked_rank M H i h j) x" if "x \<in> ?A" for x
    using that assms by (auto simp: masked_rank_prefix)
  ultimately show ?thesis using bij_betw_cong by blast
qed

text \<open>
  Fact (\<open>causal_ranks\<close>): the closed-form ranks of the causal softmax are numberings. Over a
  sequence no longer than the row, the rank formula of the unmasked cells is a bijection onto the
  first \<open>H * n * (n + 1) / 2\<close> numbers and that of the masked cells onto the first
  \<open>causal_masked_count\<close> numbers: every masked cell has a constraint of its own.
\<close>

theorem causal_ranks:
  assumes "0 < H" "n \<le> M"
  shows "bij_betw (\<lambda>(i, h, j). causal_rank H i h j) {(i, h, j). i < n \<and> h < H \<and> j \<le> i} {..<H * (n * (n + 1) div 2)} \<and>
    (\<exists>cnt. causal_masked_count (n * H) M H = Inr cnt \<and>
      bij_betw (\<lambda>(i, h, j). masked_rank M H i h j) {(i, h, j). i < n \<and> h < H \<and> i < j \<and> j < M} {..<cnt})"
  using causal_rank_bij masked_rank_bij [OF assms(2), of H] assms
  by (simp add: causal_masked_count_def Let_def sum_list_map_upt)

theorem causal_ranks_witness:
  "\<exists>n. causal_masked_count (3 * 2) 4 2 = Inr n \<and>
     bij_betw (\<lambda>(i, h, j). masked_rank 4 2 i h j) {(i, h, j). i < 3 \<and> h < 2 \<and> i < j \<and> j < 4} {..<n}"
  using causal_ranks [of 2 3 4] by simp

end
