(* ===== verification/Claims_Core.thy ===== *)
theory Claims_Core
  imports Bands Fs_Coins
begin

text \<open>
  The data model of \<^verbatim>\<open>prover/core.py\<close> that the claim compilers share: variables and their rows,
  quadratic families, lookup tables, the claims of \<^verbatim>\<open>prover/claims.py\<close> with their fields in order,
  the layout walk (\<open>_layout\<close>, \<open>_claim_var_groups\<close>, \<open>_with_synthesized_settlements\<close>) and the row maps.
  Variables and tables are Python objects compared by identity: each has an identifier, and the
  fields the framework assigns (\<open>row_start\<close>, \<open>alpha\<close>, \<open>beta\<close>) are a store indexed by it.
\<close>

section \<open>Variables, families and tables\<close>

record variable =
  v_id :: nat
  v_name :: string
  v_length :: nat
  v_phase :: nat
  v_persistent :: bool
  v_wnew :: bool
  v_external :: bool

definition new_variable :: "nat \<Rightarrow> string \<Rightarrow> nat \<Rightarrow> nat \<Rightarrow> bool \<Rightarrow> bool \<Rightarrow> bool \<Rightarrow> variable" where
  "new_variable i name len phase persistent w_new external =
     \<lparr>v_id = i, v_name = (if length name > 80 then ''...'' @ drop (length name - 77) name else name), v_length = len, v_phase = phase,
       v_persistent = persistent, v_wnew = w_new, v_external = external\<rparr>"

definition n_rows :: "variable \<Rightarrow> nat \<Rightarrow> nat" where
  "n_rows v ell = (v_length v + ell - 1) div ell"

record heap =
  h_row :: "nat \<Rightarrow> int"
  h_alpha :: "nat \<Rightarrow> int"
  h_beta :: "nat \<Rightarrow> int"

definition fresh_heap :: heap where
  "fresh_heap = \<lparr>h_row = (\<lambda>_. -1), h_alpha = (\<lambda>_. 0), h_beta = (\<lambda>_. 0)\<rparr>"

definition row_start :: "heap \<Rightarrow> variable \<Rightarrow> int" where
  "row_start h v = h_row h (v_id v)"

definition abs_slot :: "heap \<Rightarrow> variable \<Rightarrow> nat \<Rightarrow> nat \<Rightarrow> int" where
  "abs_slot h v f ell = (row_start h v + int (f div ell)) * int ell + int (f mod ell)"

record quadratic_constraint =
  qc_name :: string
  qc_x :: int
  qc_y :: int
  qc_z :: int
  qc_n :: nat
  qc_a :: int
  qc_b :: int

record quad_family =
  qf_name :: string
  qf_x :: int
  qf_y :: int
  qf_z :: int
  qf_L :: nat
  qf_ell :: nat
  qf_a :: int
  qf_b :: int

definition fam_nrows :: "quad_family \<Rightarrow> nat" where
  "fam_nrows q = (qf_L q + qf_ell q - 1) div qf_ell q"

definition fam_expand :: "quad_family \<Rightarrow> quadratic_constraint list" where
  "fam_expand q =
     (let nr = fam_nrows q in
      map (\<lambda>t. \<lparr>qc_name = (if nr > 1 then qf_name q @ ''['' @ dec_str t @ '']'' else qf_name q), qc_x = qf_x q + int t, qc_y = qf_y q + int t,
        qc_z = qf_z q + int t, qc_n = min (qf_ell q) (qf_L q - t * qf_ell q), qc_a = qf_a q, qc_b = qf_b q\<rparr>) [0..<nr])"

record ltable =
  tb_id :: nat
  tb_name :: string
  tb_T :: "int list"
  tb_mult :: variable
  tb_w :: variable
  tb_TY :: "int list option"
  tb_z :: "variable list"

definition alpha_of :: "heap \<Rightarrow> ltable \<Rightarrow> int" where "alpha_of h t = h_alpha h (tb_id t)"
definition beta_of :: "heap \<Rightarrow> ltable \<Rightarrow> int" where "beta_of h t = h_beta h (tb_id t)"

section \<open>Claims\<close>

record rescale_part =
  rp_bits :: nat
  rp_width :: nat
  rp_full :: variable
  rp_low :: variable
  rp_shifted :: variable
  rp_z_low :: variable
  rp_z_shifted :: variable
  rp_range :: ltable
  rp_output :: ltable

record matmul_claim =
  mc_A :: variable
  mc_B :: variable
  mc_C :: variable
  mc_y :: variable
  mc_u :: variable
  mc_p :: variable
  mc_m :: nat
  mc_k :: nat
  mc_n :: nat
  mc_transpose :: bool
  mc_heads :: nat
  mc_head_dim :: nat
  mc_rescale :: "rescale_part option"

record lincomb_claim =
  lc_xs :: "variable list"
  lc_coefs :: "int list"
  lc_rhs :: "int list"
  lc_length :: nat

record add_claim =
  ac_a :: variable
  ac_b :: variable
  ac_c :: variable
  ac_length :: nat
  ac_public :: "int option"

record concat_claim =
  cc_srcs :: "variable list"
  cc_dst :: variable

record hadamard_claim =
  hc_a :: variable
  hc_b :: variable
  hc_c :: variable
  hc_length :: nat
  hc_rescale :: "rescale_part option"

record range_word_claim =
  rw_x :: variable
  rw_z :: variable
  rw_table :: ltable
  rw_length :: nat
  rw_local :: "variable option"

record word_extraction_claim =
  we_x :: variable
  we_words :: "variable list"
  we_coeffs :: "int list"
  we_length :: nat
  we_shift :: int

record paired_tlookup_claim =
  pt_x :: variable
  pt_y :: variable
  pt_u :: variable
  pt_z :: variable
  pt_table :: ltable
  pt_length :: nat
  pt_shift :: int

datatype claim =
    MatmulClaim matmul_claim
  | LinCombClaim lincomb_claim
  | AddClaim add_claim
  | ConcatClaim concat_claim
  | HadamardClaim hadamard_claim
  | RangeWordClaim range_word_claim
  | WordExtractionClaim word_extraction_claim
  | PairedTlookupClaim paired_tlookup_claim
  | TableSettlement ltable

text \<open>\<open>fields(c)\<close>: the values of a claim's fields in declaration order, as far as the walks look at
  them. An absent optional field is \<open>None\<close>, which they skip.\<close>

datatype field = FVar variable | FTable ltable | FList "variable list" | FOther

definition rescale_fields :: "rescale_part option \<Rightarrow> field list" where
  "rescale_fields r = (case r of None \<Rightarrow> replicate 9 FOther
     | Some p \<Rightarrow> [FOther, FOther, FVar (rp_full p), FVar (rp_low p), FVar (rp_shifted p), FVar (rp_z_low p), FVar (rp_z_shifted p), FTable (rp_range p), FTable (rp_output p)])"

fun claim_fields :: "claim \<Rightarrow> field list" where
  "claim_fields (MatmulClaim c) = [FVar (mc_A c), FVar (mc_B c), FVar (mc_C c), FVar (mc_y c), FVar (mc_u c), FVar (mc_p c), FOther, FOther, FOther, FOther, FOther, FOther]
     @ rescale_fields (mc_rescale c)"
| "claim_fields (LinCombClaim c) = [FList (lc_xs c), FOther, FOther, FOther]"
| "claim_fields (AddClaim c) = [FVar (ac_a c), FVar (ac_b c), FVar (ac_c c), FOther, FOther]"
| "claim_fields (ConcatClaim c) = [FList (cc_srcs c), FVar (cc_dst c)]"
| "claim_fields (HadamardClaim c) = [FVar (hc_a c), FVar (hc_b c), FVar (hc_c c), FOther] @ rescale_fields (hc_rescale c)"
| "claim_fields (RangeWordClaim c) = [FVar (rw_x c), FVar (rw_z c), FTable (rw_table c), FOther, (case rw_local c of None \<Rightarrow> FOther | Some v \<Rightarrow> FVar v)]"
| "claim_fields (WordExtractionClaim c) = [FVar (we_x c), FList (we_words c), FOther, FOther, FOther]"
| "claim_fields (PairedTlookupClaim c) = [FVar (pt_x c), FVar (pt_y c), FVar (pt_u c), FVar (pt_z c), FTable (pt_table c), FOther, FOther]"
| "claim_fields (TableSettlement t) = [FTable t]"

fun is_settlement :: "claim \<Rightarrow> bool" where
  "is_settlement (TableSettlement t) = True"
| "is_settlement c = False"

section \<open>Settlements and the layout\<close>

fun collect_fields :: "nat list \<Rightarrow> nat list \<Rightarrow> field list \<Rightarrow> nat list \<times> ltable list" where
  "collect_fields explicit seen [] = (seen, [])"
| "collect_fields explicit seen (f # fs) =
     (case f of
        FTable t \<Rightarrow> if tb_id t \<notin> set explicit \<and> tb_id t \<notin> set seen
          then (let (seen', ts) = collect_fields explicit (tb_id t # seen) fs in (seen', t # ts))
          else collect_fields explicit seen fs
      | _ \<Rightarrow> collect_fields explicit seen fs)"

fun explicit_tables :: "claim list \<Rightarrow> nat list" where
  "explicit_tables [] = []"
| "explicit_tables (TableSettlement t # cs) = tb_id t # explicit_tables cs"
| "explicit_tables (c # cs) = explicit_tables cs"

definition collect_tables :: "claim list \<Rightarrow> ltable list" where
  "collect_tables claims = snd (collect_fields (explicit_tables claims) [] (concat (map claim_fields claims)))"

definition with_synthesized_settlements :: "claim list \<Rightarrow> claim list" where
  "with_synthesized_settlements claims = claims @ map TableSettlement (collect_tables claims)"

text \<open>The variables a claim's walk reaches, in order: a table's own variables only through its
  settlement.\<close>

fun field_vars :: "bool \<Rightarrow> field \<Rightarrow> variable list" where
  "field_vars st (FVar v) = [v]"
| "field_vars st (FTable t) = (if st then tb_mult t # tb_w t # tb_z t else [])"
| "field_vars st (FList vs) = vs"
| "field_vars st FOther = []"

definition claim_vars :: "claim \<Rightarrow> variable list" where
  "claim_vars c = concat (map (field_vars (is_settlement c)) (claim_fields c))"

fun add_vars :: "variable list \<Rightarrow> variable list \<Rightarrow> variable list" where
  "add_vars acc [] = acc"
| "add_vars acc (v # vs) = add_vars (if v_id v \<in> set (map v_id acc) then acc else acc @ [v]) vs"

text \<open>One block of the layout: rows are assigned in order from the next free row.\<close>

fun place :: "nat \<Rightarrow> (nat \<Rightarrow> int) \<Rightarrow> nat \<Rightarrow> variable list \<Rightarrow> (nat \<Rightarrow> int) \<times> nat" where
  "place ell rows nxt [] = (rows, nxt)"
| "place ell rows nxt (v # vs) = place ell (rows(v_id v := int nxt)) (nxt + n_rows v ell) vs"

definition NUM_BLINDING_ROWS :: nat where "NUM_BLINDING_ROWS = 3"

record layout =
  ly_all :: "variable list"
  ly_p1 :: "variable list"
  ly_p2 :: "variable list"
  ly_p3 :: "variable list"
  ly_p1_end :: nat
  ly_p2_end :: nat
  ly_total :: nat
  ly_w :: "variable list"
  ly_m_w :: nat
  ly_wnew :: "variable list"
  ly_m_wnew :: nat

definition do_layout :: "claim list \<Rightarrow> nat \<Rightarrow> heap \<Rightarrow> layout \<times> heap" where
  "do_layout claims ell h =
     (let all_vars = filter (\<lambda>v. \<not> v_external v) (add_vars [] (concat (map claim_vars claims)));
          w = filter (\<lambda>v. v_phase v = 1 \<and> v_persistent v \<and> \<not> v_wnew v) all_vars;
          wnew = filter (\<lambda>v. v_phase v = 1 \<and> v_persistent v \<and> v_wnew v) all_vars;
          p1 = filter (\<lambda>v. v_phase v = 1 \<and> \<not> v_persistent v) all_vars;
          p2 = filter (\<lambda>v. v_phase v = 2) all_vars;
          p3 = filter (\<lambda>v. v_phase v = 3) all_vars;
          (r1, n1) = place ell (h_row h) NUM_BLINDING_ROWS w;
          (r2, n2) = place ell r1 n1 wnew;
          (r3, n3) = place ell r2 n2 p1;
          (r4, n4) = place ell r3 n3 p2;
          (r5, n5) = place ell r4 n4 p3
      in (\<lparr>ly_all = all_vars, ly_p1 = p1, ly_p2 = p2, ly_p3 = p3, ly_p1_end = n3, ly_p2_end = n4, ly_total = n5, ly_w = w,
            ly_m_w = n1 - NUM_BLINDING_ROWS, ly_wnew = wnew, ly_m_wnew = n2 - NUM_BLINDING_ROWS - (n1 - NUM_BLINDING_ROWS)\<rparr>,
          h\<lparr>h_row := r5\<rparr>))"

end
