(* ===== verification/Claims.thy ===== *)
theory Claims
  imports Claims_Core
begin

text \<open>
  The claim compilers of \<^verbatim>\<open>prover/claims.py\<close> and the settlement compiler, challenge sampling and
  compilation driver of \<^verbatim>\<open>prover/core.py\<close>: each claim becomes linear bands, quadratic families and a
  right-hand side. The optional \<open>rescale_bits = 0\<close> case of a claim is an absent rescale part; the
  device tensors are lists. The activation claims (SiLU, RMSNorm, softmax, RoPE, embedding) are not
  modelled.
\<close>

section \<open>Packets and right-hand sides\<close>

datatype item = PktAt int band | PktRange band int int

fun expand_item :: "item \<Rightarrow> (int \<times> band) list" where
  "expand_item (PktAt r b) = [(r, b)]"
| "expand_item (PktRange b lo hi) = map (\<lambda>r. (r, b)) [lo..hi - 1]"

definition expand_row_pkts :: "item list \<Rightarrow> (int \<times> band) list" where
  "expand_row_pkts items = concat (map expand_item items)"

definition row_pkts :: "heap \<Rightarrow> nat \<Rightarrow> variable \<Rightarrow> band \<Rightarrow> item list" where
  "row_pkts h ell v b = map (\<lambda>t. PktAt (row_start h v + int t) b) [0..<n_rows v ell]"

definition id_pkts :: "heap \<Rightarrow> nat \<Rightarrow> nat \<Rightarrow> nat \<Rightarrow> variable \<times> int \<Rightarrow> item list" where
  "id_pkts h ell bs L = (\<lambda>(v, coef). row_pkts h ell v (L2_IdentityScalar bs (row_start h v) L coef))"

definition build_b_chunk :: "nat \<Rightarrow> (nat \<times> nat \<times> int) list \<Rightarrow> int list option" where
  "build_b_chunk n nz =
     (if nz = [] then None
      else Some (foldl (\<lambda>b (rel, len, v). map (\<lambda>i. if rel \<le> i \<and> i < rel + len then v mod FIELD_P else b ! i) [0..<n]) (replicate n 0) nz))"

record compiled =
  cp_items :: "item list"
  cp_quads :: "quad_family list"
  cp_added :: nat
  cp_b :: "int list option"

definition mk_compiled :: "item list \<Rightarrow> quad_family list \<Rightarrow> nat \<Rightarrow> int list option \<Rightarrow> compiled" where
  "mk_compiled items quads n b = \<lparr>cp_items = items, cp_quads = quads, cp_added = n, cp_b = b\<rparr>"

definition per_slot_quad :: "heap \<Rightarrow> nat \<Rightarrow> string \<Rightarrow> variable \<Rightarrow> variable \<Rightarrow> variable \<Rightarrow> int \<Rightarrow> int \<Rightarrow> nat \<Rightarrow> quad_family" where
  "per_slot_quad h ell name x y z a b L =
     \<lparr>qf_name = name, qf_x = row_start h x, qf_y = row_start h y, qf_z = row_start h z, qf_L = L, qf_ell = ell, qf_a = a, qf_b = b\<rparr>"

definition neg_coef :: "int \<Rightarrow> int" where
  "neg_coef c = (FIELD_P - c mod FIELD_P) mod FIELD_P"

definition emit_lin_csr_idscalar :: "heap \<Rightarrow> nat \<Rightarrow> variable \<Rightarrow> variable list \<Rightarrow> int list \<Rightarrow> nat \<Rightarrow> nat \<Rightarrow> item list" where
  "emit_lin_csr_idscalar h ell target words coeffs L bs =
     id_pkts h ell bs L (target, 1) @ concat (map (\<lambda>(w, c). id_pkts h ell bs L (w, neg_coef c)) (zip words coeffs))"

definition NEG1 :: int where "NEG1 = (FIELD_P - 1) mod FIELD_P"

section \<open>The compilers\<close>

text \<open>The two linear families and the two range families of an output rescale.\<close>

definition rescale_items :: "heap \<Rightarrow> nat \<Rightarrow> variable \<Rightarrow> rescale_part \<Rightarrow> nat \<Rightarrow> nat \<Rightarrow> item list" where
  "rescale_items h ell c r L cur =
     emit_lin_csr_idscalar h ell (rp_full r) [c, rp_low r] [2 ^ rp_bits r, 1] L cur @
     emit_lin_csr_idscalar h ell (rp_shifted r) [c] [1] L (cur + L)"

definition rescale_quads :: "heap \<Rightarrow> nat \<Rightarrow> string \<Rightarrow> string \<Rightarrow> rescale_part \<Rightarrow> nat \<Rightarrow> quad_family list" where
  "rescale_quads h ell low shifted r L =
     [per_slot_quad h ell low (rp_low r) (rp_z_low r) (rp_z_low r) ((FIELD_P - alpha_of h (rp_range r)) mod FIELD_P) NEG1 L,
      per_slot_quad h ell shifted (rp_shifted r) (rp_z_shifted r) (rp_z_shifted r) ((FIELD_P - alpha_of h (rp_output r)) mod FIELD_P) NEG1 L]"

definition matmul_compile :: "heap \<Rightarrow> nat \<Rightarrow> matmul_claim \<Rightarrow> int list \<Rightarrow> int list \<Rightarrow> nat \<Rightarrow> compiled result" where
  "matmul_compile h ell c rho lam bs =
     (let H = mc_heads c; K = mc_head_dim c; k = mc_k c; m = mc_m c; n = mc_n c;
          cf = (case mc_rescale c of None \<Rightarrow> mc_C c | Some r \<Rightarrow> rp_full r);
          neg_rho = map (\<lambda>v. (- v) mod FIELD_P) rho; neg_lam = map (\<lambda>v. (- v) mod FIELD_P) lam;
          lf1 = bs; lf2 = bs + k; lf3 = bs + 2 * k;
          items = id_pkts h ell lf1 k (mc_y c, 1)
            @ row_pkts h ell (mc_B c) (L2_FreivaldsLF1B lf1 (row_start h (mc_B c)) k n H K (mc_transpose c) neg_rho)
            @ id_pkts h ell lf2 k (mc_u c, 1)
            @ row_pkts h ell (mc_A c) (L2_FreivaldsLF2A lf2 (row_start h (mc_A c)) k m H K neg_lam)
            @ row_pkts h ell (mc_p c) (L2_StrideManyToOneScalar lf3 (row_start h (mc_p c)) k K 1)
            @ row_pkts h ell cf (L2_FreivaldsLF3C lf3 (row_start h cf) m n H (m * H * n) lam rho);
          cur = bs + 2 * k + H; L_out = m * H * n;
          quad = \<lparr>qf_name = v_name (mc_C c) @ ''.Q'', qf_x = row_start h (mc_u c), qf_y = row_start h (mc_y c), qf_z = row_start h (mc_p c),
            qf_L = k, qf_ell = ell, qf_a = NEG1, qf_b = 0\<rparr>
      in case mc_rescale c of
           None \<Rightarrow> Inr (mk_compiled items [quad] (cur - bs) (build_b_chunk (cur - bs) []))
         | Some r \<Rightarrow>
             if rp_width r = 0 then Inl ValueError
             else Inr (mk_compiled (items @ rescale_items h ell (mc_C c) r L_out cur)
               (quad # rescale_quads h ell (v_name (mc_C c) @ ''.RW[C_low]'') (v_name (mc_C c) @ ''.RW[C_shifted]'') r L_out)
               (cur + 2 * L_out - bs) (build_b_chunk (cur + 2 * L_out - bs) [(2 * k + H + L_out, L_out, 2 ^ (rp_width r - 1))])))"

text \<open>The right-hand side as runs of equal consecutive values.\<close>

fun rhs_runs :: "nat \<Rightarrow> int list \<Rightarrow> (nat \<times> nat \<times> int) list" where
  "rhs_runs i [] = []"
| "rhs_runs i (v # vs) =
     (let j = length (takeWhile (\<lambda>x. x = v) vs) in (i, Suc j, v mod FIELD_P) # rhs_runs (i + Suc j) (drop j vs))"

definition lincomb_compile :: "heap \<Rightarrow> nat \<Rightarrow> lincomb_claim \<Rightarrow> nat \<Rightarrow> compiled result" where
  "lincomb_compile h ell c bs =
     (let L = lc_length c; rhs = lc_rhs c in
      if length (lc_xs c) \<noteq> length (lc_coefs c) then Inl AssertionError
      else if list_ex (\<lambda>v. v_length v \<noteq> L) (lc_xs c) then Inl AssertionError
      else if length rhs \<noteq> 1 \<and> length rhs \<noteq> L then Inl AssertionError
      else Inr (mk_compiled (concat (map (\<lambda>(v, coef). id_pkts h ell bs L (v, coef mod FIELD_P)) (zip (lc_xs c) (lc_coefs c)))) [] L
        (build_b_chunk L (if length rhs = 1 then [(0, L, rhs ! 0 mod FIELD_P)] else rhs_runs 0 rhs))))"

definition add_compile :: "heap \<Rightarrow> nat \<Rightarrow> add_claim \<Rightarrow> nat \<Rightarrow> compiled result" where
  "add_compile h ell c bs =
     (let L = ac_length c in
      case ac_public c of
        Some v \<Rightarrow> Inr (mk_compiled (id_pkts h ell bs L (ac_a c, 1)) [] L (build_b_chunk L [(0, L, v mod FIELD_P)]))
      | None \<Rightarrow> Inr (mk_compiled (concat (map (id_pkts h ell bs L) [(ac_a c, 1), (ac_b c, 1), (ac_c c, NEG1)])) [] L None))"

fun concat_srcs :: "heap \<Rightarrow> nat \<Rightarrow> nat \<Rightarrow> nat \<Rightarrow> variable list \<Rightarrow> item list" where
  "concat_srcs h ell bs off [] = []"
| "concat_srcs h ell bs off (v # vs) = id_pkts h ell (bs + off) (v_length v) (v, 1) @ concat_srcs h ell bs (off + v_length v) vs"

definition concat_compile :: "heap \<Rightarrow> nat \<Rightarrow> concat_claim \<Rightarrow> nat \<Rightarrow> compiled result" where
  "concat_compile h ell c bs =
     (let L = v_length (cc_dst c) in
      if sum_list (map v_length (cc_srcs c)) \<noteq> L then Inl AssertionError
      else Inr (mk_compiled (id_pkts h ell bs L (cc_dst c, NEG1) @ concat_srcs h ell bs 0 (cc_srcs c)) [] L None))"

definition hadamard_compile :: "heap \<Rightarrow> nat \<Rightarrow> hadamard_claim \<Rightarrow> nat \<Rightarrow> compiled result" where
  "hadamard_compile h ell c bs =
     (let L = hc_length c;
          fam = (\<lambda>tgt. \<lparr>qf_name = ''H'', qf_x = row_start h (hc_a c), qf_y = row_start h (hc_b c), qf_z = row_start h tgt, qf_L = L, qf_ell = ell, qf_a = NEG1, qf_b = 0\<rparr>)
      in case hc_rescale c of
           None \<Rightarrow> Inr (mk_compiled [] [fam (hc_c c)] 0 (build_b_chunk 0 []))
         | Some r \<Rightarrow>
             if rp_width r = 0 then Inl ValueError
             else Inr (mk_compiled (rescale_items h ell (hc_c c) r L bs)
               (fam (rp_full r) # rescale_quads h ell (v_name (hc_c c) @ ''.RW[c_low]'') (v_name (hc_c c) @ ''.RW[c_shifted]'') r L)
               (2 * L) (build_b_chunk (2 * L) [(L, L, 2 ^ (rp_width r - 1))])))"

definition range_word_compile :: "heap \<Rightarrow> nat \<Rightarrow> range_word_claim \<Rightarrow> compiled result" where
  "range_word_compile h ell c =
     Inr (mk_compiled [] [\<lparr>qf_name = ''RW['' @ v_name (rw_x c) @ '']'', qf_x = row_start h (rw_x c), qf_y = row_start h (rw_z c), qf_z = row_start h (rw_z c),
       qf_L = rw_length c, qf_ell = ell, qf_a = (FIELD_P - alpha_of h (rw_table c)) mod FIELD_P, qf_b = NEG1\<rparr>] 0 None)"

definition word_extract_compile :: "heap \<Rightarrow> nat \<Rightarrow> word_extraction_claim \<Rightarrow> nat \<Rightarrow> compiled result" where
  "word_extract_compile h ell c bs =
     (let L = we_length c in
      if length (we_coeffs c) < length (we_words c) then Inl IndexError
      else Inr (mk_compiled (id_pkts h ell bs L (we_x c, 1) @ concat (map (\<lambda>(w, co). id_pkts h ell bs L (w, neg_coef co)) (zip (we_words c) (we_coeffs c)))) [] L
        (build_b_chunk L (if we_shift c mod FIELD_P \<noteq> 0 then [(0, L, neg_coef (we_shift c))] else []))))"

definition paired_tlookup_compile :: "heap \<Rightarrow> nat \<Rightarrow> paired_tlookup_claim \<Rightarrow> nat \<Rightarrow> compiled result" where
  "paired_tlookup_compile h ell c bs =
     (let L = pt_length c; alpha = alpha_of h (pt_table c); beta = beta_of h (pt_table c) in
      Inr (mk_compiled (concat (map (id_pkts h ell bs L) [(pt_u c, 1), (pt_x c, NEG1), (pt_y c, neg_coef beta)]))
        [\<lparr>qf_name = ''PT['' @ v_name (pt_x c) @ '']'', qf_x = row_start h (pt_u c), qf_y = row_start h (pt_z c), qf_z = row_start h (pt_z c),
          qf_L = L, qf_ell = ell, qf_a = (FIELD_P - alpha) mod FIELD_P, qf_b = NEG1\<rparr>] L
        (build_b_chunk L (if pt_shift c mod FIELD_P \<noteq> 0 then [(0, L, pt_shift c mod FIELD_P)] else []))))"

definition table_values :: "heap \<Rightarrow> ltable \<Rightarrow> int list" where
  "table_values h t = (case tb_TY t of None \<Rightarrow> tb_T t | Some ty \<Rightarrow> map2 (\<lambda>a b. (a + beta_of h t * b) mod FIELD_P) (tb_T t) ty)"

definition range_pkts :: "heap \<Rightarrow> nat \<Rightarrow> variable \<Rightarrow> band \<Rightarrow> item" where
  "range_pkts h ell v b = PktRange b (row_start h v) (row_start h v + int (n_rows v ell))"

definition table_settlement_compile :: "heap \<Rightarrow> nat \<Rightarrow> ltable \<Rightarrow> nat \<Rightarrow> compiled result" where
  "table_settlement_compile h ell t bs =
     (let T_LEN = length (tb_T t); w_coef = map (\<lambda>v. (alpha_of h t - v) mod FIELD_P) (table_values h t); sum_cid = bs + T_LEN;
          items = [range_pkts h ell (tb_w t) (L2_PerSlotVector bs (row_start h (tb_w t)) T_LEN w_coef),
                   range_pkts h ell (tb_mult t) (L2_IdentityScalar bs (row_start h (tb_mult t)) T_LEN NEG1)]
            @ map (\<lambda>z. range_pkts h ell z (L2_StrideManyToOneScalar sum_cid (row_start h z) (v_length z) (v_length z) 1)) (tb_z t)
            @ [range_pkts h ell (tb_w t) (L2_StrideManyToOneScalar sum_cid (row_start h (tb_w t)) T_LEN T_LEN NEG1)]
      in Inr (mk_compiled items [] (T_LEN + 1) None))"

section \<open>Sampling and the driver\<close>

datatype chal = NoChal | MatChal "int list" "int list"

definition matmul_sample :: "hashfn \<Rightarrow> matmul_claim \<Rightarrow> nat \<Rightarrow> seed \<Rightarrow> chal result" where
  "matmul_sample H c ci s_op =
     rbind (op_vec H s_op ci ''rho'' (mc_heads c * mc_n c)) (\<lambda>rho. rbind (op_vec H s_op ci ''lam'' (mc_heads c * mc_m c)) (\<lambda>lam. Inr (MatChal rho lam)))"

definition table_settlement_sample :: "hashfn \<Rightarrow> ltable \<Rightarrow> nat \<Rightarrow> seed \<Rightarrow> heap \<Rightarrow> heap result" where
  "table_settlement_sample H t ci s_op h =
     rbind (challenge H s_op 0 (op_label ci ''alpha'')) (\<lambda>al.
       let h1 = h\<lparr>h_alpha := (h_alpha h)(tb_id t := al)\<rparr> in
       case tb_TY t of None \<Rightarrow> Inr h1
       | Some ty \<Rightarrow> rbind (challenge H s_op 0 (op_label ci ''beta'')) (\<lambda>be. Inr (h1\<lparr>h_beta := (h_beta h1)(tb_id t := be)\<rparr>)))"

fun sample_one :: "hashfn \<Rightarrow> seed \<Rightarrow> nat \<Rightarrow> claim \<Rightarrow> heap \<Rightarrow> (chal \<times> heap) result" where
  "sample_one H s_op ci (MatmulClaim c) h = rbind (matmul_sample H c ci s_op) (\<lambda>ch. Inr (ch, h))"
| "sample_one H s_op ci (TableSettlement t) h = rbind (table_settlement_sample H t ci s_op h) (\<lambda>h'. Inr (NoChal, h'))"
| "sample_one H s_op ci c h = Inr (NoChal, h)"

fun sample_chs :: "hashfn \<Rightarrow> seed \<Rightarrow> nat \<Rightarrow> claim list \<Rightarrow> heap \<Rightarrow> (chal list \<times> heap) result" where
  "sample_chs H s_op ci [] h = Inr ([], h)"
| "sample_chs H s_op ci (c # cs) h =
     rbind (sample_one H s_op ci c h) (\<lambda>(ch, h1). rbind (sample_chs H s_op (Suc ci) cs h1) (\<lambda>(chs, h2). Inr (ch # chs, h2)))"

fun compile_one :: "heap \<Rightarrow> nat \<Rightarrow> claim \<Rightarrow> chal \<Rightarrow> nat \<Rightarrow> compiled result" where
  "compile_one h ell (MatmulClaim c) (MatChal rho lam) bs = matmul_compile h ell c rho lam bs"
| "compile_one h ell (MatmulClaim c) NoChal bs = Inl TypeError"
| "compile_one h ell (LinCombClaim c) ch bs = lincomb_compile h ell c bs"
| "compile_one h ell (AddClaim c) ch bs = add_compile h ell c bs"
| "compile_one h ell (ConcatClaim c) ch bs = concat_compile h ell c bs"
| "compile_one h ell (HadamardClaim c) ch bs = hadamard_compile h ell c bs"
| "compile_one h ell (RangeWordClaim c) ch bs = range_word_compile h ell c"
| "compile_one h ell (WordExtractionClaim c) ch bs = word_extract_compile h ell c bs"
| "compile_one h ell (PairedTlookupClaim c) ch bs = paired_tlookup_compile h ell c bs"
| "compile_one h ell (TableSettlement t) ch bs = table_settlement_compile h ell t bs"

text \<open>\<open>per_row[r].append(pkt)\<close>, with Python's index rule.\<close>

definition append_pkt :: "(band list) list \<Rightarrow> int \<times> band \<Rightarrow> (band list) list result" where
  "append_pkt per_row rp = (case rp of (r, b) \<Rightarrow> rbind (py_pos (length per_row) r) (\<lambda>k. Inr (per_row[k := per_row ! k @ [b]])))"

fun append_pkts :: "(band list) list \<Rightarrow> (int \<times> band) list \<Rightarrow> (band list) list result" where
  "append_pkts per_row [] = Inr per_row"
| "append_pkts per_row (rp # rps) = rbind (append_pkt per_row rp) (\<lambda>pr. append_pkts pr rps)"

record system =
  sy_rows :: "(band list) list"
  sy_quads :: "quadratic_constraint list"
  sy_b :: "(nat \<times> int list) list"
  sy_n :: nat

fun compile_loop :: "heap \<Rightarrow> nat \<Rightarrow> (claim \<times> chal) list \<Rightarrow> system \<Rightarrow> system result" where
  "compile_loop h ell [] s = Inr s"
| "compile_loop h ell ((c, ch) # cs) s =
     rbind (compile_one h ell c ch (sy_n s)) (\<lambda>cp.
     rbind (append_pkts (sy_rows s) (expand_row_pkts (cp_items cp))) (\<lambda>rows.
       compile_loop h ell cs (s\<lparr>sy_rows := rows, sy_quads := sy_quads s @ concat (map fam_expand (cp_quads cp)),
         sy_b := sy_b s @ (case cp_b cp of None \<Rightarrow> [] | Some b \<Rightarrow> [(sy_n s, b)]), sy_n := sy_n s + cp_added cp\<rparr>)))"

definition compile_with_chs :: "heap \<Rightarrow> nat \<Rightarrow> claim list \<Rightarrow> chal list \<Rightarrow> nat \<Rightarrow> system result" where
  "compile_with_chs h ell claims chs m_total =
     compile_loop h ell (zip claims chs) \<lparr>sy_rows = replicate m_total [], sy_quads = [], sy_b = [], sy_n = 0\<rparr>"

definition compile_all :: "hashfn \<Rightarrow> claim list \<Rightarrow> seed \<Rightarrow> nat \<Rightarrow> nat \<Rightarrow> heap \<Rightarrow> (system \<times> chal list \<times> heap) result" where
  "compile_all H claims s_op ell m_total h =
     rbind (sample_chs H s_op 0 claims h) (\<lambda>(chs, h1). rbind (compile_with_chs h1 ell claims chs m_total) (\<lambda>s. Inr (s, chs, h1)))"

end
