(* ===== verification/Claims_Sem.thy ===== *)
theory Claims_Sem
  imports Claims
begin

text \<open>
  What a compiled claim says. A witness gives the value of every slot of every row; a linear
  constraint is the sum, over the bands of the rows, of the documented coefficients times the slots,
  and a quadratic constraint is the equation of \<open>QuadraticConstraint\<close>. Each compiler is shown to emit
  exactly the relation its claim documents, and the driver to emit the conjunction of the claims: the
  constraint numbers of different claims never meet.
\<close>

section \<open>Constraints over a witness\<close>

type_synonym witness = "int \<Rightarrow> nat \<Rightarrow> int"

definition wval :: "heap \<Rightarrow> nat \<Rightarrow> witness \<Rightarrow> variable \<Rightarrow> nat \<Rightarrow> gl" where
  "wval h ell W v f = of_int (W (row_start h v + int (f div ell)) (f mod ell))"

definition coef_at :: "nat \<Rightarrow> (nat \<times> int) list \<Rightarrow> gl" where
  "coef_at c ts = (\<Sum>(c', k)\<leftarrow>ts. if c' = c then of_int k else 0)"

definition band_row :: "nat \<Rightarrow> witness \<Rightarrow> nat \<Rightarrow> int \<times> band \<Rightarrow> gl" where
  "band_row ell W c rb = (case rb of (r, b) \<Rightarrow> \<Sum>s<ell.
     (let f = (r - b_row b) * int ell + int s in
      if 0 \<le> f \<and> f < int (launch_len b) then coef_at c (band_terms ell b (nat f)) * of_int (W r s) else 0))"

definition lin_val :: "nat \<Rightarrow> witness \<Rightarrow> item list \<Rightarrow> nat \<Rightarrow> gl" where
  "lin_val ell W items c = (\<Sum>rb\<leftarrow>expand_row_pkts items. band_row ell W c rb)"

definition rhs_at :: "int list option \<Rightarrow> nat \<Rightarrow> gl" where
  "rhs_at b i = (case b of None \<Rightarrow> 0 | Some l \<Rightarrow> of_int (l ! i))"

definition quad_holds :: "witness \<Rightarrow> quadratic_constraint \<Rightarrow> bool" where
  "quad_holds W q \<longleftrightarrow> (\<forall>i<qc_n q. (of_int (W (qc_x q) i) :: gl) * of_int (W (qc_y q) i) + of_int (qc_a q) * of_int (W (qc_z q) i) = of_int (qc_b q))"

definition compiled_holds :: "nat \<Rightarrow> witness \<Rightarrow> nat \<Rightarrow> compiled \<Rightarrow> bool" where
  "compiled_holds ell W bs cp \<longleftrightarrow> (\<forall>i<cp_added cp. lin_val ell W (cp_items cp) (bs + i) = rhs_at (cp_b cp) i) \<and>
     (\<forall>q \<in> set (concat (map fam_expand (cp_quads cp))). quad_holds W q)"

section \<open>Sums over the rows of a variable\<close>

lemma lin_val_append [simp]: "lin_val ell W (xs @ ys) c = lin_val ell W xs c + lin_val ell W ys c"
  by (simp add: lin_val_def expand_row_pkts_def)

lemma lin_val_Nil [simp]: "lin_val ell W [] c = 0"
  by (simp add: lin_val_def expand_row_pkts_def)

lemma lin_val_Cons: "lin_val ell W (x # xs) c = lin_val ell W [x] c + lin_val ell W xs c"
  using lin_val_append [of ell W "[x]" xs c] by simp

lemma lin_val_concat: "lin_val ell W (concat xss) c = (\<Sum>xs\<leftarrow>xss. lin_val ell W xs c)"
  by (induction xss) simp_all

lemma expand_row_pkts_of: "expand_row_pkts (row_pkts h ell v b) = map (\<lambda>t. (row_start h v + int t, b)) [0..<n_rows v ell]"
  by (simp add: expand_row_pkts_def row_pkts_def comp_def concat_map_singleton)

lemma upto_map: "[lo..lo + int n - 1] = map (\<lambda>t. lo + int t) [0..<n]"
proof (induction n)
  case (Suc n)
  have "[lo..lo + int (Suc n) - 1] = [lo..lo + int n - 1] @ [lo + int n]" using upto_rec2 [of lo "lo + int n"] by simp
  then show ?case using Suc by simp
qed simp

lemma expand_range: "expand_row_pkts [range_pkts h ell v b] = expand_row_pkts (row_pkts h ell v b)"
  unfolding expand_row_pkts_of by (simp add: expand_row_pkts_def range_pkts_def upto_map comp_def)

lemma lin_val_range: "lin_val ell W [range_pkts h ell v b] c = lin_val ell W (row_pkts h ell v b) c"
  by (simp only: lin_val_def expand_range)

lemma rows_cover: "0 < ell \<Longrightarrow> v_length v \<le> n_rows v ell * ell"
proof -
  assume "0 < ell"
  have "v_length v + ell - 1 = (v_length v + ell - 1) div ell * ell + (v_length v + ell - 1) mod ell" by simp
  moreover have "(v_length v + ell - 1) mod ell < ell" using \<open>0 < ell\<close> by simp
  ultimately show ?thesis using \<open>0 < ell\<close> unfolding n_rows_def by linarith
qed

lemma sum_clip: "L \<le> (n :: nat) \<Longrightarrow> (\<Sum>k<n. if k < L then g k else 0) = (\<Sum>k<L. g k :: 'a :: comm_monoid_add)"
  by (rule sum.mono_neutral_cong_right) auto

lemma lin_rows:
  assumes "0 < ell" "b_row b = row_start h v" "launch_len b \<le> v_length v"
  shows "lin_val ell W (row_pkts h ell v b) c = (\<Sum>f<launch_len b. coef_at c (band_terms ell b f) * wval h ell W v f)"
proof -
  let ?g = "\<lambda>f. coef_at c (band_terms ell b f) * wval h ell W v f"
  have row: "band_row ell W c (row_start h v + int t, b) = (\<Sum>s<ell. if t * ell + s < launch_len b then ?g (t * ell + s) else 0)" for t
  proof -
    have "int t * int ell + int s = int (t * ell + s)" for s by simp
    then show ?thesis using assms(1, 2) unfolding band_row_def prod.case
      by (intro sum.cong refl) (simp add: wval_def Let_def del: of_nat_add of_nat_mult)
  qed
  have "lin_val ell W (row_pkts h ell v b) c = (\<Sum>t<n_rows v ell. \<Sum>s<ell. if t * ell + s < launch_len b then ?g (t * ell + s) else 0)"
    by (simp add: lin_val_def expand_row_pkts_of comp_def row sum_list_map_upt)
  also have "\<dots> = (\<Sum>k<n_rows v ell * ell. if k < launch_len b then ?g k else 0)" by (rule sum_lessThan_mult [symmetric])
  also have "\<dots> = (\<Sum>f<launch_len b. ?g f)" using rows_cover [OF assms(1), of v] assms(3) by (intro sum_clip) simp
  finally show ?thesis .
qed

lemma lin_rows_single:
  assumes "0 < ell" "b_row b = row_start h v" "launch_len b \<le> v_length v"
    and "\<And>f. f < launch_len b \<Longrightarrow> band_terms ell b f = [(bs + g f, k f)]"
  shows "lin_val ell W (row_pkts h ell v b) c = (\<Sum>f<launch_len b. if bs + g f = c then of_int (k f) * wval h ell W v f else 0)"
  unfolding lin_rows [OF assms(1-3)] using assms(4) by (intro sum.cong) (simp_all add: coef_at_def)

lemma lin_id [simp]:
  assumes "0 < ell" "L \<le> v_length v"
  shows "lin_val ell W (id_pkts h ell bs L (v, k)) c = (if bs \<le> c \<and> c < bs + L then of_int k * wval h ell W v (c - bs) else 0)"
proof -
  have "lin_val ell W (id_pkts h ell bs L (v, k)) c = (\<Sum>f<L. if bs + f = c then of_int k * wval h ell W v f else 0)"
    unfolding id_pkts_def prod.case by (subst lin_rows_single [where bs = bs and g = "\<lambda>f. f" and k = "\<lambda>_. k"]) (use assms in simp_all)
  also have "\<dots> = (\<Sum>f<L. if f = c - bs \<and> bs \<le> c then of_int k * wval h ell W v f else 0)" by (intro sum.cong) auto
  also have "\<dots> = (if bs \<le> c \<and> c < bs + L then of_int k * wval h ell W v (c - bs) else 0)"
    by (cases "bs \<le> c") (auto simp: sum.delta)
  finally show ?thesis .
qed

lemma lin_slot_vector:
  assumes "0 < ell" "L \<le> v_length v"
  shows "lin_val ell W (row_pkts h ell v (L2_PerSlotVector bs (row_start h v) L vec)) c =
    (if bs \<le> c \<and> c < bs + L then of_int (vec ! (c - bs)) * wval h ell W v (c - bs) else 0)"
proof -
  have "lin_val ell W (row_pkts h ell v (L2_PerSlotVector bs (row_start h v) L vec)) c = (\<Sum>f<L. if bs + f = c then of_int (vec ! f) * wval h ell W v f else 0)"
    by (subst lin_rows_single [where bs = bs and g = "\<lambda>f. f" and k = "\<lambda>f. vec ! f"]) (use assms in simp_all)
  also have "\<dots> = (\<Sum>f<L. if f = c - bs \<and> bs \<le> c then of_int (vec ! f) * wval h ell W v f else 0)" by (intro sum.cong) auto
  also have "\<dots> = (if bs \<le> c \<and> c < bs + L then of_int (vec ! (c - bs)) * wval h ell W v (c - bs) else 0)"
    by (cases "bs \<le> c") (auto simp: sum.delta)
  finally show ?thesis .
qed

text \<open>A sum over the whole variable: the stride is its length.\<close>

lemma lin_whole:
  assumes "0 < ell" "L \<le> v_length v"
  shows "lin_val ell W (row_pkts h ell v (L2_StrideManyToOneScalar bs (row_start h v) L L k)) c =
    (if c = bs then of_int k * (\<Sum>f<L. wval h ell W v f) else 0)"
  by (subst lin_rows_single [where bs = bs and g = "\<lambda>f. f div L" and k = "\<lambda>_. k"]) (use assms in \<open>auto simp: sum_distrib_left intro!: sum.neutral\<close>)

text \<open>One sum per block of \<open>K\<close> slots.\<close>

lemma lin_blocks:
  assumes "0 < ell" "H * K \<le> v_length v" "0 < K"
  shows "lin_val ell W (row_pkts h ell v (L2_StrideManyToOneScalar bs (row_start h v) (H * K) K k)) c =
    (if bs \<le> c \<and> c < bs + H then of_int k * (\<Sum>r<K. wval h ell W v ((c - bs) * K + r)) else 0)"
proof -
  have "lin_val ell W (row_pkts h ell v (L2_StrideManyToOneScalar bs (row_start h v) (H * K) K k)) c =
      (\<Sum>f<H * K. if bs + f div K = c then of_int k * wval h ell W v f else 0)"
    by (subst lin_rows_single [where bs = bs and g = "\<lambda>f. f div K" and k = "\<lambda>_. k"]) (use assms in simp_all)
  also have "\<dots> = (\<Sum>i<H. if i = c - bs \<and> bs \<le> c then (\<Sum>r<K. of_int k * wval h ell W v (i * K + r)) else 0)"
    unfolding sum_lessThan_mult using assms(3) by (intro sum.cong refl) (auto intro!: sum.neutral)
  also have "\<dots> = (if bs \<le> c \<and> c < bs + H then of_int k * (\<Sum>r<K. wval h ell W v ((c - bs) * K + r)) else 0)"
    by (cases "bs \<le> c") (auto simp: sum.delta sum_distrib_left)
  finally show ?thesis .
qed

section \<open>The Freivalds bands\<close>

lemma split_index: "i < k \<Longrightarrow> (j * k + i) mod k = i" "i < k \<Longrightarrow> (j * k + i) div k = (j :: nat)"
  by simp_all

text \<open>A band over \<open>m\<close> rows of length \<open>k\<close> that adds column \<open>i\<close> into constraint \<open>i\<close>.\<close>

lemma column_sums:
  fixes m k bs c :: nat
  shows "(\<Sum>f<m * k. if bs + f mod k = c then g f else 0) = (if bs \<le> c \<and> c < bs + k then (\<Sum>j<m. g (j * k + (c - bs))) else (0 :: gl))"
proof -
  have "(\<Sum>i<k. if bs + (j * k + i) mod k = c then g (j * k + i) else 0) = (if bs \<le> c \<and> c < bs + k then g (j * k + (c - bs)) else 0)" for j
  proof -
    have "(\<Sum>i<k. if bs + (j * k + i) mod k = c then g (j * k + i) else 0) = (\<Sum>i<k. if i = c - bs \<and> bs \<le> c then g (j * k + i) else 0)"
      by (intro sum.cong) auto
    then show ?thesis by (cases "bs \<le> c") (auto simp: sum.delta)
  qed
  then show ?thesis unfolding sum_lessThan_mult by (cases "bs \<le> c \<and> c < bs + k") auto
qed

lemma lin_lf2a:
  assumes "0 < ell" "m * k \<le> v_length v"
  shows "lin_val ell W (row_pkts h ell v (L2_FreivaldsLF2A bs (row_start h v) k m H K vec)) c =
    (if bs \<le> c \<and> c < bs + k then (\<Sum>j<m. of_int (vec ! ((c - bs) div K * m + j)) * wval h ell W v (j * k + (c - bs))) else 0)"
proof -
  have "lin_val ell W (row_pkts h ell v (L2_FreivaldsLF2A bs (row_start h v) k m H K vec)) c =
      (\<Sum>f<m * k. if bs + f mod k = c then of_int (vec ! (f mod k div K * m + f div k)) * wval h ell W v f else 0)"
    by (subst lin_rows_single [where bs = bs and g = "\<lambda>f. f mod k" and k = "\<lambda>f. vec ! (f mod k div K * m + f div k)"]) (use assms in simp_all)
  then show ?thesis unfolding column_sums by (auto intro!: sum.cong simp: split_index le_iff_add)
qed

definition b_index :: "bool \<Rightarrow> nat \<Rightarrow> nat \<Rightarrow> nat \<Rightarrow> nat \<Rightarrow> nat \<Rightarrow> nat \<Rightarrow> nat" where
  "b_index tr k n H K i j = (if tr then j * k + i else (i mod K * H + i div K) * n + j)"

lemma head_slot:
  fixes i q H K :: nat
  assumes "i < H * K" "q < K * H"
  shows "q mod H * K + q div H = i \<longleftrightarrow> q = i mod K * H + i div K"
proof -
  have pos: "0 < H" "0 < K" using assms by (cases H; cases K; simp)+
  have lt: "q div H < K" "i div K < H" using assms by (simp_all add: less_mult_imp_div_less)
  show ?thesis
  proof
    assume e: "q mod H * K + q div H = i"
    have "i mod K = q div H" "i div K = q mod H" unfolding e [symmetric] using lt by simp_all
    then show "q = i mod K * H + i div K" by simp
  next
    assume e: "q = i mod K * H + i div K"
    have "q mod H = i div K" "q div H = i mod K" unfolding e using lt by simp_all
    then show "q mod H * K + q div H = i" by simp
  qed
qed

lemma lin_lf1b:
  assumes "0 < ell" "k * n \<le> v_length v" "k = H * K" "0 < n"
  shows "lin_val ell W (row_pkts h ell v (L2_FreivaldsLF1B bs (row_start h v) k n H K tr vec)) c =
    (if bs \<le> c \<and> c < bs + k then (\<Sum>j<n. of_int (vec ! ((c - bs) div K * n + j)) * wval h ell W v (b_index tr k n H K (c - bs) j)) else 0)"
proof (cases tr)
  case True
  have "lin_val ell W (row_pkts h ell v (L2_FreivaldsLF1B bs (row_start h v) k n H K tr vec)) c =
      (\<Sum>f<k * n. if bs + f mod k = c then of_int (vec ! (f mod k div K * n + f div k)) * wval h ell W v f else 0)"
    by (subst lin_rows_single [where bs = bs and g = "\<lambda>f. f mod k" and k = "\<lambda>f. vec ! (f mod k div K * n + f div k)"]) (use assms True in simp_all)
  also have "k * n = n * k" by simp
  finally show ?thesis unfolding column_sums using True by (auto intro!: sum.cong simp: split_index b_index_def le_iff_add)
next
  case False
  let ?i = "\<lambda>q. q mod H * K + q div H" and ?w = "wval h ell W v"
  have "lin_val ell W (row_pkts h ell v (L2_FreivaldsLF1B bs (row_start h v) k n H K tr vec)) c =
      (\<Sum>f<k * n. if bs + ?i (f div n) = c then of_int (vec ! (?i (f div n) div K * n + f mod n)) * ?w f else 0)"
    by (subst lin_rows_single [where bs = bs and g = "\<lambda>f. ?i (f div n)" and k = "\<lambda>f. vec ! (?i (f div n) div K * n + f mod n)"]) (use assms False in \<open>simp_all add: Let_def\<close>)
  also have "\<dots> = (\<Sum>q<K * H. \<Sum>j<n. if bs + ?i q = c then of_int (vec ! (?i q div K * n + j)) * ?w (q * n + j) else 0)"
    using assms(4) unfolding sum_lessThan_mult assms(3) mult.commute [of H K] by (intro sum.cong refl) auto
  also have "\<dots> = (\<Sum>q<K * H. if bs + ?i q = c then (\<Sum>j<n. of_int (vec ! (?i q div K * n + j)) * ?w (q * n + j)) else 0)"
    by (intro sum.cong refl) (auto intro: sum.neutral)
  also have "\<dots> = (if bs \<le> c \<and> c < bs + k then (\<Sum>j<n. of_int (vec ! ((c - bs) div K * n + j)) * ?w (((c - bs) mod K * H + (c - bs) div K) * n + j)) else 0)"
  proof (cases "bs \<le> c \<and> c < bs + k")
    case True
    then have i: "c - bs < H * K" using assms(3) by auto
    then have q0: "(c - bs) mod K * H + (c - bs) div K < K * H"
      by (metis less_mult_imp_div_less less_nat_zero_code mod_less_divisor mult_0_right mult_add_less neq0_conv)
    have eq: "bs + ?i q = c \<longleftrightarrow> q = (c - bs) mod K * H + (c - bs) div K" if "q < K * H" for q
      using head_slot [OF i that] True by auto
    have "(\<Sum>q<K * H. if bs + ?i q = c then (\<Sum>j<n. of_int (vec ! (?i q div K * n + j)) * ?w (q * n + j)) else 0) =
        (\<Sum>q<K * H. if q = (c - bs) mod K * H + (c - bs) div K then (\<Sum>j<n. of_int (vec ! ((c - bs) div K * n + j)) * ?w (q * n + j)) else 0)"
    proof (intro sum.cong refl)
      fix q assume q: "q \<in> {..<K * H}"
      show "(if bs + ?i q = c then (\<Sum>j<n. of_int (vec ! (?i q div K * n + j)) * ?w (q * n + j)) else 0) =
          (if q = (c - bs) mod K * H + (c - bs) div K then (\<Sum>j<n. of_int (vec ! ((c - bs) div K * n + j)) * ?w (q * n + j)) else 0)"
      proof (cases "bs + ?i q = c")
        case True
        then have "?i q = c - bs" by simp
        then show ?thesis using eq [of q] q True by simp
      qed (use eq [of q] q in simp)
    qed
    then show ?thesis using True q0 by (simp add: sum.delta)
  next
    case False
    have "?i q < k" if "q < K * H" for q
      using that assms(3) mult_add_less [of "q mod H" H "q div H" K] by (cases H) (simp_all add: less_mult_imp_div_less)
    then show ?thesis using False by (auto intro!: sum.neutral)
  qed
  finally show ?thesis using False by (simp add: b_index_def)
qed

lemma lin_lf3c:
  assumes "0 < ell" "m * H * n \<le> v_length v" "0 < n"
  shows "lin_val ell W (row_pkts h ell v (L2_FreivaldsLF3C bs (row_start h v) m n H (m * H * n) lam rho)) c =
    (if bs \<le> c \<and> c < bs + H
     then - (\<Sum>i<m. \<Sum>j<n. of_int (lam ! ((c - bs) * m + i)) * of_int (rho ! ((c - bs) * n + j)) * wval h ell W v ((i * H + (c - bs)) * n + j)) else 0)"
proof -
  let ?w = "wval h ell W v" and ?k = "\<lambda>f. - (lam ! (f div n mod H * m + f div n div H) * rho ! (f div n mod H * n + f mod n))"
  have "lin_val ell W (row_pkts h ell v (L2_FreivaldsLF3C bs (row_start h v) m n H (m * H * n) lam rho)) c =
      (\<Sum>f<m * H * n. if bs + f div n mod H = c then of_int (?k f) * ?w f else 0)"
    by (subst lin_rows_single [where bs = bs and g = "\<lambda>f. f div n mod H" and k = ?k]) (use assms in \<open>simp_all add: Let_def\<close>)
  also have "\<dots> = (\<Sum>q<m * H. if bs + q mod H = c
      then (\<Sum>j<n. - (of_int (lam ! (q mod H * m + q div H)) * of_int (rho ! (q mod H * n + j)) * ?w (q * n + j))) else 0)"
    unfolding sum_lessThan_mult [of _ "m * H" n] using assms(3) by (intro sum.cong refl) (auto intro!: sum.cong sum.neutral)
  finally show ?thesis unfolding column_sums by (auto intro!: sum.cong simp: split_index sum_negf le_iff_add)
qed

section \<open>Quadratic families and right-hand sides\<close>

lemma fam_rel:
  assumes "0 < ell"
  shows "(\<forall>q \<in> set (fam_expand \<lparr>qf_name = nm, qf_x = row_start h x, qf_y = row_start h y, qf_z = row_start h z, qf_L = L, qf_ell = ell, qf_a = a, qf_b = b\<rparr>). quad_holds W q)
    \<longleftrightarrow> (\<forall>f<L. wval h ell W x f * wval h ell W y f + of_int a * wval h ell W z f = of_int b)"
    (is "?l \<longleftrightarrow> (\<forall>f<L. ?R f)")
proof -
  let ?nr = "(L + ell - 1) div ell"
  have "?l \<longleftrightarrow> (\<forall>t<?nr. \<forall>i<min ell (L - t * ell). ?R (t * ell + i))"
    by (auto simp: fam_expand_def fam_nrows_def Let_def quad_holds_def wval_def)
  also have "\<dots> \<longleftrightarrow> (\<forall>f<L. ?R f)"
  proof
    assume a: "\<forall>t<?nr. \<forall>i<min ell (L - t * ell). ?R (t * ell + i)"
    show "\<forall>f<L. ?R f"
    proof clarify
      fix f assume f: "f < L"
      have "f < ?nr * ell" using rows_cover [OF assms, of "\<lparr>v_id = 0, v_name = [], v_length = L, v_phase = 0, v_persistent = False, v_wnew = False, v_external = False\<rparr>"] f
        by (simp add: n_rows_def)
      then have "f div ell < ?nr" by (simp add: less_mult_imp_div_less)
      moreover have "f mod ell < min ell (L - f div ell * ell)"
        using assms f div_mult_mod_eq [of f ell] by (simp add: less_diff_conv add.commute)
      ultimately show "?R f" using a div_mult_mod_eq [of f ell] by metis
    qed
  qed (auto simp: less_diff_conv add.commute)
  finally show ?thesis .
qed

lemma gl_P_minus [simp]: "(of_int ((FIELD_P - k) mod FIELD_P) :: gl) = - of_int k"
proof -
  have "((FIELD_P - k) mod FIELD_P) mod FIELD_P = (- k) mod FIELD_P" by (simp add: mod_eq_dvd_iff)
  then show ?thesis using gl_eq_iff [of "(FIELD_P - k) mod FIELD_P" "- k"] by simp
qed

lemma gl_NEG1 [simp]: "(of_int NEG1 :: gl) = - 1"
  unfolding NEG1_def gl_P_minus by simp

lemma gl_neg_coef [simp]: "(of_int (neg_coef k) :: gl) = - of_int k"
  by (simp add: neg_coef_def)

lemma rhs_None [simp]: "rhs_at None i = 0" "rhs_at (build_b_chunk n []) i = 0"
  by (simp_all add: rhs_at_def build_b_chunk_def)

lemma rhs_one [simp]: "i < n \<Longrightarrow> rhs_at (build_b_chunk n [(rel, len, v)]) i = (if rel \<le> i \<and> i < rel + len then of_int v else 0)"
  by (simp add: rhs_at_def build_b_chunk_def)

lemma length_b_chunk: "build_b_chunk n nz = Some b \<Longrightarrow> length b = n"
  unfolding build_b_chunk_def by (cases nz rule: rev_cases) (auto split: prod.splits)

end
