(* ===== verification/Claims_Exact.thy ===== *)
theory Claims_Exact
  imports Claims_Sem
begin

text \<open>
  The relation each claim documents, and the proof that its compiler emits it: \<open>compile_one\<close> on a
  well-formed claim returns bands, families and a right-hand side that hold for a witness exactly
  when the witness satisfies the relation, and that touch no constraint outside the claim's range.
  The driver then emits the conjunction of the relations of its claims.
\<close>

section \<open>The documented relations\<close>

definition rescale_rel :: "heap \<Rightarrow> nat \<Rightarrow> witness \<Rightarrow> variable \<Rightarrow> rescale_part \<Rightarrow> nat \<Rightarrow> bool" where
  "rescale_rel h ell W c r L \<longleftrightarrow>
     (\<forall>f<L. wval h ell W (rp_full r) f = 2 ^ rp_bits r * wval h ell W c f + wval h ell W (rp_low r) f) \<and>
     (\<forall>f<L. wval h ell W (rp_shifted r) f = wval h ell W c f + 2 ^ (rp_width r - 1)) \<and>
     (\<forall>f<L. (of_int (alpha_of h (rp_range r)) - wval h ell W (rp_low r) f) * wval h ell W (rp_z_low r) f = 1) \<and>
     (\<forall>f<L. (of_int (alpha_of h (rp_output r)) - wval h ell W (rp_shifted r) f) * wval h ell W (rp_z_shifted r) f = 1)"

definition matmul_rel :: "heap \<Rightarrow> nat \<Rightarrow> witness \<Rightarrow> matmul_claim \<Rightarrow> int list \<Rightarrow> int list \<Rightarrow> bool" where
  "matmul_rel h ell W c rho lam \<longleftrightarrow>
     (let H = mc_heads c; K = mc_head_dim c; k = mc_k c; m = mc_m c; n = mc_n c; w = wval h ell W;
          cf = (case mc_rescale c of None \<Rightarrow> mc_C c | Some r \<Rightarrow> rp_full r) in
      (\<forall>i<k. w (mc_y c) i = (\<Sum>j<n. of_int (rho ! (i div K * n + j)) * w (mc_B c) (b_index (mc_transpose c) k n H K i j))) \<and>
      (\<forall>i<k. w (mc_u c) i = (\<Sum>j<m. of_int (lam ! (i div K * m + j)) * w (mc_A c) (j * k + i))) \<and>
      (\<forall>hd<H. (\<Sum>r<K. w (mc_p c) (hd * K + r)) =
        (\<Sum>i<m. \<Sum>j<n. of_int (lam ! (hd * m + i)) * of_int (rho ! (hd * n + j)) * w cf ((i * H + hd) * n + j))) \<and>
      (\<forall>i<k. w (mc_u c) i * w (mc_y c) i = w (mc_p c) i) \<and>
      (case mc_rescale c of None \<Rightarrow> True | Some r \<Rightarrow> rescale_rel h ell W (mc_C c) r (m * H * n)))"

definition table_rel :: "heap \<Rightarrow> nat \<Rightarrow> witness \<Rightarrow> ltable \<Rightarrow> bool" where
  "table_rel h ell W t \<longleftrightarrow>
     (\<forall>j<length (tb_T t). (of_int (alpha_of h t) - of_int (table_values h t ! j)) * wval h ell W (tb_w t) j = wval h ell W (tb_mult t) j) \<and>
     (\<Sum>z\<leftarrow>tb_z t. \<Sum>f<v_length z. wval h ell W z f) = (\<Sum>j<length (tb_T t). wval h ell W (tb_w t) j)"

text \<open>The segment of a concatenation that the slot \<open>i\<close> falls into.\<close>

fun seg_val :: "heap \<Rightarrow> nat \<Rightarrow> witness \<Rightarrow> variable list \<Rightarrow> nat \<Rightarrow> gl" where
  "seg_val h ell W [] i = 0"
| "seg_val h ell W (v # vs) i = (if i < v_length v then wval h ell W v i else seg_val h ell W vs (i - v_length v))"

fun claim_rel :: "heap \<Rightarrow> nat \<Rightarrow> witness \<Rightarrow> claim \<Rightarrow> chal \<Rightarrow> bool" where
  "claim_rel h ell W (MatmulClaim c) (MatChal rho lam) = matmul_rel h ell W c rho lam"
| "claim_rel h ell W (MatmulClaim c) NoChal = False"
| "claim_rel h ell W (LinCombClaim c) ch = (\<forall>f<lc_length c. (\<Sum>(v, k)\<leftarrow>zip (lc_xs c) (lc_coefs c). of_int k * wval h ell W v f) =
     of_int (if length (lc_rhs c) = 1 then lc_rhs c ! 0 else lc_rhs c ! f))"
| "claim_rel h ell W (AddClaim c) ch = (\<forall>f<ac_length c. case ac_public c of
     None \<Rightarrow> wval h ell W (ac_a c) f + wval h ell W (ac_b c) f = wval h ell W (ac_c c) f | Some v \<Rightarrow> wval h ell W (ac_a c) f = of_int v)"
| "claim_rel h ell W (ConcatClaim c) ch = (\<forall>f<v_length (cc_dst c). wval h ell W (cc_dst c) f = seg_val h ell W (cc_srcs c) f)"
| "claim_rel h ell W (HadamardClaim c) ch =
     ((\<forall>f<hc_length c. wval h ell W (hc_a c) f * wval h ell W (hc_b c) f = wval h ell W (case hc_rescale c of None \<Rightarrow> hc_c c | Some r \<Rightarrow> rp_full r) f) \<and>
      (case hc_rescale c of None \<Rightarrow> True | Some r \<Rightarrow> rescale_rel h ell W (hc_c c) r (hc_length c)))"
| "claim_rel h ell W (RangeWordClaim c) ch = (\<forall>f<rw_length c. (of_int (alpha_of h (rw_table c)) - wval h ell W (rw_x c) f) * wval h ell W (rw_z c) f = 1)"
| "claim_rel h ell W (WordExtractionClaim c) ch = (\<forall>f<we_length c. wval h ell W (we_x c) f + of_int (we_shift c) =
     (\<Sum>(w, k)\<leftarrow>zip (we_words c) (we_coeffs c). of_int k * wval h ell W w f))"
| "claim_rel h ell W (PairedTlookupClaim c) ch =
     ((\<forall>f<pt_length c. wval h ell W (pt_u c) f = wval h ell W (pt_x c) f + of_int (pt_shift c) + of_int (beta_of h (pt_table c)) * wval h ell W (pt_y c) f) \<and>
      (\<forall>f<pt_length c. (of_int (alpha_of h (pt_table c)) - wval h ell W (pt_u c) f) * wval h ell W (pt_z c) f = 1))"
| "claim_rel h ell W (TableSettlement t) ch = table_rel h ell W t"

section \<open>Well-formed claims\<close>

fun rescale_ok :: "rescale_part option \<Rightarrow> variable \<Rightarrow> nat \<Rightarrow> bool" where
  "rescale_ok None c L \<longleftrightarrow> True"
| "rescale_ok (Some r) c L \<longleftrightarrow> 0 < rp_width r \<and> L \<le> v_length c \<and> L \<le> v_length (rp_full r) \<and> L \<le> v_length (rp_low r) \<and> L \<le> v_length (rp_shifted r)"

definition matmul_ok :: "matmul_claim \<Rightarrow> int list \<Rightarrow> int list \<Rightarrow> bool" where
  "matmul_ok c rho lam \<longleftrightarrow>
     (let H = mc_heads c; K = mc_head_dim c; k = mc_k c; m = mc_m c; n = mc_n c in
      k = H * K \<and> 0 < H \<and> 0 < K \<and> 0 < n \<and> length rho = H * n \<and> length lam = H * m \<and> k \<le> v_length (mc_y c) \<and> k \<le> v_length (mc_u c) \<and> k \<le> v_length (mc_p c) \<and>
      k * n \<le> v_length (mc_B c) \<and> m * k \<le> v_length (mc_A c) \<and> (mc_rescale c = None \<longrightarrow> m * H * n \<le> v_length (mc_C c)) \<and> rescale_ok (mc_rescale c) (mc_C c) (m * H * n))"

fun claim_ok :: "claim \<Rightarrow> chal \<Rightarrow> bool" where
  "claim_ok (MatmulClaim c) (MatChal rho lam) \<longleftrightarrow> matmul_ok c rho lam"
| "claim_ok (MatmulClaim c) NoChal \<longleftrightarrow> False"
| "claim_ok (LinCombClaim c) ch \<longleftrightarrow> length (lc_xs c) = length (lc_coefs c) \<and> list_all (\<lambda>v. v_length v = lc_length c) (lc_xs c) \<and>
     (length (lc_rhs c) = 1 \<or> length (lc_rhs c) = lc_length c)"
| "claim_ok (AddClaim c) ch \<longleftrightarrow> ac_length c \<le> v_length (ac_a c) \<and> ac_length c \<le> v_length (ac_b c) \<and> ac_length c \<le> v_length (ac_c c)"
| "claim_ok (ConcatClaim c) ch \<longleftrightarrow> sum_list (map v_length (cc_srcs c)) = v_length (cc_dst c)"
| "claim_ok (HadamardClaim c) ch \<longleftrightarrow> rescale_ok (hc_rescale c) (hc_c c) (hc_length c)"
| "claim_ok (RangeWordClaim c) ch \<longleftrightarrow> True"
| "claim_ok (WordExtractionClaim c) ch \<longleftrightarrow> length (we_words c) \<le> length (we_coeffs c) \<and> we_length c \<le> v_length (we_x c) \<and> list_all (\<lambda>v. we_length c \<le> v_length v) (we_words c)"
| "claim_ok (PairedTlookupClaim c) ch \<longleftrightarrow> pt_length c \<le> v_length (pt_x c) \<and> pt_length c \<le> v_length (pt_y c) \<and> pt_length c \<le> v_length (pt_u c)"
| "claim_ok (TableSettlement t) ch \<longleftrightarrow> length (tb_T t) \<le> v_length (tb_w t) \<and> length (tb_T t) \<le> v_length (tb_mult t) \<and>
     (case tb_TY t of None \<Rightarrow> True | Some ty \<Rightarrow> length ty = length (tb_T t))"

section \<open>What a compiler emits\<close>

definition placed :: "heap \<Rightarrow> nat \<Rightarrow> nat \<Rightarrow> variable \<Rightarrow> bool" where
  "placed h ell m v \<longleftrightarrow> 0 \<le> row_start h v \<and> row_start h v + int (n_rows v ell) \<le> int m"

definition items_in :: "nat \<Rightarrow> item list \<Rightarrow> bool" where
  "items_in m items \<longleftrightarrow> (\<forall>(r, b) \<in> set (expand_row_pkts items). 0 \<le> r \<and> r < int m)"

lemma items_in_simps [simp]:
  "items_in m []" "items_in m (xs @ ys) \<longleftrightarrow> items_in m xs \<and> items_in m ys" "items_in m (concat xss) \<longleftrightarrow> (\<forall>xs \<in> set xss. items_in m xs)"
  by (auto simp: items_in_def expand_row_pkts_def)

lemma items_in_Cons: "items_in m (x # xs) \<longleftrightarrow> items_in m [x] \<and> items_in m xs"
  using items_in_simps(2) [of m "[x]" xs] by simp

lemma items_in_rows [simp]: "placed h ell m v \<Longrightarrow> items_in m (row_pkts h ell v b)"
  by (auto simp: items_in_def expand_row_pkts_of placed_def)

lemma items_in_id [simp]: "placed h ell m (fst vk) \<Longrightarrow> items_in m (id_pkts h ell bs L vk)"
  by (cases vk) (simp add: id_pkts_def)

lemma items_in_range [simp]: "placed h ell m v \<Longrightarrow> items_in m [range_pkts h ell v b]"
  using items_in_rows [of h ell m v b] by (simp add: items_in_def expand_range)

text \<open>A compiler's output: rows of the matrix only, constraints of its own range only, a right-hand
  side of the declared length, and the relation \<open>R\<close>.\<close>

definition emits :: "nat \<Rightarrow> nat \<Rightarrow> witness \<Rightarrow> nat \<Rightarrow> bool \<Rightarrow> compiled \<Rightarrow> bool" where
  "emits ell m W bs R cp \<longleftrightarrow> items_in m (cp_items cp) \<and> (\<forall>c. c < bs \<or> bs + cp_added cp \<le> c \<longrightarrow> lin_val ell W (cp_items cp) c = 0) \<and>
     (\<forall>b. cp_b cp = Some b \<longrightarrow> length b = cp_added cp) \<and> (compiled_holds ell W bs cp \<longleftrightarrow> R)"

lemma all_less_add: "(\<forall>i<a + b. Q i) \<longleftrightarrow> (\<forall>i<a. Q i) \<and> (\<forall>i<b. Q (a + i))" for a b :: nat
  by (metis add_diff_inverse_nat add_less_cancel_left trans_less_add1)

lemmas emits_simps = emits_def mk_compiled_def compiled_holds_def length_b_chunk

lemma pole_eq: "x * z - al * z = (- 1 :: gl) \<longleftrightarrow> (al - x) * z = 1"
  by (auto simp: algebra_simps)

section \<open>The compilers without a rescale\<close>

lemma add_emits:
  assumes "0 < ell" "claim_ok (AddClaim c) ch" "\<forall>v \<in> set (claim_vars (AddClaim c)). placed h ell m v"
  shows "\<exists>cp. add_compile h ell c bs = Inr cp \<and> emits ell m W bs (claim_rel h ell W (AddClaim c) ch) cp"
proof (cases "ac_public c")
  case None
  show ?thesis using assms
    by (simp add: add_compile_def Let_def None emits_simps claim_vars_def algebra_simps)
next
  case (Some v)
  then show ?thesis using assms
    by (simp add: add_compile_def Let_def emits_simps claim_vars_def)
qed

lemma range_word_emits:
  assumes "0 < ell"
  shows "\<exists>cp. range_word_compile h ell c = Inr cp \<and> emits ell m W bs (claim_rel h ell W (RangeWordClaim c) ch) cp"
  by (simp add: range_word_compile_def emits_simps fam_rel [OF assms] pole_eq)

lemma paired_emits:
  assumes "0 < ell" "claim_ok (PairedTlookupClaim c) ch" "\<forall>v \<in> set (claim_vars (PairedTlookupClaim c)). placed h ell m v"
  shows "\<exists>cp. paired_tlookup_compile h ell c bs = Inr cp \<and> emits ell m W bs (claim_rel h ell W (PairedTlookupClaim c) ch) cp"
proof -
  have sh: "(of_int (pt_shift c) :: gl) = 0" if "pt_shift c mod FIELD_P = 0" using that gl_eq_iff [of "pt_shift c" 0] by simp
  have eq: "u + (- x - b * y) = s \<longleftrightarrow> u = x + s + b * y" for u x b y s :: gl by (auto simp: algebra_simps)
  show ?thesis using assms sh
    by (simp add: paired_tlookup_compile_def Let_def emits_simps claim_vars_def fam_rel pole_eq eq add.assoc)
qed

lemma zip_sum_cong: "(\<And>v k. (v, k) \<in> set xs \<Longrightarrow> f v k = g v k) \<Longrightarrow> (\<Sum>(v, k)\<leftarrow>xs. f v k) = (\<Sum>(v, k)\<leftarrow>xs. g v k)"
  by (rule arg_cong [of _ _ sum_list]) (auto intro: map_cong)

lemma lin_words:
  assumes "0 < ell" "\<forall>v \<in> set vs. L \<le> v_length v"
  shows "(\<Sum>(v, k)\<leftarrow>zip vs ks. lin_val ell W (id_pkts h ell bs L (v, g k)) c) =
    (if bs \<le> c \<and> c < bs + L then (\<Sum>(v, k)\<leftarrow>zip vs ks. of_int (g k) * wval h ell W v (c - bs)) else 0)"
proof -
  have "(\<Sum>(v, k)\<leftarrow>zip vs ks. lin_val ell W (id_pkts h ell bs L (v, g k)) c) =
      (\<Sum>(v, k)\<leftarrow>zip vs ks. if bs \<le> c \<and> c < bs + L then of_int (g k) * wval h ell W v (c - bs) else 0)"
    using assms by (intro zip_sum_cong) (auto dest!: set_zip_leftD)
  then show ?thesis by (cases "bs \<le> c \<and> c < bs + L") (auto simp: split_def sum_list_0)
qed

lemma word_extract_emits:
  assumes "0 < ell" "claim_ok (WordExtractionClaim c) ch" "\<forall>v \<in> set (claim_vars (WordExtractionClaim c)). placed h ell m v"
  shows "\<exists>cp. word_extract_compile h ell c bs = Inr cp \<and> emits ell m W bs (claim_rel h ell W (WordExtractionClaim c) ch) cp"
proof -
  have sh: "(of_int (we_shift c) :: gl) = 0" if "we_shift c mod FIELD_P = 0" using that gl_eq_iff [of "we_shift c" 0] by simp
  have neg: "(\<Sum>p\<leftarrow>xs. - f p) = - (\<Sum>p\<leftarrow>xs. f p :: gl)" for xs :: "(variable \<times> int) list" and f by (induction xs) auto
  have eq: "x - y = - s \<longleftrightarrow> x + s = y" for x y s :: gl by (auto simp: algebra_simps)
  have words: "\<forall>v \<in> set (we_words c). we_length c \<le> v_length v" "we_length c \<le> v_length (we_x c)" "\<not> length (we_coeffs c) < length (we_words c)"
    using assms(2) by (simp_all add: list_all_iff)
  have pl: "\<forall>v \<in> set (we_words c). placed h ell m v" "placed h ell m (we_x c)" using assms(3) by (simp_all add: claim_vars_def)
  have "items_in m (concat (map (\<lambda>(w, co). id_pkts h ell bs (we_length c) (w, neg_coef co)) (zip (we_words c) (we_coeffs c))))"
    using pl by (auto dest!: set_zip_leftD)
  moreover have "lin_val ell W (concat (map (\<lambda>(w, co). id_pkts h ell bs (we_length c) (w, neg_coef co)) (zip (we_words c) (we_coeffs c)))) cid =
      (if bs \<le> cid \<and> cid < bs + we_length c then - (\<Sum>(w, k)\<leftarrow>zip (we_words c) (we_coeffs c). of_int k * wval h ell W w (cid - bs)) else 0)" for cid
    using lin_words [OF assms(1) words(1), where g = neg_coef and ks = "we_coeffs c" and h = h and W = W and bs = bs and c = cid]
    by (auto simp: lin_val_concat comp_def split_def neg)
  ultimately show ?thesis using words(2, 3) pl(2) assms(1) sh
    by (simp add: word_extract_compile_def Let_def emits_simps eq del: items_in_simps(3))
qed

text \<open>The runs of a right-hand side write every slot once.\<close>

lemma run_prefix: "k < length (takeWhile (\<lambda>x. x = v) vs) \<Longrightarrow> vs ! k = v"
  by (metis (mono_tags, lifting) nth_mem set_takeWhileD takeWhile_nth)

lemma rhs_runs_fill:
  "length b = n \<Longrightarrow> t < n \<Longrightarrow>
   foldl (\<lambda>b (rel, len, v). map (\<lambda>i. if rel \<le> i \<and> i < rel + len then v mod FIELD_P else b ! i) [0..<n]) b (rhs_runs i vs) ! t =
     (if i \<le> t \<and> t < i + length vs then vs ! (t - i) mod FIELD_P else b ! t)"
proof (induction i vs arbitrary: b rule: rhs_runs.induct)
  case (2 i v vs)
  define j where "j = length (takeWhile (\<lambda>x. x = v) vs)"
  define b1 where "b1 = map (\<lambda>t. if i \<le> t \<and> t < i + Suc j then v mod FIELD_P mod FIELD_P else b ! t) [0..<n]"
  have jl: "j \<le> length vs" by (simp add: j_def length_takeWhile_le)
  have ih: "foldl (\<lambda>b (rel, len, v). map (\<lambda>i. if rel \<le> i \<and> i < rel + len then v mod FIELD_P else b ! i) [0..<n]) b1 (rhs_runs (i + Suc j) (drop j vs)) ! t =
      (if i + Suc j \<le> t \<and> t < i + Suc j + length (drop j vs) then drop j vs ! (t - (i + Suc j)) mod FIELD_P else b1 ! t)"
    by (rule "2.IH" [OF j_def]) (use "2.prems" in \<open>simp_all add: b1_def\<close>)
  have eq1: "foldl (\<lambda>b (rel, len, v). map (\<lambda>i. if rel \<le> i \<and> i < rel + len then v mod FIELD_P else b ! i) [0..<n]) b (rhs_runs i (v # vs)) =
      foldl (\<lambda>b (rel, len, v). map (\<lambda>i. if rel \<le> i \<and> i < rel + len then v mod FIELD_P else b ! i) [0..<n]) b1 (rhs_runs (i + Suc j) (drop j vs))"
    by (simp add: Let_def j_def b1_def)
  have eq2: "(if i + Suc j \<le> t \<and> t < i + Suc j + length (drop j vs) then drop j vs ! (t - (i + Suc j)) mod FIELD_P else b1 ! t) =
      (if i \<le> t \<and> t < i + length (v # vs) then (v # vs) ! (t - i) mod FIELD_P else b ! t)"
  proof (cases "i \<le> t")
    case True
    then obtain k where t: "t = i + k" by (auto simp: le_iff_add)
    show ?thesis
    proof (cases "k \<le> j")
      case True
      then have "(v # vs) ! k = v" using run_prefix [of "k - 1" v vs] by (cases k) (simp_all add: j_def)
      then show ?thesis using True t jl "2.prems" by (simp add: b1_def)
    next
      case False
      then obtain d where "k = Suc j + d" using less_imp_Suc_add [of j k] by auto
      then show ?thesis using t jl "2.prems" by (auto simp: b1_def)
    qed
  qed (use "2.prems" in \<open>simp add: b1_def\<close>)
  show ?case unfolding eq1 ih by (rule eq2)
qed simp

lemma rhs_runs_at:
  assumes "i < L" "length vs = L"
  shows "rhs_at (build_b_chunk L (rhs_runs 0 vs)) i = of_int (vs ! i)"
proof -
  have "rhs_runs 0 vs \<noteq> []" using assms by (cases vs) (simp_all add: Let_def)
  then show ?thesis using assms rhs_runs_fill [of "replicate L 0" L i 0 vs]
    by (simp add: rhs_at_def build_b_chunk_def)
qed

lemma lincomb_emits:
  assumes "0 < ell" "claim_ok (LinCombClaim c) ch" "\<forall>v \<in> set (claim_vars (LinCombClaim c)). placed h ell m v"
  shows "\<exists>cp. lincomb_compile h ell c bs = Inr cp \<and> emits ell m W bs (claim_rel h ell W (LinCombClaim c) ch) cp"
proof -
  have lens: "\<forall>v \<in> set (lc_xs c). lc_length c \<le> v_length v" "\<not> list_ex (\<lambda>v. v_length v \<noteq> lc_length c) (lc_xs c)"
    using assms(2) by (simp_all add: list_all_iff list_ex_iff)
  have pl: "\<forall>v \<in> set (lc_xs c). placed h ell m v" using assms(3) by (simp add: claim_vars_def)
  let ?items = "concat (map (\<lambda>(v, k). id_pkts h ell bs (lc_length c) (v, k mod FIELD_P)) (zip (lc_xs c) (lc_coefs c)))"
  have "items_in m ?items" using pl by (auto dest!: set_zip_leftD)
  moreover have "lin_val ell W ?items cid =
      (if bs \<le> cid \<and> cid < bs + lc_length c then (\<Sum>(v, k)\<leftarrow>zip (lc_xs c) (lc_coefs c). of_int k * wval h ell W v (cid - bs)) else 0)" for cid
    using lin_words [OF assms(1) lens(1), where g = "\<lambda>k. k mod FIELD_P" and ks = "lc_coefs c" and h = h and W = W and bs = bs and c = cid]
    by (auto simp: lin_val_concat comp_def split_def)
  moreover have "rhs_at (build_b_chunk (lc_length c) (if length (lc_rhs c) = 1 then [(0, lc_length c, lc_rhs c ! 0 mod FIELD_P)] else rhs_runs 0 (lc_rhs c))) i =
      of_int (if length (lc_rhs c) = 1 then lc_rhs c ! 0 else lc_rhs c ! i)" if "i < lc_length c" for i
    using that assms(2) by (auto simp: rhs_runs_at)
  moreover have "lincomb_compile h ell c bs = Inr (mk_compiled ?items [] (lc_length c)
      (build_b_chunk (lc_length c) (if length (lc_rhs c) = 1 then [(0, lc_length c, lc_rhs c ! 0 mod FIELD_P)] else rhs_runs 0 (lc_rhs c))))"
    using lens(2) assms(2) unfolding lincomb_compile_def Let_def by auto
  ultimately show ?thesis by (simp add: emits_simps del: items_in_simps(3) split del: if_split)
qed

lemma lin_srcs:
  assumes "0 < ell"
  shows "lin_val ell W (concat_srcs h ell bs off vs) c =
    (if bs + off \<le> c \<and> c < bs + off + sum_list (map v_length vs) then seg_val h ell W vs (c - bs - off) else 0)"
proof (induction vs arbitrary: off)
  case (Cons v vs)
  show ?case using assms by (auto simp: Cons algebra_simps diff_diff_left)
qed simp

lemma items_in_srcs: "\<forall>v \<in> set vs. placed h ell m v \<Longrightarrow> items_in m (concat_srcs h ell bs off vs)"
  by (induction vs arbitrary: off) simp_all

lemma concat_emits:
  assumes "0 < ell" "claim_ok (ConcatClaim c) ch" "\<forall>v \<in> set (claim_vars (ConcatClaim c)). placed h ell m v"
  shows "\<exists>cp. concat_compile h ell c bs = Inr cp \<and> emits ell m W bs (claim_rel h ell W (ConcatClaim c) ch) cp"
proof -
  have pl: "\<forall>v \<in> set (cc_srcs c). placed h ell m v" "placed h ell m (cc_dst c)" using assms(3) by (simp_all add: claim_vars_def)
  have eq: "y = x \<longleftrightarrow> x = y" for x y :: gl by (rule eq_commute)
  show ?thesis using assms(1, 2) pl items_in_srcs [OF pl(1)]
    by (simp add: concat_compile_def Let_def emits_simps lin_srcs) (simp only: eq [of "seg_val _ _ _ _ _"])
qed

section \<open>Rescaled products, matrix products and settlements\<close>

lemma lin_rescale:
  assumes "0 < ell" "rescale_ok (Some r) c L"
  shows "lin_val ell W (rescale_items h ell c r L cur) cid =
    (if cur \<le> cid \<and> cid < cur + L then wval h ell W (rp_full r) (cid - cur) - (2 ^ rp_bits r * wval h ell W c (cid - cur) + wval h ell W (rp_low r) (cid - cur))
     else if cur + L \<le> cid \<and> cid < cur + L + L then wval h ell W (rp_shifted r) (cid - cur - L) - wval h ell W c (cid - cur - L) else 0)"
  using assms by (simp add: rescale_items_def emit_lin_csr_idscalar_def)

lemma items_in_rescale:
  "placed h ell m c \<Longrightarrow> placed h ell m (rp_full r) \<Longrightarrow> placed h ell m (rp_low r) \<Longrightarrow> placed h ell m (rp_shifted r) \<Longrightarrow>
   items_in m (rescale_items h ell c r L cur)"
  by (simp add: rescale_items_def emit_lin_csr_idscalar_def)

lemma rescale_quads_rel:
  assumes "0 < ell"
  shows "(\<forall>q \<in> set (concat (map fam_expand (rescale_quads h ell lo sh r L))). quad_holds W q) \<longleftrightarrow>
    (\<forall>f<L. (of_int (alpha_of h (rp_range r)) - wval h ell W (rp_low r) f) * wval h ell W (rp_z_low r) f = 1) \<and>
    (\<forall>f<L. (of_int (alpha_of h (rp_output r)) - wval h ell W (rp_shifted r) f) * wval h ell W (rp_z_shifted r) f = 1)"
  by (simp add: rescale_quads_def per_slot_quad_def fam_rel [OF assms] pole_eq ball_Un)

lemma add_diff_eq_iff: "x - (a + b) = 0 \<longleftrightarrow> x = a + b" "x - a = s \<longleftrightarrow> x = a + s" for x a b s :: gl
  by (auto simp: algebra_simps)

lemma hadamard_emits:
  assumes "0 < ell" "claim_ok (HadamardClaim c) ch" "\<forall>v \<in> set (claim_vars (HadamardClaim c)). placed h ell m v"
  shows "\<exists>cp. hadamard_compile h ell c bs = Inr cp \<and> emits ell m W bs (claim_rel h ell W (HadamardClaim c) ch) cp"
proof (cases "hc_rescale c")
  case None
  then show ?thesis using assms(1)
    by (simp add: hadamard_compile_def Let_def emits_simps fam_rel)
next
  case (Some r)
  have ok: "rescale_ok (Some r) (hc_c c) (hc_length c)" "\<not> rp_width r = 0" using assms(2) Some by simp_all
  have pl: "items_in m (rescale_items h ell (hc_c c) r (hc_length c) bs)"
    using assms(3) Some by (intro items_in_rescale) (simp_all add: claim_vars_def rescale_fields_def)
  show ?thesis using ok(2) pl assms(1)
    by (simp add: hadamard_compile_def Let_def Some emits_simps fam_rel lin_rescale [OF assms(1) ok(1)] mult_2 all_less_add
        rescale_rel_def rescale_quads_rel [OF assms(1), simplified] ball_Un add_diff_eq_iff) blast
qed

lemma gl_map_neg: "i < length xs \<Longrightarrow> (of_int (map (\<lambda>v. (- v) mod FIELD_P) xs ! i) :: gl) = - of_int (xs ! i)"
  by simp

lemma head_less: "i < H * K \<Longrightarrow> j < n \<Longrightarrow> i div K * n + j < H * (n :: nat)"
  by (rule mult_add_less) (simp_all add: less_mult_imp_div_less)

definition matmul_core :: "heap \<Rightarrow> nat \<Rightarrow> matmul_claim \<Rightarrow> int list \<Rightarrow> int list \<Rightarrow> nat \<Rightarrow> variable \<Rightarrow> item list" where
  "matmul_core h ell c rho lam bs cf =
     (let H = mc_heads c; K = mc_head_dim c; k = mc_k c; m = mc_m c; n = mc_n c in
      id_pkts h ell bs k (mc_y c, 1)
      @ row_pkts h ell (mc_B c) (L2_FreivaldsLF1B bs (row_start h (mc_B c)) k n H K (mc_transpose c) (map (\<lambda>v. (- v) mod FIELD_P) rho))
      @ id_pkts h ell (bs + k) k (mc_u c, 1)
      @ row_pkts h ell (mc_A c) (L2_FreivaldsLF2A (bs + k) (row_start h (mc_A c)) k m H K (map (\<lambda>v. (- v) mod FIELD_P) lam))
      @ row_pkts h ell (mc_p c) (L2_StrideManyToOneScalar (bs + 2 * k) (row_start h (mc_p c)) k K 1)
      @ row_pkts h ell cf (L2_FreivaldsLF3C (bs + 2 * k) (row_start h cf) m n H (m * H * n) lam rho))"

lemma lin_matmul:
  assumes "0 < ell" "matmul_ok c rho lam" "mc_m c * mc_heads c * mc_n c \<le> v_length cf"
  shows "lin_val ell W (matmul_core h ell c rho lam bs cf) cid =
    (let H = mc_heads c; K = mc_head_dim c; k = mc_k c; m = mc_m c; n = mc_n c; w = wval h ell W in
     if bs \<le> cid \<and> cid < bs + k then (let i = cid - bs in
       w (mc_y c) i - (\<Sum>j<n. of_int (rho ! (i div K * n + j)) * w (mc_B c) (b_index (mc_transpose c) k n H K i j)))
     else if bs + k \<le> cid \<and> cid < bs + k + k then (let i = cid - (bs + k) in
       w (mc_u c) i - (\<Sum>j<m. of_int (lam ! (i div K * m + j)) * w (mc_A c) (j * k + i)))
     else if bs + k + k \<le> cid \<and> cid < bs + k + k + H then (let hd = cid - (bs + k + k) in
       (\<Sum>r<K. w (mc_p c) (hd * K + r)) - (\<Sum>i<m. \<Sum>j<n. of_int (lam ! (hd * m + i)) * of_int (rho ! (hd * n + j)) * w cf ((i * H + hd) * n + j)))
     else 0)"
proof -
  define H K k m n where d: "H = mc_heads c" "K = mc_head_dim c" "k = mc_k c" "m = mc_m c" "n = mc_n c"
  have ok: "k = H * K" "0 < K" "0 < n" "length rho = H * n" "length lam = H * m" "k \<le> v_length (mc_y c)" "k \<le> v_length (mc_u c)"
    "H * K \<le> v_length (mc_p c)" "k * n \<le> v_length (mc_B c)" "m * k \<le> v_length (mc_A c)" "m * H * n \<le> v_length cf"
    using assms(2, 3) unfolding matmul_ok_def Let_def d [symmetric] by metis+
  have y: "(\<Sum>j<n. of_int (map (\<lambda>v. (- v) mod FIELD_P) rho ! (i div K * n + j)) * g j) = - (\<Sum>j<n. of_int (rho ! (i div K * n + j)) * g j)"
    if "i < k" for i and g :: "nat \<Rightarrow> gl"
    unfolding sum_negf [symmetric] using that ok(1, 4) by (intro sum.cong refl) (simp only: gl_map_neg head_less lessThan_iff mult_minus_left)
  have u: "(\<Sum>j<m. of_int (map (\<lambda>v. (- v) mod FIELD_P) lam ! (i div K * m + j)) * g j) = - (\<Sum>j<m. of_int (lam ! (i div K * m + j)) * g j)"
    if "i < k" for i and g :: "nat \<Rightarrow> gl"
    unfolding sum_negf [symmetric] using that ok(1, 5) by (intro sum.cong refl) (simp only: gl_map_neg head_less lessThan_iff mult_minus_left)
  note p = lin_blocks [OF assms(1) ok(8, 2), folded ok(1)]
  show ?thesis unfolding matmul_core_def Let_def d [symmetric] lin_val_append
    lin_id [OF assms(1) ok(6)] lin_id [OF assms(1) ok(7)] lin_lf1b [OF assms(1) ok(9, 1, 3)] lin_lf2a [OF assms(1) ok(10)] p lin_lf3c [OF assms(1) ok(11, 3)] mult_2
    using y u by (auto simp: add.assoc)
qed

lemma items_in_matmul:
  "placed h ell m (mc_A c) \<Longrightarrow> placed h ell m (mc_B c) \<Longrightarrow> placed h ell m (mc_y c) \<Longrightarrow> placed h ell m (mc_u c) \<Longrightarrow> placed h ell m (mc_p c) \<Longrightarrow>
   placed h ell m cf \<Longrightarrow> items_in m (matmul_core h ell c rho lam bs cf)"
  by (simp add: matmul_core_def Let_def)

lemma matmul_quad:
  assumes "0 < ell"
  shows "(\<forall>q \<in> set (fam_expand \<lparr>qf_name = nm, qf_x = row_start h (mc_u c), qf_y = row_start h (mc_y c), qf_z = row_start h (mc_p c),
      qf_L = k, qf_ell = ell, qf_a = NEG1, qf_b = 0\<rparr>). quad_holds W q) \<longleftrightarrow>
    (\<forall>i<k. wval h ell W (mc_u c) i * wval h ell W (mc_y c) i = wval h ell W (mc_p c) i)"
  unfolding fam_rel [OF assms] by simp

lemma matmul_emits:
  assumes "0 < ell" "claim_ok (MatmulClaim c) (MatChal rho lam)" "\<forall>v \<in> set (claim_vars (MatmulClaim c)). placed h ell m v"
  shows "\<exists>cp. matmul_compile h ell c rho lam bs = Inr cp \<and> emits ell m W bs (claim_rel h ell W (MatmulClaim c) (MatChal rho lam)) cp"
proof (cases "mc_rescale c")
  case None
  have ok1: "matmul_ok c rho lam" using assms(2) by simp
  have ok2: "mc_m c * mc_heads c * mc_n c \<le> v_length (mc_C c)" using ok1 None unfolding matmul_ok_def Let_def by blast
  note ok = ok1 ok2
  have pl: "items_in m (matmul_core h ell c rho lam bs (mc_C c))"
    using assms(3) by (intro items_in_matmul) (simp_all add: claim_vars_def)
  have "matmul_compile h ell c rho lam bs = Inr (mk_compiled (matmul_core h ell c rho lam bs (mc_C c))
      [\<lparr>qf_name = v_name (mc_C c) @ ''.Q'', qf_x = row_start h (mc_u c), qf_y = row_start h (mc_y c), qf_z = row_start h (mc_p c),
        qf_L = mc_k c, qf_ell = ell, qf_a = NEG1, qf_b = 0\<rparr>] (mc_k c + mc_k c + mc_heads c) (build_b_chunk (mc_k c + mc_k c + mc_heads c) []))"
    by (simp add: matmul_compile_def matmul_core_def Let_def None mult_2 add.assoc)
  then show ?thesis using pl
    by (simp add: emits_simps lin_matmul [OF assms(1) ok] Let_def all_less_add matmul_rel_def None matmul_quad [OF assms(1)] add.assoc conj_assoc)
next
  case (Some r)
  have ok1: "matmul_ok c rho lam" using assms(2) by simp
  have res: "rescale_ok (mc_rescale c) (mc_C c) (mc_m c * mc_heads c * mc_n c)" using ok1 unfolding matmul_ok_def Let_def by blast
  then have ok: "matmul_ok c rho lam" "mc_m c * mc_heads c * mc_n c \<le> v_length (rp_full r)" "rescale_ok (Some r) (mc_C c) (mc_m c * mc_heads c * mc_n c)" "\<not> rp_width r = 0"
    using ok1 Some by simp_all
  have pl: "items_in m (matmul_core h ell c rho lam bs (rp_full r))" "items_in m (rescale_items h ell (mc_C c) r L cur)" for L cur
    using assms(3) Some by (auto intro!: items_in_matmul items_in_rescale simp: claim_vars_def rescale_fields_def)
  define k H L where d: "k = mc_k c" "H = mc_heads c" "L = mc_m c * mc_heads c * mc_n c"
  have "matmul_compile h ell c rho lam bs = Inr (mk_compiled (matmul_core h ell c rho lam bs (rp_full r) @ rescale_items h ell (mc_C c) r L (bs + k + k + H))
      (\<lparr>qf_name = v_name (mc_C c) @ ''.Q'', qf_x = row_start h (mc_u c), qf_y = row_start h (mc_y c), qf_z = row_start h (mc_p c),
        qf_L = k, qf_ell = ell, qf_a = NEG1, qf_b = 0\<rparr> # rescale_quads h ell (v_name (mc_C c) @ ''.RW[C_low]'') (v_name (mc_C c) @ ''.RW[C_shifted]'') r L)
      (k + k + H + L + L) (build_b_chunk (k + k + H + L + L) [(k + k + H + L, L, 2 ^ (rp_width r - 1))]))"
    using ok(4) by (simp add: matmul_compile_def matmul_core_def Let_def Some mult_2 d add.assoc)
  moreover have "(case mc_rescale c of None \<Rightarrow> mc_C c | Some r \<Rightarrow> rp_full r) = rp_full r" using Some by simp
  ultimately show ?thesis using pl
    by (simp add: emits_simps lin_matmul [OF assms(1) ok(1, 2)] lin_rescale [OF assms(1) ok(3)] Let_def all_less_add matmul_rel_def Some matmul_quad [OF assms(1)]
      rescale_quads_rel [OF assms(1), simplified] ball_Un rescale_rel_def add_diff_eq_iff add.assoc conj_assoc d) blast
qed

lemma items_in_ranges: "\<forall>z \<in> set zs. placed h ell m z \<Longrightarrow> items_in m (map (\<lambda>z. range_pkts h ell z (b z)) zs)"
proof (induction zs)
  case (Cons z zs)
  then show ?case by (simp add: items_in_Cons [of _ _ "map _ zs"])
qed simp

lemma lin_ranges: "lin_val ell W (map (\<lambda>z. range_pkts h ell z (b z)) zs) c = (\<Sum>z\<leftarrow>zs. lin_val ell W (row_pkts h ell z (b z)) c)"
proof (induction zs)
  case (Cons z zs)
  then show ?case by (simp add: lin_val_Cons [of _ _ _ "map _ zs"] lin_val_range)
qed simp

lemma table_emits:
  assumes "0 < ell" "claim_ok (TableSettlement t) ch" "\<forall>v \<in> set (claim_vars (TableSettlement t)). placed h ell m v"
  shows "\<exists>cp. table_settlement_compile h ell t bs = Inr cp \<and> emits ell m W bs (claim_rel h ell W (TableSettlement t) ch) cp"
proof -
  let ?T = "length (tb_T t)"
  have len: "?T \<le> v_length (tb_w t)" "?T \<le> v_length (tb_mult t)" "length (table_values h t) = ?T"
    using assms(2) by (auto simp: table_values_def split: option.splits)
  have pl: "placed h ell m (tb_w t)" "placed h ell m (tb_mult t)" "\<forall>z \<in> set (tb_z t). placed h ell m z"
    using assms(3) by (simp_all add: claim_vars_def)
  define wc where "wc = map (\<lambda>v. (alpha_of h t - v) mod FIELD_P) (table_values h t)"
  define items where "items = [range_pkts h ell (tb_w t) (L2_PerSlotVector bs (row_start h (tb_w t)) ?T wc)] @
      [range_pkts h ell (tb_mult t) (L2_IdentityScalar bs (row_start h (tb_mult t)) ?T NEG1)] @
      map (\<lambda>z. range_pkts h ell z (L2_StrideManyToOneScalar (bs + ?T) (row_start h z) (v_length z) (v_length z) 1)) (tb_z t) @
      [range_pkts h ell (tb_w t) (L2_StrideManyToOneScalar (bs + ?T) (row_start h (tb_w t)) ?T ?T NEG1)]"
  have c: "table_settlement_compile h ell t bs = Inr (mk_compiled items [] (?T + 1) None)"
    by (simp add: table_settlement_compile_def Let_def items_def wc_def)
  have "items_in m items" unfolding items_def items_in_simps using pl by (simp add: items_in_ranges)
  moreover have id: "row_pkts h ell v (L2_IdentityScalar b (row_start h v) L k) = id_pkts h ell b L (v, k)" for v b L k by (simp add: id_pkts_def)
  moreover have v: "lin_val ell W items cid = (if bs \<le> cid \<and> cid < bs + ?T
      then of_int (wc ! (cid - bs)) * wval h ell W (tb_w t) (cid - bs) - wval h ell W (tb_mult t) (cid - bs)
      else if cid = bs + ?T then (\<Sum>z\<leftarrow>tb_z t. \<Sum>f<v_length z. wval h ell W z f) - (\<Sum>f<?T. wval h ell W (tb_w t) f) else 0)" for cid
    unfolding items_def lin_val_append lin_val_range lin_ranges id
    using assms(1) len by (auto simp: lin_slot_vector lin_whole)
  moreover have "(of_int (wc ! j) :: gl) = of_int (alpha_of h t) - of_int (table_values h t ! j)" if "j < ?T" for j
    using that len(3) by (simp add: wc_def)
  ultimately show ?thesis unfolding c by (simp add: emits_simps All_less_Suc table_rel_def) blast
qed

lemma compile_one_emits:
  assumes "0 < ell" "claim_ok c ch" "\<forall>v \<in> set (claim_vars c). placed h ell m v"
  shows "\<exists>cp. compile_one h ell c ch bs = Inr cp \<and> emits ell m W bs (claim_rel h ell W c ch) cp"
proof (cases c)
  case (MatmulClaim mc)
  then obtain rho lam where "ch = MatChal rho lam" using assms(2) by (cases ch) auto
  then show ?thesis using matmul_emits assms MatmulClaim by (metis compile_one.simps(1))
qed (use assms in \<open>simp_all only: compile_one.simps lincomb_emits add_emits concat_emits hadamard_emits range_word_emits word_extract_emits paired_emits table_emits\<close>)

text \<open>The constraints a claim compiles to, at a base, hold for a witness.\<close>

definition claim_met :: "heap \<Rightarrow> nat \<Rightarrow> witness \<Rightarrow> claim \<Rightarrow> chal \<Rightarrow> nat \<Rightarrow> bool" where
  "claim_met h ell W c ch bs \<longleftrightarrow> (\<exists>cp. compile_one h ell c ch bs = Inr cp \<and> compiled_holds ell W bs cp)"

lemma claim_met_rel:
  assumes "0 < ell" "claim_ok c ch" "\<forall>v \<in> set (claim_vars c). placed h ell m v"
  shows "claim_met h ell W c ch bs \<longleftrightarrow> claim_rel h ell W c ch"
  using compile_one_emits [OF assms, of bs W] by (auto simp: claim_met_def emits_def)

end
