(* ===== verification/Claims_System.thy ===== *)
theory Claims_System
  imports Claims_Exact Relations
begin

text \<open>
  The compiled system of a list of claims (\<open>_compile_with_chs\<close>): its linear constraints are read from
  the per-row band lists and the accumulated right-hand sides, its quadratic constraints from the
  expanded families. The system holds for a witness exactly when every claim's documented relation
  does. The lookup and matrix-product claims then follow: what a witness that satisfies them, chosen
  after the challenges, says of the committed values.
\<close>

section \<open>The system a driver run leaves\<close>

definition sys_lin :: "nat \<Rightarrow> witness \<Rightarrow> (band list) list \<Rightarrow> nat \<Rightarrow> gl" where
  "sys_lin ell W rows c = (\<Sum>r<length rows. \<Sum>b\<leftarrow>rows ! r. band_row ell W c (int r, b))"

definition sys_rhs :: "(nat \<times> int list) list \<Rightarrow> nat \<Rightarrow> gl" where
  "sys_rhs bs c = (\<Sum>(base, b)\<leftarrow>bs. if base \<le> c \<and> c < base + length b then of_int (b ! (c - base)) else 0)"

definition system_holds :: "nat \<Rightarrow> witness \<Rightarrow> system \<Rightarrow> bool" where
  "system_holds ell W s \<longleftrightarrow> (\<forall>c< sy_n s. sys_lin ell W (sy_rows s) c = sys_rhs (sy_b s) c) \<and> (\<forall>q \<in> set (sy_quads s). quad_holds W q)"

lemma append_pkt_at:
  assumes "0 \<le> r" "r < int (length rows)"
  shows "append_pkt rows (r, b) = Inr (rows[nat r := rows ! nat r @ [b]])"
  using assms by (simp add: append_pkt_def py_pos_def)

lemma append_pkts_lin:
  assumes "\<forall>(r, b) \<in> set rps. 0 \<le> r \<and> r < int (length rows)"
  shows "\<exists>rows'. append_pkts rows rps = Inr rows' \<and> length rows' = length rows \<and>
    (\<forall>c. sys_lin ell W rows' c = sys_lin ell W rows c + (\<Sum>rb\<leftarrow>rps. band_row ell W c rb))"
  using assms
proof (induction rps arbitrary: rows)
  case (Cons rp rps)
  obtain r b where rp: "rp = (r, b)" by (cases rp)
  have r: "0 \<le> r" "nat r < length rows" using Cons.prems rp by auto
  define rows1 where "rows1 = rows[nat r := rows ! nat r @ [b]]"
  have "sys_lin ell W rows1 c = sys_lin ell W rows c + band_row ell W c (r, b)" for c
  proof -
    have "sys_lin ell W rows1 c = (\<Sum>k<length rows. (\<Sum>b\<leftarrow>rows ! k. band_row ell W c (int k, b)) + (if k = nat r then band_row ell W c (r, b) else 0))"
      unfolding sys_lin_def rows1_def using r by (intro sum.cong) (auto simp: nth_list_update)
    then show ?thesis using r(2) by (simp add: sys_lin_def sum.distrib)
  qed
  moreover obtain rows' where "append_pkts rows1 rps = Inr rows'" "length rows' = length rows1"
    "\<forall>c. sys_lin ell W rows' c = sys_lin ell W rows1 c + (\<Sum>rb\<leftarrow>rps. band_row ell W c rb)"
    using Cons.IH [of rows1] Cons.prems by (auto simp: rows1_def)
  moreover have "append_pkts rows (rp # rps) = append_pkts rows1 rps"
    using append_pkt_at [of r rows b] r by (simp add: rp rows1_def)
  ultimately show ?case by (auto simp: rp rows1_def add.assoc)
qed simp

text \<open>The invariant of the driver: nothing is written beyond the constraints handed out so far.\<close>

definition clean :: "nat \<Rightarrow> nat \<Rightarrow> witness \<Rightarrow> system \<Rightarrow> bool" where
  "clean ell m W s \<longleftrightarrow> length (sy_rows s) = m \<and> (\<forall>c. sy_n s \<le> c \<longrightarrow> sys_lin ell W (sy_rows s) c = 0 \<and> sys_rhs (sy_b s) c = 0)"

lemma sys_rhs_snoc:
  "sys_rhs (bs @ (case ob of None \<Rightarrow> [] | Some b \<Rightarrow> [(n, b)])) c =
    sys_rhs bs c + (case ob of None \<Rightarrow> 0 | Some b \<Rightarrow> if n \<le> c \<and> c < n + length b then of_int (b ! (c - n)) else 0)"
  by (cases ob) (simp_all add: sys_rhs_def)

lemma clean_step:
  assumes s: "clean ell m W s" and e: "emits ell m W (sy_n s) R cp"
    and rows: "length rows = m" "\<forall>c. sys_lin ell W rows c = sys_lin ell W (sy_rows s) c + lin_val ell W (cp_items cp) c"
  defines "s1 \<equiv> s\<lparr>sy_rows := rows, sy_quads := sy_quads s @ concat (map fam_expand (cp_quads cp)),
    sy_b := sy_b s @ (case cp_b cp of None \<Rightarrow> [] | Some b \<Rightarrow> [(sy_n s, b)]), sy_n := sy_n s + cp_added cp\<rparr>"
  shows "clean ell m W s1 \<and> (system_holds ell W s1 \<longleftrightarrow> system_holds ell W s \<and> R)"
proof -
  have out: "lin_val ell W (cp_items cp) c = 0" if "c < sy_n s \<or> sy_n s + cp_added cp \<le> c" for c using e that by (auto simp: emits_def)
  have len: "cp_b cp = Some b \<Longrightarrow> length b = cp_added cp" for b using e by (simp add: emits_def)
  have rhs: "sys_rhs (sy_b s1) c = sys_rhs (sy_b s) c + (if sy_n s \<le> c \<and> c < sy_n s + cp_added cp then rhs_at (cp_b cp) (c - sy_n s) else 0)" for c
    using len by (auto simp: s1_def sys_rhs_snoc rhs_at_def split: option.splits)
  have zero: "sys_lin ell W (sy_rows s) c = 0" "sys_rhs (sy_b s) c = 0" if "sy_n s \<le> c" for c using s that by (auto simp: clean_def)
  have p: "sy_n s1 = sy_n s + cp_added cp" "sy_rows s1 = rows" by (simp_all add: s1_def)
  have "clean ell m W s1" unfolding clean_def p rhs using rows out zero by simp
  moreover have "(\<forall>c< sy_n s1. sys_lin ell W (sy_rows s1) c = sys_rhs (sy_b s1) c) \<longleftrightarrow>
      (\<forall>c< sy_n s. sys_lin ell W (sy_rows s) c = sys_rhs (sy_b s) c) \<and> (\<forall>i<cp_added cp. lin_val ell W (cp_items cp) (sy_n s + i) = rhs_at (cp_b cp) i)"
    unfolding p all_less_add rhs using rows(2) out zero by simp
  moreover have "(\<forall>q \<in> set (sy_quads s1). quad_holds W q) \<longleftrightarrow>
      (\<forall>q \<in> set (sy_quads s). quad_holds W q) \<and> (\<forall>q \<in> set (concat (map fam_expand (cp_quads cp))). quad_holds W q)"
    by (auto simp: s1_def)
  moreover have "compiled_holds ell W (sy_n s) cp \<longleftrightarrow> R" using e by (simp add: emits_def)
  ultimately show ?thesis unfolding system_holds_def compiled_holds_def by blast
qed

lemma compile_loop_exact:
  assumes "0 < ell" "clean ell m W s" "\<forall>(c, ch) \<in> set cs. claim_ok c ch \<and> (\<forall>v \<in> set (claim_vars c). placed h ell m v)"
  shows "\<exists>s'. compile_loop h ell cs s = Inr s' \<and> (system_holds ell W s' \<longleftrightarrow> system_holds ell W s \<and> (\<forall>(c, ch) \<in> set cs. claim_rel h ell W c ch))"
  using assms(2, 3)
proof (induction cs arbitrary: s)
  case (Cons cc cs)
  obtain c ch where cc: "cc = (c, ch)" by (cases cc)
  have ok: "claim_ok c ch" "\<forall>v \<in> set (claim_vars c). placed h ell m v" using Cons.prems(2) cc by simp_all
  obtain cp where cp: "compile_one h ell c ch (sy_n s) = Inr cp" "emits ell m W (sy_n s) (claim_rel h ell W c ch) cp"
    using compile_one_emits [OF assms(1) ok] by blast
  have "\<forall>(r, b) \<in> set (expand_row_pkts (cp_items cp)). 0 \<le> r \<and> r < int (length (sy_rows s))"
    using cp(2) Cons.prems(1) by (simp add: emits_def items_in_def clean_def)
  then obtain rows where rows: "append_pkts (sy_rows s) (expand_row_pkts (cp_items cp)) = Inr rows" "length rows = m"
    "\<forall>c. sys_lin ell W rows c = sys_lin ell W (sy_rows s) c + lin_val ell W (cp_items cp) c"
    using append_pkts_lin [where ell = ell and W = W] Cons.prems(1) unfolding lin_val_def clean_def by blast
  note st = clean_step [OF Cons.prems(1) cp(2) rows(2, 3)]
  define s1 where "s1 = s\<lparr>sy_rows := rows, sy_quads := sy_quads s @ concat (map fam_expand (cp_quads cp)),
    sy_b := sy_b s @ (case cp_b cp of None \<Rightarrow> [] | Some b \<Rightarrow> [(sy_n s, b)]), sy_n := sy_n s + cp_added cp\<rparr>"
  have st: "clean ell m W s1" "system_holds ell W s1 \<longleftrightarrow> system_holds ell W s \<and> claim_rel h ell W c ch"
    using clean_step [OF Cons.prems(1) cp(2) rows(2, 3)] unfolding s1_def by blast+
  obtain s' where s': "compile_loop h ell cs s1 = Inr s'" "system_holds ell W s' \<longleftrightarrow> system_holds ell W s1 \<and> (\<forall>(c, ch) \<in> set cs. claim_rel h ell W c ch)"
    using Cons.IH [OF st(1)] Cons.prems(2) by auto
  have "compile_loop h ell (cc # cs) s = compile_loop h ell cs s1" by (simp only: cc compile_loop.simps cp(1) rows(1) rbind_simps s1_def)
  then show ?case using s' st(2) by (simp add: cc)
qed simp

text \<open>The driver compiles a list of well-formed claims whose variables lie in the matrix, and the
  system it returns holds for a witness exactly when every claim's documented relation does.\<close>

lemma driver_exact:
  assumes "0 < ell" "\<forall>(c, ch) \<in> set (zip claims chs). claim_ok c ch \<and> (\<forall>v \<in> set (claim_vars c). placed h ell m v)"
  shows "\<exists>s. compile_with_chs h ell claims chs m = Inr s \<and>
    (system_holds ell W s \<longleftrightarrow> (\<forall>(c, ch) \<in> set (zip claims chs). claim_rel h ell W c ch))"
proof -
  let ?s = "\<lparr>sy_rows = replicate m [], sy_quads = [], sy_b = [], sy_n = 0\<rparr>"
  have "clean ell m W ?s" by (simp add: clean_def sys_lin_def sys_rhs_def)
  then obtain s' where "compile_loop h ell (zip claims chs) ?s = Inr s'"
    "system_holds ell W s' \<longleftrightarrow> system_holds ell W ?s \<and> (\<forall>(c, ch) \<in> set (zip claims chs). claim_rel h ell W c ch)"
    using compile_loop_exact [OF assms(1) _ assms(2)] by blast
  moreover have "system_holds ell W ?s" by (simp add: system_holds_def)
  ultimately show ?thesis by (simp add: compile_with_chs_def)
qed

end
