(* ===== verification/Claims_Layout.thy ===== *)
theory Claims_Layout
  imports Claims_System
begin

text \<open>
  The layout walk: every variable a claim reaches gets rows of its own, block by block (persistent
  weights, refreshed weights, phases 1, 2, 3), behind the blinding rows. With it the driver's theorem
  applies to the prover's pipeline: settlements synthesised, rows laid out, challenges sampled, claims
  compiled.
\<close>

section \<open>Placement\<close>

lemma place_append: "place ell r n (xs @ ys) = (case place ell r n xs of (r', n') \<Rightarrow> place ell r' n' ys)"
  by (induction xs arbitrary: r n) simp_all

lemma place_end: "snd (place ell r n vs) = n + sum_list (map (\<lambda>v. n_rows v ell) vs)"
  by (induction vs arbitrary: r n) simp_all

lemma place_keep: "i \<notin> v_id ` set vs \<Longrightarrow> fst (place ell r n vs) i = r i"
  by (induction vs arbitrary: r n) auto

lemma place_rows:
  "distinct (map v_id vs) \<Longrightarrow> k < length vs \<Longrightarrow>
   fst (place ell r n vs) (v_id (vs ! k)) = int (n + sum_list (map (\<lambda>v. n_rows v ell) (take k vs)))"
proof (induction vs arbitrary: r n k)
  case (Cons v vs)
  show ?case
  proof (cases k)
    case 0
    have "v_id v \<notin> v_id ` set vs" using Cons.prems(1) by auto
    then show ?thesis using 0 by (simp add: place_keep)
  next
    case (Suc k')
    then show ?thesis using Cons.IH [of k'] Cons.prems by (simp add: add.assoc)
  qed
qed simp

lemma add_vars_ids: "distinct (map v_id acc) \<Longrightarrow> distinct (map v_id (add_vars acc vs))"
  by (induction acc vs rule: add_vars.induct) auto

lemma add_vars_set: "set (add_vars acc vs) \<subseteq> set acc \<union> set vs \<and> v_id ` set (add_vars acc vs) = v_id ` (set acc \<union> set vs)"
  by (induction acc vs rule: add_vars.induct) (auto simp: image_Un)

section \<open>The blocks of a layout\<close>

definition order :: "layout \<Rightarrow> variable list" where
  "order ly = ly_w ly @ ly_wnew ly @ ly_p1 ly @ ly_p2 ly @ ly_p3 ly"

definition reached :: "claim list \<Rightarrow> variable list" where
  "reached claims = concat (map claim_vars claims)"

lemma sum_split: "n + sum_list (map f (xs @ ys)) = (n + sum_list (map f xs)) + sum_list (map f ys)" for n :: nat
  by simp

lemma layout_order:
  assumes "do_layout claims ell h = (ly, h')"
  shows "h_row h' = fst (place ell (h_row h) NUM_BLINDING_ROWS (order ly)) \<and> h_alpha h' = h_alpha h \<and> h_beta h' = h_beta h \<and>
    ly_m_w ly = sum_list (map (\<lambda>v. n_rows v ell) (ly_w ly)) \<and>
    ly_p1_end ly = NUM_BLINDING_ROWS + sum_list (map (\<lambda>v. n_rows v ell) (ly_w ly @ ly_wnew ly @ ly_p1 ly)) \<and>
    ly_p2_end ly = NUM_BLINDING_ROWS + sum_list (map (\<lambda>v. n_rows v ell) (ly_w ly @ ly_wnew ly @ ly_p1 ly @ ly_p2 ly)) \<and>
    ly_total ly = NUM_BLINDING_ROWS + sum_list (map (\<lambda>v. n_rows v ell) (order ly))"
proof -
  define av w wn p1 p2 p3 where d: "av = filter (\<lambda>v. \<not> v_external v) (add_vars [] (concat (map claim_vars claims)))"
    "w = filter (\<lambda>v. v_phase v = 1 \<and> v_persistent v \<and> \<not> v_wnew v) av" "wn = filter (\<lambda>v. v_phase v = 1 \<and> v_persistent v \<and> v_wnew v) av"
    "p1 = filter (\<lambda>v. v_phase v = 1 \<and> \<not> v_persistent v) av" "p2 = filter (\<lambda>v. v_phase v = 2) av" "p3 = filter (\<lambda>v. v_phase v = 3) av"
  obtain r1 n1 where 1: "place ell (h_row h) NUM_BLINDING_ROWS w = (r1, n1)" by fastforce
  obtain r2 n2 where 2: "place ell r1 n1 wn = (r2, n2)" by fastforce
  obtain r3 n3 where 3: "place ell r2 n2 p1 = (r3, n3)" by fastforce
  obtain r4 n4 where 4: "place ell r3 n3 p2 = (r4, n4)" by fastforce
  obtain r5 n5 where 5: "place ell r4 n4 p3 = (r5, n5)" by fastforce
  have n: "n1 = NUM_BLINDING_ROWS + sum_list (map (\<lambda>v. n_rows v ell) w)" "n2 = n1 + sum_list (map (\<lambda>v. n_rows v ell) wn)"
    "n3 = n2 + sum_list (map (\<lambda>v. n_rows v ell) p1)" "n4 = n3 + sum_list (map (\<lambda>v. n_rows v ell) p2)" "n5 = n4 + sum_list (map (\<lambda>v. n_rows v ell) p3)"
    using place_end [of ell "h_row h" NUM_BLINDING_ROWS w] place_end [of ell r1 n1 wn] place_end [of ell r2 n2 p1] place_end [of ell r3 n3 p2] place_end [of ell r4 n4 p3]
    unfolding 1 2 3 4 5 by simp_all
  have "(ly, h') = (\<lparr>ly_all = av, ly_p1 = p1, ly_p2 = p2, ly_p3 = p3, ly_p1_end = n3, ly_p2_end = n4, ly_total = n5, ly_w = w,
      ly_m_w = n1 - NUM_BLINDING_ROWS, ly_wnew = wn, ly_m_wnew = n2 - NUM_BLINDING_ROWS - (n1 - NUM_BLINDING_ROWS)\<rparr>, h\<lparr>h_row := r5\<rparr>)"
    unfolding assms [symmetric] do_layout_def Let_def d [symmetric] 1 2 3 4 5 prod.case ..
  then show ?thesis unfolding order_def using n 1 2 3 4 5 by (simp add: place_append)
qed

lemma layout_vars:
  assumes "do_layout claims ell h = (ly, h')"
  shows "distinct (map v_id (order ly)) \<and> set (order ly) = {v \<in> set (add_vars [] (reached claims)). \<not> v_external v \<and> v_phase v \<in> {1, 2, 3}}"
proof -
  let ?av = "filter (\<lambda>v. \<not> v_external v) (add_vars [] (concat (map claim_vars claims)))"
  have ly: "ly_w ly = filter (\<lambda>v. v_phase v = 1 \<and> v_persistent v \<and> \<not> v_wnew v) ?av" "ly_wnew ly = filter (\<lambda>v. v_phase v = 1 \<and> v_persistent v \<and> v_wnew v) ?av"
    "ly_p1 ly = filter (\<lambda>v. v_phase v = 1 \<and> \<not> v_persistent v) ?av" "ly_p2 ly = filter (\<lambda>v. v_phase v = 2) ?av" "ly_p3 ly = filter (\<lambda>v. v_phase v = 3) ?av"
    using assms by (auto simp: do_layout_def Let_def split: prod.splits)
  have av: "distinct (add_vars [] (concat (map claim_vars claims)))" "inj_on v_id (set ?av)"
    using add_vars_ids [of "[]" "concat (map claim_vars claims)"] by (auto simp: distinct_map intro: inj_on_subset)
  have "distinct (order ly)" unfolding order_def ly using av(1) by auto
  moreover have sub: "set (order ly) = {v \<in> set (add_vars [] (reached claims)). \<not> v_external v \<and> v_phase v \<in> {1, 2, 3}}"
    unfolding order_def ly reached_def by auto
  moreover have "inj_on v_id (set (order ly))" using av(2) unfolding sub reached_def by (rule inj_on_subset) auto
  ultimately show ?thesis by (simp add: distinct_map)
qed

lemma order_rows:
  assumes "do_layout claims ell h = (ly, h')" "k < length (order ly)"
  shows "row_start h' (order ly ! k) = int (NUM_BLINDING_ROWS + sum_list (map (\<lambda>v. n_rows v ell) (take k (order ly))))"
  using layout_order [OF assms(1)] place_rows [OF layout_vars [OF assms(1), THEN conjunct1] assms(2)] by (simp add: row_start_def)

lemma prefix_sum_mono: "i < j \<Longrightarrow> j \<le> length xs \<Longrightarrow> sum_list (map f (take i xs)) + f (xs ! i) \<le> (sum_list (map f (take j xs)) :: nat)"
proof -
  assume "i < j" "j \<le> length xs"
  then have "take j xs = take i xs @ xs ! i # drop (Suc i) (take j xs)"
    using id_take_nth_drop [of i "take j xs"] by simp
  then have "sum_list (map f (take j xs)) = sum_list (map f (take i xs)) + (f (xs ! i) + sum_list (map f (drop (Suc i) (take j xs))))"
    by (metis (no_types, lifting) list.simps(9) map_append sum_list.Cons sum_list.append)
  then show ?thesis by simp
qed

lemma order_placed:
  assumes "do_layout claims ell h = (ly, h')" "v \<in> set (order ly)"
  shows "placed h' ell (ly_total ly) v"
proof -
  obtain k where k: "k < length (order ly)" "order ly ! k = v" using assms(2) by (auto simp: in_set_conv_nth)
  then show ?thesis using order_rows [OF assms(1) k(1)] layout_order [OF assms(1)] prefix_sum_mono [of k "length (order ly)" "order ly" "\<lambda>v. n_rows v ell"]
    by (simp add: placed_def)
qed

lemma order_disjoint:
  assumes "do_layout claims ell h = (ly, h')" "v \<in> set (order ly)" "w \<in> set (order ly)" "v \<noteq> w"
  shows "row_start h' v + int (n_rows v ell) \<le> row_start h' w \<or> row_start h' w + int (n_rows w ell) \<le> row_start h' v"
proof -
  let ?f = "\<lambda>v. n_rows v ell"
  obtain i j where ij: "i < length (order ly)" "order ly ! i = v" "j < length (order ly)" "order ly ! j = w"
    using assms(2, 3) by (auto simp: in_set_conv_nth)
  have step: "row_start h' (order ly ! a) + int (?f (order ly ! a)) \<le> row_start h' (order ly ! b)" if "a < b" "b < length (order ly)" for a b
    using that order_rows [OF assms(1)] prefix_sum_mono [of a b "order ly" ?f] by simp
  from ij assms(4) have "i < j \<or> j < i" by (metis nat_neq_iff)
  then show ?thesis using step ij by blast
qed

lemma slot_row: "0 < ell \<Longrightarrow> abs_slot h v f ell div int ell = row_start h v + int (f div ell)"
  "0 < ell \<Longrightarrow> abs_slot h v f ell mod int ell = int (f mod ell)"
  by (simp_all add: abs_slot_def)

lemma row_of_slot: "f < n_rows v ell * ell \<Longrightarrow> f div ell < n_rows v ell"
  by (simp add: less_mult_imp_div_less)

lemma slots_inj:
  assumes "0 < ell" "do_layout claims ell h = (ly, h')"
  shows "inj_on (\<lambda>(v, f). abs_slot h' v f ell) (SIGMA v : set (order ly). {..<n_rows v ell * ell})"
proof (rule inj_onI, clarify)
  fix v f w g assume a: "v \<in> set (order ly)" "f < n_rows v ell * ell" "w \<in> set (order ly)" "g < n_rows w ell * ell" "abs_slot h' v f ell = abs_slot h' w g ell"
  have r: "row_start h' v + int (f div ell) = row_start h' w + int (g div ell)" "f mod ell = g mod ell"
    using slot_row [OF assms(1), of h' v f] slot_row [OF assms(1), of h' w g] a(5) by simp_all
  have "v = w"
  proof (rule ccontr)
    assume "v \<noteq> w"
    then show False using order_disjoint [OF assms(2) a(1, 3)] r(1) row_of_slot [OF a(2)] row_of_slot [OF a(4)] by linarith
  qed
  then show "v = w \<and> f = g" using r by (metis add_left_cancel div_mult_mod_eq of_nat_eq_iff)
qed

lemma slots_card:
  assumes "distinct vs"
  shows "card (SIGMA v : set vs. {..<n_rows v ell * ell}) = sum_list (map (\<lambda>v. n_rows v ell) vs) * ell"
proof -
  have "card (SIGMA v : set vs. {..<n_rows v ell * ell}) = (\<Sum>v\<in>set vs. n_rows v ell * ell)" by simp
  also have "\<dots> = sum_list (map (\<lambda>v. n_rows v ell) vs) * ell"
    using sum.distinct_set_conv_list [OF assms, of "\<lambda>v. n_rows v ell * ell"] by (simp add: sum_list_mult_const)
  finally show ?thesis .
qed

lemma order_phase_split:
  assumes "do_layout claims ell h = (ly, h')" "v \<in> set (order ly)"
  shows "if v_phase v = 1 then row_start h' v + int (n_rows v ell) \<le> int (ly_p1_end ly)
    else if v_phase v = 2 then int (ly_p1_end ly) \<le> row_start h' v \<and> row_start h' v + int (n_rows v ell) \<le> int (ly_p2_end ly)
    else int (ly_p2_end ly) \<le> row_start h' v"
proof -
  let ?f = "\<lambda>v. n_rows v ell" and ?A = "ly_w ly @ ly_wnew ly @ ly_p1 ly"
  have ph: "\<forall>v \<in> set ?A. v_phase v = 1" "\<forall>v \<in> set (ly_p2 ly). v_phase v = 2" "\<forall>v \<in> set (ly_p3 ly). v_phase v = 3"
    using assms(1) by (auto simp: do_layout_def Let_def split: prod.splits)
  have o: "order ly = ?A @ ly_p2 ly @ ly_p3 ly" by (simp add: order_def)
  obtain k where k: "k < length (order ly)" "order ly ! k = v" using assms(2) by (auto simp: in_set_conv_nth)
  note row = order_rows [OF assms(1) k(1)] layout_order [OF assms(1)]
  consider "k < length ?A" | "length ?A \<le> k" "k < length (?A @ ly_p2 ly)" | "length (?A @ ly_p2 ly) \<le> k" by linarith
  then show ?thesis
  proof cases
    case 1
    then have "v \<in> set ?A" unfolding k(2) [symmetric] o by (simp add: nth_append del: append_assoc)
    then have "v_phase v = 1" using ph(1) by blast
    then show ?thesis using row k prefix_sum_mono [of k "length ?A" "order ly" ?f] 1 by (simp add: o)
  next
    case 2
    then have "v = ly_p2 ly ! (k - length ?A)" "k - length ?A < length (ly_p2 ly)" unfolding k(2) [symmetric] o by (auto simp: nth_append simp del: append_assoc)
    then have "v_phase v = 2" using ph(2) by simp
    moreover have "sum_list (map ?f (take (length ?A) (order ly))) \<le> sum_list (map ?f (take k (order ly)))"
      using 2(1) k(1) prefix_sum_mono [of "length ?A" k "order ly" ?f] by (cases "k = length ?A") auto
    ultimately show ?thesis using row k prefix_sum_mono [of k "length (?A @ ly_p2 ly)" "order ly" ?f] 2 by (simp add: o)
  next
    case 3
    then have "v = ly_p3 ly ! (k - length (?A @ ly_p2 ly))" "k - length (?A @ ly_p2 ly) < length (ly_p3 ly)"
      using k(1) unfolding k(2) [symmetric] o by (auto simp: nth_append simp del: append_assoc)
    then have "v_phase v = 3" using ph(3) by simp
    moreover have "sum_list (map ?f (take (length (?A @ ly_p2 ly)) (order ly))) \<le> sum_list (map ?f (take k (order ly)))"
      using 3 k(1) prefix_sum_mono [of "length (?A @ ly_p2 ly)" k "order ly" ?f] by (cases "k = length (?A @ ly_p2 ly)") auto
    ultimately show ?thesis using row k by (simp add: o)
  qed
qed

text \<open>
  Property C8 (\<open>layout_tiles\<close>): the layout is a tiling. The absolute slot of a laid-out variable and
  a flat index in its rows is a bijection onto the slots after the blinding rows, up to the total; so
  no two variables share a slot and no slot is left out. Every variable lies in the rows of its
  commitment phase.
\<close>

theorem layout_tiles:
  assumes "0 < ell" "do_layout claims ell h = (ly, h')"
  shows "bij_betw (\<lambda>(v, f). abs_slot h' v f ell) (SIGMA v : set (order ly). {..<n_rows v ell * ell}) {int (NUM_BLINDING_ROWS * ell)..<int (ly_total ly * ell)} \<and>
    (\<forall>v \<in> set (order ly). if v_phase v = 1 then row_start h' v + int (n_rows v ell) \<le> int (ly_p1_end ly)
      else if v_phase v = 2 then int (ly_p1_end ly) \<le> row_start h' v \<and> row_start h' v + int (n_rows v ell) \<le> int (ly_p2_end ly)
      else int (ly_p2_end ly) \<le> row_start h' v)"
proof -
  let ?S = "SIGMA v : set (order ly). {..<n_rows v ell * ell}" and ?T = "{int (NUM_BLINDING_ROWS * ell)..<int (ly_total ly * ell)}"
  let ?a = "\<lambda>(v, f). abs_slot h' v f ell"
  have inj: "inj_on ?a ?S" by (rule slots_inj [OF assms])
  have "?a ` ?S \<subseteq> ?T"
  proof clarify
    fix v f assume v: "v \<in> set (order ly)" and f: "f < n_rows v ell * ell"
    obtain k where k: "k < length (order ly)" "order ly ! k = v" using v by (auto simp: in_set_conv_nth)
    have low: "int NUM_BLINDING_ROWS \<le> row_start h' v" using order_rows [OF assms(2) k(1)] k(2) by simp
    have high: "row_start h' v + int (f div ell) + 1 \<le> int (ly_total ly)" using order_placed [OF assms(2) v] row_of_slot [OF f] unfolding placed_def by linarith
    have "int NUM_BLINDING_ROWS * int ell \<le> (row_start h' v + int (f div ell)) * int ell" using low by (intro mult_right_mono) simp_all
    moreover have "(row_start h' v + int (f div ell) + 1) * int ell \<le> int (ly_total ly) * int ell" using high by (intro mult_right_mono) simp_all
    moreover have "int (f mod ell) < int ell" using assms(1) by simp
    ultimately show "abs_slot h' v f ell \<in> ?T" by (simp add: abs_slot_def distrib_right)
  qed
  moreover have "card ?T = card ?S"
  proof -
    have d: "distinct (order ly)" using layout_vars [OF assms(2)] by (simp add: distinct_map)
    have "card ?T = ly_total ly * ell - NUM_BLINDING_ROWS * ell" by (simp add: nat_diff_distrib del: of_nat_mult)
    then show ?thesis unfolding slots_card [OF d] using layout_order [OF assms(2)] by (simp add: distrib_right)
  qed
  ultimately have "?a ` ?S = ?T" using inj by (intro card_subset_eq) (simp_all add: card_image)
  then show ?thesis using inj order_phase_split [OF assms(2)] by (simp add: bij_betw_def)
qed

section \<open>The pipeline\<close>

text \<open>The challenges a matrix product needs: their shape, before they are drawn.\<close>

fun claim_fits :: "claim \<Rightarrow> bool" where
  "claim_fits (MatmulClaim c) \<longleftrightarrow> matmul_ok c (replicate (mc_heads c * mc_n c) 0) (replicate (mc_heads c * mc_m c) 0) \<and>
     mc_heads c * mc_n c \<le> 2 ^ 64 \<and> mc_heads c * mc_m c \<le> 2 ^ 64"
| "claim_fits c \<longleftrightarrow> claim_ok c NoChal"

lemma challenge_total: "seed_bytes sd = Inr sb \<Longrightarrow> i < 2 ^ 64 \<Longrightarrow> \<exists>v. challenge H sd i label = Inr v"
  by (simp add: challenge_def challenge_input_def to_bytes_def)

lemma rmap_total: "\<forall>x \<in> set xs. \<exists>y. f x = Inr y \<Longrightarrow> \<exists>ys. rmap f xs = Inr ys \<and> length ys = length xs"
  by (induction xs) auto

lemma op_vec_total: "seed_bytes sd = Inr sb \<Longrightarrow> n \<le> 2 ^ 64 \<Longrightarrow> \<exists>vs. op_vec H sd ci label n = Inr vs \<and> length vs = n"
  using rmap_total [of "[0..<n]" "\<lambda>i. challenge H sd i (op_label ci label)"] challenge_total [of sd sb] by (fastforce simp: op_vec_def)

lemma matmul_ok_shape: "length rho = length rho' \<Longrightarrow> length lam = length lam' \<Longrightarrow> matmul_ok c rho lam = matmul_ok c rho' lam'"
  by (simp add: matmul_ok_def Let_def)

lemma sample_one_total:
  assumes "seed_bytes sd = Inr sb" "claim_fits c"
  shows "\<exists>ch h'. sample_one H sd ci c h = Inr (ch, h') \<and> h_row h' = h_row h \<and> claim_ok c ch"
proof (cases c)
  case (MatmulClaim mc)
  obtain rho lam where "op_vec H sd ci ''rho'' (mc_heads mc * mc_n mc) = Inr rho" "length rho = mc_heads mc * mc_n mc"
    "op_vec H sd ci ''lam'' (mc_heads mc * mc_m mc) = Inr lam" "length lam = mc_heads mc * mc_m mc"
    using op_vec_total [OF assms(1)] assms(2) MatmulClaim by (metis claim_fits.simps(1))
  then show ?thesis using assms(2) matmul_ok_shape [of rho "replicate (mc_heads mc * mc_n mc) 0" lam "replicate (mc_heads mc * mc_m mc) 0" mc]
    by (simp add: MatmulClaim matmul_sample_def)
next
  case (TableSettlement t)
  obtain al be where "challenge H sd 0 (op_label ci ''alpha'') = Inr al" "challenge H sd 0 (op_label ci ''beta'') = Inr be"
    using challenge_total [OF assms(1), of 0 H] by (metis zero_less_power zero_less_numeral)
  then show ?thesis using assms(2) by (cases "tb_TY t") (simp_all add: TableSettlement table_settlement_sample_def Let_def)
qed (use assms(2) in simp_all)

lemma sample_chs_total:
  assumes "seed_bytes sd = Inr sb"
  shows "\<forall>c \<in> set cs. claim_fits c \<Longrightarrow>
    \<exists>chs h'. sample_chs H sd ci cs h = Inr (chs, h') \<and> length chs = length cs \<and> h_row h' = h_row h \<and> (\<forall>(c, ch) \<in> set (zip cs chs). claim_ok c ch)"
proof (induction cs arbitrary: ci h)
  case (Cons c cs)
  obtain ch h1 where 1: "sample_one H sd ci c h = Inr (ch, h1)" "h_row h1 = h_row h" "claim_ok c ch"
    using sample_one_total [OF assms] Cons.prems by (meson list.set_intros(1))
  obtain chs h2 where "sample_chs H sd (Suc ci) cs h1 = Inr (chs, h2)" "length chs = length cs" "h_row h2 = h_row h1" "\<forall>(c, ch) \<in> set (zip cs chs). claim_ok c ch"
    using Cons.IH [of "Suc ci" h1] Cons.prems by auto
  then show ?case using 1 by auto
qed simp

lemma reached_placed:
  assumes "do_layout claims ell h = (ly, h')" "h_row h2 = h_row h'" "inj_on v_id (set (reached claims))"
    "\<forall>v \<in> set (reached claims). \<not> v_external v \<and> v_phase v \<in> {1, 2, 3}" "c \<in> set claims" "v \<in> set (claim_vars c)"
  shows "placed h2 ell (ly_total ly) v"
proof -
  have v: "v \<in> set (reached claims)" using assms(5, 6) by (auto simp: reached_def)
  then have "v_id v \<in> v_id ` set (add_vars [] (reached claims))" using add_vars_set [of "[]" "reached claims"] by simp
  then obtain w where w: "w \<in> set (add_vars [] (reached claims))" "v_id w = v_id v" by force
  then have "w \<in> set (reached claims)" using add_vars_set [of "[]" "reached claims"] by auto
  then have "w = v" using assms(3) v w(2) by (auto dest: inj_onD)
  then have "v \<in> set (order ly)" using layout_vars [OF assms(1)] w(1) assms(4) v by auto
  then show ?thesis using order_placed [OF assms(1)] assms(2) by (simp add: placed_def row_start_def)
qed

text \<open>
  Property C3 (\<open>pipeline_exact\<close>): compiling is exact, end to end. For claims of fitting shapes whose
  variables are identified by their identity and committed in phases 1 to 3, synthesising the
  settlements, laying the variables out, sampling the challenges and compiling returns a system, and
  the system holds for a witness exactly when every claim's documented relation does, under the
  challenges drawn.
\<close>

theorem pipeline_exact:
  assumes "0 < ell" "with_synthesized_settlements claims = settled" "do_layout settled ell h = (ly, h1)"
    and "\<forall>c \<in> set settled. claim_fits c" "seed_bytes s_op = Inr sb"
    and "inj_on v_id (set (reached settled))" "\<forall>v \<in> set (reached settled). \<not> v_external v \<and> v_phase v \<in> {1, 2, 3}"
  shows "\<exists>s chs h2. compile_all H settled s_op ell (ly_total ly) h1 = Inr (s, chs, h2) \<and> length chs = length settled \<and>
    (system_holds ell W s \<longleftrightarrow> (\<forall>(c, ch) \<in> set (zip settled chs). claim_rel h2 ell W c ch))"
proof -
  obtain chs h2 where ch: "sample_chs H s_op 0 settled h1 = Inr (chs, h2)" "length chs = length settled" "h_row h2 = h_row h1"
    "\<forall>(c, ch) \<in> set (zip settled chs). claim_ok c ch"
    using sample_chs_total [OF assms(5, 4)] by blast
  have "\<forall>(c, ch) \<in> set (zip settled chs). claim_ok c ch \<and> (\<forall>v \<in> set (claim_vars c). placed h2 ell (ly_total ly) v)"
    using ch(4) reached_placed [OF assms(3) ch(3) assms(6, 7)] by (auto dest: set_zip_leftD)
  then show ?thesis using driver_exact [OF assms(1)] ch(1, 2) unfolding compile_all_def by fastforce
qed

text \<open>A product of a row and a column, an addition and a range lookup.\<close>

definition toy_v :: "nat \<Rightarrow> nat \<Rightarrow> nat \<Rightarrow> variable" where
  "toy_v i len phase = new_variable i ''v'' len phase False False False"

definition toy_matmul :: matmul_claim where
  "toy_matmul = \<lparr>mc_A = toy_v 0 2 1, mc_B = toy_v 1 2 1, mc_C = toy_v 2 1 1, mc_y = toy_v 3 2 2, mc_u = toy_v 4 2 2, mc_p = toy_v 5 2 2,
     mc_m = 1, mc_k = 2, mc_n = 1, mc_transpose = False, mc_heads = 1, mc_head_dim = 2, mc_rescale = None\<rparr>"

definition toy_table :: ltable where
  "toy_table = \<lparr>tb_id = 0, tb_name = ''t'', tb_T = [0, 1, 2], tb_mult = toy_v 6 3 1, tb_w = toy_v 7 3 2, tb_TY = None, tb_z = [toy_v 8 2 2]\<rparr>"

definition toy_claims :: "claim list" where
  "toy_claims = [MatmulClaim toy_matmul, AddClaim \<lparr>ac_a = toy_v 0 2 1, ac_b = toy_v 1 2 1, ac_c = toy_v 9 2 1, ac_length = 2, ac_public = None\<rparr>,
     RangeWordClaim \<lparr>rw_x = toy_v 9 2 1, rw_z = toy_v 8 2 2, rw_table = toy_table, rw_length = 2, rw_local = None\<rparr>]"

lemma replicate_9: "replicate 9 x = [x, x, x, x, x, x, x, x, x]"
  by (simp add: eval_nat_numeral)

lemma toy_settled: "with_synthesized_settlements toy_claims = toy_claims @ [TableSettlement toy_table]"
  by (simp add: with_synthesized_settlements_def collect_tables_def toy_claims_def toy_table_def toy_matmul_def rescale_fields_def replicate_9 Let_def)

theorem layout_tiles_witness:
  "\<exists>ly h1. do_layout (with_synthesized_settlements toy_claims) 2 fresh_heap = (ly, h1) \<and>
     bij_betw (\<lambda>(v, f). abs_slot h1 v f 2) (SIGMA v : set (order ly). {..<n_rows v 2 * 2}) {6..<int (ly_total ly * 2)}"
proof -
  obtain ly h1 where ly: "do_layout (with_synthesized_settlements toy_claims) 2 fresh_heap = (ly, h1)" by fastforce
  then show ?thesis using layout_tiles [OF _ ly] by (simp add: NUM_BLINDING_ROWS_def)
qed

theorem pipeline_exact_witness:
  "\<exists>ly h1 s chs h2. do_layout (with_synthesized_settlements toy_claims) 2 fresh_heap = (ly, h1) \<and>
     compile_all (\<lambda>b. replicate 32 1) (with_synthesized_settlements toy_claims) (SeedInt 5) 2 (ly_total ly) h1 = Inr (s, chs, h2) \<and>
     (system_holds 2 (\<lambda>r i. 0) s \<longleftrightarrow> (\<forall>(c, ch) \<in> set (zip (with_synthesized_settlements toy_claims) chs). claim_rel h2 2 (\<lambda>r i. 0) c ch))"
proof -
  let ?cs = "with_synthesized_settlements toy_claims"
  obtain ly h1 where ly: "do_layout ?cs 2 fresh_heap = (ly, h1)" by fastforce
  have sb: "seed_bytes (SeedInt 5) = Inr (le_bytes 32 5)" by (simp add: to_bytes_def)
  have fits: "\<forall>c \<in> set ?cs. claim_fits c" unfolding toy_settled
    by (simp add: toy_claims_def toy_matmul_def toy_table_def matmul_ok_def toy_v_def new_variable_def)
  have "set (reached ?cs) = {toy_v 0 2 1, toy_v 1 2 1, toy_v 2 1 1, toy_v 3 2 2, toy_v 4 2 2, toy_v 5 2 2, toy_v 6 3 1, toy_v 7 3 2, toy_v 8 2 2, toy_v 9 2 1}"
    unfolding toy_settled by (auto simp: reached_def toy_claims_def claim_vars_def toy_matmul_def toy_table_def rescale_fields_def)
  then have "inj_on v_id (set (reached ?cs))" "\<forall>v \<in> set (reached ?cs). \<not> v_external v \<and> v_phase v \<in> {1, 2, 3}"
    by (simp_all add: toy_v_def new_variable_def)
  then show ?thesis using pipeline_exact [OF _ refl ly fits sb, where H = "\<lambda>b. replicate 32 1" and W = "\<lambda>r i. 0"] ly by fastforce
qed

end
