(* ===== verification/Claims_Sound.thy ===== *)
theory Claims_Sound
  imports Claims_Layout
begin

text \<open>
  What the documented relations say of the committed values when the auxiliary values are chosen
  after the challenges: the matrix-product claim is Freivalds' check, the range words and their
  settlement are a logarithmic-derivative lookup, and the ranged rescale is the signed floor division.
\<close>

section \<open>Freivalds\<close>

lemma bilinear_few:
  fixes E :: "nat \<Rightarrow> nat \<Rightarrow> gl"
  assumes S: "finite S" "\<forall>r \<in> S. 0 \<le> r \<and> r < FIELD_P" and E: "a0 < N2" "b0 < N1" "E a0 b0 \<noteq> 0"
  shows "card {(rho, lam). length rho = N1 \<and> set rho \<subseteq> S \<and> length lam = N2 \<and> set lam \<subseteq> S \<and>
      (\<Sum>a<N2. \<Sum>b<N1. of_int (lam ! a) * of_int (rho ! b) * E a b) = 0} \<le> 2 * card S ^ (N1 + N2 - 1)"
    (is "card ?B \<le> _")
proof -
  define v where "v = (\<lambda>rho a. \<Sum>b<N1. of_int (rho ! b) * E a b)"
  define L where "L = (\<lambda>n. {xs. set xs \<subseteq> S \<and> length xs = n})"
  have fin: "finite (L n)" "card (L n) = card S ^ n" for n
    unfolding L_def using finite_lists_length_eq [OF S(1)] card_lists_length_eq [OF S(1)] by auto
  have dot: "(\<Sum>(l, w)\<leftarrow>zip xs (map g [0..<n]). of_int l * w) = (\<Sum>i<n. of_int (xs ! i) * g i)" if "length xs = n" for xs :: "int list" and g :: "nat \<Rightarrow> gl" and n
    using that by (simp add: sum_list_eq_sum_nth)
  define R where "R = {rho \<in> L N1. v rho a0 = 0}"
  have R: "card R \<le> card S ^ (N1 - 1)"
  proof -
    have "R = {xs. length xs = length (map (E a0) [0..<N1]) \<and> set xs \<subseteq> S \<and> (\<Sum>(l, w)\<leftarrow>zip xs (map (E a0) [0..<N1]). of_int l * w) = 0}"
      by (auto simp: R_def L_def v_def dot)
    moreover have "\<exists>w \<in> set (map (E a0) [0..<N1]). w \<noteq> 0" using E by auto
    ultimately show ?thesis using linear_zeros_few [OF S, of "map (E a0) [0..<N1]" 0] by simp
  qed
  have Lam: "card {lam \<in> L N2. (\<Sum>a<N2. of_int (lam ! a) * v rho a) = 0} \<le> card S ^ (N2 - 1)" if "v rho a0 \<noteq> 0" for rho
  proof -
    have "{lam \<in> L N2. (\<Sum>a<N2. of_int (lam ! a) * v rho a) = 0} =
        {xs. length xs = length (map (v rho) [0..<N2]) \<and> set xs \<subseteq> S \<and> (\<Sum>(l, w)\<leftarrow>zip xs (map (v rho) [0..<N2]). of_int l * w) = 0}"
      by (auto simp: L_def dot)
    moreover have "\<exists>w \<in> set (map (v rho) [0..<N2]). w \<noteq> 0" using E(1) that by auto
    ultimately show ?thesis using linear_zeros_few [OF S, of "map (v rho) [0..<N2]" 0] by simp
  qed
  have sums: "(\<Sum>a<N2. \<Sum>b<N1. of_int (lam ! a) * of_int (rho ! b) * E a b) = (\<Sum>a<N2. of_int (lam ! a) * v rho a)" for lam rho
    by (simp add: v_def sum_distrib_left mult.assoc)
  have sub: "?B \<subseteq> R \<times> L N2 \<union> (SIGMA rho : L N1 - R. {lam \<in> L N2. (\<Sum>a<N2. of_int (lam ! a) * v rho a) = 0})"
    unfolding sums by (auto simp: R_def L_def)
  have finR: "finite R" by (simp add: R_def fin)
  have "card ?B \<le> card (R \<times> L N2) + card (SIGMA rho : L N1 - R. {lam \<in> L N2. (\<Sum>a<N2. of_int (lam ! a) * v rho a) = 0})"
    by (rule order_trans [OF card_mono [OF _ sub] card_Un_le]) (simp add: fin finR)
  also have "\<dots> \<le> card S ^ (N1 - 1) * card S ^ N2 + card S ^ N1 * card S ^ (N2 - 1)"
  proof (rule add_mono)
    show "card (R \<times> L N2) \<le> card S ^ (N1 - 1) * card S ^ N2" using R by (simp add: card_cartesian_product fin mult_right_mono)
    have "card (SIGMA rho : L N1 - R. {lam \<in> L N2. (\<Sum>a<N2. of_int (lam ! a) * v rho a) = 0}) =
        (\<Sum>rho\<in>L N1 - R. card {lam \<in> L N2. (\<Sum>a<N2. of_int (lam ! a) * v rho a) = 0})"
      by (rule card_SigmaI) (simp_all add: fin)
    also have "\<dots> \<le> (\<Sum>rho\<in>L N1 - R. card S ^ (N2 - 1))" by (rule sum_mono) (rule Lam, simp add: R_def)
    also have "\<dots> = card (L N1 - R) * card S ^ (N2 - 1)" by simp
    also have "\<dots> \<le> card S ^ N1 * card S ^ (N2 - 1)" using card_mono [OF fin(1), of "L N1 - R" N1] by (simp add: fin mult_right_mono)
    finally show "card (SIGMA rho : L N1 - R. {lam \<in> L N2. (\<Sum>a<N2. of_int (lam ! a) * v rho a) = 0}) \<le> card S ^ N1 * card S ^ (N2 - 1)" .
  qed
  also have "\<dots> = 2 * card S ^ (N1 + N2 - 1)" using E by (cases N1; cases N2) (simp_all add: power_add algebra_simps)
  finally show ?thesis .
qed

text \<open>The entry \<open>(i, j)\<close> of head \<open>e\<close> of the product of the committed operands, and the committed
  entry the claim compares it with.\<close>

definition product_entry :: "heap \<Rightarrow> nat \<Rightarrow> witness \<Rightarrow> matmul_claim \<Rightarrow> nat \<Rightarrow> nat \<Rightarrow> nat \<Rightarrow> gl" where
  "product_entry h ell W c e i j = (\<Sum>r<mc_head_dim c. wval h ell W (mc_A c) (i * mc_k c + (e * mc_head_dim c + r)) *
     wval h ell W (mc_B c) (b_index (mc_transpose c) (mc_k c) (mc_n c) (mc_heads c) (mc_head_dim c) (e * mc_head_dim c + r) j))"

definition product_target :: "matmul_claim \<Rightarrow> variable" where
  "product_target c = (case mc_rescale c of None \<Rightarrow> mc_C c | Some r \<Rightarrow> rp_full r)"

definition target_entry :: "heap \<Rightarrow> nat \<Rightarrow> witness \<Rightarrow> matmul_claim \<Rightarrow> nat \<Rightarrow> nat \<Rightarrow> nat \<Rightarrow> gl" where
  "target_entry h ell W c e i j = wval h ell W (product_target c) ((i * mc_heads c + e) * mc_n c + j)"

lemma sum_product_swap:
  "(\<Sum>r<K. (\<Sum>i<m. x i * A i r) * (\<Sum>j<n. y j * B r j)) = (\<Sum>i<m. \<Sum>j<n. x i * y j * (\<Sum>r<K. A i r * B r j :: gl))"
proof -
  have "(\<Sum>r<K. (\<Sum>i<m. x i * A i r) * (\<Sum>j<n. y j * B r j)) = (\<Sum>r<K. \<Sum>i<m. \<Sum>j<n. x i * y j * (A i r * B r j))"
    by (simp add: sum_product mult_ac)
  also have "\<dots> = (\<Sum>i<m. \<Sum>r<K. \<Sum>j<n. x i * y j * (A i r * B r j))" by (rule sum.swap)
  also have "\<dots> = (\<Sum>i<m. \<Sum>j<n. \<Sum>r<K. x i * y j * (A i r * B r j))" by (intro sum.cong refl sum.swap)
  finally show ?thesis by (simp add: sum_distrib_left)
qed

lemma matmul_bilinear:
  assumes "matmul_rel h ell W c rho lam" "mc_k c = mc_heads c * mc_head_dim c" "e < mc_heads c"
  shows "(\<Sum>i<mc_m c. \<Sum>j<mc_n c. of_int (lam ! (e * mc_m c + i)) * of_int (rho ! (e * mc_n c + j)) *
    (product_entry h ell W c e i j - target_entry h ell W c e i j)) = 0"
proof -
  define K k m n w where d: "K = mc_head_dim c" "k = mc_k c" "m = mc_m c" "n = mc_n c" "w = wval h ell W"
  have blk: "(e * K + r) div K = e" "e * K + r < k" if "r < K" for r
    using that assms(2, 3) mult_add_less [of e "mc_heads c" r K] by (simp_all add: d)
  have y: "w (mc_y c) i = (\<Sum>j<n. of_int (rho ! (i div K * n + j)) * w (mc_B c) (b_index (mc_transpose c) k n (mc_heads c) K i j))"
    and u: "w (mc_u c) i = (\<Sum>j<m. of_int (lam ! (i div K * m + j)) * w (mc_A c) (j * k + i))"
    and p: "w (mc_u c) i * w (mc_y c) i = w (mc_p c) i" if "i < k" for i
    using assms(1) that unfolding matmul_rel_def Let_def d by blast+
  have f: "(\<Sum>r<K. w (mc_p c) (e * K + r)) =
      (\<Sum>i<m. \<Sum>j<n. of_int (lam ! (e * m + i)) * of_int (rho ! (e * n + j)) * target_entry h ell W c e i j)"
    using assms(1, 3) unfolding matmul_rel_def Let_def d target_entry_def product_target_def by blast
  have "(\<Sum>r<K. w (mc_p c) (e * K + r)) = (\<Sum>r<K. (\<Sum>i<m. of_int (lam ! (e * m + i)) * w (mc_A c) (i * k + (e * K + r))) *
      (\<Sum>j<n. of_int (rho ! (e * n + j)) * w (mc_B c) (b_index (mc_transpose c) k n (mc_heads c) K (e * K + r) j)))"
  proof (rule sum.cong)
    fix r assume "r \<in> {..<K}"
    then have r: "r < K" by simp
    show "w (mc_p c) (e * K + r) = (\<Sum>i<m. of_int (lam ! (e * m + i)) * w (mc_A c) (i * k + (e * K + r))) *
        (\<Sum>j<n. of_int (rho ! (e * n + j)) * w (mc_B c) (b_index (mc_transpose c) k n (mc_heads c) K (e * K + r) j))"
      using p [OF blk(2) [OF r]] u [OF blk(2) [OF r]] y [OF blk(2) [OF r]] unfolding blk(1) [OF r] by simp
  qed simp
  also have "\<dots> = (\<Sum>i<m. \<Sum>j<n. of_int (lam ! (e * m + i)) * of_int (rho ! (e * n + j)) * product_entry h ell W c e i j)"
    unfolding sum_product_swap by (simp add: product_entry_def d)
  finally show ?thesis using f unfolding right_diff_distrib sum_subtractf d [symmetric] by simp
qed

lemma block_sum:
  assumes "e < H"
  shows "(\<Sum>a<H * m. \<Sum>b<H * n. of_int (lam ! a) * of_int (rho ! b) * (if a div m = e \<and> b div n = e then E (a mod m) (b mod n) else 0)) =
    (\<Sum>i<m. \<Sum>j<n. of_int (lam ! (e * m + i)) * of_int (rho ! (e * n + j)) * E i j :: gl)"
proof -
  have one: "(\<Sum>b<H * n. if b div n = e then g b else 0) = (\<Sum>j<n. g (e * n + j))" for g :: "nat \<Rightarrow> gl" and n
  proof -
    have "(\<Sum>j<n. if (q * n + j) div n = e then g (q * n + j) else 0) = (if q = e then (\<Sum>j<n. g (e * n + j)) else 0)" for q
      by (auto intro!: sum.neutral sum.cong)
    then show ?thesis unfolding sum_lessThan_mult using assms by simp
  qed
  have "(\<Sum>a<H * m. \<Sum>b<H * n. of_int (lam ! a) * of_int (rho ! b) * (if a div m = e \<and> b div n = e then E (a mod m) (b mod n) else 0)) =
      (\<Sum>a<H * m. if a div m = e then (\<Sum>b<H * n. if b div n = e then of_int (lam ! a) * of_int (rho ! b) * E (a mod m) (b mod n) else 0) else 0)"
    by (intro sum.cong refl) (auto intro!: sum.cong sum.neutral)
  then show ?thesis unfolding one by simp
qed

text \<open>
  Property C5 (\<open>freivalds_sound\<close>): the matrix-product claim is sound for late auxiliaries. When one
  entry of the committed target differs from the product of the committed operands, then over coins
  from \<open>S\<close> at most \<open>2 |S|^(N - 1)\<close> of the \<open>|S|^N\<close> challenge vectors admit any choice of the phase-2
  values that meets the claim, \<open>N\<close> being the number of coins.
\<close>

theorem freivalds_sound:
  assumes S: "finite S" "\<forall>r \<in> S. 0 \<le> r \<and> r < FIELD_P"
    and fit: "0 < ell" "claim_fits (MatmulClaim c)" "\<forall>v \<in> set (claim_vars (MatmulClaim c)). placed h ell m v"
    and bad: "e < mc_heads c" "i < mc_m c" "j < mc_n c" "product_entry h ell W c e i j \<noteq> target_entry h ell W c e i j"
  shows "card {(rho, lam). length rho = mc_heads c * mc_n c \<and> set rho \<subseteq> S \<and> length lam = mc_heads c * mc_m c \<and> set lam \<subseteq> S \<and>
      (\<exists>W'. (\<forall>v \<in> {mc_A c, mc_B c, product_target c}. wval h ell W' v = wval h ell W v) \<and> claim_met h ell W' (MatmulClaim c) (MatChal rho lam) bs)}
    \<le> 2 * card S ^ (mc_heads c * mc_n c + mc_heads c * mc_m c - 1)"
proof -
  define H m n where d: "H = mc_heads c" "m = mc_m c" "n = mc_n c"
  have k: "mc_k c = mc_heads c * mc_head_dim c" using fit(2) by (simp add: matmul_ok_def Let_def)
  have met: "claim_met h ell W' (MatmulClaim c) (MatChal rho lam) bs \<longleftrightarrow> matmul_rel h ell W' c rho lam"
    if "length rho = H * n" "length lam = H * m" for W' rho lam
    using claim_met_rel [OF fit(1) _ fit(3), where ch = "MatChal rho lam"] fit(2) that
      matmul_ok_shape [of rho "replicate (mc_heads c * mc_n c) 0" lam "replicate (mc_heads c * mc_m c) 0" c] by (simp add: d)
  define E where "E = (\<lambda>a b. if a div m = e \<and> b div n = e then product_entry h ell W c e (a mod m) (b mod n) - target_entry h ell W c e (a mod m) (b mod n) else 0)"
  let ?B = "{(rho, lam). length rho = H * n \<and> set rho \<subseteq> S \<and> length lam = H * m \<and> set lam \<subseteq> S \<and>
      (\<Sum>a<H * m. \<Sum>b<H * n. of_int (lam ! a) * of_int (rho ! b) * E a b) = 0}"
  have "(\<Sum>a<H * m. \<Sum>b<H * n. of_int (lam ! a) * of_int (rho ! b) * E a b) = 0"
    if W': "\<forall>v \<in> {mc_A c, mc_B c, product_target c}. wval h ell W' v = wval h ell W v" "matmul_rel h ell W' c rho lam" for W' rho lam
  proof -
    have "product_entry h ell W' c = product_entry h ell W c" "target_entry h ell W' c = target_entry h ell W c"
      using W'(1) by (simp_all add: product_entry_def target_entry_def fun_eq_iff)
    then show ?thesis unfolding E_def using matmul_bilinear [OF W'(2) k bad(1)] bad(1) by (subst block_sum) (simp_all add: d)
  qed
  then have sub: "{(rho, lam). length rho = H * n \<and> set rho \<subseteq> S \<and> length lam = H * m \<and> set lam \<subseteq> S \<and>
      (\<exists>W'. (\<forall>v \<in> {mc_A c, mc_B c, product_target c}. wval h ell W' v = wval h ell W v) \<and> claim_met h ell W' (MatmulClaim c) (MatChal rho lam) bs)} \<subseteq> ?B"
    using met by auto
  have fin: "finite ?B"
    by (rule finite_subset [of _ "{xs. set xs \<subseteq> S \<and> length xs = H * n} \<times> {xs. set xs \<subseteq> S \<and> length xs = H * m}"])
      (auto intro!: finite_lists_length_eq S(1) finite_cartesian_product)
  have "E (e * m + i) (e * n + j) \<noteq> 0" using bad(2-4) by (simp add: E_def d)
  then have "card ?B \<le> 2 * card S ^ (H * n + H * m - 1)"
    using bad(1-3) by (intro bilinear_few [OF S, of "e * m + i" _ "e * n + j"]) (simp_all add: d mult_add_less)
  then show ?thesis using card_mono [OF fin sub] unfolding d by linarith
qed

definition toy_rows :: heap where
  "toy_rows = \<lparr>h_row = int, h_alpha = (\<lambda>i. if i = 0 then 4 else 7), h_beta = (\<lambda>_. 0)\<rparr>"

lemma toy_placed [simp]: "i + (len + 1) div 2 \<le> m \<Longrightarrow> placed toy_rows 2 m (toy_v i len ph)"
  by (simp add: placed_def toy_rows_def row_start_def toy_v_def new_variable_def n_rows_def)

theorem freivalds_sound_witness:
  "card {(rho, lam). length rho = 1 \<and> set rho \<subseteq> {0, 1} \<and> length lam = 1 \<and> set lam \<subseteq> {0, 1} \<and>
      (\<exists>W'. (\<forall>v \<in> {toy_v 0 2 1, toy_v 1 2 1, toy_v 2 1 1}. wval toy_rows 2 W' v = wval toy_rows 2 (\<lambda>r i. 1) v) \<and>
        claim_met toy_rows 2 W' (MatmulClaim toy_matmul) (MatChal rho lam) 0)} \<le> 2 * card {0, 1 :: int} ^ (1 + 1 - 1)"
proof -
  have "product_entry toy_rows 2 (\<lambda>r i. 1) toy_matmul 0 0 0 \<noteq> target_entry toy_rows 2 (\<lambda>r i. 1) toy_matmul 0 0 0"
    using gl_eq_iff [of 2 1] by (simp add: product_entry_def target_entry_def toy_matmul_def wval_def FIELD_P_val)
  moreover have "product_target toy_matmul = toy_v 2 1 1" by (simp add: product_target_def toy_matmul_def)
  moreover have "claim_fits (MatmulClaim toy_matmul)" by (simp add: toy_matmul_def matmul_ok_def toy_v_def new_variable_def)
  moreover have "\<forall>v \<in> set (claim_vars (MatmulClaim toy_matmul)). placed toy_rows 2 10 v"
    by (simp add: claim_vars_def toy_matmul_def rescale_fields_def)
  ultimately show ?thesis
    using freivalds_sound [of "{0, 1}" 2 toy_matmul toy_rows 10 0 0 0 "\<lambda>r i. 1" 0] by (simp add: toy_matmul_def FIELD_P_val)
qed

section \<open>Range lookups\<close>

definition at_alpha :: "heap \<Rightarrow> ltable \<Rightarrow> int \<Rightarrow> heap" where
  "at_alpha h t al = h\<lparr>h_alpha := (h_alpha h)(tb_id t := al)\<rparr>"

lemma at_alpha_simps [simp]: "placed (at_alpha h t al) = placed h" "wval (at_alpha h t al) = wval h" "alpha_of (at_alpha h t al) t = al" "beta_of (at_alpha h t al) t = beta_of h t"
  by (simp_all add: at_alpha_def placed_def wval_def row_start_def alpha_of_def beta_of_def fun_eq_iff)

definition lookup_points :: "heap \<Rightarrow> nat \<Rightarrow> witness \<Rightarrow> ltable \<Rightarrow> range_word_claim list \<Rightarrow> (gl \<times> gl) list" where
  "lookup_points h ell W t cs = concat (map (\<lambda>c. map (\<lambda>f. (1, wval h ell W (rw_x c) f)) [0..<rw_length c]) cs) @
     map (\<lambda>j. (- wval h ell W (tb_mult t) j, of_int (tb_T t ! j))) [0..<length (tb_T t)]"

lemma lookup_points_sum:
  "(\<Sum>(w, p)\<leftarrow>lookup_points h ell W t cs. w * g p) =
    (\<Sum>c\<leftarrow>cs. \<Sum>f<rw_length c. g (wval h ell W (rw_x c) f)) - (\<Sum>j<length (tb_T t). wval h ell W (tb_mult t) j * g (of_int (tb_T t ! j)))"
proof -
  have "(\<Sum>(w, p)\<leftarrow>concat (map (\<lambda>c. map (\<lambda>f. (1, wval h ell W (rw_x c) f)) [0..<rw_length c]) cs). w * g p) =
      (\<Sum>c\<leftarrow>cs. \<Sum>f<rw_length c. g (wval h ell W (rw_x c) f))"
    by (induction cs) (simp_all add: comp_def sum_list_map_upt)
  then show ?thesis by (simp add: lookup_points_def comp_def sum_list_map_upt sum_negf)
qed

lemma inverse_eq: "(al - x) * z = 1 \<Longrightarrow> z = inverse (al - x) \<and> al \<noteq> (x :: gl)"
  by (metis diff_self inverse_unique mult_zero_left zero_neq_one)

lemma lookup_identity:
  assumes rel: "\<forall>c \<in> set cs. claim_rel (at_alpha h t al) ell W (RangeWordClaim c) NoChal" "claim_rel (at_alpha h t al) ell W (TableSettlement t) NoChal"
    and t: "tb_TY t = None" "tb_z t = map rw_z cs" "\<forall>c \<in> set cs. rw_table c = t \<and> v_length (rw_z c) = rw_length c"
    and al: "\<forall>j<length (tb_T t). (of_int al :: gl) \<noteq> of_int (tb_T t ! j)"
  shows "(\<Sum>(w, p)\<leftarrow>lookup_points h ell W t cs. w * inverse (of_int al - p)) = 0 \<and>
    (\<forall>c \<in> set cs. \<forall>f<rw_length c. of_int al \<noteq> wval h ell W (rw_x c) f)"
proof -
  have z: "wval h ell W (rw_z c) f = inverse (of_int al - wval h ell W (rw_x c) f) \<and> of_int al \<noteq> wval h ell W (rw_x c) f" if "c \<in> set cs" "f < rw_length c" for c f
    using rel(1) t(3) that by (intro inverse_eq) auto
  have w: "wval h ell W (tb_w t) j = wval h ell W (tb_mult t) j * inverse (of_int al - of_int (tb_T t ! j))" if "j < length (tb_T t)" for j
  proof -
    have "(of_int al - of_int (tb_T t ! j)) * wval h ell W (tb_w t) j = wval h ell W (tb_mult t) j"
      using rel(2) that t(1) by (simp add: table_rel_def table_values_def)
    moreover have "(of_int al - of_int (tb_T t ! j) :: gl) \<noteq> 0" using al that by simp
    ultimately show ?thesis by (metis divide_inverse nonzero_mult_div_cancel_left)
  qed
  have "(\<Sum>z\<leftarrow>tb_z t. \<Sum>f<v_length z. wval h ell W z f) = (\<Sum>c\<leftarrow>cs. \<Sum>f<rw_length c. inverse (of_int al - wval h ell W (rw_x c) f))"
    unfolding t(2) map_map using z t(3) by (intro arg_cong [of _ _ sum_list] map_cong refl) simp
  moreover have "(\<Sum>z\<leftarrow>tb_z t. \<Sum>f<v_length z. wval h ell W z f) = (\<Sum>j<length (tb_T t). wval h ell W (tb_w t) j)"
    using rel(2) by (simp add: table_rel_def)
  ultimately show ?thesis unfolding lookup_points_sum using w z by simp
qed

lemma weight_at_ones_gl: "weight_at (map (\<lambda>x. (1, x)) xs) d = of_nat (length (filter (\<lambda>x. x = d) xs))"
  by (induction xs) (simp_all add: weight_at_def)

lemma lookup_weight:
  assumes "c \<in> set cs" "f < rw_length c" "\<forall>j<length (tb_T t). wval h ell W (rw_x c) f \<noteq> of_int (tb_T t ! j)"
    and few: "sum_list (map rw_length cs) < 2 ^ 32"
  shows "weight_at (lookup_points h ell W t cs) (wval h ell W (rw_x c) f) \<noteq> 0"
proof -
  let ?d = "wval h ell W (rw_x c) f" and ?xs = "concat (map (\<lambda>c. map (wval h ell W (rw_x c)) [0..<rw_length c]) cs)"
  have ones: "concat (map (\<lambda>c. map (\<lambda>f. (1, wval h ell W (rw_x c) f)) [0..<rw_length c]) cs) = map (\<lambda>x. (1, x)) ?xs"
    by (simp add: map_concat comp_def)
  have "?d \<notin> snd ` set (map (\<lambda>j. (- wval h ell W (tb_mult t) j, of_int (tb_T t ! j))) [0..<length (tb_T t)])"
    using assms(3) by auto
  note none = weight_at_none [OF this]
  have "weight_at (lookup_points h ell W t cs) ?d = of_nat (length (filter (\<lambda>x. x = ?d) ?xs))"
    unfolding lookup_points_def weight_at_append none ones weight_at_ones_gl by simp
  moreover have "length ?xs = sum_list (map rw_length cs)" by (simp add: length_concat comp_def)
  moreover have "?d \<in> set ?xs" using assms(1, 2) by force
  then have "filter (\<lambda>x. x = ?d) ?xs \<noteq> []" unfolding filter_empty_conv by blast
  ultimately show ?thesis using few few_nonzero [of "filter (\<lambda>x. x = ?d) ?xs" "length ?xs"] length_filter_le [of "\<lambda>x. x = ?d" ?xs] by simp
qed

text \<open>
  Property C14 (\<open>range_lookup_sound\<close>): the range words of a table and its settlement are sound for late
  auxiliaries. When a committed slot is no entry of the table, fewer than \<open>slots + 2 * entries\<close> values of
  the table's challenge admit any choice of the phase-2 reciprocals that meets the claims.
\<close>

theorem range_lookup_sound:
  assumes t: "tb_TY t = None" "tb_z t = map rw_z cs" "\<forall>c \<in> set cs. rw_table c = t \<and> v_length (rw_z c) = rw_length c"
    and fit: "0 < ell" "claim_fits (TableSettlement t)" "\<forall>c \<in> set (TableSettlement t # map RangeWordClaim cs). \<forall>v \<in> set (claim_vars c). placed h ell m v"
    and few: "sum_list (map rw_length cs) < 2 ^ 32"
    and bad: "c \<in> set cs" "f < rw_length c" "\<forall>j<length (tb_T t). wval h ell W (rw_x c) f \<noteq> of_int (tb_T t ! j)"
  shows "card {al. 0 \<le> al \<and> al < FIELD_P \<and> (\<exists>W'. (\<forall>v \<in> {tb_mult t} \<union> set (map rw_x cs). wval h ell W' v = wval h ell W v) \<and>
      (\<forall>c \<in> set cs. claim_met (at_alpha h t al) ell W' (RangeWordClaim c) NoChal bs) \<and> claim_met (at_alpha h t al) ell W' (TableSettlement t) NoChal bs)}
    < sum_list (map rw_length cs) + 2 * length (tb_T t)"
    (is "card ?A < _")
proof -
  let ?ps = "lookup_points h ell W t cs" and ?Tn = "(\<lambda>v. v mod FIELD_P) ` set (tb_T t)"
  have fin: "finite ?A" by (rule finite_subset [of _ "{0..<FIELD_P}"]) auto
  have met: "claim_met (at_alpha h t al) ell W' (RangeWordClaim c) NoChal bs \<longleftrightarrow> claim_rel (at_alpha h t al) ell W' (RangeWordClaim c) NoChal" if "c \<in> set cs" for c al W'
    using that fit by (intro claim_met_rel [where m = m]) auto
  have settled: "claim_met (at_alpha h t al) ell W' (TableSettlement t) NoChal bs \<longleftrightarrow> claim_rel (at_alpha h t al) ell W' (TableSettlement t) NoChal" for al W'
    using fit by (intro claim_met_rel [where m = m]) auto
  define S where "S = ?A - ?Tn"
  have pts: "(\<Sum>(w, p)\<leftarrow>?ps. w * inverse (of_int al - p)) = 0 \<and> of_int al \<notin> snd ` set ?ps" if al: "al \<in> S" for al
  proof -
    obtain W' where W': "\<forall>v \<in> {tb_mult t} \<union> set (map rw_x cs). wval h ell W' v = wval h ell W v"
      "\<forall>c \<in> set cs. claim_rel (at_alpha h t al) ell W' (RangeWordClaim c) NoChal" "claim_rel (at_alpha h t al) ell W' (TableSettlement t) NoChal"
      using al by (auto simp: S_def met settled simp del: claim_rel.simps)
    have range: "al mod FIELD_P = al" using al by (simp add: S_def)
    have out: "\<forall>j<length (tb_T t). (of_int al :: gl) \<noteq> of_int (tb_T t ! j)"
      using al range by (force simp: S_def gl_eq_iff)
    have "lookup_points h ell W' t cs = ?ps" using W'(1) unfolding lookup_points_def
      by (intro arg_cong2 [of _ _ _ _ "(@)"] arg_cong [of _ _ concat] map_cong refl) simp_all
    then have "(\<Sum>(w, p)\<leftarrow>?ps. w * inverse (of_int al - p)) = 0" and "\<forall>c \<in> set cs. \<forall>f<rw_length c. of_int al \<noteq> wval h ell W (rw_x c) f"
      using lookup_identity [OF W'(2, 3) t out] W'(1) by simp_all
    moreover have "snd ` set ?ps \<subseteq> {p. (\<exists>c \<in> set cs. \<exists>f<rw_length c. p = wval h ell W (rw_x c) f) \<or> (\<exists>j<length (tb_T t). p = of_int (tb_T t ! j))}"
      unfolding lookup_points_def by (auto; blast)
    ultimately show ?thesis using out by blast
  qed
  have "card (of_int ` S :: gl set) < card (snd ` set ?ps)"
  proof (rule pole_roots [where pole = "wval h ell W (rw_x c) f" and ps = ?ps])
    show "weight_at ?ps (wval h ell W (rw_x c) f) \<noteq> 0" by (rule lookup_weight [OF bad few])
    show "wval h ell W (rw_x c) f \<in> snd ` set ?ps" using bad(1, 2) by (force simp: lookup_points_def)
  qed (use pts fin in \<open>auto simp: S_def\<close>)
  moreover have "inj_on (of_int :: int \<Rightarrow> gl) S" by (auto simp: inj_on_def S_def intro: gl_inj_canonical)
  moreover have "card (snd ` set ?ps) \<le> length ?ps" by (metis card_image_le List.finite_set card_length order_trans)
  moreover have "length ?ps = sum_list (map rw_length cs) + length (tb_T t)" by (simp add: lookup_points_def length_concat comp_def)
  moreover have "card ?A \<le> card S + card ?Tn" using card_Un_le [of S ?Tn] card_mono [of "S \<union> ?Tn" ?A] fin by (force simp: S_def)
  moreover have "card ?Tn \<le> length (tb_T t)" by (metis card_image_le List.finite_set card_length order_trans)
  ultimately show ?thesis by (simp add: card_image)
qed

definition toy_word :: range_word_claim where
  "toy_word = \<lparr>rw_x = toy_v 9 2 1, rw_z = toy_v 8 2 2, rw_table = toy_table, rw_length = 2, rw_local = None\<rparr>"

theorem range_lookup_sound_witness:
  "card {al. 0 \<le> al \<and> al < FIELD_P \<and> (\<exists>W'. (\<forall>v \<in> {tb_mult toy_table} \<union> set (map rw_x [toy_word]). wval toy_rows 2 W' v = wval toy_rows 2 (\<lambda>r i. 5) v) \<and>
      (\<forall>c \<in> set [toy_word]. claim_met (at_alpha toy_rows toy_table al) 2 W' (RangeWordClaim c) NoChal 0) \<and>
      claim_met (at_alpha toy_rows toy_table al) 2 W' (TableSettlement toy_table) NoChal 0)} < sum_list (map rw_length [toy_word]) + 2 * length (tb_T toy_table)"
proof (rule range_lookup_sound)
  show "\<forall>j<length (tb_T toy_table). wval toy_rows 2 (\<lambda>r i. 5) (rw_x toy_word) 0 \<noteq> of_int (tb_T toy_table ! j)"
  proof clarify
    fix j assume "j < length (tb_T toy_table)" "wval toy_rows 2 (\<lambda>r i. 5) (rw_x toy_word) 0 = of_int (tb_T toy_table ! j)"
    then have "j \<in> {0, 1, 2}" "(5 :: int) mod FIELD_P = (tb_T toy_table ! j) mod FIELD_P"
      using gl_eq_iff [of 5 "tb_T toy_table ! j"] by (auto simp: toy_table_def wval_def)
    then show False by (auto simp: toy_table_def FIELD_P_val)
  qed
  show "\<forall>c \<in> set (TableSettlement toy_table # map RangeWordClaim [toy_word]). \<forall>v \<in> set (claim_vars c). placed toy_rows 2 20 v"
    by (simp add: claim_vars_def toy_table_def toy_word_def)
qed (simp_all add: toy_table_def toy_word_def toy_v_def new_variable_def)

section \<open>The ranged rescale\<close>

lemma rescale_floor:
  assumes rel: "rescale_rel h ell W c r L" "f < L"
    and size: "rp_bits r + rp_width r \<le> 62" "0 < rp_width r"
    and low: "wval h ell W (rp_low r) f = of_int l" "0 \<le> l" "l < 2 ^ rp_bits r"
    and shifted: "wval h ell W (rp_shifted r) f = of_int s" "0 \<le> s" "s < 2 ^ rp_width r"
    and full: "wval h ell W (rp_full r) f = of_int F" "- (2 ^ (rp_bits r + rp_width r - 1)) \<le> F" "F < 2 ^ (rp_bits r + rp_width r - 1)"
  shows "wval h ell W c f = of_int (F div 2 ^ rp_bits r) \<and> l = F mod 2 ^ rp_bits r"
proof -
  define b w B where d: "b = rp_bits r" "w = rp_width r" "B = (2 :: int) ^ (b + w - 1)"
  define q where "q = s - 2 ^ (w - 1)"
  have w: "b + w - 1 = b + (w - 1)" "(2 :: int) ^ w = 2 * 2 ^ (w - 1)" using size(2) by (simp_all add: d flip: power_Suc)
  have c: "wval h ell W c f = of_int q"
    using rel shifted(1) unfolding rescale_rel_def q_def d by (simp add: algebra_simps)
  have q: "- (2 ^ (w - 1)) \<le> q" "q \<le> 2 ^ (w - 1) - 1" using shifted(2, 3) w(2) by (simp_all add: q_def d)
  have B: "B = 2 ^ b * 2 ^ (w - 1)" unfolding d(3) w(1) power_add ..
  have lo: "- B \<le> 2 ^ b * q + l" using mult_left_mono [OF q(1), of "2 ^ b"] low(2) unfolding B by simp
  have "2 ^ b * q + 2 ^ b \<le> 2 ^ b * 2 ^ (w - 1)" using mult_left_mono [OF q(2), of "2 ^ b"] by (simp add: right_diff_distrib)
  then have hi: "2 ^ b * q + l < B" using low(3) unfolding B d(1) by linarith
  have "B \<le> 2 ^ 61" unfolding d(3) by (rule power_increasing) (use size d in simp_all)
  then have "\<bar>F - (2 ^ b * q + l)\<bar> < FIELD_P" using lo hi full(2, 3) by (simp add: d FIELD_P_val)
  moreover have "(of_int F :: gl) = of_int (2 ^ b * q + l)" using rel c low(1) full(1) unfolding rescale_rel_def d by auto
  then have "FIELD_P dvd F - (2 ^ b * q + l)" unfolding gl_eq_iff by (simp only: mod_eq_dvd_iff)
  ultimately have "F = 2 ^ b * q + l" using zdvd_imp_le [of FIELD_P "\<bar>F - (2 ^ b * q + l)\<bar>"] by fastforce
  then have "F div 2 ^ b = q \<and> F mod 2 ^ b = l" using low(2, 3) by (simp add: d)
  then show ?thesis using c by (simp add: d)
qed

text \<open>
  Property C15 (\<open>rescale_exact\<close>): a ranged fixed-point product is the signed floor division. When a
  compiled Hadamard claim with a rescale holds, the low part is in \<open>[0, 2^bits)\<close>, the shifted part in
  \<open>[0, 2^width)\<close> and the factors are residues of integers whose product has at most
  \<open>bits + width <= 62\<close> signed bits, then the output is the product divided by \<open>2^bits\<close>, rounded down,
  and the low part is the remainder.
\<close>

theorem rescale_exact:
  assumes fit: "0 < ell" "claim_fits (HadamardClaim c)" "\<forall>v \<in> set (claim_vars (HadamardClaim c)). placed h ell m v"
    and met: "claim_met h ell W (HadamardClaim c) NoChal bs" "hc_rescale c = Some r" "f < hc_length c"
    and size: "rp_bits r + rp_width r \<le> 62"
    and low: "wval h ell W (rp_low r) f = of_int l" "0 \<le> l" "l < 2 ^ rp_bits r"
    and shifted: "wval h ell W (rp_shifted r) f = of_int s" "0 \<le> s" "s < 2 ^ rp_width r"
    and factors: "wval h ell W (hc_a c) f = of_int x" "wval h ell W (hc_b c) f = of_int y"
      "- (2 ^ (rp_bits r + rp_width r - 1)) \<le> x * y" "x * y < 2 ^ (rp_bits r + rp_width r - 1)"
  shows "wval h ell W (hc_c c) f = of_int (x * y div 2 ^ rp_bits r) \<and> l = x * y mod 2 ^ rp_bits r"
proof -
  have rel: "claim_rel h ell W (HadamardClaim c) NoChal" using claim_met_rel [OF fit(1) _ fit(3)] fit(2) met(1) by simp
  then have "rescale_rel h ell W (hc_c c) r (hc_length c)" "wval h ell W (rp_full r) f = of_int (x * y)"
    using met(2, 3) factors(1, 2) by auto
  moreover have "0 < rp_width r" using fit(2) met(2) by simp
  ultimately show ?thesis using met(3) size low shifted factors(3, 4) by (intro rescale_floor) simp_all
qed

definition toy_part :: rescale_part where
  "toy_part = \<lparr>rp_bits = 2, rp_width = 4, rp_full = toy_v 0 1 1, rp_low = toy_v 1 1 1, rp_shifted = toy_v 2 1 1, rp_z_low = toy_v 3 1 2,
     rp_z_shifted = toy_v 4 1 2, rp_range = toy_table, rp_output = toy_table\<lparr>tb_id := 1\<rparr>\<rparr>"

definition toy_W :: witness where
  "toy_W = (\<lambda>r i. if r = 0 \<or> r = 6 then -5 else if r = 1 then 3 else if r = 2 then 6 else if r = 5 then -2 else 1)"

definition toy_hadamard :: hadamard_claim where
  "toy_hadamard = \<lparr>hc_a = toy_v 6 1 1, hc_b = toy_v 7 1 1, hc_c = toy_v 5 1 1, hc_length = 1, hc_rescale = Some toy_part\<rparr>"

theorem rescale_exact_witness:
  "claim_met toy_rows 2 toy_W (HadamardClaim toy_hadamard) NoChal 0 \<and>
   wval toy_rows 2 toy_W (toy_v 5 1 1) 0 = of_int ((- 5) * 1 div 2 ^ rp_bits toy_part) \<and> 3 = (- 5) * 1 mod (2 :: int) ^ rp_bits toy_part"
proof -
  note d = toy_rows_def toy_W_def toy_part_def toy_v_def new_variable_def wval_def row_start_def alpha_of_def toy_table_def toy_hadamard_def
  have fit: "claim_fits (HadamardClaim toy_hadamard)" by (simp add: d)
  have pl: "\<forall>v \<in> set (claim_vars (HadamardClaim toy_hadamard)). placed toy_rows 2 20 v"
    by (simp add: claim_vars_def toy_hadamard_def toy_part_def rescale_fields_def)
  have "claim_rel toy_rows 2 toy_W (HadamardClaim toy_hadamard) NoChal" by (simp add: rescale_rel_def d)
  then have met: "claim_met toy_rows 2 toy_W (HadamardClaim toy_hadamard) NoChal 0" using claim_met_rel [OF _ _ pl] fit by simp
  have "wval toy_rows 2 toy_W (hc_c toy_hadamard) 0 = of_int ((- 5) * 1 div 2 ^ rp_bits toy_part) \<and> 3 = (- 5) * 1 mod (2 :: int) ^ rp_bits toy_part"
    by (rule rescale_exact [OF _ fit pl met, where s = 6 and r = toy_part]) (simp_all add: d)
  then show ?thesis using met by (simp add: toy_hadamard_def)
qed

end
