(* ===== verification/Stream_Bands.thy ===== *)
theory Stream_Bands
  imports Claims_Sound "HOL-Library.Product_Lexorder"
begin

text \<open>
  The streaming prover's band index (\<open>_StreamingPackets\<close>), its adapter for the eager per-row lists
  (\<open>_EagerBands\<close>) and the fold of one chunk of rows (\<open>_compute_q_lin_inner_chunk\<close>, up to the
  interpolation of the folded rows), with the row maps. Rows are integers, as in the packets.
\<close>

section \<open>The index\<close>

fun band_kind :: "band \<Rightarrow> nat" where
  "band_kind (L2_IdentityScalar bs rs L c) = 0"
| "band_kind (L2_PerSlotVector bs rs L v) = 1"
| "band_kind (L2_RowSumPerSlotVector bs rs L st v) = 2"
| "band_kind (L2_StrideOneToManyScalar bs rs L st c) = 3"
| "band_kind (L2_StrideManyToOneScalar bs rs L st c) = 4"
| "band_kind (L2_TransposeO2MScalar bs rs L r c f k) = 5"
| "band_kind (L2_CausalFilteredIdScalar bs rs L M H c) = 6"
| "band_kind (L2_CausalFilteredC2Stride bs rs B H c) = 7"
| "band_kind (L2_CausalMaskedIdScalar bs rs L M H c) = 8"
| "band_kind (L2_EmbedE bs rs d ts) = 9"
| "band_kind (L2_FreivaldsLF1B bs rs k n H K tr v) = 10"
| "band_kind (L2_FreivaldsLF2A bs rs k m H K v) = 11"
| "band_kind (L2_FreivaldsLF3C bs rs m n H L l r) = 12"
| "band_kind (L2_RoPEXRot bs rs S H d L) = 13"
| "band_kind (L2_RoPEX bs rs S H d L c s) = 14"

type_synonym key = "nat \<times> nat \<times> int"
type_synonym band_range = "band \<times> int \<times> int"

definition band_key :: "band \<Rightarrow> key" where
  "band_key b = (band_kind b, b_base b, b_row b)"

fun item_range :: "item \<Rightarrow> band_range" where
  "item_range (PktAt r b) = (b, r, r + 1)"
| "item_range (PktRange b lo hi) = (b, lo, hi)"

fun index_item :: "(key \<Rightarrow> nat option) \<times> band_range list \<Rightarrow> item \<Rightarrow> (key \<Rightarrow> nat option) \<times> band_range list" where
  "index_item (seen, bands) it =
     (case item_range it of (b, rs, re) \<Rightarrow>
        case seen (band_key b) of
          None \<Rightarrow> (seen(band_key b \<mapsto> length bands), bands @ [(b, rs, re)])
        | Some i \<Rightarrow> (case bands ! i of (b0, rs0, re0) \<Rightarrow>
            (seen, bands[i := (b0, if rs < rs0 then rs else rs0, if re > re0 then re else re0)])))"

definition index_bands :: "item list \<Rightarrow> band_range list" where
  "index_bands items = snd (foldl index_item (\<lambda>_. None, []) items)"

text \<open>\<open>_build_row_lookup\<close>: the templates of each row range, the ranges sorted.\<close>

definition build_row_lookup :: "band_range list \<Rightarrow> ((int \<times> int) \<times> band list) list" where
  "build_row_lookup bands = map (\<lambda>k. (k, map fst (filter (\<lambda>b. snd b = k) bands))) (sorted_list_of_set (set (map snd bands)))"

function bisect_loop :: "int list \<Rightarrow> int \<Rightarrow> nat \<Rightarrow> nat \<Rightarrow> nat" where
  "bisect_loop a x lo hi = (if lo < hi then (let mid = (lo + hi) div 2 in
     if x < a ! mid then bisect_loop a x lo mid else bisect_loop a x (Suc mid) hi) else lo)"
  by pat_completeness auto
termination by (relation "measure (\<lambda>(a, x, lo, hi). hi - lo)") auto

declare bisect_loop.simps [simp del]

definition bisect_right :: "int list \<Rightarrow> int \<Rightarrow> nat" where
  "bisect_right a x = bisect_loop a x 0 (length a)"

definition bands_overlapping :: "((int \<times> int) \<times> band list) list \<Rightarrow> int \<Rightarrow> int \<Rightarrow> (band list \<times> int \<times> int) list" where
  "bands_overlapping lookup lo hi =
     map (\<lambda>(k, ts). (ts, k)) (takeWhile (\<lambda>(k, ts). fst k < hi) (drop (bisect_right (map (\<lambda>(k, ts). snd k) lookup) lo) lookup))"

definition eager_overlapping :: "band list list \<Rightarrow> nat \<Rightarrow> nat \<Rightarrow> (band list \<times> int \<times> int) list" where
  "eager_overlapping per_row lo hi = map (\<lambda>r. (per_row ! r, int r, int r + 1)) (filter (\<lambda>r. per_row ! r \<noteq> []) [lo..<min hi (length per_row)])"

section \<open>The fold of a chunk\<close>

definition lower_check :: "band \<Rightarrow> unit result" where
  "lower_check b = (case b of L2_EmbedE bs rs d ts \<Rightarrow> if d = 0 then Inl ZeroDivisionError else Inr () | _ \<Rightarrow> Inr ())"

definition add_at :: "int list \<Rightarrow> nat \<Rightarrow> int \<Rightarrow> int list" where
  "add_at acc q v = acc[q := (acc ! q + v) mod FIELD_P]"

definition fold_window :: "(nat \<Rightarrow> int) \<Rightarrow> nat \<Rightarrow> int \<Rightarrow> int \<Rightarrow> int \<Rightarrow> int \<Rightarrow> int list \<Rightarrow> band \<Rightarrow> int list result" where
  "fold_window chal ell lo hi rs re acc b =
     rbind (lower_check b) (\<lambda>_.
       let r_lo = max rs lo; r_hi = min re hi;
           flat_lo = (r_lo - b_row b) * int ell; flat_hi = min ((r_hi - b_row b) * int ell) (int (launch_len b));
           n_sl = flat_hi - flat_lo; out_off = (r_lo - lo) * int ell
       in if n_sl \<le> 0 then Inr acc
          else if \<not> out_off + n_sl \<le> int (length acc) then Inl AssertionError
          else rbind (rmap (\<lambda>t. launch ell chal b (nat (flat_lo + int t))) [0..<nat n_sl]) (\<lambda>vs.
            Inr (foldl (\<lambda>a t. add_at a (nat (out_off + int t)) (vs ! t)) acc [0..<nat n_sl])))"

fun fold_templates :: "(nat \<Rightarrow> int) \<Rightarrow> nat \<Rightarrow> int \<Rightarrow> int \<Rightarrow> int \<Rightarrow> int \<Rightarrow> int list \<Rightarrow> band list \<Rightarrow> int list result" where
  "fold_templates chal ell lo hi rs re acc [] = Inr acc"
| "fold_templates chal ell lo hi rs re acc (b # bs) = rbind (fold_window chal ell lo hi rs re acc b) (\<lambda>a. fold_templates chal ell lo hi rs re a bs)"

fun fold_overlaps :: "(nat \<Rightarrow> int) \<Rightarrow> nat \<Rightarrow> int \<Rightarrow> int \<Rightarrow> int list \<Rightarrow> (band list \<times> int \<times> int) list \<Rightarrow> int list result" where
  "fold_overlaps chal ell lo hi acc [] = Inr acc"
| "fold_overlaps chal ell lo hi acc ((ts, rs, re) # os) = rbind (fold_templates chal ell lo hi rs re acc ts) (\<lambda>a. fold_overlaps chal ell lo hi a os)"

definition chunk_rta :: "(nat \<Rightarrow> int) \<Rightarrow> nat \<Rightarrow> int \<Rightarrow> int \<Rightarrow> (band list \<times> int \<times> int) list \<Rightarrow> int list result" where
  "chunk_rta chal ell lo hi overlaps = fold_overlaps chal ell lo hi (replicate (nat (hi - lo) * ell) 0) overlaps"

section \<open>One window\<close>

text \<open>What a band adds to the slot \<open>s\<close> of row \<open>r\<close>: its documented terms, on the slots it covers.\<close>

definition contrib :: "(nat \<Rightarrow> int) \<Rightarrow> nat \<Rightarrow> band \<Rightarrow> int \<Rightarrow> nat \<Rightarrow> int" where
  "contrib chal ell b r s = (let f = (r - b_row b) * int ell + int s in
     if 0 \<le> f \<and> f < int (launch_len b) then terms_value chal (band_terms ell b (nat f)) else 0)"

definition residues :: "int list \<Rightarrow> bool" where
  "residues acc \<longleftrightarrow> (\<forall>v \<in> set acc. 0 \<le> v \<and> v < FIELD_P)"

lemma add_run:
  "k + n \<le> length acc \<Longrightarrow> length (foldl (\<lambda>a t. add_at a (k + t) (v t)) acc [0..<n]) = length acc \<and>
   (\<forall>q. foldl (\<lambda>a t. add_at a (k + t) (v t)) acc [0..<n] ! q = (if k \<le> q \<and> q < k + n then (acc ! q + v (q - k)) mod FIELD_P else acc ! q))"
proof (induction n)
  case (Suc n)
  then show ?case by (auto simp: add_at_def nth_list_update)
qed simp

lemma residues_add: "residues acc \<Longrightarrow> residues (add_at acc q v)"
  unfolding residues_def add_at_def by (auto dest!: subsetD [OF set_update_subset_insert] simp: FIELD_P_val)

lemma residues_run: "residues acc \<Longrightarrow> residues (foldl (\<lambda>a t. add_at a (k t) (v t)) acc ts)"
  by (rule foldl_invariant) (simp_all add: residues_add)

text \<open>A step of the fold adds \<open>g q\<close> at the slot \<open>q\<close>.\<close>

definition adds :: "int list \<Rightarrow> (nat \<Rightarrow> int) \<Rightarrow> int list result \<Rightarrow> bool" where
  "adds acc g r \<longleftrightarrow> (\<exists>acc'. r = Inr acc' \<and> length acc' = length acc \<and> residues acc' \<and> (\<forall>q<length acc. acc' ! q mod FIELD_P = (acc ! q + g q) mod FIELD_P))"

lemma adds_refl: "residues acc \<Longrightarrow> (\<And>q. q < length acc \<Longrightarrow> g q = 0) \<Longrightarrow> adds acc g (Inr acc)"
  by (simp add: adds_def)

lemma adds_bind:
  assumes "adds acc g r" "\<And>acc'. length acc' = length acc \<Longrightarrow> residues acc' \<Longrightarrow> adds acc' g' (k acc')"
  shows "adds acc (\<lambda>q. g q + g' q) (rbind r k)"
proof -
  obtain a where a: "r = Inr a" "length a = length acc" "residues a" "\<forall>q<length acc. a ! q mod FIELD_P = (acc ! q + g q) mod FIELD_P"
    using assms(1) by (auto simp: adds_def)
  obtain a' where a': "k a = Inr a'" "length a' = length a" "residues a'" "\<forall>q<length a. a' ! q mod FIELD_P = (a ! q + g' q) mod FIELD_P"
    using assms(2) [OF a(2, 3)] by (auto simp: adds_def)
  have "a' ! q mod FIELD_P = (acc ! q + (g q + g' q)) mod FIELD_P" if "q < length acc" for q
    using a(2, 4) a'(4) that by (metis add.assoc mod_add_left_eq)
  then show ?thesis using a a' by (simp add: adds_def)
qed

lemma window_cover:
  fixes lo hi rs re br :: int and ell A D n q L :: nat
  assumes ell: "0 < ell" and A: "max rs lo = lo + int A" and D: "max rs lo = br + int D"
    and n: "n = nat (min ((min re hi - br) * int ell) (int L) - int D * int ell)" and q: "lo + int (q div ell) < hi"
  shows "(A * ell \<le> q \<and> q < A * ell + n) \<longleftrightarrow> (rs \<le> lo + int (q div ell) \<and> lo + int (q div ell) < re \<and>
      0 \<le> (lo + int (q div ell) - br) * int ell + int (q mod ell) \<and> (lo + int (q div ell) - br) * int ell + int (q mod ell) < int L)" (is "?l \<longleftrightarrow> ?r")
    and "A * ell \<le> q \<and> q < A * ell + n \<Longrightarrow> nat ((lo + int (q div ell) - br) * int ell + int (q mod ell)) = D * ell + (q - A * ell)"
proof -
  define Q s where d: "Q = q div ell" "s = q mod ell"
  have q': "q = Q * ell + s" "s < ell" using ell by (simp_all add: d)
  have ge: "A * ell \<le> q \<longleftrightarrow> A \<le> Q" using q' ell by (metis d(1) less_eq_div_iff_mult_less_eq)
  have f: "(lo + int Q - br) * int ell + int s = int (D * ell + (q - A * ell))" if "A \<le> Q"
  proof -
    define e where "e = Q - A"
    have e: "Q = A + e" using that by (simp add: e_def)
    have "lo - br = int D - int A" using A D by linarith
    then have eq: "lo + int Q - br = int (D + e)" using e by linarith
    have "q - A * ell = e * ell + s" using q'(1) e by (simp add: distrib_right)
    then show ?thesis unfolding eq by (simp add: distrib_right)
  qed
  have re: "(min re hi - br) * int ell > int (D * ell + (q - A * ell)) \<longleftrightarrow> lo + int Q < min re hi" if "A \<le> Q"
  proof -
    have "int (D * ell + (q - A * ell)) = (lo + int Q - br) * int ell + int s" using f [OF that] by simp
    moreover have "(lo + int Q - br) * int ell + int s < (min re hi - br) * int ell \<longleftrightarrow> lo + int Q - br < min re hi - br"
    proof
      assume "(lo + int Q - br) * int ell + int s < (min re hi - br) * int ell"
      then have "(lo + int Q - br) * int ell < (min re hi - br) * int ell" by linarith
      then show "lo + int Q - br < min re hi - br" using ell by (simp add: mult_less_cancel_right)
    next
      assume "lo + int Q - br < min re hi - br"
      then have "(lo + int Q - br + 1) * int ell \<le> (min re hi - br) * int ell" by (intro mult_right_mono) simp_all
      then show "(lo + int Q - br) * int ell + int s < (min re hi - br) * int ell" using q'(2) by (simp add: distrib_right)
    qed
    ultimately show ?thesis by simp
  qed
  have lt: "q < A * ell + n \<longleftrightarrow> lo + int Q < re \<and> int (D * ell + (q - A * ell)) < int L" if "A \<le> Q"
  proof -
    have "q < A * ell + n \<longleftrightarrow> q - A * ell < n" using that ge by linarith
    also have "\<dots> \<longleftrightarrow> int (D * ell + (q - A * ell)) < min ((min re hi - br) * int ell) (int L)" unfolding n by (simp add: zless_nat_eq_int_zless algebra_simps)
    also have "\<dots> \<longleftrightarrow> lo + int Q < min re hi \<and> int (D * ell + (q - A * ell)) < int L" using re [OF that] by (simp only: min_less_iff_conj)
    finally show ?thesis using q by (simp add: d)
  qed
  show "?l \<longleftrightarrow> ?r"
  proof (cases "A \<le> Q")
    case True
    then have "rs \<le> lo + int Q" using A by linarith
    then show ?thesis using True ge lt f unfolding d [symmetric] by (simp del: of_nat_add of_nat_mult of_nat_diff)
  next
    case False
    then have "\<not> rs \<le> lo + int Q" using A by linarith
    then show ?thesis using False ge unfolding d [symmetric] by simp
  qed
  show "nat ((lo + int (q div ell) - br) * int ell + int (q mod ell)) = D * ell + (q - A * ell)" if ?l
    using f ge that unfolding d [symmetric] by (simp del: of_nat_add of_nat_mult of_nat_diff)
qed

lemma lower_ok: "band_ok ell b \<Longrightarrow> lower_check b = Inr ()"
  by (cases b) (simp_all add: lower_check_def)

lemma rmap_launch:
  assumes "band_ok ell b" "\<And>t. t < n \<Longrightarrow> f t < launch_len b"
  shows "rmap (\<lambda>t. launch ell chal b (f t)) [0..<n] = Inr (map (\<lambda>t. terms_value chal (band_terms ell b (f t))) [0..<n])"
  by (rule rmap_Inr_map) (use assms lowering_exact in auto)

lemma window_adds:
  assumes ell: "0 < ell" and b: "band_ok ell b" "b_row b \<le> rs" and acc: "residues acc" "length acc = nat (hi - lo) * ell"
  shows "adds acc (\<lambda>q. if rs \<le> lo + int (q div ell) \<and> lo + int (q div ell) < re then contrib chal ell b (lo + int (q div ell)) (q mod ell) else 0)
    (fold_window chal ell lo hi rs re acc b)"
proof -
  define A D where d: "A = nat (max rs lo - lo)" "D = nat (max rs lo - b_row b)"
  have A: "max rs lo = lo + int A" and D: "max rs lo = b_row b + int D" using b(2) unfolding d by linarith+
  define n where "n = nat (min ((min re hi - b_row b) * int ell) (int (launch_len b)) - int D * int ell)"
  let ?g = "\<lambda>q. if rs \<le> lo + int (q div ell) \<and> lo + int (q div ell) < re then contrib chal ell b (lo + int (q div ell)) (q mod ell) else 0"
  have row: "lo + int (q div ell) < hi" if "q < length acc" for q
  proof -
    have "q div ell < nat (hi - lo)" using that acc(2) by (simp add: less_mult_imp_div_less)
    then show ?thesis by linarith
  qed
  note cover = window_cover [OF ell A D n_def row]
  have g: "?g q = (if A * ell \<le> q \<and> q < A * ell + n then terms_value chal (band_terms ell b (D * ell + (q - A * ell))) else 0)" if "q < length acc" for q
    using cover [OF that] by (auto simp: contrib_def Let_def)
  have flat: "(max rs lo - b_row b) * int ell = int D * int ell" "(max rs lo - lo) * int ell = int (A * ell)" using A D by simp_all
  show ?thesis
  proof (cases "n = 0")
    case True
    then have "fold_window chal ell lo hi rs re acc b = Inr acc"
      unfolding fold_window_def Let_def flat using lower_ok [OF b(1)] by (simp add: n_def)
    moreover have "?g q = 0" if "q < length acc" for q using g [OF that] True by simp
    ultimately show ?thesis using adds_refl [OF acc(1), of ?g] by simp
  next
    case False
    let ?n_sl = "min ((min re hi - b_row b) * int ell) (int (launch_len b)) - int D * int ell"
    have n: "?n_sl = int n" using False unfolding n_def by linarith
    have len: "A * ell + n \<le> length acc"
    proof -
      have "int D * int ell + int n \<le> (min re hi - b_row b) * int ell" using n by linarith
      also have "\<dots> \<le> (hi - b_row b) * int ell" by (intro mult_right_mono) simp_all
      finally have "int n \<le> (hi - b_row b - int D) * int ell" by (simp add: left_diff_distrib)
      also have "hi - b_row b - int D = hi - lo - int A" using A D by linarith
      finally have le: "int A * int ell + int n \<le> (hi - lo) * int ell" by (simp add: left_diff_distrib)
      then have "0 < (hi - lo) * int ell" using False by (smt (verit) of_nat_0_less_iff mult_nonneg_nonneg of_nat_0_le_iff gr0I)
      then have "0 < hi - lo" using ell by (simp add: zero_less_mult_iff)
      then show ?thesis using le unfolding acc(2) by (metis int_nat_eq of_nat_add of_nat_le_iff of_nat_mult order_less_imp_le)
    qed
    have ll: "D * ell + t < launch_len b" if "t < n" for t
    proof -
      have "int (D * ell + t) < int (launch_len b)" using that n unfolding of_nat_add of_nat_mult by linarith
      then show ?thesis by (simp only: of_nat_less_iff)
    qed
    have launches: "rmap (\<lambda>t. launch ell chal b (nat (int D * int ell + int t))) [0..<n] = Inr (map (\<lambda>t. terms_value chal (band_terms ell b (D * ell + t))) [0..<n])"
      using rmap_launch [OF b(1) ll] by (simp add: nat_add_distrib nat_mult_distrib)
    define acc' where "acc' = foldl (\<lambda>a t. add_at a (A * ell + t) (terms_value chal (band_terms ell b (D * ell + t)))) acc [0..<n]"
    have eq: "fold_window chal ell lo hi rs re acc b = Inr acc'"
    proof -
      have "foldl (\<lambda>a t. add_at a (nat (int (A * ell) + int t)) (map (\<lambda>t. terms_value chal (band_terms ell b (D * ell + t))) [0..<n] ! t)) acc [0..<n] = acc'"
        unfolding acc'_def by (rule foldl_cong) (simp_all add: nat_int_add del: of_nat_mult)
      moreover have "int (A * ell) + int n \<le> int (length acc)" using len by (simp del: of_nat_mult)
      ultimately show ?thesis unfolding fold_window_def Let_def flat n using False launches
        by (simp add: lower_ok [OF b(1)] del: of_nat_mult)
    qed
    have run: "length acc' = length acc" "\<forall>q. acc' ! q = (if A * ell \<le> q \<and> q < A * ell + n then (acc ! q + terms_value chal (band_terms ell b (D * ell + (q - A * ell)))) mod FIELD_P else acc ! q)"
      using add_run [OF len, where v = "\<lambda>t. terms_value chal (band_terms ell b (D * ell + t))"] unfolding acc'_def by simp_all
    have "residues acc'" unfolding acc'_def by (rule residues_run) (rule acc(1))
    then show ?thesis unfolding adds_def eq using run g by auto
  qed
qed

section \<open>The fold of the overlapping bands\<close>

definition range_val :: "(nat \<Rightarrow> int) \<Rightarrow> nat \<Rightarrow> int \<Rightarrow> nat \<Rightarrow> band_range \<Rightarrow> int" where
  "range_val chal ell lo q = (\<lambda>(b, rs, re). if rs \<le> lo + int (q div ell) \<and> lo + int (q div ell) < re
     then contrib chal ell b (lo + int (q div ell)) (q mod ell) else 0)"

definition flat :: "(band list \<times> int \<times> int) list \<Rightarrow> band_range list" where
  "flat os = concat (map (\<lambda>(ts, k). map (\<lambda>b. (b, k)) ts) os)"

definition on_rows :: "nat \<Rightarrow> band_range list \<Rightarrow> bool" where
  "on_rows ell bs \<longleftrightarrow> (\<forall>(b, rs, re) \<in> set bs. band_ok ell b \<and> b_row b \<le> rs)"

lemma templates_add:
  assumes "0 < ell" "on_rows ell (map (\<lambda>b. (b, rs, re)) ts)" "residues acc" "length acc = nat (hi - lo) * ell"
  shows "adds acc (\<lambda>q. \<Sum>b\<leftarrow>ts. range_val chal ell lo q (b, rs, re)) (fold_templates chal ell lo hi rs re acc ts)"
  using assms(2-4)
proof (induction ts arbitrary: acc)
  case (Cons b ts)
  have "adds acc (\<lambda>q. range_val chal ell lo q (b, rs, re)) (fold_window chal ell lo hi rs re acc b)"
    unfolding range_val_def prod.case using Cons.prems by (intro window_adds [OF assms(1)]) (simp_all add: on_rows_def)
  then show ?case unfolding fold_templates.simps list.map sum_list.Cons
    using Cons.prems by (intro adds_bind Cons.IH) (simp_all add: on_rows_def)
qed (simp add: adds_refl)

lemma overlaps_add:
  assumes "0 < ell" "on_rows ell (flat os)" "residues acc" "length acc = nat (hi - lo) * ell"
  shows "adds acc (\<lambda>q. \<Sum>x\<leftarrow>flat os. range_val chal ell lo q x) (fold_overlaps chal ell lo hi acc os)"
  using assms(2-4)
proof (induction os arbitrary: acc)
  case Nil
  then show ?case by (simp add: adds_refl flat_def)
next
  case (Cons o1 os)
  obtain ts rs re where o1: "o1 = (ts, rs, re)" by (cases o1)
  have fl: "flat (o1 # os) = map (\<lambda>b. (b, rs, re)) ts @ flat os" by (simp add: flat_def o1)
  then have ok: "on_rows ell (map (\<lambda>b. (b, rs, re)) ts)" "on_rows ell (flat os)" using Cons.prems(1) by (auto simp: on_rows_def)
  have "adds acc (\<lambda>q. (\<Sum>b\<leftarrow>ts. range_val chal ell lo q (b, rs, re)) + (\<Sum>x\<leftarrow>flat os. range_val chal ell lo q x)) (fold_overlaps chal ell lo hi acc (o1 # os))"
    unfolding o1 fold_overlaps.simps using templates_add [OF assms(1) ok(1) Cons.prems(2, 3)]
    by (rule adds_bind) (use Cons.IH [OF ok(2)] Cons.prems(3) in simp)
  then show ?case by (simp add: fl comp_def)
qed

lemma chunk_value:
  assumes "0 < ell" "on_rows ell (flat os)"
  shows "chunk_rta chal ell lo hi os = Inr (map (\<lambda>q. (\<Sum>x\<leftarrow>flat os. range_val chal ell lo q x) mod FIELD_P) [0..<nat (hi - lo) * ell])"
proof -
  let ?z = "replicate (nat (hi - lo) * ell) (0 :: int)"
  have "residues ?z" by (auto simp: residues_def FIELD_P_val)
  then obtain a where a: "chunk_rta chal ell lo hi os = Inr a" "length a = nat (hi - lo) * ell" "residues a"
    "\<forall>q<nat (hi - lo) * ell. a ! q mod FIELD_P = (\<Sum>x\<leftarrow>flat os. range_val chal ell lo q x) mod FIELD_P"
    using overlaps_add [OF assms, of ?z hi lo chal] by (auto simp: chunk_rta_def adds_def)
  have "a = map (\<lambda>q. (\<Sum>x\<leftarrow>flat os. range_val chal ell lo q x) mod FIELD_P) [0..<nat (hi - lo) * ell]"
    using a(2-4) by (intro list_eq_nthI) (auto simp: residues_def)
  then show ?thesis using a(1) by simp
qed

section \<open>The sorted lookup\<close>

lemma bisect_loop_sorted:
  "sorted a \<Longrightarrow> lo \<le> hi \<Longrightarrow> hi \<le> length a \<Longrightarrow> \<forall>i<lo. a ! i \<le> x \<Longrightarrow> \<forall>i. hi \<le> i \<and> i < length a \<longrightarrow> x < a ! i \<Longrightarrow>
    bisect_loop a x lo hi \<le> length a \<and> (\<forall>i<bisect_loop a x lo hi. a ! i \<le> x) \<and> (\<forall>i. bisect_loop a x lo hi \<le> i \<and> i < length a \<longrightarrow> x < a ! i)"
proof (induction a x lo hi rule: bisect_loop.induct)
  case (1 a x lo hi)
  show ?case
  proof (cases "lo < hi")
    case True
    define mid where "mid = (lo + hi) div 2"
    have mid: "lo \<le> mid" "mid < hi" using True by (simp_all add: mid_def)
    have mono: "a ! i \<le> a ! j" if "i \<le> j" "j < length a" for i j using "1.prems"(1) that by (rule sorted_nth_mono)
    show ?thesis
    proof (cases "x < a ! mid")
      case less: True
      have above: "\<forall>i. mid \<le> i \<and> i < length a \<longrightarrow> x < a ! i" using less mono by (meson order_less_le_trans)
      have st: "bisect_loop a x lo hi = bisect_loop a x lo mid" using True less by (subst bisect_loop.simps) (simp add: Let_def mid_def)
      have "mid \<le> length a" using mid(2) "1.prems"(3) by simp
      then show ?thesis unfolding st using "1.IH"(1) [OF True mid_def less "1.prems"(1) mid(1) _ "1.prems"(4) above] by blast
    next
      case ge: False
      have "a ! i \<le> x" if "i < Suc mid" for i using mono [of i mid] that ge mid(2) "1.prems"(3) by simp
      then have below: "\<forall>i<Suc mid. a ! i \<le> x" by blast
      have st: "bisect_loop a x lo hi = bisect_loop a x (Suc mid) hi" using True ge by (subst bisect_loop.simps) (simp add: Let_def mid_def)
      have "Suc mid \<le> hi" using mid(2) by simp
      then show ?thesis unfolding st using "1.IH"(2) [OF True mid_def ge "1.prems"(1) _ "1.prems"(3) below "1.prems"(5)] by blast
    qed
  next
    case False
    then show ?thesis using "1.prems" by (auto simp: bisect_loop.simps)
  qed
qed

lemma bisect_right_spec:
  assumes "sorted a"
  shows "bisect_right a x \<le> length a \<and> (\<forall>i<bisect_right a x. a ! i \<le> x) \<and> (\<forall>i. bisect_right a x \<le> i \<and> i < length a \<longrightarrow> x < a ! i)"
  unfolding bisect_right_def by (rule bisect_loop_sorted) (use assms in simp_all)

text \<open>Ranges that are equal or disjoint, as those of different variables are.\<close>

definition separated :: "band_range list \<Rightarrow> bool" where
  "separated bands \<longleftrightarrow> (\<forall>(b, rs, re) \<in> set bands. rs \<le> re \<and> (\<forall>(b', rs', re') \<in> set bands. (rs, re) = (rs', re') \<or> re \<le> rs' \<or> re' \<le> rs))"

definition range_keys :: "band_range list \<Rightarrow> (int \<times> int) list" where
  "range_keys bands = sorted_list_of_set (set (map snd bands))"

lemma range_keys_props: "set (range_keys bands) = snd ` set bands" "distinct (range_keys bands)" "sorted (range_keys bands)"
  by (simp_all add: range_keys_def)

lemma keys_starts: "sorted (map fst (range_keys bands))"
proof -
  have "fst (range_keys bands ! i) \<le> fst (range_keys bands ! j)" if "i \<le> j" "j < length (range_keys bands)" for i j
    using sorted_nth_mono [OF range_keys_props(3) that] by (auto simp: less_eq_prod_def)
  then show ?thesis by (auto simp: sorted_iff_nth_mono)
qed

lemma keys_ends:
  assumes "separated bands"
  shows "sorted (map snd (range_keys bands))"
proof -
  have "snd (range_keys bands ! i) \<le> snd (range_keys bands ! j)" if "i \<le> j" "j < length (range_keys bands)" for i j
  proof -
    obtain rs re rs' re' where k: "range_keys bands ! i = (rs, re)" "range_keys bands ! j = (rs', re')" by fastforce
    have le: "(rs, re) \<le> (rs', re')" using sorted_nth_mono [OF range_keys_props(3) that] k by simp
    have "(rs, re) \<in> snd ` set bands" "(rs', re') \<in> snd ` set bands"
      using nth_mem [of i "range_keys bands"] nth_mem [of j "range_keys bands"] that k by (simp_all add: range_keys_props(1))
    then have "rs \<le> re" "rs' \<le> re'" "(rs, re) = (rs', re') \<or> re \<le> rs' \<or> re' \<le> rs" using assms by (force simp: separated_def)+
    then show ?thesis using le k by (auto simp: less_eq_prod_def)
  qed
  then show ?thesis by (auto simp: sorted_iff_nth_mono)
qed

lemma group_sum:
  "distinct ks \<Longrightarrow> snd ` set bands \<subseteq> set ks \<Longrightarrow>
   (\<Sum>k\<leftarrow>ks. \<Sum>x\<leftarrow>filter (\<lambda>b. snd b = k) bands. v x) = (\<Sum>x\<leftarrow>bands. v x :: int)"
proof (induction bands)
  case (Cons b bands)
  have "(\<Sum>k\<leftarrow>ks. \<Sum>x\<leftarrow>filter (\<lambda>b. snd b = k) (b # bands). v x) = (\<Sum>k\<leftarrow>ks. (if k = snd b then v b else 0) + (\<Sum>x\<leftarrow>filter (\<lambda>b. snd b = k) bands. v x))"
    by (intro arg_cong [of _ _ sum_list] map_cong) auto
  also have "\<dots> = (\<Sum>k\<leftarrow>ks. if k = snd b then v b else 0) + (\<Sum>x\<leftarrow>bands. v x)" using Cons by (simp add: sum_list_addf)
  also have "(\<Sum>k\<leftarrow>ks. if k = snd b then v b else 0) = v b" using Cons.prems sum.distinct_set_conv_list [of ks "\<lambda>k. if k = snd b then v b else 0"] by simp
  finally show ?case by simp
qed (simp add: sum_list_0)

lemma filter_takeWhile: "sorted (map (\<lambda>x. fst (fst x)) xs) \<Longrightarrow> filter (\<lambda>(k, ts). fst k < hi) xs = takeWhile (\<lambda>(k, ts). fst k < (hi :: int)) xs"
proof (induction xs)
  case (Cons x xs)
  show ?case
  proof (cases "fst (fst x) < hi")
    case False
    then have "\<forall>y \<in> set xs. \<not> fst (fst y) < hi" using Cons.prems by force
    then show ?thesis using False by (auto simp: filter_empty_conv)
  qed (use Cons in auto)
qed simp

text \<open>The overlapping slice is the set of ranges that meet the chunk.\<close>

lemma overlapping_filter:
  assumes "separated bands"
  shows "bands_overlapping (build_row_lookup bands) lo hi = map (\<lambda>(k, ts). (ts, k)) (filter (\<lambda>(k, ts). lo < snd k \<and> fst k < hi) (build_row_lookup bands))"
proof -
  let ?l = "build_row_lookup bands"
  have keys: "map fst ?l = range_keys bands" by (simp add: build_row_lookup_def range_keys_def comp_def)
  have ends: "map (\<lambda>(k, ts). snd k) ?l = map snd (range_keys bands)" unfolding keys [symmetric] by (simp add: comp_def case_prod_beta')
  define i where "i = bisect_right (map snd (range_keys bands)) lo"
  have len: "length ?l = length (range_keys bands)" by (simp flip: keys)
  have i: "i \<le> length ?l" "\<forall>j<i. snd (fst (?l ! j)) \<le> lo" "\<forall>j. i \<le> j \<and> j < length ?l \<longrightarrow> lo < snd (fst (?l ! j))"
  proof -
    have nth: "map snd (range_keys bands) ! j = snd (fst (?l ! j))" if "j < length ?l" for j using that by (simp flip: keys)
    note spec = bisect_right_spec [OF keys_ends [OF assms], of lo, folded i_def, unfolded length_map, folded len]
    show "i \<le> length ?l" using spec by blast
    then show "\<forall>j<i. snd (fst (?l ! j)) \<le> lo" using spec nth by (metis order_less_le_trans)
    show "\<forall>j. i \<le> j \<and> j < length ?l \<longrightarrow> lo < snd (fst (?l ! j))" using spec nth by metis
  qed
  have low: "\<forall>y \<in> set (take i ?l). \<not> lo < snd (fst y)"
  proof
    fix y assume "y \<in> set (take i ?l)"
    then obtain j where "j < i" "y = ?l ! j" using i(1) by (auto simp: in_set_conv_nth)
    then show "\<not> lo < snd (fst y)" using i(2) by auto
  qed
  have high: "\<forall>y \<in> set (drop i ?l). lo < snd (fst y)"
  proof
    fix y assume "y \<in> set (drop i ?l)"
    then obtain j where "j < length ?l - i" "y = ?l ! (i + j)" using i(1) by (auto simp: in_set_conv_nth)
    then show "lo < snd (fst y)" using i(3) by auto
  qed
  have "filter (\<lambda>(k, ts). lo < snd k \<and> fst k < hi) ?l = filter (\<lambda>(k, ts). lo < snd k \<and> fst k < hi) (take i ?l) @ filter (\<lambda>(k, ts). lo < snd k \<and> fst k < hi) (drop i ?l)"
    by (metis append_take_drop_id filter_append)
  also have "filter (\<lambda>(k, ts). lo < snd k \<and> fst k < hi) (take i ?l) = []" using low by (auto simp: filter_empty_conv)
  also have "filter (\<lambda>(k, ts). lo < snd k \<and> fst k < hi) (drop i ?l) = filter (\<lambda>(k, ts). fst k < hi) (drop i ?l)"
    using high by (intro filter_cong refl) auto
  also have "[] @ filter (\<lambda>(k, ts). fst k < hi) (drop i ?l) = filter (\<lambda>(k, ts). fst k < hi) (drop i ?l)" by simp
  also have "\<dots> = takeWhile (\<lambda>(k, ts). fst k < hi) (drop i ?l)"
    using sorted_wrt_drop [OF keys_starts [of bands], of i] unfolding keys [symmetric]
    by (intro filter_takeWhile) (simp add: drop_map comp_def)
  finally show ?thesis unfolding bands_overlapping_def ends i_def by simp
qed

lemma flat_lookup:
  "flat (map (\<lambda>(k, ts). (ts, k)) (filter P (build_row_lookup bands))) =
    concat (map (\<lambda>k. filter (\<lambda>b. snd b = k) bands) (filter (\<lambda>k. P (k, map fst (filter (\<lambda>b. snd b = k) bands))) (range_keys bands)))"
proof -
  have id: "map (\<lambda>x. (fst x, k)) (filter (\<lambda>b. snd b = k) bands) = filter (\<lambda>b. snd b = k) bands" for k :: "int \<times> int" and bands :: "band_range list"
    by (induction bands) auto
  have "(case (k, map fst (filter (\<lambda>b. snd b = k) bands)) of (k, ts) \<Rightarrow> (ts, k)) = (map fst (filter (\<lambda>b. snd b = k) bands), k)" for k by simp
  then show ?thesis unfolding flat_def build_row_lookup_def range_keys_def filter_map map_map
    by (intro arg_cong [of _ _ concat] map_cong) (simp_all add: comp_def id)
qed

lemma sum_list_concats: "sum_list (concat xss) = sum_list (map sum_list xss :: int list)"
  by (induction xss) simp_all

lemma sum_filter_zero: "(\<And>x. x \<in> set xs \<Longrightarrow> \<not> Q x \<Longrightarrow> f x = (0 :: int)) \<Longrightarrow> (\<Sum>x\<leftarrow>filter Q xs. f x) = (\<Sum>x\<leftarrow>xs. f x)"
  by (induction xs) auto

lemma sum_all_zero: "(\<And>x. x \<in> set xs \<Longrightarrow> f x = (0 :: int)) \<Longrightarrow> (\<Sum>x\<leftarrow>xs. f x) = 0"
  by (induction xs) auto

lemma stream_sum:
  assumes "separated bands" "q < nat (hi - lo) * ell"
  shows "(\<Sum>x\<leftarrow>flat (bands_overlapping (build_row_lookup bands) lo hi). range_val chal ell lo q x) = (\<Sum>x\<leftarrow>bands. range_val chal ell lo q x)"
proof -
  let ?v = "range_val chal ell lo q" and ?P = "\<lambda>k :: int \<times> int. lo < snd k \<and> fst k < hi"
  have "q div ell < nat (hi - lo)" using assms(2) by (simp add: less_mult_imp_div_less)
  then have row: "lo \<le> lo + int (q div ell)" "lo + int (q div ell) < hi" by linarith+
  have out: "(\<Sum>x\<leftarrow>filter (\<lambda>b. snd b = k) bands. ?v x) = 0" if "\<not> ?P k" for k
  proof -
    have "?v x = 0" if "snd x = k" for x using that \<open>\<not> ?P k\<close> row by (auto simp: range_val_def split: prod.splits)
    then show ?thesis by (intro sum_all_zero) simp
  qed
  have "(\<Sum>x\<leftarrow>flat (bands_overlapping (build_row_lookup bands) lo hi). ?v x) = (\<Sum>k\<leftarrow>filter ?P (range_keys bands). \<Sum>x\<leftarrow>filter (\<lambda>b. snd b = k) bands. ?v x)"
    unfolding overlapping_filter [OF assms(1)] flat_lookup by (simp add: map_concat sum_list_concats comp_def)
  also have "\<dots> = (\<Sum>k\<leftarrow>range_keys bands. \<Sum>x\<leftarrow>filter (\<lambda>b. snd b = k) bands. ?v x)" by (rule sum_filter_zero) (rule out)
  also have "\<dots> = (\<Sum>x\<leftarrow>bands. ?v x)" by (rule group_sum) (simp_all add: range_keys_props)
  finally show ?thesis .
qed

section \<open>The index loses nothing when the rows of a band come in a run\<close>

text \<open>A key seen before comes back with the same band, on the rows after those already covered.\<close>

fun tidy :: "(key \<Rightarrow> nat option) \<times> band_range list \<Rightarrow> item list \<Rightarrow> bool" where
  "tidy st [] \<longleftrightarrow> True"
| "tidy st (it # its) \<longleftrightarrow> (case item_range it of (b, rs, re) \<Rightarrow> rs \<le> re \<and>
     (case fst st (band_key b) of None \<Rightarrow> True | Some i \<Rightarrow> (case snd st ! i of (b0, rs0, re0) \<Rightarrow> b0 = b \<and> re0 = rs))) \<and> tidy (index_item st it) its"

definition indexed :: "(band_range \<Rightarrow> int) \<Rightarrow> (band_range \<Rightarrow> bool) \<Rightarrow> (key \<Rightarrow> nat option) \<times> band_range list \<Rightarrow> int \<Rightarrow> bool" where
  "indexed v Q st tot \<longleftrightarrow> (\<forall>k i. fst st k = Some i \<longrightarrow> i < length (snd st)) \<and> (\<forall>(b, rs, re) \<in> set (snd st). rs \<le> re \<and> Q (b, rs, re)) \<and>
     (\<Sum>x\<leftarrow>snd st. v x) = tot"

lemma sum_list_update_int: "i < length xs \<Longrightarrow> (\<Sum>x\<leftarrow>xs[i := y]. f x) = (\<Sum>x\<leftarrow>xs. f x) - f (xs ! i) + (f y :: int)"
proof (induction xs arbitrary: i)
  case (Cons x xs)
  then show ?case by (cases i) simp_all
qed simp

lemma index_run:
  assumes glue: "\<And>b rs mid re. rs \<le> mid \<Longrightarrow> mid \<le> re \<Longrightarrow> v (b, rs, re) = v (b, rs, mid) + v (b, mid, re)"
    and Q: "\<And>b rs re re'. Q (b, rs, re) \<Longrightarrow> Q (b, rs, re')"
  shows "tidy st items \<Longrightarrow> indexed v Q st tot \<Longrightarrow> \<forall>it \<in> set items. Q (item_range it) \<Longrightarrow>
    indexed v Q (foldl index_item st items) (tot + (\<Sum>it\<leftarrow>items. v (item_range it)))"
proof (induction items arbitrary: st tot)
  case (Cons it items)
  obtain seen bands where st: "st = (seen, bands)" by (cases st)
  obtain b rs re where it: "item_range it = (b, rs, re)" by (cases "item_range it")
  have inv: "\<forall>k i. seen k = Some i \<longrightarrow> i < length bands" "\<forall>(b, rs, re) \<in> set bands. rs \<le> re \<and> Q (b, rs, re)" "(\<Sum>x\<leftarrow>bands. v x) = tot"
    using Cons.prems(2) by (simp_all add: indexed_def st)
  have "indexed v Q (index_item st it) (tot + v (b, rs, re))"
  proof (cases "seen (band_key b)")
    case None
    have "Q (b, rs, re)" using Cons.prems(3) it by (metis list.set_intros(1))
    then show ?thesis using inv Cons.prems(1) by (auto simp: indexed_def st it None less_SucI)
  next
    case (Some i)
    obtain b0 rs0 re0 where b0: "bands ! i = (b0, rs0, re0)" by (cases "bands ! i")
    have i: "i < length bands" using inv(1) Some by blast
    have t: "b0 = b" "re0 = rs" "rs \<le> re" using Cons.prems(1) by (simp_all add: st it Some b0)
    have r0: "rs0 \<le> re0" "Q (b0, rs0, re0)" using inv(2) i b0 nth_mem by force+
    have step: "index_item st it = (seen, bands[i := (b, rs0, re)])" using t r0(1) by (auto simp: st it Some b0)
    have "(\<Sum>x\<leftarrow>bands[i := (b, rs0, re)]. v x) = tot + v (b, rs, re)"
      using sum_list_update_int [OF i, of v] glue [of rs0 rs re b] t r0(1) inv(3) b0 by simp
    moreover have "\<forall>(b, rs, re) \<in> set (bands[i := (b, rs0, re)]). rs \<le> re \<and> Q (b, rs, re)"
      using inv(2) t r0 Q [OF r0(2), of re] by (auto dest!: subsetD [OF set_update_subset_insert])
    ultimately show ?thesis using inv(1) by (simp add: indexed_def step)
  qed
  then have "indexed v Q (foldl index_item (index_item st it) items) (tot + v (b, rs, re) + (\<Sum>it\<leftarrow>items. v (item_range it)))"
    using Cons.IH Cons.prems by simp
  then show ?case by (simp add: it add.assoc)
qed simp
section \<open>The streamed chunk is the eager chunk\<close>

lemma range_val_glue: "rs \<le> mid \<Longrightarrow> mid \<le> re \<Longrightarrow> range_val chal ell lo q (b, rs, re) = range_val chal ell lo q (b, rs, mid) + range_val chal ell lo q (b, mid, re)"
  by (simp add: range_val_def)

lemma upto_value: "lo1 \<le> hi1 \<Longrightarrow> (\<Sum>r\<leftarrow>[lo1..hi1 - 1]. range_val chal ell lo q (b, r, r + 1)) = range_val chal ell lo q (b, lo1, hi1)"
proof (induction "nat (hi1 - lo1)" arbitrary: lo1)
  case 0
  then have "lo1 = hi1" by simp
  then show ?case by (simp add: range_val_def)
next
  case (Suc n)
  then have lt: "lo1 < hi1" by linarith
  then have "[lo1..hi1 - 1] = lo1 # [lo1 + 1..hi1 - 1]" by (simp add: upto_rec1)
  moreover have "(\<Sum>r\<leftarrow>[lo1 + 1..hi1 - 1]. range_val chal ell lo q (b, r, r + 1)) = range_val chal ell lo q (b, lo1 + 1, hi1)"
    using Suc lt by (intro Suc.hyps(1)) linarith+
  ultimately show ?case using range_val_glue [of lo1 "lo1 + 1" hi1] lt by simp
qed

lemma item_value:
  assumes "item_range it = (b, rs, re)" "rs \<le> re"
  shows "(\<Sum>(r, b)\<leftarrow>expand_item it. range_val chal ell lo q (b, r, r + 1)) = range_val chal ell lo q (item_range it)"
  using assms upto_value [of rs re chal ell lo q b] by (cases it) (simp_all add: comp_def)

lemma tidy_ranges: "tidy st items \<Longrightarrow> it \<in> set items \<Longrightarrow> item_range it = (b, rs, re) \<Longrightarrow> rs \<le> re"
  by (induction st items rule: tidy.induct) auto

lemma index_value:
  assumes "tidy (\<lambda>_. None, []) items" "on_rows ell (map item_range items)"
  shows "(\<Sum>x\<leftarrow>index_bands items. range_val chal ell lo q x) = (\<Sum>(r, b)\<leftarrow>expand_row_pkts items. range_val chal ell lo q (b, r, r + 1))"
    and "on_rows ell (index_bands items)"
proof -
  let ?v = "range_val chal ell lo q" and ?Q = "\<lambda>(b, rs, re :: int). band_ok ell b \<and> b_row b \<le> rs"
  have "indexed ?v ?Q (\<lambda>_. None, []) 0" by (simp add: indexed_def)
  moreover have "\<forall>it \<in> set items. ?Q (item_range it)" using assms(2) unfolding on_rows_def by auto
  ultimately have run: "indexed ?v ?Q (foldl index_item (\<lambda>_. None, []) items) (0 + (\<Sum>it\<leftarrow>items. ?v (item_range it)))"
    using index_run [where v = ?v and Q = ?Q, OF _ _ assms(1)] range_val_glue by blast
  then show "on_rows ell (index_bands items)" by (auto simp: indexed_def on_rows_def index_bands_def)
  have "(\<Sum>it\<leftarrow>items. ?v (item_range it)) = (\<Sum>it\<leftarrow>items. \<Sum>(r, b)\<leftarrow>expand_item it. ?v (b, r, r + 1))"
  proof (intro arg_cong [of _ _ sum_list] map_cong refl)
    fix it assume "it \<in> set items"
    moreover obtain b rs re where "item_range it = (b, rs, re)" by (cases "item_range it")
    ultimately show "?v (item_range it) = (\<Sum>(r, b)\<leftarrow>expand_item it. ?v (b, r, r + 1))" using item_value [OF _ tidy_ranges [OF assms(1)]] by simp
  qed
  then show "(\<Sum>x\<leftarrow>index_bands items. ?v x) = (\<Sum>(r, b)\<leftarrow>expand_row_pkts items. ?v (b, r, r + 1))"
    using run by (simp add: indexed_def index_bands_def expand_row_pkts_def map_concat sum_list_concats comp_def)
qed

lemma append_pkts_rows:
  "append_pkts rows rps = Inr rows' \<Longrightarrow> \<forall>(r, b) \<in> set rps. 0 \<le> r \<Longrightarrow>
    length rows' = length rows \<and> (\<forall>k<length rows. rows' ! k = rows ! k @ map snd (filter (\<lambda>rb. fst rb = int k) rps))"
proof (induction rps arbitrary: rows)
  case (Cons rp rps)
  obtain r b where rp: "rp = (r, b)" by (cases rp)
  have r: "0 \<le> r" using Cons.prems(2) rp by simp
  have lt: "r < int (length rows)" using Cons.prems(1) r by (auto simp: rp append_pkt_def py_pos_def split: if_splits)
  have "append_pkts (rows[nat r := rows ! nat r @ [b]]) rps = Inr rows'"
    using Cons.prems(1) append_pkt_at [OF r lt] by (simp add: rp)
  from Cons.IH [OF this] Cons.prems(2) show ?case using r by (auto simp: rp nth_list_update)
qed simp

lemma flat_eager:
  "hi \<le> length rows \<Longrightarrow> (\<Sum>x\<leftarrow>flat (eager_overlapping rows lo hi). f x) = (\<Sum>r\<leftarrow>[lo..<hi]. \<Sum>b\<leftarrow>rows ! r. f (b, int r, int r + 1) :: int)"
proof -
  assume hi: "hi \<le> length rows"
  have "(\<Sum>x\<leftarrow>flat (eager_overlapping rows lo hi). f x) = (\<Sum>r\<leftarrow>filter (\<lambda>r. rows ! r \<noteq> []) [lo..<hi]. \<Sum>b\<leftarrow>rows ! r. f (b, int r, int r + 1))"
    using hi by (simp add: flat_def eager_overlapping_def map_concat sum_list_concats comp_def)
  also have "\<dots> = (\<Sum>r\<leftarrow>[lo..<hi]. \<Sum>b\<leftarrow>rows ! r. f (b, int r, int r + 1))" by (rule sum_filter_zero) simp
  finally show ?thesis .
qed

lemma filter_value:
  "(\<Sum>b\<leftarrow>map snd (filter (\<lambda>rb. fst rb = R) rps). contrib chal ell b R s) = (\<Sum>(r, b)\<leftarrow>rps. if r = R then contrib chal ell b R s else 0)"
  by (induction rps) auto
lemma on_rows_item:
  "on_rows ell (map item_range items) \<Longrightarrow> (r, b) \<in> set (expand_row_pkts items) \<Longrightarrow> band_ok ell b \<and> b_row b \<le> r"
proof -
  assume ok: "on_rows ell (map item_range items)" and "(r, b) \<in> set (expand_row_pkts items)"
  then obtain it where it: "it \<in> set items" "(r, b) \<in> set (expand_item it)" by (auto simp: expand_row_pkts_def)
  then have "item_range it \<in> set (map item_range items)" by simp
  then show ?thesis using ok it(2) unfolding on_rows_def by (cases it) fastforce+
qed

lemma chunk_stream_eager:
  assumes ell: "0 < ell" and items: "tidy (\<lambda>_. None, []) items" "separated (index_bands items)" "on_rows ell (map item_range items)"
    and rows: "append_pkts (replicate m []) (expand_row_pkts items) = Inr rows" "\<forall>(r, b) \<in> set (expand_row_pkts items). 0 \<le> r"
    and window: "lo \<le> hi" "hi \<le> m"
    and vals: "vals = map (\<lambda>q. (\<Sum>(r, b)\<leftarrow>expand_row_pkts items. if r = int (lo + q div ell) then contrib chal ell b r (q mod ell) else 0) mod FIELD_P)
      [0..<(hi - lo) * ell]"
  shows "chunk_rta chal ell (int lo) (int hi) (bands_overlapping (build_row_lookup (index_bands items)) (int lo) (int hi)) = Inr vals"
    and "chunk_rta chal ell (int lo) (int hi) (eager_overlapping rows lo hi) = Inr vals"
proof -
  let ?rps = "expand_row_pkts items"
  have n: "nat (int hi - int lo) = hi - lo" by simp
  have one: "(\<Sum>(r, b)\<leftarrow>?rps. range_val chal ell (int lo) q (b, r, r + 1)) =
      (\<Sum>(r, b)\<leftarrow>?rps. if r = int (lo + q div ell) then contrib chal ell b r (q mod ell) else 0)" for q
    by (intro arg_cong [of _ _ sum_list] map_cong refl) (auto simp: range_val_def)
  have sub: "set (flat (bands_overlapping (build_row_lookup (index_bands items)) (int lo) (int hi))) \<subseteq> set (index_bands items)"
    unfolding overlapping_filter [OF items(2)] flat_lookup by auto
  have ok: "on_rows ell (flat (bands_overlapping (build_row_lookup (index_bands items)) (int lo) (int hi)))"
    using index_value(2) [OF items(1, 3)] sub unfolding on_rows_def by blast
  have "(\<Sum>x\<leftarrow>flat (bands_overlapping (build_row_lookup (index_bands items)) (int lo) (int hi)). range_val chal ell (int lo) q x) =
      (\<Sum>(r, b)\<leftarrow>?rps. if r = int (lo + q div ell) then contrib chal ell b r (q mod ell) else 0)" if "q < (hi - lo) * ell" for q
    using stream_sum [OF items(2), of q "int hi" "int lo" ell] index_value(1) [OF items(1, 3)] that by (simp add: one n)
  then show "chunk_rta chal ell (int lo) (int hi) (bands_overlapping (build_row_lookup (index_bands items)) (int lo) (int hi)) = Inr vals"
    unfolding chunk_value [OF ell ok] n vals by simp
  have at: "length rows = m" "\<forall>k<m. rows ! k = map snd (filter (\<lambda>rb. fst rb = int k) ?rps)"
    using append_pkts_rows [OF rows] by simp_all
  have mem: "x \<in> set (flat (eager_overlapping rows lo hi)) \<Longrightarrow> \<exists>r b. x = (b, int r, int r + 1) \<and> r < m \<and> (int r, b) \<in> set ?rps" for x
    using at by (auto simp: flat_def eager_overlapping_def)
  have eok: "on_rows ell (flat (eager_overlapping rows lo hi))"
    unfolding on_rows_def
  proof (rule ballI)
    fix x assume "x \<in> set (flat (eager_overlapping rows lo hi))"
    then obtain r b where "x = (b, int r, int r + 1)" "(int r, b) \<in> set ?rps" using mem by blast
    then show "case x of (b, rs, re) \<Rightarrow> band_ok ell b \<and> b_row b \<le> rs" using on_rows_item [OF items(3)] by simp
  qed
  have "(\<Sum>x\<leftarrow>flat (eager_overlapping rows lo hi). range_val chal ell (int lo) q x) =
      (\<Sum>(r, b)\<leftarrow>?rps. if r = int (lo + q div ell) then contrib chal ell b r (q mod ell) else 0)" if "q < (hi - lo) * ell" for q
  proof -
    define R where "R = lo + q div ell"
    have "q div ell < hi - lo" using that by (simp add: less_mult_imp_div_less)
    then have R: "lo \<le> R" "R < hi" by (simp_all add: R_def)
    have "(\<Sum>x\<leftarrow>flat (eager_overlapping rows lo hi). range_val chal ell (int lo) q x) = (\<Sum>r\<leftarrow>[lo..<hi]. if r = R then \<Sum>b\<leftarrow>rows ! R. contrib chal ell b (int R) (q mod ell) else 0)"
      using flat_eager [of hi rows "range_val chal ell (int lo) q" lo] window at(1)
      by (auto simp: range_val_def R_def intro!: arg_cong [of _ _ sum_list] map_cong sum_all_zero)
    also have "\<dots> = (\<Sum>b\<leftarrow>rows ! R. contrib chal ell b (int R) (q mod ell))"
      using R sum.distinct_set_conv_list [of "[lo..<hi]" "\<lambda>r. if r = R then \<Sum>b\<leftarrow>rows ! R. contrib chal ell b (int R) (q mod ell) else 0"] by simp
    also have "\<dots> = (\<Sum>(r, b)\<leftarrow>?rps. if r = int R then contrib chal ell b (int R) (q mod ell) else 0)"
      using at(2) R window(2) filter_value [where R = "int R"] by simp
    finally show ?thesis unfolding R_def [symmetric] by (simp add: case_prod_beta' cong: if_cong)
  qed
  then show "chunk_rta chal ell (int lo) (int hi) (eager_overlapping rows lo hi) = Inr vals"
    unfolding chunk_value [OF ell eok] n vals by simp
qed
section \<open>The streaming compile\<close>

text \<open>\<open>_StreamingPackets.__init__\<close>: one count pass over the claims, which indexes every band and lifts
  every quadratic family with its positional base; \<open>compile_op\<close> then fires the families of one
  claim. The index is the pair \<open>(_band_seen, bands)\<close>.\<close>

record stream =
  st_index :: "(key \<Rightarrow> nat option) \<times> band_range list"
  st_fams :: "(nat \<times> quad_family) list list"
  st_base_c :: "nat list"
  st_cur :: nat
  st_nq :: nat

fun lift_fams :: "nat \<Rightarrow> quad_family list \<Rightarrow> (nat \<times> quad_family) list \<times> nat" where
  "lift_fams nq [] = ([], nq)"
| "lift_fams nq (f # fs) = (case lift_fams (nq + fam_nrows f) fs of (fams, n) \<Rightarrow> ((nq, f) # fams, n))"

definition stream_step :: "heap \<Rightarrow> nat \<Rightarrow> claim \<times> chal \<Rightarrow> stream \<Rightarrow> stream result" where
  "stream_step h ell cc s = (case cc of (c, ch) \<Rightarrow>
     rbind (compile_one h ell c ch (st_cur s)) (\<lambda>cp. case lift_fams (st_nq s) (cp_quads cp) of (fams, nq) \<Rightarrow>
       Inr (s\<lparr>st_index := foldl index_item (st_index s) (cp_items cp), st_fams := st_fams s @ [fams],
         st_cur := st_cur s + cp_added cp, st_nq := nq\<rparr>)))"

fun stream_ops :: "heap \<Rightarrow> nat \<Rightarrow> (claim \<times> chal) list \<Rightarrow> stream \<Rightarrow> stream result" where
  "stream_ops h ell [] s = Inr s"
| "stream_ops h ell (cc # cs) s = rbind (stream_step h ell cc (s\<lparr>st_base_c := st_base_c s @ [st_cur s]\<rparr>)) (stream_ops h ell cs)"

fun stream_settle :: "heap \<Rightarrow> nat \<Rightarrow> (claim \<times> chal) list \<Rightarrow> stream \<Rightarrow> stream result" where
  "stream_settle h ell [] s = Inr s"
| "stream_settle h ell (cc # cs) s = rbind (stream_step h ell cc s) (stream_settle h ell cs)"

definition stream_new :: "heap \<Rightarrow> nat \<Rightarrow> nat \<Rightarrow> (claim \<times> chal) list \<Rightarrow> stream result" where
  "stream_new h ell n_ops ccs =
     rbind (stream_ops h ell (take n_ops ccs) \<lparr>st_index = (\<lambda>_. None, []), st_fams = [], st_base_c = [], st_cur = 0, st_nq = 0\<rparr>) (\<lambda>s.
       if n_ops \<le> length ccs then stream_settle h ell (drop n_ops ccs) (s\<lparr>st_base_c := st_base_c s @ [st_cur s]\<rparr>) else Inl IndexError)"

definition compile_op :: "stream \<Rightarrow> nat \<Rightarrow> nat \<Rightarrow> nat \<Rightarrow> (nat \<times> (nat \<times> quadratic_constraint) list) result" where
  "compile_op s n_ops next_op i =
     (let fired = (if i < length (st_fams s) then concat (map (\<lambda>(b0, fam). map (\<lambda>(t, qc). (b0 + t, qc)) (enumerate 0 (fam_expand fam))) (st_fams s ! i)) else [])
      in if i < n_ops then (if i = next_op then Inr (next_op + 1, fired) else Inl AssertionError) else Inr (next_op, fired))"

text \<open>A sweep fires the claims \<open>i, i+1, \<dots>\<close> in order.\<close>

fun sweep :: "stream \<Rightarrow> nat \<Rightarrow> nat \<Rightarrow> nat list \<Rightarrow> (nat \<times> quadratic_constraint) list result" where
  "sweep s n_ops next_op [] = Inr []"
| "sweep s n_ops next_op (i # is) = rbind (compile_op s n_ops next_op i) (\<lambda>(nx, qs). rbind (sweep s n_ops nx is) (\<lambda>rest. Inr (qs @ rest)))"

text \<open>The items of the claims, compiled one after the other.\<close>

fun compiled_items :: "heap \<Rightarrow> nat \<Rightarrow> (claim \<times> chal) list \<Rightarrow> nat \<Rightarrow> item list result" where
  "compiled_items h ell [] n = Inr []"
| "compiled_items h ell ((c, ch) # cs) n = rbind (compile_one h ell c ch n) (\<lambda>cp. rbind (compiled_items h ell cs (n + cp_added cp)) (\<lambda>its. Inr (cp_items cp @ its)))"

definition fams_quads :: "(nat \<times> quad_family) list \<Rightarrow> (nat \<times> quadratic_constraint) list" where
  "fams_quads fams = concat (map (\<lambda>(b0, fam). map (\<lambda>(t, qc). (b0 + t, qc)) (enumerate 0 (fam_expand fam))) fams)"

lemma enumerate_shift: "map (\<lambda>(t, x). (b + t, x)) (enumerate n xs) = enumerate (b + n) xs"
  by (induction xs arbitrary: n) (simp_all add: add_Suc_right [symmetric] del: add_Suc_right)

lemma length_fam_expand: "length (fam_expand f) = fam_nrows f"
  by (simp add: fam_expand_def Let_def)

lemma lift_fams_quads:
  "lift_fams nq fs = (fams, n) \<Longrightarrow> fams_quads fams = enumerate nq (concat (map fam_expand fs)) \<and> n = nq + length (concat (map fam_expand fs))"
proof (induction nq fs arbitrary: fams n rule: lift_fams.induct)
  case (2 nq f fs)
  obtain fams' n' where r: "lift_fams (nq + fam_nrows f) fs = (fams', n')" by fastforce
  from "2.IH" [OF r] "2.prems" r show ?case
    by (auto simp: fams_quads_def enumerate_shift enumerate_append_eq length_fam_expand)
qed (simp add: fams_quads_def)

text \<open>The count pass and the eager driver stay in step.\<close>

definition in_step :: "stream \<Rightarrow> item list \<Rightarrow> system \<Rightarrow> bool" where
  "in_step p items e \<longleftrightarrow> st_index p = foldl index_item (\<lambda>_. None, []) items \<and> st_cur p = sy_n e \<and> st_nq p = length (sy_quads e) \<and>
     concat (map fams_quads (st_fams p)) = enumerate 0 (sy_quads e)"

lemma in_step_next:
  assumes "in_step p items e" "compile_one h ell c ch (sy_n e) = Inr cp"
  shows "\<exists>p'. stream_step h ell (c, ch) p = Inr p' \<and> st_base_c p' = st_base_c p \<and> length (st_fams p') = Suc (length (st_fams p)) \<and>
    in_step p' (items @ cp_items cp) (e\<lparr>sy_rows := rows, sy_quads := sy_quads e @ concat (map fam_expand (cp_quads cp)),
      sy_b := bs, sy_n := sy_n e + cp_added cp\<rparr>)"
proof -
  obtain fams n where l: "lift_fams (st_nq p) (cp_quads cp) = (fams, n)" by fastforce
  have "st_cur p = sy_n e" using assms(1) by (simp add: in_step_def)
  then show ?thesis using assms l lift_fams_quads [OF l] by (simp add: stream_step_def in_step_def enumerate_append_eq)
qed
lemma append_pkts_append: "append_pkts rows (xs @ ys) = rbind (append_pkts rows xs) (\<lambda>r. append_pkts r ys)"
proof (induction xs arbitrary: rows)
  case (Cons x xs)
  then show ?case by (cases "append_pkt rows x") simp_all
qed simp

lemma expand_append: "expand_row_pkts (xs @ ys) = expand_row_pkts xs @ expand_row_pkts ys"
  by (simp add: expand_row_pkts_def)

lemma loop_in_step:
  assumes "compiled_items h ell cs (sy_n e) = Inr items" "append_pkts (sy_rows e) (expand_row_pkts items) = Inr rows" "in_step p prev e"
  shows "\<exists>e' p'. compile_loop h ell cs e = Inr e' \<and> sy_rows e' = rows \<and>
    stream_settle h ell cs p = Inr p' \<and> in_step p' (prev @ items) e' \<and> length (st_fams p') = length (st_fams p) + length cs"
  using assms
proof (induction cs arbitrary: e items p prev)
  case (Cons cc cs)
  obtain c ch where cc: "cc = (c, ch)" by (cases cc)
  obtain cp where cp: "compile_one h ell c ch (sy_n e) = Inr cp" using Cons.prems(1) by (auto simp: cc rbind_Inr_iff)
  obtain its where its: "compiled_items h ell cs (sy_n e + cp_added cp) = Inr its" "items = cp_items cp @ its"
    using Cons.prems(1) by (auto simp: cc cp rbind_Inr_iff)
  obtain rows1 where rows1: "append_pkts (sy_rows e) (expand_row_pkts (cp_items cp)) = Inr rows1" "append_pkts rows1 (expand_row_pkts its) = Inr rows"
    using Cons.prems(2) unfolding its(2) expand_append append_pkts_append by (auto simp: rbind_Inr_iff)
  define e1 where "e1 = e\<lparr>sy_rows := rows1, sy_quads := sy_quads e @ concat (map fam_expand (cp_quads cp)),
    sy_b := sy_b e @ (case cp_b cp of None \<Rightarrow> [] | Some b \<Rightarrow> [(sy_n e, b)]), sy_n := sy_n e + cp_added cp\<rparr>"
  obtain q where q: "stream_step h ell cc p = Inr q" "length (st_fams q) = Suc (length (st_fams p))" "in_step q (prev @ cp_items cp) e1"
    using in_step_next [OF Cons.prems(3) cp] unfolding cc e1_def by metis
  have e1: "compiled_items h ell cs (sy_n e1) = Inr its" "append_pkts (sy_rows e1) (expand_row_pkts its) = Inr rows"
    using its(1) rows1(2) by (simp_all add: e1_def)
  have "compile_loop h ell (cc # cs) e = compile_loop h ell cs e1" by (simp add: cc cp rows1(1) e1_def)
  with Cons.IH [OF e1 q(3)] q(1, 2) its(2) show ?case by auto
qed (simp add: expand_row_pkts_def)

text \<open>The list of bases is the only difference between the two passes of the constructor.\<close>

lemma step_base: "stream_step h ell cc s = Inr p \<Longrightarrow> stream_step h ell cc (s\<lparr>st_base_c := B\<rparr>) = Inr (p\<lparr>st_base_c := B\<rparr>)"
proof -
  assume step: "stream_step h ell cc s = Inr p"
  obtain c ch where cc: "cc = (c, ch)" by (cases cc)
  obtain cp where cp: "compile_one h ell c ch (st_cur s) = Inr cp" using step by (auto simp: stream_step_def cc rbind_Inr_iff)
  obtain fams nq where "lift_fams (st_nq s) (cp_quads cp) = (fams, nq)" by fastforce
  then show ?thesis using step cp by (auto simp: stream_step_def cc)
qed

lemma settle_base: "stream_settle h ell cs s = Inr p \<Longrightarrow> stream_settle h ell cs (s\<lparr>st_base_c := B\<rparr>) = Inr (p\<lparr>st_base_c := B\<rparr>)"
proof (induction cs arbitrary: s)
  case (Cons cc cs)
  then obtain q where "stream_step h ell cc s = Inr q" "stream_settle h ell cs q = Inr p" by (auto simp: rbind_Inr_iff)
  then show ?case using Cons.IH step_base by simp
qed simp

lemma ops_base: "stream_settle h ell cs s = Inr p \<Longrightarrow> \<exists>B'. stream_ops h ell cs (s\<lparr>st_base_c := B\<rparr>) = Inr (p\<lparr>st_base_c := B'\<rparr>)"
proof (induction cs arbitrary: s B)
  case (Cons cc cs)
  then obtain q where q: "stream_step h ell cc s = Inr q" "stream_settle h ell cs q = Inr p" by (auto simp: rbind_Inr_iff)
  from Cons.IH [OF q(2)] show ?case using step_base [OF q(1)] by simp
qed auto

lemma settle_append: "stream_settle h ell (xs @ ys) s = rbind (stream_settle h ell xs s) (stream_settle h ell ys)"
proof (induction xs arbitrary: s)
  case (Cons x xs)
  then show ?case by (cases "stream_step h ell x s") simp_all
qed simp

lemma new_base:
  assumes "stream_settle h ell ccs \<lparr>st_index = (\<lambda>_. None, []), st_fams = [], st_base_c = [], st_cur = 0, st_nq = 0\<rparr> = Inr p" "n_ops \<le> length ccs"
  shows "\<exists>B. stream_new h ell n_ops ccs = Inr (p\<lparr>st_base_c := B\<rparr>)"
proof -
  let ?s = "\<lparr>st_index = (\<lambda>_. None, []), st_fams = [], st_base_c = [], st_cur = 0, st_nq = 0\<rparr>"
  have "stream_settle h ell (take n_ops ccs @ drop n_ops ccs) ?s = Inr p" using assms(1) by simp
  then obtain q where q: "stream_settle h ell (take n_ops ccs) ?s = Inr q" "stream_settle h ell (drop n_ops ccs) q = Inr p"
    unfolding settle_append rbind_Inr_iff by blast
  obtain B where "stream_ops h ell (take n_ops ccs) ?s = Inr (q\<lparr>st_base_c := B\<rparr>)" using ops_base [OF q(1), of "[]"] by auto
  then show ?thesis using settle_base [OF q(2)] assms(2) by (auto simp: stream_new_def)
qed

section \<open>The sweep\<close>

lemma sweep_fires:
  "i \<le> n \<Longrightarrow> n = length (st_fams p) \<Longrightarrow> n_ops \<le> n \<Longrightarrow> sweep p n_ops (min i n_ops) [i..<n] = Inr (concat (map fams_quads (drop i (st_fams p))))"
proof (induction "n - i" arbitrary: i)
  case (Suc d)
  then have i: "i < n" by linarith
  have "compile_op p n_ops (min i n_ops) i = Inr (min (Suc i) n_ops, fams_quads (st_fams p ! i))"
    using i Suc.prems(2) by (simp add: compile_op_def fams_quads_def Let_def)
  moreover have "sweep p n_ops (min (Suc i) n_ops) [Suc i..<n] = Inr (concat (map fams_quads (drop (Suc i) (st_fams p))))"
    using Suc i by (intro Suc.hyps(1)) linarith+
  ultimately show ?case using i Suc.prems(2) by (simp add: upt_conv_Cons Cons_nth_drop_Suc [symmetric])
qed simp
section \<open>The streaming prover computes the eager system\<close>

text \<open>What the keys and the row ranges must satisfy for the index to lose nothing.\<close>

definition bands_distinct :: "nat \<Rightarrow> nat \<Rightarrow> item list \<Rightarrow> bool" where
  "bands_distinct ell m items \<longleftrightarrow> tidy (\<lambda>_. None, []) items \<and> separated (index_bands items) \<and> on_rows ell (map item_range items) \<and>
     (\<forall>(r, b) \<in> set (expand_row_pkts items). 0 \<le> r \<and> r < int m)"

lemma append_in_rows:
  "\<forall>(r, b) \<in> set rps. 0 \<le> r \<and> r < int (length rows) \<Longrightarrow> \<exists>rows'. append_pkts rows rps = Inr rows'"
  using append_pkts_lin by blast

text \<open>
  When the bands of the compiled claims have distinct keys, each on one run of rows, and the runs are
  equal or disjoint, the streaming constructor succeeds exactly as the eager driver does, folds every
  chunk as the eager driver does, and its sweep fires the eager quadratic constraints.
  \<open>Stream_Pipeline\<close> derives the condition from the compilers.
\<close>

lemma stream_eager_items:
  assumes "0 < ell" "n_ops \<le> length (zip claims chs)" "compiled_items h ell (zip claims chs) 0 = Inr items" "bands_distinct ell m items"
    "lo \<le> hi" "hi \<le> m"
  shows "\<exists>e p v. compile_with_chs h ell claims chs m = Inr e \<and> stream_new h ell n_ops (zip claims chs) = Inr p \<and>
    chunk_rta chal ell (int lo) (int hi) (bands_overlapping (build_row_lookup (snd (st_index p))) (int lo) (int hi)) = Inr v \<and>
    chunk_rta chal ell (int lo) (int hi) (eager_overlapping (sy_rows e) lo hi) = Inr v \<and>
    st_cur p = sy_n e \<and> sweep p n_ops 0 [0..<length (zip claims chs)] = Inr (enumerate 0 (sy_quads e))"
proof -
  let ?ccs = "zip claims chs" and ?e = "\<lparr>sy_rows = replicate m [], sy_quads = [], sy_b = [], sy_n = 0\<rparr>"
  let ?p = "\<lparr>st_index = (\<lambda>_. None, []), st_fams = [], st_base_c = [], st_cur = 0, st_nq = 0\<rparr>"
  have d: "tidy (\<lambda>_. None, []) items" "separated (index_bands items)" "on_rows ell (map item_range items)"
    "\<forall>(r, b) \<in> set (expand_row_pkts items). 0 \<le> r" using assms(4) unfolding bands_distinct_def by auto
  obtain rows where rows: "append_pkts (replicate m []) (expand_row_pkts items) = Inr rows"
    using append_in_rows [of "expand_row_pkts items" "replicate m []"] assms(4) by (auto simp: bands_distinct_def)
  have "in_step ?p [] ?e" by (simp add: in_step_def)
  then obtain e p where e: "compile_loop h ell ?ccs ?e = Inr e" "sy_rows e = rows" "stream_settle h ell ?ccs ?p = Inr p" "in_step p items e"
    "length (st_fams p) = length ?ccs" using loop_in_step [of h ell ?ccs ?e items rows ?p "[]"] assms(3) rows by auto
  obtain B where B: "stream_new h ell n_ops ?ccs = Inr (p\<lparr>st_base_c := B\<rparr>)" using new_base [OF e(3) assms(2)] by blast
  have idx: "snd (st_index (p\<lparr>st_base_c := B\<rparr>)) = index_bands items" "st_cur (p\<lparr>st_base_c := B\<rparr>) = sy_n e"
    "concat (map fams_quads (st_fams (p\<lparr>st_base_c := B\<rparr>))) = enumerate 0 (sy_quads e)" using e(4) by (simp_all add: in_step_def index_bands_def)
  have "sweep (p\<lparr>st_base_c := B\<rparr>) n_ops 0 [0..<length ?ccs] = Inr (enumerate 0 (sy_quads e))"
    using sweep_fires [of 0 "length ?ccs" "p\<lparr>st_base_c := B\<rparr>" n_ops] e(5) assms(2) idx(3) by simp
  then show ?thesis using e(1) B idx chunk_stream_eager [OF assms(1) d(1-3) rows d(4) assms(5, 6) refl, of chal]
    unfolding compile_with_chs_def e(2) [symmetric] by (intro exI conjI) simp_all
qed
text \<open>Two additions of two slots each, laid out one row per variable: of distinct variables, and of a
  variable to itself.\<close>

definition add_heap :: heap where
  "add_heap = fresh_heap\<lparr>h_row := int\<rparr>"

definition add_of :: "nat \<Rightarrow> nat \<Rightarrow> nat \<Rightarrow> claim" where
  "add_of a b c = AddClaim \<lparr>ac_a = new_variable a ''a'' 2 1 False False False, ac_b = new_variable b ''b'' 2 1 False False False,
     ac_c = new_variable c ''c'' 2 1 False False False, ac_length = 2, ac_public = None\<rparr>"

lemma add_of_compile:
  "compile_one add_heap 2 (add_of a b c) NoChal n = Inr (mk_compiled [PktAt (int a) (L2_IdentityScalar n (int a) 2 1),
     PktAt (int b) (L2_IdentityScalar n (int b) 2 1), PktAt (int c) (L2_IdentityScalar n (int c) 2 NEG1)] [] 2 None)"
  by (simp add: add_of_def add_compile_def id_pkts_def row_pkts_def n_rows_def new_variable_def row_start_def add_heap_def)

lemma replicate_two: "replicate 2 x = [x, x]"
  by (simp add: numeral_2_eq_2)

text \<open>
  Property C40 (\<open>stream_drops_duplicate\<close>): The key of a band is its kind, its first constraint and its
  first row, so the two bands of an addition of a variable to itself collide: the streaming index
  keeps one of them. The eager fold of \<open>x + x - c\<close> weighs the slots of \<open>x\<close> with two, the streamed
  fold with one.
\<close>
theorem stream_drops_duplicate:
  "\<exists>e p. compile_with_chs add_heap 2 [add_of 0 0 1] [NoChal] 2 = Inr e \<and> stream_new add_heap 2 1 (zip [add_of 0 0 1] [NoChal]) = Inr p \<and>
    chunk_rta (\<lambda>i. 1) 2 0 2 (eager_overlapping (sy_rows e) 0 2) = Inr [2, 2, FIELD_P - 1, FIELD_P - 1] \<and>
    chunk_rta (\<lambda>i. 1) 2 0 2 (bands_overlapping (build_row_lookup (snd (st_index p))) 0 2) = Inr [1, 1, FIELD_P - 1, FIELD_P - 1]"
proof -
  let ?x = "L2_IdentityScalar 0 0 2 1" and ?c = "L2_IdentityScalar 0 1 2 NEG1"
  obtain e where e: "compile_with_chs add_heap 2 [add_of 0 0 1] [NoChal] 2 = Inr e" "sy_rows e = [[?x, ?x], [?c]]"
    by (simp add: replicate_two compile_with_chs_def add_of_compile mk_compiled_def expand_row_pkts_def append_pkt_def py_pos_def)
  obtain p where p: "stream_new add_heap 2 1 (zip [add_of 0 0 1] [NoChal]) = Inr p" "snd (st_index p) = [(?x, 0, 1), (?c, 1, 2)]"
    by (simp add: stream_new_def stream_step_def add_of_compile mk_compiled_def band_key_def)
  have ok: "on_rows 2 [(?x, 0, 1), (?c, 1, 2)]" "on_rows 2 [(?x, 0, 1), (?x, 0, 1), (?c, 1, 2)]" by (simp_all add: on_rows_def)
  have eager: "flat (eager_overlapping [[?x, ?x], [?c]] 0 2) = [(?x, 0, 1), (?x, 0, 1), (?c, 1, 2)]"
    by (simp add: flat_def eager_overlapping_def upt_rec)
  have "separated [(?x, 0, 1), (?c, 1, 2)]" by (simp add: separated_def)
  then have stream: "flat (bands_overlapping (build_row_lookup [(?x, 0, 1), (?c, 1, 2)]) 0 2) = [(?x, 0, 1), (?c, 1, 2)]"
    by (simp add: overlapping_filter flat_lookup range_keys_def less_prod_def)
  note eval_simps = range_val_def contrib_def terms_value_def upt_rec FIELD_P_val NEG1_def
  have "chunk_rta (\<lambda>i. 1) 2 0 2 (eager_overlapping (sy_rows e) 0 2) = Inr [2, 2, FIELD_P - 1, FIELD_P - 1]"
    using chunk_value [where ell = 2 and os = "eager_overlapping [[?x, ?x], [?c]] 0 2" and lo = 0 and hi = 2] ok unfolding e(2) eager by (simp add: eval_simps)
  moreover have "chunk_rta (\<lambda>i. 1) 2 0 2 (bands_overlapping (build_row_lookup (snd (st_index p))) 0 2) = Inr [1, 1, FIELD_P - 1, FIELD_P - 1]"
    using chunk_value [where ell = 2 and os = "bands_overlapping (build_row_lookup [(?x, 0, 1), (?c, 1, 2)]) 0 2" and lo = 0 and hi = 2] ok
    unfolding p(2) stream by (simp add: eval_simps)
  ultimately show ?thesis using e(1) p(1) by blast
qed

end
