(* ===== verification/Stream_Pipeline.thy ===== *)
theory Stream_Pipeline
  imports Stream_Bands
begin

text \<open>
  The streaming prover on the pipeline's own input. Every compiler of \<^verbatim>\<open>prover/claims.py\<close> emits whole
  variables: a band is laid over all the rows of one variable, in one run. So the band index loses
  nothing when no claim puts two bands of one kind and one first constraint on the same variable
  (\<open>claim_keys\<close>), and the streamed chunk is the eager chunk for every laid-out and sampled list of
  claims. \<open>stream_drops_duplicate\<close> of \<open>Stream_Bands\<close> is what happens otherwise.
\<close>

section \<open>The bands of a claim\<close>

text \<open>A band laid over the rows of a variable, row by row or as one range.\<close>

type_synonym group = "variable \<times> band \<times> bool"

fun group_items :: "heap \<Rightarrow> nat \<Rightarrow> group \<Rightarrow> item list" where
  "group_items h ell (v, b, ranged) = (if ranged then [range_pkts h ell v b] else row_pkts h ell v b)"

definition id_group :: "heap \<Rightarrow> nat \<Rightarrow> nat \<Rightarrow> variable \<times> int \<Rightarrow> group" where
  "id_group h bs L vk = (fst vk, L2_IdentityScalar bs (row_start h (fst vk)) L (snd vk), False)"

definition rescale_groups :: "heap \<Rightarrow> variable \<Rightarrow> rescale_part \<Rightarrow> nat \<Rightarrow> nat \<Rightarrow> group list" where
  "rescale_groups h c r L cur =
     map (id_group h cur L) [(rp_full r, 1), (c, neg_coef (2 ^ rp_bits r)), (rp_low r, neg_coef 1)] @
     map (id_group h (cur + L) L) [(rp_shifted r, 1), (c, neg_coef 1)]"

fun concat_groups :: "heap \<Rightarrow> nat \<Rightarrow> nat \<Rightarrow> variable list \<Rightarrow> group list" where
  "concat_groups h bs off [] = []"
| "concat_groups h bs off (v # vs) = id_group h (bs + off) (v_length v) (v, 1) # concat_groups h bs (off + v_length v) vs"

definition matmul_groups :: "heap \<Rightarrow> matmul_claim \<Rightarrow> int list \<Rightarrow> int list \<Rightarrow> nat \<Rightarrow> group list" where
  "matmul_groups h c rho lam bs =
     (let H = mc_heads c; K = mc_head_dim c; k = mc_k c; m = mc_m c; n = mc_n c;
          cf = (case mc_rescale c of None \<Rightarrow> mc_C c | Some r \<Rightarrow> rp_full r);
          neg_rho = map (\<lambda>v. (- v) mod FIELD_P) rho; neg_lam = map (\<lambda>v. (- v) mod FIELD_P) lam
      in [id_group h bs k (mc_y c, 1), (mc_B c, L2_FreivaldsLF1B bs (row_start h (mc_B c)) k n H K (mc_transpose c) neg_rho, False),
          id_group h (bs + k) k (mc_u c, 1), (mc_A c, L2_FreivaldsLF2A (bs + k) (row_start h (mc_A c)) k m H K neg_lam, False),
          (mc_p c, L2_StrideManyToOneScalar (bs + 2 * k) (row_start h (mc_p c)) k K 1, False),
          (cf, L2_FreivaldsLF3C (bs + 2 * k) (row_start h cf) m n H (m * H * n) lam rho, False)] @
        (case mc_rescale c of None \<Rightarrow> [] | Some r \<Rightarrow> rescale_groups h (mc_C c) r (m * H * n) (bs + 2 * k + H)))"

definition table_groups :: "heap \<Rightarrow> ltable \<Rightarrow> nat \<Rightarrow> group list" where
  "table_groups h t bs =
     (let T_LEN = length (tb_T t); w_coef = map (\<lambda>v. (alpha_of h t - v) mod FIELD_P) (table_values h t); sum_cid = bs + T_LEN
      in [(tb_w t, L2_PerSlotVector bs (row_start h (tb_w t)) T_LEN w_coef, True),
          (tb_mult t, L2_IdentityScalar bs (row_start h (tb_mult t)) T_LEN NEG1, True)] @
        map (\<lambda>z. (z, L2_StrideManyToOneScalar sum_cid (row_start h z) (v_length z) (v_length z) 1, True)) (tb_z t) @
        [(tb_w t, L2_StrideManyToOneScalar sum_cid (row_start h (tb_w t)) T_LEN T_LEN NEG1, True)])"

fun claim_groups :: "heap \<Rightarrow> claim \<Rightarrow> chal \<Rightarrow> nat \<Rightarrow> group list" where
  "claim_groups h (MatmulClaim c) (MatChal rho lam) bs = matmul_groups h c rho lam bs"
| "claim_groups h (MatmulClaim c) NoChal bs = []"
| "claim_groups h (LinCombClaim c) ch bs = map (id_group h bs (lc_length c)) (map (\<lambda>(v, k). (v, k mod FIELD_P)) (zip (lc_xs c) (lc_coefs c)))"
| "claim_groups h (AddClaim c) ch bs = (case ac_public c of
     Some v \<Rightarrow> [id_group h bs (ac_length c) (ac_a c, 1)]
   | None \<Rightarrow> map (id_group h bs (ac_length c)) [(ac_a c, 1), (ac_b c, 1), (ac_c c, NEG1)])"
| "claim_groups h (ConcatClaim c) ch bs = id_group h bs (v_length (cc_dst c)) (cc_dst c, NEG1) # concat_groups h bs 0 (cc_srcs c)"
| "claim_groups h (HadamardClaim c) ch bs = (case hc_rescale c of None \<Rightarrow> [] | Some r \<Rightarrow> rescale_groups h (hc_c c) r (hc_length c) bs)"
| "claim_groups h (RangeWordClaim c) ch bs = []"
| "claim_groups h (WordExtractionClaim c) ch bs =
     map (id_group h bs (we_length c)) ((we_x c, 1) # map (\<lambda>(w, k). (w, neg_coef k)) (zip (we_words c) (we_coeffs c)))"
| "claim_groups h (PairedTlookupClaim c) ch bs =
     map (id_group h bs (pt_length c)) [(pt_u c, 1), (pt_x c, NEG1), (pt_y c, neg_coef (beta_of h (pt_table c)))]"
| "claim_groups h (TableSettlement t) ch bs = table_groups h t bs"

text \<open>
  The kind, the first constraint relative to the claim's own, and the variable of every band a claim
  emits; and the claims none of whose bands is empty.
\<close>

definition rescale_keys :: "variable \<Rightarrow> rescale_part \<Rightarrow> nat \<Rightarrow> nat \<Rightarrow> (nat \<times> nat \<times> nat) list" where
  "rescale_keys c r L cur = [(0, cur, v_id (rp_full r)), (0, cur, v_id c), (0, cur, v_id (rp_low r)), (0, cur + L, v_id (rp_shifted r)), (0, cur + L, v_id c)]"

fun concat_keys :: "nat \<Rightarrow> variable list \<Rightarrow> (nat \<times> nat \<times> nat) list" where
  "concat_keys off [] = []"
| "concat_keys off (v # vs) = (0, off, v_id v) # concat_keys (off + v_length v) vs"

fun claim_keys :: "claim \<Rightarrow> (nat \<times> nat \<times> nat) list" where
  "claim_keys (MatmulClaim c) =
     (let k = mc_k c in
      [(0, 0, v_id (mc_y c)), (10, 0, v_id (mc_B c)), (0, k, v_id (mc_u c)), (11, k, v_id (mc_A c)), (4, 2 * k, v_id (mc_p c)),
       (12, 2 * k, v_id (case mc_rescale c of None \<Rightarrow> mc_C c | Some r \<Rightarrow> rp_full r))] @
      (case mc_rescale c of None \<Rightarrow> [] | Some r \<Rightarrow> rescale_keys (mc_C c) r (mc_m c * mc_heads c * mc_n c) (2 * k + mc_heads c)))"
| "claim_keys (LinCombClaim c) = map (\<lambda>v. (0, 0, v_id v)) (lc_xs c)"
| "claim_keys (AddClaim c) = map (\<lambda>v. (0, 0, v_id v)) (if ac_public c = None then [ac_a c, ac_b c, ac_c c] else [ac_a c])"
| "claim_keys (ConcatClaim c) = (0, 0, v_id (cc_dst c)) # concat_keys 0 (cc_srcs c)"
| "claim_keys (HadamardClaim c) = (case hc_rescale c of None \<Rightarrow> [] | Some r \<Rightarrow> rescale_keys (hc_c c) r (hc_length c) 0)"
| "claim_keys (RangeWordClaim c) = []"
| "claim_keys (WordExtractionClaim c) = map (\<lambda>v. (0, 0, v_id v)) (we_x c # we_words c)"
| "claim_keys (PairedTlookupClaim c) = map (\<lambda>v. (0, 0, v_id v)) [pt_u c, pt_x c, pt_y c]"
| "claim_keys (TableSettlement t) =
     [(1, 0, v_id (tb_w t)), (0, 0, v_id (tb_mult t))] @ map (\<lambda>z. (4, length (tb_T t), v_id z)) (tb_z t) @ [(4, length (tb_T t), v_id (tb_w t))]"

fun claim_nonempty :: "claim \<Rightarrow> bool" where
  "claim_nonempty (MatmulClaim c) \<longleftrightarrow> 0 < mc_m c"
| "claim_nonempty (LinCombClaim c) \<longleftrightarrow> 0 < lc_length c"
| "claim_nonempty (AddClaim c) \<longleftrightarrow> 0 < ac_length c"
| "claim_nonempty (ConcatClaim c) \<longleftrightarrow> True"
| "claim_nonempty (HadamardClaim c) \<longleftrightarrow> 0 < hc_length c"
| "claim_nonempty (RangeWordClaim c) \<longleftrightarrow> True"
| "claim_nonempty (WordExtractionClaim c) \<longleftrightarrow> 0 < we_length c"
| "claim_nonempty (PairedTlookupClaim c) \<longleftrightarrow> 0 < pt_length c"
| "claim_nonempty (TableSettlement t) \<longleftrightarrow> tb_T t \<noteq> []"

section \<open>Every compiler emits its groups\<close>

definition group_key :: "group \<Rightarrow> nat \<times> nat \<times> nat" where
  "group_key g = (case g of (v, b, ranged) \<Rightarrow> (band_kind b, b_base b, v_id v))"

definition group_ok :: "heap \<Rightarrow> nat \<Rightarrow> nat \<Rightarrow> nat \<Rightarrow> variable list \<Rightarrow> group \<Rightarrow> bool" where
  "group_ok h ell lo hi vs g = (case g of (v, b, ranged) \<Rightarrow>
     v \<in> set vs \<and> b_row b = row_start h v \<and> band_ok ell b \<and> lo \<le> b_base b \<and> b_base b < hi)"

definition shift_key :: "nat \<Rightarrow> nat \<times> nat \<times> nat \<Rightarrow> nat \<times> nat \<times> nat" where
  "shift_key bs key = (case key of (k, off, i) \<Rightarrow> (k, bs + off, i))"

lemma id_group_simps [simp]:
  "group_items h ell (id_group h bs L vk) = id_pkts h ell bs L vk" "group_key (id_group h bs L vk) = (0, bs, v_id (fst vk))"
  "group_ok h ell lo hi vs (id_group h bs L vk) \<longleftrightarrow> fst vk \<in> set vs \<and> lo \<le> bs \<and> bs < hi"
  by (cases vk; simp add: id_group_def id_pkts_def group_key_def group_ok_def)+

lemma concat_groups_spec:
  "concat (map (group_items h ell) (concat_groups h bs off vs)) = concat_srcs h ell bs off vs"
  "map group_key (concat_groups h bs off vs) = map (shift_key bs) (concat_keys off vs)"
  by (induction vs arbitrary: off) (auto simp: shift_key_def)

lemma concat_groups_ok:
  "\<forall>v \<in> set vs. v \<in> set ws \<and> 0 < v_length v \<Longrightarrow> off + sum_list (map v_length vs) \<le> n \<Longrightarrow> g \<in> set (concat_groups h bs off vs) \<Longrightarrow>
   group_ok h ell bs (bs + n) ws g"
proof (induction vs arbitrary: off)
  case (Cons v vs)
  then show ?case using Cons.IH [of "off + v_length v"] by (cases "g = id_group h (bs + off) (v_length v) (v, 1)") auto
qed simp

lemma rescale_groups_spec:
  "concat (map (group_items h ell) (rescale_groups h c r L cur)) = rescale_items h ell c r L cur"
  "map group_key (rescale_groups h c r L (bs + off)) = map (shift_key bs) (rescale_keys c r L off)"
  by (simp_all add: rescale_groups_def rescale_items_def emit_lin_csr_idscalar_def rescale_keys_def shift_key_def)

lemma rescale_groups_ok:
  "0 < L \<Longrightarrow> lo \<le> cur \<Longrightarrow> cur + 2 * L \<le> hi \<Longrightarrow> {rp_full r, c, rp_low r, rp_shifted r} \<subseteq> set vs \<Longrightarrow>
   \<forall>g \<in> set (rescale_groups h c r L cur). group_ok h ell lo hi vs g"
  by (auto simp: rescale_groups_def)

text \<open>What a compiled claim consists of.\<close>

definition grouped :: "heap \<Rightarrow> nat \<Rightarrow> nat \<Rightarrow> claim \<Rightarrow> chal \<Rightarrow> compiled \<Rightarrow> bool" where
  "grouped h ell bs c ch cp \<longleftrightarrow> cp_items cp = concat (map (group_items h ell) (claim_groups h c ch bs)) \<and>
     map group_key (claim_groups h c ch bs) = map (shift_key bs) (claim_keys c) \<and>
     (\<forall>g \<in> set (claim_groups h c ch bs). group_ok h ell bs (bs + cp_added cp) (claim_vars c) g)"

lemmas grouped_simps = grouped_def mk_compiled_def claim_vars_def shift_key_def

lemma matmul_grouped:
  assumes "claim_ok (MatmulClaim c) (MatChal rho lam)" "claim_nonempty (MatmulClaim c)"
    and cp: "matmul_compile h ell c rho lam bs = Inr cp"
  shows "grouped h ell bs (MatmulClaim c) (MatChal rho lam) cp"
proof -
  let ?H = "mc_heads c" and ?K = "mc_head_dim c" and ?k = "mc_k c"
  have d: "?k = ?H * ?K" "0 < ?H" "0 < ?K" "0 < mc_n c" "0 < mc_m c" "0 < ?k" using assms(1,2) by (auto simp: matmul_ok_def Let_def)
  show ?thesis
  proof (cases "mc_rescale c")
    case None
    then show ?thesis using cp d
      by (auto simp: grouped_simps matmul_compile_def Let_def matmul_groups_def group_key_def [where g = "(_, _)"] group_ok_def [where g = "(_, _)"]
          rescale_fields_def)
  next
    case (Some r)
    let ?L = "mc_m c * ?H * mc_n c"
    have L: "0 < ?L" using d by simp
    have w: "rp_width r \<noteq> 0"
    proof
      assume "rp_width r = 0"
      then show False using cp by (simp add: matmul_compile_def Let_def Some)
    qed
    have cpe: "cp_items cp = concat (map (group_items h ell) (claim_groups h (MatmulClaim c) (MatChal rho lam) bs))" "cp_added cp = 2 * ?k + ?H + 2 * ?L"
      using cp w by (auto simp: matmul_compile_def Let_def Some mk_compiled_def matmul_groups_def rescale_groups_spec)
    have vs: "{rp_full r, mc_C c, rp_low r, rp_shifted r} \<subseteq> set (claim_vars (MatmulClaim c))"
      by (simp add: claim_vars_def rescale_fields_def Some)
    have rg: "\<forall>g \<in> set (rescale_groups h (mc_C c) r ?L (bs + 2 * ?k + ?H)). group_ok h ell bs (bs + cp_added cp) (claim_vars (MatmulClaim c)) g"
      using L vs by (intro rescale_groups_ok) (simp_all add: cpe(2))
    have "map group_key (claim_groups h (MatmulClaim c) (MatChal rho lam) bs) = map (shift_key bs) (claim_keys (MatmulClaim c))"
      using rescale_groups_spec(2) [of h "mc_C c" r ?L bs "2 * ?k + ?H"]
      by (simp add: matmul_groups_def Let_def Some shift_key_def [where key = "(_, _)"] group_key_def [where g = "(_, _)"] add.assoc)
    moreover have "\<forall>g \<in> set (claim_groups h (MatmulClaim c) (MatChal rho lam) bs). group_ok h ell bs (bs + cp_added cp) (claim_vars (MatmulClaim c)) g"
      using rg d vs by (auto simp: matmul_groups_def Let_def Some group_ok_def [where g = "(_, _)"] cpe(2) claim_vars_def)
    ultimately show ?thesis using cpe(1) by (simp add: grouped_def)
  qed
qed

lemma table_grouped:
  assumes "claim_nonempty (TableSettlement t)" "\<forall>v \<in> set (claim_vars (TableSettlement t)). 0 < v_length v"
    and cp: "table_settlement_compile h ell t bs = Inr cp"
  shows "grouped h ell bs (TableSettlement t) ch cp"
  using assms
  by (auto simp: grouped_simps table_settlement_compile_def Let_def table_groups_def group_key_def [where g = "(_, _)"] group_ok_def [where g = "(_, _)"] comp_def)

lemma zip_keys: "length vs \<le> length ks \<Longrightarrow> map (\<lambda>x. (0 :: nat, bs, v_id (fst x))) (zip vs ks) = map (\<lambda>v. (0, bs, v_id v)) vs"
proof (induction vs arbitrary: ks)
  case (Cons v vs)
  then show ?case by (cases ks) auto
qed simp

lemma compile_grouped:
  assumes "claim_ok c ch" "claim_nonempty c" "\<forall>v \<in> set (claim_vars c). 0 < v_length v" "compile_one h ell c ch bs = Inr cp"
  shows "grouped h ell bs c ch cp"
proof (cases c)
  case (MatmulClaim mc)
  then show ?thesis using assms matmul_grouped by (cases ch) auto
next
  case (LinCombClaim lc)
  show ?thesis using assms zip_keys [of "lc_xs lc" "lc_coefs lc" bs]
    by (auto simp: LinCombClaim grouped_simps lincomb_compile_def Let_def comp_def split_def split: if_splits dest: set_zip_leftD)
next
  case (AddClaim ac)
  then show ?thesis using assms by (auto simp: grouped_simps add_compile_def Let_def split: option.splits)
next
  case (ConcatClaim cc)
  then show ?thesis using assms concat_groups_ok [of "cc_srcs cc" "claim_vars c" 0]
    by (auto simp: grouped_simps concat_compile_def Let_def concat_groups_spec split: if_splits)
next
  case (HadamardClaim hc)
  show ?thesis
  proof (cases "hc_rescale hc")
    case None
    then show ?thesis using assms by (auto simp: HadamardClaim grouped_simps hadamard_compile_def Let_def)
  next
    case (Some r)
    have cp: "cp_items cp = rescale_items h ell (hc_c hc) r (hc_length hc) bs" "cp_added cp = 2 * hc_length hc"
      using assms(1,4) by (auto simp: HadamardClaim hadamard_compile_def Let_def Some mk_compiled_def)
    have "{rp_full r, hc_c hc, rp_low r, rp_shifted r} \<subseteq> set (claim_vars c)"
      by (simp add: HadamardClaim claim_vars_def rescale_fields_def Some)
    then have "\<forall>g \<in> set (rescale_groups h (hc_c hc) r (hc_length hc) bs). group_ok h ell bs (bs + cp_added cp) (claim_vars c) g"
      using assms(2) by (intro rescale_groups_ok) (simp_all add: HadamardClaim cp(2))
    then show ?thesis using rescale_groups_spec(2) [of h "hc_c hc" r "hc_length hc" bs 0]
      by (simp add: HadamardClaim grouped_def Some rescale_groups_spec(1) cp(1))
  qed
next
  case (RangeWordClaim rc)
  then show ?thesis using assms by (auto simp: grouped_simps range_word_compile_def)
next
  case (WordExtractionClaim wc)
  show ?thesis using assms zip_keys [of "we_words wc" "we_coeffs wc" bs]
    by (auto simp: WordExtractionClaim grouped_simps word_extract_compile_def Let_def comp_def split_def split: if_splits dest: set_zip_leftD)
next
  case (PairedTlookupClaim pc)
  then show ?thesis using assms by (auto simp: grouped_simps paired_tlookup_compile_def Let_def)
next
  case (TableSettlement t)
  then show ?thesis using assms table_grouped by auto
qed
section \<open>The claims together\<close>

lemma shift_distinct: "distinct ks \<Longrightarrow> distinct (map (shift_key bs) ks)"
  by (auto simp: distinct_map inj_on_def shift_key_def split: prod.splits)

lemma group_ok_weaken: "group_ok h ell lo hi vs g \<Longrightarrow> lo' \<le> lo \<Longrightarrow> hi \<le> hi' \<Longrightarrow> set vs \<subseteq> set vs' \<Longrightarrow> group_ok h ell lo' hi' vs' g"
  by (auto simp: group_ok_def split: prod.splits)

definition streamable :: "heap \<Rightarrow> nat \<Rightarrow> claim \<times> chal \<Rightarrow> bool" where
  "streamable h ell cc \<longleftrightarrow> (case cc of (c, ch) \<Rightarrow> claim_ok c ch \<and> claim_nonempty c \<and> distinct (claim_keys c) \<and>
     (\<forall>v \<in> set (claim_vars c). 0 < v_length v) \<and> (\<forall>bs. \<exists>cp. compile_one h ell c ch bs = Inr cp))"

lemma items_grouped:
  "\<forall>cc \<in> set ccs. streamable h ell cc \<Longrightarrow>
    \<exists>gs hi. compiled_items h ell ccs n = Inr (concat (map (group_items h ell) gs)) \<and> distinct (map group_key gs) \<and>
      (\<forall>g \<in> set gs. group_ok h ell n hi (concat (map (\<lambda>(c, ch). claim_vars c) ccs)) g)"
proof (induction ccs arbitrary: n)
  case (Cons cc ccs)
  obtain c ch where cc: "cc = (c, ch)" by (cases cc)
  have s: "claim_ok c ch" "claim_nonempty c" "distinct (claim_keys c)" "\<forall>v \<in> set (claim_vars c). 0 < v_length v"
    using Cons.prems by (auto simp: cc streamable_def)
  have "\<exists>cp. compile_one h ell c ch n = Inr cp" using Cons.prems by (simp add: cc streamable_def)
  then obtain cp where cp: "compile_one h ell c ch n = Inr cp" by blast
  note g = compile_grouped [OF s(1,2,4) cp, unfolded grouped_def]
  obtain gs hi where r: "compiled_items h ell ccs (n + cp_added cp) = Inr (concat (map (group_items h ell) gs))" "distinct (map group_key gs)"
    "\<forall>g \<in> set gs. group_ok h ell (n + cp_added cp) hi (concat (map (\<lambda>(c, ch). claim_vars c) ccs)) g"
    using Cons.IH [of "n + cp_added cp"] Cons.prems by auto
  let ?gs = "claim_groups h c ch n @ gs"
  have sep: "group_key x \<noteq> group_key y" if "x \<in> set (claim_groups h c ch n)" "y \<in> set gs" for x y
  proof -
    have "group_ok h ell n (n + cp_added cp) (claim_vars c) x" using g that(1) by blast
    then have "fst (snd (group_key x)) < n + cp_added cp" by (auto simp: group_ok_def group_key_def split: prod.splits)
    moreover have "n + cp_added cp \<le> fst (snd (group_key y))"
      using r(3) that(2) by (fastforce simp: group_ok_def group_key_def split: prod.splits)
    ultimately show ?thesis by auto
  qed
  have "distinct (map group_key (claim_groups h c ch n))" using g shift_distinct [OF s(3)] by simp
  then have "distinct (map group_key ?gs)" using r(2) sep by fastforce
  moreover have "compiled_items h ell (cc # ccs) n = Inr (concat (map (group_items h ell) ?gs))" using g cp r(1) by (simp add: cc)
  moreover have "\<forall>x \<in> set ?gs. group_ok h ell n (max (n + cp_added cp) hi) (concat (map (\<lambda>(c, ch). claim_vars c) (cc # ccs))) x"
  proof
    fix x assume "x \<in> set ?gs"
    then have "group_ok h ell n (n + cp_added cp) (claim_vars c) x \<or> group_ok h ell (n + cp_added cp) hi (concat (map (\<lambda>(c, ch). claim_vars c) ccs)) x"
      using g r(3) by auto
    then show "group_ok h ell n (max (n + cp_added cp) hi) (concat (map (\<lambda>(c, ch). claim_vars c) (cc # ccs))) x"
      by (elim disjE; elim group_ok_weaken) (auto simp: cc)
  qed
  ultimately show ?case by blast
next
  case Nil
  show ?case by (intro exI [of _ "[]"]) simp
qed

section \<open>Indexing whole variables\<close>

lemma tidy_append: "tidy st (xs @ ys) \<longleftrightarrow> tidy st xs \<and> tidy (foldl index_item st xs) ys"
  by (induction st xs rule: tidy.induct) auto

lemma index_rows:
  "0 < n \<Longrightarrow> seen (band_key b) = None \<Longrightarrow>
    tidy (seen, bands) (map (\<lambda>t. PktAt (rs + int t) b) [0..<n]) \<and>
    foldl index_item (seen, bands) (map (\<lambda>t. PktAt (rs + int t) b) [0..<n]) = (seen(band_key b \<mapsto> length bands), bands @ [(b, rs, rs + int n)])"
proof (induction n)
  case (Suc n)
  show ?case
  proof (cases "n = 0")
    case True
    then show ?thesis using Suc.prems by (auto simp: fun_eq_iff)
  next
    case False
    then show ?thesis using Suc by (simp add: tidy_append)
  qed
qed simp

definition group_range :: "heap \<Rightarrow> nat \<Rightarrow> group \<Rightarrow> band_range" where
  "group_range h ell g = (case g of (v, b, ranged) \<Rightarrow> (b, row_start h v, row_start h v + int (n_rows v ell)))"

definition group_band :: "group \<Rightarrow> key" where
  "group_band g = band_key (fst (snd g))"

lemma index_group:
  assumes "0 < n_rows (fst g) ell" "seen (group_band g) = None"
  shows "tidy (seen, bands) (group_items h ell g) \<and>
    foldl index_item (seen, bands) (group_items h ell g) = (seen(group_band g \<mapsto> length bands), bands @ [group_range h ell g])"
proof -
  obtain v b ranged where g: "g = (v, b, ranged)" by (cases g)
  show ?thesis using assms index_rows [of "n_rows v ell" seen b bands "row_start h v"]
    by (cases ranged) (simp_all add: g group_band_def group_range_def row_pkts_def range_pkts_def)
qed

lemma index_groups:
  "distinct (map group_band gs) \<Longrightarrow> \<forall>g \<in> set gs. 0 < n_rows (fst g) ell \<and> seen (group_band g) = None \<Longrightarrow>
    tidy (seen, bands) (concat (map (group_items h ell) gs)) \<and>
    snd (foldl index_item (seen, bands) (concat (map (group_items h ell) gs))) = bands @ map (group_range h ell) gs"
proof (induction gs arbitrary: seen bands)
  case (Cons g gs)
  define seen1 bands1 where "seen1 = seen(group_band g \<mapsto> length bands)" and "bands1 = bands @ [group_range h ell g]"
  have 1: "tidy (seen, bands) (group_items h ell g)" "foldl index_item (seen, bands) (group_items h ell g) = (seen1, bands1)"
    using index_group [of g ell seen bands h] Cons.prems(2) unfolding seen1_def bands1_def by auto
  have "group_band x \<noteq> group_band g" if "x \<in> set gs" for x using Cons.prems(1) that by (force simp: image_iff)
  then have "\<forall>x \<in> set gs. 0 < n_rows (fst x) ell \<and> seen1 (group_band x) = None"
    using Cons.prems(2) by (simp add: seen1_def)
  then have "tidy (seen1, bands1) (concat (map (group_items h ell) gs)) \<and>
      snd (foldl index_item (seen1, bands1) (concat (map (group_items h ell) gs))) = bands1 @ map (group_range h ell) gs"
    using Cons.IH [of seen1 bands1] Cons.prems(1) by simp
  then show ?case using 1 by (simp add: tidy_append bands1_def)
qed simp

section \<open>The streamed chunk of the pipeline\<close>

text \<open>Bands of whole variables that lie apart satisfy what the index needs.\<close>

lemma groups_distinct:
  assumes gk: "distinct (map group_key gs)" and ok: "\<forall>g \<in> set gs. group_ok h ell 0 hi vs g"
    and rows: "\<forall>v \<in> set vs. placed h ell m v \<and> 0 < n_rows v ell"
    and apart: "\<forall>v \<in> set vs. \<forall>w \<in> set vs. v = w \<or> row_start h v + int (n_rows v ell) \<le> row_start h w \<or>
      row_start h w + int (n_rows w ell) \<le> row_start h v"
  shows "bands_distinct ell m (concat (map (group_items h ell) gs))"
proof -
  let ?items = "concat (map (group_items h ell) gs)"
  have mem: "fst g \<in> set vs" "b_row (fst (snd g)) = row_start h (fst g)" "band_ok ell (fst (snd g))" if "g \<in> set gs" for g
    using bspec [OF ok that] by (cases g; simp add: group_ok_def)+
  have start: "v = w" if "v \<in> set vs" "w \<in> set vs" "row_start h v = row_start h w" for v w
    using apart rows that by (smt (verit) of_nat_0_less_iff)
  have "inj_on group_band (set gs)"
  proof (rule inj_onI)
    fix x y assume a: "x \<in> set gs" "y \<in> set gs" "group_band x = group_band y"
    obtain v b r w c q where xy: "x = (v, b, r)" "y = (w, c, q)" by (cases x; cases y)
    have "band_kind b = band_kind c" "b_base b = b_base c" "row_start h v = row_start h w"
      using a mem(2) [OF a(1)] mem(2) [OF a(2)] by (simp_all add: xy group_band_def band_key_def)
    moreover from this have "v = w" using start mem(1) [OF a(1)] mem(1) [OF a(2)] by (simp add: xy)
    ultimately have "group_key x = group_key y" by (simp add: xy group_key_def)
    then show "x = y" using gk a(1,2) by (auto simp: distinct_map dest: inj_onD)
  qed
  then have gb: "distinct (map group_band gs)" using gk by (simp add: distinct_map)
  have idx: "tidy (\<lambda>_. None, []) ?items" "index_bands ?items = map (group_range h ell) gs"
    using index_groups [OF gb, of ell "\<lambda>_. None" "[]" h] rows mem(1) by (simp_all add: index_bands_def)
  have "separated (map (group_range h ell) gs)"
  proof -
    let ?r = "\<lambda>g. row_start h (fst g)" and ?n = "\<lambda>g. int (n_rows (fst g) ell)"
    have gr: "group_range h ell g = (fst (snd g), ?r g, ?r g + ?n g)" for g by (cases g) (simp add: group_range_def)
    have "(?r x, ?r x + ?n x) = (?r y, ?r y + ?n y) \<or> ?r x + ?n x \<le> ?r y \<or> ?r y + ?n y \<le> ?r x"
      if "x \<in> set gs" "y \<in> set gs" for x y
      using bspec [OF bspec [OF apart mem(1) [OF that(1)]] mem(1) [OF that(2)]] by auto
    then show ?thesis unfolding separated_def by (simp add: gr)
  qed
  moreover have "\<forall>x \<in> set (map item_range ?items). case x of (b, rs, re) \<Rightarrow> band_ok ell b \<and> b_row b \<le> rs"
  proof
    fix x assume "x \<in> set (map item_range ?items)"
    then obtain g where g: "g \<in> set gs" "x \<in> item_range ` set (group_items h ell g)" by auto
    obtain v b r where "g = (v, b, r)" by (cases g)
    then show "case x of (b, rs, re) \<Rightarrow> band_ok ell b \<and> b_row b \<le> rs"
      using g(2) mem(2,3) [OF g(1)] by (auto simp: row_pkts_def range_pkts_def split: if_splits)
  qed
  moreover have "items_in m ?items"
    unfolding items_in_simps(3)
  proof
    fix its assume "its \<in> set (map (group_items h ell) gs)"
    then obtain g where g: "g \<in> set gs" "its = group_items h ell g" by auto
    obtain v b r where "g = (v, b, r)" by (cases g)
    then show "items_in m its" using g(2) mem(1) [OF g(1)] rows by (auto simp: items_in_rows items_in_range)
  qed
  ultimately show ?thesis using idx by (simp add: bands_distinct_def on_rows_def items_in_def)
qed

lemma rows_positive: "0 < ell \<Longrightarrow> 0 < v_length v \<Longrightarrow> 0 < n_rows v ell"
  by (simp add: n_rows_def div_greater_zero_iff)

lemma reached_order:
  assumes "do_layout claims ell h = (ly, h')" "inj_on v_id (set (reached claims))"
    "\<forall>v \<in> set (reached claims). \<not> v_external v \<and> v_phase v \<in> {1, 2, 3}"
  shows "set (reached claims) \<subseteq> set (order ly)"
proof
  fix v assume v: "v \<in> set (reached claims)"
  then have "v_id v \<in> v_id ` set (add_vars [] (reached claims))" using add_vars_set [of "[]" "reached claims"] by simp
  then obtain w where w: "w \<in> set (add_vars [] (reached claims))" "v_id w = v_id v" by force
  then have "w \<in> set (reached claims)" using add_vars_set [of "[]" "reached claims"] by auto
  then have "w = v" using assms(2) v w(2) by (auto dest: inj_onD)
  then show "v \<in> set (order ly)" using layout_vars [OF assms(1)] w(1) assms(3) v by auto
qed
text \<open>
  Property C9 (\<open>stream_matches_eager\<close>): the streaming prover computes the eager system. Take any
  claims of fitting shapes, none of whose bands is empty and none of which puts two bands of one kind
  and one first constraint on the same variable (a property of each claim alone, \<open>claim_keys\<close>),
  whose variables are identified by their identity, non-empty and committed in phases 1 to 3.
  Settlements synthesised, rows laid out and challenges sampled, the eager driver and the streaming
  constructor both return; on every chunk of rows and for all challenges, the fold over the
  deduplicated band index found by bisection is the fold over the eager per-row lists, and both
  succeed; and sweeping the claims in order fires the eager quadratic constraints, each with its
  position in the eager list.
\<close>

theorem stream_matches_eager:
  assumes ell: "0 < ell" and lay: "with_synthesized_settlements claims = settled" "do_layout settled ell h = (ly, h1)"
    and c: "\<forall>c \<in> set settled. claim_fits c \<and> claim_nonempty c \<and> distinct (claim_keys c)" and seed: "seed_bytes s_op = Inr sb"
    and v: "inj_on v_id (set (reached settled))" "\<forall>v \<in> set (reached settled). \<not> v_external v \<and> v_phase v \<in> {1, 2, 3} \<and> 0 < v_length v"
    and n: "n_ops \<le> length settled"
  shows "\<exists>s chs h2 p. compile_all H settled s_op ell (ly_total ly) h1 = Inr (s, chs, h2) \<and> stream_new h2 ell n_ops (zip settled chs) = Inr p \<and>
    (\<forall>chal lo hi. lo \<le> hi \<and> hi \<le> ly_total ly \<longrightarrow>
      (\<exists>w. chunk_rta chal ell (int lo) (int hi) (bands_overlapping (build_row_lookup (snd (st_index p))) (int lo) (int hi)) = Inr w \<and>
        chunk_rta chal ell (int lo) (int hi) (eager_overlapping (sy_rows s) lo hi) = Inr w)) \<and>
    st_cur p = sy_n s \<and> sweep p n_ops 0 [0..<length settled] = Inr (enumerate 0 (sy_quads s))"
proof -
  have fits: "\<forall>c \<in> set settled. claim_fits c" and ph: "\<forall>v \<in> set (reached settled). \<not> v_external v \<and> v_phase v \<in> {1, 2, 3}"
    using c v(2) by auto
  obtain chs h2 where ch: "sample_chs H s_op 0 settled h1 = Inr (chs, h2)" "length chs = length settled" "h_row h2 = h_row h1"
    "\<forall>(c, ch) \<in> set (zip settled chs). claim_ok c ch"
    using sample_chs_total [OF seed fits] by blast
  note pl = reached_placed [OF lay(2) ch(3) v(1) ph]
  have st: "streamable h2 ell cc" if "cc \<in> set (zip settled chs)" for cc
  proof -
    obtain d e where cc: "cc = (d, e)" by (cases cc)
    have d: "d \<in> set settled" "claim_ok d e" using that ch(4) by (auto simp: cc dest: set_zip_leftD)
    have "\<forall>v \<in> set (claim_vars d). placed h2 ell (ly_total ly) v \<and> 0 < v_length v" using pl [OF d(1)] v(2) d(1) by (auto simp: reached_def)
    then show ?thesis using c d compile_one_emits [OF ell d(2), of h2 "ly_total ly"] unfolding cc streamable_def by blast
  qed
  obtain gs hi where gs: "compiled_items h2 ell (zip settled chs) 0 = Inr (concat (map (group_items h2 ell) gs))" "distinct (map group_key gs)"
    "\<forall>g \<in> set gs. group_ok h2 ell 0 hi (concat (map (\<lambda>(c, ch). claim_vars c) (zip settled chs))) g"
    using items_grouped [of "zip settled chs" h2 ell 0] st by blast
  have vs: "concat (map (\<lambda>(c, ch). claim_vars c) (zip settled chs)) = reached settled"
    using ch(2) by (simp add: reached_def split_def flip: map_map [of claim_vars fst, unfolded comp_def])
  have rs: "row_start h2 w = row_start h1 w" for w using ch(3) by (simp add: row_start_def)
  have "bands_distinct ell (ly_total ly) (concat (map (group_items h2 ell) gs))"
  proof (rule groups_distinct [OF gs(2)])
    show "\<forall>g \<in> set gs. group_ok h2 ell 0 hi (reached settled) g" using gs(3) unfolding vs .
    show "\<forall>w \<in> set (reached settled). placed h2 ell (ly_total ly) w \<and> 0 < n_rows w ell"
      using pl v(2) rows_positive [OF ell] by (auto simp: reached_def)
    show "\<forall>x \<in> set (reached settled). \<forall>y \<in> set (reached settled). x = y \<or> row_start h2 x + int (n_rows x ell) \<le> row_start h2 y \<or>
        row_start h2 y + int (n_rows y ell) \<le> row_start h2 x"
      using order_disjoint [OF lay(2)] reached_order [OF lay(2) v(1) ph] unfolding rs by blast
  qed
  note run = stream_eager_items [OF ell _ gs(1) this]
  have nz: "n_ops \<le> length (zip settled chs)" "length (zip settled chs) = length settled" using n ch(2) by simp_all
  obtain s p where sp: "compile_with_chs h2 ell settled chs (ly_total ly) = Inr s" "stream_new h2 ell n_ops (zip settled chs) = Inr p"
    "st_cur p = sy_n s" "sweep p n_ops 0 [0..<length settled] = Inr (enumerate 0 (sy_quads s))"
    using run [OF nz(1) le_refl le0, of "\<lambda>_. 0"] unfolding nz(2) by blast
  have "\<exists>w. chunk_rta chal ell (int lo) (int hi) (bands_overlapping (build_row_lookup (snd (st_index p))) (int lo) (int hi)) = Inr w \<and>
        chunk_rta chal ell (int lo) (int hi) (eager_overlapping (sy_rows s) lo hi) = Inr w" if "lo \<le> hi" "hi \<le> ly_total ly" for chal lo hi
    using run [OF nz(1) that, of chal] sp(1, 2) by auto
  then show ?thesis using sp ch(1) by (intro exI [of _ s] exI [of _ chs] exI [of _ h2] exI [of _ p]) (simp add: compile_all_def)
qed

theorem stream_matches_eager_witness:
  "\<exists>ly h1 s chs h2 p. do_layout (with_synthesized_settlements toy_claims) 2 fresh_heap = (ly, h1) \<and> 0 < ly_total ly \<and>
     compile_all (\<lambda>b. replicate 32 1) (with_synthesized_settlements toy_claims) (SeedInt 5) 2 (ly_total ly) h1 = Inr (s, chs, h2) \<and>
     stream_new h2 2 3 (zip (with_synthesized_settlements toy_claims) chs) = Inr p \<and>
     (\<exists>w. chunk_rta (\<lambda>i. 7) 2 (int 0) (int (ly_total ly)) (bands_overlapping (build_row_lookup (snd (st_index p))) (int 0) (int (ly_total ly))) = Inr w \<and>
        chunk_rta (\<lambda>i. 7) 2 (int 0) (int (ly_total ly)) (eager_overlapping (sy_rows s) 0 (ly_total ly)) = Inr w)"
proof -
  let ?cs = "with_synthesized_settlements toy_claims"
  obtain ly h1 where ly: "do_layout ?cs 2 fresh_heap = (ly, h1)" by fastforce
  have sb: "seed_bytes (SeedInt 5) = Inr (le_bytes 32 5)" by (simp add: to_bytes_def)
  have fits: "\<forall>c \<in> set ?cs. claim_fits c \<and> claim_nonempty c \<and> distinct (claim_keys c)" unfolding toy_settled
    by (simp add: toy_claims_def toy_matmul_def toy_table_def matmul_ok_def toy_v_def new_variable_def)
  have r: "set (reached ?cs) = {toy_v 0 2 1, toy_v 1 2 1, toy_v 2 1 1, toy_v 3 2 2, toy_v 4 2 2, toy_v 5 2 2, toy_v 6 3 1, toy_v 7 3 2, toy_v 8 2 2, toy_v 9 2 1}"
    unfolding toy_settled by (auto simp: reached_def toy_claims_def claim_vars_def toy_matmul_def toy_table_def rescale_fields_def)
  then have v: "inj_on v_id (set (reached ?cs))" "\<forall>v \<in> set (reached ?cs). \<not> v_external v \<and> v_phase v \<in> {1, 2, 3} \<and> 0 < v_length v"
    by (simp_all add: toy_v_def new_variable_def)
  have n: "3 \<le> length ?cs" unfolding toy_settled by (simp add: toy_claims_def)
  have "0 < ly_total ly" using layout_order [OF ly] by (simp add: NUM_BLINDING_ROWS_def)
  then show ?thesis
    using stream_matches_eager [OF _ refl ly fits sb v n, where H = "\<lambda>b. replicate 32 1"] ly by fastforce
qed

end
