(* ===== verification/Spec2Isabelle.thy ===== *)
theory Spec2Isabelle
  imports VI_Prelude Gl_Prime Goldilocks Polys Ntt Ntt_Apps Bytes Merkle ReedSolomon Fs_Coins
    Transcript_FS Sumcheck Projection LogUp Relations Moe Layer TopK ShardPlan Sha256_Ref Sha256 Token_Recorder Aes Aes_Sound
    Aes_Honest Aes_Layout Aes_Sites Semantics Semantics_Sound Count_Model
    Bands Claims_Core Claims Claims_Sem Claims_Exact Claims_System Claims_Layout Claims_Sound Stream_Bands
    Stream_Pipeline
begin

text \<open>
  A model of the arithmetic core of the VerInf prover, translated from the Python sources, with the
  theorems that make it correct.

  \<^bold>\<open>The program.\<close> VerInf proves that a language-model inference was computed by the committed model.
  Values live in the Goldilocks field of \<open>P = 2^64 - 2^32 + 1\<close>. The prover lays witness variables out
  in rows of \<open>ELL\<close> slots, encodes each row by a Reed-Solomon code, commits to the columns by a Merkle
  tree, turns every claim (a matrix product, a lookup, a rescale) into linear bands and quadratic
  families, and answers the verifier's coins. A second prover, \<^verbatim>\<open>layergkr\<close>, proves whole layers by
  sumchecks over the same commitments, with a transcript that enforces the order of commitments and
  coins. Reference constraint layouts for SHA-256 and AES-128 bind tokens and random masks.

  \<^bold>\<open>Conventions.\<close> Python integers are \<open>int\<close> (or \<open>nat\<close> where the code keeps them non-negative), and
  field elements are integers reduced by \<open>mod FIELD_P\<close> where the code reduces them; the proofs move to the
  field type \<open>gl\<close> of \<open>Goldilocks\<close>. An operation that can raise returns \<open>error + 'a\<close>: each \<open>raise\<close>,
  failed \<open>assert\<close> and index out of range of the source is an \<open>Inl\<close>, and \<open>rbind\<close> sequences
  (\<open>VI_Prelude\<close>). The hash function (BLAKE3) is a parameter \<open>H\<close> of every definition that hashes;
  soundness statements exhibit a collision of \<open>H\<close> instead of assuming there is none. Soundness of
  an interactive argument is stated by counting: an accepted false statement puts a coin into a set
  fixed before the coin was drawn, of bounded size. Python objects compared by identity
  (\<open>Variable\<close>, \<open>Table\<close>) carry an identifier, and the fields assigned later (\<open>row_start\<close>, \<open>alpha\<close>,
  \<open>beta\<close>) are a store indexed by it.

  \<^bold>\<open>The theories.\<close> In the order of their dependence:

  \<^item> \<open>Gl_Prime\<close>, \<open>Goldilocks\<close> (\<^verbatim>\<open>prover/protocol.py\<close>, \<^verbatim>\<open>prover/ref/goldilocks_ref.py\<close>,
    \<^verbatim>\<open>layergkr/field.py\<close>): primality of the modulus, the field operations, inverses by Fermat and
    Euclid, batch inversion, roots of unity.
  \<^item> \<open>Polys\<close> (\<^verbatim>\<open>prover/ref/polynomials.py\<close>): Horner evaluation, products, Lagrange evaluation and
    coefficients. \<open>Ntt\<close>, \<open>Ntt_Apps\<close>: the in-place transform with its loops, shown to be the direct
    evaluation at powers of the root and inverted by the inverse transform; the four-step transform
    and multiplication by transforms.
  \<^item> \<open>Bytes\<close>, \<open>Merkle\<close>: byte encodings, leaves, tree construction, paths and their verifier. The
    locale \<open>vector_commitment\<close> states what a client of a commitment may rely on and is interpreted
    on the Merkle functions.
  \<^item> \<open>ReedSolomon\<close>: the domains and assertions of \<open>Config\<close>, row encoding, combinations of
    codewords, the distance. The locale \<open>linear_code\<close> is interpreted on the encoder.
  \<^item> \<open>Fs_Coins\<close>, \<open>Transcript_FS\<close> (\<^verbatim>\<open>prover/protocol.py\<close>, \<^verbatim>\<open>layergkr/transcript.py\<close>): challenges,
    column sampling, seeds; the transcript as a state machine. Its step relation is \<open>t_step\<close>; the
    schedule is an invariant of every reachable state, the log determines the digest up to collisions,
    and a schedule can be completed from every reachable state.
  \<^item> \<open>Sumcheck\<close> (\<^verbatim>\<open>layergkr/sumcheck.py\<close>): prover, verifiers and the mask tape, completeness and
    soundness. The flag \<open>masked\<close> and the value \<open>final_mask\<close> come with the proof, so soundness asks that
    they are what a mask fixed beforehand carries along the challenges (\<open>mask_authentic\<close>, which the
    prover's own proofs satisfy); an unmasked proof needs nothing.
  \<^item> \<open>Projection\<close> (\<^verbatim>\<open>layergkr/projection.py\<close>, \<^verbatim>\<open>layergkr/rs.py\<close>), \<open>LogUp\<close>, \<open>Relations\<close>, \<open>Moe\<close>,
    \<open>Layer\<close>: the arguments of a layer, each the prover and the verifier of the file of that name,
    with completeness and soundness, and the composition of a chain of layers.
  \<^item> \<open>Semantics\<close>, \<open>Semantics_Sound\<close>, \<open>Count_Model\<close> (\<^verbatim>\<open>layergkr/semantics.py\<close>,
    \<^verbatim>\<open>layergkr/count_model.py\<close>): the integer forward pass that records a trace, the trace checker, and
    the closed-form counts; when the pass raises and which error, and that the trace it returns passes
    the checker.
  \<^item> \<open>TopK\<close>, \<open>ShardPlan\<close>: the reference routing relations and their guards; validation of plans that
    split weight rows over devices.
  \<^item> \<open>Sha256_Ref\<close>, \<open>Sha256\<close>, \<open>Token_Recorder\<close>, \<open>Aes\<close>, \<open>Aes_Honest\<close>, \<open>Aes_Sound\<close>, \<open>Aes_Sites\<close>,
    \<open>Aes_Layout\<close> (\<^verbatim>\<open>prover/ref\<close>): the two constraint layouts, refined against the abstract functions
    (SHA-256 on words in \<open>Sha256_Ref\<close>; AES-128-CTR as the recorder computes it), and the record of
    tokens.
  \<^item> \<open>Bands\<close> (\<^verbatim>\<open>prover/packets.py\<close>, \<open>_lower_geometry\<close> and \<open>_lower_band\<close> of \<^verbatim>\<open>prover/core.py\<close>,
    the kernels of \<^verbatim>\<open>prover/cuda_primitives.py\<close>): the fifteen band templates with their documented
    terms, the launch descriptors and the per-slot kernels.
  \<^item> \<open>Claims_Core\<close>, \<open>Claims\<close> (\<^verbatim>\<open>prover/core.py\<close>, \<^verbatim>\<open>prover/claims.py\<close>): variables, tables, claims, the
    layout walk \<open>_layout\<close>, the compilers, settlements, challenge sampling and the eager driver
    \<open>_compile_with_chs\<close>. \<open>Claims_Sem\<close> says what bands and families mean for a witness,
    \<open>Claims_Exact\<close> states the relation each claim documents and shows that its compiler emits it,
    \<open>Claims_System\<close> and \<open>Claims_Layout\<close> compose this into the pipeline, and \<open>Claims_Sound\<close> says what the
    relations imply for values committed before the challenges.
  \<^item> \<open>Stream_Bands\<close> (\<open>_StreamingPackets\<close>, \<open>_EagerBands\<close>, \<open>_compute_q_lin_inner_chunk\<close>): the streaming
    prover's band index and the fold of one chunk of rows, equal to the eager one when no two bands
    share a key. \<open>Stream_Pipeline\<close> derives that condition from the claims and the layout, when no claim
    puts two bands of one kind and one first constraint on the same variable.

  \<^bold>\<open>How the parts interact.\<close> \<open>Merkle\<close> and \<open>ReedSolomon\<close> give \<open>Projection\<close> its commitments;
  \<open>Transcript_FS\<close> gives every argument its coins; \<open>Sumcheck\<close> carries \<open>LogUp\<close>, \<open>Relations\<close> and \<open>Layer\<close>.
  On the claim side the state is the store of row starts and table challenges and the \<open>system\<close>
  record (per-row bands, quadratic constraints, right-hand sides, number of linear constraints);
  \<open>do_layout\<close> fills the first, \<open>compile_loop\<close> extends the second claim by claim, and the streaming
  compile keeps a \<open>stream\<close> record in step with it (\<open>in_step\<close>).

  \<^bold>\<open>The main theorems.\<close>

  \<^item> Commitments and coins: \<open>merkle_column_binding\<close>, \<open>projection_sound\<close>, \<open>projection_complete\<close>,
    \<open>encode_row_distance\<close>, \<open>transcript_binding\<close>, \<open>schedule_enforced\<close>, \<open>schedule_live\<close>,
    \<open>random_columns_total\<close>. Binding of a Merkle root is about two accepted openings, and the transcript
    digest determines the logs up to what is not hashed: the numbers of coins drawn.
  \<^item> Interactive arguments: \<open>sumcheck_sound\<close>, \<open>sumcheck_complete\<close>, \<open>relations_sound\<close>,
    \<open>relations_complete\<close>, \<open>logup_complete\<close>, \<open>logup_identity_sound\<close>, \<open>scan_sound\<close>,
    \<open>permutation_sound\<close>, \<open>moe_identity\<close>, \<open>chain_complete\<close>, \<open>routing_sound\<close>.
    The lookup identity is stated for tuples: compression by \<open>beta\<close> and the sums at \<open>alpha\<close> are counted
    together.
  \<^item> Claims: \<open>lowering_exact\<close>, \<open>layout_tiles\<close>, \<open>pipeline_exact\<close>, \<open>freivalds_sound\<close>,
    \<open>range_lookup_sound\<close>, \<open>rescale_exact\<close>, \<open>stream_matches_eager\<close>.
  \<^item> Layouts and semantics: \<open>sha_layout_sound\<close>, \<open>aes_layout_sound\<close>, \<open>aes_ctr_correct\<close>,
    \<open>aes_sites_complete\<close>, \<open>forward_checks\<close>, \<open>forward_errors\<close>, \<open>trace_shape_exact\<close>,
    \<open>validate_runs_exact\<close>.
  \<^item> What the code does not guarantee: \<open>logup_sums_unchecked\<close> (the verifier never compares the sums of
    the lookup identity), \<open>layer_output_unbound\<close> (nothing ties a layer's output root to its proof),
    \<open>rescale_remainder_loose\<close> (a remainder is only bounded by the table), \<open>batch_mask_free\<close> (nothing
    ties the final mask of a batch proof to a committed mask), \<open>stream_drops_duplicate\<close> (a
    claim that uses one variable twice loses a band in the streaming index).

  \<^bold>\<open>Bounds and termination.\<close> All recursions are structural or come with a measure. The rejection loop of
  the column sampler is the only loop whose end depends on the hash: it stops with an error once its
  counter outgrows eight bytes, and \<open>random_columns_total\<close> says which coins make it return before. The bisection of the band index has the measure
  \<open>hi - lo\<close>. Where the code packs integers into eight bytes or indexes by two-byte lengths, the
  bounds are hypotheses or error branches.

  \<^bold>\<open>Not modelled.\<close> The device branches (torch and CUDA implementations of routines modelled by their
  reference or by what one thread computes), the \<open>charge\<close> and \<open>stage\<close> accounting, file, JSON and command-line
  input and output, weight formats, the random draw of test weights, floating-point cost models and
  measurements. Plan runs whose entries are not integers, which Python would reject with a
  \<open>TypeError\<close> of its own, are outside the type. The square root of a table index, truncated from a floating-point power in
  the source, is the integer square root: the two agree on indices far beyond the table sizes used. The activation claims (SiLU, RMSNorm, softmax, RoPE,
  embedding) and the device auxiliaries of the claims are left out: their packets are modelled in
  \<open>Bands\<close>, their compilers are not. The routing, maximum and information claims of the streaming prover
  run over tensors; for the routing claim the relation is modelled from its reference. The
  sampled-audit protocols compose modelled arguments with policies over files and timings.
\<close>

end
